(* ===== verification/Prelude.thy ===== *)
theory Prelude
  imports Main "HOL-Library.Word"
begin

unbundle bit_operations_syntax

text \<open>
  Shared vocabulary of the development: the machine integers of the C++ sources as words,
  the ways an operation of the program can fail, little lemmas on lists that are updated
  by index, and two collections of facts the component proofs share.
\<close>

section \<open>Machine integers\<close>

text \<open>\<open>uint64_t\<close> / \<open>size_t\<close>, \<open>int64\<close> (read with \<^const>\<open>sint\<close>), \<open>uint32_t\<close>, \<open>uint16_t\<close>, \<open>uint8_t\<close>.\<close>

type_synonym u64 = "64 word"
type_synonym u32 = "32 word"
type_synonym u16 = "16 word"
type_synonym u8 = "8 word"

section \<open>Failures\<close>

text \<open>
  A glog \<open>CHECK\<close> or \<open>LOG(FATAL)\<close> and a C \<open>assert\<close> end the process; \<open>Throw\<close> is a C++
  exception that carries its message; \<open>Bad_access\<close> is a read or write through a null pointer
  or past a buffer; \<open>Div_by_zero\<close> an integer division by 0; \<open>No_return\<close> stands for a call that does not return.
\<close>

datatype failure = Check_failed | Log_fatal | Assert_failed | Bad_access | Div_by_zero | No_return | Throw string

type_synonym 'a result = "failure + 'a"

definition bind_result :: "'a result \<Rightarrow> ('a \<Rightarrow> 'b result) \<Rightarrow> 'b result" where
  "bind_result r f = (case r of Inl e \<Rightarrow> Inl e | Inr x \<Rightarrow> f x)"

definition is_ok :: "'a result \<Rightarrow> bool" where
  "is_ok r = (case r of Inl _ \<Rightarrow> False | Inr _ \<Rightarrow> True)"

lemma bind_result_simps [simp]:
  "bind_result (Inl e) f = Inl e"
  "bind_result (Inr x) f = f x"
  by (simp_all add: bind_result_def)

lemma bind_result_Inr_iff:
  "bind_result r f = Inr y \<longleftrightarrow> (\<exists>x. r = Inr x \<and> f x = Inr y)"
  by (cases r) auto

lemma bind_result_Inl_iff:
  "bind_result r f = Inl e \<longleftrightarrow> r = Inl e \<or> (\<exists>x. r = Inr x \<and> f x = Inl e)"
  by (cases r) auto

lemma is_ok_simps [simp]: "is_ok (Inr x)" "\<not> is_ok (Inl e)"
  by (simp_all add: is_ok_def)

lemma bind_result_InrE:
  assumes "bind_result r f = Inr y"
  obtains x where "r = Inr x" and "f x = Inr y"
  using assms by (auto simp: bind_result_Inr_iff)

section \<open>Collections of facts\<close>

named_theorems word_facts \<open>words read as numbers, and bits of shifted and masked words\<close>
named_theorems frame_facts \<open>fields an operation leaves as they are\<close>

section \<open>Words\<close>

lemma word_eq_unat_iff [word_facts]: "(a :: 'a::len word) = b \<longleftrightarrow> unat a = unat b"
  by (simp add: word_unat_eq_iff)

lemma word_and_mask_mod: "unat (w AND mask n) = unat (w :: 'a::len word) mod 2 ^ n"
  unfolding take_bit_eq_mask [symmetric] unsigned_take_bit_eq by (rule take_bit_eq_mod)

lemma unat_drop_bit_div: "unat (drop_bit n (w :: 'a::len word)) = unat w div 2 ^ n"
  by (simp only: unat_drop_bit_eq) (simp only: drop_bit_eq_div)

lemma unat_of_nat_small: "n < 2 ^ 64 \<Longrightarrow> unat (of_nat n :: u64) = n"
  unfolding unsigned_of_nat by (simp add: take_bit_eq_mod)

lemma unat_power_2: assumes "k < 64" shows "unat ((2 :: u64) ^ k) = 2 ^ k"
proof -
  have "(2 :: nat) ^ k < 2 ^ 64" using assms by (intro power_strict_increasing) auto
  from unat_of_nat_small [OF this] show ?thesis by simp
qed

text \<open>The bytes of a word, low byte first, as \<open>memcpy\<close> and pointer casts read them on the target machines.\<close>

fun le_word :: "u8 list \<Rightarrow> u64" where
  "le_word [] = 0"
| "le_word (b # bs) = ucast b OR push_bit 8 (le_word bs)"

lemma bit_le_word:
  "bit (le_word bs) n \<longleftrightarrow> n < 64 \<and> n div 8 < length bs \<and> bit (bs ! (n div 8)) (n mod 8)"
proof (induction bs arbitrary: n)
  case (Cons b bs)
  show ?case
  proof (cases "n < 8")
    case True
    then show ?thesis by (simp add: bit_or_iff bit_push_bit_iff bit_unsigned_iff)
  next
    case False
    then obtain m where m: "n = m + 8" by (metis add.commute le_Suc_ex not_less)
    have "\<not> bit b (m + 8)" by (auto dest: bit_imp_le_length)
    moreover have "(m + 8) div 8 = Suc (m div 8)" "(m + 8) mod 8 = m mod 8" by simp_all
    ultimately show ?thesis using Cons.IH [of m]
      by (auto simp only: m le_word.simps bit_or_iff bit_push_bit_iff bit_unsigned_iff nth_Cons_Suc list.size)
        (auto dest: bit_imp_le_length)
  qed
qed simp

section \<open>Lists updated by index\<close>

lemma nth_list_update_cases:
  "i < length xs \<Longrightarrow> xs[i := x] ! j = (if i = j then x else xs ! j)"
  by simp

lemma list_update_self: "xs[i := xs ! i] = xs"
  by simp

text \<open>The first index of a list that satisfies a predicate: the shape of the sources' slot scans.\<close>

fun first_index :: "('a \<Rightarrow> bool) \<Rightarrow> 'a list \<Rightarrow> nat option" where
  "first_index P [] = None"
| "first_index P (x # xs) = (if P x then Some 0 else map_option Suc (first_index P xs))"

lemma first_index_SomeD:
  "first_index P xs = Some i \<Longrightarrow> i < length xs \<and> P (xs ! i) \<and> (\<forall>j < i. \<not> P (xs ! j))"
proof (induction xs arbitrary: i)
  case Nil
  then show ?case by simp
next
  case (Cons x xs)
  show ?case
  proof (cases "P x")
    case True
    with Cons.prems show ?thesis by simp
  next
    case False
    with Cons.prems obtain k where k: "first_index P xs = Some k" "i = Suc k" by auto
    from Cons.IH [OF k(1)] k(2) False show ?thesis
      by (auto simp: less_Suc_eq_0_disj)
  qed
qed

lemma first_index_None_iff: "first_index P xs = None \<longleftrightarrow> (\<forall>x \<in> set xs. \<not> P x)"
  by (induction xs) auto

lemma first_index_SomeI:
  assumes "i < length xs" and "P (xs ! i)" and "\<And>j. j < i \<Longrightarrow> \<not> P (xs ! j)"
  shows "first_index P xs = Some i"
proof (cases "first_index P xs")
  case None
  with assms(1,2) show ?thesis by (auto simp: first_index_None_iff)
next
  case (Some k)
  then have "k < length xs" "P (xs ! k)" "\<forall>j < k. \<not> P (xs ! j)"
    by (auto dest: first_index_SomeD)
  with assms show ?thesis using Some by (metis linorder_neqE_nat)
qed

lemma first_index_uptD:
  assumes "first_index P [0..<m] = Some i"
  shows "i < m" and "P i" and "\<And>j. j < i \<Longrightarrow> \<not> P j"
  using first_index_SomeD [OF assms] by (auto simp del: upt_Suc)

lemma first_index_upt_None: "first_index P [0..<m] = None \<longleftrightarrow> (\<forall>i < m. \<not> P i)"
  by (auto simp: first_index_None_iff simp del: upt_Suc)

lemma first_index_upt_SomeI:
  "i < m \<Longrightarrow> P i \<Longrightarrow> (\<And>j. j < i \<Longrightarrow> \<not> P j) \<Longrightarrow> first_index P [0..<m] = Some i"
  by (rule first_index_SomeI) (simp_all del: upt_Suc)

end
