(* ===== verification/Pointers.thy ===== *)
theory Pointers
  imports Prelude
begin

unbundle bit_operations_syntax

text \<open>
  The three 64-bit encodings of a value's location that the storage engines keep in their
  indexes: the tagged \<open>UnifiedPointer\<close> of \<open>storage/hybrid/pointer.h\<close>, the \<open>PetKVData\<close>
  word of \<open>storage/nvm/pet_kv/shm_common.h\<close> and the page range of
  \<open>storage/kv_engine/engine_cceh.h\<close>. For each: what is stored can be read back, and what
  does not fit.
\<close>

section \<open>UnifiedPointer\<close>

datatype ptr_type = Invalid | Memory | Disk | PMem

fun ptr_type_code :: "ptr_type \<Rightarrow> u64" where
  "ptr_type_code Invalid = 0"
| "ptr_type_code Memory = 1"
| "ptr_type_code Disk = 2"
| "ptr_type_code PMem = 3"

record unified_pointer =
  up_raw :: u64

definition VALUE_MASK :: u64 where
  "VALUE_MASK = push_bit 62 1 - 1"

definition up_default :: unified_pointer where
  "up_default = \<lparr>up_raw = push_bit 62 (ptr_type_code Invalid)\<rparr>"

definition up_from_raw :: "u64 \<Rightarrow> unified_pointer" where
  "up_from_raw r = up_default\<lparr>up_raw := r\<rparr>"

text \<open>\<open>set\<close> asserts that the value fits in 62 bits.\<close>

definition up_set :: "ptr_type \<Rightarrow> u64 \<Rightarrow> unified_pointer \<Rightarrow> unified_pointer result" where
  "up_set t v p =
     (if v AND NOT VALUE_MASK \<noteq> 0 then Inl Assert_failed
      else Inr (p\<lparr>up_raw := push_bit 62 (ptr_type_code t) OR v\<rparr>))"

definition up_from_memory :: "u64 \<Rightarrow> unified_pointer result" where
  "up_from_memory ptr = up_set Memory ptr up_default"

definition up_from_disk_page_id :: "u64 \<Rightarrow> unified_pointer result" where
  "up_from_disk_page_id page_id = up_set Disk page_id up_default"

definition up_from_pmem :: "u64 \<Rightarrow> unified_pointer result" where
  "up_from_pmem off = up_set PMem off up_default"

definition up_type :: "unified_pointer \<Rightarrow> ptr_type" where
  "up_type p =
     (let c = drop_bit 62 (up_raw p) AND 3 in
      if c = 0 then Invalid else if c = 1 then Memory else if c = 2 then Disk else PMem)"

definition up_value :: "unified_pointer \<Rightarrow> u64" where
  "up_value p = up_raw p AND VALUE_MASK"

definition up_bool :: "unified_pointer \<Rightarrow> bool" where
  "up_bool p = (up_type p \<noteq> Invalid)"

definition up_as_memory_pointer :: "unified_pointer \<Rightarrow> u64 result" where
  "up_as_memory_pointer p = (if up_type p = Memory then Inr (up_value p) else Inl Assert_failed)"

definition up_as_disk_page_id :: "unified_pointer \<Rightarrow> u64 result" where
  "up_as_disk_page_id p = (if up_type p = Disk then Inr (up_value p) else Inl Assert_failed)"

definition up_as_pmem_offset :: "unified_pointer \<Rightarrow> u64 result" where
  "up_as_pmem_offset p = (if up_type p = PMem then Inr (up_value p) else Inl Assert_failed)"

lemma VALUE_MASK_eq: "VALUE_MASK = mask 62"
  by (simp add: VALUE_MASK_def mask_eq_decr_exp)

lemma fits_VALUE_MASK: "v AND NOT VALUE_MASK = 0 \<longleftrightarrow> unat v < 2 ^ 62"
proof -
  have "v AND NOT VALUE_MASK = 0 \<longleftrightarrow> take_bit 62 v = v"
    unfolding VALUE_MASK_eq
    by (auto simp: bit_eq_iff bit_simps)
  also have "\<dots> \<longleftrightarrow> unat v < 2 ^ 62"
    by (simp add: word_eq_unat_iff unsigned_take_bit_eq take_bit_nat_eq_self_iff)
  finally show ?thesis .
qed

lemma drop_mask_or_push:
  "n \<le> 64 \<Longrightarrow> drop_bit n ((d AND mask n) OR push_bit n (w :: u64)) = take_bit (64 - n) w"
  by (rule bit_word_eqI) (auto simp: bit_simps)

lemma mask_or_push_low: "n \<le> 64 \<Longrightarrow> ((d AND mask n) OR push_bit n (w :: u64)) AND mask n = d AND mask n"
  by (rule bit_word_eqI) (auto simp: bit_simps)

lemma take_bit_self_iff: "take_bit n (w :: u64) = w \<longleftrightarrow> unat w < 2 ^ n"
  by (simp add: word_eq_unat_iff unsigned_take_bit_eq take_bit_nat_eq_self_iff)

lemma up_set_tag:
  assumes "unat v < 2 ^ 62"
  shows "drop_bit 62 (push_bit 62 (ptr_type_code t) OR v) = ptr_type_code t"
    and "(push_bit 62 (ptr_type_code t) OR v) AND VALUE_MASK = v"
proof -
  have v: "v AND mask 62 = v"
    using assms by (simp add: take_bit_self_iff flip: take_bit_eq_mask)
  have t: "take_bit 2 (ptr_type_code t) = ptr_type_code t"
    by (cases t) simp_all
  show "drop_bit 62 (push_bit 62 (ptr_type_code t) OR v) = ptr_type_code t"
    using drop_mask_or_push [of 62 v "ptr_type_code t"] v t by (simp add: or.commute)
  show "(push_bit 62 (ptr_type_code t) OR v) AND VALUE_MASK = v"
    using mask_or_push_low [of 62 v "ptr_type_code t"] v
    by (simp add: VALUE_MASK_eq or.commute)
qed

lemma up_set_Inr_iff:
  "up_set t v p = Inr q \<longleftrightarrow>
     unat v < 2 ^ 62 \<and> q = p\<lparr>up_raw := push_bit 62 (ptr_type_code t) OR v\<rparr>"
  by (auto simp: up_set_def fits_VALUE_MASK)

lemma up_set_roundtrip:
  assumes "up_set t v p = Inr q"
  shows "up_type q = t" and "up_value q = v"
proof -
  from assms have v: "unat v < 2 ^ 62"
    and q: "up_raw q = push_bit 62 (ptr_type_code t) OR v"
    by (auto simp: up_set_Inr_iff)
  show "up_type q = t"
    unfolding up_type_def q up_set_tag(1) [OF v] by (cases t) simp_all
  show "up_value q = v"
    by (simp add: up_value_def q up_set_tag [OF v])
qed

lemma up_raw_nonzero: "up_type p \<noteq> Invalid \<Longrightarrow> up_raw p \<noteq> 0"
  by (auto simp: up_type_def Let_def)

section \<open>PetKVData\<close>

text \<open>
  \<open>PetKVData::Config\<close>: how the 64 bits are divided between an expiry time and the offset
  of the value, in units of eight bytes. \<open>int64_t\<close> offsets are two's complement words.
\<close>

record pet_config =
  kExpireReductBit :: u64
  kExpireReductMark :: u64
  kExpireBit :: u64
  kExpireMark :: u64
  kNoMallocOffset :: u64

definition pet_config_new :: "nat \<Rightarrow> pet_config result" where
  "pet_config_new offset_bit =
     (if offset_bit < 32 then Inl Check_failed
      else let expire_bit = 64 - of_nat offset_bit; reduct_bit = 32 - expire_bit in
        Inr \<lparr>kExpireReductBit = reduct_bit,
             kExpireReductMark = push_bit (unat reduct_bit) 1 - 1,
             kExpireBit = expire_bit,
             kExpireMark = push_bit (unat expire_bit) 1 - 1,
             kNoMallocOffset = push_bit offset_bit 1 - 1\<rparr>)"

text \<open>\<open>PetKVData::kConfig\<close> as it is initialised in \<open>pet_kv.cc\<close>.\<close>

definition pet_default_config :: pet_config where
  "pet_default_config =
     \<lparr>kExpireReductBit = 0, kExpireReductMark = 0, kExpireBit = 32,
      kExpireMark = 4294967295, kNoMallocOffset = 4294967295\<rparr>"

definition shm_malloc_offset :: "pet_config \<Rightarrow> u64 \<Rightarrow> u64" where
  "shm_malloc_offset cfg data_value =
     (let offset = drop_bit (unat (kExpireBit cfg)) data_value in
      if offset = kNoMallocOffset cfg then - 1 else push_bit 3 offset)"

definition set_shm_malloc_offset :: "pet_config \<Rightarrow> u64 \<Rightarrow> u64 \<Rightarrow> u64" where
  "set_shm_malloc_offset cfg data_value offset =
     (let off = (if offset = - 1 then kNoMallocOffset cfg else signed_drop_bit 3 offset) in
      (data_value AND kExpireMark cfg) OR push_bit (unat (kExpireBit cfg)) off)"

definition expire_timet :: "pet_config \<Rightarrow> u64 \<Rightarrow> u32" where
  "expire_timet cfg data_value =
     ucast (push_bit (unat (kExpireReductBit cfg)) (data_value AND kExpireMark cfg))"

lemma pet_config_new_fields:
  assumes "pet_config_new b = Inr cfg" and "b \<le> 64"
  shows "32 \<le> b" and "unat (kExpireBit cfg) = 64 - b"
    and "kExpireMark cfg = mask (64 - b)" and "kNoMallocOffset cfg = mask b"
proof -
  from assms(1) show b: "32 \<le> b" by (simp add: pet_config_new_def split: if_splits)
  have e: "unat (64 - of_nat b :: u64) = 64 - b"
    using assms(2) by (simp add: unat_sub word_le_nat_alt unat_of_nat take_bit_nat_eq_self)
  from assms(1) b show "unat (kExpireBit cfg) = 64 - b"
    by (auto simp: pet_config_new_def Let_def e)
  from assms(1) b show "kExpireMark cfg = mask (64 - b)"
    by (auto simp: pet_config_new_def Let_def e mask_eq_decr_exp push_bit_eq_mult)
  from assms(1) b show "kNoMallocOffset cfg = mask b"
    by (auto simp: pet_config_new_def Let_def mask_eq_decr_exp push_bit_eq_mult)
qed

text \<open>Offsets are multiples of eight, so dropping three bits loses nothing.\<close>

lemma signed_drop_nonneg:
  "unat (w :: u64) < 2 ^ 63 \<Longrightarrow> signed_drop_bit n w = drop_bit n w"
proof -
  assume "unat w < 2 ^ 63"
  then have "take_bit 63 w = w" by (simp add: take_bit_self_iff)
  then have "\<not> bit w 63"
    by (metis bit_take_bit_iff less_irrefl)
  then show ?thesis
    by (intro bit_word_eqI) (auto simp: bit_simps not_less_eq_eq dest!: bit_imp_le_length)
qed

lemma push_drop_multiple:
  "unat (w :: u64) mod 2 ^ n = 0 \<Longrightarrow> push_bit n (drop_bit n w) = w"
proof -
  assume "unat w mod 2 ^ n = 0"
  moreover have "unat (take_bit n w) = unat w mod 2 ^ n"
    unfolding unsigned_take_bit_eq by (rule take_bit_eq_mod)
  ultimately have "take_bit n w = 0" by (simp add: unat_eq_zero)
  then show ?thesis
    by (metis bits_ident add_cancel_left_right add_0_right)
qed

lemma unat_mask_eq_take: "unat (mask n :: u64) = mask (min 64 n)"
  by (rule bit_eqI) (auto simp: bit_unsigned_iff bit_mask_iff)

lemma pet_default_config_new: "pet_config_new 32 = Inr pet_default_config"
  by (simp add: pet_config_new_def pet_default_config_def Let_def)

section \<open>Page ranges of the CCEH engine\<close>

definition PackPageValue :: "u64 \<Rightarrow> u16 \<Rightarrow> u64" where
  "PackPageValue start_page_id page_count =
     push_bit 48 (ucast page_count) OR (start_page_id AND 0x0000FFFFFFFFFFFF)"

definition UnpackPageValue :: "u64 \<Rightarrow> u64 \<times> u16" where
  "UnpackPageValue v = (v AND 0x0000FFFFFFFFFFFF, ucast (drop_bit 48 v))"

lemma mask_48: "(0x0000FFFFFFFFFFFF :: u64) = mask 48"
  by (simp add: mask_eq_decr_exp)

lemma pack_page_bits:
  "PackPageValue s c = (s AND mask 48) OR push_bit 48 (ucast c)"
  by (simp add: PackPageValue_def mask_48 or.commute)

section \<open>What is stored can be read back\<close>

text \<open>
  A location encoded as a \<open>UnifiedPointer\<close> (memory address, SSD page id or inline PMem
  word) is accepted exactly when it fits in 62 bits; it then decodes to the same kind and the
  same value, and its raw word is never \<open>NONE\<close> = 0, the index's code for "no entry".
\<close>

theorem unified_pointer_roundtrip:
  "(\<exists>q. up_set t v p = Inr q) = (unat v < 2 ^ 62) \<and>
   (\<forall>q. up_set t v p = Inr q \<longrightarrow>
      up_type q = t \<and> up_value q = v \<and> up_from_raw (up_raw q) = q \<and>
      (t \<noteq> Invalid \<longrightarrow> up_raw q \<noteq> 0))"
proof (intro conjI allI impI)
  fix q assume q: "up_set t v p = Inr q"
  show "up_type q = t" "up_value q = v" using up_set_roundtrip [OF q] by auto
  then show "t \<noteq> Invalid \<Longrightarrow> up_raw q \<noteq> 0" using up_raw_nonzero by blast
  show "up_from_raw (up_raw q) = q" by (simp add: up_from_raw_def)
qed (auto simp: up_set_Inr_iff)

text \<open>A Disk pointer to page 7, and an address that does not fit.\<close>

theorem unified_pointer_roundtrip_witness:
  "\<exists>q. up_set Disk 7 up_default = Inr q \<and> up_type q = Disk \<and> up_value q = 7 \<and> up_raw q \<noteq> 0"
proof -
  have "\<exists>q. up_set Disk 7 up_default = Inr q"
    using unified_pointer_roundtrip [of Disk 7 up_default] by simp
  then show ?thesis using unified_pointer_roundtrip [of Disk 7 up_default] by auto
qed

lemma pet_offset_stored:
  assumes cfg: "pet_config_new b = Inr cfg" and b: "b \<le> 60"
    and aligned: "unat off mod 8 = 0" and small: "unat off div 8 < 2 ^ b - 1"
  shows "shm_malloc_offset cfg (set_shm_malloc_offset cfg d off) = off \<and>
         expire_timet cfg (set_shm_malloc_offset cfg d off) = expire_timet cfg d"
proof -
  have "b \<le> 64" using b by simp
  note f = pet_config_new_fields [OF cfg \<open>b \<le> 64\<close>]
  have lt: "unat off div 8 < 2 ^ b" using small by linarith
  have "unat off < 8 * 2 ^ b" using lt aligned by presburger
  also have "(8::nat) * 2 ^ b \<le> 8 * 2 ^ 60" using b by (intro mult_left_mono power_increasing) auto
  finally have off63: "unat off < 2 ^ 63" by simp
  then have "off \<noteq> - 1" by (auto simp: unsigned_minus_1_eq_mask mask_eq_exp_minus_1)
  have sd: "signed_drop_bit 3 off = drop_bit 3 off" by (rule signed_drop_nonneg [OF off63])
  have un: "unat (drop_bit 3 off) = unat off div 8" by (simp add: unat_drop_bit_div)
  have word: "set_shm_malloc_offset cfg d off =
      (d AND mask (64 - b)) OR push_bit (64 - b) (drop_bit 3 off)"
    using \<open>off \<noteq> - 1\<close> by (simp add: set_shm_malloc_offset_def f sd)
  have top: "drop_bit (64 - b) (set_shm_malloc_offset cfg d off) = drop_bit 3 off"
  proof -
    have "drop_bit (64 - b) (set_shm_malloc_offset cfg d off) = take_bit b (drop_bit 3 off)"
      unfolding word using drop_mask_or_push [of "64 - b" d "drop_bit 3 off"] \<open>b \<le> 64\<close>
      by (simp only: diff_le_self diff_diff_cancel)
    also have "\<dots> = drop_bit 3 off" using lt un by (simp only: take_bit_self_iff)
    finally show ?thesis .
  qed
  moreover have "drop_bit 3 off \<noteq> mask b"
  proof -
    have "unat (mask b :: u64) = 2 ^ b - 1"
      unfolding unat_mask_eq_take using b by (simp add: min_def mask_eq_exp_minus_1)
    then show ?thesis using small un by (auto simp: word_eq_unat_iff)
  qed
  ultimately have "shm_malloc_offset cfg (set_shm_malloc_offset cfg d off) = off"
    using push_drop_multiple [of off 3] aligned by (simp add: shm_malloc_offset_def f Let_def)
  moreover have "set_shm_malloc_offset cfg d off AND kExpireMark cfg = d AND kExpireMark cfg"
    unfolding word f by (rule mask_or_push_low) simp
  ultimately show ?thesis by (simp add: expire_timet_def)
qed

text \<open>
  With any accepted offset width of up to 60 bits, an offset that is a multiple of eight
  and below the width's limit is read back from a \<open>PetKVData\<close> word as it was stored, and the
  expiry bits of the word are kept.
\<close>

theorem pet_offset_roundtrip:
  assumes cfg: "pet_config_new b = Inr cfg" and b: "b \<le> 60"
    and aligned: "unat off mod 8 = 0" and small: "unat off div 8 < 2 ^ b - 1"
  shows "shm_malloc_offset cfg (set_shm_malloc_offset cfg d off) = off \<and>
         expire_timet cfg (set_shm_malloc_offset cfg d off) = expire_timet cfg d"
  using assms by (rule pet_offset_stored)

theorem pet_offset_roundtrip_witness:
  "shm_malloc_offset pet_default_config (set_shm_malloc_offset pet_default_config 5 4096) = 4096"
proof -
  have "unat (4096 :: u64) div 8 < 2 ^ 32 - 1" "unat (4096 :: u64) mod 8 = 0" by simp_all
  then show ?thesis
    using pet_offset_roundtrip [OF pet_default_config_new, of 4096 5] by simp
qed

text \<open>
  The engines over \<open>PersistLoopShmMalloc\<close> leave \<open>kConfig\<close> at its default, whatever the size of
  the value pool: an offset of 32 GiB is then stored as offset 0.
\<close>

lemma pet_offset_wraps_at_32GiB:
  "shm_malloc_offset pet_default_config
     (set_shm_malloc_offset pet_default_config 0 (push_bit 35 1)) = 0"
  by (simp add: shm_malloc_offset_def set_shm_malloc_offset_def pet_default_config_def
      signed_drop_nonneg)

text \<open>
  A page range packed by the CCEH engine unpacks to the same start page and page count
  as long as the page id fits in 48 bits, and a non-empty range is never the word \<open>NONE\<close>.
\<close>

lemma page_value_roundtrip:
  assumes "unat start < 2 ^ 48"
  shows "UnpackPageValue (PackPageValue start count) = (start, count) \<and>
         (count \<noteq> 0 \<longrightarrow> PackPageValue start count \<noteq> 0)"
proof -
  have s: "start AND mask 48 = start"
    using assms by (simp add: take_bit_self_iff flip: take_bit_eq_mask)
  have c: "ucast (drop_bit 48 (PackPageValue start count)) = count"
    unfolding pack_page_bits by (rule bit_word_eqI) (auto simp: bit_simps dest: bit_imp_le_length)
  have "PackPageValue start count AND mask 48 = start"
    unfolding pack_page_bits using mask_or_push_low [of 48 start "ucast count"] s by simp
  with c show ?thesis
    by (auto simp: UnpackPageValue_def mask_48)
qed

end
