(* ===== verification/LoopMalloc.thy ===== *)
theory LoopMalloc
  imports Prelude "HOL-Library.AList"
begin

unbundle bit_operations_syntax

text \<open>
  \<open>PersistLoopShmMalloc\<close> (\<open>memory/allocators/persist_loop_slab_allocator\<close>): a loop-first-fit
  allocator over one shared-memory file. The file starts with a bitmap, one bit for each
  8-byte block of the data area that follows it. An allocation is a header block, which
  stays 0 in the bitmap and holds the byte size, and the data blocks, whose bits are 1.

  The file is modelled as its 64-bit words, bitmap and data area in one memory, because
  the code can read the bit just past the bitmap, which is the first data word. A pointer
  is its byte offset from \<open>data_\<close> (an \<open>int64\<close>).
\<close>

section \<open>State\<close>

record loop_malloc =
  shm :: "nat \<Rightarrow> u64"
  block_num :: nat
  last_malloc_block :: nat
  total_used :: int
  total_malloc :: int
  healthy_used :: nat
  enable_fast_malloc :: bool
  city_hash :: "u64 \<Rightarrow> u64"
  fast_malloc_lists :: "(u64 \<times> nat list) list"
  total_fast_malloc :: nat
  total_loop_malloc :: nat

definition max_fast_list_type :: nat where "max_fast_list_type = 32"
definition max_fast_list_num :: nat where "max_fast_list_num = 2 ^ 20"

section \<open>Bits and blocks\<close>

definition Used :: "loop_malloc \<Rightarrow> nat \<Rightarrow> bool" where
  "Used s index = (shm s (index div 64) AND push_bit (index mod 64) 1 \<noteq> 0)"

definition UseBlock :: "nat \<Rightarrow> loop_malloc \<Rightarrow> loop_malloc" where
  "UseBlock index s =
     s\<lparr>shm := (shm s)(index div 64 := shm s (index div 64) OR push_bit (index mod 64) 1)\<rparr>"

definition FreeBlock :: "nat \<Rightarrow> loop_malloc \<Rightarrow> loop_malloc" where
  "FreeBlock index s =
     s\<lparr>shm := (shm s)(index div 64 := shm s (index div 64) AND NOT (push_bit (index mod 64) 1))\<rparr>"

text \<open>\<open>Block()[i]\<close>: the data area begins right after the \<open>block_num >> 3\<close> bytes of the bitmap.\<close>

definition Block :: "loop_malloc \<Rightarrow> nat \<Rightarrow> u64" where
  "Block s i = shm s (block_num s div 64 + i)"

definition set_Block :: "nat \<Rightarrow> u64 \<Rightarrow> loop_malloc \<Rightarrow> loop_malloc" where
  "set_Block i w s = s\<lparr>shm := (shm s)(block_num s div 64 + i := w)\<rparr>"

text \<open>
  \<open>BlockNum(int)\<close>; a size word is narrowed from \<open>uint64\<close> to \<open>int\<close> by the call. The sum overflows \<open>int\<close> for the seven
  greatest sizes only, which \<open>ok_size\<close> excludes below.
\<close>

definition BlockNum :: "int \<Rightarrow> int" where
  "BlockNum memory_size = (memory_size + 7) div 8"

definition int_of_size_word :: "u64 \<Rightarrow> int" where
  "int_of_size_word w = sint (ucast w :: 32 word)"

definition BlockIndex :: "int \<Rightarrow> int" where
  "BlockIndex offset = offset div 8"

section \<open>Construction\<close>

function initial_block_num :: "nat \<Rightarrow> nat \<Rightarrow> nat" where
  "initial_block_num memory_size b =
     (if (b + 64) div 8 + (b + 64) * 8 \<le> memory_size
      then initial_block_num memory_size (b + 64) else b)"
  by pat_completeness auto
termination
  by (relation "measure (\<lambda>(m, b). m - b)") auto

declare initial_block_num.simps [simp del]

definition loop_Initialize :: "loop_malloc \<Rightarrow> loop_malloc" where
  "loop_Initialize s =
     s\<lparr>total_used := 0, total_malloc := 0, last_malloc_block := 0,
       shm := (\<lambda>w. if w < block_num s div 64 then 0 else shm s w)\<rparr>"

text \<open>
  The constructor over a mapped file with contents \<open>file\<close>; \<open>healthy\<close> is
  \<open>block_num_ * FLAGS_shm_malloc_healthy_rate\<close>, computed in floating point.
\<close>

definition loop_construct ::
  "(u64 \<Rightarrow> u64) \<Rightarrow> (nat \<Rightarrow> nat) \<Rightarrow> (nat \<Rightarrow> u64) \<Rightarrow> nat \<Rightarrow> loop_malloc" where
  "loop_construct city healthy file memory_size =
     (let b = initial_block_num memory_size 0 in
      loop_Initialize
        \<lparr>shm = file, block_num = b, last_malloc_block = 0, total_used = 0, total_malloc = 0,
         healthy_used = healthy b, enable_fast_malloc = True, city_hash = city,
         fast_malloc_lists = [], total_fast_malloc = 0, total_loop_malloc = 0\<rparr>)"

definition DisableFastMalloc :: "loop_malloc \<Rightarrow> loop_malloc" where
  "DisableFastMalloc s = s\<lparr>enable_fast_malloc := False\<rparr>"

definition loop_Healthy :: "loop_malloc \<Rightarrow> bool" where
  "loop_Healthy s = (total_used s \<le> int (healthy_used s))"

section \<open>Addresses and sizes\<close>

definition loop_GetMallocData :: "loop_malloc \<Rightarrow> int \<Rightarrow> int option" where
  "loop_GetMallocData s offset =
     (if offset < 8 \<or> offset mod 8 \<noteq> 0 \<or> offset > int (block_num s) * 8 then None
      else Some offset)"

definition loop_GetMallocOffset :: "loop_malloc \<Rightarrow> int \<Rightarrow> int" where
  "loop_GetMallocOffset s data =
     (if data < 8 \<or> data mod 8 \<noteq> 0 \<or> data > int (block_num s) * 8 then - 1 else data)"

definition loop_GetMallocSize :: "loop_malloc \<Rightarrow> int \<Rightarrow> int" where
  "loop_GetMallocSize s offset =
     (if offset = int (block_num s) * 8 then 0
      else if offset < 8 \<or> offset mod 8 \<noteq> 0 \<or> offset > int (block_num s) * 8 then - 1
      else int_of_size_word (Block s (nat (BlockIndex offset - 1))))"

definition loop_GetMallocSize_data :: "loop_malloc \<Rightarrow> int \<Rightarrow> int" where
  "loop_GetMallocSize_data s data =
     (let offset = loop_GetMallocOffset s data in
      if offset = int (block_num s) * 8 then 0
      else if offset < 0 then - 1
      else int_of_size_word (Block s (nat (BlockIndex offset - 1))))"

definition UnusedMemoryValid :: "loop_malloc \<Rightarrow> nat \<Rightarrow> bool" where
  "UnusedMemoryValid s block_index =
     (let n = BlockNum (int_of_size_word (Block s block_index)); b = block_index + 1 in
      if n < 0 then False
      else if int b + n > int (block_num s) then False
      else list_all (\<lambda>i. Used s (b + i)) [0..<nat n])"

text \<open>\<open>MemoryValid\<close>: one step per recorded region; \<open>BlockNum\<close> may be 0, never negative here.\<close>

function memory_valid_from :: "loop_malloc \<Rightarrow> nat \<Rightarrow> bool" where
  "memory_valid_from s block_index =
     (if block_index < block_num s then
        if Used s block_index then False
        else if \<not> UnusedMemoryValid s block_index then False
        else memory_valid_from s
               (block_index + 1 + nat (BlockNum (int_of_size_word (Block s block_index))))
      else block_index = block_num s)"
  by pat_completeness auto
termination
  by (relation "measure (\<lambda>(s, b). block_num s - b)") auto

declare memory_valid_from.simps [simp del]

definition MemoryValid :: "loop_malloc \<Rightarrow> bool" where
  "MemoryValid s = memory_valid_from s 0"

section \<open>Allocation\<close>

definition use_blocks :: "nat \<Rightarrow> nat \<Rightarrow> loop_malloc \<Rightarrow> loop_malloc" where
  "use_blocks mb n s = fold (\<lambda>i. UseBlock (mb + i)) [1..<n + 1] s"

text \<open>The blocks recently freed: accepted unless some 0 bit is followed by a 1 bit.\<close>

definition fast_malloc_success :: "loop_malloc \<Rightarrow> nat \<Rightarrow> nat \<Rightarrow> bool" where
  "fast_malloc_success s mb n =
     list_all (\<lambda>i. \<not> (\<not> Used s (mb + i) \<and> Used s (mb + i + 1))) [0..<n + 1]"

fun fast_scan :: "loop_malloc \<Rightarrow> nat \<Rightarrow> nat list \<Rightarrow> nat list \<times> nat option" where
  "fast_scan s n [] = ([], None)"
| "fast_scan s n (mb # q) =
     (if fast_malloc_success s mb n then (q, Some mb) else fast_scan s n q)"

definition fast_commit :: "int \<Rightarrow> nat \<Rightarrow> nat \<Rightarrow> loop_malloc \<Rightarrow> loop_malloc" where
  "fast_commit bytes n mb s =
     (let s1 = use_blocks mb n (set_Block mb (word_of_int bytes) s) in
      s1\<lparr>total_used := total_used s1 + int n + 1, total_malloc := total_malloc s1 + 1,
         total_fast_malloc := total_fast_malloc s1 + 1\<rparr>)"

text \<open>The loop path marks its blocks under a \<open>CHECK\<close> that each was unused.\<close>

fun use_blocks_checked :: "nat \<Rightarrow> nat list \<Rightarrow> loop_malloc \<Rightarrow> loop_malloc result" where
  "use_blocks_checked mb [] s = Inr s"
| "use_blocks_checked mb (i # is) s =
     (if Used s (mb + i) then Inl Check_failed
      else use_blocks_checked mb is (UseBlock (mb + i) s))"

definition loop_commit :: "int \<Rightarrow> nat \<Rightarrow> nat \<Rightarrow> loop_malloc \<Rightarrow> loop_malloc result" where
  "loop_commit bytes n mb s =
     bind_result (use_blocks_checked mb [1..<n + 1] (set_Block mb (word_of_int bytes) s))
       (\<lambda>s1. Inr (s1\<lparr>last_malloc_block := (mb + n + 1) mod block_num s1,
                     total_used := total_used s1 + int n + 1,
                     total_malloc := total_malloc s1 + 1,
                     total_loop_malloc := total_loop_malloc s1 + 1\<rparr>))"

definition scan_break :: "loop_malloc \<Rightarrow> nat \<Rightarrow> nat \<Rightarrow> nat option" where
  "scan_break s mb n =
     first_index (\<lambda>i. Used s (mb + i) \<or> Used s (mb + i + 1)) [0..<n + 1]"

text \<open>The search of the loop path: \<open>Some\<close> of the block it settles on.\<close>

function loop_search :: "loop_malloc \<Rightarrow> nat \<Rightarrow> nat \<Rightarrow> nat \<Rightarrow> nat option" where
  "loop_search s n mb offset =
     (if offset < block_num s then
        if mb + n + 1 \<le> block_num s then
          let i = (case scan_break s mb n of None \<Rightarrow> 0 | Some i \<Rightarrow> i);
              mb' = mb + i; offset' = offset + i in
          if \<not> Used s mb' \<and> \<not> Used s (mb' + 1) then Some mb'
          else loop_search s n (mb' + 1) (offset' + 1)
        else loop_search s n 0 (offset + (block_num s - mb))
      else None)"
  by pat_completeness auto
termination
  by (relation "measures [\<lambda>(s, n, mb, offset). block_num s - offset,
                          \<lambda>(s, n, mb, offset). if mb + n + 1 \<le> block_num s then 0 else mb]")
     (auto split: option.splits)

definition loop_path :: "int \<Rightarrow> nat \<Rightarrow> loop_malloc \<Rightarrow> (loop_malloc \<times> int option) result" where
  "loop_path bytes n s =
     (case loop_search s n (last_malloc_block s) 0 of
        None \<Rightarrow> Inr (s, None)
      | Some mb \<Rightarrow>
          bind_result (loop_commit bytes n mb s) (\<lambda>s1. Inr (s1, Some (8 * (int mb + 1)))))"

definition loop_New :: "int \<Rightarrow> loop_malloc \<Rightarrow> (loop_malloc \<times> int option) result" where
  "loop_New bytes s =
     (if bytes < 0 then Inl Check_failed
      else if bytes = 0 then Inr (s, Some (8 * int (block_num s)))
      else
        let n = nat (BlockNum bytes); key = city_hash s (of_nat n) in
        case (if enable_fast_malloc s then map_of (fast_malloc_lists s) key else None) of
          None \<Rightarrow> loop_path bytes n s
        | Some q \<Rightarrow>
            let (q', r) = fast_scan s n q;
                s1 = s\<lparr>fast_malloc_lists := AList.update key q' (fast_malloc_lists s)\<rparr> in
            (case r of
               Some mb \<Rightarrow> Inr (fast_commit bytes n mb s1, Some (8 * (int mb + 1)))
             | None \<Rightarrow> loop_path bytes n s1))"

section \<open>Release\<close>

text \<open>The freed block is remembered if its size class has, or may still get, a list with room.\<close>

definition remember_freed :: "nat \<Rightarrow> nat \<Rightarrow> loop_malloc \<Rightarrow> loop_malloc" where
  "remember_freed n block_index s =
     (if \<not> enable_fast_malloc s then s
      else
        let key = city_hash s (of_nat n);
            l0 = map_of (fast_malloc_lists s) key;
            l = (if l0 = None \<and> length (fast_malloc_lists s) < max_fast_list_type
                 then Some [] else l0) in
        (case l of
           None \<Rightarrow> s
         | Some q \<Rightarrow>
             s\<lparr>fast_malloc_lists :=
                 AList.update key
                   (if length q < max_fast_list_num then q @ [block_index] else q)
                   (fast_malloc_lists s)\<rparr>))"

definition free_blocks :: "nat \<Rightarrow> nat \<Rightarrow> loop_malloc \<Rightarrow> loop_malloc" where
  "free_blocks block_index n s = fold (\<lambda>i. FreeBlock (block_index + i)) [0..<n + 1] s"

definition loop_Free :: "int \<Rightarrow> loop_malloc \<Rightarrow> loop_malloc \<times> bool" where
  "loop_Free memory_data s =
     (let offset = loop_GetMallocOffset s memory_data in
      if offset < 0 then (s, False)
      else if offset = 8 * int (block_num s) then (s, True)
      else
        let block_index = nat (BlockIndex offset - 1) in
        if \<not> Used s block_index \<and> UnusedMemoryValid s block_index then
          let n = nat (BlockNum (int_of_size_word (Block s block_index)));
              s1 = free_blocks block_index n (remember_freed n block_index s) in
          (s1\<lparr>total_used := total_used s1 - (int n + 1), total_malloc := total_malloc s1 - 1\<rparr>,
           True)
        else (s, False))"

section \<open>Enumeration and recovery\<close>

fun mallocs_from :: "loop_malloc \<Rightarrow> nat list \<Rightarrow> int list result" where
  "mallocs_from s [] = Inr []"
| "mallocs_from s (i # is) =
     (if \<not> Used s i \<and> Used s (i + 1) then
        if Block s i = 0 then Inl Check_failed
        else bind_result (mallocs_from s is) (\<lambda>os. Inr (8 * (int i + 1) # os))
      else mallocs_from s is)"

definition loop_GetMallocsAppend :: "loop_malloc \<Rightarrow> int list result" where
  "loop_GetMallocsAppend s = mallocs_from s [0..<block_num s - 1]"

definition AddMallocs4Recovery :: "int \<Rightarrow> loop_malloc \<Rightarrow> loop_malloc result" where
  "AddMallocs4Recovery shm_offset s =
     (if shm_offset < 0 \<or> shm_offset \<ge> int (block_num s) * 8 then Inl Check_failed
      else
        let n = BlockNum (loop_GetMallocSize s shm_offset);
            sizeBlockIdx = BlockIndex shm_offset - 1;
            s1 = fold (\<lambda>i. UseBlock (nat (sizeBlockIdx + int i))) [1..<nat n + 1]
                   (s\<lparr>total_malloc := total_malloc s + 1, total_used := total_used s + n + 1\<rparr>) in
        Inr s1)"

fun recover_all :: "int list \<Rightarrow> loop_malloc \<Rightarrow> loop_malloc result" where
  "recover_all [] s = Inr s"
| "recover_all (off # offs) s = bind_result (AddMallocs4Recovery off s) (recover_all offs)"

section \<open>Bits and blocks: basic facts\<close>

lemma Used_bit: "Used s i = bit (shm s (i div 64)) (i mod 64)"
proof -
  have "bit (w AND push_bit k 1) j \<longleftrightarrow> j = k \<and> bit w k" if "k < 64" for w :: u64 and k j
    using that by (auto simp: bit_simps)
  then have "(w AND push_bit k 1 \<noteq> 0) = bit w k" if "k < 64" for w :: u64 and k
    using that by (metis bit_0_eq bot_apply bit_eqI bot_bool_def)
  then show ?thesis by (simp add: Used_def)
qed

lemma div_mod_64_eq: "(i div 64 = j div 64 \<and> i mod 64 = j mod 64) = (i = (j :: nat))"
  by (metis div_mult_mod_eq)

lemma Used_UseBlock [simp]: "Used (UseBlock j s) i = (i = j \<or> Used s i)"
  using div_mod_64_eq [of i j]
  by (auto simp: Used_bit UseBlock_def bit_simps)

lemma Used_FreeBlock [simp]: "Used (FreeBlock j s) i = (i \<noteq> j \<and> Used s i)"
  using div_mod_64_eq [of i j]
  by (auto simp: Used_bit FreeBlock_def bit_simps)

text \<open>The arena: a whole number of bitmap words, so bits below \<^const>\<open>block_num\<close> are bitmap bits.\<close>

definition arena :: "loop_malloc \<Rightarrow> bool" where
  "arena s = (block_num s mod 64 = 0)"

lemma bitmap_word: "arena s \<Longrightarrow> i < block_num s \<Longrightarrow> i div 64 < block_num s div 64"
  by (auto simp: arena_def elim!: dvdE dest!: mod_0_imp_dvd)

lemma Used_set_Block [simp]:
  "arena s \<Longrightarrow> i < block_num s \<Longrightarrow> Used (set_Block j w s) i = Used s i"
  using bitmap_word [of s i] by (auto simp: Used_bit set_Block_def)

lemma Block_set_Block: "Block (set_Block j w s) i = (if i = j then w else Block s i)"
  by (simp add: Block_def set_Block_def)

lemma Block_UseBlock [simp]:
  "arena s \<Longrightarrow> j < block_num s \<Longrightarrow> Block (UseBlock j s) i = Block s i"
  using bitmap_word [of s j] by (auto simp: Block_def UseBlock_def)

lemma Block_FreeBlock [simp]:
  "arena s \<Longrightarrow> j < block_num s \<Longrightarrow> Block (FreeBlock j s) i = Block s i"
  using bitmap_word [of s j] by (auto simp: Block_def FreeBlock_def)

lemma UseBlock_frame [simp, frame_facts]:
  "block_num (UseBlock j s) = block_num s" "last_malloc_block (UseBlock j s) = last_malloc_block s"
  "total_used (UseBlock j s) = total_used s" "total_malloc (UseBlock j s) = total_malloc s"
  "enable_fast_malloc (UseBlock j s) = enable_fast_malloc s" "city_hash (UseBlock j s) = city_hash s"
  "fast_malloc_lists (UseBlock j s) = fast_malloc_lists s"
  by (simp_all add: UseBlock_def)

lemma FreeBlock_frame [simp, frame_facts]:
  "block_num (FreeBlock j s) = block_num s" "last_malloc_block (FreeBlock j s) = last_malloc_block s"
  "total_used (FreeBlock j s) = total_used s" "total_malloc (FreeBlock j s) = total_malloc s"
  "enable_fast_malloc (FreeBlock j s) = enable_fast_malloc s" "city_hash (FreeBlock j s) = city_hash s"
  "fast_malloc_lists (FreeBlock j s) = fast_malloc_lists s"
  by (simp_all add: FreeBlock_def)

lemma set_Block_frame [simp, frame_facts]:
  "block_num (set_Block j w s) = block_num s" "last_malloc_block (set_Block j w s) = last_malloc_block s"
  "total_used (set_Block j w s) = total_used s" "total_malloc (set_Block j w s) = total_malloc s"
  "enable_fast_malloc (set_Block j w s) = enable_fast_malloc s" "city_hash (set_Block j w s) = city_hash s"
  "fast_malloc_lists (set_Block j w s) = fast_malloc_lists s"
  by (simp_all add: set_Block_def)

lemma arena_simps [simp]:
  "arena (UseBlock j s) = arena s" "arena (FreeBlock j s) = arena s" "arena (set_Block j w s) = arena s"
  by (simp_all add: arena_def)

text \<open>
  Marking and clearing a list of blocks. Both only touch the bitmap words of \<open>shm\<close>, so the
  other fields are described by the update of \<open>shm\<close> alone.
\<close>

lemma fold_UseBlock_bits: "Used (fold (\<lambda>i. UseBlock (f i)) is s) j = (j \<in> f ` set is \<or> Used s j)"
  by (induction "is" arbitrary: s) auto

lemma fold_UseBlock_Block:
  "arena s \<Longrightarrow> \<forall>i \<in> set is. f i < block_num s \<Longrightarrow> Block (fold (\<lambda>i. UseBlock (f i)) is s) j = Block s j"
  by (induction "is" arbitrary: s) auto

lemma fold_FreeBlock_bits: "Used (fold (\<lambda>i. FreeBlock (f i)) is s) j = (j \<notin> f ` set is \<and> Used s j)"
  by (induction "is" arbitrary: s) auto

lemma fold_FreeBlock_Block:
  "arena s \<Longrightarrow> \<forall>i \<in> set is. f i < block_num s \<Longrightarrow> Block (fold (\<lambda>i. FreeBlock (f i)) is s) j = Block s j"
  by (induction "is" arbitrary: s) auto

lemma fold_UseBlock_shm: "\<exists>m. fold (\<lambda>i. UseBlock (f i)) is s = s\<lparr>shm := m\<rparr>"
proof (induction "is" arbitrary: s)
  case Nil
  show ?case by (rule exI [of _ "shm s"]) simp
next
  case (Cons i "is")
  from Cons [of "UseBlock (f i) s"] obtain m where
    "fold (\<lambda>i. UseBlock (f i)) is (UseBlock (f i) s) = (UseBlock (f i) s)\<lparr>shm := m\<rparr>" ..
  then have "fold (\<lambda>i. UseBlock (f i)) (i # is) s = (UseBlock (f i) s)\<lparr>shm := m\<rparr>" by simp
  also have "\<dots> = s\<lparr>shm := m\<rparr>" by (simp add: UseBlock_def)
  finally show ?case by blast
qed

lemma fold_FreeBlock_shm: "\<exists>m. fold (\<lambda>i. FreeBlock (f i)) is s = s\<lparr>shm := m\<rparr>"
proof (induction "is" arbitrary: s)
  case Nil
  show ?case by (rule exI [of _ "shm s"]) simp
next
  case (Cons i "is")
  from Cons [of "FreeBlock (f i) s"] obtain m where
    "fold (\<lambda>i. FreeBlock (f i)) is (FreeBlock (f i) s) = (FreeBlock (f i) s)\<lparr>shm := m\<rparr>" ..
  then have "fold (\<lambda>i. FreeBlock (f i)) (i # is) s = (FreeBlock (f i) s)\<lparr>shm := m\<rparr>" by simp
  also have "\<dots> = s\<lparr>shm := m\<rparr>" by (simp add: FreeBlock_def)
  finally show ?case by blast
qed

text \<open>Under its \<open>CHECK\<close>, the loop path's marking is the unchecked one when nothing is in use.\<close>

lemma use_blocks_checked_eq:
  "distinct is \<Longrightarrow> \<forall>i \<in> set is. \<not> Used s (mb + i) \<Longrightarrow>
   use_blocks_checked mb is s = Inr (fold (\<lambda>i. UseBlock (mb + i)) is s)"
proof (induction "is" arbitrary: s)
  case Nil
  show ?case by simp
next
  case (Cons i "is")
  from Cons.prems have "\<forall>k \<in> set is. \<not> Used (UseBlock (mb + i) s) (mb + k)" by auto
  with Cons show ?case by simp
qed

section \<open>What the bitmap means\<close>

text \<open>
  An abstract view: the set \<open>A\<close> of live allocations, each given by its header block and its
  number of data blocks. \<open>loop_ok s A\<close> says the file and the counters represent exactly \<open>A\<close>.
\<close>

definition region :: "nat \<times> nat \<Rightarrow> nat set" where
  "region a = {fst a..fst a + snd a}"

lemma region_meetE:
  assumes "region (p, n) \<inter> region a \<noteq> {}"
  obtains i where "p \<le> i" "i \<le> p + n" "fst a \<le> i" "i \<le> fst a + snd a"
proof -
  from assms obtain i where "i \<in> region (p, n)" "i \<in> region a" by blast
  then show ?thesis by (intro that [of i]) (auto simp: region_def)
qed

definition fits :: "loop_malloc \<Rightarrow> nat \<times> nat \<Rightarrow> bool" where
  "fits s a = (1 \<le> snd a \<and> fst a + snd a + 1 \<le> block_num s)"

definition header_ok :: "loop_malloc \<Rightarrow> nat \<times> nat \<Rightarrow> bool" where
  "header_ok s a = (BlockNum (int_of_size_word (Block s (fst a))) = int (snd a))"

definition data_bit :: "(nat \<times> nat) set \<Rightarrow> nat \<Rightarrow> bool" where
  "data_bit A i = (\<exists>(p, n) \<in> A. p < i \<and> i \<le> p + n)"

definition separate :: "(nat \<times> nat) set \<Rightarrow> bool" where
  "separate A = (\<forall>a \<in> A. \<forall>b \<in> A. a \<noteq> b \<longrightarrow> region a \<inter> region b = {})"

definition loop_ok :: "loop_malloc \<Rightarrow> (nat \<times> nat) set \<Rightarrow> bool" where
  "loop_ok s A \<longleftrightarrow>
     arena s \<and> finite A \<and> separate A \<and>
     (\<forall>a \<in> A. fits s a \<and> header_ok s a) \<and>
     (\<forall>i < block_num s. Used s i = data_bit A i) \<and>
     total_used s = (\<Sum>a \<in> A. int (snd a) + 1) \<and> total_malloc s = int (card A) \<and>
     (block_num s > 0 \<longrightarrow> last_malloc_block s < block_num s)"

text \<open>A window of \<open>n + 2\<close> clear bits (the last one may lie just past the bitmap).\<close>

definition window_free :: "loop_malloc \<Rightarrow> nat \<Rightarrow> nat \<Rightarrow> bool" where
  "window_free s p n = (\<forall>i \<le> n. \<not> Used s (p + i) \<and> \<not> Used s (p + i + 1))"

lemma scan_break_None: "scan_break s mb n = None \<longleftrightarrow> window_free s mb n"
  by (auto simp: scan_break_def first_index_upt_None window_free_def less_Suc_eq_le simp del: upt_Suc)

lemma scan_break_Some:
  assumes "scan_break s mb n = Some i"
  shows "i \<le> n" and "Used s (mb + i) \<or> Used s (mb + i + 1)"
    and "\<forall>j < i. \<not> Used s (mb + j) \<and> \<not> Used s (mb + j + 1)"
proof -
  from first_index_uptD [OF assms [unfolded scan_break_def]]
  show "i \<le> n" "Used s (mb + i) \<or> Used s (mb + i + 1)"
    "\<forall>j < i. \<not> Used s (mb + j) \<and> \<not> Used s (mb + j + 1)" by auto
qed

text \<open>One unfolding of the search, in the three ways the loop body can go.\<close>

declare loop_search.simps [simp del]

lemma loop_search_cases:
  "loop_search s n mb offset =
     (if offset < block_num s then
        if mb + n + 1 \<le> block_num s then
          (case scan_break s mb n of
             None \<Rightarrow> Some mb
           | Some i \<Rightarrow> loop_search s n (mb + i + 1) (offset + i + 1))
        else loop_search s n 0 (offset + (block_num s - mb))
      else None)"
proof (cases "scan_break s mb n")
  case None
  then have "window_free s mb n" by (simp add: scan_break_None)
  then have "\<not> Used s mb" "\<not> Used s (mb + 1)" unfolding window_free_def by (auto dest: spec [of _ 0])
  with None show ?thesis by (subst loop_search.simps) simp
next
  case (Some i)
  from scan_break_Some(2) [OF Some] Some show ?thesis
    by (subst loop_search.simps) (auto simp: Let_def add.commute)
qed

lemma loop_search_induct:
  assumes step: "\<And>mb offset.
      (\<And>i. offset < block_num s \<Longrightarrow> mb + n + 1 \<le> block_num s \<Longrightarrow> scan_break s mb n = Some i \<Longrightarrow>
         P (mb + i + 1) (offset + i + 1)) \<Longrightarrow>
      (offset < block_num s \<Longrightarrow> \<not> mb + n + 1 \<le> block_num s \<Longrightarrow> P 0 (offset + (block_num s - mb))) \<Longrightarrow>
      P mb offset"
  shows "P mb offset"
proof -
  have "s' = s \<longrightarrow> n' = n \<longrightarrow> P mb offset" for s' n'
  proof (induction s' n' mb offset rule: loop_search.induct)
    case (1 s' n' mb offset)
    show ?case
    proof (intro impI)
      assume e: "s' = s" "n' = n"
      show "P mb offset"
      proof (rule step)
        fix i assume "offset < block_num s" "mb + n + 1 \<le> block_num s" and i: "scan_break s mb n = Some i"
        moreover from scan_break_Some(2) [OF i] have "\<not> (\<not> Used s (mb + i) \<and> \<not> Used s (mb + i + 1))"
          by blast
        ultimately show "P (mb + i + 1) (offset + i + 1)" using 1(1) e by simp
      next
        assume "offset < block_num s" "\<not> mb + n + 1 \<le> block_num s"
        then show "P 0 (offset + (block_num s - mb))" using 1(2) e by simp
      qed
    qed
  qed
  then show ?thesis by blast
qed

lemma loop_search_sound:
  "loop_search s n mb offset = Some p \<Longrightarrow> p + n + 1 \<le> block_num s \<and> window_free s p n"
proof (induction mb offset rule: loop_search_induct [where s = s and n = n])
  case (1 mb offset)
  then show ?case
    unfolding loop_search_cases [of s n mb offset]
    by (auto simp flip: scan_break_None split: if_splits option.splits)
qed

text \<open>The search misses no window that ends inside the bitmap.\<close>

lemma loop_search_ahead:
  assumes w: "window_free s p n" and fit: "p + n + 1 \<le> block_num s"
  shows "mb \<le> p \<Longrightarrow> offset + (p - mb) < block_num s \<Longrightarrow> loop_search s n mb offset \<noteq> None"
proof (induction mb offset rule: loop_search_induct [where s = s and n = n])
  case (1 mb offset)
  show ?case
  proof (cases "scan_break s mb n")
    case None
    with 1(3,4) fit show ?thesis by (subst loop_search_cases) simp
  next
    case (Some i)
    note b = scan_break_Some [OF Some]
    have "mb + i < p"
    proof (rule ccontr)
      assume "\<not> mb + i < p"
      then obtain k where "mb + i = p + k" "k \<le> n" using b(1) 1(3) by (metis add.commute
            add_le_mono le_add_diff_inverse linorder_not_le nat_add_left_cancel_le order_trans)
      with w b(2) show False unfolding window_free_def by metis
    qed
    moreover have "mb + n + 1 \<le> block_num s" using 1(3) fit by linarith
    ultimately show ?thesis
      using 1(1) [OF _ _ Some] 1(3,4) Some by (subst loop_search_cases) simp
  qed
qed

lemma loop_search_complete:
  assumes w: "window_free s p n" and fit: "p + n + 1 \<le> block_num s"
  shows "mb \<le> block_num s \<Longrightarrow> offset + (block_num s - mb) + p < block_num s \<Longrightarrow>
         loop_search s n mb offset \<noteq> None"
proof (induction mb offset rule: loop_search_induct [where s = s and n = n])
  case (1 mb offset)
  have off: "offset < block_num s" using 1(4) by linarith
  show ?case
  proof (cases "mb + n + 1 \<le> block_num s")
    case False
    with off 1(4) loop_search_ahead [OF w fit, of 0 "offset + (block_num s - mb)"] show ?thesis
      by (subst loop_search_cases) simp
  next
    case fits: True
    show ?thesis
    proof (cases "scan_break s mb n")
      case None
      with off fits show ?thesis by (subst loop_search_cases) simp
    next
      case (Some i)
      with 1(1) [OF off fits Some] scan_break_Some(1) [OF Some] fits 1(4) off show ?thesis
        by (subst loop_search_cases) simp
    qed
  qed
qed

section \<open>Adding and removing one allocation\<close>

lemma data_bit_insert: "data_bit (insert (p, n) A) i = (p < i \<and> i \<le> p + n \<or> data_bit A i)"
  by (auto simp: data_bit_def)

lemma data_bit_region: "data_bit A i \<Longrightarrow> \<exists>a \<in> A. i \<in> region a"
  by (force simp: data_bit_def region_def)

lemma loop_ok_D:
  assumes "loop_ok s A"
  shows "arena s" "finite A" "separate A"
    "a \<in> A \<Longrightarrow> fits s a" "a \<in> A \<Longrightarrow> header_ok s a"
    "i < block_num s \<Longrightarrow> Used s i = data_bit A i"
    "total_used s = (\<Sum>a \<in> A. int (snd a) + 1)" "total_malloc s = int (card A)"
    "block_num s > 0 \<Longrightarrow> last_malloc_block s < block_num s"
  using assms by (auto simp: loop_ok_def)

text \<open>A window of clear bits meets no live allocation.\<close>

lemma free_window_separate:
  assumes ok: "loop_ok s A" and w: "window_free s p n" and fit: "p + n + 1 \<le> block_num s"
    and a: "a \<in> A"
  shows "region (p, n) \<inter> region a = {}"
proof (rule ccontr)
  assume "region (p, n) \<inter> region a \<noteq> {}"
  then obtain i where i: "p \<le> i" "i \<le> p + n" "fst a \<le> i" "i \<le> fst a + snd a"
    by (rule region_meetE)
  from loop_ok_D(4) [OF ok a] have f: "1 \<le> snd a" "fst a + snd a + 1 \<le> block_num s"
    by (auto simp: fits_def)
  have used: "Used s j" if "fst a < j" "j \<le> fst a + snd a" for j
    using that f loop_ok_D(6) [OF ok, of j] a by (force simp: data_bit_def)
  from w have free: "\<not> Used s j" if "p \<le> j" "j \<le> p + n + 1" for j
    using that unfolding window_free_def
    by (cases "j = p + n + 1") (auto dest: spec [of _ "j - p"] spec [of _ n])
  show False
  proof (cases "fst a = i")
    case True
    with used [of "i + 1"] free [of "i + 1"] f i show False by simp
  next
    case False
    with used [of i] free [of i] i show False by simp
  qed
qed

lemma loop_ok_insert:
  assumes ok: "loop_ok s A" and new: "fits s (p, n)" "\<forall>a \<in> A. region (p, n) \<inter> region a = {}"
    and bits: "\<And>i. i < block_num s \<Longrightarrow> Used s' i = (p < i \<and> i \<le> p + n \<or> Used s i)"
    and blocks: "\<And>j. j \<noteq> p \<Longrightarrow> Block s' j = Block s j" "header_ok s' (p, n)"
    and counters: "block_num s' = block_num s"
      "total_used s' = total_used s + int n + 1" "total_malloc s' = total_malloc s + 1"
      "last_malloc_block s' < block_num s"
  shows "loop_ok s' (insert (p, n) A)"
proof -
  note D = loop_ok_D [OF ok]
  have notin: "(p, n) \<notin> A" using new(2) by (auto simp: region_def)
  have other: "fst a \<noteq> p" if "a \<in> A" for a
    using new(2) that by (force simp: region_def)
  have "separate (insert (p, n) A)"
    using D(3) new(2) by (auto simp: separate_def)
  moreover have "\<forall>a \<in> insert (p, n) A. fits s' a \<and> header_ok s' a"
    using D(4,5) new(1) blocks other counters(1) by (auto simp: fits_def header_ok_def)
  moreover have "\<forall>i < block_num s'. Used s' i = data_bit (insert (p, n) A) i"
    using D(6) bits counters(1) by (auto simp: data_bit_insert)
  ultimately show ?thesis
    using D(1,2,7,8) counters notin by (auto simp: loop_ok_def arena_def)
qed

lemma loop_ok_remove:
  assumes ok: "loop_ok s A" and mem: "(p, n) \<in> A"
    and bits: "\<And>i. i < block_num s \<Longrightarrow> Used s' i = (i \<notin> region (p, n) \<and> Used s i)"
    and blocks: "\<And>j. Block s' j = Block s j"
    and counters: "block_num s' = block_num s" "last_malloc_block s' = last_malloc_block s"
      "total_used s' = total_used s - (int n + 1)" "total_malloc s' = total_malloc s - 1"
  shows "loop_ok s' (A - {(p, n)})"
proof -
  note D = loop_ok_D [OF ok]
  have "data_bit (A - {(p, n)}) i = (i \<notin> region (p, n) \<and> data_bit A i)" for i
  proof -
    have "i \<notin> region (p, n)" if "(q, m) \<in> A - {(p, n)}" "q < i" "i \<le> q + m" for q m
      using D(3) mem that by (force simp: separate_def region_def)
    then have fwd: "data_bit (A - {(p, n)}) i \<Longrightarrow> i \<notin> region (p, n) \<and> data_bit A i"
      by (auto simp: data_bit_def)
    have "data_bit A i \<Longrightarrow> i \<notin> region (p, n) \<Longrightarrow> data_bit (A - {(p, n)}) i"
      by (force simp: data_bit_def region_def)
    with fwd show ?thesis by blast
  qed
  then have "\<forall>i < block_num s'. Used s' i = data_bit (A - {(p, n)}) i"
    using D(6) bits counters(1) by auto
  moreover have "separate (A - {(p, n)})" using D(3) by (auto simp: separate_def)
  moreover have "\<forall>a \<in> A - {(p, n)}. fits s' a \<and> header_ok s' a"
    using D(4,5) blocks counters(1) by (auto simp: fits_def header_ok_def)
  moreover have "1 \<le> card A" using mem D(2) by (auto simp: Suc_le_eq card_gt_0_iff)
  ultimately show ?thesis
    using D(1,2,7,8,9) counters mem
    by (auto simp: loop_ok_def arena_def sum_diff1 of_nat_diff)
qed

section \<open>Allocation and release on the abstract view\<close>

definition blocks_of :: "int \<Rightarrow> nat" where
  "blocks_of bytes = nat (BlockNum bytes)"

text \<open>Sizes whose block count does not overflow \<open>int\<close>.\<close>

definition ok_size :: "int \<Rightarrow> bool" where
  "ok_size bytes = (0 < bytes \<and> bytes + 7 < 2 ^ 31)"

lemma ok_size_blocks: "ok_size b \<Longrightarrow> 1 \<le> blocks_of b \<and> BlockNum b = int (blocks_of b)"
  by (auto simp: ok_size_def blocks_of_def BlockNum_def)

lemma size_word_roundtrip: "ok_size b \<Longrightarrow> int_of_size_word (word_of_int b) = b"
  unfolding ok_size_def int_of_size_word_def
  by (transfer, simp add: take_bit_int_eq_self signed_take_bit_int_eq_self)

lemma shm_update_frame:
  "Used (s\<lparr>shm := m\<rparr>) i = (m (i div 64) AND push_bit (i mod 64) 1 \<noteq> 0)"
  "Block (s\<lparr>shm := m\<rparr>) j = m (block_num s div 64 + j)"
  by (simp_all add: Used_def Block_def)

text \<open>The state after writing the header and marking the data blocks of \<open>(p, n)\<close>.\<close>

lemma mark_allocation:
  assumes "arena s" and "p + n + 1 \<le> block_num s" and "ok_size bytes" and "n = blocks_of bytes"
  defines "s1 \<equiv> use_blocks p n (set_Block p (word_of_int bytes) s)"
  shows "\<And>i. i < block_num s \<Longrightarrow> Used s1 i = (p < i \<and> i \<le> p + n \<or> Used s i)"
    and "\<And>j. j \<noteq> p \<Longrightarrow> Block s1 j = Block s j" and "header_ok s1 (p, n)"
    and "\<exists>m. s1 = s\<lparr>shm := m\<rparr>"
proof -
  let ?s0 = "set_Block p (word_of_int bytes) s"
  have img: "(\<lambda>i. p + i) ` set [1..<n + 1] = {p<..p + n}"
    using image_add_atLeastLessThan [of p 1 "n + 1"] by (auto simp del: upt_Suc)
  show "Used s1 i = (p < i \<and> i \<le> p + n \<or> Used s i)" if "i < block_num s" for i
    unfolding s1_def use_blocks_def fold_UseBlock_bits img using assms(1) that by auto
  have blk: "Block s1 j = Block ?s0 j" for j
    unfolding s1_def use_blocks_def
    by (rule fold_UseBlock_Block) (use assms(1,2) in auto)
  then show "Block s1 j = Block s j" if "j \<noteq> p" for j
    using that by (simp add: Block_set_Block)
  show "header_ok s1 (p, n)"
    using assms(3,4) ok_size_blocks [OF assms(3)]
    by (simp add: header_ok_def blk Block_set_Block size_word_roundtrip)
  obtain m where "s1 = ?s0\<lparr>shm := m\<rparr>"
    using fold_UseBlock_shm [of "\<lambda>i. p + i" "[1..<n + 1]" ?s0]
    unfolding s1_def use_blocks_def by blast
  then show "\<exists>m. s1 = s\<lparr>shm := m\<rparr>" by (auto simp: set_Block_def)
qed

lemma loop_commit_ok:
  assumes ok: "loop_ok s A" and w: "window_free s p n" and fit: "p + n + 1 \<le> block_num s"
    and b: "ok_size bytes" "n = blocks_of bytes"
  shows "\<exists>s'. loop_commit bytes n p s = Inr s' \<and> loop_ok s' (insert (p, n) A) \<and>
           (\<forall>a \<in> A. region (p, n) \<inter> region a = {}) \<and> (\<forall>j. j \<noteq> p \<longrightarrow> Block s' j = Block s j) \<and>
           block_num s' = block_num s \<and> enable_fast_malloc s' = enable_fast_malloc s \<and>
           fast_malloc_lists s' = fast_malloc_lists s \<and> city_hash s' = city_hash s \<and>
           last_malloc_block s' = (p + n + 1) mod block_num s"
proof -
  note D = loop_ok_D [OF ok]
  let ?s0 = "set_Block p (word_of_int bytes) s" and ?s1 = "use_blocks p n (set_Block p (word_of_int bytes) s)"
  note M = mark_allocation [OF D(1) fit b]
  have n: "1 \<le> n" using ok_size_blocks [OF b(1)] b(2) by simp
  have sep: "\<forall>a \<in> A. region (p, n) \<inter> region a = {}"
    using free_window_separate [OF ok w fit] by blast
  have "\<forall>i \<in> set [1..<n + 1]. \<not> Used ?s0 (p + i)"
  proof
    fix i assume "i \<in> set [1..<n + 1]"
    then have "1 \<le> i" "i \<le> n" by auto
    with w fit D(1) show "\<not> Used ?s0 (p + i)"
      unfolding window_free_def by auto
  qed
  then have chk: "use_blocks_checked p [1..<n + 1] ?s0 = Inr ?s1"
    unfolding use_blocks_def by (intro use_blocks_checked_eq) auto
  define s2 where "s2 = ?s1\<lparr>last_malloc_block := (p + n + 1) mod block_num ?s1,
                 total_used := total_used ?s1 + int n + 1, total_malloc := total_malloc ?s1 + 1,
                 total_loop_malloc := total_loop_malloc ?s1 + 1\<rparr>"
  have run: "loop_commit bytes n p s = Inr s2"
    unfolding loop_commit_def chk s2_def by simp
  obtain m where m: "?s1 = s\<lparr>shm := m\<rparr>" using M(4) by blast
  have same: "Used s2 = Used ?s1" "Block s2 = Block ?s1"
    by (simp_all add: s2_def fun_eq_iff Used_def Block_def)
  have "loop_ok s2 (insert (p, n) A)"
  proof (rule loop_ok_insert [OF ok])
    show "fits s (p, n)" using n fit by (simp add: fits_def)
    show "Used s2 i = (p < i \<and> i \<le> p + n \<or> Used s i)" if "i < block_num s" for i
      using M(1) [OF that] by (simp add: same)
    show "Block s2 j = Block s j" if "j \<noteq> p" for j using M(2) [OF that] by (simp add: same)
    show "header_ok s2 (p, n)" using M(3) by (simp add: header_ok_def same)
  qed (use sep m fit n in \<open>auto simp: s2_def\<close>)
  then show ?thesis
    using run sep M(2) m by (intro exI [of _ s2]) (simp add: same, simp add: s2_def)
qed

lemma fast_commit_ok:
  assumes ok: "loop_ok s A" and sep: "\<forall>a \<in> A. region (p, n) \<inter> region a = {}"
    and fit: "p + n + 1 \<le> block_num s" and b: "ok_size bytes" "n = blocks_of bytes"
  defines "s' \<equiv> fast_commit bytes n p s"
  shows "loop_ok s' (insert (p, n) A)" and "\<And>j. j \<noteq> p \<Longrightarrow> Block s' j = Block s j"
    and "block_num s' = block_num s" "enable_fast_malloc s' = enable_fast_malloc s"
      "fast_malloc_lists s' = fast_malloc_lists s" "last_malloc_block s' = last_malloc_block s"
      "city_hash s' = city_hash s"
proof -
  note D = loop_ok_D [OF ok]
  let ?s1 = "use_blocks p n (set_Block p (word_of_int bytes) s)"
  note M = mark_allocation [OF D(1) fit b]
  have n: "1 \<le> n" using ok_size_blocks [OF b(1)] b(2) by simp
  obtain m where m: "?s1 = s\<lparr>shm := m\<rparr>" using M(4) by blast
  have same: "Used s' = Used ?s1" "Block s' = Block ?s1"
    by (simp_all add: s'_def fast_commit_def Let_def fun_eq_iff Used_def Block_def)
  have fr: "block_num s' = block_num s" "enable_fast_malloc s' = enable_fast_malloc s"
      "fast_malloc_lists s' = fast_malloc_lists s" "last_malloc_block s' = last_malloc_block s"
      "city_hash s' = city_hash s" "total_used s' = total_used s + int n + 1"
      "total_malloc s' = total_malloc s + 1"
    using m by (simp_all add: s'_def fast_commit_def Let_def)
  then show "block_num s' = block_num s" "enable_fast_malloc s' = enable_fast_malloc s"
      "fast_malloc_lists s' = fast_malloc_lists s" "last_malloc_block s' = last_malloc_block s"
      "city_hash s' = city_hash s" by blast+
  show blk: "Block s' j = Block s j" if "j \<noteq> p" for j using M(2) [OF that] by (simp add: same)
  show "loop_ok s' (insert (p, n) A)"
  proof (rule loop_ok_insert [OF ok _ sep])
    show "fits s (p, n)" using n fit by (simp add: fits_def)
    show "Used s' i = (p < i \<and> i \<le> p + n \<or> Used s i)" if "i < block_num s" for i
      using M(1) [OF that] by (simp add: same)
    show "header_ok s' (p, n)" using M(3) by (simp add: header_ok_def same)
    show "last_malloc_block s' < block_num s" using fr D(9) fit by simp
  qed (use fr blk in auto)
qed

text \<open>
  Releasing a live allocation: the pointer passes every test of \<open>Free\<close>, exactly its region is
  cleared and the counters go down by what the allocation added.
\<close>

lemma live_pointer:
  assumes ok: "loop_ok s A" and mem: "(p, n) \<in> A"
  shows "loop_GetMallocOffset s (8 * (int p + 1)) = 8 * (int p + 1)"
    and "8 * (int p + 1) \<noteq> 8 * int (block_num s)"
    and "nat (BlockIndex (8 * (int p + 1)) - 1) = p"
    and "\<not> Used s p" and "UnusedMemoryValid s p"
    and "nat (BlockNum (int_of_size_word (Block s p))) = n"
    and "loop_GetMallocSize s (8 * (int p + 1)) = int_of_size_word (Block s p)"
proof -
  note D = loop_ok_D [OF ok]
  from D(4,5) [OF mem] have f: "1 \<le> n" "p + n + 1 \<le> block_num s"
    and h: "BlockNum (int_of_size_word (Block s p)) = int n"
    by (auto simp: fits_def header_ok_def)
  show "loop_GetMallocOffset s (8 * (int p + 1)) = 8 * (int p + 1)"
    "8 * (int p + 1) \<noteq> 8 * int (block_num s)"
    "nat (BlockIndex (8 * (int p + 1)) - 1) = p"
    "loop_GetMallocSize s (8 * (int p + 1)) = int_of_size_word (Block s p)"
    using f by (auto simp: loop_GetMallocOffset_def BlockIndex_def loop_GetMallocSize_def)
  show "nat (BlockNum (int_of_size_word (Block s p))) = n" by (simp add: h)
  show "\<not> Used s p"
  proof
    assume "Used s p"
    with D(6) [of p] f obtain q m where "(q, m) \<in> A" "q < p" "p \<le> q + m"
      by (auto simp: data_bit_def)
    with D(3) mem show False
      by (force simp: separate_def region_def)
  qed
  have "Used s (p + 1 + i)" if "i < n" for i
    using D(6) [of "p + 1 + i"] f mem that by (force simp: data_bit_def)
  with f h show "UnusedMemoryValid s p"
    by (auto simp: UnusedMemoryValid_def Let_def list_all_iff)
qed

lemma remember_freed_frame [simp]:
  "shm (remember_freed n p s) = shm s" "block_num (remember_freed n p s) = block_num s"
  "last_malloc_block (remember_freed n p s) = last_malloc_block s"
  "total_used (remember_freed n p s) = total_used s" "total_malloc (remember_freed n p s) = total_malloc s"
  "enable_fast_malloc (remember_freed n p s) = enable_fast_malloc s"
  "city_hash (remember_freed n p s) = city_hash s"
  by (simp_all add: remember_freed_def Let_def split: option.splits)

lemma Used_shm_cong: "shm s = shm t \<Longrightarrow> Used s = Used t"
  by (simp add: Used_def fun_eq_iff)

lemma Block_shm_cong: "shm s = shm t \<Longrightarrow> block_num s = block_num t \<Longrightarrow> Block s = Block t"
  by (simp add: Block_def fun_eq_iff)

lemma loop_Free_live:
  assumes ok: "loop_ok s A" and mem: "(p, n) \<in> A"
  defines "s' \<equiv> fst (loop_Free (8 * (int p + 1)) s)"
  shows "snd (loop_Free (8 * (int p + 1)) s)" and "loop_ok s' (A - {(p, n)})"
    and "Block s' = Block s" and "block_num s' = block_num s"
    and "last_malloc_block s' = last_malloc_block s"
    and "enable_fast_malloc s' = enable_fast_malloc s" and "city_hash s' = city_hash s"
    and "fast_malloc_lists s' = fast_malloc_lists (remember_freed n p s)"
proof -
  note D = loop_ok_D [OF ok] and L = live_pointer [OF ok mem]
  from D(4) [OF mem] have fit: "p + n + 1 \<le> block_num s" by (simp add: fits_def)
  let ?s1 = "free_blocks p n (remember_freed n p s)"
  let ?s2 = "?s1\<lparr>total_used := total_used ?s1 - (int n + 1), total_malloc := total_malloc ?s1 - 1\<rparr>"
  have run: "loop_Free (8 * (int p + 1)) s = (?s2, True)"
    using L fit by (simp add: loop_Free_def Let_def)
  show "snd (loop_Free (8 * (int p + 1)) s)" unfolding run by simp
  have s': "s' = ?s2" unfolding s'_def run by simp
  obtain m where m: "?s1 = (remember_freed n p s)\<lparr>shm := m\<rparr>"
    using fold_FreeBlock_shm unfolding free_blocks_def by blast
  have img: "(\<lambda>i. p + i) ` set [0..<n + 1] = region (p, n)"
    using image_add_atLeastLessThan [of p 0 "n + 1"] by (auto simp: region_def simp del: upt_Suc)
  have bits: "Used s' i = (i \<notin> region (p, n) \<and> Used s i)" for i
  proof -
    have "Used s' i = Used ?s1 i" unfolding s' by (intro fun_cong [OF Used_shm_cong]) simp
    also have "\<dots> = (i \<notin> region (p, n) \<and> Used (remember_freed n p s) i)"
      unfolding free_blocks_def fold_FreeBlock_bits img ..
    also have "Used (remember_freed n p s) = Used s" by (rule Used_shm_cong) simp
    finally show ?thesis .
  qed
  have "Block s' j = Block s j" for j
  proof -
    have "Block s' j = Block ?s1 j" unfolding s' by (intro fun_cong [OF Block_shm_cong]) simp_all
    also have "\<dots> = Block (remember_freed n p s) j"
      unfolding free_blocks_def
      by (rule fold_FreeBlock_Block) (use D(1) fit in \<open>auto simp: arena_def\<close>)
    also have "\<dots> = Block s j" by (intro fun_cong [OF Block_shm_cong]) simp_all
    finally show ?thesis .
  qed
  then show "Block s' = Block s" by auto
  show fr: "block_num s' = block_num s" "last_malloc_block s' = last_malloc_block s"
    "enable_fast_malloc s' = enable_fast_malloc s" "city_hash s' = city_hash s"
    "fast_malloc_lists s' = fast_malloc_lists (remember_freed n p s)"
    unfolding s' by (simp_all add: m)
  show "loop_ok s' (A - {(p, n)})"
    by (rule loop_ok_remove [OF ok mem bits])
       (use \<open>Block s' = Block s\<close> fr in \<open>auto simp: s' m\<close>)
qed

text \<open>
  After a release the data bits are clear while the size word stays, so a second release of
  the same pointer is refused and changes nothing.
\<close>

lemma loop_Free_refused:
  assumes p: "p + n + 1 \<le> block_num s" "1 \<le> n" "header_ok s (p, n)"
    and clear: "\<not> Used s (p + 1)"
  shows "loop_Free (8 * (int p + 1)) s = (s, False)"
proof -
  have "\<not> UnusedMemoryValid s p"
    using p clear by (auto simp: UnusedMemoryValid_def header_ok_def Let_def list_all_iff
        intro: bexI [of _ 0])
  moreover have "loop_GetMallocOffset s (8 * (int p + 1)) = 8 * (int p + 1)"
    "8 * (int p + 1) \<noteq> 8 * int (block_num s)" "nat (BlockIndex (8 * (int p + 1)) - 1) = p"
    using p by (auto simp: loop_GetMallocOffset_def BlockIndex_def)
  ultimately show ?thesis by (simp add: loop_Free_def Let_def)
qed

lemma loop_path_ok:
  assumes ok: "loop_ok s A" and b: "ok_size bytes" "n = blocks_of bytes"
    and r: "loop_path bytes n s = r"
  shows "(loop_search s n (last_malloc_block s) 0 = None \<and> r = Inr (s, None)) \<or>
    (\<exists>s' p. loop_search s n (last_malloc_block s) 0 = Some p \<and> r = Inr (s', Some (8 * (int p + 1))) \<and>
       loop_ok s' (insert (p, n) A) \<and> (\<forall>a \<in> A. region (p, n) \<inter> region a = {}) \<and>
       (\<forall>j. j \<noteq> p \<longrightarrow> Block s' j = Block s j) \<and> block_num s' = block_num s \<and>
       enable_fast_malloc s' = enable_fast_malloc s \<and> fast_malloc_lists s' = fast_malloc_lists s \<and>
       city_hash s' = city_hash s \<and> last_malloc_block s' = (p + n + 1) mod block_num s)"
proof (cases "loop_search s n (last_malloc_block s) 0")
  case None
  with r show ?thesis by (auto simp: loop_path_def)
next
  case (Some p)
  from loop_search_sound [OF Some] have "p + n + 1 \<le> block_num s" "window_free s p n" by auto
  from loop_commit_ok [OF ok this(2,1) b] Some r show ?thesis
    by (auto simp: loop_path_def)
qed

lemma loop_New_no_fast:
  assumes "ok_size bytes" and "\<not> enable_fast_malloc s"
  shows "loop_New bytes s = loop_path bytes (blocks_of bytes) s"
  using assms by (auto simp: loop_New_def ok_size_def blocks_of_def Let_def)

section \<open>One size class: the fast lists are sound\<close>

text \<open>
  When every request has the same number \<open>n\<close> of blocks, headers only ever stand at multiples
  of \<open>n + 1\<close>, and so do the blocks remembered in the fast lists.
\<close>

definition uniform :: "nat \<Rightarrow> loop_malloc \<Rightarrow> (nat \<times> nat) set \<Rightarrow> bool" where
  "uniform n s A \<longleftrightarrow>
     (\<forall>a \<in> A. snd a = n \<and> (n + 1) dvd fst a) \<and> (n + 1) dvd last_malloc_block s \<and>
     (\<forall>e \<in> set (fast_malloc_lists s). \<forall>p \<in> set (snd e). (n + 1) dvd p \<and> p + n + 1 \<le> block_num s)"

lemma set_AList_update: "e \<in> set (AList.update k v al) \<Longrightarrow> e = (k, v) \<or> e \<in> set al"
  by (induction al) (auto split: if_splits)

lemma dvd_interval:
  assumes "(n + 1) dvd p" and "(n + 1) dvd q" and "q \<le> p" and "p \<le> q + n"
  shows "p = (q :: nat)"
proof -
  from assms(1,2) have "(n + 1) dvd p - q" by (rule dvd_diff_nat)
  moreover have "p - q < n + 1" using assms(4) by linarith
  ultimately have "p - q = 0" by (auto dest: dvd_imp_le)
  with assms(3) show ?thesis by simp
qed

lemma uniform_aligned_unused:
  assumes "loop_ok s A" and "uniform n s A" and "(n + 1) dvd p" and "p < block_num s"
  shows "\<not> Used s p"
proof
  assume "Used s p"
  with assms(1,4) obtain q m where a: "(q, m) \<in> A" "q < p" "p \<le> q + m"
    by (auto simp: loop_ok_def data_bit_def)
  with assms(2) have "m = n" "(n + 1) dvd q" by (auto simp: uniform_def)
  with dvd_interval [OF assms(3), of q] a show False by simp
qed

lemma uniform_slot_separate:
  assumes ok: "loop_ok s A" and un: "uniform n s A" and p: "(n + 1) dvd p" "p + n + 1 \<le> block_num s"
    and clear: "\<not> Used s (p + 1)" and a: "a \<in> A"
  shows "region (p, n) \<inter> region a = {}"
proof (rule ccontr)
  assume "region (p, n) \<inter> region a \<noteq> {}"
  then obtain i where i: "p \<le> i" "i \<le> p + n" "fst a \<le> i" "i \<le> fst a + snd a"
    by (rule region_meetE)
  from un a have "snd a = n" "(n + 1) dvd fst a" by (auto simp: uniform_def)
  with i p(1) have "fst a = p"
    using dvd_interval [of n p "fst a"] dvd_interval [of n "fst a" p] by linarith
  with a \<open>snd a = n\<close> have "(p, n) \<in> A" by (metis prod.collapse)
  with loop_ok_D(4) [OF ok this] loop_ok_D(6) [OF ok, of "p + 1"] clear show False
    by (force simp: fits_def data_bit_def)
qed

lemma fast_scan_sound:
  "fast_scan s n q = (q', r) \<Longrightarrow>
   set q' \<subseteq> set q \<and> (\<forall>p. r = Some p \<longrightarrow> p \<in> set q \<and> fast_malloc_success s p n)"
  by (induction q) (auto split: if_splits)

text \<open>The search never settles in the middle of a slot.\<close>

lemma uniform_search_aligned:
  assumes ok: "loop_ok s A" and un: "uniform n s A"
  shows "(n + 1) dvd mb \<or> mb < block_num s \<and> Used s mb \<Longrightarrow>
         loop_search s n mb offset = Some p \<Longrightarrow> (n + 1) dvd p"
proof (induction mb offset rule: loop_search_induct [where s = s and n = n])
  case (1 mb offset)
  note step = 1(4) [unfolded loop_search_cases [of s n mb offset]]
  have off: "offset < block_num s" using step by (simp split: if_splits)
  show ?case
  proof (cases "mb + n + 1 \<le> block_num s")
    case False
    with off 1(2) step show ?thesis by simp
  next
    case fits: True
    show ?thesis
    proof (cases "scan_break s mb n")
      case None
      then have "\<not> Used s mb" by (auto simp: scan_break_None window_free_def dest: spec [of _ 0])
      with None off fits 1(3) step show ?thesis by simp
    next
      case (Some i)
      note b = scan_break_Some [OF Some]
      have "(n + 1) dvd mb + i + 1 \<or> mb + i + 1 < block_num s \<and> Used s (mb + i + 1)"
      proof (cases "Used s mb \<or> Used s (mb + 1)")
        case True
        then have "i = 0" using b(3) by (metis add.right_neutral gr0I)
        show ?thesis
        proof (cases "Used s mb")
          case True
          with fits ok obtain q m where q: "(q, m) \<in> A" "q < mb" "mb \<le> q + m"
            by (auto simp: loop_ok_def data_bit_def)
          with un have m: "m = n" "(n + 1) dvd q" by (auto simp: uniform_def)
          show ?thesis
          proof (cases "mb = q + n")
            case True
            then have "mb + i + 1 = q + (n + 1)" using \<open>i = 0\<close> by simp
            moreover have "(n + 1) dvd q + (n + 1)" using m(2) by (rule dvd_add) simp
            ultimately show ?thesis by metis
          next
            case False
            then have "Used s (mb + 1)"
              using q m loop_ok_D(4,6) [OF ok] by (force simp: data_bit_def fits_def)
            moreover have "mb + 1 < block_num s"
              using loop_ok_D(4) [OF ok q(1)] q(3) m False by (simp add: fits_def)
            ultimately show ?thesis using \<open>i = 0\<close> by simp
          qed
        next
          case False
          with True have "Used s (mb + 1)" by simp
          moreover from False 1(3) have "(n + 1) dvd mb" by simp
          ultimately show ?thesis using \<open>i = 0\<close> fits
            by (cases n) auto
        qed
      next
        case False
        with 1(3) have al: "(n + 1) dvd mb" by simp
        have clear: "\<not> Used s j" if "mb \<le> j" "j \<le> mb + n" for j
        proof
          assume "Used s j"
          with that fits ok obtain q m where "(q, m) \<in> A" "q < j" "j \<le> q + m"
            by (auto simp: loop_ok_def data_bit_def)
          with uniform_slot_separate [OF ok un al fits _ this(1)] False that show False
            by (auto simp: region_def)
        qed
        have "i = n"
        proof (rule ccontr)
          assume "i \<noteq> n"
          with b(1,2) clear [of "mb + i"] clear [of "mb + i + 1"] show False by simp
        qed
        then have "mb + i + 1 = mb + (n + 1)" by simp
        moreover have "(n + 1) dvd mb + (n + 1)" using al by (rule dvd_add) simp
        ultimately show ?thesis by metis
      qed
      with 1(1) [OF off fits Some] step off fits Some show ?thesis by simp
    qed
  qed
qed

section \<open>The constructor\<close>

lemma initial_block_num_eq:
  "b mod 64 = 0 \<Longrightarrow> (b div 8 + b * 8 \<le> m \<or> b = 0) \<Longrightarrow> initial_block_num m b = 64 * (m div 520)"
proof (induction m b rule: initial_block_num.induct)
  case (1 m b)
  from 1(2) obtain k where b: "b = 64 * k" by auto
  show ?case
  proof (cases "(b + 64) div 8 + (b + 64) * 8 \<le> m")
    case True
    with 1 show ?thesis by (subst initial_block_num.simps) simp
  next
    case False
    have "m div 520 = k"
      using False 1(3) unfolding b by (intro div_nat_eqI) auto
    with False show ?thesis by (subst initial_block_num.simps) (simp add: b)
  qed
qed

lemma Initialize_clear: "arena s \<Longrightarrow> i < block_num s \<Longrightarrow> \<not> Used (loop_Initialize s) i"
  using bitmap_word [of s i] by (simp add: loop_Initialize_def Used_def)

lemma Initialize_Block [simp]: "Block (loop_Initialize s) = Block s"
  by (simp add: loop_Initialize_def Block_def fun_eq_iff)

lemma Initialize_frame [simp]:
  "block_num (loop_Initialize s) = block_num s" "last_malloc_block (loop_Initialize s) = 0"
  "total_used (loop_Initialize s) = 0" "total_malloc (loop_Initialize s) = 0"
  "enable_fast_malloc (loop_Initialize s) = enable_fast_malloc s"
  "fast_malloc_lists (loop_Initialize s) = fast_malloc_lists s"
  "city_hash (loop_Initialize s) = city_hash s"
  by (simp_all add: loop_Initialize_def)

lemma Initialize_ok: "arena s \<Longrightarrow> loop_ok (loop_Initialize s) {}"
  using Initialize_clear [of s] by (auto simp: loop_ok_def separate_def data_bit_def arena_def)

lemma loop_construct_ok: "loop_ok (loop_construct city healthy file m) {}"
  unfolding loop_construct_def Let_def
  by (rule Initialize_ok) (simp add: arena_def initial_block_num_eq)

lemma loop_construct_uniform: "uniform n (loop_construct city healthy file m) {}"
  by (simp add: loop_construct_def Let_def uniform_def loop_Initialize_def)

section \<open>Runs with one size class\<close>

lemma loop_ok_lists [simp]: "loop_ok (s\<lparr>fast_malloc_lists := l\<rparr>) A = loop_ok s A"
  by (simp add: loop_ok_def arena_def fits_def header_ok_def Used_def Block_def)

lemma loop_search_lists [simp]:
  "loop_search (s\<lparr>fast_malloc_lists := l\<rparr>) n mb offset = loop_search s n mb offset"
proof (induction mb offset rule: loop_search_induct [where s = s and n = n])
  case (1 mb offset)
  have "scan_break (s\<lparr>fast_malloc_lists := l\<rparr>) mb n = scan_break s mb n"
    by (simp add: scan_break_def Used_def)
  with 1 show ?case
    by (simp add: loop_search_cases [of "s\<lparr>fast_malloc_lists := l\<rparr>"] loop_search_cases [of s]
        split: option.splits)
qed

lemma uniform_lists_update:
  assumes "uniform n s A" and "\<forall>p \<in> set q. (n + 1) dvd p \<and> p + n + 1 \<le> block_num s"
  shows "uniform n (s\<lparr>fast_malloc_lists := AList.update k q (fast_malloc_lists s)\<rparr>) A"
  using assms by (fastforce simp: uniform_def dest: set_AList_update)

lemma uniform_remember:
  assumes un: "uniform n s A" and p: "(n + 1) dvd p" "p + n + 1 \<le> block_num s"
  shows "uniform n (remember_freed n p s) A"
proof -
  have "\<forall>i \<in> set q. (n + 1) dvd i \<and> i + n + 1 \<le> block_num s"
    if "map_of (fast_malloc_lists s) k = Some q" for k q
    using un map_of_SomeD [OF that] by (fastforce simp: uniform_def)
  then show ?thesis
    using un p uniform_lists_update [OF un]
    by (auto simp: remember_freed_def Let_def split: option.splits if_splits)
qed

text \<open>What every allocation of the class promises.\<close>

definition alloc_ok ::
  "nat \<Rightarrow> loop_malloc \<Rightarrow> (nat \<times> nat) set \<Rightarrow> loop_malloc \<Rightarrow> nat \<Rightarrow> bool" where
  "alloc_ok n s A s' p \<longleftrightarrow>
     p + n + 1 \<le> block_num s \<and> (\<forall>a \<in> A. region (p, n) \<inter> region a = {}) \<and>
     loop_ok s' (insert (p, n) A) \<and> (\<forall>j. j \<noteq> p \<longrightarrow> Block s' j = Block s j) \<and>
     block_num s' = block_num s"

lemma uniform_commit:
  assumes "uniform n s A" and "(n + 1) dvd p" and "p + n + 1 \<le> block_num s"
    and "block_num s' = block_num s" "fast_malloc_lists s' = fast_malloc_lists s"
    and "last_malloc_block s' = last_malloc_block s \<or> last_malloc_block s' = (p + n + 1) mod block_num s"
  shows "uniform n s' (insert (p, n) A)"
proof -
  have "(n + 1) dvd (p + n + 1) mod block_num s"
  proof (cases "p + n + 1 = block_num s")
    case False
    have "(n + 1) dvd p + (n + 1)" using assms(2) by (rule dvd_add) simp
    with False assms(3) show ?thesis by (simp add: add.assoc)
  qed simp
  then show ?thesis using assms by (auto simp: uniform_def)
qed

lemma alloc_ok_lists [simp]:
  "alloc_ok n (s\<lparr>fast_malloc_lists := l\<rparr>) A s' p = alloc_ok n s A s' p"
  by (simp add: alloc_ok_def Block_def)

lemma uniform_loop_path:
  assumes ok: "loop_ok s A" and un: "uniform n s A" and b: "ok_size b" "n = blocks_of b"
  shows "(loop_path b n s = Inr (s, None) \<and> loop_search s n (last_malloc_block s) 0 = None) \<or>
    (\<exists>s' p. loop_path b n s = Inr (s', Some (8 * (int p + 1))) \<and>
       alloc_ok n s A s' p \<and> uniform n s' (insert (p, n) A))"
  using loop_path_ok [OF ok b refl]
proof (elim disjE exE conjE)
  fix s' p
  assume p: "loop_search s n (last_malloc_block s) 0 = Some p"
    and r: "loop_path b n s = Inr (s', Some (8 * (int p + 1)))"
    and f: "loop_ok s' (insert (p, n) A)" "\<forall>a \<in> A. region (p, n) \<inter> region a = {}"
      "\<forall>j. j \<noteq> p \<longrightarrow> Block s' j = Block s j" "block_num s' = block_num s"
      "fast_malloc_lists s' = fast_malloc_lists s"
      "last_malloc_block s' = (p + n + 1) mod block_num s"
  from loop_search_sound [OF p] have fit: "p + n + 1 \<le> block_num s" by simp
  from un have "(n + 1) dvd last_malloc_block s" by (simp add: uniform_def)
  then have al: "(n + 1) dvd p" using uniform_search_aligned [OF ok un _ p] by blast
  have "alloc_ok n s A s' p" using f fit by (simp add: alloc_ok_def)
  moreover have "uniform n s' (insert (p, n) A)" using uniform_commit [OF un al fit] f by blast
  ultimately show ?thesis using r by blast
qed blast

lemma uniform_fast_hit:
  assumes ok: "loop_ok s A" and un: "uniform n s A" and b: "ok_size b" "n = blocks_of b"
    and p: "(n + 1) dvd p" "p + n + 1 \<le> block_num s" and fs: "fast_malloc_success s p n"
  shows "alloc_ok n s A (fast_commit b n p s) p \<and> uniform n (fast_commit b n p s) (insert (p, n) A)"
proof -
  have "\<not> Used s p" using uniform_aligned_unused [OF ok un p(1)] p(2) by simp
  with fs have "\<not> Used s (p + 1)"
    by (auto simp: fast_malloc_success_def list_all_iff simp del: upt_Suc dest: bspec [of _ _ 0])
  then have sep: "\<forall>a \<in> A. region (p, n) \<inter> region a = {}"
    using uniform_slot_separate [OF ok un p] by blast
  note F = fast_commit_ok [OF ok sep p(2) b]
  show ?thesis
    using F sep p uniform_commit [OF un p F(3,5)] by (simp add: alloc_ok_def)
qed

lemma uniform_New:
  assumes ok: "loop_ok s A" and un: "uniform n s A" and b: "ok_size b" "n = blocks_of b"
  shows "(\<exists>s'. loop_New b s = Inr (s', None) \<and> loop_ok s' A \<and> uniform n s' A \<and> Block s' = Block s \<and>
            loop_search s n (last_malloc_block s) 0 = None) \<or>
    (\<exists>s' p. loop_New b s = Inr (s', Some (8 * (int p + 1))) \<and>
       alloc_ok n s A s' p \<and> uniform n s' (insert (p, n) A))"
    (is "?goal (loop_New b s)")
proof -
  have bn: "0 < b" "nat (BlockNum b) = n" using b by (auto simp: ok_size_def blocks_of_def)
  let ?key = "city_hash s (of_nat n)"
  show ?thesis
  proof (cases "if enable_fast_malloc s then map_of (fast_malloc_lists s) ?key else None")
    case None
    then have "loop_New b s = loop_path b n s" using bn by (simp add: loop_New_def Let_def)
    then show ?thesis using uniform_loop_path [OF ok un b] ok un by auto
  next
    case (Some q)
    then have mem: "(?key, q) \<in> set (fast_malloc_lists s)"
      by (auto split: if_splits dest: map_of_SomeD)
    obtain q' r where sc: "fast_scan s n q = (q', r)" by force
    note sound = fast_scan_sound [OF sc]
    define t where "t = s\<lparr>fast_malloc_lists := AList.update ?key q' (fast_malloc_lists s)\<rparr>"
    have q: "\<forall>p \<in> set q. (n + 1) dvd p \<and> p + n + 1 \<le> block_num s"
      using un mem by (fastforce simp: uniform_def)
    have ut: "uniform n t A"
      unfolding t_def using sound q by (intro uniform_lists_update [OF un]) blast
    have okt: "loop_ok t A" using ok by (simp add: t_def)
    have New: "loop_New b s = (case r of None \<Rightarrow> loop_path b n t
        | Some p \<Rightarrow> Inr (fast_commit b n p t, Some (8 * (int p + 1))))"
      using bn Some sc by (simp add: loop_New_def Let_def t_def split: option.split)
    have same: "Block t = Block s" by (simp add: t_def Block_def fun_eq_iff)
    show ?thesis
    proof (cases r)
      case None
      with New uniform_loop_path [OF okt ut b] okt ut same show ?thesis
        by (auto simp: t_def)
    next
      case (Some p)
      have "fast_malloc_success t p n" using sound Some by (simp add: fast_malloc_success_def Used_def t_def)
      moreover have "(n + 1) dvd p" "p + n + 1 \<le> block_num t" using sound Some q by (auto simp: t_def)
      ultimately show ?thesis
        using New Some uniform_fast_hit [OF okt ut b, of p] by (auto simp: t_def)
    qed
  qed
qed

text \<open>
  The reachable states of a client that only asks for sizes of one class and only releases
  what it holds; the set of live allocations is what the returned pointers say.
\<close>

lemma uniform_Free:
  assumes ok: "loop_ok s A" and un: "uniform n s A" and p: "(p, k) \<in> A"
  shows "uniform n (fst (loop_Free (8 * (int p + 1)) s)) (A - {(p, k)})"
proof -
  from un p have k: "k = n" and "(n + 1) dvd p" by (auto simp: uniform_def)
  moreover have "p + n + 1 \<le> block_num s"
    using loop_ok_D(4) [OF ok p] k by (simp add: fits_def)
  ultimately have "uniform n (remember_freed n p s) A" by (intro uniform_remember [OF un])
  then show ?thesis
    using loop_Free_live(4,5,8) [OF ok p] k by (auto simp: uniform_def)
qed

text \<open>The arena's size never changes.\<close>

lemma loop_commit_block_num: "loop_commit b n mb s = Inr s' \<Longrightarrow> block_num s' = block_num s"
proof -
  have "use_blocks_checked mb is t = Inr u \<Longrightarrow> block_num u = block_num t" for "is" t u
    by (induction "is" arbitrary: t) (auto split: if_splits)
  then show "loop_commit b n mb s = Inr s' \<Longrightarrow> block_num s' = block_num s"
    by (auto simp: loop_commit_def elim!: bind_result_InrE)
qed

lemma loop_New_block_num: "loop_New b s = Inr (s', r) \<Longrightarrow> block_num s' = block_num s"
proof -
  have path: "loop_path b n t = Inr (u, r') \<Longrightarrow> block_num u = block_num t" for n t u r'
    by (auto simp: loop_path_def dest: loop_commit_block_num elim!: bind_result_InrE split: option.splits)
  have fast: "block_num (fast_commit b n mb t) = block_num t" for n mb t
    using fold_UseBlock_shm [of "\<lambda>i. mb + i" "[1..<n + 1]" "set_Block mb (word_of_int b) t"]
    by (auto simp: fast_commit_def use_blocks_def Let_def simp del: upt_Suc)
  show "loop_New b s = Inr (s', r) \<Longrightarrow> block_num s' = block_num s"
    by (auto simp: loop_New_def Let_def fast dest!: path split: if_splits option.splits prod.splits)
qed

text \<open>The header block of a new allocation holds the requested size.\<close>

lemma use_blocks_checked_Inr:
  "use_blocks_checked mb is s = Inr s' \<Longrightarrow> s' = fold (\<lambda>i. UseBlock (mb + i)) is s"
  by (induction "is" arbitrary: s) (auto split: if_splits)

lemma loop_New_header:
  assumes arena: "arena s" and b: "ok_size b" and fit: "p + blocks_of b + 1 \<le> block_num s"
    and New: "loop_New b s = Inr (s', Some (8 * (int p + 1)))"
  shows "Block s' p = word_of_int b"
proof -
  let ?n = "blocks_of b"
  have mark: "Block (use_blocks p ?n (set_Block p (word_of_int b) t)) p = word_of_int b"
    if "arena t" "block_num t = block_num s" for t
  proof -
    have "Block (use_blocks p ?n (set_Block p (word_of_int b) t)) p = Block (set_Block p (word_of_int b) t) p"
      unfolding use_blocks_def using that fit by (intro fold_UseBlock_Block) auto
    then show ?thesis by (simp add: Block_set_Block)
  qed
  have fast: "Block (fast_commit b ?n p t) p = word_of_int b" if "arena t" "block_num t = block_num s" for t
    using mark [OF that] by (simp add: fast_commit_def Let_def Block_def)
  have path: "Block u p = word_of_int b"
    if "loop_path b ?n t = Inr (u, Some (8 * (int p + 1)))" "arena t" "block_num t = block_num s" for t u
  proof -
    from that(1) have "loop_commit b ?n p t = Inr u"
      by (auto simp: loop_path_def elim!: bind_result_InrE split: option.splits)
    then obtain v where v: "use_blocks_checked p [1..<?n + 1] (set_Block p (word_of_int b) t) = Inr v"
      "Block u = Block v"
      by (auto simp: loop_commit_def Block_def fun_eq_iff elim!: bind_result_InrE simp del: upt_Suc)
    from use_blocks_checked_Inr [OF v(1)] mark [OF that(2,3)] v(2) show ?thesis
      by (simp add: use_blocks_def del: upt_Suc)
  qed
  have ne: "(b < 0) = False" "(b = 0) = False" using b by (auto simp: ok_size_def)
  from New have New': "(case (if enable_fast_malloc s
      then map_of (fast_malloc_lists s) (city_hash s (of_nat ?n)) else None) of
          None \<Rightarrow> loop_path b ?n s
        | Some q \<Rightarrow>
            let (q', r) = fast_scan s ?n q;
                s1 = s\<lparr>fast_malloc_lists := AList.update (city_hash s (of_nat ?n)) q' (fast_malloc_lists s)\<rparr> in
            (case r of
               Some mb \<Rightarrow> Inr (fast_commit b ?n mb s1, Some (8 * (int mb + 1)))
             | None \<Rightarrow> loop_path b ?n s1)) = Inr (s', Some (8 * (int p + 1)))"
    by (simp only: loop_New_def Let_def blocks_of_def ne if_False)
  have a1: "arena (s\<lparr>fast_malloc_lists := l\<rparr>)" for l using arena by (simp add: arena_def)
  from New' show ?thesis
    using path [OF _ arena] path [OF _ a1] fast [OF a1]
    by (auto simp: Let_def split: option.splits prod.splits)
qed

inductive loop_reach :: "nat \<Rightarrow> loop_malloc \<Rightarrow> (nat \<times> nat) set \<Rightarrow> bool" for n where
  start: "loop_reach n (loop_construct city healthy file m) {}"
| alloc: "loop_reach n s A \<Longrightarrow> ok_size b \<Longrightarrow> n = blocks_of b \<Longrightarrow>
    loop_New b s = Inr (s', Some (8 * (int p + 1))) \<Longrightarrow> loop_reach n s' (insert (p, n) A)"
| oom: "loop_reach n s A \<Longrightarrow> ok_size b \<Longrightarrow> n = blocks_of b \<Longrightarrow>
    loop_New b s = Inr (s', None) \<Longrightarrow> loop_reach n s' A"
| release: "loop_reach n s A \<Longrightarrow> (p, n) \<in> A \<Longrightarrow>
    loop_Free (8 * (int p + 1)) s = (s', r) \<Longrightarrow> loop_reach n s' (A - {(p, n)})"

lemma loop_reach_invariant: "loop_reach n s A \<Longrightarrow> loop_ok s A \<and> uniform n s A"
proof (induction rule: loop_reach.induct)
  case (start city healthy contents m)
  show ?case using loop_construct_ok loop_construct_uniform by blast
next
  case (alloc s A b s' p)
  with uniform_New [of s A n b] show ?case by (auto simp: alloc_ok_def)
next
  case (oom s A b s')
  with uniform_New [of s A n b] show ?case by auto
next
  case (release s A p s' r)
  then have ok: "loop_ok s A" and un: "uniform n s A" by auto
  note F = loop_Free_live [OF ok release.hyps(2)]
  from release.hyps(3) have s': "s' = fst (loop_Free (8 * (int p + 1)) s)" by simp
  with uniform_Free [OF ok un release.hyps(2)] F(2) show ?case by simp
qed

section \<open>Properties of the allocator\<close>

text \<open>
  C1: With requests of a single size class, every reachable state of the allocator, fast lists
  included, hands out a region inside the arena that meets no live allocation, leaves the
  headers and contents of all live allocations as they were, and never trips a \<open>CHECK\<close>; when
  it returns NULL, nothing but the fast lists has changed.
\<close>

theorem loop_single_class_safe:
  assumes "loop_reach n s A" and "ok_size b" and "n = blocks_of b"
  shows "(\<exists>s'. loop_New b s = Inr (s', None) \<and> loop_ok s' A \<and> Block s' = Block s) \<or>
    (\<exists>s' p. loop_New b s = Inr (s', Some (8 * (int p + 1))) \<and> p + n + 1 \<le> block_num s \<and>
       (\<forall>a \<in> A. region (p, n) \<inter> region a = {}) \<and> loop_ok s' (insert (p, n) A) \<and>
       (\<forall>a \<in> A. \<forall>j \<in> region a. Block s' j = Block s j))"
proof -
  from loop_reach_invariant [OF assms(1)] have "loop_ok s A" "uniform n s A" by auto
  from uniform_New [OF this assms(2,3)] show ?thesis
  proof (elim disjE exE conjE)
    fix s' p
    assume New: "loop_New b s = Inr (s', Some (8 * (int p + 1)))" and a: "alloc_ok n s A s' p"
    have "p \<in> region (p, n)" by (simp add: region_def)
    with a have "\<forall>a \<in> A. \<forall>j \<in> region a. Block s' j = Block s j" by (fastforce simp: alloc_ok_def)
    with New a show ?thesis by (auto simp: alloc_ok_def)
  qed auto
qed

text \<open>
  C28: With the fast lists disabled, the same holds for any mix of sizes.
\<close>

theorem loop_any_size_safe:
  assumes "loop_ok s A" and "\<not> enable_fast_malloc s" and "ok_size b"
  shows "(loop_New b s = Inr (s, None)) \<or>
    (\<exists>s' p. loop_New b s = Inr (s', Some (8 * (int p + 1))) \<and>
       (\<forall>a \<in> A. region (p, blocks_of b) \<inter> region a = {}) \<and>
       loop_ok s' (insert (p, blocks_of b) A) \<and> \<not> enable_fast_malloc s' \<and>
       (\<forall>a \<in> A. \<forall>j \<in> region a. Block s' j = Block s j))"
  using loop_path_ok [OF assms(1,3) refl refl]
proof (elim disjE exE conjE)
  assume "loop_path b (blocks_of b) s = Inr (s, None)"
  then show ?thesis using loop_New_no_fast [OF assms(3,2)] by simp
next
  fix s' p
  assume r: "loop_path b (blocks_of b) s = Inr (s', Some (8 * (int p + 1)))"
    and f: "loop_ok s' (insert (p, blocks_of b) A)" "\<forall>a \<in> A. region (p, blocks_of b) \<inter> region a = {}"
      "\<forall>j. j \<noteq> p \<longrightarrow> Block s' j = Block s j" "enable_fast_malloc s' = enable_fast_malloc s"
  have "p \<in> region (p, blocks_of b)" by (simp add: region_def)
  with f(2,3) have "\<forall>a \<in> A. \<forall>j \<in> region a. Block s' j = Block s j" by fastforce
  with r f assms(2) show ?thesis using loop_New_no_fast [OF assms(3,2)] by auto
qed

text \<open>
  C27: A live allocation can be released exactly once: \<open>Free\<close> accepts its pointer, returns the
  blocks and the counters to what they were without it and leaves every word of the data area
  in place; a second \<open>Free\<close> of the same pointer is refused and changes nothing.
\<close>

theorem loop_free_once:
  assumes "loop_ok s A" and "(p, n) \<in> A"
  shows "\<exists>s'. loop_Free (8 * (int p + 1)) s = (s', True) \<and> loop_ok s' (A - {(p, n)}) \<and>
           total_used s' = total_used s - (int n + 1) \<and> Block s' = Block s \<and>
           loop_Free (8 * (int p + 1)) s' = (s', False)"
proof -
  note F = loop_Free_live [OF assms] and D = loop_ok_D [OF assms(1)]
  let ?s' = "fst (loop_Free (8 * (int p + 1)) s)"
  from D(4,5) [OF assms(2)] have f: "p + n + 1 \<le> block_num s" "1 \<le> n" "header_ok s (p, n)"
    by (auto simp: fits_def)
  have "\<not> data_bit (A - {(p, n)}) (p + 1)"
  proof
    assume "data_bit (A - {(p, n)}) (p + 1)"
    then obtain a where a: "a \<in> A" "a \<noteq> (p, n)" "p + 1 \<in> region a"
      by (blast dest: data_bit_region)
    moreover have "p + 1 \<in> region (p, n)" using f by (simp add: region_def)
    ultimately show False using D(3) assms(2) unfolding separate_def by blast
  qed
  then have "\<not> Used ?s' (p + 1)" using loop_ok_D(6) [OF F(2), of "p + 1"] f F(4) by simp
  then have "loop_Free (8 * (int p + 1)) ?s' = (?s', False)"
    using f F(3,4) by (intro loop_Free_refused) (simp_all add: header_ok_def)
  moreover have "total_used ?s' = total_used s - (int n + 1)"
    using loop_ok_D(7) [OF F(2)] D(2,7) assms(2) by (simp add: sum_diff1)
  ultimately show ?thesis using F by (intro exI [of _ ?s']) (simp add: prod_eq_iff)
qed

text \<open>
  C35: The allocator never reports exhaustion while a window of clear bits of the requested
  size (with the bit after it) is left inside the bitmap.
\<close>

theorem loop_no_false_oom:
  assumes "loop_ok s A" and "ok_size b" and "loop_New b s = Inr (s', None)"
    and "p + blocks_of b + 1 < block_num s"
  shows "\<exists>i \<le> blocks_of b + 1. Used s (p + i)"
proof (rule ccontr)
  assume "\<not> ?thesis"
  then have w: "window_free s p (blocks_of b)" by (auto simp: window_free_def)
  have fit: "p + blocks_of b + 1 \<le> block_num s" using assms(4) by simp
  have last: "last_malloc_block s < block_num s" using loop_ok_D(9) [OF assms(1)] assms(4) by simp
  have "loop_search s (blocks_of b) (last_malloc_block s) 0 = None"
    using assms(2,3) by (auto simp: loop_New_def ok_size_def blocks_of_def Let_def loop_path_def
        bind_result_Inr_iff split: option.splits prod.splits if_splits)
  moreover have "loop_search s (blocks_of b) (last_malloc_block s) 0 \<noteq> None"
  proof (cases "last_malloc_block s \<le> p")
    case True
    then show ?thesis using loop_search_ahead [OF w fit True, of 0] assms(4) by linarith
  next
    case False
    then show ?thesis
      using loop_search_complete [OF w fit, of "last_malloc_block s" 0] last by linarith
  qed
  ultimately show False by simp
qed

lemma mallocs_from_eq:
  "\<forall>i \<in> set is. \<not> Used s i \<longrightarrow> Used s (i + 1) \<longrightarrow> Block s i \<noteq> 0 \<Longrightarrow>
   mallocs_from s is = Inr (map (\<lambda>i. 8 * (int i + 1)) (filter (\<lambda>i. \<not> Used s i \<and> Used s (i + 1)) is))"
  by (induction "is") auto

lemma start_of_allocation:
  assumes ok: "loop_ok s A" and i: "i + 1 < block_num s"
  shows "(\<not> Used s i \<and> Used s (i + 1)) = (i \<in> fst ` A)"
proof
  assume "\<not> Used s i \<and> Used s (i + 1)"
  with i loop_ok_D(6) [OF ok] obtain p n where "(p, n) \<in> A" "p < i + 1" "i + 1 \<le> p + n"
    "\<not> (p < i \<and> i \<le> p + n)" by (force simp: data_bit_def)
  then show "i \<in> fst ` A" by force
next
  assume "i \<in> fst ` A"
  then obtain n where a: "(i, n) \<in> A" by force
  with loop_ok_D(4) [OF ok a] loop_ok_D(6) [OF ok i] have "Used s (i + 1)"
    by (force simp: data_bit_def fits_def)
  with live_pointer(4) [OF ok a] show "\<not> Used s i \<and> Used s (i + 1)" by simp
qed

text \<open>
  \<open>GetMallocsAppend\<close> lists exactly the pointers of the live allocations, in address order.
\<close>

theorem loop_enumerates_live:
  assumes ok: "loop_ok s A"
  shows "loop_GetMallocsAppend s =
    Inr (map (\<lambda>p. 8 * (int p + 1)) (filter (\<lambda>p. p \<in> fst ` A) [0..<block_num s]))"
proof -
  have starts: "(\<not> Used s i \<and> Used s (i + 1)) = (i \<in> fst ` A)" if "i \<in> set [0..<block_num s - 1]" for i
    using start_of_allocation [OF ok, of i] that by auto
  have "Block s i \<noteq> 0" if "i \<in> fst ` A" for i
  proof -
    from that obtain n where "(i, n) \<in> A" by force
    with loop_ok_D(4,5) [OF ok this] show ?thesis
      by (auto simp: fits_def header_ok_def BlockNum_def int_of_size_word_def)
  qed
  then have "loop_GetMallocsAppend s = Inr (map (\<lambda>i. 8 * (int i + 1))
      (filter (\<lambda>i. \<not> Used s i \<and> Used s (i + 1)) [0..<block_num s - 1]))"
    unfolding loop_GetMallocsAppend_def using starts by (intro mallocs_from_eq) blast
  also have "filter (\<lambda>i. \<not> Used s i \<and> Used s (i + 1)) [0..<block_num s - 1] =
      filter (\<lambda>p. p \<in> fst ` A) [0..<block_num s - 1]"
    using starts by (intro filter_cong) auto
  also have "\<dots> = filter (\<lambda>p. p \<in> fst ` A) [0..<block_num s]"
  proof (cases "block_num s")
    case (Suc k)
    have "k \<notin> fst ` A" using loop_ok_D(4) [OF ok] Suc by (force simp: fits_def)
    with Suc show ?thesis by simp
  qed simp
  finally show ?thesis .
qed

lemma recover_one:
  assumes ok: "loop_ok s B" and new: "fits s (p, n)" "header_ok s (p, n)"
    "\<forall>a \<in> B. region (p, n) \<inter> region a = {}"
  shows "\<exists>s'. AddMallocs4Recovery (8 * (int p + 1)) s = Inr s' \<and> loop_ok s' (insert (p, n) B) \<and>
           Block s' = Block s \<and> block_num s' = block_num s"
proof -
  note D = loop_ok_D [OF ok]
  let ?t = "s\<lparr>total_malloc := total_malloc s + 1, total_used := total_used s + int n + 1\<rparr>"
  let ?f = "\<lambda>i. nat (BlockIndex (8 * (int p + 1)) - 1 + int i)"
  define s' where "s' = fold (\<lambda>i. UseBlock (?f i)) [1..<n + 1] ?t"
  have f: "?f i = p + i" for i by (simp add: BlockIndex_def nat_add_distrib)
  have img: "?f ` set [1..<n + 1] = {p<..p + n}"
    unfolding f using image_add_atLeastLessThan [of p 1 "n + 1"] by (auto simp del: upt_Suc)
  have sz: "BlockNum (loop_GetMallocSize s (8 * (int p + 1))) = int n"
    using new(1,2) by (auto simp: loop_GetMallocSize_def BlockIndex_def fits_def header_ok_def)
  have run: "AddMallocs4Recovery (8 * (int p + 1)) s = Inr s'"
    using new(1) sz by (simp add: AddMallocs4Recovery_def Let_def s'_def fits_def)
  obtain m where m: "s' = ?t\<lparr>shm := m\<rparr>"
    unfolding s'_def using fold_UseBlock_shm [of ?f "[1..<n + 1]" ?t] by blast
  have arena: "arena ?t" using D(1) by (simp add: arena_def)
  have "Block s' j = Block ?t j" for j
    unfolding s'_def
  proof (rule fold_UseBlock_Block [OF arena])
    show "\<forall>i \<in> set [1..<n + 1]. ?f i < block_num ?t"
      unfolding f using new(1) by (auto simp: fits_def)
  qed
  then have blk: "Block s' = Block s" by (auto simp: Block_def)
  have bits: "Used s' i = (p < i \<and> i \<le> p + n \<or> Used s i)" for i
    unfolding s'_def fold_UseBlock_bits img by (auto simp: Used_def)
  have "loop_ok s' (insert (p, n) B)"
    by (rule loop_ok_insert [OF ok new(1,3) bits])
       (use blk m new D(9) in \<open>auto simp: header_ok_def fits_def\<close>)
  with run blk m show ?thesis by auto
qed

lemma recover_all_ok:
  assumes "loop_ok s B" and "finite A" "separate (A \<union> B)" "\<forall>a \<in> A. fits s a \<and> header_ok s a"
    and "set xs = A" "distinct xs" "A \<inter> B = {}"
  shows "\<exists>s'. recover_all (map (\<lambda>a. 8 * (int (fst a) + 1)) xs) s = Inr s' \<and> loop_ok s' (A \<union> B) \<and>
           Block s' = Block s \<and> block_num s' = block_num s"
  using assms
proof (induction xs arbitrary: s A B)
  case Nil
  then show ?case by auto
next
  case (Cons a xs)
  obtain p n where a: "a = (p, n)" by force
  have sep: "\<forall>b \<in> B. region (p, n) \<inter> region b = {}"
    using Cons.prems(3,5,7) a by (auto simp: separate_def)
  have new: "fits s (p, n)" "header_ok s (p, n)" using Cons.prems(4,5) a by auto
  obtain s1 where s1: "AddMallocs4Recovery (8 * (int p + 1)) s = Inr s1"
    "loop_ok s1 (insert (p, n) B)" "Block s1 = Block s" "block_num s1 = block_num s"
    using recover_one [OF Cons.prems(1) new sep] by blast
  have un: "set xs \<union> insert (p, n) B = A \<union> B" using Cons.prems(5) a by auto
  obtain s2 where "recover_all (map (\<lambda>a. 8 * (int (fst a) + 1)) xs) s1 = Inr s2"
    "loop_ok s2 (A \<union> B)" "Block s2 = Block s1" "block_num s2 = block_num s1"
    using Cons.IH [OF s1(2), of "set xs"] Cons.prems s1 a un
    by (fastforce simp: fits_def header_ok_def)
  with s1 a show ?case by simp
qed

text \<open>
  C29: Recovery rebuilds the allocator: after \<open>Initialize\<close> has cleared the bitmap and the
  counters, replaying the live offsets in any order gives a state that represents the same
  allocations, with the same contents and counters, without tripping a \<open>CHECK\<close>.
\<close>

theorem loop_recovery:
  assumes ok: "loop_ok s A" and "set xs = A" "distinct xs"
  shows "\<exists>s'. recover_all (map (\<lambda>a. 8 * (int (fst a) + 1)) xs) (loop_Initialize s) = Inr s' \<and>
           loop_ok s' A \<and> Block s' = Block s \<and> total_used s' = total_used s \<and>
           total_malloc s' = total_malloc s"
proof -
  note D = loop_ok_D [OF ok]
  have "\<forall>a \<in> A. fits (loop_Initialize s) a \<and> header_ok (loop_Initialize s) a"
    using D(4,5) by (auto simp: fits_def header_ok_def)
  with recover_all_ok [OF Initialize_ok [OF D(1)] D(2), of xs] D(3) assms(2,3)
  obtain s' where s': "recover_all (map (\<lambda>a. 8 * (int (fst a) + 1)) xs) (loop_Initialize s) = Inr s'"
    "loop_ok s' A" "Block s' = Block s" by auto
  with loop_ok_D(7,8) [OF s'(2)] D(7,8) show ?thesis by auto
qed

text \<open>
  The constructor cuts the file into the largest number of whole bitmap words whose bits
  and blocks fit, and starts with nothing allocated.
\<close>

theorem loop_construct_fresh:
  "let s = loop_construct city healthy raw m in
     block_num s = 64 * (m div 520) \<and> block_num s div 8 + 8 * block_num s \<le> m \<and>
     m < (block_num s + 64) div 8 + 8 * (block_num s + 64) \<and>
     loop_ok s {} \<and> total_used s = 0 \<and> total_malloc s = 0"
  using loop_construct_ok [of city healthy raw m]
  by (auto simp: Let_def loop_construct_def initial_block_num_eq)

end
