(* ===== verification/LoopRuns.thy ===== *)
theory LoopRuns
  imports LoopMalloc
begin

text \<open>
  Concrete runs of \<open>PersistLoopShmMalloc\<close> on a 64-block arena: the inputs the properties of
  the allocator are evaluated on, and a run in which two live allocations overlap.
\<close>

section \<open>Sequences of calls\<close>

text \<open>The smallest arena the constructor builds: one bitmap word, 64 blocks.\<close>

definition demo_arena :: loop_malloc where
  "demo_arena = loop_construct id id (\<lambda>_. 0) 520"

datatype malloc_call = New_call int | Free_call int

fun after_call :: "malloc_call \<Rightarrow> loop_malloc \<Rightarrow> loop_malloc" where
  "after_call (New_call b) s = (case loop_New b s of Inl _ \<Rightarrow> s | Inr (s', _) \<Rightarrow> s')"
| "after_call (Free_call p) s = fst (loop_Free p s)"

fun answer :: "malloc_call \<Rightarrow> loop_malloc \<Rightarrow> int option" where
  "answer (New_call b) s = (case loop_New b s of Inl _ \<Rightarrow> None | Inr (_, p) \<Rightarrow> p)"
| "answer (Free_call p) s = (if snd (loop_Free p s) then Some p else None)"

fun run_calls :: "malloc_call list \<Rightarrow> loop_malloc \<Rightarrow> int option list" where
  "run_calls [] s = []"
| "run_calls (c # cs) s = answer c s # run_calls cs (after_call c s)"

lemma New_after_call:
  "answer (New_call b) s = Some p \<Longrightarrow> loop_New b s = Inr (after_call (New_call b) s, Some p)"
  by (auto split: sum.splits)

section \<open>A first run\<close>

definition demo1 where "demo1 = after_call (New_call 8) demo_arena"
definition demo2 where "demo2 = after_call (New_call 8) demo1"
definition demo3 where "demo3 = after_call (Free_call 8) demo2"
definition demo4 where "demo4 = after_call (Free_call 24) demo3"

lemmas demo_defs = demo1_def demo2_def demo3_def demo4_def

lemma ok8: "ok_size 8" "blocks_of 8 = 1" by (simp_all add: ok_size_def blocks_of_def BlockNum_def)

lemma New_no_list:
  assumes "ok_size b" and "map_of (fast_malloc_lists s) (city_hash s (of_nat (blocks_of b))) = None"
  shows "loop_New b s = loop_path b (blocks_of b) s"
  using assms by (auto simp: loop_New_def ok_size_def blocks_of_def Let_def split: option.splits)

text \<open>Where the request fits right after the last allocation, that is where it goes.\<close>

lemma answer_at_last:
  assumes ok: "loop_ok s A" and b: "ok_size b"
    and list: "map_of (fast_malloc_lists s) (city_hash s (of_nat (blocks_of b))) = None"
    and fit: "last_malloc_block s + blocks_of b + 1 < block_num s"
    and clear: "\<forall>i \<le> blocks_of b + 1. \<not> data_bit A (last_malloc_block s + i)"
  shows "answer (New_call b) s = Some (8 * (int (last_malloc_block s) + 1))"
proof -
  have "window_free s (last_malloc_block s) (blocks_of b)"
    using clear fit loop_ok_D(6) [OF ok]
    by (auto simp: window_free_def)
  then have "scan_break s (last_malloc_block s) (blocks_of b) = None" by (simp add: scan_break_None)
  then have "loop_search s (blocks_of b) (last_malloc_block s) 0 = Some (last_malloc_block s)"
    using fit by (subst loop_search_cases) simp
  with loop_path_ok [OF ok b refl refl] New_no_list [OF b list] show ?thesis by auto
qed

lemma after_New_frame:
  assumes "loop_reach n s A" and "fast_malloc_lists s = []" and "ok_size b"
    and "answer (New_call b) s = Some (8 * (int p + 1))"
  defines "s' \<equiv> after_call (New_call b) s"
  shows "block_num s' = block_num s" "enable_fast_malloc s' = enable_fast_malloc s"
    "fast_malloc_lists s' = []" "city_hash s' = city_hash s"
    "last_malloc_block s' = (p + blocks_of b + 1) mod block_num s"
proof -
  have "loop_path b (blocks_of b) s = Inr (s', Some (8 * (int p + 1)))"
    using New_after_call [OF assms(4)] New_no_list [OF assms(3)] assms(2)
    by (simp add: s'_def del: after_call.simps)
  from loop_path_ok [OF conjunct1 [OF loop_reach_invariant [OF assms(1)]] assms(3) refl this] assms(2)
  show "block_num s' = block_num s" "enable_fast_malloc s' = enable_fast_malloc s"
    "fast_malloc_lists s' = []" "city_hash s' = city_hash s"
    "last_malloc_block s' = (p + blocks_of b + 1) mod block_num s" by auto
qed

lemma demo_arena_reach: "loop_reach n demo_arena {}"
  unfolding demo_arena_def by (rule loop_reach.start)

lemma demo_arena_fields: "block_num demo_arena = 64" "enable_fast_malloc demo_arena"
    "fast_malloc_lists demo_arena = []" "city_hash demo_arena = id" "last_malloc_block demo_arena = 0"
  by (simp_all add: demo_arena_def loop_construct_def initial_block_num_eq)

lemma demo_answer1: "answer (New_call 8) demo_arena = Some 8"
  using answer_at_last [OF conjunct1 [OF loop_reach_invariant [OF demo_arena_reach]] ok8(1)] demo_arena_fields ok8(2)
  by (simp add: data_bit_def del: after_call.simps answer.simps)

lemma demo1_reach: "loop_reach 1 demo1 {(0, 1)}"
  using loop_reach.alloc [OF demo_arena_reach ok8(1) ok8(2) [symmetric], of demo1 0]
    New_after_call [OF demo_answer1] by (simp add: demo1_def del: after_call.simps answer.simps)

lemma demo1_fields: "block_num demo1 = 64" "enable_fast_malloc demo1"
    "fast_malloc_lists demo1 = []" "city_hash demo1 = id" "last_malloc_block demo1 = 2"
  using after_New_frame [OF demo_arena_reach demo_arena_fields(3) ok8(1), of 0] demo_answer1 ok8(2)
    demo_arena_fields by (simp_all add: demo1_def del: after_call.simps answer.simps)

lemma demo_answer2: "answer (New_call 8) demo1 = Some 24"
  using answer_at_last [OF conjunct1 [OF loop_reach_invariant [OF demo1_reach]] ok8(1)] demo1_fields ok8(2)
  by (simp add: data_bit_def del: after_call.simps answer.simps)

lemma demo2_reach: "loop_reach 1 demo2 {(2, 1), (0, 1)}"
  using loop_reach.alloc [OF demo1_reach ok8(1) ok8(2) [symmetric], of demo2 2]
    New_after_call [OF demo_answer2] by (simp add: demo2_def del: after_call.simps answer.simps)

lemma demo2_fields: "block_num demo2 = 64" "enable_fast_malloc demo2"
    "fast_malloc_lists demo2 = []" "city_hash demo2 = id" "last_malloc_block demo2 = 4"
  using after_New_frame [OF demo1_reach demo1_fields(3) ok8(1), of 2] demo_answer2
    demo1_fields ok8(2) by (simp_all add: demo2_def del: after_call.simps answer.simps)

lemma demo3_reach: "loop_reach 1 demo3 {(2, 1)}"
  using loop_reach.release [OF demo2_reach, of 0 demo3 "snd (loop_Free 8 demo2)"]
  by (simp add: demo3_def insert_Diff_if)

lemma demo4_reach: "loop_reach 1 demo4 {}"
  using loop_reach.release [OF demo3_reach, of 2 demo4 "snd (loop_Free 24 demo3)"]
  by (simp add: demo4_def)


lemmas reach_ok = conjunct1 [OF loop_reach_invariant]

lemma demo4_fields: "block_num demo4 = 64" "enable_fast_malloc demo4"
    "fast_malloc_lists demo4 = [(1, [0, 2])]" "city_hash demo4 = id" "last_malloc_block demo4 = 4"
  using loop_Free_live [OF reach_ok [OF demo2_reach], of 0 1] demo2_fields
    loop_Free_live [OF reach_ok [OF demo3_reach], of 2 1]
  by (simp_all add: demo3_def demo4_def remember_freed_def max_fast_list_num_def
      max_fast_list_type_def)

definition demo5 where "demo5 = after_call (New_call 480) demo4"

lemma ok480: "ok_size 480" "blocks_of 480 = 60"
  by (simp_all add: ok_size_def blocks_of_def BlockNum_def)

lemma demo_free_answers: "answer (Free_call 8) demo2 = Some 8" "answer (Free_call 24) demo3 = Some 24"
  using loop_Free_live [OF reach_ok [OF demo2_reach], of 0 1]
    loop_Free_live [OF reach_ok [OF demo3_reach], of 2 1] by simp_all

lemma demo4_search: "loop_search demo4 60 4 0 = Some 0"
proof -
  have clear: "\<not> Used demo4 i" if "i < 64" for i
    using that loop_ok_D(6) [OF reach_ok [OF demo4_reach], of i] demo4_fields
    by (simp add: data_bit_def)
  then have "window_free demo4 0 60" by (simp add: window_free_def)
  then have "scan_break demo4 0 60 = None" by (simp add: scan_break_None)
  then show ?thesis
    using demo4_fields by (subst loop_search_cases, simp) (subst loop_search_cases, simp)
qed

lemma demo5_props: "answer (New_call 480) demo4 = Some 8" "loop_ok demo5 {(0, 60)}"
    "block_num demo5 = 64" "enable_fast_malloc demo5"
    "fast_malloc_lists demo5 = [(1, [0, 2])]" "city_hash demo5 = id"
proof -
  have New: "loop_New 480 demo4 = loop_path 480 60 demo4"
    using New_no_list [OF ok480(1), of demo4] demo4_fields ok480(2) by simp
  from loop_path_ok [OF reach_ok [OF demo4_reach] ok480(1) ok480(2) [symmetric] refl] demo4_search
    demo4_fields
  obtain s' where "loop_path 480 60 demo4 = Inr (s', Some 8)" "loop_ok s' {(0, 60)}"
    "block_num s' = 64" "enable_fast_malloc s'" "fast_malloc_lists s' = [(1, [0, 2])]"
    "city_hash s' = id" by auto
  then show "answer (New_call 480) demo4 = Some 8" "loop_ok demo5 {(0, 60)}"
    "block_num demo5 = 64" "enable_fast_malloc demo5"
    "fast_malloc_lists demo5 = [(1, [0, 2])]" "city_hash demo5 = id"
    by (simp_all add: demo5_def New)
qed

lemma demo5_overlap: "answer (New_call 8) demo5 = Some 24"
proof -
  have "Used demo5 i = (0 < i \<and> i \<le> 60)" if "i < 64" for i
    using that loop_ok_D(6) [OF demo5_props(2), of i] demo5_props(3) by (simp add: data_bit_def)
  then have "fast_scan demo5 1 [0, 2] = ([], Some 2)"
    by (simp add: fast_malloc_success_def upt_conv_Cons)
  then show ?thesis
    using demo5_props by (simp add: loop_New_def BlockNum_def Let_def)
qed

text \<open>
  A fault of the fast lists: after two 8-byte allocations are freed and a 480-byte one has
  taken their place (data at 8 to 488), the next 8-byte request is served from the stale list
  entry at 24, inside the live 480-byte allocation; the guard only looks for a clear bit
  followed by a set one.
\<close>

theorem loop_mixed_sizes_overlap:
  "run_calls [New_call 8, New_call 8, Free_call 8, Free_call 24, New_call 480, New_call 8]
     demo_arena
   = [Some 8, Some 24, Some 8, Some 24, Some 8, Some 24]"
  using demo_answer1 demo_answer2 demo_free_answers demo5_props(1) demo5_overlap
  by (simp add: demo_defs demo5_def del: after_call.simps answer.simps)

section \<open>The allocator's properties on these runs\<close>

theorem loop_single_class_safe_witness:
  "loop_reach 1 demo1 {(0, 1)} \<and>
   ((\<exists>s'. loop_New 8 demo1 = Inr (s', None) \<and> loop_ok s' {(0, 1)} \<and> Block s' = Block demo1) \<or>
    (\<exists>s' p. loop_New 8 demo1 = Inr (s', Some (8 * (int p + 1))) \<and> p + 1 + 1 \<le> block_num demo1 \<and>
       (\<forall>a \<in> {(0, 1)}. region (p, 1) \<inter> region a = {}) \<and> loop_ok s' (insert (p, 1) {(0, 1)}) \<and>
       (\<forall>a \<in> {(0, 1)}. \<forall>j \<in> region a. Block s' j = Block demo1 j)))"
  using demo1_reach loop_single_class_safe [OF demo1_reach ok8(1) ok8(2) [symmetric]] by blast

lemma demo1_no_fast: "loop_ok (DisableFastMalloc demo1) {(0, 1)}"
  using reach_ok [OF demo1_reach]
  by (simp add: loop_ok_def DisableFastMalloc_def arena_def fits_def header_ok_def Used_def Block_def)

theorem loop_any_size_safe_witness:
  "(loop_New 480 (DisableFastMalloc demo1) = Inr (DisableFastMalloc demo1, None)) \<or>
   (\<exists>s' p. loop_New 480 (DisableFastMalloc demo1) = Inr (s', Some (8 * (int p + 1))) \<and>
      (\<forall>a \<in> {(0, 1)}. region (p, blocks_of 480) \<inter> region a = {}) \<and>
      loop_ok s' (insert (p, blocks_of 480) {(0, 1)}) \<and> \<not> enable_fast_malloc s' \<and>
      (\<forall>a \<in> {(0, 1)}. \<forall>j \<in> region a. Block s' j = Block (DisableFastMalloc demo1) j))"
  by (rule loop_any_size_safe [OF demo1_no_fast _ ok480(1)]) (simp add: DisableFastMalloc_def)

theorem loop_free_once_witness:
  "\<exists>s'. loop_Free (8 * (int 2 + 1)) demo2 = (s', True) \<and> loop_ok s' ({(2, 1), (0, 1)} - {(2, 1)}) \<and>
        total_used s' = total_used demo2 - (int 1 + 1) \<and> Block s' = Block demo2 \<and>
        loop_Free (8 * (int 2 + 1)) s' = (s', False)"
  by (rule loop_free_once [OF reach_ok [OF demo2_reach]]) simp

theorem loop_no_false_oom_witness:
  "loop_New 480 demo5 = Inr (demo5, None) \<and> (\<exists>i \<le> blocks_of 480 + 1. Used demo5 (0 + i))"
proof -
  have New: "loop_New 480 demo5 = loop_path 480 60 demo5"
    using New_no_list [OF ok480(1), of demo5] demo5_props(5,6) ok480(2) by simp
  have none: "loop_search demo5 60 (last_malloc_block demo5) 0 = None"
  proof (rule ccontr)
    assume "loop_search demo5 60 (last_malloc_block demo5) 0 \<noteq> None"
    then obtain p where "p + 60 + 1 \<le> 64" "window_free demo5 p 60"
      using loop_search_sound [of demo5 60] demo5_props(3) by fastforce
    then have "p \<le> 3" "\<not> Used demo5 (p + 1)" by (auto simp: window_free_def)
    then show False
      using loop_ok_D(6) [OF demo5_props(2), of "p + 1"] demo5_props(3) by (simp add: data_bit_def)
  qed
  then have "loop_New 480 demo5 = Inr (demo5, None)" by (simp add: New loop_path_def)
  with loop_no_false_oom [OF demo5_props(2) ok480(1) this, of 0] show ?thesis
    by (simp add: demo5_props(3) ok480(2))
qed

theorem loop_enumerates_live_witness:
  "loop_GetMallocsAppend demo2 = Inr [8, 24]"
proof -
  have "filter (\<lambda>p. p \<in> fst ` {(2::nat, 1::nat), (0, 1)}) [0..<64] = [0, 2]"
    by (simp add: upt_conv_Cons)
  with loop_enumerates_live [OF reach_ok [OF demo2_reach]] demo2_fields(1) show ?thesis by simp
qed

theorem loop_recovery_witness:
  "\<exists>s'. recover_all [24, 8] (loop_Initialize demo2) = Inr s' \<and>
        loop_ok s' {(2, 1), (0, 1)} \<and> Block s' = Block demo2 \<and>
        total_used s' = total_used demo2 \<and> total_malloc s' = total_malloc demo2"
  using loop_recovery [OF reach_ok [OF demo2_reach], of "[(2, 1), (0, 1)]"] by simp

end
