(* ===== verification/ExtendibleHash.thy ===== *)
theory ExtendibleHash
  imports Prelude
begin

unbundle bit_operations_syntax

text \<open>
  The DRAM index: \<open>storage/dram/extendible_hash\<close> as it is built (\<open>LSB\<close>, not \<open>INPLACE\<close>). A
  directory of block addresses, indexed by the low bits of the key's hash; blocks of 16
  slots with a local depth and a pattern; a full block is split into two, doubling the
  directory when its local depth has reached the global depth.

  The model is one thread of the program: a \<open>CAS\<close> succeeds at once, the directory lock is
  free, and \<open>sema\<close> is kept because a split leaves the old block marked with -1. The hash
  function is \<open>std::_Hash_bytes\<close>, a field of the state that no operation changes; \<open>eh_junk\<close>
  is what \<open>posix_memalign\<close> leaves in the values of a new block, which \<open>Pair()\<close> does not set.
\<close>

section \<open>State\<close>

definition SENTINEL :: u64 where "SENTINEL = - 2"
definition INVALID :: u64 where "INVALID = - 1"
definition NONE :: u64 where "NONE = 0"
definition kNumSlot :: nat where "kNumSlot = 16"

record eblock =
  eb_slots :: "(u64 \<times> u64) list"
  local_depth :: nat
  eb_sema :: int
  eb_pattern :: u64

record ehash =
  eh_heap :: "nat \<Rightarrow> eblock"
  eh_next :: nat
  eh_dir :: "nat list"
  global_depth :: nat
  eh_h :: "u64 \<Rightarrow> u64"
  eh_junk :: u64

section \<open>Powers\<close>

function mypow_loop :: "u64 \<Rightarrow> u64 \<Rightarrow> nat \<Rightarrow> u64" where
  "mypow_loop b res e =
     (if e = 0 then res
      else mypow_loop (if e div 2 \<noteq> 0 then b * b else b) (if odd e then res * b else res) (e div 2))"
  by pat_completeness auto
termination by (relation "measure (\<lambda>(b, res, e). e)") auto

declare mypow_loop.simps [simp del]

definition ctzll :: "u64 \<Rightarrow> nat" where
  "ctzll x = (case first_index (\<lambda>i. bit x i) [0..<64] of Some i \<Rightarrow> i | None \<Rightarrow> 64)"

text \<open>\<open>k * 1u * y\<close> is an unsigned 32-bit product.\<close>

definition mypow :: "u64 \<Rightarrow> nat \<Rightarrow> u64" where
  "mypow x y =
     (if x = 2 then (if y \<ge> 64 then - 1 else push_bit y 1)
      else if x \<noteq> 0 \<and> x AND (x - 1) = 0 then
        (let shift = ctzll x * y mod 2 ^ 32 in if shift \<ge> 64 then - 1 else push_bit shift 1)
      else mypow_loop x 1 y)"

text \<open>\<open>1 << k\<close> on \<open>int\<close>, widened to \<open>size_t\<close> by the addition.\<close>

definition int_shl1 :: "nat \<Rightarrow> u64" where
  "int_shl1 k = scast (push_bit k 1 :: 32 word)"

section \<open>Blocks\<close>

definition new_block :: "u64 \<Rightarrow> nat \<Rightarrow> eblock" where
  "new_block junk depth =
     \<lparr>eb_slots = replicate kNumSlot (INVALID, junk), local_depth = depth, eb_sema = 0, eb_pattern = 0\<rparr>"

definition numElem :: "eblock \<Rightarrow> nat" where
  "numElem b = length (filter (\<lambda>p. fst p \<noteq> INVALID) (eb_slots b))"

definition slot_of :: "u64 \<Rightarrow> eblock \<Rightarrow> nat option" where
  "slot_of key b = first_index (\<lambda>p. fst p = key) (eb_slots b)"

definition sema_enter :: "eblock \<Rightarrow> eblock" where
  "sema_enter b = b\<lparr>eb_sema := eb_sema b + 1\<rparr>"

definition sema_leave :: "eblock \<Rightarrow> eblock" where
  "sema_leave b = b\<lparr>eb_sema := eb_sema b - 1\<rparr>"

definition set_slot :: "nat \<Rightarrow> u64 \<times> u64 \<Rightarrow> eblock \<Rightarrow> eblock" where
  "set_slot i p b = b\<lparr>eb_slots := (eb_slots b)[i := p]\<rparr>"

text \<open>\<open>Block::Insert\<close>: the slot used, -1 when the block is full, -2 when it is the wrong block.\<close>

definition block_Insert :: "u64 \<Rightarrow> u64 \<Rightarrow> u64 \<Rightarrow> eblock \<Rightarrow> eblock \<times> int" where
  "block_Insert key value key_hash b =
     (if eb_sema b = - 1 then (b, - 2)
      else if key_hash AND (mypow 2 (local_depth b) - 1) \<noteq> eb_pattern b then (b, - 2)
      else if eb_sema b < 0 then (b, - 2)
      else
        let b1 = sema_enter b in
        case slot_of key b1 of
          Some i \<Rightarrow> (sema_leave (set_slot i (key, value) b1), int i)
        | None \<Rightarrow>
            (case slot_of INVALID b1 of
               Some i \<Rightarrow> (sema_leave (set_slot i (key, value) b1), int i)
             | None \<Rightarrow> (sema_leave b1, - 1)))"

definition Insert4split :: "u64 \<times> u64 \<Rightarrow> eblock \<Rightarrow> eblock" where
  "Insert4split p b =
     (case slot_of INVALID b of Some i \<Rightarrow> set_slot i p b | None \<Rightarrow> b)"

definition split_bit :: "(u64 \<Rightarrow> u64) \<Rightarrow> nat \<Rightarrow> u64 \<times> u64 \<Rightarrow> bool" where
  "split_bit h depth p = (h (fst p) AND push_bit depth 1 \<noteq> 0)"

definition split_step ::
  "(u64 \<Rightarrow> u64) \<Rightarrow> nat \<Rightarrow> u64 \<times> u64 \<Rightarrow> eblock \<times> eblock \<Rightarrow> eblock \<times> eblock" where
  "split_step h depth p s =
     (if split_bit h depth p then (fst s, Insert4split p (snd s))
      else (Insert4split p (fst s), snd s))"

text \<open>\<open>Block::Split\<close>: the old block marked as split, and its two halves.\<close>

definition block_Split ::
  "(u64 \<Rightarrow> u64) \<Rightarrow> u64 \<Rightarrow> eblock \<Rightarrow> (eblock \<times> eblock \<times> eblock) option" where
  "block_Split h junk b =
     (if eb_sema b \<noteq> 0 then None
      else Some (b\<lparr>eb_sema := - 1\<rparr>,
                 fold (split_step h (local_depth b)) (eb_slots b)
                   (new_block junk (local_depth b + 1), new_block junk (local_depth b + 1))))"

definition block_Delete :: "u64 \<Rightarrow> eblock \<Rightarrow> eblock \<times> bool" where
  "block_Delete key b =
     (if eb_sema b = - 1 then (b, False)
      else if eb_sema b < 0 then (b, False)
      else
        let b1 = sema_enter b in
        case slot_of key b1 of
          Some i \<Rightarrow> (sema_leave (set_slot i (INVALID, snd (eb_slots b1 ! i)) b1), True)
        | None \<Rightarrow> (sema_leave b1, False))"

section \<open>Directory\<close>

text \<open>
  \<open>LSBUpdate\<close> recurses on the difference of the depths; its only call has
  \<open>local_depth \<le> global_depth\<close>, so the difference is never negative.
\<close>

function LSBUpdate ::
  "nat \<Rightarrow> nat \<Rightarrow> nat \<Rightarrow> nat \<Rightarrow> nat \<times> nat \<Rightarrow> nat list \<Rightarrow> nat list" where
  "LSBUpdate ld gd dir_cap x s d =
     (if gd - ld = 0 then
        if x mod dir_cap \<ge> dir_cap div 2
        then d[x - dir_cap div 2 := fst s, x := snd s]
        else d[x := fst s, x + dir_cap div 2 := snd s]
      else
        if x mod dir_cap \<ge> dir_cap div 2
        then LSBUpdate (ld + 1) gd (dir_cap div 2) x s
               (LSBUpdate (ld + 1) gd (dir_cap div 2) (x - dir_cap div 2) s d)
        else LSBUpdate (ld + 1) gd (dir_cap div 2) (x + dir_cap div 2) s
               (LSBUpdate (ld + 1) gd (dir_cap div 2) x s d))"
  by pat_completeness auto
termination by (relation "measure (\<lambda>(ld, gd, dir_cap, x, s, d). gd - ld)") auto

declare LSBUpdate.simps [simp del]

definition eh_capacity :: "ehash \<Rightarrow> nat" where
  "eh_capacity t = length (eh_dir t)"

definition eh_index :: "ehash \<Rightarrow> u64 \<Rightarrow> nat" where
  "eh_index t key_hash = unat key_hash mod eh_capacity t"

definition eh_target :: "ehash \<Rightarrow> u64 \<Rightarrow> nat" where
  "eh_target t key_hash = eh_dir t ! eh_index t key_hash"

definition eh_store :: "nat \<Rightarrow> eblock \<Rightarrow> ehash \<Rightarrow> ehash" where
  "eh_store a b t = t\<lparr>eh_heap := (eh_heap t)(a := b)\<rparr>"

text \<open>The two halves get their patterns and addresses, and take the place of the old block.\<close>

definition set_patterns :: "u64 \<Rightarrow> eblock \<times> eblock \<Rightarrow> eblock \<times> eblock" where
  "set_patterns key_hash s =
     (let p = key_hash mod mypow 2 (local_depth (fst s) - 1) in
      ((fst s)\<lparr>eb_pattern := p\<rparr>,
       (snd s)\<lparr>eb_pattern := p + int_shl1 (local_depth (fst s) - 1)\<rparr>))"

definition eh_install :: "u64 \<Rightarrow> eblock \<times> eblock \<Rightarrow> ehash \<Rightarrow> ehash" where
  "eh_install key_hash s t =
     (let x = eh_index t key_hash; cap = eh_capacity t;
          a0 = eh_next t; a1 = eh_next t + 1;
          t1 = t\<lparr>eh_heap := (eh_heap t)(a0 := fst s, a1 := snd s), eh_next := eh_next t + 2\<rparr> in
      if local_depth (eh_heap t (eh_dir t ! x)) < global_depth t
      then t1\<lparr>eh_dir := LSBUpdate (local_depth (fst s)) (global_depth t) cap x (a0, a1) (eh_dir t)\<rparr>
      else t1\<lparr>eh_dir := (eh_dir t @ eh_dir t)[x := a0, x + cap := a1],
              global_depth := global_depth t + 1\<rparr>)"

section \<open>Operations\<close>

fun log2_floor :: "nat \<Rightarrow> nat" where
  "log2_floor n = (if n < 2 then 0 else Suc (log2_floor (n div 2)))"

declare log2_floor.simps [simp del]

text \<open>
  The constructor; \<open>None\<close> for a configuration without \<open>initial_capacity\<close>. Block \<open>i\<close> of the
  directory is at address \<open>i\<close>.
\<close>

definition ExtendibleHash_new :: "nat option \<Rightarrow> (u64 \<Rightarrow> u64) \<Rightarrow> u64 \<Rightarrow> ehash" where
  "ExtendibleHash_new initial_capacity h junk =
     (let cap = (case initial_capacity of None \<Rightarrow> 1 | Some c \<Rightarrow> if c = 0 then 1 else c);
          gd = log2_floor cap in
      \<lparr>eh_heap = (\<lambda>a. (new_block junk gd)\<lparr>eb_pattern := of_nat a\<rparr>), eh_next = cap,
       eh_dir = [0..<cap], global_depth = gd, eh_h = h, eh_junk = junk\<rparr>)"

text \<open>\<open>Insert\<close>: \<open>goto RETRY\<close> and the recursive call both start over; \<open>None\<close> is out of fuel.\<close>

fun eh_Insert :: "nat \<Rightarrow> u64 \<Rightarrow> u64 \<Rightarrow> ehash \<Rightarrow> ehash option" where
  "eh_Insert 0 key value t = None"
| "eh_Insert (Suc fuel) key value t =
     (let key_hash = eh_h t key; target = eh_target t key_hash;
          (b, ret) = block_Insert key value key_hash (eh_heap t target);
          t1 = eh_store target b t in
      if ret = - 1 then
        (case block_Split (eh_h t) (eh_junk t) b of
           None \<Rightarrow> eh_Insert fuel key value t1
         | Some (old, s) \<Rightarrow>
             eh_Insert fuel key value
               (eh_install key_hash (set_patterns key_hash s) (eh_store target old t1)))
      else if ret = - 2 then eh_Insert fuel key value t1
      else Some t1)"

definition eh_InsertOnly :: "u64 \<Rightarrow> u64 \<Rightarrow> ehash \<Rightarrow> ehash \<times> bool" where
  "eh_InsertOnly key value t =
     (let key_hash = eh_h t key; target = eh_target t key_hash;
          (b, ret) = block_Insert key value key_hash (eh_heap t target) in
      (eh_store target b t, ret > - 1))"

definition eh_Delete :: "u64 \<Rightarrow> ehash \<Rightarrow> ehash \<times> bool" where
  "eh_Delete key t =
     (let key_hash = eh_h t key; target = eh_target t key_hash;
          (b, success) = block_Delete key (eh_heap t target);
          t1 = eh_store target b t in
      if \<not> success \<and> eb_sema b = - 1 then
        let target' = eh_target t1 key_hash; (b', success') = block_Delete key (eh_heap t1 target') in
        (eh_store target' b' t1, success')
      else (t1, success))"

definition eh_Extract :: "u64 \<Rightarrow> ehash \<Rightarrow> u64" where
  "eh_Extract key t =
     (let b = eh_heap t (eh_target t (eh_h t key)) in
      case slot_of key b of Some i \<Rightarrow> snd (eb_slots b ! i) | None \<Rightarrow> NONE)"

definition eh_FindAnyway :: "u64 \<Rightarrow> ehash \<Rightarrow> u64" where
  "eh_FindAnyway key t =
     (case first_index (\<lambda>a. slot_of key (eh_heap t a) \<noteq> None) (eh_dir t) of
        None \<Rightarrow> NONE
      | Some i \<Rightarrow>
          (let b = eh_heap t (eh_dir t ! i) in
           case slot_of key b of Some j \<Rightarrow> snd (eb_slots b ! j) | None \<Rightarrow> NONE))"

definition eh_Capacity :: "ehash \<Rightarrow> nat" where
  "eh_Capacity t = length (remdups (eh_dir t)) * kNumSlot"

text \<open>\<open>Utilization\<close>, as the numerator and denominator of the quotient it returns in per cent.\<close>

definition eh_Utilization :: "ehash \<Rightarrow> nat \<times> nat" where
  "eh_Utilization t =
     (sum_list (map (\<lambda>a. numElem (eh_heap t a)) (remdups (eh_dir t))),
      length (remdups (eh_dir t)) * kNumSlot)"

definition eh_Get :: "u64 \<Rightarrow> ehash \<Rightarrow> u64" where
  "eh_Get key t = eh_Extract key t"

definition eh_Put :: "nat \<Rightarrow> u64 \<Rightarrow> u64 \<Rightarrow> ehash \<Rightarrow> ehash option" where
  "eh_Put fuel key pointer t = eh_Insert fuel key pointer t"

definition eh_BatchGet :: "u64 list \<Rightarrow> ehash \<Rightarrow> u64 list result" where
  "eh_BatchGet keys t =
     (if keys = [] then Inl Log_fatal else Inr (map (\<lambda>k. eh_Get k t) keys))"

fun put_all :: "nat \<Rightarrow> (u64 \<times> u64) list \<Rightarrow> ehash \<Rightarrow> ehash option" where
  "put_all fuel [] t = Some t"
| "put_all fuel ((k, v) # kvs) t =
     (case eh_Put fuel k v t of None \<Rightarrow> None | Some t' \<Rightarrow> put_all fuel kvs t')"

definition eh_BatchPut :: "nat \<Rightarrow> u64 list \<Rightarrow> u64 list \<Rightarrow> ehash \<Rightarrow> ehash option result" where
  "eh_BatchPut fuel keys pointers t =
     (if keys = [] then Inl Log_fatal else Inr (put_all fuel (zip keys pointers) t))"

section \<open>The directory update\<close>

text \<open>
  Over a directory of \<open>2 ^ m\<close>-aligned groups, \<open>LSBUpdate\<close> rewrites exactly the entries of the
  group of \<open>x\<close> that agree with \<open>x\<close> on the low \<open>l\<close> bits, by bit \<open>l\<close> of their index.
\<close>

lemma LSBUpdate_length [simp]: "length (LSBUpdate ld gd cap x s d) = length d"
  by (induction ld gd cap x s d rule: LSBUpdate.induct)
     (subst LSBUpdate.simps, simp)

lemma half_above:
  assumes "0 < M" "(M :: nat) \<le> x mod (M * 2)"
  shows "M \<le> x" "(x - M) div M = 2 * (x div (M * 2))" "x div M = 2 * (x div (M * 2)) + 1"
proof -
  have "x mod (M * 2) = M * (x div M mod 2) + x mod M" by (rule mod_mult2_eq)
  moreover have "x mod M < M" using assms(1) by simp
  ultimately have odd: "x div M mod 2 = 1" using assms by (cases "x div M mod 2 = 0") auto
  then show q: "x div M = 2 * (x div (M * 2)) + 1"
    by (metis div_mult2_eq mult.commute mult_div_mod_eq)
  show "M \<le> x" using assms by (meson le_trans mod_less_eq_dividend)
  then show "(x - M) div M = 2 * (x div (M * 2))" using q assms(1) by (simp add: le_div_geq)
qed

lemma half_below:
  assumes "0 < M" "\<not> (M :: nat) \<le> x mod (M * 2)"
  shows "x div M = 2 * (x div (M * 2))" "(x + M) div M = 2 * (x div (M * 2)) + 1"
proof -
  have "x mod (M * 2) = M * (x div M mod 2) + x mod M" by (rule mod_mult2_eq)
  with assms have "x div M mod 2 = 0" by (cases "x div M mod 2 = 0") auto
  then show q: "x div M = 2 * (x div (M * 2))"
    by (metis add_0_right div_mult2_eq mult_div_mod_eq)
  then show "(x + M) div M = 2 * (x div (M * 2)) + 1" using assms(1)
    by (simp add: div_add_self2)
qed

lemma nat_eq_div_mod: "(i = j) = (i div n = j div n \<and> i mod n = (j :: nat) mod n)"
  by (metis div_mult_mod_eq)

lemma mod_power_add: "k \<le> m \<Longrightarrow> (x + 2 ^ m) mod 2 ^ k = x mod (2 :: nat) ^ k"
  by (metis add.right_neutral dvd_imp_mod_0 le_imp_power_dvd mod_add_right_eq)

lemma mod_power_diff: "k \<le> m \<Longrightarrow> 2 ^ m \<le> (x :: nat) \<Longrightarrow> (x - 2 ^ m) mod 2 ^ k = x mod 2 ^ k"
  using mod_power_add [of k m "x - 2 ^ m"] by simp

lemma half_cases: "((u :: nat) div 2 = q) = (u = 2 * q \<or> u = 2 * q + 1)"
  by presburger

lemma two_updates:
  assumes "i < length d" and "(i = a) = ((u :: nat) = 2 * q \<and> same)" and "(i = b) = (u = 2 * q + 1 \<and> same)"
  shows "d[a := v, b := w] ! i =
    (if same \<and> u div 2 = q then (if odd u then w else v) else d ! i)"
  using assms by (auto simp: nth_list_update half_cases)

definition lsb_group :: "nat \<Rightarrow> nat \<Rightarrow> nat \<Rightarrow> nat \<Rightarrow> bool" where
  "lsb_group k m x i = (i mod 2 ^ k = x mod 2 ^ k \<and> i div 2 ^ m = x div 2 ^ m)"

lemma LSBUpdate_nth:
  assumes "gd - ld = e" and "i < length d" and "(x div 2 ^ (e + k + 1) + 1) * 2 ^ (e + k + 1) \<le> length d"
  shows "LSBUpdate ld gd (2 ^ (e + k + 1)) x s d ! i =
     (if lsb_group k (e + k + 1) x i then (if odd (i div 2 ^ k) then snd s else fst s) else d ! i)"
  using assms
proof (induction e arbitrary: ld x d)
  case 0
  let ?M = "2 ^ k :: nat"
  have pos: "0 < ?M" by simp
  have cap: "2 ^ (0 + k + 1) = ?M * 2" by simp
  have len: "(x div (?M * 2) + 1) * (?M * 2) \<le> length d" using 0(3) by (simp add: mult.commute)
  have grp: "lsb_group k (0 + k + 1) x i = (i mod ?M = x mod ?M \<and> i div ?M div 2 = x div (?M * 2))"
    unfolding lsb_group_def cap by (simp only: div_mult2_eq)
  show ?case
  proof (cases "?M \<le> x mod (?M * 2)")
    case True
    note h = half_above [OF pos True]
    have m: "(x - ?M) mod ?M = x mod ?M" using h(1) by (simp add: mod_power_diff)
    have upd: "LSBUpdate ld gd (2 ^ (0 + k + 1)) x s d = d[x - ?M := fst s, x := snd s]"
      using 0(1) True unfolding cap by (subst LSBUpdate.simps) simp
    show ?thesis unfolding upd grp
      by (rule two_updates [OF 0(2)])
         (simp_all only: nat_eq_div_mod [of i x ?M] nat_eq_div_mod [of i "x - ?M" ?M] h m)
  next
    case False
    note h = half_below [OF pos False]
    have m: "(x + ?M) mod ?M = x mod ?M" by simp
    have upd: "LSBUpdate ld gd (2 ^ (0 + k + 1)) x s d = d[x := fst s, x + ?M := snd s]"
      using 0(1) False unfolding cap by (subst LSBUpdate.simps) simp
    show ?thesis unfolding upd grp
      by (rule two_updates [OF 0(2)])
         (simp_all only: nat_eq_div_mod [of i x ?M] nat_eq_div_mod [of i "x + ?M" ?M] h m)
  qed
next
  case (Suc e)
  let ?M = "2 ^ (e + k + 1) :: nat"
  have pos: "0 < ?M" by simp
  have cap: "2 ^ (Suc e + k + 1) = ?M * 2" by simp
  have len: "(x div (?M * 2) + 1) * (?M * 2) \<le> length d" using Suc.prems(3) by (simp only: cap)
  have idiv: "i div (?M * 2) = i div ?M div 2" by (rule div_mult2_eq)
  have bound: "(y div ?M + 1) * ?M \<le> length d" if "y div ?M \<le> 2 * (x div (?M * 2)) + 1" for y
  proof -
    have "(y div ?M + 1) * ?M \<le> (2 * (x div (?M * 2)) + 2) * ?M"
      using that by (intro mult_right_mono) auto
    also have "\<dots> = (x div (?M * 2) + 1) * (?M * 2)" by (simp add: algebra_simps)
    finally show ?thesis using len by linarith
  qed
  have diff: "gd - (ld + 1) = e" using Suc.prems(1) by simp
  have rec: "LSBUpdate (ld + 1) gd ?M y s d' ! i =
      (if lsb_group k (e + k + 1) y i then (if odd (i div 2 ^ k) then snd s else fst s) else d' ! i)"
    if "y div ?M \<le> 2 * (x div (?M * 2)) + 1" "length d' = length d" for y d'
    using Suc.IH [OF diff, of d' y] Suc.prems(2) bound [OF that(1)] that(2) by simp
  show ?case
  proof (cases "?M \<le> x mod (?M * 2)")
    case True
    note h = half_above [OF pos True]
    have m: "(x - ?M) mod 2 ^ k = x mod 2 ^ k" using h(1) by (intro mod_power_diff) auto
    have "LSBUpdate ld gd (2 ^ (Suc e + k + 1)) x s d =
        LSBUpdate (ld + 1) gd ?M x s (LSBUpdate (ld + 1) gd ?M (x - ?M) s d)"
      using Suc.prems(1) True unfolding cap by (subst LSBUpdate.simps) simp
    with rec [of x] rec [of "x - ?M" d] h show ?thesis
      unfolding lsb_group_def cap idiv half_cases m by auto
  next
    case False
    note h = half_below [OF pos False]
    have m: "(x + ?M) mod 2 ^ k = x mod 2 ^ k" by (intro mod_power_add) auto
    have "LSBUpdate ld gd (2 ^ (Suc e + k + 1)) x s d =
        LSBUpdate (ld + 1) gd ?M (x + ?M) s (LSBUpdate (ld + 1) gd ?M x s d)"
      using Suc.prems(1) False unfolding cap by (subst LSBUpdate.simps) simp
    with rec [of "x + ?M"] rec [of x d] h show ?thesis
      unfolding lsb_group_def cap idiv half_cases m by auto
  qed
qed

section \<open>Words of the block checks\<close>

lemma mypow_2: "k < 64 \<Longrightarrow> mypow 2 k = 2 ^ k"
  by (simp add: mypow_def push_bit_eq_mult)

lemma pattern_check: "k < 64 \<Longrightarrow> unat (key_hash AND (mypow 2 k - 1)) = unat key_hash mod 2 ^ k"
  using word_and_mask_mod [of key_hash k] by (simp add: mypow_2 mask_eq_exp_minus_1)

lemma mod_mypow: "k < 64 \<Longrightarrow> unat (key_hash mod mypow 2 k) = unat key_hash mod 2 ^ k"
  by (simp add: mypow_2 unat_mod unat_power_2)

lemma int_shl1_eq: assumes "k \<le> 30" shows "int_shl1 k = 2 ^ k"
proof (rule bit_word_eqI)
  fix n assume n: "n < LENGTH(64)"
  have "bit (scast (push_bit k 1 :: 32 word) :: u64) n = (n = k)"
    using assms n by (auto simp: bit_signed_iff bit_simps min_def)
  then show "bit (int_shl1 k) n = bit (2 ^ k :: u64) n"
    using assms n by (auto simp: int_shl1_def bit_exp_iff)
qed

lemma split_bit_odd: "k < 64 \<Longrightarrow> split_bit h k p = odd (unat (h (fst p)) div 2 ^ k)"
proof -
  assume k: "k < 64"
  have "bit (w AND push_bit k 1) j \<longleftrightarrow> j = k \<and> bit w k" for w :: u64 and j
    using k by (auto simp: bit_simps)
  then have "(w AND push_bit k 1 \<noteq> 0) = bit w k" for w :: u64
    by (metis bit_0_eq bot_apply bit_eqI bot_bool_def)
  then have "split_bit h k p = bit (h (fst p)) k" by (simp only: split_bit_def)
  also have "\<dots> = bit (unat (h (fst p))) k" by (simp add: bit_unsigned_iff k)
  finally show ?thesis by (simp only: bit_iff_odd)
qed

section \<open>Slots\<close>

text \<open>The valid keys of a slot array, in order; a well-formed one has no key twice.\<close>

definition valid_keys :: "(u64 \<times> u64) list \<Rightarrow> u64 list" where
  "valid_keys xs = filter (\<lambda>k. k \<noteq> INVALID) (map fst xs)"

lemma valid_keys_simps [simp]:
  "valid_keys [] = []"
  "valid_keys (p # xs) = (if fst p = INVALID then valid_keys xs else fst p # valid_keys xs)"
  "valid_keys (xs @ ys) = valid_keys xs @ valid_keys ys"
  by (simp_all add: valid_keys_def)

lemma set_valid_keys: "set (valid_keys xs) = {k \<in> fst ` set xs. k \<noteq> INVALID}"
  by (auto simp: valid_keys_def)

lemma slot_of_SomeE:
  assumes "slot_of key b = Some i"
  obtains as v bs where "eb_slots b = as @ (key, v) # bs" "length as = i" "key \<notin> fst ` set as"
proof -
  from first_index_SomeD [OF assms [unfolded slot_of_def]]
  have i: "i < length (eb_slots b)" "fst (eb_slots b ! i) = key" "\<forall>j < i. fst (eb_slots b ! j) \<noteq> key"
    by auto
  obtain v where v: "eb_slots b ! i = (key, v)" using i(2) by (metis prod.collapse)
  show ?thesis
  proof (rule that [of "take i (eb_slots b)" v "drop (Suc i) (eb_slots b)"])
    show "eb_slots b = take i (eb_slots b) @ (key, v) # drop (Suc i) (eb_slots b)"
      using id_take_nth_drop [OF i(1)] v by simp
    show "length (take i (eb_slots b)) = i" using i(1) by simp
    show "key \<notin> fst ` set (take i (eb_slots b))" using i by (auto simp: in_set_conv_nth) (metis fst_conv)
  qed
qed

lemma slot_of_None: "slot_of key b = None \<longleftrightarrow> key \<notin> fst ` set (eb_slots b)"
  by (auto simp: slot_of_def first_index_None_iff)

lemma map_of_none: "k \<notin> fst ` set xs \<Longrightarrow> map_of xs k = None"
  by (simp add: map_of_eq_None_iff)

lemma slot_of_value:
  "(case slot_of key b of Some i \<Rightarrow> snd (eb_slots b ! i) | None \<Rightarrow> d) =
   (case map_of (eb_slots b) key of Some v \<Rightarrow> v | None \<Rightarrow> d)"
proof (cases "slot_of key b")
  case None
  then have "map_of (eb_slots b) key = None" by (rule map_of_none [OF iffD1 [OF slot_of_None]])
  with None show ?thesis by simp
next
  case (Some i)
  then obtain as v bs where "eb_slots b = as @ (key, v) # bs" "length as = i" "key \<notin> fst ` set as"
    by (rule slot_of_SomeE)
  with Some show ?thesis by (auto simp: map_add_Some_iff map_of_none split: option.split)
qed

text \<open>Filtering an association list by its keys.\<close>

lemma map_of_filter_key:
  "map_of (filter (\<lambda>p. P (fst p)) xs) k = (if P k then map_of xs k else None)"
  by (induction xs) auto

lemma map_of_padding: "k \<noteq> INVALID \<Longrightarrow> map_of (xs @ replicate n (INVALID, j)) k = map_of xs k"
  using map_of_none [of k "replicate n (INVALID, j)"] by (auto simp: map_add_def split: option.splits)

lemma map_of_skip: "k \<noteq> a \<Longrightarrow> map_of (as @ (a, v) # bs) k = map_of (as @ bs) k"
  by (auto simp: map_add_def split: option.split)

lemma map_of_hit: "k \<notin> fst ` set as \<Longrightarrow> map_of (as @ (k, v) # bs) k = Some v"
  by (simp add: map_of_none map_add_def)

section \<open>What a block stands for\<close>

definition block_ok :: "(u64 \<Rightarrow> u64) \<Rightarrow> eblock \<Rightarrow> bool" where
  "block_ok h b \<longleftrightarrow>
     length (eb_slots b) = kNumSlot \<and> eb_sema b = 0 \<and> local_depth b \<le> 30 \<and>
     distinct (valid_keys (eb_slots b)) \<and>
     (\<forall>k \<in> set (valid_keys (eb_slots b)).
        unat (h k) mod 2 ^ local_depth b = unat (eb_pattern b))"

definition same_place :: "eblock \<Rightarrow> eblock \<Rightarrow> bool" where
  "same_place b b' \<longleftrightarrow> local_depth b' = local_depth b \<and> eb_pattern b' = eb_pattern b"

lemma block_ok_setI:
  assumes "block_ok h b" and "slot_of old b = Some i" and "old = INVALID \<or> old = key"
    and "key = INVALID \<or> unat (h key) mod 2 ^ local_depth b = unat (eb_pattern b)"
    and "key = old \<or> key = INVALID \<or> slot_of key b = None"
  shows "block_ok h (set_slot i (key, v) b)"
    and "\<And>k. k \<noteq> INVALID \<Longrightarrow> map_of (eb_slots (set_slot i (key, v) b)) k =
              (if k = key then Some v else map_of (eb_slots b) k)"
proof -
  obtain as w bs where s: "eb_slots b = as @ (old, w) # bs" "length as = i" "old \<notin> fst ` set as"
    using slot_of_SomeE [OF assms(2)] by blast
  have new: "eb_slots (set_slot i (key, v) b) = as @ (key, v) # bs"
    using s by (simp add: set_slot_def list_update_append)
  show "block_ok h (set_slot i (key, v) b)"
  proof -
    have fresh: "key = INVALID \<or> key = old \<or> key \<notin> fst ` set (as @ bs)"
      using assms(5) s(1) by (auto simp: slot_of_None)
    have d: "distinct (valid_keys (as @ (old, w) # bs))"
      and m: "\<forall>k \<in> set (valid_keys (as @ (old, w) # bs)).
        unat (h k) mod 2 ^ local_depth b = unat (eb_pattern b)"
      and l: "length (as @ (old, w) # bs) = kNumSlot"
      using assms(1) unfolding block_ok_def s(1) by blast+
    have "distinct (valid_keys (as @ (key, v) # bs))"
    proof (cases "key = old")
      case False
      then show ?thesis using d fresh assms(3) by (auto simp: set_valid_keys)
    qed (use d in \<open>auto split: if_splits\<close>)
    moreover have "\<forall>k \<in> set (valid_keys (as @ (key, v) # bs)).
        unat (h k) mod 2 ^ local_depth b = unat (eb_pattern b)"
      using m assms(4) unfolding set_valid_keys by auto
    ultimately show ?thesis using assms(1) l new by (simp add: block_ok_def set_slot_def)
  qed
  fix k
  assume k: "k \<noteq> INVALID"
  show "map_of (eb_slots (set_slot i (key, v) b)) k =
      (if k = key then Some v else map_of (eb_slots b) k)"
  proof (cases "k = key")
    case True
    with k assms(3,5) s have "key \<notin> fst ` set as" by (auto simp: slot_of_None)
    with True show ?thesis by (simp add: new map_of_hit del: map_of_append)
  next
    case False
    with k assms(3) have "k \<noteq> old" by auto
    with False show ?thesis by (simp add: new s(1) map_of_skip del: map_of_append)
  qed
qed

lemma sema_simps [simp]:
  "sema_leave (sema_enter b) = b"
  "sema_leave (set_slot i p (sema_enter b)) = set_slot i p b"
  "slot_of key (sema_enter b) = slot_of key b"
  "eb_slots (sema_enter b) = eb_slots b"
  by (simp_all add: sema_leave_def sema_enter_def set_slot_def slot_of_def)

lemma same_place_simps [simp]: "same_place b b" "same_place b (set_slot i p b)"
  by (simp_all add: same_place_def set_slot_def)

text \<open>
  \<open>Block::Insert\<close> on the key's own block: it stores the pair, or answers -1 with the block as it
  was and 16 other keys in it.
\<close>

lemma block_Insert_ok:
  assumes ok: "block_ok h b" and key: "key \<noteq> INVALID"
    and pat: "unat (h key) mod 2 ^ local_depth b = unat (eb_pattern b)"
  shows "(\<exists>b' i. block_Insert key v (h key) b = (b', int i) \<and> block_ok h b' \<and> same_place b b' \<and>
            (\<forall>k. k \<noteq> INVALID \<longrightarrow> map_of (eb_slots b') k = (if k = key then Some v else map_of (eb_slots b) k))) \<or>
         (block_Insert key v (h key) b = (b, - 1) \<and> key \<notin> fst ` set (eb_slots b) \<and>
            INVALID \<notin> fst ` set (eb_slots b))"
proof -
  have ld: "local_depth b < 64" and sema: "eb_sema b = 0" using ok by (auto simp: block_ok_def)
  have p: "h key AND (mypow 2 (local_depth b) - 1) = eb_pattern b"
    using pattern_check [OF ld, of "h key"] pat by (simp add: word_eq_unat_iff)
  show ?thesis
  proof (cases "slot_of key b")
    case (Some i)
    have "block_Insert key v (h key) b = (set_slot i (key, v) b, int i)"
      using sema p Some by (simp add: block_Insert_def Let_def)
    with block_ok_setI [OF ok Some, where key = key and v = v] pat show ?thesis by auto
  next
    case none: None
    show ?thesis
    proof (cases "slot_of INVALID b")
      case (Some i)
      have "block_Insert key v (h key) b = (set_slot i (key, v) b, int i)"
        using sema p none Some by (simp add: block_Insert_def Let_def)
      with block_ok_setI [OF ok Some, where key = key and v = v] pat none show ?thesis by auto
    next
      case None
      have "block_Insert key v (h key) b = (b, - 1)"
        using sema p none None by (simp add: block_Insert_def Let_def)
      with iffD1 [OF slot_of_None none] iffD1 [OF slot_of_None None] show ?thesis by simp
    qed
  qed
qed

text \<open>\<open>Block::Split\<close> of a full block: the pairs go to the halves by bit \<open>local_depth\<close> of the hash.\<close>

definition padded :: "(u64 \<times> u64) list \<Rightarrow> u64 \<Rightarrow> eblock \<Rightarrow> eblock" where
  "padded xs junk b = b\<lparr>eb_slots := xs @ replicate (kNumSlot - length xs) (INVALID, junk)\<rparr>"

lemma first_index_append:
  "\<forall>x \<in> set as. \<not> P x \<Longrightarrow> P b \<Longrightarrow> first_index P (as @ b # bs) = Some (length as)"
  by (induction as) auto

lemma Insert4split_padded:
  assumes "length xs < kNumSlot" and "INVALID \<notin> fst ` set xs"
  shows "Insert4split p (padded xs junk b) = padded (xs @ [p]) junk b"
proof -
  obtain n where n: "kNumSlot - length xs = Suc n" "kNumSlot - length (xs @ [p]) = n"
    using assms(1) by (cases "kNumSlot - length xs") auto
  have "slot_of INVALID (padded xs junk b) = Some (length xs)"
    using assms(2) n(1) unfolding slot_of_def padded_def by (simp, intro first_index_append) force+
  then show ?thesis using n by (simp add: Insert4split_def set_slot_def padded_def)
qed

lemma fold_split_step:
  assumes "INVALID \<notin> fst ` set (xs0 @ xs1 @ zs)"
    and "length xs0 + length zs \<le> kNumSlot" and "length xs1 + length zs \<le> kNumSlot"
  shows "fold (split_step h d) zs (padded xs0 junk b, padded xs1 junk b) =
    (padded (xs0 @ filter (\<lambda>p. \<not> split_bit h d p) zs) junk b,
     padded (xs1 @ filter (split_bit h d) zs) junk b)"
  using assms
proof (induction zs arbitrary: xs0 xs1)
  case (Cons p zs)
  show ?case
  proof (cases "split_bit h d p")
    case True
    have "Insert4split p (padded xs1 junk b) = padded (xs1 @ [p]) junk b"
      using Cons.prems by (intro Insert4split_padded) auto
    with True Cons.IH [of xs0 "xs1 @ [p]"] Cons.prems show ?thesis
      by (simp add: split_step_def)
  next
    case False
    have "Insert4split p (padded xs0 junk b) = padded (xs0 @ [p]) junk b"
      using Cons.prems by (intro Insert4split_padded) auto
    with False Cons.IH [of "xs0 @ [p]" xs1] Cons.prems show ?thesis
      by (simp add: split_step_def)
  qed
qed simp

lemma new_block_padded: "new_block junk d = padded [] junk (new_block junk d)"
  by (simp add: new_block_def padded_def)

lemma block_Split_full:
  fixes junk :: u64
  assumes "block_ok h b" and "INVALID \<notin> fst ` set (eb_slots b)"
  defines "nb \<equiv> new_block junk (local_depth b + 1)"
  shows "block_Split h junk b = Some (b\<lparr>eb_sema := - 1\<rparr>,
    padded (filter (\<lambda>p. \<not> split_bit h (local_depth b) p) (eb_slots b)) junk nb,
    padded (filter (split_bit h (local_depth b)) (eb_slots b)) junk nb)"
proof -
  have "fold (split_step h (local_depth b)) (eb_slots b) (nb, nb) =
    (padded (filter (\<lambda>p. \<not> split_bit h (local_depth b) p) (eb_slots b)) junk nb,
     padded (filter (split_bit h (local_depth b)) (eb_slots b)) junk nb)"
    using fold_split_step [of "[]" "[]" "eb_slots b" h "local_depth b" junk nb] assms(1,2)
      new_block_padded [of junk "local_depth b + 1"]
    by (simp add: nb_def block_ok_def)
  with assms(1) show ?thesis by (simp add: block_Split_def block_ok_def nb_def)
qed

text \<open>Each half is well formed and holds the pairs of its side.\<close>

lemma valid_keys_replicate [simp]: "valid_keys (replicate n (INVALID, j)) = []"
  by (induction n) auto

lemma valid_keys_filter: "valid_keys (filter (\<lambda>p. P (fst p)) xs) = filter P (valid_keys xs)"
  by (induction xs) auto

lemma mod_power_Suc: "(n :: nat) mod 2 ^ (k + 1) = 2 ^ k * (n div 2 ^ k mod 2) + n mod 2 ^ k"
  by (simp only: power_add power_one_right mod_mult2_eq)

lemma half_ok:
  fixes junk :: u64
  assumes ok: "block_ok h b" and ld: "local_depth b < 30"
    and P: "\<And>p. P p = (odd (unat (h (fst p)) div 2 ^ local_depth b) = c)"
    and pat: "unat q = unat (eb_pattern b) + (if c then 2 ^ local_depth b else 0)"
  defines "s \<equiv> (padded (filter P (eb_slots b)) junk (new_block junk (local_depth b + 1)))\<lparr>eb_pattern := q\<rparr>"
  shows "block_ok h s"
    and "k \<noteq> INVALID \<Longrightarrow> map_of (eb_slots s) k =
      (if odd (unat (h k) div 2 ^ local_depth b) = c then map_of (eb_slots b) k else None)"
proof -
  let ?P = "\<lambda>k. odd (unat (h k) div 2 ^ local_depth b) = c"
  have slots: "eb_slots s = filter (\<lambda>p. ?P (fst p)) (eb_slots b) @
      replicate (kNumSlot - length (filter (\<lambda>p. ?P (fst p)) (eb_slots b))) (INVALID, junk)"
    unfolding s_def padded_def ext [of P "\<lambda>p. ?P (fst p)", OF P] by simp
  have len: "length (filter (\<lambda>p. ?P (fst p)) (eb_slots b)) \<le> kNumSlot"
    using ok length_filter_le [of "\<lambda>p. ?P (fst p)" "eb_slots b"] by (simp add: block_ok_def)
  have "unat (h k) mod 2 ^ (local_depth b + 1) = unat q"
    if "unat (h k) mod 2 ^ local_depth b = unat (eb_pattern b)" "?P k" for k
  proof -
    have "unat (h k) mod 2 ^ (local_depth b + 1) =
        2 ^ local_depth b * (unat (h k) div 2 ^ local_depth b mod 2) + unat (h k) mod 2 ^ local_depth b"
      by (rule mod_power_Suc)
    with that pat show ?thesis by (auto simp: odd_iff_mod_2_eq_one even_iff_mod_2_eq_zero)
  qed
  then show "block_ok h s"
    using ok ld len slots
    by (auto simp: block_ok_def valid_keys_filter [of ?P] s_def padded_def new_block_def)
  show "map_of (eb_slots s) k = (if ?P k then map_of (eb_slots b) k else None)" if "k \<noteq> INVALID"
    unfolding slots map_of_padding [OF that] map_of_filter_key [of ?P] ..
qed

section \<open>What the table stands for\<close>

definition entry_ok :: "ehash \<Rightarrow> nat \<Rightarrow> bool" where
  "entry_ok t i \<longleftrightarrow>
     (let b = eh_heap t (eh_dir t ! i) in
      eh_dir t ! i < eh_next t \<and> block_ok (eh_h t) b \<and> local_depth b \<le> global_depth t \<and>
      unat (eb_pattern b) = i mod 2 ^ local_depth b \<and>
      (\<forall>j < eh_capacity t. j mod 2 ^ local_depth b = i mod 2 ^ local_depth b \<longrightarrow>
         eh_dir t ! j = eh_dir t ! i))"

definition eh_ok :: "ehash \<Rightarrow> bool" where
  "eh_ok t \<longleftrightarrow> eh_capacity t = 2 ^ global_depth t \<and> global_depth t \<le> 30 \<and>
     (\<forall>i < eh_capacity t. entry_ok t i)"

text \<open>The block of a key, and the pairs the table holds.\<close>

definition eh_block :: "ehash \<Rightarrow> u64 \<Rightarrow> eblock" where
  "eh_block t key = eh_heap t (eh_target t (eh_h t key))"

definition eh_lookup :: "ehash \<Rightarrow> u64 \<Rightarrow> u64 option" where
  "eh_lookup t key = map_of (eb_slots (eh_block t key)) key"

lemma eh_index_lt: "eh_ok t \<Longrightarrow> eh_index t w < eh_capacity t"
  by (simp add: eh_ok_def eh_index_def)

lemma mod_le_power: "k \<le> m \<Longrightarrow> (n :: nat) mod 2 ^ m mod 2 ^ k = n mod 2 ^ k"
  by (simp add: le_imp_power_dvd mod_mod_cancel)

lemma eh_entryD:
  fixes i :: nat
  assumes "eh_ok t" and "i < eh_capacity t"
  defines "b \<equiv> eh_heap t (eh_dir t ! i)"
  shows "eh_dir t ! i < eh_next t" "block_ok (eh_h t) b" "local_depth b \<le> global_depth t"
    "unat (eb_pattern b) = i mod 2 ^ local_depth b"
    "j < eh_capacity t \<Longrightarrow> j mod 2 ^ local_depth b = i mod 2 ^ local_depth b \<Longrightarrow>
       eh_dir t ! j = eh_dir t ! i"
    "j < eh_capacity t \<Longrightarrow> eh_dir t ! j = eh_dir t ! i \<Longrightarrow>
       j mod 2 ^ local_depth b = i mod 2 ^ local_depth b"
proof -
  from assms(1,2) have "entry_ok t i" by (simp add: eh_ok_def)
  then show "eh_dir t ! i < eh_next t" "block_ok (eh_h t) b" "local_depth b \<le> global_depth t"
    "unat (eb_pattern b) = i mod 2 ^ local_depth b"
    "j < eh_capacity t \<Longrightarrow> j mod 2 ^ local_depth b = i mod 2 ^ local_depth b \<Longrightarrow>
       eh_dir t ! j = eh_dir t ! i"
    by (simp_all add: entry_ok_def b_def Let_def)
  assume "j < eh_capacity t" "eh_dir t ! j = eh_dir t ! i"
  moreover from this assms(1) have "entry_ok t j" by (simp add: eh_ok_def)
  ultimately show "j mod 2 ^ local_depth b = i mod 2 ^ local_depth b"
    using \<open>unat (eb_pattern b) = i mod 2 ^ local_depth b\<close> by (simp add: entry_ok_def b_def Let_def)
qed

text \<open>The target of a hash: the block whose pattern is its low bits.\<close>

lemma eh_targetD:
  fixes w :: u64
  assumes "eh_ok t"
  defines "b \<equiv> eh_heap t (eh_target t w)"
  shows "eh_target t w < eh_next t" "block_ok (eh_h t) b" "local_depth b \<le> global_depth t"
    "unat (eb_pattern b) = unat w mod 2 ^ local_depth b"
proof -
  note lt = eh_index_lt [OF assms(1), of w]
  note E = eh_entryD [OF assms(1) lt, folded eh_target_def b_def]
  then show "eh_target t w < eh_next t" "block_ok (eh_h t) b" "local_depth b \<le> global_depth t"
    by auto
  show "unat (eb_pattern b) = unat w mod 2 ^ local_depth b"
    using E(4) assms(1) by (simp add: eh_index_def eh_ok_def mod_le_power [OF E(3)])
qed

text \<open>Storing a well-formed block in the place of a block with the same depth and pattern.\<close>

lemma eh_store_simps [simp]:
  "eh_dir (eh_store a b t) = eh_dir t" "eh_next (eh_store a b t) = eh_next t"
  "global_depth (eh_store a b t) = global_depth t" "eh_h (eh_store a b t) = eh_h t"
  "eh_junk (eh_store a b t) = eh_junk t" "eh_capacity (eh_store a b t) = eh_capacity t"
  "eh_index (eh_store a b t) w = eh_index t w" "eh_target (eh_store a b t) w = eh_target t w"
  "eh_heap (eh_store a b t) = (eh_heap t)(a := b)"
  by (simp_all add: eh_store_def eh_capacity_def eh_index_def eh_target_def)

lemma eh_store_ok:
  assumes "eh_ok t" and "block_ok (eh_h t) b" and "same_place (eh_heap t a) b"
  shows "eh_ok (eh_store a b t)"
  unfolding eh_ok_def
proof (intro conjI allI impI)
  fix i
  assume "i < eh_capacity (eh_store a b t)"
  then have "i < eh_capacity t" by simp
  from eh_entryD [OF assms(1) this] assms(2,3) show "entry_ok (eh_store a b t) i"
    by (auto simp: entry_ok_def Let_def same_place_def)
qed (use assms(1) in \<open>auto simp: eh_ok_def\<close>)

lemma eh_lookup_store:
  "eh_lookup (eh_store a b t) k =
     (if eh_target t (eh_h t k) = a then map_of (eb_slots b) k else eh_lookup t k)"
  by (simp add: eh_lookup_def eh_block_def)

section \<open>Splitting a full block\<close>

definition eh_split :: "u64 \<Rightarrow> ehash \<Rightarrow> ehash" where
  "eh_split w t =
     (case block_Split (eh_h t) (eh_junk t) (eh_heap t (eh_target t w)) of
        None \<Rightarrow> t
      | Some (old, s) \<Rightarrow> eh_install w (set_patterns w s) (eh_store (eh_target t w) old t))"

lemma unat_add_power:
  assumes "k \<le> 30" and "unat (p :: u64) < 2 ^ k"
  shows "unat (p + 2 ^ k) = unat p + 2 ^ k"
proof -
  have e: "unat ((2 :: u64) ^ k) = 2 ^ k" using assms(1) by (intro unat_power_2) simp
  have "(2 :: nat) ^ k \<le> 2 ^ 30" using assms(1) by (intro power_increasing) auto
  with assms(2) e have "unat p + unat ((2 :: u64) ^ k) < 2 ^ LENGTH(64)" by simp
  with e show ?thesis using unat_add_lem [of p "2 ^ k"] by simp
qed

lemma double_nth:
  assumes "length d = n" and "x < n" and "i < 2 * n"
  shows "(d @ d)[x := a, x + n := b] ! i =
    (if i = x then a else if i = x + n then b else d ! (i mod n))"
proof (cases "i < n")
  case True
  then show ?thesis using assms by (auto simp: nth_list_update nth_append)
next
  case False
  then have "i mod n = i - n" "i \<noteq> x" using assms by (auto simp: le_mod_geq)
  then show ?thesis using assms False by (simp add: nth_list_update nth_append)
qed

text \<open>The directory after the split: the entries of the split block, by bit \<open>L\<close> of the index.\<close>

lemma install_dir:
  fixes s :: "eblock \<times> eblock" and w :: u64
  assumes cap: "eh_capacity t = 2 ^ global_depth t"
    and le: "local_depth (eh_heap t (eh_target t w)) \<le> global_depth t"
    and ld: "local_depth (fst s) = local_depth (eh_heap t (eh_target t w)) + 1"
    and i: "i < eh_capacity (eh_install w s t)"
  defines "L \<equiv> local_depth (eh_heap t (eh_target t w))"
  shows "eh_dir (eh_install w s t) ! i =
    (if i mod 2 ^ L = unat w mod 2 ^ L then (if odd (i div 2 ^ L) then eh_next t + 1 else eh_next t)
     else eh_dir t ! (i mod 2 ^ global_depth t))"
    and "eh_capacity (eh_install w s t) = 2 ^ global_depth (eh_install w s t)"
    and "global_depth (eh_install w s t) = max (global_depth t) (L + 1)"
proof -
  let ?G = "global_depth t" and ?x = "eh_index t w"
  have len: "length (eh_dir t) = 2 ^ ?G" using cap by (simp add: eh_capacity_def)
  have LG: "L \<le> ?G" using le by (simp add: L_def)
  have x: "?x = unat w mod 2 ^ ?G" "?x < 2 ^ ?G" by (simp_all add: eh_index_def cap)
  have xL: "?x mod 2 ^ L = unat w mod 2 ^ L" unfolding x(1) by (rule mod_le_power [OF LG])
  have target: "eh_heap t (eh_dir t ! ?x) = eh_heap t (eh_target t w)" by (simp add: eh_target_def)
  show G': "global_depth (eh_install w s t) = max ?G (L + 1)"
    using LG by (auto simp: eh_install_def Let_def target L_def [symmetric])
  show c': "eh_capacity (eh_install w s t) = 2 ^ global_depth (eh_install w s t)"
    using len by (simp add: eh_install_def Let_def eh_capacity_def)
  show "eh_dir (eh_install w s t) ! i =
    (if i mod 2 ^ L = unat w mod 2 ^ L then (if odd (i div 2 ^ L) then eh_next t + 1 else eh_next t)
     else eh_dir t ! (i mod 2 ^ ?G))"
  proof (cases "L < ?G")
    case True
    define e where "e = ?G - (L + 1)"
    have e: "?G - (L + 1) = e" "e + L + 1 = ?G" using True by (auto simp: e_def)
    have i': "i < 2 ^ ?G" using i c' G' True by simp
    have dir: "eh_dir (eh_install w s t) =
        LSBUpdate (L + 1) ?G (2 ^ (e + L + 1)) ?x (eh_next t, eh_next t + 1) (eh_dir t)"
      using True ld unfolding e(2) by (simp add: eh_install_def Let_def target cap flip: L_def)
    have "eh_dir (eh_install w s t) ! i =
      (if lsb_group L (e + L + 1) ?x i then (if odd (i div 2 ^ L) then eh_next t + 1 else eh_next t)
       else eh_dir t ! i)"
      unfolding dir using LSBUpdate_nth [OF e(1), of i "eh_dir t" ?x L "(eh_next t, eh_next t + 1)"]
        i' x(2) len unfolding e(2) by simp
    then show ?thesis using i' x(2) xL unfolding lsb_group_def e(2) by simp
  next
    case False
    then have LG: "L = ?G" using LG by simp
    have dir: "eh_dir (eh_install w s t) =
        (eh_dir t @ eh_dir t)[?x := eh_next t, ?x + 2 ^ ?G := eh_next t + 1]"
      using False by (simp add: eh_install_def Let_def target cap flip: L_def)
    have i': "i < 2 * 2 ^ ?G" using i c' G' LG by simp
    have q: "?x mod 2 ^ ?G = ?x" "?x div 2 ^ ?G = 0" using x(2) by auto
    have mem: "(i mod 2 ^ ?G = ?x) = (i = ?x \<or> i = ?x + 2 ^ ?G)"
      using i' x(2) by (auto simp: mod_if split: if_splits)
    have "eh_dir (eh_install w s t) ! i =
        (if i = ?x then eh_next t else if i = ?x + 2 ^ ?G then eh_next t + 1 else eh_dir t ! (i mod 2 ^ ?G))"
      unfolding dir by (rule double_nth) (use len x(2) i' in auto)
    moreover have "(?x + 2 ^ ?G) div 2 ^ ?G = 1" using x(2) by (simp add: div_add_self2)
    ultimately show ?thesis using mem q xL unfolding LG by auto
  qed
qed

text \<open>The two halves, as the split installs them.\<close>

definition eh_half :: "ehash \<Rightarrow> u64 \<Rightarrow> bool \<Rightarrow> eblock" where
  "eh_half t w c =
     (let b = eh_heap t (eh_target t w); p = w mod mypow 2 (local_depth b) in
      (padded (filter (\<lambda>q. split_bit (eh_h t) (local_depth b) q = c) (eb_slots b)) (eh_junk t)
         (new_block (eh_junk t) (local_depth b + 1)))
      \<lparr>eb_pattern := if c then p + int_shl1 (local_depth b) else p\<rparr>)"

lemma padded_depth [simp]:
  "local_depth (padded xs j b) = local_depth b" "local_depth (new_block j d) = d"
  by (simp_all add: padded_def new_block_def)

lemma eh_split_eq:
  assumes ok: "eh_ok t" and full: "INVALID \<notin> fst ` set (eb_slots (eh_heap t (eh_target t w)))"
  shows "\<exists>old. local_depth old = local_depth (eh_heap t (eh_target t w)) \<and>
    eh_split w t = eh_install w (eh_half t w False, eh_half t w True) (eh_store (eh_target t w) old t)"
  using block_Split_full [OF eh_targetD(2) [OF ok] full]
  by (intro exI [of _ "(eh_heap t (eh_target t w))\<lparr>eb_sema := - 1\<rparr>"])
     (simp add: eh_split_def set_patterns_def eh_half_def Let_def)

lemma eh_half_ok:
  assumes ok: "eh_ok t" and ld: "local_depth (eh_heap t (eh_target t w)) < 30"
  defines "b \<equiv> eh_heap t (eh_target t w)"
  shows "block_ok (eh_h t) (eh_half t w c)" and "local_depth (eh_half t w c) = local_depth b + 1"
    and "unat (eb_pattern (eh_half t w c)) =
      unat w mod 2 ^ local_depth b + (if c then 2 ^ local_depth b else 0)"
    and "k \<noteq> INVALID \<Longrightarrow> map_of (eb_slots (eh_half t w c)) k =
      (if odd (unat (eh_h t k) div 2 ^ local_depth b) = c then map_of (eb_slots b) k else None)"
proof -
  define q where "q = (if c then w mod mypow 2 (local_depth b) + int_shl1 (local_depth b)
                       else w mod mypow 2 (local_depth b))"
  have L: "local_depth b < 30" using ld by (simp add: b_def)
  have p: "unat (w mod mypow 2 (local_depth b)) = unat w mod 2 ^ local_depth b"
    using L by (intro mod_mypow) simp
  then have q: "unat q = unat w mod 2 ^ local_depth b + (if c then 2 ^ local_depth b else 0)"
    using L unat_add_power [of "local_depth b" "w mod mypow 2 (local_depth b)"]
    by (simp add: q_def int_shl1_eq)
  have half: "eh_half t w c = (padded (filter (\<lambda>q. split_bit (eh_h t) (local_depth b) q = c) (eb_slots b))
      (eh_junk t) (new_block (eh_junk t) (local_depth b + 1)))\<lparr>eb_pattern := q\<rparr>"
    by (simp add: eh_half_def q_def b_def Let_def)
  have P: "(split_bit (eh_h t) (local_depth b) p = c) =
      (odd (unat (eh_h t (fst p)) div 2 ^ local_depth b) = c)" for p
    using L by (simp add: split_bit_odd)
  have pat: "unat q = unat (eb_pattern b) + (if c then 2 ^ local_depth b else 0)"
    using q eh_targetD(4) [OF ok, of w] by (simp add: b_def)
  note H = half_ok [where junk = "eh_junk t", OF eh_targetD(2) [OF ok, of w, folded b_def] L P pat]
  show "block_ok (eh_h t) (eh_half t w c)" unfolding half by (rule H(1))
  show "local_depth (eh_half t w c) = local_depth b + 1" unfolding half by simp
  show "unat (eb_pattern (eh_half t w c)) =
      unat w mod 2 ^ local_depth b + (if c then 2 ^ local_depth b else 0)"
    unfolding half using q by simp
  show "k \<noteq> INVALID \<Longrightarrow> map_of (eb_slots (eh_half t w c)) k =
      (if odd (unat (eh_h t k) div 2 ^ local_depth b) = c then map_of (eb_slots b) k else None)"
    unfolding half by (rule H(2))
qed

lemma mod_power_Suc_eq:
  "(i :: nat) mod 2 ^ (k + 1) = j mod 2 ^ (k + 1) \<longleftrightarrow>
   i mod 2 ^ k = j mod 2 ^ k \<and> odd (i div 2 ^ k) = odd (j div 2 ^ k)" (is "?l = ?r")
proof
  assume l: ?l
  then have "i mod 2 ^ k = j mod 2 ^ k"
    using mod_le_power [of k "k + 1" i] mod_le_power [of k "k + 1" j] by simp
  with l have "i div 2 ^ k mod 2 = j div 2 ^ k mod 2" unfolding mod_power_Suc by simp
  with \<open>i mod 2 ^ k = j mod 2 ^ k\<close> show ?r by (simp add: odd_iff_mod_2_eq_one)
next
  assume r: ?r
  then have "i div 2 ^ k mod 2 = j div 2 ^ k mod 2" by (simp add: odd_iff_mod_2_eq_one mod2_eq_if)
  with r show ?l unfolding mod_power_Suc by simp
qed

lemma eh_split_ok:
  fixes w :: u64
  assumes ok: "eh_ok t" and full: "INVALID \<notin> fst ` set (eb_slots (eh_heap t (eh_target t w)))"
    and ld: "local_depth (eh_heap t (eh_target t w)) < 30"
  defines "t' \<equiv> eh_split w t"
  shows "eh_ok t'" and "eh_h t' = eh_h t"
    and "k \<noteq> INVALID \<Longrightarrow> eh_lookup t' k = eh_lookup t k"
    and "local_depth (eh_heap t' (eh_target t' w)) = local_depth (eh_heap t (eh_target t w)) + 1"
proof -
  define a where "a = eh_target t w"
  define L where "L = local_depth (eh_heap t a)"
  define G where "G = global_depth t"
  let ?n = "unat w"
  obtain old where old: "local_depth old = L"
    and t': "t' = eh_install w (eh_half t w False, eh_half t w True) (eh_store a old t)"
    using eh_split_eq [OF ok full] by (auto simp: t'_def a_def L_def)
  note T = eh_targetD [OF ok, of w, folded a_def, folded L_def]
  note H = eh_half_ok [OF ok ld, folded a_def, folded L_def]
  have LG: "L \<le> G" using T(3) by (simp add: G_def L_def)
  have L30: "L < 30" using ld by (simp add: L_def a_def)
  have cap: "eh_capacity t = 2 ^ G" and G30: "G \<le> 30" using ok by (auto simp: eh_ok_def G_def)
  let ?u = "eh_store a old t"
  text \<open>The directory entries of the old block, in the old and in the new directory.\<close>
  have cls: "eh_dir t ! (j mod 2 ^ G) = a \<longleftrightarrow> j mod 2 ^ L = ?n mod 2 ^ L" for j
  proof -
    have x: "eh_index t w < eh_capacity t" "eh_dir t ! eh_index t w = a"
      using eh_index_lt [OF ok] by (auto simp: a_def eh_target_def)
    have xm: "eh_index t w mod 2 ^ L = ?n mod 2 ^ L"
      using LG by (simp add: eh_index_def cap mod_le_power)
    have j: "j mod 2 ^ G < eh_capacity t" by (simp add: cap)
    note E = eh_entryD(5,6) [OF ok x(1) j, unfolded x(2), folded L_def, unfolded xm mod_le_power [OF LG]]
    show ?thesis using E by blast
  qed
  have uL: "local_depth (eh_heap ?u (eh_target ?u w)) = L" using old by (simp flip: a_def)
  note I = install_dir [of ?u w "(eh_half t w False, eh_half t w True)", unfolded uL, folded t']
  have I_prems: "eh_capacity ?u = 2 ^ global_depth ?u" "L \<le> global_depth ?u"
    "local_depth (fst (eh_half t w False, eh_half t w True)) = L + 1"
    using cap LG H(2) by (simp_all add: G_def L_def)
  have cap0: "0 < eh_capacity t'"
    using cap by (simp add: t' eh_install_def Let_def eh_capacity_def del: length_greater_0_conv)
  have dir: "eh_dir t' ! i =
    (if i mod 2 ^ L = ?n mod 2 ^ L then (if odd (i div 2 ^ L) then eh_next t + 1 else eh_next t)
     else eh_dir t ! (i mod 2 ^ G))" if "i < eh_capacity t'" for i
    using I(1) [OF I_prems that] unfolding eh_store_simps G_def [symmetric] .
  have cap': "eh_capacity t' = 2 ^ global_depth t'" and G': "global_depth t' = max G (L + 1)"
    using I(2,3) [OF I_prems cap0] unfolding eh_store_simps G_def [symmetric] by auto
  have GG': "G \<le> global_depth t'" and LG': "L + 1 \<le> global_depth t'" and G'30: "global_depth t' \<le> 30"
    using G' G30 L30 by auto
  have h': "eh_h t' = eh_h t" by (simp add: t' eh_install_def Let_def)
  have next': "eh_next t' = eh_next t + 2" by (simp add: t' eh_install_def Let_def)
  have heap_new: "eh_heap t' (eh_next t) = eh_half t w False" "eh_heap t' (eh_next t + 1) = eh_half t w True"
    by (auto simp: t' eh_install_def Let_def)
  have heap_old: "eh_heap t' b = eh_heap t b" if "b < eh_next t" "b \<noteq> a" for b
    using that by (simp add: t' eh_install_def Let_def)
  have bits: "i mod 2 ^ (L + 1) = j mod 2 ^ (L + 1) \<longleftrightarrow>
      i mod 2 ^ L = j mod 2 ^ L \<and> odd (i div 2 ^ L) = odd (j div 2 ^ L)" for i j :: nat
    by (rule mod_power_Suc_eq)
  have new_entry: "eh_heap t' (eh_dir t' ! i) = eh_half t w (odd (i div 2 ^ L))"
    if "i < eh_capacity t'" "i mod 2 ^ L = ?n mod 2 ^ L" for i
    using dir [OF that(1)] that(2) heap_new by auto
  show "eh_ok t'"
    unfolding eh_ok_def
  proof (intro conjI allI impI)
    show "eh_capacity t' = 2 ^ global_depth t'" by (rule cap')
    show "global_depth t' \<le> 30" by (rule G'30)
    fix i
    assume i: "i < eh_capacity t'"
    show "entry_ok t' i"
    proof (cases "i mod 2 ^ L = ?n mod 2 ^ L")
      case True
      note e = new_entry [OF i True]
      have pat: "unat (eb_pattern (eh_half t w (odd (i div 2 ^ L)))) = i mod 2 ^ (L + 1)"
        unfolding mod_power_Suc H(3) True
        by (cases "odd (i div 2 ^ L)") (simp_all add: odd_iff_mod_2_eq_one even_iff_mod_2_eq_zero)
      have "eh_dir t' ! i < eh_next t'" using dir [OF i] True next' by simp
      moreover have "eh_dir t' ! j = eh_dir t' ! i"
        if "j < eh_capacity t'" "j mod 2 ^ (L + 1) = i mod 2 ^ (L + 1)" for j
        using that dir [OF i] dir [OF that(1)] True unfolding bits by simp
      ultimately show ?thesis
        using H(1,2) pat LG' h' unfolding entry_ok_def Let_def e by simp
    next
      case False
      have m: "i mod 2 ^ G < eh_capacity t" by (simp add: cap)
      note E = eh_entryD [OF ok m]
      have e: "eh_dir t' ! i = eh_dir t ! (i mod 2 ^ G)" using dir [OF i] False by simp
      have na: "eh_dir t ! (i mod 2 ^ G) \<noteq> a" using cls [of i] False by simp
      let ?b = "eh_heap t (eh_dir t ! (i mod 2 ^ G))"
      have heap: "eh_heap t' (eh_dir t' ! i) = ?b" unfolding e by (rule heap_old [OF E(1) na])
      have dG: "local_depth ?b \<le> G" using E(3) by (simp add: G_def)
      have "eh_dir t' ! j = eh_dir t' ! i"
        if j: "j < eh_capacity t'" "j mod 2 ^ local_depth ?b = i mod 2 ^ local_depth ?b" for j
      proof -
        have "eh_dir t ! (j mod 2 ^ G) = eh_dir t ! (i mod 2 ^ G)"
          using E(5) [of "j mod 2 ^ G"] j(2) by (simp add: cap mod_le_power [OF dG])
        with na cls [of j] have "j mod 2 ^ L \<noteq> ?n mod 2 ^ L" by simp
        with dir [OF j(1)] e \<open>eh_dir t ! (j mod 2 ^ G) = eh_dir t ! (i mod 2 ^ G)\<close>
        show ?thesis by simp
      qed
      then show ?thesis
        using E(1-4) dG GG' next' unfolding entry_ok_def Let_def e heap [unfolded e] h'
        by (simp add: mod_le_power [OF dG])
    qed
  qed
  show "eh_h t' = eh_h t" by (rule h')
  have target: "eh_target t' v = eh_dir t' ! (unat v mod eh_capacity t')"
      "unat v mod eh_capacity t' < eh_capacity t'"
      "unat v mod eh_capacity t' mod 2 ^ L = unat v mod 2 ^ L"
      "odd (unat v mod eh_capacity t' div 2 ^ L) = odd (unat v div 2 ^ L)" for v
  proof -
    show "eh_target t' v = eh_dir t' ! (unat v mod eh_capacity t')"
      by (simp add: eh_target_def eh_index_def)
    show "unat v mod eh_capacity t' < eh_capacity t'" by (simp add: cap')
    have "unat v mod eh_capacity t' mod 2 ^ (L + 1) = unat v mod 2 ^ (L + 1)"
      unfolding cap' by (rule mod_le_power [OF LG'])
    then show "unat v mod eh_capacity t' mod 2 ^ L = unat v mod 2 ^ L"
      "odd (unat v mod eh_capacity t' div 2 ^ L) = odd (unat v div 2 ^ L)"
      unfolding bits by auto
  qed
  have block: "eh_heap t' (eh_target t' v) = (if unat v mod 2 ^ L = ?n mod 2 ^ L
      then eh_half t w (odd (unat v div 2 ^ L)) else eh_heap t (eh_target t v))" for v
  proof (cases "unat v mod 2 ^ L = ?n mod 2 ^ L")
    case True
    then show ?thesis using new_entry [OF target(2) [of v]] target(1,3,4) [of v] by simp
  next
    case False
    have v: "unat v mod eh_capacity t' mod 2 ^ G = unat v mod 2 ^ G"
      unfolding cap' by (rule mod_le_power [OF GG'])
    have t: "eh_target t v = eh_dir t ! (unat v mod 2 ^ G)" by (simp add: eh_target_def eh_index_def cap)
    have "eh_target t' v = eh_target t v"
      using dir [OF target(2) [of v]] target(1,3) [of v] False v t by simp
    moreover have "eh_target t v \<noteq> a" using cls [of "unat v"] False t by simp
    ultimately show ?thesis using heap_old [OF eh_targetD(1) [OF ok, of v]] False by simp
  qed
  show "eh_lookup t' k = eh_lookup t k" if k: "k \<noteq> INVALID"
  proof (cases "unat (eh_h t k) mod 2 ^ L = ?n mod 2 ^ L")
    case True
    have "eh_target t (eh_h t k) = a"
      using cls [of "unat (eh_h t k)"] True by (simp add: eh_target_def eh_index_def cap)
    with True H(4) [OF k] show ?thesis
      unfolding eh_lookup_def eh_block_def h' block by simp
  next
    case False
    then show ?thesis unfolding eh_lookup_def eh_block_def h' block by simp
  qed
  show "local_depth (eh_heap t' (eh_target t' w)) = local_depth (eh_heap t (eh_target t w)) + 1"
    unfolding block using H(2) by (simp add: L_def a_def)
qed

section \<open>Put\<close>

lemma eh_target_same:
  assumes ok: "eh_ok t"
    and "unat v mod 2 ^ local_depth (eh_heap t (eh_target t w)) =
         unat w mod 2 ^ local_depth (eh_heap t (eh_target t w))"
  shows "eh_target t v = eh_target t w"
proof -
  let ?b = "eh_heap t (eh_target t w)"
  have x: "eh_index t w < eh_capacity t" "eh_index t v < eh_capacity t"
    using eh_index_lt [OF ok] by auto
  have d: "local_depth ?b \<le> global_depth t" by (rule eh_targetD(3) [OF ok])
  have "eh_index t u mod 2 ^ local_depth ?b = unat u mod 2 ^ local_depth ?b" for u
    using ok by (simp add: eh_index_def eh_ok_def mod_le_power [OF d])
  then have "eh_index t v mod 2 ^ local_depth ?b = eh_index t w mod 2 ^ local_depth ?b"
    using assms(2) by simp
  from eh_entryD(5) [OF ok x(1) x(2), folded eh_target_def] this
  show ?thesis by (simp add: eh_target_def)
qed

text \<open>
  The keys of the table, and a bound on the depth a key can need: at most 16 of the keys,
  \<open>key\<close> included, share the low \<open>D\<close> bits of its hash.
\<close>

definition eh_keys :: "ehash \<Rightarrow> u64 set" where
  "eh_keys t = {k. k \<noteq> INVALID \<and> eh_lookup t k \<noteq> None}"

definition eh_spread :: "nat \<Rightarrow> ehash \<Rightarrow> u64 \<Rightarrow> bool" where
  "eh_spread D t key \<longleftrightarrow> D \<le> 30 \<and>
     card {k \<in> insert key (eh_keys t). unat (eh_h t k) mod 2 ^ D = unat (eh_h t key) mod 2 ^ D} \<le> kNumSlot"

lemma full_block_shallow:
  assumes ok: "eh_ok t" and spread: "eh_spread D t key"
    and full: "INVALID \<notin> fst ` set (eb_slots (eh_block t key))" "key \<notin> fst ` set (eb_slots (eh_block t key))"
  shows "local_depth (eh_block t key) < D"
proof (rule ccontr)
  let ?b = "eh_block t key" and ?h = "eh_h t"
  let ?K = "fst ` set (eb_slots ?b)"
  let ?S = "{k \<in> insert key (eh_keys t). unat (?h k) mod 2 ^ D = unat (?h key) mod 2 ^ D}"
  assume "\<not> local_depth ?b < D"
  then have D: "D \<le> local_depth ?b" by simp
  note T = eh_targetD [OF ok, of "?h key", folded eh_block_def]
  have "valid_keys (eb_slots ?b) = map fst (eb_slots ?b)"
    unfolding valid_keys_def filter_id_conv set_map using full(1) by metis
  with T(2) have dist: "distinct (map fst (eb_slots ?b))" and len: "length (eb_slots ?b) = kNumSlot"
    and pat: "\<forall>k \<in> ?K. unat (?h k) mod 2 ^ local_depth ?b = unat (eb_pattern ?b)"
    by (auto simp: block_ok_def)
  have card: "card (insert key ?K) = kNumSlot + 1"
    using full(2) distinct_card [OF dist] len by simp
  have "k \<in> ?S" if "k \<in> ?K" for k
  proof -
    have e: "unat (?h k) mod 2 ^ local_depth ?b = unat (?h key) mod 2 ^ local_depth ?b"
      using bspec [OF pat that] T(4) by simp
    then have "eh_target t (?h k) = eh_target t (?h key)"
      by (intro eh_target_same [OF ok]) (simp add: eh_block_def)
    then have "eh_lookup t k \<noteq> None"
      using that by (simp add: eh_lookup_def eh_block_def map_of_eq_None_iff)
    moreover have "k \<noteq> INVALID" using that full(1) by blast
    moreover have "unat (?h k) mod 2 ^ D = unat (?h key) mod 2 ^ D"
      using e mod_le_power [OF D] by metis
    ultimately show ?thesis by (simp add: eh_keys_def)
  qed
  then have "insert key ?K \<subseteq> ?S" by auto
  then have "card (insert key ?K) \<le> card ?S" by (intro card_mono) auto
  with card spread show False by (simp add: eh_spread_def)
qed

lemma eh_spread_split:
  assumes "eh_h t' = eh_h t" and "\<And>k. k \<noteq> INVALID \<Longrightarrow> eh_lookup t' k = eh_lookup t k"
  shows "eh_spread D t' key = eh_spread D t key"
proof -
  have "eh_keys t' = eh_keys t" using assms(2) by (auto simp: eh_keys_def)
  with assms(1) show ?thesis by (simp add: eh_spread_def)
qed

lemma eh_store_same: "eh_store a (eh_heap t a) t = t"
  by (simp add: eh_store_def)

lemma eh_Insert_ok:
  assumes "eh_ok t" and key: "key \<noteq> INVALID" and "eh_spread D t key"
    and "0 < fuel" and "D < local_depth (eh_block t key) + fuel"
  shows "\<exists>t'. eh_Insert fuel key v t = Some t' \<and> eh_ok t' \<and> eh_h t' = eh_h t \<and>
    (\<forall>k. k \<noteq> INVALID \<longrightarrow> eh_lookup t' k = ((eh_lookup t)(key \<mapsto> v)) k)"
  using assms
proof (induction fuel arbitrary: t)
  case (Suc fuel)
  note ok = Suc.prems(1)
  let ?w = "eh_h t key" and ?a = "eh_target t (eh_h t key)"
  let ?b = "eh_heap t ?a"
  note T = eh_targetD [OF ok, of ?w]
  from block_Insert_ok [OF T(2) key T(4) [symmetric], of v]
  show ?case
  proof (elim disjE exE conjE)
    fix b' i
    assume ins: "block_Insert key v ?w ?b = (b', int i)" and b': "block_ok (eh_h t) b'" "same_place ?b b'"
      and upd: "\<forall>k. k \<noteq> INVALID \<longrightarrow> map_of (eb_slots b') k = (if k = key then Some v else map_of (eb_slots ?b) k)"
    have run: "eh_Insert (Suc fuel) key v t = Some (eh_store ?a b' t)"
      by (simp add: Let_def ins)
    have "eh_lookup (eh_store ?a b' t) k = ((eh_lookup t)(key \<mapsto> v)) k" if "k \<noteq> INVALID" for k
      using upd that by (auto simp: eh_lookup_store eh_lookup_def eh_block_def)
    with run eh_store_ok [OF ok b'] show ?thesis by auto
  next
    assume ins: "block_Insert key v ?w ?b = (?b, - 1)"
      and full: "key \<notin> fst ` set (eb_slots ?b)" "INVALID \<notin> fst ` set (eb_slots ?b)"
    have D: "local_depth ?b < D" "D \<le> 30"
      using full_block_shallow [OF ok Suc.prems(3)] full Suc.prems(3)
      by (auto simp: eh_block_def eh_spread_def)
    then have ld: "local_depth ?b < 30" by simp
    note S = eh_split_ok [OF ok full(2) ld]
    obtain old s where sp: "block_Split (eh_h t) (eh_junk t) ?b = Some (old, s)"
      using block_Split_full [OF T(2) full(2)] by blast
    have run: "eh_Insert (Suc fuel) key v t = eh_Insert fuel key v (eh_split ?w t)"
      by (simp add: Let_def ins eh_store_same sp eh_split_def)
    have "eh_spread D (eh_split ?w t) key"
      using eh_spread_split [OF S(2,3), of D key] Suc.prems(3) by simp
    moreover have "D < local_depth (eh_block (eh_split ?w t) key) + fuel"
      using S(2,4) Suc.prems(5) by (simp add: eh_block_def)
    moreover have "0 < fuel" using D Suc.prems(5) by (simp add: eh_block_def)
    ultimately have "\<exists>t'. eh_Insert fuel key v (eh_split ?w t) = Some t' \<and> eh_ok t' \<and>
        eh_h t' = eh_h (eh_split ?w t) \<and>
        (\<forall>k. k \<noteq> INVALID \<longrightarrow> eh_lookup t' k = ((eh_lookup (eh_split ?w t))(key \<mapsto> v)) k)"
      using Suc.IH [OF S(1) key] by blast
    with run S(2,3) show ?thesis by auto
  qed
qed simp

lemma eh_Get_lookup: "eh_Get k t = (case eh_lookup t k of Some v \<Rightarrow> v | None \<Rightarrow> NONE)"
  unfolding eh_Get_def eh_Extract_def Let_def slot_of_value eh_lookup_def eh_block_def ..

text \<open>
  C3: \<open>Put\<close> returns, splitting at most \<open>D + 1\<close> times when no more than 16 keys share the low
  \<open>D\<close> bits of the key's hash; it keeps the directory invariant, afterwards \<open>Get\<close> of the key
  answers the new value, and every other key answers what it did before.
\<close>

theorem eh_Put_Get:
  assumes "eh_ok t" and "key \<noteq> INVALID" and "eh_spread D t key" and "D < fuel"
  shows "\<exists>t'. eh_Put fuel key v t = Some t' \<and> eh_ok t' \<and> eh_h t' = eh_h t \<and>
    eh_Get key t' = v \<and> (\<forall>k. k \<noteq> INVALID \<and> k \<noteq> key \<longrightarrow> eh_Get k t' = eh_Get k t)"
proof -
  from eh_Insert_ok [OF assms(1-3), of fuel v] assms(4)
  obtain t' where "eh_Insert fuel key v t = Some t'" "eh_ok t'" "eh_h t' = eh_h t"
    "\<forall>k. k \<noteq> INVALID \<longrightarrow> eh_lookup t' k = ((eh_lookup t)(key \<mapsto> v)) k" by auto
  with assms(2) show ?thesis by (intro exI [of _ t']) (simp add: eh_Put_def eh_Get_lookup)
qed

text \<open>More fuel never changes the result.\<close>

lemma eh_Insert_fuel: "eh_Insert f key v t = Some t' \<Longrightarrow> f \<le> f' \<Longrightarrow> eh_Insert f' key v t = Some t'"
proof (induction f arbitrary: f' t)
  case (Suc f)
  then obtain g where g: "f' = Suc g" "f \<le> g" by (cases f') auto
  show ?case using Suc.prems(1) Suc.IH g(2)
    unfolding g(1) by (auto simp: Let_def split: prod.splits if_splits option.splits)
qed simp

section \<open>Delete\<close>

lemma block_Delete_ok:
  assumes ok: "block_ok h b"
  shows "key \<in> fst ` set (eb_slots b) \<Longrightarrow> key \<noteq> INVALID \<Longrightarrow>
     \<exists>b'. block_Delete key b = (b', True) \<and> block_ok h b' \<and> same_place b b' \<and>
       (\<forall>k. k \<noteq> INVALID \<longrightarrow> map_of (eb_slots b') k = (if k = key then None else map_of (eb_slots b) k))"
    and "key \<notin> fst ` set (eb_slots b) \<Longrightarrow> block_Delete key b = (b, False)"
proof -
  have sema: "eb_sema b = 0" using ok by (simp add: block_ok_def)
  show "block_Delete key b = (b, False)" if k: "key \<notin> fst ` set (eb_slots b)"
  proof -
    have none: "slot_of key b = None" by (rule iffD2 [OF slot_of_None k])
    show ?thesis by (simp add: block_Delete_def Let_def sema none)
  qed
  assume k: "key \<in> fst ` set (eb_slots b)" "key \<noteq> INVALID"
  then obtain i where i: "slot_of key b = Some i" using slot_of_None [of key b] by blast
  obtain as v bs where s: "eb_slots b = as @ (key, v) # bs" "length as = i" "key \<notin> fst ` set as"
    by (rule slot_of_SomeE [OF i])
  let ?b = "set_slot i (INVALID, v) b"
  have "eb_slots b ! i = (key, v)" using s(1,2) by (metis nth_append_length)
  then have run: "block_Delete key b = (?b, True)"
    using i sema by (simp add: block_Delete_def Let_def)
  have new: "eb_slots ?b = as @ (INVALID, v) # bs"
    using s(1) by (simp add: set_slot_def flip: s(2))
  have d: "key \<notin> fst ` set bs"
    using ok k(2) by (auto simp: block_ok_def s(1) set_valid_keys)
  have bok: "block_ok h ?b"
    using ok k(2) new by (auto simp: block_ok_def s(1) set_slot_def)
  have m: "map_of (eb_slots ?b) x = (if x = key then None else map_of (eb_slots b) x)"
    if x: "x \<noteq> INVALID" for x
  proof (cases "x = key")
    case True
    with s(3) d k(2) show ?thesis by (simp add: new map_of_eq_None_iff)
  next
    case False
    then show ?thesis
      unfolding new s(1) map_of_skip [OF x] map_of_skip [OF False] by simp
  qed
  with run bok show "\<exists>b'. block_Delete key b = (b', True) \<and> block_ok h b' \<and> same_place b b' \<and>
       (\<forall>k. k \<noteq> INVALID \<longrightarrow> map_of (eb_slots b') k = (if k = key then None else map_of (eb_slots b) k))"
    by (intro exI [of _ ?b]) simp
qed

text \<open>
  \<open>Delete\<close> removes exactly its key: it answers whether the key was there, keeps the
  invariant, the key is absent afterwards and the other keys keep their values.
\<close>

theorem eh_Delete_correct:
  assumes ok: "eh_ok t" and key: "key \<noteq> INVALID"
  shows "\<exists>t'. eh_Delete key t = (t', eh_lookup t key \<noteq> None) \<and> eh_ok t' \<and> eh_lookup t' key = None \<and>
    (\<forall>k. k \<noteq> INVALID \<and> k \<noteq> key \<longrightarrow> eh_lookup t' k = eh_lookup t k)"
proof -
  let ?a = "eh_target t (eh_h t key)"
  let ?b = "eh_heap t ?a"
  note bok = eh_targetD(2) [OF ok, of "eh_h t key"]
  show ?thesis
  proof (cases "key \<in> fst ` set (eb_slots ?b)")
    case True
    then obtain b' where b': "block_Delete key ?b = (b', True)" "block_ok (eh_h t) b'" "same_place ?b b'"
      and m: "\<forall>k. k \<noteq> INVALID \<longrightarrow> map_of (eb_slots b') k = (if k = key then None else map_of (eb_slots ?b) k)"
      using block_Delete_ok(1) [OF bok True key] by blast
    have "eh_Delete key t = (eh_store ?a b' t, True)" using b'(1) by (simp add: eh_Delete_def Let_def)
    moreover have "eh_lookup t key \<noteq> None"
      using True by (simp add: eh_lookup_def eh_block_def map_of_eq_None_iff)
    ultimately show ?thesis
      using eh_store_ok [OF ok b'(2,3)] m key
      by (intro exI [of _ "eh_store ?a b' t"]) (simp add: eh_lookup_store eh_lookup_def eh_block_def)
  next
    case False
    have sema: "eb_sema ?b \<noteq> - 1" using bok by (simp add: block_ok_def)
    have "eh_Delete key t = (t, False)"
      using block_Delete_ok(2) [OF bok False] sema by (simp add: eh_Delete_def Let_def eh_store_same)
    moreover have "eh_lookup t key = None"
      using False by (simp add: eh_lookup_def eh_block_def map_of_none)
    ultimately show ?thesis using ok by (intro exI [of _ t]) simp
  qed
qed

section \<open>Construction\<close>

lemma log2_floor_power: "log2_floor (2 ^ d) = d"
  by (induction d) (subst log2_floor.simps, simp)+

lemma eh_new_init:
  assumes "c = Some (2 ^ d) \<and> d \<le> 30 \<or> c = None \<or> c = Some 0"
  shows "eh_ok (ExtendibleHash_new c h junk) \<and> (\<forall>k. k \<noteq> INVALID \<longrightarrow> eh_lookup (ExtendibleHash_new c h junk) k = None)"
proof -
  define e where "e = (if c = None \<or> c = Some 0 then 0 else d)"
  have e30: "e \<le> 30" using assms by (auto simp: e_def)
  have cap: "(case c of None \<Rightarrow> 1 | Some c \<Rightarrow> if c = 0 then 1 else c) = 2 ^ e"
    using assms by (auto simp: e_def)
  let ?t = "ExtendibleHash_new c h junk"
  have t: "?t = \<lparr>eh_heap = (\<lambda>a. (new_block junk e)\<lparr>eb_pattern := of_nat a\<rparr>), eh_next = 2 ^ e,
       eh_dir = [0..<2 ^ e], global_depth = e, eh_h = h, eh_junk = junk\<rparr>"
    unfolding ExtendibleHash_new_def cap Let_def log2_floor_power ..
  have blk: "block_ok h ((new_block junk e)\<lparr>eb_pattern := p\<rparr>)" for p
    using e30 by (simp add: block_ok_def new_block_def)
  have "entry_ok ?t i" if i: "i < 2 ^ e" for i
  proof -
    have "(2 :: nat) ^ e \<le> 2 ^ 30" using e30 by (intro power_increasing) auto
    then have "unat (of_nat i :: u64) = i"
      using i by (intro unat_of_nat_small) simp
    then show ?thesis using i blk by (simp add: t entry_ok_def Let_def eh_capacity_def)
  qed
  then have "eh_ok ?t" using e30 by (simp add: eh_ok_def t eh_capacity_def)
  moreover have "eh_lookup ?t k = None" if "k \<noteq> INVALID" for k
    using that by (auto simp: eh_lookup_def eh_block_def t new_block_def map_of_eq_None_iff)
  ultimately show ?thesis by blast
qed

text \<open>
  Built with a power of two as \<open>initial_capacity\<close> (at most 2^30), or without one, the table
  satisfies the invariant and is empty.
\<close>

theorem eh_new_ok:
  assumes "c = Some (2 ^ d) \<and> d \<le> 30 \<or> c = None \<or> c = Some 0"
  shows "eh_ok (ExtendibleHash_new c h junk) \<and> (\<forall>k. k \<noteq> INVALID \<longrightarrow> eh_lookup (ExtendibleHash_new c h junk) k = None)"
  using assms by (rule eh_new_init)

text \<open>
  A capacity that is not a power of two can send \<open>Insert\<close> into unbounded recursion: with 3
  blocks, global depth 1 and a hash of 2, block 2 has pattern 2, which no masked hash equals,
  so \<open>Block::Insert\<close> answers -2 for ever.
\<close>

theorem eh_Insert_diverges:
  "eh_Insert fuel 2 7 (ExtendibleHash_new (Some 3) id 0) = None"
proof (induction fuel)
  case (Suc fuel)
  let ?t = "ExtendibleHash_new (Some 3) id 0"
  have gd: "log2_floor 3 = 1" by (simp add: log2_floor.simps)
  have h: "eh_h ?t 2 = 2" by (simp add: ExtendibleHash_new_def Let_def)
  have target: "eh_target ?t (eh_h ?t 2) = 2"
    by (simp add: eh_target_def eh_index_def eh_capacity_def ExtendibleHash_new_def Let_def)
  have "local_depth (eh_heap ?t 2) = 1" "eb_pattern (eh_heap ?t 2) = 2" "eb_sema (eh_heap ?t 2) = 0"
    by (simp_all add: ExtendibleHash_new_def Let_def gd new_block_def)
  then have "block_Insert 2 7 (eh_h ?t 2) (eh_heap ?t 2) = (eh_heap ?t 2, - 2)"
    by (simp add: block_Insert_def mypow_def h)
  then have "eh_Insert (Suc fuel) 2 7 ?t = eh_Insert fuel 2 7 ?t"
    by (simp add: target Let_def eh_store_same)
  with Suc show ?case by (simp only:)
qed simp

text \<open>
  C20: \<open>Split\<close> and the directory update that follows (in place or doubling) keep the invariant
  and every key's value, and give the key's block one more bit of depth.
\<close>

theorem eh_split_preserves:
  assumes "eh_ok t" and "INVALID \<notin> fst ` set (eb_slots (eh_block t key))"
    and "local_depth (eh_block t key) < 30"
  shows "eh_ok (eh_split (eh_h t key) t) \<and>
    local_depth (eh_block (eh_split (eh_h t key) t) key) = local_depth (eh_block t key) + 1 \<and>
    (\<forall>k. k \<noteq> INVALID \<longrightarrow> eh_lookup (eh_split (eh_h t key) t) k = eh_lookup t k)"
  using eh_split_ok [OF assms(1), of "eh_h t key"] assms(2,3) by (simp add: eh_block_def)

text \<open>
  \<open>LSBUpdate\<close> for a block whose new depth is \<open>k + 1\<close> rewrites exactly the directory entries
  that agree with \<open>x\<close> on the low \<open>k\<close> bits, choosing the half by bit \<open>k\<close> of the entry's index.
\<close>

theorem LSBUpdate_correct:
  assumes "k + 1 \<le> gd" and "length d = 2 ^ gd" and "x < 2 ^ gd" and "i < 2 ^ gd"
  shows "LSBUpdate (k + 1) gd (2 ^ gd) x s d ! i =
    (if i mod 2 ^ k = x mod 2 ^ k then (if odd (i div 2 ^ k) then snd s else fst s) else d ! i)"
proof -
  obtain e where e: "gd = e + k + 1" using assms(1) by (metis add.assoc le_add_diff_inverse2)
  then show ?thesis
    using LSBUpdate_nth [of gd "k + 1" e i d x k s] assms
    by (simp add: lsb_group_def)
qed

section \<open>Powers and batches\<close>

lemma mypow_loop_eq: "mypow_loop b res e = res * b ^ e"
proof (induction b res e rule: mypow_loop.induct)
  case (1 b res e)
  show ?case
  proof (cases "e = 0")
    case False
    have "b ^ e = (b * b) ^ (e div 2) * (if odd e then b else 1)"
      by (cases "odd e") (auto elim!: oddE evenE simp: power_mult power2_eq_square power_add power_mult_distrib mult.commute)
    with 1 [OF False] False show ?thesis
      by (subst mypow_loop.simps) (auto simp: mult.assoc mult.left_commute dest: div_eq_0_iff [THEN iffD1])
  qed (subst mypow_loop.simps, simp)
qed

text \<open>
  \<open>mypow\<close> computes the power modulo 2^64 for bases that are not powers of two, and the
  power of two, or all ones from 2^64 on, for base 2.
\<close>

theorem mypow_correct:
  "(x = 0 \<or> x AND (x - 1) \<noteq> 0 \<longrightarrow> mypow x y = x ^ y) \<and>
   mypow 2 y = (if y < 64 then 2 ^ y else - 1)"
proof -
  have "x AND (x - 1) = 0" if "x = 2" for x :: u64 using that by simp
  then show ?thesis by (auto simp: mypow_def mypow_loop_eq push_bit_eq_mult)
qed

text \<open>A batch of puts is the map updated by the pairs in order.\<close>

lemma eh_keys_put:
  assumes "key \<noteq> INVALID" and "\<forall>k. k \<noteq> INVALID \<longrightarrow> eh_lookup t' k = ((eh_lookup t)(key \<mapsto> v)) k"
  shows "eh_keys t' = insert key (eh_keys t)"
  using assms by (auto simp: eh_keys_def split: if_splits)

definition batch_spread :: "nat \<Rightarrow> ehash \<Rightarrow> u64 set \<Rightarrow> bool" where
  "batch_spread D t ks \<longleftrightarrow> D \<le> 30 \<and> (\<forall>key \<in> ks.
     card {k \<in> ks \<union> eh_keys t. unat (eh_h t k) mod 2 ^ D = unat (eh_h t key) mod 2 ^ D} \<le> kNumSlot)"

lemma batch_spread_one: "batch_spread D t ks \<Longrightarrow> key \<in> ks \<Longrightarrow> eh_spread D t key"
  unfolding batch_spread_def eh_spread_def
  by (elim conjE bspec [elim_format])
     (auto elim!: order_trans [rotated] intro!: card_mono)

lemma put_all_ok:
  assumes "eh_ok t" and "INVALID \<notin> fst ` set kvs" and "batch_spread D t ks" and "fst ` set kvs \<subseteq> ks"
    and "D < fuel"
  shows "\<exists>t'. put_all fuel kvs t = Some t' \<and> eh_ok t' \<and> eh_h t' = eh_h t \<and>
    (\<forall>k. k \<noteq> INVALID \<longrightarrow> eh_lookup t' k = (eh_lookup t ++ map_of (rev kvs)) k)"
  using assms
proof (induction kvs arbitrary: t)
  case Nil
  then show ?case by (intro exI [of _ t]) simp
next
  case (Cons kv kvs)
  obtain key v where kv: "kv = (key, v)" by force
  have key: "key \<noteq> INVALID" "key \<in> ks" using Cons.prems(2,4) kv by auto
  obtain t1 where t1: "eh_Insert fuel key v t = Some t1" "eh_ok t1" "eh_h t1 = eh_h t"
    "\<forall>k. k \<noteq> INVALID \<longrightarrow> eh_lookup t1 k = ((eh_lookup t)(key \<mapsto> v)) k"
    using eh_Insert_ok [OF Cons.prems(1) key(1) batch_spread_one [OF Cons.prems(3) key(2)], of fuel v]
      Cons.prems(5) by auto
  have "ks \<union> eh_keys t1 = ks \<union> eh_keys t" using eh_keys_put [OF key(1) t1(4)] key(2) by auto
  then have "batch_spread D t1 ks" using Cons.prems(3) t1(3) by (simp add: batch_spread_def)
  with Cons.IH [OF t1(2) _ this] Cons.prems(2,4,5) kv obtain t' where
    t': "put_all fuel kvs t1 = Some t'" "eh_ok t'" "eh_h t' = eh_h t1"
    "\<forall>k. k \<noteq> INVALID \<longrightarrow> eh_lookup t' k = (eh_lookup t1 ++ map_of (rev kvs)) k" by auto
  have "eh_lookup t' k = (eh_lookup t ++ map_of (rev (kv # kvs))) k" if "k \<noteq> INVALID" for k
    using t'(4) t1(4) that by (auto simp: kv map_add_def split: option.splits)
  with t' t1(1,3) show ?case by (intro exI [of _ t']) (simp add: kv eh_Put_def)
qed

text \<open>
  After \<open>BatchPut\<close> of distinct keys, \<open>BatchGet\<close> of the same keys answers the values put.
\<close>

theorem eh_BatchPut_BatchGet:
  assumes "eh_ok t" and "keys \<noteq> []" and "distinct keys" and "INVALID \<notin> set keys"
    and "length pointers = length keys" and "batch_spread D t (set keys)" and "D < fuel"
  shows "\<exists>t'. eh_BatchPut fuel keys pointers t = Inr (Some t') \<and> eh_ok t' \<and>
    eh_BatchGet keys t' = Inr pointers \<and>
    (\<forall>k. k \<noteq> INVALID \<and> k \<notin> set keys \<longrightarrow> eh_Get k t' = eh_Get k t)"
proof -
  let ?kvs = "zip keys pointers"
  have fst: "map fst ?kvs = keys" using assms(5) by simp
  then have fsts: "fst ` set ?kvs = set keys" by (metis set_map)
  obtain t' where t': "put_all fuel ?kvs t = Some t'" "eh_ok t'"
    "\<forall>k. k \<noteq> INVALID \<longrightarrow> eh_lookup t' k = (eh_lookup t ++ map_of (rev ?kvs)) k"
    using put_all_ok [OF assms(1) _ assms(6) _ assms(7), of ?kvs] assms(4) fsts by auto
  have rev: "map_of (rev ?kvs) = map_of ?kvs"
    by (subst map_of_inject_set) (simp_all add: rev_map [symmetric] fst assms(3))
  have get: "eh_Get (keys ! i) t' = pointers ! i" if "i < length keys" for i
  proof -
    have "map_of ?kvs (keys ! i) = Some (pointers ! i)"
      using that assms(3,5) by (simp add: map_of_zip_nth)
    then have "eh_lookup t' (keys ! i) = Some (pointers ! i)"
      using t'(3) rev assms(4) that by (metis map_add_find_right nth_mem)
    then show ?thesis by (simp add: eh_Get_lookup)
  qed
  then have "map (\<lambda>k. eh_Get k t') keys = pointers"
    using assms(5) by (intro nth_equalityI) auto
  moreover have "eh_lookup t' k = eh_lookup t k" if "k \<noteq> INVALID" "k \<notin> set keys" for k
    using t'(3) that rev fsts by (simp add: map_add_def map_of_none split: option.split)
  ultimately show ?thesis
    using t'(1,2) assms(2) by (intro exI [of _ t']) (simp add: eh_BatchPut_def eh_BatchGet_def eh_Get_lookup)
qed

section \<open>Concrete tables\<close>

definition demo_table :: ehash where
  "demo_table = ExtendibleHash_new None id 0"

lemma demo_table_ok: "eh_ok demo_table" "k \<noteq> INVALID \<Longrightarrow> eh_lookup demo_table k = None" "eh_h demo_table = id"
  using eh_new_init [of None 0 id 0] by (auto simp: demo_table_def ExtendibleHash_new_def Let_def)

lemma demo_table_keys: "eh_keys demo_table = {}"
  unfolding eh_keys_def using demo_table_ok(2) by fastforce

lemma demo_keys_valid: "5 \<noteq> INVALID" "6 \<noteq> INVALID"
  by (simp_all add: INVALID_def)

lemma demo_spread: "eh_spread 0 demo_table 5" "batch_spread 0 demo_table (set [5, 6])"
proof -
  have "{k. k = (5 :: u64) \<or> k = 6} = {5, 6}" by auto
  then show "eh_spread 0 demo_table 5" "batch_spread 0 demo_table (set [5, 6])"
    by (simp_all add: eh_spread_def batch_spread_def demo_table_keys kNumSlot_def)
qed

theorem eh_Put_Get_witness:
  "\<exists>t'. eh_Put 1 5 77 demo_table = Some t' \<and> eh_ok t' \<and> eh_h t' = eh_h demo_table \<and> eh_Get 5 t' = 77 \<and>
     (\<forall>k. k \<noteq> INVALID \<and> k \<noteq> 5 \<longrightarrow> eh_Get k t' = eh_Get k demo_table)"
  by (rule eh_Put_Get [OF demo_table_ok(1) demo_keys_valid(1) demo_spread(1)]) simp

theorem eh_BatchPut_BatchGet_witness:
  "\<exists>t'. eh_BatchPut 1 [5, 6] [50, 60] demo_table = Inr (Some t') \<and> eh_ok t' \<and>
     eh_BatchGet [5, 6] t' = Inr [50, 60] \<and>
     (\<forall>k. k \<noteq> INVALID \<and> k \<notin> set [5, 6] \<longrightarrow> eh_Get k t' = eh_Get k demo_table)"
  by (rule eh_BatchPut_BatchGet [OF demo_table_ok(1)])
     (use demo_keys_valid demo_spread in auto)

theorem eh_Delete_correct_witness:
  "\<exists>t'. eh_Delete 5 demo_table = (t', eh_lookup demo_table 5 \<noteq> None) \<and> eh_ok t' \<and> eh_lookup t' 5 = None \<and>
     (\<forall>k. k \<noteq> INVALID \<and> k \<noteq> 5 \<longrightarrow> eh_lookup t' k = eh_lookup demo_table k)"
  by (rule eh_Delete_correct [OF demo_table_ok(1) demo_keys_valid(1)])

theorem eh_new_ok_witness:
  "eh_ok (ExtendibleHash_new (Some 4) id 0) \<and> eh_lookup (ExtendibleHash_new (Some 4) id 0) 5 = None"
  using eh_new_ok [of "Some 4" 2 id 0] demo_keys_valid by simp

text \<open>A block with the 16 keys 0 to 15, and the table that holds it.\<close>

definition full_table :: ehash where
  "full_table = eh_store 0 ((new_block 0 0)\<lparr>eb_slots := map (\<lambda>k. (of_nat k, 1)) [0..<16]\<rparr>) demo_table"

lemma full_table_ok: "eh_ok full_table" "INVALID \<notin> fst ` set (eb_slots (eh_block full_table 0))"
    "local_depth (eh_block full_table 0) = 0"
proof -
  let ?b = "(new_block 0 0)\<lparr>eb_slots := map (\<lambda>k. (of_nat k, 1)) [0..<16]\<rparr>"
  have target: "eh_target demo_table w = 0" for w
    by (simp add: demo_table_def ExtendibleHash_new_def Let_def eh_target_def eh_index_def eh_capacity_def)
  have blk: "eh_block full_table 0 = ?b"
    by (simp add: full_table_def eh_block_def target)
  have "block_ok id ?b"
    by (simp add: block_ok_def new_block_def kNumSlot_def upt_conv_Cons INVALID_def)
  moreover have "same_place (eh_heap demo_table 0) ?b"
    by (simp add: same_place_def demo_table_def ExtendibleHash_new_def Let_def new_block_def log2_floor.simps)
  ultimately show "eh_ok full_table"
    unfolding full_table_def using eh_store_ok [OF demo_table_ok(1)] demo_table_ok(3) by simp
  show "INVALID \<notin> fst ` set (eb_slots (eh_block full_table 0))"
    unfolding blk by (simp add: upt_conv_Cons INVALID_def)
  show "local_depth (eh_block full_table 0) = 0" unfolding blk by simp
qed

theorem eh_split_preserves_witness:
  "eh_ok (eh_split (eh_h full_table 0) full_table) \<and>
   local_depth (eh_block (eh_split (eh_h full_table 0) full_table) 0) = 1 \<and>
   eh_lookup (eh_split (eh_h full_table 0) full_table) 5 = eh_lookup full_table 5"
  using eh_split_preserves [OF full_table_ok(1,2)] full_table_ok(3) demo_keys_valid by simp

theorem LSBUpdate_correct_witness:
  "LSBUpdate (0 + 1) 2 (2 ^ 2) 1 (7, 9) [4, 4, 4, 4] ! 3 = 9"
  by (subst LSBUpdate_correct) simp_all

theorem mypow_correct_witness: "mypow 3 5 = 243 \<and> mypow 2 10 = 1024"
  using mypow_correct [of 3 5] mypow_correct [of 0 10] by simp

end
