(* ===== verification/EngineConfig.thy ===== *)
theory EngineConfig
  imports Prelude
begin

text \<open>
  Configuration of a KV engine: \<open>storage/kv_engine/engine_selector.h\<close>, which derives the
  engine from the media of index and value and completes the JSON configuration, and
  \<open>memory/allocators/allocator_factory.h\<close>, which normalises the two spellings of the
  allocator choice. A JSON object is a map from field names; the fields the code reads are
  strings, unsigned numbers and Booleans. A C++ exception is a \<^const>\<open>Throw\<close>.
\<close>

section \<open>JSON\<close>

datatype jval = JStr string | JNum u64 | JBool bool

type_synonym json = "string \<Rightarrow> jval option"

definition to_upper :: "char \<Rightarrow> char" where
  "to_upper c = (let n = of_char c :: nat in if 97 \<le> n \<and> n \<le> 122 then char_of (n - 32) else c)"

definition Upper :: "string \<Rightarrow> string" where
  "Upper s = map to_upper s"

fun as_string :: "jval \<Rightarrow> string result" where
  "as_string (JStr s) = Inr s"
| "as_string v = Inl (Throw ''type_error'')"

text \<open>\<open>get<uint64_t>\<close> also converts a Boolean.\<close>

fun as_u64 :: "jval \<Rightarrow> u64 result" where
  "as_u64 (JNum n) = Inr n"
| "as_u64 (JBool b) = Inr (if b then 1 else 0)"
| "as_u64 (JStr s) = Inl (Throw ''type_error'')"

definition contains :: "json \<Rightarrow> string \<Rightarrow> bool" where
  "contains j k = (j k \<noteq> None)"

definition at :: "json \<Rightarrow> string \<Rightarrow> jval result" where
  "at j k = (case j k of None \<Rightarrow> Inl (Throw ''out_of_range'') | Some v \<Rightarrow> Inr v)"

definition at_string :: "json \<Rightarrow> string \<Rightarrow> string result" where
  "at_string j k = bind_result (at j k) as_string"

definition at_u64 :: "json \<Rightarrow> string \<Rightarrow> u64 result" where
  "at_u64 j k = bind_result (at j k) as_u64"

definition value_string :: "json \<Rightarrow> string \<Rightarrow> string \<Rightarrow> string result" where
  "value_string j k d = (case j k of None \<Rightarrow> Inr d | Some v \<Rightarrow> as_string v)"

definition throw :: "string \<Rightarrow> 'a result" where
  "throw s = Inl (Throw s)"

section \<open>Allocator choice\<close>

definition ImplFromAllocatorType :: "string \<Rightarrow> string result" where
  "ImplFromAllocatorType allocator_type =
     (let t = Upper allocator_type in
      if t = ''PERSIST_LOOP_SLAB'' \<or> t = ''PERSIST_LOOP_SHM_MALLOC'' \<or> t = ''PERSISTLOOPSHMMALLOC''
      then Inr ''PERSIST_LOOP_SLAB''
      else if t = ''R2_SLAB'' \<or> t = ''R2_SHM_MALLOC'' \<or> t = ''R2SHMMALLOC'' then Inr ''R2_SLAB''
      else throw (''unknown allocator_type: '' @ allocator_type))"

definition AllocatorTypeFromImpl :: "string \<Rightarrow> string result" where
  "AllocatorTypeFromImpl impl_name =
     (let t = Upper impl_name in
      if t = ''PERSISTLOOPSHMMALLOC'' \<or> t = ''PERSIST_LOOP_SLAB'' then Inr ''PERSIST_LOOP_SLAB''
      else if t = ''R2SHMMALLOC'' \<or> t = ''R2_SLAB'' then Inr ''R2_SLAB''
      else throw (''unknown allocator impl: '' @ impl_name))"

definition LegacyImplFromAllocatorType :: "string \<Rightarrow> string result" where
  "LegacyImplFromAllocatorType allocator_type =
     (let t = Upper allocator_type in
      if t = ''PERSIST_LOOP_SLAB'' then Inr ''PersistLoopShmMalloc''
      else if t = ''R2_SLAB'' then Inr ''R2ShmMalloc''
      else throw (''unknown allocator_type: '' @ allocator_type))"

definition set_allocator :: "json \<Rightarrow> string \<Rightarrow> json result" where
  "set_allocator j type =
     bind_result (LegacyImplFromAllocatorType type) (\<lambda>impl.
       Inr (j(''allocator_type'' \<mapsto> JStr type, ''value_memory_management'' \<mapsto> JStr impl)))"

definition NormalizeAllocatorConfig :: "json \<Rightarrow> json result" where
  "NormalizeAllocatorConfig j =
     (let has_impl = contains j ''value_memory_management''; has_type = contains j ''allocator_type'' in
      if has_impl \<and> has_type then
        bind_result (bind_result (at_string j ''value_memory_management'') AllocatorTypeFromImpl)
          (\<lambda>type_from_impl.
        bind_result (bind_result (at_string j ''allocator_type'') AllocatorTypeFromImpl)
          (\<lambda>type_from_type.
        if type_from_impl \<noteq> type_from_type
        then throw ''allocator_type conflicts with value_memory_management''
        else set_allocator j type_from_type))
      else if has_type then
        bind_result (bind_result (at_string j ''allocator_type'') AllocatorTypeFromImpl) (set_allocator j)
      else if has_impl then
        bind_result (bind_result (at_string j ''value_memory_management'') AllocatorTypeFromImpl)
          (set_allocator j)
      else Inr (j(''allocator_type'' \<mapsto> JStr ''PERSIST_LOOP_SLAB'',
                  ''value_memory_management'' \<mapsto> JStr ''PersistLoopShmMalloc'')))"

definition ResolveAllocatorImpl :: "json \<Rightarrow> string result" where
  "ResolveAllocatorImpl j =
     bind_result (NormalizeAllocatorConfig j) (\<lambda>copy.
       bind_result (at_string copy ''allocator_type'') ImplFromAllocatorType)"

section \<open>Engine choice\<close>

definition CanonicalizeAlias :: "string \<Rightarrow> string \<Rightarrow> json \<Rightarrow> json result" where
  "CanonicalizeAlias lhs rhs j =
     (case (j lhs, j rhs) of
        (Some a, Some b) \<Rightarrow>
          if a \<noteq> b then throw (lhs @ '' conflicts with alias '' @ rhs) else Inr j
      | (None, Some b) \<Rightarrow> Inr (j(lhs \<mapsto> b))
      | (Some a, None) \<Rightarrow> Inr (j(rhs \<mapsto> a))
      | (None, None) \<Rightarrow> Inr j)"

definition aliases :: "(string \<times> string) list" where
  "aliases = [(''path'', ''DATA_DIR''), (''index_type'', ''index_medium''), (''value_type'', ''value_medium''),
     (''capacity'', ''ENTRY_CAPACITY''), (''value_size'', ''VALUE_SIZE_BYTES''), (''shmcapacity'', ''DRAM_SIZE''),
     (''ssdcapacity'', ''SSD_SIZE''), (''queue_cnt'', ''IO_QUEUE_COUNT'')]"

fun canonicalize_all :: "(string \<times> string) list \<Rightarrow> json \<Rightarrow> json result" where
  "canonicalize_all [] j = Inr j"
| "canonicalize_all ((lhs, rhs) # as) j =
     bind_result (CanonicalizeAlias lhs rhs j) (canonicalize_all as)"

text \<open>The media, upper-cased and written back under both names.\<close>

definition resolve_media :: "json \<Rightarrow> (json \<times> string \<times> string) result" where
  "resolve_media j =
     bind_result (value_string j ''index_type'' ''DRAM'') (\<lambda>i.
     bind_result (value_string j ''value_type'' '''') (\<lambda>v.
       let idx = Upper i; val = Upper v in
       if val = '''' then throw ''value_type is required (DRAM/SSD/HYBRID)''
       else
         let idx = (if idx = ''DRAM/SSD'' then ''DRAM'' else idx) in
         Inr (j(''index_type'' \<mapsto> JStr idx, ''index_medium'' \<mapsto> JStr idx,
                ''value_type'' \<mapsto> JStr val, ''value_medium'' \<mapsto> JStr val), idx, val)))"

definition resolve_mode :: "string \<Rightarrow> string \<Rightarrow> json \<Rightarrow> json result" where
  "resolve_mode idx val j =
     (let mode_explicit = contains j ''mode'' in
      bind_result (value_string j ''mode'' (if val = ''HYBRID'' then ''DYNAMIC'' else ''STATIC'')) (\<lambda>m.
        let mode = Upper m;
            static_ok = (idx = ''DRAM'' \<and> (val = ''DRAM'' \<or> val = ''SSD'') \<or> idx = ''SSD'' \<and> val = ''SSD'');
            dynamic_ok = ((idx = ''DRAM'' \<or> idx = ''SSD'') \<and> val = ''HYBRID'') in
        if mode \<noteq> ''STATIC'' \<and> mode \<noteq> ''DYNAMIC'' then throw ''mode must be STATIC or DYNAMIC''
        else if mode_explicit \<and> mode = ''STATIC'' \<and> \<not> static_ok
        then throw ''STATIC mode supports only: (DRAM,DRAM), (DRAM,SSD), (SSD,SSD)''
        else if mode_explicit \<and> mode = ''DYNAMIC'' \<and> \<not> dynamic_ok
        then throw ''DYNAMIC mode supports only HYBRID value with DRAM/SSD index''
        else Inr (j(''mode'' \<mapsto> JStr mode))))"

definition resolve_hybrid :: "string \<Rightarrow> json \<Rightarrow> (json \<times> string) result" where
  "resolve_hybrid idx j =
     (if idx \<noteq> ''DRAM'' \<and> idx \<noteq> ''SSD'' then throw ''HYBRID value currently supports DRAM/SSD index''
      else case (j ''shmcapacity'', j ''ssdcapacity'') of
        (Some a, Some b) \<Rightarrow>
          let j1 = j(''DRAM_SIZE'' \<mapsto> a, ''SSD_SIZE'' \<mapsto> b) in
          Inr (if contains j1 ''cache_policy'' then j1 else j1(''cache_policy'' \<mapsto> JStr ''LRU''),
               ''KVEngineHybrid'')
      | _ \<Rightarrow> throw ''HYBRID requires DRAM_SIZE/SSD_SIZE (or legacy shmcapacity/ssdcapacity)'')"

text \<open>The byte budget of the value medium, 0 where it is not given.\<close>

definition bytes_budget :: "string \<Rightarrow> json \<Rightarrow> u64 result" where
  "bytes_budget val j =
     (if val = ''DRAM'' \<and> contains j ''DRAM_SIZE'' then at_u64 j ''DRAM_SIZE''
      else if val = ''SSD'' \<and> contains j ''SSD_SIZE'' then at_u64 j ''SSD_SIZE''
      else Inr 0)"

definition infer_capacity :: "string \<Rightarrow> u64 \<Rightarrow> json \<Rightarrow> json result" where
  "infer_capacity val value_size j =
     (if contains j ''capacity'' then Inr j
      else bind_result (bytes_budget val j) (\<lambda>budget.
        if budget = 0
        then throw ''Non-HYBRID requires ENTRY_CAPACITY (legacy capacity) or DRAM_SIZE/SSD_SIZE to infer it''
        else Inr (j(''capacity'' \<mapsto> JNum (max 1 (budget div value_size))))))"

text \<open>\<open>j[k] = capacity * value_size\<close>, a 64-bit product, where the medium is \<open>val\<close> and \<open>k\<close> is missing.\<close>

definition default_size :: "string \<Rightarrow> string \<Rightarrow> string \<Rightarrow> json \<Rightarrow> json result" where
  "default_size medium k val j =
     (if val = medium \<and> \<not> contains j k then
        bind_result (at_u64 j ''capacity'') (\<lambda>c.
        bind_result (at_u64 j ''value_size'') (\<lambda>v. Inr (j(k \<mapsto> JNum (c * v)))))
      else Inr j)"

definition resolve_fixed :: "string \<Rightarrow> string \<Rightarrow> json \<Rightarrow> (json \<times> string) result" where
  "resolve_fixed idx val j =
     (if idx \<noteq> ''DRAM'' \<and> idx \<noteq> ''SSD'' then throw ''index_type must be DRAM or SSD''
      else if \<not> contains j ''value_size''
      then throw ''Non-HYBRID requires VALUE_SIZE_BYTES (or legacy value_size)''
      else bind_result (at_u64 j ''value_size'') (\<lambda>value_size.
        if value_size = 0 then throw ''value_size must be > 0''
        else
          bind_result (infer_capacity val value_size j) (\<lambda>j1.
          bind_result (default_size ''DRAM'' ''DRAM_SIZE'' val
                         (j1(''shmcapacity'' := None, ''ssdcapacity'' := None))) (\<lambda>j2.
          bind_result (default_size ''SSD'' ''SSD_SIZE'' val j2) (\<lambda>j3.
            Inr (j3, if idx = ''DRAM'' then ''KVEngineExtendibleHash'' else ''KVEngineCCEH''))))))"

definition resolve_engine_type :: "string \<Rightarrow> string \<Rightarrow> json \<Rightarrow> (json \<times> string) result" where
  "resolve_engine_type idx val j =
     (if val = ''HYBRID'' then resolve_hybrid idx j
      else if val = ''DRAM'' \<or> val = ''SSD'' then resolve_fixed idx val j
      else throw ''value_type must be DRAM/SSD/HYBRID'')"

definition set_default :: "string \<Rightarrow> jval \<Rightarrow> json \<Rightarrow> json" where
  "set_default k v j = (if contains j k then j else j(k \<mapsto> v))"

definition ssd_defaults :: "string \<Rightarrow> json \<Rightarrow> json result" where
  "ssd_defaults idx j =
     (if idx = ''SSD'' then
        let j1 = set_default ''page_id_offset'' (JNum 0)
                   (set_default ''queue_cnt'' (JNum 512)
                     (set_default ''io_backend_type'' (JStr ''IOURING'') j)) in
        if \<not> contains j1 ''file_path'' \<and> contains j1 ''path'' then
          bind_result (at_string j1 ''path'') (\<lambda>p. Inr (j1(''file_path'' \<mapsto> JStr (p @ ''/index_cceh.db''))))
        else Inr j1
      else Inr j)"

definition resolve_layout :: "string \<Rightarrow> json \<Rightarrow> json result" where
  "resolve_layout val j =
     bind_result (value_string j ''value_layout'' (if val = ''HYBRID'' then ''VARIABLE'' else ''FIXED'')) (\<lambda>l.
       let value_layout = Upper l in
       if value_layout \<noteq> ''FIXED'' \<and> value_layout \<noteq> ''VARIABLE''
       then throw ''value_layout must be FIXED or VARIABLE''
       else if value_layout = ''VARIABLE'' \<and> val \<noteq> ''HYBRID''
       then throw ''VARIABLE value_layout is only supported by ValueManager (HYBRID mode)''
       else Inr (j(''value_layout'' \<mapsto> JStr value_layout,
                   ''variable_value_enable'' \<mapsto> JBool (value_layout = ''VARIABLE''))))"

definition check_engine_type :: "string \<Rightarrow> json \<Rightarrow> json result" where
  "check_engine_type engine j =
     (case j ''engine_type'' of
        None \<Rightarrow> Inr (j(''engine_type'' \<mapsto> JStr engine))
      | Some v \<Rightarrow> bind_result (as_string v) (\<lambda>e.
          if Upper e \<noteq> Upper engine
          then throw ''engine_type conflicts with (index_type,value_type) deduction''
          else Inr (j(''engine_type'' \<mapsto> JStr engine))))"

definition ResolveEngine :: "json \<Rightarrow> (string \<times> json) result" where
  "ResolveEngine j =
     bind_result (canonicalize_all aliases j) (\<lambda>j1.
     bind_result (NormalizeAllocatorConfig j1) (\<lambda>j2.
     bind_result (resolve_media j2) (\<lambda>(j3, idx, val).
     bind_result (resolve_mode idx val j3) (\<lambda>j4.
     bind_result (resolve_engine_type idx val j4) (\<lambda>(j5, engine).
     bind_result (ssd_defaults idx j5) (\<lambda>j6.
     bind_result (resolve_layout val j6) (\<lambda>j7.
     bind_result (check_engine_type engine j7) (\<lambda>j8. Inr (engine, j8)))))))))"

section \<open>Stages: what each leaves alone and what it sets\<close>

definition changes :: "string set \<Rightarrow> json \<Rightarrow> json \<Rightarrow> bool" where
  "changes K j j' \<longleftrightarrow> (\<forall>k. k \<notin> K \<longrightarrow> j' k = j k)"

lemma changesD: "changes K j j' \<Longrightarrow> k \<notin> K \<Longrightarrow> j' k = j k"
  by (simp add: changes_def)

lemma Upper_idem [simp]: "Upper (Upper s) = Upper s"
proof -
  have "to_upper (to_upper c) = to_upper c" for c
    by (auto simp: to_upper_def Let_def)
  then show ?thesis by (simp add: Upper_def)
qed

lemma Upper_literals [simp]:
  "Upper ''DRAM'' = ''DRAM''" "Upper ''SSD'' = ''SSD''" "Upper ''HYBRID'' = ''HYBRID''"
  "Upper ''STATIC'' = ''STATIC''" "Upper ''DYNAMIC'' = ''DYNAMIC''"
  "Upper ''FIXED'' = ''FIXED''" "Upper ''VARIABLE'' = ''VARIABLE''"
  "Upper ''PERSIST_LOOP_SLAB'' = ''PERSIST_LOOP_SLAB''" "Upper ''R2_SLAB'' = ''R2_SLAB''"
  "Upper ''PersistLoopShmMalloc'' = ''PERSISTLOOPSHMMALLOC''" "Upper ''R2ShmMalloc'' = ''R2SHMMALLOC''"
  by code_simp+

text \<open>The allocator choice in normal form: one of the two names, and its class.\<close>

definition allocator_normal :: "json \<Rightarrow> bool" where
  "allocator_normal j \<longleftrightarrow>
     j ''allocator_type'' = Some (JStr ''PERSIST_LOOP_SLAB'') \<and>
     j ''value_memory_management'' = Some (JStr ''PersistLoopShmMalloc'') \<or>
     j ''allocator_type'' = Some (JStr ''R2_SLAB'') \<and>
     j ''value_memory_management'' = Some (JStr ''R2ShmMalloc'')"

lemma AllocatorTypeFromImpl_range:
  "AllocatorTypeFromImpl s = Inr t \<Longrightarrow> t = ''PERSIST_LOOP_SLAB'' \<or> t = ''R2_SLAB''"
  by (auto simp: AllocatorTypeFromImpl_def throw_def Let_def split: if_splits)

lemma AllocatorTypeFromImpl_literals [simp]:
  "AllocatorTypeFromImpl ''PERSIST_LOOP_SLAB'' = Inr ''PERSIST_LOOP_SLAB''"
  "AllocatorTypeFromImpl ''R2_SLAB'' = Inr ''R2_SLAB''"
  "AllocatorTypeFromImpl ''PersistLoopShmMalloc'' = Inr ''PERSIST_LOOP_SLAB''"
  "AllocatorTypeFromImpl ''R2ShmMalloc'' = Inr ''R2_SLAB''"
  by (simp_all add: AllocatorTypeFromImpl_def)

lemma set_allocator_normal:
  assumes "t = ''PERSIST_LOOP_SLAB'' \<or> t = ''R2_SLAB''"
  shows "\<exists>j'. set_allocator j t = Inr j' \<and> allocator_normal j' \<and>
    changes {''allocator_type'', ''value_memory_management''} j j' \<and>
    j' ''allocator_type'' = Some (JStr t)"
  using assms by (auto simp: set_allocator_def LegacyImplFromAllocatorType_def allocator_normal_def changes_def)

lemma NormalizeAllocatorConfig_ok:
  assumes "NormalizeAllocatorConfig j = Inr j'"
  shows "allocator_normal j'" and "changes {''allocator_type'', ''value_memory_management''} j j'"
proof -
  let ?G = "allocator_normal j' \<and> changes {''allocator_type'', ''value_memory_management''} j j'"
  have step: ?G if "AllocatorTypeFromImpl s = Inr t" "set_allocator j t = Inr j'" for s t
    using set_allocator_normal [OF AllocatorTypeFromImpl_range [OF that(1)], of j] that(2) by auto
  consider (both) "contains j ''value_memory_management''" "contains j ''allocator_type''"
    | (type) "\<not> contains j ''value_memory_management''" "contains j ''allocator_type''"
    | (impl) "contains j ''value_memory_management''" "\<not> contains j ''allocator_type''"
    | (none) "\<not> contains j ''value_memory_management''" "\<not> contains j ''allocator_type''"
    by blast
  then have ?G
  proof cases
    case both
    have "NormalizeAllocatorConfig j =
        bind_result (bind_result (at_string j ''value_memory_management'') AllocatorTypeFromImpl) (\<lambda>a.
        bind_result (bind_result (at_string j ''allocator_type'') AllocatorTypeFromImpl) (\<lambda>b.
          if a \<noteq> b then throw ''allocator_type conflicts with value_memory_management''
          else set_allocator j b))"
      unfolding NormalizeAllocatorConfig_def Let_def using both by (simp only: simp_thms if_True)
    note run = assms [unfolded this]
    obtain a where a: "bind_result (bind_result (at_string j ''allocator_type'') AllocatorTypeFromImpl) (\<lambda>b.
          if a \<noteq> b then throw ''allocator_type conflicts with value_memory_management''
          else set_allocator j b) = Inr j'"
      using run by (rule bind_result_InrE)
    obtain b where b: "bind_result (at_string j ''allocator_type'') AllocatorTypeFromImpl = Inr b"
      "(if a \<noteq> b then throw ''allocator_type conflicts with value_memory_management''
        else set_allocator j b) = Inr j'"
      using a by (rule bind_result_InrE)
    have "set_allocator j b = Inr j'" using b(2) by (cases "a = b") (simp_all add: throw_def)
    with b(1) step show ?thesis by (auto elim!: bind_result_InrE)
  next
    case type
    have "NormalizeAllocatorConfig j =
        bind_result (bind_result (at_string j ''allocator_type'') AllocatorTypeFromImpl) (set_allocator j)"
      unfolding NormalizeAllocatorConfig_def Let_def using type by (simp only: simp_thms if_True if_False)
    with assms step show ?thesis by (auto elim!: bind_result_InrE)
  next
    case impl
    have "NormalizeAllocatorConfig j =
        bind_result (bind_result (at_string j ''value_memory_management'') AllocatorTypeFromImpl) (set_allocator j)"
      unfolding NormalizeAllocatorConfig_def Let_def using impl by (simp only: simp_thms if_True if_False)
    with assms step show ?thesis by (auto elim!: bind_result_InrE)
  next
  case none
    with assms show ?thesis
      by (auto simp: NormalizeAllocatorConfig_def Let_def allocator_normal_def changes_def)
  qed
  then show "allocator_normal j'" "changes {''allocator_type'', ''value_memory_management''} j j'" by auto
qed

lemma NormalizeAllocatorConfig_normal:
  assumes "allocator_normal j"
  shows "NormalizeAllocatorConfig j = Inr j"
  using assms
  by (auto simp: NormalizeAllocatorConfig_def allocator_normal_def contains_def at_string_def at_def
      set_allocator_def LegacyImplFromAllocatorType_def fun_upd_idem)

text \<open>Aliases: after the pass both names of a pair hold the same, and nothing else has changed.\<close>

definition alias_ok :: "json \<Rightarrow> string \<times> string \<Rightarrow> bool" where
  "alias_ok j p \<longleftrightarrow> j (fst p) = None \<or> j (snd p) = None \<or> j (fst p) = j (snd p)"

definition alias_value :: "json \<Rightarrow> string \<times> string \<Rightarrow> jval option" where
  "alias_value j p = (if j (fst p) = None then j (snd p) else j (fst p))"

lemma canonicalize_step:
  assumes "l \<noteq> r" and "CanonicalizeAlias l r j = Inr j'"
  shows "changes {l, r} j j'" and "j' l = alias_value j (l, r)" and "j' r = alias_value j (l, r)"
  using assms
  by (cases "j l"; cases "j r"; auto simp: CanonicalizeAlias_def alias_value_def changes_def throw_def
      split: if_splits)+

lemma canonicalize_total:
  assumes "alias_ok j (l, r)"
  shows "\<exists>j'. CanonicalizeAlias l r j = Inr j'"
  using assms by (cases "j l"; cases "j r"; simp add: CanonicalizeAlias_def alias_ok_def)

definition alias_keys :: "(string \<times> string) list \<Rightarrow> string list" where
  "alias_keys as = concat (map (\<lambda>(l, r). [l, r]) as)"

text \<open>Inversion of the stages.\<close>

lemma throw_not_Inr [simp]: "throw s \<noteq> Inr x" "(throw s = Inl e) = (e = Throw s)"
  by (auto simp: throw_def)

lemma resolve_media_ok:
  assumes "resolve_media j = Inr (j', idx, val)"
  shows "changes {''index_type'', ''index_medium'', ''value_type'', ''value_medium''} j j'"
    and "Upper idx = idx" and "Upper val = val" and "val \<noteq> ''''" and "idx \<noteq> ''DRAM/SSD''"
    and "j' ''index_type'' = Some (JStr idx) \<and> j' ''index_medium'' = Some (JStr idx)"
    and "j' ''value_type'' = Some (JStr val) \<and> j' ''value_medium'' = Some (JStr val)"
  using assms
  by (auto simp: resolve_media_def Let_def changes_def elim!: bind_result_InrE split: if_splits)

definition mode_fits :: "string \<Rightarrow> string \<Rightarrow> string \<Rightarrow> bool" where
  "mode_fits idx val m \<longleftrightarrow>
     m = ''STATIC'' \<and> (idx = ''DRAM'' \<and> (val = ''DRAM'' \<or> val = ''SSD'') \<or> idx = ''SSD'' \<and> val = ''SSD'') \<or>
     m = ''DYNAMIC'' \<and> (idx = ''DRAM'' \<or> idx = ''SSD'') \<and> val = ''HYBRID''"

lemma resolve_mode_ok:
  assumes "resolve_mode idx val j = Inr j'"
  shows "changes {''mode''} j j'"
    and "\<exists>m. j' ''mode'' = Some (JStr m) \<and>
      (mode_fits idx val m \<or> m = (if val = ''HYBRID'' then ''DYNAMIC'' else ''STATIC''))"
proof -
  from assms obtain m0 where m0: "value_string j ''mode'' (if val = ''HYBRID'' then ''DYNAMIC'' else ''STATIC'') = Inr m0"
    unfolding resolve_mode_def Let_def by (rule bind_result_InrE)
  let ?m = "Upper m0"
  have j': "j' = j(''mode'' \<mapsto> JStr ?m)" and fit: "contains j ''mode'' \<Longrightarrow> mode_fits idx val ?m"
    using assms m0 by (auto simp: resolve_mode_def mode_fits_def Let_def split: if_splits)
  show "changes {''mode''} j j'" by (simp add: changes_def j')
  have d: "contains j ''mode'' \<or> ?m = (if val = ''HYBRID'' then ''DYNAMIC'' else ''STATIC'')"
    using m0 by (cases "j ''mode''") (auto simp: value_string_def contains_def split: if_splits)
  have "mode_fits idx val ?m \<or> ?m = (if val = ''HYBRID'' then ''DYNAMIC'' else ''STATIC'')"
    using d fit by blast
  moreover have "j' ''mode'' = Some (JStr ?m)" by (simp add: j')
  ultimately show "\<exists>m. j' ''mode'' = Some (JStr m) \<and>
      (mode_fits idx val m \<or> m = (if val = ''HYBRID'' then ''DYNAMIC'' else ''STATIC''))"
    by blast
qed

lemma resolve_hybrid_ok:
  assumes "resolve_hybrid idx j = Inr (j', engine)"
  shows "changes {''DRAM_SIZE'', ''SSD_SIZE'', ''cache_policy''} j j'" and "engine = ''KVEngineHybrid''"
    and "idx = ''DRAM'' \<or> idx = ''SSD''" and "contains j' ''shmcapacity'' \<and> contains j' ''ssdcapacity''"
    and "j' ''DRAM_SIZE'' = j' ''shmcapacity'' \<and> j' ''SSD_SIZE'' = j' ''ssdcapacity''"
    and "contains j' ''cache_policy''"
  using assms
  by (auto simp: resolve_hybrid_def Let_def changes_def contains_def split: if_splits option.splits)

lemma infer_capacity_ok:
  assumes "infer_capacity val v j = Inr j'"
  shows "changes {''capacity''} j j'" and "contains j' ''capacity''"
    and "contains j ''capacity'' \<Longrightarrow> j' = j"
  using assms by (auto simp: infer_capacity_def changes_def contains_def elim!: bind_result_InrE split: if_splits)

lemma default_size_ok:
  assumes "default_size medium k val j = Inr j'"
  shows "changes {k} j j'" and "val = medium \<Longrightarrow> contains j' k" and "val \<noteq> medium \<Longrightarrow> j' = j"
  using assms by (auto simp: default_size_def changes_def contains_def elim!: bind_result_InrE split: if_splits)

lemma resolve_fixed_ok:
  assumes "resolve_fixed idx val j = Inr (j', engine)"
  shows "changes {''capacity'', ''shmcapacity'', ''ssdcapacity'', ''DRAM_SIZE'', ''SSD_SIZE''} j j'"
    and "engine = (if idx = ''DRAM'' then ''KVEngineExtendibleHash'' else ''KVEngineCCEH'')"
    and "idx = ''DRAM'' \<or> idx = ''SSD''"
    and "\<exists>v. at_u64 j ''value_size'' = Inr v \<and> v \<noteq> 0" and "contains j' ''capacity''"
    and "contains j ''capacity'' \<Longrightarrow> j' ''capacity'' = j ''capacity''"
    and "\<not> contains j' ''shmcapacity'' \<and> \<not> contains j' ''ssdcapacity''"
    and "val = ''DRAM'' \<Longrightarrow> contains j' ''DRAM_SIZE''" and "val = ''SSD'' \<Longrightarrow> contains j' ''SSD_SIZE''"
proof -
  have idx: "idx = ''DRAM'' \<or> idx = ''SSD''" and vs: "contains j ''value_size''"
    using assms unfolding resolve_fixed_def by (metis throw_not_Inr(1))+
  have r: "bind_result (at_u64 j ''value_size'') (\<lambda>value_size.
        if value_size = 0 then throw ''value_size must be > 0''
        else
          bind_result (infer_capacity val value_size j) (\<lambda>j1.
          bind_result (default_size ''DRAM'' ''DRAM_SIZE'' val
                         (j1(''shmcapacity'' := None, ''ssdcapacity'' := None))) (\<lambda>j2.
          bind_result (default_size ''SSD'' ''SSD_SIZE'' val j2) (\<lambda>j3.
            Inr (j3, if idx = ''DRAM'' then ''KVEngineExtendibleHash'' else ''KVEngineCCEH''))))) =
        Inr (j', engine)"
    using assms idx vs unfolding resolve_fixed_def by (auto split: if_splits)
  from r obtain v where v: "at_u64 j ''value_size'' = Inr v" and r1: "(if v = 0 then throw ''value_size must be > 0''
        else
          bind_result (infer_capacity val v j) (\<lambda>j1.
          bind_result (default_size ''DRAM'' ''DRAM_SIZE'' val
                         (j1(''shmcapacity'' := None, ''ssdcapacity'' := None))) (\<lambda>j2.
          bind_result (default_size ''SSD'' ''SSD_SIZE'' val j2) (\<lambda>j3.
            Inr (j3, if idx = ''DRAM'' then ''KVEngineExtendibleHash'' else ''KVEngineCCEH''))))) =
        Inr (j', engine)"
    by (rule bind_result_InrE)
  from r1 have v0: "v \<noteq> 0" by (auto split: if_splits)
  with r1 obtain j1 j2 where j1: "infer_capacity val v j = Inr j1"
    and j2: "default_size ''DRAM'' ''DRAM_SIZE'' val (j1(''shmcapacity'' := None, ''ssdcapacity'' := None)) = Inr j2"
    and j3: "default_size ''SSD'' ''SSD_SIZE'' val j2 = Inr j'"
    and e: "engine = (if idx = ''DRAM'' then ''KVEngineExtendibleHash'' else ''KVEngineCCEH'')"
    by (auto elim!: bind_result_InrE)
  note a = infer_capacity_ok [OF j1] and b = default_size_ok [OF j2] and c = default_size_ok [OF j3]
  show "engine = (if idx = ''DRAM'' then ''KVEngineExtendibleHash'' else ''KVEngineCCEH'')" by (rule e)
  show "idx = ''DRAM'' \<or> idx = ''SSD''" by (rule idx)
  show "\<exists>v. at_u64 j ''value_size'' = Inr v \<and> v \<noteq> 0" using v v0 by blast
  show "changes {''capacity'', ''shmcapacity'', ''ssdcapacity'', ''DRAM_SIZE'', ''SSD_SIZE''} j j'"
    using a(1) b(1) c(1) by (simp add: changes_def)
  show "contains j' ''capacity''" using a(2) b(1) c(1) by (simp add: changes_def contains_def)
  show "j' ''capacity'' = j ''capacity''" if "contains j ''capacity''"
    using a(3) [OF that] b(1) c(1) by (simp add: changes_def)
  show "\<not> contains j' ''shmcapacity'' \<and> \<not> contains j' ''ssdcapacity''"
    using b(1) c(1) by (simp add: changes_def contains_def)
  show "val = ''DRAM'' \<Longrightarrow> contains j' ''DRAM_SIZE''" using b(2) c(1) by (simp add: changes_def contains_def)
  show "val = ''SSD'' \<Longrightarrow> contains j' ''SSD_SIZE''" using c(2) by simp
qed

lemma ssd_defaults_ok:
  assumes "ssd_defaults idx j = Inr j'"
  shows "changes {''io_backend_type'', ''queue_cnt'', ''page_id_offset'', ''file_path''} j j'"
    and "idx = ''SSD'' \<Longrightarrow> contains j' ''io_backend_type'' \<and> contains j' ''queue_cnt'' \<and>
      contains j' ''page_id_offset'' \<and> (contains j' ''path'' \<longrightarrow> contains j' ''file_path'')"
    and "contains j ''queue_cnt'' \<Longrightarrow> j' ''queue_cnt'' = j ''queue_cnt''"
  using assms
  by (auto simp: ssd_defaults_def set_default_def Let_def changes_def contains_def elim!: bind_result_InrE
      split: if_splits)

lemma resolve_layout_ok:
  assumes "resolve_layout val j = Inr j'"
  shows "changes {''value_layout'', ''variable_value_enable''} j j'"
    and "\<exists>l. j' ''value_layout'' = Some (JStr l) \<and> Upper l = l \<and> (l = ''FIXED'' \<or> l = ''VARIABLE'') \<and>
      (l = ''VARIABLE'' \<longrightarrow> val = ''HYBRID'') \<and> j' ''variable_value_enable'' = Some (JBool (l = ''VARIABLE''))"
  using assms
  by (auto simp: resolve_layout_def Let_def changes_def elim!: bind_result_InrE split: if_splits)

lemma check_engine_type_ok:
  assumes "check_engine_type engine j = Inr j'"
  shows "changes {''engine_type''} j j'" and "j' ''engine_type'' = Some (JStr engine)"
  using assms
  by (auto simp: check_engine_type_def changes_def elim!: bind_result_InrE split: if_splits option.splits)

section \<open>The resolved configuration\<close>

lemma ResolveEngine_stages:
  assumes "ResolveEngine j = Inr (engine, j8)"
  obtains j1 j2 j3 j4 j5 j6 j7 idx val
  where "canonicalize_all aliases j = Inr j1" "NormalizeAllocatorConfig j1 = Inr j2"
    "resolve_media j2 = Inr (j3, idx, val)" "resolve_mode idx val j3 = Inr j4"
    "resolve_engine_type idx val j4 = Inr (j5, engine)" "ssd_defaults idx j5 = Inr j6"
    "resolve_layout val j6 = Inr j7" "check_engine_type engine j7 = Inr j8"
  using assms unfolding ResolveEngine_def by (auto elim!: bind_result_InrE intro: that)

text \<open>What the constructors of the engines read from the configuration.\<close>

definition engine_for :: "string \<Rightarrow> string \<Rightarrow> string" where
  "engine_for idx val =
     (if val = ''HYBRID'' then ''KVEngineHybrid''
      else if idx = ''DRAM'' then ''KVEngineExtendibleHash'' else ''KVEngineCCEH'')"

definition media_of :: "json \<Rightarrow> string \<Rightarrow> string \<Rightarrow> bool" where
  "media_of j idx val \<longleftrightarrow>
     j ''index_type'' = Some (JStr idx) \<and> j ''index_medium'' = Some (JStr idx) \<and>
     j ''value_type'' = Some (JStr val) \<and> j ''value_medium'' = Some (JStr val) \<and>
     (idx = ''DRAM'' \<or> idx = ''SSD'') \<and> (val = ''DRAM'' \<or> val = ''SSD'' \<or> val = ''HYBRID'')"

definition sizes_ok :: "json \<Rightarrow> string \<Rightarrow> bool" where
  "sizes_ok j val \<longleftrightarrow>
     (if val = ''HYBRID'' then
        contains j ''shmcapacity'' \<and> contains j ''ssdcapacity'' \<and>
        j ''DRAM_SIZE'' = j ''shmcapacity'' \<and> j ''SSD_SIZE'' = j ''ssdcapacity''
      else
        (\<exists>v. at_u64 j ''value_size'' = Inr v \<and> v \<noteq> 0) \<and> contains j ''capacity'' \<and>
        \<not> contains j ''shmcapacity'' \<and> \<not> contains j ''ssdcapacity'' \<and>
        contains j (if val = ''DRAM'' then ''DRAM_SIZE'' else ''SSD_SIZE''))"

definition io_ok :: "json \<Rightarrow> string \<Rightarrow> bool" where
  "io_ok j idx \<longleftrightarrow> (idx = ''SSD'' \<longrightarrow> contains j ''io_backend_type'' \<and> contains j ''queue_cnt'' \<and>
      contains j ''page_id_offset'' \<and> (contains j ''path'' \<longrightarrow> contains j ''file_path''))"

lemma resolve_engine_type_ok:
  assumes "resolve_engine_type idx val j = Inr (j', engine)"
  shows "changes {''capacity'', ''shmcapacity'', ''ssdcapacity'', ''DRAM_SIZE'', ''SSD_SIZE'', ''cache_policy''} j j'"
    and "engine = engine_for idx val" and "idx = ''DRAM'' \<or> idx = ''SSD''"
    and "val = ''DRAM'' \<or> val = ''SSD'' \<or> val = ''HYBRID''" and "sizes_ok j' val"
    and "contains j ''capacity'' \<Longrightarrow> j' ''capacity'' = j ''capacity''"
proof -
  consider (hybrid) "val = ''HYBRID''" "resolve_hybrid idx j = Inr (j', engine)"
    | (fixed) "val \<noteq> ''HYBRID''" "val = ''DRAM'' \<or> val = ''SSD''" "resolve_fixed idx val j = Inr (j', engine)"
    using assms by (auto simp: resolve_engine_type_def split: if_splits)
  then have "changes {''capacity'', ''shmcapacity'', ''ssdcapacity'', ''DRAM_SIZE'', ''SSD_SIZE'', ''cache_policy''} j j' \<and>
    engine = engine_for idx val \<and> (idx = ''DRAM'' \<or> idx = ''SSD'') \<and>
    (val = ''DRAM'' \<or> val = ''SSD'' \<or> val = ''HYBRID'') \<and> sizes_ok j' val \<and>
    (contains j ''capacity'' \<longrightarrow> j' ''capacity'' = j ''capacity'')"
  proof cases
    case hybrid
    note h = resolve_hybrid_ok [OF hybrid(2)]
    show ?thesis using h hybrid(1) by (auto simp: changes_def engine_for_def sizes_ok_def)
  next
    case fixed
    note f = resolve_fixed_ok [OF fixed(3)]
    have "j' ''value_size'' = j ''value_size''" by (rule changesD [OF f(1)]) simp
    then have "at_u64 j' ''value_size'' = at_u64 j ''value_size''" by (simp add: at_u64_def at_def)
    then show ?thesis using f fixed(1,2) by (auto simp: changes_def engine_for_def sizes_ok_def)
  qed
  then show "changes {''capacity'', ''shmcapacity'', ''ssdcapacity'', ''DRAM_SIZE'', ''SSD_SIZE'', ''cache_policy''} j j'"
    "engine = engine_for idx val" "idx = ''DRAM'' \<or> idx = ''SSD''"
    "val = ''DRAM'' \<or> val = ''SSD'' \<or> val = ''HYBRID''" "sizes_ok j' val"
    "contains j ''capacity'' \<Longrightarrow> j' ''capacity'' = j ''capacity''" by auto
qed

text \<open>Fields that survive the later stages.\<close>

lemma late_stages_frame:
  assumes "ssd_defaults idx j5 = Inr j6" "resolve_layout val j6 = Inr j7" "check_engine_type engine j7 = Inr j8"
    and "k \<notin> {''io_backend_type'', ''queue_cnt'', ''page_id_offset'', ''file_path'', ''value_layout'',
      ''variable_value_enable'', ''engine_type''}"
  shows "j8 k = j5 k"
  using changesD [OF ssd_defaults_ok(1) [OF assms(1)], of k] changesD [OF resolve_layout_ok(1) [OF assms(2)], of k]
    changesD [OF check_engine_type_ok(1) [OF assms(3)], of k] assms(4) by simp

lemma ResolveEngine_ok:
  assumes "ResolveEngine j = Inr (engine, j')"
  shows "\<exists>idx val. media_of j' idx val \<and> engine = engine_for idx val \<and>
    j' ''engine_type'' = Some (JStr engine) \<and> sizes_ok j' val \<and> io_ok j' idx \<and> allocator_normal j'"
  using assms
proof (rule ResolveEngine_stages)
  fix j1 j2 j3 j4 j5 j6 j7 idx val
  assume s: "canonicalize_all aliases j = Inr j1" "NormalizeAllocatorConfig j1 = Inr j2"
    "resolve_media j2 = Inr (j3, idx, val)" "resolve_mode idx val j3 = Inr j4"
    "resolve_engine_type idx val j4 = Inr (j5, engine)" "ssd_defaults idx j5 = Inr j6"
    "resolve_layout val j6 = Inr j7" "check_engine_type engine j7 = Inr j'"
  note n = NormalizeAllocatorConfig_ok [OF s(2)] and me = resolve_media_ok [OF s(3)]
    and mo = resolve_mode_ok [OF s(4)] and et = resolve_engine_type_ok [OF s(5)]
    and sd = ssd_defaults_ok [OF s(6)] and la = resolve_layout_ok [OF s(7)] and ce = check_engine_type_ok [OF s(8)]
  note late = late_stages_frame [OF s(6-8)]
  have media: "j' k = j3 k" if "k \<in> {''index_type'', ''index_medium'', ''value_type'', ''value_medium''}" for k
    using late [of k] changesD [OF et(1), of k] changesD [OF mo(1), of k] that by auto
  have alloc: "j' k = j2 k" if "k \<in> {''allocator_type'', ''value_memory_management''}" for k
    using late [of k] changesD [OF et(1), of k] changesD [OF mo(1), of k] changesD [OF me(1), of k] that by auto
  have sizes: "j' k = j5 k" if "k \<in> {''shmcapacity'', ''ssdcapacity'', ''DRAM_SIZE'', ''SSD_SIZE'', ''value_size'', ''capacity''}" for k
    using late [of k] that by auto
  have io: "j' k = j6 k" if "k \<in> {''io_backend_type'', ''queue_cnt'', ''page_id_offset'', ''file_path'', ''path''}" for k
    using changesD [OF la(1), of k] changesD [OF ce(1), of k] that by auto
  have "media_of j' idx val" using media me(6,7) et(3,4) by (simp add: media_of_def)
  moreover have "allocator_normal j'" using alloc n(1) by (simp add: allocator_normal_def)
  moreover have "sizes_ok j' val = sizes_ok j5 val"
    unfolding sizes_ok_def contains_def at_u64_def at_def by (cases "val = ''DRAM''") (simp_all add: sizes)
  moreover have "io_ok j' idx" using io sd(2) by (simp add: io_ok_def contains_def)
  ultimately show ?thesis using et(2,5) ce(2) by blast
qed

text \<open>
  A configuration that resolves names the engine its two media call for, under the
  canonical and the legacy field names, and carries every size, I/O and allocator field the
  chosen engine's constructor reads, with a value size that is not zero.
\<close>

theorem resolve_engine_complete:
  assumes "ResolveEngine j = Inr (engine, j')"
  shows "\<exists>idx val. media_of j' idx val \<and> engine = engine_for idx val \<and>
    j' ''engine_type'' = Some (JStr engine) \<and> sizes_ok j' val \<and> io_ok j' idx \<and> allocator_normal j'"
  using assms by (rule ResolveEngine_ok)

section \<open>Concrete configurations\<close>

definition demo_config :: json where
  "demo_config = Map.empty(''index_type'' \<mapsto> JStr ''dram'', ''value_type'' \<mapsto> JStr ''SSD'',
     ''SSD_SIZE'' \<mapsto> JNum 4096, ''value_size'' \<mapsto> JNum 128)"

lemma demo_config_engine: "map_sum id fst (ResolveEngine demo_config) = Inr ''KVEngineExtendibleHash''"
  by code_simp

definition ssd_index_config :: json where
  "ssd_index_config = Map.empty(''index_type'' \<mapsto> JStr ''SSD'', ''value_type'' \<mapsto> JStr ''DRAM'',
     ''DRAM_SIZE'' \<mapsto> JNum 4096, ''value_size'' \<mapsto> JNum 128)"

definition resolved :: "json \<Rightarrow> json" where
  "resolved j = (case ResolveEngine j of Inl e \<Rightarrow> j | Inr (engine, j') \<Rightarrow> j')"

lemma ssd_index_engine: "map_sum id fst (ResolveEngine ssd_index_config) = Inr ''KVEngineCCEH''"
  by code_simp

lemma ssd_index_again: "map_sum id fst (ResolveEngine (resolved ssd_index_config)) =
    Inl (Throw ''STATIC mode supports only: (DRAM,DRAM), (DRAM,SSD), (SSD,SSD)'')"
  by code_simp

theorem resolve_engine_complete_witness:
  "\<exists>j'. ResolveEngine demo_config = Inr (''KVEngineExtendibleHash'', j') \<and> allocator_normal j'"
proof -
  obtain j' where j': "ResolveEngine demo_config = Inr (''KVEngineExtendibleHash'', j')"
    using demo_config_engine by (cases "ResolveEngine demo_config") auto
  with resolve_engine_complete [OF this] show ?thesis by auto
qed

text \<open>
  The normalised configuration is not always accepted again: an SSD index over DRAM values
  resolves to the CCEH engine when no mode is given, but the mode written back makes the
  second resolution throw.
\<close>

theorem resolve_engine_not_stable:
  "\<exists>j j'. ResolveEngine j = Inr (''KVEngineCCEH'', j') \<and>
     ResolveEngine j' = Inl (Throw ''STATIC mode supports only: (DRAM,DRAM), (DRAM,SSD), (SSD,SSD)'')"
proof (intro exI conjI)
  show "ResolveEngine ssd_index_config = Inr (''KVEngineCCEH'', resolved ssd_index_config)"
    using ssd_index_engine by (cases "ResolveEngine ssd_index_config") (auto simp: resolved_def)
  show "ResolveEngine (resolved ssd_index_config) =
      Inl (Throw ''STATIC mode supports only: (DRAM,DRAM), (DRAM,SSD), (SSD,SSD)'')"
    using ssd_index_again by (cases "ResolveEngine (resolved ssd_index_config)") auto
qed

text \<open>
  The two allocator resolvers disagree on the documented spellings:
  \<open>ImplFromAllocatorType\<close> maps them to an implementation, while the normalisation that runs
  before it rejects them.
\<close>

theorem allocator_alias_divergence:
  "ImplFromAllocatorType ''PERSIST_LOOP_SHM_MALLOC'' = Inr ''PERSIST_LOOP_SLAB'' \<and>
   ResolveAllocatorImpl (Map.empty(''allocator_type'' \<mapsto> JStr ''PERSIST_LOOP_SHM_MALLOC'')) =
     Inl (Throw ''unknown allocator impl: PERSIST_LOOP_SHM_MALLOC'')"
  by code_simp

end
