(* ===== verification/MallocApi.thy ===== *)
theory MallocApi
  imports LoopMalloc
begin

unbundle bit_operations_syntax

text \<open>
  \<open>memory/malloc.h\<close>: the interface \<open>MallocApi\<close> through which the KV engines use an allocator,
  as a table of functions over an allocator state, the contract its users rely on (locale
  \<open>malloc_client\<close>), and \<open>PersistLoopShmMalloc\<close> behind that interface, twice: with its fast
  lists for requests of one size class, and with the fast lists disabled for any mix of sizes.
\<close>

section \<open>The interface\<close>

text \<open>
  A pointer is its offset from the data area, \<open>None\<close> is \<open>nullptr\<close>. \<open>vt_get\<close> and \<open>vt_put\<close> are
  the byte accesses (\<open>memcpy\<close>) that users make through the pointers.
\<close>

record 'm malloc_vt =
  vt_New :: "int \<Rightarrow> 'm \<Rightarrow> ('m \<times> int option) result"
  vt_Free :: "int option \<Rightarrow> 'm \<Rightarrow> 'm \<times> bool"
  vt_GetMallocData :: "'m \<Rightarrow> int \<Rightarrow> int option"
  vt_GetMallocOffset :: "'m \<Rightarrow> int \<Rightarrow> int"
  vt_GetMallocSize :: "'m \<Rightarrow> int \<Rightarrow> int"
  vt_get :: "'m \<Rightarrow> int \<Rightarrow> u8"
  vt_put :: "int \<Rightarrow> u8 list \<Rightarrow> 'm \<Rightarrow> 'm"

definition vt_bytes :: "'m malloc_vt \<Rightarrow> 'm \<Rightarrow> int \<Rightarrow> nat \<Rightarrow> u8 list" where
  "vt_bytes V m p n = map (\<lambda>i. vt_get V m (p + int i)) [0..<n]"

lemma vt_bytes_eq_iff:
  "vt_bytes V m p n = vt_bytes V m' p n \<longleftrightarrow> (\<forall>i < n. vt_get V m (p + int i) = vt_get V m' (p + int i))"
  by (auto simp: vt_bytes_def)

lemma length_vt_bytes [simp]: "length (vt_bytes V m p n) = n"
  by (simp add: vt_bytes_def)

text \<open>\<open>A\<close> gives each live pointer the size it was requested with.\<close>

locale malloc_client =
  fixes V :: "'m malloc_vt" and minv :: "'m \<Rightarrow> (int \<Rightarrow> int option) \<Rightarrow> bool" and request_ok :: "int \<Rightarrow> bool"
  assumes New: "minv m A \<Longrightarrow> request_ok b \<Longrightarrow>
      \<exists>m' r. vt_New V b m = Inr (m', r) \<and>
        (\<forall>p n. A p = Some n \<longrightarrow> vt_bytes V m' p (nat n) = vt_bytes V m p (nat n)) \<and>
        (case r of None \<Rightarrow> minv m' A | Some p \<Rightarrow> A p = None \<and> minv m' (A(p \<mapsto> b)))"
    and Free: "minv m A \<Longrightarrow> A p = Some n \<Longrightarrow>
      \<exists>m'. vt_Free V (Some p) m = (m', True) \<and> minv m' (A(p := None)) \<and>
        (\<forall>q k. q \<noteq> p \<and> A q = Some k \<longrightarrow> vt_bytes V m' q (nat k) = vt_bytes V m q (nat k))"
    and put: "minv m A \<Longrightarrow> A p = Some n \<Longrightarrow> int (length bs) \<le> n \<Longrightarrow>
      minv (vt_put V p bs m) A \<and> vt_bytes V (vt_put V p bs m) p (length bs) = bs \<and>
        (\<forall>q k. q \<noteq> p \<and> A q = Some k \<longrightarrow> vt_bytes V (vt_put V p bs m) q (nat k) = vt_bytes V m q (nat k))"
    and addr: "minv m A \<Longrightarrow> A p = Some n \<Longrightarrow>
      vt_GetMallocData V m p = Some p \<and> vt_GetMallocOffset V m p = p \<and> vt_GetMallocSize V m p = n \<and>
      8 \<le> p \<and> p mod 8 = 0 \<and> p div 8 < 2 ^ 32 - 1"

section \<open>Bytes of a word memory\<close>

text \<open>Little-endian bytes of 64-bit words.\<close>

definition get_byte :: "u64 \<Rightarrow> nat \<Rightarrow> u8" where
  "get_byte w i = ucast (drop_bit (8 * i) w)"

definition put_byte :: "u64 \<Rightarrow> nat \<Rightarrow> u8 \<Rightarrow> u64" where
  "put_byte w i b = (w AND NOT (push_bit (8 * i) 255)) OR push_bit (8 * i) (ucast b)"

lemma bit_put_byte:
  "bit (put_byte w i b) n \<longleftrightarrow> n < 64 \<and> (if 8 * i \<le> n \<and> n < 8 * i + 8 then bit b (n - 8 * i) else bit w n)"
proof -
  have e: "(255 :: u64) = mask 8" by (simp add: mask_eq_exp_minus_1)
  show ?thesis
    unfolding put_byte_def e bit_or_iff bit_and_iff bit_not_iff bit_push_bit_iff bit_mask_iff
      bit_unsigned_iff
    by (auto dest: bit_imp_le_length)
qed

lemma get_put_byte: "i < 8 \<Longrightarrow> j < 8 \<Longrightarrow> get_byte (put_byte w i b) j = (if i = j then b else get_byte w j)"
proof (rule bit_word_eqI)
  fix n
  assume ij: "i < 8" "j < 8" and n: "n < LENGTH(8)"
  have get: "bit (get_byte v j) n = bit v (8 * j + n)" for v
    using n by (simp add: get_byte_def bit_unsigned_iff bit_drop_bit_eq)
  have "8 * i \<le> 8 * j + n \<and> 8 * j + n < 8 * i + 8 \<longleftrightarrow> i = j" using n by auto
  then show "bit (get_byte (put_byte w i b) j) n = bit (if i = j then b else get_byte w j) n"
    using ij n unfolding get bit_put_byte by (auto simp: get)
qed

definition loop_get :: "loop_malloc \<Rightarrow> int \<Rightarrow> u8" where
  "loop_get s p = get_byte (Block s (nat p div 8)) (nat p mod 8)"

definition loop_put1 :: "int \<Rightarrow> u8 \<Rightarrow> loop_malloc \<Rightarrow> loop_malloc" where
  "loop_put1 p b s =
     set_Block (nat p div 8) (put_byte (Block s (nat p div 8)) (nat p mod 8) b) s"

fun loop_put :: "int \<Rightarrow> u8 list \<Rightarrow> loop_malloc \<Rightarrow> loop_malloc" where
  "loop_put p [] s = s"
| "loop_put p (b # bs) s = loop_put (p + 1) bs (loop_put1 p b s)"

lemma loop_get_put1:
  "0 \<le> p \<Longrightarrow> 0 \<le> q \<Longrightarrow> loop_get (loop_put1 p b s) q = (if q = p then b else loop_get s q)"
proof -
  assume pq: "0 \<le> p" "0 \<le> q"
  have "nat q div 8 = nat p div 8 \<and> nat q mod 8 = nat p mod 8 \<longleftrightarrow> q = p"
    using pq by (metis div_mult_mod_eq nat_0_le)
  then show ?thesis
    by (auto simp: loop_get_def loop_put1_def Block_set_Block get_put_byte)
qed

lemma loop_get_put:
  "0 \<le> p \<Longrightarrow> 0 \<le> q \<Longrightarrow> loop_get (loop_put p bs s) q =
     (if p \<le> q \<and> q < p + int (length bs) then bs ! nat (q - p) else loop_get s q)"
proof (induction bs arbitrary: p s)
  case (Cons b bs)
  have IH: "loop_get (loop_put (p + 1) bs (loop_put1 p b s)) q =
      (if p + 1 \<le> q \<and> q < p + 1 + int (length bs) then bs ! nat (q - (p + 1)) else loop_get (loop_put1 p b s) q)"
    using Cons by simp
  show ?case
  proof (cases "p + 1 \<le> q")
    case True
    then have "nat (q - p) = Suc (nat (q - (p + 1)))" by simp
    with True show ?thesis using Cons.prems by (simp add: IH loop_get_put1)
  next
    case False
    with Cons.prems show ?thesis by (auto simp: IH loop_get_put1)
  qed
qed auto

lemma loop_put_Block:
  "0 \<le> p \<Longrightarrow> \<forall>i < length bs. (nat p + i) div 8 \<noteq> j \<Longrightarrow> Block (loop_put p bs s) j = Block s j"
proof (induction bs arbitrary: p s)
  case (Cons b bs)
  have "\<forall>i < length bs. (nat (p + 1) + i) div 8 \<noteq> j"
    using Cons.prems by (auto simp: nat_add_distrib dest: spec [of _ "Suc _"])
  with Cons show ?case by (auto simp: loop_put1_def Block_set_Block dest: spec [of _ 0])
qed simp

lemma loop_put_frame [simp]:
  "block_num (loop_put p bs s) = block_num s" "last_malloc_block (loop_put p bs s) = last_malloc_block s"
  "total_used (loop_put p bs s) = total_used s" "total_malloc (loop_put p bs s) = total_malloc s"
  "enable_fast_malloc (loop_put p bs s) = enable_fast_malloc s"
  "fast_malloc_lists (loop_put p bs s) = fast_malloc_lists s" "arena (loop_put p bs s) = arena s"
  by (induction bs arbitrary: p s) (simp_all add: loop_put1_def)

lemma loop_put_Used: "arena s \<Longrightarrow> i < block_num s \<Longrightarrow> Used (loop_put p bs s) i = Used s i"
  by (induction bs arbitrary: p s) (simp_all add: loop_put1_def)

text \<open>Writing inside the data blocks of a live allocation keeps the allocator's invariant.\<close>

lemma loop_put_ok:
  assumes ok: "loop_ok s A" and a: "(p, n) \<in> A" and len: "length bs \<le> 8 * n"
  shows "loop_ok (loop_put (8 * (int p + 1)) bs s) A"
    and "(q, k) \<in> A \<Longrightarrow> (q, k) \<noteq> (p, n) \<Longrightarrow> j \<in> region (q, k) \<Longrightarrow>
      Block (loop_put (8 * (int p + 1)) bs s) j = Block s j"
    and "a \<in> A \<Longrightarrow> Block (loop_put (8 * (int p + 1)) bs s) (fst a) = Block s (fst a)"
proof -
  let ?s = "loop_put (8 * (int p + 1)) bs s"
  note D = loop_ok_D [OF ok]
  have out: "Block ?s j = Block s j" if "j \<le> p \<or> p + n < j" for j
  proof (rule loop_put_Block)
    show "\<forall>i < length bs. (nat (8 * (int p + 1)) + i) div 8 \<noteq> j"
      using that len by (auto simp: nat_mult_distrib nat_add_distrib)
  qed simp
  have sep: "\<not> (p < j \<and> j \<le> p + n)" if "(q, k) \<in> A" "(q, k) \<noteq> (p, n)" "j \<in> region (q, k)" for q k j
  proof
    assume "p < j \<and> j \<le> p + n"
    then have "j \<in> region (p, n)" by (simp add: region_def)
    with that a D(3) show False unfolding separate_def by blast
  qed
  then show "(q, k) \<in> A \<Longrightarrow> (q, k) \<noteq> (p, n) \<Longrightarrow> j \<in> region (q, k) \<Longrightarrow> Block ?s j = Block s j"
    using out [of j] by (metis linorder_not_le)
  have hdr: "Block ?s (fst b) = Block s (fst b)" if b: "b \<in> A" for b
  proof (cases "b = (p, n)")
    case True
    then show ?thesis using out [of p] by simp
  next
    case False
    obtain q k where "b = (q, k)" by force
    with False b sep [of q k q] out [of q] show ?thesis by (force simp: region_def)
  qed
  then show "a \<in> A \<Longrightarrow> Block ?s (fst a) = Block s (fst a)" .
  show "loop_ok ?s A"
    using ok hdr by (auto simp: loop_ok_def fits_def header_ok_def loop_put_Used)
qed

section \<open>\<open>PersistLoopShmMalloc\<close> behind the interface\<close>

definition loop_vt :: "loop_malloc malloc_vt" where
  "loop_vt =
     \<lparr>vt_New = loop_New,
      vt_Free = (\<lambda>p s. case p of None \<Rightarrow> (s, False) | Some p \<Rightarrow> loop_Free p s),
      vt_GetMallocData = loop_GetMallocData, vt_GetMallocOffset = loop_GetMallocOffset,
      vt_GetMallocSize = loop_GetMallocSize, vt_get = loop_get, vt_put = loop_put\<rparr>"

lemma loop_vt_simps [simp]:
  "vt_New loop_vt = loop_New" "vt_Free loop_vt (Some p) s = loop_Free p s"
  "vt_GetMallocData loop_vt = loop_GetMallocData" "vt_GetMallocOffset loop_vt = loop_GetMallocOffset"
  "vt_GetMallocSize loop_vt = loop_GetMallocSize"
  "vt_get loop_vt = loop_get" "vt_put loop_vt = loop_put"
  by (simp_all add: loop_vt_def)

text \<open>The live allocations as pointers with their requested sizes.\<close>

definition live_map :: "(nat \<times> nat) set \<Rightarrow> (int \<Rightarrow> int option) \<Rightarrow> bool" where
  "live_map A M \<longleftrightarrow>
     (\<forall>p b. M p = Some b \<longrightarrow> ok_size b \<and> (\<exists>i. p = 8 * (int i + 1) \<and> (i, blocks_of b) \<in> A)) \<and>
     (\<forall>i n. (i, n) \<in> A \<longrightarrow> (\<exists>b. M (8 * (int i + 1)) = Some b \<and> blocks_of b = n))"

lemma live_mapE:
  assumes "live_map A M" and "M p = Some b"
  obtains i where "p = 8 * (int i + 1)" "(i, blocks_of b) \<in> A" "ok_size b"
  using assms unfolding live_map_def by blast

text \<open>The header of every live allocation holds its size.\<close>

definition sized :: "loop_malloc \<Rightarrow> (int \<Rightarrow> int option) \<Rightarrow> bool" where
  "sized s M \<longleftrightarrow> (\<forall>i b. M (8 * (int i + 1)) = Some b \<longrightarrow> Block s i = word_of_int b)"

definition loop_inv ::
  "(loop_malloc \<Rightarrow> (nat \<times> nat) set \<Rightarrow> bool) \<Rightarrow> loop_malloc \<Rightarrow> (int \<Rightarrow> int option) \<Rightarrow> bool" where
  "loop_inv Q s M \<longleftrightarrow>
     (\<exists>A. loop_ok s A \<and> Q s A \<and> block_num s < 2 ^ 32 - 1 \<and> live_map A M \<and> sized s M)"

lemma same_header:
  assumes "loop_ok s A" and "(i, n) \<in> A" and "(i, k) \<in> A"
  shows "n = k"
proof (rule ccontr)
  assume "n \<noteq> k"
  with loop_ok_D(3) [OF assms(1)] assms(2,3) have "region (i, n) \<inter> region (i, k) = {}"
    unfolding separate_def by blast
  then show False by (auto simp: region_def)
qed

lemma bytes_of_blocks:
  assumes "\<forall>j \<in> region (i, blocks_of b). Block s' j = Block s j" and "ok_size b"
  shows "vt_bytes loop_vt s' (8 * (int i + 1)) (nat b) = vt_bytes loop_vt s (8 * (int i + 1)) (nat b)"
proof -
  have "loop_get s' (8 * (int i + 1) + int x) = loop_get s (8 * (int i + 1) + int x)" if "x < nat b" for x
  proof -
    have n: "nat (8 * (int i + 1) + int x) = 8 * (i + 1) + x" by (simp add: nat_add_distrib)
    have "x div 8 < blocks_of b"
      using that assms(2) by (auto simp: blocks_of_def BlockNum_def ok_size_def)
    moreover have "(8 * (i + 1) + x) div 8 = i + 1 + x div 8" by presburger
    ultimately have "(8 * (i + 1) + x) div 8 \<in> region (i, blocks_of b)" by (simp add: region_def)
    with assms(1) show ?thesis by (simp only: loop_get_def n)
  qed
  then show ?thesis by (simp add: vt_bytes_eq_iff)
qed

lemma live_map_insert:
  assumes L: "live_map A M" and ok: "loop_ok s A" and sep: "\<forall>a \<in> A. region (i, blocks_of b) \<inter> region a = {}"
    and b: "ok_size b"
  shows "M (8 * (int i + 1)) = None" and "live_map (insert (i, blocks_of b) A) (M(8 * (int i + 1) \<mapsto> b))"
proof -
  have new: "(i, k) \<notin> A" for k
  proof
    assume "(i, k) \<in> A"
    with sep have "region (i, blocks_of b) \<inter> region (i, k) = {}" by blast
    then show False by (auto simp: region_def)
  qed
  show "M (8 * (int i + 1)) = None"
  proof (rule ccontr)
    assume "M (8 * (int i + 1)) \<noteq> None"
    then obtain c where "M (8 * (int i + 1)) = Some c" by auto
    with L obtain j where "8 * (int i + 1) = 8 * (int j + 1)" "(j, blocks_of c) \<in> A" by (rule live_mapE)
    with new show False by simp
  qed
  show "live_map (insert (i, blocks_of b) A) (M(8 * (int i + 1) \<mapsto> b))"
    using L b new unfolding live_map_def by (auto split: if_splits) metis+
qed

lemma live_map_remove:
  assumes L: "live_map A M" and ok: "loop_ok s A" and i: "(i, n) \<in> A"
  shows "live_map (A - {(i, n)}) (M(8 * (int i + 1) := None))"
  unfolding live_map_def
proof (intro conjI allI impI)
  fix p b
  assume p: "(M(8 * (int i + 1) := None)) p = Some b"
  then have "M p = Some b" and ne: "p \<noteq> 8 * (int i + 1)" by (auto split: if_splits)
  with L obtain j where "p = 8 * (int j + 1)" "(j, blocks_of b) \<in> A" "ok_size b" by (auto elim: live_mapE)
  with ne show "ok_size b" "\<exists>j. p = 8 * (int j + 1) \<and> (j, blocks_of b) \<in> A - {(i, n)}" by auto
next
  fix j k
  assume j: "(j, k) \<in> A - {(i, n)}"
  with same_header [OF ok i] have "j \<noteq> i" by auto
  moreover obtain b where "M (8 * (int j + 1)) = Some b" "blocks_of b = k"
    using L j unfolding live_map_def by blast
  ultimately show "\<exists>b. (M(8 * (int i + 1) := None)) (8 * (int j + 1)) = Some b \<and> blocks_of b = k" by simp
qed

text \<open>The laws that do not depend on how blocks are chosen.\<close>

lemma loop_inv_Free:
  assumes inv: "loop_inv Q s M" and p: "M p = Some b"
    and Q: "\<And>A i n. Q s A \<Longrightarrow> loop_ok s A \<Longrightarrow> (i, n) \<in> A \<Longrightarrow> Q (fst (loop_Free (8 * (int i + 1)) s)) (A - {(i, n)})"
  shows "\<exists>s'. loop_Free p s = (s', True) \<and> loop_inv Q s' (M(p := None)) \<and>
    (\<forall>q k. q \<noteq> p \<and> M q = Some k \<longrightarrow> vt_bytes loop_vt s' q (nat k) = vt_bytes loop_vt s q (nat k))"
proof -
  from inv obtain A where A: "loop_ok s A" "Q s A" "block_num s < 2 ^ 32 - 1" "live_map A M" "sized s M"
    by (auto simp: loop_inv_def)
  obtain i where i: "p = 8 * (int i + 1)" "(i, blocks_of b) \<in> A" by (rule live_mapE [OF A(4) p])
  note F = loop_Free_live [OF A(1) i(2)]
  let ?s = "fst (loop_Free p s)"
  have "sized ?s (M(p := None))" using A(5) F(3) i(1) by (auto simp: sized_def)
  then have "loop_inv Q ?s (M(p := None))"
    unfolding loop_inv_def
    using F(2,4) A(3) Q [OF A(2,1) i(2)] live_map_remove [OF A(4,1) i(2)] i(1)
    by (intro exI [of _ "A - {(i, blocks_of b)}"]) simp
  moreover have "vt_bytes loop_vt ?s q (nat k) = vt_bytes loop_vt s q (nat k)" for q k
    using F(3) i(1) by (simp add: vt_bytes_def loop_get_def)
  ultimately show ?thesis using F(1) i(1) by (intro exI [of _ ?s]) (simp add: prod_eq_iff)
qed

lemma loop_inv_put:
  assumes inv: "loop_inv Q s M" and p: "M p = Some b" and len: "int (length bs) \<le> b"
    and Q: "\<And>A. Q s A \<Longrightarrow> Q (loop_put p bs s) A"
  shows "loop_inv Q (loop_put p bs s) M \<and> vt_bytes loop_vt (loop_put p bs s) p (length bs) = bs \<and>
    (\<forall>q k. q \<noteq> p \<and> M q = Some k \<longrightarrow>
       vt_bytes loop_vt (loop_put p bs s) q (nat k) = vt_bytes loop_vt s q (nat k))"
proof -
  from inv obtain A where A: "loop_ok s A" "Q s A" "block_num s < 2 ^ 32 - 1" "live_map A M" "sized s M"
    by (auto simp: loop_inv_def)
  obtain i where i: "p = 8 * (int i + 1)" "(i, blocks_of b) \<in> A" "ok_size b" by (rule live_mapE [OF A(4) p])
  have "length bs \<le> 8 * blocks_of b"
    using len i(3) by (auto simp: blocks_of_def BlockNum_def ok_size_def)
  note P = loop_put_ok [OF A(1) i(2) this, folded i(1)]
  have "sized (loop_put p bs s) M"
    unfolding sized_def
  proof (intro allI impI)
    fix j c
    assume j: "M (8 * (int j + 1)) = Some c"
    obtain j' where "8 * (int j + 1) = 8 * (int j' + 1)" "(j', blocks_of c) \<in> A" by (rule live_mapE [OF A(4) j])
    with P(3) [of "(j, blocks_of c)"] A(5) j show "Block (loop_put p bs s) j = word_of_int c"
      by (simp add: sized_def)
  qed
  then have "loop_inv Q (loop_put p bs s) M"
    unfolding loop_inv_def using A P(1) Q by auto
  moreover have "vt_bytes loop_vt (loop_put p bs s) p (length bs) = bs"
    using i(1) by (intro nth_equalityI) (auto simp: vt_bytes_def loop_get_put)
  moreover have "vt_bytes loop_vt (loop_put p bs s) q (nat k) = vt_bytes loop_vt s q (nat k)"
    if q: "q \<noteq> p" "M q = Some k" for q k
  proof -
    obtain j where j: "q = 8 * (int j + 1)" "(j, blocks_of k) \<in> A" "ok_size k" by (rule live_mapE [OF A(4) q(2)])
    with q(1) i(1) have "(j, blocks_of k) \<noteq> (i, blocks_of b)" by auto
    with P(2) [OF j(2)] have "\<forall>l \<in> region (j, blocks_of k). Block (loop_put p bs s) l = Block s l" by blast
    from bytes_of_blocks [OF this j(3)] show ?thesis by (simp add: j(1))
  qed
  ultimately show ?thesis by blast
qed

lemma loop_inv_addr:
  assumes inv: "loop_inv Q s M" and p: "M p = Some b"
  shows "loop_GetMallocData s p = Some p \<and> loop_GetMallocOffset s p = p \<and> loop_GetMallocSize s p = b \<and>
    8 \<le> p \<and> p mod 8 = 0 \<and> p div 8 < 2 ^ 32 - 1"
proof -
  from inv obtain A where A: "loop_ok s A" "block_num s < 2 ^ 32 - 1" "live_map A M" "sized s M"
    by (auto simp: loop_inv_def)
  obtain i where i: "p = 8 * (int i + 1)" "(i, blocks_of b) \<in> A" "ok_size b" by (rule live_mapE [OF A(3) p])
  have w: "int_of_size_word (Block s i) = b" using A(4) p i(1) size_word_roundtrip [OF i(3)] by (simp add: sized_def)
  have "i + blocks_of b + 1 \<le> block_num s" "1 \<le> blocks_of b"
    using loop_ok_D(4) [OF A(1) i(2)] by (auto simp: fits_def)
  with A(2) show ?thesis
    by (simp add: i(1) loop_GetMallocData_def loop_GetMallocOffset_def loop_GetMallocSize_def BlockIndex_def w)
qed

lemma loop_inv_New:
  assumes A: "loop_ok s A" "block_num s < 2 ^ 32 - 1" "live_map A M" "sized s M" and b: "ok_size b"
    and New: "loop_New b s = Inr (s', Some (8 * (int i + 1)))"
    and a: "alloc_ok (blocks_of b) s A s' i" and Q: "Q s' (insert (i, blocks_of b) A)"
  shows "\<exists>m' r. loop_New b s = Inr (m', r) \<and>
        (\<forall>p n. M p = Some n \<longrightarrow> vt_bytes loop_vt m' p (nat n) = vt_bytes loop_vt s p (nat n)) \<and>
        (case r of None \<Rightarrow> loop_inv Q m' M | Some p \<Rightarrow> M p = None \<and> loop_inv Q m' (M(p \<mapsto> b)))"
proof -
  have sep: "\<forall>x \<in> A. region (i, blocks_of b) \<inter> region x = {}" and ok': "loop_ok s' (insert (i, blocks_of b) A)"
    and blk: "\<forall>j. j \<noteq> i \<longrightarrow> Block s' j = Block s j" and bn: "block_num s' = block_num s"
    using a by (auto simp: alloc_ok_def)
  note I = live_map_insert [OF A(3,1) sep b]
  have "vt_bytes loop_vt s' p (nat n) = vt_bytes loop_vt s p (nat n)" if p: "M p = Some n" for p n
  proof -
    obtain j where j: "p = 8 * (int j + 1)" "(j, blocks_of n) \<in> A" "ok_size n" by (rule live_mapE [OF A(3) p])
    have "i \<notin> region (j, blocks_of n)" using sep j(2) by (fastforce simp: region_def)
    with blk have "\<forall>l \<in> region (j, blocks_of n). Block s' l = Block s l" by metis
    from bytes_of_blocks [OF this j(3)] show ?thesis by (simp add: j(1))
  qed
  moreover have "sized s' (M(8 * (int i + 1) \<mapsto> b))"
    unfolding sized_def
  proof (intro allI impI)
    fix j c
    assume j: "(M(8 * (int i + 1) \<mapsto> b)) (8 * (int j + 1)) = Some c"
    have "i + blocks_of b + 1 \<le> block_num s" using a by (simp add: alloc_ok_def)
    note h = loop_New_header [OF loop_ok_D(1) [OF A(1)] b this New]
    show "Block s' j = word_of_int c"
      using j h blk A(4) by (cases "j = i") (auto simp: sized_def)
  qed
  ultimately have "loop_inv Q s' (M(8 * (int i + 1) \<mapsto> b)) \<and>
      (\<forall>p n. M p = Some n \<longrightarrow> vt_bytes loop_vt s' p (nat n) = vt_bytes loop_vt s p (nat n))"
    unfolding loop_inv_def using ok' Q A(2) bn I(2) by auto
  then show ?thesis using New I(1) by simp
qed

text \<open>With the fast lists, for requests of \<open>n\<close> blocks.\<close>

definition class_inv :: "nat \<Rightarrow> loop_malloc \<Rightarrow> (int \<Rightarrow> int option) \<Rightarrow> bool" where
  "class_inv n = loop_inv (uniform n)"

definition class_request :: "nat \<Rightarrow> int \<Rightarrow> bool" where
  "class_request n b \<longleftrightarrow> ok_size b \<and> blocks_of b = n"

interpretation one_class: malloc_client loop_vt "class_inv n" "class_request n"
proof
  fix m A b
  assume inv: "class_inv n m A" and b: "class_request n b"
  then obtain L where L: "loop_ok m L" "uniform n m L" "block_num m < 2 ^ 32 - 1" "live_map L A" "sized m A"
    by (auto simp: class_inv_def loop_inv_def)
  from b have b': "ok_size b" "n = blocks_of b" by (auto simp: class_request_def)
  from uniform_New [OF L(1,2) b']
  show "\<exists>m' r. vt_New loop_vt b m = Inr (m', r) \<and>
        (\<forall>p n. A p = Some n \<longrightarrow> vt_bytes loop_vt m' p (nat n) = vt_bytes loop_vt m p (nat n)) \<and>
        (case r of None \<Rightarrow> class_inv n m' A | Some p \<Rightarrow> A p = None \<and> class_inv n m' (A(p \<mapsto> b)))"
  proof (elim disjE exE conjE)
    fix s'
    assume s': "loop_New b m = Inr (s', None)" "loop_ok s' L" "uniform n s' L" "Block s' = Block m"
      "loop_search m n (last_malloc_block m) 0 = None"
    from s'(1) have "block_num s' = block_num m" by (rule loop_New_block_num)
    with s' L have "class_inv n s' A" by (auto simp: class_inv_def loop_inv_def sized_def)
    moreover have "vt_bytes loop_vt s' p k = vt_bytes loop_vt m p k" for p k
      using s'(4) by (simp add: vt_bytes_def loop_get_def)
    ultimately show ?thesis using s'(1) by auto
  next
    fix s' p
    assume "loop_New b m = Inr (s', Some (8 * (int p + 1)))" "alloc_ok n m L s' p" "uniform n s' (insert (p, n) L)"
    with loop_inv_New [OF L(1,3,4,5) b'(1), of s' p "uniform n"] b'(2) show ?thesis
      by (simp add: class_inv_def)
  qed
next
  fix m A p b
  assume inv: "class_inv n m A" and p: "A p = Some b"
  have Q: "uniform n (fst (loop_Free (8 * (int i + 1)) s)) (L - {(i, k)})"
    if "uniform n s L" "loop_ok s L" "(i, k) \<in> L" for s L i k
    using uniform_Free [OF that(2,1,3)] .
  show "\<exists>m'. vt_Free loop_vt (Some p) m = (m', True) \<and> class_inv n m' (A(p := None)) \<and>
        (\<forall>q k. q \<noteq> p \<and> A q = Some k \<longrightarrow> vt_bytes loop_vt m' q (nat k) = vt_bytes loop_vt m q (nat k))"
    using loop_inv_Free [OF inv [unfolded class_inv_def] p Q] by (simp add: class_inv_def)
  show "vt_GetMallocData loop_vt m p = Some p \<and> vt_GetMallocOffset loop_vt m p = p \<and> vt_GetMallocSize loop_vt m p = b \<and>
      8 \<le> p \<and> p mod 8 = 0 \<and> p div 8 < 2 ^ 32 - 1"
    using loop_inv_addr [OF inv [unfolded class_inv_def] p] by simp
next
  fix m A p b and bs :: "u8 list"
  assume inv: "class_inv n m A" and p: "A p = Some b" and len: "int (length bs) \<le> b"
  show "class_inv n (vt_put loop_vt p bs m) A \<and> vt_bytes loop_vt (vt_put loop_vt p bs m) p (length bs) = bs \<and>
        (\<forall>q k. q \<noteq> p \<and> A q = Some k \<longrightarrow>
           vt_bytes loop_vt (vt_put loop_vt p bs m) q (nat k) = vt_bytes loop_vt m q (nat k))"
    using loop_inv_put [OF inv [unfolded class_inv_def] p len]
    by (simp add: class_inv_def uniform_def)
qed

text \<open>With the fast lists disabled, for all requests.\<close>

definition mixed_inv :: "loop_malloc \<Rightarrow> (int \<Rightarrow> int option) \<Rightarrow> bool" where
  "mixed_inv = loop_inv (\<lambda>s A. \<not> enable_fast_malloc s)"

interpretation any_size: malloc_client loop_vt mixed_inv ok_size
proof
  fix m A b
  assume inv: "mixed_inv m A" and b: "ok_size b"
  then obtain L where L: "loop_ok m L" "\<not> enable_fast_malloc m" "block_num m < 2 ^ 32 - 1" "live_map L A" "sized m A"
    by (auto simp: mixed_inv_def loop_inv_def)
  note New = loop_New_no_fast [OF b L(2)]
  from loop_path_ok [OF L(1) b refl refl]
  show "\<exists>m' r. vt_New loop_vt b m = Inr (m', r) \<and>
        (\<forall>p n. A p = Some n \<longrightarrow> vt_bytes loop_vt m' p (nat n) = vt_bytes loop_vt m p (nat n)) \<and>
        (case r of None \<Rightarrow> mixed_inv m' A | Some p \<Rightarrow> A p = None \<and> mixed_inv m' (A(p \<mapsto> b)))"
  proof (elim disjE exE conjE)
    assume "loop_path b (blocks_of b) m = Inr (m, None)"
    with inv New show ?thesis by auto
  next
    fix s' p
    assume s: "loop_search m (blocks_of b) (last_malloc_block m) 0 = Some p"
      "loop_path b (blocks_of b) m = Inr (s', Some (8 * (int p + 1)))"
      "loop_ok s' (insert (p, blocks_of b) L)" "\<forall>a \<in> L. region (p, blocks_of b) \<inter> region a = {}"
      "\<forall>j. j \<noteq> p \<longrightarrow> Block s' j = Block m j" "block_num s' = block_num m"
      "enable_fast_malloc s' = enable_fast_malloc m"
    have "alloc_ok (blocks_of b) m L s' p"
      using s loop_search_sound [OF s(1)] by (simp add: alloc_ok_def)
    with s New loop_inv_New [OF L(1,3,4,5) b, of s' p "\<lambda>s A. \<not> enable_fast_malloc s"] L(2) show ?thesis
      by (simp add: mixed_inv_def)
  qed
next
  fix m A p b
  assume inv: "mixed_inv m A" and p: "A p = Some b"
  have Q: "\<not> enable_fast_malloc (fst (loop_Free (8 * (int i + 1)) s))"
    if "\<not> enable_fast_malloc s" "loop_ok s L" "(i, k) \<in> L" for s L i k
    using loop_Free_live(6) [OF that(2,3)] that(1) by simp
  show "\<exists>m'. vt_Free loop_vt (Some p) m = (m', True) \<and> mixed_inv m' (A(p := None)) \<and>
        (\<forall>q k. q \<noteq> p \<and> A q = Some k \<longrightarrow> vt_bytes loop_vt m' q (nat k) = vt_bytes loop_vt m q (nat k))"
    using loop_inv_Free [OF inv [unfolded mixed_inv_def] p Q] by (simp add: mixed_inv_def)
  show "vt_GetMallocData loop_vt m p = Some p \<and> vt_GetMallocOffset loop_vt m p = p \<and> vt_GetMallocSize loop_vt m p = b \<and>
      8 \<le> p \<and> p mod 8 = 0 \<and> p div 8 < 2 ^ 32 - 1"
    using loop_inv_addr [OF inv [unfolded mixed_inv_def] p] by simp
next
  fix m A p b and bs :: "u8 list"
  assume inv: "mixed_inv m A" and p: "A p = Some b" and len: "int (length bs) \<le> b"
  show "mixed_inv (vt_put loop_vt p bs m) A \<and> vt_bytes loop_vt (vt_put loop_vt p bs m) p (length bs) = bs \<and>
        (\<forall>q k. q \<noteq> p \<and> A q = Some k \<longrightarrow>
           vt_bytes loop_vt (vt_put loop_vt p bs m) q (nat k) = vt_bytes loop_vt m q (nat k))"
    using loop_inv_put [OF inv [unfolded mixed_inv_def] p len]
    by (simp add: mixed_inv_def)
qed

end
