(* ===== verification/KVEngines.thy ===== *)
theory KVEngines
  imports MallocApi Pointers ExtendibleHash
begin

unbundle bit_operations_syntax

text \<open>
  The shared-memory KV engines: \<open>KVEngineExtendibleHash\<close>, which stores values through any
  \<open>MallocApi\<close> and keeps their locations in the extendible hash table, and \<open>KVEngineMap\<close>, which
  does the same over \<open>std::unordered_map\<close>. An index entry is a \<open>PetKVData\<close> word holding the
  allocation's offset. What both rely on is stated as two contracts, the allocator's
  (\<open>malloc_client\<close>) and the index's (\<open>kv_index\<close>), and the store they make together is proved once.

  \<open>None\<close> is a call that does not return (the index out of fuel), \<open>Inl\<close> a failed \<open>CHECK\<close>.
\<close>

section \<open>The index contract\<close>

locale kv_index =
  fixes ifind :: "u64 \<Rightarrow> 'i \<Rightarrow> u64 option" and istore :: "u64 \<Rightarrow> u64 \<Rightarrow> 'i \<Rightarrow> 'i option"
    and iinv :: "'i \<Rightarrow> bool" and room :: "'i \<Rightarrow> u64 \<Rightarrow> bool" and key_ok :: "u64 \<Rightarrow> bool"
  assumes istore: "iinv i \<Longrightarrow> key_ok k \<Longrightarrow> room i k \<Longrightarrow> v \<noteq> NONE \<Longrightarrow>
      \<exists>i'. istore k v i = Some i' \<and> iinv i' \<and> ifind k i' = Some v \<and>
        (\<forall>k'. key_ok k' \<and> k' \<noteq> k \<longrightarrow> ifind k' i' = ifind k' i)"

text \<open>The extendible hash table, whose \<open>Get\<close> answers \<open>NONE\<close> for an absent key.\<close>

definition eh_find :: "u64 \<Rightarrow> ehash \<Rightarrow> u64 option" where
  "eh_find k t = (if eh_Get k t = NONE then None else Some (eh_Get k t))"

definition eh_room :: "ehash \<Rightarrow> u64 \<Rightarrow> bool" where
  "eh_room t k \<longleftrightarrow> (\<exists>D. eh_spread D t k)"

definition eh_fuel :: nat where "eh_fuel = 32"

interpretation eh: kv_index eh_find "eh_Put eh_fuel" eh_ok eh_room "\<lambda>k. k \<noteq> INVALID"
proof
  fix t k v
  assume t: "eh_ok t" and k: "k \<noteq> INVALID" and room: "eh_room t k" and v: "v \<noteq> NONE"
  obtain D where D: "eh_spread D t k" using room by (auto simp: eh_room_def)
  then have "D \<le> 30" by (simp add: eh_spread_def)
  then obtain t' where t': "eh_Insert eh_fuel k v t = Some t'" "eh_ok t'"
    "\<forall>j. j \<noteq> INVALID \<longrightarrow> eh_lookup t' j = ((eh_lookup t)(k \<mapsto> v)) j"
    using eh_Insert_ok [OF t k D, of eh_fuel v] by (auto simp: eh_fuel_def)
  have "eh_find k t' = Some v" using t'(3) k v by (simp add: eh_find_def eh_Get_lookup)
  moreover have "eh_find j t' = eh_find j t" if "j \<noteq> INVALID" "j \<noteq> k" for j
    using t'(3) that by (simp add: eh_find_def eh_Get_lookup)
  ultimately show "\<exists>i'. eh_Put eh_fuel k v t = Some i' \<and> eh_ok i' \<and> eh_find k i' = Some v \<and>
        (\<forall>k'. k' \<noteq> INVALID \<and> k' \<noteq> k \<longrightarrow> eh_find k' i' = eh_find k' t)"
    using t'(1,2) by (simp add: eh_Put_def)
qed

text \<open>\<open>std::unordered_map<uint64_t, uint64_t>\<close>.\<close>

type_synonym hash_map = "u64 \<Rightarrow> u64 option"

definition map_store :: "u64 \<Rightarrow> u64 \<Rightarrow> hash_map \<Rightarrow> hash_map option" where
  "map_store k v m = Some (m(k \<mapsto> v))"

interpretation um: kv_index "\<lambda>k m. m k" map_store "\<lambda>m. True" "\<lambda>m k. True" "\<lambda>k. True"
  by unfold_locales (simp add: map_store_def)

section \<open>The engines\<close>

text \<open>\<open>PetKVData\<close> words under the default configuration.\<close>

definition word_of_offset :: "int \<Rightarrow> u64" where
  "word_of_offset p = set_shm_malloc_offset pet_default_config 0 (word_of_int p)"

definition offset_of_word :: "u64 \<Rightarrow> int" where
  "offset_of_word w = sint (shm_malloc_offset pet_default_config w)"

record ('m, 'i) engine =
  en_malloc :: 'm
  en_index :: 'i
  en_value_size :: nat

text \<open>\<open>KVEngineExtendibleHash::Put\<close>; the lock of the key's stripe has no effect on one thread.\<close>

definition ehe_Put ::
  "'m malloc_vt \<Rightarrow> u64 \<Rightarrow> u8 list \<Rightarrow> ('m, ehash) engine \<Rightarrow> ('m, ehash) engine result option" where
  "ehe_Put V key bytes e =
     (case vt_New V (int (length bytes)) (en_malloc e) of
        Inl err \<Rightarrow> Some (Inl err)
      | Inr (m, None) \<Rightarrow> Some (Inr (e\<lparr>en_malloc := m\<rparr>))
      | Inr (m, Some sync_data) \<Rightarrow>
          let data_value = word_of_offset (vt_GetMallocOffset V m sync_data);
              m1 = vt_put V sync_data bytes m;
              old_val = eh_Get key (en_index e);
              m2 = (if old_val \<noteq> NONE
                    then fst (vt_Free V (vt_GetMallocData V m1 (offset_of_word old_val)) m1) else m1) in
          (case eh_Put eh_fuel key data_value (en_index e) of
             None \<Rightarrow> None
           | Some i \<Rightarrow> Some (Inr (e\<lparr>en_malloc := m2, en_index := i\<rparr>))))"

definition ehe_Get :: "'m malloc_vt \<Rightarrow> u64 \<Rightarrow> ('m, ehash) engine \<Rightarrow> u8 list" where
  "ehe_Get V key e =
     (let read_value = eh_Get key (en_index e) in
      if read_value = NONE then []
      else case vt_GetMallocData V (en_malloc e) (offset_of_word read_value) of
             None \<Rightarrow> []
           | Some data \<Rightarrow> vt_bytes V (en_malloc e) data (en_value_size e))"

text \<open>A \<open>ConstArray<float>\<close> of a batch: where the floats start, and how many there are.\<close>

definition ehe_BatchGet ::
  "'m malloc_vt \<Rightarrow> u64 list \<Rightarrow> ('m, ehash) engine \<Rightarrow> (int option \<times> nat) list" where
  "ehe_BatchGet V keys e =
     map (\<lambda>k. let read_value = eh_Get k (en_index e) in
            if read_value = NONE then (None, 0)
            else case vt_GetMallocData V (en_malloc e) (offset_of_word read_value) of
                   None \<Rightarrow> (None, 0)
                 | Some data \<Rightarrow> (Some data, en_value_size e div 4)) keys"

text \<open>\<open>KVEngineMap\<close>; \<open>en_value_size\<close> is used where \<open>kPreKnownValueSize_\<close> is set.\<close>

record 'm map_engine = "('m, hash_map) engine" +
  pre_known_value_size :: bool

definition mape_Put ::
  "'m malloc_vt \<Rightarrow> u64 \<Rightarrow> u8 list \<Rightarrow> 'm map_engine \<Rightarrow> 'm map_engine result" where
  "mape_Put V key bytes e =
     (case vt_New V (int (length bytes)) (en_malloc e) of
        Inl err \<Rightarrow> Inl err
      | Inr (m, None) \<Rightarrow> Inr (e\<lparr>en_malloc := m\<rparr>)
      | Inr (m, Some sync_data) \<Rightarrow>
          let data_value = word_of_offset (vt_GetMallocOffset V m sync_data);
              m1 = vt_put V sync_data bytes m in
          (case en_index e key of
             Some old \<Rightarrow>
               Inr (e\<lparr>en_malloc := fst (vt_Free V (vt_GetMallocData V m1 (offset_of_word old)) m1),
                      en_index := (en_index e)(key \<mapsto> data_value)\<rparr>)
           | None \<Rightarrow> Inr (e\<lparr>en_malloc := m1, en_index := (en_index e)(key \<mapsto> data_value)\<rparr>)))"

definition mape_size :: "'m malloc_vt \<Rightarrow> 'm map_engine \<Rightarrow> u64 \<Rightarrow> int" where
  "mape_size V e v =
     (if pre_known_value_size e then int (en_value_size e)
      else vt_GetMallocSize V (en_malloc e) (offset_of_word v))"

text \<open>A \<open>nullptr\<close> handed to \<open>std::string(data, size)\<close> makes it throw.\<close>

definition mape_Get :: "'m malloc_vt \<Rightarrow> u64 \<Rightarrow> 'm map_engine \<Rightarrow> u8 list result" where
  "mape_Get V key e =
     (case en_index e key of
        None \<Rightarrow> Inr []
      | Some v \<Rightarrow>
          (case vt_GetMallocData V (en_malloc e) (offset_of_word v) of
             None \<Rightarrow> Inl (Throw ''logic_error'')
           | Some data \<Rightarrow> Inr (vt_bytes V (en_malloc e) data (nat (mape_size V e v)))))"

definition mape_BatchGet :: "'m malloc_vt \<Rightarrow> u64 list \<Rightarrow> 'm map_engine \<Rightarrow> (int option \<times> nat) list" where
  "mape_BatchGet V keys e =
     map (\<lambda>k. case en_index e k of
            None \<Rightarrow> (None, 0)
          | Some v \<Rightarrow> (vt_GetMallocData V (en_malloc e) (offset_of_word v), nat (mape_size V e v) div 4)) keys"

text \<open>\<open>clear\<close>, over the entries in the order \<open>keys\<close> in which the map iterates.\<close>

definition mape_clear :: "'m malloc_vt \<Rightarrow> u64 list \<Rightarrow> 'm map_engine \<Rightarrow> 'm map_engine" where
  "mape_clear V keys e =
     e\<lparr>en_malloc := fold (\<lambda>k m. fst (vt_Free V (vt_GetMallocData V m (offset_of_word (the (en_index e k)))) m))
                      keys (en_malloc e),
       en_index := Map.empty\<rparr>"

section \<open>Offsets in index entries\<close>

lemma offset_roundtrip:
  assumes "8 \<le> p" and "p mod 8 = 0" and "p div 8 < 2 ^ 32 - 1"
  shows "offset_of_word (word_of_offset p) = p" and "word_of_offset p \<noteq> NONE"
proof -
  have "p = 8 * (p div 8)" using assms(2) by presburger
  with assms(1,3) have p: "0 \<le> p" "p < 2 ^ 35" by simp_all
  then have u: "uint (word_of_int p :: u64) = p" by (simp add: uint_word_of_int)
  then have un: "unat (word_of_int p :: u64) = nat p" by (simp flip: nat_uint_eq)
  define q where "q = nat (p div 8)"
  have q: "nat p = 8 * q" "q < 2 ^ 32 - 1"
    using \<open>p = 8 * (p div 8)\<close> assms(3) p by (simp_all add: q_def nat_mult_distrib flip: nat_mult_distrib)
  have "unat (word_of_int p :: u64) mod 8 = 0" "unat (word_of_int p :: u64) div 8 < 2 ^ 32 - 1"
    unfolding un q(1) using q(2) by simp_all
  from pet_offset_stored [OF pet_default_config_new _ this, of 0]
  have r: "shm_malloc_offset pet_default_config (word_of_offset p) = word_of_int p"
    by (simp add: word_of_offset_def)
  then have "offset_of_word (word_of_offset p) = sint (word_of_int p :: u64)"
    by (simp add: offset_of_word_def)
  also have "\<dots> = p" using p by (simp add: signed_of_int signed_take_bit_int_eq_self)
  finally show o: "offset_of_word (word_of_offset p) = p" .
  have "offset_of_word NONE = 0"
    by (simp add: offset_of_word_def shm_malloc_offset_def pet_default_config_def NONE_def)
  with o assms(1) show "word_of_offset p \<noteq> NONE" by auto
qed

section \<open>What a store holds\<close>

text \<open>
  \<open>store_rep\<close>: allocator state \<open>m\<close> and index state \<open>i\<close> together hold the values \<open>M\<close>. Every
  key's entry points at an allocation of its value's size that holds its bytes; no two keys
  share one, and no allocation is left without a key.
\<close>

definition placed ::
  "'m malloc_vt \<Rightarrow> 'm \<Rightarrow> (int \<Rightarrow> int option) \<Rightarrow> (u64 \<Rightarrow> int option) \<Rightarrow> (u64 \<Rightarrow> u8 list option) \<Rightarrow> bool" where
  "placed V m A loc M \<longleftrightarrow>
     (\<forall>k p. loc k = Some p \<longrightarrow>
        (\<exists>bs. M k = Some bs \<and> A p = Some (int (length bs)) \<and> vt_bytes V m p (length bs) = bs)) \<and>
     (\<forall>k. M k \<noteq> None \<longrightarrow> loc k \<noteq> None) \<and>
     (\<forall>k k' p. loc k = Some p \<and> loc k' = Some p \<longrightarrow> k = k') \<and>
     (\<forall>p. A p \<noteq> None \<longrightarrow> (\<exists>k. loc k = Some p))"

definition store_rep ::
  "'m malloc_vt \<Rightarrow> ('m \<Rightarrow> (int \<Rightarrow> int option) \<Rightarrow> bool) \<Rightarrow> (u64 \<Rightarrow> 'i \<Rightarrow> u64 option) \<Rightarrow> ('i \<Rightarrow> bool) \<Rightarrow>
   (u64 \<Rightarrow> bool) \<Rightarrow> 'm \<Rightarrow> 'i \<Rightarrow> (u64 \<Rightarrow> u8 list option) \<Rightarrow> bool" where
  "store_rep V minv ifind iinv key_ok m i M \<longleftrightarrow>
     iinv i \<and> (\<forall>k. M k \<noteq> None \<longrightarrow> key_ok k) \<and>
     (\<exists>A loc. minv m A \<and> placed V m A loc M \<and>
        (\<forall>k. key_ok k \<longrightarrow> ifind k i = map_option word_of_offset (loc k)))"

lemma placedD:
  assumes "placed V m A loc M"
  shows "loc k = Some p \<Longrightarrow> \<exists>bs. M k = Some bs \<and> A p = Some (int (length bs)) \<and> vt_bytes V m p (length bs) = bs"
    and "M k \<noteq> None \<Longrightarrow> \<exists>p. loc k = Some p" and "loc k = Some p \<Longrightarrow> loc k' = Some p \<Longrightarrow> k = k'"
    and "A p \<noteq> None \<Longrightarrow> \<exists>k. loc k = Some p"
  using assms unfolding placed_def by blast+

text \<open>The three changes of a \<open>Put\<close>: a new allocation, its contents, the release of the old one.\<close>

lemma placed_keep:
  assumes "placed V m A loc M"
    and "\<forall>p n. A p = Some n \<longrightarrow> vt_bytes V m' p (nat n) = vt_bytes V m p (nat n)"
  shows "placed V m' A loc M"
  unfolding placed_def
proof (intro conjI allI impI)
  fix k p
  assume "loc k = Some p"
  with placedD(1) [OF assms(1)] obtain bs where
    "M k = Some bs" "A p = Some (int (length bs))" "vt_bytes V m p (length bs) = bs" by blast
  with assms(2) show "\<exists>bs. M k = Some bs \<and> A p = Some (int (length bs)) \<and> vt_bytes V m' p (length bs) = bs"
    by fastforce
qed (use placedD [OF assms(1)] in blast)+

lemma placed_add:
  assumes P: "placed V m A loc M" and new: "A p = None"
    and bytes: "vt_bytes V m' p (length bs) = bs"
    and keep: "\<forall>q n. q \<noteq> p \<and> A q = Some n \<longrightarrow> vt_bytes V m' q (nat n) = vt_bytes V m q (nat n)"
    and free: "loc k = None"
  shows "placed V m' (A(p \<mapsto> int (length bs))) (loc(k \<mapsto> p)) (M(k \<mapsto> bs))"
proof -
  note D = placedD [OF P]
  have np: "loc j \<noteq> Some p" for j using D(1) new by fastforce
  have "\<exists>cs. M j = Some cs \<and> A q = Some (int (length cs)) \<and> vt_bytes V m' q (length cs) = cs"
    if "loc j = Some q" for j q
  proof -
    from D(1) [OF that] obtain cs where "M j = Some cs" "A q = Some (int (length cs))" "vt_bytes V m q (length cs) = cs"
      by blast
    moreover have "q \<noteq> p" using np that by auto
    ultimately show ?thesis using keep by fastforce
  qed
  note old = this
  show ?thesis
    unfolding placed_def
  proof (intro conjI allI impI)
    fix j q
    assume j: "(loc(k \<mapsto> p)) j = Some q"
    show "\<exists>cs. (M(k \<mapsto> bs)) j = Some cs \<and> (A(p \<mapsto> int (length bs))) q = Some (int (length cs)) \<and>
        vt_bytes V m' q (length cs) = cs"
    proof (cases "j = k")
      case True
      with j bytes show ?thesis by simp
    next
      case False
      with j have "loc j = Some q" by simp
      with old [OF this] np [of j] False show ?thesis by auto
    qed
  next
    fix j
    assume "(M(k \<mapsto> bs)) j \<noteq> None"
    then show "(loc(k \<mapsto> p)) j \<noteq> None" using D(2) [of j] by (auto split: if_splits)
  next
    fix j j' q
    assume "(loc(k \<mapsto> p)) j = Some q \<and> (loc(k \<mapsto> p)) j' = Some q"
    then show "j = j'" using D(3) [of j q j'] np [of j] np [of j'] by (auto split: if_splits)
  next
    fix q
    assume q: "(A(p \<mapsto> int (length bs))) q \<noteq> None"
    show "\<exists>j. (loc(k \<mapsto> p)) j = Some q"
    proof (cases "q = p")
      case True
      then show ?thesis by (intro exI [of _ k]) simp
    next
      case False
      with q D(4) [of q] obtain j where "loc j = Some q" by auto
      with free show ?thesis by (intro exI [of _ j]) auto
    qed
  qed
qed

lemma placed_drop:
  assumes P: "placed V m A loc M" and old: "loc k = Some p"
    and keep: "\<forall>q n. q \<noteq> p \<and> A q = Some n \<longrightarrow> vt_bytes V m' q (nat n) = vt_bytes V m q (nat n)"
  shows "placed V m' (A(p := None)) (loc(k := None)) (M(k := None))"
proof -
  note D = placedD [OF P]
  have ne: "q \<noteq> p" if "loc j = Some q" "j \<noteq> k" for j q using D(3) old that by blast
  have "\<exists>cs. M j = Some cs \<and> A q = Some (int (length cs)) \<and> vt_bytes V m' q (length cs) = cs"
    if "loc j = Some q" "j \<noteq> k" for j q
  proof -
    from D(1) [OF that(1)] obtain cs where "M j = Some cs" "A q = Some (int (length cs))" "vt_bytes V m q (length cs) = cs"
      by blast
    with ne [OF that] keep show ?thesis by fastforce
  qed
  note rest = this
  show ?thesis
    unfolding placed_def
  proof (intro conjI allI impI)
    fix j q
    assume j: "(loc(k := None)) j = Some q"
    then have "loc j = Some q" "j \<noteq> k" by (auto split: if_splits)
    with rest [OF this] ne [OF this] show
      "\<exists>cs. (M(k := None)) j = Some cs \<and> (A(p := None)) q = Some (int (length cs)) \<and>
        vt_bytes V m' q (length cs) = cs" by auto
  next
    fix j
    assume "(M(k := None)) j \<noteq> None"
    then show "(loc(k := None)) j \<noteq> None" using D(2) [of j] by (auto split: if_splits)
  next
    fix j j' q
    assume "(loc(k := None)) j = Some q \<and> (loc(k := None)) j' = Some q"
    then show "j = j'" using D(3) [of j q j'] by (auto split: if_splits)
  next
    fix q
    assume q: "(A(p := None)) q \<noteq> None"
    then have "q \<noteq> p" "A q \<noteq> None" by (auto split: if_splits)
    with D(4) [of q] old show "\<exists>j. (loc(k := None)) j = Some q" by force
  qed
qed

section \<open>The store, over any allocator and index that keep their contracts\<close>

definition release_old :: "'m malloc_vt \<Rightarrow> u64 option \<Rightarrow> 'm \<Rightarrow> 'm" where
  "release_old V old m =
     (case old of None \<Rightarrow> m
      | Some w \<Rightarrow> fst (vt_Free V (vt_GetMallocData V m (offset_of_word w)) m))"

locale shm_store = malloc_client V minv request_ok + kv_index ifind istore iinv room key_ok
  for V :: "'m malloc_vt" and minv :: "'m \<Rightarrow> (int \<Rightarrow> int option) \<Rightarrow> bool" and request_ok :: "int \<Rightarrow> bool"
    and ifind :: "u64 \<Rightarrow> 'i \<Rightarrow> u64 option" and istore :: "u64 \<Rightarrow> u64 \<Rightarrow> 'i \<Rightarrow> 'i option"
    and iinv :: "'i \<Rightarrow> bool" and room :: "'i \<Rightarrow> u64 \<Rightarrow> bool" and key_ok :: "u64 \<Rightarrow> bool"
begin

abbreviation rep :: "'m \<Rightarrow> 'i \<Rightarrow> (u64 \<Rightarrow> u8 list option) \<Rightarrow> bool" where
  "rep \<equiv> store_rep V minv ifind iinv key_ok"

lemma live_word:
  assumes "minv m A" and "A p = Some n"
  shows "offset_of_word (word_of_offset p) = p" and "word_of_offset p \<noteq> NONE"
    and "vt_GetMallocData V m p = Some p" and "vt_GetMallocOffset V m p = p" and "vt_GetMallocSize V m p = n"
  using addr [OF assms] offset_roundtrip [of p] by auto

lemma repE:
  assumes "rep m i M"
  obtains A loc where "iinv i" "\<And>k. M k \<noteq> None \<Longrightarrow> key_ok k" "minv m A" "placed V m A loc M"
    "\<And>k. key_ok k \<Longrightarrow> ifind k i = map_option word_of_offset (loc k)"
  using assms unfolding store_rep_def by blast

lemma repI:
  assumes "iinv i" and "\<And>k. M k \<noteq> None \<Longrightarrow> key_ok k" and "minv m A" and "placed V m A loc M"
    and "\<And>k. key_ok k \<Longrightarrow> ifind k i = map_option word_of_offset (loc k)"
  shows "rep m i M"
  using assms unfolding store_rep_def by blast

lemma find_absent: "rep m i M \<Longrightarrow> key_ok k \<Longrightarrow> M k = None \<Longrightarrow> ifind k i = None"
proof (erule repE)
  fix A loc
  assume k: "key_ok k" "M k = None" and P: "placed V m A loc M"
    and f: "\<And>k. key_ok k \<Longrightarrow> ifind k i = map_option word_of_offset (loc k)"
  have "loc k = None"
  proof (rule ccontr)
    assume "loc k \<noteq> None"
    then obtain p where "loc k = Some p" by blast
    from placedD(1) [OF P this] k(2) show False by simp
  qed
  with f [OF k(1)] show "ifind k i = None" by simp
qed

lemma find_present:
  assumes r: "rep m i M" and k: "M k = Some bs"
  shows "\<exists>p. ifind k i = Some (word_of_offset p) \<and> vt_GetMallocData V m (offset_of_word (word_of_offset p)) = Some p \<and>
    vt_GetMallocSize V m (offset_of_word (word_of_offset p)) = int (length bs) \<and>
    vt_bytes V m p (length bs) = bs \<and> word_of_offset p \<noteq> NONE"
proof -
  from r obtain A loc where R: "key_ok k" "minv m A" "placed V m A loc M" "ifind k i = map_option word_of_offset (loc k)"
    by (rule repE) (use k in auto)
  obtain p where p: "loc k = Some p" using placedD(2) [OF R(3), of k] k by auto
  with placedD(1) [OF R(3) p] k have a: "A p = Some (int (length bs))" "vt_bytes V m p (length bs) = bs" by auto
  from live_word [OF R(2) a(1)] p R(4) a(2) show ?thesis by auto
qed

lemma put_step:
  assumes r: "rep m i M" and k: "key_ok k" and b: "request_ok (int (length bs))" and room: "room i k"
  obtains (oom) m0 where "vt_New V (int (length bs)) m = Inr (m0, None)" "rep m0 i M"
  | (stored) m0 p i' where "vt_New V (int (length bs)) m = Inr (m0, Some p)" "vt_GetMallocOffset V m0 p = p"
      "istore k (word_of_offset p) i = Some i'"
      "rep (release_old V (ifind k i) (vt_put V p bs m0)) i' (M(k \<mapsto> bs))"
proof -
  let ?n = "int (length bs)"
  from r obtain A loc where R: "iinv i" "\<And>k. M k \<noteq> None \<Longrightarrow> key_ok k" "minv m A" "placed V m A loc M"
    "\<And>k. key_ok k \<Longrightarrow> ifind k i = map_option word_of_offset (loc k)" by (rule repE) blast
  from New [OF R(3) b] obtain m0 s where New: "vt_New V ?n m = Inr (m0, s)"
    and keep0: "\<forall>p n. A p = Some n \<longrightarrow> vt_bytes V m0 p (nat n) = vt_bytes V m p (nat n)"
    and s: "case s of None \<Rightarrow> minv m0 A | Some p \<Rightarrow> A p = None \<and> minv m0 (A(p \<mapsto> ?n))" by blast
  note P0 = placed_keep [OF R(4) keep0]
  show thesis
  proof (cases s)
    case None
    with s have "minv m0 A" by simp
    from repI [OF R(1,2) this P0 R(5)] have "rep m0 i M" .
    with New None show ?thesis by (intro oom) auto
  next
    case (Some p)
    with s have p: "A p = None" "minv m0 (A(p \<mapsto> ?n))" by auto
    let ?A = "A(p \<mapsto> ?n)" and ?m1 = "vt_put V p bs m0"
    note W = live_word [OF p(2), of p ?n, simplified]
    from put [OF p(2), of p ?n bs] have m1: "minv ?m1 ?A" "vt_bytes V ?m1 p (length bs) = bs"
      "\<forall>q n. q \<noteq> p \<and> ?A q = Some n \<longrightarrow> vt_bytes V ?m1 q (nat n) = vt_bytes V m0 q (nat n)" by auto
    then have keep1: "\<forall>q n. q \<noteq> p \<and> A q = Some n \<longrightarrow> vt_bytes V ?m1 q (nat n) = vt_bytes V m0 q (nat n)"
      by auto
    from istore [OF R(1) k room W(2)] obtain i' where i': "istore k (word_of_offset p) i = Some i'" "iinv i'"
      "ifind k i' = Some (word_of_offset p)" "\<forall>j. key_ok j \<and> j \<noteq> k \<longrightarrow> ifind j i' = ifind j i" by blast
    have idx: "ifind j i' = map_option word_of_offset ((loc(k \<mapsto> p)) j)" if "key_ok j" for j
      using i'(3,4) R(5) [OF that] that by auto
    have keys: "key_ok j" if "(M(k \<mapsto> bs)) j \<noteq> None" for j
      using that R(2) k by (auto split: if_splits)
    have "rep (release_old V (ifind k i) ?m1) i' (M(k \<mapsto> bs))"
    proof (cases "loc k")
      case None
      have "placed V ?m1 ?A (loc(k \<mapsto> p)) (M(k \<mapsto> bs))"
        by (rule placed_add [OF P0 p(1) m1(2) keep1 None])
      from repI [OF i'(2) keys m1(1) this idx] show ?thesis
        using None R(5) [OF k] by (simp add: release_old_def)
    next
      case (Some q)
      from placedD(1) [OF R(4) Some] obtain c where c: "A q = Some c" by blast
      then have q: "q \<noteq> p" "?A q = Some c" using p(1) by auto
      note Wq = live_word [OF m1(1) q(2)]
      from Free [OF m1(1) q(2)] obtain m2 where m2: "vt_Free V (Some q) ?m1 = (m2, True)" "minv m2 (?A(q := None))"
        "\<forall>x n. x \<noteq> q \<and> ?A x = Some n \<longrightarrow> vt_bytes V m2 x (nat n) = vt_bytes V ?m1 x (nat n)" by blast
      have rel: "release_old V (ifind k i) ?m1 = m2"
        using R(5) [OF k] Some Wq m2(1) by (simp add: release_old_def)
      have "\<forall>x n. A x = Some n \<longrightarrow> vt_bytes V ?m1 x (nat n) = vt_bytes V m0 x (nat n)"
        using keep1 p(1) by (metis option.distinct(1))
      note P1 = placed_keep [OF P0 this]
      have "\<forall>x n. x \<noteq> q \<and> A x = Some n \<longrightarrow> vt_bytes V m2 x (nat n) = vt_bytes V ?m1 x (nat n)"
      proof (intro allI impI)
        fix x n
        assume x: "x \<noteq> q \<and> A x = Some n"
        with p(1) have "?A x = Some n" by auto
        with m2(3) x show "vt_bytes V m2 x (nat n) = vt_bytes V ?m1 x (nat n)" by blast
      qed
      note P2 = placed_drop [OF P1 Some this]
      have b2: "vt_bytes V m2 p (length bs) = bs"
        using m2(3) q(1) m1(2) by (metis fun_upd_same nat_int)
      have "placed V m2 ((A(q := None))(p \<mapsto> ?n)) ((loc(k := None))(k \<mapsto> p)) ((M(k := None))(k \<mapsto> bs))"
        by (rule placed_add [OF P2 _ b2]) (use p(1) in auto)
      then have "placed V m2 (?A(q := None)) (loc(k \<mapsto> p)) (M(k \<mapsto> bs))"
        using q(1) by (simp add: fun_upd_twist)
      from repI [OF i'(2) keys m2(2) this idx] show ?thesis unfolding rel .
    qed
    with New Some W(4) i'(1) show ?thesis by (intro stored) auto
  qed
qed

end

section \<open>\<open>KVEngineExtendibleHash\<close>\<close>

text \<open>Any allocator with the contract gives a store over the extendible hash table.\<close>

sublocale malloc_client < eh_store: shm_store V minv request_ok eh_find "eh_Put eh_fuel" eh_ok eh_room
    "\<lambda>k. k \<noteq> INVALID"
  by unfold_locales

sublocale malloc_client < um_store: shm_store V minv request_ok "\<lambda>k m. m k" map_store "\<lambda>m. True" "\<lambda>m k. True"
    "\<lambda>k. True"
  by unfold_locales

definition ehe_rep ::
  "'m malloc_vt \<Rightarrow> ('m \<Rightarrow> (int \<Rightarrow> int option) \<Rightarrow> bool) \<Rightarrow> ('m, ehash) engine \<Rightarrow> (u64 \<Rightarrow> u8 list option) \<Rightarrow> bool" where
  "ehe_rep V minv e M \<longleftrightarrow>
     store_rep V minv eh_find eh_ok (\<lambda>k. k \<noteq> INVALID) (en_malloc e) (en_index e) M \<and>
     (\<forall>k bs. M k = Some bs \<longrightarrow> length bs = en_value_size e)"

definition mape_rep ::
  "'m malloc_vt \<Rightarrow> ('m \<Rightarrow> (int \<Rightarrow> int option) \<Rightarrow> bool) \<Rightarrow> 'm map_engine \<Rightarrow> (u64 \<Rightarrow> u8 list option) \<Rightarrow> bool" where
  "mape_rep V minv e M \<longleftrightarrow>
     store_rep V minv (\<lambda>k m. m k) (\<lambda>m. True) (\<lambda>k. True) (en_malloc e) (en_index e) M \<and>
     (pre_known_value_size e \<longrightarrow> (\<forall>k bs. M k = Some bs \<longrightarrow> length bs = en_value_size e))"

context malloc_client
begin

lemma ehe_Get_ok:
  assumes "ehe_rep V minv e M" and "k \<noteq> INVALID"
  shows "ehe_Get V k e = (case M k of None \<Rightarrow> [] | Some bs \<Rightarrow> bs)"
proof -
  have r: "eh_store.rep (en_malloc e) (en_index e) M" using assms(1) by (simp add: ehe_rep_def)
  show ?thesis
  proof (cases "M k")
    case None
    from eh_store.find_absent [OF r assms(2) None] have "eh_Get k (en_index e) = NONE"
      by (auto simp: eh_find_def split: if_splits)
    with None show ?thesis by (simp add: ehe_Get_def)
  next
    case (Some bs)
    with assms(1) have "length bs = en_value_size e" by (simp add: ehe_rep_def)
    with eh_store.find_present [OF r Some] Some show ?thesis
      by (auto simp: ehe_Get_def eh_find_def Let_def split: if_splits)
  qed
qed

lemma ehe_Put_ok:
  assumes e: "ehe_rep V minv e M" and k: "k \<noteq> INVALID" and b: "request_ok (int (length bs))"
    and size: "length bs = en_value_size e" and room: "eh_room (en_index e) k"
  shows "\<exists>e'. ehe_Put V k bs e = Some (Inr e') \<and>
    ((\<exists>m. vt_New V (int (length bs)) (en_malloc e) = Inr (m, None)) \<and> ehe_rep V minv e' M \<or>
     ehe_rep V minv e' (M(k \<mapsto> bs)))"
proof -
  have r: "eh_store.rep (en_malloc e) (en_index e) M" and sz: "\<forall>k bs. M k = Some bs \<longrightarrow> length bs = en_value_size e"
    using e by (auto simp: ehe_rep_def)
  show ?thesis
  proof (rule eh_store.put_step [OF r k b room])
    fix m0
    assume "vt_New V (int (length bs)) (en_malloc e) = Inr (m0, None)" "eh_store.rep m0 (en_index e) M"
    with sz show ?thesis by (auto simp: ehe_Put_def ehe_rep_def)
  next
    fix m0 p i'
    assume a: "vt_New V (int (length bs)) (en_malloc e) = Inr (m0, Some p)" "vt_GetMallocOffset V m0 p = p"
      "eh_Put eh_fuel k (word_of_offset p) (en_index e) = Some i'"
      "eh_store.rep (release_old V (eh_find k (en_index e)) (vt_put V p bs m0)) i' (M(k \<mapsto> bs))"
    let ?e = "e\<lparr>en_malloc := release_old V (eh_find k (en_index e)) (vt_put V p bs m0), en_index := i'\<rparr>"
    have "ehe_Put V k bs e = Some (Inr ?e)"
      using a(1-3) by (simp add: ehe_Put_def Let_def release_old_def eh_find_def)
    moreover have "ehe_rep V minv ?e (M(k \<mapsto> bs))" using a(4) sz size by (simp add: ehe_rep_def)
    ultimately show ?thesis by blast
  qed
qed

lemma mape_Get_ok:
  assumes "mape_rep V minv e M"
  shows "mape_Get V k e = Inr (case M k of None \<Rightarrow> [] | Some bs \<Rightarrow> bs)"
proof -
  have r: "um_store.rep (en_malloc e) (en_index e) M" using assms by (simp add: mape_rep_def)
  show ?thesis
  proof (cases "M k")
    case None
    from um_store.find_absent [OF r _ None] None show ?thesis by (simp add: mape_Get_def)
  next
    case (Some bs)
    with assms um_store.find_present [OF r Some] show ?thesis
      by (auto simp: mape_Get_def mape_size_def mape_rep_def)
  qed
qed

lemma mape_Put_ok:
  assumes e: "mape_rep V minv e M" and b: "request_ok (int (length bs))"
    and size: "pre_known_value_size e \<longrightarrow> length bs = en_value_size e"
  shows "\<exists>e'. mape_Put V k bs e = Inr e' \<and>
    ((\<exists>m. vt_New V (int (length bs)) (en_malloc e) = Inr (m, None)) \<and> mape_rep V minv e' M \<or>
     mape_rep V minv e' (M(k \<mapsto> bs)))"
proof -
  have r: "um_store.rep (en_malloc e) (en_index e) M"
    and sz: "pre_known_value_size e \<longrightarrow> (\<forall>k bs. M k = Some bs \<longrightarrow> length bs = en_value_size e)"
    using e by (auto simp: mape_rep_def)
  show ?thesis
  proof (rule um_store.put_step [OF r TrueI b TrueI])
    fix m0
    assume "vt_New V (int (length bs)) (en_malloc e) = Inr (m0, None)" "um_store.rep m0 (en_index e) M"
    with sz show ?thesis by (auto simp: mape_Put_def mape_rep_def)
  next
    fix m0 p i'
    assume a: "vt_New V (int (length bs)) (en_malloc e) = Inr (m0, Some p)" "vt_GetMallocOffset V m0 p = p"
      "map_store k (word_of_offset p) (en_index e) = Some i'"
      "um_store.rep (release_old V (en_index e k) (vt_put V p bs m0)) i' (M(k \<mapsto> bs))"
    let ?e = "e\<lparr>en_malloc := release_old V (en_index e k) (vt_put V p bs m0), en_index := i'\<rparr>"
    have "mape_Put V k bs e = Inr ?e"
      using a(1-3) by (auto simp: mape_Put_def Let_def release_old_def map_store_def split: option.split)
    moreover have "mape_rep V minv ?e (M(k \<mapsto> bs))" using a(4) sz size by (auto simp: mape_rep_def)
    ultimately show ?thesis by blast
  qed
qed

end

text \<open>\<open>clear\<close> releases every allocation the entries name.\<close>

context malloc_client
begin

lemma clear_entry:
  assumes m: "minv m A" and P: "placed V m A loc M" and k: "loc k = Some p"
  shows "\<exists>m'. vt_Free V (vt_GetMallocData V m (offset_of_word (word_of_offset p))) m = (m', True) \<and>
    minv m' (A(p := None)) \<and> placed V m' (A(p := None)) (loc(k := None)) (M(k := None))"
proof -
  from placedD(1) [OF P k] obtain n where n: "A p = Some n" by blast
  from Free [OF m n] obtain m' where m': "vt_Free V (Some p) m = (m', True)" "minv m' (A(p := None))"
    "\<forall>q k. q \<noteq> p \<and> A q = Some k \<longrightarrow> vt_bytes V m' q (nat k) = vt_bytes V m q (nat k)" by blast
  from placed_drop [OF P k m'(3)] m'(1,2) eh_store.live_word [OF m n] show ?thesis by simp
qed

lemma clear_entries:
  assumes "minv m A" and "placed V m A loc M" and "distinct keys"
    and "\<forall>k \<in> set keys. \<exists>p. loc k = Some p \<and> i k = Some (word_of_offset p)"
  shows "\<exists>A'. let m' = fold (\<lambda>k m. fst (vt_Free V (vt_GetMallocData V m (offset_of_word (the (i k)))) m)) keys m in
    minv m' A' \<and> placed V m' A' (loc |` (- set keys)) (M |` (- set keys))"
  using assms
proof (induction keys arbitrary: m A loc M)
  case Nil
  then show ?case by (auto simp: Let_def)
next
  case (Cons k keys)
  obtain p where p: "loc k = Some p" "i k = Some (word_of_offset p)" using Cons.prems(4) by auto
  obtain m' where m': "vt_Free V (vt_GetMallocData V m (offset_of_word (word_of_offset p))) m = (m', True)"
    "minv m' (A(p := None))" "placed V m' (A(p := None)) (loc(k := None)) (M(k := None))"
    using clear_entry [OF Cons.prems(1,2) p(1)] by blast
  have "\<forall>j \<in> set keys. \<exists>p. (loc(k := None)) j = Some p \<and> i j = Some (word_of_offset p)"
    using Cons.prems(3,4) by auto
  moreover have "distinct keys" using Cons.prems(3) by simp
  ultimately have IH: "\<exists>A'. let m'' = fold (\<lambda>k m. fst (vt_Free V (vt_GetMallocData V m (offset_of_word (the (i k)))) m)) keys m' in
    minv m'' A' \<and> placed V m'' A' ((loc(k := None)) |` (- set keys)) ((M(k := None)) |` (- set keys))"
    using Cons.IH [OF m'(2,3)] by blast
  have r: "(f(k := None)) |` (- set keys) = f |` (- set (k # keys))" for f :: "u64 \<Rightarrow> 'z option"
    by (rule ext) (auto simp: restrict_map_def)
  have f: "fold (\<lambda>k m. fst (vt_Free V (vt_GetMallocData V m (offset_of_word (the (i k)))) m)) (k # keys) m =
      fold (\<lambda>k m. fst (vt_Free V (vt_GetMallocData V m (offset_of_word (the (i k)))) m)) keys m'"
    using m'(1) p(2) by simp
  from IH show ?case unfolding f r [of loc] r [of M] .
qed

lemma mape_clear_ok:
  assumes e: "mape_rep V minv e M" and keys: "distinct keys" "set keys = {k. en_index e k \<noteq> None}"
  shows "mape_rep V minv (mape_clear V keys e) Map.empty \<and> minv (en_malloc (mape_clear V keys e)) Map.empty"
proof -
  have r: "um_store.rep (en_malloc e) (en_index e) M" using e by (simp add: mape_rep_def)
  then obtain A loc where R: "minv (en_malloc e) A" "placed V (en_malloc e) A loc M"
    "\<And>k. en_index e k = map_option word_of_offset (loc k)" by (rule um_store.repE) simp
  have "\<forall>k \<in> set keys. \<exists>p. loc k = Some p \<and> en_index e k = Some (word_of_offset p)"
    using R(3) keys(2) by auto
  from clear_entries [OF R(1,2) keys(1) this] obtain A' where
    A': "minv (en_malloc (mape_clear V keys e)) A'"
    "placed V (en_malloc (mape_clear V keys e)) A' (loc |` (- set keys)) (M |` (- set keys))"
    by (auto simp: Let_def mape_clear_def)
  have "loc |` (- set keys) = Map.empty"
    using R(3) keys(2) by (auto simp: restrict_map_def fun_eq_iff)
  note P = A'(2) [unfolded this]
  have "(M |` (- set keys)) x = None" for x
    using placedD(2) [OF P, of x] by (cases "(M |` (- set keys)) x") auto
  then have "M |` (- set keys) = Map.empty" by (rule ext)
  note P = P [unfolded this]
  have "A' x = None" for x
    using placedD(4) [OF P, of x] by (cases "A' x") auto
  then have "A' = Map.empty" by (rule ext)
  with A'(1) P have "minv (en_malloc (mape_clear V keys e)) Map.empty"
    "placed V (en_malloc (mape_clear V keys e)) Map.empty Map.empty Map.empty" by simp_all
  moreover from um_store.repI [OF TrueI _ this, of Map.empty] have
    "um_store.rep (en_malloc (mape_clear V keys e)) Map.empty Map.empty" by simp
  ultimately show ?thesis by (simp add: mape_rep_def mape_clear_def)
qed

end

section \<open>The engines over \<open>PersistLoopShmMalloc\<close>\<close>

text \<open>
  C11: \<open>KVEngineExtendibleHash\<close> over \<open>PersistLoopShmMalloc\<close> with values of one size: a \<open>Put\<close>
  returns; unless the allocator is out of memory, the store then holds the new value for its
  key and unchanged values for all others, no two keys share an allocation and none is leaked;
  out of memory, the store is as before.
\<close>

theorem ehe_Put_correct:
  assumes "ehe_rep loop_vt (class_inv n) e M" and "k \<noteq> INVALID"
    and "class_request n (int (length bs))" and "length bs = en_value_size e" and "eh_room (en_index e) k"
  shows "\<exists>e'. ehe_Put loop_vt k bs e = Some (Inr e') \<and>
    ((\<exists>m. loop_New (int (length bs)) (en_malloc e) = Inr (m, None)) \<and> ehe_rep loop_vt (class_inv n) e' M \<or>
     ehe_rep loop_vt (class_inv n) e' (M(k \<mapsto> bs)))"
  using one_class.ehe_Put_ok [OF assms(1-3) assms(4,5)] by simp

text \<open>
  \<open>Get\<close> of that engine answers exactly the value the store holds for the key, and the empty
  string for an absent key.
\<close>

theorem ehe_Get_correct:
  assumes "ehe_rep loop_vt (class_inv n) e M" and "k \<noteq> INVALID"
  shows "ehe_Get loop_vt k e = (case M k of None \<Rightarrow> [] | Some bs \<Rightarrow> bs)"
  using assms by (rule one_class.ehe_Get_ok)

text \<open>
  \<open>KVEngineMap\<close> over the allocator without fast lists holds values of any mix of sizes:
  unless memory is out, a \<open>Put\<close> stores exactly its value, and \<open>Get\<close> answers what is stored.
\<close>

theorem mape_Put_Get_correct:
  assumes "mape_rep loop_vt mixed_inv e M" and "ok_size (int (length bs))" and "\<not> pre_known_value_size e"
  shows "\<exists>e'. mape_Put loop_vt k bs e = Inr e' \<and>
    ((\<exists>m. loop_New (int (length bs)) (en_malloc e) = Inr (m, None)) \<and> mape_rep loop_vt mixed_inv e' M \<or>
     mape_rep loop_vt mixed_inv e' (M(k \<mapsto> bs)) \<and> mape_Get loop_vt k e' = Inr bs \<and>
     (\<forall>j. j \<noteq> k \<longrightarrow> mape_Get loop_vt j e' = mape_Get loop_vt j e))"
proof -
  from any_size.mape_Put_ok [OF assms(1,2), of k] assms(3) obtain e' where e': "mape_Put loop_vt k bs e = Inr e'"
    "(\<exists>m. loop_New (int (length bs)) (en_malloc e) = Inr (m, None)) \<and> mape_rep loop_vt mixed_inv e' M \<or>
     mape_rep loop_vt mixed_inv e' (M(k \<mapsto> bs))" by auto
  then show ?thesis
    using any_size.mape_Get_ok [OF assms(1)] any_size.mape_Get_ok [of e' "M(k \<mapsto> bs)"]
    by (intro exI [of _ e']) auto
qed

text \<open>
  \<open>KVEngineMap::clear\<close> gives back every allocation: whatever the order in which the map is
  walked, the store is empty afterwards and no allocation is live.
\<close>

theorem mape_clear_correct:
  assumes "mape_rep loop_vt mixed_inv e M" and "distinct keys" and "set keys = {k. en_index e k \<noteq> None}"
  shows "mape_rep loop_vt mixed_inv (mape_clear loop_vt keys e) Map.empty \<and>
    mixed_inv (en_malloc (mape_clear loop_vt keys e)) Map.empty"
  using assms by (rule any_size.mape_clear_ok)

end
