(* ===== verification/EngineRuns.thy ===== *)
theory EngineRuns
  imports KVEngines LoopRuns
begin

text \<open>
  The shared-memory engines on concrete stores: an empty store over a 64-block arena, with the
  fast lists (for the fixed-size engine) and without them (for the mixed-size one).
\<close>

definition demo_engine :: "(loop_malloc, ehash) engine" where
  "demo_engine = \<lparr>en_malloc = demo_arena, en_index = demo_table, en_value_size = 8\<rparr>"

definition demo_map_engine :: "loop_malloc map_engine" where
  "demo_map_engine = \<lparr>en_malloc = DisableFastMalloc demo_arena, en_index = Map.empty, en_value_size = 0,
     pre_known_value_size = False\<rparr>"

lemma demo_class_inv: "class_inv 1 demo_arena Map.empty"
  using loop_reach_invariant [OF demo_arena_reach, of 1]
  by (auto simp: class_inv_def loop_inv_def live_map_def sized_def demo_arena_fields intro!: exI [of _ "{}"])

lemma demo_mixed_inv: "mixed_inv (DisableFastMalloc demo_arena) Map.empty"
proof -
  have "loop_ok (DisableFastMalloc demo_arena) {}"
    using reach_ok [OF demo_arena_reach]
    by (simp add: loop_ok_def DisableFastMalloc_def arena_def fits_def header_ok_def Used_def Block_def)
  then show ?thesis using demo_arena_fields
    by (auto simp: mixed_inv_def loop_inv_def live_map_def sized_def DisableFastMalloc_def intro!: exI [of _ "{}"])
qed

lemma demo_engine_rep: "ehe_rep loop_vt (class_inv 1) demo_engine Map.empty"
  using demo_class_inv demo_table_ok
  by (auto simp: ehe_rep_def store_rep_def placed_def demo_engine_def eh_find_def eh_Get_lookup
      intro!: exI [of _ Map.empty])

lemma demo_map_engine_rep: "mape_rep loop_vt mixed_inv demo_map_engine Map.empty"
  using demo_mixed_inv
  by (auto simp: mape_rep_def store_rep_def placed_def demo_map_engine_def intro!: exI [of _ Map.empty])

lemma demo_request: "class_request 1 8" "eh_room (en_index demo_engine) 5"
  using ok8 demo_spread(1) by (auto simp: class_request_def eh_room_def demo_engine_def)

definition demo_value :: "u8 list" where "demo_value = [1, 2, 3, 4, 5, 6, 7, 8]"

lemma demo_not_full: "loop_New 8 demo_arena \<noteq> Inr (m, None)"
  using New_after_call [OF demo_answer1] by (simp del: after_call.simps)

theorem ehe_Put_correct_witness:
  "\<exists>e'. ehe_Put loop_vt 5 demo_value demo_engine = Some (Inr e') \<and> ehe_rep loop_vt (class_inv 1) e' [5 \<mapsto> demo_value]"
  using ehe_Put_correct [OF demo_engine_rep demo_keys_valid(1), of demo_value] demo_request demo_not_full
  by (auto simp: demo_engine_def demo_value_def)

theorem ehe_Get_correct_witness:
  "\<exists>e'. ehe_Put loop_vt 5 demo_value demo_engine = Some (Inr e') \<and> ehe_Get loop_vt 5 e' = demo_value"
proof -
  obtain e' where e': "ehe_Put loop_vt 5 demo_value demo_engine = Some (Inr e')"
    "ehe_rep loop_vt (class_inv 1) e' [5 \<mapsto> demo_value]"
    using one_class.ehe_Put_ok [OF demo_engine_rep demo_keys_valid(1), of demo_value] demo_request demo_not_full
    by (auto simp: demo_engine_def demo_value_def)
  from ehe_Get_correct [OF e'(2) demo_keys_valid(1)] e'(1) show ?thesis by auto
qed

theorem mape_Put_Get_correct_witness:
  "\<exists>e'. mape_Put loop_vt 5 demo_value demo_map_engine = Inr e' \<and>
    ((\<exists>m. loop_New 8 (en_malloc demo_map_engine) = Inr (m, None)) \<and> mape_rep loop_vt mixed_inv e' Map.empty \<or>
     mape_Get loop_vt 5 e' = Inr demo_value \<and> mape_Get loop_vt 6 e' = Inr [])"
proof -
  have "ok_size (int (length demo_value))" "\<not> pre_known_value_size demo_map_engine"
    using ok8 by (simp_all add: demo_value_def demo_map_engine_def)
  from mape_Put_Get_correct [OF demo_map_engine_rep this, of 5] obtain e' where e':
    "mape_Put loop_vt 5 demo_value demo_map_engine = Inr e'"
    "(\<exists>m. loop_New (int (length demo_value)) (en_malloc demo_map_engine) = Inr (m, None)) \<and>
       mape_rep loop_vt mixed_inv e' Map.empty \<or>
     mape_Get loop_vt 5 e' = Inr demo_value \<and> mape_Get loop_vt 6 e' = mape_Get loop_vt 6 demo_map_engine"
    by fastforce
  moreover have "mape_Get loop_vt 6 demo_map_engine = Inr []"
    by (simp add: mape_Get_def demo_map_engine_def)
  ultimately show ?thesis by (auto simp: demo_value_def)
qed

theorem mape_clear_correct_witness:
  "\<exists>e'. mape_Put loop_vt 5 demo_value demo_map_engine = Inr e' \<and>
    mape_rep loop_vt mixed_inv (mape_clear loop_vt (if en_index e' 5 = None then [] else [5]) e') Map.empty"
proof -
  have "ok_size (int (length demo_value))" "\<not> pre_known_value_size demo_map_engine"
    using ok8 by (simp_all add: demo_value_def demo_map_engine_def)
  then obtain e' M where e': "mape_Put loop_vt 5 demo_value demo_map_engine = Inr e'"
    "mape_rep loop_vt mixed_inv e' M" "M = Map.empty \<or> M = [5 \<mapsto> demo_value]"
    using any_size.mape_Put_ok [OF demo_map_engine_rep, of demo_value 5] by auto
  have "en_index e' j = None \<longleftrightarrow> M j = None" for j
    using e'(2) by (fastforce simp: mape_rep_def store_rep_def placed_def)
  then have "mape_rep loop_vt mixed_inv (mape_clear loop_vt (if en_index e' 5 = None then [] else [5]) e') Map.empty"
    using mape_clear_correct [OF e'(2), of "if en_index e' 5 = None then [] else [5]"] e'(3) by (auto split: if_splits)
  with e'(1) show ?thesis by auto
qed

end
