(* ===== verification/LruQueue.thy ===== *)
theory LruQueue
  imports Prelude
begin

text \<open>
  \<open>SimpleLRUCache\<close> of \<open>storage/hybrid/value.h\<close>: the recency queue of the hybrid store. Its
  list holds the keys from the most to the least recently touched one; the hash map of list
  positions beside it is kept as the set of keys it has. The reference it is compared with is
  the history of touches itself.
\<close>

record 'k lru =
  lru_capacity :: nat
  lru_order :: "'k list"
  lru_map :: "'k set"

definition lru_new :: "nat \<Rightarrow> 'k lru" where
  "lru_new n = \<lparr>lru_capacity = n, lru_order = [], lru_map = {}\<rparr>"

definition lru_insert :: "'k \<Rightarrow> 'k lru \<Rightarrow> 'k lru" where
  "lru_insert key c =
     (if key \<in> lru_map c then c\<lparr>lru_order := key # remove1 key (lru_order c)\<rparr>
      else
        let c1 = (if length (lru_order c) \<ge> lru_capacity c
                  then c\<lparr>lru_order := butlast (lru_order c), lru_map := lru_map c - {last (lru_order c)}\<rparr>
                  else c) in
        c1\<lparr>lru_order := key # lru_order c1, lru_map := insert key (lru_map c1)\<rparr>)"

fun evict_loop :: "nat \<Rightarrow> 'k list \<Rightarrow> 'k lru \<Rightarrow> 'k list \<times> 'k lru" where
  "evict_loop 0 evicted c = (evicted, c)"
| "evict_loop (Suc n) evicted c =
     (if lru_order c = [] then (evicted, c)
      else let key = last (lru_order c) in
        evict_loop n (evicted @ [key])
          (c\<lparr>lru_order := butlast (lru_order c), lru_map := lru_map c - {key}\<rparr>))"

definition lru_evictBatch :: "nat \<Rightarrow> 'k lru \<Rightarrow> 'k list \<times> 'k lru" where
  "lru_evictBatch batch_size c = evict_loop batch_size [] c"

section \<open>The list and the map agree\<close>

definition lru_ok :: "'k lru \<Rightarrow> bool" where
  "lru_ok c \<longleftrightarrow> distinct (lru_order c) \<and> lru_map c = set (lru_order c) \<and>
     length (lru_order c) \<le> lru_capacity c \<and> 0 < lru_capacity c"

lemma lru_new_ok: "0 < n \<Longrightarrow> lru_ok (lru_new n)"
  by (simp add: lru_ok_def lru_new_def)

lemma set_butlast_distinct: "distinct xs \<Longrightarrow> xs \<noteq> [] \<Longrightarrow> set (butlast xs) = set xs - {last xs}"
  by (cases xs rule: rev_cases) simp_all

definition lru_drop :: "'k lru \<Rightarrow> 'k lru" where
  "lru_drop c = c\<lparr>lru_order := butlast (lru_order c), lru_map := lru_map c - {last (lru_order c)}\<rparr>"

lemma lru_drop_simps [simp]:
  "lru_order (lru_drop c) = butlast (lru_order c)" "lru_capacity (lru_drop c) = lru_capacity c"
  "lru_map (lru_drop c) = lru_map c - {last (lru_order c)}"
  by (simp_all add: lru_drop_def)

lemma lru_ok_drop_last:
  assumes "lru_ok c" and "lru_order c \<noteq> []"
  shows "lru_ok (lru_drop c)"
proof -
  from assms(1) have "distinct (lru_order c)" "lru_map c = set (lru_order c)"
    "length (lru_order c) \<le> lru_capacity c" "0 < lru_capacity c" unfolding lru_ok_def by blast+
  with assms(2) show ?thesis
    unfolding lru_ok_def lru_drop_simps by (simp add: set_butlast_distinct distinct_butlast)
qed

lemma lru_ok_push:
  assumes "lru_ok c" and "k \<notin> lru_map c" and "length (lru_order c) < lru_capacity c"
  shows "lru_ok (c\<lparr>lru_order := k # lru_order c, lru_map := insert k (lru_map c)\<rparr>)"
  using assms by (simp add: lru_ok_def)

lemma lru_ok_front:
  assumes "lru_ok c" and "k \<in> lru_map c"
  shows "lru_ok (c\<lparr>lru_order := k # remove1 k (lru_order c)\<rparr>)"
proof -
  from assms have k: "k \<in> set (lru_order c)" "distinct (lru_order c)" by (simp_all add: lru_ok_def)
  then have "length (remove1 k (lru_order c)) = length (lru_order c) - 1" "0 < length (lru_order c)"
    by (auto simp: length_remove1)
  with k assms(1) show ?thesis by (auto simp: lru_ok_def)
qed

lemma lru_insert_cases:
  "lru_insert k c =
     (if k \<in> lru_map c then c\<lparr>lru_order := k # remove1 k (lru_order c)\<rparr>
      else let c1 = (if length (lru_order c) \<ge> lru_capacity c then lru_drop c else c) in
        c1\<lparr>lru_order := k # lru_order c1, lru_map := insert k (lru_map c1)\<rparr>)"
  by (simp add: lru_insert_def lru_drop_def)

lemma lru_insert_ok:
  assumes c: "lru_ok c"
  shows "lru_ok (lru_insert k c)" and "lru_capacity (lru_insert k c) = lru_capacity c"
proof -
  show "lru_capacity (lru_insert k c) = lru_capacity c" by (simp add: lru_insert_def Let_def)
  show "lru_ok (lru_insert k c)"
  proof (cases "k \<in> lru_map c")
    case True
    with lru_ok_front [OF c True] show ?thesis by (simp add: lru_insert_def)
  next
    case False
    show ?thesis
    proof (cases "length (lru_order c) \<ge> lru_capacity c")
      case full: True
      with c have ne: "lru_order c \<noteq> []" by (auto simp: lru_ok_def)
      have "length (butlast (lru_order c)) < lru_capacity c"
        using c ne by (cases "lru_order c" rule: rev_cases) (auto simp: lru_ok_def)
      with lru_ok_push [OF lru_ok_drop_last [OF c ne], of k] False full show ?thesis
        by (simp add: lru_insert_cases)
    next
      case room: False
      with lru_ok_push [OF c False] False show ?thesis by (simp add: lru_insert_cases)
    qed
  qed
qed

lemma evict_loop_eq:
  assumes "lru_ok c"
  shows "fst (evict_loop n ev c) = ev @ take n (rev (lru_order c)) \<and> lru_ok (snd (evict_loop n ev c)) \<and>
    lru_order (snd (evict_loop n ev c)) = rev (drop n (rev (lru_order c)))"
  using assms
proof (induction n ev c rule: evict_loop.induct)
  case (1 ev c)
  then show ?case by simp
next
  case (2 n ev c)
  show ?case
  proof (cases "lru_order c = []")
    case True
    with 2 show ?thesis by simp
  next
    case False
    note IH = 2(1) [OF False refl lru_ok_drop_last [OF 2(2) False, unfolded lru_drop_def]]
    have R: "rev (lru_order c) = last (lru_order c) # rev (butlast (lru_order c))"
      using False by (cases "lru_order c" rule: rev_cases) auto
    from IH False show ?thesis unfolding R by (simp add: Let_def)
  qed
qed

section \<open>The list is the history of touches\<close>

lemma remdups_snoc: "remdups (ks @ [k]) = removeAll k (remdups ks) @ [k]"
  by (induction ks) auto

lemma take_removeAll_notin: "k \<notin> set (take n xs) \<Longrightarrow> take n (removeAll k xs) = take n xs"
proof (induction xs arbitrary: n)
  case (Cons x xs)
  then show ?case by (cases n) auto
qed simp

lemma remove1_take:
  assumes "distinct xs" and "k \<in> set (take (Suc n) xs)"
  shows "remove1 k (take (Suc n) xs) = take n (removeAll k xs)"
  using assms
proof (induction xs arbitrary: n)
  case (Cons x xs)
  show ?case
  proof (cases "x = k")
    case True
    with Cons.prems(1) show ?thesis by (simp add: removeAll_id)
  next
    case False
    with Cons.prems(2) obtain m where n: "n = Suc m" by (cases n) auto
    have "remove1 k (take (Suc m) xs) = take m (removeAll k xs)"
      using Cons.IH [of m] Cons.prems False n by auto
    with False n show ?thesis by simp
  qed
qed simp

lemma lru_insert_keys: "set (lru_order (lru_insert k c)) \<subseteq> insert k (set (lru_order c))"
  by (auto simp: lru_insert_def Let_def dest: in_set_butlastD notin_set_remove1)

lemma evict_keys:
  "set (fst (evict_loop n ev c)) \<subseteq> set ev \<union> set (lru_order c) \<and>
   set (lru_order (snd (evict_loop n ev c))) \<subseteq> set (lru_order c)"
proof (induction n ev c rule: evict_loop.induct)
  case (2 n ev c)
  show ?case
  proof (cases "lru_order c = []")
    case False
    with 2 [OF False refl] show ?thesis by (auto simp: Let_def dest: in_set_butlastD)
  qed simp
qed simp

lemma fold_insert_ok:
  "lru_ok c \<Longrightarrow> lru_ok (fold lru_insert ks c) \<and> lru_capacity (fold lru_insert ks c) = lru_capacity c"
proof (induction ks arbitrary: c)
  case (Cons k ks)
  from Cons.IH [OF lru_insert_ok(1) [OF Cons.prems], of k] lru_insert_ok(2) [OF Cons.prems, of k]
  show ?case by simp
qed simp

lemma lru_touches:
  assumes "0 < n"
  shows "lru_order (fold lru_insert ks (lru_new n)) = take n (rev (remdups ks))"
proof -
  obtain m where m: "n = Suc m" using assms by (cases n) auto
  show ?thesis
  proof (induction ks rule: rev_induct)
    case Nil
    then show ?case by (simp add: lru_new_def)
  next
    case (snoc k ks)
    let ?c = "fold lru_insert ks (lru_new n)" and ?R = "rev (remdups ks)"
    from fold_insert_ok [OF lru_new_ok [OF assms], of ks] have ok: "lru_ok ?c" "lru_capacity ?c = n"
      by (auto simp: lru_new_def)
    have R: "distinct ?R" by simp
    have "rev (removeAll k xs) = removeAll k (rev xs)" for xs :: "'a list"
      by (simp add: removeAll_filter_not_eq rev_filter)
    then have goal: "take n (rev (remdups (ks @ [k]))) = k # take m (removeAll k ?R)"
      by (simp add: remdups_snoc m)
    have mem: "k \<in> lru_map ?c \<longleftrightarrow> k \<in> set (take n ?R)" using ok(1) snoc by (simp add: lru_ok_def)
    let ?d = "lru_insert k ?c"
    have fold: "fold lru_insert (ks @ [k]) (lru_new n) = ?d" by simp
    show ?case
    proof (cases "k \<in> set (take n ?R)")
      case True
      with mem have "lru_order ?d = k # remove1 k (lru_order ?c)" by (simp add: lru_insert_cases)
      also have "\<dots> = k # take m (removeAll k ?R)"
        unfolding snoc using remove1_take [OF R, of k m] True m by simp
      finally show ?thesis unfolding fold goal .
    next
      case False
      have "set (take m ?R) \<subseteq> set (take n ?R)" using m by (intro set_take_subset_set_take) simp
      with False have "k \<notin> set (take m ?R)" by blast
      then have tk: "take m (removeAll k ?R) = take m ?R" by (rule take_removeAll_notin)
      have "butlast (take n ?R) = take m ?R" if "n \<le> length (take n ?R)"
        using that m by (simp add: butlast_take)
      moreover have "take n ?R = take m ?R" if "\<not> n \<le> length (take n ?R)"
        using that m by simp
      moreover have "lru_order ?d = k # (if n \<le> length (lru_order ?c) then butlast (lru_order ?c) else lru_order ?c)"
        using mem False ok(2) by (simp add: lru_insert_cases Let_def)
      ultimately have "lru_order ?d = k # take m ?R" unfolding snoc by (simp split: if_splits)
      then show ?thesis unfolding fold goal tk .
    qed
  qed
qed

text \<open>
  C23: After any sequence of touches the queue is the last \<open>n\<close> distinct keys of the history, the
  latest first, and \<open>evictBatch\<close> answers those of them that were touched longest ago, oldest
  first.
\<close>

theorem lru_is_recency:
  assumes "0 < n"
  shows "lru_order (fold lru_insert ks (lru_new n)) = take n (rev (remdups ks)) \<and>
    fst (lru_evictBatch b (fold lru_insert ks (lru_new n))) = take b (rev (take n (rev (remdups ks)))) \<and>
    lru_ok (snd (lru_evictBatch b (fold lru_insert ks (lru_new n))))"
  using lru_touches [OF assms, of ks] fold_insert_ok [OF lru_new_ok [OF assms], of ks]
    evict_loop_eq [of "fold lru_insert ks (lru_new n)" b "[]"]
  by (simp only: lru_evictBatch_def append_Nil)

theorem lru_is_recency_witness:
  "lru_order (fold lru_insert [1, 2, 3, 1, 4] (lru_new 3)) = [4, 1, 3 :: nat] \<and>
   fst (lru_evictBatch 2 (fold lru_insert [1, 2, 3, 1, 4] (lru_new 3))) = [3, 1 :: nat]"
proof -
  have "take 3 (rev (remdups [1, 2, 3, 1, 4])) = [4, 1, 3 :: nat]" by simp
  with lru_is_recency [of 3 "[1, 2, 3, 1, 4 :: nat]" 2] show ?thesis by (simp del: fold.simps)
qed

end
