(* ===== verification/BlockHeap.thy ===== *)
theory BlockHeap
  imports MallocApi
begin

unbundle bit_operations_syntax

text \<open>
  An allocator seen as a heap of byte blocks: a partial map from the address of every live
  allocation to its contents. The operations of a \<open>MallocApi\<close> act on that heap as one would
  expect; writing part of a block needs one law more, which \<open>malloc_bytes\<close> adds to the contract
  \<open>malloc_client\<close>.
\<close>

section \<open>Writing inside a block\<close>

definition write_part :: "nat \<Rightarrow> u8 list \<Rightarrow> u8 list \<Rightarrow> u8 list" where
  "write_part d bs old = take d old @ bs @ drop (d + length bs) old"

lemma length_write_part [simp]: "d + length bs \<le> length old \<Longrightarrow> length (write_part d bs old) = length old"
  by (simp add: write_part_def)

locale malloc_bytes = malloc_client V minv request_ok
  for V :: "'m malloc_vt" and minv :: "'m \<Rightarrow> (int \<Rightarrow> int option) \<Rightarrow> bool" and request_ok :: "int \<Rightarrow> bool" +
  assumes put_at: "minv m A \<Longrightarrow> A p = Some n \<Longrightarrow> int (d + length bs) \<le> n \<Longrightarrow>
    vt_put V (p + int d) bs m = vt_put V p (write_part d bs (vt_bytes V m p (nat n))) m"

definition holds ::
  "'m malloc_vt \<Rightarrow> ('m \<Rightarrow> (int \<Rightarrow> int option) \<Rightarrow> bool) \<Rightarrow> 'm \<Rightarrow> (int \<Rightarrow> u8 list option) \<Rightarrow> bool" where
  "holds V minv m C \<longleftrightarrow>
     minv m (\<lambda>p. map_option (\<lambda>bs. int (length bs)) (C p)) \<and>
     (\<forall>p bs. C p = Some bs \<longrightarrow> vt_bytes V m p (length bs) = bs)"

lemma holds_bytes: "holds V minv m C \<Longrightarrow> C p = Some bs \<Longrightarrow> vt_bytes V m p (length bs) = bs"
  unfolding holds_def by blast

context malloc_bytes
begin

lemma heap_New:
  assumes h: "holds V minv m C" and b: "request_ok (int n)"
  obtains (null) m' where "vt_New V (int n) m = Inr (m', None)" "holds V minv m' C"
  | (block) m' p bs where "vt_New V (int n) m = Inr (m', Some p)" "C p = None" "length bs = n"
      "holds V minv m' (C(p \<mapsto> bs))"
proof -
  let ?A = "\<lambda>p. map_option (\<lambda>bs. int (length bs)) (C p)"
  from h have inv: "minv m ?A" and bytes: "\<And>p bs. C p = Some bs \<Longrightarrow> vt_bytes V m p (length bs) = bs"
    by (auto simp: holds_def)
  from New [OF inv b] obtain m' r where N: "vt_New V (int n) m = Inr (m', r)"
    and keep: "\<forall>p n. ?A p = Some n \<longrightarrow> vt_bytes V m' p (nat n) = vt_bytes V m p (nat n)"
    and r: "case r of None \<Rightarrow> minv m' ?A | Some p \<Rightarrow> ?A p = None \<and> minv m' (?A(p \<mapsto> int n))" by blast
  have old: "vt_bytes V m' p (length bs) = bs" if "C p = Some bs" for p bs
    using keep bytes [OF that] that by fastforce
  show thesis
  proof (cases r)
    case None
    with r old have "holds V minv m' C" by (simp add: holds_def)
    with N None show ?thesis by (intro null) auto
  next
    case (Some p)
    with r have p: "C p = None" "minv m' (?A(p \<mapsto> int n))" by auto
    let ?bs = "vt_bytes V m' p n"
    have "(\<lambda>q. map_option (\<lambda>bs. int (length bs)) ((C(p \<mapsto> ?bs)) q)) = ?A(p \<mapsto> int n)" by auto
    with p old have "holds V minv m' (C(p \<mapsto> ?bs))" by (auto simp: holds_def simp del: fun_upd_apply) (auto split: if_splits)
    with N Some p show ?thesis by (intro block [of m' p ?bs]) auto
  qed
qed

lemma heap_Free:
  assumes h: "holds V minv m C" and p: "C p = Some bs"
  obtains m' where "vt_Free V (Some p) m = (m', True)" "holds V minv m' (C(p := None))"
proof -
  let ?A = "\<lambda>p. map_option (\<lambda>bs. int (length bs)) (C p)"
  from h have inv: "minv m ?A" and bytes: "\<And>p bs. C p = Some bs \<Longrightarrow> vt_bytes V m p (length bs) = bs"
    by (auto simp: holds_def)
  from p have "?A p = Some (int (length bs))" by simp
  from Free [OF inv this] obtain m' where F: "vt_Free V (Some p) m = (m', True)" "minv m' (?A(p := None))"
    "\<forall>q k. q \<noteq> p \<and> ?A q = Some k \<longrightarrow> vt_bytes V m' q (nat k) = vt_bytes V m q (nat k)" by blast
  have "(\<lambda>q. map_option (\<lambda>bs. int (length bs)) ((C(p := None)) q)) = ?A(p := None)" by auto
  moreover have "vt_bytes V m' q (length cs) = cs" if "(C(p := None)) q = Some cs" for q cs
  proof -
    from that have q: "q \<noteq> p" "C q = Some cs" by (auto split: if_splits)
    with F(3) have "vt_bytes V m' q (nat (int (length cs))) = vt_bytes V m q (nat (int (length cs)))" by fastforce
    with bytes [OF q(2)] show ?thesis by simp
  qed
  ultimately have "holds V minv m' (C(p := None))" unfolding holds_def using F(2) by simp
  with F(1) show thesis by (rule that)
qed

lemma heap_put:
  assumes h: "holds V minv m C" and p: "C p = Some old" and len: "d + length bs \<le> length old"
  shows "holds V minv (vt_put V (p + int d) bs m) (C(p \<mapsto> write_part d bs old))"
proof -
  let ?A = "\<lambda>p. map_option (\<lambda>bs. int (length bs)) (C p)" and ?cs = "vt_bytes V m p d @ bs @ drop (d + length bs) old"
  from h have inv: "minv m ?A" and bytes: "\<And>p bs. C p = Some bs \<Longrightarrow> vt_bytes V m p (length bs) = bs"
    by (auto simp: holds_def)
  from p have Ap: "?A p = Some (int (length old))" by simp
  let ?cs = "write_part d bs old"
  have cs: "length ?cs = length old" using len by simp
  have e: "vt_put V (p + int d) bs m = vt_put V p ?cs m"
    using put_at [OF inv Ap, of d bs] len bytes [OF p] by simp
  from put [OF inv Ap, of ?cs] cs have P: "minv (vt_put V p ?cs m) ?A" "vt_bytes V (vt_put V p ?cs m) p (length ?cs) = ?cs"
    "\<forall>q k. q \<noteq> p \<and> ?A q = Some k \<longrightarrow> vt_bytes V (vt_put V p ?cs m) q (nat k) = vt_bytes V m q (nat k)" by auto
  have A: "(\<lambda>q. map_option (\<lambda>bs. int (length bs)) ((C(p \<mapsto> ?cs)) q)) = ?A"
    using p cs by (auto simp: fun_eq_iff)
  have "vt_bytes V (vt_put V p ?cs m) q (length xs) = xs" if "(C(p \<mapsto> ?cs)) q = Some xs" for q xs
  proof (cases "q = p")
    case True
    with that P(2) show ?thesis by simp
  next
    case False
    with that have q: "C q = Some xs" by simp
    with False P(3) have "vt_bytes V (vt_put V p ?cs m) q (nat (int (length xs))) = vt_bytes V m q (nat (int (length xs)))"
      by fastforce
    with bytes [OF q] show ?thesis by simp
  qed
  with P(1) show ?thesis unfolding holds_def A e by blast
qed

end


section \<open>\<open>PersistLoopShmMalloc\<close>\<close>

lemma put_byte_same: "i < 8 \<Longrightarrow> put_byte w i (get_byte w i) = w"
  by (rule bit_word_eqI) (auto simp: bit_put_byte get_byte_def bit_simps)

lemma loop_put1_same: "0 \<le> p \<Longrightarrow> loop_put1 p (loop_get s p) s = s"
  by (simp add: loop_put1_def loop_get_def put_byte_same set_Block_def Block_def)

lemma loop_put_append: "loop_put p (as @ bs) s = loop_put (p + int (length as)) bs (loop_put p as s)"
  by (induction as arbitrary: p s) (simp_all add: ac_simps)

lemma vt_get_loop: "vt_get loop_vt = loop_get"
  by (simp add: loop_vt_def)

lemma vt_bytes_Suc: "vt_bytes V m p (Suc n) = vt_get V m p # vt_bytes V m (p + 1) n"
  by (intro nth_equalityI) (auto simp: vt_bytes_def nth_Cons ac_simps simp del: upt_Suc split: nat.splits)

lemma loop_put_same: "0 \<le> p \<Longrightarrow> loop_put p (vt_bytes loop_vt s p n) s = s"
proof (induction n arbitrary: p)
  case 0
  then show ?case by (simp add: vt_bytes_def)
next
  case (Suc n)
  then show ?case by (simp add: vt_bytes_Suc vt_get_loop loop_put1_same)
qed

lemma vt_bytes_loop_put_other:
  assumes "0 \<le> p" and "0 \<le> q" and "q + int n \<le> p \<or> p + int (length bs) \<le> q"
  shows "vt_bytes loop_vt (loop_put p bs s) q n = vt_bytes loop_vt s q n"
  using assms by (intro nth_equalityI) (auto simp: vt_bytes_def vt_get_loop loop_get_put)

lemma drop_vt_bytes: "drop k (vt_bytes V m p n) = vt_bytes V m (p + int k) (n - k)"
  by (intro nth_equalityI) (auto simp: vt_bytes_def ac_simps)

lemma take_vt_bytes: "k \<le> n \<Longrightarrow> take k (vt_bytes V m p n) = vt_bytes V m p k"
  by (intro nth_equalityI) (auto simp: vt_bytes_def)

lemma loop_put_at:
  assumes "0 \<le> p" and "d + length bs \<le> n"
  shows "loop_put (p + int d) bs s = loop_put p (write_part d bs (vt_bytes loop_vt s p n)) s"
proof -
  let ?rest = "vt_bytes loop_vt s (p + int (d + length bs)) (n - (d + length bs))"
  have w: "write_part d bs (vt_bytes loop_vt s p n) = vt_bytes loop_vt s p d @ bs @ ?rest"
    using assms(2) by (simp add: write_part_def take_vt_bytes drop_vt_bytes)
  have "loop_put (p + int (d + length bs)) ?rest (loop_put (p + int d) bs s) = loop_put (p + int d) bs s"
    using loop_put_same [of "p + int (d + length bs)" "loop_put (p + int d) bs s" "n - (d + length bs)"]
      vt_bytes_loop_put_other [of "p + int d" "p + int (d + length bs)" "n - (d + length bs)" bs s] assms(1)
    by simp
  then show ?thesis
    unfolding w loop_put_append using assms(1) by (simp add: loop_put_same ac_simps)
qed

interpretation one_class_bytes: malloc_bytes loop_vt "class_inv n" "class_request n"
proof
  fix m A p b d and bs :: "u8 list"
  assume inv: "class_inv n m A" and p: "A p = Some b" and len: "int (d + length bs) \<le> b"
  from one_class.addr [OF inv p] have "0 \<le> p" by simp
  with loop_put_at [of p d bs "nat b" m] len
  show "vt_put loop_vt (p + int d) bs m = vt_put loop_vt p (write_part d bs (vt_bytes loop_vt m p (nat b))) m"
    by (simp add: loop_vt_def)
qed

interpretation any_size_bytes: malloc_bytes loop_vt mixed_inv ok_size
proof
  fix m A p b d and bs :: "u8 list"
  assume inv: "mixed_inv m A" and p: "A p = Some b" and len: "int (d + length bs) \<le> b"
  from any_size.addr [OF inv p] have "0 \<le> p" by simp
  with loop_put_at [of p d bs "nat b" m] len
  show "vt_put loop_vt (p + int d) bs m = vt_put loop_vt p (write_part d bs (vt_bytes loop_vt m p (nat b))) m"
    by (simp add: loop_vt_def)
qed

end
