(* ===== verification/HybridStore.thy ===== *)
theory HybridStore
  imports BlockHeap KVEngines LruQueue
begin

unbundle bit_operations_syntax

text \<open>
  \<open>ValueManager\<close> of \<open>storage/hybrid/value.h\<close> and the engine \<open>KVEngineHybrid\<close> above it: values
  live in a shared-memory allocator or in a disk-backed one, small ones inside the index word,
  and a background thread moves them between the tiers. Writer and evictor are given step by
  step, each critical section one step, so that their interleavings can be written down.

  The operations are over any two allocators behind \<open>MallocApi\<close> and any \<open>Index\<close>, which come as
  tables of functions in a record \<open>tiers\<close>. Memory addresses are \<open>vm_base\<close> plus the offset in
  the data area. The disk allocator's area is a shared mapping of the file that \<open>pwrite\<close> writes
  at \<open>DataBaseOffset\<close>, so a \<open>pwrite\<close> is a write through the mapping; which calls fail is given
  by a \<open>disk_io\<close>. The water marks, computed in floating point, are fields of the state.
\<close>

section \<open>The index interface\<close>

record 'i index_vt =
  ix_Get :: "u64 \<Rightarrow> 'i \<Rightarrow> u64"
  ix_Put :: "u64 \<Rightarrow> u64 \<Rightarrow> 'i \<Rightarrow> 'i option"

text \<open>\<open>room i k\<close>: the table can take the key \<open>k\<close>.\<close>

locale value_index =
  fixes X :: "'i index_vt" and iinv :: "'i \<Rightarrow> bool" and room :: "'i \<Rightarrow> u64 \<Rightarrow> bool" and key_ok :: "u64 \<Rightarrow> bool"
  assumes Put: "iinv i \<Longrightarrow> key_ok k \<Longrightarrow> room i k \<Longrightarrow> v \<noteq> NONE \<Longrightarrow>
      \<exists>i'. ix_Put X k v i = Some i' \<and> iinv i' \<and> ix_Get X k i' = v \<and>
        (\<forall>j. key_ok j \<and> j \<noteq> k \<longrightarrow> ix_Get X j i' = ix_Get X j i) \<and>
        (\<forall>j. key_ok j \<and> (j = k \<or> ix_Get X j i \<noteq> NONE \<or> ix_Get X k i \<noteq> NONE \<and> room i j) \<longrightarrow> room i' j)"

definition eh_vt :: "ehash index_vt" where
  "eh_vt = \<lparr>ix_Get = eh_Get, ix_Put = eh_Put eh_fuel\<rparr>"

section \<open>State\<close>

record ('m, 'n, 'i) tiers =
  t_shm :: "'m malloc_vt"
  t_ssd :: "'n malloc_vt"
  t_index :: "'i index_vt"
  t_hash :: "u64 \<Rightarrow> u64"

record ('m, 'n, 'i) value_manager =
  vm_shm :: 'm
  vm_ssd :: 'n
  vm_index :: 'i
  vm_base :: int
  vm_lru :: "u64 lru"
  vm_hot :: "u64 \<Rightarrow> u8 option"
  vm_used :: u64
  vm_capacity :: u64
  vm_low :: u64
  vm_stop :: bool
  vm_need_evict :: bool

record disk_io =
  io_len :: bool
  io_data :: bool
  io_sync :: bool

definition kPromoteThreshold :: u8 where "kPromoteThreshold = 8"

definition TouchLRU :: "u64 \<Rightarrow> ('m, 'n, 'i) value_manager \<Rightarrow> ('m, 'n, 'i) value_manager" where
  "TouchLRU key s = s\<lparr>vm_lru := lru_insert key (vm_lru s)\<rparr>"

section \<open>Reading and writing a value's block\<close>

text \<open>A block is two length bytes, low byte first, and the value.\<close>

definition read_len :: "'m malloc_vt \<Rightarrow> 'm \<Rightarrow> int \<Rightarrow> u16" where
  "read_len V m p = ucast (vt_get V m p) OR push_bit 8 (ucast (vt_get V m (p + 1)))"

definition lenle :: "u16 \<Rightarrow> u8 list" where
  "lenle l = [ucast (l AND 255), ucast (drop_bit 8 l AND 255)]"

definition mem_offset :: "('m, 'n, 'i) value_manager \<Rightarrow> u64 \<Rightarrow> int" where
  "mem_offset s ptr = uint ptr - vm_base s"

definition PeekLenMem ::
  "('m, 'n, 'i) tiers \<Rightarrow> unified_pointer \<Rightarrow> ('m, 'n, 'i) value_manager \<Rightarrow> u16 result" where
  "PeekLenMem E p s =
     bind_result (up_as_memory_pointer p) (\<lambda>a. Inr (read_len (t_shm E) (vm_shm s) (mem_offset s a)))"

definition ReadFromMemRaw ::
  "('m, 'n, 'i) tiers \<Rightarrow> unified_pointer \<Rightarrow> ('m, 'n, 'i) value_manager \<Rightarrow> u8 list result" where
  "ReadFromMemRaw E p s =
     bind_result (up_as_memory_pointer p) (\<lambda>a.
       let bytes = mem_offset s a; len = read_len (t_shm E) (vm_shm s) bytes in
       Inr (vt_bytes (t_shm E) (vm_shm s) (bytes + 2) (unat len)))"

definition ReadFromDiskNoHeat ::
  "('m, 'n, 'i) tiers \<Rightarrow> unified_pointer \<Rightarrow> ('m, 'n, 'i) value_manager \<Rightarrow> u8 list result" where
  "ReadFromDiskNoHeat E p s =
     bind_result (up_as_disk_page_id p) (\<lambda>pool_off.
       case vt_GetMallocData (t_ssd E) (vm_ssd s) (sint pool_off) of
         None \<Rightarrow> Inl Bad_access
       | Some disk_ptr \<Rightarrow>
           Inr (vt_bytes (t_ssd E) (vm_ssd s) (disk_ptr + 2) (unat (read_len (t_ssd E) (vm_ssd s) disk_ptr))))"

text \<open>The small values of \<open>PMem\<close> pointers: seven length bits above 54 value bits.\<close>

definition inline_word :: "u8 list \<Rightarrow> u64" where
  "inline_word value =
     push_bit 54 (of_nat (length value)) OR (le_word value AND (push_bit 54 1 - 1))"

definition inline_value :: "u64 \<Rightarrow> u8 list result" where
  "inline_value raw_val =
     (let len = (ucast (drop_bit 54 raw_val) :: u8); data_val = raw_val AND (push_bit 54 1 - 1) in
      if unat len > 8 then Inl Bad_access
      else Inr (map (get_byte data_val) [0..<unat len]))"

section \<open>Writing to a tier\<close>

definition FreePointer ::
  "('m, 'n, 'i) tiers \<Rightarrow> unified_pointer \<Rightarrow> ('m, 'n, 'i) value_manager \<Rightarrow> ('m, 'n, 'i) value_manager result" where
  "FreePointer E p s =
     (if \<not> up_bool p \<or> up_type p = PMem then Inr s
      else if up_type p = Memory then
        bind_result (up_as_memory_pointer p) (\<lambda>a.
          let mem_ptr = mem_offset s a; data_len = read_len (t_shm E) (vm_shm s) mem_ptr in
          Inr (s\<lparr>vm_shm := fst (vt_Free (t_shm E) (Some mem_ptr) (vm_shm s)),
                 vm_used := vm_used s - (ucast data_len + 2)\<rparr>))
      else
        bind_result (up_as_disk_page_id p) (\<lambda>off.
          Inr (s\<lparr>vm_ssd := fst (vt_Free (t_ssd E) (vt_GetMallocData (t_ssd E) (vm_ssd s) (sint off)) (vm_ssd s))\<rparr>)))"

definition WriteMem ::
  "('m, 'n, 'i) tiers \<Rightarrow> u64 \<Rightarrow> u8 list \<Rightarrow> ('m, 'n, 'i) value_manager \<Rightarrow>
   (('m, 'n, 'i) value_manager \<times> unified_pointer) result" where
  "WriteMem E key value s =
     (if 0 < length value \<and> length value \<le> 7 then
        bind_result (up_from_pmem (inline_word value)) (\<lambda>p. Inr (s, p))
      else if length value > 65535 then Inr (s, up_default)
      else
        let data_len = (of_nat (length value) :: u16); total_size = 2 + int (unat data_len) in
        bind_result (vt_New (t_shm E) total_size (vm_shm s)) (\<lambda>(m, r).
          case r of
            None \<Rightarrow> Inr (s\<lparr>vm_shm := m\<rparr>, up_default)
          | Some ptr \<Rightarrow>
              let m1 = vt_put (t_shm E) ptr (lenle data_len) m;
                  m2 = (if data_len \<noteq> 0 then vt_put (t_shm E) (ptr + 2) value m1 else m1);
                  s' = s\<lparr>vm_shm := m2, vm_used := vm_used s + of_int total_size,
                         vm_lru := lru_insert key (vm_lru s)\<rparr> in
              bind_result (up_from_memory (word_of_int (vm_base s + ptr))) (\<lambda>p. Inr (s', p))))"

definition WriteDisk ::
  "('m, 'n, 'i) tiers \<Rightarrow> disk_io \<Rightarrow> u8 list \<Rightarrow> ('m, 'n, 'i) value_manager \<Rightarrow>
   (('m, 'n, 'i) value_manager \<times> unified_pointer) result" where
  "WriteDisk E io value s =
     (if length value > 65535 then Inr (s, up_default)
      else
        let data_len = (of_nat (length value) :: u16); total_size = 2 + int (unat data_len);
            fail = (\<lambda>ptr m. Inr (s\<lparr>vm_ssd := fst (vt_Free (t_ssd E) (Some ptr) m)\<rparr>, up_default)) in
        bind_result (vt_New (t_ssd E) total_size (vm_ssd s)) (\<lambda>(m, r).
          case r of
            None \<Rightarrow> Inr (s\<lparr>vm_ssd := m\<rparr>, up_default)
          | Some disk_ptr \<Rightarrow>
              let pool_off = vt_GetMallocOffset (t_ssd E) m disk_ptr in
              if pool_off = -1 then fail disk_ptr m
              else if \<not> io_len io then fail disk_ptr m
              else let m1 = vt_put (t_ssd E) pool_off (lenle data_len) m in
              if data_len \<noteq> 0 \<and> \<not> io_data io then fail disk_ptr m1
              else let m2 = (if data_len \<noteq> 0 then vt_put (t_ssd E) (pool_off + 2) value m1 else m1) in
              if \<not> io_sync io then fail disk_ptr m2
              else bind_result (up_from_disk_page_id (word_of_int pool_off)) (\<lambda>p.
                     Inr (s\<lparr>vm_ssd := m2\<rparr>, p))))"

section \<open>\<open>WriteValue\<close> and \<open>RetrieveValue\<close>\<close>

text \<open>The first critical section: a value of the same length is overwritten in place.\<close>

definition write_in_place ::
  "('m, 'n, 'i) tiers \<Rightarrow> u64 \<Rightarrow> u8 list \<Rightarrow> ('m, 'n, 'i) value_manager \<Rightarrow>
   ('m, 'n, 'i) value_manager option result" where
  "write_in_place E key value s =
     (let old_raw = ix_Get (t_index E) key (vm_index s); oldp = up_from_raw old_raw in
      if old_raw = 0 then Inr None
      else if up_type oldp = Memory then
        bind_result (PeekLenMem E oldp s) (\<lambda>old_len.
          if unat old_len = length value then
            bind_result (up_as_memory_pointer oldp) (\<lambda>a.
              Inr (Some (TouchLRU key (s\<lparr>vm_shm := vt_put (t_shm E) (mem_offset s a + 2) value (vm_shm s)\<rparr>))))
          else Inr None)
      else if up_type oldp = Disk then
        bind_result (up_as_disk_page_id oldp) (\<lambda>pool_off.
          case vt_GetMallocData (t_ssd E) (vm_ssd s) (sint pool_off) of
            None \<Rightarrow> Inl Bad_access
          | Some disk_ptr \<Rightarrow>
              if unat (read_len (t_ssd E) (vm_ssd s) disk_ptr) = length value
              then Inr (Some (s\<lparr>vm_ssd := vt_put (t_ssd E) (disk_ptr + 2) value (vm_ssd s)\<rparr>))
              else Inr None)
      else Inr None)"

text \<open>The second: the index takes the new pointer; the old one is answered.\<close>

definition publish ::
  "('m, 'n, 'i) tiers \<Rightarrow> u64 \<Rightarrow> unified_pointer \<Rightarrow> ('m, 'n, 'i) value_manager \<Rightarrow>
   (('m, 'n, 'i) value_manager \<times> u64) result" where
  "publish E key p s =
     (case ix_Put (t_index E) key (up_raw p) (vm_index s) of
        None \<Rightarrow> Inl No_return
      | Some i \<Rightarrow> Inr (s\<lparr>vm_index := i\<rparr>, ix_Get (t_index E) key (vm_index s)))"

definition release_raw ::
  "('m, 'n, 'i) tiers \<Rightarrow> u64 \<Rightarrow> ('m, 'n, 'i) value_manager \<Rightarrow> ('m, 'n, 'i) value_manager result" where
  "release_raw E old_raw s = (if old_raw = 0 then Inr s else FreePointer E (up_from_raw old_raw) s)"

text \<open>
  \<open>wait\<close> is what the evictor does to the state while the writer sleeps for up to 5 ms; it fails when
  the evictor does.
\<close>

definition WriteValue ::
  "('m, 'n, 'i) tiers \<Rightarrow> disk_io \<Rightarrow> (('m, 'n, 'i) value_manager \<Rightarrow> ('m, 'n, 'i) value_manager result) \<Rightarrow>
   u64 \<Rightarrow> u8 list \<Rightarrow> ('m, 'n, 'i) value_manager \<Rightarrow> ('m, 'n, 'i) value_manager result" where
  "WriteValue E io wait key value s =
     bind_result (write_in_place E key value s) (\<lambda>r. case r of Some s' \<Rightarrow> Inr s' | None \<Rightarrow>
     bind_result (WriteMem E key value s) (\<lambda>(s1, p1).
     bind_result (if up_bool p1 then Inr s1 else wait (s1\<lparr>vm_need_evict := True\<rparr>)) (\<lambda>s2.
     if \<not> up_bool p1 \<and> vm_stop s2 then Inr s2 else
     bind_result (if up_bool p1 then Inr (s2, p1) else WriteMem E key value s2) (\<lambda>(s3, p3).
     bind_result (if up_bool p3 then Inr (s3, p3) else WriteDisk E io value s3) (\<lambda>(s4, p_write).
     if \<not> up_bool p_write then Inr s4 else
     bind_result (publish E key p_write s4) (\<lambda>(s5, old_raw).
     release_raw E old_raw s5))))))"

definition RetrieveValue ::
  "('m, 'n, 'i) tiers \<Rightarrow> u64 \<Rightarrow> ('m, 'n, 'i) value_manager \<Rightarrow>
   (('m, 'n, 'i) value_manager \<times> u8 list) result" where
  "RetrieveValue E key s =
     (let p = up_from_raw (ix_Get (t_index E) key (vm_index s)) in
      case up_type p of
        Memory \<Rightarrow> bind_result (ReadFromMemRaw E p s) (\<lambda>v. Inr (TouchLRU key s, v))
      | Disk \<Rightarrow>
          bind_result (ReadFromDiskNoHeat E p s) (\<lambda>v.
            let c = (case vm_hot s key of None \<Rightarrow> 0 | Some c \<Rightarrow> c);
                c' = (if c < kPromoteThreshold then c + 1 else c) in
            Inr (if t_hash E key AND 7 = 0 then s\<lparr>vm_hot := (vm_hot s)(key \<mapsto> c')\<rparr> else s, v))
      | PMem \<Rightarrow> bind_result (up_as_pmem_offset p) (\<lambda>raw_val.
                  bind_result (inline_value raw_val) (\<lambda>v. Inr (s, v)))
      | Invalid \<Rightarrow> Inr (s, []))"

section \<open>The evictor\<close>

text \<open>
  \<open>EvictAndPromoteLoop\<close>, one round. A move between the tiers is three steps: pick the pointer
  under the shared lock, copy the value without a lock, and swap the index entry under the
  exclusive lock if it still is the pointer picked.
\<close>

definition pick ::
  "('m, 'n, 'i) tiers \<Rightarrow> ptr_type \<Rightarrow> u64 \<Rightarrow> ('m, 'n, 'i) value_manager \<Rightarrow> unified_pointer option" where
  "pick E t key s =
     (let p = up_from_raw (ix_Get (t_index E) key (vm_index s)) in if up_type p \<noteq> t then None else Some p)"

definition swap_in ::
  "('m, 'n, 'i) tiers \<Rightarrow> u64 \<Rightarrow> unified_pointer \<Rightarrow> unified_pointer \<Rightarrow> ('m, 'n, 'i) value_manager \<Rightarrow>
   (('m, 'n, 'i) value_manager \<times> bool) result" where
  "swap_in E key old new s =
     (if ix_Get (t_index E) key (vm_index s) = up_raw old then
        bind_result (publish E key new s) (\<lambda>(s1, _).
        bind_result (FreePointer E old s1) (\<lambda>s2. Inr (s2, True)))
      else bind_result (FreePointer E new s) (\<lambda>s1. Inr (s1, False)))"

definition evict_copy ::
  "('m, 'n, 'i) tiers \<Rightarrow> disk_io \<Rightarrow> unified_pointer \<Rightarrow> ('m, 'n, 'i) value_manager \<Rightarrow>
   (('m, 'n, 'i) value_manager \<times> unified_pointer) result" where
  "evict_copy E io mem_ptr s = bind_result (ReadFromMemRaw E mem_ptr s) (\<lambda>value. WriteDisk E io value s)"

definition evict_one ::
  "('m, 'n, 'i) tiers \<Rightarrow> disk_io \<Rightarrow> u64 \<Rightarrow> ('m, 'n, 'i) value_manager \<Rightarrow> ('m, 'n, 'i) value_manager result" where
  "evict_one E io key s =
     (case pick E Memory key s of
        None \<Rightarrow> Inr s
      | Some mem_ptr \<Rightarrow>
          bind_result (evict_copy E io mem_ptr s) (\<lambda>(s1, ssd_ptr).
            if \<not> up_bool ssd_ptr then Inr (TouchLRU key s1)
            else bind_result (swap_in E key mem_ptr ssd_ptr s1) (\<lambda>(s2, _). Inr s2)))"

fun evict_victims ::
  "('m, 'n, 'i) tiers \<Rightarrow> disk_io \<Rightarrow> u64 list \<Rightarrow> ('m, 'n, 'i) value_manager \<Rightarrow>
   ('m, 'n, 'i) value_manager result" where
  "evict_victims E io [] s = Inr s"
| "evict_victims E io (key # keys) s =
     (if vm_used s \<le> vm_low s then Inr s
      else bind_result (evict_one E io key s) (evict_victims E io keys))"

definition evict_phase ::
  "('m, 'n, 'i) tiers \<Rightarrow> disk_io \<Rightarrow> ('m, 'n, 'i) value_manager \<Rightarrow> ('m, 'n, 'i) value_manager result" where
  "evict_phase E io s =
     (if vm_used s > vm_low s then
        (case lru_evictBatch 512 (vm_lru s) of (victims, l) \<Rightarrow> evict_victims E io victims (s\<lparr>vm_lru := l\<rparr>))
      else Inr s)"

definition promote_copy ::
  "('m, 'n, 'i) tiers \<Rightarrow> u64 \<Rightarrow> unified_pointer \<Rightarrow> ('m, 'n, 'i) value_manager \<Rightarrow>
   (('m, 'n, 'i) value_manager \<times> unified_pointer) result" where
  "promote_copy E key disk_ptr s = bind_result (ReadFromDiskNoHeat E disk_ptr s) (\<lambda>value. WriteMem E key value s)"

text \<open>The flag answered says that the scan is to stop.\<close>

definition promote_one ::
  "('m, 'n, 'i) tiers \<Rightarrow> u64 \<Rightarrow> ('m, 'n, 'i) value_manager \<Rightarrow> (('m, 'n, 'i) value_manager \<times> bool) result" where
  "promote_one E key s =
     (case pick E Disk key s of
        None \<Rightarrow> Inr (s\<lparr>vm_hot := (vm_hot s)(key := None)\<rparr>, False)
      | Some disk_ptr \<Rightarrow>
          bind_result (promote_copy E key disk_ptr s) (\<lambda>(s1, mem_ptr).
            if \<not> up_bool mem_ptr then Inr (s1, False)
            else bind_result (swap_in E key disk_ptr mem_ptr s1) (\<lambda>(s2, swapped).
              if swapped then let s3 = s2\<lparr>vm_hot := (vm_hot s2)(key := None)\<rparr> in Inr (s3, vm_used s3 \<ge> vm_low s3)
              else Inr (s2, False))))"

text \<open>
  \<open>keys\<close> is the order in which the concurrent map \<open>hot_\<close> is walked. The walk holds an iterator, and its
  increment reads the element it stands on: when that element has been erased, which deletes it,
  the increment is an access to freed memory.
\<close>

fun promote_scan ::
  "('m, 'n, 'i) tiers \<Rightarrow> nat \<Rightarrow> u64 list \<Rightarrow> ('m, 'n, 'i) value_manager \<Rightarrow>
   ('m, 'n, 'i) value_manager result" where
  "promote_scan E 0 keys s = Inr s"
| "promote_scan E (Suc budget) [] s = Inr s"
| "promote_scan E (Suc budget) (key # keys) s =
     (case vm_hot s key of
        None \<Rightarrow> promote_scan E (Suc budget) keys s
      | Some c \<Rightarrow>
          if c < kPromoteThreshold then promote_scan E budget keys s
          else bind_result (promote_one E key s) (\<lambda>(s', stop).
            if stop then Inr s'
            else if vm_hot s' key = None then Inl Bad_access
            else promote_scan E budget keys s'))"

definition decay :: "nat \<Rightarrow> u64 list \<Rightarrow> ('m, 'n, 'i) value_manager \<Rightarrow> ('m, 'n, 'i) value_manager" where
  "decay n keys s =
     s\<lparr>vm_hot := fold (\<lambda>k h. case h k of Some c \<Rightarrow> if c > 0 then h(k \<mapsto> c - 1) else h | None \<Rightarrow> h)
                  (take n (filter (\<lambda>k. vm_hot s k \<noteq> None) keys)) (vm_hot s)\<rparr>"

definition promote_headroom :: "('m, 'n, 'i) value_manager \<Rightarrow> u64" where
  "promote_headroom s =
     (let reserve = vm_capacity s div 20;
          budget_floor = (if vm_low s > reserve then vm_low s - reserve else vm_low s) in
      if vm_used s < budget_floor then budget_floor - vm_used s else 0)"

definition promote_phase ::
  "('m, 'n, 'i) tiers \<Rightarrow> u64 list \<Rightarrow> ('m, 'n, 'i) value_manager \<Rightarrow> ('m, 'n, 'i) value_manager result" where
  "promote_phase E keys s =
     (if promote_headroom s > 0
      then bind_result (promote_scan E 512 keys s) (\<lambda>s'. Inr (decay 256 keys s'))
      else Inr s)"

definition evict_round ::
  "('m, 'n, 'i) tiers \<Rightarrow> disk_io \<Rightarrow> u64 list \<Rightarrow> ('m, 'n, 'i) value_manager \<Rightarrow>
   ('m, 'n, 'i) value_manager result" where
  "evict_round E io keys s =
     (if vm_stop s then Inr s
      else bind_result (evict_phase E io s) (\<lambda>s1.
           bind_result (promote_phase E keys s1) (\<lambda>s2. Inr (s2\<lparr>vm_need_evict := False\<rparr>))))"

text \<open>
  What the evictor may do in a stretch of time, which need not begin or end with a round: moves of
  single keys, out of memory or back, and whole rounds, each with its disk results and its walk order.
\<close>

datatype evictor_step = Round disk_io "u64 list" | Evict disk_io u64 | Promote u64

definition evictor_does ::
  "('m, 'n, 'i) tiers \<Rightarrow> evictor_step \<Rightarrow> ('m, 'n, 'i) value_manager \<Rightarrow> ('m, 'n, 'i) value_manager result" where
  "evictor_does E x s =
     (case x of
        Round io keys \<Rightarrow> evict_round E io keys s
      | Evict io key \<Rightarrow> evict_one E io key s
      | Promote key \<Rightarrow> bind_result (promote_one E key s) (\<lambda>(s', _). Inr s'))"

fun evictor_run ::
  "('m, 'n, 'i) tiers \<Rightarrow> evictor_step list \<Rightarrow> ('m, 'n, 'i) value_manager \<Rightarrow> ('m, 'n, 'i) value_manager result" where
  "evictor_run E [] s = Inr s"
| "evictor_run E (x # xs) s = bind_result (evictor_does E x s) (evictor_run E xs)"

definition step_keys :: "evictor_step list \<Rightarrow> u64 set" where
  "step_keys xs = (\<Union>x \<in> set xs. case x of Round io keys \<Rightarrow> {} | Evict io key \<Rightarrow> {key} | Promote key \<Rightarrow> {key})"

section \<open>\<open>KVEngineHybrid\<close>\<close>

fun hybrid_BatchGet ::
  "('m, 'n, 'i) tiers \<Rightarrow> u64 list \<Rightarrow> ('m, 'n, 'i) value_manager \<Rightarrow>
   (('m, 'n, 'i) value_manager \<times> u8 list list) result" where
  "hybrid_BatchGet E [] s = Inr (s, [])"
| "hybrid_BatchGet E (key # keys) s =
     bind_result (RetrieveValue E key s) (\<lambda>(s1, v).
     bind_result (hybrid_BatchGet E keys s1) (\<lambda>(s2, vs). Inr (s2, v # vs)))"

section \<open>The extendible hash table as the index\<close>

text \<open>\<open>eh_fits t k\<close>: the table's keys and \<open>k\<close> can be told apart, 16 at a time, by at most 30 hash bits.\<close>

definition eh_fits :: "ehash \<Rightarrow> u64 \<Rightarrow> bool" where
  "eh_fits t k \<longleftrightarrow> (\<exists>D. batch_spread D t (insert k (eh_keys t)))"

interpretation eh_index: value_index eh_vt eh_ok eh_fits "\<lambda>k. k \<noteq> INVALID"
proof
  fix t k v
  assume t: "eh_ok t" and k: "k \<noteq> INVALID" and fits: "eh_fits t k" and v: "v \<noteq> NONE"
  obtain D where D: "batch_spread D t (insert k (eh_keys t))" using fits by (auto simp: eh_fits_def)
  then have "D \<le> 30" by (simp add: batch_spread_def)
  with eh_Insert_ok [OF t k batch_spread_one [OF D insertI1], of eh_fuel v] obtain t' where
    t': "eh_Insert eh_fuel k v t = Some t'" "eh_ok t'" "eh_h t' = eh_h t"
      "\<forall>j. j \<noteq> INVALID \<longrightarrow> eh_lookup t' j = ((eh_lookup t)(k \<mapsto> v)) j"
    by (auto simp: eh_fuel_def)
  have keys: "eh_keys t' = insert k (eh_keys t)" by (rule eh_keys_put [OF k t'(4)])
  have fits': "eh_fits t' j" if "j = k \<or> eh_Get j t \<noteq> NONE \<or> eh_Get k t \<noteq> NONE \<and> eh_fits t j" "j \<noteq> INVALID" for j
  proof (cases "eh_Get k t \<noteq> NONE \<and> eh_fits t j")
    case True
    then have "k \<in> eh_keys t" using k by (auto simp: eh_keys_def eh_Get_lookup split: option.splits)
    with keys have "eh_keys t' = eh_keys t" by (simp add: insert_absorb)
    with True t'(3) show ?thesis by (auto simp: eh_fits_def batch_spread_def)
  next
    case False
    have "j \<in> insert k (eh_keys t)"
      using that False by (auto simp: eh_keys_def eh_Get_lookup split: option.splits)
    with D keys t'(3) have "batch_spread D t' (insert j (eh_keys t'))"
      by (simp add: batch_spread_def insert_absorb)
    then show ?thesis by (auto simp: eh_fits_def)
  qed
  show "\<exists>i'. ix_Put eh_vt k v t = Some i' \<and> eh_ok i' \<and> ix_Get eh_vt k i' = v \<and>
      (\<forall>j. j \<noteq> INVALID \<and> j \<noteq> k \<longrightarrow> ix_Get eh_vt j i' = ix_Get eh_vt j t) \<and>
      (\<forall>j. j \<noteq> INVALID \<and> (j = k \<or> ix_Get eh_vt j t \<noteq> NONE \<or> ix_Get eh_vt k t \<noteq> NONE \<and> eh_fits t j) \<longrightarrow>
         eh_fits i' j)"
    using t' fits' k by (auto simp: eh_vt_def eh_Put_def eh_Get_lookup)
qed

section \<open>What the store holds\<close>

definition enc :: "u8 list \<Rightarrow> u8 list" where
  "enc v = lenle (of_nat (length v)) @ v"

definition short :: "u8 list \<Rightarrow> bool" where
  "short v \<longleftrightarrow> 0 < length v \<and> length v \<le> 7"

text \<open>The seventh byte of an inline value has six bits only.\<close>

definition lossless :: "u8 list \<Rightarrow> bool" where
  "lossless v \<longleftrightarrow> (length v = 7 \<longrightarrow> unat (v ! 6) < 64)"

definition ptr_word :: "ptr_type \<Rightarrow> u64 \<Rightarrow> u64" where
  "ptr_word t v = push_bit 62 (ptr_type_code t) OR v"

definition word_type :: "u64 \<Rightarrow> ptr_type" where "word_type w = up_type (up_from_raw w)"
definition word_val :: "u64 \<Rightarrow> u64" where "word_val w = up_value (up_from_raw w)"

text \<open>The blocks of both tiers, by the pointer word that names them.\<close>

definition blocks :: "int \<Rightarrow> (int \<Rightarrow> u8 list option) \<Rightarrow> (int \<Rightarrow> u8 list option) \<Rightarrow> u64 \<Rightarrow> u8 list option" where
  "blocks base C1 C2 w =
     (case word_type w of
        Memory \<Rightarrow> C1 (uint (word_val w) - base)
      | Disk \<Rightarrow> C2 (uint (word_val w))
      | _ \<Rightarrow> None)"

text \<open>\<open>value_at D w v\<close>: the pointer word \<open>w\<close> names the value \<open>v\<close>.\<close>

definition value_at :: "(int \<Rightarrow> bool) \<Rightarrow> (u64 \<Rightarrow> u8 list option) \<Rightarrow> u64 \<Rightarrow> u8 list \<Rightarrow> bool" where
  "value_at req D w v \<longleftrightarrow>
     (if short v then lossless v \<and> w = ptr_word PMem (inline_word v)
      else D w = Some (enc v) \<and> length v \<le> 65535 \<and> req (2 + int (length v)))"

text \<open>
  \<open>names ix D M W\<close>: index entries \<open>ix\<close> and blocks \<open>D\<close> hold the values \<open>M\<close>, and \<open>W\<close> are the
  pointers that are in flight, allocated but in no entry. Every entry names its key's value,
  no two entries share a block, and every block has an entry or is in flight.
\<close>

definition names ::
  "(int \<Rightarrow> bool) \<Rightarrow> (u64 \<Rightarrow> bool) \<Rightarrow> (u64 \<Rightarrow> u64) \<Rightarrow> (u64 \<Rightarrow> u8 list option) \<Rightarrow> (u64 \<Rightarrow> u8 list option) \<Rightarrow>
   (u64 \<Rightarrow> u8 list option) \<Rightarrow> bool" where
  "names req key_ok ix D M W \<longleftrightarrow>
     (\<forall>k. key_ok k \<longrightarrow> (case M k of None \<Rightarrow> ix k = NONE | Some v \<Rightarrow> value_at req D (ix k) v)) \<and>
     (\<forall>k. M k \<noteq> None \<longrightarrow> key_ok k) \<and>
     (\<forall>w v. W w = Some v \<longrightarrow> value_at req D w v \<and> (D w \<noteq> None \<longrightarrow> (\<forall>k. key_ok k \<longrightarrow> ix k \<noteq> w))) \<and>
     (\<forall>k k'. key_ok k \<and> key_ok k' \<and> ix k = ix k' \<and> D (ix k) \<noteq> None \<longrightarrow> k = k') \<and>
     (\<forall>w. D w \<noteq> None \<longrightarrow> (\<exists>k. key_ok k \<and> ix k = w) \<or> W w \<noteq> None) \<and>
     (\<forall>w. D w \<noteq> None \<longrightarrow> word_type w = Memory \<or> word_type w = Disk)"

lemma namesD:
  assumes "names req key_ok ix D M W"
  shows "key_ok k \<Longrightarrow> M k = None \<Longrightarrow> ix k = NONE"
    and "M k = Some v \<Longrightarrow> value_at req D (ix k) v" and "M k = Some v \<Longrightarrow> key_ok k"
    and "W w = Some v \<Longrightarrow> value_at req D w v"
    and "W w = Some v \<Longrightarrow> D w \<noteq> None \<Longrightarrow> key_ok k \<Longrightarrow> ix k \<noteq> w"
    and "key_ok k \<Longrightarrow> key_ok k' \<Longrightarrow> ix k = ix k' \<Longrightarrow> D (ix k) \<noteq> None \<Longrightarrow> k = k'"
    and "D w \<noteq> None \<Longrightarrow> (\<exists>k. key_ok k \<and> ix k = w) \<or> W w \<noteq> None"
    and "D w \<noteq> None \<Longrightarrow> word_type w = Memory \<or> word_type w = Disk"
proof -
  note N = assms [unfolded names_def]
  have a: "\<forall>k. key_ok k \<longrightarrow> (case M k of None \<Rightarrow> ix k = NONE | Some v \<Rightarrow> value_at req D (ix k) v)"
    using N by (elim conjE)
  have b: "\<forall>k. M k \<noteq> None \<longrightarrow> key_ok k" using N by (elim conjE)
  have c: "\<forall>w v. W w = Some v \<longrightarrow> value_at req D w v \<and> (D w \<noteq> None \<longrightarrow> (\<forall>k. key_ok k \<longrightarrow> ix k \<noteq> w))"
    using N by (elim conjE)
  have d: "\<forall>k k'. key_ok k \<and> key_ok k' \<and> ix k = ix k' \<and> D (ix k) \<noteq> None \<longrightarrow> k = k'" using N by (elim conjE)
  have e: "\<forall>w. D w \<noteq> None \<longrightarrow> (\<exists>k. key_ok k \<and> ix k = w) \<or> W w \<noteq> None" using N by (elim conjE)
  have f: "\<forall>w. D w \<noteq> None \<longrightarrow> word_type w = Memory \<or> word_type w = Disk" using N by (elim conjE)
  show "key_ok k \<Longrightarrow> M k = None \<Longrightarrow> ix k = NONE" using a by (force split: option.splits)
  show m: "M k = Some v \<Longrightarrow> key_ok k" using b by blast
  show "M k = Some v \<Longrightarrow> value_at req D (ix k) v" using a m by (force split: option.splits)
  show "W w = Some v \<Longrightarrow> value_at req D w v" using c by blast
  show "W w = Some v \<Longrightarrow> D w \<noteq> None \<Longrightarrow> key_ok k \<Longrightarrow> ix k \<noteq> w" using c by blast
  show "key_ok k \<Longrightarrow> key_ok k' \<Longrightarrow> ix k = ix k' \<Longrightarrow> D (ix k) \<noteq> None \<Longrightarrow> k = k'" using d by blast
  show "D w \<noteq> None \<Longrightarrow> (\<exists>k. key_ok k \<and> ix k = w) \<or> W w \<noteq> None" using e by blast
  show "D w \<noteq> None \<Longrightarrow> word_type w = Memory \<or> word_type w = Disk" using f by blast
qed

lemma word_type_ptr: "unat v < 2 ^ 62 \<Longrightarrow> word_type (ptr_word t v) = t" "unat v < 2 ^ 62 \<Longrightarrow> word_val (ptr_word t v) = v"
  using up_set_roundtrip [of t v up_default "up_default\<lparr>up_raw := ptr_word t v\<rparr>"]
  by (simp_all add: up_set_Inr_iff word_type_def word_val_def up_from_raw_def ptr_word_def)

lemma word_type_NONE: "word_type NONE = Invalid"
  by (simp add: word_type_def up_type_def up_from_raw_def NONE_def)

lemma word_of_type: "w = ptr_word (word_type w) (word_val w)"
proof -
  have c: "ptr_type_code (word_type w) = drop_bit 62 w"
  proof -
    have "drop_bit 62 w AND mask 2 = drop_bit 62 w"
      by (rule bit_word_eqI) (auto simp: bit_simps dest: bit_imp_le_length)
    then have "drop_bit 62 w AND 3 = drop_bit 62 w" by (simp add: mask_eq_exp_minus_1)
    moreover have "drop_bit 62 w = 0 \<or> drop_bit 62 w = 1 \<or> drop_bit 62 w = 2 \<or> drop_bit 62 w = 3"
    proof -
      have "unat (drop_bit 62 w) < 4"
        using unat_drop_bit_div [of 62 w] unsigned_less [of w, where ?'a = nat] by simp
      then have "unat (drop_bit 62 w) = 0 \<or> unat (drop_bit 62 w) = 1 \<or> unat (drop_bit 62 w) = 2 \<or> unat (drop_bit 62 w) = 3"
        by linarith
      then show ?thesis by (simp add: word_eq_unat_iff)
    qed
    ultimately show ?thesis by (auto simp: word_type_def up_type_def up_from_raw_def Let_def)
  qed
  show ?thesis
    unfolding ptr_word_def c
    by (rule bit_word_eqI) (auto simp: word_val_def up_value_def up_from_raw_def VALUE_MASK_eq bit_simps)
qed

lemma word_val_small: "unat (word_val w) < 2 ^ 62"
proof -
  have "unat (word_val w) = unat w mod 2 ^ 62"
    unfolding word_val_def up_value_def up_from_raw_def VALUE_MASK_eq word_and_mask_mod by simp
  then show ?thesis by simp
qed


text \<open>Bytes of small values.\<close>

lemma bit_small_nat: "l \<le> 7 \<Longrightarrow> bit (of_nat l :: u64) n \<Longrightarrow> n < 3"
proof -
  assume l: "l \<le> 7" and b: "bit (of_nat l :: u64) n"
  have "take_bit 3 (of_nat l :: u64) = of_nat l"
    using l by (simp add: take_bit_self_iff unat_of_nat_small)
  with b show "n < 3" by (metis bit_take_bit_iff)
qed

lemma bit_inline_word:
  assumes "length v \<le> 7"
  shows "bit (inline_word v) n \<longleftrightarrow>
    (if n < 54 then bit (le_word v) n else bit (of_nat (length v) :: u64) (n - 54))"
proof -
  have e: "push_bit 54 1 - 1 = (mask 54 :: u64)" by (simp add: mask_eq_decr_exp)
  show ?thesis
    unfolding inline_word_def e
    using bit_small_nat [OF assms, of "n - 54"]
    by (auto simp: bit_or_iff bit_and_iff bit_push_bit_iff bit_mask_iff)
qed

lemma inline_word_small:
  assumes "short v"
  shows "unat (inline_word v) < 2 ^ 62"
proof -
  have l: "length v \<le> 7" using assms by (simp add: short_def)
  have "take_bit 62 (inline_word v) = inline_word v"
    by (rule bit_word_eqI) (auto simp: bit_take_bit_iff bit_inline_word [OF l] dest: bit_small_nat [OF l] split: if_splits)
  then show ?thesis by (simp add: take_bit_self_iff)
qed

lemma inline_word_type:
  assumes "short v"
  shows "word_type (ptr_word PMem (inline_word v)) = PMem" "word_val (ptr_word PMem (inline_word v)) = inline_word v"
  using word_type_ptr [OF inline_word_small [OF assms]] by simp_all

lemma inline_word_trunc:
  assumes "length v = 7"
  shows "inline_word v = inline_word (v[6 := v ! 6 AND 63])"
proof (rule bit_word_eqI)
  fix n assume "n < LENGTH(64)"
  have m: "v ! 6 AND 63 = v ! 6 AND mask 6" by (simp add: mask_eq_exp_minus_1)
  have "n mod 8 < 6" if "n < 54" "n div 8 = 6" using that by presburger
  then have "bit (v[6 := v ! 6 AND 63] ! (n div 8)) (n mod 8) = bit (v ! (n div 8)) (n mod 8)" if "n < 54"
    unfolding m using that assms by (cases "n div 8 = 6") (auto simp: bit_and_iff bit_mask_iff)
  then show "bit (inline_word v) n = bit (inline_word (v[6 := v ! 6 AND 63])) n"
    using assms by (auto simp: bit_inline_word bit_le_word)
qed

lemma inline_roundtrip:
  assumes "short v" and "lossless v"
  shows "inline_value (inline_word v) = Inr v"
proof -
  have l: "length v \<le> 7" using assms by (simp add: short_def)
  have e: "push_bit 54 1 - 1 = (mask 54 :: u64)" by (simp add: mask_eq_decr_exp)
  have "drop_bit 54 (inline_word v) = of_nat (length v)"
    by (rule bit_word_eqI) (auto simp: bit_drop_bit_eq bit_inline_word [OF l])
  moreover have "unat (ucast (of_nat (length v) :: u64) :: u8) = length v"
    using l by (simp add: unsigned_ucast_eq unat_of_nat_small take_bit_nat_eq_self)
  moreover have "get_byte (inline_word v AND mask 54) i = v ! i" if i: "i < length v" for i
  proof (rule bit_word_eqI)
    fix j assume j: "j < LENGTH(8)"
    have "\<not> bit (v ! i) j" if "54 \<le> 8 * i + j"
    proof -
      have "i = 6" "6 \<le> j" "length v = 7" using that i j l by auto
      moreover from this assms(2) have "take_bit 6 (v ! 6) = v ! 6"
        by (simp add: lossless_def word_eq_unat_iff unsigned_take_bit_eq take_bit_nat_eq_self)
      ultimately show ?thesis by (metis bit_take_bit_iff not_less)
    qed
    moreover have "(8 * i + j) div 8 = i" "(8 * i + j) mod 8 = j" using j by auto
    moreover have "8 * i + j < 64" using i j l by auto
    ultimately show "bit (get_byte (inline_word v AND mask 54) i) j = bit (v ! i) j"
      using i j by (auto simp: get_byte_def bit_unsigned_iff bit_drop_bit_eq bit_and_iff bit_mask_iff
          bit_inline_word [OF l] bit_le_word)
  qed
  then have "map (get_byte (inline_word v AND mask 54)) [0..<length v] = v"
    by (intro nth_equalityI) auto
  ultimately show ?thesis unfolding inline_value_def e using l by simp
qed

text \<open>The changes the operations make.\<close>

lemma names_add:
  assumes N: "names req key_ok ix D M W" and w: "D w = None" "word_type w = Memory \<or> word_type w = Disk"
    and v: "\<not> short v" "length v \<le> 65535" "req (2 + int (length v))"
  shows "names req key_ok ix (D(w \<mapsto> enc v)) M (W(w \<mapsto> v))" and "key_ok k \<Longrightarrow> ix k \<noteq> w"
proof -
  note D = namesD [OF N]
  have inl: "word_type (ptr_word PMem (inline_word u)) \<noteq> Memory" "word_type (ptr_word PMem (inline_word u)) \<noteq> Disk"
    if "short u" for u using inline_word_type [OF that] by simp_all
  have other: "z \<noteq> w" if "value_at req D z u" for z u
    using that w inl by (auto simp: value_at_def split: if_splits)
  show nk: "ix k \<noteq> w" if "key_ok k" for k
    using D(1) [OF that] D(2) [of k] other w(2) word_type_NONE by (cases "M k") auto
  have up: "value_at req (D(w \<mapsto> enc v)) z u" if "value_at req D z u" for z u
    using that other [OF that] by (simp add: value_at_def)
  have nW: "W w = None" using D(4) [of w] other by (cases "W w") auto
  show "names req key_ok ix (D(w \<mapsto> enc v)) M (W(w \<mapsto> v))"
    unfolding names_def
  proof (intro conjI allI impI)
    fix k assume "key_ok k"
    then show "case M k of None \<Rightarrow> ix k = NONE | Some v' \<Rightarrow> value_at req (D(w \<mapsto> enc v)) (ix k) v'"
      using D(1,2) [of k] up by (auto split: option.split)
  next
    fix k assume "M k \<noteq> None" then show "key_ok k" using D(3) by blast
  next
    fix z u assume "(W(w \<mapsto> v)) z = Some u"
    then show "value_at req (D(w \<mapsto> enc v)) z u"
      using up D(4) v by (auto simp: value_at_def split: if_splits)
  next
    fix z u k assume "(W(w \<mapsto> v)) z = Some u" "(D(w \<mapsto> enc v)) z \<noteq> None" "key_ok k"
    then show "ix k \<noteq> z" using nk D(5) by (auto split: if_splits)
  next
    fix k k' assume "key_ok k \<and> key_ok k' \<and> ix k = ix k' \<and> (D(w \<mapsto> enc v)) (ix k) \<noteq> None"
    then show "k = k'" using nk D(6) by (auto split: if_splits)
  next
    fix z assume "(D(w \<mapsto> enc v)) z \<noteq> None"
    then show "(\<exists>k. key_ok k \<and> ix k = z) \<or> (W(w \<mapsto> v)) z \<noteq> None" using D(7) [of z] by (auto split: if_splits)
  next
    fix z assume "(D(w \<mapsto> enc v)) z \<noteq> None"
    then show "word_type z = Memory \<or> word_type z = Disk" using D(8) [of z] w(2) by (auto split: if_splits)
  qed
qed

lemma value_at_nonzero:
  assumes "value_at req D w v" and "\<forall>w. D w \<noteq> None \<longrightarrow> word_type w = Memory \<or> word_type w = Disk"
  shows "w \<noteq> NONE"
proof
  assume w: "w = NONE"
  show False
  proof (cases "short v")
    case True
    with assms(1) w inline_word_type(1) [OF True] word_type_NONE show False by (simp add: value_at_def)
  next
    case False
    with assms w word_type_NONE show False by (fastforce simp: value_at_def)
  qed
qed

lemma names_inline:
  assumes N: "names req key_ok ix D M Map.empty" and v: "short v" "lossless v"
  shows "names req key_ok ix D M [ptr_word PMem (inline_word v) \<mapsto> v]"
proof -
  note D = namesD [OF N]
  have "D (ptr_word PMem (inline_word v)) = None"
    using D(8) inline_word_type [OF v(1)] by (metis ptr_type.distinct(9) ptr_type.distinct(11) option.exhaust option.distinct(1))
  with N v show ?thesis by (auto simp: names_def value_at_def)
qed

lemma names_publish:
  assumes N: "names req key_ok ix D M [w \<mapsto> v]" and k: "key_ok k" and ix': "ix' k = w" "\<forall>j. key_ok j \<and> j \<noteq> k \<longrightarrow> ix' j = ix j"
  shows "names req key_ok ix' D (M(k \<mapsto> v)) (case M k of None \<Rightarrow> Map.empty | Some u \<Rightarrow> [ix k \<mapsto> u])"
proof -
  note D = namesD [OF N]
  have w: "value_at req D w v" "D w \<noteq> None \<Longrightarrow> key_ok j \<Longrightarrow> ix j \<noteq> w" for j
    using D(4,5) [of w v] by auto
  have none: "D NONE = None" using D(8) [of NONE] word_type_NONE by fastforce
  show ?thesis
    unfolding names_def
  proof (intro conjI allI impI)
    fix j assume "key_ok j"
    then show "case (M(k \<mapsto> v)) j of None \<Rightarrow> ix' j = NONE | Some v' \<Rightarrow> value_at req D (ix' j) v'"
      using D(1,2) [of j] ix' w by (auto split: option.split)
  next
    fix j assume "(M(k \<mapsto> v)) j \<noteq> None" then show "key_ok j" using D(3) k by (auto split: if_splits)
  next
    fix z u assume "(case M k of None \<Rightarrow> Map.empty | Some u \<Rightarrow> [ix k \<mapsto> u]) z = Some u"
    then show "value_at req D z u" using D(2) by (auto split: option.splits if_splits)
  next
    fix z u j assume "(case M k of None \<Rightarrow> Map.empty | Some u \<Rightarrow> [ix k \<mapsto> u]) z = Some u" and z: "D z \<noteq> None" "key_ok j"
    then have "z = ix k" by (auto split: option.splits if_splits)
    with z show "ix' j \<noteq> z" using w(2) [of k] D(6) [of k j] ix' k by (cases "j = k") auto
  next
    fix i j assume h: "key_ok i \<and> key_ok j \<and> ix' i = ix' j \<and> D (ix' i) \<noteq> None"
    have new: False if "x = k" "y \<noteq> k" "key_ok y" "ix' x = ix' y" "D (ix' x) \<noteq> None" for x y
    proof -
      from that ix' have "ix y = w" "D w \<noteq> None" by auto
      with w(2) [of y] that(3) show False by blast
    qed
    show "i = j"
    proof (cases "i = k")
      case True
      with h new [of i j] show ?thesis by blast
    next
      case i: False
      show ?thesis
      proof (cases "j = k")
        case True
        with h i new [of j i] show ?thesis by metis
      next
        case False
        with h i ix' D(6) [of i j] show ?thesis by auto
      qed
    qed
  next
    fix z assume z: "D z \<noteq> None"
    then show "(\<exists>j. key_ok j \<and> ix' j = z) \<or> (case M k of None \<Rightarrow> Map.empty | Some u \<Rightarrow> [ix k \<mapsto> u]) z \<noteq> None"
    proof (cases "z = w")
      case True
      with k ix' show ?thesis by blast
    next
      case False
      with D(7) [OF z] obtain j where j: "key_ok j" "ix j = z" by auto
      show ?thesis
      proof (cases "j = k")
        case True
        with j D(1) [OF k] none z show ?thesis by (cases "M k") auto
      next
        case False
        with j ix' show ?thesis by auto
      qed
    qed
  next
    fix z assume "D z \<noteq> None" then show "word_type z = Memory \<or> word_type z = Disk" by (rule D(8))
  qed
qed

lemma value_at_drop: "value_at req D z u \<Longrightarrow> z \<noteq> w \<Longrightarrow> value_at req (D(w := None)) z u"
  by (simp add: value_at_def)

lemma names_free:
  assumes N: "names req key_ok ix D M [w \<mapsto> v]"
  shows "names req key_ok ix (D(w := None)) M Map.empty"
proof -
  note D = namesD [OF N]
  have keep: "value_at req (D(w := None)) (ix k) u" if "M k = Some u" for k u
  proof (cases "D w = None")
    case True
    then show ?thesis using D(2) [OF that] by (simp add: fun_upd_idem)
  next
    case False
    from D(5) [of w v k] this D(3) [OF that] have "ix k \<noteq> w" by simp
    with D(2) [OF that] show ?thesis by (rule value_at_drop)
  qed
  show ?thesis
    unfolding names_def
  proof (intro conjI allI impI)
    fix k assume "key_ok k"
    then show "case M k of None \<Rightarrow> ix k = NONE | Some v \<Rightarrow> value_at req (D(w := None)) (ix k) v"
      using D(1) [of k] keep by (auto split: option.split)
  next
    fix z assume "(D(w := None)) z \<noteq> None"
    then show "(\<exists>k. key_ok k \<and> ix k = z) \<or> Map.empty z \<noteq> None"
      using D(7) [of z] by (auto split: if_splits)
  qed (use D(3,6,8) in \<open>auto split: if_splits\<close>)
qed

lemma names_overwrite:
  assumes N: "names req key_ok ix D M W" and k: "M k = Some u" "\<not> short u" and v: "\<not> short v" "length v = length u"
  shows "names req key_ok ix (D(ix k \<mapsto> enc v)) (M(k \<mapsto> v)) W"
proof -
  note D = namesD [OF N]
  have ok: "key_ok k" by (rule D(3) [OF k(1)])
  have u: "D (ix k) = Some (enc u)" "length u \<le> 65535" "req (2 + int (length u))"
    using D(2) [OF k(1)] k(2) by (simp_all add: value_at_def)
  then have Dk: "D (ix k) \<noteq> None" by simp
  have up: "value_at req (D(ix k \<mapsto> enc v)) z y" if "value_at req D z y" "z \<noteq> ix k" for z y
    using that by (simp add: value_at_def)
  have other: "ix j \<noteq> ix k" if "key_ok j" "j \<noteq> k" for j
    using D(6) [OF ok that(1)] that(2) Dk by metis
  have flight: "z \<noteq> ix k" if "W z = Some y" for z y
    using D(5) [OF that _ ok] Dk by metis
  show ?thesis
    unfolding names_def
  proof (intro conjI allI impI)
    fix j assume j: "key_ok j"
    show "case (M(k \<mapsto> v)) j of None \<Rightarrow> ix j = NONE | Some y \<Rightarrow> value_at req (D(ix k \<mapsto> enc v)) (ix j) y"
    proof (cases "j = k")
      case True
      with u v show ?thesis by (simp add: value_at_def)
    next
      case False
      with D(1) [OF j] D(2) [of j] up other [OF j False] show ?thesis by (auto split: option.split)
    qed
  next
    fix j assume "(M(k \<mapsto> v)) j \<noteq> None" then show "key_ok j" using D(3) ok by (auto split: if_splits)
  next
    fix z y assume "W z = Some y" then show "value_at req (D(ix k \<mapsto> enc v)) z y" using D(4) up flight by blast
  next
    fix z y j assume "W z = Some y" "(D(ix k \<mapsto> enc v)) z \<noteq> None" "key_ok j"
    then show "ix j \<noteq> z" using D(5) flight by (metis fun_upd_apply)
  next
    fix i j assume "key_ok i \<and> key_ok j \<and> ix i = ix j \<and> (D(ix k \<mapsto> enc v)) (ix i) \<noteq> None"
    then show "i = j" using D(6) [of i j] Dk by (auto split: if_splits)
  next
    fix z assume "(D(ix k \<mapsto> enc v)) z \<noteq> None"
    then show "(\<exists>j. key_ok j \<and> ix j = z) \<or> W z \<noteq> None" using D(7) [of z] ok by (auto split: if_splits)
  next
    fix z assume "(D(ix k \<mapsto> enc v)) z \<noteq> None"
    then show "word_type z = Memory \<or> word_type z = Disk" using D(8) [of z] D(8) [OF Dk] by (auto split: if_splits)
  qed
qed

section \<open>Blocks of the two tiers\<close>

definition mem_word :: "int \<Rightarrow> int \<Rightarrow> u64" where "mem_word base p = ptr_word Memory (word_of_int (base + p))"
definition disk_word :: "int \<Rightarrow> u64" where "disk_word p = ptr_word Disk (word_of_int p)"

lemma small_address:
  assumes "0 \<le> a" and "a < 2 ^ 62"
  shows "uint (word_of_int a :: u64) = a" "unat (word_of_int a :: u64) < 2 ^ 62" "sint (word_of_int a :: u64) = a"
proof -
  show u: "uint (word_of_int a :: u64) = a" using assms by (simp add: uint_word_of_int)
  then show "unat (word_of_int a :: u64) < 2 ^ 62" using assms by (simp add: nat_less_iff flip: nat_uint_eq)
  show "sint (word_of_int a :: u64) = a" using assms by (simp add: signed_of_int signed_take_bit_int_eq_self)
qed

lemma tier_word:
  assumes "0 \<le> a" and "a < 2 ^ 62"
  shows "word_type (ptr_word t (word_of_int a)) = t" "uint (word_val (ptr_word t (word_of_int a))) = a"
    "sint (word_val (ptr_word t (word_of_int a))) = a"
  using word_type_ptr [OF small_address(2) [OF assms]] small_address [OF assms] by simp_all

lemma tier_word_eq:
  assumes "0 \<le> a" and "a < 2 ^ 62"
  shows "w = ptr_word t (word_of_int a) \<longleftrightarrow> word_type w = t \<and> uint (word_val w) = a"
proof
  assume "word_type w = t \<and> uint (word_val w) = a"
  moreover from this have "word_val w = word_of_int a" by auto
  ultimately show "w = ptr_word t (word_of_int a)" using word_of_type [of w] by simp
qed (use tier_word [OF assms] in auto)

lemma blocks_mem:
  assumes "0 \<le> base + p" and "base + p < 2 ^ 62"
  shows "blocks base (C1(p := x)) C2 = (blocks base C1 C2)(mem_word base p := x)"
  using tier_word_eq [OF assms, of _ Memory] tier_word [OF assms, of Memory]
  by (intro ext) (auto simp: blocks_def mem_word_def split: ptr_type.split)

lemma blocks_disk:
  assumes "0 \<le> p" and "p < 2 ^ 62"
  shows "blocks base C1 (C2(p := x)) = (blocks base C1 C2)(disk_word p := x)"
  using tier_word_eq [OF assms, of _ Disk] tier_word [OF assms, of Disk]
  by (intro ext) (auto simp: blocks_def disk_word_def split: ptr_type.split)

lemma length_enc [simp]: "length (enc v) = 2 + length v"
  by (simp add: enc_def lenle_def)

lemma read_lenle: "ucast (ucast (l AND 255) :: u8) OR push_bit 8 (ucast (ucast (drop_bit 8 l AND 255) :: u8)) = (l :: u16)"
proof -
  have "ucast (ucast (l AND mask 8) :: u8) OR push_bit 8 (ucast (ucast (drop_bit 8 l AND mask 8) :: u8)) = l"
    by (rule bit_word_eqI) (auto simp: bit_simps)
  then show ?thesis by (simp add: mask_eq_exp_minus_1)
qed

lemma read_enc:
  assumes "vt_bytes V m p (length (enc v)) = enc v" and "length v \<le> 65535"
  shows "unat (read_len V m p) = length v" and "vt_bytes V m (p + 2) (length v) = v"
proof -
  have get: "vt_get V m (p + int i) = enc v ! i" if "i < length (enc v)" for i
    using arg_cong [OF assms(1), of "\<lambda>xs. xs ! i"] that unfolding vt_bytes_def by (simp del: upt_Suc length_enc)
  have "read_len V m p = of_nat (length v)"
    using get [of 0] get [of 1] read_lenle [of "of_nat (length v)"]
    by (simp add: read_len_def enc_def lenle_def)
  with assms(2) show "unat (read_len V m p) = length v"
    by (simp add: unsigned_of_nat take_bit_nat_eq_self)
  show "vt_bytes V m (p + 2) (length v) = v"
  proof (rule nth_equalityI)
    fix i assume "i < length (vt_bytes V m (p + 2) (length v))"
    with get [of "i + 2"] show "vt_bytes V m (p + 2) (length v) ! i = v ! i"
      by (simp add: vt_bytes_def enc_def lenle_def ac_simps)
  qed simp
qed

lemma enc_parts: "length bs = 2 + length v \<Longrightarrow> write_part 2 v (write_part 0 (lenle (of_nat (length v))) bs) = enc v"
  by (simp add: write_part_def enc_def lenle_def)

lemma enc_empty: "length bs = 2 \<Longrightarrow> write_part 0 (lenle 0) bs = enc []"
  by (simp add: write_part_def enc_def lenle_def)

lemma enc_overwrite: "length v = length u \<Longrightarrow> write_part 2 v (enc u) = enc v"
  by (simp add: write_part_def enc_def lenle_def)

section \<open>The store over any tiers and index that keep their contracts\<close>

definition hybrid_rep ::
  "('m, 'n, 'i) tiers \<Rightarrow> ('m \<Rightarrow> (int \<Rightarrow> int option) \<Rightarrow> bool) \<Rightarrow> ('n \<Rightarrow> (int \<Rightarrow> int option) \<Rightarrow> bool) \<Rightarrow>
   (int \<Rightarrow> bool) \<Rightarrow> ('i \<Rightarrow> bool) \<Rightarrow> ('i \<Rightarrow> u64 \<Rightarrow> bool) \<Rightarrow> (u64 \<Rightarrow> bool) \<Rightarrow>
   ('m, 'n, 'i) value_manager \<Rightarrow> (u64 \<Rightarrow> u8 list option) \<Rightarrow> (u64 \<Rightarrow> u8 list option) \<Rightarrow> bool" where
  "hybrid_rep E minv1 minv2 req iinv room key_ok s M W \<longleftrightarrow>
     (\<exists>C1 C2. holds (t_shm E) minv1 (vm_shm s) C1 \<and> holds (t_ssd E) minv2 (vm_ssd s) C2 \<and>
        names req key_ok (\<lambda>k. ix_Get (t_index E) k (vm_index s)) (blocks (vm_base s) C1 C2) M W) \<and>
     iinv (vm_index s) \<and> 0 \<le> vm_base s \<and> vm_base s \<le> 2 ^ 61 \<and>
     (\<forall>k. M k \<noteq> None \<longrightarrow> room (vm_index s) k)"

definition tracked :: "('m, 'n, 'i) value_manager \<Rightarrow> u64 set" where
  "tracked s = set (lru_order (vm_lru s)) \<union> dom (vm_hot s)"

text \<open>What a step leaves as it is; \<open>K\<close> are the keys it may touch.\<close>

definition keeps :: "u64 set \<Rightarrow> ('m, 'n, 'i) value_manager \<Rightarrow> ('m, 'n, 'i) value_manager \<Rightarrow> bool" where
  "keeps K s s' \<longleftrightarrow> vm_stop s' = vm_stop s \<and> tracked s' \<subseteq> K \<union> tracked s"

definition same_index :: "u64 set \<Rightarrow> ('m, 'n, 'i) value_manager \<Rightarrow> ('m, 'n, 'i) value_manager \<Rightarrow> bool" where
  "same_index K s s' \<longleftrightarrow> vm_index s' = vm_index s \<and> keeps K s s'"

lemma keeps_refl [simp]: "keeps K s s"
  by (simp add: keeps_def)

lemma keeps_frame [simp]:
  "keeps K s (s'\<lparr>vm_shm := m\<rparr>) = keeps K s s'" "keeps K s (s'\<lparr>vm_ssd := n\<rparr>) = keeps K s s'"
  "keeps K s (s'\<lparr>vm_index := i\<rparr>) = keeps K s s'" "keeps K s (s'\<lparr>vm_used := u\<rparr>) = keeps K s s'"
  "keeps K s (s'\<lparr>vm_need_evict := b\<rparr>) = keeps K s s'"
  by (simp_all add: keeps_def tracked_def)

lemma keeps_touch: "keeps {key} s (s\<lparr>vm_lru := lru_insert key (vm_lru s)\<rparr>)"
  using lru_insert_keys [of key "vm_lru s"] by (auto simp: keeps_def tracked_def)

lemma keeps_touchI:
  "vm_lru s' = lru_insert key (vm_lru s) \<Longrightarrow> vm_hot s' = vm_hot s \<Longrightarrow> vm_stop s' = vm_stop s \<Longrightarrow> keeps {key} s s'"
  using lru_insert_keys [of key "vm_lru s"] by (auto simp: keeps_def tracked_def)

lemma keeps_trans: "keeps K s s1 \<Longrightarrow> keeps L s1 s2 \<Longrightarrow> K \<union> L \<subseteq> J \<Longrightarrow> keeps J s s2"
  by (auto simp: keeps_def)

definition storable :: "(int \<Rightarrow> bool) \<Rightarrow> u8 list \<Rightarrow> bool" where
  "storable req v \<longleftrightarrow> length v \<le> 65535 \<and> lossless v \<and> (\<not> short v \<longrightarrow> req (2 + int (length v)))"

text \<open>
  A key's move out of memory: it happens exactly when the disk has room and the calls succeed, and is
  counted in \<open>vm_used\<close>; otherwise the entry is as before. A key's move back is the same, with \<open>New\<close> on memory.
\<close>

definition moved_out ::
  "('m, 'n, 'i) tiers \<Rightarrow> disk_io \<Rightarrow> u64 \<Rightarrow> u8 list \<Rightarrow> ('m, 'n, 'i) value_manager \<Rightarrow> ('m, 'n, 'i) value_manager \<Rightarrow> bool" where
  "moved_out E io k v s s' \<longleftrightarrow>
     (if io_len io \<and> (v = [] \<or> io_data io) \<and> io_sync io \<and>
        (\<exists>m q. vt_New (t_ssd E) (2 + int (length v)) (vm_ssd s) = Inr (m, Some q))
      then word_type (ix_Get (t_index E) k (vm_index s')) = Disk \<and> vm_used s' = vm_used s - (of_nat (length v) + 2)
      else ix_Get (t_index E) k (vm_index s') = ix_Get (t_index E) k (vm_index s) \<and> vm_used s' = vm_used s)"

definition moved_up ::
  "('m, 'n, 'i) tiers \<Rightarrow> u64 \<Rightarrow> u8 list \<Rightarrow> ('m, 'n, 'i) value_manager \<Rightarrow> ('m, 'n, 'i) value_manager \<Rightarrow> bool" where
  "moved_up E k v s s' \<longleftrightarrow>
     (if \<exists>m q. vt_New (t_shm E) (2 + int (length v)) (vm_shm s) = Inr (m, Some q)
      then word_type (ix_Get (t_index E) k (vm_index s')) = Memory \<and> vm_used s' = vm_used s + (2 + of_nat (length v)) \<and>
        vm_hot s' = (vm_hot s)(k := None)
      else ix_Get (t_index E) k (vm_index s') = ix_Get (t_index E) k (vm_index s) \<and> vm_used s' = vm_used s \<and> vm_hot s' = vm_hot s)"

text \<open>The least recently used key, where the next round finds it in memory and the disk takes it.\<close>

definition first_victim ::
  "('m, 'n, 'i) tiers \<Rightarrow> disk_io \<Rightarrow> (u64 \<Rightarrow> u8 list option) \<Rightarrow> ('m, 'n, 'i) value_manager \<Rightarrow> u64 \<Rightarrow> bool" where
  "first_victim E io M s k \<longleftrightarrow>
     vm_used s > vm_low s \<and> lru_order (vm_lru s) \<noteq> [] \<and> last (lru_order (vm_lru s)) = k \<and>
     word_type (ix_Get (t_index E) k (vm_index s)) = Memory \<and> io_len io \<and> io_data io \<and> io_sync io \<and>
     (\<exists>v m q. M k = Some v \<and> vt_New (t_ssd E) (2 + int (length v)) (vm_ssd s) = Inr (m, Some q))"

definition is_hot :: "('m, 'n, 'i) value_manager \<Rightarrow> u64 \<Rightarrow> bool" where
  "is_hot s k \<longleftrightarrow> (\<exists>c. vm_hot s k = Some c \<and> \<not> c < kPromoteThreshold)"

text \<open>
  When a writer gives up: memory had no room for the value, neither before nor after what the evictor did
  while the writer waited, and the disk did not take it; or the store was being closed.
\<close>

definition gives_up ::
  "('m, 'n, 'i) tiers \<Rightarrow> disk_io \<Rightarrow> evictor_step list \<Rightarrow> u8 list \<Rightarrow> ('m, 'n, 'i) value_manager \<Rightarrow> bool" where
  "gives_up E io xs v s \<longleftrightarrow> \<not> short v \<and>
     (\<exists>m1 s2. vt_New (t_shm E) (2 + int (length v)) (vm_shm s) = Inr (m1, None) \<and>
        evictor_run E xs (s\<lparr>vm_shm := m1, vm_need_evict := True\<rparr>) = Inr s2 \<and>
        (vm_stop s \<or>
         (\<exists>m2. vt_New (t_shm E) (2 + int (length v)) (vm_shm s2) = Inr (m2, None)) \<and>
         (\<not> (io_len io \<and> (v = [] \<or> io_data io) \<and> io_sync io) \<or>
          (\<exists>m3. vt_New (t_ssd E) (2 + int (length v)) (vm_ssd s2) = Inr (m3, None)))))"

definition evictor_crashes ::
  "('m, 'n, 'i) tiers \<Rightarrow> evictor_step list \<Rightarrow> u8 list \<Rightarrow> ('m, 'n, 'i) value_manager \<Rightarrow> bool" where
  "evictor_crashes E xs v s \<longleftrightarrow> \<not> short v \<and>
     (\<exists>m1. vt_New (t_shm E) (2 + int (length v)) (vm_shm s) = Inr (m1, None) \<and>
        evictor_run E xs (s\<lparr>vm_shm := m1, vm_need_evict := True\<rparr>) = Inl Bad_access)"

lemma evict_loop_prefix: "\<exists>r. fst (evict_loop n ev c) = ev @ r"
proof (induction n ev c rule: evict_loop.induct)
  case (2 n ev c)
  then show ?case by (cases "lru_order c = []") (auto simp: Let_def)
qed simp

lemma evictBatch_first:
  assumes "lru_order c \<noteq> []" and "lru_evictBatch (Suc n) c = (ks, l)"
  obtains rest where "ks = last (lru_order c) # rest"
  using assms evict_loop_prefix [of n "[last (lru_order c)]" "c\<lparr>lru_order := butlast (lru_order c), lru_map := lru_map c - {last (lru_order c)}\<rparr>"]
  by (auto simp: lru_evictBatch_def Let_def)

text \<open>Steps that leave the hot counts alone.\<close>

lemma publish_hot: "publish E k p s = Inr (s2, w) \<Longrightarrow> vm_hot s2 = vm_hot s"
  by (auto simp: publish_def split: option.splits)

lemma FreePointer_hot: "FreePointer E p s = Inr s3 \<Longrightarrow> vm_hot s3 = vm_hot s"
  by (auto simp: FreePointer_def Let_def bind_result_Inr_iff split: if_splits)

lemma swap_in_hot: "swap_in E k old new s = Inr (s4, b) \<Longrightarrow> vm_hot s4 = vm_hot s"
  using publish_hot FreePointer_hot by (fastforce simp: swap_in_def bind_result_Inr_iff split: if_splits)

lemma promote_scan_cold: "\<forall>k \<in> set keys. \<not> is_hot s k \<Longrightarrow> promote_scan E n keys s = Inr s"
proof (induction keys arbitrary: n)
  case Nil
  then show ?case by (cases n) simp_all
next
  case (Cons k keys)
  then show ?case by (cases n) (auto simp: is_hot_def split: option.splits)
qed

locale hybrid_tiers =
  shm: malloc_bytes "t_shm E" minv1 req + ssd: malloc_bytes "t_ssd E" minv2 req +
  ix: value_index "t_index E" iinv room key_ok
  for E :: "('m, 'n, 'i) tiers" and minv1 :: "'m \<Rightarrow> (int \<Rightarrow> int option) \<Rightarrow> bool"
    and minv2 :: "'n \<Rightarrow> (int \<Rightarrow> int option) \<Rightarrow> bool" and req :: "int \<Rightarrow> bool"
    and iinv :: "'i \<Rightarrow> bool" and room :: "'i \<Rightarrow> u64 \<Rightarrow> bool" and key_ok :: "u64 \<Rightarrow> bool"
begin

abbreviation rep where "rep \<equiv> hybrid_rep E minv1 minv2 req iinv room key_ok"
abbreviation ixs where "ixs s \<equiv> \<lambda>k. ix_Get (t_index E) k (vm_index s)"

lemma repE:
  assumes "rep s M W"
  obtains C1 C2 where "holds (t_shm E) minv1 (vm_shm s) C1" "holds (t_ssd E) minv2 (vm_ssd s) C2"
    "names req key_ok (ixs s) (blocks (vm_base s) C1 C2) M W" "iinv (vm_index s)"
    "0 \<le> vm_base s" "vm_base s \<le> 2 ^ 61" "\<And>k. M k \<noteq> None \<Longrightarrow> room (vm_index s) k"
  using assms unfolding hybrid_rep_def by blast

lemma repI:
  assumes "holds (t_shm E) minv1 (vm_shm s) Cm" "holds (t_ssd E) minv2 (vm_ssd s) Cd"
    "names req key_ok (ixs s) (blocks (vm_base s) Cm Cd) M W" "iinv (vm_index s)"
    "0 \<le> vm_base s" "vm_base s \<le> 2 ^ 61" "\<And>k. M k \<noteq> None \<Longrightarrow> room (vm_index s) k"
  shows "rep s M W"
  using assms unfolding hybrid_rep_def by blast

lemma rep_frame:
  "rep (s\<lparr>vm_lru := l\<rparr>) M W = rep s M W" "rep (s\<lparr>vm_hot := h\<rparr>) M W = rep s M W"
  "rep (s\<lparr>vm_used := u\<rparr>) M W = rep s M W" "rep (s\<lparr>vm_need_evict := b\<rparr>) M W = rep s M W"
  "rep (TouchLRU key s) M W = rep s M W"
  by (simp_all add: hybrid_rep_def TouchLRU_def)

lemma live_address:
  assumes "holds V minv m C" and "malloc_client V minv req" and "C p \<noteq> None"
  shows "8 \<le> p" "p < 2 ^ 35" "vt_GetMallocData V m p = Some p" "vt_GetMallocOffset V m p = p"
proof -
  from assms(3) obtain bs where "C p = Some bs" by blast
  with assms(1) have "minv m (\<lambda>p. map_option (\<lambda>bs. int (length bs)) (C p))"
    "map_option (\<lambda>bs. int (length bs)) (C p) = Some (int (length bs))" by (simp_all add: holds_def)
  from malloc_client.addr [OF assms(2) this]
  have a: "vt_GetMallocData V m p = Some p" "vt_GetMallocOffset V m p = p" "8 \<le> p" "p mod 8 = 0" "p div 8 < 2 ^ 32 - 1"
    by auto
  then show "8 \<le> p" "vt_GetMallocData V m p = Some p" "vt_GetMallocOffset V m p = p" by auto
  show "p < 2 ^ 35" using a(5) by simp
qed

definition moves :: "u64 set \<Rightarrow> ('m, 'n, 'i) value_manager \<Rightarrow> ('m, 'n, 'i) value_manager \<Rightarrow> bool" where
  "moves K s s' \<longleftrightarrow> keeps K s s' \<and> (\<forall>j. key_ok j \<and> room (vm_index s) j \<longrightarrow> room (vm_index s') j)"

lemma moves_trans: "moves K s s1 \<Longrightarrow> moves L s1 s2 \<Longrightarrow> K \<union> L \<subseteq> J \<Longrightarrow> moves J s s2"
  unfolding moves_def using keeps_trans by blast

lemma moves_refl [simp]: "moves K s s"
  by (simp add: moves_def)

lemma moves_same: "same_index K s s' \<Longrightarrow> moves K s s'"
  by (simp add: moves_def same_index_def)

text \<open>Reading what an entry names.\<close>

lemma rep_block:
  assumes R: "holds (t_shm E) minv1 (vm_shm s) C1" "holds (t_ssd E) minv2 (vm_ssd s) C2"
    "names req key_ok (ixs s) (blocks (vm_base s) C1 C2) M W" "0 \<le> vm_base s" "vm_base s \<le> 2 ^ 61"
    and at: "value_at req (blocks (vm_base s) C1 C2) w v" and v: "\<not> short v"
  obtains (mem) p where "word_type w = Memory" "w = mem_word (vm_base s) p" "mem_offset s (word_val w) = p"
      "8 \<le> p" "p < 2 ^ 35" "C1 p = Some (enc v)"
      "unat (read_len (t_shm E) (vm_shm s) p) = length v" "vt_bytes (t_shm E) (vm_shm s) (p + 2) (length v) = v"
  | (disk) p where "word_type w = Disk" "w = disk_word p" "sint (word_val w) = p"
      "8 \<le> p" "p < 2 ^ 35" "C2 p = Some (enc v)" "vt_GetMallocData (t_ssd E) (vm_ssd s) p = Some p"
      "unat (read_len (t_ssd E) (vm_ssd s) p) = length v" "vt_bytes (t_ssd E) (vm_ssd s) (p + 2) (length v) = v"
proof -
  from at v have D: "blocks (vm_base s) C1 C2 w = Some (enc v)" "length v \<le> 65535" by (auto simp: value_at_def)
  from namesD(8) [OF R(3), of w] D(1) consider "word_type w = Memory" | "word_type w = Disk" by auto
  then show ?thesis
  proof cases
    case 1
    let ?p = "uint (word_val w) - vm_base s"
    from D(1) 1 have C: "C1 ?p = Some (enc v)" by (simp add: blocks_def)
    then have a: "8 \<le> ?p" "?p < 2 ^ 35" using live_address [OF R(1) shm.malloc_client_axioms, of ?p] by auto
    have "w = mem_word (vm_base s) ?p"
      using 1 a R(4,5) word_of_type [of w] by (simp add: mem_word_def)
    with 1 a C read_enc [OF holds_bytes [OF R(1) C] D(2)] show ?thesis
      by (intro mem [of ?p]) (simp_all add: mem_offset_def)
  next
    case 2
    let ?p = "uint (word_val w)"
    from D(1) 2 have C: "C2 ?p = Some (enc v)" by (simp add: blocks_def)
    then have a: "8 \<le> ?p" "?p < 2 ^ 35" "vt_GetMallocData (t_ssd E) (vm_ssd s) ?p = Some ?p"
      using live_address [OF R(2) ssd.malloc_client_axioms, of ?p] by auto
    have w: "w = disk_word ?p" using 2 word_of_type [of w] by (simp add: disk_word_def)
    from a have "sint (word_val (disk_word ?p)) = ?p"
      using tier_word(3) [of ?p Disk] by (simp add: disk_word_def)
    then have "sint (word_val w) = ?p" using w by simp
    with 2 w a C read_enc [OF holds_bytes [OF R(2) C] D(2)] show ?thesis by (intro disk [of ?p])
  qed
qed

text \<open>Allocating and filling a block in either tier.\<close>

lemma rep_alloc_mem:
  assumes r: "rep s M W" and v: "\<not> short v" "length v \<le> 65535" "req (2 + int (length v))"
  obtains (null) m where "vt_New (t_shm E) (2 + int (length v)) (vm_shm s) = Inr (m, None)" "rep (s\<lparr>vm_shm := m\<rparr>) M W"
  | (block) m p where "vt_New (t_shm E) (2 + int (length v)) (vm_shm s) = Inr (m, Some p)"
      "0 \<le> vm_base s + p" "vm_base s + p < 2 ^ 62" "word_type (mem_word (vm_base s) p) = Memory"
      "\<And>m2. m2 = (if v = [] then vt_put (t_shm E) p (lenle 0) m
        else vt_put (t_shm E) (p + 2) v (vt_put (t_shm E) p (lenle (of_nat (length v))) m)) \<Longrightarrow>
        rep (s\<lparr>vm_shm := m2\<rparr>) M (W(mem_word (vm_base s) p \<mapsto> v))"
proof -
  let ?n = "2 + length v"
  from r obtain C1 C2 where R: "holds (t_shm E) minv1 (vm_shm s) C1" "holds (t_ssd E) minv2 (vm_ssd s) C2"
    "names req key_ok (ixs s) (blocks (vm_base s) C1 C2) M W" "iinv (vm_index s)"
    "0 \<le> vm_base s" "vm_base s \<le> 2 ^ 61" "\<And>k. M k \<noteq> None \<Longrightarrow> room (vm_index s) k" by (rule repE) blast
  from v(3) have rq: "req (int ?n)" by simp
  show thesis
  proof (rule shm.heap_New [OF R(1) rq])
    fix m assume "vt_New (t_shm E) (int ?n) (vm_shm s) = Inr (m, None)" "holds (t_shm E) minv1 m C1"
    moreover from this R have "rep (s\<lparr>vm_shm := m\<rparr>) M W" by (intro repI [where Cm = C1 and Cd = C2]) simp_all
    ultimately show thesis by (intro null [of m]) simp_all
  next
    fix m p bs
    assume N: "vt_New (t_shm E) (int ?n) (vm_shm s) = Inr (m, Some p)" "C1 p = None" "length bs = ?n"
      "holds (t_shm E) minv1 m (C1(p \<mapsto> bs))"
    let ?l = "lenle (of_nat (length v))"
    let ?m1 = "vt_put (t_shm E) p ?l m"
    have h1: "holds (t_shm E) minv1 ?m1 (C1(p \<mapsto> write_part 0 ?l bs))"
      using shm.heap_put [OF N(4), of p bs 0 ?l] N(3) by (simp add: lenle_def)
    have h2: "holds (t_shm E) minv1 (vt_put (t_shm E) (p + 2) v ?m1) (C1(p \<mapsto> enc v))"
      using shm.heap_put [OF h1, of p "write_part 0 ?l bs" 2 v] N(3) enc_parts [OF N(3)]
      by (simp add: lenle_def)
    have h: "holds (t_shm E) minv1 (if v = [] then vt_put (t_shm E) p (lenle 0) m else vt_put (t_shm E) (p + 2) v ?m1) (C1(p \<mapsto> enc v))"
    proof (cases "v = []")
      case True
      with h1 N(3) enc_empty [of bs] show ?thesis by simp
    qed (use h2 in simp)
    have a: "8 \<le> p" "p < 2 ^ 35" using live_address [OF N(4) shm.malloc_client_axioms, of p] by auto
    with R(5,6) have ba: "0 \<le> vm_base s + p" "vm_base s + p < 2 ^ 62" by simp_all
    let ?w = "mem_word (vm_base s) p"
    have t: "word_type ?w = Memory" using tier_word(1) [OF ba] by (simp add: mem_word_def)
    have "blocks (vm_base s) C1 C2 ?w = None"
      using N(2) tier_word(1,2) [OF ba, of Memory] by (simp add: blocks_def mem_word_def)
    from names_add(1) [OF R(3) this disjI1 [OF t] v]
    have "names req key_ok (ixs s) (blocks (vm_base s) (C1(p \<mapsto> enc v)) C2) M (W(?w \<mapsto> v))"
      by (simp add: blocks_mem [OF ba])
    with R h have "rep (s\<lparr>vm_shm := if v = [] then vt_put (t_shm E) p (lenle 0) m else vt_put (t_shm E) (p + 2) v ?m1\<rparr>) M (W(?w \<mapsto> v))"
      by (intro repI [where Cm = "C1(p \<mapsto> enc v)" and Cd = C2]) simp_all
    with N(1) ba t show thesis by (intro block [of m p]) simp_all
  qed
qed

lemma rep_alloc_disk:
  assumes r: "rep s M W" and v: "\<not> short v" "length v \<le> 65535" "req (2 + int (length v))"
  obtains (null) m where "vt_New (t_ssd E) (2 + int (length v)) (vm_ssd s) = Inr (m, None)" "rep (s\<lparr>vm_ssd := m\<rparr>) M W"
  | (block) m p where "vt_New (t_ssd E) (2 + int (length v)) (vm_ssd s) = Inr (m, Some p)"
      "0 \<le> p" "p < 2 ^ 62" "vt_GetMallocOffset (t_ssd E) m p = p" "word_type (disk_word p) = Disk"
      "\<And>m2. m2 \<in> {m, vt_put (t_ssd E) p (lenle (of_nat (length v))) m,
          vt_put (t_ssd E) (p + 2) v (vt_put (t_ssd E) p (lenle (of_nat (length v))) m)} \<Longrightarrow>
        rep (s\<lparr>vm_ssd := fst (vt_Free (t_ssd E) (Some p) m2)\<rparr>) M W"
      "\<And>m2. m2 = (if v = [] then vt_put (t_ssd E) p (lenle 0) m
        else vt_put (t_ssd E) (p + 2) v (vt_put (t_ssd E) p (lenle (of_nat (length v))) m)) \<Longrightarrow>
        rep (s\<lparr>vm_ssd := m2\<rparr>) M (W(disk_word p \<mapsto> v))"
proof -
  let ?n = "2 + length v"
  from r obtain C1 C2 where R: "holds (t_shm E) minv1 (vm_shm s) C1" "holds (t_ssd E) minv2 (vm_ssd s) C2"
    "names req key_ok (ixs s) (blocks (vm_base s) C1 C2) M W" "iinv (vm_index s)"
    "0 \<le> vm_base s" "vm_base s \<le> 2 ^ 61" "\<And>k. M k \<noteq> None \<Longrightarrow> room (vm_index s) k" by (rule repE) blast
  from v(3) have rq: "req (int ?n)" by simp
  show thesis
  proof (rule ssd.heap_New [OF R(2) rq])
    fix m assume "vt_New (t_ssd E) (int ?n) (vm_ssd s) = Inr (m, None)" "holds (t_ssd E) minv2 m C2"
    moreover from this R have "rep (s\<lparr>vm_ssd := m\<rparr>) M W" by (intro repI [where Cm = C1 and Cd = C2]) simp_all
    ultimately show thesis by (intro null [of m]) simp_all
  next
    fix m p bs
    assume N: "vt_New (t_ssd E) (int ?n) (vm_ssd s) = Inr (m, Some p)" "C2 p = None" "length bs = ?n"
      "holds (t_ssd E) minv2 m (C2(p \<mapsto> bs))"
    let ?l = "lenle (of_nat (length v))"
    let ?m1 = "vt_put (t_ssd E) p ?l m"
    have h1: "holds (t_ssd E) minv2 ?m1 (C2(p \<mapsto> write_part 0 ?l bs))"
      using ssd.heap_put [OF N(4), of p bs 0 ?l] N(3) by (simp add: lenle_def)
    have h2: "holds (t_ssd E) minv2 (vt_put (t_ssd E) (p + 2) v ?m1) (C2(p \<mapsto> enc v))"
      using ssd.heap_put [OF h1, of p "write_part 0 ?l bs" 2 v] N(3) enc_parts [OF N(3)]
      by (simp add: lenle_def)
    have h: "holds (t_ssd E) minv2 (if v = [] then vt_put (t_ssd E) p (lenle 0) m else vt_put (t_ssd E) (p + 2) v ?m1) (C2(p \<mapsto> enc v))"
    proof (cases "v = []")
      case True
      with h1 N(3) enc_empty [of bs] show ?thesis by simp
    qed (use h2 in simp)
    have freed: "rep (s\<lparr>vm_ssd := fst (vt_Free (t_ssd E) (Some p) m2)\<rparr>) M W"
      if m2: "holds (t_ssd E) minv2 m2 (C2(p \<mapsto> cs))" for m2 cs
    proof (rule ssd.heap_Free [OF m2, of p cs])
      fix m' assume "vt_Free (t_ssd E) (Some p) m2 = (m', True)" "holds (t_ssd E) minv2 m' ((C2(p \<mapsto> cs))(p := None))"
      moreover have "(C2(p \<mapsto> cs))(p := None) = C2" using N(2) by auto
      ultimately show ?thesis using R by (intro repI [where Cm = C1 and Cd = C2]) simp_all
    qed simp
    have a: "8 \<le> p" "p < 2 ^ 35" "vt_GetMallocOffset (t_ssd E) m p = p"
      using live_address [OF N(4) ssd.malloc_client_axioms, of p] by auto
    then have ba: "0 \<le> p" "p < 2 ^ 62" by simp_all
    let ?w = "disk_word p"
    have t: "word_type ?w = Disk" using tier_word(1) [OF ba] by (simp add: disk_word_def)
    have "blocks (vm_base s) C1 C2 ?w = None"
      using N(2) tier_word(1,2) [OF ba, of Disk] by (simp add: blocks_def disk_word_def)
    from names_add(1) [OF R(3) this disjI2 [OF t] v]
    have "names req key_ok (ixs s) (blocks (vm_base s) C1 (C2(p \<mapsto> enc v))) M (W(?w \<mapsto> v))"
      by (simp add: blocks_disk [OF ba])
    with R h have "rep (s\<lparr>vm_ssd := if v = [] then vt_put (t_ssd E) p (lenle 0) m else vt_put (t_ssd E) (p + 2) v ?m1\<rparr>) M (W(?w \<mapsto> v))"
      by (intro repI [where Cm = C1 and Cd = "C2(p \<mapsto> enc v)"]) simp_all
    with N(1) ba t a freed [OF N(4)] freed [OF h1] freed [OF h2] show thesis by (intro block [of m p]) auto
  qed
qed

text \<open>Releasing a pointer in flight.\<close>

lemma FreePointer_ok:
  assumes r: "rep s M [w \<mapsto> v]"
  shows "\<exists>s'. FreePointer E (up_from_raw w) s = Inr s' \<and> rep s' M Map.empty \<and> same_index {} s s' \<and>
    vm_used s' = (if word_type w = Memory then vm_used s - (of_nat (length v) + 2) else vm_used s) \<and> vm_low s' = vm_low s"
proof -
  from r obtain C1 C2 where R: "holds (t_shm E) minv1 (vm_shm s) C1" "holds (t_ssd E) minv2 (vm_ssd s) C2"
    "names req key_ok (ixs s) (blocks (vm_base s) C1 C2) M [w \<mapsto> v]" "iinv (vm_index s)"
    "0 \<le> vm_base s" "vm_base s \<le> 2 ^ 61" "\<And>k. M k \<noteq> None \<Longrightarrow> room (vm_index s) k" by (rule repE) blast
  note F = names_free [OF R(3)]
  let ?D = "blocks (vm_base s) C1 C2"
  have at: "value_at req ?D w v" using namesD(4) [OF R(3)] by simp
  show ?thesis
  proof (cases "short v")
    case True
    with at have w: "w = ptr_word PMem (inline_word v)" by (simp add: value_at_def)
    then have t: "word_type w = PMem" using inline_word_type [OF True] by simp
    then have "?D w = None" by (simp add: blocks_def)
    with F have "names req key_ok (ixs s) ?D M Map.empty" by (simp add: fun_upd_idem)
    with R have "rep s M Map.empty" by (intro repI [where Cm = C1 and Cd = C2]) simp_all
    moreover have "FreePointer E (up_from_raw w) s = Inr s"
      using t by (simp add: FreePointer_def word_type_def)
    ultimately show ?thesis using t by (simp add: same_index_def)
  next
    case False
    from R(3) R(1,2,5,6) at False show ?thesis
    proof (elim rep_block)
      fix p assume p: "word_type w = Memory" "w = mem_word (vm_base s) p" "mem_offset s (word_val w) = p"
        "8 \<le> p" "p < 2 ^ 35" "C1 p = Some (enc v)" "unat (read_len (t_shm E) (vm_shm s) p) = length v"
      with R(5,6) have ba: "0 \<le> vm_base s + p" "vm_base s + p < 2 ^ 62" by auto
      have len: "ucast (read_len (t_shm E) (vm_shm s) p) = (of_nat (length v) :: u64)"
        by (metis p(7) of_nat_unat)
      show ?thesis
      proof (rule shm.heap_Free [OF R(1) p(6)])
        fix m' assume m': "vt_Free (t_shm E) (Some p) (vm_shm s) = (m', True)" "holds (t_shm E) minv1 m' (C1(p := None))"
        from F have "names req key_ok (ixs s) (blocks (vm_base s) (C1(p := None)) C2) M Map.empty"
          using p(2) by (simp add: blocks_mem [OF ba])
        with R m' have "rep (s\<lparr>vm_shm := m'\<rparr>) M Map.empty"
          by (intro repI [where Cm = "C1(p := None)" and Cd = C2]) simp_all
        then show ?thesis
          using p(1,3) m'(1) by (simp add: FreePointer_def up_bool_def up_as_memory_pointer_def word_type_def word_val_def
              Let_def hybrid_rep_def same_index_def len)
      qed
    next
      fix p assume p: "word_type w = Disk" "w = disk_word p" "sint (word_val w) = p" "8 \<le> p" "p < 2 ^ 35"
        "C2 p = Some (enc v)" "vt_GetMallocData (t_ssd E) (vm_ssd s) p = Some p"
      then have ba: "0 \<le> p" "p < 2 ^ 62" by auto
      show ?thesis
      proof (rule ssd.heap_Free [OF R(2) p(6)])
        fix m' assume m': "vt_Free (t_ssd E) (Some p) (vm_ssd s) = (m', True)" "holds (t_ssd E) minv2 m' (C2(p := None))"
        from F have "names req key_ok (ixs s) (blocks (vm_base s) C1 (C2(p := None))) M Map.empty"
          using p(2) by (simp add: blocks_disk [OF ba])
        with R m' have "rep (s\<lparr>vm_ssd := m'\<rparr>) M Map.empty"
          by (intro repI [where Cm = C1 and Cd = "C2(p := None)"]) simp_all
        then show ?thesis
          using p(1,3,7) m'(1) by (simp add: FreePointer_def up_bool_def up_as_disk_page_id_def word_type_def word_val_def same_index_def)
      qed
    qed
  qed
qed

text \<open>The writes to a tier.\<close>

lemma WriteMem_ok:
  assumes r: "rep s M Map.empty" and v: "storable req v"
  shows "\<exists>s' p. WriteMem E key v s = Inr (s', p) \<and> same_index {key} s s' \<and> (short v \<longrightarrow> up_bool p) \<and>
    vm_ssd s' = vm_ssd s \<and> (\<not> short v \<and> up_bool p \<longrightarrow> up_type p = Memory) \<and>
    (\<not> up_bool p \<longrightarrow> (\<exists>m. vt_New (t_shm E) (2 + int (length v)) (vm_shm s) = Inr (m, None) \<and> s' = s\<lparr>vm_shm := m\<rparr>)) \<and>
    (\<not> short v \<and> up_bool p \<longrightarrow> (\<exists>m q. vt_New (t_shm E) (2 + int (length v)) (vm_shm s) = Inr (m, Some q)) \<and>
       vm_used s' = vm_used s + (2 + of_nat (length v))) \<and> vm_low s' = vm_low s \<and> vm_hot s' = vm_hot s \<and>
    (if up_bool p then rep s' M [up_raw p \<mapsto> v] else rep s' M Map.empty)"
proof (cases "short v")
  case True
  from inline_word_small [OF True] have p: "up_from_pmem (inline_word v) = Inr \<lparr>up_raw = ptr_word PMem (inline_word v)\<rparr>"
    by (simp add: up_from_pmem_def up_set_Inr_iff ptr_word_def up_default_def)
  have t: "up_bool \<lparr>up_raw = ptr_word PMem (inline_word v)\<rparr>"
    using inline_word_type(1) [OF True] by (simp add: up_bool_def word_type_def up_from_raw_def up_default_def)
  have "rep s M [ptr_word PMem (inline_word v) \<mapsto> v]"
    using r v True by (auto elim!: repE intro!: repI names_inline simp: storable_def)
  with p t True show ?thesis by (simp add: WriteMem_def short_def same_index_def)
next
  case False
  with v have l: "length v \<le> 65535" "req (2 + int (length v))" "\<not> (0 < length v \<and> length v \<le> 7)"
    by (auto simp: storable_def short_def)
  let ?l = "of_nat (length v) :: u16"
  from l have u: "unat ?l = length v" "?l \<noteq> 0 \<longleftrightarrow> v \<noteq> []"
    by (simp_all add: unsigned_of_nat take_bit_nat_eq_self word_eq_unat_iff)
  have W: "WriteMem E key v s = bind_result (vt_New (t_shm E) (2 + int (length v)) (vm_shm s)) (\<lambda>(m, r).
      case r of
        None \<Rightarrow> Inr (s\<lparr>vm_shm := m\<rparr>, up_default)
      | Some ptr \<Rightarrow>
          let m1 = vt_put (t_shm E) ptr (lenle ?l) m;
              m2 = (if v \<noteq> [] then vt_put (t_shm E) (ptr + 2) v m1 else m1);
              s' = s\<lparr>vm_shm := m2, vm_used := vm_used s + of_int (2 + int (length v)),
                     vm_lru := lru_insert key (vm_lru s)\<rparr> in
          bind_result (up_from_memory (word_of_int (vm_base s + ptr))) (\<lambda>p. Inr (s', p)))"
    unfolding WriteMem_def Let_def u using l by auto
  show ?thesis
  proof (rule rep_alloc_mem [OF r False l(1,2)])
    fix m assume "vt_New (t_shm E) (2 + int (length v)) (vm_shm s) = Inr (m, None)" "rep (s\<lparr>vm_shm := m\<rparr>) M Map.empty"
    with False show ?thesis unfolding W by (simp add: same_index_def up_bool_def up_type_def up_default_def)
  next
    fix m p
    assume N: "vt_New (t_shm E) (2 + int (length v)) (vm_shm s) = Inr (m, Some p)"
      "0 \<le> vm_base s + p" "vm_base s + p < 2 ^ 62" "word_type (mem_word (vm_base s) p) = Memory"
      "\<And>m2. m2 = (if v = [] then vt_put (t_shm E) p (lenle 0) m
        else vt_put (t_shm E) (p + 2) v (vt_put (t_shm E) p (lenle ?l) m)) \<Longrightarrow>
        rep (s\<lparr>vm_shm := m2\<rparr>) M [mem_word (vm_base s) p \<mapsto> v]"
    from small_address(2) [OF N(2,3)]
    have p: "up_from_memory (word_of_int (vm_base s + p)) = Inr \<lparr>up_raw = mem_word (vm_base s) p\<rparr>"
      by (simp add: up_from_memory_def up_set_Inr_iff mem_word_def ptr_word_def up_default_def)
    have t: "up_bool \<lparr>up_raw = mem_word (vm_base s) p\<rparr>" "up_type \<lparr>up_raw = mem_word (vm_base s) p\<rparr> = Memory"
      using N(4) by (simp_all add: up_bool_def word_type_def up_from_raw_def up_default_def)
    let ?m = "if v = [] then vt_put (t_shm E) p (lenle 0) m
        else vt_put (t_shm E) (p + 2) v (vt_put (t_shm E) p (lenle ?l) m)"
    let ?s = "s\<lparr>vm_shm := ?m, vm_used := vm_used s + of_int (2 + int (length v)), vm_lru := lru_insert key (vm_lru s)\<rparr>"
    from N(5) [OF refl] have "rep ?s M [mem_word (vm_base s) p \<mapsto> v]" by (simp add: hybrid_rep_def)
    moreover have "keeps {key} s ?s" using keeps_touch [of key s] by (simp add: keeps_def tracked_def)
    moreover have "WriteMem E key v s = Inr (?s, \<lparr>up_raw = mem_word (vm_base s) p\<rparr>)"
      unfolding W using N(1) p by (auto simp: Let_def)
    ultimately show ?thesis using t False N(1) by (simp add: same_index_def)
  qed
qed

lemma WriteDisk_ok:
  assumes r: "rep s M Map.empty" and v: "\<not> short v" "length v \<le> 65535" "req (2 + int (length v))"
  shows "\<exists>s' p. WriteDisk E io v s = Inr (s', p) \<and> same_index {} s s' \<and>
    (up_bool p \<longleftrightarrow> io_len io \<and> (v = [] \<or> io_data io) \<and> io_sync io \<and>
       (\<exists>m q. vt_New (t_ssd E) (2 + int (length v)) (vm_ssd s) = Inr (m, Some q))) \<and>
    (up_bool p \<longrightarrow> up_type p = Disk) \<and> vm_shm s' = vm_shm s \<and> vm_used s' = vm_used s \<and> vm_low s' = vm_low s \<and> vm_hot s' = vm_hot s \<and>
    (if up_bool p then rep s' M [up_raw p \<mapsto> v]
     else rep s' M Map.empty \<and>
       ((\<exists>m. vt_New (t_ssd E) (2 + int (length v)) (vm_ssd s) = Inr (m, None)) \<or>
        \<not> (io_len io \<and> io_data io \<and> io_sync io)))"
proof -
  let ?l = "of_nat (length v) :: u16"
  from v have u: "unat ?l = length v" "?l \<noteq> 0 \<longleftrightarrow> v \<noteq> []" "v = [] \<Longrightarrow> ?l = 0"
    by (simp_all add: unsigned_of_nat take_bit_nat_eq_self word_eq_unat_iff)
  have inv: "\<not> up_bool up_default" by (simp add: up_bool_def up_type_def up_default_def)
  show ?thesis
  proof (rule rep_alloc_disk [OF r v])
    fix m assume "vt_New (t_ssd E) (2 + int (length v)) (vm_ssd s) = Inr (m, None)" "rep (s\<lparr>vm_ssd := m\<rparr>) M Map.empty"
    moreover from this v(2) have "WriteDisk E io v s = Inr (s\<lparr>vm_ssd := m\<rparr>, up_default)"
      unfolding WriteDisk_def Let_def u(1) by simp
    ultimately show ?thesis using inv by (simp add: same_index_def)
  next
    fix m p
    let ?m1 = "vt_put (t_ssd E) p (lenle ?l) m"
    assume N: "vt_New (t_ssd E) (2 + int (length v)) (vm_ssd s) = Inr (m, Some p)"
      "0 \<le> p" "p < 2 ^ 62" "vt_GetMallocOffset (t_ssd E) m p = p" "word_type (disk_word p) = Disk"
      "\<And>m2. m2 \<in> {m, ?m1, vt_put (t_ssd E) (p + 2) v ?m1} \<Longrightarrow>
        rep (s\<lparr>vm_ssd := fst (vt_Free (t_ssd E) (Some p) m2)\<rparr>) M Map.empty"
      "\<And>m2. m2 = (if v = [] then vt_put (t_ssd E) p (lenle 0) m else vt_put (t_ssd E) (p + 2) v ?m1) \<Longrightarrow>
        rep (s\<lparr>vm_ssd := m2\<rparr>) M [disk_word p \<mapsto> v]"
    from small_address(2) [OF N(2,3)]
    have p: "up_from_disk_page_id (word_of_int p) = Inr \<lparr>up_raw = disk_word p\<rparr>"
      by (simp add: up_from_disk_page_id_def up_set_Inr_iff disk_word_def ptr_word_def up_default_def)
    have t: "up_bool \<lparr>up_raw = disk_word p\<rparr>" "up_type \<lparr>up_raw = disk_word p\<rparr> = Disk"
      using N(5) by (simp_all add: up_bool_def word_type_def up_from_raw_def up_default_def)
    have W: "WriteDisk E io v s =
       (if \<not> io_len io then Inr (s\<lparr>vm_ssd := fst (vt_Free (t_ssd E) (Some p) m)\<rparr>, up_default)
        else if v \<noteq> [] \<and> \<not> io_data io then Inr (s\<lparr>vm_ssd := fst (vt_Free (t_ssd E) (Some p) ?m1)\<rparr>, up_default)
        else if \<not> io_sync io
        then Inr (s\<lparr>vm_ssd := fst (vt_Free (t_ssd E) (Some p) (if v \<noteq> [] then vt_put (t_ssd E) (p + 2) v ?m1 else ?m1))\<rparr>, up_default)
        else Inr (s\<lparr>vm_ssd := if v \<noteq> [] then vt_put (t_ssd E) (p + 2) v ?m1 else ?m1\<rparr>, \<lparr>up_raw = disk_word p\<rparr>))"
      unfolding WriteDisk_def Let_def u(1,2) using v(2) N(1,2,4) p by simp
    have "(if v \<noteq> [] then vt_put (t_ssd E) (p + 2) v ?m1 else ?m1) =
      (if v = [] then vt_put (t_ssd E) p (lenle 0) m else vt_put (t_ssd E) (p + 2) v ?m1)" using u(3) by simp
    from N(7) [OF this] N(1,6) t inv show ?thesis
      unfolding W by (auto simp: same_index_def)
  qed
qed

text \<open>The index takes the pointer in flight; the one it had is in flight then.\<close>

lemma publish_ok:
  assumes r: "rep s M [up_raw p \<mapsto> v]" and p: "up_bool p" and k: "key_ok k" "room (vm_index s) k"
  shows "\<exists>s'. publish E k p s = Inr (s', ixs s k) \<and> vm_ssd s' = vm_ssd s \<and> ixs s' k = up_raw p \<and> (\<forall>j. key_ok j \<and> j \<noteq> k \<longrightarrow> ixs s' j = ixs s j) \<and> keeps {} s s' \<and> (M k \<noteq> None \<longrightarrow> moves {} s s') \<and>
    vm_shm s' = vm_shm s \<and> vm_used s' = vm_used s \<and> vm_low s' = vm_low s \<and>
    rep s' (M(k \<mapsto> v)) (case M k of None \<Rightarrow> Map.empty | Some u \<Rightarrow> [ixs s k \<mapsto> u])"
proof -
  from r obtain C1 C2 where R: "holds (t_shm E) minv1 (vm_shm s) C1" "holds (t_ssd E) minv2 (vm_ssd s) C2"
    "names req key_ok (ixs s) (blocks (vm_base s) C1 C2) M [up_raw p \<mapsto> v]" "iinv (vm_index s)"
    "0 \<le> vm_base s" "vm_base s \<le> 2 ^ 61" "\<And>k. M k \<noteq> None \<Longrightarrow> room (vm_index s) k" by (rule repE) blast
  have "up_raw p \<noteq> NONE" using p up_raw_nonzero [of p] by (simp add: up_bool_def NONE_def)
  from ix.Put [OF R(4) k this] obtain i where i: "ix_Put (t_index E) k (up_raw p) (vm_index s) = Some i" "iinv i"
    "ix_Get (t_index E) k i = up_raw p" "\<forall>j. key_ok j \<and> j \<noteq> k \<longrightarrow> ix_Get (t_index E) j i = ixs s j"
    "\<forall>j. key_ok j \<and> (j = k \<or> ixs s j \<noteq> NONE \<or> ixs s k \<noteq> NONE \<and> room (vm_index s) j) \<longrightarrow> room i j" by blast
  from names_publish [OF R(3) k(1), of "\<lambda>j. ix_Get (t_index E) j i", OF i(3,4)]
  have N: "names req key_ok (\<lambda>j. ix_Get (t_index E) j i) (blocks (vm_base s) C1 C2) (M(k \<mapsto> v))
     (case M k of None \<Rightarrow> Map.empty | Some u \<Rightarrow> [ixs s k \<mapsto> u])" .
  have "room i j" if "(M(k \<mapsto> v)) j \<noteq> None" for j
  proof (cases "j = k")
    case True
    with i(5) k show ?thesis by blast
  next
    case False
    with that obtain u where u: "M j = Some u" by auto
    note ok = namesD(3) [OF R(3) u]
    have "ixs s j \<noteq> NONE"
      using value_at_nonzero [OF namesD(2) [OF R(3) u]] namesD(8) [OF R(3)] by blast
    with i(5) ok show ?thesis by blast
  qed
  with R i(1,2) N have "rep (s\<lparr>vm_index := i\<rparr>) (M(k \<mapsto> v)) (case M k of None \<Rightarrow> Map.empty | Some u \<Rightarrow> [ixs s k \<mapsto> u])"
    by (intro repI [where Cm = C1 and Cd = C2]) simp_all
  moreover have "moves {} s (s\<lparr>vm_index := i\<rparr>)" if "M k \<noteq> None"
  proof -
    from that obtain u where "M k = Some u" by blast
    from value_at_nonzero [OF namesD(2) [OF R(3) this]] namesD(8) [OF R(3)] have "ixs s k \<noteq> NONE" by blast
    with i(5) show ?thesis by (auto simp: moves_def)
  qed
  ultimately show ?thesis using i(1,3,4) by (simp add: publish_def)
qed

lemma release_raw_ok:
  assumes "rep s M (case u of None \<Rightarrow> Map.empty | Some y \<Rightarrow> [w \<mapsto> y])" and "u = None \<longleftrightarrow> w = 0"
  shows "\<exists>s'. release_raw E w s = Inr s' \<and> rep s' M Map.empty \<and> same_index {} s s'"
proof (cases u)
  case None
  with assms show ?thesis by (simp add: release_raw_def same_index_def)
next
  case (Some y)
  with assms FreePointer_ok [of s M w y] show ?thesis by (auto simp: release_raw_def same_index_def)
qed

lemma entry_zero: "rep s M W \<Longrightarrow> key_ok k \<Longrightarrow> M k = None \<longleftrightarrow> ixs s k = 0"
proof (elim repE)
  fix C1 C2
  assume k: "key_ok k" and N: "names req key_ok (ixs s) (blocks (vm_base s) C1 C2) M W"
  show "M k = None \<longleftrightarrow> ixs s k = 0"
  proof (cases "M k")
    case None
    with namesD(1) [OF N k] show ?thesis by (simp add: NONE_def)
  next
    case (Some v)
    from value_at_nonzero [OF namesD(2) [OF N this]] namesD(8) [OF N] Some show ?thesis by (simp add: NONE_def)
  qed
qed

text \<open>Reading an entry's value.\<close>

lemma entry_cases:
  assumes r: "rep s M W" and k: "M k = Some v"
  obtains (small) "short v" "word_type (ixs s k) = PMem" "up_as_pmem_offset (up_from_raw (ixs s k)) = Inr (inline_word v)"
      "lossless v"
  | (mem) p a where "\<not> short v" "word_type (ixs s k) = Memory" "up_as_memory_pointer (up_from_raw (ixs s k)) = Inr a"
      "mem_offset s a = p" "unat (read_len (t_shm E) (vm_shm s) p) = length v"
      "vt_bytes (t_shm E) (vm_shm s) (p + 2) (length v) = v"
      "\<And>u. length u = length v \<Longrightarrow> rep (s\<lparr>vm_shm := vt_put (t_shm E) (p + 2) u (vm_shm s)\<rparr>) (M(k \<mapsto> u)) W"
  | (disk) p a where "\<not> short v" "word_type (ixs s k) = Disk" "up_as_disk_page_id (up_from_raw (ixs s k)) = Inr a"
      "sint a = p" "vt_GetMallocData (t_ssd E) (vm_ssd s) p = Some p"
      "unat (read_len (t_ssd E) (vm_ssd s) p) = length v" "vt_bytes (t_ssd E) (vm_ssd s) (p + 2) (length v) = v"
      "\<And>u. length u = length v \<Longrightarrow> rep (s\<lparr>vm_ssd := vt_put (t_ssd E) (p + 2) u (vm_ssd s)\<rparr>) (M(k \<mapsto> u)) W"
proof -
  from r obtain C1 C2 where R: "holds (t_shm E) minv1 (vm_shm s) C1" "holds (t_ssd E) minv2 (vm_ssd s) C2"
    "names req key_ok (ixs s) (blocks (vm_base s) C1 C2) M W" "iinv (vm_index s)"
    "0 \<le> vm_base s" "vm_base s \<le> 2 ^ 61" "\<And>k. M k \<noteq> None \<Longrightarrow> room (vm_index s) k" by (rule repE) blast
  note at = namesD(2) [OF R(3) k]
  have rooms: "room (vm_index s) j" if "(M(k \<mapsto> u)) j \<noteq> None" for j u
    using R(7) [of j] k that by (auto split: if_splits)
  show thesis
  proof (cases "short v")
    case True
    with at have w: "ixs s k = ptr_word PMem (inline_word v)" "lossless v" by (simp_all add: value_at_def)
    with inline_word_type [OF True] have "word_type (ixs s k) = PMem" "word_val (ixs s k) = inline_word v" by simp_all
    with True w(2) show thesis by (intro small) (simp_all add: up_as_pmem_offset_def word_type_def word_val_def)
  next
    case False
    have same_short: "\<not> short u" if "length u = length v" for u using False that by (simp add: short_def)
    show thesis
      using R(1-3,5,6) at False
    proof (elim rep_block)
      fix p assume p: "word_type (ixs s k) = Memory" "ixs s k = mem_word (vm_base s) p"
        "mem_offset s (word_val (ixs s k)) = p" "8 \<le> p" "p < 2 ^ 35" "C1 p = Some (enc v)"
        "unat (read_len (t_shm E) (vm_shm s) p) = length v" "vt_bytes (t_shm E) (vm_shm s) (p + 2) (length v) = v"
      with R(5,6) have ba: "0 \<le> vm_base s + p" "vm_base s + p < 2 ^ 62" by auto
      have "rep (s\<lparr>vm_shm := vt_put (t_shm E) (p + 2) u (vm_shm s)\<rparr>) (M(k \<mapsto> u)) W" if u: "length u = length v" for u
      proof -
        have h: "holds (t_shm E) minv1 (vt_put (t_shm E) (p + 2) u (vm_shm s)) (C1(p \<mapsto> enc u))"
          using shm.heap_put [OF R(1) p(6), of 2 u] u by (simp add: enc_overwrite)
        from names_overwrite [OF R(3) k False same_short [OF u] u]
        have "names req key_ok (ixs s) (blocks (vm_base s) (C1(p \<mapsto> enc u)) C2) (M(k \<mapsto> u)) W"
          by (simp add: blocks_mem [OF ba] p(2))
        with R h rooms show ?thesis
          by (intro repI [where Cm = "C1(p \<mapsto> enc u)" and Cd = C2]) (simp_all del: fun_upd_apply)
      qed
      with False p show thesis
        by (intro mem [of "word_val (ixs s k)" p]) (simp_all add: up_as_memory_pointer_def word_type_def word_val_def)
    next
      fix p assume p: "word_type (ixs s k) = Disk" "ixs s k = disk_word p" "sint (word_val (ixs s k)) = p"
        "8 \<le> p" "p < 2 ^ 35" "C2 p = Some (enc v)" "vt_GetMallocData (t_ssd E) (vm_ssd s) p = Some p"
        "unat (read_len (t_ssd E) (vm_ssd s) p) = length v" "vt_bytes (t_ssd E) (vm_ssd s) (p + 2) (length v) = v"
      then have ba: "0 \<le> p" "p < 2 ^ 62" by auto
      have "rep (s\<lparr>vm_ssd := vt_put (t_ssd E) (p + 2) u (vm_ssd s)\<rparr>) (M(k \<mapsto> u)) W" if u: "length u = length v" for u
      proof -
        have h: "holds (t_ssd E) minv2 (vt_put (t_ssd E) (p + 2) u (vm_ssd s)) (C2(p \<mapsto> enc u))"
          using ssd.heap_put [OF R(2) p(6), of 2 u] u by (simp add: enc_overwrite)
        from names_overwrite [OF R(3) k False same_short [OF u] u]
        have "names req key_ok (ixs s) (blocks (vm_base s) C1 (C2(p \<mapsto> enc u))) (M(k \<mapsto> u)) W"
          by (simp add: blocks_disk [OF ba] p(2))
        with R h rooms show ?thesis
          by (intro repI [where Cm = C1 and Cd = "C2(p \<mapsto> enc u)"]) (simp_all del: fun_upd_apply)
      qed
      with False p show thesis
        by (intro disk [of "word_val (ixs s k)" p]) (simp_all add: up_as_disk_page_id_def word_type_def word_val_def)
    qed
  qed
qed

lemma read_entry:
  assumes r: "rep s M W" and k: "M k = Some v"
  shows "word_type (ixs s k) = Memory \<Longrightarrow> ReadFromMemRaw E (up_from_raw (ixs s k)) s = Inr v \<and> \<not> short v"
    and "word_type (ixs s k) = Disk \<Longrightarrow> ReadFromDiskNoHeat E (up_from_raw (ixs s k)) s = Inr v \<and> \<not> short v"
  by (rule entry_cases [OF r k]; simp add: ReadFromMemRaw_def ReadFromDiskNoHeat_def Let_def)+

lemma RetrieveValue_ok:
  assumes r: "rep s M W" and k: "key_ok k"
  shows "\<exists>s'. RetrieveValue E k s = Inr (s', case M k of None \<Rightarrow> [] | Some v \<Rightarrow> v) \<and> rep s' M W \<and> same_index {k} s s'"
proof (cases "M k")
  case None
  with entry_zero [OF r k] have "ixs s k = 0" by simp
  with None r show ?thesis
    using word_type_NONE by (simp add: RetrieveValue_def Let_def word_type_def NONE_def same_index_def)
next
  case (Some v)
  show ?thesis
  proof (rule entry_cases [OF r Some])
    assume a: "short v" "word_type (ixs s k) = PMem" "up_as_pmem_offset (up_from_raw (ixs s k)) = Inr (inline_word v)"
      "lossless v"
    with inline_roundtrip [OF a(1,4)] Some r show ?thesis
      by (simp add: RetrieveValue_def Let_def word_type_def same_index_def)
  next
    assume "word_type (ixs s k) = Memory"
    with read_entry(1) [OF r Some] Some r show ?thesis
      by (simp add: RetrieveValue_def Let_def word_type_def same_index_def rep_frame) (simp add: TouchLRU_def keeps_touch)
  next
    assume "word_type (ixs s k) = Disk"
    with read_entry(2) [OF r Some] Some r show ?thesis
      by (simp add: RetrieveValue_def Let_def word_type_def same_index_def rep_frame) (auto simp: keeps_def tracked_def)
  qed
qed

text \<open>A value of the stored length is overwritten in place, whichever tier it is in.\<close>

lemma write_in_place_ok:
  assumes r: "rep s M Map.empty" and k: "key_ok k"
  shows "(\<exists>s'. write_in_place E k v s = Inr (Some s') \<and> rep s' (M(k \<mapsto> v)) Map.empty \<and> same_index {k} s s') \<or>
    write_in_place E k v s = Inr None"
proof (cases "M k")
  case None
  with entry_zero [OF r k] show ?thesis by (simp add: write_in_place_def Let_def)
next
  case (Some u)
  with entry_zero [OF r k] have nz: "ixs s k \<noteq> 0" by simp
  show ?thesis
  proof (rule entry_cases [OF r Some])
    assume "word_type (ixs s k) = PMem"
    then show ?thesis by (simp add: write_in_place_def word_type_def Let_def)
  next
    fix p a
    assume a: "word_type (ixs s k) = Memory" "up_as_memory_pointer (up_from_raw (ixs s k)) = Inr a"
      "mem_offset s a = p" "unat (read_len (t_shm E) (vm_shm s) p) = length u"
      "\<And>v. length v = length u \<Longrightarrow> rep (s\<lparr>vm_shm := vt_put (t_shm E) (p + 2) v (vm_shm s)\<rparr>) (M(k \<mapsto> v)) Map.empty"
    then show ?thesis
      using nz by (auto simp: write_in_place_def Let_def PeekLenMem_def word_type_def same_index_def rep_frame)
        (simp_all add: TouchLRU_def keeps_touchI)
  next
    fix p a
    assume a: "word_type (ixs s k) = Disk" "up_as_disk_page_id (up_from_raw (ixs s k)) = Inr a"
      "sint a = p" "vt_GetMallocData (t_ssd E) (vm_ssd s) p = Some p"
      "unat (read_len (t_ssd E) (vm_ssd s) p) = length u"
      "\<And>v. length v = length u \<Longrightarrow> rep (s\<lparr>vm_ssd := vt_put (t_ssd E) (p + 2) v (vm_ssd s)\<rparr>) (M(k \<mapsto> v)) Map.empty"
    then show ?thesis
      using nz by (auto simp: write_in_place_def Let_def word_type_def same_index_def)
  qed
qed

lemma write_in_place_short:
  assumes r: "rep s M W" and k: "key_ok k" and v: "short v"
  shows "write_in_place E k v s = Inr None"
proof (cases "M k")
  case None
  with entry_zero [OF r k] show ?thesis by (simp add: write_in_place_def Let_def)
next
  case (Some u)
  have "length u \<noteq> length v" if "\<not> short u" using v that by (auto simp: short_def)
  note len = this
  show ?thesis
  proof (rule entry_cases [OF r Some])
    assume "word_type (ixs s k) = PMem"
    then show ?thesis by (simp add: write_in_place_def word_type_def Let_def)
  next
    fix p a
    assume "\<not> short u" "word_type (ixs s k) = Memory" "up_as_memory_pointer (up_from_raw (ixs s k)) = Inr a"
      "mem_offset s a = p" "unat (read_len (t_shm E) (vm_shm s) p) = length u"
    with len show ?thesis by (simp add: write_in_place_def Let_def PeekLenMem_def word_type_def)
  next
    fix p a
    assume "\<not> short u" "word_type (ixs s k) = Disk" "up_as_disk_page_id (up_from_raw (ixs s k)) = Inr a"
      "sint a = p" "vt_GetMallocData (t_ssd E) (vm_ssd s) p = Some p"
      "unat (read_len (t_ssd E) (vm_ssd s) p) = length u"
    with len show ?thesis by (simp add: write_in_place_def Let_def word_type_def)
  qed
qed

text \<open>A swap into an entry that is still the one picked.\<close>

lemma swap_in_ok:
  assumes r: "rep s M [up_raw new \<mapsto> v]" and new: "up_bool new" and k: "M k = Some u"
    and old: "ixs s k = up_raw old"
  shows "\<exists>s'. swap_in E k old new s = Inr (s', True) \<and> rep s' (M(k \<mapsto> v)) Map.empty \<and> moves {} s s' \<and>
    ixs s' k = up_raw new \<and> (\<forall>j. key_ok j \<and> j \<noteq> k \<longrightarrow> ixs s' j = ixs s j) \<and> vm_low s' = vm_low s \<and>
    vm_used s' = (if word_type (up_raw old) = Memory then vm_used s - (of_nat (length u) + 2) else vm_used s)"
proof -
  from r k have ok: "key_ok k" "room (vm_index s) k" by (auto elim!: repE dest: namesD(3))
  from publish_ok [OF r new ok] k obtain s1 where s1: "publish E k new s = Inr (s1, ixs s k)" "moves {} s s1"
    "rep s1 (M(k \<mapsto> v)) [ixs s k \<mapsto> u]" "ixs s1 k = up_raw new" "\<forall>j. key_ok j \<and> j \<noteq> k \<longrightarrow> ixs s1 j = ixs s j"
    "vm_used s1 = vm_used s" "vm_low s1 = vm_low s" by auto
  from FreePointer_ok [OF s1(3)] obtain s2 where s2: "FreePointer E (up_from_raw (ixs s k)) s1 = Inr s2"
    "rep s2 (M(k \<mapsto> v)) Map.empty" "same_index {} s1 s2" "vm_low s2 = vm_low s1"
    "vm_used s2 = (if word_type (ixs s k) = Memory then vm_used s1 - (of_nat (length u) + 2) else vm_used s1)" by auto
  note m2 = moves_same [OF s2(3)]
  have "up_from_raw (ixs s k) = old" using old by (simp add: up_from_raw_def up_default_def)
  with s1 s2 old show ?thesis using moves_trans [OF s1(2) m2] by (simp add: swap_in_def same_index_def)
qed

lemma entry_storable: "rep s M W \<Longrightarrow> M k = Some v \<Longrightarrow> storable req v"
proof (elim repE)
  fix C1 C2
  assume k: "M k = Some v" and N: "names req key_ok (ixs s) (blocks (vm_base s) C1 C2) M W"
  from namesD(2) [OF N k] show "storable req v"
    unfolding value_at_def storable_def by (cases "short v") (auto simp: short_def lossless_def)
qed

lemma evict_one_moves:
  assumes r: "rep s M Map.empty" and v: "M k = Some v" and t: "word_type (ixs s k) = Memory"
  shows "\<exists>s'. evict_one E io k s = Inr s' \<and> rep s' M Map.empty \<and> moves {k} s s' \<and> moved_out E io k v s s' \<and>
    (\<forall>j. key_ok j \<and> j \<noteq> k \<longrightarrow> ixs s' j = ixs s j) \<and> vm_low s' = vm_low s \<and> vm_hot s' = vm_hot s"
proof -
  let ?p = "up_from_raw (ixs s k)"
  from read_entry(1) [OF r v t] have rd: "ReadFromMemRaw E ?p s = Inr v" "\<not> short v" by auto
  from entry_storable [OF r v] rd(2) have at: "length v \<le> 65535" "req (2 + int (length v))"
    by (simp_all add: storable_def)
  from WriteDisk_ok [OF r rd(2) at, of io] obtain s1 p where s1: "WriteDisk E io v s = Inr (s1, p)" "same_index {} s s1"
    "if up_bool p then rep s1 M [up_raw p \<mapsto> v]
     else rep s1 M Map.empty \<and> ((\<exists>m. vt_New (t_ssd E) (2 + int (length v)) (vm_ssd s) = Inr (m, None)) \<or>
        \<not> (io_len io \<and> io_data io \<and> io_sync io))"
    "up_bool p \<longleftrightarrow> io_len io \<and> (v = [] \<or> io_data io) \<and> io_sync io \<and>
       (\<exists>m q. vt_New (t_ssd E) (2 + int (length v)) (vm_ssd s) = Inr (m, Some q))"
    "up_bool p \<longrightarrow> up_type p = Disk" "vm_used s1 = vm_used s" "vm_low s1 = vm_low s" "vm_hot s1 = vm_hot s" by blast
  have pk: "pick E Memory k s = Some ?p" using t by (simp add: pick_def word_type_def Let_def)
  have ix1: "vm_index s1 = vm_index s" using s1(2) by (simp add: same_index_def)
  show ?thesis
  proof (cases "up_bool p")
    case True
    with s1(3) have "rep s1 M [up_raw p \<mapsto> v]" by simp
    from swap_in_ok [OF this True v, of ?p] ix1 obtain s2 where s2: "swap_in E k ?p p s1 = Inr (s2, True)"
      "rep s2 M Map.empty" "moves {} s1 s2" "ixs s2 k = up_raw p" "\<forall>j. key_ok j \<and> j \<noteq> k \<longrightarrow> ixs s2 j = ixs s1 j"
      "vm_low s2 = vm_low s1" "vm_used s2 = vm_used s1 - (of_nat (length v) + 2)"
      using v t by (auto simp: up_from_raw_def fun_upd_idem)
    have "word_type (up_raw p) = Disk"
      using s1(5) True by (cases p) (simp add: word_type_def up_from_raw_def up_default_def)
    then have "moved_out E io k v s s2" using s1(4,6) s2(4,7) True unfolding moved_out_def by simp
    moreover from s1(2) s2(3) have "moves {k} s s2" by (auto dest: moves_same intro: moves_trans)
    ultimately show ?thesis using pk rd(1) s1(1,7,8) s2 True ix1 swap_in_hot [OF s2(1)] by (simp add: evict_one_def evict_copy_def)
  next
    case False
    have "moves {k} s1 (TouchLRU k s1)" by (simp add: moves_def TouchLRU_def keeps_touch)
    from moves_trans [OF moves_same [OF s1(2)] this] have "moves {k} s (TouchLRU k s1)" by simp
    moreover have "moved_out E io k v s (TouchLRU k s1)"
    proof -
      have no: "\<not> (io_len io \<and> (v = [] \<or> io_data io) \<and> io_sync io \<and>
        (\<exists>m q. vt_New (t_ssd E) (2 + int (length v)) (vm_ssd s) = Inr (m, Some q)))" using s1(4) False by blast
      show ?thesis unfolding moved_out_def if_not_P [OF no] using s1(6) ix1 by (simp add: TouchLRU_def)
    qed
    ultimately show ?thesis using pk rd(1) s1(1,3,7,8) False ix1
      by (simp add: evict_one_def evict_copy_def rep_frame) (simp add: TouchLRU_def)
  qed
qed

lemma entry_some: "rep s M Map.empty \<Longrightarrow> key_ok k \<Longrightarrow> word_type (ixs s k) \<noteq> Invalid \<Longrightarrow> \<exists>v. M k = Some v"
  using entry_zero [of s M Map.empty k] word_type_NONE by (cases "M k") (auto simp: NONE_def)

lemma evict_one_ok:
  assumes r: "rep s M Map.empty" and k: "key_ok k"
  shows "\<exists>s'. evict_one E io k s = Inr s' \<and> rep s' M Map.empty \<and> moves {k} s s' \<and>
    (\<forall>j. key_ok j \<and> (j \<noteq> k \<or> word_type (ixs s k) \<noteq> Memory) \<longrightarrow> ixs s' j = ixs s j) \<and> vm_hot s' = vm_hot s"
proof (cases "word_type (ixs s k) = Memory")
  case False
  with r show ?thesis by (simp add: evict_one_def pick_def word_type_def Let_def)
next
  case True
  with entry_some [OF r k] obtain v where "M k = Some v" by auto
  from evict_one_moves [OF r this True, of io] True show ?thesis by blast
qed

lemma evict_victims_ok:
  "rep s M Map.empty \<Longrightarrow> \<forall>k \<in> set keys. key_ok k \<Longrightarrow>
    \<exists>s'. evict_victims E io keys s = Inr s' \<and> rep s' M Map.empty \<and> moves (set keys) s s' \<and>
      (\<forall>j. key_ok j \<and> word_type (ixs s j) \<noteq> Memory \<longrightarrow> ixs s' j = ixs s j) \<and> vm_hot s' = vm_hot s"
proof (induction keys arbitrary: s)
  case (Cons k keys)
  show ?case
  proof (cases "vm_used s \<le> vm_low s")
    case True
    with Cons.prems show ?thesis by simp
  next
    case False
    from evict_one_ok [OF Cons.prems(1), of k io] Cons.prems(2) obtain s1 where s1:
      "evict_one E io k s = Inr s1" "rep s1 M Map.empty" "moves {k} s s1"
      "\<forall>j. key_ok j \<and> (j \<noteq> k \<or> word_type (ixs s k) \<noteq> Memory) \<longrightarrow> ixs s1 j = ixs s j" "vm_hot s1 = vm_hot s" by auto
    from Cons.IH [OF s1(2)] Cons.prems(2) obtain s2 where s2:
      "evict_victims E io keys s1 = Inr s2" "rep s2 M Map.empty" "moves (set keys) s1 s2"
      "\<forall>j. key_ok j \<and> word_type (ixs s1 j) \<noteq> Memory \<longrightarrow> ixs s2 j = ixs s1 j" "vm_hot s2 = vm_hot s1" by auto
    have "ixs s2 j = ixs s j" if "key_ok j" "word_type (ixs s j) \<noteq> Memory" for j
    proof -
      have "ixs s1 j = ixs s j" using s1(4) that by (cases "j = k") auto
      with s2(4) that show ?thesis by simp
    qed
    moreover from s1(3) s2(3) have "moves (set (k # keys)) s s2" by (rule moves_trans) simp
    ultimately show ?thesis using False s1(1,5) s2(1,2,5) by (intro exI [of _ s2]) auto
  qed
qed simp

lemma evict_phase_ok:
  assumes r: "rep s M Map.empty" and t: "tracked s \<subseteq> {k. key_ok k}"
  shows "\<exists>s'. evict_phase E io s = Inr s' \<and> rep s' M Map.empty \<and> moves (tracked s) s s' \<and>
    (\<forall>k. first_victim E io M s k \<longrightarrow> word_type (ixs s' k) = Disk) \<and> vm_hot s' = vm_hot s"
proof (cases "vm_used s > vm_low s")
  case True
  obtain ks l where e: "lru_evictBatch 512 (vm_lru s) = (ks, l)" by force
  let ?s = "s\<lparr>vm_lru := l\<rparr>"
  from e evict_keys [of 512 "[]" "vm_lru s"] have ks: "set ks \<subseteq> tracked s" "set (lru_order l) \<subseteq> tracked s"
    by (auto simp: lru_evictBatch_def tracked_def)
  from r have r1: "rep ?s M Map.empty" by (simp add: rep_frame)
  from evict_victims_ok [OF this, of ks io] ks(1) t obtain s' where s':
    "evict_victims E io ks ?s = Inr s'" "rep s' M Map.empty" "moves (set ks) ?s s'" "vm_hot s' = vm_hot ?s" by auto
  have "moves (tracked s) s ?s" using ks(2) by (auto simp: moves_def keeps_def tracked_def)
  from moves_trans [OF this s'(3)] ks(1) have "moves (tracked s) s s'" by simp
  moreover have "word_type (ixs s' k) = Disk" if f: "first_victim E io M s k" for k
  proof -
    from f have ne: "lru_order (vm_lru s) \<noteq> []" and k: "last (lru_order (vm_lru s)) = k" by (auto simp: first_victim_def)
    have "lru_evictBatch (Suc 511) (vm_lru s) = (ks, l)" using e by simp
    from evictBatch_first [OF ne this] obtain rest where rest: "ks = k # rest" unfolding k by blast
    from f obtain v where v: "M k = Some v" "word_type (ixs ?s k) = Memory" by (auto simp: first_victim_def)
    from evict_one_moves [OF r1 v, of io] obtain s1 where s1: "evict_one E io k ?s = Inr s1" "rep s1 M Map.empty"
      "moved_out E io k v ?s s1" by blast
    have d: "word_type (ixs s1 k) = Disk" using s1(3) f v(1) by (auto simp: moved_out_def first_victim_def)
    have kk: "\<forall>j \<in> set rest. key_ok j" "key_ok k" using ks(1) t rest by auto
    from evict_victims_ok [OF s1(2) kk(1), of io] obtain s2 where s2: "evict_victims E io rest s1 = Inr s2"
      "\<forall>j. key_ok j \<and> word_type (ixs s1 j) \<noteq> Memory \<longrightarrow> ixs s2 j = ixs s1 j" by blast
    have "\<not> vm_used s \<le> vm_low s" using True by simp
    then have "s' = s2" using s'(1) s1(1) s2(1) rest by simp
    with s2(2) d kk(2) show ?thesis by auto
  qed
  ultimately show ?thesis using True e s' by (simp add: evict_phase_def)
next
  case False
  with r show ?thesis by (simp add: evict_phase_def first_victim_def)
qed

lemma promote_one_moves:
  assumes r: "rep s M Map.empty" and v: "M k = Some v" and t: "word_type (ixs s k) = Disk"
  shows "\<exists>s' b. promote_one E k s = Inr (s', b) \<and> rep s' M Map.empty \<and> moves {k} s s' \<and> moved_up E k v s s' \<and>
    (\<forall>j. key_ok j \<and> j \<noteq> k \<longrightarrow> ixs s' j = ixs s j) \<and> vm_low s' = vm_low s \<and>
    (b \<longleftrightarrow> word_type (ixs s' k) = Memory \<and> vm_low s' \<le> vm_used s')"
proof -
  let ?p = "up_from_raw (ixs s k)"
  from read_entry(2) [OF r v t] have rd: "ReadFromDiskNoHeat E ?p s = Inr v" "\<not> short v" by auto
  from WriteMem_ok [OF r entry_storable [OF r v], of k] rd(2) obtain s1 p where s1: "WriteMem E k v s = Inr (s1, p)" "same_index {k} s s1"
    "if up_bool p then rep s1 M [up_raw p \<mapsto> v] else rep s1 M Map.empty" "up_bool p \<longrightarrow> up_type p = Memory"
    "\<not> up_bool p \<longrightarrow> (\<exists>m. vt_New (t_shm E) (2 + int (length v)) (vm_shm s) = Inr (m, None) \<and> s1 = s\<lparr>vm_shm := m\<rparr>)"
    "up_bool p \<longrightarrow> (\<exists>m q. vt_New (t_shm E) (2 + int (length v)) (vm_shm s) = Inr (m, Some q)) \<and>
       vm_used s1 = vm_used s + (2 + of_nat (length v))" "vm_low s1 = vm_low s" "vm_hot s1 = vm_hot s" by (auto split: if_splits)
  have pk: "pick E Disk k s = Some ?p" using t by (simp add: pick_def word_type_def Let_def)
  have ix1: "vm_index s1 = vm_index s" using s1(2) by (simp add: same_index_def)
  show ?thesis
  proof (cases "up_bool p")
    case True
    with s1(3) have "rep s1 M [up_raw p \<mapsto> v]" by simp
    from swap_in_ok [OF this True v, of ?p] ix1 obtain s2 where s2: "swap_in E k ?p p s1 = Inr (s2, True)"
      "rep s2 M Map.empty" "moves {} s1 s2" "ixs s2 k = up_raw p" "\<forall>j. key_ok j \<and> j \<noteq> k \<longrightarrow> ixs s2 j = ixs s1 j"
      "vm_low s2 = vm_low s1" "vm_used s2 = vm_used s1"
      using v t by (auto simp: up_from_raw_def fun_upd_idem)
    let ?s = "s2\<lparr>vm_hot := (vm_hot s2)(k := None)\<rparr>"
    have ty: "word_type (up_raw p) = Memory"
      using s1(4) True by (cases p) (simp add: word_type_def up_from_raw_def up_default_def)
    have "vm_hot s2 = vm_hot s" using swap_in_hot [OF s2(1)] s1(8) by simp
    then have up: "moved_up E k v s ?s" using s1(6) s2(4,7) True ty by (auto simp: moved_up_def)
    from s1(2) s2(3) have "moves {k} s s2" by (auto dest: moves_same intro: moves_trans)
    then have mv: "moves {k} s ?s" by (auto simp: moves_def keeps_def tracked_def)
    have P: "promote_one E k s = Inr (?s, vm_low ?s \<le> vm_used ?s)"
      using pk rd(1) s1(1) s2(1) True by (simp add: promote_one_def promote_copy_def)
    show ?thesis
    proof (intro exI conjI)
      show "promote_one E k s = Inr (?s, vm_low ?s \<le> vm_used ?s)" by (rule P)
      show "rep ?s M Map.empty" using s2(2) by (simp add: rep_frame)
    qed (use mv up s1(7) s2(4-6) ix1 ty in simp_all)
  next
    case False
    with s1(5) obtain m where m: "vt_New (t_shm E) (2 + int (length v)) (vm_shm s) = Inr (m, None)" "s1 = s\<lparr>vm_shm := m\<rparr>" by blast
    then have "moved_up E k v s s1" by (simp add: moved_up_def)
    moreover have "promote_one E k s = Inr (s1, False)"
      using pk rd(1) s1(1) False by (simp add: promote_one_def promote_copy_def)
    ultimately show ?thesis using s1(3,7) moves_same [OF s1(2)] False ix1 t
      by (intro exI [of _ s1] exI [of _ False]) simp
  qed
qed

lemma promote_one_ok:
  assumes r: "rep s M Map.empty" and k: "key_ok k"
  shows "\<exists>s' b. promote_one E k s = Inr (s', b) \<and> rep s' M Map.empty \<and> moves {k} s s'"
proof (cases "word_type (ixs s k) = Disk")
  case False
  have "moves {k} s (s\<lparr>vm_hot := (vm_hot s)(k := None)\<rparr>)" by (auto simp: moves_def keeps_def tracked_def)
  with False r show ?thesis by (auto simp: promote_one_def pick_def word_type_def Let_def rep_frame)
next
  case True
  with entry_some [OF r k] obtain v where "M k = Some v" by auto
  from promote_one_moves [OF r this True] show ?thesis by blast
qed

lemma moves_keys: "moves K s s' \<Longrightarrow> K \<subseteq> {k. key_ok k} \<Longrightarrow> tracked s \<subseteq> {k. key_ok k} \<Longrightarrow> tracked s' \<subseteq> {k. key_ok k}"
  unfolding moves_def keeps_def by blast

lemma moves_mono: "moves K s s' \<Longrightarrow> K \<subseteq> L \<Longrightarrow> moves L s s'"
  unfolding moves_def keeps_def by blast

lemma promote_scan_ok:
  "rep s M Map.empty \<Longrightarrow> tracked s \<subseteq> {k. key_ok k} \<Longrightarrow>
    promote_scan E n keys s = Inl Bad_access \<or>
    (\<exists>s'. promote_scan E n keys s = Inr s' \<and> rep s' M Map.empty \<and> moves {k. key_ok k} s s')"
proof (induction keys arbitrary: n s)
  case Nil
  then show ?case by (cases n) simp_all
next
  case (Cons k keys)
  show ?case
  proof (cases n)
    case 0
    with Cons.prems show ?thesis by simp
  next
    case (Suc m)
    show ?thesis
    proof (cases "vm_hot s k")
      case None
      with Suc Cons show ?thesis by simp
    next
      case (Some c)
      with Cons.prems(2) have k: "key_ok k" by (auto simp: tracked_def)
      show ?thesis
      proof (cases "c < kPromoteThreshold")
        case True
        with Suc Some Cons show ?thesis by simp
      next
        case False
        from promote_one_ok [OF Cons.prems(1) k] obtain s1 b where s1:
          "promote_one E k s = Inr (s1, b)" "rep s1 M Map.empty" "moves {k} s s1" by blast
        have m1: "moves {k. key_ok k} s s1" by (rule moves_mono [OF s1(3)]) (use k in simp)
        show ?thesis
        proof (cases b)
          case True
          with Suc Some False s1 m1 show ?thesis by simp
        next
          case nb: False
          have run: "promote_scan E n (k # keys) s = (if vm_hot s1 k = None then Inl Bad_access else promote_scan E m keys s1)"
            using s1(1) Suc Some False nb by simp
          from Cons.IH [OF s1(2) moves_keys [OF m1 order_refl Cons.prems(2)], of m] show ?thesis
          proof (elim disjE exE conjE)
            fix s2 assume "promote_scan E m keys s1 = Inr s2" "rep s2 M Map.empty" "moves {k. key_ok k} s1 s2"
            moreover from m1 this(3) have "moves {k. key_ok k} s s2" by (rule moves_trans) simp
            ultimately show ?thesis using run by simp
          qed (use run in simp_all)
        qed
      qed
    qed
  qed
qed

lemma decay_ok: "rep (decay n keys s) M W = rep s M W" "moves K s (decay n keys s)"
proof -
  have d: "dom (fold (\<lambda>k h. case h k of Some c \<Rightarrow> if c > 0 then h(k \<mapsto> c - 1) else h | None \<Rightarrow> h) ks h) = dom h"
    for ks and h :: "u64 \<Rightarrow> u8 option"
  proof (induction ks arbitrary: h)
    case (Cons k ks)
    have "dom (case h k of Some c \<Rightarrow> if c > 0 then h(k \<mapsto> c - 1) else h | None \<Rightarrow> h) = dom h"
      by (auto split: option.split)
    with Cons show ?case by simp
  qed simp
  show "rep (decay n keys s) M W = rep s M W" by (simp add: decay_def rep_frame)
  show "moves K s (decay n keys s)" by (simp add: moves_def keeps_def tracked_def decay_def d)
qed

lemma evict_round_ok:
  assumes r: "rep s M Map.empty" and t: "tracked s \<subseteq> {k. key_ok k}"
  shows "evict_round E io hot s = Inl Bad_access \<and> (\<exists>k \<in> set hot. is_hot s k) \<or>
    (\<exists>s'. evict_round E io hot s = Inr s' \<and> rep s' M Map.empty \<and> moves {k. key_ok k} s s' \<and>
      (\<not> vm_stop s \<and> (\<forall>k \<in> set hot. \<not> is_hot s k) \<longrightarrow> (\<forall>k. first_victim E io M s k \<longrightarrow> word_type (ixs s' k) = Disk)))"
proof (cases "vm_stop s")
  case True
  with r show ?thesis by (simp add: evict_round_def)
next
  case False
  from evict_phase_ok [OF r t, of io] obtain s1 where s1: "evict_phase E io s = Inr s1" "rep s1 M Map.empty"
    "moves (tracked s) s s1" "\<forall>k. first_victim E io M s k \<longrightarrow> word_type (ixs s1 k) = Disk" "vm_hot s1 = vm_hot s" by blast
  have m1: "moves {k. key_ok k} s s1" by (rule moves_mono [OF s1(3) t])
  have hot: "is_hot s1 = is_hot s" using s1(5) by (simp add: is_hot_def fun_eq_iff)
  have finish: ?thesis if s2: "promote_phase E hot s1 = Inr s2" "rep s2 M Map.empty" "moves {k. key_ok k} s1 s2"
    "(\<forall>k \<in> set hot. \<not> is_hot s k) \<Longrightarrow> vm_index s2 = vm_index s1" for s2
  proof -
    have "moves {} s2 (s2\<lparr>vm_need_evict := False\<rparr>)" by (simp add: moves_def)
    then have "moves {k. key_ok k} s (s2\<lparr>vm_need_evict := False\<rparr>)"
      by (rule moves_trans [OF moves_trans [OF m1 s2(3) order_refl]]) simp
    with False s1 s2 show ?thesis by (simp add: evict_round_def rep_frame)
  qed
  show ?thesis
  proof (cases "promote_headroom s1 > 0")
    case True
    have cold: "promote_scan E 512 hot s1 = Inr s1" if "\<forall>k \<in> set hot. \<not> is_hot s k"
      using promote_scan_cold [of hot s1 E 512] that by (simp add: hot)
    from promote_scan_ok [OF s1(2) moves_keys [OF m1 order_refl t], of 512 hot] show ?thesis
    proof (elim disjE exE conjE)
      assume bad: "promote_scan E 512 hot s1 = Inl Bad_access"
      with cold have "\<exists>k \<in> set hot. is_hot s k" by auto
      moreover have "evict_round E io hot s = Inl Bad_access"
        using False s1(1) True bad by (simp add: evict_round_def promote_phase_def)
      ultimately show ?thesis by blast
    next
      fix s2 assume scan: "promote_scan E 512 hot s1 = Inr s2" "rep s2 M Map.empty" "moves {k. key_ok k} s1 s2"
      show ?thesis
      proof (rule finish [of "decay 256 hot s2"])
        show "promote_phase E hot s1 = Inr (decay 256 hot s2)" using True scan(1) by (simp add: promote_phase_def)
        show "rep (decay 256 hot s2) M Map.empty" using scan(2) by (simp add: decay_ok(1))
        show "moves {k. key_ok k} s1 (decay 256 hot s2)"
          by (rule moves_trans [OF scan(3) decay_ok(2) [of "{}"]]) simp
        show "vm_index (decay 256 hot s2) = vm_index s1" if "\<forall>k \<in> set hot. \<not> is_hot s k"
          using cold [OF that] scan(1) by (simp add: decay_def)
      qed
    qed
  next
    case False
    with s1(2) show ?thesis by (intro finish [of s1]) (simp_all add: promote_phase_def)
  qed
qed

lemma evictor_run_ok:
  "rep s M Map.empty \<Longrightarrow> tracked s \<subseteq> {k. key_ok k} \<Longrightarrow> step_keys xs \<subseteq> {k. key_ok k} \<Longrightarrow>
    evictor_run E xs s = Inl Bad_access \<or>
    (\<exists>s'. evictor_run E xs s = Inr s' \<and> rep s' M Map.empty \<and> moves {k. key_ok k} s s')"
proof (induction xs arbitrary: s)
  case (Cons x xs)
  have "evictor_does E x s = Inl Bad_access \<or>
    (\<exists>s1. evictor_does E x s = Inr s1 \<and> rep s1 M Map.empty \<and> moves {k. key_ok k} s s1)"
  proof (cases x)
    case (Round io hot)
    with evict_round_ok [OF Cons.prems(1,2), of io hot] show ?thesis by (auto simp: evictor_does_def)
  next
    case (Evict io k)
    with Cons.prems(3) have k: "key_ok k" by (auto simp: step_keys_def)
    from evict_one_ok [OF Cons.prems(1) this, of io] k show ?thesis
      by (auto simp: Evict evictor_does_def intro: moves_mono)
  next
    case (Promote k)
    with Cons.prems(3) have k: "key_ok k" by (auto simp: step_keys_def)
    from promote_one_ok [OF Cons.prems(1) this] k show ?thesis
      by (auto simp: Promote evictor_does_def intro: moves_mono)
  qed
  then show ?case
  proof (elim disjE exE conjE)
    fix s1 assume s1: "evictor_does E x s = Inr s1" "rep s1 M Map.empty" "moves {k. key_ok k} s s1"
    have "step_keys xs \<subseteq> {k. key_ok k}" using Cons.prems(3) by (auto simp: step_keys_def)
    from Cons.IH [OF s1(2) moves_keys [OF s1(3) order_refl Cons.prems(2)] this] show ?case
    proof (elim disjE exE conjE)
      fix s2 assume "evictor_run E xs s1 = Inr s2" "rep s2 M Map.empty" "moves {k. key_ok k} s1 s2"
      with s1(1) moves_trans [OF s1(3) this(3), of "{k. key_ok k}"] show ?case by simp
    qed (use s1(1) in simp_all)
  qed simp_all
qed simp

text \<open>A promotion that leaves memory below the mark is followed by the increment of a dead iterator.\<close>

lemma walks_on:
  assumes r: "rep s M Map.empty" and v: "M k = Some v" "word_type (ixs s k) = Disk" and h: "is_hot s k"
    and n: "vt_New (t_shm E) (2 + int (length v)) (vm_shm s) = Inr (m, Some q)"
    and u: "vm_used s + (2 + of_nat (length v)) < vm_low s" and f: "\<not> vm_stop s" "vm_used s \<le> vm_low s" "promote_headroom s > 0"
  shows "evict_round E io (k # hot) s = Inl Bad_access"
proof -
  from promote_one_moves [OF r v] obtain s' b where s': "promote_one E k s = Inr (s', b)" "moved_up E k v s s'"
    "vm_low s' = vm_low s" "b \<longleftrightarrow> word_type (ixs s' k) = Memory \<and> vm_low s' \<le> vm_used s'" by blast
  have "vm_used s' = vm_used s + (2 + of_nat (length v))" "vm_hot s' k = None" using s'(2) n by (auto simp: moved_up_def)
  with s'(3,4) u have "\<not> b" "vm_hot s' k = None" by auto
  then have "promote_scan E (Suc n) (k # hot) s = Inl Bad_access" for n using s'(1) h by (auto simp: is_hot_def)
  from this [of 511] have "promote_scan E 512 (k # hot) s = Inl Bad_access" by simp
  moreover have "\<not> vm_used s > vm_low s" using f(2) by simp
  then have "evict_phase E io s = Inr s" by (simp add: evict_phase_def)
  ultimately show ?thesis using f(1,3) by (simp add: evict_round_def promote_phase_def)
qed

text \<open>The end of a \<open>WriteValue\<close>, once a pointer has been written.\<close>

lemma finish_ok:
  assumes r: "rep s M [up_raw p \<mapsto> v]" and p: "up_bool p" and k: "key_ok k" "room (vm_index s) k"
  shows "\<exists>s'. bind_result (publish E k p s) (\<lambda>(s5, old_raw). release_raw E old_raw s5) = Inr s' \<and>
    rep s' (M(k \<mapsto> v)) Map.empty \<and> keeps {} s s'"
proof -
  from publish_ok [OF r p k] obtain s1 where s1: "publish E k p s = Inr (s1, ixs s k)" "keeps {} s s1"
    "rep s1 (M(k \<mapsto> v)) (case M k of None \<Rightarrow> Map.empty | Some u \<Rightarrow> [ixs s k \<mapsto> u])" by blast
  from release_raw_ok [OF s1(3)] entry_zero [OF r k(1)] obtain s2 where
    "release_raw E (ixs s k) s1 = Inr s2" "rep s2 (M(k \<mapsto> v)) Map.empty" "keeps {} s1 s2"
    by (auto simp: same_index_def)
  with s1 keeps_trans [OF s1(2)] show ?thesis by auto
qed

lemma WriteValue_short_ok:
  assumes r: "rep s M Map.empty" and k: "key_ok k" "room (vm_index s) k" and v: "storable req v" "short v"
  shows "\<exists>s'. WriteValue E io wait k v s = Inr s' \<and> rep s' (M(k \<mapsto> v)) Map.empty \<and> keeps {k} s s'"
proof -
  note ip = write_in_place_short [OF r k(1) v(2)]
  from WriteMem_ok [OF r v(1), of k] v(2) obtain s1 p where w: "WriteMem E k v s = Inr (s1, p)" "same_index {k} s s1"
    "up_bool p" "rep s1 M [up_raw p \<mapsto> v]" by auto
  have "room (vm_index s1) k" using w(2) k(2) by (simp add: same_index_def)
  from finish_ok [OF w(4,3) k(1) this] obtain s' where
    s': "bind_result (publish E k p s1) (\<lambda>(s5, old_raw). release_raw E old_raw s5) = Inr s'"
      "rep s' (M(k \<mapsto> v)) Map.empty" "keeps {} s1 s'" by blast
  from w(2) s'(3) have "keeps {k} s s'" by (auto simp: same_index_def intro: keeps_trans)
  with ip w s' show ?thesis by (simp add: WriteValue_def)
qed

text \<open>The end of a \<open>WriteValue\<close>, from the second attempt on memory to the disk.\<close>

lemma disk_answers:
  assumes "rep s M W" and "req n"
  shows "\<exists>m r. vt_New (t_ssd E) n (vm_ssd s) = Inr (m, r)"
proof -
  from assms(1) obtain C where "holds (t_ssd E) minv2 (vm_ssd s) C" by (rule repE)
  then have "minv2 (vm_ssd s) (\<lambda>p. map_option (\<lambda>bs. int (length bs)) (C p))" by (simp add: holds_def)
  from ssd.New [OF this assms(2)] show ?thesis by blast
qed

lemma late_write_ok:
  assumes r: "rep s M Map.empty" and k: "key_ok k" "room (vm_index s) k" and v: "storable req v"
  shows "\<exists>s'. bind_result (WriteMem E k v s) (\<lambda>(s3, p3).
      bind_result (if up_bool p3 then Inr (s3, p3) else WriteDisk E io v s3) (\<lambda>(s4, p_write).
      if \<not> up_bool p_write then Inr s4 else
      bind_result (publish E k p_write s4) (\<lambda>(s5, old_raw). release_raw E old_raw s5))) = Inr s' \<and>
    keeps {k} s s' \<and>
    (rep s' (M(k \<mapsto> v)) Map.empty \<or>
     rep s' M Map.empty \<and> \<not> short v \<and> (\<exists>m2. vt_New (t_shm E) (2 + int (length v)) (vm_shm s) = Inr (m2, None)) \<and>
       (\<not> (io_len io \<and> (v = [] \<or> io_data io) \<and> io_sync io) \<or>
        (\<exists>m3. vt_New (t_ssd E) (2 + int (length v)) (vm_ssd s) = Inr (m3, None))))"
proof -
  from WriteMem_ok [OF r v, of k] obtain s3 p3 where w3: "WriteMem E k v s = Inr (s3, p3)" "same_index {k} s s3"
    "short v \<longrightarrow> up_bool p3" "if up_bool p3 then rep s3 M [up_raw p3 \<mapsto> v] else rep s3 M Map.empty"
    "\<not> up_bool p3 \<longrightarrow> (\<exists>m. vt_New (t_shm E) (2 + int (length v)) (vm_shm s) = Inr (m, None) \<and> s3 = s\<lparr>vm_shm := m\<rparr>)" by blast
  have room3: "room (vm_index s3) k" using w3(2) k(2) by (simp add: same_index_def)
  show ?thesis
  proof (cases "up_bool p3")
    case True
    with w3(4) have "rep s3 M [up_raw p3 \<mapsto> v]" by simp
    from finish_ok [OF this True k(1) room3] w3(1,2) True show ?thesis by (auto simp: same_index_def intro: keeps_trans)
  next
    case no: False
    with w3 v have nv: "rep s3 M Map.empty" "\<not> short v" "length v \<le> 65535" "req (2 + int (length v))"
      by (auto simp: storable_def)
    from w3(5) no obtain m2 where m2: "vt_New (t_shm E) (2 + int (length v)) (vm_shm s) = Inr (m2, None)" "vm_ssd s3 = vm_ssd s" by auto
    from WriteDisk_ok [OF nv, of io] obtain s4 p4 where w4: "WriteDisk E io v s3 = Inr (s4, p4)" "same_index {} s3 s4"
      "up_bool p4 \<longleftrightarrow> io_len io \<and> (v = [] \<or> io_data io) \<and> io_sync io \<and>
         (\<exists>m q. vt_New (t_ssd E) (2 + int (length v)) (vm_ssd s3) = Inr (m, Some q))"
      "if up_bool p4 then rep s4 M [up_raw p4 \<mapsto> v]
       else rep s4 M Map.empty \<and> ((\<exists>m. vt_New (t_ssd E) (2 + int (length v)) (vm_ssd s3) = Inr (m, None)) \<or>
         \<not> (io_len io \<and> io_data io \<and> io_sync io))" by blast
    have room4: "room (vm_index s4) k" using w4(2) room3 by (simp add: same_index_def)
    have k4: "keeps {k} s s4" using w3(2) w4(2) by (auto simp: same_index_def intro: keeps_trans)
    show ?thesis
    proof (cases "up_bool p4")
      case True
      with w4(4) have "rep s4 M [up_raw p4 \<mapsto> v]" by simp
      from finish_ok [OF this True k(1) room4] w3(1) w4(1) no True keeps_trans [OF k4] show ?thesis by fastforce
    next
      case False
      have "(\<exists>m q. vt_New (t_ssd E) (2 + int (length v)) (vm_ssd s3) = Inr (m, Some q)) \<or>
        (\<exists>m. vt_New (t_ssd E) (2 + int (length v)) (vm_ssd s3) = Inr (m, None))"
        using disk_answers [OF nv(1) nv(4)] by (metis option.exhaust)
      with w4(3) False m2(2) have "\<not> (io_len io \<and> (v = [] \<or> io_data io) \<and> io_sync io) \<or>
        (\<exists>m3. vt_New (t_ssd E) (2 + int (length v)) (vm_ssd s) = Inr (m3, None))" by auto
      with w3(1) w4 no k4 nv(2) m2(1) False show ?thesis by auto
    qed
  qed
qed

lemma WriteValue_ok:
  assumes r: "rep s M Map.empty" and k: "key_ok k" "room (vm_index s) k" and v: "storable req v"
    and t: "tracked s \<subseteq> {k. key_ok k}" and xs: "step_keys xs \<subseteq> {k. key_ok k}"
  shows "WriteValue E io (evictor_run E xs) k v s = Inl Bad_access \<and> evictor_crashes E xs v s \<or>
    (\<exists>s'. WriteValue E io (evictor_run E xs) k v s = Inr s' \<and> tracked s' \<subseteq> {k. key_ok k} \<and>
      (rep s' (M(k \<mapsto> v)) Map.empty \<or> rep s' M Map.empty \<and> gives_up E io xs v s))"
proof -
  have kk: "{k} \<subseteq> {k. key_ok k}" using k(1) by simp
  from write_in_place_ok [OF r k(1), of v] show ?thesis
  proof (elim disjE exE conjE)
    fix s' assume "write_in_place E k v s = Inr (Some s')" "rep s' (M(k \<mapsto> v)) Map.empty" "same_index {k} s s'"
    with moves_keys [OF moves_same kk t] show ?thesis by (simp add: WriteValue_def)
  next
    assume ip: "write_in_place E k v s = Inr None"
    from WriteMem_ok [OF r v, of k] obtain s1 p1 where w1: "WriteMem E k v s = Inr (s1, p1)" "same_index {k} s s1"
      "if up_bool p1 then rep s1 M [up_raw p1 \<mapsto> v] else rep s1 M Map.empty" "short v \<longrightarrow> up_bool p1"
      "\<not> up_bool p1 \<longrightarrow> (\<exists>m. vt_New (t_shm E) (2 + int (length v)) (vm_shm s) = Inr (m, None) \<and> s1 = s\<lparr>vm_shm := m\<rparr>)" by blast
    note t1 = moves_keys [OF moves_same [OF w1(2)] kk t]
    have room1: "room (vm_index s1) k" using w1(2) k(2) by (simp add: same_index_def)
    show ?thesis
    proof (cases "up_bool p1")
      case True
      with w1(3) have "rep s1 M [up_raw p1 \<mapsto> v]" by simp
      from finish_ok [OF this True k(1) room1] ip w1(1) True t1 show ?thesis by (auto simp: WriteValue_def keeps_def)
    next
      case False
      then obtain m1 where m1: "vt_New (t_shm E) (2 + int (length v)) (vm_shm s) = Inr (m1, None)" "s1 = s\<lparr>vm_shm := m1\<rparr>"
        using w1(5) by blast
      have ns: "\<not> short v" using False w1(4) by blast
      let ?s1 = "s1\<lparr>vm_need_evict := True\<rparr>"
      have s1: "?s1 = s\<lparr>vm_shm := m1, vm_need_evict := True\<rparr>" using m1(2) by simp
      from False w1(3) have "rep ?s1 M Map.empty" by (simp add: rep_frame)
      moreover have ts1: "tracked ?s1 \<subseteq> {k. key_ok k}" using t1 by (simp add: tracked_def)
      ultimately show ?thesis
      proof (rule evictor_run_ok [OF _ _ xs, THEN disjE])
        assume bad: "evictor_run E xs ?s1 = Inl Bad_access"
        then have "WriteValue E io (evictor_run E xs) k v s = Inl Bad_access" using ip w1(1) False by (simp add: WriteValue_def)
        then show ?thesis using bad m1(1) ns unfolding s1 evictor_crashes_def by blast
      next
        assume "\<exists>s2. evictor_run E xs ?s1 = Inr s2 \<and> rep s2 M Map.empty \<and> moves {k. key_ok k} ?s1 s2"
        then obtain s2 where r2: "evictor_run E xs ?s1 = Inr s2" "rep s2 M Map.empty" "moves {k. key_ok k} ?s1 s2" by blast
        note t2 = moves_keys [OF r2(3) order_refl ts1]
        have room2: "room (vm_index s2) k" using r2(3) k(1) room1 by (simp add: moves_def)
        have stop2: "vm_stop s2 = vm_stop s" using r2(3) w1(2) by (simp add: moves_def keeps_def same_index_def)
        have up: "gives_up E io xs v s" if "vm_stop s \<or> (\<exists>m2. vt_New (t_shm E) (2 + int (length v)) (vm_shm s2) = Inr (m2, None)) \<and>
          (\<not> (io_len io \<and> (v = [] \<or> io_data io) \<and> io_sync io) \<or>
           (\<exists>m3. vt_New (t_ssd E) (2 + int (length v)) (vm_ssd s2) = Inr (m3, None)))"
          using that r2(1) m1(1) ns unfolding s1 gives_up_def by blast
        show ?thesis
        proof (cases "vm_stop s")
          case True
          with up have "gives_up E io xs v s" by blast
          with True ip w1(1) False r2 t2 stop2 show ?thesis by (simp add: WriteValue_def)
        next
          case run: False
          from late_write_ok [OF r2(2) k(1) room2 v, of io] obtain s' where L:
            "WriteValue E io (evictor_run E xs) k v s = Inr s'" "keeps {k} s2 s'"
            "rep s' (M(k \<mapsto> v)) Map.empty \<or> rep s' M Map.empty \<and> gives_up E io xs v s"
            using ip w1(1) False run stop2 r2(1) up by (auto simp: WriteValue_def)
          have "tracked s' \<subseteq> {k. key_ok k}" using L(2) t2 kk by (auto simp: keeps_def)
          with L show ?thesis by blast
        qed
      qed
    qed
  qed
qed

text \<open>What the evictor copied is in flight while the writer goes on.\<close>

lemma evict_copy_ok:
  assumes r: "rep s M Map.empty" and k: "M k = Some v" and p: "pick E Memory k s = Some p"
  shows "p = up_from_raw (ixs s k) \<and> \<not> short v \<and>
    (\<exists>s' q. evict_copy E io p s = Inr (s', q) \<and> same_index {} s s' \<and> (up_bool q \<longrightarrow> rep s' M [up_raw q \<mapsto> v]))"
proof -
  from p have t: "word_type (ixs s k) = Memory" "p = up_from_raw (ixs s k)"
    by (auto simp: pick_def word_type_def Let_def split: if_splits)
  from read_entry(1) [OF r k t(1)] have rd: "ReadFromMemRaw E p s = Inr v" "\<not> short v" using t(2) by auto
  from entry_storable [OF r k] rd(2) have at: "length v \<le> 65535" "req (2 + int (length v))"
    by (simp_all add: storable_def)
  from WriteDisk_ok [OF r rd(2) at, of io] obtain s1 q where "WriteDisk E io v s = Inr (s1, q)" "same_index {} s s1"
    "if up_bool q then rep s1 M [up_raw q \<mapsto> v] else rep s1 M Map.empty" by (auto split: if_splits)
  with t(2) rd show ?thesis by (auto simp: evict_copy_def)
qed

lemma lost_update:
  assumes r: "rep s M Map.empty" and k: "M k = Some v" and p: "pick E Memory k s = Some p"
    and copy: "evict_copy E io p s = Inr (s1, q)" "up_bool q" and u: "length u = length v"
  shows "\<exists>s2 s3 s4. WriteValue E io' wait k u s1 = Inr s2 \<and> swap_in E k p q s2 = Inr (s3, True) \<and>
    RetrieveValue E k s3 = Inr (s4, v) \<and> rep s3 M Map.empty"
proof -
  from r k have ok: "key_ok k" by (auto elim!: repE dest: namesD(3))
  from evict_copy_ok [OF r k p, of io] copy have e: "p = up_from_raw (ixs s k)" "\<not> short v" "same_index {} s s1"
    "rep s1 M [up_raw q \<mapsto> v]" by auto
  have ix1: "ixs s1 k = ixs s k" using e(3) by (simp add: same_index_def)
  from p have t: "word_type (ixs s1 k) = Memory"
    unfolding ix1 by (auto simp: pick_def word_type_def Let_def split: if_splits)
  from entry_zero [OF e(4) ok] k have nz: "ixs s1 k \<noteq> 0" by simp
  obtain s2 where s2: "write_in_place E k u s1 = Inr (Some s2)" "rep s2 (M(k \<mapsto> u)) [up_raw q \<mapsto> v]"
    "vm_index s2 = vm_index s1"
  proof (rule entry_cases [OF e(4) k])
    fix b a
    assume a: "up_as_memory_pointer (up_from_raw (ixs s1 k)) = Inr a" "mem_offset s1 a = b"
      "unat (read_len (t_shm E) (vm_shm s1) b) = length v"
      "\<And>u. length u = length v \<Longrightarrow> rep (s1\<lparr>vm_shm := vt_put (t_shm E) (b + 2) u (vm_shm s1)\<rparr>) (M(k \<mapsto> u)) [up_raw q \<mapsto> v]"
    show ?thesis
      by (rule that [of "TouchLRU k (s1\<lparr>vm_shm := vt_put (t_shm E) (b + 2) u (vm_shm s1)\<rparr>)"])
        (use a t nz u in \<open>simp_all add: write_in_place_def Let_def PeekLenMem_def word_type_def rep_frame\<close>,
         simp add: TouchLRU_def)
  qed (use t in simp_all)
  have ix2: "ixs s2 k = up_raw p" using s2(3) ix1 e(1) by (simp add: up_from_raw_def)
  from swap_in_ok [OF s2(2) copy(2) _ ix2] obtain s3 where s3: "swap_in E k p q s2 = Inr (s3, True)"
    "rep s3 (M(k \<mapsto> v)) Map.empty" by auto
  have M: "M(k \<mapsto> v) = M" using k by (simp add: fun_upd_idem)
  from RetrieveValue_ok [OF s3(2) ok] s2(1) s3 k show ?thesis by (auto simp: WriteValue_def M)
qed

text \<open>Seven bytes.\<close>

lemma WriteValue_same_word:
  assumes r: "rep s M Map.empty" and k: "key_ok k" and v: "short v" "length u = length v" "inline_word u = inline_word v"
  shows "WriteValue E io wait k u s = WriteValue E io wait k v s"
proof -
  have "short u" using v by (simp add: short_def)
  then have "write_in_place E k u s = write_in_place E k v s"
    using write_in_place_short [OF r k] v(1) by simp
  moreover have "WriteMem E k w s = bind_result (up_from_pmem (inline_word v)) (\<lambda>p. Inr (s, p))" if "w \<in> {u, v}" for w
    using that v \<open>short u\<close> by (auto simp: WriteMem_def short_def)
  moreover have "up_bool p" if "up_from_pmem (inline_word v) = Inr p" for p
    using up_set_roundtrip(1) [OF that [unfolded up_from_pmem_def]] by (simp add: up_bool_def)
  moreover have "write_in_place E k v s = Inr None" by (rule write_in_place_short [OF r k v(1)])
  ultimately show ?thesis
    by (cases "up_from_pmem (inline_word v)") (simp_all add: WriteValue_def)
qed

lemma seven_bytes:
  assumes r: "rep s M Map.empty" and k: "key_ok k" "room (vm_index s) k" and v: "length v = 7"
    and t: "tracked s \<subseteq> {k. key_ok k}"
  shows "\<exists>s' s''. WriteValue E io wait k v s = Inr s' \<and>
    RetrieveValue E k s' = Inr (s'', v[6 := v ! 6 AND 63])"
proof -
  let ?u = "v[6 := v ! 6 AND 63]"
  have s: "short v" "short ?u" "lossless ?u"
    using v word_and_mask_mod [of "v ! 6" 6] by (simp_all add: short_def lossless_def mask_eq_exp_minus_1)
  then have u: "storable req ?u" using v by (simp add: storable_def)
  note same = WriteValue_same_word [OF r k(1) s(2), of v io wait, OF _ inline_word_trunc [OF v]]
  obtain s1 where s1: "WriteValue E io wait k ?u s = Inr s1" "rep s1 (M(k \<mapsto> ?u)) Map.empty"
    using WriteValue_short_ok [OF r k u s(2)] by blast
  from RetrieveValue_ok [OF s1(2) k(1)] s1(1) same v show ?thesis by auto
qed

end


section \<open>The store over \<open>PersistLoopShmMalloc\<close> and the extendible hash table\<close>

definition loop_tiers :: "(u64 \<Rightarrow> u64) \<Rightarrow> (loop_malloc, loop_malloc, ehash) tiers" where
  "loop_tiers h = \<lparr>t_shm = loop_vt, t_ssd = loop_vt, t_index = eh_vt, t_hash = h\<rparr>"

interpretation hybrid: hybrid_tiers "loop_tiers h" "class_inv n" "class_inv n" "class_request n" eh_ok eh_fits
  "\<lambda>k. k \<noteq> INVALID"
proof -
  have "malloc_bytes (t_shm (loop_tiers h)) (class_inv n) (class_request n)"
    "malloc_bytes (t_ssd (loop_tiers h)) (class_inv n) (class_request n)"
    using one_class_bytes.malloc_bytes_axioms by (simp_all add: loop_tiers_def)
  moreover have "value_index (t_index (loop_tiers h)) eh_ok eh_fits (\<lambda>k. k \<noteq> INVALID)"
    using eh_index.value_index_axioms by (simp add: loop_tiers_def)
  ultimately show "hybrid_tiers (loop_tiers h) (class_inv n) (class_inv n) (class_request n) eh_ok eh_fits (\<lambda>k. k \<noteq> INVALID)"
    by (rule hybrid_tiers.intro)
qed

definition hybrid_holds ::
  "(u64 \<Rightarrow> u64) \<Rightarrow> nat \<Rightarrow> (loop_malloc, loop_malloc, ehash) value_manager \<Rightarrow> (u64 \<Rightarrow> u8 list option) \<Rightarrow> bool" where
  "hybrid_holds h n s M \<longleftrightarrow>
     hybrid_rep (loop_tiers h) (class_inv n) (class_inv n) (class_request n) eh_ok eh_fits (\<lambda>k. k \<noteq> INVALID) s M Map.empty \<and>
     tracked s \<subseteq> {k. k \<noteq> INVALID}"

text \<open>
  C6: \<open>KVEngineHybrid::Put\<close> returns. Then the store holds the new value for its key and the
  old values for all others, whichever tiers they are in, with no block shared or leaked,
  whatever the evictor moved while the writer waited; or everything is as before, and then memory
  had no room for the value both when the writer came and after the evictor's moves, and the disk
  had none either or a disk write failed, unless the store was being closed. The one way it does not return is
  that the evictor, working meanwhile, runs into its dead iterator.
\<close>

theorem hybrid_Put_correct:
  assumes "hybrid_holds h n s M" and "k \<noteq> INVALID" and "eh_fits (vm_index s) k" and "storable (class_request n) v"
    and "INVALID \<notin> step_keys xs"
  shows "WriteValue (loop_tiers h) io (evictor_run (loop_tiers h) xs) k v s = Inl Bad_access \<and> evictor_crashes (loop_tiers h) xs v s \<or>
    (\<exists>s'. WriteValue (loop_tiers h) io (evictor_run (loop_tiers h) xs) k v s = Inr s' \<and>
      (hybrid_holds h n s' (M(k \<mapsto> v)) \<or> hybrid_holds h n s' M \<and> gives_up (loop_tiers h) io xs v s))"
  using hybrid.WriteValue_ok [of h n s M k v xs io] assms unfolding hybrid_holds_def by blast

text \<open>
  \<open>Get\<close> of the hybrid engine answers what the store holds, from memory, from disk or from
  the pointer word, and the empty string for an absent key; the store holds the same after it.
\<close>

theorem hybrid_Get_correct:
  assumes "hybrid_holds h n s M" and "k \<noteq> INVALID"
  shows "\<exists>s'. RetrieveValue (loop_tiers h) k s = Inr (s', case M k of None \<Rightarrow> [] | Some v \<Rightarrow> v) \<and> hybrid_holds h n s' M"
  using hybrid.RetrieveValue_ok [of h n s M Map.empty k] assms
  unfolding hybrid_holds_def by (auto simp: same_index_def keeps_def)


text \<open>
  A write can be lost to the evictor. The evictor picks a key's memory pointer and copies
  its value to disk; a writer then overwrites the value in place, with one of the same length,
  and returns; the pointer in the index is still the one picked, so the evictor swaps in its
  copy. A read after all that answers the old value.
\<close>

theorem hybrid_lost_update:
  assumes "hybrid_holds h n s M" and "M k = Some v" and "pick (loop_tiers h) Memory k s = Some p"
    and "evict_copy (loop_tiers h) io p s = Inr (s1, q)" and "up_bool q" and "length u = length v"
  shows "\<exists>s2 s3 s4. WriteValue (loop_tiers h) io' wait k u s1 = Inr s2 \<and>
    swap_in (loop_tiers h) k p q s2 = Inr (s3, True) \<and> RetrieveValue (loop_tiers h) k s3 = Inr (s4, v)"
  using hybrid.lost_update [of h n s M k v p io s1 q u io' wait] assms by (auto simp: hybrid_holds_def)

text \<open>
  A value of seven bytes does not survive: it is kept inside the pointer word, in 54 bits,
  and the two high bits of its last byte are read back as zero.
\<close>

theorem hybrid_seven_bytes:
  assumes "hybrid_holds h n s M" and "k \<noteq> INVALID" and "eh_fits (vm_index s) k" and "length v = 7"
  shows "\<exists>s' s''. WriteValue (loop_tiers h) io wait k v s = Inr s' \<and>
    RetrieveValue (loop_tiers h) k s' = Inr (s'', v[6 := v ! 6 AND 63])"
  using hybrid.seven_bytes [of h n s M k v io wait] assms by (auto simp: hybrid_holds_def)

end
