(* ===== verification/HybridRuns.thy ===== *)
theory HybridRuns
  imports HybridStore EngineRuns
begin

unbundle bit_operations_syntax

text \<open>The hybrid store on concrete states: two arenas of 64 blocks and an empty table.\<close>

definition demo_hybrid :: "(loop_malloc, loop_malloc, ehash) value_manager" where
  "demo_hybrid =
     \<lparr>vm_shm = demo_arena, vm_ssd = demo_arena, vm_index = demo_table, vm_base = 4096, vm_lru = lru_new 4096,
      vm_hot = Map.empty, vm_used = 0, vm_capacity = 512, vm_low = 358, vm_stop = False, vm_need_evict = False\<rparr>"

definition demo_io :: disk_io where
  "demo_io = \<lparr>io_len = True, io_data = True, io_sync = True\<rparr>"

lemma holds_empty: "minv m Map.empty \<Longrightarrow> holds V minv m Map.empty"
  by (simp add: holds_def)

lemma demo_any_class: "class_inv n demo_arena Map.empty"
  using loop_reach_invariant [OF demo_arena_reach, of n]
  by (auto simp: class_inv_def loop_inv_def live_map_def sized_def demo_arena_fields intro!: exI [of _ "{}"])

lemma demo_holds: "hybrid_holds h n demo_hybrid Map.empty"
proof -
  have b: "blocks base Map.empty Map.empty = Map.empty" for base
    by (auto simp: blocks_def fun_eq_iff split: ptr_type.split)
  have "names r (\<lambda>k. k \<noteq> INVALID) (\<lambda>k. eh_Get k demo_table) Map.empty Map.empty Map.empty" for r
    using demo_table_ok(2) by (simp add: names_def eh_Get_lookup)
  moreover have "holds V (class_inv n) demo_arena Map.empty" for V
    by (rule holds_empty) (rule demo_any_class)
  ultimately show ?thesis
    using demo_table_ok(1)
    unfolding hybrid_holds_def hybrid_rep_def
    by (auto simp: demo_hybrid_def loop_tiers_def eh_vt_def tracked_def lru_new_def b intro!: exI [of _ Map.empty])
qed

lemma demo_fits: "eh_fits (vm_index demo_hybrid) 5"
proof -
  have "{k. k = (5 :: u64)} = {5}" by auto
  then show ?thesis
    unfolding eh_fits_def batch_spread_def
    by (auto simp: demo_hybrid_def demo_table_keys kNumSlot_def intro!: exI [of _ 0])
qed

lemma demo_storable: "storable (class_request 2) demo_value"
  by (simp add: storable_def demo_value_def lossless_def short_def class_request_def ok_size_def blocks_of_def BlockNum_def)

lemma demo_new10: "\<exists>m. loop_New 10 demo_arena = Inr (m, Some 8)"
proof -
  have ok10: "ok_size 10" "blocks_of 10 = 2"
    by (simp_all add: ok_size_def blocks_of_def BlockNum_def)
  have "answer (New_call 10) demo_arena = Some 8"
    using answer_at_last [OF conjunct1 [OF loop_reach_invariant [OF demo_arena_reach]] ok10(1)] demo_arena_fields ok10(2)
    by (simp add: data_bit_def del: after_call.simps answer.simps)
  from New_after_call [OF this] show ?thesis by blast
qed

theorem hybrid_Put_correct_witness:
  "\<exists>s'. WriteValue (loop_tiers id) demo_io (evictor_run (loop_tiers id) [Round demo_io []]) 5 demo_value demo_hybrid = Inr s' \<and>
    hybrid_holds id 2 s' [5 \<mapsto> demo_value]"
proof -
  have x: "INVALID \<notin> step_keys [Round demo_io []]" by (simp add: step_keys_def)
  have "\<nexists>m. loop_New 10 demo_arena = Inr (m, None)" using demo_new10 by auto
  then have "\<not> gives_up (loop_tiers id) demo_io [Round demo_io []] demo_value demo_hybrid"
    "\<not> evictor_crashes (loop_tiers id) [Round demo_io []] demo_value demo_hybrid"
    by (auto simp: gives_up_def evictor_crashes_def demo_value_def demo_hybrid_def loop_tiers_def loop_vt_def)
  with hybrid_Put_correct [OF demo_holds demo_keys_valid(1) demo_fits demo_storable x, of id demo_io] show ?thesis by blast
qed

theorem hybrid_seven_bytes_witness:
  "\<exists>s' s''. WriteValue (loop_tiers id) demo_io Inr 5 [1, 2, 3, 4, 5, 6, 71] demo_hybrid = Inr s' \<and>
    RetrieveValue (loop_tiers id) 5 s' = Inr (s'', [1, 2, 3, 4, 5, 6, 7])"
  using hybrid_seven_bytes [OF demo_holds demo_keys_valid(1) demo_fits, of "[1, 2, 3, 4, 5, 6, 71]" id demo_io Inr]
  by simp

text \<open>A store that holds the 8-byte value in memory.\<close>

lemma demo_in_memory:
  "\<exists>s p. hybrid_holds id 2 s [5 \<mapsto> demo_value] \<and> pick (loop_tiers id) Memory 5 s = Some p \<and> vm_ssd s = demo_arena"
proof -
  let ?rep = "hybrid_rep (loop_tiers id) (class_inv 2) (class_inv 2) (class_request 2) eh_ok eh_fits (\<lambda>k. k \<noteq> INVALID)"
  have len: "length demo_value = 8" "\<not> short demo_value" by (simp_all add: demo_value_def short_def)
  have r: "?rep demo_hybrid Map.empty Map.empty" and t: "tracked demo_hybrid \<subseteq> {k. k \<noteq> INVALID}"
    using demo_holds [of id 2] by (auto simp: hybrid_holds_def)
  from hybrid.WriteMem_ok [OF r demo_storable, of 5] obtain s1 p where s1:
    "same_index {5} demo_hybrid s1" "vm_ssd s1 = demo_arena" "up_bool p \<longrightarrow> up_type p = Memory"
    "\<not> up_bool p \<longrightarrow> (\<exists>m. loop_New 10 demo_arena = Inr (m, None))"
    "up_bool p \<Longrightarrow> ?rep s1 Map.empty [up_raw p \<mapsto> demo_value]"
    by (auto simp: len demo_hybrid_def loop_tiers_def loop_vt_def split: if_splits)
  from s1(4) demo_new10 have p: "up_bool p" by auto
  have f1: "eh_fits (vm_index s1) 5" using demo_fits s1(1) by (simp add: same_index_def)
  from hybrid.publish_ok [OF s1(5) [OF p] p demo_keys_valid(1) f1] obtain s2 where s2:
    "vm_ssd s2 = demo_arena" "eh_Get 5 (vm_index s2) = up_raw p" "keeps {} s1 s2" "?rep s2 [5 \<mapsto> demo_value] Map.empty"
    using s1(2) by (auto simp: loop_tiers_def eh_vt_def)
  have "tracked s2 \<subseteq> {k. k \<noteq> INVALID}"
    using t s1(1) s2(3) demo_keys_valid(1) by (auto simp: same_index_def keeps_def)
  moreover have "pick (loop_tiers id) Memory 5 s2 = Some (up_from_raw (up_raw p))"
    using s2(2) s1(3) p by (cases p) (simp add: pick_def Let_def loop_tiers_def eh_vt_def up_from_raw_def up_default_def)
  ultimately show ?thesis using s2 by (auto simp: hybrid_holds_def)
qed

theorem hybrid_Get_correct_witness:
  "\<exists>s s'. hybrid_holds id 2 s [5 \<mapsto> demo_value] \<and> RetrieveValue (loop_tiers id) 5 s = Inr (s', demo_value)"
proof -
  obtain s where s: "hybrid_holds id 2 s [5 \<mapsto> demo_value]" using demo_in_memory by blast
  from hybrid_Get_correct [OF s demo_keys_valid(1)] s show ?thesis by auto
qed

theorem hybrid_lost_update_witness:
  "\<exists>s p s1 q s2 s3 s4. evict_copy (loop_tiers id) demo_io p s = Inr (s1, q) \<and>
    WriteValue (loop_tiers id) demo_io Inr 5 [9, 9, 9, 9, 9, 9, 9, 9] s1 = Inr s2 \<and>
    swap_in (loop_tiers id) 5 p q s2 = Inr (s3, True) \<and> RetrieveValue (loop_tiers id) 5 s3 = Inr (s4, demo_value)"
proof -
  obtain s p where s: "hybrid_holds id 2 s [5 \<mapsto> demo_value]" "pick (loop_tiers id) Memory 5 s = Some p"
    "vm_ssd s = demo_arena" using demo_in_memory by blast
  let ?rep = "hybrid_rep (loop_tiers id) (class_inv 2) (class_inv 2) (class_request 2) eh_ok eh_fits (\<lambda>k. k \<noteq> INVALID)"
  have r: "?rep s [5 \<mapsto> demo_value] Map.empty" using s(1) by (simp add: hybrid_holds_def)
  from s(2) have t: "word_type (eh_Get 5 (vm_index s)) = Memory" "p = up_from_raw (eh_Get 5 (vm_index s))"
    by (auto simp: pick_def word_type_def Let_def loop_tiers_def eh_vt_def split: if_splits)
  have rd: "ReadFromMemRaw (loop_tiers id) p s = Inr demo_value"
    using hybrid.read_entry(1) [OF r, of 5 demo_value] t by (simp add: loop_tiers_def eh_vt_def)
  have len: "length demo_value = 8" "\<not> short demo_value" by (simp_all add: demo_value_def short_def)
  from hybrid.WriteDisk_ok [OF r len(2), of demo_io] demo_storable obtain s1 q where q:
    "WriteDisk (loop_tiers id) demo_io demo_value s = Inr (s1, q)"
    "\<not> up_bool q \<longrightarrow> (\<exists>m. loop_New 10 demo_arena = Inr (m, None))"
    using s(3) by (auto simp: storable_def len demo_io_def loop_tiers_def loop_vt_def split: if_splits)
  then have b: "up_bool q" using demo_new10 by auto
  have c: "evict_copy (loop_tiers id) demo_io p s = Inr (s1, q)" using q(1) rd by (simp add: evict_copy_def)
  have k: "[5 \<mapsto> demo_value] 5 = Some demo_value" by simp
  have l: "length [9, 9, 9, 9, 9, 9, 9, 9 :: u8] = length demo_value" by (simp add: len)
  from hybrid_lost_update [OF s(1) k s(2) c b l, of demo_io Inr] c show ?thesis by blast
qed

end
