(* ===== verification/HybridEvict.thy ===== *)
theory HybridEvict
  imports HybridRuns
begin

unbundle bit_operations_syntax

text \<open>
  What the evictor of \<open>ValueManager\<close> does to a single value, out of memory and back, and where its walk over the
  hot keys goes wrong; with the store of \<open>HybridRuns\<close> on its two tiers as the concrete case.
\<close>

abbreviation entry_word :: "(loop_malloc, loop_malloc, ehash) value_manager \<Rightarrow> u64 \<Rightarrow> u64" where
  "entry_word s k \<equiv> eh_Get k (vm_index s)"

lemma loop_tiers_index [simp]: "ix_Get (t_index (loop_tiers h)) = eh_Get"
  by (simp add: loop_tiers_def eh_vt_def)

lemma pick_word:
  "pick (loop_tiers h) t k s \<noteq> None \<longleftrightarrow> word_type (entry_word s k) = t"
  "(\<exists>p. pick (loop_tiers h) t k s = Some p) \<longleftrightarrow> word_type (entry_word s k) = t"
  by (simp_all add: pick_def word_type_def Let_def)

lemma hybrid_holdsD:
  assumes "hybrid_holds h n s M"
  shows "hybrid_rep (loop_tiers h) (class_inv n) (class_inv n) (class_request n) eh_ok eh_fits (\<lambda>k. k \<noteq> INVALID) s M Map.empty"
    "tracked s \<subseteq> {k. k \<noteq> INVALID}" "M k = Some v \<Longrightarrow> k \<noteq> INVALID"
  using assms by (auto simp: hybrid_holds_def elim!: hybrid.repE dest: namesD(3))

lemma hybrid_holds_moved:
  assumes "hybrid_holds h n s M" and "k \<noteq> INVALID" and "hybrid.moves {k} s s'"
    and "hybrid_rep (loop_tiers h) (class_inv n) (class_inv n) (class_request n) eh_ok eh_fits (\<lambda>k. k \<noteq> INVALID) s' M' Map.empty"
  shows "hybrid_holds h n s' M'"
  using hybrid.moves_keys [OF assms(3)] hybrid_holdsD(2) [OF assms(1)] assms(2,4) by (simp add: hybrid_holds_def)

section \<open>One move\<close>

text \<open>
  C15: Evicting one key whose value is in memory: when the disk has room and its writes succeed the value is
  on the disk afterwards, and the bytes in use go down by its block; otherwise its entry is as it
  was. No other entry changes, and the store holds the same values in either case.
\<close>

theorem evict_one_correct:
  assumes "hybrid_holds h n s M" and "M k = Some v" and "pick (loop_tiers h) Memory k s \<noteq> None"
  shows "\<exists>s'. evict_one (loop_tiers h) io k s = Inr s' \<and> hybrid_holds h n s' M \<and> moved_out (loop_tiers h) io k v s s' \<and>
    (\<forall>j. j \<noteq> INVALID \<and> j \<noteq> k \<longrightarrow> eh_Get j (vm_index s') = eh_Get j (vm_index s)) \<and> vm_hot s' = vm_hot s"
proof -
  note D = hybrid_holdsD [OF assms(1)]
  have "word_type (ix_Get (t_index (loop_tiers h)) k (vm_index s)) = Memory" using assms(3) by (simp add: pick_word)
  from hybrid.evict_one_moves [OF D(1) assms(2) this, of io] obtain s' where s':
    "evict_one (loop_tiers h) io k s = Inr s'"
    "hybrid_rep (loop_tiers h) (class_inv n) (class_inv n) (class_request n) eh_ok eh_fits (\<lambda>k. k \<noteq> INVALID) s' M Map.empty"
    "hybrid.moves {k} s s'" "moved_out (loop_tiers h) io k v s s'"
    "\<forall>j. j \<noteq> INVALID \<and> j \<noteq> k \<longrightarrow> eh_Get j (vm_index s') = eh_Get j (vm_index s)" "vm_hot s' = vm_hot s" by auto
  with hybrid_holds_moved [OF assms(1) D(3) [OF assms(2)] s'(3,2)] show ?thesis by blast
qed

text \<open>
  C16: Promoting one key whose value is on the disk: when memory has room for its block the value is in memory
  afterwards, the bytes in use go up by the block and the key is no longer counted as hot; otherwise
  its entry and its count are as they were. No other entry changes, and the store holds the
  same values in either case. The scan is told to stop exactly when the move reached the low mark.
\<close>

theorem promote_one_correct:
  assumes "hybrid_holds h n s M" and "M k = Some v" and "pick (loop_tiers h) Disk k s \<noteq> None"
  shows "\<exists>s' stop. promote_one (loop_tiers h) k s = Inr (s', stop) \<and> hybrid_holds h n s' M \<and> moved_up (loop_tiers h) k v s s' \<and>
    (\<forall>j. j \<noteq> INVALID \<and> j \<noteq> k \<longrightarrow> eh_Get j (vm_index s') = eh_Get j (vm_index s)) \<and>
    (stop \<longleftrightarrow> pick (loop_tiers h) Memory k s' \<noteq> None \<and> vm_low s' \<le> vm_used s')"
proof -
  note D = hybrid_holdsD [OF assms(1)]
  have "word_type (ix_Get (t_index (loop_tiers h)) k (vm_index s)) = Disk" using assms(3) by (simp add: pick_word)
  from hybrid.promote_one_moves [OF D(1) assms(2) this] obtain s' b where s':
    "promote_one (loop_tiers h) k s = Inr (s', b)"
    "hybrid_rep (loop_tiers h) (class_inv n) (class_inv n) (class_request n) eh_ok eh_fits (\<lambda>k. k \<noteq> INVALID) s' M Map.empty"
    "hybrid.moves {k} s s'" "moved_up (loop_tiers h) k v s s'"
    "\<forall>j. j \<noteq> INVALID \<and> j \<noteq> k \<longrightarrow> eh_Get j (vm_index s') = eh_Get j (vm_index s)"
    "b \<longleftrightarrow> word_type (entry_word s' k) = Memory \<and> vm_low s' \<le> vm_used s'" by auto
  with hybrid_holds_moved [OF assms(1) D(3) [OF assms(2)] s'(3,2)] show ?thesis by (auto simp: pick_word)
qed

section \<open>The dead iterator\<close>

text \<open>
  C36: A round whose walk starts with a hot key that it promotes while memory stays below the low mark crashes:
  the key is erased from \<open>hot_\<close> under the walk's iterator, which is then incremented.
\<close>

theorem promotion_walks_on:
  assumes "hybrid_holds h n s M" and "M k = Some v" and "pick (loop_tiers h) Disk k s \<noteq> None" and "is_hot s k"
    and "loop_New (2 + int (length v)) (vm_shm s) = Inr (m, Some q)" and "vm_used s + (2 + of_nat (length v)) < vm_low s"
    and "\<not> vm_stop s" and "vm_used s \<le> vm_low s" and "promote_headroom s > 0"
  shows "evict_round (loop_tiers h) io (k # hot) s = Inl Bad_access"
proof -
  have "word_type (ix_Get (t_index (loop_tiers h)) k (vm_index s)) = Disk" using assms(3) by (simp add: pick_word)
  moreover have "vt_New (t_shm (loop_tiers h)) (2 + int (length v)) (vm_shm s) = Inr (m, Some q)"
    using assms(5) by (simp add: loop_tiers_def)
  ultimately show ?thesis
    using hybrid.walks_on [OF hybrid_holdsD(1) [OF assms(1)] assms(2)] assms(4,6-) by blast
qed

section \<open>Concrete cases\<close>

lemma demo_on_disk:
  "\<exists>s. hybrid_holds id 2 s [5 \<mapsto> demo_value] \<and> pick (loop_tiers id) Disk 5 s \<noteq> None \<and> vm_shm s = demo_arena"
proof -
  let ?rep = "hybrid_rep (loop_tiers id) (class_inv 2) (class_inv 2) (class_request 2) eh_ok eh_fits (\<lambda>k. k \<noteq> INVALID)"
  have len: "length demo_value = 8" "\<not> short demo_value" by (simp_all add: demo_value_def short_def)
  note D = hybrid_holdsD [OF demo_holds [of id 2]]
  have at: "length demo_value \<le> 65535" "class_request 2 (2 + int (length demo_value))"
    using demo_storable len(2) by (simp_all add: storable_def)
  have room: "\<exists>m q. vt_New (t_ssd (loop_tiers id)) (2 + int (length demo_value)) (vm_ssd demo_hybrid) = Inr (m, Some q)"
    using demo_new10 by (auto simp: len demo_hybrid_def loop_tiers_def)
  from hybrid.WriteDisk_ok [OF D(1) len(2) at, of demo_io] room obtain s1 p where s1: "same_index {} demo_hybrid s1"
    "vm_shm s1 = demo_arena" "up_bool p" "up_type p = Disk" "?rep s1 Map.empty [up_raw p \<mapsto> demo_value]"
    by (auto simp: demo_io_def demo_hybrid_def)
  have f1: "eh_fits (vm_index s1) 5" using demo_fits s1(1) by (simp add: same_index_def)
  from hybrid.publish_ok [OF s1(5,3) demo_keys_valid(1) f1] obtain s2 where s2:
    "vm_shm s2 = demo_arena" "entry_word s2 5 = up_raw p" "keeps {} s1 s2" "?rep s2 [5 \<mapsto> demo_value] Map.empty"
    using s1(2) by auto
  have "tracked s2 \<subseteq> {k. k \<noteq> INVALID}"
    using D(2) s1(1) s2(3) by (auto simp: same_index_def keeps_def)
  moreover have "word_type (entry_word s2 5) = Disk"
    using s2(2) s1(4) by (cases p) (simp add: word_type_def up_from_raw_def up_default_def)
  ultimately show ?thesis using s2 by (auto simp: hybrid_holds_def pick_word)
qed

theorem evict_one_correct_witness:
  "\<exists>s s'. pick (loop_tiers id) Memory 5 s \<noteq> None \<and> evict_one (loop_tiers id) demo_io 5 s = Inr s' \<and>
    pick (loop_tiers id) Disk 5 s' \<noteq> None \<and> hybrid_holds id 2 s' [5 \<mapsto> demo_value]"
proof -
  obtain s where s: "hybrid_holds id 2 s [5 \<mapsto> demo_value]" "pick (loop_tiers id) Memory 5 s \<noteq> None" "vm_ssd s = demo_arena"
    using demo_in_memory by fastforce
  have "moved_out (loop_tiers id) demo_io 5 demo_value s s' \<Longrightarrow> word_type (entry_word s' 5) = Disk" for s'
    using demo_new10 s(3) by (auto simp: moved_out_def demo_io_def demo_value_def loop_tiers_def eh_vt_def split: if_splits)
  with evict_one_correct [OF s(1) _ s(2), of demo_value demo_io] s(2) show ?thesis by (auto simp: pick_word)
qed

theorem promote_one_correct_witness:
  "\<exists>s s' stop. pick (loop_tiers id) Disk 5 s \<noteq> None \<and> promote_one (loop_tiers id) 5 s = Inr (s', stop) \<and>
    pick (loop_tiers id) Memory 5 s' \<noteq> None \<and> hybrid_holds id 2 s' [5 \<mapsto> demo_value]"
proof -
  obtain s where s: "hybrid_holds id 2 s [5 \<mapsto> demo_value]" "pick (loop_tiers id) Disk 5 s \<noteq> None" "vm_shm s = demo_arena"
    using demo_on_disk by blast
  have "moved_up (loop_tiers id) 5 demo_value s s' \<Longrightarrow> word_type (entry_word s' 5) = Memory" for s'
    using demo_new10 s(3) by (auto simp: moved_up_def demo_value_def loop_tiers_def eh_vt_def split: if_splits)
  with promote_one_correct [OF s(1) _ s(2), of demo_value] s(2) show ?thesis by (fastforce simp: pick_word)
qed


theorem promotion_walks_on_witness:
  "\<exists>s. hybrid_holds id 2 s [5 \<mapsto> demo_value] \<and> evict_round (loop_tiers id) demo_io [5] s = Inl Bad_access"
proof -
  obtain s0 where s0: "hybrid_holds id 2 s0 [5 \<mapsto> demo_value]" "pick (loop_tiers id) Disk 5 s0 \<noteq> None" "vm_shm s0 = demo_arena"
    using demo_on_disk by blast
  let ?s = "s0\<lparr>vm_hot := [5 \<mapsto> 8], vm_used := 0, vm_low := 358, vm_capacity := 512, vm_stop := False\<rparr>"
  have s: "hybrid_holds id 2 ?s [5 \<mapsto> demo_value]" "pick (loop_tiers id) Disk 5 ?s \<noteq> None" "is_hot ?s 5"
    using s0(1,2) demo_keys_valid(1) by (auto simp: hybrid_holds_def hybrid_rep_def tracked_def pick_word is_hot_def kPromoteThreshold_def)
  obtain m where m: "loop_New (2 + int (length demo_value)) (vm_shm ?s) = Inr (m, Some 8)"
    using demo_new10 s0(3) by (auto simp: demo_value_def)
  have "promote_headroom ?s > 0" by (simp add: promote_headroom_def Let_def)
  with promotion_walks_on [OF s(1) _ s(2,3) m, of demo_io "[]"] s(1) show ?thesis by (auto simp: demo_value_def)
qed

end
