(* ===== verification/Bitmap.thy ===== *)
theory Bitmap
  imports Prelude
begin

unbundle bit_operations_syntax

text \<open>
  \<open>BitMap\<close> of \<open>base/bitmap.h\<close>: \<open>n\<close> bits in 64-bit words. The words stand behind the struct in
  the same memory, so a position outside them touches foreign memory: that is \<^const>\<open>Bad_access\<close>.
\<close>

section \<open>The code\<close>

record bitmap =
  bm_n :: int
  bm_bits :: "u64 list"

definition MemorySize :: "int \<Rightarrow> int result" where
  "MemorySize n = (if n mod 64 \<noteq> 0 then Inl Check_failed else Inr (8 + n div 64 * 8))"

definition BitMap_new :: "int \<Rightarrow> bitmap result" where
  "BitMap_new n = (if n mod 64 \<noteq> 0 then Inl Check_failed
     else Inr \<lparr>bm_n = n, bm_bits = replicate (nat n div 64) 0\<rparr>)"

definition bm_in_range :: "bitmap \<Rightarrow> int \<Rightarrow> bool" where
  "bm_in_range b pos = (0 \<le> pos \<and> nat pos div 64 < length (bm_bits b))"

definition bm_Get :: "int \<Rightarrow> bitmap \<Rightarrow> bool result" where
  "bm_Get pos b =
     (if bm_in_range b pos
      then Inr (drop_bit (nat pos mod 64) (bm_bits b ! (nat pos div 64)) AND 1 \<noteq> 0)
      else Inl Bad_access)"

definition bm_Set :: "int \<Rightarrow> bitmap \<Rightarrow> bitmap result" where
  "bm_Set pos b =
     (if bm_in_range b pos
      then Inr (b\<lparr>bm_bits := (bm_bits b)[nat pos div 64 :=
        bm_bits b ! (nat pos div 64) OR push_bit (nat pos mod 64) 1]\<rparr>)
      else Inl Bad_access)"

definition bm_Clear :: "int \<Rightarrow> bitmap \<Rightarrow> bitmap result" where
  "bm_Clear pos b =
     (if bm_in_range b pos
      then Inr (b\<lparr>bm_bits := (bm_bits b)[nat pos div 64 :=
        bm_bits b ! (nat pos div 64) AND NOT (push_bit (nat pos mod 64) 1)]\<rparr>)
      else Inl Bad_access)"

definition bm_Clear_all :: "bitmap \<Rightarrow> bitmap" where
  "bm_Clear_all b = b\<lparr>bm_bits := map (\<lambda>_. 0) (take (nat (bm_n b) div 64) (bm_bits b)) @
     drop (nat (bm_n b) div 64) (bm_bits b)\<rparr>"

fun count_ones :: "bitmap \<Rightarrow> nat list \<Rightarrow> int \<Rightarrow> int result" where
  "count_ones b [] ret = Inr ret"
| "count_ones b (i # is) ret =
     bind_result (bm_Get (int i) b) (\<lambda>g. count_ones b is (if g then ret + 1 else ret))"

definition NumberOfOnes :: "bitmap \<Rightarrow> int result" where
  "NumberOfOnes b = count_ones b [0..<nat (bm_n b)] 0"

text \<open>\<open>__builtin_ctzll\<close>, which is only called on a word that is not 0.\<close>

definition ctz :: "u64 \<Rightarrow> nat" where
  "ctz w = (case first_index (bit w) [0..<64] of Some k \<Rightarrow> k | None \<Rightarrow> 64)"

fun first_zero_from :: "nat \<Rightarrow> u64 list \<Rightarrow> int" where
  "first_zero_from i [] = -1"
| "first_zero_from i (v # vs) =
     (if NOT v \<noteq> 0 then int (i * 64 + ctz (NOT v)) else first_zero_from (i + 1) vs)"

definition FirstZeroPos :: "bitmap \<Rightarrow> int" where
  "FirstZeroPos b = first_zero_from 0 (take (nat (bm_n b) div 64) (bm_bits b))"

fun set_zero_from :: "nat \<Rightarrow> u64 list \<Rightarrow> u64 list \<times> int" where
  "set_zero_from i [] = ([], -1)"
| "set_zero_from i (v # vs) =
     (if NOT v \<noteq> 0 then ((v OR push_bit (ctz (NOT v)) 1) # vs, int (i * 64 + ctz (NOT v)))
      else (let (vs', r) = set_zero_from (i + 1) vs in (v # vs', r)))"

definition SetZeroPos :: "bitmap \<Rightarrow> bitmap \<times> int" where
  "SetZeroPos b =
     (let k = nat (bm_n b) div 64; (ws, r) = set_zero_from 0 (take k (bm_bits b)) in
      (b\<lparr>bm_bits := ws @ drop k (bm_bits b)\<rparr>, r))"

section \<open>The set of positions it stands for\<close>

definition bm_ok :: "bitmap \<Rightarrow> bool" where
  "bm_ok b \<longleftrightarrow> 0 \<le> bm_n b \<and> bm_n b mod 64 = 0 \<and> length (bm_bits b) = nat (bm_n b) div 64"

definition wbit :: "u64 list \<Rightarrow> nat \<Rightarrow> bool" where
  "wbit ws i = bit (ws ! (i div 64)) (i mod 64)"

definition ones :: "bitmap \<Rightarrow> nat set" where
  "ones b = {i. i < nat (bm_n b) \<and> wbit (bm_bits b) i}"

lemma finite_ones [simp]: "finite (ones b)"
  by (simp add: ones_def)

lemma ones_less: "i \<in> ones b \<Longrightarrow> i < nat (bm_n b)"
  by (simp add: ones_def)

lemma div_64_cancel: "n mod 64 = 0 \<Longrightarrow> 0 \<le> n \<Longrightarrow> 64 * (nat n div 64) = nat n"
proof -
  assume n: "n mod 64 = 0" "0 \<le> n"
  then have "nat n mod 64 = 0" using nat_mod_distrib [of n 64] by simp
  then show ?thesis using mult_div_mod_eq [of 64 "nat n"] by linarith
qed

lemma bm_ok_n: "bm_ok b \<Longrightarrow> nat (bm_n b) = 64 * length (bm_bits b)"
  unfolding bm_ok_def by (simp only: div_64_cancel)

lemma pos_word: "bm_ok b \<Longrightarrow> i div 64 < length (bm_bits b) \<longleftrightarrow> i < nat (bm_n b)"
  unfolding bm_ok_n by linarith

lemma drop_bit_and_1: "drop_bit k w AND 1 \<noteq> 0 \<longleftrightarrow> bit (w :: u64) k"
  by (simp add: and_one_eq bit_iff_odd_drop_bit odd_iff_mod_2_eq_one)

lemma in_range_iff: "bm_ok b \<Longrightarrow> bm_in_range b pos \<longleftrightarrow> 0 \<le> pos \<and> pos < bm_n b"
  by (auto simp: bm_in_range_def pos_word)

lemma bm_Get_ones:
  "bm_ok b \<Longrightarrow> bm_Get pos b = (if 0 \<le> pos \<and> pos < bm_n b then Inr (nat pos \<in> ones b) else Inl Bad_access)"
  by (simp add: bm_Get_def in_range_iff drop_bit_and_1 ones_def wbit_def)

lemma wbit_update:
  "i div 64 < length ws \<Longrightarrow>
   wbit (ws[i div 64 := w]) j = (if j div 64 = i div 64 then bit w (j mod 64) else wbit ws j)"
  by (simp add: wbit_def)

lemma same_pos: "j div 64 = i div 64 \<Longrightarrow> j mod 64 = i mod 64 \<longleftrightarrow> (j :: nat) = i"
  by (metis div_mult_mod_eq)

lemma bm_Set_ones:
  assumes "bm_ok b" "i < nat (bm_n b)"
  shows "\<exists>b'. bm_Set (int i) b = Inr b' \<and> bm_ok b' \<and> bm_n b' = bm_n b \<and> ones b' = insert i (ones b)"
proof -
  have r: "bm_in_range b (int i)" using assms by (simp add: in_range_iff)
  then have l: "i div 64 < length (bm_bits b)" by (simp add: bm_in_range_def)
  let ?w = "bm_bits b ! (i div 64) OR push_bit (i mod 64) 1"
  have "wbit ((bm_bits b)[i div 64 := ?w]) j \<longleftrightarrow> j = i \<or> wbit (bm_bits b) j" for j
    unfolding wbit_update [OF l] using same_pos [of j i]
    by (auto simp: wbit_def bit_or_iff bit_exp_iff)
  then show ?thesis using assms r by (auto simp: bm_Set_def ones_def bm_ok_def)
qed

lemma bm_Clear_ones:
  assumes "bm_ok b" "i < nat (bm_n b)"
  shows "\<exists>b'. bm_Clear (int i) b = Inr b' \<and> bm_ok b' \<and> bm_n b' = bm_n b \<and> ones b' = ones b - {i}"
proof -
  have r: "bm_in_range b (int i)" using assms by (simp add: in_range_iff)
  then have l: "i div 64 < length (bm_bits b)" by (simp add: bm_in_range_def)
  let ?w = "bm_bits b ! (i div 64) AND NOT (push_bit (i mod 64) 1)"
  have "wbit ((bm_bits b)[i div 64 := ?w]) j \<longleftrightarrow> j \<noteq> i \<and> wbit (bm_bits b) j" for j
    unfolding wbit_update [OF l] using same_pos [of j i]
    by (auto simp: wbit_def bit_and_iff bit_not_iff bit_exp_iff)
  then show ?thesis using assms r by (auto simp: bm_Clear_def ones_def bm_ok_def)
qed

lemma BitMap_new_ok:
  "0 \<le> n \<Longrightarrow> n mod 64 = 0 \<Longrightarrow> \<exists>b. BitMap_new n = Inr b \<and> bm_ok b \<and> bm_n b = n \<and> ones b = {}"
proof -
  assume n: "0 \<le> n" "n mod 64 = 0"
  have "x div 64 < nat n div 64" if "x < nat n" for x using div_64_cancel [OF n(2,1)] that by linarith
  then show ?thesis using n by (auto simp: BitMap_new_def bm_ok_def ones_def wbit_def)
qed

lemma bm_Clear_all_ones: "bm_ok b \<Longrightarrow> bm_ok (bm_Clear_all b) \<and> bm_n (bm_Clear_all b) = bm_n b \<and> ones (bm_Clear_all b) = {}"
proof -
  assume ok: "bm_ok b"
  then have "\<And>x. x < nat (bm_n b) \<Longrightarrow> x div 64 < length (bm_bits b)" by (simp add: pos_word)
  then show ?thesis using ok by (auto simp: bm_Clear_all_def bm_ok_def ones_def wbit_def)
qed

section \<open>Counting and searching\<close>

lemma count_ones_eq:
  "bm_ok b \<Longrightarrow> \<forall>i \<in> set is. i < nat (bm_n b) \<Longrightarrow> distinct is \<Longrightarrow>
   count_ones b is r = Inr (r + int (card (set is \<inter> ones b)))"
proof (induction "is" arbitrary: r)
  case (Cons i "is")
  then show ?case by (auto simp: bm_Get_ones nat_less_iff)
qed simp

lemma NumberOfOnes_card: "bm_ok b \<Longrightarrow> NumberOfOnes b = Inr (int (card (ones b)))"
proof -
  assume ok: "bm_ok b"
  have "{0..<nat (bm_n b)} \<inter> ones b = ones b" by (auto simp: ones_def)
  then show ?thesis unfolding NumberOfOnes_def using count_ones_eq [OF ok, of "[0..<nat (bm_n b)]" 0] by simp
qed

lemma not_word_eq_0: "NOT (v :: u64) = 0 \<longleftrightarrow> (\<forall>k < 64. bit v k)"
  by (auto simp: bit_eq_iff bit_not_iff)

lemma ctz_spec:
  assumes "w \<noteq> 0"
  shows "ctz w < 64" and "bit w (ctz w)" and "\<And>j. j < ctz w \<Longrightarrow> \<not> bit w j"
proof -
  obtain k where "k < 64" "bit w k" using assms by (auto simp: bit_eq_iff)
  then obtain i where i: "first_index (bit w) [0..<64] = Some i"
    by (cases "first_index (bit w) [0..<64]") (auto simp: first_index_upt_None simp del: upt_Suc)
  note D = first_index_uptD [OF i]
  then show "ctz w < 64" "bit w (ctz w)" "\<And>j. j < ctz w \<Longrightarrow> \<not> bit w j" by (simp_all add: ctz_def i)
qed

lemma ctz_not:
  assumes "NOT v \<noteq> (0 :: u64)"
  shows "ctz (NOT v) < 64" and "\<not> bit v (ctz (NOT v))" and "\<And>j. j < ctz (NOT v) \<Longrightarrow> bit v j"
  using ctz_spec [OF assms] by (auto simp: bit_not_iff)

lemma wbit_Cons: "wbit (v # vs) i = (if i < 64 then bit v i else wbit vs (i - 64))"
proof (cases "i < 64")
  case False
  then obtain j where j: "i = j + 64" by (metis add.commute le_add_diff_inverse not_less)
  have "(j + 64) div 64 = Suc (j div 64)" by simp
  then show ?thesis by (simp only: j wbit_def) simp
qed (simp add: wbit_def)

lemma first_zero_from_cases:
  "(first_zero_from i vs = -1 \<and> (\<forall>k < 64 * length vs. wbit vs k)) \<or>
   (\<exists>k. first_zero_from i vs = int (i * 64 + k) \<and> k < 64 * length vs \<and> \<not> wbit vs k \<and> (\<forall>j < k. wbit vs j))"
proof (induction vs arbitrary: i)
  case (Cons v vs)
  show ?case
  proof (cases "NOT v = 0")
    case False
    note c = ctz_not [OF False]
    have "first_zero_from i (v # vs) = int (i * 64 + ctz (NOT v))" using False by simp
    moreover have "\<not> wbit (v # vs) (ctz (NOT v))" "\<forall>j < ctz (NOT v). wbit (v # vs) j" "ctz (NOT v) < 64 * length (v # vs)"
      using c by (auto simp: wbit_Cons)
    ultimately show ?thesis by blast
  next
    case True
    then have b: "\<forall>k < 64. bit v k" by (simp only: not_word_eq_0)
    from Cons.IH [of "i + 1"] show ?thesis
    proof (elim disjE exE conjE)
      assume "first_zero_from (i + 1) vs = -1" "\<forall>k < 64 * length vs. wbit vs k"
      with True b show ?thesis by (auto simp: wbit_Cons)
    next
      fix k assume k: "first_zero_from (i + 1) vs = int ((i + 1) * 64 + k)" "k < 64 * length vs"
        "\<not> wbit vs k" "\<forall>j < k. wbit vs j"
      have "first_zero_from i (v # vs) = int (i * 64 + (k + 64))" using True k(1) by simp
      moreover have "\<not> wbit (v # vs) (k + 64)" "\<forall>j < k + 64. wbit (v # vs) j" "k + 64 < 64 * length (v # vs)"
        using k b by (auto simp: wbit_Cons)
      ultimately show ?thesis by blast
    qed
  qed
qed simp

lemma set_zero_from_eq:
  "set_zero_from i vs =
     (let r = first_zero_from i vs in
      (if r = -1 then vs else let k = nat r - i * 64 in vs[k div 64 := vs ! (k div 64) OR push_bit (k mod 64) 1], r))"
proof (induction vs arbitrary: i)
  case (Cons v vs)
  show ?case
  proof (cases "NOT v = 0")
    case False
    then show ?thesis using ctz_not(1) [OF False] by (simp add: Let_def nat_add_distrib nat_mult_distrib)
  next
    case True
    from first_zero_from_cases [of "i + 1" vs] show ?thesis
    proof (elim disjE exE conjE)
      assume "first_zero_from (i + 1) vs = -1"
      with True show ?thesis by (simp add: Cons.IH)
    next
      fix k assume k: "first_zero_from (i + 1) vs = int ((i + 1) * 64 + k)"
      have "nat (int ((i + 1) * 64 + k)) - i * 64 = k + 64" "nat (int ((i + 1) * 64 + k)) - (i + 1) * 64 = k" by simp_all
      moreover have "int ((i + 1) * 64 + k) = -1 \<longleftrightarrow> False" "(k + 64) div 64 = Suc (k div 64)" "(k + 64) mod 64 = k mod 64"
        by (simp_all del: of_nat_add of_nat_mult)
      ultimately show ?thesis using True
        by (simp only: set_zero_from.simps first_zero_from.simps Cons.IH k Let_def if_False nth_Cons_Suc
            list_update.simps nat.case split_def fst_conv snd_conv simp_thms)
    qed
  qed
qed simp

theorem FirstZeroPos_least:
  assumes "bm_ok b"
  shows "(FirstZeroPos b = -1 \<and> ones b = {0..<nat (bm_n b)}) \<or>
    (\<exists>k. FirstZeroPos b = int k \<and> k < nat (bm_n b) \<and> k \<notin> ones b \<and> {0..<k} \<subseteq> ones b)"
proof -
  have f: "FirstZeroPos b = first_zero_from 0 (bm_bits b)" using assms by (simp add: FirstZeroPos_def bm_ok_def)
  have o: "k \<in> ones b \<longleftrightarrow> k < 64 * length (bm_bits b) \<and> wbit (bm_bits b) k" for k
    by (simp only: ones_def mem_Collect_eq bm_ok_n [OF assms])
  from first_zero_from_cases [of 0 "bm_bits b"] show ?thesis
    unfolding f bm_ok_n [OF assms] set_eq_iff subset_iff o by auto
qed

lemma SetZeroPos_cases:
  assumes "bm_ok b"
  shows "(SetZeroPos b = (b, -1) \<and> ones b = {0..<nat (bm_n b)}) \<or>
    (\<exists>k b'. SetZeroPos b = (b', int k) \<and> k < nat (bm_n b) \<and> k \<notin> ones b \<and> {0..<k} \<subseteq> ones b \<and>
      bm_ok b' \<and> bm_n b' = bm_n b \<and> ones b' = insert k (ones b))"
proof -
  have t: "take (nat (bm_n b) div 64) (bm_bits b) = bm_bits b" "drop (nat (bm_n b) div 64) (bm_bits b) = []"
    using assms by (simp_all add: bm_ok_def)
  have f: "first_zero_from 0 (bm_bits b) = FirstZeroPos b" by (simp add: FirstZeroPos_def t)
  from FirstZeroPos_least [OF assms] show ?thesis
  proof (elim disjE exE conjE)
    assume "FirstZeroPos b = -1" "ones b = {0..<nat (bm_n b)}"
    then show ?thesis by (simp add: SetZeroPos_def t set_zero_from_eq f)
  next
    fix k assume k: "FirstZeroPos b = int k" "k < nat (bm_n b)" "k \<notin> ones b" "{0..<k} \<subseteq> ones b"
    from bm_Set_ones [OF assms k(2)] obtain b' where b': "bm_Set (int k) b = Inr b'" "bm_ok b'"
      "bm_n b' = bm_n b" "ones b' = insert k (ones b)" by blast
    have "bm_in_range b (int k)" using assms k(2) by (simp add: in_range_iff)
    with b'(1) have "SetZeroPos b = (b', int k)"
      by (auto simp: SetZeroPos_def t set_zero_from_eq f k(1) bm_Set_def)
    with k b' show ?thesis by blast
  qed
qed

end
