(* ===== verification/MemoryPool.thy ===== *)
theory MemoryPool
  imports Bitmap "HOL-Library.Signed_Division"
begin

unbundle bit_operations_syntax

text \<open>
  \<open>PersistMemoryPool\<close> (\<open>memory/allocators/persist_loop_slab_allocator.h\<close>): a slab allocator over
  2 MiB chunks of a shared-memory file. A chunk in use begins with a header that holds its
  slab size, its number of entries and a bitmap of the entries handed out; the entries follow.
  Headers are what survives a restart. Addresses are byte offsets from the start of the file.
\<close>

section \<open>Chunks\<close>

text \<open>\<open>sizeof(BitMap)\<close> is 8 and \<open>sizeof(ChunkHeader)\<close> is 16 in the x86-64 ABI.\<close>

definition kChunkSize :: int where "kChunkSize = 2097152"
definition kMetaDataSize :: int where "kMetaDataSize = 8"

record chunk_header =
  ch_used :: bool
  ch_slab :: int
  ch_entries :: int
  ch_bitmap :: bitmap

record chunk =
  c_header :: chunk_header
  c_start :: int
  c_data :: "int option"
  c_recovered :: bool
  c_allocated :: int
  c_id :: nat

definition HeaderSize :: "int \<Rightarrow> int result" where
  "HeaderSize n = bind_result (MemorySize n) (\<lambda>m. Inr (16 + m))"

definition header_Initialize :: "int \<Rightarrow> int \<Rightarrow> chunk_header \<Rightarrow> chunk_header result" where
  "header_Initialize slab n h =
     bind_result (BitMap_new n) (\<lambda>b.
       Inr (h\<lparr>ch_slab := slab, ch_entries := n, ch_bitmap := bm_Clear_all b, ch_used := True\<rparr>))"

definition chunk_new :: "chunk_header \<Rightarrow> nat \<Rightarrow> chunk" where
  "chunk_new h i =
     \<lparr>c_header = h, c_start = int i * kChunkSize, c_data = None, c_recovered = False, c_allocated = 0, c_id = i\<rparr>"

definition chunk_Initialize :: "chunk \<Rightarrow> chunk" where
  "chunk_Initialize c = c\<lparr>c_header := (c_header c)\<lparr>ch_used := False\<rparr>\<rparr>"

text \<open>The loop of \<open>Use\<close>, on a slab size that is already known to be no divisor by 0.\<close>

function fit_entries :: "nat \<Rightarrow> nat \<Rightarrow> nat result" where
  "fit_entries slab n =
     (case HeaderSize (int n) of
        Inl e \<Rightarrow> Inl e
      | Inr h \<Rightarrow> if h + int n * int slab > kChunkSize then fit_entries slab (n - 64) else Inr n)"
  by pat_completeness auto
termination
proof (relation "measure snd")
  fix slab n h
  assume "HeaderSize (int n) = Inr h" "h + int n * int slab > kChunkSize"
  then have "n \<noteq> 0" by (cases "n = 0") (simp_all add: HeaderSize_def MemorySize_def kChunkSize_def)
  then show "((slab, n - 64), slab, n) \<in> measure snd" by simp
qed simp

declare fit_entries.simps [simp del]

definition chunk_Use :: "int \<Rightarrow> chunk \<Rightarrow> chunk result" where
  "chunk_Use slab c =
     (if slab = 0 then Inl Div_by_zero
      else let n = uint ((2097152 :: u64) div word_of_int slab) in
        bind_result (fit_entries (nat slab) (nat (n - n mod 64))) (\<lambda>k.
          if k = 0 then Inl Check_failed
          else bind_result (header_Initialize slab (int k) (c_header c)) (\<lambda>h.
            bind_result (HeaderSize (int k)) (\<lambda>s.
              Inr (c\<lparr>c_header := h, c_data := Some (c_start c + s), c_allocated := 0, c_recovered := True\<rparr>)))))"

definition ValidPointerRange :: "int \<Rightarrow> int \<Rightarrow> chunk \<Rightarrow> bool result" where
  "ValidPointerRange s e c =
     (if e - s \<noteq> ch_slab (c_header c) then Inr False
      else case c_data c of
        None \<Rightarrow> Inl Bad_access
      | Some d \<Rightarrow> Inr (\<not> (s < d \<or> e > d + ch_slab (c_header c) * ch_entries (c_header c))))"

definition chunk_Recovery :: "chunk \<Rightarrow> chunk result" where
  "chunk_Recovery c =
     (if c_recovered c then Inr c
      else bind_result (NumberOfOnes (ch_bitmap (c_header c))) (\<lambda>k.
        bind_result (HeaderSize (ch_entries (c_header c))) (\<lambda>s.
          Inr (c\<lparr>c_allocated := k, c_data := Some (c_start c + s), c_recovered := True\<rparr>))))"

definition IsChunkUsed :: "chunk \<Rightarrow> bool" where
  "IsChunkUsed c = ch_used (c_header c)"

definition SlabSize :: "chunk \<Rightarrow> int" where
  "SlabSize c = ch_slab (c_header c)"

definition chunk_Full :: "chunk \<Rightarrow> bool" where
  "chunk_Full c \<longleftrightarrow> c_allocated c = ch_entries (c_header c)"

definition set_bitmap :: "bitmap \<Rightarrow> chunk \<Rightarrow> chunk" where
  "set_bitmap b c = c\<lparr>c_header := (c_header c)\<lparr>ch_bitmap := b\<rparr>\<rparr>"

definition chunk_Entry :: "int \<Rightarrow> chunk \<Rightarrow> int result" where
  "chunk_Entry e c = (case c_data c of None \<Rightarrow> Inl Bad_access | Some d \<Rightarrow> Inr (d + e * SlabSize c))"

definition chunk_EntryId :: "int \<Rightarrow> chunk \<Rightarrow> int result" where
  "chunk_EntryId p c =
     (case c_data c of None \<Rightarrow> Inl Bad_access
      | Some d \<Rightarrow> if SlabSize c = 0 then Inl Div_by_zero else Inr ((p - d) sdiv SlabSize c))"

definition chunk_Malloc :: "chunk \<Rightarrow> (chunk \<times> int option) result" where
  "chunk_Malloc c =
     bind_result (chunk_Recovery c) (\<lambda>c.
       case SetZeroPos (ch_bitmap (c_header c)) of (b, e) \<Rightarrow>
         if e = -1 then Inr (set_bitmap b c, None)
         else bind_result (chunk_Entry e c) (\<lambda>p.
           Inr ((set_bitmap b c)\<lparr>c_allocated := c_allocated c + 1\<rparr>, Some p)))"

definition chunk_Free :: "int \<Rightarrow> chunk \<Rightarrow> chunk result" where
  "chunk_Free p c =
     bind_result (chunk_Recovery c) (\<lambda>c.
       bind_result (chunk_EntryId p c) (\<lambda>e.
         bind_result (bm_Clear e (ch_bitmap (c_header c))) (\<lambda>b.
           Inr ((set_bitmap b c)\<lparr>c_allocated := c_allocated c - 1\<rparr>))))"

fun malloced_ids :: "bitmap \<Rightarrow> nat list \<Rightarrow> int list result" where
  "malloced_ids b [] = Inr []"
| "malloced_ids b (i # is) =
     bind_result (bm_Get (int i) b) (\<lambda>g.
       bind_result (malloced_ids b is) (\<lambda>r. Inr (if g then int i # r else r)))"

definition GetMallocedIds :: "chunk \<Rightarrow> int list result" where
  "GetMallocedIds c =
     bind_result (malloced_ids (ch_bitmap (c_header c)) [0..<nat (ch_entries (c_header c))]) (\<lambda>r.
       if int (length r) = c_allocated c then Inr r else Inl Check_failed)"

fun entries_of :: "chunk \<Rightarrow> int list \<Rightarrow> int list result" where
  "entries_of c [] = Inr []"
| "entries_of c (e # es) =
     bind_result (chunk_Entry e c) (\<lambda>p. bind_result (entries_of c es) (\<lambda>ps. Inr (p # ps)))"

definition GetMallocedData :: "chunk \<Rightarrow> int list result" where
  "GetMallocedData c =
     bind_result (malloced_ids (ch_bitmap (c_header c)) [0..<nat (ch_entries (c_header c))]) (\<lambda>r.
       bind_result (entries_of c r) (\<lambda>ps.
         if int (length ps) = c_allocated c then Inr ps else Inl Check_failed))"

section \<open>The pool\<close>

text \<open>
  Chunk pointers are indices into \<open>chunks_\<close>. \<open>pool_by_size\<close> is \<open>size_to_chunks_\<close>: an absent key
  reads as a null pointer. \<open>pool_words\<close> holds the \<open>int\<close> that \<open>New\<close> writes in front of an
  allocation when \<open>PERFECT_FIT_MOD\<close> is false.
\<close>

record pool =
  perfect_fit :: bool
  pool_chunks :: "chunk list"
  pool_free :: "nat list"
  pool_by_size :: "int \<Rightarrow> nat list option"
  pool_last :: "int \<Rightarrow> nat option"
  pool_slabs :: "int list"
  pool_words :: "int \<Rightarrow> int"
  pool_total :: int

fun recover_chunks :: "nat list \<Rightarrow> pool \<Rightarrow> pool result" where
  "recover_chunks [] P = Inr P"
| "recover_chunks (i # is) P =
     (let c = pool_chunks P ! i in
      if IsChunkUsed c
      then case pool_by_size P (SlabSize c) of
          None \<Rightarrow> Inl Bad_access
        | Some l \<Rightarrow> bind_result (chunk_Recovery c) (\<lambda>c'.
            recover_chunks is
              (P\<lparr>pool_by_size := (pool_by_size P)(SlabSize c \<mapsto> l @ [i]),
                 pool_chunks := (pool_chunks P)[i := c'],
                 pool_total := pool_total P + c_allocated c'\<rparr>))
      else recover_chunks is (P\<lparr>pool_free := pool_free P @ [i]\<rparr>))"

text \<open>\<open>headers\<close> is what the file holds at each chunk, \<open>words\<close> the size words in its data.\<close>

definition pool_new ::
  "bool \<Rightarrow> nat \<Rightarrow> int list \<Rightarrow> bool \<Rightarrow> (nat \<Rightarrow> chunk_header) \<Rightarrow> (int \<Rightarrow> int) \<Rightarrow> pool result" where
  "pool_new perfect memory_size slab_sizes file_exists headers words =
     (let n = (memory_size - memory_size mod nat kChunkSize) div nat kChunkSize;
          P = \<lparr>perfect_fit = perfect, pool_chunks = map (\<lambda>i. chunk_new (headers i) i) [0..<n], pool_free = [],
               pool_by_size = (\<lambda>s. if s \<in> set slab_sizes then Some [] else None), pool_last = Map.empty,
               pool_slabs = sort (remdups slab_sizes), pool_words = words, pool_total = 0\<rparr> in
      if n < length slab_sizes then Inl Check_failed
      else if \<not> file_exists
      then Inr (P\<lparr>pool_chunks := map chunk_Initialize (pool_chunks P), pool_free := [0..<n]\<rparr>)
      else recover_chunks [0..<n] P)"

definition chunk_call :: "nat \<Rightarrow> pool \<Rightarrow> (pool \<times> int option) result" where
  "chunk_call i P =
     bind_result (chunk_Malloc (pool_chunks P ! i)) (\<lambda>(c, r). Inr (P\<lparr>pool_chunks := (pool_chunks P)[i := c]\<rparr>, r))"

definition use_free_chunk :: "int \<Rightarrow> pool \<Rightarrow> (pool \<times> int option) result" where
  "use_free_chunk slab P =
     (let i = hd (pool_free P) in
      bind_result (chunk_Use slab (pool_chunks P ! i)) (\<lambda>c.
        case pool_by_size P slab of
          None \<Rightarrow> Inl Bad_access
        | Some l \<Rightarrow>
            chunk_call i
              (P\<lparr>pool_free := tl (pool_free P), pool_chunks := (pool_chunks P)[i := c],
                 pool_by_size := (pool_by_size P)(slab \<mapsto> l @ [i]), pool_last := (pool_last P)(slab \<mapsto> i)\<rparr>)))"

definition scan_chunks :: "int \<Rightarrow> pool \<Rightarrow> (pool \<times> int option) result" where
  "scan_chunks slab P =
     (case pool_by_size P slab of
        None \<Rightarrow> Inl Bad_access
      | Some l \<Rightarrow>
          (case List.find (\<lambda>i. \<not> chunk_Full (pool_chunks P ! i)) l of
             None \<Rightarrow> Inl Log_fatal
           | Some i \<Rightarrow> chunk_call i P))"

definition last_with_room :: "int \<Rightarrow> pool \<Rightarrow> nat option" where
  "last_with_room slab P =
     (case pool_last P slab of
        None \<Rightarrow> None
      | Some i \<Rightarrow> if chunk_Full (pool_chunks P ! i) then None else Some i)"

definition NewInternal :: "int \<Rightarrow> pool \<Rightarrow> (pool \<times> int) result" where
  "NewInternal slab P =
     bind_result
       (case last_with_room slab P of
          Some i \<Rightarrow> chunk_call i P
        | None \<Rightarrow> if pool_free P \<noteq> [] then use_free_chunk slab P else scan_chunks slab P)
       (\<lambda>(P', r). case r of
          None \<Rightarrow> Inl Check_failed
        | Some p \<Rightarrow> Inr (P'\<lparr>pool_total := pool_total P' + 1\<rparr>, p))"

definition pool_New :: "int \<Rightarrow> pool \<Rightarrow> (pool \<times> int) result" where
  "pool_New memory_size P =
     (if perfect_fit P then NewInternal memory_size P
      else case List.find (\<lambda>s. kMetaDataSize + memory_size \<le> s) (pool_slabs P) of
        None \<Rightarrow> Inl Check_failed
      | Some slab \<Rightarrow> bind_result (NewInternal slab P) (\<lambda>(P', p).
          Inr (P'\<lparr>pool_words := (pool_words P')(p := memory_size)\<rparr>, p + kMetaDataSize)))"

text \<open>The offset is divided as \<open>uint64\<close>, and the quotient narrowed to \<open>int\<close>.\<close>

definition GetChunkID :: "int \<Rightarrow> int" where
  "GetChunkID offset = sint (ucast ((word_of_int offset :: u64) div 2097152) :: 32 word)"

definition pool_Free :: "int \<Rightarrow> pool \<Rightarrow> (pool \<times> bool) result" where
  "pool_Free data P =
     (let p = (if perfect_fit P then data else data - kMetaDataSize); i = GetChunkID p in
      if 0 \<le> i \<and> nat i < length (pool_chunks P)
      then bind_result (chunk_Free p (pool_chunks P ! nat i)) (\<lambda>c.
        Inr (P\<lparr>pool_chunks := (pool_chunks P)[nat i := c], pool_total := pool_total P - 1\<rparr>, True))
      else Inr (P, False))"

fun mallocs_of_chunks :: "bool \<Rightarrow> chunk list \<Rightarrow> int list result" where
  "mallocs_of_chunks perfect [] = Inr []"
| "mallocs_of_chunks perfect (c # cs) =
     bind_result (GetMallocedData c) (\<lambda>ps.
       bind_result (mallocs_of_chunks perfect cs) (\<lambda>qs.
         Inr (map (\<lambda>p. if perfect then p else p + kMetaDataSize) ps @ qs)))"

definition pool_GetMallocsAppend :: "pool \<Rightarrow> int list result" where
  "pool_GetMallocsAppend P = mallocs_of_chunks (perfect_fit P) (pool_chunks P)"

definition pool_GetMallocOffset :: "int \<Rightarrow> int result" where
  "pool_GetMallocOffset data = (if push_bit 3 (drop_bit 3 data) = data then Inr data else Inl Check_failed)"

definition pool_GetMallocSize :: "int \<Rightarrow> pool \<Rightarrow> int" where
  "pool_GetMallocSize data P =
     (if perfect_fit P then SlabSize (pool_chunks P ! nat (GetChunkID data)) else pool_words P (data - kMetaDataSize))"

section \<open>Layout of a chunk\<close>

definition fits :: "int \<Rightarrow> int \<Rightarrow> bool" where
  "fits slab n \<longleftrightarrow> 24 + n div 8 + n * slab \<le> kChunkSize"

lemma HeaderSize_eq: "n mod 64 = 0 \<Longrightarrow> HeaderSize n = Inr (24 + n div 8)"
proof -
  assume m: "n mod 64 = 0"
  define k where "k = n div 64"
  from m have "n = 64 * k" unfolding k_def using mult_div_mod_eq [of 64 n] by linarith
  then show ?thesis by (simp add: HeaderSize_def MemorySize_def)
qed

lemma fit_entries_result:
  "n mod 64 = 0 \<Longrightarrow> \<exists>k. fit_entries slab n = Inr k \<and> k mod 64 = 0 \<and> k \<le> n \<and> fits (int slab) (int k) \<and>
     (k < n \<longrightarrow> \<not> fits (int slab) (int k + 64))"
proof (induction slab n rule: fit_entries.induct)
  case (1 slab n)
  have m: "int n mod 64 = 0" using 1(2) by presburger
  note h = HeaderSize_eq [OF m]
  show ?case
  proof (cases "fits (int slab) (int n)")
    case True
    then have "fit_entries slab n = Inr n" by (subst fit_entries.simps) (simp add: h fits_def)
    with True 1(2) show ?thesis by auto
  next
    case False
    then have gt: "24 + int n div 8 + int n * int slab > kChunkSize" by (simp add: fits_def)
    then have "n \<noteq> 0" by (cases "n = 0") (simp_all add: kChunkSize_def)
    then have n: "64 \<le> n" "(n - 64) mod 64 = 0" using 1(2) by (auto simp: mod_eq_0_iff_dvd dvd_diff_nat dest: dvd_imp_le)
    have e: "fit_entries slab n = fit_entries slab (n - 64)"
      using gt by (subst fit_entries.simps) (simp only: h sum.case if_True)
    from 1(1) [OF h gt n(2)] obtain k where k: "fit_entries slab (n - 64) = Inr k" "k mod 64 = 0" "k \<le> n - 64"
      "fits (int slab) (int k)" "k < n - 64 \<longrightarrow> \<not> fits (int slab) (int k + 64)"
      by (elim exE conjE) (rule that)
    have "k < n \<longrightarrow> \<not> fits (int slab) (int k + 64)"
    proof (cases "k < n - 64")
      case False
      with k(3) n(1) have "int k + 64 = int n" by simp
      with \<open>\<not> fits (int slab) (int n)\<close> show ?thesis by simp
    qed (use k(5) in simp)
    with k e n show ?thesis by auto
  qed
qed

lemma uint_div_slab:
  assumes "0 < slab" "slab < 2 ^ 31"
  shows "uint ((2097152 :: u64) div word_of_int slab) = 2097152 div slab"
proof -
  have "uint (word_of_int slab :: u64) = slab"
    using assms by (simp add: uint_word_of_int take_bit_eq_mod)
  then show ?thesis by (simp add: uint_div_distrib)
qed

lemma div_less_mult:
  assumes "0 < s" "(x :: int) div s < q"
  shows "x < q * s"
proof -
  have "s * (x div s + 1) \<le> s * q" using assms by (intro mult_left_mono) auto
  moreover have "x = s * (x div s) + x mod s" "x mod s < s" using assms(1) by simp_all
  ultimately show ?thesis by (simp only: distrib_left mult.commute [of q])
qed

definition header_ok :: "chunk_header \<Rightarrow> bool" where
  "header_ok h \<longleftrightarrow>
     (if ch_used h
      then 0 < ch_slab h \<and> 0 < ch_entries h \<and> bm_ok (ch_bitmap h) \<and> bm_n (ch_bitmap h) = ch_entries h \<and>
           fits (ch_slab h) (ch_entries h)
      else ch_entries h = 0)"

definition data_start :: "chunk \<Rightarrow> int" where
  "data_start c = c_start c + (24 + ch_entries (c_header c) div 8)"

definition c_ones :: "chunk \<Rightarrow> nat set" where
  "c_ones c = ones (ch_bitmap (c_header c))"

definition entry_addr :: "chunk \<Rightarrow> nat \<Rightarrow> int" where
  "entry_addr c e = data_start c + int e * SlabSize c"

definition chunk_ok :: "nat \<Rightarrow> chunk \<Rightarrow> bool" where
  "chunk_ok i c \<longleftrightarrow> c_start c = int i * kChunkSize \<and> c_id c = i \<and> header_ok (c_header c) \<and>
     (if IsChunkUsed c
      then c_recovered c \<and> c_data c = Some (data_start c) \<and> c_allocated c = int (card (c_ones c))
      else c_allocated c = 0)"

lemma chunk_okD:
  assumes "chunk_ok i c" "IsChunkUsed c"
  shows "c_start c = int i * kChunkSize" "header_ok (c_header c)" "0 < SlabSize c" "0 < ch_entries (c_header c)"
    "bm_ok (ch_bitmap (c_header c))" "bm_n (ch_bitmap (c_header c)) = ch_entries (c_header c)"
    "fits (SlabSize c) (ch_entries (c_header c))" "c_recovered c" "c_data c = Some (data_start c)"
    "c_allocated c = int (card (c_ones c))" "ch_entries (c_header c) mod 64 = 0"
  using assms by (auto simp: chunk_ok_def header_ok_def IsChunkUsed_def SlabSize_def bm_ok_def)

lemma c_ones_bound: "chunk_ok i c \<Longrightarrow> IsChunkUsed c \<Longrightarrow> e \<in> c_ones c \<Longrightarrow> int e < ch_entries (c_header c)"
  using ones_less [of e "ch_bitmap (c_header c)"] chunk_okD(6) [of i c] by (simp add: c_ones_def)

lemma entry_bounds:
  assumes "chunk_ok i c" "IsChunkUsed c" "int e < ch_entries (c_header c)"
  shows "int i * kChunkSize + 24 \<le> entry_addr c e" "entry_addr c e + SlabSize c \<le> int (i + 1) * kChunkSize"
proof -
  note c = chunk_okD [OF assms(1,2)]
  show "int i * kChunkSize + 24 \<le> entry_addr c e"
    using c(1,3,4) by (simp add: entry_addr_def data_start_def)
  have "(int e + 1) * SlabSize c \<le> ch_entries (c_header c) * SlabSize c"
    using assms(3) c(3) by (intro mult_right_mono) auto
  then show "entry_addr c e + SlabSize c \<le> int (i + 1) * kChunkSize"
    using c(1,7) by (simp add: entry_addr_def data_start_def fits_def algebra_simps)
qed

lemma entries_apart:
  assumes "0 < SlabSize c" "e < f"
  shows "entry_addr c e + SlabSize c \<le> entry_addr c f"
proof -
  have "(int e + 1) * SlabSize c \<le> int f * SlabSize c" using assms by (intro mult_right_mono) auto
  then show ?thesis by (simp add: entry_addr_def algebra_simps)
qed

lemma full_iff:
  assumes "chunk_ok i c" "IsChunkUsed c"
  shows "chunk_Full c \<longleftrightarrow> c_ones c = {0..<nat (ch_entries (c_header c))}"
proof -
  note c = chunk_okD [OF assms]
  have sub: "c_ones c \<subseteq> {0..<nat (ch_entries (c_header c))}" using c(6) by (auto simp: c_ones_def ones_def)
  have "chunk_Full c \<longleftrightarrow> card (c_ones c) = card {0..<nat (ch_entries (c_header c))}"
    using c(4,10) unfolding chunk_Full_def card_atLeastLessThan by linarith
  also have "\<dots> \<longleftrightarrow> c_ones c = {0..<nat (ch_entries (c_header c))}"
    using card_subset_eq [OF finite_atLeastLessThan sub] by metis
  finally show ?thesis .
qed

lemma set_bitmap_simps [simp]:
  "c_start (set_bitmap b c) = c_start c" "c_id (set_bitmap b c) = c_id c" "c_data (set_bitmap b c) = c_data c"
  "c_recovered (set_bitmap b c) = c_recovered c" "c_allocated (set_bitmap b c) = c_allocated c"
  "ch_used (c_header (set_bitmap b c)) = ch_used (c_header c)" "ch_slab (c_header (set_bitmap b c)) = ch_slab (c_header c)"
  "ch_entries (c_header (set_bitmap b c)) = ch_entries (c_header c)" "ch_bitmap (c_header (set_bitmap b c)) = b"
  by (simp_all add: set_bitmap_def)

text \<open>\<open>c'\<close> is \<open>c\<close> with another set of entries handed out.\<close>

definition refilled :: "chunk \<Rightarrow> nat set \<Rightarrow> chunk \<Rightarrow> bool" where
  "refilled c E c' \<longleftrightarrow> c_start c' = c_start c \<and> SlabSize c' = SlabSize c \<and> IsChunkUsed c' = IsChunkUsed c \<and>
     ch_entries (c_header c') = ch_entries (c_header c) \<and> c_ones c' = E"

lemma refilled_addr: "refilled c E c' \<Longrightarrow> entry_addr c' e = entry_addr c e"
  by (simp add: refilled_def entry_addr_def data_start_def)

lemma chunk_Malloc_cases:
  assumes "chunk_ok i c" "IsChunkUsed c"
  shows "(chunk_Full c \<and> chunk_Malloc c = Inr (c, None)) \<or>
    (\<exists>c' e. \<not> chunk_Full c \<and> chunk_Malloc c = Inr (c', Some (entry_addr c e)) \<and> chunk_ok i c' \<and>
       int e < ch_entries (c_header c) \<and> e \<notin> c_ones c \<and> refilled c (insert e (c_ones c)) c' \<and>
       c_allocated c' = c_allocated c + 1)"
proof -
  note c = chunk_okD [OF assms]
  have r: "chunk_Recovery c = Inr c" using c(8) by (simp add: chunk_Recovery_def)
  from SetZeroPos_cases [OF c(5)] show ?thesis
  proof (elim disjE exE conjE)
    assume s: "SetZeroPos (ch_bitmap (c_header c)) = (ch_bitmap (c_header c), -1)"
      "ones (ch_bitmap (c_header c)) = {0..<nat (bm_n (ch_bitmap (c_header c)))}"
    have "set_bitmap (ch_bitmap (c_header c)) c = c" by (simp add: set_bitmap_def)
    with s c(6) show ?thesis by (simp add: chunk_Malloc_def r full_iff [OF assms] c_ones_def)
  next
    fix k b'
    assume s: "SetZeroPos (ch_bitmap (c_header c)) = (b', int k)" "k < nat (bm_n (ch_bitmap (c_header c)))"
      "k \<notin> ones (ch_bitmap (c_header c))" "bm_ok b'" "bm_n b' = bm_n (ch_bitmap (c_header c))"
      "ones b' = insert k (ones (ch_bitmap (c_header c)))"
    let ?c = "(set_bitmap b' c)\<lparr>c_allocated := c_allocated c + 1\<rparr>"
    have ent: "chunk_Entry (int k) c = Inr (entry_addr c k)" by (simp add: chunk_Entry_def c(9) entry_addr_def)
    have nf: "\<not> chunk_Full c" using s(2,3) c(6) unfolding full_iff [OF assms] c_ones_def by auto
    have "chunk_Malloc c = Inr (?c, Some (entry_addr c k))" by (simp add: chunk_Malloc_def r s(1) ent)
    moreover have "chunk_ok i ?c"
      using assms c s(3,6,4,5)
      by (simp add: chunk_ok_def header_ok_def IsChunkUsed_def SlabSize_def data_start_def c_ones_def)
    moreover have "refilled c (insert k (c_ones c)) ?c"
      using s(6) by (simp add: refilled_def SlabSize_def IsChunkUsed_def c_ones_def)
    ultimately show ?thesis using nf s(2,3) c(6) by (auto simp: c_ones_def)
  qed
qed

lemma chunk_Free_ok:
  assumes "chunk_ok i c" "IsChunkUsed c" "e \<in> c_ones c"
  shows "\<exists>c'. chunk_Free (entry_addr c e) c = Inr c' \<and> chunk_ok i c' \<and> refilled c (c_ones c - {e}) c' \<and>
    c_allocated c' = c_allocated c - 1"
proof -
  note c = chunk_okD [OF assms(1,2)]
  have r: "chunk_Recovery c = Inr c" using c(8) by (simp add: chunk_Recovery_def)
  have "(int e * SlabSize c) sdiv SlabSize c = int e"
    using c(3) by (cases "e = 0") (simp_all add: signed_divide_int_def sgn_mult)
  then have id: "chunk_EntryId (entry_addr c e) c = Inr (int e)"
    using c(3) by (simp add: chunk_EntryId_def c(9) entry_addr_def)
  from assms(3) have e: "e \<in> ones (ch_bitmap (c_header c))" by (simp add: c_ones_def)
  from bm_Clear_ones [OF c(5) ones_less [OF e]] obtain b where b: "bm_Clear (int e) (ch_bitmap (c_header c)) = Inr b"
    "bm_ok b" "bm_n b = bm_n (ch_bitmap (c_header c))" "ones b = ones (ch_bitmap (c_header c)) - {e}" by blast
  let ?c = "(set_bitmap b c)\<lparr>c_allocated := c_allocated c - 1\<rparr>"
  have "card (ones (ch_bitmap (c_header c))) > 0" using e by (auto simp: card_gt_0_iff)
  then have "int (card (ones b)) = int (card (ones (ch_bitmap (c_header c)))) - 1"
    unfolding b(4) using e by (simp add: of_nat_diff)
  then have "chunk_ok i ?c"
    using assms(1,2) c b
    by (simp add: chunk_ok_def header_ok_def IsChunkUsed_def SlabSize_def data_start_def c_ones_def)
  moreover have "chunk_Free (entry_addr c e) c = Inr ?c" by (simp add: chunk_Free_def r id b(1))
  moreover have "refilled c (c_ones c - {e}) ?c"
    using b(4) by (simp add: refilled_def SlabSize_def IsChunkUsed_def c_ones_def)
  ultimately show ?thesis by auto
qed

text \<open>\<open>Use\<close> takes the largest number of entries that is a multiple of 64 and fits the chunk.\<close>

lemma chunk_Use_ok:
  assumes "c_start c = int i * kChunkSize" "c_id c = i" "0 < slab" "slab \<le> 32767"
  shows "\<exists>c'. chunk_Use slab c = Inr c' \<and> chunk_ok i c' \<and> IsChunkUsed c' \<and> SlabSize c' = slab \<and>
    c_ones c' = {} \<and> c_allocated c' = 0 \<and> \<not> fits slab (ch_entries (c_header c') + 64)"
proof -
  let ?n = "nat (2097152 div slab - 2097152 div slab mod 64)"
  have u: "uint ((2097152 :: u64) div word_of_int slab) = 2097152 div slab"
    using assms(3,4) by (intro uint_div_slab) auto
  have big: "64 \<le> 2097152 div slab" using zdiv_mono2 [of 2097152 slab 32767] assms(3,4) by simp
  have ni: "int ?n = 2097152 div slab - 2097152 div slab mod 64" using big
    by (simp add: minus_mod_eq_mult_div)
  then have n64: "?n mod 64 = 0" by (simp add: minus_mod_eq_mult_div nat_mult_distrib)
  from fit_entries_result [OF n64, of "nat slab"] obtain k where k: "fit_entries (nat slab) ?n = Inr k"
    "k mod 64 = 0" "k \<le> ?n" "fits slab (int k)" "k < ?n \<longrightarrow> \<not> fits slab (int k + 64)"
    using assms(3) by (elim exE conjE) (rule that, simp_all)
  have notmore: "\<not> fits slab (int k + 64)"
  proof (cases "k < ?n")
    case False
    then have "int k = int ?n" using k(3) by simp
    then have "int k + 64 > 2097152 div slab" using ni pos_mod_bound [of 64 "2097152 div slab"] by linarith
    then have "2097152 < (int k + 64) * slab"
      using assms(3) by (intro div_less_mult)
    moreover have "0 \<le> (int k + 64) div 8" by simp
    ultimately show ?thesis by (simp add: fits_def kChunkSize_def)
  qed (use k(5) in simp)
  have "fits slab 64" using assms(3,4) by (simp add: fits_def kChunkSize_def)
  with notmore have "k \<noteq> 0" by (cases "k = 0") auto
  have km: "int k mod 64 = 0" using k(2) by presburger
  from BitMap_new_ok [of "int k"] km obtain b where b: "BitMap_new (int k) = Inr b" "bm_ok b" "bm_n b = int k" by auto
  let ?h = "(c_header c)\<lparr>ch_slab := slab, ch_entries := int k, ch_bitmap := bm_Clear_all b, ch_used := True\<rparr>"
  let ?c = "c\<lparr>c_header := ?h, c_data := Some (c_start c + (24 + int k div 8)), c_allocated := 0, c_recovered := True\<rparr>"
  have "chunk_Use slab c = Inr ?c"
    using assms(3) k(1) \<open>k \<noteq> 0\<close>
    by (simp add: chunk_Use_def u header_Initialize_def b(1) HeaderSize_eq [OF km])
  moreover have "chunk_ok i ?c"
    using assms bm_Clear_all_ones [OF b(2)] b(3) \<open>k \<noteq> 0\<close> k(4)
    by (simp add: chunk_ok_def header_ok_def IsChunkUsed_def SlabSize_def data_start_def c_ones_def)
  moreover have "c_ones ?c = {}" using bm_Clear_all_ones [OF b(2)] by (simp add: c_ones_def)
  ultimately show ?thesis using notmore by (intro exI [of _ ?c]) (simp add: IsChunkUsed_def SlabSize_def)
qed

lemma chunk_Recovery_ok:
  assumes "header_ok h" "ch_used h"
  shows "\<exists>c'. chunk_Recovery (chunk_new h i) = Inr c' \<and> chunk_ok i c' \<and> c_header c' = h"
proof -
  have m: "ch_entries h mod 64 = 0" and b: "bm_ok (ch_bitmap h)"
    using assms by (auto simp: header_ok_def bm_ok_def)
  show ?thesis
    using assms by (simp add: chunk_Recovery_def chunk_new_def NumberOfOnes_card [OF b] HeaderSize_eq [OF m]
        chunk_ok_def IsChunkUsed_def data_start_def c_ones_def)
qed

end
