(* ===== verification/PoolSafety.thy ===== *)
theory PoolSafety
  imports MemoryPool
begin

unbundle bit_operations_syntax

text \<open>
  What \<open>PersistMemoryPool\<close> guarantees: the live allocations as a map from address to slab size,
  the effect of \<open>New\<close> and \<open>Free\<close> on it, whole runs of a client, the enumeration of the live
  allocations, and the restart from the headers in the file.
\<close>

section \<open>The invariant\<close>

definition used_chunk :: "pool \<Rightarrow> nat \<Rightarrow> bool" where
  "used_chunk P i \<longleftrightarrow> i < length (pool_chunks P) \<and> IsChunkUsed (pool_chunks P ! i)"

definition live_at :: "pool \<Rightarrow> int \<Rightarrow> int \<Rightarrow> bool" where
  "live_at P a n \<longleftrightarrow> (\<exists>i e. used_chunk P i \<and> e \<in> c_ones (pool_chunks P ! i) \<and>
     a = entry_addr (pool_chunks P ! i) e \<and> n = SlabSize (pool_chunks P ! i))"

definition pool_inv :: "pool \<Rightarrow> bool" where
  "pool_inv P \<longleftrightarrow> length (pool_chunks P) < 2 ^ 31 \<and>
     (\<forall>i < length (pool_chunks P). chunk_ok i (pool_chunks P ! i)) \<and>
     distinct (pool_free P) \<and> set (pool_free P) = {i. i < length (pool_chunks P) \<and> \<not> used_chunk P i} \<and>
     (\<forall>s l. pool_by_size P s = Some l \<longrightarrow> set l = {i. used_chunk P i \<and> SlabSize (pool_chunks P ! i) = s}) \<and>
     (\<forall>i. used_chunk P i \<longrightarrow> pool_by_size P (SlabSize (pool_chunks P ! i)) \<noteq> None) \<and>
     (\<forall>s i. pool_last P s = Some i \<longrightarrow> used_chunk P i \<and> SlabSize (pool_chunks P ! i) = s) \<and>
     pool_total P = sum_list (map c_allocated (pool_chunks P))"

definition pool_rep :: "pool \<Rightarrow> (int \<Rightarrow> int option) \<Rightarrow> bool" where
  "pool_rep P A \<longleftrightarrow> pool_inv P \<and> (\<forall>a n. A a = Some n \<longleftrightarrow> live_at P a n)"

lemma pool_invD:
  assumes "pool_inv P"
  shows "length (pool_chunks P) < 2 ^ 31"
    "\<And>i. i < length (pool_chunks P) \<Longrightarrow> chunk_ok i (pool_chunks P ! i)"
    "distinct (pool_free P)" "set (pool_free P) = {i. i < length (pool_chunks P) \<and> \<not> used_chunk P i}"
    "\<And>s l. pool_by_size P s = Some l \<Longrightarrow> set l = {i. used_chunk P i \<and> SlabSize (pool_chunks P ! i) = s}"
    "\<And>i. used_chunk P i \<Longrightarrow> pool_by_size P (SlabSize (pool_chunks P ! i)) \<noteq> None"
    "\<And>s i. pool_last P s = Some i \<Longrightarrow> used_chunk P i \<and> SlabSize (pool_chunks P ! i) = s"
    "pool_total P = sum_list (map c_allocated (pool_chunks P))"
    "\<And>i. used_chunk P i \<Longrightarrow> chunk_ok i (pool_chunks P ! i) \<and> IsChunkUsed (pool_chunks P ! i) \<and> i < length (pool_chunks P)"
  using assms unfolding pool_inv_def by (auto simp: used_chunk_def)

text \<open>Two different entries of the pool, handed out or not, lie apart.\<close>

lemma slots_apart:
  assumes "pool_inv P" "used_chunk P i" "used_chunk P j"
    and "int e < ch_entries (c_header (pool_chunks P ! i))" "int f < ch_entries (c_header (pool_chunks P ! j))"
    and "(i, e) \<noteq> (j, f)"
  shows "entry_addr (pool_chunks P ! i) e + SlabSize (pool_chunks P ! i) \<le> entry_addr (pool_chunks P ! j) f \<or>
    entry_addr (pool_chunks P ! j) f + SlabSize (pool_chunks P ! j) \<le> entry_addr (pool_chunks P ! i) e"
proof -
  from pool_invD(9) [OF assms(1,2)] pool_invD(9) [OF assms(1,3)]
  have c: "chunk_ok i (pool_chunks P ! i)" "IsChunkUsed (pool_chunks P ! i)"
    "chunk_ok j (pool_chunks P ! j)" "IsChunkUsed (pool_chunks P ! j)" by auto
  note bi = entry_bounds [OF c(1,2) assms(4)] and bj = entry_bounds [OF c(3,4) assms(5)]
  consider "i < j" | "j < i" | "i = j" "e < f" | "i = j" "f < e" using assms(6) by fastforce
  then show ?thesis
  proof cases
    case 1
    then have "int (i + 1) * kChunkSize \<le> int j * kChunkSize" by (intro mult_right_mono) (auto simp: kChunkSize_def)
    with bi(2) bj(1) show ?thesis by linarith
  next
    case 2
    then have "int (j + 1) * kChunkSize \<le> int i * kChunkSize" by (intro mult_right_mono) (auto simp: kChunkSize_def)
    with bj(2) bi(1) show ?thesis by linarith
  qed (use entries_apart chunk_okD(3) [OF c(1,2)] in blast)+
qed

lemma live_apart:
  assumes "pool_inv P" "live_at P a n" "live_at P b k" "a \<noteq> b"
  shows "a + n \<le> b \<or> b + k \<le> a"
proof -
  obtain i e where i: "used_chunk P i" "e \<in> c_ones (pool_chunks P ! i)" "a = entry_addr (pool_chunks P ! i) e"
    "n = SlabSize (pool_chunks P ! i)" using assms(2) by (auto simp: live_at_def)
  obtain j f where j: "used_chunk P j" "f \<in> c_ones (pool_chunks P ! j)" "b = entry_addr (pool_chunks P ! j) f"
    "k = SlabSize (pool_chunks P ! j)" using assms(3) by (auto simp: live_at_def)
  have "(i, e) \<noteq> (j, f)" using assms(4) i(3) j(3) by auto
  moreover have "int e < ch_entries (c_header (pool_chunks P ! i))" "int f < ch_entries (c_header (pool_chunks P ! j))"
    using pool_invD(9) [OF assms(1)] i(1,2) j(1,2) by (auto intro: c_ones_bound)
  ultimately show ?thesis using slots_apart [OF assms(1) i(1) j(1)] i(3,4) j(3,4) by blast
qed

section \<open>One chunk of the pool changes\<close>

definition refill :: "nat \<Rightarrow> chunk \<Rightarrow> int \<Rightarrow> pool \<Rightarrow> pool" where
  "refill i c d P = P\<lparr>pool_chunks := (pool_chunks P)[i := c], pool_total := pool_total P + d\<rparr>"

lemma refill_frame [simp]:
  "perfect_fit (refill i c d P) = perfect_fit P" "pool_slabs (refill i c d P) = pool_slabs P"
  "pool_words (refill i c d P) = pool_words P" "pool_by_size (refill i c d P) = pool_by_size P"
  "pool_free (refill i c d P) = pool_free P" "pool_last (refill i c d P) = pool_last P"
  "pool_chunks (refill i c d P) = (pool_chunks P)[i := c]" "pool_total (refill i c d P) = pool_total P + d"
  by (simp_all add: refill_def)

lemma sum_list_update_int:
  "i < length xs \<Longrightarrow> sum_list (map f (xs[i := x])) = sum_list (map f xs) - f (xs ! i) + (f x :: int)"
proof (induction xs arbitrary: i)
  case (Cons a xs)
  then show ?case by (cases i) auto
qed simp

lemma refill_views:
  assumes "used_chunk P i" "refilled (pool_chunks P ! i) E c"
  shows "used_chunk (refill i c d P) j = used_chunk P j"
    and "SlabSize (pool_chunks (refill i c d P) ! j) = SlabSize (pool_chunks P ! j)"
    and "entry_addr (pool_chunks (refill i c d P) ! j) e = entry_addr (pool_chunks P ! j) e"
    and "c_ones (pool_chunks (refill i c d P) ! j) = (if j = i then E else c_ones (pool_chunks P ! j))"
  using assms by (auto simp: used_chunk_def refilled_def nth_list_update refilled_addr [OF assms(2)])

lemma refill_inv:
  assumes "pool_inv P" "used_chunk P i" "refilled (pool_chunks P ! i) E c" "chunk_ok i c"
    and "c_allocated c = c_allocated (pool_chunks P ! i) + d"
  shows "pool_inv (refill i c d P)"
proof -
  note v = refill_views [OF assms(2,3), of d] and D = pool_invD [OF assms(1)]
  have i: "i < length (pool_chunks P)" using assms(2) by (simp add: used_chunk_def)
  have "\<forall>j < length (pool_chunks P). chunk_ok j ((pool_chunks P)[i := c] ! j)"
    using D(2) assms(4) i by (simp add: nth_list_update_cases)
  moreover have "pool_total P + d = sum_list (map c_allocated ((pool_chunks P)[i := c]))"
    using sum_list_update_int [OF i, of c_allocated c] D(8) assms(5) by simp
  ultimately show ?thesis
    using D(1,3,4,5,6,7) unfolding pool_inv_def v(1,2) by simp
qed

lemma refill_live:
  assumes "used_chunk P i" "refilled (pool_chunks P ! i) E c"
  shows "live_at (refill i c d P) a n \<longleftrightarrow>
    (\<exists>j e. used_chunk P j \<and> e \<in> (if j = i then E else c_ones (pool_chunks P ! j)) \<and>
       a = entry_addr (pool_chunks P ! j) e \<and> n = SlabSize (pool_chunks P ! j))"
  unfolding live_at_def refill_views [OF assms] ..

lemma refill_take:
  assumes "pool_rep P A" "used_chunk P i" "refilled (pool_chunks P ! i) (insert e (c_ones (pool_chunks P ! i))) c"
    and "chunk_ok i c" "c_allocated c = c_allocated (pool_chunks P ! i) + 1"
    and e: "e \<notin> c_ones (pool_chunks P ! i)" "int e < ch_entries (c_header (pool_chunks P ! i))"
  defines "p \<equiv> entry_addr (pool_chunks P ! i) e"
  shows "A p = None" and "pool_rep (refill i c 1 P) (A(p \<mapsto> SlabSize (pool_chunks P ! i)))"
proof -
  have inv: "pool_inv P" and A: "\<And>a n. A a = Some n \<longleftrightarrow> live_at P a n" using assms(1) by (auto simp: pool_rep_def)
  note D = pool_invD [OF inv]
  have fresh: "\<not> live_at P p n" for n
  proof
    assume "live_at P p n"
    then obtain j f where j: "used_chunk P j" "f \<in> c_ones (pool_chunks P ! j)" "p = entry_addr (pool_chunks P ! j) f"
      by (auto simp: live_at_def)
    have "int f < ch_entries (c_header (pool_chunks P ! j))" using D(9) [OF j(1)] j(2) by (auto intro: c_ones_bound)
    moreover have "(i, e) \<noteq> (j, f)" using e(1) j(2) by auto
    ultimately show False
      using slots_apart [OF inv assms(2) j(1) e(2)] j(3) D(9) [OF assms(2)] D(9) [OF j(1)] chunk_okD(3)
      by (fastforce simp: p_def)
  qed
  then show None: "A p = None" using A by (cases "A p") auto
  have "live_at (refill i c 1 P) a n \<longleftrightarrow> live_at P a n \<or> a = p \<and> n = SlabSize (pool_chunks P ! i)" for a n
    unfolding refill_live [OF assms(2,3)] unfolding live_at_def p_def using assms(2) by (auto split: if_splits)
  then have "(A(p \<mapsto> SlabSize (pool_chunks P ! i))) a = Some n \<longleftrightarrow> live_at (refill i c 1 P) a n" for a n
    using fresh A by auto
  then show "pool_rep (refill i c 1 P) (A(p \<mapsto> SlabSize (pool_chunks P ! i)))"
    using refill_inv [OF inv assms(2,3,4,5)] by (simp add: pool_rep_def)
qed

lemma refill_drop:
  assumes "pool_rep P A" "used_chunk P i" "refilled (pool_chunks P ! i) (c_ones (pool_chunks P ! i) - {e}) c"
    and "chunk_ok i c" "c_allocated c = c_allocated (pool_chunks P ! i) - 1" "e \<in> c_ones (pool_chunks P ! i)"
  shows "pool_rep (refill i c (-1) P) (A(entry_addr (pool_chunks P ! i) e := None))"
proof -
  let ?p = "entry_addr (pool_chunks P ! i) e"
  have inv: "pool_inv P" and A: "\<And>a n. A a = Some n \<longleftrightarrow> live_at P a n" using assms(1) by (auto simp: pool_rep_def)
  note D = pool_invD [OF inv]
  have eb: "int e < ch_entries (c_header (pool_chunks P ! i))" using D(9) [OF assms(2)] assms(6) by (auto intro: c_ones_bound)
  have other: "entry_addr (pool_chunks P ! j) f \<noteq> ?p"
    if j: "used_chunk P j" "f \<in> c_ones (pool_chunks P ! j)" "(i, e) \<noteq> (j, f)" for j f
  proof -
    have "int f < ch_entries (c_header (pool_chunks P ! j))" using D(9) [OF j(1)] j(2) by (auto intro: c_ones_bound)
    from slots_apart [OF inv assms(2) j(1) eb this j(3)] show ?thesis
      using D(9) [OF assms(2)] D(9) [OF j(1)] chunk_okD(3) by fastforce
  qed
  have "live_at (refill i c (-1) P) a n \<longleftrightarrow> live_at P a n \<and> a \<noteq> ?p" for a n
  proof
    assume "live_at (refill i c (-1) P) a n"
    then obtain j f where j: "used_chunk P j" "f \<in> (if j = i then c_ones (pool_chunks P ! i) - {e} else c_ones (pool_chunks P ! j))"
      "a = entry_addr (pool_chunks P ! j) f" "n = SlabSize (pool_chunks P ! j)"
      unfolding refill_live [OF assms(2,3)] by blast
    then have "f \<in> c_ones (pool_chunks P ! j)" "(i, e) \<noteq> (j, f)" by (auto split: if_splits)
    with j other show "live_at P a n \<and> a \<noteq> ?p" by (auto simp: live_at_def)
  next
    assume "live_at P a n \<and> a \<noteq> ?p"
    then show "live_at (refill i c (-1) P) a n"
      unfolding refill_live [OF assms(2,3)] unfolding live_at_def by (auto split: if_splits)
  qed
  then have "(A(?p := None)) a = Some n \<longleftrightarrow> live_at (refill i c (-1) P) a n" for a n using A by auto
  moreover have "pool_inv (refill i c (-1) P)" using assms(5) by (intro refill_inv [OF inv assms(2,3,4)]) simp
  ultimately show ?thesis by (simp add: pool_rep_def)
qed

section \<open>New\<close>

definition same_static :: "pool \<Rightarrow> pool \<Rightarrow> bool" where
  "same_static P P' \<longleftrightarrow> perfect_fit P' = perfect_fit P \<and> pool_slabs P' = pool_slabs P \<and>
     pool_words P' = pool_words P \<and> dom (pool_by_size P') = dom (pool_by_size P)"

definition slab_ok :: "int \<Rightarrow> bool" where
  "slab_ok slab \<longleftrightarrow> 0 < slab \<and> slab \<le> 32767"

lemma chunk_call_take:
  assumes "pool_rep P A" "used_chunk P i" "\<not> chunk_Full (pool_chunks P ! i)"
  shows "\<exists>P' p. chunk_call i P = Inr (P', Some p) \<and> A p = None \<and> same_static P P' \<and>
    pool_rep (P'\<lparr>pool_total := pool_total P' + 1\<rparr>) (A(p \<mapsto> SlabSize (pool_chunks P ! i)))"
proof -
  have "pool_inv P" using assms(1) by (simp add: pool_rep_def)
  from pool_invD(9) [OF this assms(2)] have c: "chunk_ok i (pool_chunks P ! i)" "IsChunkUsed (pool_chunks P ! i)" by auto
  from chunk_Malloc_cases [OF c] assms(3) obtain c' e where m:
    "chunk_Malloc (pool_chunks P ! i) = Inr (c', Some (entry_addr (pool_chunks P ! i) e))" "chunk_ok i c'"
    "int e < ch_entries (c_header (pool_chunks P ! i))" "e \<notin> c_ones (pool_chunks P ! i)"
    "refilled (pool_chunks P ! i) (insert e (c_ones (pool_chunks P ! i))) c'"
    "c_allocated c' = c_allocated (pool_chunks P ! i) + 1" by blast
  note t = refill_take [OF assms(1,2) m(5,2,6,4,3)]
  let ?P = "P\<lparr>pool_chunks := (pool_chunks P)[i := c']\<rparr>"
  have "?P\<lparr>pool_total := pool_total ?P + 1\<rparr> = refill i c' 1 P" by (simp add: refill_def)
  moreover have "chunk_call i P = Inr (?P, Some (entry_addr (pool_chunks P ! i) e))" by (simp add: chunk_call_def m(1))
  moreover have "same_static P ?P" by (simp add: same_static_def)
  ultimately show ?thesis using t by metis
qed

text \<open>A free chunk is given to a slab size.\<close>

definition assign_chunk :: "int \<Rightarrow> nat list \<Rightarrow> chunk \<Rightarrow> pool \<Rightarrow> pool" where
  "assign_chunk slab l c P =
     P\<lparr>pool_free := tl (pool_free P), pool_chunks := (pool_chunks P)[hd (pool_free P) := c],
       pool_by_size := (pool_by_size P)(slab \<mapsto> l @ [hd (pool_free P)]),
       pool_last := (pool_last P)(slab \<mapsto> hd (pool_free P))\<rparr>"

lemma assign_chunk_ok:
  assumes "pool_rep P A" "pool_free P \<noteq> []" "pool_by_size P slab = Some l"
    and c: "chunk_ok (hd (pool_free P)) c" "IsChunkUsed c" "SlabSize c = slab" "c_ones c = {}" "c_allocated c = 0"
  shows "pool_rep (assign_chunk slab l c P) A" and "used_chunk (assign_chunk slab l c P) (hd (pool_free P))"
    and "pool_chunks (assign_chunk slab l c P) ! hd (pool_free P) = c" and "same_static P (assign_chunk slab l c P)"
proof -
  let ?i = "hd (pool_free P)" and ?P = "assign_chunk slab l c P"
  have inv: "pool_inv P" and A: "\<And>a n. A a = Some n \<longleftrightarrow> live_at P a n" using assms(1) by (auto simp: pool_rep_def)
  note D = pool_invD [OF inv]
  have fr: "pool_free P = ?i # tl (pool_free P)" using assms(2) by simp
  then have "?i \<in> set (pool_free P)" by (metis list.set_intros(1))
  then have i: "?i < length (pool_chunks P)" "\<not> used_chunk P ?i" using D(4) by auto
  have chunks: "pool_chunks ?P = (pool_chunks P)[?i := c]" by (simp add: assign_chunk_def)
  have used: "used_chunk ?P j \<longleftrightarrow> j = ?i \<or> used_chunk P j" for j
    using i c(2) by (auto simp: used_chunk_def chunks nth_list_update)
  have slab: "SlabSize (pool_chunks ?P ! j) = (if j = ?i then slab else SlabSize (pool_chunks P ! j))" for j
    using i c(3) by (simp add: chunks nth_list_update)
  have unused: "c_allocated (pool_chunks P ! ?i) = 0" using D(2) [OF i(1)] i by (simp add: chunk_ok_def used_chunk_def)
  show u: "used_chunk ?P ?i" "pool_chunks ?P ! ?i = c" using i by (simp_all add: used chunks)
  show "same_static P ?P" using assms(3) by (auto simp: same_static_def assign_chunk_def)
  have free: "pool_free ?P = tl (pool_free P)" "distinct (tl (pool_free P))" "set (tl (pool_free P)) = set (pool_free P) - {?i}"
    using D(3) fr by (simp add: assign_chunk_def, metis distinct_tl)
      (metis D(3) Diff_insert_absorb distinct.simps(2) fr list.simps(15))
  have "\<forall>j < length (pool_chunks P). chunk_ok j ((pool_chunks P)[?i := c] ! j)"
    using D(2) c(1) i by (simp add: nth_list_update_cases)
  moreover have "set (tl (pool_free P)) = {j. j < length (pool_chunks P) \<and> \<not> used_chunk ?P j}"
    unfolding free(3) D(4) used by auto
  moreover have "\<forall>s m. pool_by_size ?P s = Some m \<longrightarrow> set m = {j. used_chunk ?P j \<and> SlabSize (pool_chunks ?P ! j) = s}"
    unfolding used slab using D(5) assms(3) i(2) by (auto simp: assign_chunk_def split: if_splits)
  moreover have "\<forall>j. used_chunk ?P j \<longrightarrow> pool_by_size ?P (SlabSize (pool_chunks ?P ! j)) \<noteq> None"
    unfolding used slab using D(6) by (auto simp: assign_chunk_def)
  moreover have "\<forall>s j. pool_last ?P s = Some j \<longrightarrow> used_chunk ?P j \<and> SlabSize (pool_chunks ?P ! j) = s"
    unfolding used slab using D(7) i(2) by (auto simp: assign_chunk_def split: if_splits)
  moreover have "pool_total ?P = sum_list (map c_allocated (pool_chunks ?P))"
    using sum_list_update_int [OF i(1), of c_allocated c] D(8) unused c(5) by (simp add: assign_chunk_def)
  ultimately have "pool_inv ?P" unfolding pool_inv_def chunks length_list_update free(1)
    using D(1) free(2) by (intro conjI) simp_all
  moreover have "live_at ?P a n \<longleftrightarrow> live_at P a n" for a n
  proof -
    have "e \<in> c_ones (pool_chunks ?P ! j) \<and> used_chunk ?P j \<longleftrightarrow> e \<in> c_ones (pool_chunks P ! j) \<and> used_chunk P j" for e j
      using i c(4) by (auto simp: used chunks nth_list_update)
    moreover have "used_chunk P j \<Longrightarrow> pool_chunks ?P ! j = pool_chunks P ! j" for j
      using i by (auto simp: chunks nth_list_update)
    ultimately show ?thesis unfolding live_at_def by metis
  qed
  ultimately show "pool_rep ?P A" using A by (simp add: pool_rep_def)
qed

lemma use_free_chunk_ok:
  assumes "pool_rep P A" "pool_free P \<noteq> []" "pool_by_size P slab \<noteq> None" "slab_ok slab"
  shows "\<exists>P' p. use_free_chunk slab P = Inr (P', Some p) \<and> A p = None \<and> same_static P P' \<and>
    pool_rep (P'\<lparr>pool_total := pool_total P' + 1\<rparr>) (A(p \<mapsto> slab))"
proof -
  have inv: "pool_inv P" using assms(1) by (simp add: pool_rep_def)
  note D = pool_invD [OF inv]
  let ?i = "hd (pool_free P)"
  have "?i \<in> set (pool_free P)" using assms(2) by simp
  with D(4) have i: "?i < length (pool_chunks P)" by auto
  then have ci: "c_start (pool_chunks P ! ?i) = int ?i * kChunkSize" "c_id (pool_chunks P ! ?i) = ?i"
    using D(2) by (auto simp: chunk_ok_def)
  obtain l where l: "pool_by_size P slab = Some l" using assms(3) by auto
  have "0 < slab" "slab \<le> 32767" using assms(4) by (auto simp: slab_ok_def)
  from chunk_Use_ok [OF ci this] obtain c where c: "chunk_Use slab (pool_chunks P ! ?i) = Inr c" "chunk_ok ?i c"
    "IsChunkUsed c" "SlabSize c = slab" "c_ones c = {}" "c_allocated c = 0" "0 < ch_entries (c_header c)"
    by (auto dest: chunk_okD(4))
  note a = assign_chunk_ok [OF assms(1,2) l c(2-6)]
  have "\<not> chunk_Full c" using c(6,7) by (simp add: chunk_Full_def)
  with chunk_call_take [OF a(1,2)] obtain P' p where p: "chunk_call ?i (assign_chunk slab l c P) = Inr (P', Some p)"
    "A p = None" "same_static (assign_chunk slab l c P) P'"
    "pool_rep (P'\<lparr>pool_total := pool_total P' + 1\<rparr>) (A(p \<mapsto> SlabSize c))" unfolding a(3) by auto
  have "use_free_chunk slab P = Inr (P', Some p)" using p(1) by (simp add: use_free_chunk_def Let_def c(1) l assign_chunk_def)
  with p a(4) c(4) show ?thesis by (auto simp: same_static_def)
qed

lemma NewInternal_cases:
  assumes "pool_rep P A" "pool_by_size P slab \<noteq> None" "slab_ok slab"
  shows "(NewInternal slab P = Inl Log_fatal \<and> pool_free P = [] \<and>
      (\<forall>i. used_chunk P i \<and> SlabSize (pool_chunks P ! i) = slab \<longrightarrow> chunk_Full (pool_chunks P ! i))) \<or>
    (\<exists>P' p. NewInternal slab P = Inr (P', p) \<and> A p = None \<and> same_static P P' \<and> pool_rep P' (A(p \<mapsto> slab)))"
proof -
  have inv: "pool_inv P" using assms(1) by (simp add: pool_rep_def)
  note D = pool_invD [OF inv]
  have taken: ?thesis
    if "(case last_with_room slab P of Some i \<Rightarrow> chunk_call i P
        | None \<Rightarrow> if pool_free P \<noteq> [] then use_free_chunk slab P else scan_chunks slab P) = Inr (P', Some p)"
      "A p = None" "same_static P P'" "pool_rep (P'\<lparr>pool_total := pool_total P' + 1\<rparr>) (A(p \<mapsto> slab))" for P' p
    using that by (auto simp: NewInternal_def same_static_def)
  show ?thesis
  proof (cases "last_with_room slab P")
    case (Some i)
    then have l: "pool_last P slab = Some i" "\<not> chunk_Full (pool_chunks P ! i)"
      by (auto simp: last_with_room_def split: option.splits if_splits)
    with D(7) have u: "used_chunk P i" "SlabSize (pool_chunks P ! i) = slab" by auto
    from chunk_call_take [OF assms(1) u(1) l(2)] u(2) obtain P' p where "chunk_call i P = Inr (P', Some p)"
      "A p = None" "same_static P P'" "pool_rep (P'\<lparr>pool_total := pool_total P' + 1\<rparr>) (A(p \<mapsto> slab))" by auto
    with Some show ?thesis by (intro taken) simp_all
  next
    case None
    show ?thesis
    proof (cases "pool_free P = []")
      case False
      from use_free_chunk_ok [OF assms(1) False assms(2,3)] obtain P' p where "use_free_chunk slab P = Inr (P', Some p)"
        "A p = None" "same_static P P'" "pool_rep (P'\<lparr>pool_total := pool_total P' + 1\<rparr>) (A(p \<mapsto> slab))" by auto
      with None False show ?thesis by (intro taken) simp_all
    next
      case True
      obtain l where l: "pool_by_size P slab = Some l" using assms(2) by auto
      show ?thesis
      proof (cases "List.find (\<lambda>i. \<not> chunk_Full (pool_chunks P ! i)) l")
        case None': None
        then have "\<forall>i \<in> set l. chunk_Full (pool_chunks P ! i)" by (auto simp: find_None_iff)
        moreover have "NewInternal slab P = Inl Log_fatal"
          using None None' True l by (simp add: NewInternal_def scan_chunks_def)
        ultimately show ?thesis using True D(5) [OF l] by auto
      next
        case (Some i)
        then have i: "i \<in> set l" "\<not> chunk_Full (pool_chunks P ! i)" by (auto simp: find_Some_iff)
        with D(5) [OF l] have u: "used_chunk P i" "SlabSize (pool_chunks P ! i) = slab" by auto
        have "scan_chunks slab P = chunk_call i P" using Some l by (simp add: scan_chunks_def)
        moreover from chunk_call_take [OF assms(1) u(1) i(2)] u(2) obtain P' p where "chunk_call i P = Inr (P', Some p)"
          "A p = None" "same_static P P'" "pool_rep (P'\<lparr>pool_total := pool_total P' + 1\<rparr>) (A(p \<mapsto> slab))" by auto
        ultimately show ?thesis using None True by (intro taken) simp_all
      qed
    qed
  qed
qed

section \<open>Free\<close>

lemma GetChunkID_eq:
  assumes "0 \<le> p" "p < 2 ^ 31 * 2097152"
  shows "GetChunkID p = p div 2097152"
proof -
  let ?w = "(word_of_int p :: u64) div 2097152"
  have p64: "uint (word_of_int p :: u64) = p" using assms by (simp add: uint_word_of_int take_bit_eq_mod)
  then have w: "uint ?w = p div 2097152" by (simp add: uint_div_distrib)
  have b: "0 \<le> p div 2097152" "p div 2097152 < 2 ^ 31" using assms by (simp, linarith)
  have "sint (ucast ?w :: 32 word) = signed_take_bit 31 (uint ?w)"
    by (simp add: sint_uint unsigned_ucast_eq signed_take_bit_take_bit flip: take_bit_eq_mask)
  also have "\<dots> = p div 2097152" unfolding w using b by (simp add: signed_take_bit_int_eq_self)
  finally show ?thesis by (simp add: GetChunkID_def)
qed

lemma live_chunk_id:
  assumes "pool_inv P" "used_chunk P i" "int e < ch_entries (c_header (pool_chunks P ! i))"
  shows "GetChunkID (entry_addr (pool_chunks P ! i) e) = int i"
proof -
  note D = pool_invD [OF assms(1)]
  from D(9) [OF assms(2)] have c: "chunk_ok i (pool_chunks P ! i)" "IsChunkUsed (pool_chunks P ! i)" "i < 2 ^ 31"
    using D(1) by auto
  note b = entry_bounds [OF c(1,2) assms(3)] and s = chunk_okD(3) [OF c(1,2)]
  let ?p = "entry_addr (pool_chunks P ! i) e"
  have p: "int i * 2097152 \<le> ?p" "?p < int i * 2097152 + 2097152"
    using b s by (simp_all add: kChunkSize_def algebra_simps)
  then have "?p div 2097152 = int i" by linarith
  moreover have "0 \<le> ?p" "?p < 2 ^ 31 * 2097152" using p c(3) by auto
  ultimately show ?thesis using GetChunkID_eq by metis
qed

lemma pool_Free_inner:
  assumes "pool_rep P A" "A p = Some n"
  shows "\<exists>i c. 0 \<le> GetChunkID p \<and> nat (GetChunkID p) = i \<and> i < length (pool_chunks P) \<and>
    chunk_Free p (pool_chunks P ! i) = Inr c \<and> pool_rep (refill i c (-1) P) (A(p := None)) \<and>
    SlabSize (pool_chunks P ! i) = n"
proof -
  have inv: "pool_inv P" using assms(1) by (simp add: pool_rep_def)
  note D = pool_invD [OF inv]
  obtain i e where i: "used_chunk P i" "e \<in> c_ones (pool_chunks P ! i)" "p = entry_addr (pool_chunks P ! i) e"
    "n = SlabSize (pool_chunks P ! i)" using assms by (auto simp: pool_rep_def live_at_def)
  from D(9) [OF i(1)] have c: "chunk_ok i (pool_chunks P ! i)" "IsChunkUsed (pool_chunks P ! i)" "i < length (pool_chunks P)"
    by auto
  from chunk_Free_ok [OF c(1,2) i(2)] obtain c' where c': "chunk_Free p (pool_chunks P ! i) = Inr c'" "chunk_ok i c'"
    "refilled (pool_chunks P ! i) (c_ones (pool_chunks P ! i) - {e}) c'"
    "c_allocated c' = c_allocated (pool_chunks P ! i) - 1" unfolding i(3) by blast
  have "GetChunkID p = int i" unfolding i(3) by (rule live_chunk_id [OF inv i(1) c_ones_bound [OF c(1,2) i(2)]])
  with refill_drop [OF assms(1) i(1) c'(3,2,4) i(2)] c' c i(3,4) show ?thesis by auto
qed

end
