(* ===== verification/PoolRuns.thy ===== *)
theory PoolRuns
  imports PoolSafety
begin

unbundle bit_operations_syntax

text \<open>
  \<open>PersistMemoryPool\<close> behind the interface its clients use: an allocator that ends the process
  when it is out of memory (locale \<open>fatal_allocator\<close>), with whole client runs verified once
  against the interface, and both modes of the pool as instances. The restart of a pool, and
  the enumeration of what is live.
\<close>

section \<open>The interface\<close>

datatype pool_call = Alloc int | Release nat

text \<open>A client: it keeps the pairs of address and size it holds; \<open>Release k\<close> frees the k-th.\<close>

fun run_calls ::
  "(int \<Rightarrow> 's \<Rightarrow> ('s \<times> int) result) \<Rightarrow> (int \<Rightarrow> 's \<Rightarrow> ('s \<times> bool) result) \<Rightarrow>
   pool_call list \<Rightarrow> 's \<times> (int \<times> int) list \<Rightarrow> ('s \<times> (int \<times> int) list) result" where
  "run_calls new free [] st = Inr st"
| "run_calls new free (Alloc n # cs) (s, hs) =
     bind_result (new n s) (\<lambda>(s', p). run_calls new free cs (s', (p, n) # hs))"
| "run_calls new free (Release k # cs) (s, hs) =
     (if k < length hs
      then bind_result (free (fst (hs ! k)) s) (\<lambda>(s', ok). run_calls new free cs (s', take k hs @ drop (Suc k) hs))
      else run_calls new free cs (s, hs))"

definition apart :: "int \<times> int \<Rightarrow> int \<times> int \<Rightarrow> bool" where
  "apart x y \<longleftrightarrow> fst x + snd x \<le> fst y \<or> fst y + snd y \<le> fst x"

lemma map_of_remove_nth:
  "distinct (map fst hs) \<Longrightarrow> k < length hs \<Longrightarrow>
   map_of (take k hs @ drop (Suc k) hs) = (map_of hs)(fst (hs ! k) := None) \<and>
   distinct (map fst (take k hs @ drop (Suc k) hs)) \<and> set (take k hs @ drop (Suc k) hs) \<subseteq> set hs"
proof (induction hs arbitrary: k)
  case (Cons h hs)
  show ?case
  proof (cases k)
    case 0
    have "map_of hs (fst h) = None" using Cons.prems by (simp add: map_of_eq_None_iff)
    then show ?thesis using 0 Cons.prems by (cases h) auto
  next
    case (Suc j)
    with Cons.prems have j: "j < length hs" "distinct (map fst hs)" "fst h \<notin> fst ` set hs" by auto
    note IH = Cons.IH [OF j(2,1)]
    have "fst (hs ! j) \<noteq> fst h" using j by (metis imageI nth_mem)
    moreover have "fst h \<notin> fst ` set (take j hs @ drop (Suc j) hs)" using IH j(3) by blast
    ultimately show ?thesis using IH Suc by (cases h) (auto simp: fun_upd_twist)
  qed
qed simp

lemma distinct_map_Nil: "distinct (map f [])"
  by simp

locale fatal_allocator =
  fixes rep :: "'s \<Rightarrow> (int \<Rightarrow> int option) \<Rightarrow> bool"
    and new :: "int \<Rightarrow> 's \<Rightarrow> ('s \<times> int) result" and free :: "int \<Rightarrow> 's \<Rightarrow> ('s \<times> bool) result"
    and request_ok :: "int \<Rightarrow> bool"
  assumes New: "rep s A \<Longrightarrow> request_ok n \<Longrightarrow>
      new n s = Inl Log_fatal \<or> (\<exists>s' p. new n s = Inr (s', p) \<and> A p = None \<and> rep s' (A(p \<mapsto> n)))"
    and Free: "rep s A \<Longrightarrow> A p = Some n \<Longrightarrow> \<exists>s'. free p s = Inr (s', True) \<and> rep s' (A(p := None))"
    and apart: "rep s A \<Longrightarrow> A p = Some n \<Longrightarrow> A q = Some k \<Longrightarrow> p \<noteq> q \<Longrightarrow> apart (p, n) (q, k)"
begin

lemma run_keeps:
  "rep s (map_of hs) \<Longrightarrow> distinct (map fst hs) \<Longrightarrow> \<forall>n. Alloc n \<in> set cs \<longrightarrow> request_ok n \<Longrightarrow>
   run_calls new free cs (s, hs) = Inl Log_fatal \<or>
   (\<exists>s' hs'. run_calls new free cs (s, hs) = Inr (s', hs') \<and> rep s' (map_of hs') \<and> distinct (map fst hs'))"
proof (induction cs arbitrary: s hs)
  case (Cons c cs)
  show ?case
  proof (cases c)
    case (Alloc n)
    with Cons.prems(3) have "request_ok n" by simp
    from New [OF Cons.prems(1) this] show ?thesis
    proof (elim disjE exE conjE)
      assume "new n s = Inl Log_fatal"
      then show ?thesis by (simp add: Alloc)
    next
      fix s' p assume p: "new n s = Inr (s', p)" "map_of hs p = None" "rep s' ((map_of hs)(p \<mapsto> n))"
      then have "rep s' (map_of ((p, n) # hs))" "distinct (map fst ((p, n) # hs))"
        using Cons.prems(2) by (simp_all add: map_of_eq_None_iff)
      from Cons.IH [OF this] Cons.prems(3) p(1) show ?thesis by (simp add: Alloc)
    qed
  next
    case (Release k)
    show ?thesis
    proof (cases "k < length hs")
      case True
      note r = map_of_remove_nth [OF Cons.prems(2) True]
      have "map_of hs (fst (hs ! k)) = Some (snd (hs ! k))" using Cons.prems(2) True by (simp add: map_of_is_SomeI)
      from Free [OF Cons.prems(1) this] obtain s' where s': "free (fst (hs ! k)) s = Inr (s', True)"
        "rep s' (map_of (take k hs @ drop (Suc k) hs))" using r by auto
      from Cons.IH [OF s'(2)] r Cons.prems(3) s'(1) True show ?thesis by (simp add: Release)
    next
      case False
      with Cons show ?thesis by (simp add: Release)
    qed
  qed
qed simp

lemma run_apart:
  assumes "rep s Map.empty" "\<forall>n. Alloc n \<in> set cs \<longrightarrow> request_ok n"
  shows "run_calls new free cs (s, []) = Inl Log_fatal \<or>
    (\<exists>s' hs. run_calls new free cs (s, []) = Inr (s', hs) \<and>
      (\<forall>i j. i < j \<and> j < length hs \<longrightarrow> apart (hs ! i) (hs ! j)))"
proof -
  from assms(1) have "rep s (map_of [])" by simp
  from run_keeps [OF this distinct_map_Nil assms(2)] show ?thesis
  proof (elim disjE exE conjE)
    fix s' hs assume r: "run_calls new free cs (s, []) = Inr (s', hs)" "rep s' (map_of hs)" "distinct (map fst hs)"
    have "apart (hs ! i) (hs ! j)" if "i < j" "j < length hs" for i j
    proof -
      have m: "map_of hs (fst (hs ! k)) = Some (snd (hs ! k))" if "k < length hs" for k
        using r(3) that by (simp add: map_of_is_SomeI)
      have "fst (hs ! i) \<noteq> fst (hs ! j)" using r(3) that by (simp add: distinct_conv_nth)
      with apart [OF r(2) m m] that show ?thesis by simp
    qed
    with r(1) show ?thesis by blast
  qed simp_all
qed

end

section \<open>Both modes of the pool\<close>

definition perfect_rep :: "int set \<Rightarrow> pool \<Rightarrow> (int \<Rightarrow> int option) \<Rightarrow> bool" where
  "perfect_rep S P A \<longleftrightarrow> pool_rep P A \<and> perfect_fit P \<and> dom (pool_by_size P) = S"

text \<open>Without perfect fit an allocation starts 8 bytes into its slab, and those 8 bytes hold its size.\<close>

definition sized_rep :: "int set \<Rightarrow> pool \<Rightarrow> (int \<Rightarrow> int option) \<Rightarrow> bool" where
  "sized_rep S P A \<longleftrightarrow> \<not> perfect_fit P \<and> dom (pool_by_size P) = S \<and> set (pool_slabs P) = S \<and>
     (\<exists>B. pool_rep P B \<and> (\<forall>a m. B a = Some m \<longrightarrow> kMetaDataSize + pool_words P a \<le> m) \<and>
       A = (\<lambda>a. map_option (\<lambda>_. pool_words P (a - kMetaDataSize)) (B (a - kMetaDataSize))))"

definition perfect_request :: "int set \<Rightarrow> int \<Rightarrow> bool" where
  "perfect_request S n \<longleftrightarrow> n \<in> S \<and> slab_ok n"

definition sized_request :: "int set \<Rightarrow> int \<Rightarrow> bool" where
  "sized_request S n \<longleftrightarrow> (\<exists>s \<in> S. kMetaDataSize + n \<le> s) \<and> (\<forall>s \<in> S. slab_ok s)"

lemma pool_rep_words [simp]: "pool_rep (P\<lparr>pool_words := w\<rparr>) A = pool_rep P A"
  by (simp add: pool_rep_def pool_inv_def live_at_def used_chunk_def)

lemma pool_Free_refill:
  "pool_Free (if perfect_fit P then p else p + kMetaDataSize) P =
     (if 0 \<le> GetChunkID p \<and> nat (GetChunkID p) < length (pool_chunks P)
      then bind_result (chunk_Free p (pool_chunks P ! nat (GetChunkID p)))
        (\<lambda>c. Inr (refill (nat (GetChunkID p)) c (-1) P, True))
      else Inr (P, False))"
  by (cases "0 \<le> GetChunkID p \<and> nat (GetChunkID p) < length (pool_chunks P)")
    (auto simp: pool_Free_def Let_def refill_def)

interpretation perfect_pool: fatal_allocator "perfect_rep S" pool_New pool_Free "perfect_request S"
proof
  fix P A n
  assume P: "perfect_rep S P A" and n: "perfect_request S n"
  then have r: "pool_rep P A" "pool_by_size P n \<noteq> None" "slab_ok n" by (auto simp: perfect_rep_def perfect_request_def)
  from NewInternal_cases [OF r] P
  show "pool_New n P = Inl Log_fatal \<or> (\<exists>P' p. pool_New n P = Inr (P', p) \<and> A p = None \<and> perfect_rep S P' (A(p \<mapsto> n)))"
    by (auto simp: perfect_rep_def pool_New_def same_static_def)
next
  fix P A p n
  assume P: "perfect_rep S P A" and p: "A p = Some n"
  then have r: "pool_rep P A" and m: "perfect_fit P" "dom (pool_by_size P) = S" by (auto simp: perfect_rep_def)
  from pool_Free_inner [OF r p] obtain i c where f: "0 \<le> GetChunkID p" "nat (GetChunkID p) = i" "i < length (pool_chunks P)"
    "chunk_Free p (pool_chunks P ! i) = Inr c" "pool_rep (refill i c (-1) P) (A(p := None))" by auto
  have "pool_Free p P = Inr (refill i c (-1) P, True)" using pool_Free_refill [of P p] f m(1) by simp
  with f(5) m show "\<exists>P'. pool_Free p P = Inr (P', True) \<and> perfect_rep S P' (A(p := None))"
    by (simp add: perfect_rep_def)
next
  fix P A p n q k
  assume "perfect_rep S P A" "A p = Some n" "A q = Some k" "p \<noteq> q"
  then show "apart (p, n) (q, k)"
    using live_apart [of P p n q k] by (simp add: perfect_rep_def pool_rep_def apart_def)
qed

interpretation sized_pool: fatal_allocator "sized_rep S" pool_New pool_Free "sized_request S"
proof
  fix P A n
  assume P: "sized_rep S P A" and n: "sized_request S n"
  then obtain B where B: "pool_rep P B" "\<forall>a m. B a = Some m \<longrightarrow> kMetaDataSize + pool_words P a \<le> m"
    "A = (\<lambda>a. map_option (\<lambda>_. pool_words P (a - kMetaDataSize)) (B (a - kMetaDataSize)))"
    and m: "\<not> perfect_fit P" "dom (pool_by_size P) = S" "set (pool_slabs P) = S" by (auto simp: sized_rep_def)
  from n m(3) have "\<exists>s \<in> set (pool_slabs P). kMetaDataSize + n \<le> s" by (simp add: sized_request_def)
  then obtain slab where f: "List.find (\<lambda>s. kMetaDataSize + n \<le> s) (pool_slabs P) = Some slab"
    by (cases "List.find (\<lambda>s. kMetaDataSize + n \<le> s) (pool_slabs P)") (auto simp: find_None_iff)
  then have slab: "slab \<in> S" "kMetaDataSize + n \<le> slab" using m(3) by (auto simp: find_Some_iff)
  then have "pool_by_size P slab \<noteq> None" "slab_ok slab" using m(2) n by (auto simp: sized_request_def)
  from NewInternal_cases [OF B(1) this]
  show "pool_New n P = Inl Log_fatal \<or> (\<exists>P' p. pool_New n P = Inr (P', p) \<and> A p = None \<and> sized_rep S P' (A(p \<mapsto> n)))"
  proof (elim disjE exE conjE)
    assume "NewInternal slab P = Inl Log_fatal"
    then show ?thesis using m(1) f by (simp add: pool_New_def)
  next
    fix P' p assume p: "NewInternal slab P = Inr (P', p)" "B p = None" "same_static P P'" "pool_rep P' (B(p \<mapsto> slab))"
    let ?P = "P'\<lparr>pool_words := (pool_words P')(p := n)\<rparr>"
    have "pool_New n P = Inr (?P, p + kMetaDataSize)" using m(1) f p(1) by (simp add: pool_New_def)
    moreover have "A (p + kMetaDataSize) = None" using p(2) by (simp add: B(3))
    moreover have "sized_rep S ?P (A(p + kMetaDataSize \<mapsto> n))"
      unfolding sized_rep_def
      using p m B(2) slab(2)
      by (intro conjI exI [of _ "B(p \<mapsto> slab)"]) (auto simp: same_static_def B(3) fun_eq_iff)
    ultimately show ?thesis by blast
  qed
next
  fix P A p n
  assume P: "sized_rep S P A" and p: "A p = Some n"
  then obtain B where B: "pool_rep P B" "\<forall>a m. B a = Some m \<longrightarrow> kMetaDataSize + pool_words P a \<le> m"
    "A = (\<lambda>a. map_option (\<lambda>_. pool_words P (a - kMetaDataSize)) (B (a - kMetaDataSize)))"
    and m: "\<not> perfect_fit P" "dom (pool_by_size P) = S" "set (pool_slabs P) = S" by (auto simp: sized_rep_def)
  let ?p = "p - kMetaDataSize"
  from p B(3) obtain k where k: "B ?p = Some k" by auto
  from pool_Free_inner [OF B(1) k] obtain i c where f: "0 \<le> GetChunkID ?p" "nat (GetChunkID ?p) = i" "i < length (pool_chunks P)"
    "chunk_Free ?p (pool_chunks P ! i) = Inr c" "pool_rep (refill i c (-1) P) (B(?p := None))" by auto
  have "pool_Free p P = Inr (refill i c (-1) P, True)" using pool_Free_refill [of P ?p] f m(1) by simp
  moreover have "sized_rep S (refill i c (-1) P) (A(p := None))"
    unfolding sized_rep_def using m B(2) f(5)
    by (intro conjI exI [of _ "B(?p := None)"]) (auto simp: B(3) fun_eq_iff)
  ultimately show "\<exists>P'. pool_Free p P = Inr (P', True) \<and> sized_rep S P' (A(p := None))" by blast
next
  fix P A p n q k
  assume P: "sized_rep S P A" and A: "A p = Some n" "A q = Some k" "p \<noteq> q"
  then obtain B where B: "pool_rep P B" "\<forall>a m. B a = Some m \<longrightarrow> kMetaDataSize + pool_words P a \<le> m"
    "A = (\<lambda>a. map_option (\<lambda>_. pool_words P (a - kMetaDataSize)) (B (a - kMetaDataSize)))" by (auto simp: sized_rep_def)
  from A B(3) obtain m l where ml: "B (p - kMetaDataSize) = Some m" "B (q - kMetaDataSize) = Some l" by auto
  from ml B(2) have "kMetaDataSize + n \<le> m" "kMetaDataSize + k \<le> l" using A(1,2) by (auto simp: B(3))
  moreover have "p - kMetaDataSize + m \<le> q - kMetaDataSize \<or> q - kMetaDataSize + l \<le> p - kMetaDataSize"
    using live_apart [of P "p - kMetaDataSize" m "q - kMetaDataSize" l] B(1) ml A(3) by (simp add: pool_rep_def)
  ultimately show "apart (p, n) (q, k)" by (simp add: apart_def kMetaDataSize_def) linarith
qed

section \<open>A fresh pool\<close>

definition slabs_ok :: "nat \<Rightarrow> int list \<Rightarrow> bool" where
  "slabs_ok memory_size slabs \<longleftrightarrow> length slabs \<le> memory_size div 2097152 \<and> memory_size div 2097152 < 2 ^ 31 \<and>
     (\<forall>s \<in> set slabs. slab_ok s)"

lemma sum_list_zero: "\<forall>x \<in> set xs. x = (0 :: int) \<Longrightarrow> sum_list xs = 0"
  by (induction xs) auto

lemma chunk_count: "(m - m mod nat kChunkSize) div nat kChunkSize = m div 2097152"
  by (simp add: kChunkSize_def minus_mod_eq_mult_div)

lemma pool_new_fresh:
  assumes "slabs_ok m slabs" "\<forall>i < m div 2097152. ch_entries (h i) = 0"
  shows "\<exists>P. pool_new perfect m slabs False h w = Inr P \<and> pool_rep P Map.empty \<and> perfect_fit P = perfect \<and>
    dom (pool_by_size P) = set slabs \<and> set (pool_slabs P) = set slabs \<and> pool_words P = w \<and>
    length (pool_chunks P) = m div 2097152"
proof -
  let ?n = "m div 2097152"
  let ?chunks = "map chunk_Initialize (map (\<lambda>i. chunk_new (h i) i) [0..<?n])"
  let ?P = "\<lparr>perfect_fit = perfect, pool_chunks = ?chunks, pool_free = [0..<?n],
    pool_by_size = (\<lambda>s. if s \<in> set slabs then Some [] else None), pool_last = Map.empty,
    pool_slabs = sort (remdups slabs), pool_words = w, pool_total = 0\<rparr>"
  have new: "pool_new perfect m slabs False h w = Inr ?P"
    using assms(1) by (simp add: pool_new_def chunk_count Let_def slabs_ok_def not_less)
  have c: "?chunks ! i = chunk_Initialize (chunk_new (h i) i)" if "i < ?n" for i using that by simp
  have unused: "\<not> used_chunk ?P i" for i by (auto simp: used_chunk_def IsChunkUsed_def chunk_Initialize_def)
  have "chunk_ok i (?chunks ! i)" if "i < ?n" for i
    using that assms(2) by (simp add: chunk_ok_def chunk_new_def chunk_Initialize_def header_ok_def IsChunkUsed_def)
  moreover have "sum_list (map c_allocated ?chunks) = 0"
    by (intro sum_list_zero) (auto simp: chunk_Initialize_def chunk_new_def)
  ultimately have "pool_inv ?P"
    using assms(1) unused unfolding pool_inv_def by (simp add: slabs_ok_def del: upt_Suc) auto
  moreover have "\<not> live_at ?P a n" for a n using unused by (simp add: live_at_def)
  ultimately have "pool_rep ?P Map.empty" by (simp add: pool_rep_def)
  with new show ?thesis by (intro exI [of _ ?P]) (auto split: if_splits)
qed

section \<open>What is live\<close>

lemma malloced_ids_eq:
  "bm_ok b \<Longrightarrow> \<forall>i \<in> set is. i < nat (bm_n b) \<Longrightarrow> malloced_ids b is = Inr (map int (filter (\<lambda>i. i \<in> ones b) is))"
  by (induction "is") (auto simp: bm_Get_ones nat_less_iff)

lemma entries_of_eq: "c_data c = Some (data_start c) \<Longrightarrow> entries_of c (map int es) = Inr (map (entry_addr c) es)"
  by (induction es) (auto simp: chunk_Entry_def entry_addr_def)

definition chunk_live :: "chunk \<Rightarrow> int list" where
  "chunk_live c = (if IsChunkUsed c
     then map (entry_addr c) (filter (\<lambda>e. e \<in> c_ones c) [0..<nat (ch_entries (c_header c))]) else [])"

lemma GetMallocedData_eq:
  assumes "chunk_ok i c"
  shows "GetMallocedData c = Inr (chunk_live c)" and "int (length (chunk_live c)) = c_allocated c"
    and "set (chunk_live c) = (if IsChunkUsed c then entry_addr c ` c_ones c else {})"
proof -
  have all: "GetMallocedData c = Inr (chunk_live c) \<and> int (length (chunk_live c)) = c_allocated c \<and>
    set (chunk_live c) = (if IsChunkUsed c then entry_addr c ` c_ones c else {})"
  proof (cases "IsChunkUsed c")
    case True
    note c = chunk_okD [OF assms True]
    have sub: "c_ones c \<subseteq> {0..<nat (ch_entries (c_header c))}" using c(6) by (auto simp: c_ones_def ones_def)
    have d: "distinct (filter (\<lambda>e. e \<in> c_ones c) [0..<nat (ch_entries (c_header c))])" by simp
    have l: "length (filter (\<lambda>e. e \<in> c_ones c) [0..<nat (ch_entries (c_header c))]) = card (c_ones c)"
    proof -
      have "{x. x < nat (ch_entries (c_header c)) \<and> x \<in> c_ones c} = c_ones c" using sub by auto
      with distinct_card [OF d] show ?thesis by simp
    qed
    have "malloced_ids (ch_bitmap (c_header c)) [0..<nat (ch_entries (c_header c))] =
        Inr (map int (filter (\<lambda>i. i \<in> c_ones c) [0..<nat (ch_entries (c_header c))]))"
      using malloced_ids_eq [OF c(5)] c(6) by (simp add: c_ones_def)
    then show ?thesis
      using True c(10) l sub by (auto simp: GetMallocedData_def entries_of_eq [OF c(9)] chunk_live_def)
  next
    case False
    then have "ch_entries (c_header c) = 0" "c_allocated c = 0"
      using assms by (auto simp: chunk_ok_def header_ok_def IsChunkUsed_def)
    with False show ?thesis by (simp add: GetMallocedData_def chunk_live_def)
  qed
  then show "GetMallocedData c = Inr (chunk_live c)" "int (length (chunk_live c)) = c_allocated c"
    "set (chunk_live c) = (if IsChunkUsed c then entry_addr c ` c_ones c else {})" by blast+
qed

lemma mallocs_of_chunks_eq:
  "\<forall>c \<in> set cs. \<exists>i. chunk_ok i c \<Longrightarrow>
   mallocs_of_chunks perfect cs = Inr (map (\<lambda>p. if perfect then p else p + kMetaDataSize) (concat (map chunk_live cs))) \<and>
   int (length (concat (map chunk_live cs))) = sum_list (map c_allocated cs)"
proof (induction cs)
  case (Cons c cs)
  then obtain i where c: "chunk_ok i c" by auto
  from Cons GetMallocedData_eq [OF c] show ?case by auto
qed simp

lemma pool_enumerates:
  assumes "pool_rep P A"
  shows "\<exists>ps. pool_GetMallocsAppend P = Inr (map (\<lambda>p. if perfect_fit P then p else p + kMetaDataSize) ps) \<and>
    set ps = dom A \<and> int (length ps) = pool_total P"
proof -
  have inv: "pool_inv P" and A: "\<And>a n. A a = Some n \<longleftrightarrow> live_at P a n" using assms by (auto simp: pool_rep_def)
  note D = pool_invD [OF inv]
  have ok: "\<forall>c \<in> set (pool_chunks P). \<exists>i. chunk_ok i c" using D(2) by (metis in_set_conv_nth)
  have "a \<in> set (concat (map chunk_live (pool_chunks P))) \<longleftrightarrow> a \<in> dom A" for a
  proof -
    have "a \<in> set (concat (map chunk_live (pool_chunks P))) \<longleftrightarrow>
        (\<exists>i < length (pool_chunks P). a \<in> set (chunk_live (pool_chunks P ! i)))"
      by (auto simp: in_set_conv_nth) (metis in_set_conv_nth)+
    also have "\<dots> \<longleftrightarrow> (\<exists>n. live_at P a n)"
    proof -
      have "a \<in> set (chunk_live (pool_chunks P ! i)) \<longleftrightarrow>
          IsChunkUsed (pool_chunks P ! i) \<and> (\<exists>e \<in> c_ones (pool_chunks P ! i). a = entry_addr (pool_chunks P ! i) e)"
        if "i < length (pool_chunks P)" for i
        using GetMallocedData_eq(3) [OF D(2) [OF that]] by auto
      then show ?thesis unfolding live_at_def used_chunk_def by blast
    qed
    finally show ?thesis using A by auto
  qed
  then have s: "set (concat (map chunk_live (pool_chunks P))) = dom A" by (intro set_eqI)
  from mallocs_of_chunks_eq [OF ok, of "perfect_fit P"]
  show ?thesis unfolding pool_GetMallocsAppend_def D(8) by (intro exI [of _ "concat (map chunk_live (pool_chunks P))"] conjI s) (elim conjE, assumption)+
qed

lemma chunk_call_length: "chunk_call i P = Inr (P', r) \<Longrightarrow> length (pool_chunks P') = length (pool_chunks P)"
  by (auto simp: chunk_call_def bind_result_Inr_iff)

lemma use_free_chunk_length: "use_free_chunk slab P = Inr (P', r) \<Longrightarrow> length (pool_chunks P') = length (pool_chunks P)"
  unfolding use_free_chunk_def Let_def by (erule bind_result_InrE) (auto dest: chunk_call_length split: option.splits)

lemma scan_chunks_length: "scan_chunks slab P = Inr (P', r) \<Longrightarrow> length (pool_chunks P') = length (pool_chunks P)"
  unfolding scan_chunks_def by (auto dest: chunk_call_length split: option.splits)

lemma NewInternal_length: "NewInternal slab P = Inr (P', p) \<Longrightarrow> length (pool_chunks P') = length (pool_chunks P)"
  unfolding NewInternal_def
  by (erule bind_result_InrE)
    (auto split: option.splits if_splits, (metis chunk_call_length use_free_chunk_length scan_chunks_length)+)

section \<open>Restart\<close>

definition recovering :: "(nat \<Rightarrow> chunk_header) \<Rightarrow> nat \<Rightarrow> int set \<Rightarrow> nat set \<Rightarrow> pool \<Rightarrow> bool" where
  "recovering h n S D P \<longleftrightarrow> length (pool_chunks P) = n \<and>
     (\<forall>i < n. if i \<in> D then chunk_ok i (pool_chunks P ! i) \<and> c_header (pool_chunks P ! i) = h i
        else pool_chunks P ! i = chunk_new (h i) i) \<and>
     distinct (pool_free P) \<and> set (pool_free P) = {i \<in> D. \<not> ch_used (h i)} \<and>
     (\<forall>s l. pool_by_size P s = Some l \<longrightarrow> set l = {i \<in> D. ch_used (h i) \<and> ch_slab (h i) = s}) \<and>
     dom (pool_by_size P) = S \<and> pool_last P = Map.empty \<and>
     pool_total P = sum_list (map c_allocated (pool_chunks P))"

definition same_mode :: "pool \<Rightarrow> pool \<Rightarrow> bool" where
  "same_mode P P' \<longleftrightarrow> perfect_fit P' = perfect_fit P \<and> pool_slabs P' = pool_slabs P \<and> pool_words P' = pool_words P"

lemma recover_chunk:
  assumes R: "recovering h n S D P" and i: "i < n" "i \<notin> D" and h: "header_ok (h i)" "ch_used (h i) \<longrightarrow> ch_slab (h i) \<in> S"
  shows "\<exists>P'. recover_chunks (i # is) P = recover_chunks is P' \<and> recovering h n S (insert i D) P' \<and> same_mode P P'"
proof -
  have l: "length (pool_chunks P) = n" and ci: "pool_chunks P ! i = chunk_new (h i) i"
    and other: "\<And>j. j < n \<Longrightarrow> (if j \<in> D then chunk_ok j (pool_chunks P ! j) \<and> c_header (pool_chunks P ! j) = h j
        else pool_chunks P ! j = chunk_new (h j) j)"
    and free: "distinct (pool_free P)" "set (pool_free P) = {i \<in> D. \<not> ch_used (h i)}"
    and by_size: "\<And>s l. pool_by_size P s = Some l \<Longrightarrow> set l = {i \<in> D. ch_used (h i) \<and> ch_slab (h i) = s}"
    and S: "dom (pool_by_size P) = S" and last: "pool_last P = Map.empty"
    and total: "pool_total P = sum_list (map c_allocated (pool_chunks P))"
    using R i unfolding recovering_def by auto
  show ?thesis
  proof (cases "ch_used (h i)")
    case True
    from h(2) True S obtain m where m: "pool_by_size P (ch_slab (h i)) = Some m" by auto
    from chunk_Recovery_ok [OF h(1) True, of i] obtain c' where c': "chunk_Recovery (chunk_new (h i) i) = Inr c'"
      "chunk_ok i c'" "c_header c' = h i" by blast
    let ?P = "P\<lparr>pool_by_size := (pool_by_size P)(ch_slab (h i) \<mapsto> m @ [i]), pool_chunks := (pool_chunks P)[i := c'],
      pool_total := pool_total P + c_allocated c'\<rparr>"
    have "recover_chunks (i # is) P = recover_chunks is ?P"
      using True m c'(1) by (simp add: Let_def ci IsChunkUsed_def SlabSize_def chunk_new_def)
    moreover have "c_allocated (chunk_new (h i) i) = 0" by (simp add: chunk_new_def)
    then have "pool_total P + c_allocated c' = sum_list (map c_allocated ((pool_chunks P)[i := c']))"
      using sum_list_update_int [of i "pool_chunks P" c_allocated c'] i(1) l total ci by simp
    then have "recovering h n S (insert i D) ?P"
      unfolding recovering_def using l other free by_size S last c' i True m
      by (intro conjI) (auto simp: nth_list_update)
    ultimately show ?thesis by (auto simp: same_mode_def)
  next
    case False
    let ?P = "P\<lparr>pool_free := pool_free P @ [i]\<rparr>"
    have "recover_chunks (i # is) P = recover_chunks is ?P" using False by (simp add: Let_def ci IsChunkUsed_def chunk_new_def)
    moreover have "chunk_ok i (chunk_new (h i) i) \<and> c_header (chunk_new (h i) i) = h i"
      using False h(1) by (simp add: chunk_ok_def chunk_new_def IsChunkUsed_def)
    then have "recovering h n S (insert i D) ?P"
      unfolding recovering_def using l ci other free by_size S last total i False by (intro conjI) auto
    ultimately show ?thesis by (auto simp: same_mode_def)
  qed
qed

lemma recover_chunks_ok:
  "recovering h n S D P \<Longrightarrow> set is \<inter> D = {} \<Longrightarrow> distinct is \<Longrightarrow> set is \<subseteq> {..<n} \<Longrightarrow>
   \<forall>i < n. header_ok (h i) \<and> (ch_used (h i) \<longrightarrow> ch_slab (h i) \<in> S) \<Longrightarrow>
   \<exists>P'. recover_chunks is P = Inr P' \<and> recovering h n S (D \<union> set is) P' \<and> same_mode P P'"
proof (induction "is" arbitrary: D P)
  case Nil
  then show ?case by (simp add: same_mode_def)
next
  case (Cons i "is")
  have i: "i < n" "i \<notin> D" using Cons.prems by auto
  then have hi: "header_ok (h i)" "ch_used (h i) \<longrightarrow> ch_slab (h i) \<in> S" using Cons.prems(5) by auto
  from recover_chunk [OF Cons.prems(1) i hi, of "is"] obtain P1 where P1: "recover_chunks (i # is) P = recover_chunks is P1"
    "recovering h n S (insert i D) P1" "same_mode P P1" by blast
  have p: "set is \<inter> insert i D = {}" "distinct is" "set is \<subseteq> {..<n}" using Cons.prems by auto
  from Cons.IH [OF P1(2) p Cons.prems(5)] obtain P' where "recover_chunks is P1 = Inr P'"
    "recovering h n S (insert i D \<union> set is) P'" "same_mode P1 P'" by blast
  with P1 show ?case by (auto simp: same_mode_def)
qed

lemma pool_restart:
  assumes P: "pool_rep P A" "\<forall>i < length (pool_chunks P). h i = c_header (pool_chunks P ! i)"
    and m: "m div 2097152 = length (pool_chunks P)" and slabs: "dom (pool_by_size P) \<subseteq> set slabs" "length slabs \<le> length (pool_chunks P)"
  shows "\<exists>P'. pool_new perfect m slabs True h w = Inr P' \<and> pool_rep P' A \<and> pool_total P' = pool_total P \<and>
    perfect_fit P' = perfect \<and> pool_words P' = w"
proof -
  have inv: "pool_inv P" and A: "\<And>a n. A a = Some n \<longleftrightarrow> live_at P a n" using P(1) by (auto simp: pool_rep_def)
  note D = pool_invD [OF inv]
  let ?n = "length (pool_chunks P)" and ?S = "set slabs"
  let ?P = "\<lparr>perfect_fit = perfect, pool_chunks = map (\<lambda>i. chunk_new (h i) i) [0..<?n], pool_free = [],
    pool_by_size = (\<lambda>s. if s \<in> set slabs then Some [] else None), pool_last = Map.empty,
    pool_slabs = sort (remdups slabs), pool_words = w, pool_total = 0\<rparr>"
  have "sum_list (map c_allocated (pool_chunks ?P)) = 0" by (intro sum_list_zero) (auto simp: chunk_new_def)
  then have R: "recovering h ?n ?S {} ?P" unfolding recovering_def by (auto split: if_splits)
  have H: "header_ok (h i) \<and> (ch_used (h i) \<longrightarrow> ch_slab (h i) \<in> ?S)" if "i < ?n" for i
  proof -
    have "header_ok (h i)" using D(2) [OF that] P(2) that by (auto simp: chunk_ok_def)
    moreover have "ch_slab (h i) \<in> ?S" if "ch_used (h i)"
    proof -
      have "used_chunk P i" using that P(2) \<open>i < ?n\<close> by (simp add: used_chunk_def IsChunkUsed_def)
      from D(6) [OF this] slabs(1) P(2) \<open>i < ?n\<close> show ?thesis by (auto simp: SlabSize_def)
    qed
    ultimately show ?thesis by blast
  qed
  have "set [0..<?n] \<inter> {} = {}" "distinct [0..<?n]" "set [0..<?n] \<subseteq> {..<?n}" by auto
  from recover_chunks_ok [OF R this] H obtain P' where P': "recover_chunks [0..<?n] ?P = Inr P'"
    "recovering h ?n ?S ({} \<union> set [0..<?n]) P'" "same_mode ?P P'" by blast
  have ok: "\<And>i. i < ?n \<Longrightarrow> chunk_ok i (pool_chunks P' ! i) \<and> c_header (pool_chunks P' ! i) = h i"
    and l: "length (pool_chunks P') = ?n" using P'(2) unfolding recovering_def by auto
  have used: "used_chunk P' i \<longleftrightarrow> i < ?n \<and> ch_used (h i)" for i
    using ok l by (auto simp: used_chunk_def IsChunkUsed_def)
  have used': "used_chunk P i \<longleftrightarrow> i < ?n \<and> ch_used (h i)" for i
    using P(2) by (auto simp: used_chunk_def IsChunkUsed_def)
  have same: "SlabSize (pool_chunks P' ! i) = SlabSize (pool_chunks P ! i)" "c_ones (pool_chunks P' ! i) = c_ones (pool_chunks P ! i)"
    "entry_addr (pool_chunks P' ! i) e = entry_addr (pool_chunks P ! i) e" if "i < ?n" for i e
    using ok [OF that] P(2) that D(2) [OF that]
    by (auto simp: SlabSize_def c_ones_def entry_addr_def data_start_def chunk_ok_def)
  have sl: "SlabSize (pool_chunks P' ! i) = ch_slab (h i)" if "i < ?n" for i using ok [OF that] by (simp add: SlabSize_def)
  have "pool_inv P'"
    using P'(2) D(1) ok l slabs unfolding recovering_def pool_inv_def used
    by (intro conjI) (auto simp: sl used domI dest: H)
  moreover have "live_at P' a n \<longleftrightarrow> live_at P a n" for a n
    unfolding live_at_def used used' using same by metis
  moreover have "pool_total P' = pool_total P"
  proof -
    have "c_allocated (pool_chunks P' ! i) = c_allocated (pool_chunks P ! i)" if "i < ?n" for i
      using ok [OF that] D(2) [OF that] same(2) [OF that] P(2) that by (auto simp: chunk_ok_def IsChunkUsed_def split: if_splits)
    then have "map c_allocated (pool_chunks P') = map c_allocated (pool_chunks P)" using l by (intro nth_equalityI) auto
    then show ?thesis using D(8) P'(2) by (simp add: recovering_def)
  qed
  moreover have "pool_new perfect m slabs True h w = Inr P'"
    using P'(1) m slabs(2) by (simp add: pool_new_def chunk_count Let_def)
  ultimately show ?thesis using A P'(3) by (auto simp: pool_rep_def same_mode_def)
qed

section \<open>Properties\<close>

text \<open>
  C12: A client of a fresh \<open>PersistMemoryPool\<close>, in either mode, that allocates and frees in any
  order never holds two allocations that overlap; the only way its run can end early is the
  out-of-memory stop of \<open>NewInternal\<close>.
\<close>

theorem pool_client_runs:
  assumes "slabs_ok m slabs" "\<forall>i < m div 2097152. ch_entries (h i) = 0"
    and "\<forall>n. Alloc n \<in> set cs \<longrightarrow> (if perfect then n \<in> set slabs else \<exists>s \<in> set slabs. kMetaDataSize + n \<le> s)"
  shows "\<exists>P. pool_new perfect m slabs False h w = Inr P \<and>
    (run_calls pool_New pool_Free cs (P, []) = Inl Log_fatal \<or>
     (\<exists>P' hs. run_calls pool_New pool_Free cs (P, []) = Inr (P', hs) \<and>
       (\<forall>i j. i < j \<and> j < length hs \<longrightarrow> apart (hs ! i) (hs ! j))))"
proof -
  from pool_new_fresh [OF assms(1,2)] obtain P where P: "pool_new perfect m slabs False h w = Inr P"
    "pool_rep P Map.empty" "perfect_fit P = perfect" "dom (pool_by_size P) = set slabs" "set (pool_slabs P) = set slabs" by blast
  have ok: "\<forall>s \<in> set slabs. slab_ok s" using assms(1) by (simp add: slabs_ok_def)
  show ?thesis
  proof (cases perfect)
    case True
    then have "perfect_rep (set slabs) P Map.empty" "\<forall>n. Alloc n \<in> set cs \<longrightarrow> perfect_request (set slabs) n"
      using P assms(3) ok by (auto simp: perfect_rep_def perfect_request_def)
    from perfect_pool.run_apart [OF this] P(1) show ?thesis by blast
  next
    case False
    then have "sized_rep (set slabs) P Map.empty" "\<forall>n. Alloc n \<in> set cs \<longrightarrow> sized_request (set slabs) n"
      using P assms(3) ok by (auto simp: sized_rep_def sized_request_def fun_eq_iff intro!: exI [of _ Map.empty])
    from sized_pool.run_apart [OF this] P(1) show ?thesis by blast
  qed
qed

theorem pool_client_runs_witness:
  "\<exists>P. pool_new False 4194304 [64, 4096] False (\<lambda>i. \<lparr>ch_used = False, ch_slab = 0, ch_entries = 0, ch_bitmap = \<lparr>bm_n = 0, bm_bits = []\<rparr>\<rparr>) (\<lambda>a. 0) = Inr P \<and>
    (run_calls pool_New pool_Free [Alloc 50, Alloc 2000, Release 0, Alloc 50] (P, []) = Inl Log_fatal \<or>
     (\<exists>P' hs. run_calls pool_New pool_Free [Alloc 50, Alloc 2000, Release 0, Alloc 50] (P, []) = Inr (P', hs) \<and>
       (\<forall>i j. i < j \<and> j < length hs \<longrightarrow> apart (hs ! i) (hs ! j))))"
  by (rule pool_client_runs) (auto simp: slabs_ok_def slab_ok_def kMetaDataSize_def)

text \<open>
  C33: One \<open>New\<close> of a perfect-fit pool hands out an address that is not live and adds exactly
  that allocation, or ends the process, and the latter only when there is no free chunk and
  every chunk of that slab size is full; \<open>Free\<close> of a live address removes exactly it.
\<close>

theorem pool_New_Free_correct:
  assumes "pool_rep P A" "perfect_fit P" "pool_by_size P slab \<noteq> None" "slab_ok slab"
  shows "((pool_New slab P = Inl Log_fatal \<and> pool_free P = [] \<and>
        (\<forall>i. used_chunk P i \<and> SlabSize (pool_chunks P ! i) = slab \<longrightarrow> chunk_Full (pool_chunks P ! i))) \<or>
      (\<exists>P' p. pool_New slab P = Inr (P', p) \<and> A p = None \<and> pool_rep P' (A(p \<mapsto> slab)))) \<and>
    (\<forall>p \<in> dom A. \<exists>P'. pool_Free p P = Inr (P', True) \<and> pool_rep P' (A(p := None)))"
proof -
  have "\<exists>P'. pool_Free p P = Inr (P', True) \<and> pool_rep P' (A(p := None))" if "p \<in> dom A" for p
    using perfect_pool.Free [of "dom (pool_by_size P)" P A p] assms(1,2) that by (auto simp: perfect_rep_def)
  moreover from NewInternal_cases [OF assms(1,3,4)] assms(2)
  have "(pool_New slab P = Inl Log_fatal \<and> pool_free P = [] \<and>
        (\<forall>i. used_chunk P i \<and> SlabSize (pool_chunks P ! i) = slab \<longrightarrow> chunk_Full (pool_chunks P ! i))) \<or>
      (\<exists>P' p. pool_New slab P = Inr (P', p) \<and> A p = None \<and> pool_rep P' (A(p \<mapsto> slab)))"
    by (auto simp: pool_New_def)
  ultimately show ?thesis by blast
qed

theorem pool_New_Free_correct_witness:
  "\<exists>P P' p. pool_New 64 P = Inr (P', p) \<and> pool_rep P' [p \<mapsto> 64] \<and> pool_free P = [0, 1]"
proof -
  let ?h = "\<lambda>i :: nat. \<lparr>ch_used = False, ch_slab = 0, ch_entries = 0, ch_bitmap = \<lparr>bm_n = 0, bm_bits = []\<rparr>\<rparr>"
  let ?w = "\<lambda>a :: int. 0 :: int"
  have s: "slabs_ok 4194304 [64]" "slab_ok 64" by (simp_all add: slabs_ok_def slab_ok_def)
  from pool_new_fresh [OF s(1), of ?h True ?w] obtain P where P: "pool_new True 4194304 [64] False ?h ?w = Inr P"
    "pool_rep P Map.empty" "perfect_fit P" "dom (pool_by_size P) = {64}" "length (pool_chunks P) = 2" by auto
  have f: "pool_free P = [0, 1]" using P(1) by (auto simp: pool_new_def chunk_count Let_def upt_rec)
  have b: "pool_by_size P 64 \<noteq> None" using P(4) by auto
  from pool_New_Free_correct [OF P(2,3) b s(2)] f show ?thesis by auto
qed

text \<open>
  C34: A pool constructed over the file that another pool left behind, with the same slab sizes,
  has the same live allocations and the same count, whatever mode flag it is given.
\<close>

theorem pool_recovery:
  assumes "pool_rep P A" "\<forall>i < length (pool_chunks P). h i = c_header (pool_chunks P ! i)"
    and "m div 2097152 = length (pool_chunks P)" "dom (pool_by_size P) \<subseteq> set slabs" "length slabs \<le> length (pool_chunks P)"
  shows "\<exists>P'. pool_new perfect m slabs True h w = Inr P' \<and> pool_rep P' A \<and> pool_total P' = pool_total P \<and>
    (\<exists>ps. pool_GetMallocsAppend P' = Inr (map (\<lambda>p. if perfect then p else p + kMetaDataSize) ps) \<and> set ps = dom A)"
proof -
  from pool_restart [OF assms] obtain P' where "pool_new perfect m slabs True h w = Inr P'" "pool_rep P' A"
    "pool_total P' = pool_total P" "perfect_fit P' = perfect" by blast
  with pool_enumerates [of P' A] show ?thesis by auto
qed

theorem pool_recovery_witness:
  "\<exists>P P' p. pool_rep P [p \<mapsto> 64] \<and>
    pool_new True 4194304 [64] True (\<lambda>i. c_header (pool_chunks P ! i)) (\<lambda>a. 0) = Inr P' \<and> pool_rep P' [p \<mapsto> 64]"
proof -
  let ?h = "\<lambda>i :: nat. \<lparr>ch_used = False, ch_slab = 0, ch_entries = 0, ch_bitmap = \<lparr>bm_n = 0, bm_bits = []\<rparr>\<rparr>"
  have s: "slabs_ok 4194304 [64]" "slab_ok 64" by (simp_all add: slabs_ok_def slab_ok_def)
  from pool_new_fresh [OF s(1), of ?h True "\<lambda>a. 0"] obtain P0 where P0: "pool_new True 4194304 [64] False ?h (\<lambda>a. 0) = Inr P0"
    "pool_rep P0 Map.empty" "perfect_fit P0" "dom (pool_by_size P0) = {64}" "length (pool_chunks P0) = 2" by auto
  have f: "pool_free P0 \<noteq> []" using P0(1) by (auto simp: pool_new_def chunk_count Let_def upt_rec)
  from NewInternal_cases [OF P0(2) _ s(2)] f P0(4) obtain P p where P: "same_static P0 P" "pool_rep P [p \<mapsto> 64]"
    "NewInternal 64 P0 = Inr (P, p)" by auto
  have l: "length (pool_chunks P) = 2" using NewInternal_length [OF P(3)] P0(5) by simp
  have prems: "\<forall>i < length (pool_chunks P). c_header (pool_chunks P ! i) = c_header (pool_chunks P ! i)"
    "4194304 div 2097152 = length (pool_chunks P)" "dom (pool_by_size P) \<subseteq> set [64]" "length [64 :: int] \<le> length (pool_chunks P)"
    using P(1) P0(4) l by (auto simp: same_static_def)
  from pool_recovery [OF P(2) prems, of True "\<lambda>a. 0"] P(2) show ?thesis by blast
qed

end
