(* ===== verification/SimpleMalloc.thy ===== *)
theory SimpleMalloc
  imports Prelude
begin

unbundle bit_operations_syntax

text \<open>
  \<open>PersistSimpleMalloc\<close> (\<open>memory/allocators/persist_loop_slab_allocator.h\<close>): a bump allocator of
  fixed-size blocks that starts again at the beginning of the file when it reaches its end.
  Addresses are offsets from \<open>data_\<close>.
\<close>

record simple_malloc =
  s_allocated :: u64
  s_nr_malloc :: u64
  s_meta :: "nat \<Rightarrow> u64"
  s_memory :: int
  s_slab :: int

definition simple_Initialize :: "simple_malloc \<Rightarrow> simple_malloc" where
  "simple_Initialize s = s\<lparr>s_allocated := 0\<rparr>"

text \<open>The constructor; \<open>meta\<close> is what the file holds.\<close>

definition simple_construct :: "int \<Rightarrow> int \<Rightarrow> (nat \<Rightarrow> u64) \<Rightarrow> simple_malloc result" where
  "simple_construct memory slab meta =
     (if slab = 0 then Inl Div_by_zero
      else let s = simple_Initialize \<lparr>s_allocated = 0, s_nr_malloc = 0, s_meta = meta, s_memory = memory, s_slab = slab\<rparr> in
        Inr (s\<lparr>s_allocated := s_allocated s + word_of_int slab\<rparr>))"

text \<open>The comparisons mix \<open>uint64_t\<close> and \<open>int64\<close>, so they are unsigned.\<close>

definition simple_New :: "int \<Rightarrow> simple_malloc \<Rightarrow> (simple_malloc \<times> int) result" where
  "simple_New n s =
     (if n \<noteq> s_slab s then Inl Check_failed
      else let offset = s_allocated s;
          s1 = s\<lparr>s_allocated := s_allocated s + word_of_int n, s_nr_malloc := s_nr_malloc s + 1\<rparr>;
          (offset, s2) = (if offset + word_of_int (s_slab s) \<ge> word_of_int (s_memory s)
                          then (0, s1\<lparr>s_allocated := 0\<rparr>) else (offset, s1)) in
        if \<not> offset + word_of_int (s_slab s) \<le> word_of_int (s_memory s) then Inl Check_failed
        else if s_slab s = 0 then Inl Div_by_zero
        else Inr (s2\<lparr>s_meta := (s_meta s2)(unat (offset div word_of_int (s_slab s)) := word_of_int n)\<rparr>, uint offset))"

definition simple_GetMallocSize :: "int \<Rightarrow> simple_malloc \<Rightarrow> int" where
  "simple_GetMallocSize offset s = sint (ucast (s_meta s (nat (offset div s_slab s))) :: 32 word)"

definition simple_GetMallocOffset :: "int \<Rightarrow> simple_malloc \<Rightarrow> int result" where
  "simple_GetMallocOffset p s =
     (if \<not> 0 \<le> p then Inl Check_failed else if \<not> p + s_slab s < s_memory s then Inl Check_failed else Inr p)"

fun simple_News :: "nat \<Rightarrow> simple_malloc \<Rightarrow> (simple_malloc \<times> int list) result" where
  "simple_News 0 s = Inr (s, [])"
| "simple_News (Suc k) s =
     bind_result (simple_New (s_slab s) s) (\<lambda>(s', p).
       bind_result (simple_News k s') (\<lambda>(s'', ps). Inr (s'', p # ps)))"

section \<open>What \<open>New\<close> does\<close>

definition at :: "int \<Rightarrow> simple_malloc \<Rightarrow> bool" where
  "at a s \<longleftrightarrow> s_allocated s = word_of_int a \<and> 0 \<le> a \<and> 0 < s_slab s \<and> s_slab s < s_memory s \<and>
     a \<le> s_memory s \<and> s_memory s < 2 ^ 62"

lemma uint_small: "0 \<le> a \<Longrightarrow> a < 2 ^ 63 \<Longrightarrow> uint (word_of_int a :: u64) = a"
  by (simp add: uint_word_of_int take_bit_eq_mod)

lemma simple_New_step:
  assumes "at a s"
  shows "\<exists>s'. simple_New (s_slab s) s = Inr (s', if a + s_slab s < s_memory s then a else 0) \<and>
    at (if a + s_slab s < s_memory s then a + s_slab s else 0) s' \<and>
    s_slab s' = s_slab s \<and> s_memory s' = s_memory s"
proof -
  have b: "0 \<le> a" "0 < s_slab s" "s_slab s < s_memory s" "a \<le> s_memory s" "s_memory s < 2 ^ 62"
    and al: "s_allocated s = word_of_int a" using assms by (auto simp: at_def)
  have sum: "(word_of_int a + word_of_int (s_slab s) :: u64) = word_of_int (a + s_slab s)" by simp
  have r: "0 \<le> a + s_slab s" "a + s_slab s < 2 ^ 63" "0 \<le> s_memory s" "s_memory s < 2 ^ 63" "0 \<le> s_slab s" "s_slab s < 2 ^ 63"
    using b by simp_all
  note u = uint_small [OF r(1,2)] uint_small [OF r(3,4)] uint_small [OF r(5,6)]
  have le: "(word_of_int (s_memory s) :: u64) \<le> word_of_int (a + s_slab s) \<longleftrightarrow> \<not> a + s_slab s < s_memory s"
    "(word_of_int (a + s_slab s) :: u64) \<le> word_of_int (s_memory s) \<longleftrightarrow> a + s_slab s \<le> s_memory s"
    "(word_of_int (s_slab s) :: u64) \<le> word_of_int (s_memory s) \<longleftrightarrow> s_slab s \<le> s_memory s"
    unfolding word_le_def u by auto
  show ?thesis
  proof (cases "a + s_slab s < s_memory s")
    case True
    with b show ?thesis
      by (simp add: simple_New_def Let_def al sum le at_def uint_small del: of_int_add)
  next
    case False
    with b show ?thesis
      by (simp add: simple_New_def Let_def al sum le at_def uint_small del: of_int_add)
  qed
qed

lemma simple_News_first_round:
  "at a s \<Longrightarrow> a + int k * s_slab s < s_memory s \<Longrightarrow>
   \<exists>s'. simple_News k s = Inr (s', map (\<lambda>i. a + int i * s_slab s) [0..<k]) \<and> at (a + int k * s_slab s) s' \<and>
     s_slab s' = s_slab s \<and> s_memory s' = s_memory s"
proof (induction k arbitrary: a s)
  case (Suc k)
  have "0 < s_slab s" using Suc.prems(1) by (simp add: at_def)
  then have "1 * s_slab s \<le> int (Suc k) * s_slab s" by (intro mult_right_mono) auto
  then have lt: "a + s_slab s < s_memory s" using Suc.prems(2) by linarith
  from simple_New_step [OF Suc.prems(1)] lt obtain s1 where s1: "simple_New (s_slab s) s = Inr (s1, a)"
    "at (a + s_slab s) s1" "s_slab s1 = s_slab s" "s_memory s1 = s_memory s" by auto
  have "a + s_slab s + int k * s_slab s1 < s_memory s1" using Suc.prems(2) s1(3,4) by (simp add: algebra_simps)
  from Suc.IH [OF s1(2) this] obtain s' where s': "simple_News k s1 = Inr (s', map (\<lambda>i. a + s_slab s + int i * s_slab s) [0..<k])"
    "at (a + s_slab s + int k * s_slab s) s'" "s_slab s' = s_slab s" "s_memory s' = s_memory s" using s1(3,4) by auto
  have "map (\<lambda>i. a + int i * s_slab s) [0..<Suc k] = a # map (\<lambda>i. a + s_slab s + int i * s_slab s) [0..<k]"
    by (simp add: upt_conv_Cons map_Suc_upt [symmetric] algebra_simps del: upt_Suc)
  with s1(1) s' show ?case by (simp add: algebra_simps del: upt_Suc)
qed simp

lemma simple_News_append:
  "simple_News j s = Inr (s1, ps) \<Longrightarrow> simple_News k s1 = Inr (s2, qs) \<Longrightarrow> simple_News (j + k) s = Inr (s2, ps @ qs)"
proof (induction j arbitrary: s ps)
  case (Suc j)
  then show ?case by (auto simp: bind_result_Inr_iff split: prod.splits)
qed simp

text \<open>
  Over a file of \<open>memory\<close> bytes the first blocks that \<open>New\<close> returns are distinct and in order,
  beginning with the second one; then it returns the first block of the file twice in a row,
  so two callers share one block.
\<close>

theorem simple_wraps_onto_itself:
  assumes "0 < slab" "int (q + 1) * slab < memory" "memory \<le> int (q + 2) * slab" "memory < 2 ^ 62"
  shows "\<exists>s s'. simple_construct memory slab meta = Inr s \<and>
    simple_News (q + 2) s = Inr (s', map (\<lambda>i. int (i + 1) * slab) [0..<q] @ [0, 0])"
proof -
  let ?s = "\<lparr>s_allocated = 0 + word_of_int slab, s_nr_malloc = 0, s_meta = meta, s_memory = memory, s_slab = slab\<rparr>"
  have c: "simple_construct memory slab meta = Inr ?s"
    using assms(1) by (simp add: simple_construct_def simple_Initialize_def Let_def)
  have "slab \<le> int (q + 1) * slab" using assms(1) mult_right_mono [of 1 "int (q + 1)" slab] by simp
  with assms(2) have "slab < memory" by linarith
  with assms have "at slab ?s" "slab + int q * s_slab ?s < s_memory ?s" by (auto simp: at_def algebra_simps)
  from simple_News_first_round [OF this] obtain s1 where s1: "simple_News q ?s = Inr (s1, map (\<lambda>i. slab + int i * slab) [0..<q])"
    "at (slab + int q * slab) s1" "s_slab s1 = slab" "s_memory s1 = memory" by auto
  have "\<not> slab + int q * slab + slab < memory" using assms(3) by (simp add: algebra_simps)
  with simple_New_step [OF s1(2)] s1(3,4) obtain s2 where s2: "simple_New slab s1 = Inr (s2, 0)" "at 0 s2"
    "s_slab s2 = slab" "s_memory s2 = memory" by auto
  from simple_New_step [OF s2(2)] s2(3,4) obtain s3 where s3: "simple_New slab s2 = Inr (s3, 0)" by auto
  have "simple_News 2 s1 = Inr (s3, [0, 0])" using s2 s3 s1(3) by (simp add: numeral_2_eq_2)
  from simple_News_append [OF s1(1) this] c show ?thesis by (auto simp: algebra_simps)
qed

theorem simple_wraps_onto_itself_witness:
  "\<exists>s s'. simple_construct 4096 1024 (\<lambda>i. 0) = Inr s \<and> simple_News 4 s = Inr (s', [1024, 2048, 0, 0])"
  using simple_wraps_onto_itself [of 1024 2 4096 "\<lambda>i. 0"] by (simp add: upt_rec)

end
