(* ===== verification/HeapQueue.thy ===== *)
theory HeapQueue
  imports Prelude "HOL-Library.Multiset"
begin

text \<open>
  \<open>CustomPriorityQueue\<close> (\<open>base/pq.h\<close>): a binary heap in a vector with a hash map from each element
  to its position, so that the priority of an element can be changed in place. The elements are
  pointers whose priority is kept elsewhere, so \<open>compare\<close> is an argument of every operation:
  a changed priority is a changed \<open>compare\<close>. The lock is not modelled.
\<close>

section \<open>The code\<close>

record 'a heap_queue =
  hq_data :: "'a list"
  hq_index :: "'a \<Rightarrow> nat option"

definition hq_new :: "'a heap_queue" where
  "hq_new = \<lparr>hq_data = [], hq_index = Map.empty\<rparr>"

definition parent :: "nat \<Rightarrow> nat" where
  "parent i = (i - 1) div 2"

text \<open>\<open>std::swap\<close> of two entries and the two assignments to \<open>index_map_\<close> that follow it.\<close>

definition swap_entries :: "nat \<Rightarrow> nat \<Rightarrow> 'a list \<Rightarrow> 'a list" where
  "swap_entries i j d = d[i := d ! j, j := d ! i]"

definition swap_indexed :: "nat \<Rightarrow> nat \<Rightarrow> 'a heap_queue \<Rightarrow> 'a heap_queue" where
  "swap_indexed i j q =
     (let d = swap_entries i j (hq_data q) in
      q\<lparr>hq_data := d, hq_index := (hq_index q)(d ! i \<mapsto> i, d ! j \<mapsto> j)\<rparr>)"

function heapifyUp :: "('a \<Rightarrow> 'a \<Rightarrow> bool) \<Rightarrow> nat \<Rightarrow> 'a heap_queue \<Rightarrow> 'a heap_queue" where
  "heapifyUp compare index q =
     (if index > 0 \<and> compare (hq_data q ! parent index) (hq_data q ! index)
      then heapifyUp compare (parent index) (swap_indexed index (parent index) q)
      else q)"
  by pat_completeness auto
termination
  by (relation "measure (\<lambda>(c, i, q). i)") (auto simp: parent_def)

declare heapifyUp.simps [simp del]

definition largest_child :: "('a \<Rightarrow> 'a \<Rightarrow> bool) \<Rightarrow> nat \<Rightarrow> 'a list \<Rightarrow> nat" where
  "largest_child compare index d =
     (if 2 * index + 2 < length d \<and> compare (d ! (2 * index + 1)) (d ! (2 * index + 2))
      then 2 * index + 2 else 2 * index + 1)"

lemma length_swap_indexed [simp]: "length (hq_data (swap_indexed i j q)) = length (hq_data q)"
  by (simp add: swap_indexed_def swap_entries_def Let_def)

function heapifyDown :: "('a \<Rightarrow> 'a \<Rightarrow> bool) \<Rightarrow> nat \<Rightarrow> 'a heap_queue \<Rightarrow> 'a heap_queue" where
  "heapifyDown compare index q =
     (if 2 * index + 1 < length (hq_data q)
      then let c = largest_child compare index (hq_data q) in
        if compare (hq_data q ! index) (hq_data q ! c)
        then heapifyDown compare c (swap_indexed index c q)
        else q
      else q)"
  by pat_completeness auto
termination
  by (relation "measure (\<lambda>(c, i, q). length (hq_data q) - i)") (auto simp: largest_child_def)

declare heapifyDown.simps [simp del]

definition push_inner :: "('a \<Rightarrow> 'a \<Rightarrow> bool) \<Rightarrow> 'a \<Rightarrow> 'a heap_queue \<Rightarrow> 'a heap_queue" where
  "push_inner compare v q =
     heapifyUp compare (length (hq_data q))
       (q\<lparr>hq_data := hq_data q @ [v], hq_index := (hq_index q)(v \<mapsto> length (hq_data q))\<rparr>)"

definition hq_push :: "('a \<Rightarrow> 'a \<Rightarrow> bool) \<Rightarrow> 'a \<Rightarrow> 'a heap_queue \<Rightarrow> 'a heap_queue" where
  "hq_push compare v q = push_inner compare v q"

definition adjustPriority :: "('a \<Rightarrow> 'a \<Rightarrow> bool) \<Rightarrow> 'a \<Rightarrow> 'a heap_queue \<Rightarrow> 'a heap_queue result" where
  "adjustPriority compare v q =
     (case hq_index q v of
        None \<Rightarrow> Inl Log_fatal
      | Some index \<Rightarrow>
          if index > 0 \<and> compare (hq_data q ! parent index) v
          then Inr (heapifyUp compare index q)
          else Inr (heapifyDown compare index q))"

text \<open>An empty vector has no \<open>front()\<close> and no \<open>back()\<close>.\<close>

definition hq_pop :: "('a \<Rightarrow> 'a \<Rightarrow> bool) \<Rightarrow> 'a heap_queue \<Rightarrow> ('a heap_queue \<times> 'a) result" where
  "hq_pop compare q =
     (case hq_data q of
        [] \<Rightarrow> Inl Bad_access
      | ret # _ \<Rightarrow>
          let q1 = q\<lparr>hq_index := (hq_index q)(ret := None)\<rparr> in
          if length (hq_data q) = 1 then Inr (q1\<lparr>hq_data := butlast (hq_data q)\<rparr>, ret)
          else let d = swap_entries 0 (length (hq_data q) - 1) (hq_data q) in
            Inr (heapifyDown compare 0 (q1\<lparr>hq_data := butlast d, hq_index := (hq_index q1)(d ! 0 \<mapsto> 0)\<rparr>), ret))"

text \<open>\<open>index_map_[value]\<close> gives 0 for an absent value.\<close>

definition hq_pop_x :: "('a \<Rightarrow> 'a \<Rightarrow> bool) \<Rightarrow> 'a \<Rightarrow> 'a heap_queue \<Rightarrow> 'a heap_queue result" where
  "hq_pop_x compare v q =
     (let old_position = (case hq_index q v of Some i \<Rightarrow> i | None \<Rightarrow> 0);
          q1 = q\<lparr>hq_index := (hq_index q)(v := None)\<rparr>; d = hq_data q in
      if d = [] then Inl Bad_access
      else if length d = 1 \<or> old_position = length d - 1 then Inr (q1\<lparr>hq_data := butlast d\<rparr>)
      else let d' = butlast (swap_entries old_position (length d - 1) d); nv = d' ! old_position in
        adjustPriority compare nv (q1\<lparr>hq_data := d', hq_index := (hq_index q1)(nv \<mapsto> old_position)\<rparr>))"

definition PushOrUpdate :: "('a \<Rightarrow> 'a \<Rightarrow> bool) \<Rightarrow> 'a \<Rightarrow> 'a heap_queue \<Rightarrow> 'a heap_queue result" where
  "PushOrUpdate compare v q =
     (if hq_index q v = None then Inr (push_inner compare v q) else adjustPriority compare v q)"

definition hq_top :: "'a heap_queue \<Rightarrow> 'a result" where
  "hq_top q = (case hq_data q of [] \<Rightarrow> Inl Bad_access | v # _ \<Rightarrow> Inr v)"

definition hq_size :: "'a heap_queue \<Rightarrow> nat" where "hq_size q = length (hq_data q)"
definition hq_empty :: "'a heap_queue \<Rightarrow> bool" where "hq_empty q \<longleftrightarrow> hq_data q = []"

text \<open>The class's own test of its state. \<open>index_map_[x]\<close> of an absent key is 0 and would add the key.\<close>

definition CheckConsistency :: "('a \<Rightarrow> 'a \<Rightarrow> bool) \<Rightarrow> 'a heap_queue \<Rightarrow> unit result" where
  "CheckConsistency compare q =
     (let d = hq_data q in
      if length d = card (dom (hq_index q)) \<and>
         (\<forall>i \<in> set [0..<length d]. (case hq_index q (d ! i) of Some j \<Rightarrow> j | None \<Rightarrow> 0) = i) \<and>
         (\<forall>i \<in> set [0..<length d].
            (2 * i + 1 < length d \<longrightarrow> \<not> compare (d ! i) (d ! (2 * i + 1))) \<and>
            (2 * i + 2 < length d \<longrightarrow> \<not> compare (d ! i) (d ! (2 * i + 2))))
      then Inr () else Inl Check_failed)"

section \<open>The invariant\<close>

definition index_ok :: "'a heap_queue \<Rightarrow> bool" where
  "index_ok q \<longleftrightarrow> distinct (hq_data q) \<and> dom (hq_index q) = set (hq_data q) \<and>
     (\<forall>i < length (hq_data q). hq_index q (hq_data q ! i) = Some i)"

definition heap_ok :: "('a \<Rightarrow> 'a \<Rightarrow> bool) \<Rightarrow> 'a list \<Rightarrow> bool" where
  "heap_ok compare d \<longleftrightarrow> (\<forall>j < length d. 0 < j \<longrightarrow> \<not> compare (d ! parent j) (d ! j))"

definition hq_ok :: "('a \<Rightarrow> 'a \<Rightarrow> bool) \<Rightarrow> 'a heap_queue \<Rightarrow> bool" where
  "hq_ok compare q \<longleftrightarrow> index_ok q \<and> heap_ok compare (hq_data q)"

text \<open>The heap order may fail between entry \<open>i\<close> and its parent and children.\<close>

definition heap_but :: "('a \<Rightarrow> 'a \<Rightarrow> bool) \<Rightarrow> nat \<Rightarrow> 'a list \<Rightarrow> bool" where
  "heap_but compare i d \<longleftrightarrow>
     (\<forall>j < length d. 0 < j \<longrightarrow> j \<noteq> i \<longrightarrow> parent j \<noteq> i \<longrightarrow> \<not> compare (d ! parent j) (d ! j)) \<and>
     (\<forall>j < length d. 0 < i \<longrightarrow> 0 < j \<longrightarrow> parent j = i \<longrightarrow> \<not> compare (d ! parent i) (d ! j))"

lemma parent_less: "0 < i \<Longrightarrow> parent i < i"
  by (simp add: parent_def)

lemma parent_eq_iff: "0 < j \<Longrightarrow> parent j = i \<longleftrightarrow> j = 2 * i + 1 \<or> j = 2 * i + 2"
  by (auto simp: parent_def)

lemma swap_entries_nth:
  "i < length d \<Longrightarrow> j < length d \<Longrightarrow>
   swap_entries i j d ! k = (if k = i then d ! j else if k = j then d ! i else d ! k)"
  by (auto simp: swap_entries_def nth_list_update)

lemma length_swap_entries [simp]: "length (swap_entries i j d) = length d"
  by (simp add: swap_entries_def)

lemma mset_swap_entries: "i < length d \<Longrightarrow> j < length d \<Longrightarrow> mset (swap_entries i j d) = mset d"
  unfolding swap_entries_def using mset_swap [of j d i] by (cases "i = j") (auto simp: list_update_swap)

lemma swap_entries_set: "i < length d \<Longrightarrow> j < length d \<Longrightarrow> set (swap_entries i j d) = set d \<and> distinct (swap_entries i j d) = distinct d"
  using mset_swap_entries [of i d j] mset_eq_setD mset_eq_imp_distinct_iff by blast

lemma swap_indexed_ok:
  assumes "index_ok q" "i < length (hq_data q)" "j < length (hq_data q)"
  shows "index_ok (swap_indexed i j q)" "hq_data (swap_indexed i j q) = swap_entries i j (hq_data q)"
proof -
  let ?d = "hq_data q" and ?e = "swap_entries i j (hq_data q)"
  show e: "hq_data (swap_indexed i j q) = ?e" by (simp add: swap_indexed_def Let_def)
  have s: "set ?e = set ?d" "distinct ?e" using swap_entries_set [OF assms(2,3)] assms(1) by (auto simp: index_ok_def)
  have d: "distinct ?d" and ix: "\<And>k. k < length ?d \<Longrightarrow> hq_index q (?d ! k) = Some k"
    using assms(1) by (auto simp: index_ok_def)
  have "hq_index (swap_indexed i j q) (?e ! k) = Some k" if k: "k < length ?d" for k
  proof -
    have "?e ! k = ?e ! i \<longleftrightarrow> k = i" "?e ! k = ?e ! j \<longleftrightarrow> k = j"
      using s(2) k assms(2,3) by (auto simp: nth_eq_iff_index_eq)
    then show ?thesis
      using ix [OF k] swap_entries_nth [OF assms(2,3), of k] by (auto simp: swap_indexed_def Let_def)
  qed
  moreover have "dom (hq_index (swap_indexed i j q)) = set ?d"
    using assms s(1) by (auto simp: swap_indexed_def Let_def index_ok_def)
  ultimately show "index_ok (swap_indexed i j q)" using s e by (simp add: index_ok_def)
qed

section \<open>Restoring the order\<close>

text \<open>\<open>Compare\<close> is a strict weak ordering, as the standard library demands of such an argument.\<close>

locale strict_weak =
  fixes compare :: "'a \<Rightarrow> 'a \<Rightarrow> bool"
  assumes asym: "compare a b \<Longrightarrow> \<not> compare b a"
    and neg_trans: "\<not> compare a b \<Longrightarrow> \<not> compare b c \<Longrightarrow> \<not> compare a c"
begin

lemma heapifyUp_ok:
  "index_ok q \<Longrightarrow> i < length (hq_data q) \<Longrightarrow> heap_but compare i (hq_data q) \<Longrightarrow>
   \<forall>j < length (hq_data q). 0 < j \<longrightarrow> parent j = i \<longrightarrow> \<not> compare (hq_data q ! i) (hq_data q ! j) \<Longrightarrow>
   hq_ok compare (heapifyUp compare i q) \<and> mset (hq_data (heapifyUp compare i q)) = mset (hq_data q)"
proof (induction i arbitrary: q rule: less_induct)
  case (less i)
  let ?d = "hq_data q" and ?p = "parent i"
  show ?case
  proof (cases "i > 0 \<and> compare (?d ! ?p) (?d ! i)")
    case False
    then have "heapifyUp compare i q = q" by (subst heapifyUp.simps) auto
    moreover have "heap_ok compare ?d"
      using less.prems(3,4) False unfolding heap_ok_def heap_but_def by (metis gr0I)
    ultimately show ?thesis using less.prems(1) by (simp add: hq_ok_def)
  next
    case True
    then have p: "?p < i" "?p < length ?d" using parent_less less.prems(2) by (auto intro: less_trans)
    let ?q = "swap_indexed i ?p q" and ?e = "swap_entries i ?p ?d"
    note s = swap_indexed_ok [OF less.prems(1,2) p(2)]
    have n: "?e ! k = (if k = i then ?d ! ?p else if k = ?p then ?d ! i else ?d ! k)" for k
      by (rule swap_entries_nth [OF less.prems(2) p(2)])
    have B1: "\<And>j. j < length ?d \<Longrightarrow> 0 < j \<Longrightarrow> j \<noteq> i \<Longrightarrow> \<not> compare (?d ! parent j) (?d ! j)"
      using less.prems(3,4) unfolding heap_but_def by metis
    have B2: "\<And>j. j < length ?d \<Longrightarrow> 0 < j \<Longrightarrow> parent j = i \<Longrightarrow> \<not> compare (?d ! ?p) (?d ! j)"
      using less.prems(3) True unfolding heap_but_def by metis
    have up: "\<not> compare (?d ! i) (?d ! ?p)" using True asym by blast
    have e1: "\<not> compare (?e ! parent j) (?e ! j)" if j: "j < length ?d" "0 < j" "j \<noteq> ?p" for j
    proof -
      have "parent j < j" using j(2) by (rule parent_less)
      consider "j = i" | "j \<noteq> i" "parent j = i" | "j \<noteq> i" "parent j = ?p" | "j \<noteq> i" "parent j \<noteq> i" "parent j \<noteq> ?p" by blast
      then show ?thesis
      proof cases
        case 1 with up p show ?thesis by (simp add: n)
      next
        case 2 with B2 [OF j(1,2)] j(3) show ?thesis by (simp add: n)
      next
        case 3
        with B1 [OF j(1,2)] have "\<not> compare (?d ! ?p) (?d ! j)" by simp
        with up have "\<not> compare (?d ! i) (?d ! j)" by (rule neg_trans)
        with 3 j(3) p show ?thesis by (simp add: n)
      next
        case 4 with B1 [OF j(1,2)] j(3) show ?thesis by (simp add: n)
      qed
    qed
    have e2: "\<not> compare (?e ! parent ?p) (?e ! j)" if j: "j < length ?d" "0 < ?p" "0 < j" "parent j = ?p" for j
    proof -
      have pp: "parent ?p < ?p" using j(2) by (rule parent_less)
      have g: "\<not> compare (?d ! parent ?p) (?d ! ?p)" using B1 [OF p(2) j(2)] p by simp
      show ?thesis
      proof (cases "j = i")
        case True with g p pp show ?thesis by (simp add: n)
      next
        case False
        with B1 [OF j(1,3)] j(4) have "\<not> compare (?d ! ?p) (?d ! j)" by simp
        with g have "\<not> compare (?d ! parent ?p) (?d ! j)" by (rule neg_trans)
        with False p pp j(4) parent_less [OF j(3)] show ?thesis by (simp add: n)
      qed
    qed
    have e3: "\<not> compare (?e ! ?p) (?e ! j)" if "j < length ?d" "0 < j" "parent j = ?p" for j
      using e1 [OF that(1,2)] that(3) parent_less [OF that(2)] by auto
    have prems: "index_ok ?q" "?p < length (hq_data ?q)" "heap_but compare ?p (hq_data ?q)"
      "\<forall>j < length (hq_data ?q). 0 < j \<longrightarrow> parent j = ?p \<longrightarrow> \<not> compare (hq_data ?q ! ?p) (hq_data ?q ! j)"
      using s p e1 e2 e3 unfolding heap_but_def s(2) by auto
    from less.IH [OF p(1) prems] have "hq_ok compare (heapifyUp compare ?p ?q)"
      "mset (hq_data (heapifyUp compare ?p ?q)) = mset ?d"
      using mset_swap_entries [OF less.prems(2) p(2)] s(2) by simp_all
    moreover have "heapifyUp compare i q = heapifyUp compare ?p ?q" using True by (subst heapifyUp.simps) (simp only: if_True simp_thms)
    ultimately show ?thesis by simp
  qed
qed

lemma largest_child_ok:
  assumes "2 * i + 1 < length d"
  defines "c \<equiv> largest_child compare i d"
  shows "c < length d" "0 < c" "parent c = i" "i < c"
    and "\<And>j. j < length d \<Longrightarrow> 0 < j \<Longrightarrow> parent j = i \<Longrightarrow> \<not> compare (d ! c) (d ! j)"
proof -
  show "c < length d" "0 < c" "parent c = i" "i < c" using assms by (auto simp: largest_child_def parent_def)
  have refl: "\<not> compare a a" for a using asym by blast
  show "\<And>j. j < length d \<Longrightarrow> 0 < j \<Longrightarrow> parent j = i \<Longrightarrow> \<not> compare (d ! c) (d ! j)"
    unfolding c_def largest_child_def by (auto simp: parent_eq_iff refl dest: asym)
qed

lemma heapifyDown_ok:
  "index_ok q \<Longrightarrow> heap_but compare i (hq_data q) \<Longrightarrow> i < length (hq_data q) \<Longrightarrow>
   0 < i \<longrightarrow> \<not> compare (hq_data q ! parent i) (hq_data q ! i) \<Longrightarrow>
   hq_ok compare (heapifyDown compare i q) \<and> mset (hq_data (heapifyDown compare i q)) = mset (hq_data q)"
proof (induction "length (hq_data q) - i" arbitrary: i q rule: less_induct)
  case less
  let ?d = "hq_data q" and ?c = "largest_child compare i (hq_data q)"
  have B1: "\<And>j. j < length ?d \<Longrightarrow> 0 < j \<Longrightarrow> parent j \<noteq> i \<Longrightarrow> \<not> compare (?d ! parent j) (?d ! j)"
    using less.prems(2,4) unfolding heap_but_def by metis
  have B2: "\<And>j. j < length ?d \<Longrightarrow> 0 < j \<Longrightarrow> 0 < i \<Longrightarrow> parent j = i \<Longrightarrow> \<not> compare (?d ! parent i) (?d ! j)"
    using less.prems(2) unfolding heap_but_def by metis
  show ?case
  proof (cases "2 * i + 1 < length ?d")
    case False
    then have "heapifyDown compare i q = q" by (subst heapifyDown.simps) simp
    moreover have "heap_ok compare ?d"
      unfolding heap_ok_def using B1 False by (auto simp: parent_eq_iff)
    ultimately show ?thesis using less.prems(1) by (simp add: hq_ok_def)
  next
    case True
    note c = largest_child_ok [OF True]
    show ?thesis
    proof (cases "compare (?d ! i) (?d ! ?c)")
      case False
      then have "heapifyDown compare i q = q" by (subst heapifyDown.simps) (simp add: Let_def)
      moreover have "heap_ok compare ?d"
        unfolding heap_ok_def using B1 c(5) False neg_trans by metis
      ultimately show ?thesis using less.prems(1) by (simp add: hq_ok_def)
    next
      case cmp: True
      let ?q = "swap_indexed i ?c q" and ?e = "swap_entries i ?c ?d"
      note s = swap_indexed_ok [OF less.prems(1,3) c(1)]
      have n: "?e ! k = (if k = i then ?d ! ?c else if k = ?c then ?d ! i else ?d ! k)" for k
        by (rule swap_entries_nth [OF less.prems(3) c(1)])
      have dn: "\<not> compare (?d ! ?c) (?d ! i)" using cmp asym by blast
      have e1: "\<not> compare (?e ! parent j) (?e ! j)" if j: "j < length ?d" "0 < j" "parent j \<noteq> ?c" for j
      proof -
        have pj: "parent j < j" using j(2) by (rule parent_less)
        consider "j = ?c" | "j = i" | "j \<noteq> ?c" "parent j = i" | "j \<noteq> ?c" "j \<noteq> i" "parent j \<noteq> i" by blast
        then show ?thesis
        proof cases
          case 1 with dn c show ?thesis by (simp add: n)
        next
          case 2
          with B2 [OF c(1,2) _ c(3)] j c pj show ?thesis by (simp add: n)
        next
          case 3 with c(5) [OF j(1,2)] pj show ?thesis by (simp add: n)
        next
          case 4 with B1 [OF j(1,2)] j(3) show ?thesis by (simp add: n)
        qed
      qed
      have e2: "\<not> compare (?e ! parent ?c) (?e ! j)" if j: "j < length ?d" "0 < j" "parent j = ?c" for j
      proof -
        have "j \<noteq> i" "j \<noteq> ?c" using parent_less [OF j(2)] j(3) c(4) by auto
        with B1 [OF j(1,2)] j(3) c(3,4) show ?thesis by (simp add: n)
      qed
      have prems: "index_ok ?q" "heap_but compare ?c (hq_data ?q)" "?c < length (hq_data ?q)"
        "0 < ?c \<longrightarrow> \<not> compare (hq_data ?q ! parent ?c) (hq_data ?q ! ?c)"
        using s(1) c(1-3) e1 e2 e1 [OF c(1,2)] c(4) unfolding heap_but_def s(2) by auto
      have "length (hq_data ?q) - ?c < length ?d - i" using c(1,4) by simp
      from less.hyps [OF this prems] have "hq_ok compare (heapifyDown compare ?c ?q)"
        "mset (hq_data (heapifyDown compare ?c ?q)) = mset ?d"
        using mset_swap_entries [OF less.prems(3) c(1)] s(2) by simp_all
      moreover have "heapifyDown compare i q = heapifyDown compare ?c ?q"
        using True cmp by (subst heapifyDown.simps) (simp only: Let_def if_True)
      ultimately show ?thesis by simp
    qed
  qed
qed

lemma adjustPriority_ok:
  assumes "index_ok q" "heap_but compare i (hq_data q)" "i < length (hq_data q)"
  shows "\<exists>q'. adjustPriority compare (hq_data q ! i) q = Inr q' \<and> hq_ok compare q' \<and> mset (hq_data q') = mset (hq_data q)"
proof -
  let ?d = "hq_data q"
  have ix: "hq_index q (?d ! i) = Some i" using assms by (simp add: index_ok_def)
  show ?thesis
  proof (cases "0 < i \<and> compare (?d ! parent i) (?d ! i)")
    case True
    then have up: "\<not> compare (?d ! i) (?d ! parent i)" using asym by blast
    have "\<forall>j < length ?d. 0 < j \<longrightarrow> parent j = i \<longrightarrow> \<not> compare (?d ! i) (?d ! j)"
      using assms(2) True neg_trans [OF up] unfolding heap_but_def by metis
    from heapifyUp_ok [OF assms(1,3,2) this] True ix show ?thesis by (simp add: adjustPriority_def)
  next
    case False
    from heapifyDown_ok [OF assms] False ix show ?thesis by (auto simp: adjustPriority_def)
  qed
qed

text \<open>The first entry of a heap is a greatest one.\<close>

lemma heap_first_greatest:
  assumes "heap_ok compare d"
  shows "i < length d \<Longrightarrow> \<not> compare (d ! 0) (d ! i)"
proof (induction i rule: less_induct)
  case (less i)
  show ?case
  proof (cases "i = 0")
    case True
    then show ?thesis using asym by blast
  next
    case False
    then have p: "parent i < i" using parent_less by simp
    then have "\<not> compare (d ! 0) (d ! parent i)" using less by simp
    moreover have "\<not> compare (d ! parent i) (d ! i)" using assms False less.prems by (simp add: heap_ok_def)
    ultimately show ?thesis by (rule neg_trans)
  qed
qed

text \<open>The operations.\<close>

lemma index_ok_append:
  "index_ok q \<Longrightarrow> v \<notin> set (hq_data q) \<Longrightarrow>
   index_ok (q\<lparr>hq_data := hq_data q @ [v], hq_index := (hq_index q)(v \<mapsto> length (hq_data q))\<rparr>)"
  by (auto simp: index_ok_def nth_append less_Suc_eq)

lemma push_inner_ok:
  assumes "hq_ok compare q" "v \<notin> set (hq_data q)"
  shows "hq_ok compare (push_inner compare v q) \<and> mset (hq_data (push_inner compare v q)) = add_mset v (mset (hq_data q))"
proof -
  let ?d = "hq_data q @ [v]" and ?n = "length (hq_data q)"
  let ?q = "q\<lparr>hq_data := ?d, hq_index := (hq_index q)(v \<mapsto> ?n)\<rparr>"
  have "\<not> compare (?d ! parent j) (?d ! j)" if "j < length ?d" "0 < j" "j \<noteq> ?n" for j
    using assms(1) that parent_less [of j] by (auto simp: hq_ok_def heap_ok_def nth_append)
  moreover have no: "parent j \<noteq> ?n" if "j < length ?d" "0 < j" for j using parent_less [of j] that by auto
  ultimately have "heap_but compare ?n ?d" unfolding heap_but_def by blast
  then show ?thesis
    using heapifyUp_ok [of ?q ?n] index_ok_append [of q v] assms no unfolding push_inner_def by (simp add: hq_ok_def)
qed

lemma remove_last:
  assumes "index_ok q" "hq_data q \<noteq> []"
  shows "index_ok (q\<lparr>hq_data := butlast (hq_data q), hq_index := (hq_index q)(last (hq_data q) := None)\<rparr>)"
proof -
  obtain ds x where d: "hq_data q = ds @ [x]" using assms(2) by (metis append_butlast_last_id)
  have "hq_index q (ds ! i) = Some i" if "i < length ds" for i
    using assms(1) that unfolding index_ok_def d by (metis length_append less_Suc_eq nth_append length_Cons list.size(3) Suc_eq_plus1 add_0)
  moreover have "x \<noteq> ds ! i" if "i < length ds" for i using assms(1) that unfolding index_ok_def d by auto
  ultimately show ?thesis using assms(1) unfolding index_ok_def d by (auto simp: butlast_append)
qed

text \<open>Entry \<open>i\<close> is replaced by the last one: the heap may be out of order only there.\<close>

lemma replace_by_last:
  assumes ok: "hq_ok compare q" and i: "i < length (hq_data q) - 1"
  defines "d \<equiv> butlast (swap_entries i (length (hq_data q) - 1) (hq_data q))"
  defines "q' \<equiv> q\<lparr>hq_data := d, hq_index := (hq_index q)(hq_data q ! i := None, d ! i \<mapsto> i)\<rparr>"
  shows "index_ok q'" "heap_but compare i d" "i < length d" "mset d = mset (hq_data q) - {#hq_data q ! i#}"
proof -
  let ?e = "hq_data q" and ?n = "length (hq_data q) - 1"
  have idx: "index_ok q" and heap: "heap_ok compare ?e" using ok by (auto simp: hq_ok_def)
  have n: "i < length ?e" "?n < length ?e" using i by auto
  note sw = swap_indexed_ok [OF idx n]
  have ne: "?e \<noteq> []" using i by auto
  have nth: "d ! k = (if k = i then ?e ! ?n else ?e ! k)" if "k < length ?e - 1" for k
    using that swap_entries_nth [OF n, of k] by (simp add: d_def nth_butlast)
  show il: "i < length d" using i by (simp add: d_def)
  have len: "length d = length ?e - 1" by (simp add: d_def)
  have sne: "swap_entries i ?n ?e \<noteq> []" using ne by (metis length_0_conv length_swap_entries)
  moreover have "last (swap_entries i ?n ?e) = ?e ! i"
    unfolding last_conv_nth [OF sne] length_swap_entries swap_entries_nth [OF n] using i by simp
  ultimately have e: "d @ [?e ! i] = swap_entries i ?n ?e" unfolding d_def by (metis append_butlast_last_id)
  have "mset (d @ [?e ! i]) = mset ?e" unfolding e by (rule mset_swap_entries [OF n])
  then have "mset ?e = add_mset (?e ! i) (mset d)" by simp
  then show "mset d = mset ?e - {#?e ! i#}" by simp
  have s: "set (d @ [?e ! i]) = set ?e" "distinct (d @ [?e ! i])"
    unfolding e using swap_entries_set [OF n] idx by (auto simp: index_ok_def)
  have "hq_index q' (d ! k) = Some k" if k: "k < length d" for k
  proof -
    have "d ! k \<noteq> ?e ! i" using s(2) nth_mem [OF k] by auto
    moreover have "d ! k = d ! i \<longleftrightarrow> k = i" using s(2) k il by (auto simp: nth_eq_iff_index_eq)
    moreover have "k \<noteq> i \<Longrightarrow> hq_index q (?e ! k) = Some k" using idx k len by (simp add: index_ok_def)
    ultimately show ?thesis using nth [of k] k len by (auto simp: q'_def)
  qed
  moreover have "dom (hq_index q') = set d"
  proof -
    have "dom (hq_index q') = insert (d ! i) (set ?e - {?e ! i})" using idx by (auto simp: q'_def index_ok_def)
    also have "\<dots> = set d" using s il by auto
    finally show ?thesis .
  qed
  ultimately show "index_ok q'" using s(2) by (simp add: index_ok_def q'_def)
  show "heap_but compare i d"
    unfolding heap_but_def
  proof (intro conjI allI impI)
    fix j assume j: "j < length d" "0 < j" "j \<noteq> i" "parent j \<noteq> i"
    with heap parent_less [of j] len show "\<not> compare (d ! parent j) (d ! j)" by (simp add: nth heap_ok_def)
  next
    fix j assume j: "j < length d" "0 < i" "0 < j" "parent j = i"
    then have ij: "i < j" "parent i < i" using parent_less by auto
    with heap j len have "\<not> compare (?e ! parent i) (?e ! i)" "\<not> compare (?e ! i) (?e ! j)" by (auto simp: heap_ok_def)
    then have "\<not> compare (?e ! parent i) (?e ! j)" by (rule neg_trans)
    with ij j len show "\<not> compare (d ! parent i) (d ! j)" by (simp add: nth)
  qed
qed

lemma single_removed: "hq_ok compare q \<Longrightarrow> hq_data q = [v] \<Longrightarrow> hq_ok compare (q\<lparr>hq_index := (hq_index q)(v := None), hq_data := []\<rparr>)"
  by (auto simp: hq_ok_def heap_ok_def index_ok_def)

lemma hq_pop_ok:
  assumes ok: "hq_ok compare q" and ne: "hq_data q \<noteq> []"
  shows "\<exists>q' v. hq_pop compare q = Inr (q', v) \<and> v \<in> set (hq_data q) \<and> (\<forall>x \<in> set (hq_data q). \<not> compare v x) \<and>
    hq_ok compare q' \<and> mset (hq_data q') = mset (hq_data q) - {#v#}"
proof -
  let ?d = "hq_data q"
  obtain v ds where d: "hq_data q = v # ds" using ne by (cases "hq_data q") auto
  have gr: "\<forall>x \<in> set ?d. \<not> compare v x"
  proof
    fix x assume "x \<in> set ?d"
    then obtain i where "i < length ?d" "?d ! i = x" by (auto simp: in_set_conv_nth)
    with heap_first_greatest [of ?d i] ok show "\<not> compare v x" by (simp add: hq_ok_def d)
  qed
  have mem: "v \<in> set ?d" using d by simp
  show ?thesis
  proof (cases "ds = []")
    case True
    with d have d1: "?d = [v]" by simp
    then have "hq_pop compare q = Inr (q\<lparr>hq_index := (hq_index q)(v := None), hq_data := []\<rparr>, v)"
      by (simp add: hq_pop_def)
    with single_removed [OF ok d1] gr mem d1 show ?thesis by auto
  next
    case False
    then have n: "0 < length ?d - 1" "length ?d \<noteq> 1" using d by auto
    note r = replace_by_last [OF ok n(1)]
    let ?e = "butlast (swap_entries 0 (length ?d - 1) ?d)"
    let ?q = "q\<lparr>hq_data := ?e, hq_index := (hq_index q)(?d ! 0 := None, ?e ! 0 \<mapsto> 0)\<rparr>"
    have "?e ! 0 = swap_entries 0 (length ?d - 1) ?d ! 0" using r(3) by (simp add: nth_butlast)
    then have "hq_pop compare q = Inr (heapifyDown compare 0 ?q, v)"
      using n(2) d by (simp add: hq_pop_def Let_def)
    moreover have "hq_ok compare (heapifyDown compare 0 ?q) \<and> mset (hq_data (heapifyDown compare 0 ?q)) = mset ?e"
      using heapifyDown_ok [of ?q 0] r(1,2,3) by simp
    ultimately show ?thesis using gr mem r(4) d by auto
  qed
qed

lemma hq_pop_x_ok:
  assumes ok: "hq_ok compare q" and v: "v \<in> set (hq_data q)"
  shows "\<exists>q'. hq_pop_x compare v q = Inr q' \<and> hq_ok compare q' \<and> mset (hq_data q') = mset (hq_data q) - {#v#}"
proof -
  let ?d = "hq_data q"
  obtain i where i: "i < length ?d" "?d ! i = v" using v by (auto simp: in_set_conv_nth)
  have ix: "hq_index q v = Some i" using ok i by (auto simp: hq_ok_def index_ok_def)
  have ne: "?d \<noteq> []" using v by auto
  show ?thesis
  proof (cases "i = length ?d - 1")
    case True
    then have l: "last ?d = v" using i ne by (simp add: last_conv_nth)
    have "hq_pop_x compare v q = Inr (q\<lparr>hq_index := (hq_index q)(v := None), hq_data := butlast ?d\<rparr>)"
      using ix True ne by (simp add: hq_pop_x_def Let_def)
    moreover have "index_ok (q\<lparr>hq_index := (hq_index q)(v := None), hq_data := butlast ?d\<rparr>)"
      using remove_last [of q] ok ne l by (simp add: hq_ok_def index_ok_def)
    moreover have "heap_ok compare (butlast ?d)"
    proof -
      have "\<not> compare (butlast ?d ! parent j) (butlast ?d ! j)" if "j < length (butlast ?d)" "0 < j" for j
        using ok that parent_less [OF that(2)] by (simp add: hq_ok_def heap_ok_def nth_butlast)
      then show ?thesis by (simp add: heap_ok_def)
    qed
    moreover have "mset (butlast ?d) = mset ?d - {#v#}" 
    proof -
      have "mset (butlast ?d @ [last ?d]) = mset ?d" using ne by simp
      then have "add_mset v (mset (butlast ?d)) = mset ?d" using l by simp
      then show ?thesis by (metis add_mset_remove_trivial)
    qed
    ultimately show ?thesis by (simp add: hq_ok_def)
  next
    case False
    then have n: "i < length ?d - 1" "length ?d \<noteq> 1" using i by auto
    note r = replace_by_last [OF ok n(1)]
    let ?e = "butlast (swap_entries i (length ?d - 1) ?d)"
    let ?q = "q\<lparr>hq_data := ?e, hq_index := (hq_index q)(?d ! i := None, ?e ! i \<mapsto> i)\<rparr>"
    have "hq_pop_x compare v q = adjustPriority compare (?e ! i) ?q"
      using ix False ne n(2) i(2) by (simp add: hq_pop_x_def Let_def)
    moreover from adjustPriority_ok [of ?q i] r obtain q' where
      "adjustPriority compare (?e ! i) ?q = Inr q'" "hq_ok compare q'" "mset (hq_data q') = mset ?e" by auto
    ultimately show ?thesis using r(4) i(2) by auto
  qed
qed

end

lemma CheckConsistency_ok: "hq_ok compare q \<Longrightarrow> CheckConsistency compare q = Inr ()"
proof -
  assume ok: "hq_ok compare q"
  then have "length (hq_data q) = card (dom (hq_index q))" by (simp add: hq_ok_def index_ok_def distinct_card)
  moreover have "\<forall>i \<in> set [0..<length (hq_data q)]. (case hq_index q (hq_data q ! i) of Some j \<Rightarrow> j | None \<Rightarrow> 0) = i"
    using ok by (simp add: hq_ok_def index_ok_def)
  moreover have "\<not> compare (hq_data q ! i) (hq_data q ! j)" if "j = 2 * i + 1 \<or> j = 2 * i + 2" "j < length (hq_data q)" for i j
  proof -
    have "0 < j" "parent j = i" using that(1) by (auto simp: parent_def)
    then show ?thesis using ok that(2) by (auto simp: hq_ok_def heap_ok_def)
  qed
  ultimately show ?thesis unfolding CheckConsistency_def Let_def by simp
qed

section \<open>Priorities kept outside the queue\<close>

text \<open>The order by a priority, as in the sources' comparison functors over element pointers.\<close>

definition by_priority :: "('a \<Rightarrow> 'p::linorder) \<Rightarrow> 'a \<Rightarrow> 'a \<Rightarrow> bool" where
  "by_priority prio a b \<longleftrightarrow> prio a < prio b"

interpretation priority: strict_weak "by_priority prio"
  by unfold_locales (auto simp: by_priority_def)

lemma changed_priority:
  assumes ok: "hq_ok (by_priority prio) q" and i: "i < length (hq_data q)"
    and other: "\<forall>x \<in> set (hq_data q). x \<noteq> hq_data q ! i \<longrightarrow> prio' x = prio x"
  shows "heap_but (by_priority prio') i (hq_data q)"
proof -
  let ?d = "hq_data q"
  have heap: "heap_ok (by_priority prio) ?d" and dist: "distinct ?d" using ok by (auto simp: hq_ok_def index_ok_def)
  have same: "prio' (?d ! j) = prio (?d ! j)" if "j < length ?d" "j \<noteq> i" for j
    using other that i dist by (simp add: nth_eq_iff_index_eq)
  show ?thesis
    unfolding heap_but_def
  proof (intro conjI allI impI)
    fix j assume j: "j < length ?d" "0 < j" "j \<noteq> i" "parent j \<noteq> i"
    with heap parent_less [of j] show "\<not> by_priority prio' (?d ! parent j) (?d ! j)"
      by (simp add: heap_ok_def by_priority_def same)
  next
    fix j assume j: "j < length ?d" "0 < i" "0 < j" "parent j = i"
    then have ij: "i < j" "parent i < i" using parent_less by auto
    with heap j i have "\<not> by_priority prio (?d ! parent i) (?d ! i)" "\<not> by_priority prio (?d ! i) (?d ! j)"
      by (auto simp: heap_ok_def)
    then have "\<not> by_priority prio (?d ! parent i) (?d ! j)" by (rule priority.neg_trans)
    with ij j i show "\<not> by_priority prio' (?d ! parent i) (?d ! j)" by (simp add: by_priority_def same)
  qed
qed

text \<open>
  C24: \<open>pop\<close> of a non-empty queue removes an element of greatest priority and nothing else, keeps
  the heap and its position map, and the class's own consistency check then passes; \<open>push\<close> of a
  new element adds exactly it.
\<close>

theorem heap_queue_push_pop:
  assumes "hq_ok (by_priority prio) q" "hq_data q \<noteq> []" "v \<notin> set (hq_data q)"
  shows "(\<exists>q' x. hq_pop (by_priority prio) q = Inr (q', x) \<and> x \<in> set (hq_data q) \<and>
      (\<forall>y \<in> set (hq_data q). prio y \<le> prio x) \<and> hq_ok (by_priority prio) q' \<and>
      CheckConsistency (by_priority prio) q' = Inr () \<and> mset (hq_data q') = mset (hq_data q) - {#x#}) \<and>
    hq_ok (by_priority prio) (hq_push (by_priority prio) v q) \<and>
    mset (hq_data (hq_push (by_priority prio) v q)) = add_mset v (mset (hq_data q))"
proof -
  from priority.hq_pop_ok [OF assms(1,2)] obtain q' x where "hq_pop (by_priority prio) q = Inr (q', x)"
    "x \<in> set (hq_data q)" "\<forall>y \<in> set (hq_data q). \<not> by_priority prio x y" "hq_ok (by_priority prio) q'"
    "mset (hq_data q') = mset (hq_data q) - {#x#}" by blast
  with CheckConsistency_ok [of "by_priority prio" q'] priority.push_inner_ok [OF assms(1,3)] show ?thesis
    by (auto simp: hq_push_def by_priority_def not_less)
qed

text \<open>
  After the priority of one element has changed, \<open>PushOrUpdate\<close> of that element restores the
  heap order for the new priorities and keeps the elements; for an element that is not in the
  queue it adds it.
\<close>

theorem heap_queue_update:
  assumes "hq_ok (by_priority prio) q" "\<forall>x \<in> set (hq_data q). x \<noteq> v \<longrightarrow> prio' x = prio x"
  shows "\<exists>q'. PushOrUpdate (by_priority prio') v q = Inr q' \<and> hq_ok (by_priority prio') q' \<and>
    set (hq_data q') = insert v (set (hq_data q)) \<and> CheckConsistency (by_priority prio') q' = Inr ()"
proof (cases "v \<in> set (hq_data q)")
  case True
  then obtain i where i: "i < length (hq_data q)" "hq_data q ! i = v" by (auto simp: in_set_conv_nth)
  have ix: "index_ok q" "hq_index q v \<noteq> None" using assms(1) i by (auto simp: hq_ok_def index_ok_def)
  have "heap_but (by_priority prio') i (hq_data q)" using assms i by (intro changed_priority) auto
  from priority.adjustPriority_ok [OF ix(1) this i(1)] obtain q' where q': "adjustPriority (by_priority prio') v q = Inr q'"
    "hq_ok (by_priority prio') q'" "mset (hq_data q') = mset (hq_data q)" using i(2) by auto
  have "set (hq_data q') = insert v (set (hq_data q))" using True mset_eq_setD [OF q'(3)] by (simp add: insert_absorb)
  moreover have "PushOrUpdate (by_priority prio') v q = Inr q'" using q'(1) ix(2) unfolding PushOrUpdate_def by (simp only: if_False)
  ultimately show ?thesis using q'(2) CheckConsistency_ok [OF q'(2)] by blast
next
  case False
  have "heap_ok (by_priority prio') (hq_data q)"
  proof -
    have "prio' (hq_data q ! j) = prio (hq_data q ! j)" if "j < length (hq_data q)" for j using assms(2) False that by (metis nth_mem)
    moreover have "parent j < length (hq_data q)" if "j < length (hq_data q)" "0 < j" for j
      using parent_less [of j] that by (metis less_trans)
    ultimately show ?thesis using assms(1) by (auto simp: hq_ok_def heap_ok_def by_priority_def)
  qed
  then have ok: "hq_ok (by_priority prio') q" using assms(1) by (simp add: hq_ok_def)
  have "hq_index q v = None" using ok False by (auto simp: hq_ok_def index_ok_def)
  moreover note p = priority.push_inner_ok [OF ok False]
  moreover have "set (hq_data (push_inner (by_priority prio') v q)) = insert v (set (hq_data q))"
    using p by (metis set_mset_add_mset_insert set_mset_mset)
  ultimately show ?thesis using CheckConsistency_ok [of "by_priority prio'"] by (simp add: PushOrUpdate_def)
qed

section \<open>Removing an absent element\<close>

lemma dom_swap_indexed: "dom (hq_index q) \<subseteq> dom (hq_index (swap_indexed i j q))"
  by (auto simp: swap_indexed_def Let_def)

lemma heapifyDown_dom:
  "dom (hq_index q) \<subseteq> dom (hq_index (heapifyDown compare i q)) \<and>
   length (hq_data (heapifyDown compare i q)) = length (hq_data q)"
proof (induction compare i q rule: heapifyDown.induct)
  case (1 compare i q)
  show ?case
  proof (cases "2 * i + 1 < length (hq_data q) \<and> compare (hq_data q ! i) (hq_data q ! largest_child compare i (hq_data q))")
    case True
    then have "heapifyDown compare i q = heapifyDown compare (largest_child compare i (hq_data q))
        (swap_indexed i (largest_child compare i (hq_data q)) q)"
      by (subst heapifyDown.simps) (simp only: Let_def if_True simp_thms)
    with 1 [of "largest_child compare i (hq_data q)"] True dom_swap_indexed show ?thesis by fastforce
  next
    case False
    then have "heapifyDown compare i q = q" by (subst heapifyDown.simps) (auto simp: Let_def)
    then show ?thesis by simp
  qed
qed

lemma heapifyDown_mset: "mset (hq_data (heapifyDown compare i q)) = mset (hq_data q)"
proof (induction compare i q rule: heapifyDown.induct)
  case (1 compare i q)
  let ?c = "largest_child compare i (hq_data q)"
  show ?case
  proof (cases "2 * i + 1 < length (hq_data q) \<and> compare (hq_data q ! i) (hq_data q ! ?c)")
    case True
    then have "i < length (hq_data q)" "?c < length (hq_data q)" by (auto simp: largest_child_def)
    from mset_swap_entries [OF this] have "mset (hq_data (swap_indexed i ?c q)) = mset (hq_data q)"
      by (simp add: swap_indexed_def Let_def)
    moreover have "heapifyDown compare i q = heapifyDown compare ?c (swap_indexed i ?c q)"
      using True by (subst heapifyDown.simps) (simp only: Let_def if_True simp_thms)
    ultimately show ?thesis using 1 [of ?c] True by simp
  next
    case False
    then have "heapifyDown compare i q = q" by (subst heapifyDown.simps) (auto simp: Let_def)
    then show ?thesis by simp
  qed
qed

lemma remove_first_mset:
  assumes "2 \<le> length d"
  shows "mset (butlast (swap_entries 0 (length d - 1) d)) = mset d - {#hd d#}"
proof -
  let ?e = "swap_entries 0 (length d - 1) d"
  have n: "0 < length d" "length d - 1 < length d" using assms by auto
  have ne: "?e \<noteq> []" using n by (metis length_greater_0_conv length_swap_entries)
  have "last ?e = d ! 0"
    unfolding last_conv_nth [OF ne] length_swap_entries swap_entries_nth [OF n] using assms by simp
  then have l: "last ?e = hd d" using n by (simp add: hd_conv_nth)
  have "mset (butlast ?e @ [last ?e]) = mset ?e" using ne by simp
  then have "add_mset (hd d) (mset (butlast ?e)) = mset d" using l mset_swap_entries [OF n] by simp
  then show ?thesis by (metis add_mset_remove_trivial)
qed

text \<open>
  \<open>pop_x\<close> of an element that is not in a queue of two or more removes another element, the one
  on top, and leaves the position map inconsistent: the class's own check fails.
\<close>

theorem heap_queue_pop_x_absent:
  assumes ok: "hq_ok compare q" and v: "v \<notin> set (hq_data q)" and n: "2 \<le> length (hq_data q)"
  shows "\<exists>q'. hq_pop_x compare v q = Inr q' \<and> mset (hq_data q') = mset (hq_data q) - {#hd (hq_data q)#} \<and>
    CheckConsistency compare q' = Inl Check_failed"
proof -
  let ?d = "hq_data q"
  have idx: "index_ok q" using ok by (simp add: hq_ok_def)
  have nv: "hq_index q v = None" "?d \<noteq> []" "length ?d \<noteq> 1" "0 \<noteq> length ?d - 1"
    using idx v n by (auto simp: index_ok_def)
  let ?e = "butlast (swap_entries 0 (length ?d - 1) ?d)"
  let ?q = "q\<lparr>hq_data := ?e, hq_index := (hq_index q)(?e ! 0 \<mapsto> 0)\<rparr>"
  let ?r = "heapifyDown compare 0 ?q"
  have noop: "(hq_index q)(v := None) = hq_index q" using nv(1) by (auto simp: fun_eq_iff)
  have "hq_pop_x compare v q = adjustPriority compare (?e ! 0) ?q"
    using nv by (simp add: hq_pop_x_def Let_def noop)
  also have "\<dots> = Inr ?r" by (simp add: adjustPriority_def)
  finally have r: "hq_pop_x compare v q = Inr ?r" .
  have l: "length (hq_data ?r) = length ?d - 1" using heapifyDown_dom [of ?q compare 0] by simp
  have "set ?d \<subseteq> dom (hq_index ?q)" using idx by (auto simp: index_ok_def)
  then have "set ?d \<subseteq> dom (hq_index ?r)" using heapifyDown_dom [of ?q compare 0] by blast
  then have "finite (dom (hq_index ?r)) \<Longrightarrow> length ?d \<le> card (dom (hq_index ?r))"
    using card_mono [of "dom (hq_index ?r)" "set ?d"] idx by (simp add: index_ok_def distinct_card)
  then have "length (hq_data ?r) \<noteq> card (dom (hq_index ?r))" using l n by (cases "finite (dom (hq_index ?r))") auto
  then have "CheckConsistency compare ?r = Inl Check_failed" by (auto simp: CheckConsistency_def Let_def)
  moreover have "mset (hq_data ?r) = mset ?d - {#hd ?d#}" using remove_first_mset [OF n] by (simp add: heapifyDown_mset)
  ultimately show ?thesis using r by blast
qed

definition demo_heap :: "nat heap_queue" where
  "demo_heap = \<lparr>hq_data = [9, 4, 7], hq_index = [9 \<mapsto> 0, 4 \<mapsto> 1, 7 \<mapsto> 2]\<rparr>"

lemma demo_heap_ok: "hq_ok (by_priority id) demo_heap"
  unfolding hq_ok_def index_ok_def heap_ok_def demo_heap_def
  by (auto simp: less_Suc_eq numeral_3_eq_3 parent_def by_priority_def numeral_2_eq_2)

theorem heap_queue_push_pop_witness:
  "\<exists>q' x. hq_pop (by_priority id) demo_heap = Inr (q', x) \<and> x \<in> {9, 4, 7} \<and> mset (hq_data q') = mset [9, 4, 7] - {#x#}"
  using heap_queue_push_pop [OF demo_heap_ok, of 5] by (auto simp: demo_heap_def)

theorem heap_queue_update_witness:
  "\<exists>q'. PushOrUpdate (by_priority (id(4 := 100))) 4 demo_heap = Inr q' \<and> set (hq_data q') = {4, 7, 9}"
  using heap_queue_update [OF demo_heap_ok, of 4 "id(4 := 100)"] by (auto simp: demo_heap_def)

theorem heap_queue_pop_x_absent_witness:
  "\<exists>q'. hq_pop_x (by_priority id) 5 demo_heap = Inr q' \<and> mset (hq_data q') = {#4, 7#} \<and>
    CheckConsistency (by_priority id) q' = Inl Check_failed"
  using heap_queue_pop_x_absent [OF demo_heap_ok, of 5] by (simp add: demo_heap_def)

end
