(* ===== verification/HashFunctions.thy ===== *)
theory HashFunctions
  imports Prelude
begin

unbundle bit_operations_syntax

text \<open>
  The hash functions of \<open>storage/ssd/hash.h\<close> over the bytes of a key. \<open>standard\<close> is the C++
  library's \<open>std::_Hash_bytes\<close> and stays a parameter; \<open>char\<close> is signed, as on the target machines.
\<close>

section \<open>The code\<close>

definition sbyte :: "u8 \<Rightarrow> u64" where
  "sbyte b = scast b"

fun jenkins_loop :: "u8 list \<Rightarrow> u64 \<Rightarrow> u64" where
  "jenkins_loop [] hash = hash"
| "jenkins_loop (b # bs) hash =
     (let h1 = hash + sbyte b; h2 = h1 + push_bit 10 h1 in jenkins_loop bs (h2 XOR drop_bit 6 h2))"

definition jenkins :: "u8 list \<Rightarrow> u64 \<Rightarrow> u64" where
  "jenkins data seed =
     (let h1 = jenkins_loop data 0; h2 = h1 + push_bit 3 h1; h3 = h2 XOR drop_bit 11 h2 in h3 + push_bit 15 h3)"

definition murmur_m :: u32 where "murmur_m = 0x5bd1e995"

text \<open>The loop over four bytes at a time, then the last three bytes with their fall-through cases.\<close>

definition murmur_mix :: "u32 \<Rightarrow> u32 \<Rightarrow> u32" where
  "murmur_mix h k = (let k1 = k * murmur_m; k2 = k1 XOR drop_bit 24 k1; k3 = k2 * murmur_m in (h * murmur_m) XOR k3)"

fun murmur_tail :: "u8 list \<Rightarrow> u32 \<Rightarrow> u32" where
  "murmur_tail [a, b, c] h = (((h XOR push_bit 16 (ucast c)) XOR push_bit 8 (ucast b)) XOR ucast a) * murmur_m"
| "murmur_tail [a, b] h = ((h XOR push_bit 8 (ucast b)) XOR ucast a) * murmur_m"
| "murmur_tail [a] h = (h XOR ucast a) * murmur_m"
| "murmur_tail _ h = h"

fun murmur_loop :: "u8 list \<Rightarrow> u32 \<Rightarrow> u32" where
  "murmur_loop (a # b # c # d # data) h = murmur_loop data (murmur_mix h (ucast (le_word [a, b, c, d])))"
| "murmur_loop data h = murmur_tail data h"

definition murmur2 :: "u8 list \<Rightarrow> u64 \<Rightarrow> u64" where
  "murmur2 data seed =
     (let h0 = ucast (seed XOR of_nat (length data)) :: u32;
          h1 = murmur_loop data h0;
          h2 = h1 XOR drop_bit 13 h1; h3 = h2 * murmur_m; h4 = h3 XOR drop_bit 15 h3 in ucast h4)"

definition NUMBER64_1 :: u64 where "NUMBER64_1 = 11400714785074694791"
definition NUMBER64_2 :: u64 where "NUMBER64_2 = 14029467366897019727"
definition NUMBER64_3 :: u64 where "NUMBER64_3 = 1609587929392839161"
definition NUMBER64_4 :: u64 where "NUMBER64_4 = 9650029242287828579"
definition NUMBER64_5 :: u64 where "NUMBER64_5 = 2870177450012600261"

definition shifting_hash :: "u64 \<Rightarrow> nat \<Rightarrow> u64" where
  "shifting_hash x r = push_bit r x OR drop_bit (64 - r) x"

text \<open>\<open>hash_read64_align\<close> and \<open>hash_read32_align\<close> read the same bytes whatever \<open>align\<close> is.\<close>

definition hash_read64 :: "u8 list \<Rightarrow> u64" where
  "hash_read64 p = le_word (take 8 p)"

definition hash_read32 :: "u8 list \<Rightarrow> u32" where
  "hash_read32 p = ucast (le_word (take 4 p))"

definition stripe_lane :: "u64 \<Rightarrow> u8 list \<Rightarrow> u64" where
  "stripe_lane v p = shifting_hash (v + hash_read64 p * NUMBER64_2) 31 * NUMBER64_1"

fun stripes :: "u64 \<times> u64 \<times> u64 \<times> u64 \<Rightarrow> u8 list \<Rightarrow> (u64 \<times> u64 \<times> u64 \<times> u64) \<times> u8 list" where
  "stripes (v1, v2, v3, v4) p =
     (let vs = (stripe_lane v1 p, stripe_lane v2 (drop 8 p), stripe_lane v3 (drop 16 p), stripe_lane v4 (drop 24 p)) in
      if 64 \<le> length p then stripes vs (drop 32 p) else (vs, drop 32 p))"

declare stripes.simps [simp del]

definition merge_lane :: "u64 \<Rightarrow> u64 \<Rightarrow> u64" where
  "merge_lane hash v = (hash XOR shifting_hash (v * NUMBER64_2) 31 * NUMBER64_1) * NUMBER64_1 + NUMBER64_4"

definition long_hash :: "u64 \<Rightarrow> u8 list \<Rightarrow> u64 \<times> u8 list" where
  "long_hash seed p =
     (case stripes (seed + NUMBER64_1 + NUMBER64_2, seed + NUMBER64_2, seed, seed - NUMBER64_1) p of
        ((v1, v2, v3, v4), rest) \<Rightarrow>
          (merge_lane (merge_lane (merge_lane (merge_lane
             (shifting_hash v1 1 + shifting_hash v2 7 + shifting_hash v3 12 + shifting_hash v4 18) v1) v2) v3) v4, rest))"

definition mix8 :: "u64 \<Rightarrow> u64 \<Rightarrow> u64" where
  "mix8 hash k = shifting_hash (hash XOR shifting_hash (k * NUMBER64_2) 31 * NUMBER64_1) 27 * NUMBER64_1 + NUMBER64_4"

fun eights :: "u64 \<Rightarrow> u8 list \<Rightarrow> u64 \<times> u8 list" where
  "eights hash p = (if 8 \<le> length p then eights (mix8 hash (hash_read64 p)) (drop 8 p) else (hash, p))"

declare eights.simps [simp del]

definition fours :: "u64 \<Rightarrow> u8 list \<Rightarrow> u64 \<times> u8 list" where
  "fours hash p =
     (if 4 \<le> length p
      then (shifting_hash (hash XOR ucast (hash_read32 p) * NUMBER64_1) 23 * NUMBER64_2 + NUMBER64_3, drop 4 p)
      else (hash, p))"

fun ones :: "u64 \<Rightarrow> u8 list \<Rightarrow> u64" where
  "ones hash [] = hash"
| "ones hash (b # bs) = ones (shifting_hash (hash XOR ucast b * NUMBER64_5) 11 * NUMBER64_1) bs"

definition avalanche :: "u64 \<Rightarrow> u64" where
  "avalanche hash =
     (let h1 = (hash XOR drop_bit 33 hash) * NUMBER64_2; h2 = (h1 XOR drop_bit 29 h1) * NUMBER64_3 in h2 XOR drop_bit 32 h2)"

definition hash_compute :: "u8 list \<Rightarrow> u64 \<Rightarrow> u64" where
  "hash_compute input seed =
     (case (if 32 \<le> length input then long_hash seed input else (seed + NUMBER64_5, input)) of (h0, p0) \<Rightarrow>
        case eights (h0 + of_nat (length input)) p0 of (h1, p1) \<Rightarrow>
          case fours h1 p1 of (h2, p2) \<Rightarrow> avalanche (ones h2 p2))"

definition xxhash :: "u8 list \<Rightarrow> u64 \<Rightarrow> u64" where
  "xxhash data seed = hash_compute data seed"

text \<open>The table of hash functions; the index uses entries 0 and 2 with one seed.\<close>

definition hash_funcs :: "(u8 list \<Rightarrow> u64 \<Rightarrow> u64) \<Rightarrow> (u8 list \<Rightarrow> u64 \<Rightarrow> u64) list" where
  "hash_funcs standard = [standard, murmur2, jenkins, xxhash]"

section \<open>Reversible steps\<close>

lemma odd_mult_cancel:
  assumes "(c :: u64) * d = 1" "a * c = b * c"
  shows "a = b"
proof -
  have "a * (c * d) = b * (c * d)" using assms(2) by (metis mult.assoc)
  then show ?thesis by (simp add: assms(1))
qed

lemma number_inverses:
  "NUMBER64_1 * 614540362697595703 = 1" "NUMBER64_2 * 839798700976720815 = 1" "NUMBER64_3 * 16855272203555305545 = 1"
  by (simp_all add: NUMBER64_1_def NUMBER64_2_def NUMBER64_3_def)

lemma bit_shifting_hash:
  assumes "0 < r" "r < 64"
  shows "bit (shifting_hash x r) n \<longleftrightarrow> n < 64 \<and> bit x ((n + (64 - r)) mod 64)"
proof (cases "n < 64")
  case True
  show ?thesis
  proof (cases "r \<le> n")
    case True
    then have "(n + (64 - r)) mod 64 = n - r" using assms \<open>n < 64\<close> by (simp add: mod_if)
    then show ?thesis
      using True \<open>n < 64\<close> assms by (auto simp: shifting_hash_def bit_simps dest: bit_imp_le_length)
  next
    case False
    then have "(n + (64 - r)) mod 64 = n + (64 - r)" using assms \<open>n < 64\<close> by (simp add: mod_if)
    then show ?thesis
      using False \<open>n < 64\<close> assms by (auto simp: shifting_hash_def bit_simps add.commute)
  qed
qed (auto dest: bit_imp_le_length)

lemma shifting_hash_inj:
  assumes "0 < r" "r < 64" "shifting_hash x r = shifting_hash y r"
  shows "x = y"
proof (rule bit_word_eqI)
  fix n assume n: "n < LENGTH(64)"
  let ?m = "(n + r) mod 64"
  have "?m < 64" by simp
  moreover have "(?m + (64 - r)) mod 64 = n" using assms(1,2) n by (cases "n + r < 64") (auto simp: mod_if)
  ultimately have "?m < 64" "(?m + (64 - r)) mod 64 = n" .
  then show "bit x n = bit y n" using assms bit_shifting_hash [OF assms(1,2), of _ ?m] by metis
qed

lemma xorshift_inj:
  assumes "22 \<le> r" "x XOR drop_bit r x = y XOR drop_bit r (y :: u64)"
  shows "x = y"
proof -
  have "drop_bit r (drop_bit r (drop_bit r (w :: u64))) = 0" for w
    using assms(1) by (intro bit_word_eqI) (auto simp: bit_simps dest: bit_imp_le_length)
  then have "w = (w XOR drop_bit r w) XOR drop_bit r (w XOR drop_bit r w) XOR drop_bit r (drop_bit r (w XOR drop_bit r w))" for w :: u64
    by (simp add: drop_bit_xor xor.assoc xor.left_commute)
  then show ?thesis using assms(2) by metis
qed

lemma xor_cancel: "h XOR a = h XOR b \<Longrightarrow> a = (b :: u64)"
  by (auto simp: bit_eq_iff bit_xor_iff)

lemma mix8_inj:
  assumes "mix8 h a = mix8 h b"
  shows "a = b"
proof -
  have "shifting_hash (h XOR shifting_hash (a * NUMBER64_2) 31 * NUMBER64_1) 27 =
      shifting_hash (h XOR shifting_hash (b * NUMBER64_2) 31 * NUMBER64_1) 27"
    using assms by (simp add: mix8_def odd_mult_cancel [OF number_inverses(1)])
  then have "h XOR shifting_hash (a * NUMBER64_2) 31 * NUMBER64_1 = h XOR shifting_hash (b * NUMBER64_2) 31 * NUMBER64_1"
    by (rule shifting_hash_inj [where r = 27, rotated 2]) simp_all
  then have "shifting_hash (a * NUMBER64_2) 31 * NUMBER64_1 = shifting_hash (b * NUMBER64_2) 31 * NUMBER64_1"
    by (rule xor_cancel)
  then have "shifting_hash (a * NUMBER64_2) 31 = shifting_hash (b * NUMBER64_2) 31" by (rule odd_mult_cancel [OF number_inverses(1)])
  then have "a * NUMBER64_2 = b * NUMBER64_2" by (rule shifting_hash_inj [where r = 31, rotated 2]) simp_all
  then show ?thesis by (rule odd_mult_cancel [OF number_inverses(2)])
qed

lemma avalanche_inj:
  assumes "avalanche a = avalanche b"
  shows "a = b"
proof -
  let ?p = "\<lambda>x. (x XOR drop_bit 33 x) * NUMBER64_2" and ?q = "\<lambda>x. (x XOR drop_bit 29 x) * NUMBER64_3"
  have "?q (?p a) = ?q (?p b)" using assms unfolding avalanche_def Let_def by (rule xorshift_inj [where r = 32, rotated]) simp
  then have "?p a XOR drop_bit 29 (?p a) = ?p b XOR drop_bit 29 (?p b)" by (rule odd_mult_cancel [OF number_inverses(3)])
  then have "?p a = ?p b" by (rule xorshift_inj [where r = 29, rotated]) simp
  then have "a XOR drop_bit 33 a = b XOR drop_bit 33 b" by (rule odd_mult_cancel [OF number_inverses(2)])
  then show ?thesis by (rule xorshift_inj [where r = 33, rotated]) simp
qed

lemma le_word_inj:
  assumes "length xs = 8" "length ys = 8" "le_word xs = le_word ys"
  shows "xs = ys"
proof (rule nth_equalityI)
  fix i assume i: "i < length xs"
  show "xs ! i = ys ! i"
  proof (rule bit_word_eqI)
    fix n assume n: "n < LENGTH(8)"
    have "bit (le_word xs) (8 * i + n) = bit (le_word ys) (8 * i + n)" using assms(3) by simp
    moreover have "8 * i + n < 64" "(8 * i + n) div 8 = i" "(8 * i + n) mod 8 = n" using i n assms(1) by simp_all
    ultimately show "bit (xs ! i) n = bit (ys ! i) n" using i assms(1,2) by (simp add: bit_le_word)
  qed
qed (simp add: assms)

lemma hash_compute_8:
  assumes "length xs = 8"
  shows "hash_compute xs seed = avalanche (mix8 (seed + NUMBER64_5 + 8) (le_word xs))"
proof -
  have "eights h xs = (mix8 h (le_word xs), [])" for h
    using assms by (subst eights.simps) (simp add: eights.simps [of _ "[]"] hash_read64_def)
  then show ?thesis using assms by (simp add: hash_compute_def fours_def)
qed

section \<open>Properties\<close>

text \<open>
  On keys of eight bytes, the keys of all indexes here, \<open>xxhash\<close> has no collisions under any
  seed: every step of \<open>hash_compute\<close> for this length can be undone.
\<close>

theorem xxhash_injective:
  assumes "length xs = 8" "length ys = 8"
  shows "xxhash xs seed = xxhash ys seed \<longleftrightarrow> xs = ys"
  using avalanche_inj mix8_inj le_word_inj [OF assms] unfolding xxhash_def hash_compute_8 [OF assms(1)] hash_compute_8 [OF assms(2)]
  by metis

text \<open>
  \<open>murmur2\<close> computes in 32 bits although its result type has 64: the upper half of every result
  is zero, so an index that takes its directory bits from the top sends all keys to entry 0.
\<close>

theorem murmur2_upper_half_zero:
  "unat (murmur2 data seed) < 2 ^ 32 \<and> drop_bit 32 (murmur2 data seed) = 0"
proof -
  have *: "drop_bit 32 (ucast (w :: u32) :: u64) = 0" for w
    by (intro bit_word_eqI) (auto simp: bit_simps dest: bit_imp_le_length)
  then have "drop_bit 32 (murmur2 data seed) = 0" unfolding murmur2_def Let_def by blast
  moreover from this have "unat (murmur2 data seed) div 2 ^ 32 = 0" by (metis unat_drop_bit_div unat_0)
  then have "unat (murmur2 data seed) < 2 ^ 32" by (simp add: div_eq_0_iff)
  ultimately show ?thesis by simp
qed

theorem xxhash_injective_witness:
  "xxhash [1, 2, 3, 4, 5, 6, 7, 8] 5 \<noteq> xxhash [8, 2, 3, 4, 5, 6, 7, 8] 5"
  using xxhash_injective [of "[1, 2, 3, 4, 5, 6, 7, 8]" "[8, 2, 3, 4, 5, 6, 7, 8]" 5] by simp

end
