(* ===== verification/CCEHSegment.thy ===== *)
theory CCEHSegment
  imports ExtendibleHash
begin

unbundle bit_operations_syntax

text \<open>
  The segments of \<open>CCEH\<close> (\<open>storage/ssd/CCEH.h\<close>, \<open>CCEH.cpp\<close>): 255 slots of a 4 KiB page, two
  hash windows of 32 slots for each key, insertion with cuckoo displacement while a segment is
  split. The two hash functions \<open>hash_funcs[0]\<close> and \<open>hash_funcs[2]\<close> are the arguments \<open>f\<close> and \<open>s\<close>.
\<close>

section \<open>The code\<close>

type_synonym hash_fn = "u64 \<Rightarrow> u64"

definition kSegSlot :: nat where "kSegSlot = 255"
definition kNumGroups :: nat where "kNumGroups = 63"
definition kNumPairPerCacheLine :: nat where "kNumPairPerCacheLine = 4"
definition kNumCacheLine :: nat where "kNumCacheLine = 8"
definition kCuckooThreshold :: nat where "kCuckooThreshold = 16"

record segment =
  seg_bucket :: "(u64 \<times> u64) list"
  seg_depth :: nat

text \<open>A freshly allocated page is zero; \<open>initSegment\<close> sets the keys.\<close>

definition initSegment :: "nat \<Rightarrow> segment" where
  "initSegment depth = \<lparr>seg_bucket = replicate kSegSlot (INVALID, 0), seg_depth = depth\<rparr>"

definition seg_key :: "segment \<Rightarrow> nat \<Rightarrow> u64" where
  "seg_key sg loc = fst (seg_bucket sg ! loc)"

definition seg_set :: "nat \<Rightarrow> u64 \<times> u64 \<Rightarrow> segment \<Rightarrow> segment" where
  "seg_set loc kv sg = sg\<lparr>seg_bucket := (seg_bucket sg)[loc := kv]\<rparr>"

definition group_slot :: "u64 \<Rightarrow> nat" where
  "group_slot h = (unat h mod kNumGroups) * kNumPairPerCacheLine"

definition window :: "nat \<Rightarrow> nat list" where
  "window loc = map (\<lambda>i. (loc + i) mod kSegSlot) [0..<kNumPairPerCacheLine * kNumCacheLine]"

text \<open>\<open>f_hash >> (8 * sizeof(f_hash) - depth)\<close>.\<close>

definition hash_prefix :: "nat \<Rightarrow> u64 \<Rightarrow> u64" where
  "hash_prefix depth h = drop_bit (64 - depth) h"

fun insert_scan :: "u64 \<Rightarrow> u64 \<Rightarrow> nat list \<Rightarrow> segment \<Rightarrow> segment option" where
  "insert_scan key value [] sg = None"
| "insert_scan key value (loc # locs) sg =
     (if seg_key sg loc = INVALID then Some (seg_set loc (key, value) sg) else insert_scan key value locs sg)"

definition seg_Insert4split :: "u64 \<Rightarrow> u64 \<Rightarrow> nat \<Rightarrow> segment \<Rightarrow> segment option" where
  "seg_Insert4split key value loc sg = insert_scan key value (window loc) sg"

text \<open>
  One round of \<open>find_path\<close> at slot \<open>cur\<close>: \<open>None\<close> is the \<open>break\<close>, \<open>Some None\<close> a round in which
  neither window of the resident key contains \<open>cur\<close>, \<open>Some (Some q)\<close> a move to slot \<open>q\<close>.
\<close>

fun path_move :: "nat \<Rightarrow> nat \<Rightarrow> nat \<Rightarrow> nat list \<Rightarrow> nat option" where
  "path_move fb sb cur [] = None"
| "path_move fb sb cur (j # js) =
     (if (fb + j) mod kSegSlot = cur then Some ((sb + j) mod kSegSlot)
      else if (sb + j) mod kSegSlot = cur then Some ((fb + j) mod kSegSlot)
      else path_move fb sb cur js)"

definition path_round :: "hash_fn \<Rightarrow> hash_fn \<Rightarrow> segment \<Rightarrow> u64 \<Rightarrow> nat \<Rightarrow> nat option option" where
  "path_round f s sg pattern cur =
     (let key = seg_key sg cur in
      if key = INVALID then None
      else if hash_prefix (seg_depth sg) (f key) \<noteq> pattern then None
      else Some (path_move (group_slot (f key)) (group_slot (s key)) cur [0..<kNumPairPerCacheLine * kNumCacheLine]))"

text \<open>\<open>n\<close> is the number of rounds left of \<open>kCuckooThreshold\<close>.\<close>

fun path_loop :: "hash_fn \<Rightarrow> hash_fn \<Rightarrow> segment \<Rightarrow> u64 \<Rightarrow> nat \<Rightarrow> nat \<Rightarrow> (nat \<times> u64) list \<Rightarrow> (nat \<times> u64) list" where
  "path_loop f s sg pattern 0 cur path = []"
| "path_loop f s sg pattern (Suc n) cur path =
     (case path_round f s sg pattern cur of
        None \<Rightarrow> path
      | Some None \<Rightarrow> path_loop f s sg pattern n cur path
      | Some (Some q) \<Rightarrow> path_loop f s sg pattern n q (path @ [(q, seg_key sg q)]))"

definition find_path :: "hash_fn \<Rightarrow> hash_fn \<Rightarrow> nat \<Rightarrow> u64 \<Rightarrow> segment \<Rightarrow> (nat \<times> u64) list" where
  "find_path f s target pattern sg =
     path_loop f s sg pattern kCuckooThreshold target [(target, seg_key sg target)]"

fun execute_path :: "(nat \<times> u64) list \<Rightarrow> u64 \<times> u64 \<Rightarrow> segment \<Rightarrow> segment" where
  "execute_path [] temp sg = sg"
| "execute_path (p # ps) temp sg = execute_path ps (seg_bucket sg ! fst p) (seg_set (fst p) temp sg)"

text \<open>The overload for a key and a value moves the pairs from the end of the path.\<close>

fun shift_path :: "nat list \<Rightarrow> segment \<Rightarrow> segment" where
  "shift_path (p # q # qs) sg =
     (let sg' = shift_path (q # qs) sg in seg_set q (seg_bucket sg' ! p) sg')"
| "shift_path _ sg = sg"

definition execute_path_kv :: "(nat \<times> u64) list \<Rightarrow> u64 \<Rightarrow> u64 \<Rightarrow> segment \<Rightarrow> segment result" where
  "execute_path_kv path key value sg =
     (case path of [] \<Rightarrow> Inl Bad_access
      | p # ps \<Rightarrow> Inr (seg_set (fst p) (key, value) (shift_path (map fst path) sg)))"

text \<open>How \<open>Split\<close> puts one pair into a new segment; when both paths are empty the pair is only logged.\<close>

definition cuckoo_path :: "hash_fn \<Rightarrow> hash_fn \<Rightarrow> u64 \<Rightarrow> segment \<Rightarrow> (nat \<times> u64) list" where
  "cuckoo_path f s key sg =
     (let pattern = hash_prefix (seg_depth sg) (f key);
          path = find_path f s (group_slot (f key)) pattern sg in
      if path = [] then find_path f s (group_slot (s key)) pattern sg else path)"

definition seg_place :: "hash_fn \<Rightarrow> hash_fn \<Rightarrow> segment \<Rightarrow> u64 \<times> u64 \<Rightarrow> segment" where
  "seg_place f s sg kv =
     (case seg_Insert4split (fst kv) (snd kv) (group_slot (f (fst kv))) sg of
        Some sg' \<Rightarrow> sg'
      | None \<Rightarrow>
          (case seg_Insert4split (fst kv) (snd kv) (group_slot (s (fst kv))) sg of
             Some sg' \<Rightarrow> sg'
           | None \<Rightarrow> if cuckoo_path f s (fst kv) sg = [] then sg else execute_path (cuckoo_path f s (fst kv) sg) kv sg))"

definition split_pair :: "hash_fn \<Rightarrow> hash_fn \<Rightarrow> nat \<Rightarrow> segment \<times> segment \<Rightarrow> u64 \<times> u64 \<Rightarrow> segment \<times> segment" where
  "split_pair f s depth gs kv =
     (if fst kv = INVALID then gs
      else if f (fst kv) AND push_bit (64 - depth - 1) 1 \<noteq> 0 then (fst gs, seg_place f s (snd gs) kv)
      else (seg_place f s (fst gs) kv, snd gs))"

definition seg_Split :: "hash_fn \<Rightarrow> hash_fn \<Rightarrow> segment \<Rightarrow> segment \<times> segment" where
  "seg_Split f s sg =
     foldl (split_pair f s (seg_depth sg)) (initSegment (seg_depth sg + 1), initSegment (seg_depth sg + 1))
       (seg_bucket sg)"

text \<open>The two scans of \<open>CCEH::Put\<close> in a segment, and those of \<open>CCEH::Get\<close>.\<close>

fun put_scan :: "hash_fn \<Rightarrow> u64 \<Rightarrow> u64 \<Rightarrow> u64 \<Rightarrow> nat list \<Rightarrow> segment \<Rightarrow> segment option" where
  "put_scan f pattern key value [] sg = None"
| "put_scan f pattern key value (loc # locs) sg =
     (let stored = seg_key sg loc in
      if stored = key then Some (seg_set loc (stored, value) sg)
      else if (hash_prefix (seg_depth sg) (f stored) \<noteq> pattern \<or> stored = INVALID) \<and> stored \<noteq> SENTINEL
      then Some (seg_set loc (key, value) sg)
      else put_scan f pattern key value locs sg)"

fun get_scan :: "u64 \<Rightarrow> nat list \<Rightarrow> segment \<Rightarrow> u64 option" where
  "get_scan key [] sg = None"
| "get_scan key (loc # locs) sg =
     (if seg_key sg loc = key then Some (snd (seg_bucket sg ! loc)) else get_scan key locs sg)"

section \<open>What a segment holds\<close>

definition probe :: "hash_fn \<Rightarrow> hash_fn \<Rightarrow> u64 \<Rightarrow> nat list" where
  "probe f s key = window (group_slot (f key)) @ window (group_slot (s key))"

definition seg_get :: "hash_fn \<Rightarrow> hash_fn \<Rightarrow> u64 \<Rightarrow> segment \<Rightarrow> u64 option" where
  "seg_get f s key sg = get_scan key (probe f s key) sg"

definition holds_pair :: "segment \<Rightarrow> u64 \<Rightarrow> u64 \<Rightarrow> bool" where
  "holds_pair sg k v \<longleftrightarrow> k \<noteq> INVALID \<and> (k, v) \<in> set (seg_bucket sg)"

definition key_ok :: "u64 \<Rightarrow> bool" where
  "key_ok k \<longleftrightarrow> k \<noteq> INVALID \<and> k \<noteq> SENTINEL"

definition seg_ok :: "hash_fn \<Rightarrow> hash_fn \<Rightarrow> u64 \<Rightarrow> segment \<Rightarrow> bool" where
  "seg_ok f s pattern sg \<longleftrightarrow> length (seg_bucket sg) = kSegSlot \<and>
     (\<forall>loc < kSegSlot. seg_key sg loc \<noteq> INVALID \<longrightarrow>
        seg_key sg loc \<noteq> SENTINEL \<and> hash_prefix (seg_depth sg) (f (seg_key sg loc)) = pattern \<and>
        loc \<in> set (probe f s (seg_key sg loc)))"

lemma kSegSlot_pos [simp]: "0 < kSegSlot"
  by (simp add: kSegSlot_def)

lemma window_less: "loc \<in> set (window b) \<Longrightarrow> loc < kSegSlot"
  by (auto simp: window_def)

lemma probe_less: "loc \<in> set (probe f s k) \<Longrightarrow> loc < kSegSlot"
  by (auto simp: probe_def dest: window_less)

lemma seg_set_simps [simp]:
  "seg_depth (seg_set loc kv sg) = seg_depth sg" "length (seg_bucket (seg_set loc kv sg)) = length (seg_bucket sg)"
  by (simp_all add: seg_set_def)

lemma seg_set_nth: "loc < length (seg_bucket sg) \<Longrightarrow>
  seg_bucket (seg_set loc kv sg) ! j = (if j = loc then kv else seg_bucket sg ! j)"
  by (simp add: seg_set_def nth_list_update)

lemma seg_key_set: "loc < length (seg_bucket sg) \<Longrightarrow>
  seg_key (seg_set loc kv sg) j = (if j = loc then fst kv else seg_key sg j)"
  by (simp add: seg_key_def seg_set_nth)

lemma seg_okD:
  assumes "seg_ok f s pattern sg"
  shows "length (seg_bucket sg) = kSegSlot"
    and "\<And>loc. loc < kSegSlot \<Longrightarrow> seg_key sg loc \<noteq> INVALID \<Longrightarrow>
      seg_key sg loc \<noteq> SENTINEL \<and> hash_prefix (seg_depth sg) (f (seg_key sg loc)) = pattern \<and>
      loc \<in> set (probe f s (seg_key sg loc))"
  using assms by (auto simp: seg_ok_def)

lemma holds_pair_nth:
  "length (seg_bucket sg) = kSegSlot \<Longrightarrow>
   holds_pair sg k v \<longleftrightarrow> k \<noteq> INVALID \<and> (\<exists>loc < kSegSlot. seg_bucket sg ! loc = (k, v))"
  by (auto simp: holds_pair_def in_set_conv_nth)

lemma initSegment_ok: "seg_ok f s pattern (initSegment d)" "seg_depth (initSegment d) = d"
  "\<not> holds_pair (initSegment d) k v" "loc < kSegSlot \<Longrightarrow> seg_key (initSegment d) loc = INVALID"
  by (auto simp: seg_ok_def initSegment_def seg_key_def holds_pair_def)

lemma seg_set_ok:
  assumes "seg_ok f s pattern sg" "loc < kSegSlot" "key_ok (fst kv)" "hash_prefix (seg_depth sg) (f (fst kv)) = pattern"
    and "loc \<in> set (probe f s (fst kv))"
  shows "seg_ok f s pattern (seg_set loc kv sg)"
proof -
  note D = seg_okD [OF assms(1)]
  have l: "loc < length (seg_bucket sg)" using D(1) assms(2) by simp
  show ?thesis using D assms unfolding seg_ok_def by (auto simp: seg_key_set [OF l] key_ok_def)
qed

lemma seg_set_holds:
  assumes "length (seg_bucket sg) = kSegSlot" "holds_pair (seg_set loc kv sg) k v"
  shows "holds_pair sg k v \<or> (k, v) = kv"
proof (cases "loc < kSegSlot")
  case True
  then show ?thesis using assms by (auto simp: holds_pair_nth seg_set_nth split: if_splits)
next
  case False
  then have "seg_set loc kv sg = sg" using assms(1) by (cases sg) (simp add: seg_set_def list_update_beyond)
  with assms(2) show ?thesis by simp
qed

lemma get_scan_cong:
  "(\<And>j. j \<in> set locs \<Longrightarrow> seg_bucket sg ! j = seg_bucket sg' ! j) \<Longrightarrow> get_scan k locs sg = get_scan k locs sg'"
  by (induction locs) (auto simp: seg_key_def)

lemma get_scan_append:
  "get_scan k (xs @ ys) sg = (case get_scan k xs sg of Some v \<Rightarrow> Some v | None \<Rightarrow> get_scan k ys sg)"
  by (induction xs) auto

lemma get_scan_holds:
  "get_scan k locs sg = Some v \<Longrightarrow> \<forall>loc \<in> set locs. loc < length (seg_bucket sg) \<Longrightarrow> (k, v) \<in> set (seg_bucket sg)"
proof (induction locs)
  case (Cons loc locs)
  show ?case
  proof (cases "seg_key sg loc = k")
    case True
    with Cons.prems have "(k, v) = seg_bucket sg ! loc" "loc < length (seg_bucket sg)" by (auto simp: seg_key_def)
    then show ?thesis by simp
  qed (use Cons in auto)
qed simp

lemma get_scan_None: "get_scan k locs sg = None \<longleftrightarrow> (\<forall>loc \<in> set locs. seg_key sg loc \<noteq> k)"
  by (induction locs) auto

text \<open>Setting another key's slot, or an invalid slot, is seen by no other key.\<close>

lemma get_scan_set_other:
  "loc < length (seg_bucket sg) \<Longrightarrow> fst kv \<noteq> k \<Longrightarrow> seg_key sg loc \<noteq> k \<Longrightarrow>
   get_scan k locs (seg_set loc kv sg) = get_scan k locs sg"
  by (induction locs) (auto simp: seg_key_set seg_set_nth)

section \<open>Put in one segment\<close>

lemma put_scan_append:
  "put_scan f pattern key v (xs @ ys) sg =
     (case put_scan f pattern key v xs sg of Some sg' \<Rightarrow> Some sg' | None \<Rightarrow> put_scan f pattern key v ys sg)"
  by (induction xs) (auto simp: Let_def)

lemma put_scan_Some:
  "put_scan f pattern key v locs sg = Some sg' \<Longrightarrow>
   \<exists>i < length locs. sg' = seg_set (locs ! i) (key, v) sg \<and>
     (seg_key sg (locs ! i) = key \<or> seg_key sg (locs ! i) \<noteq> SENTINEL \<and>
        (seg_key sg (locs ! i) = INVALID \<or> hash_prefix (seg_depth sg) (f (seg_key sg (locs ! i))) \<noteq> pattern)) \<and>
     (\<forall>j < i. seg_key sg (locs ! j) \<noteq> key \<and> seg_key sg (locs ! j) \<noteq> INVALID)"
proof (induction locs)
  case (Cons loc locs)
  show ?case
  proof (cases "seg_key sg loc = key \<or>
      (hash_prefix (seg_depth sg) (f (seg_key sg loc)) \<noteq> pattern \<or> seg_key sg loc = INVALID) \<and> seg_key sg loc \<noteq> SENTINEL")
    case True
    with Cons.prems show ?thesis by (intro exI [of _ 0]) (auto simp: Let_def split: if_splits)
  next
    case False
    then have e: "put_scan f pattern key v (loc # locs) sg = put_scan f pattern key v locs sg" by (auto simp: Let_def)
    have ni: "seg_key sg loc \<noteq> key" "seg_key sg loc \<noteq> INVALID" using False by (auto simp: SENTINEL_def INVALID_def)
    from Cons.IH Cons.prems e obtain i where i: "i < length locs" "sg' = seg_set (locs ! i) (key, v) sg"
      "seg_key sg (locs ! i) = key \<or> seg_key sg (locs ! i) \<noteq> SENTINEL \<and>
        (seg_key sg (locs ! i) = INVALID \<or> hash_prefix (seg_depth sg) (f (seg_key sg (locs ! i))) \<noteq> pattern)"
      "\<forall>j < i. seg_key sg (locs ! j) \<noteq> key \<and> seg_key sg (locs ! j) \<noteq> INVALID" by auto
    have "\<forall>j < Suc i. seg_key sg ((loc # locs) ! j) \<noteq> key \<and> seg_key sg ((loc # locs) ! j) \<noteq> INVALID"
      using i(4) ni by (auto simp: less_Suc_eq_0_disj)
    with i show ?thesis by (intro exI [of _ "Suc i"]) auto
  qed
qed simp

lemma put_scan_None:
  "put_scan f pattern key v locs sg = None \<longleftrightarrow>
   (\<forall>loc \<in> set locs. seg_key sg loc \<noteq> key \<and>
      (seg_key sg loc = SENTINEL \<or> seg_key sg loc \<noteq> INVALID \<and> hash_prefix (seg_depth sg) (f (seg_key sg loc)) = pattern))"
  by (induction locs) (auto simp: Let_def)

lemma put_scan_get:
  "put_scan f pattern key v locs sg = Some sg' \<Longrightarrow> \<forall>loc \<in> set locs. loc < length (seg_bucket sg) \<Longrightarrow>
   get_scan key locs sg' = Some v \<and> (\<exists>l \<in> set locs. sg' = seg_set l (key, v) sg)"
proof (induction locs)
  case (Cons loc locs)
  have l: "loc < length (seg_bucket sg)" using Cons.prems(2) by simp
  show ?case
  proof (cases "seg_key sg loc = key \<or>
      (hash_prefix (seg_depth sg) (f (seg_key sg loc)) \<noteq> pattern \<or> seg_key sg loc = INVALID) \<and> seg_key sg loc \<noteq> SENTINEL")
    case True
    with Cons.prems(1) have "sg' = seg_set loc (key, v) sg" by (auto simp: Let_def split: if_splits)
    then show ?thesis by (simp add: seg_key_set [OF l] seg_set_nth [OF l])
  next
    case False
    then have e: "put_scan f pattern key v (loc # locs) sg = put_scan f pattern key v locs sg" by (auto simp: Let_def)
    with Cons obtain m where m: "m \<in> set locs" "sg' = seg_set m (key, v) sg" "get_scan key locs sg' = Some v" by auto
    have lm: "m < length (seg_bucket sg)" using Cons.prems(2) m(1) by simp
    have "seg_key sg' loc = (if loc = m then key else seg_key sg loc)" "seg_bucket sg' ! m = (key, v)"
      unfolding m(2) by (simp_all add: seg_key_set [OF lm] seg_set_nth [OF lm])
    with False m show ?thesis by (cases "loc = m") auto
  qed
qed simp

lemma probe_in_bucket: "length (seg_bucket sg) = kSegSlot \<Longrightarrow> \<forall>loc \<in> set (probe f s k). loc < length (seg_bucket sg)"
  by (auto dest: probe_less)

lemma seg_get_holds: "length (seg_bucket sg) = kSegSlot \<Longrightarrow> key_ok k \<Longrightarrow> seg_get f s k sg = Some v \<Longrightarrow> holds_pair sg k v"
  using get_scan_holds [of k "probe f s k" sg v] probe_in_bucket [of sg f s k]
  by (simp add: seg_get_def holds_pair_def key_ok_def)

lemma seg_get_None: "seg_ok f s pattern sg \<Longrightarrow> key_ok k \<Longrightarrow> seg_get f s k sg = None \<longleftrightarrow> (\<forall>v. \<not> holds_pair sg k v)"
proof -
  assume ok: "seg_ok f s pattern sg" and k: "key_ok k"
  note D = seg_okD [OF ok]
  have "(\<exists>loc \<in> set (probe f s k). seg_key sg loc = k) \<longleftrightarrow> (\<exists>v. holds_pair sg k v)"
  proof
    assume "\<exists>loc \<in> set (probe f s k). seg_key sg loc = k"
    then obtain loc where l: "loc \<in> set (probe f s k)" "seg_key sg loc = k" by blast
    then have "seg_bucket sg ! loc = (k, snd (seg_bucket sg ! loc))" by (auto simp: seg_key_def)
    then show "\<exists>v. holds_pair sg k v"
      using probe_less [OF l(1)] k unfolding holds_pair_nth [OF D(1)] by (auto simp: key_ok_def)
  next
    assume "\<exists>v. holds_pair sg k v"
    then obtain v loc where l: "loc < kSegSlot" "seg_bucket sg ! loc = (k, v)" unfolding holds_pair_nth [OF D(1)] by blast
    then have "seg_key sg loc = k" by (simp add: seg_key_def)
    with D(2) [OF l(1)] k show "\<exists>loc \<in> set (probe f s k). seg_key sg loc = k" by (auto simp: key_ok_def)
  qed
  then show "seg_get f s k sg = None \<longleftrightarrow> (\<forall>v. \<not> holds_pair sg k v)"
    unfolding seg_get_def get_scan_None by blast
qed

lemma put_probe_ok:
  assumes "seg_ok f s pattern sg" "key_ok key" "hash_prefix (seg_depth sg) (f key) = pattern"
    and "put_scan f pattern key v (probe f s key) sg = Some sg'"
  shows "seg_ok f s pattern sg'" "seg_depth sg' = seg_depth sg" "seg_get f s key sg' = Some v"
    and "holds_pair sg' k w \<Longrightarrow> holds_pair sg k w \<or> (k, w) = (key, v)"
proof -
  have l: "length (seg_bucket sg) = kSegSlot" using seg_okD(1) [OF assms(1)] .
  from put_scan_get [OF assms(4) probe_in_bucket [OF l]] obtain m where m: "m \<in> set (probe f s key)"
    "sg' = seg_set m (key, v) sg" "get_scan key (probe f s key) sg' = Some v" by blast
  show "seg_get f s key sg' = Some v" using m(3) by (simp add: seg_get_def)
  show "seg_ok f s pattern sg'" unfolding m(2)
    using assms(1,2,3) m(1) probe_less [OF m(1)] by (intro seg_set_ok) simp_all
  show "seg_depth sg' = seg_depth sg" by (simp add: m(2))
  show "holds_pair sg' k w \<Longrightarrow> holds_pair sg k w \<or> (k, w) = (key, v)" using seg_set_holds [OF l, of m "(key, v)" k w] by (auto simp: m(2))
qed

section \<open>Cuckoo paths\<close>

fun chain :: "hash_fn \<Rightarrow> hash_fn \<Rightarrow> segment \<Rightarrow> u64 \<Rightarrow> nat list \<Rightarrow> bool" where
  "chain f s sg pattern [] \<longleftrightarrow> False"
| "chain f s sg pattern [p] \<longleftrightarrow> path_round f s sg pattern p = None"
| "chain f s sg pattern (p # q # qs) \<longleftrightarrow> path_round f s sg pattern p = Some (Some q) \<and> chain f s sg pattern (q # qs)"

lemma path_loop_chain:
  "path_loop f s sg pattern n cur path = r \<Longrightarrow> r \<noteq> [] \<Longrightarrow>
   \<exists>rest. r = path @ rest \<and> chain f s sg pattern (cur # map fst rest)"
proof (induction n arbitrary: cur path)
  case (Suc n)
  consider "path_round f s sg pattern cur = None" | "path_round f s sg pattern cur = Some None"
    | q where "path_round f s sg pattern cur = Some (Some q)"
    by (metis option.exhaust)
  then show ?case
  proof cases
    case 1
    with Suc.prems show ?thesis by (intro exI [of _ "[]"]) simp
  next
    case 2
    with Suc.prems have "path_loop f s sg pattern n cur path = r" by simp
    from Suc.IH [OF this Suc.prems(2)] obtain rest :: "(nat \<times> u64) list" where "chain f s sg pattern (cur # map fst rest)" by blast
    with 2 show ?thesis by (cases rest) auto
  next
    case 3
    with Suc.prems have "path_loop f s sg pattern n q (path @ [(q, seg_key sg q)]) = r" by simp
    from Suc.IH [OF this Suc.prems(2)] obtain rest where "r = (path @ [(q, seg_key sg q)]) @ rest"
      "chain f s sg pattern (q # map fst rest)" by (elim exE conjE) (rule that)
    with 3 show ?thesis by (intro exI [of _ "(q, seg_key sg q) # rest"]) simp
  qed
qed simp

lemma chain_unique: "chain f s sg pattern (p # xs) \<Longrightarrow> chain f s sg pattern (p # ys) \<Longrightarrow> xs = ys"
proof (induction xs arbitrary: p ys)
  case Nil
  then show ?case by (cases ys) auto
next
  case (Cons x xs)
  then show ?case by (cases ys) auto
qed

lemma chain_suffix: "chain f s sg pattern (xs @ p # ys) \<Longrightarrow> chain f s sg pattern (p # ys)"
proof (induction xs)
  case (Cons x xs)
  then have "chain f s sg pattern (xs @ p # ys)" by (cases xs) auto
  with Cons.IH show ?case .
qed simp

lemma chain_distinct: "chain f s sg pattern ps \<Longrightarrow> distinct ps"
proof (induction ps)
  case (Cons p ps)
  have "p \<notin> set ps"
  proof
    assume "p \<in> set ps"
    then obtain a b where ps: "ps = a @ p # b" by (metis split_list)
    have "chain f s sg pattern ((p # a) @ p # b)" using Cons.prems ps by simp
    then have "chain f s sg pattern (p # b)" by (rule chain_suffix)
    with Cons.prems have "ps = b" by (rule chain_unique)
    with ps show False by simp
  qed
  moreover have "distinct ps"
  proof (cases ps)
    case (Cons q qs)
    with Cons.prems Cons.IH show ?thesis by simp
  qed simp
  ultimately show ?case by simp
qed simp

lemma path_move_probe:
  "path_move fb sb cur js = Some q \<Longrightarrow> set js \<subseteq> {..<32} \<Longrightarrow> q \<in> set (window fb @ window sb)"
  by (induction js) (auto simp: window_def kNumPairPerCacheLine_def kNumCacheLine_def split: if_splits)

lemma path_round_probe:
  assumes "path_round f s sg pattern p = Some (Some q)"
  shows "q \<in> set (probe f s (seg_key sg p))"
proof -
  have "path_move (group_slot (f (seg_key sg p))) (group_slot (s (seg_key sg p))) p [0..<32] = Some q"
    using assms by (auto simp: path_round_def Let_def kNumPairPerCacheLine_def kNumCacheLine_def split: if_splits)
  then show ?thesis unfolding probe_def by (rule path_move_probe) auto
qed

lemma chain_set:
  assumes "p \<notin> set ps" "p < length (seg_bucket sg)"
  shows "chain f s (seg_set p x sg) pattern ps = chain f s sg pattern ps"
proof -
  have r: "path_round f s (seg_set p x sg) pattern q = path_round f s sg pattern q" if "q \<noteq> p" for q
    using that by (simp add: path_round_def Let_def seg_key_set [OF assms(2)])
  show ?thesis using assms(1) by (induction ps rule: induct_list012) (auto simp: r)
qed

lemma execute_path_ok:
  "chain f s sg pattern (map fst ps) \<Longrightarrow> seg_ok f s pattern sg \<Longrightarrow> \<forall>p \<in> set ps. fst p < kSegSlot \<Longrightarrow>
   key_ok (fst kv) \<Longrightarrow> hash_prefix (seg_depth sg) (f (fst kv)) = pattern \<Longrightarrow> fst (hd ps) \<in> set (probe f s (fst kv)) \<Longrightarrow>
   seg_ok f s pattern (execute_path ps kv sg) \<and> seg_depth (execute_path ps kv sg) = seg_depth sg \<and>
   (\<forall>k w. holds_pair (execute_path ps kv sg) k w \<longleftrightarrow> holds_pair sg k w \<or> (k, w) = kv)"
proof (induction ps arbitrary: sg kv)
  case (Cons p ps)
  note D = seg_okD [OF Cons.prems(2)]
  let ?p = "fst p" and ?sg = "seg_set (fst p) kv sg"
  have pl: "?p < kSegSlot" "?p < length (seg_bucket sg)" using Cons.prems(3) D(1) by simp_all
  have inv: "fst kv \<noteq> INVALID" using Cons.prems(4) by (simp add: key_ok_def)
  have ok: "seg_ok f s pattern ?sg" using Cons.prems pl by (intro seg_set_ok) simp_all
  have L: "length (seg_bucket ?sg) = kSegSlot" using D(1) by simp
  show ?case
  proof (cases ps)
    case Nil
    then have "path_round f s sg pattern ?p = None" using Cons.prems(1) by simp
    then have "seg_key sg ?p = INVALID"
      using D(2) [OF pl(1)] by (auto simp: path_round_def Let_def split: if_splits)
    then have "holds_pair ?sg k w \<longleftrightarrow> holds_pair sg k w \<or> (k, w) = kv" for k w
      unfolding holds_pair_nth [OF L] holds_pair_nth [OF D(1)] seg_set_nth [OF pl(2)]
      using pl inv by (auto simp: seg_key_def) (metis fst_conv)
    with ok Nil show ?thesis by simp
  next
    case (Cons q qs)
    from Cons.prems(1) Cons have r: "path_round f s sg pattern ?p = Some (Some (fst q))"
      and ch: "chain f s sg pattern (map fst ps)" by simp_all
    have dist: "?p \<notin> set (map fst ps)" using chain_distinct [OF Cons.prems(1)] by simp
    let ?kv = "seg_bucket sg ! ?p"
    have k: "fst ?kv = seg_key sg ?p" by (simp add: seg_key_def)
    from r have "seg_key sg ?p \<noteq> INVALID" by (auto simp: path_round_def Let_def split: if_splits)
    with D(2) [OF pl(1)] have kok: "key_ok (fst ?kv)" "hash_prefix (seg_depth ?sg) (f (fst ?kv)) = pattern"
      unfolding k by (simp_all add: key_ok_def)
    have hd: "fst (hd ps) \<in> set (probe f s (fst ?kv))" using path_round_probe [OF r] Cons k by simp
    have ch': "chain f s ?sg pattern (map fst ps)" using ch chain_set [OF dist pl(2)] by simp
    have "\<forall>p \<in> set ps. fst p < kSegSlot" using Cons.prems(3) by simp
    from Cons.IH [OF ch' ok this kok hd]
    have I: "seg_ok f s pattern (execute_path ps ?kv ?sg)" "seg_depth (execute_path ps ?kv ?sg) = seg_depth sg"
      "\<And>k w. holds_pair (execute_path ps ?kv ?sg) k w \<longleftrightarrow> holds_pair ?sg k w \<or> (k, w) = ?kv" by simp_all
    have "holds_pair ?sg k w \<or> (k, w) = ?kv \<longleftrightarrow> holds_pair sg k w \<or> (k, w) = kv" for k w
      unfolding holds_pair_nth [OF L] holds_pair_nth [OF D(1)] seg_set_nth [OF pl(2)]
      using pl inv kok(1) by (auto simp: key_ok_def) (metis fst_conv)+
    with I show ?thesis by simp
  qed
qed simp

end
