(* ===== verification/CCEHSplit.thy ===== *)
theory CCEHSplit
  imports CCEHSegment
begin

unbundle bit_operations_syntax

text \<open>
  Splitting a segment: what the two halves hold, cuckoo displacement and lost pairs included,
  and the probing order that makes a look-up see the last value written.
\<close>

section \<open>One pair\<close>

definition place_fails :: "hash_fn \<Rightarrow> hash_fn \<Rightarrow> segment \<Rightarrow> u64 \<times> u64 \<Rightarrow> bool" where
  "place_fails f s g kv \<longleftrightarrow>
     seg_Insert4split (fst kv) (snd kv) (group_slot (f (fst kv))) g = None \<and>
     seg_Insert4split (fst kv) (snd kv) (group_slot (s (fst kv))) g = None \<and> cuckoo_path f s (fst kv) g = []"

lemma insert_scan_append:
  "insert_scan k v (xs @ ys) g = (case insert_scan k v xs g of Some g' \<Rightarrow> Some g' | None \<Rightarrow> insert_scan k v ys g)"
  by (induction xs) auto

lemma insert_scan_Some:
  "insert_scan k v locs g = Some g' \<Longrightarrow>
   \<exists>i < length locs. g' = seg_set (locs ! i) (k, v) g \<and> seg_key g (locs ! i) = INVALID \<and>
     (\<forall>j < i. seg_key g (locs ! j) \<noteq> INVALID)"
proof (induction locs)
  case (Cons loc locs)
  show ?case
  proof (cases "seg_key g loc = INVALID")
    case True
    with Cons.prems show ?thesis by (intro exI [of _ 0]) simp
  next
    case False
    with Cons obtain i where "i < length locs" "g' = seg_set (locs ! i) (k, v) g" "seg_key g (locs ! i) = INVALID"
      "\<forall>j < i. seg_key g (locs ! j) \<noteq> INVALID" by auto
    with False show ?thesis by (intro exI [of _ "Suc i"]) (auto simp: less_Suc_eq_0_disj)
  qed
qed simp

lemma set_invalid_holds:
  assumes "length (seg_bucket g) = kSegSlot" "loc < kSegSlot" "seg_key g loc = INVALID" "fst kv \<noteq> INVALID"
  shows "holds_pair (seg_set loc kv g) k w \<longleftrightarrow> holds_pair g k w \<or> (k, w) = kv"
proof -
  have L: "length (seg_bucket (seg_set loc kv g)) = kSegSlot" and l: "loc < length (seg_bucket g)" using assms by simp_all
  show ?thesis
    unfolding holds_pair_nth [OF L] holds_pair_nth [OF assms(1)] seg_set_nth [OF l]
    using assms(2-4) by (auto simp: seg_key_def) (metis fst_conv)
qed

lemma group_slot_window: "group_slot h \<in> set (window (group_slot h))" "group_slot h < kSegSlot"
proof -
  show l: "group_slot h < kSegSlot"
    using mod_less_divisor [of 63 "unat h"] by (simp add: group_slot_def kNumGroups_def kNumPairPerCacheLine_def kSegSlot_def)
  then have "group_slot h = (group_slot h + 0) mod kSegSlot" by simp
  then show "group_slot h \<in> set (window (group_slot h))"
    unfolding window_def by (auto simp: kNumPairPerCacheLine_def kNumCacheLine_def intro!: image_eqI [of _ _ 0])
qed

lemma chain_less: "chain f s g pattern (p # ps) \<Longrightarrow> \<forall>q \<in> set ps. q < kSegSlot"
proof (induction ps arbitrary: p)
  case (Cons q qs)
  then show ?case by (auto dest: path_round_probe probe_less)
qed simp

lemma find_path_chain:
  assumes "find_path f s target pattern g \<noteq> []"
  shows "\<exists>rest. find_path f s target pattern g = (target, seg_key g target) # rest \<and>
    chain f s g pattern (target # map fst rest)"
  using path_loop_chain [OF refl assms [unfolded find_path_def]] unfolding find_path_def by auto

lemma cuckoo_path_chain:
  assumes "cuckoo_path f s k g \<noteq> []"
  shows "chain f s g (hash_prefix (seg_depth g) (f k)) (map fst (cuckoo_path f s k g))"
    and "fst (hd (cuckoo_path f s k g)) \<in> set (probe f s k)" and "\<forall>p \<in> set (cuckoo_path f s k g). fst p < kSegSlot"
proof -
  have "\<exists>h. cuckoo_path f s k g = find_path f s (group_slot h) (hash_prefix (seg_depth g) (f k)) g \<and>
      (h = f k \<or> h = s k)"
    by (auto simp: cuckoo_path_def Let_def)
  then obtain h where h: "cuckoo_path f s k g = find_path f s (group_slot h) (hash_prefix (seg_depth g) (f k)) g"
    "h = f k \<or> h = s k" by blast
  from find_path_chain [OF assms [unfolded h(1)]] obtain rest where
    r: "find_path f s (group_slot h) (hash_prefix (seg_depth g) (f k)) g = (group_slot h, seg_key g (group_slot h)) # rest"
      "chain f s g (hash_prefix (seg_depth g) (f k)) (group_slot h # map fst rest)" by blast
  show "chain f s g (hash_prefix (seg_depth g) (f k)) (map fst (cuckoo_path f s k g))" using r by (simp add: h(1))
  show "fst (hd (cuckoo_path f s k g)) \<in> set (probe f s k)"
    using group_slot_window(1) h(2) by (auto simp: h(1) r(1) probe_def)
  show "\<forall>p \<in> set (cuckoo_path f s k g). fst p < kSegSlot"
    using chain_less [OF r(2)] group_slot_window(2) by (auto simp: h(1) r(1))
qed

lemma seg_place_ok:
  assumes ok: "seg_ok f s pattern g" and kv: "key_ok (fst kv)" "hash_prefix (seg_depth g) (f (fst kv)) = pattern"
  shows "seg_ok f s pattern (seg_place f s g kv)" "seg_depth (seg_place f s g kv) = seg_depth g"
    and "holds_pair (seg_place f s g kv) k w \<longleftrightarrow> holds_pair g k w \<or> (k, w) = kv \<and> \<not> place_fails f s g kv"
proof -
  note D = seg_okD [OF ok]
  have inv: "fst kv \<noteq> INVALID" using kv by (simp add: key_ok_def)
  have ins: "seg_ok f s pattern g' \<and> seg_depth g' = seg_depth g \<and> (\<forall>k w. holds_pair g' k w \<longleftrightarrow> holds_pair g k w \<or> (k, w) = kv)"
    if g': "seg_Insert4split (fst kv) (snd kv) b g = Some g'" "set (window b) \<subseteq> set (probe f s (fst kv))" for b g'
  proof -
    from insert_scan_Some [OF g'(1) [unfolded seg_Insert4split_def]] obtain i where i: "i < length (window b)"
      "g' = seg_set (window b ! i) kv g" "seg_key g (window b ! i) = INVALID" by auto
    from i(1) have m: "window b ! i \<in> set (window b)" by simp
    from window_less [OF m] have l: "window b ! i < kSegSlot" .
    from m g'(2) have p: "window b ! i \<in> set (probe f s (fst kv))" by blast
    show ?thesis unfolding i(2)
      using seg_set_ok [OF ok l kv p] set_invalid_holds [OF D(1) l i(3) inv] by simp
  qed
  have sub: "set (window (group_slot (f (fst kv)))) \<subseteq> set (probe f s (fst kv))"
    "set (window (group_slot (s (fst kv)))) \<subseteq> set (probe f s (fst kv))" by (auto simp: probe_def)
  have "seg_ok f s pattern (seg_place f s g kv) \<and> seg_depth (seg_place f s g kv) = seg_depth g \<and>
    (\<forall>k w. holds_pair (seg_place f s g kv) k w \<longleftrightarrow> holds_pair g k w \<or> (k, w) = kv \<and> \<not> place_fails f s g kv)"
  proof (cases "seg_Insert4split (fst kv) (snd kv) (group_slot (f (fst kv))) g")
    case (Some g')
    with ins [OF Some sub(1)] show ?thesis by (simp add: seg_place_def place_fails_def)
  next
    case n1: None
    show ?thesis
    proof (cases "seg_Insert4split (fst kv) (snd kv) (group_slot (s (fst kv))) g")
      case (Some g')
      with ins [OF Some sub(2)] n1 show ?thesis by (simp add: seg_place_def place_fails_def)
    next
      case n2: None
      show ?thesis
      proof (cases "cuckoo_path f s (fst kv) g = []")
        case True
        with n1 n2 ok show ?thesis by (simp add: seg_place_def place_fails_def)
      next
        case False
        note c = cuckoo_path_chain [OF False, unfolded kv(2)]
        from execute_path_ok [OF c(1) ok c(3) kv c(2)] n1 n2 False show ?thesis
          by (simp add: seg_place_def place_fails_def)
      qed
    qed
  qed
  then show "seg_ok f s pattern (seg_place f s g kv)" "seg_depth (seg_place f s g kv) = seg_depth g"
    "holds_pair (seg_place f s g kv) k w \<longleftrightarrow> holds_pair g k w \<or> (k, w) = kv \<and> \<not> place_fails f s g kv" by blast+
qed

section \<open>All pairs\<close>

fun loses :: "hash_fn \<Rightarrow> hash_fn \<Rightarrow> segment \<Rightarrow> (u64 \<times> u64) list \<Rightarrow> bool" where
  "loses f s g [] \<longleftrightarrow> False"
| "loses f s g (kv # kvs) \<longleftrightarrow> place_fails f s g kv \<or> loses f s (seg_place f s g kv) kvs"

lemma place_all_ok:
  "seg_ok f s pattern g \<Longrightarrow> \<forall>kv \<in> set kvs. key_ok (fst kv) \<and> hash_prefix (seg_depth g) (f (fst kv)) = pattern \<Longrightarrow>
   seg_ok f s pattern (foldl (seg_place f s) g kvs) \<and> seg_depth (foldl (seg_place f s) g kvs) = seg_depth g \<and>
   (\<forall>k w. holds_pair (foldl (seg_place f s) g kvs) k w \<longrightarrow> holds_pair g k w \<or> (k, w) \<in> set kvs) \<and>
   (\<not> loses f s g kvs \<longrightarrow>
     (\<forall>k w. holds_pair (foldl (seg_place f s) g kvs) k w \<longleftrightarrow> holds_pair g k w \<or> (k, w) \<in> set kvs))"
proof (induction kvs arbitrary: g)
  case (Cons kv kvs)
  have kv: "key_ok (fst kv)" "hash_prefix (seg_depth g) (f (fst kv)) = pattern" using Cons.prems(2) by auto
  note p = seg_place_ok [OF Cons.prems(1) kv]
  have "\<forall>kv' \<in> set kvs. key_ok (fst kv') \<and> hash_prefix (seg_depth (seg_place f s g kv)) (f (fst kv')) = pattern"
    using Cons.prems(2) p(2) by simp
  from Cons.IH [OF p(1) this] show ?case using p(2,3) by simp blast
qed simp

definition split_bit_set :: "nat \<Rightarrow> u64 \<Rightarrow> bool" where
  "split_bit_set d h \<longleftrightarrow> h AND push_bit (64 - d - 1) 1 \<noteq> 0"

definition half_pairs :: "hash_fn \<Rightarrow> bool \<Rightarrow> segment \<Rightarrow> (u64 \<times> u64) list" where
  "half_pairs f b sg = filter (\<lambda>kv. fst kv \<noteq> INVALID \<and> (split_bit_set (seg_depth sg) (f (fst kv)) = b)) (seg_bucket sg)"

lemma split_foldl:
  "foldl (split_pair f s d) (g0, g1) kvs =
   (foldl (seg_place f s) g0 (filter (\<lambda>kv. fst kv \<noteq> INVALID \<and> (split_bit_set d (f (fst kv)) = False)) kvs),
    foldl (seg_place f s) g1 (filter (\<lambda>kv. fst kv \<noteq> INVALID \<and> (split_bit_set d (f (fst kv)) = True)) kvs))"
  by (induction kvs arbitrary: g0 g1) (auto simp: split_pair_def split_bit_set_def)

lemma seg_Split_halves:
  "seg_Split f s sg =
     (foldl (seg_place f s) (initSegment (seg_depth sg + 1)) (half_pairs f False sg),
      foldl (seg_place f s) (initSegment (seg_depth sg + 1)) (half_pairs f True sg))"
  unfolding seg_Split_def half_pairs_def by (rule split_foldl)

definition half_pattern :: "u64 \<Rightarrow> bool \<Rightarrow> u64" where
  "half_pattern pattern b = push_bit 1 pattern OR (if b then 1 else 0)"

lemma split_bit_iff: "d < 64 \<Longrightarrow> split_bit_set d h \<longleftrightarrow> bit h (63 - d)"
proof -
  assume d: "d < 64"
  then have e: "64 - d - 1 = 63 - d" "63 - d < 64" by auto
  show ?thesis unfolding split_bit_set_def e(1) push_bit_of_1 by (simp add: and_exp_eq_0_iff_not_bit)
qed

lemma hash_prefix_Suc:
  assumes "d < 64"
  shows "hash_prefix (Suc d) h = half_pattern (hash_prefix d h) (split_bit_set d h)"
proof (rule bit_word_eqI)
  fix n assume n: "n < LENGTH(64)"
  have e: "64 - Suc d = 63 - d" "64 - d = Suc (63 - d)" using assms by auto
  show "bit (hash_prefix (Suc d) h) n = bit (half_pattern (hash_prefix d h) (split_bit_set d h)) n"
    unfolding hash_prefix_def half_pattern_def split_bit_iff [OF assms] e bit_or_iff bit_push_bit_iff bit_drop_bit_eq comp_def
    using n by (cases n) (auto simp: bit_1_iff)
qed

definition half :: "hash_fn \<Rightarrow> hash_fn \<Rightarrow> bool \<Rightarrow> segment \<Rightarrow> segment" where
  "half f s b sg = (if b then snd (seg_Split f s sg) else fst (seg_Split f s sg))"

definition split_loses :: "hash_fn \<Rightarrow> hash_fn \<Rightarrow> segment \<Rightarrow> bool" where
  "split_loses f s sg \<longleftrightarrow> (\<exists>b. loses f s (initSegment (seg_depth sg + 1)) (half_pairs f b sg))"

lemma half_fold: "half f s b sg = foldl (seg_place f s) (initSegment (seg_depth sg + 1)) (half_pairs f b sg)"
  by (cases b) (simp_all add: half_def seg_Split_halves)

lemma half_pairs_keys:
  assumes "seg_ok f s pattern sg" "seg_depth sg < 64" "kv \<in> set (half_pairs f b sg)"
  shows "key_ok (fst kv)" "hash_prefix (Suc (seg_depth sg)) (f (fst kv)) = half_pattern pattern b"
proof -
  note D = seg_okD [OF assms(1)]
  from assms(3) have kv: "kv \<in> set (seg_bucket sg)" "fst kv \<noteq> INVALID" "split_bit_set (seg_depth sg) (f (fst kv)) = b"
    by (auto simp: half_pairs_def)
  from kv(1) obtain loc where l: "loc < kSegSlot" "seg_key sg loc = fst kv" using D(1) by (auto simp: in_set_conv_nth seg_key_def)
  from D(2) [OF l(1)] l(2) kv(2) have k: "fst kv \<noteq> SENTINEL" "hash_prefix (seg_depth sg) (f (fst kv)) = pattern" by auto
  show "key_ok (fst kv)" using k(1) kv(2) by (simp add: key_ok_def)
  show "hash_prefix (Suc (seg_depth sg)) (f (fst kv)) = half_pattern pattern b"
    unfolding hash_prefix_Suc [OF assms(2)] k(2) kv(3) ..
qed

text \<open>Every pair goes to the half its hash calls for; one that is missing there was lost by a failed displacement.\<close>

lemma seg_half_ok:
  assumes "seg_ok f s pattern sg" "seg_depth sg < 64"
  shows "seg_ok f s (half_pattern pattern b) (half f s b sg)" "seg_depth (half f s b sg) = Suc (seg_depth sg)"
    and "holds_pair (half f s b sg) k w \<Longrightarrow> holds_pair sg k w \<and> split_bit_set (seg_depth sg) (f k) = b"
    and "\<not> split_loses f s sg \<Longrightarrow>
      holds_pair (half f s b sg) k w \<longleftrightarrow> holds_pair sg k w \<and> split_bit_set (seg_depth sg) (f k) = b"
proof -
  have i: "seg_ok f s (half_pattern pattern b) (initSegment (seg_depth sg + 1))" by (rule initSegment_ok)
  have kv: "\<forall>kv \<in> set (half_pairs f b sg). key_ok (fst kv) \<and>
      hash_prefix (seg_depth (initSegment (seg_depth sg + 1))) (f (fst kv)) = half_pattern pattern b"
    using half_pairs_keys [OF assms] by (simp add: initSegment_ok)
  have mem: "(k, w) \<in> set (half_pairs f b sg) \<longleftrightarrow> holds_pair sg k w \<and> split_bit_set (seg_depth sg) (f k) = b" for k w
    by (auto simp: half_pairs_def holds_pair_def)
  from place_all_ok [OF i kv] have
    "seg_ok f s (half_pattern pattern b) (half f s b sg)" "seg_depth (half f s b sg) = Suc (seg_depth sg)"
    "\<forall>k w. holds_pair (half f s b sg) k w \<longrightarrow> (k, w) \<in> set (half_pairs f b sg)"
    "\<not> loses f s (initSegment (seg_depth sg + 1)) (half_pairs f b sg) \<longrightarrow>
      (\<forall>k w. holds_pair (half f s b sg) k w \<longleftrightarrow> (k, w) \<in> set (half_pairs f b sg))"
    unfolding half_fold by (auto simp: initSegment_ok)
  then show "seg_ok f s (half_pattern pattern b) (half f s b sg)" "seg_depth (half f s b sg) = Suc (seg_depth sg)"
    "holds_pair (half f s b sg) k w \<Longrightarrow> holds_pair sg k w \<and> split_bit_set (seg_depth sg) (f k) = b"
    "\<not> split_loses f s sg \<Longrightarrow>
      holds_pair (half f s b sg) k w \<longleftrightarrow> holds_pair sg k w \<and> split_bit_set (seg_depth sg) (f k) = b"
    unfolding mem split_loses_def by blast+
qed

end
