(* ===== verification/PageStore.thy ===== *)
theory PageStore
  imports Prelude
begin

text \<open>
  \<open>IOBackend\<close> (\<open>storage/io_backend/io_backend.h\<close>): numbered pages and a counter of page ids.
  A page is a value of type \<open>'p\<close>; \<open>empty_page\<close> is an argument of the allocation. \<open>GetPage\<close> reads
  a page and \<open>Unpin\<close> of a dirty page writes it back, so the callers are modelled as reads and
  writes of whole pages. The two device back ends behind the class only move pages.
\<close>

section \<open>The code\<close>

record 'p io_backend =
  next_page_id :: u64
  pages :: "u64 \<Rightarrow> 'p"

definition GetNextPageID :: "'p io_backend \<Rightarrow> u64" where
  "GetNextPageID b = next_page_id b"

definition SetNextPageID :: "u64 \<Rightarrow> 'p io_backend \<Rightarrow> 'p io_backend" where
  "SetNextPageID page_id b = b\<lparr>next_page_id := page_id\<rparr>"

definition ReadPage :: "u64 \<Rightarrow> 'p io_backend \<Rightarrow> 'p" where
  "ReadPage page_id b = pages b page_id"

definition WritePage :: "u64 \<Rightarrow> 'p \<Rightarrow> 'p io_backend \<Rightarrow> 'p io_backend" where
  "WritePage page_id p b = b\<lparr>pages := (pages b)(page_id := p)\<rparr>"

definition AllocatePage :: "'p \<Rightarrow> 'p io_backend \<Rightarrow> u64 \<times> 'p io_backend" where
  "AllocatePage empty_page b =
     (next_page_id b, WritePage (next_page_id b) empty_page (b\<lparr>next_page_id := next_page_id b + 1\<rparr>))"

fun AllocatePages :: "'p \<Rightarrow> nat \<Rightarrow> 'p io_backend \<Rightarrow> u64 list \<times> 'p io_backend" where
  "AllocatePages empty_page 0 b = ([], b)"
| "AllocatePages empty_page (Suc n) b =
     (case AllocatePage empty_page b of (p, b1) \<Rightarrow>
       case AllocatePages empty_page n b1 of (ps, b2) \<Rightarrow> (p # ps, b2))"

text \<open>An entry of a batch is its first page and its pages.\<close>

fun write_pages :: "u64 \<Rightarrow> 'p list \<Rightarrow> 'p io_backend \<Rightarrow> 'p io_backend" where
  "write_pages page_id [] b = b"
| "write_pages page_id (p # ps) b = write_pages (page_id + 1) ps (WritePage page_id p b)"

definition BatchWritePages :: "(u64 \<times> 'p list) list \<Rightarrow> 'p io_backend \<Rightarrow> 'p io_backend" where
  "BatchWritePages entries b = foldl (\<lambda>b e. write_pages (fst e) (snd e) b) b entries"

definition read_pages :: "u64 \<Rightarrow> nat \<Rightarrow> 'p io_backend \<Rightarrow> 'p list" where
  "read_pages page_id n b = map (\<lambda>i. ReadPage (page_id + of_nat i) b) [0..<n]"

definition BatchReadPages :: "(u64 \<times> nat) list \<Rightarrow> 'p io_backend \<Rightarrow> 'p list list" where
  "BatchReadPages entries b = map (\<lambda>e. read_pages (fst e) (snd e) b) entries"

section \<open>Fresh pages\<close>

text \<open>\<open>room n b\<close>: the counter can be raised \<open>n\<close> times without passing the last page id.\<close>

definition room :: "nat \<Rightarrow> 'p io_backend \<Rightarrow> bool" where
  "room n b \<longleftrightarrow> unat (next_page_id b) + n < 2 ^ 64"

definition allocated :: "'p io_backend \<Rightarrow> u64 \<Rightarrow> bool" where
  "allocated b p \<longleftrightarrow> unat p < unat (next_page_id b)"

lemma write_simps [simp]:
  "pages (WritePage p x b) q = (if q = p then x else pages b q)"
  "next_page_id (WritePage p x b) = next_page_id b"
  "allocated (WritePage p x b) q = allocated b q" "room n (WritePage p x b) = room n b"
  by (simp_all add: WritePage_def allocated_def room_def)

lemma read_pages_eq [simp]: "ReadPage p b = pages b p"
  by (simp add: ReadPage_def)

lemma room_mono: "room n b \<Longrightarrow> m \<le> n \<Longrightarrow> room m b"
  by (simp add: room_def)

lemma unat_add_small: "unat (p :: u64) + n < 2 ^ 64 \<Longrightarrow> unat (p + of_nat n) = unat p + n"
  by (simp add: unat_word_ariths unat_of_nat_small)

lemma allocate_page:
  assumes "AllocatePage e b = (p, b')" "room (Suc n) b"
  shows "p = next_page_id b" "pages b' q = (if q = p then e else pages b q)" "room n b'"
    "unat (next_page_id b') = Suc (unat (next_page_id b))"
    "allocated b' q \<longleftrightarrow> allocated b q \<or> q = p" "\<not> allocated b p"
proof -
  have e: "p = next_page_id b" "b' = WritePage p e (b\<lparr>next_page_id := next_page_id b + 1\<rparr>)"
    using assms(1) by (auto simp: AllocatePage_def)
  have u: "unat (next_page_id b + 1) = Suc (unat (next_page_id b))"
    using unat_add_small [of "next_page_id b" 1] assms(2) by (simp add: room_def)
  show "p = next_page_id b" by (rule e)
  show "pages b' q = (if q = p then e else pages b q)" by (simp add: e(2))
  show "unat (next_page_id b') = Suc (unat (next_page_id b))" using u by (simp add: e(2))
  show "room n b'" using assms(2) u by (simp add: e(2) room_def)
  show "\<not> allocated b p" by (simp add: allocated_def e(1))
  show "allocated b' q \<longleftrightarrow> allocated b q \<or> q = p"
    using u by (auto simp: e allocated_def less_Suc_eq word_unat_eq_iff)
qed

lemma allocate_pages:
  assumes "AllocatePages e m b = (ps, b')" "room (n + m) b"
  shows "length ps = m" "distinct ps" "pages b' q = (if q \<in> set ps then e else pages b q)" "room n b'"
    "allocated b' q \<longleftrightarrow> allocated b q \<or> q \<in> set ps" "q \<in> set ps \<Longrightarrow> \<not> allocated b q"
proof -
  have "length ps = m \<and> distinct ps \<and> (\<forall>q. pages b' q = (if q \<in> set ps then e else pages b q)) \<and> room n b' \<and>
      (\<forall>q. allocated b' q \<longleftrightarrow> allocated b q \<or> q \<in> set ps) \<and> (\<forall>q \<in> set ps. \<not> allocated b q)"
    using assms
  proof (induction m arbitrary: b ps)
    case (Suc m)
    obtain p b1 where a: "AllocatePage e b = (p, b1)" by fastforce
    obtain qs b2 where r: "AllocatePages e m b1 = (qs, b2)" by fastforce
    have e: "ps = p # qs" "b' = b2" using Suc.prems(1) by (simp_all add: a r)
    have "room (Suc (n + m)) b" using Suc.prems(2) by simp
    note A = allocate_page [OF a this]
    from Suc.IH [OF r [folded e(2)] A(3)]
    have I: "length qs = m" "distinct qs" "\<And>q. pages b' q = (if q \<in> set qs then e else pages b1 q)" "room n b'"
      "\<And>q. allocated b' q \<longleftrightarrow> allocated b1 q \<or> q \<in> set qs" "\<And>q. q \<in> set qs \<Longrightarrow> \<not> allocated b1 q"
      by auto
    have "p \<notin> set qs" using I(6) [of p] A(5) [of p] by blast
    then show ?case using I A(2,5,6) by (auto simp: e(1))
  qed simp
  then show "length ps = m" "distinct ps" "pages b' q = (if q \<in> set ps then e else pages b q)" "room n b'"
    "allocated b' q \<longleftrightarrow> allocated b q \<or> q \<in> set ps" "q \<in> set ps \<Longrightarrow> \<not> allocated b q" by blast+
qed

text \<open>A batch reads back what a batch wrote.\<close>

lemma write_pages_pages:
  "unat s + length ps < 2 ^ 64 \<Longrightarrow>
   pages (write_pages s ps b) q = (if unat s \<le> unat q \<and> unat q < unat s + length ps then ps ! (unat q - unat s) else pages b q)"
proof (induction ps arbitrary: s b)
  case (Cons p ps)
  have u: "unat (s + 1) = Suc (unat s)" using unat_add_small [of s 1] Cons.prems by simp
  have "pages (write_pages s (p # ps) b) q = (if Suc (unat s) \<le> unat q \<and> unat q < Suc (unat s) + length ps
      then ps ! (unat q - Suc (unat s)) else if q = s then p else pages b q)"
    using Cons.IH [of "s + 1" "WritePage s p b"] Cons.prems by (simp add: u)
  then show ?case by (auto simp: word_unat_eq_iff nth_Cons' not_less_eq_eq Suc_diff_le)
qed auto

lemma read_after_write:
  assumes "unat s + length ps < 2 ^ 64"
  shows "read_pages s (length ps) (write_pages s ps b) = ps"
proof (rule nth_equalityI)
  show "length (read_pages s (length ps) (write_pages s ps b)) = length ps" by (simp add: read_pages_def)
  fix i assume "i < length (read_pages s (length ps) (write_pages s ps b))"
  then have i: "i < length ps" by (simp add: read_pages_def)
  then have "unat (s + of_nat i) = unat s + i" using assms by (intro unat_add_small) simp
  then show "read_pages s (length ps) (write_pages s ps b) ! i = ps ! i"
    using i by (simp add: read_pages_def write_pages_pages [OF assms])
qed

end
