(* ===== verification/CCEH.thy ===== *)
theory CCEH
  imports CCEHSplit PageStore
begin

unbundle bit_operations_syntax

text \<open>
  \<open>CCEH\<close> (\<open>storage/ssd/CCEH.h\<close>, \<open>CCEH.cpp\<close>), the hash index on pages: a header page points to
  directory pages, whose entries point to segment pages. One thread: the locks, the re-validation
  after a lock (which reads the pages a second time) and the back-off are not modelled.
\<close>

section \<open>The code\<close>

definition kNumPointers :: nat where "kNumPointers = 512"
definition kMaxDirectoryPages :: nat where "kMaxDirectoryPages = 510"

record dir_header =
  hdr_depth :: nat
  hdr_capacity :: nat
  hdr_pages :: "u64 list"

definition initDirectory :: "nat \<Rightarrow> dir_header \<Rightarrow> dir_header" where
  "initDirectory depth h = h\<lparr>hdr_depth := depth,
     hdr_capacity := (if 2 ^ depth div kNumPointers > kMaxDirectoryPages then kMaxDirectoryPages * kNumPointers else 2 ^ depth)\<rparr>"

text \<open>
  What a page holds. The code casts a page to the type it expects: a blank page is 4096 zero
  bytes and can be read as any of the three; reading one kind as another never happens
  in a well-formed index, and is \<open>Bad_access\<close> in the model.
\<close>

datatype page = Blank | Header_page dir_header | Directory_page "u64 list" | Segment_page segment

definition zero_header :: dir_header where
  "zero_header = \<lparr>hdr_depth = 0, hdr_capacity = 0, hdr_pages = replicate kMaxDirectoryPages 0\<rparr>"

fun as_header :: "page \<Rightarrow> dir_header result" where
  "as_header (Header_page h) = Inr h"
| "as_header Blank = Inr zero_header"
| "as_header _ = Inl Bad_access"

fun as_directory :: "page \<Rightarrow> u64 list result" where
  "as_directory (Directory_page l) = Inr l"
| "as_directory Blank = Inr (replicate kNumPointers 0)"
| "as_directory _ = Inl Bad_access"

fun as_segment :: "page \<Rightarrow> segment result" where
  "as_segment (Segment_page sg) = Inr sg"
| "as_segment Blank = Inr \<lparr>seg_bucket = replicate kSegSlot (0, 0), seg_depth = 0\<rparr>"
| "as_segment _ = Inl Bad_access"

record cceh =
  cceh_io :: "page io_backend"
  cceh_root :: u64
  cceh_crashed :: bool

text \<open>Reading and writing the entry \<open>i\<close> of a directory.\<close>

definition dir_read :: "page io_backend \<Rightarrow> dir_header \<Rightarrow> nat \<Rightarrow> u64 result" where
  "dir_read b h i = bind_result (as_directory (ReadPage (hdr_pages h ! (i div kNumPointers)) b))
     (\<lambda>l. Inr (l ! (i mod kNumPointers)))"

definition dir_write :: "dir_header \<Rightarrow> nat \<Rightarrow> u64 \<Rightarrow> page io_backend \<Rightarrow> page io_backend result" where
  "dir_write h i p b = (let pid = hdr_pages h ! (i div kNumPointers) in
     bind_result (as_directory (ReadPage pid b))
       (\<lambda>l. Inr (WritePage pid (Directory_page (l[i mod kNumPointers := p])) b)))"

fun dir_write_all :: "dir_header \<Rightarrow> (nat \<Rightarrow> u64 result) \<Rightarrow> nat list \<Rightarrow> page io_backend \<Rightarrow> page io_backend result" where
  "dir_write_all h g [] b = Inr b"
| "dir_write_all h g (i # is) b =
     bind_result (g i) (\<lambda>p. bind_result (dir_write h i p b) (dir_write_all h g is))"

text \<open>Number of directory pages for a capacity, and the pages themselves allocated into a header.\<close>

definition num_dir_pages :: "nat \<Rightarrow> nat" where
  "num_dir_pages capacity = (capacity + kNumPointers - 1) div kNumPointers"

definition allocate_dir_pages :: "dir_header \<Rightarrow> page io_backend \<Rightarrow> dir_header \<times> page io_backend" where
  "allocate_dir_pages h b =
     (case AllocatePages Blank (num_dir_pages (hdr_capacity h)) b of (ps, b') \<Rightarrow>
        (h\<lparr>hdr_pages := ps @ drop (length ps) (hdr_pages h)\<rparr>, b'))"

text \<open>The constructor's \<open>initCCEH\<close>: \<open>static_cast<size_t>(log2(n))\<close> is the floor of the logarithm, \<open>log2_floor\<close> of theory ExtendibleHash.\<close>

fun init_segments :: "dir_header \<Rightarrow> nat \<Rightarrow> nat list \<Rightarrow> page io_backend \<Rightarrow> page io_backend result" where
  "init_segments h depth [] b = Inr b"
| "init_segments h depth (i # is) b =
     (case AllocatePage Blank b of (p, b1) \<Rightarrow>
        bind_result (dir_write h i p b1) (\<lambda>b2.
          init_segments h depth is (WritePage p (Segment_page (initSegment depth)) b2)))"

definition initCCEH :: "nat \<Rightarrow> page io_backend \<Rightarrow> cceh result" where
  "initCCEH initCap b =
     (case AllocatePage Blank b of (root, b1) \<Rightarrow>
        bind_result (as_header (ReadPage root b1)) (\<lambda>h0.
          case allocate_dir_pages (initDirectory (log2_floor initCap) h0) b1 of (h, b2) \<Rightarrow>
            bind_result (init_segments h (log2_floor initCap) [0..<hdr_capacity h] b2) (\<lambda>b3.
              Inr \<lparr>cceh_io = WritePage root (Header_page h) b3, cceh_root = root, cceh_crashed = False\<rparr>)))"

text \<open>
  Header, directory entry number and segment page of a hash. An entry past the capacity makes
  the code wait and try again; on one thread nothing changes while it waits.
\<close>

definition cceh_locate :: "u64 \<Rightarrow> cceh \<Rightarrow> (dir_header \<times> nat \<times> u64) result" where
  "cceh_locate f_hash c =
     bind_result (as_header (ReadPage (cceh_root c) (cceh_io c))) (\<lambda>h.
       let x = unat (hash_prefix (hdr_depth h) f_hash) in
       if x \<ge> hdr_capacity h then Inl No_return
       else bind_result (dir_read (cceh_io c) h x) (\<lambda>p. Inr (h, x, p)))"

definition cceh_Get :: "hash_fn \<Rightarrow> hash_fn \<Rightarrow> u64 \<Rightarrow> cceh \<Rightarrow> u64 result" where
  "cceh_Get f s key c =
     bind_result (cceh_locate (f key) c) (\<lambda>(h, x, p).
       if p = - 1 then Inl No_return
       else bind_result (as_segment (ReadPage p (cceh_io c))) (\<lambda>sg.
         case seg_get f s key sg of Some v \<Rightarrow> Inr v | None \<Rightarrow> Inr NONE))"

text \<open>One turn of the loop of \<open>Put\<close>: it returns, or goes round again.\<close>

datatype put_step = Done cceh | Again cceh

definition split_pages :: "hash_fn \<Rightarrow> hash_fn \<Rightarrow> segment \<Rightarrow> page io_backend \<Rightarrow> u64 \<times> u64 \<times> page io_backend" where
  "split_pages f s sg b =
     (case AllocatePage Blank b of (p0, b1) \<Rightarrow>
        case AllocatePage Blank b1 of (p1, b2) \<Rightarrow>
          (p0, p1, WritePage p1 (Segment_page (snd (seg_Split f s sg)))
                     (WritePage p0 (Segment_page (fst (seg_Split f s sg))) b2)))"

text \<open>
  Directory expansion: a new header of twice the capacity, unless 510 directory pages cannot
  hold it; then \<open>Put\<close> returns with a message on \<open>cerr\<close>.
\<close>

definition cceh_expand :: "dir_header \<Rightarrow> nat \<Rightarrow> u64 \<Rightarrow> u64 \<Rightarrow> cceh \<Rightarrow> put_step result" where
  "cceh_expand old x p0 p1 c =
     (if (hdr_capacity old * 2) div kNumPointers > kMaxDirectoryPages then Inr (Done c)
      else case AllocatePage Blank (cceh_io c) of (root, b1) \<Rightarrow>
        bind_result (as_header (ReadPage root b1)) (\<lambda>h0.
          case allocate_dir_pages (initDirectory (hdr_depth old + 1) h0) b1 of (h, b2) \<Rightarrow>
            bind_result
              (dir_write_all h
                (\<lambda>i. if i div 2 = x then Inr (if i mod 2 = 0 then p0 else p1) else dir_read b2 old (i div 2))
                [0..<hdr_capacity h] b2)
              (\<lambda>b3. Inr (Again (c\<lparr>cceh_io := WritePage root (Header_page h) b3, cceh_root := root\<rparr>)))))"

text \<open>A split below the directory's depth: the upper half of the stride first.\<close>

definition cceh_redirect :: "dir_header \<Rightarrow> nat \<Rightarrow> nat \<Rightarrow> u64 \<Rightarrow> u64 \<Rightarrow> cceh \<Rightarrow> put_step result" where
  "cceh_redirect h depth x p0 p1 c =
     (let stride = 2 ^ (hdr_depth h - depth); loc = x - x mod stride in
      bind_result (dir_write_all h (\<lambda>_. Inr p1) (map (\<lambda>i. loc + stride div 2 + i) [0..<stride div 2]) (cceh_io c)) (\<lambda>b1.
        bind_result (dir_write_all h (\<lambda>_. Inr p0) (map (\<lambda>i. loc + i) [0..<stride div 2]) b1) (\<lambda>b2.
          Inr (Again (c\<lparr>cceh_io := b2\<rparr>)))))"

definition put_once :: "hash_fn \<Rightarrow> hash_fn \<Rightarrow> u64 \<Rightarrow> u64 \<Rightarrow> cceh \<Rightarrow> put_step result" where
  "put_once f s key value c =
     bind_result (cceh_locate (f key) c) (\<lambda>(h, x, target).
       bind_result (as_segment (ReadPage target (cceh_io c))) (\<lambda>sg.
         case put_scan f (hash_prefix (seg_depth sg) (f key)) key value (probe f s key) sg of
           Some sg' \<Rightarrow> Inr (Done (c\<lparr>cceh_io := WritePage target (Segment_page sg') (cceh_io c)\<rparr>))
         | None \<Rightarrow>
             (case split_pages f s sg (cceh_io c) of (p0, p1, b) \<Rightarrow>
                if seg_depth sg = hdr_depth h then cceh_expand h x p0 p1 (c\<lparr>cceh_io := b\<rparr>)
                else cceh_redirect h (seg_depth sg) x p0 p1 (c\<lparr>cceh_io := b\<rparr>))))"

text \<open>\<open>while (true)\<close> with fuel; out of fuel is \<open>No_return\<close>, excluded for 18 turns below.\<close>

fun put_loop :: "nat \<Rightarrow> hash_fn \<Rightarrow> hash_fn \<Rightarrow> u64 \<Rightarrow> u64 \<Rightarrow> cceh \<Rightarrow> cceh result" where
  "put_loop 0 f s key value c = Inl No_return"
| "put_loop (Suc n) f s key value c =
     bind_result (put_once f s key value c) (\<lambda>r.
       case r of Done c' \<Rightarrow> Inr c' | Again c' \<Rightarrow> put_loop n f s key value c')"

definition cceh_Put :: "hash_fn \<Rightarrow> hash_fn \<Rightarrow> u64 \<Rightarrow> u64 \<Rightarrow> cceh \<Rightarrow> cceh result" where
  "cceh_Put = put_loop 18"

definition cceh_Delete :: "u64 \<Rightarrow> cceh \<Rightarrow> bool" where
  "cceh_Delete key c = False"

fun cceh_BatchPut :: "hash_fn \<Rightarrow> hash_fn \<Rightarrow> (u64 \<times> u64) list \<Rightarrow> cceh \<Rightarrow> cceh result" where
  "cceh_BatchPut f s [] c = Inr c"
| "cceh_BatchPut f s (kv # kvs) c = bind_result (cceh_Put f s (fst kv) (snd kv) c) (cceh_BatchPut f s kvs)"

fun cceh_BatchGet :: "hash_fn \<Rightarrow> hash_fn \<Rightarrow> u64 list \<Rightarrow> cceh \<Rightarrow> u64 list result" where
  "cceh_BatchGet f s [] c = Inr []"
| "cceh_BatchGet f s (k # ks) c =
     bind_result (cceh_Get f s k c) (\<lambda>v. bind_result (cceh_BatchGet f s ks c) (\<lambda>vs. Inr (v # vs)))"

end
