(* ===== verification/CCEHFlat.thy ===== *)
theory CCEHFlat
  imports CCEHSplit
begin

unbundle bit_operations_syntax

text \<open>
  The index seen without its pages: a directory \<open>P\<close> of \<open>2 ^ depth\<close> entries and the segment \<open>S p\<close>
  behind each. A segment of local depth \<open>L\<close> is shared by the entries that agree on their first
  \<open>L\<close> bits. The three ways \<open>Put\<close> changes the index, a store in one segment, a doubled directory
  and a split, keep this.
\<close>

section \<open>Directory entries of a hash\<close>

definition dir_index :: "hash_fn \<Rightarrow> nat \<Rightarrow> u64 \<Rightarrow> nat" where
  "dir_index f depth k = unat (hash_prefix depth (f k))"

lemma hash_prefix_unat: "d \<le> 64 \<Longrightarrow> unat (hash_prefix d h) = unat h div 2 ^ (64 - d)"
  by (simp add: hash_prefix_def unat_drop_bit_div)

lemma dir_index_less: assumes "d \<le> 64" shows "dir_index f d k < 2 ^ d"
proof -
  have "unat (f k) < 2 ^ (d + (64 - d))" using assms unsigned_less [of "f k"] by simp
  then have "unat (f k) < 2 ^ d * 2 ^ (64 - d)" by (simp only: power_add)
  then show ?thesis unfolding dir_index_def hash_prefix_unat [OF assms] by (intro less_mult_imp_div_less)
qed

lemma dir_index_div: assumes "L \<le> d" "d \<le> 64" shows "dir_index f d k div 2 ^ (d - L) = dir_index f L k"
proof -
  have e: "(64 - d) + (d - L) = 64 - L" using assms by simp
  have "unat (f k) div 2 ^ (64 - d) div 2 ^ (d - L) = unat (f k) div 2 ^ ((64 - d) + (d - L))"
    by (simp only: div_mult2_eq power_add)
  then show ?thesis using assms unfolding e by (simp add: dir_index_def hash_prefix_unat)
qed

lemma dir_index_pattern: "L \<le> d \<Longrightarrow> d \<le> 64 \<Longrightarrow> of_nat (dir_index f d k div 2 ^ (d - L)) = hash_prefix L (f k)"
  by (simp only: dir_index_div) (simp add: dir_index_def)

section \<open>The invariant\<close>

definition flat_ok :: "hash_fn \<Rightarrow> hash_fn \<Rightarrow> nat \<Rightarrow> (nat \<Rightarrow> u64) \<Rightarrow> (u64 \<Rightarrow> segment) \<Rightarrow> bool" where
  "flat_ok f s depth P S \<longleftrightarrow>
     (\<forall>x < 2 ^ depth. 1 \<le> seg_depth (S (P x)) \<and> seg_depth (S (P x)) \<le> depth \<and>
        seg_ok f s (of_nat (x div 2 ^ (depth - seg_depth (S (P x))))) (S (P x)) \<and>
        (\<forall>y < 2 ^ depth. P x = P y \<longleftrightarrow>
           x div 2 ^ (depth - seg_depth (S (P x))) = y div 2 ^ (depth - seg_depth (S (P x)))))"

lemma flat_okD:
  assumes "flat_ok f s depth P S" "x < 2 ^ depth"
  shows "1 \<le> seg_depth (S (P x))" "seg_depth (S (P x)) \<le> depth"
    "seg_ok f s (of_nat (x div 2 ^ (depth - seg_depth (S (P x))))) (S (P x))"
    "y < 2 ^ depth \<Longrightarrow> P x = P y \<longleftrightarrow>
       x div 2 ^ (depth - seg_depth (S (P x))) = y div 2 ^ (depth - seg_depth (S (P x)))"
  using assms unfolding flat_ok_def by blast+

text \<open>The segment of a key is well-formed for the key's own prefix.\<close>

definition flat_seg :: "hash_fn \<Rightarrow> nat \<Rightarrow> (nat \<Rightarrow> u64) \<Rightarrow> (u64 \<Rightarrow> segment) \<Rightarrow> u64 \<Rightarrow> segment" where
  "flat_seg f depth P S k = S (P (dir_index f depth k))"

lemma flat_seg_ok:
  assumes "flat_ok f s depth P S" "depth \<le> 64"
  shows "seg_ok f s (hash_prefix (seg_depth (flat_seg f depth P S k)) (f k)) (flat_seg f depth P S k)"
    "seg_depth (flat_seg f depth P S k) \<le> depth" "1 \<le> seg_depth (flat_seg f depth P S k)"
proof -
  note D = flat_okD [OF assms(1) dir_index_less [OF assms(2), of f k]]
  show "seg_depth (flat_seg f depth P S k) \<le> depth" "1 \<le> seg_depth (flat_seg f depth P S k)"
    using D(1,2) by (simp_all add: flat_seg_def)
  show "seg_ok f s (hash_prefix (seg_depth (flat_seg f depth P S k)) (f k)) (flat_seg f depth P S k)"
    using D(3) dir_index_pattern [OF D(2) assms(2)] by (simp add: flat_seg_def)
qed

section \<open>A store in one segment\<close>

lemma flat_store:
  assumes ok: "flat_ok f s depth P S" and x: "x < 2 ^ depth"
    and sg: "seg_depth sg = seg_depth (S (P x))" "seg_ok f s (of_nat (x div 2 ^ (depth - seg_depth sg))) sg"
  shows "flat_ok f s depth P (S(P x := sg))"
  unfolding flat_ok_def
proof (intro allI impI)
  fix y :: nat assume y: "y < 2 ^ depth"
  note D = flat_okD [OF ok y] and X = flat_okD [OF ok x]
  have d: "seg_depth ((S(P x := sg)) (P y)) = seg_depth (S (P y))" using sg(1) by simp
  have "seg_ok f s (of_nat (y div 2 ^ (depth - seg_depth (S (P y))))) ((S(P x := sg)) (P y))"
  proof (cases "P y = P x")
    case True
    then have "x div 2 ^ (depth - seg_depth (S (P x))) = y div 2 ^ (depth - seg_depth (S (P x)))" using X(4) [OF y] by simp
    with True sg show ?thesis by simp
  qed (use D(3) in simp)
  then show "1 \<le> seg_depth ((S(P x := sg)) (P y)) \<and> seg_depth ((S(P x := sg)) (P y)) \<le> depth \<and>
        seg_ok f s (of_nat (y div 2 ^ (depth - seg_depth ((S(P x := sg)) (P y))))) ((S(P x := sg)) (P y)) \<and>
        (\<forall>z < 2 ^ depth. P y = P z \<longleftrightarrow>
           y div 2 ^ (depth - seg_depth ((S(P x := sg)) (P y))) = z div 2 ^ (depth - seg_depth ((S(P x := sg)) (P y))))"
    unfolding d using D(1,2,4) by blast
qed

section \<open>A doubled directory\<close>

lemma flat_double:
  assumes ok: "flat_ok f s depth P S"
  shows "flat_ok f s (Suc depth) (\<lambda>i. P (i div 2)) S"
  unfolding flat_ok_def
proof (intro allI impI)
  fix x :: nat assume "x < 2 ^ Suc depth"
  then have x: "x div 2 < 2 ^ depth" by simp
  note D = flat_okD [OF ok x]
  let ?L = "seg_depth (S (P (x div 2)))"
  have e: "i div 2 div 2 ^ (depth - ?L) = i div 2 ^ (Suc depth - ?L)" for i :: nat
    using D(2) by (simp add: div_mult2_eq [symmetric] Suc_diff_le)
  have "P (x div 2) = P (y div 2) \<longleftrightarrow> x div 2 ^ (Suc depth - ?L) = y div 2 ^ (Suc depth - ?L)" if "y < 2 ^ Suc depth" for y
    using D(4) [of "y div 2"] that unfolding e by simp
  with D(1,2,3) show "1 \<le> ?L \<and> ?L \<le> Suc depth \<and> seg_ok f s (of_nat (x div 2 ^ (Suc depth - ?L))) (S (P (x div 2))) \<and>
      (\<forall>y < 2 ^ Suc depth. P (x div 2) = P (y div 2) \<longleftrightarrow> x div 2 ^ (Suc depth - ?L) = y div 2 ^ (Suc depth - ?L))"
    unfolding e by simp
qed

lemma flat_seg_double:
  "Suc depth \<le> 64 \<Longrightarrow> flat_seg f (Suc depth) (\<lambda>i. P (i div 2)) S k = flat_seg f depth P S k"
  using dir_index_div [of depth "Suc depth" f k] by (simp add: flat_seg_def)

section \<open>A split\<close>

text \<open>The directory after the entries of one stride, of length \<open>2 * 2 ^ m\<close>, were redirected.\<close>

definition redirected :: "(nat \<Rightarrow> u64) \<Rightarrow> nat \<Rightarrow> nat \<Rightarrow> u64 \<Rightarrow> u64 \<Rightarrow> nat \<Rightarrow> u64" where
  "redirected P m x p0 p1 i =
     (if i div (2 * 2 ^ m) = x div (2 * 2 ^ m) then (if even (i div 2 ^ m) then p0 else p1) else P i)"

lemma half_pattern_of_nat:
  assumes "z < 2 ^ 63"
  shows "half_pattern (of_nat z) b = of_nat (2 * z + (if b then 1 else 0))"
proof -
  have "push_bit 1 (of_nat z :: u64) = of_nat (2 * z)" by (simp add: push_bit_eq_mult)
  moreover have "(of_nat (2 * z) :: u64) OR 1 = of_nat (2 * z) + 1" by (simp add: or_one_eq)
  ultimately show ?thesis by (cases b) (simp_all add: half_pattern_def mult.commute)
qed

lemma half_and_bit: "(n :: nat) = 2 * (n div 2) + (if odd n then 1 else 0)"
  by simp

lemma odd_half_pattern: "odd (unat (half_pattern w b)) \<longleftrightarrow> b"
proof -
  have "odd (unat (half_pattern w b)) \<longleftrightarrow> bit (unat (half_pattern w b)) 0" by (simp only: bit_0)
  also have "\<dots> \<longleftrightarrow> b"
    unfolding half_pattern_def bit_unsigned_iff bit_or_iff bit_push_bit_iff by (simp add: bit_1_iff)
  finally show ?thesis .
qed

lemma flat_split:
  assumes ok: "flat_ok f s depth P S" and x: "x < 2 ^ depth" and depth: "depth \<le> 63"
    and m: "depth - seg_depth (S (P x)) = Suc m"
    and fresh: "p0 \<noteq> p1" "\<And>y. y < 2 ^ depth \<Longrightarrow> P y \<noteq> p0 \<and> P y \<noteq> p1"
    and S': "S' p0 = half f s False (S (P x))" "S' p1 = half f s True (S (P x))"
      "\<And>y. y < 2 ^ depth \<Longrightarrow> S' (P y) = S (P y)"
  shows "flat_ok f s depth (redirected P m x p0 p1) S'"
proof -
  let ?L = "seg_depth (S (P x))" and ?X = "x div (2 * 2 ^ m)" and ?Q = "redirected P m x p0 p1"
  note X = flat_okD [OF ok x]
  have L: "depth - Suc ?L = m" "?L < 64" "Suc ?L \<le> depth" using m depth by auto
  have st: "(2 :: nat) ^ (depth - ?L) = 2 * 2 ^ m" unfolding m by simp
  have h2: "i div (2 * 2 ^ m) = i div 2 ^ m div 2" for i :: nat by (metis div_mult2_eq mult.commute)
  have "?X < 2 ^ 63"
    using x depth by (meson div_le_dividend le_less_trans less_le_trans one_le_numeral power_increasing)
  then have pat: "half_pattern (of_nat ?X) b = of_nat (2 * ?X + (if b then 1 else 0))" for b by (rule half_pattern_of_nat)
  have seg: "seg_ok f s (of_nat ?X) (S (P x))" using X(3) unfolding st .
  have H: "seg_ok f s (of_nat (2 * ?X + (if b then 1 else 0))) (half f s b (S (P x)))"
    "seg_depth (half f s b (S (P x))) = Suc ?L" for b
    using seg_half_ok(1,2) [OF seg L(2), of b] unfolding pat by simp_all
  have P_eq: "P y = P x \<longleftrightarrow> y div (2 * 2 ^ m) = ?X" if "y < 2 ^ depth" for y
    using X(4) [OF that] unfolding st by (metis)
  show ?thesis
    unfolding flat_ok_def
  proof (intro allI impI)
    fix y :: nat assume y: "y < 2 ^ depth"
    show "1 \<le> seg_depth (S' (?Q y)) \<and> seg_depth (S' (?Q y)) \<le> depth \<and>
        seg_ok f s (of_nat (y div 2 ^ (depth - seg_depth (S' (?Q y))))) (S' (?Q y)) \<and>
        (\<forall>z < 2 ^ depth. ?Q y = ?Q z \<longleftrightarrow>
           y div 2 ^ (depth - seg_depth (S' (?Q y))) = z div 2 ^ (depth - seg_depth (S' (?Q y))))"
    proof (cases "y div (2 * 2 ^ m) = ?X")
      case True
      define b where "b = odd (y div 2 ^ m)"
      have q: "?Q y = (if b then p1 else p0)" using True by (simp add: redirected_def b_def)
      then have sy: "S' (?Q y) = half f s b (S (P x))" using S' by simp
      have yd: "y div 2 ^ m = 2 * ?X + (if b then 1 else 0)"
        using True half_and_bit [of "y div 2 ^ m"] unfolding h2 b_def by simp
      have "?Q y = ?Q z \<longleftrightarrow> y div 2 ^ m = z div 2 ^ m" if z: "z < 2 ^ depth" for z
      proof (cases "z div (2 * 2 ^ m) = ?X")
        case True
        have "z div 2 ^ m = 2 * ?X + (if odd (z div 2 ^ m) then 1 else 0)"
          using True half_and_bit [of "z div 2 ^ m"] unfolding h2 by simp
        moreover have "?Q z = (if odd (z div 2 ^ m) then p1 else p0)" using True by (simp add: redirected_def)
        ultimately show ?thesis using q yd fresh(1) by (auto split: if_splits)
      next
        case False
        then have "?Q z = P z" "z div 2 ^ m \<noteq> y div 2 ^ m" using \<open>y div (2 * 2 ^ m) = ?X\<close> by (auto simp: redirected_def h2)
        with q fresh(2) [OF z] show ?thesis by auto
      qed
      then show ?thesis unfolding sy H(2) L(1) yd [symmetric] using H(1) [of b] L(3) yd by simp
    next
      case False
      then have q: "?Q y = P y" by (simp add: redirected_def)
      note D = flat_okD [OF ok y]
      have nx: "P y \<noteq> P x" using P_eq [OF y] False by simp
      have "P y = ?Q z \<longleftrightarrow> P y = P z" if z: "z < 2 ^ depth" for z
      proof (cases "z div (2 * 2 ^ m) = ?X")
        case True
        then have "P z = P x" using P_eq [OF z] by simp
        then show ?thesis using True nx fresh(2) [OF y] by (auto simp: redirected_def)
      qed (simp add: redirected_def)
      with D S'(3) [OF y] show ?thesis unfolding q by simp
    qed
  qed
qed

lemma flat_seg_split:
  assumes ok: "flat_ok f s depth P S" and x: "x < 2 ^ depth" and depth: "depth \<le> 63"
    and m: "depth - seg_depth (S (P x)) = Suc m"
    and S': "S' p0 = half f s False (S (P x))" "S' p1 = half f s True (S (P x))"
      "\<And>y. y < 2 ^ depth \<Longrightarrow> S' (P y) = S (P y)"
  shows "flat_seg f depth (redirected P m x p0 p1) S' k =
    (if P (dir_index f depth k) = P x
     then half f s (split_bit_set (seg_depth (S (P x))) (f k)) (flat_seg f depth P S k) else flat_seg f depth P S k)"
proof -
  let ?L = "seg_depth (S (P x))" and ?i = "dir_index f depth k"
  note X = flat_okD [OF ok x]
  have i: "?i < 2 ^ depth" using depth by (intro dir_index_less) simp
  have st: "(2 :: nat) ^ (depth - ?L) = 2 * 2 ^ m" unfolding m by simp
  have P_eq: "P ?i = P x \<longleftrightarrow> ?i div (2 * 2 ^ m) = x div (2 * 2 ^ m)" using X(4) [OF i] unfolding st by metis
  have "?i div 2 ^ (depth - Suc ?L) = dir_index f (Suc ?L) k" using m depth by (intro dir_index_div) auto
  moreover have "depth - Suc ?L = m" using m by simp
  ultimately have "?i div 2 ^ m = dir_index f (Suc ?L) k" by simp
  also have "\<dots> = unat (half_pattern (hash_prefix ?L (f k)) (split_bit_set ?L (f k)))"
    unfolding dir_index_def using m depth by (subst hash_prefix_Suc) auto
  finally have e: "?i div 2 ^ m = unat (half_pattern (hash_prefix ?L (f k)) (split_bit_set ?L (f k)))" .
  have o: "odd (?i div 2 ^ m) \<longleftrightarrow> split_bit_set ?L (f k)" unfolding e by (rule odd_half_pattern)
  show ?thesis
    using P_eq o S' i by (auto simp: flat_seg_def redirected_def)
qed

end
