(* ===== verification/CCEHPages.thy ===== *)
theory CCEHPages
  imports CCEH CCEHFlat
begin

text \<open>
  The paged index and its flat view: directory pages as one array, segment pages as a function,
  and what one turn of \<open>Put\<close> does to them.
\<close>

section \<open>The directory as an array\<close>

definition dir_page_ok :: "page io_backend \<Rightarrow> u64 \<Rightarrow> bool" where
  "dir_page_ok b p \<longleftrightarrow> (case as_directory (pages b p) of Inr l \<Rightarrow> length l = kNumPointers | Inl _ \<Rightarrow> False)"

definition dir_page_set :: "dir_header \<Rightarrow> u64 set" where
  "dir_page_set h = set (take (num_dir_pages (hdr_capacity h)) (hdr_pages h))"

definition dir_ok :: "page io_backend \<Rightarrow> dir_header \<Rightarrow> bool" where
  "dir_ok b h \<longleftrightarrow> num_dir_pages (hdr_capacity h) \<le> length (hdr_pages h) \<and>
     distinct (take (num_dir_pages (hdr_capacity h)) (hdr_pages h)) \<and>
     (\<forall>p \<in> dir_page_set h. dir_page_ok b p \<and> allocated b p)"

definition dirv :: "page io_backend \<Rightarrow> dir_header \<Rightarrow> nat \<Rightarrow> u64" where
  "dirv b h i = (case dir_read b h i of Inr p \<Rightarrow> p | Inl _ \<Rightarrow> 0)"

definition segv :: "page io_backend \<Rightarrow> u64 \<Rightarrow> segment" where
  "segv b p = (case as_segment (pages b p) of Inr sg \<Rightarrow> sg | Inl _ \<Rightarrow> initSegment 0)"

definition dir_frame :: "dir_header \<Rightarrow> page io_backend \<Rightarrow> page io_backend \<Rightarrow> bool" where
  "dir_frame h b b' \<longleftrightarrow> next_page_id b' = next_page_id b \<and> (\<forall>q. q \<notin> dir_page_set h \<longrightarrow> pages b' q = pages b q)"

lemma dir_frame_refl: "dir_frame h b b"
  by (simp add: dir_frame_def)

lemma dir_frame_trans: "dir_frame h b b' \<Longrightarrow> dir_frame h b' b'' \<Longrightarrow> dir_frame h b b''"
  by (simp add: dir_frame_def)

lemma dir_page_number: "i < n \<Longrightarrow> i div kNumPointers < num_dir_pages n"
proof -
  assume "i < n"
  then have "i + kNumPointers \<le> n + kNumPointers - 1" by (simp add: kNumPointers_def)
  then have "(i + kNumPointers) div kNumPointers \<le> num_dir_pages n" unfolding num_dir_pages_def by (rule div_le_mono)
  then show ?thesis by (simp add: kNumPointers_def)
qed

lemma dir_page_mem:
  assumes "dir_ok b h" "i < hdr_capacity h"
  shows "hdr_pages h ! (i div kNumPointers) \<in> dir_page_set h"
proof -
  have "i div kNumPointers < num_dir_pages (hdr_capacity h)" using assms(2) by (rule dir_page_number)
  with assms(1) show ?thesis by (auto simp: dir_ok_def dir_page_set_def in_set_conv_nth)
qed

lemma dir_page_eq:
  assumes "dir_ok b h" "i < hdr_capacity h" "j < hdr_capacity h"
    "hdr_pages h ! (i div kNumPointers) = hdr_pages h ! (j div kNumPointers)"
  shows "i div kNumPointers = j div kNumPointers"
proof -
  let ?l = "take (num_dir_pages (hdr_capacity h)) (hdr_pages h)"
  have n: "i div kNumPointers < num_dir_pages (hdr_capacity h)" "j div kNumPointers < num_dir_pages (hdr_capacity h)"
    using assms(2,3) by (auto intro: dir_page_number)
  have "distinct ?l" "length ?l = num_dir_pages (hdr_capacity h)" using assms(1) by (auto simp: dir_ok_def)
  then show ?thesis using n assms(4) nth_eq_iff_index_eq [of ?l "i div kNumPointers" "j div kNumPointers"] by simp
qed

lemma dir_page_list:
  assumes "dir_ok b h" "i < hdr_capacity h"
  obtains l where "as_directory (pages b (hdr_pages h ! (i div kNumPointers))) = Inr l" "length l = kNumPointers"
proof -
  have "dir_page_ok b (hdr_pages h ! (i div kNumPointers))"
    using assms(1) dir_page_mem [OF assms] by (simp add: dir_ok_def)
  then show thesis
    by (cases "as_directory (pages b (hdr_pages h ! (i div kNumPointers)))") (auto simp: dir_page_ok_def intro: that)
qed

lemma dir_read_ok: "dir_ok b h \<Longrightarrow> i < hdr_capacity h \<Longrightarrow> dir_read b h i = Inr (dirv b h i)"
  by (erule (1) dir_page_list) (simp add: dir_read_def dirv_def)

lemma dirv_cong: "pages b' (hdr_pages h ! (i div kNumPointers)) = pages b (hdr_pages h ! (i div kNumPointers)) \<Longrightarrow>
  dirv b' h i = dirv b h i"
  by (simp add: dirv_def dir_read_def)

lemma dir_ok_cong:
  "dir_ok b h \<Longrightarrow> (\<And>p. p \<in> dir_page_set h \<Longrightarrow> pages b' p = pages b p) \<Longrightarrow> (\<And>p. allocated b p \<Longrightarrow> allocated b' p) \<Longrightarrow>
   dir_ok b' h"
  by (simp add: dir_ok_def dir_page_ok_def)

lemma dir_write_ok:
  assumes ok: "dir_ok b h" and i: "i < hdr_capacity h"
  shows "\<exists>b'. dir_write h i p b = Inr b' \<and> dir_ok b' h \<and> dir_frame h b b' \<and>
    (\<forall>j < hdr_capacity h. dirv b' h j = (if j = i then p else dirv b h j))"
proof -
  let ?pid = "hdr_pages h ! (i div kNumPointers)"
  obtain l where l: "as_directory (pages b ?pid) = Inr l" "length l = kNumPointers" by (rule dir_page_list [OF ok i])
  let ?b = "WritePage ?pid (Directory_page (l[i mod kNumPointers := p])) b"
  have w: "dir_write h i p b = Inr ?b" by (simp add: dir_write_def Let_def l(1))
  have "dir_page_ok ?b ?pid" by (simp add: dir_page_ok_def l(2))
  moreover have "dir_page_ok ?b q = dir_page_ok b q" if "q \<noteq> ?pid" for q using that by (simp add: dir_page_ok_def)
  ultimately have "dir_page_ok ?b q" if "dir_page_ok b q" for q using that by (cases "q = ?pid") simp_all
  then have dok: "dir_ok ?b h" using ok by (simp add: dir_ok_def)
  have "dirv ?b h j = (if j = i then p else dirv b h j)" if j: "j < hdr_capacity h" for j
  proof (cases "hdr_pages h ! (j div kNumPointers) = ?pid")
    case True
    then have d: "j div kNumPointers = i div kNumPointers" using dir_page_eq [OF ok j i] by simp
    have "j mod kNumPointers = i mod kNumPointers \<longleftrightarrow> j = i" using d by (metis div_mult_mod_eq)
    moreover have "i mod kNumPointers < length l" by (simp add: l(2) kNumPointers_def)
    ultimately show ?thesis using True l(1) by (auto simp: dirv_def dir_read_def nth_list_update)
  next
    case False
    then have "j \<noteq> i" by auto
    with False show ?thesis by (simp add: dirv_def dir_read_def)
  qed
  with w dok show ?thesis using dir_page_mem [OF ok i] by (auto simp: dir_frame_def)
qed

lemma dir_write_all_ok:
  "dir_ok b h \<Longrightarrow> \<forall>i \<in> set is. i < hdr_capacity h \<and> g i = Inr (v i) \<Longrightarrow>
   \<exists>b'. dir_write_all h g is b = Inr b' \<and> dir_ok b' h \<and> dir_frame h b b' \<and>
    (\<forall>j < hdr_capacity h. dirv b' h j = (if j \<in> set is then v j else dirv b h j))"
proof (induction "is" arbitrary: b)
  case Nil
  then show ?case by (simp add: dir_frame_refl)
next
  case (Cons i "is")
  have i: "i < hdr_capacity h" "g i = Inr (v i)" using Cons.prems(2) by auto
  from dir_write_ok [OF Cons.prems(1) i(1), of "v i"] obtain b1 where b1: "dir_write h i (v i) b = Inr b1" "dir_ok b1 h"
    "dir_frame h b b1" "\<forall>j < hdr_capacity h. dirv b1 h j = (if j = i then v i else dirv b h j)" by blast
  have "\<forall>i \<in> set is. i < hdr_capacity h \<and> g i = Inr (v i)" using Cons.prems(2) by simp
  from Cons.IH [OF b1(2) this] obtain b2 where b2: "dir_write_all h g is b1 = Inr b2" "dir_ok b2 h" "dir_frame h b1 b2"
    "\<forall>j < hdr_capacity h. dirv b2 h j = (if j \<in> set is then v j else dirv b1 h j)" by blast
  show ?case using b1 b2 i(2) dir_frame_trans [OF b1(3) b2(3)] by auto
qed

section \<open>The invariant\<close>

definition cceh_rep :: "hash_fn \<Rightarrow> hash_fn \<Rightarrow> cceh \<Rightarrow> dir_header \<Rightarrow> bool" where
  "cceh_rep f s c h \<longleftrightarrow> pages (cceh_io c) (cceh_root c) = Header_page h \<and> allocated (cceh_io c) (cceh_root c) \<and>
     length (hdr_pages h) = kMaxDirectoryPages \<and> hdr_capacity h = 2 ^ hdr_depth h \<and>
     1 \<le> hdr_depth h \<and> hdr_depth h \<le> 17 \<and> dir_ok (cceh_io c) h \<and>
     (\<forall>x < hdr_capacity h. allocated (cceh_io c) (dirv (cceh_io c) h x) \<and>
        pages (cceh_io c) (dirv (cceh_io c) h x) = Segment_page (segv (cceh_io c) (dirv (cceh_io c) h x))) \<and>
     flat_ok f s (hdr_depth h) (dirv (cceh_io c) h) (segv (cceh_io c))"

definition cceh_ok :: "hash_fn \<Rightarrow> hash_fn \<Rightarrow> cceh \<Rightarrow> bool" where
  "cceh_ok f s c \<longleftrightarrow> (\<exists>h. cceh_rep f s c h)"

text \<open>The header of a well-formed index, and the segment of a key.\<close>

definition cceh_header :: "cceh \<Rightarrow> dir_header" where
  "cceh_header c = (case as_header (pages (cceh_io c) (cceh_root c)) of Inr h \<Rightarrow> h | Inl _ \<Rightarrow> zero_header)"

definition key_page :: "hash_fn \<Rightarrow> cceh \<Rightarrow> u64 \<Rightarrow> u64" where
  "key_page f c k = dirv (cceh_io c) (cceh_header c) (dir_index f (hdr_depth (cceh_header c)) k)"

definition key_segment :: "hash_fn \<Rightarrow> cceh \<Rightarrow> u64 \<Rightarrow> segment" where
  "key_segment f c k = segv (cceh_io c) (key_page f c k)"

lemma cceh_repD:
  assumes "cceh_rep f s c h"
  shows "pages (cceh_io c) (cceh_root c) = Header_page h" "allocated (cceh_io c) (cceh_root c)"
    "length (hdr_pages h) = kMaxDirectoryPages" "hdr_capacity h = 2 ^ hdr_depth h" "1 \<le> hdr_depth h" "hdr_depth h \<le> 17"
    "dir_ok (cceh_io c) h" "flat_ok f s (hdr_depth h) (dirv (cceh_io c) h) (segv (cceh_io c))" "cceh_header c = h"
    "\<And>x. x < 2 ^ hdr_depth h \<Longrightarrow> allocated (cceh_io c) (dirv (cceh_io c) h x) \<and>
      pages (cceh_io c) (dirv (cceh_io c) h x) = Segment_page (segv (cceh_io c) (dirv (cceh_io c) h x))"
  using assms by (auto simp: cceh_rep_def cceh_header_def)

lemma key_segment_flat:
  "cceh_rep f s c h \<Longrightarrow> key_segment f c k = flat_seg f (hdr_depth h) (dirv (cceh_io c) h) (segv (cceh_io c)) k"
  by (simp add: key_segment_def key_page_def flat_seg_def cceh_repD)

lemma key_segment_ok:
  assumes "cceh_ok f s c"
  shows "seg_ok f s (hash_prefix (seg_depth (key_segment f c k)) (f k)) (key_segment f c k)"
    "seg_depth (key_segment f c k) \<le> hdr_depth (cceh_header c)" "1 \<le> seg_depth (key_segment f c k)"
    "hdr_depth (cceh_header c) \<le> 17"
proof -
  obtain h where r: "cceh_rep f s c h" using assms by (auto simp: cceh_ok_def)
  note D = cceh_repD [OF r]
  show "hdr_depth (cceh_header c) \<le> 17" using D(6,9) by simp
  have "hdr_depth h \<le> 64" using D(6) by simp
  from flat_seg_ok [OF D(8) this, of k]
  show "seg_ok f s (hash_prefix (seg_depth (key_segment f c k)) (f k)) (key_segment f c k)"
    "seg_depth (key_segment f c k) \<le> hdr_depth (cceh_header c)" "1 \<le> seg_depth (key_segment f c k)"
    unfolding key_segment_flat [OF r] D(9) .
qed

lemma locate_ok:
  assumes r: "cceh_rep f s c h"
  shows "cceh_locate (f k) c = Inr (h, dir_index f (hdr_depth h) k, key_page f c k)"
    "as_segment (ReadPage (key_page f c k) (cceh_io c)) = Inr (key_segment f c k)" "key_page f c k \<noteq> - 1"
proof -
  note D = cceh_repD [OF r]
  have i: "dir_index f (hdr_depth h) k < 2 ^ hdr_depth h" using D(6) by (intro dir_index_less) simp
  then show "cceh_locate (f k) c = Inr (h, dir_index f (hdr_depth h) k, key_page f c k)"
    unfolding cceh_locate_def using D(1,4) dir_read_ok [OF D(7), of "dir_index f (hdr_depth h) k"]
    by (simp add: Let_def dir_index_def [symmetric] key_page_def D(9))
  show "as_segment (ReadPage (key_page f c k) (cceh_io c)) = Inr (key_segment f c k)"
    using D(10) [OF i] by (simp add: key_page_def key_segment_def D(9))
  have "unat (key_page f c k) < unat (next_page_id (cceh_io c))"
    using D(10) [OF i] by (simp add: key_page_def D(9) allocated_def)
  moreover have "unat (next_page_id (cceh_io c)) < 2 ^ 64" using unsigned_less [of "next_page_id (cceh_io c)"] by simp
  moreover have "unat (- 1 :: u64) = 2 ^ 64 - 1" by (simp add: unsigned_minus_1_eq_mask mask_eq_exp_minus_1)
  ultimately show "key_page f c k \<noteq> - 1" by auto
qed

lemma cceh_Get_eq:
  "cceh_ok f s c \<Longrightarrow> cceh_Get f s k c = Inr (case seg_get f s k (key_segment f c k) of Some v \<Rightarrow> v | None \<Rightarrow> NONE)"
  unfolding cceh_ok_def cceh_Get_def using locate_ok by (auto split: option.splits)

end
