(* ===== verification/CCEHSteps.thy ===== *)
theory CCEHSteps
  imports CCEHPages
begin

text \<open>
  One turn of the loop of \<open>CCEH::Put\<close> on a well-formed index: a store, the limit, or a split that
  leaves every other segment as it is.
\<close>

section \<open>Congruence\<close>

lemma flat_ok_cong:
  assumes "flat_ok f s d P S" "\<And>x. x < 2 ^ d \<Longrightarrow> P' x = P x" "\<And>x. x < 2 ^ d \<Longrightarrow> S' (P x) = S (P x)"
  shows "flat_ok f s d P' S'"
  using assms unfolding flat_ok_def by simp

lemma flat_seg_cong:
  assumes "d \<le> 64" "\<And>x. x < 2 ^ d \<Longrightarrow> P' x = P x" "\<And>x. x < 2 ^ d \<Longrightarrow> S' (P x) = S (P x)"
  shows "flat_seg f d P' S' k = flat_seg f d P S k"
  using assms(2,3) [OF dir_index_less [OF assms(1), of f k]] by (simp add: flat_seg_def)

lemma segment_page_not_dir: "dir_ok b h \<Longrightarrow> pages b p = Segment_page sg \<Longrightarrow> p \<notin> dir_page_set h"
  by (auto simp: dir_ok_def dir_page_ok_def)

lemma header_page_not_dir: "dir_ok b h \<Longrightarrow> pages b p = Header_page h' \<Longrightarrow> p \<notin> dir_page_set h"
  by (auto simp: dir_ok_def dir_page_ok_def)

lemma segv_page: "pages b' p = pages b q \<Longrightarrow> segv b' p = segv b q"
  by (simp add: segv_def)

lemma dirv_frame:
  "dir_ok b h \<Longrightarrow> x < hdr_capacity h \<Longrightarrow> (\<And>p. p \<in> dir_page_set h \<Longrightarrow> pages b' p = pages b p) \<Longrightarrow> dirv b' h x = dirv b h x"
  by (rule dirv_cong) (simp add: dir_page_mem)

lemma dir_page_allocated: "dir_ok b h \<Longrightarrow> p \<in> dir_page_set h \<Longrightarrow> allocated b p"
  by (simp add: dir_ok_def)

text \<open>Pages outside the index may change.\<close>

lemma rep_extend:
  assumes r: "cceh_rep f s c h"
    and outside: "\<forall>q. allocated (cceh_io c) q \<longrightarrow> pages b' q = pages (cceh_io c) q \<and> allocated b' q"
  shows "cceh_rep f s (c\<lparr>cceh_io := b'\<rparr>) h" "x < 2 ^ hdr_depth h \<Longrightarrow> dirv b' h x = dirv (cceh_io c) h x"
    "key_page f (c\<lparr>cceh_io := b'\<rparr>) k = key_page f c k" "key_segment f (c\<lparr>cceh_io := b'\<rparr>) k = key_segment f c k"
proof -
  have same: "pages b' q = pages (cceh_io c) q \<and> allocated b' q" if "allocated (cceh_io c) q" for q
    using outside that by simp
  note D = cceh_repD [OF r]
  have dir: "dirv b' h x = dirv (cceh_io c) h x" if "x < 2 ^ hdr_depth h" for x
    using that D(4) by (intro dirv_frame [OF D(7)]) (auto simp: same dir_page_allocated [OF D(7)])
  then show "x < 2 ^ hdr_depth h \<Longrightarrow> dirv b' h x = dirv (cceh_io c) h x" .
  have sv: "segv b' (dirv (cceh_io c) h x) = segv (cceh_io c) (dirv (cceh_io c) h x)" if "x < 2 ^ hdr_depth h" for x
    using same D(10) [OF that] by (intro segv_page) simp
  have "dir_ok b' h" using D(7) by (rule dir_ok_cong) (auto simp: same dir_page_allocated [OF D(7)])
  moreover have "flat_ok f s (hdr_depth h) (dirv b' h) (segv b')" using D(8) dir sv by (rule flat_ok_cong)
  moreover have "allocated b' (dirv b' h x) \<and> pages b' (dirv b' h x) = Segment_page (segv b' (dirv b' h x))"
    if "x < 2 ^ hdr_depth h" for x using D(10) [OF that] same by (simp add: dir [OF that] sv [OF that])
  ultimately show r': "cceh_rep f s (c\<lparr>cceh_io := b'\<rparr>) h"
    using D(1-6) same by (simp add: cceh_rep_def)
  have d: "hdr_depth h \<le> 64" using D(6) by simp
  show "key_page f (c\<lparr>cceh_io := b'\<rparr>) k = key_page f c k"
    using dir dir_index_less [OF d, of f k] cceh_repD(9) [OF r'] by (simp add: key_page_def D(9))
  show "key_segment f (c\<lparr>cceh_io := b'\<rparr>) k = key_segment f c k"
    using flat_seg_cong [where P' = "dirv b' h" and P = "dirv (cceh_io c) h" and S' = "segv b'" and S = "segv (cceh_io c)", OF d dir sv]
    by (simp add: key_segment_flat [OF r] key_segment_flat [OF r'])
qed

section \<open>A store\<close>

lemma put_once_store:
  assumes r: "cceh_rep f s c h" and key: "key_ok key"
    and scan: "put_scan f (hash_prefix (seg_depth (key_segment f c key)) (f key)) key v (probe f s key) (key_segment f c key) = Some sg"
  defines "c' \<equiv> c\<lparr>cceh_io := WritePage (key_page f c key) (Segment_page sg) (cceh_io c)\<rparr>"
  shows "put_once f s key v c = Inr (Done c')" "cceh_rep f s c' h" "room n (cceh_io c') = room n (cceh_io c)"
    "key_segment f c' k = (if key_page f c k = key_page f c key then sg else key_segment f c k)"
proof -
  let ?b = "cceh_io c" and ?p = "key_page f c key" and ?i = "dir_index f (hdr_depth h) key" and ?sg = "key_segment f c key"
  let ?b' = "WritePage ?p (Segment_page sg) ?b"
  note D = cceh_repD [OF r] and L = locate_ok [OF r, of key]
  have ok: "cceh_ok f s c" using r by (auto simp: cceh_ok_def)
  show "put_once f s key v c = Inr (Done c')" using L(1,2) scan by (simp add: put_once_def c'_def)
  show "room n (cceh_io c') = room n (cceh_io c)" by (simp add: c'_def)
  have d: "hdr_depth h \<le> 64" using D(6) by simp
  have i: "?i < 2 ^ hdr_depth h" using d by (rule dir_index_less)
  have p: "?p = dirv ?b h ?i" by (simp add: key_page_def D(9))
  have sgv: "segv ?b ?p = ?sg" by (simp add: key_segment_def)
  have pseg: "pages ?b ?p = Segment_page ?sg" using D(10) [OF i] by (simp add: p sgv [unfolded p])
  have notdir: "?p \<notin> dir_page_set h" using D(7) pseg by (rule segment_page_not_dir)
  have root: "cceh_root c \<noteq> ?p" using D(1) pseg by auto
  have dir: "dirv ?b' h x = dirv ?b h x" if "x < 2 ^ hdr_depth h" for x
    using that D(4) notdir by (intro dirv_frame [OF D(7)]) auto
  have sv: "segv ?b' = (segv ?b)(?p := sg)" by (auto simp: segv_def fun_eq_iff)
  note put = put_probe_ok [OF key_segment_ok(1) [OF ok, of key] key refl scan]
  have "dir_ok ?b' h" using D(7) by (rule dir_ok_cong) (use notdir in auto)
  moreover have "flat_ok f s (hdr_depth h) (dirv ?b' h) (segv ?b')"
  proof -
    have lv: "?i div 2 ^ (hdr_depth h - seg_depth ?sg) = dir_index f (seg_depth ?sg) key"
      using key_segment_ok(2) [OF ok, of key] D(9) d by (intro dir_index_div) simp_all
    have "of_nat (dir_index f (seg_depth ?sg) key) = hash_prefix (seg_depth ?sg) (f key)" by (simp add: dir_index_def)
    then have "flat_ok f s (hdr_depth h) (dirv ?b h) ((segv ?b)(dirv ?b h ?i := sg))"
      using put(1,2) lv by (intro flat_store [OF D(8) i]) (simp_all add: p [symmetric] sgv)
    then have "flat_ok f s (hdr_depth h) (dirv ?b h) ((segv ?b)(?p := sg))" unfolding p [symmetric] .
    from this dir show ?thesis unfolding sv by (rule flat_ok_cong) simp_all
  qed
  moreover have "allocated ?b' (dirv ?b' h x) \<and> pages ?b' (dirv ?b' h x) = Segment_page (segv ?b' (dirv ?b' h x))"
    if "x < 2 ^ hdr_depth h" for x using D(10) [OF that] by (simp add: dir [OF that] sv)
  ultimately show r': "cceh_rep f s c' h" using D(1-6) root by (simp add: cceh_rep_def c'_def)
  have kp: "key_page f c' k = key_page f c k" for k
  proof -
    have "key_page f c' k = dirv (cceh_io c') h (dir_index f (hdr_depth h) k)" using cceh_repD(9) [OF r'] by (simp add: key_page_def)
    also have "\<dots> = dirv ?b' h (dir_index f (hdr_depth h) k)" by (simp add: c'_def)
    also have "\<dots> = dirv ?b h (dir_index f (hdr_depth h) k)" by (rule dir [OF dir_index_less [OF d]])
    also have "\<dots> = key_page f c k" by (simp add: key_page_def D(9))
    finally show ?thesis .
  qed
  show "key_segment f c' k = (if key_page f c k = key_page f c key then sg else key_segment f c k)"
    unfolding key_segment_def kp by (simp add: c'_def sv)
qed

section \<open>A split\<close>

lemma split_pages_ok:
  assumes "split_pages f s sg b = (p0, p1, b')" "room (n + 2) b"
  shows "p0 \<noteq> p1" "\<not> allocated b p0" "\<not> allocated b p1" "room n b'"
    "allocated b' q \<longleftrightarrow> allocated b q \<or> q = p0 \<or> q = p1"
    "pages b' q = (if q = p0 then Segment_page (half f s False sg) else if q = p1 then Segment_page (half f s True sg) else pages b q)"
proof -
  obtain b1 where a: "AllocatePage Blank b = (p0, b1)" using assms(1) by (auto simp: split_pages_def split: prod.splits)
  obtain b2 where a2: "AllocatePage Blank b1 = (p1, b2)" using assms(1) a by (auto simp: split_pages_def split: prod.splits)
  have b': "b' = WritePage p1 (Segment_page (half f s True sg)) (WritePage p0 (Segment_page (half f s False sg)) b2)"
    using assms(1) a a2 by (simp add: split_pages_def half_def)
  have "room (Suc (Suc n)) b" using assms(2) by simp
  note A = allocate_page [OF a this]
  note B = allocate_page [OF a2 A(3)]
  show n: "p0 \<noteq> p1" using A(5) [of p0] B(6) by auto
  show "\<not> allocated b p0" "\<not> allocated b p1" using A(6) A(5) [of p1] B(6) by auto
  show "room n b'" using B(3) by (simp add: b')
  show "allocated b' q \<longleftrightarrow> allocated b q \<or> q = p0 \<or> q = p1" using A(5) [of q] B(5) [of q] by (auto simp: b')
  show "pages b' q = (if q = p0 then Segment_page (half f s False sg) else if q = p1 then Segment_page (half f s True sg) else pages b q)"
    using A(2) [of q] B(2) [of q] n by (simp add: b')
qed

lemma stride_halves:
  fixes x m :: nat
  defines "loc \<equiv> x - x mod (2 * 2 ^ m)"
  shows "j \<in> set (map (\<lambda>i. loc + i) [0..<2 ^ m]) \<longleftrightarrow> j div (2 * 2 ^ m) = x div (2 * 2 ^ m) \<and> even (j div 2 ^ m)"
    "j \<in> set (map (\<lambda>i. loc + 2 ^ m + i) [0..<2 ^ m]) \<longleftrightarrow> j div (2 * 2 ^ m) = x div (2 * 2 ^ m) \<and> odd (j div 2 ^ m)"
proof -
  let ?X = "x div (2 * 2 ^ m)"
  have loc: "loc = (2 * ?X) * 2 ^ m" unfolding loc_def minus_mod_eq_mult_div by (simp add: mult.commute)
  have rng: "j \<in> set (map (\<lambda>i. y * 2 ^ m + i) [0..<2 ^ m]) \<longleftrightarrow> j div 2 ^ m = y" for y :: nat
  proof
    assume "j \<in> set (map (\<lambda>i. y * 2 ^ m + i) [0..<2 ^ m])"
    then have "y * 2 ^ m \<le> j" "j < y * 2 ^ m + 2 ^ m" by auto
    then show "j div 2 ^ m = y" by (intro div_nat_eqI) (simp_all add: algebra_simps)
  next
    assume "j div 2 ^ m = y"
    then have "y * 2 ^ m + j mod 2 ^ m = j" using div_mult_mod_eq [of j "2 ^ m"] by simp
    moreover have "j mod 2 ^ m < 2 ^ m" by simp
    ultimately have "y * 2 ^ m \<le> j" "j < y * 2 ^ m + 2 ^ m" by linarith+
    then show "j \<in> set (map (\<lambda>i. y * 2 ^ m + i) [0..<2 ^ m])" by auto
  qed
  have h2: "j div (2 * 2 ^ m) = j div 2 ^ m div 2" by (metis div_mult2_eq mult.commute)
  have "j div 2 ^ m = 2 * ?X \<longleftrightarrow> j div 2 ^ m div 2 = ?X \<and> even (j div 2 ^ m)" by auto
  then show "j \<in> set (map (\<lambda>i. loc + i) [0..<2 ^ m]) \<longleftrightarrow> j div (2 * 2 ^ m) = x div (2 * 2 ^ m) \<and> even (j div 2 ^ m)"
    unfolding loc rng h2 .
  have u: "j div 2 ^ m = 2 * ?X + 1 \<longleftrightarrow> j div 2 ^ m div 2 = ?X \<and> odd (j div 2 ^ m)" by (auto elim: oddE)
  have l: "loc + 2 ^ m = (2 * ?X + 1) * 2 ^ m" unfolding loc by simp
  show "j \<in> set (map (\<lambda>i. loc + 2 ^ m + i) [0..<2 ^ m]) \<longleftrightarrow> j div (2 * 2 ^ m) = x div (2 * 2 ^ m) \<and> odd (j div 2 ^ m)"
    unfolding l rng h2 by (rule u)
qed

text \<open>
  What both kinds of split establish: \<open>Q\<close> is the directory before the entries are redirected,
  of the new depth \<open>d\<close>.
\<close>

lemma split_rep:
  assumes r: "cceh_rep f s c h"
    and hdr: "pages (cceh_io c') (cceh_root c') = Header_page h'" "allocated (cceh_io c') (cceh_root c')"
      "length (hdr_pages h') = kMaxDirectoryPages" "hdr_capacity h' = 2 ^ hdr_depth h'" "1 \<le> hdr_depth h'" "hdr_depth h' \<le> 17"
      "dir_ok (cceh_io c') h'"
    and Q: "flat_ok f s (hdr_depth h') Q (segv (cceh_io c))"
      "\<And>y. y < 2 ^ hdr_depth h' \<Longrightarrow> \<exists>x < 2 ^ hdr_depth h. Q y = dirv (cceh_io c) h x"
      "\<And>k. Q (dir_index f (hdr_depth h') k) = key_page f c k"
    and x: "x < 2 ^ hdr_depth h'" "Q x = key_page f c key"
    and m: "hdr_depth h' - seg_depth (key_segment f c key) = Suc m"
    and dir: "\<And>y. y < 2 ^ hdr_depth h' \<Longrightarrow> dirv (cceh_io c') h' y = redirected Q m x lo hi y"
    and new: "lo \<noteq> hi" "\<not> allocated (cceh_io c) lo" "\<not> allocated (cceh_io c) hi"
      "pages (cceh_io c') lo = Segment_page (half f s False (key_segment f c key))"
      "pages (cceh_io c') hi = Segment_page (half f s True (key_segment f c key))"
      "allocated (cceh_io c') lo" "allocated (cceh_io c') hi"
    and old: "\<And>q sg. allocated (cceh_io c) q \<Longrightarrow> pages (cceh_io c) q = Segment_page sg \<Longrightarrow>
      pages (cceh_io c') q = Segment_page sg \<and> allocated (cceh_io c') q"
  shows "cceh_rep f s c' h'"
    "key_segment f c' k = (if key_page f c k = key_page f c key
      then half f s (split_bit_set (seg_depth (key_segment f c key)) (f k)) (key_segment f c k) else key_segment f c k)"
proof -
  let ?d = "hdr_depth h'" and ?S = "segv (cceh_io c)" and ?S' = "segv (cceh_io c')" and ?R = "redirected Q m x lo hi"
  note D = cceh_repD [OF r]
  have d: "?d \<le> 63" "?d \<le> 64" using hdr(6) by simp_all
  have seg: "?S (Q x) = key_segment f c key" by (simp add: x(2) key_segment_def)
  have Qp: "allocated (cceh_io c) (Q y) \<and> pages (cceh_io c) (Q y) = Segment_page (?S (Q y))" if y: "y < 2 ^ ?d" for y
    using Q(2) [OF y] D(10) by auto
  have Sold: "?S' (Q y) = ?S (Q y)" if y: "y < 2 ^ ?d" for y
    using Qp [OF y] old [of "Q y"] by (intro segv_page) simp
  have S': "?S' lo = half f s False (?S (Q x))" "?S' hi = half f s True (?S (Q x))"
    unfolding seg using new(4,5) by (simp_all add: segv_def)
  have fresh: "Q y \<noteq> lo \<and> Q y \<noteq> hi" if y: "y < 2 ^ ?d" for y using Qp [OF y] new(2,3) by auto
  have m': "?d - seg_depth (?S (Q x)) = Suc m" using m by (simp add: seg)
  have fl: "flat_ok f s ?d ?R ?S'" using Q(1) x(1) d(1) m' new(1) fresh S' Sold by (rule flat_split)
  then have "flat_ok f s ?d (dirv (cceh_io c') h') ?S'" by (rule flat_ok_cong) (simp_all add: dir)
  moreover have "allocated (cceh_io c') (dirv (cceh_io c') h' y) \<and>
      pages (cceh_io c') (dirv (cceh_io c') h' y) = Segment_page (?S' (dirv (cceh_io c') h' y))" if y: "y < 2 ^ ?d" for y
    using new(4-7) old [of "Q y"] Qp [OF y] Sold [OF y] S' seg unfolding dir [OF y] by (auto simp: redirected_def)
  ultimately show r': "cceh_rep f s c' h'" using hdr by (simp add: cceh_rep_def)
  have "key_segment f c' k = flat_seg f ?d (dirv (cceh_io c') h') ?S' k" by (rule key_segment_flat [OF r'])
  also have "\<dots> = flat_seg f ?d ?R ?S' k" using dir dir_index_less [OF d(2), of f k] by (simp add: flat_seg_def)
  also have "\<dots> = (if Q (dir_index f ?d k) = Q x
      then half f s (split_bit_set (seg_depth (?S (Q x))) (f k)) (flat_seg f ?d Q ?S k) else flat_seg f ?d Q ?S k)"
    using Q(1) x(1) d(1) m' S' Sold by (rule flat_seg_split)
  also have "flat_seg f ?d Q ?S k = key_segment f c k" by (simp add: flat_seg_def Q(3) key_segment_def)
  finally show "key_segment f c' k = (if key_page f c k = key_page f c key
      then half f s (split_bit_set (seg_depth (key_segment f c key)) (f k)) (key_segment f c k) else key_segment f c k)"
    unfolding Q(3) x(2) key_segment_def [of f c key, symmetric] .
qed

lemma stride_bound:
  assumes "x < 2 ^ d" "d - L = Suc m" "L \<le> d" "j div (2 * 2 ^ m) = x div (2 * 2 ^ m)"
  shows "j < (2 :: nat) ^ d"
proof -
  have "d = L + Suc m" using assms(2,3) by simp
  then have e: "(2 :: nat) ^ d = 2 ^ L * (2 * 2 ^ m)" by (simp add: power_add)
  have "x div (2 * 2 ^ m) < 2 ^ L" using assms(1) unfolding e by (rule less_mult_imp_div_less)
  then show ?thesis unfolding e assms(4) [symmetric] by (simp add: div_less_iff_less_mult)
qed

lemma put_once_redirect:
  assumes r: "cceh_rep f s c h" and room: "room (n + 2) (cceh_io c)"
    and scan: "put_scan f (hash_prefix (seg_depth (key_segment f c key)) (f key)) key v (probe f s key) (key_segment f c key) = None"
    and ld: "seg_depth (key_segment f c key) \<noteq> hdr_depth h"
  shows "\<exists>c'. put_once f s key v c = Inr (Again c') \<and> cceh_rep f s c' h \<and> room n (cceh_io c') \<and>
    (\<forall>k. key_segment f c' k = (if key_page f c k = key_page f c key
      then half f s (split_bit_set (seg_depth (key_segment f c key)) (f k)) (key_segment f c k) else key_segment f c k))"
proof -
  let ?sg = "key_segment f c key" and ?x = "dir_index f (hdr_depth h) key"
  let ?L = "seg_depth ?sg"
  note D = cceh_repD [OF r] and L = locate_ok [OF r, of key]
  have ok: "cceh_ok f s c" using r by (auto simp: cceh_ok_def)
  have Ld: "?L \<le> hdr_depth h" using key_segment_ok(2) [OF ok, of key] D(9) by simp
  then obtain m where m: "hdr_depth h - ?L = Suc m" using ld by (metis diff_is_0_eq le_antisym not0_implies_Suc)
  have d: "hdr_depth h \<le> 64" using D(6) by simp
  obtain p0 p1 b where sp: "split_pages f s ?sg (cceh_io c) = (p0, p1, b)" by (cases "split_pages f s ?sg (cceh_io c)") auto
  note P = split_pages_ok [OF sp room]
  have same: "\<forall>q. allocated (cceh_io c) q \<longrightarrow> pages b q = pages (cceh_io c) q \<and> allocated b q"
    using P(2,3,5,6) by auto
  note E = rep_extend [OF r same]
  note D' = cceh_repD [OF E(1)]
  have dok: "dir_ok b h" using D'(7) by simp
  have x: "?x < 2 ^ hdr_depth h" using d by (rule dir_index_less)
  let ?loc = "?x - ?x mod (2 * 2 ^ m)"
  let ?up = "map (\<lambda>i. ?loc + 2 ^ m + i) [0..<2 ^ m]" and ?low = "map (\<lambda>i. ?loc + i) [0..<2 ^ m]"
  note H = stride_halves [where x = ?x and m = m]
  have up: "\<forall>i \<in> set ?up. i < hdr_capacity h \<and> Inr p1 = Inr p1"
    unfolding D(4) using stride_bound [OF x m Ld] H(2) by blast
  have low: "\<forall>i \<in> set ?low. i < hdr_capacity h \<and> Inr p0 = Inr p0"
    unfolding D(4) using stride_bound [OF x m Ld] H(1) by blast
  from dir_write_all_ok [OF dok up] obtain b1 where b1: "dir_write_all h (\<lambda>_. Inr p1) ?up b = Inr b1" "dir_ok b1 h" "dir_frame h b b1"
    "\<And>j. j < hdr_capacity h \<Longrightarrow> dirv b1 h j = (if j \<in> set ?up then p1 else dirv b h j)" by auto
  from dir_write_all_ok [OF b1(2) low] obtain b2 where b2: "dir_write_all h (\<lambda>_. Inr p0) ?low b1 = Inr b2" "dir_ok b2 h" "dir_frame h b1 b2"
    "\<And>j. j < hdr_capacity h \<Longrightarrow> dirv b2 h j = (if j \<in> set ?low then p0 else dirv b1 h j)" by auto
  let ?c = "c\<lparr>cceh_io := b2\<rparr>"
  have st: "(2 :: nat) ^ (hdr_depth h - ?L) = 2 * 2 ^ m" "(2 * 2 ^ m :: nat) div 2 = 2 ^ m" unfolding m by simp_all
  have io: "cceh_io (c\<lparr>cceh_io := b\<rparr>) = b" "c\<lparr>cceh_io := b, cceh_io := b'\<rparr> = c\<lparr>cceh_io := b'\<rparr>" for b' by simp_all
  have "cceh_redirect h ?L ?x p0 p1 (c\<lparr>cceh_io := b\<rparr>) = Inr (Again ?c)"
    unfolding cceh_redirect_def Let_def st io b1(1) bind_result_simps b2(1) ..
  then have once: "put_once f s key v c = Inr (Again ?c)"
    using L(1,2) scan sp ld by (simp add: put_once_def)
  have fr: "dir_frame h b b2" using b1(3) b2(3) by (rule dir_frame_trans)
  have al: "allocated b2 q = allocated b q" "room k b2 = room k b" for q k
    using fr by (simp_all add: dir_frame_def allocated_def room_def)
  have keep: "pages b2 q = pages b q" if "pages b q = Segment_page g \<or> pages b q = Header_page g'" for q g g'
    using fr that segment_page_not_dir [OF dok] header_page_not_dir [OF dok] unfolding dir_frame_def by blast
  have pd: "pages b p0 = Segment_page (half f s False ?sg)" "pages b p1 = Segment_page (half f s True ?sg)"
    using P(1,6) by simp_all
  have dir: "dirv b2 h y = redirected (dirv (cceh_io c) h) m ?x p0 p1 y" if y: "y < 2 ^ hdr_depth h" for y
    using b1(4) [of y] b2(4) [of y] y E(2) [OF y] unfolding D(4) H by (simp add: redirected_def)
  have R: "cceh_rep f s ?c h \<and> (\<forall>k. key_segment f ?c k = (if key_page f c k = key_page f c key
      then half f s (split_bit_set ?L (f k)) (key_segment f c k) else key_segment f c k))"
  proof (intro conjI allI)
    note S = split_rep [where c' = ?c and h' = h and x = ?x and lo = p0 and hi = p1, OF r _ _ D(3-6) _ D(8) _ _ x _ m _ P(1-3)]
    show "cceh_rep f s ?c h"
      by (rule S(1)) (use D D' keep pd al same b2(2) dir P(5) in \<open>auto simp: key_page_def\<close>)
    show "key_segment f ?c k = (if key_page f c k = key_page f c key
      then half f s (split_bit_set ?L (f k)) (key_segment f c k) else key_segment f c k)" for k
      by (rule S(2)) (use D D' keep pd al same b2(2) dir P(5) in \<open>auto simp: key_page_def\<close>)
  qed
  with once P(4) show ?thesis by (intro exI [of _ ?c]) (simp add: al)
qed

lemma capacity_limit:
  "d \<le> 17 \<Longrightarrow> (2 ^ d * 2) div kNumPointers > kMaxDirectoryPages \<longleftrightarrow> d = (17 :: nat)"
proof -
  assume "d \<le> 17"
  then consider "d = 17" | "d \<le> 16" by linarith
  then show ?thesis
  proof cases
    case 2
    then have "(2 :: nat) ^ d \<le> 2 ^ 16" by (intro power_increasing) auto
    then have "2 ^ d * 2 \<le> (131072 :: nat)" by simp
    then have "(2 ^ d * 2) div kNumPointers \<le> 131072 div kNumPointers" by (rule div_le_mono)
    then show ?thesis using 2 by (simp add: kNumPointers_def kMaxDirectoryPages_def)
  qed (simp add: kNumPointers_def kMaxDirectoryPages_def)
qed

lemma put_once_limit:
  assumes r: "cceh_rep f s c h" and room: "room (n + 2) (cceh_io c)"
    and scan: "put_scan f (hash_prefix (seg_depth (key_segment f c key)) (f key)) key v (probe f s key) (key_segment f c key) = None"
    and ld: "seg_depth (key_segment f c key) = hdr_depth h" "hdr_depth h = 17"
  shows "\<exists>c'. put_once f s key v c = Inr (Done c') \<and> cceh_rep f s c' h \<and> room n (cceh_io c') \<and>
    (\<forall>k. key_segment f c' k = key_segment f c k)"
proof -
  note D = cceh_repD [OF r] and L = locate_ok [OF r, of key]
  let ?sg = "key_segment f c key"
  obtain p0 p1 b where sp: "split_pages f s ?sg (cceh_io c) = (p0, p1, b)" by (cases "split_pages f s ?sg (cceh_io c)") auto
  note P = split_pages_ok [OF sp room]
  have "\<forall>q. allocated (cceh_io c) q \<longrightarrow> pages b q = pages (cceh_io c) q \<and> allocated b q"
    using P(2,3,5,6) by auto
  note E = rep_extend [OF r this]
  have "(hdr_capacity h * 2) div kNumPointers > kMaxDirectoryPages"
    unfolding D(4) using capacity_limit [OF D(6)] ld(2) by blast
  then have "put_once f s key v c = Inr (Done (c\<lparr>cceh_io := b\<rparr>))"
    using L(1,2) scan sp ld(1) by (simp add: put_once_def cceh_expand_def)
  with E P(4) show ?thesis by (intro exI [of _ "c\<lparr>cceh_io := b\<rparr>"]) simp
qed

text \<open>The header and directory pages of a new directory.\<close>

lemma new_directory:
  assumes a: "allocate_dir_pages (initDirectory d zero_header) b = (h, b')" and room: "room (n + 256) b" and d: "d \<le> 17"
  shows "hdr_depth h = d" "hdr_capacity h = 2 ^ d" "length (hdr_pages h) = kMaxDirectoryPages" "dir_ok b' h" "room n b'"
    "p \<in> dir_page_set h \<Longrightarrow> \<not> allocated b p" "allocated b q \<Longrightarrow> pages b' q = pages b q \<and> allocated b' q"
proof -
  let ?n = "num_dir_pages (2 ^ d)"
  have "(2 :: nat) ^ d \<le> 2 ^ 17" using d by (intro power_increasing) auto
  then have p: "2 ^ d \<le> (131072 :: nat)" by simp
  then have "?n \<le> (131072 + kNumPointers - 1) div kNumPointers" unfolding num_dir_pages_def by (intro div_le_mono) simp
  then have n: "?n \<le> 256" by (simp add: kNumPointers_def)
  have "2 ^ d div kNumPointers \<le> 131072 div kNumPointers" using p by (rule div_le_mono)
  then have "\<not> 2 ^ d div kNumPointers > kMaxDirectoryPages" by (simp add: kNumPointers_def kMaxDirectoryPages_def)
  then have h0: "initDirectory d zero_header = \<lparr>hdr_depth = d, hdr_capacity = 2 ^ d, hdr_pages = replicate kMaxDirectoryPages 0\<rparr>"
    by (simp add: initDirectory_def zero_header_def)
  obtain ps where ps: "AllocatePages Blank ?n b = (ps, b')"
    and h: "h = \<lparr>hdr_depth = d, hdr_capacity = 2 ^ d, hdr_pages = ps @ drop (length ps) (replicate kMaxDirectoryPages 0)\<rparr>"
    using a by (auto simp: allocate_dir_pages_def h0 split: prod.splits)
  have "room (n + ?n) b" using room n by (auto intro: room_mono)
  note A = allocate_pages [OF ps this]
  show "hdr_depth h = d" "hdr_capacity h = 2 ^ d" by (simp_all add: h)
  show "length (hdr_pages h) = kMaxDirectoryPages" using n by (simp add: h A(1) kMaxDirectoryPages_def)
  have set: "dir_page_set h = set ps" "take (num_dir_pages (hdr_capacity h)) (hdr_pages h) = ps"
    by (simp_all add: dir_page_set_def h A(1))
  show "room n b'" by (rule A(4))
  show "p \<in> dir_page_set h \<Longrightarrow> \<not> allocated b p" unfolding set by (rule A(6))
  show "allocated b q \<Longrightarrow> pages b' q = pages b q \<and> allocated b' q" using A(3) [of q] A(5) [of q] A(6) [of q] by auto
  have "dir_page_ok b' p" if "p \<in> set ps" for p using A(3) [of p] that by (simp add: dir_page_ok_def)
  then show "dir_ok b' h" using A(2,5) unfolding dir_ok_def set by (simp add: h A(1))
qed

lemma put_once_expand:
  assumes r: "cceh_rep f s c h" and room: "room (n + 300) (cceh_io c)"
    and scan: "put_scan f (hash_prefix (seg_depth (key_segment f c key)) (f key)) key v (probe f s key) (key_segment f c key) = None"
    and ld: "seg_depth (key_segment f c key) = hdr_depth h" "hdr_depth h \<noteq> 17"
  shows "\<exists>c' h'. put_once f s key v c = Inr (Again c') \<and> cceh_rep f s c' h' \<and> hdr_depth h' = Suc (hdr_depth h) \<and> room n (cceh_io c') \<and>
    (\<forall>k. key_segment f c' k = (if key_page f c k = key_page f c key
      then half f s (split_bit_set (seg_depth (key_segment f c key)) (f k)) (key_segment f c k) else key_segment f c k))"
proof -
  let ?sg = "key_segment f c key" and ?x = "dir_index f (hdr_depth h) key" and ?d = "hdr_depth h"
  note D = cceh_repD [OF r] and L = locate_ok [OF r, of key]
  have d: "?d \<le> 16" "?d \<le> 64" using D(6) ld(2) by simp_all
  obtain p0 p1 b where sp: "split_pages f s ?sg (cceh_io c) = (p0, p1, b)" by (cases "split_pages f s ?sg (cceh_io c)") auto
  have "room ((n + 298) + 2) (cceh_io c)" using room by (simp add: add.commute)
  note P = split_pages_ok [OF sp this]
  obtain root b1 where al: "AllocatePage Blank b = (root, b1)" by fastforce
  have "room (Suc (n + 297)) b" using P(4) by (simp add: add.commute)
  note A = allocate_page [OF al this]
  obtain h' b2 where nd: "allocate_dir_pages (initDirectory (?d + 1) zero_header) b1 = (h', b2)" by fastforce
  have "room ((n + 41) + 256) b1" using A(3) by (simp add: add.commute)
  note N = new_directory [OF nd this]
  have N7: "hdr_depth h' = Suc ?d" "hdr_capacity h' = 2 ^ Suc ?d" "length (hdr_pages h') = kMaxDirectoryPages" "dir_ok b2 h'"
    using N(1-4) d(1) by simp_all
  have keep: "pages b2 q = pages b q \<and> allocated b2 q" if "allocated b q" for q
    using N(7) [of q] A(2,5,6) d(1) that by auto
  have same: "\<forall>q. allocated (cceh_io c) q \<longrightarrow> pages b2 q = pages (cceh_io c) q \<and> allocated b2 q"
    using P(2,3,5,6) keep by auto
  note E = rep_extend [OF r same]
  have dok: "dir_ok b2 h" using cceh_repD(7) [OF E(1)] by simp
  let ?g = "\<lambda>i. if i div 2 = ?x then Inr (if i mod 2 = 0 then p0 else p1) else dir_read b2 h (i div 2)"
  let ?v = "\<lambda>i. if i div 2 = ?x then (if i mod 2 = 0 then p0 else p1) else dirv (cceh_io c) h (i div 2)"
  have g: "\<forall>i \<in> set [0..<hdr_capacity h']. i < hdr_capacity h' \<and> ?g i = Inr (?v i)"
    using dir_read_ok [OF dok] E(2) D(4) N7(2) by auto
  from dir_write_all_ok [OF N7(4) g] obtain b3 where b3: "dir_write_all h' ?g [0..<hdr_capacity h'] b2 = Inr b3" "dir_ok b3 h'"
    "dir_frame h' b2 b3" "\<And>j. j < hdr_capacity h' \<Longrightarrow> dirv b3 h' j = ?v j" by auto
  let ?c = "c\<lparr>cceh_io := WritePage root (Header_page h') b3, cceh_root := root\<rparr>"
  have lim: "\<not> kMaxDirectoryPages < (hdr_capacity h * 2) div kNumPointers"
    unfolding D(4) using capacity_limit [OF D(6)] ld(2) by blast
  have blank: "as_header (ReadPage root b1) = Inr zero_header" using A(2) [of root] by simp
  have "cceh_expand h ?x p0 p1 (c\<lparr>cceh_io := b\<rparr>) = Inr (Again ?c)"
    using lim al blank nd b3(1) by (simp add: cceh_expand_def)
  then have once: "put_once f s key v c = Inr (Again ?c)" using L(1,2) scan sp ld(1) by (simp add: put_once_def)
  have ra: "allocated b1 root" "\<not> allocated b root" using A(5) [of root] A(6) by auto
  have rd: "root \<notin> dir_page_set h'" using N(6) [of root] d(1) ra(1) by auto
  have al3: "allocated b3 q = allocated b2 q" "room k b3 = room k b2" for q k
    using b3(3) by (simp_all add: dir_frame_def allocated_def room_def)
  have old: "pages (cceh_io ?c) q = pages b q \<and> allocated (cceh_io ?c) q" if q: "allocated b q" for q
  proof -
    have "allocated b1 q" using A(5) q by blast
    then have "q \<notin> dir_page_set h'" using N(6) [of q] d(1) by auto
    then have "pages b3 q = pages b2 q" using b3(3) by (simp add: dir_frame_def)
    moreover have "q \<noteq> root" using q ra(2) by auto
    ultimately show ?thesis using keep [OF q] by (simp add: al3)
  qed
  have ap: "allocated b p0" "allocated b p1" using P(5) by auto
  let ?Q = "\<lambda>i. dirv (cceh_io c) h (i div 2)"
  have ix: "dir_index f (Suc ?d) k div 2 = dir_index f ?d k" for k
    using dir_index_div [of ?d "Suc ?d" f k] d(1) by simp
  let ?y = "dir_index f (Suc ?d) key"
  have kp: "?Q (dir_index f (Suc ?d) k) = key_page f c k" for k by (simp add: ix key_page_def D(9))
  have dir: "dirv (cceh_io ?c) h' y = redirected ?Q 0 ?y p0 p1 y" if y: "y < 2 ^ hdr_depth h'" for y
  proof -
    have "dirv (cceh_io ?c) h' y = dirv b3 h' y"
      using y N7(1,2) rd by (intro dirv_frame [OF b3(2)]) auto
    also have "\<dots> = ?v y" using y N7(1,2) by (intro b3(4)) simp
    finally show ?thesis by (simp add: redirected_def ix even_iff_mod_2_eq_zero)
  qed
  have dok': "dir_ok (cceh_io ?c) h'"
    using b3(2) by (rule dir_ok_cong) (use rd al3 in auto)
  have hdr: "pages (cceh_io ?c) (cceh_root ?c) = Header_page h'" "allocated (cceh_io ?c) (cceh_root ?c)"
    "length (hdr_pages h') = kMaxDirectoryPages" "hdr_capacity h' = 2 ^ hdr_depth h'" "1 \<le> hdr_depth h'" "hdr_depth h' \<le> 17"
    using N7 d(1) N(7) [of root] ra(1) by (simp_all add: al3)
  have Q: "flat_ok f s (hdr_depth h') ?Q (segv (cceh_io c))"
    "\<And>y. y < 2 ^ hdr_depth h' \<Longrightarrow> \<exists>x < 2 ^ ?d. ?Q y = dirv (cceh_io c) h x"
    "\<And>k. ?Q (dir_index f (hdr_depth h') k) = key_page f c k"
    unfolding N7(1)
  proof -
    show "\<exists>x < 2 ^ ?d. ?Q y = dirv (cceh_io c) h x" if "y < 2 ^ Suc ?d" for y
      using that by (intro exI [of _ "y div 2"]) simp
  qed (rule flat_double [OF D(8)], rule kp)
  have y: "?y < 2 ^ hdr_depth h'" "?Q ?y = key_page f c key" "hdr_depth h' - seg_depth ?sg = Suc 0"
    using dir_index_less [of "Suc ?d" f key] d(1) kp by (simp_all add: N7(1) ld(1))
  have new: "pages (cceh_io ?c) p0 = Segment_page (half f s False ?sg)" "pages (cceh_io ?c) p1 = Segment_page (half f s True ?sg)"
    "allocated (cceh_io ?c) p0" "allocated (cceh_io ?c) p1"
    using old [OF ap(1)] old [OF ap(2)] P(1,6) by simp_all
  have keep_seg: "pages (cceh_io ?c) q = Segment_page sg \<and> allocated (cceh_io ?c) q"
    if "allocated (cceh_io c) q" "pages (cceh_io c) q = Segment_page sg" for q sg
    using old [of q] P(2,3,5,6) that by auto
  note S = split_rep [OF r hdr dok' Q y dir P(1-3) new keep_seg]
  have "room (n + 41) b2" using N(5) d(1) by simp
  then have "room n b2" by (rule room_mono) simp
  then have "room n (cceh_io ?c)" by (simp add: al3)
  with S once N7(1) show ?thesis by blast
qed

end
