(* ===== verification/CCEHRuns.thy ===== *)
theory CCEHRuns
  imports CCEHSteps
begin

unbundle bit_operations_syntax

text \<open>
  Whole calls of the index and runs from its construction: \<open>Put\<close> returns within 18 turns, \<open>Get\<close>
  then finds the value unless the directory cannot grow, and no value is ever made up.
\<close>

section \<open>One turn\<close>

definition key_scan :: "hash_fn \<Rightarrow> hash_fn \<Rightarrow> u64 \<Rightarrow> u64 \<Rightarrow> cceh \<Rightarrow> segment option" where
  "key_scan f s key v c =
     put_scan f (hash_prefix (seg_depth (key_segment f c key)) (f key)) key v (probe f s key) (key_segment f c key)"

definition at_limit :: "hash_fn \<Rightarrow> hash_fn \<Rightarrow> u64 \<Rightarrow> cceh \<Rightarrow> bool" where
  "at_limit f s key c \<longleftrightarrow> hdr_depth (cceh_header c) = 17 \<and> seg_depth (key_segment f c key) = 17 \<and> key_scan f s key 0 c = None"

definition after_split :: "hash_fn \<Rightarrow> hash_fn \<Rightarrow> u64 \<Rightarrow> cceh \<Rightarrow> cceh \<Rightarrow> bool" where
  "after_split f s key c c' \<longleftrightarrow> (\<forall>k. key_segment f c' k = (if key_page f c k = key_page f c key
      then half f s (split_bit_set (seg_depth (key_segment f c key)) (f k)) (key_segment f c k) else key_segment f c k))"

definition after_store :: "hash_fn \<Rightarrow> u64 \<Rightarrow> segment \<Rightarrow> cceh \<Rightarrow> cceh \<Rightarrow> bool" where
  "after_store f key sg c c' \<longleftrightarrow>
     (\<forall>k. key_segment f c' k = (if key_page f c k = key_page f c key then sg else key_segment f c k))"

lemma key_scan_None: "key_scan f s key v c = None \<longleftrightarrow> key_scan f s key w c = None"
  by (simp add: key_scan_def put_scan_None)

lemma put_once_step:
  assumes ok: "cceh_ok f s c" and key: "key_ok key" and room: "room (n + 300) (cceh_io c)"
  obtains (store) sg c' where "key_scan f s key v c = Some sg" "put_once f s key v c = Inr (Done c')" "cceh_ok f s c'"
      "room n (cceh_io c')" "after_store f key sg c c'"
    | (limit) c' where "at_limit f s key c" "put_once f s key v c = Inr (Done c')" "cceh_ok f s c'"
      "room n (cceh_io c')" "\<And>k. key_segment f c' k = key_segment f c k" "cceh_header c' = cceh_header c"
    | (split) c' where "key_scan f s key v c = None" "\<not> at_limit f s key c" "put_once f s key v c = Inr (Again c')"
      "cceh_ok f s c'" "room n (cceh_io c')" "after_split f s key c c'"
proof -
  obtain h where r: "cceh_rep f s c h" using ok by (auto simp: cceh_ok_def)
  note D = cceh_repD [OF r]
  have room': "room n (cceh_io c)" "room (n + 2) (cceh_io c)" using room by (auto intro: room_mono)
  show thesis
  proof (cases "key_scan f s key v c")
    case (Some sg)
    note P = put_once_store [OF r key Some [unfolded key_scan_def]]
    show thesis
      by (rule store [OF Some P(1)]) (use P(2,3,4) room' in \<open>auto simp: cceh_ok_def after_store_def\<close>)
  next
    case None
    note scan = None [unfolded key_scan_def]
    have none0: "key_scan f s key 0 c = None" using None key_scan_None by blast
    show thesis
    proof (cases "seg_depth (key_segment f c key) = hdr_depth h")
      case eq: True
      show thesis
      proof (cases "hdr_depth h = 17")
        case True
        from put_once_limit [OF r room'(2) scan eq True] obtain c' where c': "put_once f s key v c = Inr (Done c')"
          "cceh_rep f s c' h" "room n (cceh_io c')" "\<And>k. key_segment f c' k = key_segment f c k" by blast
        have "at_limit f s key c" using True eq none0 D(9) by (simp add: at_limit_def)
        then show thesis using c' D(9) cceh_repD(9) [OF c'(2)] by (intro limit [of c']) (auto simp: cceh_ok_def)
      next
        case False
        from put_once_expand [OF r room scan eq False] obtain c' h' where c': "put_once f s key v c = Inr (Again c')"
          "cceh_rep f s c' h'" "room n (cceh_io c')" "after_split f s key c c'" unfolding after_split_def by blast
        have "\<not> at_limit f s key c" using False D(9) by (simp add: at_limit_def)
        then show thesis using None c' by (intro split [of c']) (auto simp: cceh_ok_def)
      qed
    next
      case False
      from put_once_redirect [OF r room'(2) scan False] obtain c' where c': "put_once f s key v c = Inr (Again c')"
        "cceh_rep f s c' h" "room n (cceh_io c')" "after_split f s key c c'" unfolding after_split_def by blast
      have "\<not> at_limit f s key c" using False D(9) by (auto simp: at_limit_def)
      then show thesis using None c' by (intro split [of c']) (auto simp: cceh_ok_def)
    qed
  qed
qed

section \<open>What the index holds\<close>

definition cceh_holds :: "hash_fn \<Rightarrow> cceh \<Rightarrow> u64 \<Rightarrow> u64 \<Rightarrow> bool" where
  "cceh_holds f c k w \<longleftrightarrow> holds_pair (key_segment f c k) k w"

lemma same_page_prefix:
  assumes ok: "cceh_ok f s c" and p: "key_page f c k = key_page f c key"
  shows "key_segment f c k = key_segment f c key"
    "hash_prefix (seg_depth (key_segment f c key)) (f k) = hash_prefix (seg_depth (key_segment f c key)) (f key)"
proof -
  show seg: "key_segment f c k = key_segment f c key" using p by (simp add: key_segment_def)
  obtain h where r: "cceh_rep f s c h" using ok by (auto simp: cceh_ok_def)
  note D = cceh_repD [OF r]
  let ?L = "seg_depth (key_segment f c key)" and ?d = "hdr_depth h"
  have d: "?d \<le> 64" "?L \<le> ?d" using D(6) key_segment_ok(2) [OF ok, of key] D(9) by simp_all
  let ?i = "dir_index f ?d key" and ?j = "dir_index f ?d k"
  have "dirv (cceh_io c) h ?i = dirv (cceh_io c) h ?j" using p by (simp add: key_page_def D(9))
  then have "?i div 2 ^ (?d - ?L) = ?j div 2 ^ (?d - ?L)"
    using flat_okD(4) [OF D(8) dir_index_less dir_index_less, of f key f k] d(1)
    by (simp add: key_segment_def key_page_def D(9))
  then show "hash_prefix ?L (f k) = hash_prefix ?L (f key)"
    using dir_index_pattern [OF d(2,1), of f] by metis
qed

lemma half_key_segment_ok:
  assumes "cceh_ok f s c"
  shows "seg_depth (half f s b (key_segment f c key)) = Suc (seg_depth (key_segment f c key))"
    "holds_pair (half f s b (key_segment f c key)) k w \<Longrightarrow> holds_pair (key_segment f c key) k w"
proof -
  note K = key_segment_ok(1,2) [OF assms, of key] key_segment_ok(4) [OF assms]
  have "seg_depth (key_segment f c key) < 64" using K(2,3) by simp
  note H = seg_half_ok [OF K(1) this]
  show "seg_depth (half f s b (key_segment f c key)) = Suc (seg_depth (key_segment f c key))" by (rule H(2))
  show "holds_pair (half f s b (key_segment f c key)) k w \<Longrightarrow> holds_pair (key_segment f c key) k w"
    using H(3) [of b k w] by simp
qed

lemma after_split_holds:
  assumes ok: "cceh_ok f s c" and a: "after_split f s key c c'"
  shows "cceh_holds f c' k w \<Longrightarrow> cceh_holds f c k w" "seg_depth (key_segment f c' key) = Suc (seg_depth (key_segment f c key))"
  using a half_key_segment_ok [OF ok] unfolding after_split_def cceh_holds_def by (auto split: if_splits)

lemma after_store_holds:
  assumes ok: "cceh_ok f s c" and key: "key_ok key" and scan: "key_scan f s key v c = Some sg" and a: "after_store f key sg c c'"
  shows "cceh_holds f c' k w \<Longrightarrow> cceh_holds f c k w \<or> (k, w) = (key, v)" "seg_get f s key (key_segment f c' key) = Some v"
proof -
  note P = put_probe_ok [OF key_segment_ok(1) [OF ok, of key] key refl scan [unfolded key_scan_def]]
  show "cceh_holds f c' k w \<Longrightarrow> cceh_holds f c k w \<or> (k, w) = (key, v)"
    using a P(4) [of k w] same_page_prefix(1) [OF ok, of k key]
    unfolding after_store_def cceh_holds_def by (auto split: if_splits)
  show "seg_get f s key (key_segment f c' key) = Some v" using a P(3) by (simp add: after_store_def)
qed

section \<open>Put returns\<close>

lemma put_loop_ok:
  "cceh_ok f s c \<Longrightarrow> key_ok key \<Longrightarrow> room (n + 300 * fuel) (cceh_io c) \<Longrightarrow>
   18 \<le> fuel + seg_depth (key_segment f c key) \<Longrightarrow>
   \<exists>c'. put_loop fuel f s key v c = Inr c' \<and> cceh_ok f s c' \<and> room n (cceh_io c') \<and>
     (seg_get f s key (key_segment f c' key) = Some v \<or> at_limit f s key c') \<and>
     (\<forall>k w. cceh_holds f c' k w \<longrightarrow> cceh_holds f c k w \<or> (k, w) = (key, v))"
proof (induction fuel arbitrary: c)
  case 0
  then show ?case using key_segment_ok(2) [OF 0(1), of key] key_segment_ok(4) [OF 0(1)] by simp
next
  case (Suc fuel)
  have "room ((n + 300 * fuel) + 300) (cceh_io c)" using Suc.prems(3) by (simp add: algebra_simps)
  from Suc.prems(1,2) this show ?case
  proof (cases rule: put_once_step [where v = v])
    case (store sg c')
    have "room n (cceh_io c')" using store(4) by (rule room_mono) simp
    moreover have "put_loop (Suc fuel) f s key v c = Inr c'" using store(2) by simp
    ultimately show ?thesis
      using store(3) after_store_holds [OF Suc.prems(1,2) store(1,5)] by blast
  next
    case (limit c')
    have "room n (cceh_io c')" using limit(4) by (rule room_mono) simp
    moreover have "put_loop (Suc fuel) f s key v c = Inr c'" using limit(2) by simp
    moreover have "at_limit f s key c'" using limit(1) unfolding at_limit_def key_scan_def limit(5,6) .
    moreover have "cceh_holds f c' k w = cceh_holds f c k w" for k w using limit(5) by (simp add: cceh_holds_def)
    ultimately show ?thesis using limit(3) by blast
  next
    case (split c')
    note A = after_split_holds [OF Suc.prems(1) split(6)]
    have "18 \<le> fuel + seg_depth (key_segment f c' key)" using Suc.prems(4) by (simp add: A(2))
    from Suc.IH [OF split(4) Suc.prems(2) split(5) this] obtain c'' where "put_loop fuel f s key v c' = Inr c''" "cceh_ok f s c''"
      "room n (cceh_io c'')" "seg_get f s key (key_segment f c'' key) = Some v \<or> at_limit f s key c''"
      "\<forall>k w. cceh_holds f c'' k w \<longrightarrow> cceh_holds f c' k w \<or> (k, w) = (key, v)" by blast
    moreover from this(1) have "put_loop (Suc fuel) f s key v c = Inr c''" using split(3) by simp
    ultimately show ?thesis using A(1) by blast
  qed
qed

lemma cceh_Put_ok:
  assumes "cceh_ok f s c" "key_ok key" "room (n + 5400) (cceh_io c)"
  shows "\<exists>c'. cceh_Put f s key v c = Inr c' \<and> cceh_ok f s c' \<and> room n (cceh_io c') \<and>
     (seg_get f s key (key_segment f c' key) = Some v \<or> at_limit f s key c') \<and>
     (\<forall>k w. cceh_holds f c' k w \<longrightarrow> cceh_holds f c k w \<or> (k, w) = (key, v))"
  unfolding cceh_Put_def using assms by (intro put_loop_ok) simp_all

lemma at_limit_absent:
  assumes "at_limit f s key c"
  shows "seg_get f s key (key_segment f c key) = None"
  using assms unfolding at_limit_def key_scan_def put_scan_None seg_get_def get_scan_None by blast

lemma cceh_Get_holds:
  assumes "cceh_ok f s c" "key_ok k" "cceh_Get f s k c = Inr w"
  shows "w = NONE \<or> cceh_holds f c k w"
proof (cases "seg_get f s k (key_segment f c k)")
  case (Some w')
  have "length (seg_bucket (key_segment f c k)) = kSegSlot" using key_segment_ok(1) [OF assms(1)] by (rule seg_okD)
  from seg_get_holds [OF this assms(2) Some] show ?thesis
    using assms(3) Some by (simp add: cceh_Get_eq [OF assms(1)] cceh_holds_def)
qed (use assms(3) in \<open>simp add: cceh_Get_eq [OF assms(1)]\<close>)

lemma cceh_BatchPut_ok:
  "cceh_ok f s c \<Longrightarrow> \<forall>kv \<in> set kvs. key_ok (fst kv) \<Longrightarrow> room (n + 5400 * length kvs) (cceh_io c) \<Longrightarrow>
   \<exists>c'. cceh_BatchPut f s kvs c = Inr c' \<and> cceh_ok f s c' \<and> room n (cceh_io c') \<and>
     (\<forall>k w. cceh_holds f c' k w \<longrightarrow> cceh_holds f c k w \<or> (k, w) \<in> set kvs)"
proof (induction kvs arbitrary: c)
  case (Cons kv kvs)
  have "room ((n + 5400 * length kvs) + 5400) (cceh_io c)" using Cons.prems(3) by (simp add: algebra_simps)
  moreover have "key_ok (fst kv)" using Cons.prems(2) by simp
  ultimately obtain c1 where c1: "cceh_Put f s (fst kv) (snd kv) c = Inr c1" "cceh_ok f s c1" "room (n + 5400 * length kvs) (cceh_io c1)"
    "\<forall>k w. cceh_holds f c1 k w \<longrightarrow> cceh_holds f c k w \<or> (k, w) = (fst kv, snd kv)"
    using cceh_Put_ok [OF Cons.prems(1), of "fst kv" "n + 5400 * length kvs" "snd kv"] by blast
  have "\<forall>kv \<in> set kvs. key_ok (fst kv)" using Cons.prems(2) by simp
  from Cons.IH [OF c1(2) this c1(3)] obtain c' where c': "cceh_BatchPut f s kvs c1 = Inr c'" "cceh_ok f s c'" "room n (cceh_io c')"
    "\<forall>k w. cceh_holds f c' k w \<longrightarrow> cceh_holds f c1 k w \<or> (k, w) \<in> set kvs" by blast
  have "cceh_holds f c k w \<or> (k, w) \<in> set (kv # kvs)" if "cceh_holds f c' k w" for k w
    using c'(4) c1(4) that by (cases kv) auto
  with c' c1(1) show ?case by auto
qed simp

end
