(* ===== verification/CCEHMap.thy ===== *)
theory CCEHMap
  imports CCEHRuns
begin

text \<open>
  The index from its construction on, and \<open>Put\<close> as the update of a map while no split has to
  displace a key.
\<close>

section \<open>Construction\<close>

lemma init_segments_ok:
  "dir_ok b h \<Longrightarrow> \<forall>i \<in> set is. i < hdr_capacity h \<Longrightarrow> distinct is \<Longrightarrow> room (n + length is) b \<Longrightarrow>
   \<exists>b'. init_segments h d is b = Inr b' \<and> dir_ok b' h \<and> room n b' \<and>
     (\<forall>q. allocated b q \<longrightarrow> allocated b' q \<and> (q \<notin> dir_page_set h \<longrightarrow> pages b' q = pages b q)) \<and>
     (\<forall>j < hdr_capacity h. j \<notin> set is \<longrightarrow> dirv b' h j = dirv b h j) \<and>
     (\<forall>j \<in> set is. \<not> allocated b (dirv b' h j) \<and> allocated b' (dirv b' h j) \<and>
        pages b' (dirv b' h j) = Segment_page (initSegment d)) \<and> inj_on (dirv b' h) (set is)"
proof (induction "is" arbitrary: b)
  case (Cons i "is")
  obtain p b1 where a: "AllocatePage Blank b = (p, b1)" by fastforce
  have "room (Suc (n + length is)) b" using Cons.prems(4) by simp
  note A = allocate_page [OF a this]
  have i: "i < hdr_capacity h" using Cons.prems(2) by simp
  have pd: "p \<notin> dir_page_set h" using A(6) dir_page_allocated [OF Cons.prems(1)] by blast
  have dok1: "dir_ok b1 h" using Cons.prems(1) by (rule dir_ok_cong) (use A(2,5) pd in auto)
  from dir_write_ok [OF dok1 i, of p] obtain b2 where b2: "dir_write h i p b1 = Inr b2" "dir_ok b2 h" "dir_frame h b1 b2"
    "\<And>j. j < hdr_capacity h \<Longrightarrow> dirv b2 h j = (if j = i then p else dirv b1 h j)" by blast
  let ?b = "WritePage p (Segment_page (initSegment d)) b2"
  have al2: "allocated b2 q = allocated b1 q" "room k b2 = room k b1" for q k
    using b2(3) by (simp_all add: dir_frame_def allocated_def room_def)
  have dok: "dir_ok ?b h" using b2(2) by (rule dir_ok_cong) (use pd in auto)
  have prems: "\<forall>i \<in> set is. i < hdr_capacity h" "distinct is" "room (n + length is) ?b"
    using Cons.prems(2,3) A(3) by (simp_all add: al2)
  from Cons.IH [OF dok prems] obtain b' where b': "init_segments h d is ?b = Inr b'" "dir_ok b' h" "room n b'"
    "\<And>q. allocated ?b q \<Longrightarrow> allocated b' q \<and> (q \<notin> dir_page_set h \<longrightarrow> pages b' q = pages ?b q)"
    "\<And>j. j < hdr_capacity h \<Longrightarrow> j \<notin> set is \<Longrightarrow> dirv b' h j = dirv ?b h j"
    "\<And>j. j \<in> set is \<Longrightarrow> \<not> allocated ?b (dirv b' h j) \<and> allocated b' (dirv b' h j) \<and>
        pages b' (dirv b' h j) = Segment_page (initSegment d)" "inj_on (dirv b' h) (set is)" by blast
  have dv: "dirv ?b h j = (if j = i then p else dirv b h j)" if j: "j < hdr_capacity h" for j
  proof -
    have "dirv ?b h j = dirv b2 h j" using j pd by (intro dirv_frame [OF b2(2)]) auto
    moreover have "dirv b1 h j = dirv b h j" using j pd A(2) by (intro dirv_frame [OF Cons.prems(1)]) auto
    ultimately show ?thesis using b2(4) [OF j] by simp
  qed
  have ap: "allocated ?b p" using A(5) by (simp add: al2)
  have di: "dirv b' h i = p" using b'(5) [OF i] Cons.prems(3) dv [OF i] by simp
  have first: "init_segments h d (i # is) b = Inr b'" using a b2(1) b'(1) by simp
  have keep: "allocated b' q \<and> (q \<notin> dir_page_set h \<longrightarrow> pages b' q = pages b q)" if q: "allocated b q" for q
  proof -
    have "q \<noteq> p" "allocated ?b q" using A(5,6) q by (auto simp: al2)
    then show ?thesis using b'(4) [of q] b2(3) A(2) by (auto simp: dir_frame_def)
  qed
  have entry: "\<not> allocated b (dirv b' h j) \<and> allocated b' (dirv b' h j) \<and> pages b' (dirv b' h j) = Segment_page (initSegment d)"
    if j: "j \<in> set (i # is)" for j
  proof (cases "j = i")
    case True
    then show ?thesis using di A(6) b'(4) [OF ap] pd by simp
  next
    case False
    then have "j \<in> set is" using j by simp
    then show ?thesis using b'(6) [of j] A(5) by (auto simp: al2)
  qed
  have "inj_on (dirv b' h) (set (i # is))" using b'(6,7) ap di by (auto simp: inj_on_insert)
  moreover have "dirv b' h j = dirv b h j" if "j < hdr_capacity h" "j \<notin> set (i # is)" for j
    using b'(5) [of j] dv [of j] that by simp
  ultimately show ?case using first b'(2,3) keep entry by blast
qed simp

lemma initCCEH_ok:
  assumes d: "1 \<le> log2_floor initCap" "log2_floor initCap \<le> 17" and room: "room (n + 257 + 2 ^ log2_floor initCap) b"
  shows "\<exists>c. initCCEH initCap b = Inr c \<and> cceh_ok f s c \<and> room n (cceh_io c) \<and>
    (\<forall>k. key_segment f c k = initSegment (log2_floor initCap))"
proof -
  let ?d = "log2_floor initCap"
  obtain root b1 where a: "AllocatePage Blank b = (root, b1)" by fastforce
  have "room (Suc (n + 256 + 2 ^ ?d)) b" using room by (simp add: ac_simps)
  note A = allocate_page [OF a this]
  obtain h b2 where nd: "allocate_dir_pages (initDirectory ?d zero_header) b1 = (h, b2)" by fastforce
  have "room ((n + 2 ^ ?d) + 256) b1" using A(3) by (simp add: ac_simps)
  note N = new_directory [OF nd this d(2)]
  have is_ok: "\<forall>i \<in> set [0..<hdr_capacity h]. i < hdr_capacity h" "distinct [0..<hdr_capacity h]"
    "room (n + length [0..<hdr_capacity h]) b2" using N(2,5) by simp_all
  from init_segments_ok [OF N(4) is_ok, of ?d] obtain b3 where b3: "init_segments h ?d [0..<hdr_capacity h] b2 = Inr b3" "dir_ok b3 h"
    "room n b3" "\<And>q. allocated b2 q \<Longrightarrow> allocated b3 q \<and> (q \<notin> dir_page_set h \<longrightarrow> pages b3 q = pages b2 q)"
    "\<And>j. j < hdr_capacity h \<Longrightarrow> \<not> allocated b2 (dirv b3 h j) \<and> allocated b3 (dirv b3 h j) \<and>
        pages b3 (dirv b3 h j) = Segment_page (initSegment ?d)" "inj_on (dirv b3 h) {0..<hdr_capacity h}"
    by auto
  let ?b = "WritePage root (Header_page h) b3"
  let ?c = "\<lparr>cceh_io = ?b, cceh_root = root, cceh_crashed = False\<rparr>"
  have blank: "as_header (ReadPage root b1) = Inr zero_header" using A(2) [of root] by simp
  have init: "initCCEH initCap b = Inr ?c" using a blank nd b3(1) by (simp add: initCCEH_def)
  have ra: "allocated b1 root" using A(5) by blast
  then have ra2: "allocated b2 root" using N(7) by blast
  have rd: "root \<notin> dir_page_set h" using N(6) [of root] ra by blast
  have dir: "dirv ?b h j = dirv b3 h j" if "j < hdr_capacity h" for j
    using that rd by (intro dirv_frame [OF b3(2)]) auto
  have pg: "dirv b3 h j \<noteq> root" if "j < hdr_capacity h" for j using b3(5) [OF that] ra2 by auto
  have sv: "segv ?b (dirv ?b h j) = initSegment ?d" if "j < hdr_capacity h" for j
    using b3(5) [OF that] pg [OF that] by (simp add: dir [OF that] segv_def)
  have dok: "dir_ok ?b h" using b3(2) by (rule dir_ok_cong) (use rd in auto)
  have fl: "flat_ok f s ?d (dirv ?b h) (segv ?b)"
    unfolding flat_ok_def
  proof (intro allI impI)
    fix x :: nat assume x: "x < 2 ^ ?d"
    then have xc: "x < hdr_capacity h" using N(2) by simp
    have "dirv ?b h x = dirv ?b h y \<longleftrightarrow> x = y" if "y < 2 ^ ?d" for y
      using xc that N(2) dir inj_onD [OF b3(6), of x y] by auto
    then show "1 \<le> seg_depth (segv ?b (dirv ?b h x)) \<and> seg_depth (segv ?b (dirv ?b h x)) \<le> ?d \<and>
        seg_ok f s (of_nat (x div 2 ^ (?d - seg_depth (segv ?b (dirv ?b h x))))) (segv ?b (dirv ?b h x)) \<and>
        (\<forall>y < 2 ^ ?d. dirv ?b h x = dirv ?b h y \<longleftrightarrow>
           x div 2 ^ (?d - seg_depth (segv ?b (dirv ?b h x))) = y div 2 ^ (?d - seg_depth (segv ?b (dirv ?b h x))))"
      unfolding sv [OF xc] initSegment_ok(2) using d(1) initSegment_ok(1) by simp
  qed
  have "pages ?b (dirv ?b h x) = Segment_page (segv ?b (dirv ?b h x)) \<and> allocated ?b (dirv ?b h x)" if x: "x < hdr_capacity h" for x
    unfolding sv [OF x] unfolding dir [OF x] using b3(5) [OF x] pg [OF x] by simp
  then have rep: "cceh_rep f s ?c h"
    using N(1-3) d dok fl b3(4) [OF ra2] by (simp add: cceh_rep_def)
  have "key_segment f ?c k = initSegment ?d" for k
    using sv dir_index_less [of ?d f k] d(2) N(1,2) unfolding key_segment_flat [OF rep] flat_seg_def by simp
  then show ?thesis using init rep b3(3) by (auto simp: cceh_ok_def)
qed

section \<open>Segments filled in probing order\<close>

text \<open>
  In a tight segment every key is held once, and all slots before it in its probing order are in
  use. A new key goes to the first free slot of that order, so no store finds a free slot
  before the slot that holds the key.
\<close>

definition unique_keys :: "segment \<Rightarrow> bool" where
  "unique_keys g \<longleftrightarrow> (\<forall>i < kSegSlot. \<forall>j < kSegSlot. seg_key g i = seg_key g j \<longrightarrow> seg_key g i \<noteq> INVALID \<longrightarrow> i = j)"

definition probe_order :: "hash_fn \<Rightarrow> hash_fn \<Rightarrow> segment \<Rightarrow> bool" where
  "probe_order f s g \<longleftrightarrow> (\<forall>loc < kSegSlot. seg_key g loc \<noteq> INVALID \<longrightarrow>
     (\<exists>i < length (probe f s (seg_key g loc)). probe f s (seg_key g loc) ! i = loc \<and>
        (\<forall>j < i. seg_key g (probe f s (seg_key g loc) ! j) \<noteq> INVALID)))"

definition tight :: "hash_fn \<Rightarrow> hash_fn \<Rightarrow> segment \<Rightarrow> bool" where
  "tight f s g \<longleftrightarrow> unique_keys g \<and> probe_order f s g"

lemma tight_init: "tight f s (initSegment d)"
  by (auto simp: tight_def unique_keys_def probe_order_def initSegment_ok)

lemma unique_holds:
  "length (seg_bucket g) = kSegSlot \<Longrightarrow> unique_keys g \<Longrightarrow> holds_pair g k v \<Longrightarrow> holds_pair g k w \<Longrightarrow> v = w"
proof -
  assume l: "length (seg_bucket g) = kSegSlot" and u: "unique_keys g" and h: "holds_pair g k v" "holds_pair g k w"
  from h obtain i j where "i < kSegSlot" "seg_bucket g ! i = (k, v)" "j < kSegSlot" "seg_bucket g ! j = (k, w)" "k \<noteq> INVALID"
    unfolding holds_pair_nth [OF l] by blast
  moreover from this have "i = j" using u by (auto simp: unique_keys_def seg_key_def)
  ultimately show "v = w" by simp
qed

lemma seg_get_unique:
  assumes "seg_ok f s pattern g" "unique_keys g" "key_ok k"
  shows "seg_get f s k g = Some v \<longleftrightarrow> holds_pair g k v"
proof
  have l: "length (seg_bucket g) = kSegSlot" using seg_okD(1) [OF assms(1)] .
  show "seg_get f s k g = Some v \<Longrightarrow> holds_pair g k v" by (rule seg_get_holds [OF l assms(3)])
  assume h: "holds_pair g k v"
  then obtain w where w: "seg_get f s k g = Some w" using seg_get_None [OF assms(1,3)] by (cases "seg_get f s k g") auto
  from unique_holds [OF l assms(2) h seg_get_holds [OF l assms(3) w]] w show "seg_get f s k g = Some v" by simp
qed

text \<open>A new key at the first free slot of its probing order.\<close>

lemma tight_add:
  assumes t: "tight f s g" and l: "length (seg_bucket g) = kSegSlot" and k: "k \<noteq> INVALID" "\<And>w. \<not> holds_pair g k w"
    and i: "i < length (probe f s k)" "seg_key g (probe f s k ! i) = INVALID" "\<And>j. j < i \<Longrightarrow> seg_key g (probe f s k ! j) \<noteq> INVALID"
  shows "tight f s (seg_set (probe f s k ! i) (k, v) g)"
proof -
  let ?m = "probe f s k ! i"
  have m: "?m < kSegSlot" using i(1) by (intro probe_less [of _ f s k]) simp
  have K: "seg_key (seg_set ?m (k, v) g) j = (if j = ?m then k else seg_key g j)" for j
    using seg_key_set [of ?m g "(k, v)" j] m l by simp
  have new: "seg_key g j \<noteq> k" if "j < kSegSlot" for j
  proof
    assume "seg_key g j = k"
    then have "seg_bucket g ! j = (k, snd (seg_bucket g ! j))" by (auto simp: seg_key_def)
    then show False using k that unfolding holds_pair_nth [OF l] by blast
  qed
  have "unique_keys (seg_set ?m (k, v) g)"
    using t new unfolding tight_def unique_keys_def K by auto
  moreover have "probe_order f s (seg_set ?m (k, v) g)"
    unfolding probe_order_def
  proof (intro allI impI)
    fix loc assume loc: "loc < kSegSlot" "seg_key (seg_set ?m (k, v) g) loc \<noteq> INVALID"
    show "\<exists>i < length (probe f s (seg_key (seg_set ?m (k, v) g) loc)). probe f s (seg_key (seg_set ?m (k, v) g) loc) ! i = loc \<and>
        (\<forall>j < i. seg_key (seg_set ?m (k, v) g) (probe f s (seg_key (seg_set ?m (k, v) g) loc) ! j) \<noteq> INVALID)"
    proof (cases "loc = ?m")
      case True
      then show ?thesis using i k(1) unfolding K by (intro exI [of _ i]) simp
    next
      case False
      then have "seg_key g loc \<noteq> INVALID" using loc(2) by (simp add: K)
      with t loc(1) obtain i' where "i' < length (probe f s (seg_key g loc))" "probe f s (seg_key g loc) ! i' = loc"
        "\<forall>j < i'. seg_key g (probe f s (seg_key g loc) ! j) \<noteq> INVALID" unfolding tight_def probe_order_def by blast
      with False k(1) show ?thesis unfolding K by (intro exI [of _ i']) simp
    qed
  qed
  ultimately show ?thesis by (simp add: tight_def)
qed

lemma tight_overwrite:
  assumes "tight f s g" "length (seg_bucket g) = kSegSlot" "loc < kSegSlot" "seg_key g loc = k"
  shows "tight f s (seg_set loc (k, v) g)"
proof -
  have "seg_key (seg_set loc (k, v) g) j = seg_key g j" for j using seg_key_set [of loc g "(k, v)" j] assms by simp
  then show ?thesis using assms(1) by (simp add: tight_def unique_keys_def probe_order_def)
qed

lemma tight_put:
  assumes ok: "seg_ok f s pattern g" and t: "tight f s g" and key: "key_ok key" and pat: "hash_prefix (seg_depth g) (f key) = pattern"
    and put: "put_scan f pattern key v (probe f s key) g = Some g'"
  shows "tight f s g'" "k \<noteq> key \<Longrightarrow> key_ok k \<Longrightarrow> seg_get f s k g' = seg_get f s k g"
proof -
  note D = seg_okD [OF ok]
  from put_scan_Some [OF put] obtain i where i: "i < length (probe f s key)" "g' = seg_set (probe f s key ! i) (key, v) g"
    "seg_key g (probe f s key ! i) = key \<or> seg_key g (probe f s key ! i) \<noteq> SENTINEL \<and>
        (seg_key g (probe f s key ! i) = INVALID \<or> hash_prefix (seg_depth g) (f (seg_key g (probe f s key ! i))) \<noteq> pattern)"
    "\<And>j. j < i \<Longrightarrow> seg_key g (probe f s key ! j) \<noteq> key \<and> seg_key g (probe f s key ! j) \<noteq> INVALID" by blast
  let ?m = "probe f s key ! i"
  have m: "?m < kSegSlot" using i(1) by (intro probe_less [of _ f s key]) simp
  have slot: "seg_key g ?m = key \<or> seg_key g ?m = INVALID" using i(3) D(2) [OF m] by blast
  show "tight f s g'"
  proof (cases "seg_key g ?m = key")
    case True
    show ?thesis unfolding i(2) by (rule tight_overwrite [OF t D(1) m True])
  next
    case False
    then have inv: "seg_key g ?m = INVALID" using slot by simp
    have "\<not> holds_pair g key w" for w
    proof
      assume "holds_pair g key w"
      then obtain loc where loc: "loc < kSegSlot" "seg_bucket g ! loc = (key, w)" unfolding holds_pair_nth [OF D(1)] by blast
      then have kl: "seg_key g loc = key" by (simp add: seg_key_def)
      with t loc(1) key obtain i' where i': "probe f s key ! i' = loc" "\<forall>j < i'. seg_key g (probe f s key ! j) \<noteq> INVALID"
        unfolding tight_def probe_order_def key_ok_def by metis
      show False
      proof (cases "i' < i")
        case True
        then show False using i(4) [of i'] i'(1) kl by simp
      next
        case False
        then have "i < i' \<or> i = i'" by auto
        then show False using i'(1,2) inv kl key by (auto simp: key_ok_def)
      qed
    qed
    with key i(4) show ?thesis unfolding i(2) by (intro tight_add [OF t D(1) _ _ i(1) inv]) (auto simp: key_ok_def)
  qed
  show "seg_get f s k g' = seg_get f s k g" if "k \<noteq> key" "key_ok k"
    unfolding seg_get_def i(2) using that slot m D(1) by (intro get_scan_set_other) (auto simp: key_ok_def)
qed

section \<open>Splits without displacement\<close>

fun crowded :: "hash_fn \<Rightarrow> hash_fn \<Rightarrow> segment \<Rightarrow> (u64 \<times> u64) list \<Rightarrow> bool" where
  "crowded f s g [] \<longleftrightarrow> False"
| "crowded f s g (kv # kvs) \<longleftrightarrow>
     (\<forall>loc \<in> set (probe f s (fst kv)). seg_key g loc \<noteq> INVALID) \<or> crowded f s (seg_place f s g kv) kvs"

definition roomy_split :: "hash_fn \<Rightarrow> hash_fn \<Rightarrow> segment \<Rightarrow> bool" where
  "roomy_split f s g \<longleftrightarrow> \<not> crowded f s (initSegment (seg_depth g + 1)) (half_pairs f False g) \<and>
     \<not> crowded f s (initSegment (seg_depth g + 1)) (half_pairs f True g)"

lemma insert_scan_None: "insert_scan k v locs g = None \<longleftrightarrow> (\<forall>loc \<in> set locs. seg_key g loc \<noteq> INVALID)"
  by (induction locs) auto

lemma seg_place_scan:
  assumes "\<not> (\<forall>loc \<in> set (probe f s (fst kv)). seg_key g loc \<noteq> INVALID)"
  shows "insert_scan (fst kv) (snd kv) (probe f s (fst kv)) g = Some (seg_place f s g kv)" "\<not> place_fails f s g kv"
proof -
  let ?F = "insert_scan (fst kv) (snd kv) (window (group_slot (f (fst kv)))) g"
    and ?S = "insert_scan (fst kv) (snd kv) (window (group_slot (s (fst kv)))) g"
  have "\<not> (?F = None \<and> ?S = None)" using assms by (auto simp: insert_scan_None probe_def)
  then have "insert_scan (fst kv) (snd kv) (probe f s (fst kv)) g = Some (seg_place f s g kv) \<and> \<not> place_fails f s g kv"
    by (cases ?F; cases ?S) (simp_all add: seg_place_def place_fails_def seg_Insert4split_def probe_def insert_scan_append)
  then show "insert_scan (fst kv) (snd kv) (probe f s (fst kv)) g = Some (seg_place f s g kv)" "\<not> place_fails f s g kv" by simp_all
qed

lemma tight_place_all:
  "seg_ok f s pattern g \<Longrightarrow> tight f s g \<Longrightarrow> \<not> crowded f s g kvs \<Longrightarrow> distinct (map fst kvs) \<Longrightarrow>
   \<forall>kv \<in> set kvs. key_ok (fst kv) \<and> hash_prefix (seg_depth g) (f (fst kv)) = pattern \<Longrightarrow>
   \<forall>kv \<in> set kvs. \<forall>w. \<not> holds_pair g (fst kv) w \<Longrightarrow>
   tight f s (foldl (seg_place f s) g kvs) \<and> \<not> loses f s g kvs"
proof (induction kvs arbitrary: g)
  case (Cons kv kvs)
  have kv: "key_ok (fst kv)" "hash_prefix (seg_depth g) (f (fst kv)) = pattern" "\<And>w. \<not> holds_pair g (fst kv) w"
    using Cons.prems(5,6) by auto
  have "\<not> (\<forall>loc \<in> set (probe f s (fst kv)). seg_key g loc \<noteq> INVALID)" using Cons.prems(3) by auto
  note S = seg_place_scan [OF this]
  note P = seg_place_ok [OF Cons.prems(1) kv(1,2)]
  from insert_scan_Some [OF S(1)] obtain i where i: "i < length (probe f s (fst kv))"
    "seg_place f s g kv = seg_set (probe f s (fst kv) ! i) (fst kv, snd kv) g" "seg_key g (probe f s (fst kv) ! i) = INVALID"
    "\<And>j. j < i \<Longrightarrow> seg_key g (probe f s (fst kv) ! j) \<noteq> INVALID" by auto
  have "tight f s (seg_place f s g kv)"
    unfolding i(2) using Cons.prems(1,2) kv i by (intro tight_add) (auto simp: key_ok_def dest: seg_okD(1))
  moreover have "\<not> crowded f s (seg_place f s g kv) kvs" "distinct (map fst kvs)" using Cons.prems(3,4) by simp_all
  moreover have "\<forall>kv' \<in> set kvs. key_ok (fst kv') \<and> hash_prefix (seg_depth (seg_place f s g kv)) (f (fst kv')) = pattern"
    using Cons.prems(5) P(2) by simp
  moreover have "\<forall>kv' \<in> set kvs. \<forall>w. \<not> holds_pair (seg_place f s g kv) (fst kv') w"
    using Cons.prems(4,6) P(3) by (auto simp: image_iff)
  ultimately have "tight f s (foldl (seg_place f s) (seg_place f s g kv) kvs) \<and> \<not> loses f s (seg_place f s g kv) kvs"
    using P(1) by (intro Cons.IH)
  then show ?case using S(2) by simp
qed simp

lemma half_pairs_distinct:
  assumes "length (seg_bucket g) = kSegSlot" "unique_keys g"
  shows "distinct (map fst (half_pairs f b g))"
proof -
  let ?P = "\<lambda>kv. fst kv \<noteq> INVALID \<and> split_bit_set (seg_depth g) (f (fst kv)) = b"
  have "distinct (map fst (filter ?P xs))"
    if "\<And>i j. i < length xs \<Longrightarrow> j < length xs \<Longrightarrow> fst (xs ! i) = fst (xs ! j) \<Longrightarrow> fst (xs ! i) \<noteq> INVALID \<Longrightarrow> i = j" for xs
    using that
  proof (induction xs)
    case (Cons x xs)
    have "distinct (map fst (filter ?P xs))"
    proof (rule Cons.IH)
      fix i j assume "i < length xs" "j < length xs" "fst (xs ! i) = fst (xs ! j)" "fst (xs ! i) \<noteq> INVALID"
      then show "i = j" using Cons.prems [of "Suc i" "Suc j"] by simp
    qed
    moreover have "fst x \<notin> fst ` set (filter ?P xs)" if "?P x"
    proof
      assume "fst x \<in> fst ` set (filter ?P xs)"
      then obtain y where "y \<in> set xs" "fst y = fst x" by auto
      then obtain j where "j < length xs" "fst (xs ! j) = fst x" by (auto simp: in_set_conv_nth)
      with Cons.prems [of 0 "Suc j"] that show False by simp
    qed
    ultimately show ?case by simp
  qed simp
  moreover have "i = j" if "i < length (seg_bucket g)" "j < length (seg_bucket g)" "fst (seg_bucket g ! i) = fst (seg_bucket g ! j)"
    "fst (seg_bucket g ! i) \<noteq> INVALID" for i j
    using assms that by (auto simp: unique_keys_def seg_key_def)
  ultimately show ?thesis unfolding half_pairs_def by blast
qed

lemma roomy_half:
  assumes ok: "seg_ok f s pattern g" and d: "seg_depth g < 64" and t: "tight f s g" and roomy: "roomy_split f s g"
  shows "tight f s (half f s b g)" "\<not> split_loses f s g"
proof -
  have u: "unique_keys g" using t by (simp add: tight_def)
  have H: "tight f s (half f s b g) \<and> \<not> loses f s (initSegment (seg_depth g + 1)) (half_pairs f b g)" for b
    unfolding half_fold
  proof (rule tight_place_all [OF initSegment_ok(1) tight_init])
    show "\<not> crowded f s (initSegment (seg_depth g + 1)) (half_pairs f b g)"
      using roomy by (cases b) (simp_all add: roomy_split_def)
    show "distinct (map fst (half_pairs f b g))" using seg_okD(1) [OF ok] u by (rule half_pairs_distinct)
    show "\<forall>kv \<in> set (half_pairs f b g). key_ok (fst kv) \<and>
        hash_prefix (seg_depth (initSegment (seg_depth g + 1))) (f (fst kv)) = half_pattern pattern b"
      using half_pairs_keys [OF ok d] by (simp add: initSegment_ok)
  qed (simp add: initSegment_ok)
  show "tight f s (half f s b g)" using H by blast
  show "\<not> split_loses f s g" using H by (auto simp: split_loses_def)
qed

lemma roomy_half_get:
  assumes ok: "seg_ok f s pattern g" and d: "seg_depth g < 64" and t: "tight f s g" and roomy: "roomy_split f s g" and k: "key_ok k"
  shows "seg_get f s k (half f s (split_bit_set (seg_depth g) (f k)) g) = seg_get f s k g"
proof -
  let ?h = "half f s (split_bit_set (seg_depth g) (f k)) g"
  note R = roomy_half [OF ok d t roomy]
  note H = seg_half_ok [OF ok d, of "split_bit_set (seg_depth g) (f k)"]
  have u: "unique_keys g" "unique_keys ?h" using t R(1) by (simp_all add: tight_def)
  have "seg_get f s k ?h = Some v \<longleftrightarrow> seg_get f s k g = Some v" for v
    unfolding seg_get_unique [OF ok u(1) k] seg_get_unique [OF H(1) u(2) k] using H(4) [OF R(2)] by simp
  then show ?thesis by (metis not_None_eq)
qed

section \<open>Put as the update of a map\<close>

definition cceh_tight :: "hash_fn \<Rightarrow> hash_fn \<Rightarrow> cceh \<Rightarrow> bool" where
  "cceh_tight f s c \<longleftrightarrow> (\<forall>k. tight f s (key_segment f c k))"

text \<open>Every split on the way of a \<open>Put\<close> is roomy and the directory does not reach its limit.\<close>

fun smooth :: "nat \<Rightarrow> hash_fn \<Rightarrow> hash_fn \<Rightarrow> u64 \<Rightarrow> u64 \<Rightarrow> cceh \<Rightarrow> bool" where
  "smooth 0 f s key v c \<longleftrightarrow> False"
| "smooth (Suc n) f s key v c \<longleftrightarrow>
     (case key_scan f s key v c of
        Some _ \<Rightarrow> True
      | None \<Rightarrow> roomy_split f s (key_segment f c key) \<and>
          (case put_once f s key v c of Inr (Again c') \<Rightarrow> smooth n f s key v c' | _ \<Rightarrow> False))"

lemma smooth_put:
  "cceh_ok f s c \<Longrightarrow> cceh_tight f s c \<Longrightarrow> key_ok key \<Longrightarrow> room (n + 300 * fuel) (cceh_io c) \<Longrightarrow> smooth fuel f s key v c \<Longrightarrow>
   \<exists>c'. put_loop fuel f s key v c = Inr c' \<and> cceh_ok f s c' \<and> cceh_tight f s c' \<and> room n (cceh_io c') \<and>
     seg_get f s key (key_segment f c' key) = Some v \<and>
     (\<forall>k. key_ok k \<longrightarrow> k \<noteq> key \<longrightarrow> seg_get f s k (key_segment f c' k) = seg_get f s k (key_segment f c k))"
proof (induction fuel arbitrary: c)
  case (Suc fuel)
  have "room ((n + 300 * fuel) + 300) (cceh_io c)" using Suc.prems(4) by (simp add: algebra_simps)
  from Suc.prems(1,3) this show ?case
  proof (cases rule: put_once_step [where v = v])
    case (store sg c')
    have room': "room n (cceh_io c')" using store(4) by (rule room_mono) simp
    have t: "tight f s (key_segment f c key)" using Suc.prems(2) by (simp add: cceh_tight_def)
    note P = tight_put [OF key_segment_ok(1) [OF Suc.prems(1)] t Suc.prems(3) refl store(1) [unfolded key_scan_def]]
    have "cceh_tight f s c'" using P(1) store(5) Suc.prems(2) by (simp add: cceh_tight_def after_store_def)
    moreover have "seg_get f s k (key_segment f c' k) = seg_get f s k (key_segment f c k)" if "key_ok k" "k \<noteq> key" for k
      using store(5) P(2) [OF that(2,1)] same_page_prefix(1) [OF Suc.prems(1), of k key] by (simp add: after_store_def)
    moreover have "put_loop (Suc fuel) f s key v c = Inr c'" using store(2) by simp
    ultimately show ?thesis using after_store_holds(2) [OF Suc.prems(1,3) store(1,5)] store(3) room' by blast
  next
    case (limit c')
    have "key_scan f s key v c = None" using limit(1) key_scan_None unfolding at_limit_def by blast
    then show ?thesis using Suc.prems(5) limit(2) by simp
  next
    case (split c')
    have sm: "roomy_split f s (key_segment f c key)" "smooth fuel f s key v c'" using Suc.prems(5) split(1,3) by simp_all
    note K = key_segment_ok(1,2) [OF Suc.prems(1), of key] key_segment_ok(4) [OF Suc.prems(1)]
    have d: "seg_depth (key_segment f c key) < 64" using K(2,3) by simp
    have t: "tight f s (key_segment f c key)" using Suc.prems(2) by (simp add: cceh_tight_def)
    have "tight f s (key_segment f c' k)" for k
      using split(6) roomy_half(1) [OF K(1) d t sm(1)] Suc.prems(2) same_page_prefix(1) [OF Suc.prems(1), of k key]
      by (simp add: after_split_def cceh_tight_def)
    then have t': "cceh_tight f s c'" by (simp add: cceh_tight_def)
    have same: "seg_get f s k (key_segment f c' k) = seg_get f s k (key_segment f c k)" if "key_ok k" for k
      using split(6) roomy_half_get [OF K(1) d t sm(1) that] same_page_prefix(1) [OF Suc.prems(1), of k key]
      by (simp add: after_split_def)
    from Suc.IH [OF split(4) t' Suc.prems(3) split(5) sm(2)] obtain c'' where "put_loop fuel f s key v c' = Inr c''" "cceh_ok f s c''"
      "cceh_tight f s c''" "room n (cceh_io c'')" "seg_get f s key (key_segment f c'' key) = Some v"
      "\<forall>k. key_ok k \<longrightarrow> k \<noteq> key \<longrightarrow> seg_get f s k (key_segment f c'' k) = seg_get f s k (key_segment f c' k)" by blast
    moreover from this(1) have "put_loop (Suc fuel) f s key v c = Inr c''" using split(3) by simp
    ultimately show ?thesis using same by metis
  qed
qed simp

section \<open>Properties\<close>

text \<open>
  C5: On a well-formed index \<open>Put\<close> returns within 18 turns of its loop, keeps the index well-formed,
  and \<open>Get\<close> of the key then finds the value, unless the segment of the key is full and the
  directory has its greatest size: then the pair is not stored and \<open>Get\<close> answers \<open>NONE\<close>.
\<close>

theorem cceh_Put_Get_correct:
  assumes "cceh_ok f s c" "key_ok key" "room (n + 5400) (cceh_io c)"
  shows "\<exists>c'. cceh_Put f s key v c = Inr c' \<and> cceh_ok f s c' \<and> room n (cceh_io c') \<and>
    (cceh_Get f s key c' = Inr v \<or> at_limit f s key c' \<and> cceh_Get f s key c' = Inr NONE)"
proof -
  from cceh_Put_ok [OF assms, of v] obtain c' where c': "cceh_Put f s key v c = Inr c'" "cceh_ok f s c'" "room n (cceh_io c')"
    "seg_get f s key (key_segment f c' key) = Some v \<or> at_limit f s key c'" by blast
  then show ?thesis using at_limit_absent [of f s key c'] by (auto simp: cceh_Get_eq)
qed

lemma cceh_BatchGet_holds:
  "cceh_ok f s c \<Longrightarrow> \<forall>k \<in> set ks. key_ok k \<Longrightarrow>
   \<exists>ws. cceh_BatchGet f s ks c = Inr ws \<and> length ws = length ks \<and>
     (\<forall>(k, w) \<in> set (zip ks ws). w = NONE \<or> cceh_holds f c k w)"
proof (induction ks)
  case (Cons k ks)
  then obtain ws where "cceh_BatchGet f s ks c = Inr ws" "length ws = length ks"
    "\<forall>(k, w) \<in> set (zip ks ws). w = NONE \<or> cceh_holds f c k w" by auto
  moreover obtain w where w: "cceh_Get f s k c = Inr w" using cceh_Get_eq [OF Cons.prems(1)] by blast
  moreover have "w = NONE \<or> cceh_holds f c k w" using cceh_Get_holds [OF Cons.prems(1) _ w] Cons.prems(2) by simp
  ultimately show ?case by auto
qed simp

text \<open>
  C22: From the constructor on, any batch of \<open>Put\<close>s returns, and \<open>BatchGet\<close> answers for every key
  \<open>NONE\<close> or a value that the batch put under this very key: the index never makes a value up and
  never mixes keys, whatever the two hash functions are.
\<close>

theorem cceh_run_safe:
  assumes "1 \<le> log2_floor initCap" "log2_floor initCap \<le> 17"
    and "room (5400 * length kvs + 257 + 2 ^ log2_floor initCap) b"
    and "\<forall>kv \<in> set kvs. key_ok (fst kv)" "\<forall>k \<in> set ks. key_ok k"
  shows "\<exists>c c' ws. initCCEH initCap b = Inr c \<and> cceh_BatchPut f s kvs c = Inr c' \<and> cceh_BatchGet f s ks c' = Inr ws \<and>
    length ws = length ks \<and> (\<forall>(k, w) \<in> set (zip ks ws). w = NONE \<or> (k, w) \<in> set kvs)"
proof -
  from initCCEH_ok [OF assms(1-3), of f s] obtain c where c: "initCCEH initCap b = Inr c" "cceh_ok f s c"
    "room (0 + 5400 * length kvs) (cceh_io c)" "\<And>k. key_segment f c k = initSegment (log2_floor initCap)" by auto
  from cceh_BatchPut_ok [OF c(2) assms(4) c(3)] obtain c' where c': "cceh_BatchPut f s kvs c = Inr c'" "cceh_ok f s c'"
    "\<forall>k w. cceh_holds f c' k w \<longrightarrow> cceh_holds f c k w \<or> (k, w) \<in> set kvs" by blast
  have "(k, w) \<in> set kvs" if "cceh_holds f c' k w" for k w
    using c'(3) that by (auto simp: cceh_holds_def c(4) initSegment_ok)
  moreover from cceh_BatchGet_holds [OF c'(2) assms(5)] obtain ws where "cceh_BatchGet f s ks c' = Inr ws" "length ws = length ks"
    "\<forall>(k, w) \<in> set (zip ks ws). w = NONE \<or> cceh_holds f c' k w" by blast
  ultimately show ?thesis using c(1) c'(1) by blast
qed

lemma cceh_smooth_Put:
  assumes "cceh_ok f s c" "cceh_tight f s c" "key_ok key" "room (n + 5400) (cceh_io c)" "smooth 18 f s key v c"
  shows "\<exists>c'. cceh_Put f s key v c = Inr c' \<and> cceh_ok f s c' \<and> cceh_tight f s c' \<and> room n (cceh_io c') \<and>
    (\<forall>k. key_ok k \<longrightarrow> cceh_Get f s k c' = (if k = key then Inr v else cceh_Get f s k c))"
proof -
  have "room (n + 300 * 18) (cceh_io c)" using assms(4) by simp
  from smooth_put [OF assms(1-3) this assms(5)] obtain c' where "cceh_Put f s key v c = Inr c'" "cceh_ok f s c'" "cceh_tight f s c'"
    "room n (cceh_io c')" "seg_get f s key (key_segment f c' key) = Some v"
    "\<forall>k. key_ok k \<longrightarrow> k \<noteq> key \<longrightarrow> seg_get f s k (key_segment f c' k) = seg_get f s k (key_segment f c k)"
    unfolding cceh_Put_def by blast
  then show ?thesis using assms(1) by (auto simp: cceh_Get_eq)
qed

text \<open>
  C13: While the segments are filled in probing order and the splits of a \<open>Put\<close> need no displacement,
  \<open>Put\<close> is the update of a map: the key gets its value, every other key keeps what \<open>Get\<close> answered,
  through splits and directory expansions.
\<close>

theorem cceh_refines_map:
  assumes "cceh_ok f s c" "cceh_tight f s c" "key_ok key" "room (n + 5400) (cceh_io c)" "smooth 18 f s key v c"
  shows "\<exists>c'. cceh_Put f s key v c = Inr c' \<and> cceh_ok f s c' \<and> cceh_tight f s c' \<and> room n (cceh_io c') \<and>
    (\<forall>k. key_ok k \<longrightarrow> cceh_Get f s k c' = (if k = key then Inr v else cceh_Get f s k c))"
  using assms by (rule cceh_smooth_Put)

section \<open>A concrete index\<close>

definition blank_device :: "page io_backend" where
  "blank_device = \<lparr>next_page_id = 1, pages = (\<lambda>_. Blank)\<rparr>"

lemma initial_depth: "log2_floor 2 = 1"
  by (simp add: log2_floor.simps)

lemma fresh_index:
  "\<exists>c. initCCEH 2 blank_device = Inr c \<and> cceh_ok f s c \<and> room 5400 (cceh_io c) \<and> (\<forall>k. key_segment f c k = initSegment 1)"
  using initCCEH_ok [of 2 5400 blank_device f s] unfolding initial_depth by (simp add: room_def blank_device_def)

lemma fresh_smooth:
  assumes "key_segment f c key = initSegment 1" "key_ok key"
  shows "smooth 18 f s key v c"
proof -
  have "length (probe f s key) \<noteq> 0" by (simp add: probe_def window_def kNumPairPerCacheLine_def kNumCacheLine_def)
  then obtain l ls where ls: "probe f s key = l # ls" by (cases "probe f s key") simp_all
  then have p: "probe f s key = l # ls" "l < kSegSlot" using probe_less [of l f s key] by simp_all
  have "seg_key (initSegment 1) l = INVALID" using p(2) by (rule initSegment_ok)
  moreover have "INVALID \<noteq> SENTINEL" by (simp add: INVALID_def SENTINEL_def)
  ultimately have "key_scan f s key v c \<noteq> None" using assms p(1) by (auto simp: key_scan_def key_ok_def)
  then have "smooth (Suc 17) f s key v c" unfolding smooth.simps by auto
  moreover have "(18 :: nat) = Suc 17" by simp
  ultimately show ?thesis by (simp only:)
qed

theorem cceh_Put_Get_correct_witness:
  "\<exists>c c'. initCCEH 2 blank_device = Inr c \<and> cceh_Put (\<lambda>k. k) (\<lambda>k. k + 1) 5 70 c = Inr c' \<and>
    (cceh_Get (\<lambda>k. k) (\<lambda>k. k + 1) 5 c' = Inr 70 \<or> cceh_Get (\<lambda>k. k) (\<lambda>k. k + 1) 5 c' = Inr NONE)"
proof -
  obtain c where c: "initCCEH 2 blank_device = Inr c" "cceh_ok (\<lambda>k. k) (\<lambda>k. k + 1) c" "room (0 + 5400) (cceh_io c)"
    using fresh_index [of "\<lambda>k. k" "\<lambda>k. k + 1"] by auto
  have "key_ok 5" by (simp add: key_ok_def INVALID_def SENTINEL_def)
  from cceh_Put_Get_correct [OF c(2) this c(3)] c(1) show ?thesis by blast
qed

theorem cceh_run_safe_witness:
  "\<exists>c c' ws. initCCEH 2 blank_device = Inr c \<and> cceh_BatchPut (\<lambda>k. k) (\<lambda>k. k + 1) [(5, 70), (6, 80), (5, 90)] c = Inr c' \<and>
    cceh_BatchGet (\<lambda>k. k) (\<lambda>k. k + 1) [5, 6] c' = Inr ws \<and> length ws = 2"
proof -
  have "\<forall>kv \<in> set [(5 :: u64, 70 :: u64), (6, 80), (5, 90)]. key_ok (fst kv)" "\<forall>k \<in> set [5, 6]. key_ok k"
    by (simp_all add: key_ok_def INVALID_def SENTINEL_def)
  moreover have "room (5400 * length [(5 :: u64, 70 :: u64), (6, 80), (5, 90)] + 257 + 2 ^ log2_floor 2) blank_device"
    unfolding initial_depth by (simp add: room_def blank_device_def)
  moreover have "1 \<le> log2_floor 2" "log2_floor 2 \<le> 17" unfolding initial_depth by simp_all
  ultimately show ?thesis
    using cceh_run_safe [of 2 "[(5, 70), (6, 80), (5, 90)]" blank_device "[5, 6]" "\<lambda>k. k" "\<lambda>k. k + 1"] by auto
qed

theorem cceh_refines_map_witness:
  "\<exists>c c'. initCCEH 2 blank_device = Inr c \<and> cceh_Put (\<lambda>k. k) (\<lambda>k. k + 1) 5 70 c = Inr c' \<and>
    cceh_Get (\<lambda>k. k) (\<lambda>k. k + 1) 5 c' = Inr 70 \<and> cceh_Get (\<lambda>k. k) (\<lambda>k. k + 1) 6 c' = cceh_Get (\<lambda>k. k) (\<lambda>k. k + 1) 6 c"
proof -
  obtain c where c: "initCCEH 2 blank_device = Inr c" "cceh_ok (\<lambda>k. k) (\<lambda>k. k + 1) c" "room (0 + 5400) (cceh_io c)"
    "\<And>k. key_segment (\<lambda>k. k) c k = initSegment 1"
    using fresh_index [of "\<lambda>k. k" "\<lambda>k. k + 1"] by auto
  have k: "key_ok 5" "key_ok 6" by (simp_all add: key_ok_def INVALID_def SENTINEL_def)
  have "cceh_tight (\<lambda>k. k) (\<lambda>k. k + 1) c" by (simp add: cceh_tight_def c(4) tight_init)
  from cceh_refines_map [OF c(2) this k(1) c(3) fresh_smooth [OF c(4) k(1)], of 70] c(1) k show ?thesis by auto
qed

end
