(* ===== verification/PagedEngine.thy ===== *)
theory PagedEngine
  imports CCEHMap HashFunctions Pointers MallocApi
begin

unbundle bit_operations_syntax

text \<open>
  \<open>KVEngineCCEH\<close> (\<open>storage/kv_engine/engine_cceh.h\<close>): the paged hash index over a second device
  that holds the values, each in consecutive pages behind a four-byte length. A value page is a
  list of 4096 bytes. Sizes that do not fit \<open>uint32_t\<close> or \<open>uint16_t\<close> are cut as in the code.
\<close>

section \<open>The code\<close>

definition PAGE_SIZE :: nat where "PAGE_SIZE = 4096"

definition blank_page :: "u8 list" where "blank_page = replicate PAGE_SIZE 0"

text \<open>\<open>memcpy\<close> to the offset \<open>i\<close> of a buffer.\<close>

definition memcpy_at :: "nat \<Rightarrow> u8 list \<Rightarrow> u8 list \<Rightarrow> u8 list" where
  "memcpy_at i bs buffer = take i buffer @ bs @ drop (i + length bs) buffer"

definition len_bytes :: "u32 \<Rightarrow> u8 list" where
  "len_bytes l = map (get_byte (ucast l)) [0..<4]"

definition len_of :: "u8 list \<Rightarrow> u32" where
  "len_of buffer = ucast (le_word (take 4 buffer))"

definition value_size :: "u8 list \<Rightarrow> u32" where
  "value_size v = of_nat (length v)"

definition pages_needed :: "u32 \<Rightarrow> u16" where
  "pages_needed actual_size = of_nat ((unat (actual_size + 4) + PAGE_SIZE - 1) div PAGE_SIZE)"

record cceh_engine =
  ce_table :: cceh
  ce_values :: "u8 list io_backend"

text \<open>The loop of \<open>Put\<close> over \<open>n\<close> more pages from page \<open>i\<close> on.\<close>

fun store_pages :: "nat \<Rightarrow> nat \<Rightarrow> nat \<Rightarrow> u64 \<Rightarrow> u8 list \<Rightarrow> u8 list io_backend \<Rightarrow> u64 \<times> u8 list io_backend" where
  "store_pages 0 i written start v b = (start, b)"
| "store_pages (Suc n) i written start v b =
     (case AllocatePage blank_page b of (page_id, b1) \<Rightarrow>
        let buffer = ReadPage page_id b1; actual_size = unat (value_size v) in
        if i = 0 then
          let data_in_page = min (PAGE_SIZE - 4) actual_size in
          store_pages n 1 (written + data_in_page) page_id v
            (WritePage page_id (memcpy_at 4 (take data_in_page v) (memcpy_at 0 (len_bytes (value_size v)) buffer)) b1)
        else
          let data_in_page = min PAGE_SIZE (actual_size - written) in
          store_pages n (Suc i) (written + data_in_page) start v
            (WritePage page_id (memcpy_at 0 (take data_in_page (drop written v)) buffer) b1))"

definition ce_Put :: "hash_fn \<Rightarrow> hash_fn \<Rightarrow> u64 \<Rightarrow> u8 list \<Rightarrow> cceh_engine \<Rightarrow> cceh_engine result" where
  "ce_Put f s key v e =
     (let n = pages_needed (value_size v) in
      case store_pages (unat n) 0 0 0 v (ce_values e) of (start, b) \<Rightarrow>
        bind_result (cceh_Put f s key (PackPageValue start n) (ce_table e)) (\<lambda>t.
          Inr (e\<lparr>ce_table := t, ce_values := b\<rparr>)))"

text \<open>The loop of \<open>Get\<close>; \<open>value\<close> is the caller's string. \<open>std::string::resize\<close> pads with zeros.\<close>

definition resize :: "nat \<Rightarrow> u8 list \<Rightarrow> u8 list" where
  "resize n v = take n v @ replicate (n - length v) 0"

fun load_pages :: "nat \<Rightarrow> nat \<Rightarrow> u64 \<Rightarrow> nat \<Rightarrow> nat \<Rightarrow> u8 list \<Rightarrow> u8 list io_backend \<Rightarrow> u8 list" where
  "load_pages 0 i start actual_size written v b = v"
| "load_pages (Suc n) i start actual_size written v b =
     (let buffer = ReadPage (start + of_nat i) b in
      if i = 0 then
        let size' = unat (len_of buffer); data_in_page = min (PAGE_SIZE - 4) size' in
        load_pages n 1 start size' (written + data_in_page) (memcpy_at 0 (take data_in_page (drop 4 buffer)) (resize size' v)) b
      else
        let data_in_page = min PAGE_SIZE (actual_size - written) in
        load_pages n (Suc i) start actual_size (written + data_in_page) (memcpy_at written (take data_in_page buffer) v) b)"

definition ce_Get :: "hash_fn \<Rightarrow> hash_fn \<Rightarrow> u64 \<Rightarrow> u8 list \<Rightarrow> cceh_engine \<Rightarrow> u8 list result" where
  "ce_Get f s key v e =
     bind_result (cceh_Get f s key (ce_table e)) (\<lambda>w.
       if w = NONE then Inr []
       else case UnpackPageValue w of (start, n) \<Rightarrow> Inr (load_pages (unat n) 0 start 0 0 v (ce_values e)))"

text \<open>
  \<open>BatchPut\<close>: page ids for all values, then the buffers and their pages, then the index. A buffer
  is as long as the value's pages, zero-filled; a longer value would be copied past its end.
\<close>

fun batch_ids :: "u8 list list \<Rightarrow> u8 list io_backend \<Rightarrow> (u64 \<times> u16) list \<times> u8 list io_backend" where
  "batch_ids [] b = ([], b)"
| "batch_ids (v # vs) b =
     (let n = pages_needed (value_size v); start = GetNextPageID b in
      case batch_ids vs (SetNextPageID (start + ucast n) b) of (ids, b') \<Rightarrow> ((start, n) # ids, b'))"

fun split_pages_of :: "nat \<Rightarrow> u8 list \<Rightarrow> u8 list list" where
  "split_pages_of 0 buffer = []"
| "split_pages_of (Suc n) buffer = take PAGE_SIZE buffer # split_pages_of n (drop PAGE_SIZE buffer)"

definition batch_buffer :: "u16 \<Rightarrow> u8 list \<Rightarrow> u8 list result" where
  "batch_buffer n v =
     (let buffer = replicate (unat n * PAGE_SIZE) 0 in
      if length v + 4 > unat n * PAGE_SIZE then Inl Bad_access
      else Inr (memcpy_at 4 v (memcpy_at 0 (len_bytes (value_size v)) buffer)))"

fun batch_entries :: "((u64 \<times> u16) \<times> u8 list) list \<Rightarrow> (u64 \<times> u8 list list) list result" where
  "batch_entries [] = Inr []"
| "batch_entries (((start, n), v) # xs) =
     bind_result (batch_buffer n v) (\<lambda>buffer.
       bind_result (batch_entries xs) (\<lambda>es. Inr ((start, split_pages_of (unat n) buffer) # es)))"

definition ce_BatchPut :: "hash_fn \<Rightarrow> hash_fn \<Rightarrow> (u64 \<times> u8 list) list \<Rightarrow> cceh_engine \<Rightarrow> cceh_engine result" where
  "ce_BatchPut f s kvs e =
     (case batch_ids (map snd kvs) (ce_values e) of (ids, b) \<Rightarrow>
        bind_result (batch_entries (zip ids (map snd kvs))) (\<lambda>entries.
          let b' = BatchWritePages entries b in
          bind_result (cceh_BatchPut f s (zip (map fst kvs) (map (\<lambda>(start, n). PackPageValue start n) ids)) (ce_table e))
            (\<lambda>t. Inr (e\<lparr>ce_table := t, ce_values := b'\<rparr>))))"

text \<open>
  \<open>BatchGet\<close>: the look-ups (by coroutines, which only read), the pages of all hits in one batch, and
  each value copied to an array of \<open>actual_size / 4\<close> floats.
\<close>

definition copy_floats :: "u8 list list \<Rightarrow> u8 list result" where
  "copy_floats ps =
     (let buffer = concat ps; actual_size = unat (len_of buffer) in
      if actual_size mod 4 \<noteq> 0 \<or> actual_size + 4 > length buffer then Inl Bad_access
      else Inr (take actual_size (drop 4 buffer)))"

fun collect_values :: "u64 list \<Rightarrow> u8 list list list \<Rightarrow> u8 list list result" where
  "collect_values [] reads = Inr []"
| "collect_values (w # ws) reads =
     (if w = NONE then bind_result (collect_values ws reads) (\<lambda>vs. Inr ([] # vs))
      else case reads of
          [] \<Rightarrow> Inl Bad_access
        | ps # reads' \<Rightarrow> bind_result (copy_floats ps) (\<lambda>v. bind_result (collect_values ws reads') (\<lambda>vs. Inr (v # vs))))"

definition ce_BatchGet :: "hash_fn \<Rightarrow> hash_fn \<Rightarrow> u64 list \<Rightarrow> cceh_engine \<Rightarrow> u8 list list result" where
  "ce_BatchGet f s keys e =
     bind_result (cceh_BatchGet f s keys (ce_table e)) (\<lambda>ws.
       let entries = map (\<lambda>w. case UnpackPageValue w of (start, n) \<Rightarrow> (start, unat n)) (filter (\<lambda>w. w \<noteq> NONE) ws) in
       collect_values ws (BatchReadPages entries (ce_values e)))"

text \<open>The two hash functions of the index.\<close>

definition f_seed :: u64 where "f_seed = 0xc70697"

definition key_hash :: "nat \<Rightarrow> (u8 list \<Rightarrow> u64 \<Rightarrow> u64) \<Rightarrow> hash_fn" where
  "key_hash i standard key = (hash_funcs standard ! i) (map (get_byte key) [0..<8]) f_seed"

section \<open>Pages of a value\<close>

definition value_stream :: "u8 list \<Rightarrow> u8 list" where
  "value_stream v = len_bytes (value_size v) @ v"

definition page_of :: "u8 list \<Rightarrow> nat \<Rightarrow> u8 list" where
  "page_of v i = (let d = take PAGE_SIZE (drop (i * PAGE_SIZE) (value_stream v)) in d @ replicate (PAGE_SIZE - length d) 0)"

definition fits :: "u8 list \<Rightarrow> bool" where
  "fits v \<longleftrightarrow> length v + 4 \<le> 65535 * PAGE_SIZE"

lemma len_bytes_length [simp]: "length (len_bytes l) = 4"
  by (simp add: len_bytes_def)

lemma value_size_unat: "fits v \<Longrightarrow> unat (value_size v) = length v"
  by (simp add: fits_def value_size_def PAGE_SIZE_def unsigned_of_nat take_bit_eq_mod)

lemma len_of_bytes: "len_of (len_bytes l @ xs) = l"
proof (rule bit_word_eqI)
  fix n assume n: "n < LENGTH(32)"
  then have "n div 8 < 4" "n div 8 * 8 + n mod 8 = n" by simp_all
  then show "bit (len_of (len_bytes l @ xs)) n = bit l n"
    using n by (simp add: len_of_def len_bytes_def bit_unsigned_iff bit_le_word get_byte_def bit_simps)
qed

lemma page_of_length: "length (page_of v i) = PAGE_SIZE"
  by (simp add: page_of_def Let_def)

lemma ceil_div: "0 < p \<Longrightarrow> n \<le> (n + p - 1) div p * (p :: nat)"
proof -
  assume p: "0 < p"
  have "(n + p - 1) div p * p + (n + p - 1) mod p = n + p - 1" by (rule div_mult_mod_eq)
  moreover have "(n + p - 1) mod p < p" using p by simp
  ultimately show ?thesis by linarith
qed

lemma pages_needed_count:
  assumes "fits v"
  shows "unat (pages_needed (value_size v)) = (length v + 4 + PAGE_SIZE - 1) div PAGE_SIZE"
    "0 < unat (pages_needed (value_size v))" "length v + 4 \<le> unat (pages_needed (value_size v)) * PAGE_SIZE"
proof -
  have l: "length v + 4 \<le> 65535 * 4096" using assms by (simp add: fits_def PAGE_SIZE_def)
  have "unat (value_size v + 4) = length v + 4"
    using l value_size_unat [OF assms] by (simp add: unat_word_ariths)
  moreover have "(length v + 4 + PAGE_SIZE - 1) div PAGE_SIZE < 2 ^ 16"
  proof -
    have "(length v + 4 + PAGE_SIZE - 1) div PAGE_SIZE \<le> (65535 * 4096 + 4096 - 1) div PAGE_SIZE"
      using l unfolding PAGE_SIZE_def by (intro div_le_mono) simp
    then show ?thesis by (simp add: PAGE_SIZE_def)
  qed
  ultimately show e: "unat (pages_needed (value_size v)) = (length v + 4 + PAGE_SIZE - 1) div PAGE_SIZE"
    by (simp add: pages_needed_def unsigned_of_nat take_bit_eq_mod)
  show "length v + 4 \<le> unat (pages_needed (value_size v)) * PAGE_SIZE"
    unfolding e by (rule ceil_div) (simp add: PAGE_SIZE_def)
  then show "0 < unat (pages_needed (value_size v))" by (cases "unat (pages_needed (value_size v))") auto
qed

lemma value_stream_length: "length (value_stream v) = 4 + length v"
  by (simp add: value_stream_def)

lemma page_0:
  "page_of v 0 = memcpy_at 4 (take (min (PAGE_SIZE - 4) (length v)) v) (memcpy_at 0 (len_bytes (value_size v)) blank_page)"
proof -
  have "take PAGE_SIZE (value_stream v) = len_bytes (value_size v) @ take (PAGE_SIZE - 4) v"
    by (simp add: value_stream_def PAGE_SIZE_def)
  moreover have "take (min (PAGE_SIZE - 4) (length v)) v = take (PAGE_SIZE - 4) v" by (auto simp: min_def)
  ultimately show ?thesis
    by (simp add: page_of_def Let_def memcpy_at_def blank_page_def PAGE_SIZE_def)
qed

definition written_at :: "u8 list \<Rightarrow> nat \<Rightarrow> nat" where
  "written_at v i = min (i * PAGE_SIZE - 4) (length v)"

lemma page_Suc:
  assumes "0 < i"
  shows "page_of v i = memcpy_at 0 (take (min PAGE_SIZE (length v - written_at v i)) (drop (written_at v i) v)) blank_page"
proof -
  have p: "4 \<le> i * PAGE_SIZE" using assms by (cases i) (simp_all add: PAGE_SIZE_def)
  have "drop (i * PAGE_SIZE) (value_stream v) = drop (i * PAGE_SIZE - 4) v"
    using p by (simp add: value_stream_def)
  also have "take PAGE_SIZE \<dots> = take (min PAGE_SIZE (length v - written_at v i)) (drop (written_at v i) v)"
    by (auto simp: written_at_def min_def)
  finally show ?thesis by (simp add: page_of_def Let_def memcpy_at_def blank_page_def)
qed

lemma written_step:
  assumes "0 < i"
  shows "written_at v i + min PAGE_SIZE (length v - written_at v i) = written_at v (Suc i)"
proof -
  have "4 \<le> i * PAGE_SIZE" using assms by (cases i) (simp_all add: PAGE_SIZE_def)
  then show ?thesis by (auto simp: written_at_def min_def)
qed

lemma written_1: "min (PAGE_SIZE - 4) (length v) = written_at v 1"
  by (simp add: written_at_def)

lemma write_blank: "WritePage p x (snd (AllocatePage e b)) = WritePage p x (b\<lparr>next_page_id := next_page_id b + 1\<rparr>)" if "p = next_page_id b"
  using that by (simp add: AllocatePage_def WritePage_def)

lemma next_write: "(WritePage p x b)\<lparr>next_page_id := n\<rparr> = WritePage p x (b\<lparr>next_page_id := n\<rparr>)"
  by (simp add: WritePage_def)

lemma next_write_pages: "(write_pages p xs b)\<lparr>next_page_id := n\<rparr> = write_pages p xs (b\<lparr>next_page_id := n\<rparr>)"
  by (induction p xs b rule: write_pages.induct) (simp_all add: next_write)

lemma next_of_write_pages [simp]: "next_page_id (write_pages p xs b) = next_page_id b"
  by (induction p xs b rule: write_pages.induct) simp_all

text \<open>The loop writes the value's pages to the next page ids.\<close>

lemma store_pages_rest:
  "fits v \<Longrightarrow> 0 < i \<Longrightarrow> store_pages n i (written_at v i) start v b =
    (start, write_pages (next_page_id b) (map (page_of v) [i..<i + n]) (b\<lparr>next_page_id := next_page_id b + of_nat n\<rparr>))"
proof (induction n arbitrary: i b)
  case (Suc n)
  let ?p = "next_page_id b"
  let ?b = "WritePage ?p (page_of v i) (b\<lparr>next_page_id := ?p + 1\<rparr>)"
  have "store_pages (Suc n) i (written_at v i) start v b = store_pages n (Suc i) (written_at v (Suc i)) start v ?b"
    using Suc.prems written_step [of i v] write_blank [of ?p b "page_of v i" blank_page]
    by (simp add: AllocatePage_def Let_def value_size_unat page_Suc)
  also have "\<dots> = (start, write_pages (?p + 1) (map (page_of v) [Suc i..<Suc i + n]) (?b\<lparr>next_page_id := ?p + 1 + of_nat n\<rparr>))"
    using Suc.IH [of "Suc i" ?b] Suc.prems(1) by simp
  also have "?b\<lparr>next_page_id := ?p + 1 + of_nat n\<rparr> = WritePage ?p (page_of v i) (b\<lparr>next_page_id := ?p + of_nat (Suc n)\<rparr>)"
    by (simp add: next_write add.assoc)
  also have "map (page_of v) [i..<i + Suc n] = page_of v i # map (page_of v) [Suc i..<Suc i + n]"
    by (subst upt_conv_Cons) simp_all
  ultimately show ?case by simp
qed simp

lemma store_pages_all:
  assumes "fits v" "0 < n"
  shows "store_pages n 0 0 st v b =
    (next_page_id b, write_pages (next_page_id b) (map (page_of v) [0..<n]) (b\<lparr>next_page_id := next_page_id b + of_nat n\<rparr>))"
proof -
  obtain m where n: "n = Suc m" using assms(2) by (cases n) auto
  let ?p = "next_page_id b"
  let ?b = "WritePage ?p (page_of v 0) (b\<lparr>next_page_id := ?p + 1\<rparr>)"
  have "store_pages n 0 0 st v b = store_pages m 1 (written_at v 1) ?p v ?b"
    using assms(1) write_blank [of ?p b "page_of v 0" blank_page]
    by (simp add: n AllocatePage_def Let_def value_size_unat page_0 written_1)
  also have "\<dots> = (?p, write_pages (?p + 1) (map (page_of v) [1..<1 + m]) (?b\<lparr>next_page_id := ?p + 1 + of_nat m\<rparr>))"
    using store_pages_rest [OF assms(1), of 1 m ?p ?b] by simp
  also have "?b\<lparr>next_page_id := ?p + 1 + of_nat m\<rparr> = WritePage ?p (page_of v 0) (b\<lparr>next_page_id := ?p + of_nat n\<rparr>)"
    by (simp add: next_write add.assoc n)
  also have "map (page_of v) [1..<1 + m] = tl (map (page_of v) [0..<n])"
    by (simp add: n upt_conv_Cons del: upt_Suc)
  finally show ?thesis by (simp add: n upt_conv_Cons del: upt_Suc)
qed

lemma load_pages_rest:
  "fits v \<Longrightarrow> 0 < i \<Longrightarrow> \<forall>j. i \<le> j \<longrightarrow> j < i + n \<longrightarrow> pages b (start + of_nat j) = page_of v j \<Longrightarrow> length w = length v \<Longrightarrow>
   take (written_at v i) w = take (written_at v i) v \<Longrightarrow> length v + 4 \<le> (i + n) * PAGE_SIZE \<Longrightarrow>
   load_pages n i start (length v) (written_at v i) w b = v"
proof (induction n arbitrary: i w)
  case 0
  then have "written_at v i = length v" by (simp add: written_at_def)
  with 0 show ?case by simp
next
  case (Suc n)
  let ?k = "written_at v i" and ?d = "min PAGE_SIZE (length v - written_at v i)"
  have k: "?k \<le> length v" by (simp add: written_at_def)
  have buf: "pages b (start + of_nat i) = page_of v i" using Suc.prems(3) by simp
  have d: "take ?d (page_of v i) = take ?d (drop ?k v)"
    unfolding page_Suc [OF Suc.prems(2)] by (simp add: memcpy_at_def)
  let ?w = "memcpy_at ?k (take ?d (drop ?k v)) w"
  have "load_pages (Suc n) i start (length v) ?k w b = load_pages n (Suc i) start (length v) (written_at v (Suc i)) ?w b"
    using Suc.prems(2) by (simp add: Let_def buf d written_step)
  also have "\<dots> = v"
  proof (rule Suc.IH)
    show "\<forall>j. Suc i \<le> j \<longrightarrow> j < Suc i + n \<longrightarrow> pages b (start + of_nat j) = page_of v j" using Suc.prems(3) by simp
    show "length ?w = length v" using k Suc.prems(4) by (simp add: memcpy_at_def)
    have "take (?k + ?d) ?w = take ?k v @ take ?d (drop ?k v)"
      using k Suc.prems(4,5) by (simp add: memcpy_at_def)
    also have "\<dots> = take (?k + ?d) v" by (simp add: take_add)
    finally show "take (written_at v (Suc i)) ?w = take (written_at v (Suc i)) v"
      unfolding written_step [OF Suc.prems(2)] .
  qed (use Suc.prems in simp_all)
  finally show ?case .
qed

lemma memcpy_length: "i + length bs \<le> length buf \<Longrightarrow> length (memcpy_at i bs buf) = length buf"
  by (simp add: memcpy_at_def)

lemma resize_length [simp]: "length (resize n v) = n"
  by (auto simp: resize_def)

lemma load_pages_all:
  assumes "fits v" "0 < n" "\<And>j. j < n \<Longrightarrow> pages b (start + of_nat j) = page_of v j" "length v + 4 \<le> n * PAGE_SIZE"
  shows "load_pages n 0 start a 0 old b = v"
proof -
  obtain m where n: "n = Suc m" using assms(2) by (cases n) auto
  let ?d = "min (PAGE_SIZE - 4) (length v)"
  have buf: "pages b start = page_of v 0" using assms(2) assms(3) [of 0] by simp
  have p0: "page_of v 0 = len_bytes (value_size v) @ take ?d v @ drop (4 + ?d) blank_page"
    unfolding page_0 by (simp add: memcpy_at_def blank_page_def PAGE_SIZE_def)
  have l: "unat (len_of (page_of v 0)) = length v" unfolding p0 len_of_bytes using assms(1) by (rule value_size_unat)
  have d: "take ?d (drop 4 (page_of v 0)) = take ?d v" unfolding p0 by simp
  let ?w = "memcpy_at 0 (take ?d v) (resize (length v) old)"
  have "load_pages n 0 start a 0 old b = load_pages m 1 start (length v) (written_at v 1) ?w b"
    by (simp add: n Let_def buf l d [unfolded written_1 One_nat_def] written_1)
  also have "\<dots> = v"
  proof (rule load_pages_rest [OF assms(1)])
    show "\<forall>j. 1 \<le> j \<longrightarrow> j < 1 + m \<longrightarrow> pages b (start + of_nat j) = page_of v j" using assms(3) n by simp
    show "length ?w = length v" by (subst memcpy_length) simp_all
    have "length (take (written_at v 1) v) = written_at v 1" by (simp add: written_at_def)
    then show "take (written_at v 1) ?w = take (written_at v 1) v"
      unfolding written_1 memcpy_at_def by (simp only: take_0 append_Nil take_append take_take diff_self_eq_0 append_Nil2 min.idem)
    show "length v + 4 \<le> (1 + m) * PAGE_SIZE" using assms(4) n by simp
  qed simp
  finally show ?thesis .
qed

section \<open>What the engine holds\<close>

text \<open>\<open>w\<close> names pages that hold \<open>v\<close>, all below the next page id.\<close>

definition ce_stored :: "u8 list io_backend \<Rightarrow> u64 \<Rightarrow> u8 list \<Rightarrow> bool" where
  "ce_stored b w v \<longleftrightarrow> (\<exists>start n. w = PackPageValue start n \<and> unat start < 2 ^ 48 \<and> n \<noteq> 0 \<and> fits v \<and>
     length v + 4 \<le> unat n * PAGE_SIZE \<and> unat start + unat n \<le> unat (next_page_id b) \<and>
     (\<forall>j < unat n. pages b (start + of_nat j) = page_of v j))"

definition ce_rep :: "hash_fn \<Rightarrow> hash_fn \<Rightarrow> cceh_engine \<Rightarrow> (u64 \<Rightarrow> u8 list option) \<Rightarrow> bool" where
  "ce_rep f s e M \<longleftrightarrow> cceh_ok f s (ce_table e) \<and>
     (\<forall>k. key_ok k \<longrightarrow> (\<exists>w. cceh_Get f s k (ce_table e) = Inr w \<and>
        (case M k of None \<Rightarrow> w = NONE | Some v \<Rightarrow> ce_stored (ce_values e) w v)))"

lemma pack_not_none: "n \<noteq> 0 \<Longrightarrow> unat start < 2 ^ 48 \<Longrightarrow> PackPageValue start n \<noteq> NONE \<and> UnpackPageValue (PackPageValue start n) = (start, n)"
  using page_value_roundtrip [of start n] by (simp add: NONE_def)

lemma page_range_unat:
  "unat start + unat n \<le> unat (next_page_id b) \<Longrightarrow> j < unat n \<Longrightarrow> unat (start + of_nat j :: u64) = unat start + j"
proof -
  have "unat (next_page_id b) < 2 ^ 64" using unsigned_less [of "next_page_id b"] by simp
  then show "unat start + unat n \<le> unat (next_page_id b) \<Longrightarrow> j < unat n \<Longrightarrow> ?thesis" by (intro unat_add_small) simp
qed

lemma ce_stored_load:
  assumes "ce_stored b w v"
  shows "w \<noteq> NONE" "case UnpackPageValue w of (start, n) \<Rightarrow> load_pages (unat n) 0 start 0 0 old b = v"
proof -
  obtain start n where w: "w = PackPageValue start n" "unat start < 2 ^ 48" "n \<noteq> 0" "fits v"
    "length v + 4 \<le> unat n * PAGE_SIZE" "\<forall>j < unat n. pages b (start + of_nat j) = page_of v j"
    using assms by (auto simp: ce_stored_def)
  note P = pack_not_none [OF w(3,2), folded w(1)]
  show "w \<noteq> NONE" using P by simp
  have "load_pages (unat n) 0 start 0 0 old b = v"
    using w(3,6) by (intro load_pages_all [OF w(4) _ _ w(5)]) (simp_all add: unat_gt_0)
  then show "case UnpackPageValue w of (start, n) \<Rightarrow> load_pages (unat n) 0 start 0 0 old b = v" using P by simp
qed

lemma ce_Get_rep:
  assumes "ce_rep f s e M" "key_ok k"
  shows "ce_Get f s k old e = Inr (case M k of None \<Rightarrow> [] | Some v \<Rightarrow> v)"
proof -
  obtain w where w: "cceh_Get f s k (ce_table e) = Inr w" "case M k of None \<Rightarrow> w = NONE | Some v \<Rightarrow> ce_stored (ce_values e) w v"
    using assms by (auto simp: ce_rep_def)
  show ?thesis
  proof (cases "M k")
    case None
    with w show ?thesis by (simp add: ce_Get_def)
  next
    case (Some v)
    with w have "ce_stored (ce_values e) w v" by simp
    from ce_stored_load(1) [OF this] ce_stored_load(2) [OF this, of old] w(1) Some show ?thesis by (auto simp: ce_Get_def split: prod.splits)
  qed
qed

text \<open>Storing a value leaves the stored values as they are.\<close>

lemma store_value:
  assumes v: "fits v" and room: "unat (next_page_id b) + unat (pages_needed (value_size v)) < 2 ^ 48"
    and st: "store_pages (unat (pages_needed (value_size v))) 0 0 0 v b = (start, b')"
  shows "ce_stored b' (PackPageValue start (pages_needed (value_size v))) v"
    "ce_stored b w u \<Longrightarrow> ce_stored b' w u"
    "unat (next_page_id b') = unat (next_page_id b) + unat (pages_needed (value_size v))"
proof -
  let ?n = "pages_needed (value_size v)"
  note N = pages_needed_count(2,3) [OF v]
  have e: "start = next_page_id b" "b' = write_pages (next_page_id b) (map (page_of v) [0..<unat ?n]) (b\<lparr>next_page_id := next_page_id b + of_nat (unat ?n)\<rparr>)"
    using trans [OF st [symmetric] store_pages_all [OF v N(1)]] by blast+
  show nx: "unat (next_page_id b') = unat (next_page_id b) + unat ?n"
    using room unat_add_small [of "next_page_id b" "unat ?n"] by (simp add: e(2))
  have pg: "pages b' q = (if unat start \<le> unat q \<and> unat q < unat start + unat ?n then page_of v (unat q - unat start) else pages b q)" for q
    unfolding e(2) using room by (subst write_pages_pages) (auto simp: e(1))
  have "pages b' (start + of_nat j) = page_of v j" if "j < unat ?n" for j
  proof -
    have "unat (start + of_nat j) = unat start + j" using room that e(1) by (intro unat_add_small) simp
    then show ?thesis using that by (simp add: pg)
  qed
  moreover have "?n \<noteq> 0" using N(1) by auto
  ultimately show "ce_stored b' (PackPageValue start ?n) v"
    unfolding ce_stored_def using v N(2) nx room e(1) by (intro exI [of _ start] exI [of _ ?n]) simp
  show "ce_stored b w u \<Longrightarrow> ce_stored b' w u"
  proof -
    assume "ce_stored b w u"
    then obtain s n where w: "w = PackPageValue s n" "unat s < 2 ^ 48" "n \<noteq> 0" "fits u" "length u + 4 \<le> unat n * PAGE_SIZE"
      "unat s + unat n \<le> unat (next_page_id b)" "\<And>j. j < unat n \<Longrightarrow> pages b (s + of_nat j) = page_of u j"
      by (auto simp: ce_stored_def)
    have "pages b' (s + of_nat j) = page_of u j" if "j < unat n" for j
      using page_range_unat [OF w(6) that] w(6,7) that e(1) by (simp add: pg)
    with w nx show "ce_stored b' w u" unfolding ce_stored_def by (intro exI [of _ s] exI [of _ n]) simp
  qed
qed

section \<open>A batch is a sequence\<close>

fun ce_Puts :: "hash_fn \<Rightarrow> hash_fn \<Rightarrow> (u64 \<times> u8 list) list \<Rightarrow> cceh_engine \<Rightarrow> cceh_engine result" where
  "ce_Puts f s [] e = Inr e"
| "ce_Puts f s (kv # kvs) e = bind_result (ce_Put f s (fst kv) (snd kv) e) (ce_Puts f s kvs)"

lemma split_pages_chunks:
  "map (\<lambda>i. take PAGE_SIZE (drop (i * PAGE_SIZE) buf)) [k..<k + n] = split_pages_of n (drop (k * PAGE_SIZE) buf)"
proof (induction n arbitrary: k)
  case (Suc n)
  have "map (\<lambda>i. take PAGE_SIZE (drop (i * PAGE_SIZE) buf)) [k..<k + Suc n] =
      take PAGE_SIZE (drop (k * PAGE_SIZE) buf) # map (\<lambda>i. take PAGE_SIZE (drop (i * PAGE_SIZE) buf)) [Suc k..<Suc k + n]"
    by (subst upt_conv_Cons) simp_all
  also have "map (\<lambda>i. take PAGE_SIZE (drop (i * PAGE_SIZE) buf)) [Suc k..<Suc k + n] = split_pages_of n (drop (Suc k * PAGE_SIZE) buf)"
    by (rule Suc.IH)
  finally show ?case by (simp add: add.commute)
qed simp

lemma pages_of_buffer:
  assumes "length v + 4 \<le> n * PAGE_SIZE"
  shows "split_pages_of n (value_stream v @ replicate (n * PAGE_SIZE - length (value_stream v)) 0) = map (page_of v) [0..<n]"
proof -
  let ?z = "replicate (n * PAGE_SIZE - length (value_stream v)) (0 :: u8)"
  let ?buf = "value_stream v @ ?z"
  have "take PAGE_SIZE (drop (i * PAGE_SIZE) ?buf) = page_of v i" if i: "i < n" for i
  proof -
    let ?d = "drop (i * PAGE_SIZE) (value_stream v)"
    have "Suc i * PAGE_SIZE \<le> n * PAGE_SIZE" using i by (intro mult_le_mono1) simp
    then have le: "i * PAGE_SIZE + PAGE_SIZE \<le> n * PAGE_SIZE" by simp
    show ?thesis
    proof (cases "i * PAGE_SIZE \<le> length (value_stream v)")
      case True
      have "PAGE_SIZE - length ?d \<le> n * PAGE_SIZE - length (value_stream v)" using le True by simp
      then have "take (PAGE_SIZE - length ?d) ?z = replicate (PAGE_SIZE - length ?d) 0" by (simp add: min_def)
      then show ?thesis using True by (auto simp: page_of_def Let_def min_def)
    next
      case False
      then have "take PAGE_SIZE (drop (i * PAGE_SIZE) ?buf) = replicate PAGE_SIZE 0"
        using le by (simp add: drop_replicate min_def)
      then show ?thesis using False by (simp add: page_of_def Let_def)
    qed
  qed
  then have "map (\<lambda>i. take PAGE_SIZE (drop (i * PAGE_SIZE) ?buf)) [0..<n] = map (page_of v) [0..<n]" by simp
  with split_pages_chunks [of ?buf 0 n] show ?thesis by simp
qed

lemma concat_split_pages: "concat (split_pages_of n buf) = take (n * PAGE_SIZE) buf"
  by (induction n arbitrary: buf) (simp_all add: take_add)

lemma batch_buffer_pages:
  assumes v: "fits v"
  shows "\<exists>buf. batch_buffer (pages_needed (value_size v)) v = Inr buf \<and>
    split_pages_of (unat (pages_needed (value_size v))) buf = map (page_of v) [0..<unat (pages_needed (value_size v))]"
proof -
  let ?n = "unat (pages_needed (value_size v))"
  note N = pages_needed_count(3) [OF v]
  have "memcpy_at 4 v (memcpy_at 0 (len_bytes (value_size v)) (replicate (?n * PAGE_SIZE) 0)) =
      value_stream v @ replicate (?n * PAGE_SIZE - length (value_stream v)) 0"
    using N by (simp add: memcpy_at_def value_stream_def)
  then have "batch_buffer (pages_needed (value_size v)) v = Inr (value_stream v @ replicate (?n * PAGE_SIZE - length (value_stream v)) 0)"
    using N by (simp add: batch_buffer_def Let_def)
  with pages_of_buffer [OF N] show ?thesis by blast
qed

lemma batch_ids_write:
  "batch_ids vs b = (ids, b') \<Longrightarrow> batch_ids vs (write_pages p xs b) = (ids, write_pages p xs b')"
proof (induction vs arbitrary: b ids b')
  case (Cons v vs)
  have e: "SetNextPageID m (write_pages p xs b) = write_pages p xs (SetNextPageID m b)" for m
    by (simp add: SetNextPageID_def next_write_pages)
  let ?c = "SetNextPageID (next_page_id b + ucast (pages_needed (value_size v))) b"
  obtain ids1 b1 where r: "batch_ids vs ?c = (ids1, b1)" by fastforce
  have "batch_ids vs (write_pages p xs ?c) = (ids1, write_pages p xs b1)" using r by (rule Cons.IH)
  then show ?case using Cons.prems r by (simp add: Let_def GetNextPageID_def e)
qed simp

lemma batch_entries_ok:
  "batch_ids vs b = (ids, b') \<Longrightarrow> \<forall>v \<in> set vs. fits v \<Longrightarrow> length ids = length vs \<and> (\<exists>es. batch_entries (zip ids vs) = Inr es)"
proof (induction vs arbitrary: b ids)
  case (Cons v vs)
  obtain ids1 b1 where r: "batch_ids vs (SetNextPageID (GetNextPageID b + ucast (pages_needed (value_size v))) b) = (ids1, b1)" by fastforce
  then have ids: "ids = (GetNextPageID b, pages_needed (value_size v)) # ids1" "b' = b1" using Cons.prems(1) by (auto simp: Let_def)
  have "fits v" using Cons.prems(2) by simp
  then obtain buf where "batch_buffer (pages_needed (value_size v)) v = Inr buf" using batch_buffer_pages by blast
  with Cons.IH [OF r [folded ids(2)]] Cons.prems(2) show ?case by (auto simp: ids(1))
qed simp

lemma ce_Put_eq:
  assumes "fits v"
  shows "ce_Put f s key v e =
    bind_result (cceh_Put f s key (PackPageValue (next_page_id (ce_values e)) (pages_needed (value_size v))) (ce_table e)) (\<lambda>t.
      Inr (e\<lparr>ce_table := t, ce_values := write_pages (next_page_id (ce_values e)) (map (page_of v) [0..<unat (pages_needed (value_size v))])
        ((ce_values e)\<lparr>next_page_id := next_page_id (ce_values e) + ucast (pages_needed (value_size v))\<rparr>)\<rparr>))"
  using store_pages_all [OF assms pages_needed_count(2) [OF assms], of 0 "ce_values e"] by (simp add: ce_Put_def Let_def)

section \<open>Properties\<close>

text \<open>
  C32: \<open>BatchPut\<close>, which allocates all page ids first, writes all pages in one batch and then fills the
  index, has the effect of the single \<open>Put\<close>s in order: same index, same pages, same failures,
  for values that fit 65535 pages.
\<close>

theorem ce_BatchPut_sequence:
  assumes "\<forall>kv \<in> set kvs. fits (snd kv)"
  shows "ce_BatchPut f s kvs e = ce_Puts f s kvs e"
  using assms
proof (induction kvs arbitrary: e)
  case Nil
  show ?case by (simp add: ce_BatchPut_def BatchWritePages_def Let_def)
next
  case (Cons kv kvs)
  obtain k v where kv: "kv = (k, v)" by fastforce
  have v: "fits v" "\<forall>kv \<in> set kvs. fits (snd kv)" "\<forall>v \<in> set (map snd kvs). fits v" using Cons.prems by (auto simp: kv)
  let ?b = "ce_values e" and ?n = "pages_needed (value_size v)"
  let ?st = "next_page_id ?b" and ?ps = "map (page_of v) [0..<unat ?n]"
  let ?b1 = "?b\<lparr>next_page_id := ?st + ucast ?n\<rparr>"
  obtain ids b2 where ids: "batch_ids (map snd kvs) ?b1 = (ids, b2)" by fastforce
  note E = batch_entries_ok [OF ids v(3)]
  then obtain es where es: "batch_entries (zip ids (map snd kvs)) = Inr es" by blast
  obtain buf where buf: "batch_buffer ?n v = Inr buf" "split_pages_of (unat ?n) buf = ?ps" using batch_buffer_pages [OF v(1)] by blast
  have ids': "batch_ids (map snd (kv # kvs)) ?b = ((?st, ?n) # ids, b2)"
    using ids by (simp add: kv Let_def GetNextPageID_def SetNextPageID_def)
  let ?packed = "zip (map fst kvs) (map (\<lambda>(start, n). PackPageValue start n) ids)"
  have L: "ce_BatchPut f s (kv # kvs) e =
      bind_result (cceh_Put f s k (PackPageValue ?st ?n) (ce_table e)) (\<lambda>t.
        bind_result (cceh_BatchPut f s ?packed t) (\<lambda>t'.
          Inr (e\<lparr>ce_table := t', ce_values := BatchWritePages es (write_pages ?st ?ps b2)\<rparr>)))"
    unfolding ce_BatchPut_def ids' using buf es
    by (cases "cceh_Put f s k (PackPageValue ?st ?n) (ce_table e)") (simp_all add: kv Let_def BatchWritePages_def)
  show ?case
  proof (cases "cceh_Put f s k (PackPageValue ?st ?n) (ce_table e)")
    case (Inl err)
    then show ?thesis unfolding L by (simp add: kv ce_Put_eq [OF v(1)])
  next
    case (Inr t)
    let ?e = "e\<lparr>ce_table := t, ce_values := write_pages ?st ?ps ?b1\<rparr>"
    have "ce_BatchPut f s kvs ?e = bind_result (cceh_BatchPut f s ?packed t) (\<lambda>t'.
        Inr (e\<lparr>ce_table := t', ce_values := BatchWritePages es (write_pages ?st ?ps b2)\<rparr>))"
      using batch_ids_write [OF ids, of ?st ?ps] es by (simp add: ce_BatchPut_def Let_def)
    then show ?thesis unfolding L using Inr Cons.IH [OF v(2), of ?e] by (simp add: kv ce_Put_eq [OF v(1)])
  qed
qed

text \<open>What a table may answer for a key: only values in \<open>P\<close>, whose pages are all there.\<close>

definition ce_sound :: "hash_fn \<Rightarrow> hash_fn \<Rightarrow> cceh_engine \<Rightarrow> (u64 \<times> u8 list) set \<Rightarrow> bool" where
  "ce_sound f s e P \<longleftrightarrow> cceh_ok f s (ce_table e) \<and>
     (\<forall>k w. cceh_holds f (ce_table e) k w \<longrightarrow> (\<exists>u. (k, u) \<in> P \<and> ce_stored (ce_values e) w u))"

lemma ce_Get_stored:
  assumes "cceh_Get f s k (ce_table e) = Inr w" and "ce_stored (ce_values e) w u"
  shows "ce_Get f s k old e = Inr u"
  using ce_stored_load(1) [OF assms(2)] ce_stored_load(2) [OF assms(2), of old] assms(1)
  by (auto simp: ce_Get_def split: prod.splits)

lemma ce_Get_sound:
  assumes "ce_sound f s e P" and "key_ok k"
  shows "\<exists>u. ce_Get f s k old e = Inr u \<and> (u = [] \<or> (k, u) \<in> P)"
proof -
  have ok: "cceh_ok f s (ce_table e)" using assms(1) by (simp add: ce_sound_def)
  obtain w where w: "cceh_Get f s k (ce_table e) = Inr w" using cceh_Get_eq [OF ok] by blast
  show ?thesis
  proof (cases "w = NONE")
    case True
    then show ?thesis using w by (simp add: ce_Get_def)
  next
    case False
    with cceh_Get_holds [OF ok assms(2) w] assms(1) obtain u where "(k, u) \<in> P" "ce_stored (ce_values e) w u"
      by (auto simp: ce_sound_def)
    with ce_Get_stored [OF w this(2)] show ?thesis by blast
  qed
qed

text \<open>
  C4: \<open>Put\<close> of the engine always returns, while page ids stay below 2^48 and the value fits its page count.
  \<open>Get\<close> of the key then answers the value, whatever the caller's string held before, unless the segment of
  the key is full and the directory has its greatest size: then it answers nothing. \<open>Get\<close> of any key
  answers nothing or a value that was put under that key; a split that displaces pairs may lose
  them. Where the segments are filled in probing order and the splits of this call need no
  displacement and do not reach the directory's limit, \<open>Put\<close> is the update of a finite map from keys to
  byte strings: every other key keeps its value.
\<close>

theorem ce_Put_refines_map:
  assumes ok: "cceh_ok f s (ce_table e)" and key: "key_ok key" and v: "fits v"
    and room: "room (n + 5400) (cceh_io (ce_table e))" "unat (next_page_id (ce_values e)) + unat (pages_needed (value_size v)) < 2 ^ 48"
  shows "\<exists>e'. ce_Put f s key v e = Inr e' \<and> cceh_ok f s (ce_table e') \<and> room n (cceh_io (ce_table e')) \<and>
    (\<forall>old. ce_Get f s key old e' = Inr v \<or> at_limit f s key (ce_table e') \<and> ce_Get f s key old e' = Inr []) \<and>
    (\<forall>P. ce_sound f s e P \<longrightarrow> ce_sound f s e' (insert (key, v) P) \<and>
      (\<forall>k old. key_ok k \<longrightarrow> (\<exists>u. ce_Get f s k old e' = Inr u \<and> (u = [] \<or> (k, u) \<in> insert (key, v) P)))) \<and>
    (\<forall>M. ce_rep f s e M \<and> cceh_tight f s (ce_table e) \<and>
        smooth 18 f s key (PackPageValue (next_page_id (ce_values e)) (pages_needed (value_size v))) (ce_table e) \<longrightarrow>
      ce_rep f s e' (M(key \<mapsto> v)) \<and> cceh_tight f s (ce_table e') \<and>
      (\<forall>k old. key_ok k \<longrightarrow> ce_Get f s k old e' = Inr (case (M(key \<mapsto> v)) k of None \<Rightarrow> [] | Some u \<Rightarrow> u)))"
proof -
  let ?n = "pages_needed (value_size v)"
  obtain start b where st: "store_pages (unat ?n) 0 0 0 v (ce_values e) = (start, b)" by fastforce
  have start: "start = next_page_id (ce_values e)" using st store_pages_all [OF v pages_needed_count(2) [OF v]] by simp
  note S = store_value [OF v room(2) st]
  from cceh_Put_ok [OF ok key room(1), of "PackPageValue start ?n"] obtain t where
    t: "cceh_Put f s key (PackPageValue start ?n) (ce_table e) = Inr t" "cceh_ok f s t" "room n (cceh_io t)"
      "seg_get f s key (key_segment f t key) = Some (PackPageValue start ?n) \<or> at_limit f s key t"
      "\<forall>k w. cceh_holds f t k w \<longrightarrow> cceh_holds f (ce_table e) k w \<or> (k, w) = (key, PackPageValue start ?n)" by blast
  let ?e = "e\<lparr>ce_table := t, ce_values := b\<rparr>"
  have tab: "ce_table ?e = t" "ce_values ?e = b" by simp_all
  have put: "ce_Put f s key v e = Inr ?e" using st t(1) by (simp add: ce_Put_def Let_def)
  have get: "ce_Get f s key old ?e = Inr v \<or> at_limit f s key (ce_table ?e) \<and> ce_Get f s key old ?e = Inr []" for old
    using t(4)
  proof
    assume "seg_get f s key (key_segment f t key) = Some (PackPageValue start ?n)"
    then have "cceh_Get f s key (ce_table ?e) = Inr (PackPageValue start ?n)" unfolding tab by (simp add: cceh_Get_eq [OF t(2)])
    from ce_Get_stored [OF this] S(1) show ?thesis by simp
  next
    assume l: "at_limit f s key t"
    then have "cceh_Get f s key t = Inr NONE" using at_limit_absent [OF l] by (simp add: cceh_Get_eq [OF t(2)])
    then show ?thesis using l by (simp add: ce_Get_def)
  qed
  have sound: "ce_sound f s ?e (insert (key, v) P)" if "ce_sound f s e P" for P
    using that t(2,5) S(1,2) unfolding ce_sound_def tab by (metis insertCI prod.inject)
  have exact: "ce_rep f s ?e (M(key \<mapsto> v)) \<and> cceh_tight f s t" if rep: "ce_rep f s e M" and tight: "cceh_tight f s (ce_table e)"
    and smooth: "smooth 18 f s key (PackPageValue start ?n) (ce_table e)" for M
  proof -
    from cceh_smooth_Put [OF ok tight key room(1) smooth] t(1) have
      g: "cceh_tight f s t" "\<And>k. key_ok k \<Longrightarrow> cceh_Get f s k t = (if k = key then Inr (PackPageValue start ?n) else cceh_Get f s k (ce_table e))"
      by auto
    have "\<exists>w. cceh_Get f s k t = Inr w \<and> (case (M(key \<mapsto> v)) k of None \<Rightarrow> w = NONE | Some u \<Rightarrow> ce_stored b w u)"
      if k: "key_ok k" for k
    proof (cases "k = key")
      case True
      then show ?thesis using g(2) [OF k] S(1) by simp
    next
      case False
      from rep k obtain w where "cceh_Get f s k (ce_table e) = Inr w" "case M k of None \<Rightarrow> w = NONE | Some u \<Rightarrow> ce_stored (ce_values e) w u"
        by (auto simp: ce_rep_def)
      then show ?thesis using g(2) [OF k] False S(2) by (auto split: option.splits)
    qed
    then show ?thesis using t(2) g(1) unfolding ce_rep_def tab by blast
  qed
  show ?thesis
  proof (rule exI [of _ ?e], intro conjI allI impI)
    show "ce_Put f s key v e = Inr ?e" by (rule put)
    show "ce_sound f s ?e (insert (key, v) P)" if "ce_sound f s e P" for P by (rule sound [OF that])
    show "\<exists>u. ce_Get f s k old ?e = Inr u \<and> (u = [] \<or> (k, u) \<in> insert (key, v) P)"
      if "ce_sound f s e P" "key_ok k" for P k old by (rule ce_Get_sound [OF sound [OF that(1)] that(2)])
    fix M assume m: "ce_rep f s e M \<and> cceh_tight f s (ce_table e) \<and>
        smooth 18 f s key (PackPageValue (next_page_id (ce_values e)) (pages_needed (value_size v))) (ce_table e)"
    have x: "ce_rep f s ?e (M(key \<mapsto> v)) \<and> cceh_tight f s t" by (rule exact) (use m start in simp_all)
    then show "ce_rep f s ?e (M(key \<mapsto> v))" by (rule conjunct1)
    show "ce_Get f s k old ?e = Inr (case (M(key \<mapsto> v)) k of None \<Rightarrow> [] | Some u \<Rightarrow> u)" if "key_ok k" for k old
      by (rule ce_Get_rep [OF conjunct1 [OF x] that])
    show "cceh_tight f s (ce_table ?e)" using x by simp
  qed (use get t(2,3) in simp_all)
qed

lemma copy_floats_stored:
  assumes "ce_stored b w v"
  shows "case UnpackPageValue w of (start, n) \<Rightarrow>
    copy_floats (read_pages start (unat n) b) = (if length v mod 4 = 0 then Inr v else Inl Bad_access)"
proof -
  obtain start n where w: "w = PackPageValue start n" "unat start < 2 ^ 48" "n \<noteq> 0" "fits v"
    "length v + 4 \<le> unat n * PAGE_SIZE" "\<And>j. j < unat n \<Longrightarrow> pages b (start + of_nat j) = page_of v j"
    using assms by (auto simp: ce_stored_def)
  have "read_pages start (unat n) b = map (page_of v) [0..<unat n]" using w(6) by (simp add: read_pages_def)
  then have c: "concat (read_pages start (unat n) b) =
      len_bytes (value_size v) @ v @ replicate (unat n * PAGE_SIZE - length (value_stream v)) 0"
    unfolding \<open>read_pages start (unat n) b = _\<close> pages_of_buffer [OF w(5), symmetric] concat_split_pages using w(5)
    by (simp add: value_stream_def)
  have "copy_floats (read_pages start (unat n) b) = (if length v mod 4 = 0 then Inr v else Inl Bad_access)"
    unfolding copy_floats_def Let_def c len_of_bytes value_size_unat [OF w(4)] by simp
  then show ?thesis using pack_not_none [OF w(3,2)] by (simp add: w(1))
qed

definition float_sized :: "(u64 \<Rightarrow> u8 list option) \<Rightarrow> u64 \<Rightarrow> bool" where
  "float_sized M k \<longleftrightarrow> (case M k of None \<Rightarrow> True | Some v \<Rightarrow> length v mod 4 = 0)"

text \<open>
  \<open>BatchGet\<close> answers what the map holds for each key when the sizes of the values are multiples
  of four bytes; if one of them has another size, which \<open>Put\<close> accepts, it copies past the end of an
  array of floats.
\<close>

theorem ce_BatchGet_correct:
  assumes "ce_rep f s e M" "\<forall>k \<in> set keys. key_ok k"
  shows "ce_BatchGet f s keys e =
    (if list_all (float_sized M) keys then Inr (map (\<lambda>k. case M k of None \<Rightarrow> [] | Some v \<Rightarrow> v) keys) else Inl Bad_access)"
proof -
  let ?b = "ce_values e"
  let ?entries = "\<lambda>ws. map (\<lambda>w. case UnpackPageValue w of (start, n) \<Rightarrow> (start, unat n)) (filter (\<lambda>w. w \<noteq> NONE) ws)"
  have "\<exists>ws. cceh_BatchGet f s keys (ce_table e) = Inr ws \<and> collect_values ws (BatchReadPages (?entries ws) ?b) =
    (if list_all (float_sized M) keys then Inr (map (\<lambda>k. case M k of None \<Rightarrow> [] | Some v \<Rightarrow> v) keys) else Inl Bad_access)"
    using assms(2)
  proof (induction keys)
    case Nil
    show ?case by simp
  next
    case (Cons k keys)
    then obtain ws where ws: "cceh_BatchGet f s keys (ce_table e) = Inr ws" "collect_values ws (BatchReadPages (?entries ws) ?b) =
      (if list_all (float_sized M) keys then Inr (map (\<lambda>k. case M k of None \<Rightarrow> [] | Some v \<Rightarrow> v) keys) else Inl Bad_access)" by auto
    have "key_ok k" using Cons.prems by simp
    with assms(1) obtain w where w: "cceh_Get f s k (ce_table e) = Inr w" "case M k of None \<Rightarrow> w = NONE | Some v \<Rightarrow> ce_stored ?b w v"
      by (auto simp: ce_rep_def)
    have get: "cceh_BatchGet f s (k # keys) (ce_table e) = Inr (w # ws)" using w(1) ws(1) by simp
    show ?case
    proof (cases "M k")
      case None
      then have "float_sized M k" by (simp add: float_sized_def)
      then show ?thesis using get w(2) ws(2) None by simp
    next
      case (Some v)
      then have st: "ce_stored ?b w v" using w(2) by simp
      obtain start n where u: "UnpackPageValue w = (start, n)" by fastforce
      have "copy_floats (read_pages start (unat n) ?b) = (if length v mod 4 = 0 then Inr v else Inl Bad_access)"
        using copy_floats_stored [OF st] by (simp add: u)
      moreover have "float_sized M k \<longleftrightarrow> length v mod 4 = 0" using Some by (simp add: float_sized_def)
      ultimately show ?thesis using get ws(2) ce_stored_load(1) [OF st] Some by (simp add: u BatchReadPages_def)
    qed
  qed
  then show ?thesis by (auto simp: ce_BatchGet_def Let_def)
qed

section \<open>A concrete engine\<close>

definition blank_values :: "u8 list io_backend" where
  "blank_values = \<lparr>next_page_id = 1, pages = (\<lambda>_. blank_page)\<rparr>"

lemma fresh_engine:
  "\<exists>c. initCCEH 2 blank_device = Inr c \<and> ce_rep f s \<lparr>ce_table = c, ce_values = blank_values\<rparr> Map.empty \<and>
     cceh_tight f s c \<and> room (0 + 5400) (cceh_io c) \<and> (\<forall>k v. key_ok k \<longrightarrow> smooth 18 f s k v c)"
proof -
  obtain c where c: "initCCEH 2 blank_device = Inr c" "cceh_ok f s c" "room (0 + 5400) (cceh_io c)"
    "\<And>k. key_segment f c k = initSegment 1" using fresh_index [of f s] by auto
  have "seg_get f s k (key_segment f c k) = None" if k: "key_ok k" for k
    using seg_get_None [OF key_segment_ok(1) [OF c(2), of k] k] by (simp add: c(4) initSegment_ok)
  then have "cceh_Get f s k c = Inr NONE" if "key_ok k" for k using that by (simp add: cceh_Get_eq [OF c(2)])
  then have "ce_rep f s \<lparr>ce_table = c, ce_values = blank_values\<rparr> Map.empty" using c(2) by (simp add: ce_rep_def)
  moreover have "cceh_tight f s c" by (simp add: cceh_tight_def c(4) tight_init)
  ultimately show ?thesis using c(1,3) fresh_smooth [OF c(4)] by blast
qed

lemma small_keys: "key_ok 5" "key_ok 6"
  by (simp_all add: key_ok_def INVALID_def SENTINEL_def)

theorem ce_BatchPut_sequence_witness:
  "\<exists>c. initCCEH 2 blank_device = Inr c \<and>
     ce_BatchPut (\<lambda>k. k) (\<lambda>k. k + 1) [(5, [1, 2, 3]), (6, [4])] \<lparr>ce_table = c, ce_values = blank_values\<rparr> =
     ce_Puts (\<lambda>k. k) (\<lambda>k. k + 1) [(5, [1, 2, 3]), (6, [4])] \<lparr>ce_table = c, ce_values = blank_values\<rparr>"
proof -
  have "\<forall>kv \<in> set [(5 :: u64, [1, 2, 3 :: u8]), (6, [4])]. fits (snd kv)" by (simp add: fits_def PAGE_SIZE_def)
  from ce_BatchPut_sequence [OF this] fresh_engine show ?thesis by blast
qed

theorem ce_Put_refines_map_witness:
  "\<exists>c e. initCCEH 2 blank_device = Inr c \<and>
     ce_Put (\<lambda>k. k) (\<lambda>k. k + 1) 5 [1, 2, 3] \<lparr>ce_table = c, ce_values = blank_values\<rparr> = Inr e \<and>
     ce_Get (\<lambda>k. k) (\<lambda>k. k + 1) 5 [9] e = Inr [1, 2, 3] \<and> ce_Get (\<lambda>k. k) (\<lambda>k. k + 1) 6 [9] e = Inr []"
proof -
  obtain c where c: "initCCEH 2 blank_device = Inr c" "ce_rep (\<lambda>k. k) (\<lambda>k. k + 1) \<lparr>ce_table = c, ce_values = blank_values\<rparr> Map.empty"
    "cceh_tight (\<lambda>k. k) (\<lambda>k. k + 1) c" "room (0 + 5400) (cceh_io c)" "\<And>k v. key_ok k \<Longrightarrow> smooth 18 (\<lambda>k. k) (\<lambda>k. k + 1) k v c"
    using fresh_engine by blast
  let ?e = "\<lparr>ce_table = c, ce_values = blank_values\<rparr>"
  have v: "fits [1, 2, 3]" by (simp add: fits_def PAGE_SIZE_def)
  have room: "unat (next_page_id (ce_values ?e)) + unat (pages_needed (value_size [1, 2, 3])) < 2 ^ 48"
    using pages_needed_count(1) [OF v] by (simp add: blank_values_def PAGE_SIZE_def)
  have ok: "cceh_ok (\<lambda>k. k) (\<lambda>k. k + 1) (ce_table ?e)" "room (0 + 5400) (cceh_io (ce_table ?e))"
    using c(2,4) by (simp_all add: ce_rep_def)
  have sm: "ce_rep (\<lambda>k. k) (\<lambda>k. k + 1) ?e Map.empty \<and> cceh_tight (\<lambda>k. k) (\<lambda>k. k + 1) (ce_table ?e) \<and>
      smooth 18 (\<lambda>k. k) (\<lambda>k. k + 1) 5 (PackPageValue (next_page_id (ce_values ?e)) (pages_needed (value_size [1, 2, 3]))) (ce_table ?e)"
    using c(2,3,5) small_keys by simp
  from ce_Put_refines_map [OF ok(1) small_keys(1) v ok(2) room] obtain e where
    "ce_Put (\<lambda>k. k) (\<lambda>k. k + 1) 5 [1, 2, 3] ?e = Inr e"
    "\<forall>k old. key_ok k \<longrightarrow> ce_Get (\<lambda>k. k) (\<lambda>k. k + 1) k old e = Inr (case [5 \<mapsto> [1, 2, 3]] k of None \<Rightarrow> [] | Some u \<Rightarrow> u)"
    using sm by blast
  with c(1) small_keys show ?thesis by force
qed

theorem ce_BatchGet_correct_witness:
  "\<exists>c. initCCEH 2 blank_device = Inr c \<and>
     ce_BatchGet (\<lambda>k. k) (\<lambda>k. k + 1) [5, 6] \<lparr>ce_table = c, ce_values = blank_values\<rparr> = Inr [[], []]"
proof -
  obtain c where c: "initCCEH 2 blank_device = Inr c" "ce_rep (\<lambda>k. k) (\<lambda>k. k + 1) \<lparr>ce_table = c, ce_values = blank_values\<rparr> Map.empty"
    using fresh_engine by blast
  have "\<forall>k \<in> set [5, 6]. key_ok k" using small_keys by simp
  from ce_BatchGet_correct [OF c(2) this] c(1) show ?thesis by (auto simp: float_sized_def)
qed

end
