(* ===== verification/PetHash.thy ===== *)
theory PetHash
  imports Prelude
begin

text \<open>
  \<open>PetHash\<close> (\<open>storage/nvm/pet_kv/pet_hash.h\<close>): the hash table of \<open>PetKV\<close>, open addressing over chunks
  of 14 slots. A chunk has one tag per slot (0: free, else eight bits of the key's hash with the
  top bit set) and a counter of the keys that passed it while it was full. Keys and values are
  64-bit words, as in \<open>PetHash<uint64, PetKVData>\<close>. \<open>crc\<close> is the instruction behind
  \<open>_mm_crc32_u64\<close> with seed 0. The locks, prefetches and cache-line flushes have no effect on one
  thread and are left out.
\<close>

section \<open>Chunks\<close>

definition kMaxSize :: nat where "kMaxSize = 14"

record f14chunk =
  f14_tags :: "u8 list"
  f14_size :: u8
  f14_overflow :: u8
  f14_migrating :: bool
  f14_value :: "(u64 \<times> u64) list"

text \<open>The iterator of \<open>MatchTag\<close> yields the matching slots in ascending order.\<close>

definition MatchTag :: "u8 \<Rightarrow> f14chunk \<Rightarrow> nat list" where
  "MatchTag tag c = filter (\<lambda>i. f14_tags c ! i = tag) [0..<kMaxSize]"

definition f14_Find :: "u64 \<Rightarrow> u8 \<Rightarrow> f14chunk \<Rightarrow> nat option" where
  "f14_Find key tag c = List.find (\<lambda>i. fst (f14_value c ! i) = key) (MatchTag tag c)"

definition f14_Set :: "nat \<Rightarrow> u8 \<Rightarrow> u64 \<times> u64 \<Rightarrow> f14chunk \<Rightarrow> f14chunk" where
  "f14_Set i tag item c = c\<lparr>f14_value := (f14_value c)[i := item], f14_tags := (f14_tags c)[i := tag]\<rparr>"

definition f14_Insert :: "u64 \<Rightarrow> u64 \<Rightarrow> u8 \<Rightarrow> f14chunk \<Rightarrow> (f14chunk \<times> nat) result" where
  "f14_Insert key val sign c =
    (if \<not> unat (f14_size c) < kMaxSize then Inl Check_failed
     else case MatchTag 0 c of
       [] \<Rightarrow> Inl Check_failed
     | i # _ \<Rightarrow> Inr (f14_Set i sign (key, val) (c\<lparr>f14_size := f14_size c + 1\<rparr>), i))"

definition IncOverflow :: "f14chunk \<Rightarrow> f14chunk" where
  "IncOverflow c = (if f14_overflow c \<noteq> 255 then c\<lparr>f14_overflow := f14_overflow c + 1\<rparr> else c)"

definition DecOverflow :: "f14chunk \<Rightarrow> f14chunk" where
  "DecOverflow c = (if f14_overflow c \<noteq> 255 then c\<lparr>f14_overflow := f14_overflow c - 1\<rparr> else c)"

definition f14_Delete :: "nat \<Rightarrow> f14chunk \<Rightarrow> f14chunk" where
  "f14_Delete i c = c\<lparr>f14_tags := (f14_tags c)[i := 0],
     f14_value := (f14_value c)[i := (-1, snd (f14_value c ! i))], f14_size := f14_size c - 1\<rparr>"

definition InUse :: "nat \<Rightarrow> f14chunk \<Rightarrow> bool" where
  "InUse i c \<longleftrightarrow> f14_tags c ! i \<noteq> 0"

text \<open>A chunk after \<open>memset\<close> to 0, and \<open>Initialize\<close>, which marks every key as absent.\<close>

definition f14_zero :: f14chunk where
  "f14_zero = \<lparr>f14_tags = replicate kMaxSize 0, f14_size = 0, f14_overflow = 0, f14_migrating = False,
     f14_value = replicate kMaxSize (0, 0)\<rparr>"

definition f14_Initialize :: "f14chunk \<Rightarrow> f14chunk" where
  "f14_Initialize c = c\<lparr>f14_value := map (\<lambda>v. (-1, snd v)) (f14_value c)\<rparr>"

section \<open>The table\<close>

record pethash =
  ph_capacity :: u64
  ph_chunk_num :: u64
  ph_size :: u64
  ph_table :: "f14chunk list"

definition ph_Hash :: "u64 \<Rightarrow> u64" where
  "ph_Hash key = key * 0xc6a4a7935bd1e995"

definition ph_Sign :: "(u64 \<Rightarrow> u64) \<Rightarrow> u64 \<Rightarrow> u8" where
  "ph_Sign crc h = ucast ((drop_bit 24 (crc h) OR 0x80) AND mask 8)"

definition ProbeDelta :: "u8 \<Rightarrow> u64" where
  "ProbeDelta sign = (ucast sign * 2) OR 1"

text \<open>\<open>Next2Power\<close> doubles 1 until it reaches its argument; past \<open>2^63\<close> the doubling gives 0 for ever.\<close>

fun next2_loop :: "nat \<Rightarrow> u64 \<Rightarrow> u64 \<Rightarrow> u64 result" where
  "next2_loop 0 new n = Inl No_return"
| "next2_loop (Suc f) new n = (if new < n then next2_loop f (push_bit 1 new) n else Inr new)"

definition Next2Power :: "u64 \<Rightarrow> u64 result" where
  "Next2Power n = next2_loop 65 1 n"

definition OverFallChunkNum :: "u64 \<Rightarrow> u64 result" where
  "OverFallChunkNum capacity = Next2Power ((capacity + 14 - 1) div 14)"

text \<open>
  \<open>scaled\<close> stands for the floating-point \<open>capacity /= kMaxLoadFactor / 100.0\<close>; \<open>chunk_bytes\<close>
  for \<open>sizeof(ChunkT)\<close>, which depends on the size of a \<open>std::mutex\<close>.
\<close>

definition ph_effective :: "(u64 \<Rightarrow> u64) \<Rightarrow> bool \<Rightarrow> u64 \<Rightarrow> u64" where
  "ph_effective scaled ignore capacity = (if ignore then capacity else scaled capacity)"

definition ph_Initialize :: "(u64 \<Rightarrow> u64) \<Rightarrow> u64 \<Rightarrow> bool \<Rightarrow> pethash result" where
  "ph_Initialize scaled capacity ignore = bind_result (OverFallChunkNum (ph_effective scaled ignore capacity)) (\<lambda>n.
     Inr \<lparr>ph_capacity = n * 14, ph_chunk_num = n, ph_size = 0,
       ph_table = map f14_Initialize (replicate (unat n) f14_zero)\<rparr>)"

definition ph_MemorySize :: "(u64 \<Rightarrow> u64) \<Rightarrow> u64 \<Rightarrow> u64 \<Rightarrow> bool \<Rightarrow> u64 result" where
  "ph_MemorySize scaled chunk_bytes capacity ignore =
     bind_result (OverFallChunkNum (ph_effective scaled ignore capacity)) (\<lambda>n. Inr (64 + n * chunk_bytes))"

definition ph_home :: "pethash \<Rightarrow> u64 \<Rightarrow> nat" where
  "ph_home t h = unat (h AND (ph_chunk_num t - 1))"

definition ph_next :: "pethash \<Rightarrow> u64 \<Rightarrow> nat \<Rightarrow> nat" where
  "ph_next t step pos = unat ((of_nat pos + step) AND (ph_chunk_num t - 1))"

definition ph_at :: "nat \<Rightarrow> (f14chunk \<Rightarrow> f14chunk) \<Rightarrow> pethash \<Rightarrow> pethash" where
  "ph_at pos f t = t\<lparr>ph_table := (ph_table t)[pos := f (ph_table t ! pos)]\<rparr>"

definition ph_Full :: "pethash \<Rightarrow> bool" where
  "ph_Full t \<longleftrightarrow> ph_capacity t * 90 \<le> ph_size t * 100"

text \<open>\<open>GetInternal\<close> starts over when it finds nothing and met a chunk under migration.\<close>

fun get_loop :: "nat \<Rightarrow> pethash \<Rightarrow> u64 \<Rightarrow> u8 \<Rightarrow> nat \<Rightarrow> bool \<Rightarrow> (nat \<times> nat) option \<times> bool" where
  "get_loop 0 t key sign pos touched = (None, touched)"
| "get_loop (Suc i) t key sign pos touched =
    (let c = ph_table t ! pos; touched = touched \<or> f14_migrating c in
     case f14_Find key sign c of
       Some j \<Rightarrow> (Some (pos, j), touched)
     | None \<Rightarrow> if f14_overflow c = 0 then (None, touched)
         else get_loop i t key sign (ph_next t (ProbeDelta sign) pos) touched)"

definition GetInternal :: "(u64 \<Rightarrow> u64) \<Rightarrow> pethash \<Rightarrow> u64 \<Rightarrow> (nat \<times> nat) option result" where
  "GetInternal crc t key =
    (let h = ph_Hash key; sign = ph_Sign crc h in
     case get_loop (unat (ph_chunk_num t)) t key sign (ph_home t h) False of
       (Some p, touched) \<Rightarrow> Inr (Some p)
     | (None, touched) \<Rightarrow> if touched then Inl No_return else Inr None)"

definition ph_entry :: "pethash \<Rightarrow> nat \<times> nat \<Rightarrow> u64 \<times> u64" where
  "ph_entry t p = f14_value (ph_table t ! fst p) ! snd p"

definition ph_Get :: "(u64 \<Rightarrow> u64) \<Rightarrow> pethash \<Rightarrow> u64 \<Rightarrow> u64 option result" where
  "ph_Get crc t key = bind_result (GetInternal crc t key) (\<lambda>r. Inr (map_option (\<lambda>p. snd (ph_entry t p)) r))"

text \<open>The probe sequence from \<open>pos\<close> up to chunk \<open>chunk_id\<close>, with \<open>g\<close> done to each chunk on the way.\<close>

fun on_way :: "(f14chunk \<Rightarrow> f14chunk) \<Rightarrow> nat \<Rightarrow> nat \<Rightarrow> u64 \<Rightarrow> nat \<Rightarrow> pethash \<Rightarrow> pethash result" where
  "on_way g 0 chunk_id step pos t = Inl No_return"
| "on_way g (Suc f) chunk_id step pos t =
    (if pos = chunk_id then Inr t
     else on_way g f chunk_id step (ph_next t step pos) (ph_at pos g t))"

definition ph_Delete :: "(u64 \<Rightarrow> u64) \<Rightarrow> u64 \<Rightarrow> pethash \<Rightarrow> (pethash \<times> bool) result" where
  "ph_Delete crc key t = bind_result (GetInternal crc t key) (\<lambda>r. case r of
       None \<Rightarrow> Inr (t, True)
     | Some (chunk_id, j) \<Rightarrow>
       bind_result (on_way DecOverflow (unat (ph_chunk_num t)) chunk_id (ProbeDelta (ph_Sign crc (ph_Hash key))) (ph_home t (ph_Hash key)) t)
         (\<lambda>t. Inr ((ph_at chunk_id (f14_Delete j) t)\<lparr>ph_size := ph_size t - 1\<rparr>, True)))"

definition update_entry :: "nat \<times> nat \<Rightarrow> u64 \<Rightarrow> pethash \<Rightarrow> pethash" where
  "update_entry p val t = ph_at (fst p)
     (\<lambda>c. c\<lparr>f14_value := (f14_value c)[snd p := (fst (f14_value c ! snd p), val)]\<rparr>) t"

text \<open>
  \<open>Insert\<close>. \<open>check_func\<close> is optional and says whether an entry is still wanted; it is asked for every
  entry of a chunk that is nearly full. A full chunk of a full table is freed of one entry when
  \<open>force_insert\<close> is set, and ends the process otherwise.
\<close>

fun expire_slots :: "(u64 \<Rightarrow> u64) \<Rightarrow> (u64 \<Rightarrow> u64 \<Rightarrow> bool) \<Rightarrow> nat \<Rightarrow> nat list \<Rightarrow> pethash \<Rightarrow> pethash result" where
  "expire_slots crc check pos [] t = Inr t"
| "expire_slots crc check pos (j # js) t =
    (let c = ph_table t ! pos; e = f14_value c ! j in
     if InUse j c \<and> \<not> check (fst e) (snd e)
     then bind_result (ph_Delete crc (fst e) t) (\<lambda>r. expire_slots crc check pos js (fst r))
     else expire_slots crc check pos js t)"

definition expire_chunk :: "(u64 \<Rightarrow> u64) \<Rightarrow> (u64 \<Rightarrow> u64 \<Rightarrow> bool) option \<Rightarrow> nat \<Rightarrow> pethash \<Rightarrow> pethash result" where
  "expire_chunk crc check pos t = (case check of
       None \<Rightarrow> Inr t
     | Some f \<Rightarrow> if kMaxSize - 2 \<le> unat (f14_size (ph_table t ! pos))
         then expire_slots crc f pos [0..<kMaxSize] t else Inr t)"

fun insert_loop ::
  "(u64 \<Rightarrow> u64) \<Rightarrow> (u64 \<Rightarrow> u64 \<Rightarrow> bool) option \<Rightarrow> bool \<Rightarrow> u64 \<Rightarrow> u64 \<Rightarrow> u8 \<Rightarrow> nat \<Rightarrow> nat \<Rightarrow> nat \<Rightarrow> pethash \<Rightarrow>
    (pethash \<times> nat \<times> nat) result" where
  "insert_loop crc check force key val sign 0 i pos t = Inl Log_fatal"
| "insert_loop crc check force key val sign (Suc f) i pos t =
    bind_result (expire_chunk crc check pos t) (\<lambda>t.
      let c = ph_table t ! pos in
      case f14_Find key sign c of
        Some j \<Rightarrow> Inr (update_entry (pos, j) val t, pos, j)
      | None \<Rightarrow>
        if unat (f14_size c) < kMaxSize then
          bind_result (f14_Insert key val sign c) (\<lambda>r.
            Inr (t\<lparr>ph_table := (ph_table t)[pos := fst r], ph_size := ph_size t + 1\<rparr>, pos, snd r))
        else if ph_Full t then
          if \<not> force then Inl Log_fatal
          else bind_result (ph_Delete crc (fst (f14_value c ! ((unat sign + i) mod kMaxSize))) t)
            (\<lambda>r. insert_loop crc check force key val sign f (Suc i) pos (fst r))
        else insert_loop crc check force key val sign f (Suc i) (ph_next t (ProbeDelta sign) pos) (ph_at pos IncOverflow t))"

definition ph_Insert ::
  "(u64 \<Rightarrow> u64) \<Rightarrow> (u64 \<Rightarrow> u64 \<Rightarrow> bool) option \<Rightarrow> bool \<Rightarrow> u64 \<Rightarrow> u64 \<Rightarrow> pethash \<Rightarrow> (pethash \<times> nat \<times> nat) result" where
  "ph_Insert crc check force key val t =
     insert_loop crc check force key val (ph_Sign crc (ph_Hash key)) (unat (ph_chunk_num t)) 0 (ph_home t (ph_Hash key)) t"

definition ph_Set ::
  "(u64 \<Rightarrow> u64) \<Rightarrow> (u64 \<Rightarrow> u64 \<Rightarrow> bool) option \<Rightarrow> bool \<Rightarrow> u64 \<Rightarrow> u64 \<Rightarrow> pethash \<Rightarrow> (pethash \<times> nat \<times> nat) result" where
  "ph_Set crc check force key val t = bind_result (GetInternal crc t key) (\<lambda>r. case r of
       Some p \<Rightarrow> Inr (update_entry p val t, p)
     | None \<Rightarrow> ph_Insert crc check force key val t)"

definition ph_GetReturnPtr :: "(u64 \<Rightarrow> u64) \<Rightarrow> pethash \<Rightarrow> u64 \<Rightarrow> (nat \<times> nat) option result" where
  "ph_GetReturnPtr crc t key = GetInternal crc t key"

definition ph_GetById :: "nat \<Rightarrow> pethash \<Rightarrow> u64 \<times> u64" where
  "ph_GetById pos t = f14_value (ph_table t ! (pos div 14)) ! (pos mod 14)"

definition IndexInUse :: "nat \<Rightarrow> pethash \<Rightarrow> bool" where
  "IndexInUse pos t = (if unat (ph_capacity t) \<le> pos then False else InUse (pos mod 14) (ph_table t ! (pos div 14)))"

text \<open>\<open>Lookup\<close> answers the slot's number; \<open>None\<close> is its -1.\<close>

definition ph_Lookup :: "(u64 \<Rightarrow> u64) \<Rightarrow> pethash \<Rightarrow> u64 \<Rightarrow> nat option result" where
  "ph_Lookup crc t key = bind_result (GetInternal crc t key) (\<lambda>r. Inr (map_option (\<lambda>p. fst p * 14 + snd p) r))"

definition ph_Size :: "pethash \<Rightarrow> u32" where "ph_Size t = ucast (ph_size t)"
definition ph_Capacity :: "pethash \<Rightarrow> u32" where "ph_Capacity t = ucast (ph_capacity t)"

text \<open>\<open>Valid\<close>: \<open>None\<close> stands for the early \<open>return false\<close> of its loop.\<close>

fun valid_slots :: "(u64 \<Rightarrow> u64) \<Rightarrow> pethash \<Rightarrow> nat list \<Rightarrow> u64 \<Rightarrow> u64 option result" where
  "valid_slots crc t [] found = Inr (Some found)"
| "valid_slots crc t (i # rest) found =
    (if IndexInUse i t
     then bind_result (ph_Get crc t (fst (ph_GetById i t))) (\<lambda>r. case r of
       None \<Rightarrow> Inr None
     | Some _ \<Rightarrow> valid_slots crc t rest (found + 1))
     else valid_slots crc t rest found)"

definition ph_Valid :: "(u64 \<Rightarrow> u64) \<Rightarrow> u64 \<Rightarrow> u64 \<Rightarrow> pethash \<Rightarrow> bool result" where
  "ph_Valid crc chunk_bytes memory_size t =
    (if ph_capacity t = 0 \<and> 0 < sint memory_size then Inr False
     else if ph_capacity t < ph_size t then Inr False
     else if ph_chunk_num t * 14 \<noteq> ph_capacity t then Inr False
     else bind_result (ph_MemorySize id chunk_bytes (ph_capacity t) True) (\<lambda>m.
       if memory_size \<noteq> m then Inr False
       else bind_result (valid_slots crc t [0..<unat (ph_capacity t)] 0) (\<lambda>r. case r of
         None \<Rightarrow> Inr False
       | Some found \<Rightarrow> Inr (found = sum_list (map (\<lambda>c. ucast (f14_size c)) (ph_table t)) \<and> found = ph_size t))))"

end
