(* ===== verification/PetTable.thy ===== *)
theory PetTable
  imports PetHash
begin

text \<open>
  The invariant of \<open>PetHash\<close>: its probe sequences visit every chunk, no key is stored twice, and the
  overflow counter of a chunk is at least the number of stored keys whose probe sequence passes
  it, or stuck at 255. What filling and freeing one slot does to it.
\<close>

section \<open>Probe sequences\<close>

text \<open>With \<open>2 ^ k\<close> chunks the odd step visits every chunk once in \<open>2 ^ k\<close> probes.\<close>

definition ph_sized :: "nat \<Rightarrow> pethash \<Rightarrow> bool" where
  "ph_sized k t \<longleftrightarrow> k \<le> 40 \<and> ph_chunk_num t = 2 ^ k \<and> ph_capacity t = ph_chunk_num t * 14 \<and> length (ph_table t) = 2 ^ k"

definition ph_step :: "(u64 \<Rightarrow> u64) \<Rightarrow> u64 \<Rightarrow> u64" where
  "ph_step crc key = ProbeDelta (ph_Sign crc (ph_Hash key))"

definition ph_path :: "(u64 \<Rightarrow> u64) \<Rightarrow> nat \<Rightarrow> u64 \<Rightarrow> nat \<Rightarrow> nat" where
  "ph_path crc n key i = (unat (ph_Hash key) + i * unat (ph_step crc key)) mod n"

lemma ProbeDelta_odd: "odd (unat (ProbeDelta s))"
proof -
  have "bit (unat (ProbeDelta s)) 0" by (simp add: ProbeDelta_def bit_unsigned_iff bit_or_iff)
  then show ?thesis by (simp add: bit_0)
qed

lemma ph_mask: "ph_sized k t \<Longrightarrow> ph_chunk_num t - 1 = mask k"
  by (simp add: ph_sized_def mask_eq_exp_minus_1)

lemma unat_chunk_num: assumes "ph_sized k t" shows "unat (ph_chunk_num t) = 2 ^ k"
  using assms unat_power_2 [of k] by (simp add: ph_sized_def)

lemma ph_home_path: assumes "ph_sized k t" shows "ph_home t (ph_Hash key) = ph_path crc (2 ^ k) key 0"
  by (simp add: ph_home_def ph_mask [OF assms] word_and_mask_mod ph_path_def)

lemma mod_pow2_64: assumes "k \<le> (40::nat)" shows "(x mod 2 ^ 64) mod 2 ^ k = x mod (2 ^ k :: nat)"
proof -
  have "(2 ^ k :: nat) dvd 2 ^ 64" using assms by (intro le_imp_power_dvd) simp
  then show ?thesis by (rule mod_mod_cancel)
qed

lemma ph_next_path:
  assumes t: "ph_sized k t"
  shows "ph_next t (ph_step crc key) (ph_path crc (2 ^ k) key i) = ph_path crc (2 ^ k) key (Suc i)"
proof -
  have k: "k \<le> 40" using t by (simp add: ph_sized_def)
  let ?p = "ph_path crc (2 ^ k) key i"
  have w: "unat (of_nat ?p + ph_step crc key) = (?p mod 2 ^ 64 + unat (ph_step crc key)) mod 2 ^ 64"
    by (simp add: unat_word_ariths unsigned_of_nat take_bit_eq_mod)
  have "ph_next t (ph_step crc key) ?p = unat (of_nat ?p + ph_step crc key) mod 2 ^ k"
    by (simp only: ph_next_def ph_mask [OF t] word_and_mask_mod)
  also have "\<dots> = (?p mod 2 ^ 64 + unat (ph_step crc key)) mod 2 ^ k"
    unfolding w by (rule mod_pow2_64 [OF k])
  also have "\<dots> = ((?p mod 2 ^ 64) mod 2 ^ k + unat (ph_step crc key)) mod 2 ^ k" by (simp only: mod_add_left_eq)
  also have "\<dots> = (?p + unat (ph_step crc key)) mod 2 ^ k"
    unfolding mod_pow2_64 [OF k] by (simp only: mod_add_left_eq)
  also have "\<dots> = ph_path crc (2 ^ k) key (Suc i)"
    by (simp only: ph_path_def mod_add_left_eq) (simp add: ac_simps)
  finally show ?thesis .
qed

lemma ph_path_lt [simp]: "ph_path crc (2 ^ k) key i < 2 ^ k"
  by (simp add: ph_path_def)

lemma ph_path_inj:
  assumes "ph_path crc (2 ^ k) key i = ph_path crc (2 ^ k) key j" "i < 2 ^ k" "j < 2 ^ k"
  shows "i = j"
proof -
  have *: "i = j" if le: "i \<le> j" and e: "ph_path crc (2 ^ k) key i = ph_path crc (2 ^ k) key j" and j: "j < 2 ^ k" for i j
  proof -
    let ?s = "unat (ph_step crc key)"
    have "(2 :: nat) ^ k dvd (unat (ph_Hash key) + j * ?s) - (unat (ph_Hash key) + i * ?s)"
      using e le by (intro mod_eq_dvd_iff_nat [THEN iffD1]) (simp_all add: ph_path_def)
    then have "2 ^ k dvd (j - i) * ?s" by (simp add: diff_mult_distrib)
    moreover have "coprime ((2 :: nat) ^ k) ?s" using ProbeDelta_odd by (simp add: ph_step_def)
    ultimately have "2 ^ k dvd j - i" by (simp add: coprime_dvd_mult_left_iff)
    with j le show ?thesis using nat_dvd_not_less [of "j - i" "2 ^ k"] by (cases "i = j") auto
  qed
  show ?thesis using * [of i j] * [of j i] assms by (cases "i \<le> j") auto
qed

lemma ph_path_reaches: assumes "c < 2 ^ k" shows "\<exists>d < 2 ^ k. ph_path crc (2 ^ k) key d = c"
proof -
  have "inj_on (ph_path crc (2 ^ k) key) {..<2 ^ k}" by (intro inj_onI) (auto intro: ph_path_inj)
  then have "card (ph_path crc (2 ^ k) key ` {..<2 ^ k}) = card {..<(2::nat) ^ k}" by (rule card_image)
  moreover have "ph_path crc (2 ^ k) key ` {..<2 ^ k} \<subseteq> {..<2 ^ k}" by auto
  ultimately have "ph_path crc (2 ^ k) key ` {..<2 ^ k} = {..<2 ^ k}" by (intro card_subset_eq) auto
  with assms have "c \<in> ph_path crc (2 ^ k) key ` {..<2 ^ k}" by simp
  then show ?thesis by auto
qed


section \<open>The invariant\<close>

definition f14_ok :: "f14chunk \<Rightarrow> bool" where
  "f14_ok c \<longleftrightarrow> length (f14_tags c) = kMaxSize \<and> length (f14_value c) = kMaxSize \<and>
     unat (f14_size c) = card {j. j < kMaxSize \<and> InUse j c} \<and>
     (\<forall>j < kMaxSize. \<not> InUse j c \<longrightarrow> fst (f14_value c ! j) = -1)"

definition ph_used :: "pethash \<Rightarrow> (nat \<times> nat) set" where
  "ph_used t = {x. fst x < length (ph_table t) \<and> snd x < kMaxSize \<and> InUse (snd x) (ph_table t ! fst x)}"

definition ph_key :: "pethash \<Rightarrow> nat \<times> nat \<Rightarrow> u64" where
  "ph_key t x = fst (ph_entry t x)"

text \<open>\<open>before crc n key c p\<close>: the probe sequence of \<open>key\<close> meets \<open>p\<close> before it meets \<open>c\<close>.\<close>

definition before :: "(u64 \<Rightarrow> u64) \<Rightarrow> nat \<Rightarrow> u64 \<Rightarrow> nat \<Rightarrow> nat \<Rightarrow> bool" where
  "before crc n key c p \<longleftrightarrow> (\<exists>d < n. ph_path crc n key d = c \<and> (\<exists>i < d. ph_path crc n key i = p))"

definition passing :: "(u64 \<Rightarrow> u64) \<Rightarrow> pethash \<Rightarrow> nat \<Rightarrow> (nat \<times> nat) set" where
  "passing crc t p = {x \<in> ph_used t. before crc (length (ph_table t)) (ph_key t x) (fst x) p}"

text \<open>
  \<open>extra\<close> counts overflow marks that belong to no stored key: those of the key an \<open>Insert\<close> is
  looking a place for.
\<close>

definition ph_inv :: "(u64 \<Rightarrow> u64) \<Rightarrow> nat \<Rightarrow> (nat \<Rightarrow> nat) \<Rightarrow> pethash \<Rightarrow> bool" where
  "ph_inv crc k extra t \<longleftrightarrow> ph_sized k t \<and>
     (\<forall>p < 2 ^ k. f14_ok (ph_table t ! p) \<and> \<not> f14_migrating (ph_table t ! p)) \<and>
     (\<forall>x \<in> ph_used t. f14_tags (ph_table t ! fst x) ! snd x = ph_Sign crc (ph_Hash (ph_key t x))) \<and>
     inj_on (ph_key t) (ph_used t) \<and> unat (ph_size t) = card (ph_used t) \<and>
     (\<forall>p < 2 ^ k. f14_overflow (ph_table t ! p) = 255 \<or> card (passing crc t p) + extra p \<le> unat (f14_overflow (ph_table t ! p)))"

definition ph_ok :: "(u64 \<Rightarrow> u64) \<Rightarrow> pethash \<Rightarrow> bool" where
  "ph_ok crc t \<longleftrightarrow> (\<exists>k. ph_inv crc k (\<lambda>p. 0) t)"

text \<open>The map a table stands for.\<close>

definition f14_items :: "f14chunk \<Rightarrow> (u64 \<times> u64) list" where
  "f14_items c = map (\<lambda>j. f14_value c ! j) (filter (\<lambda>j. InUse j c) [0..<kMaxSize])"

definition ph_map :: "pethash \<Rightarrow> u64 \<Rightarrow> u64 option" where
  "ph_map t = map_of (concat (map f14_items (ph_table t)))"

lemma ph_invD:
  assumes "ph_inv crc k extra t"
  shows ph_inv_sized: "ph_sized k t" and ph_inv_length: "length (ph_table t) = 2 ^ k"
    and ph_inv_chunk: "\<And>p. p < 2 ^ k \<Longrightarrow> f14_ok (ph_table t ! p)"
    and ph_inv_still: "\<And>p. p < 2 ^ k \<Longrightarrow> \<not> f14_migrating (ph_table t ! p)"
    and ph_inv_tag: "\<And>x. x \<in> ph_used t \<Longrightarrow> f14_tags (ph_table t ! fst x) ! snd x = ph_Sign crc (ph_Hash (ph_key t x))"
    and ph_inv_inj: "inj_on (ph_key t) (ph_used t)"
    and ph_inv_card: "unat (ph_size t) = card (ph_used t)"
    and ph_inv_overflow: "\<And>p. p < 2 ^ k \<Longrightarrow>
      f14_overflow (ph_table t ! p) = 255 \<or> card (passing crc t p) + extra p \<le> unat (f14_overflow (ph_table t ! p))"
  using assms by (auto simp: ph_inv_def ph_sized_def)

lemma ph_SignNZ [simp]: "ph_Sign crc h \<noteq> 0"
proof -
  have "bit (ph_Sign crc h) 7"
    by (simp add: ph_Sign_def bit_unsigned_iff bit_and_iff bit_or_iff bit_mask_iff bit_drop_bit_eq)
  then show ?thesis by auto
qed

lemma finite_ph_used [simp]: "finite (ph_used t)"
proof -
  have "ph_used t \<subseteq> {..<length (ph_table t)} \<times> {..<kMaxSize}" by (auto simp: ph_used_def)
  then show ?thesis by (rule finite_subset) simp
qed

lemma finite_passing [simp]: "finite (passing crc t p)"
  by (simp add: passing_def)

lemma ph_items_iff: "e \<in> set (concat (map f14_items (ph_table t))) \<longleftrightarrow> (\<exists>x \<in> ph_used t. ph_entry t x = e)"
  by (fastforce simp: f14_items_def ph_used_def ph_entry_def in_set_conv_nth)

lemma ph_map_Some:
  assumes "inj_on (ph_key t) (ph_used t)"
  shows "ph_map t key = Some v \<longleftrightarrow> (\<exists>x \<in> ph_used t. ph_entry t x = (key, v))"
proof
  assume "ph_map t key = Some v"
  then have "(key, v) \<in> set (concat (map f14_items (ph_table t)))" unfolding ph_map_def by (rule map_of_SomeD)
  then show "\<exists>x \<in> ph_used t. ph_entry t x = (key, v)" unfolding ph_items_iff .
next
  assume "\<exists>x \<in> ph_used t. ph_entry t x = (key, v)"
  then obtain x where x: "x \<in> ph_used t" "ph_entry t x = (key, v)" by auto
  then have "(key, v) \<in> set (concat (map f14_items (ph_table t)))" unfolding ph_items_iff by auto
  then obtain w where w: "ph_map t key = Some w" unfolding ph_map_def by (meson weak_map_of_SomeI)
  then have "(key, w) \<in> set (concat (map f14_items (ph_table t)))" unfolding ph_map_def by (rule map_of_SomeD)
  then obtain y where y: "y \<in> ph_used t" "ph_entry t y = (key, w)" unfolding ph_items_iff by auto
  from x y assms have "x = y" by (auto simp: inj_on_def ph_key_def)
  with x y w show "ph_map t key = Some v" by simp
qed

lemma ph_map_None:
  assumes "inj_on (ph_key t) (ph_used t)"
  shows "ph_map t key = None \<longleftrightarrow> (\<forall>x \<in> ph_used t. ph_key t x \<noteq> key)"
proof -
  have "ph_map t key = None \<longleftrightarrow> (\<forall>v. ph_map t key \<noteq> Some v)" by auto
  then show ?thesis unfolding ph_map_Some [OF assms] ph_key_def by (metis prod.collapse fst_conv)
qed

section \<open>Look-ups\<close>

lemma f14_Find_Some:
  assumes "f14_Find key tag c = Some j"
  shows "j < kMaxSize" "f14_tags c ! j = tag" "fst (f14_value c ! j) = key"
proof -
  from assms have "j \<in> set (MatchTag tag c) \<and> fst (f14_value c ! j) = key"
    by (auto simp: f14_Find_def find_Some_iff)
  then show "j < kMaxSize" "f14_tags c ! j = tag" "fst (f14_value c ! j) = key" by (auto simp: MatchTag_def)
qed

lemma f14_Find_None:
  "f14_Find key tag c = None \<longleftrightarrow> (\<forall>j < kMaxSize. f14_tags c ! j = tag \<longrightarrow> fst (f14_value c ! j) \<noteq> key)"
  by (auto simp: f14_Find_def find_None_iff MatchTag_def)

lemma find_here:
  assumes t: "ph_inv crc k extra t" and p: "p < 2 ^ k"
  shows "f14_Find key (ph_Sign crc (ph_Hash key)) (ph_table t ! p) = Some j \<longleftrightarrow> (p, j) \<in> ph_used t \<and> ph_key t (p, j) = key"
proof
  assume "f14_Find key (ph_Sign crc (ph_Hash key)) (ph_table t ! p) = Some j"
  note f = f14_Find_Some [OF this]
  from f(2) have "InUse j (ph_table t ! p)" by (simp add: InUse_def)
  with f p ph_inv_length [OF t] show "(p, j) \<in> ph_used t \<and> ph_key t (p, j) = key"
    by (simp add: ph_used_def ph_key_def ph_entry_def)
next
  assume x: "(p, j) \<in> ph_used t \<and> ph_key t (p, j) = key"
  from ph_inv_tag [OF t, of "(p, j)"] x have tag: "f14_tags (ph_table t ! p) ! j = ph_Sign crc (ph_Hash key)" by simp
  have j: "j < kMaxSize" "fst (f14_value (ph_table t ! p) ! j) = key" using x by (auto simp: ph_used_def ph_key_def ph_entry_def)
  show "f14_Find key (ph_Sign crc (ph_Hash key)) (ph_table t ! p) = Some j"
  proof (cases "f14_Find key (ph_Sign crc (ph_Hash key)) (ph_table t ! p)")
    case None
    with tag j show ?thesis by (auto simp: f14_Find_None)
  next
    case (Some i)
    note f = f14_Find_Some [OF Some]
    from f(2) have "InUse i (ph_table t ! p)" by (simp add: InUse_def)
    with f p ph_inv_length [OF t] have "(p, i) \<in> ph_used t" "ph_key t (p, i) = key"
      by (simp_all add: ph_used_def ph_key_def ph_entry_def)
    with x inj_onD [OF ph_inv_inj [OF t], of "(p, i)" "(p, j)"] Some show ?thesis by simp
  qed
qed

lemma find_here_None:
  assumes "ph_inv crc k extra t" "p < 2 ^ k"
  shows "f14_Find key (ph_Sign crc (ph_Hash key)) (ph_table t ! p) = None \<longleftrightarrow> (\<forall>j. (p, j) \<in> ph_used t \<longrightarrow> ph_key t (p, j) \<noteq> key)"
  using find_here [OF assms] by (metis not_None_eq)

lemma get_loop_absent:
  assumes t: "ph_inv crc k extra t" and absent: "\<forall>x \<in> ph_used t. ph_key t x \<noteq> key"
  shows "get_loop f t key (ph_Sign crc (ph_Hash key)) (ph_path crc (2 ^ k) key d) False = (None, False)"
proof (induction f arbitrary: d)
  case (Suc f)
  have "f14_Find key (ph_Sign crc (ph_Hash key)) (ph_table t ! ph_path crc (2 ^ k) key d) = None"
    using absent by (subst find_here_None [OF t]) auto
  with Suc [of "Suc d"] ph_inv_still [OF t, of "ph_path crc (2 ^ k) key d"]
  show ?case by (simp add: Let_def ph_next_path [OF ph_inv_sized [OF t], unfolded ph_step_def])
qed simp

lemma get_loop_present:
  assumes t: "ph_inv crc k extra t" and x: "(c, j) \<in> ph_used t" "ph_key t (c, j) = key"
    and D: "ph_path crc (2 ^ k) key D = c" "D < 2 ^ k"
  shows "d \<le> D \<Longrightarrow> D - d < f \<Longrightarrow>
    get_loop f t key (ph_Sign crc (ph_Hash key)) (ph_path crc (2 ^ k) key d) False = (Some (c, j), False)"
proof (induction f arbitrary: d)
  case (Suc f)
  let ?p = "ph_path crc (2 ^ k) key d"
  have still: "\<not> f14_migrating (ph_table t ! ?p)" by (rule ph_inv_still [OF t]) simp
  show ?case
  proof (cases "d = D")
    case True
    then have "f14_Find key (ph_Sign crc (ph_Hash key)) (ph_table t ! ?p) = Some j"
      using x D find_here [OF t ph_path_lt [of crc k key d], of key j] by simp
    with True D still show ?thesis by (simp add: Let_def)
  next
    case False
    with Suc.prems have dD: "d < D" by simp
    have ne: "?p \<noteq> c" using ph_path_inj [of crc k key d D] dD D by auto
    have none: "f14_Find key (ph_Sign crc (ph_Hash key)) (ph_table t ! ?p) = None"
      using x ne find_here_None [OF t ph_path_lt [of crc k key d], of key]
      by (metis inj_onD [OF ph_inv_inj [OF t]] fst_conv)
    have "(c, j) \<in> passing crc t ?p"
      using x D dD ph_inv_length [OF t] by (auto simp: passing_def before_def)
    then have "card (passing crc t ?p) \<noteq> 0" by auto
    with ph_inv_overflow [OF t, of ?p] have "f14_overflow (ph_table t ! ?p) \<noteq> 0" by auto
    with none still Suc.IH [of "Suc d"] Suc.prems dD show ?thesis
      by (simp add: Let_def ph_next_path [OF ph_inv_sized [OF t], unfolded ph_step_def])
  qed
qed simp

lemma GetInternal_present:
  assumes t: "ph_inv crc k extra t" and x: "x \<in> ph_used t" "ph_key t x = key"
  shows "GetInternal crc t key = Inr (Some x)"
proof -
  obtain c j where [simp]: "x = (c, j)" by (cases x)
  have "c < 2 ^ k" using x ph_inv_length [OF t] by (simp add: ph_used_def)
  from ph_path_reaches [OF this, of crc key] obtain D where "D < 2 ^ k" "ph_path crc (2 ^ k) key D = c" by auto
  with get_loop_present [OF t, of c j key D 0 "2 ^ k"] x show ?thesis
    by (simp add: GetInternal_def Let_def unat_chunk_num [OF ph_inv_sized [OF t]] ph_home_path [OF ph_inv_sized [OF t], of key crc])
qed

lemma GetInternal_absent:
  assumes t: "ph_inv crc k extra t" and x: "\<forall>x \<in> ph_used t. ph_key t x \<noteq> key"
  shows "GetInternal crc t key = Inr None"
  using get_loop_absent [OF t x, of "2 ^ k" 0]
  by (simp add: GetInternal_def Let_def unat_chunk_num [OF ph_inv_sized [OF t]] ph_home_path [OF ph_inv_sized [OF t], of key crc])


section \<open>Counting\<close>

lemma card_ph_used: assumes t: "ph_inv crc k extra t"
  shows "card (ph_used t) = (\<Sum>p < 2 ^ k. unat (f14_size (ph_table t ! p)))"
proof -
  have "ph_used t = (SIGMA p : {..<2 ^ k}. {j. j < kMaxSize \<and> InUse j (ph_table t ! p)})"
    using ph_inv_length [OF t] by (auto simp: ph_used_def)
  then have "card (ph_used t) = (\<Sum>p < 2 ^ k. card {j. j < kMaxSize \<and> InUse j (ph_table t ! p)})" by simp
  also have "\<dots> = (\<Sum>p < 2 ^ k. unat (f14_size (ph_table t ! p)))"
    using ph_inv_chunk [OF t] by (intro sum.cong) (auto simp: f14_ok_def)
  finally show ?thesis .
qed

lemma f14_size_le: assumes "f14_ok c" shows "unat (f14_size c) \<le> kMaxSize"
proof -
  have "card {j. j < kMaxSize \<and> InUse j c} \<le> card {..<kMaxSize}" by (intro card_mono) auto
  with assms show ?thesis by (simp add: f14_ok_def)
qed

lemma f14_full_iff: assumes "f14_ok c" shows "unat (f14_size c) = kMaxSize \<longleftrightarrow> (\<forall>j < kMaxSize. InUse j c)"
proof
  assume *: "unat (f14_size c) = kMaxSize"
  then have "card {j. j < kMaxSize \<and> InUse j c} = card {..<kMaxSize}" using assms by (simp add: f14_ok_def)
  then have "{j. j < kMaxSize \<and> InUse j c} = {..<kMaxSize}" by (intro card_subset_eq) auto
  then show "\<forall>j < kMaxSize. InUse j c" by auto
next
  assume "\<forall>j < kMaxSize. InUse j c"
  then have "{j. j < kMaxSize \<and> InUse j c} = {..<kMaxSize}" by auto
  then show "unat (f14_size c) = kMaxSize" using assms by (simp add: f14_ok_def)
qed

lemma card_ph_used_le: assumes t: "ph_inv crc k extra t" shows "card (ph_used t) \<le> 14 * 2 ^ k"
proof -
  have "(\<Sum>p < 2 ^ k. unat (f14_size (ph_table t ! p))) \<le> (\<Sum>p < (2::nat) ^ k. 14)"
    using f14_size_le [OF ph_inv_chunk [OF t]] by (intro sum_mono) (auto simp: kMaxSize_def)
  then show ?thesis by (simp add: card_ph_used [OF t])
qed

lemma card_ph_used_full:
  assumes t: "ph_inv crc k extra t" and "\<And>p. p < 2 ^ k \<Longrightarrow> unat (f14_size (ph_table t ! p)) = kMaxSize"
  shows "card (ph_used t) = 14 * 2 ^ k"
  using assms(2) by (simp add: card_ph_used [OF t] kMaxSize_def)

lemma ph_Full_iff: assumes t: "ph_inv crc k extra t"
  shows "ph_Full t \<longleftrightarrow> 14 * 2 ^ k * 90 \<le> card (ph_used t) * 100"
proof -
  have k: "k \<le> 40" using ph_inv_sized [OF t] by (simp add: ph_sized_def)
  then have b: "(2 :: nat) ^ k \<le> 2 ^ 40" by (intro power_increasing) auto
  have "ph_capacity t = of_nat (14 * 2 ^ k)" using ph_inv_sized [OF t] by (simp add: ph_sized_def mult.commute)
  then have "unat (ph_capacity t * 90) = 14 * 2 ^ k * 90"
    using unat_of_nat_small [of "14 * 2 ^ k * 90"] b by (simp add: mult.commute)
  moreover have "unat (ph_size t * 100) = card (ph_used t) * 100"
  proof -
    have "unat (ph_size t) * 100 < 2 ^ 64" using card_ph_used_le [OF t] b by (simp add: ph_inv_card [OF t])
    then have "unat (ph_size t * 100) = unat (ph_size t) * 100" by (simp add: unat_word_ariths)
    then show ?thesis by (simp add: ph_inv_card [OF t])
  qed
  ultimately show ?thesis by (simp add: ph_Full_def word_le_nat_alt)
qed

section \<open>Overflow counters\<close>

definition ph_on :: "nat set \<Rightarrow> (f14chunk \<Rightarrow> f14chunk) \<Rightarrow> pethash \<Rightarrow> pethash" where
  "ph_on S f t = t\<lparr>ph_table := map (\<lambda>p. if p \<in> S then f (ph_table t ! p) else ph_table t ! p) [0..<length (ph_table t)]\<rparr>"

lemma ph_on_fields [simp]:
  "ph_chunk_num (ph_on S f t) = ph_chunk_num t" "ph_capacity (ph_on S f t) = ph_capacity t"
  "ph_size (ph_on S f t) = ph_size t" "length (ph_table (ph_on S f t)) = length (ph_table t)"
  by (simp_all add: ph_on_def)

lemma ph_on_nth: "p < length (ph_table t) \<Longrightarrow> ph_table (ph_on S f t) ! p = (if p \<in> S then f (ph_table t ! p) else ph_table t ! p)"
  by (simp add: ph_on_def)

lemma ph_at_fields [simp]:
  "ph_chunk_num (ph_at p f t) = ph_chunk_num t" "ph_capacity (ph_at p f t) = ph_capacity t"
  "ph_size (ph_at p f t) = ph_size t" "length (ph_table (ph_at p f t)) = length (ph_table t)"
  by (simp_all add: ph_at_def)

lemma ph_at_nth: "q < length (ph_table t) \<Longrightarrow> ph_table (ph_at p f t) ! q = (if p = q then f (ph_table t ! q) else ph_table t ! q)"
  by (auto simp: ph_at_def)

lemma ph_sized_at [simp]: "ph_sized k (ph_at p f t) = ph_sized k t"
  by (simp add: ph_sized_def)

lemma ph_on_empty [simp]: "ph_on {} f t = t"
  by (simp add: ph_on_def map_nth)

lemma ph_on_insert: assumes "p \<notin> S" shows "ph_on (insert p S) f t = ph_on S f (ph_at p f t)"
proof -
  have "ph_table (ph_on (insert p S) f t) = ph_table (ph_on S f (ph_at p f t))"
    using assms by (intro nth_equalityI) (auto simp: ph_on_nth ph_at_nth)
  then show ?thesis by (simp add: ph_on_def ph_at_def)
qed

lemma on_way_on:
  assumes D: "ph_path crc (2 ^ k) key D = c" "D < 2 ^ k"
  shows "ph_sized k t \<Longrightarrow> d \<le> D \<Longrightarrow> D - d < f \<Longrightarrow>
    on_way g f c (ph_step crc key) (ph_path crc (2 ^ k) key d) t = Inr (ph_on (ph_path crc (2 ^ k) key ` {d..<D}) g t)"
proof (induction f arbitrary: d t)
  case (Suc f)
  show ?case
  proof (cases "d = D")
    case True
    then show ?thesis using D by simp
  next
    case False
    with Suc.prems have dD: "d < D" by simp
    let ?p = "ph_path crc (2 ^ k) key"
    have ne: "?p d \<noteq> c" using ph_path_inj [of crc k key d D] dD D by auto
    have new: "?p d \<notin> ?p ` {Suc d..<D}"
    proof
      assume "?p d \<in> ?p ` {Suc d..<D}"
      then obtain i where "?p d = ?p i" "Suc d \<le> i" "i < D" by auto
      with ph_path_inj [of crc k key d i] D dD show False by auto
    qed
    have "{d..<D} = insert d {Suc d..<D}" using dD by auto
    then have "?p ` {d..<D} = insert (?p d) (?p ` {Suc d..<D})" by simp
    with new have "ph_on (?p ` {d..<D}) g t = ph_on (?p ` {Suc d..<D}) g (ph_at (?p d) g t)"
      by (simp add: ph_on_insert)
    with ne Suc.IH [of "ph_at (?p d) g t" "Suc d"] Suc.prems dD show ?thesis
      by (simp add: ph_next_path [OF Suc.prems(1)])
  qed
qed simp


lemma overflow_fields [simp]:
  "f14_tags (IncOverflow c) = f14_tags c" "f14_value (IncOverflow c) = f14_value c"
  "f14_size (IncOverflow c) = f14_size c" "f14_migrating (IncOverflow c) = f14_migrating c"
  "f14_tags (DecOverflow c) = f14_tags c" "f14_value (DecOverflow c) = f14_value c"
  "f14_size (DecOverflow c) = f14_size c" "f14_migrating (DecOverflow c) = f14_migrating c"
  by (simp_all add: IncOverflow_def DecOverflow_def)

text \<open>Tables that differ in their overflow counters only.\<close>

definition ph_like :: "pethash \<Rightarrow> pethash \<Rightarrow> bool" where
  "ph_like t t' \<longleftrightarrow> ph_chunk_num t' = ph_chunk_num t \<and> ph_capacity t' = ph_capacity t \<and> ph_size t' = ph_size t \<and>
     length (ph_table t') = length (ph_table t) \<and>
     (\<forall>p < length (ph_table t). f14_tags (ph_table t' ! p) = f14_tags (ph_table t ! p) \<and>
        f14_value (ph_table t' ! p) = f14_value (ph_table t ! p) \<and> f14_size (ph_table t' ! p) = f14_size (ph_table t ! p) \<and>
        f14_migrating (ph_table t' ! p) = f14_migrating (ph_table t ! p))"

lemma ph_like_at: "(\<And>c. f14_tags (f c) = f14_tags c \<and> f14_value (f c) = f14_value c \<and> f14_size (f c) = f14_size c
    \<and> f14_migrating (f c) = f14_migrating c) \<Longrightarrow> ph_like t (ph_at p f t)"
  by (auto simp: ph_like_def ph_at_nth)

lemma ph_like_on: "(\<And>c. f14_tags (f c) = f14_tags c \<and> f14_value (f c) = f14_value c \<and> f14_size (f c) = f14_size c
    \<and> f14_migrating (f c) = f14_migrating c) \<Longrightarrow> ph_like t (ph_on S f t)"
  by (auto simp: ph_like_def ph_on_nth)

lemma ph_like_used:
  assumes "ph_like t t'"
  shows "ph_used t' = ph_used t" and "\<And>x. x \<in> ph_used t \<Longrightarrow> ph_entry t' x = ph_entry t x"
    and "\<And>x. x \<in> ph_used t \<Longrightarrow> ph_key t' x = ph_key t x" and "passing crc t' p = passing crc t p"
proof -
  show u: "ph_used t' = ph_used t" using assms by (auto simp: ph_like_def ph_used_def InUse_def)
  show e: "ph_entry t' x = ph_entry t x" if "x \<in> ph_used t" for x
    using assms that by (auto simp: ph_like_def ph_used_def ph_entry_def)
  then show y: "ph_key t' x = ph_key t x" if "x \<in> ph_used t" for x using that by (simp add: ph_key_def)
  show "passing crc t' p = passing crc t p" using u y assms by (auto simp: passing_def ph_like_def)
qed

lemma ph_like_inv:
  assumes t: "ph_inv crc k extra t" and l: "ph_like t t'"
    and p: "\<And>p. p < 2 ^ k \<Longrightarrow>
      f14_overflow (ph_table t' ! p) = 255 \<or> card (passing crc t p) + e p \<le> unat (f14_overflow (ph_table t' ! p))"
  shows "ph_inv crc k e t'" and "ph_map t' = ph_map t"
proof -
  note u = ph_like_used [OF l]
  have n: "length (ph_table t) = 2 ^ k" by (rule ph_inv_length [OF t])
  have inj: "inj_on (ph_key t') (ph_used t')" using ph_inv_inj [OF t] u(3) by (auto simp: u(1) inj_on_def)
  have ok: "f14_ok (ph_table t' ! p) \<and> \<not> f14_migrating (ph_table t' ! p)" if "p < 2 ^ k" for p
    using ph_inv_chunk [OF t that] ph_inv_still [OF t that] l that n by (auto simp: ph_like_def f14_ok_def InUse_def)
  have tag: "f14_tags (ph_table t' ! fst x) ! snd x = ph_Sign crc (ph_Hash (ph_key t' x))" if "x \<in> ph_used t'" for x
  proof -
    have x: "x \<in> ph_used t" using that by (simp add: u(1))
    then have "f14_tags (ph_table t' ! fst x) = f14_tags (ph_table t ! fst x)" using l by (simp add: ph_like_def ph_used_def)
    with ph_inv_tag [OF t x] u(3) [OF x] show ?thesis by simp
  qed
  show "ph_inv crc k e t'"
    unfolding ph_inv_def using ok tag inj p ph_inv_sized [OF t] ph_inv_card [OF t] l
    by (simp add: u ph_sized_def ph_like_def)
  have e: "(\<exists>x \<in> ph_used t'. ph_entry t' x = y) \<longleftrightarrow> (\<exists>x \<in> ph_used t. ph_entry t x = y)" for y
    using u(2) by (simp add: u(1))
  show "ph_map t' = ph_map t"
  proof
    fix key
    have "ph_map t' key = Some v \<longleftrightarrow> ph_map t key = Some v" for v
      by (simp only: ph_map_Some [OF inj] ph_map_Some [OF ph_inv_inj [OF t]] e)
    then show "ph_map t' key = ph_map t key" by (metis not_None_eq)
  qed
qed

lemma unat_overflow_inc: "c < (255 :: u8) \<Longrightarrow> unat (c + 1) = unat c + 1"
  by (simp add: unat_word_ariths word_less_nat_alt)

lemma overflow_inc:
  assumes "f14_overflow c = 255 \<or> m \<le> unat (f14_overflow c)"
  shows "f14_overflow (IncOverflow c) = 255 \<or> m + 1 \<le> unat (f14_overflow (IncOverflow c))"
proof (cases "f14_overflow c = 255")
  case False
  then have "unat (f14_overflow c) \<noteq> 255" by (simp add: word_facts)
  with unsigned_less [of "f14_overflow c", where 'a = nat] have "unat (f14_overflow c + 1) = unat (f14_overflow c) + 1"
    by (intro unat_overflow_inc) (simp add: word_less_nat_alt)
  with assms False show ?thesis by (auto simp: IncOverflow_def)
qed (simp add: IncOverflow_def)

lemma overflow_dec:
  assumes "f14_overflow c = 255 \<or> m + 1 \<le> unat (f14_overflow c)"
  shows "f14_overflow (DecOverflow c) = 255 \<or> m \<le> unat (f14_overflow (DecOverflow c))"
proof (cases "f14_overflow c = 255")
  case False
  with assms have m: "m + 1 \<le> unat (f14_overflow c)" by simp
  then have "unat (f14_overflow c - 1) = unat (f14_overflow c) - 1" by (intro unat_minus_one) auto
  with m False show ?thesis by (auto simp: DecOverflow_def)
qed (simp add: DecOverflow_def)

lemma ph_inv_inc:
  assumes t: "ph_inv crc k e t" and q: "q < 2 ^ k"
  shows "ph_inv crc k (e(q := e q + 1)) (ph_at q IncOverflow t)" and "ph_map (ph_at q IncOverflow t) = ph_map t"
proof -
  have l: "ph_like t (ph_at q IncOverflow t)" by (intro ph_like_at) simp
  have p: "f14_overflow (ph_table (ph_at q IncOverflow t) ! p) = 255 \<or>
      card (passing crc t p) + (e(q := e q + 1)) p \<le> unat (f14_overflow (ph_table (ph_at q IncOverflow t) ! p))" if "p < 2 ^ k" for p
    using ph_inv_overflow [OF t that] overflow_inc [of "ph_table t ! p"] that ph_inv_length [OF t]
    by (auto simp: ph_at_nth add.assoc)
  show "ph_inv crc k (e(q := e q + 1)) (ph_at q IncOverflow t)" "ph_map (ph_at q IncOverflow t) = ph_map t"
    by (rule ph_like_inv [OF t l p], assumption)+
qed

lemma ph_inv_dec:
  assumes t: "ph_inv crc k (\<lambda>p. e p + (if p \<in> S then 1 else 0)) t"
  shows "ph_inv crc k e (ph_on S DecOverflow t)" and "ph_map (ph_on S DecOverflow t) = ph_map t"
proof -
  have l: "ph_like t (ph_on S DecOverflow t)" by (intro ph_like_on) simp
  have p: "f14_overflow (ph_table (ph_on S DecOverflow t) ! p) = 255 \<or>
      card (passing crc t p) + e p \<le> unat (f14_overflow (ph_table (ph_on S DecOverflow t) ! p))" if "p < 2 ^ k" for p
    using ph_inv_overflow [OF t that] overflow_dec [of "ph_table t ! p" "card (passing crc t p) + e p"] that ph_inv_length [OF t]
    by (cases "p \<in> S") (simp_all add: ph_on_nth)
  show "ph_inv crc k e (ph_on S DecOverflow t)" "ph_map (ph_on S DecOverflow t) = ph_map t"
    using ph_like_inv [OF t l p] by auto
qed


section \<open>Slots\<close>

lemma kMaxSize_pos [simp]: "0 < kMaxSize"
  by (simp add: kMaxSize_def)

lemma f14_Delete_ok:
  assumes c: "f14_ok c" and j: "j < kMaxSize" "InUse j c"
  shows "f14_ok (f14_Delete j c)" and "\<And>i. i < kMaxSize \<Longrightarrow> InUse i (f14_Delete j c) \<longleftrightarrow> i \<noteq> j \<and> InUse i c"
proof -
  show u: "InUse i (f14_Delete j c) \<longleftrightarrow> i \<noteq> j \<and> InUse i c" if "i < kMaxSize" for i
    using c j that by (auto simp: f14_ok_def f14_Delete_def InUse_def nth_list_update)
  have "{i. i < kMaxSize \<and> InUse i (f14_Delete j c)} = {i. i < kMaxSize \<and> InUse i c} - {j}" using u by auto
  then have "card {i. i < kMaxSize \<and> InUse i (f14_Delete j c)} = card {i. i < kMaxSize \<and> InUse i c} - 1"
    using j by (simp add: card_Diff_singleton)
  moreover have "0 < card {i. i < kMaxSize \<and> InUse i c}" using j by (auto simp: card_gt_0_iff)
  then have "unat (f14_size c) \<noteq> 0" using c unfolding f14_ok_def by linarith
  then have "f14_size c \<noteq> 0" by auto
  then have "unat (f14_size c - 1) = unat (f14_size c) - 1" by (rule unat_minus_one)
  moreover have "\<forall>i < kMaxSize. \<not> InUse i (f14_Delete j c) \<longrightarrow> fst (f14_value (f14_Delete j c) ! i) = -1"
  proof (intro allI impI)
    fix i assume i: "i < kMaxSize" "\<not> InUse i (f14_Delete j c)"
    with u [OF i(1)] have "i = j \<or> \<not> InUse i c" by simp
    with c i(1) j(1) show "fst (f14_value (f14_Delete j c) ! i) = -1"
      by (auto simp: f14_ok_def f14_Delete_def nth_list_update)
  qed
  ultimately show "f14_ok (f14_Delete j c)" using c by (simp add: f14_ok_def f14_Delete_def)
qed

lemma f14_Set_ok:
  fixes e :: "u64 \<times> u64"
  assumes c: "f14_ok c" and j: "j < kMaxSize" "\<not> InUse j c" and s: "s \<noteq> 0"
  shows "f14_ok (f14_Set j s e (c\<lparr>f14_size := f14_size c + 1\<rparr>))"
    and "\<And>i. i < kMaxSize \<Longrightarrow> InUse i (f14_Set j s e (c\<lparr>f14_size := f14_size c + 1\<rparr>)) \<longleftrightarrow> i = j \<or> InUse i c"
proof -
  let ?c = "f14_Set j s e (c\<lparr>f14_size := f14_size c + 1\<rparr>)"
  show u: "InUse i ?c \<longleftrightarrow> i = j \<or> InUse i c" if "i < kMaxSize" for i
    using c j s that by (auto simp: f14_ok_def f14_Set_def InUse_def nth_list_update)
  have "{i. i < kMaxSize \<and> InUse i ?c} = insert j {i. i < kMaxSize \<and> InUse i c}" using u j by auto
  then have "card {i. i < kMaxSize \<and> InUse i ?c} = card {i. i < kMaxSize \<and> InUse i c} + 1" using j by simp
  moreover have "card {i. i < kMaxSize \<and> InUse i c} < card {..<kMaxSize}" using j by (intro psubset_card_mono) auto
  then have "unat (f14_size c) < 14" using c by (simp add: f14_ok_def kMaxSize_def)
  then have "unat (f14_size c + 1) = unat (f14_size c) + 1" by (simp add: unat_word_ariths)
  moreover have "\<forall>i < kMaxSize. \<not> InUse i ?c \<longrightarrow> fst (f14_value ?c ! i) = -1"
  proof (intro allI impI)
    fix i assume i: "i < kMaxSize" "\<not> InUse i ?c"
    with u [OF i(1)] have "i \<noteq> j" "\<not> InUse i c" by auto
    with c i(1) show "fst (f14_value ?c ! i) = -1" by (simp add: f14_ok_def f14_Set_def)
  qed
  ultimately show "f14_ok ?c" using c by (simp add: f14_ok_def f14_Set_def)
qed

text \<open>A table that lost one slot.\<close>

lemma slot_removed:
  assumes t: "ph_inv crc k e t" and x: "(c, j) \<in> ph_used t"
  defines "t' \<equiv> (ph_at c (f14_Delete j) t)\<lparr>ph_size := ph_size t - 1\<rparr>"
  shows "ph_inv crc k (\<lambda>p. e p + (if (c, j) \<in> passing crc t p then 1 else 0)) t'"
    and "ph_map t' = (ph_map t)(ph_key t (c, j) := None)" and "ph_used t' = ph_used t - {(c, j)}"
    and "\<And>y. y \<in> ph_used t' \<Longrightarrow> ph_entry t' y = ph_entry t y"
proof -
  have n: "length (ph_table t) = 2 ^ k" by (rule ph_inv_length [OF t])
  have c: "c < 2 ^ k" "j < kMaxSize" "InUse j (ph_table t ! c)" using x n by (auto simp: ph_used_def)
  note d = f14_Delete_ok [OF ph_inv_chunk [OF t c(1)] c(2,3)]
  have tab: "ph_table t' ! p = (if p = c then f14_Delete j (ph_table t ! p) else ph_table t ! p)" if "p < 2 ^ k" for p
    using that n by (simp add: t'_def ph_at_nth)
  have n': "length (ph_table t') = 2 ^ k" using n by (simp add: t'_def)
  show u: "ph_used t' = ph_used t - {(c, j)}"
    using d(2) by (auto simp: ph_used_def n n' tab split: if_splits)
  show entry: "ph_entry t' y = ph_entry t y" if y: "y \<in> ph_used t'" for y
  proof -
    obtain a b where [simp]: "y = (a, b)" by (cases y)
    have "a < 2 ^ k" "(a, b) \<noteq> (c, j)" using y by (auto simp: u) (auto simp: ph_used_def n)
    then show ?thesis by (auto simp: ph_entry_def tab f14_Delete_def nth_list_update)
  qed
  have key: "ph_key t' y = ph_key t y" if "y \<in> ph_used t'" for y using entry [OF that] by (simp add: ph_key_def)
  have inj: "inj_on (ph_key t') (ph_used t')" using ph_inv_inj [OF t] key by (auto simp: u inj_on_def)
  have pass: "passing crc t' p = passing crc t p - {(c, j)}" for p
    using key by (auto simp: passing_def n n' u)
  have count: "card (passing crc t' p) + (if (c, j) \<in> passing crc t p then 1 else 0) = card (passing crc t p)" for p
    using card_Suc_Diff1 [of "passing crc t p" "(c, j)"] by (auto simp: pass)
  have over: "f14_overflow (ph_table t' ! p) = f14_overflow (ph_table t ! p)" if "p < 2 ^ k" for p
    using that by (simp add: tab f14_Delete_def)
  have tag: "f14_tags (ph_table t' ! fst y) ! snd y = ph_Sign crc (ph_Hash (ph_key t' y))" if y: "y \<in> ph_used t'" for y
  proof -
    have y': "y \<in> ph_used t" "y \<noteq> (c, j)" using y by (simp_all add: u)
    moreover from y'(1) have "fst y < 2 ^ k" by (simp add: ph_used_def n)
    ultimately have "f14_tags (ph_table t' ! fst y) ! snd y = f14_tags (ph_table t ! fst y) ! snd y"
      by (cases y) (auto simp: tab f14_Delete_def nth_list_update)
    with ph_inv_tag [OF t y'(1)] key [OF y] show ?thesis by simp
  qed
  have pos: "0 < card (ph_used t)" using x by (auto simp: card_gt_0_iff)
  then have "unat (ph_size t) \<noteq> 0" using ph_inv_card [OF t] by linarith
  then have "ph_size t \<noteq> 0" by auto
  then have "unat (ph_size t - 1) = unat (ph_size t) - 1" by (rule unat_minus_one)
  moreover have "ph_size t' = ph_size t - 1" by (simp add: t'_def)
  ultimately have "unat (ph_size t') = card (ph_used t')" using x ph_inv_card [OF t] by (simp add: u)
  then show "ph_inv crc k (\<lambda>p. e p + (if (c, j) \<in> passing crc t p then 1 else 0)) t'"
    unfolding ph_inv_def
    using ph_inv_sized [OF t] d(1) ph_inv_chunk [OF t] ph_inv_still [OF t] tag inj ph_inv_overflow [OF t] count
    by (auto simp: ph_sized_def n' tab over f14_Delete_def ac_simps) (auto simp: t'_def n)
  show "ph_map t' = (ph_map t)(ph_key t (c, j) := None)"
  proof
    fix key'
    have "ph_map t' key' = Some v \<longleftrightarrow> ((ph_map t)(ph_key t (c, j) := None)) key' = Some v" for v
    proof -
      have "(\<exists>y \<in> ph_used t'. ph_entry t' y = (key', v)) \<longleftrightarrow> key' \<noteq> ph_key t (c, j) \<and> (\<exists>y \<in> ph_used t. ph_entry t y = (key', v))"
        using entry x inj_onD [OF ph_inv_inj [OF t], of _ "(c, j)"] by (auto simp: u ph_key_def) (metis fst_conv)+
      then show ?thesis by (simp add: ph_map_Some [OF inj] ph_map_Some [OF ph_inv_inj [OF t]])
    qed
    then show "ph_map t' key' = ((ph_map t)(ph_key t (c, j) := None)) key'" by (metis not_None_eq)
  qed
qed


text \<open>A table that gained one slot.\<close>

definition ph_put_slot :: "nat \<Rightarrow> nat \<Rightarrow> u8 \<Rightarrow> u64 \<Rightarrow> u64 \<Rightarrow> pethash \<Rightarrow> pethash" where
  "ph_put_slot c j sign key val t = t\<lparr>ph_table := (ph_table t)[c := f14_Set j sign (key, val)
     ((ph_table t ! c)\<lparr>f14_size := f14_size (ph_table t ! c) + 1\<rparr>)], ph_size := ph_size t + 1\<rparr>"

lemma slot_added:
  fixes val :: u64
  assumes t: "ph_inv crc k (\<lambda>p. e p + (if before crc (2 ^ k) key c p then 1 else 0)) t"
    and c: "c < 2 ^ k" "j < kMaxSize" "\<not> InUse j (ph_table t ! c)" and new: "\<forall>x \<in> ph_used t. ph_key t x \<noteq> key"
  defines "t' \<equiv> ph_put_slot c j (ph_Sign crc (ph_Hash key)) key val t"
  shows "ph_inv crc k e t'" and "ph_map t' = (ph_map t)(key \<mapsto> val)" and "ph_used t' = insert (c, j) (ph_used t)"
    and "\<And>y. y \<in> ph_used t' \<Longrightarrow> ph_entry t' y = (if y = (c, j) then (key, val) else ph_entry t y)"
proof -
  let ?s = "ph_Sign crc (ph_Hash key)"
  have n: "length (ph_table t) = 2 ^ k" by (rule ph_inv_length [OF t])
  note d = f14_Set_ok [where e = "(key, val)", OF ph_inv_chunk [OF t c(1)] c(2,3) ph_SignNZ [of crc "ph_Hash key"]]
  have tab: "ph_table t' ! p = (if p = c then f14_Set j ?s (key, val)
      ((ph_table t ! c)\<lparr>f14_size := f14_size (ph_table t ! c) + 1\<rparr>) else ph_table t ! p)" if "p < 2 ^ k" for p
    using that n by (simp add: t'_def ph_put_slot_def nth_list_update)
  have n': "length (ph_table t') = 2 ^ k" using n by (simp add: t'_def ph_put_slot_def)
  have len: "length (f14_value (ph_table t ! c)) = kMaxSize" "length (f14_tags (ph_table t ! c)) = kMaxSize"
    using ph_inv_chunk [OF t c(1)] by (simp_all add: f14_ok_def)
  show u: "ph_used t' = insert (c, j) (ph_used t)"
    using d(2) c by (auto simp: ph_used_def n n' tab split: if_splits)
  have free: "(c, j) \<notin> ph_used t" using c by (simp add: ph_used_def)
  show entry: "ph_entry t' y = (if y = (c, j) then (key, val) else ph_entry t y)" if y: "y \<in> ph_used t'" for y
  proof -
    obtain a b where ab [simp]: "y = (a, b)" by (cases y)
    have "a < 2 ^ k" using y n' unfolding ph_used_def by simp
    then show ?thesis using len c(2) by (auto simp: ph_entry_def tab f14_Set_def nth_list_update)
  qed
  have key': "ph_key t' y = (if y = (c, j) then key else ph_key t y)" if "y \<in> ph_used t'" for y
    using entry [OF that] by (simp add: ph_key_def)
  have inj: "inj_on (ph_key t') (ph_used t')"
  proof (rule inj_onI)
    fix y z assume yz: "y \<in> ph_used t'" "z \<in> ph_used t'" "ph_key t' y = ph_key t' z"
    with new inj_onD [OF ph_inv_inj [OF t], of y z] key' [OF yz(1)] key' [OF yz(2)] show "y = z"
      by (auto simp: u split: if_splits)
  qed
  have pass: "passing crc t' p = (if before crc (2 ^ k) key c p then insert (c, j) (passing crc t p) else passing crc t p)" for p
    using key' free by (auto simp: passing_def n n' u split: if_splits)
  have count: "card (passing crc t' p) = card (passing crc t p) + (if before crc (2 ^ k) key c p then 1 else 0)" for p
    using free by (simp add: pass) (simp add: passing_def)
  have over: "f14_overflow (ph_table t' ! p) = f14_overflow (ph_table t ! p)" if "p < 2 ^ k" for p
    using that by (simp add: tab f14_Set_def)
  have tag: "f14_tags (ph_table t' ! fst y) ! snd y = ph_Sign crc (ph_Hash (ph_key t' y))" if y: "y \<in> ph_used t'" for y
  proof (cases "y = (c, j)")
    case True
    with key' [OF y] len c show ?thesis by (simp add: tab f14_Set_def)
  next
    case False
    with y have y': "y \<in> ph_used t" by (simp add: u)
    then have "fst y < 2 ^ k" by (simp add: ph_used_def n)
    with False have "f14_tags (ph_table t' ! fst y) ! snd y = f14_tags (ph_table t ! fst y) ! snd y"
      by (cases y) (auto simp: tab f14_Set_def nth_list_update)
    with ph_inv_tag [OF t y'] key' [OF y] False show ?thesis by simp
  qed
  have "k \<le> 40" using ph_inv_sized [OF t] by (simp add: ph_sized_def)
  then have "(2 :: nat) ^ k \<le> 2 ^ 40" by (intro power_increasing) auto
  with card_ph_used_le [OF t] ph_inv_card [OF t] have "unat (ph_size t) < 2 ^ 64 - 1" by simp
  then have "unat (ph_size t + 1) = unat (ph_size t) + 1" by (simp add: unat_word_ariths)
  moreover have "ph_size t' = ph_size t + 1" by (simp add: t'_def ph_put_slot_def)
  ultimately have "unat (ph_size t') = card (ph_used t')" using free ph_inv_card [OF t] by (simp add: u)
  then show "ph_inv crc k e t'"
    unfolding ph_inv_def
    using ph_inv_sized [OF t] d(1) ph_inv_chunk [OF t] ph_inv_still [OF t] tag inj ph_inv_overflow [OF t] count
    by (auto simp: ph_sized_def n' tab over f14_Set_def ac_simps) (auto simp: t'_def ph_put_slot_def n)
  show "ph_map t' = (ph_map t)(key \<mapsto> val)"
  proof
    fix key'
    have "ph_map t' key' = Some v \<longleftrightarrow> ((ph_map t)(key \<mapsto> val)) key' = Some v" for v
    proof -
      have "(\<exists>y \<in> ph_used t'. ph_entry t' y = (key', v)) \<longleftrightarrow>
          (if key' = key then v = val else \<exists>y \<in> ph_used t. ph_entry t y = (key', v))"
        using entry new free by (auto simp: u ph_key_def) (metis fst_conv)+
      then show ?thesis by (auto simp: ph_map_Some [OF inj] ph_map_Some [OF ph_inv_inj [OF t]])
    qed
    then show "ph_map t' key' = ((ph_map t)(key \<mapsto> val)) key'" by (metis not_None_eq)
  qed
qed

end
