(* ===== verification/PetInsert.thy ===== *)
theory PetInsert
  imports PetTable
begin

text \<open>\<open>Delete\<close>, \<open>Set\<close> and \<open>Insert\<close> of \<open>PetHash\<close> as updates of a map.\<close>

section \<open>Delete\<close>

lemma ph_on_at: "c \<notin> S \<Longrightarrow> ph_at c g (ph_on S f t) = ph_on S f (ph_at c g t)"
proof -
  assume "c \<notin> S"
  then have "ph_table (ph_at c g (ph_on S f t)) = ph_table (ph_on S f (ph_at c g t))"
    by (intro nth_equalityI) (auto simp: ph_on_nth ph_at_nth)
  then show ?thesis by (simp add: ph_on_def ph_at_def)
qed

lemma before_iff:
  assumes D: "ph_path crc (2 ^ k) key D = c" "D < 2 ^ k"
  shows "before crc (2 ^ k) key c p \<longleftrightarrow> p \<in> ph_path crc (2 ^ k) key ` {0..<D}"
proof -
  have u: "d < 2 ^ k \<and> ph_path crc (2 ^ k) key d = c \<longleftrightarrow> d = D" for d
    using ph_path_inj [of crc k key d D] D by auto
  have "before crc (2 ^ k) key c p \<longleftrightarrow> (\<exists>d. (d < 2 ^ k \<and> ph_path crc (2 ^ k) key d = c) \<and> (\<exists>i < d. ph_path crc (2 ^ k) key i = p))"
    unfolding before_def by blast
  also have "\<dots> \<longleftrightarrow> (\<exists>i < D. ph_path crc (2 ^ k) key i = p)" unfolding u by blast
  also have "\<dots> \<longleftrightarrow> p \<in> ph_path crc (2 ^ k) key ` {0..<D}" by auto
  finally show ?thesis .
qed

lemma ph_Delete_present:
  assumes t: "ph_inv crc k e t" and x: "(c, j) \<in> ph_used t" "ph_key t (c, j) = key"
  obtains t' where "ph_Delete crc key t = Inr (t', True)" "ph_inv crc k e t'" "ph_map t' = (ph_map t)(key := None)"
    "ph_used t' = ph_used t - {(c, j)}" "\<And>y. y \<in> ph_used t' \<Longrightarrow> ph_entry t' y = ph_entry t y"
proof -
  have "c < 2 ^ k" using x ph_inv_length [OF t] by (simp add: ph_used_def)
  from ph_path_reaches [OF this, of crc key] obtain D where D: "ph_path crc (2 ^ k) key D = c" "D < 2 ^ k" by auto
  let ?S = "ph_path crc (2 ^ k) key ` {0..<D}"
  have cS: "c \<notin> ?S"
  proof
    assume "c \<in> ?S"
    then obtain i where "i < D" "ph_path crc (2 ^ k) key i = c" by auto
    with ph_path_inj [of crc k key i D] D show False by simp
  qed
  let ?t = "(ph_at c (f14_Delete j) t)\<lparr>ph_size := ph_size t - 1\<rparr>"
  note r = slot_removed [OF t x(1)]
  have "(\<lambda>p. e p + (if (c, j) \<in> passing crc t p then 1 else 0)) = (\<lambda>p. e p + (if p \<in> ?S then 1 else 0))"
    using x before_iff [OF D] ph_inv_length [OF t] by (auto simp: passing_def fun_eq_iff)
  with r(1) have i: "ph_inv crc k (\<lambda>p. e p + (if p \<in> ?S then 1 else 0)) ?t" by simp
  have u: "ph_used (ph_on ?S DecOverflow ?t) = ph_used ?t" "\<And>y. y \<in> ph_used ?t \<Longrightarrow> ph_entry (ph_on ?S DecOverflow ?t) y = ph_entry ?t y"
    using ph_like_used [OF ph_like_on [of DecOverflow ?t ?S]] by simp_all
  have "on_way DecOverflow (2 ^ k) c (ph_step crc key) (ph_home t (ph_Hash key)) t = Inr (ph_on ?S DecOverflow t)"
    using on_way_on [where g = DecOverflow, OF D ph_inv_sized [OF t], of 0 "2 ^ k"] D(2) by (simp add: ph_home_path [OF ph_inv_sized [OF t], of key crc])
  then have "ph_Delete crc key t = Inr ((ph_at c (f14_Delete j) (ph_on ?S DecOverflow t))\<lparr>ph_size := ph_size t - 1\<rparr>, True)"
    by (simp add: ph_Delete_def GetInternal_present [OF t x] unat_chunk_num [OF ph_inv_sized [OF t]] ph_step_def)
  moreover have "(ph_at c (f14_Delete j) (ph_on ?S DecOverflow t))\<lparr>ph_size := ph_size t - 1\<rparr> = ph_on ?S DecOverflow ?t"
    unfolding ph_on_at [OF cS] by (simp add: ph_on_def ph_at_def)
  ultimately have "ph_Delete crc key t = Inr (ph_on ?S DecOverflow ?t, True)" by simp
  with that [of "ph_on ?S DecOverflow ?t"] ph_inv_dec [OF i] r u x(2) show thesis by simp
qed

lemma ph_Delete_absent:
  assumes t: "ph_inv crc k e t" and x: "\<forall>x \<in> ph_used t. ph_key t x \<noteq> key"
  shows "ph_Delete crc key t = Inr (t, True)"
  by (simp add: ph_Delete_def GetInternal_absent [OF t x])

section \<open>Overwriting a value\<close>

lemma update_entry_inv:
  assumes t: "ph_inv crc k e t" and x: "x \<in> ph_used t" "ph_key t x = key"
  shows "ph_inv crc k e (update_entry x val t)" and "ph_map (update_entry x val t) = (ph_map t)(key \<mapsto> val)"
    and "ph_used (update_entry x val t) = ph_used t"
proof -
  let ?t = "update_entry x val t"
  have n: "length (ph_table t) = 2 ^ k" by (rule ph_inv_length [OF t])
  have x': "fst x < 2 ^ k" "snd x < kMaxSize" using x n by (auto simp: ph_used_def)
  have len: "length (f14_value (ph_table t ! fst x)) = kMaxSize" using ph_inv_chunk [OF t x'(1)] by (simp add: f14_ok_def)
  have tab: "ph_table ?t ! p = (if p = fst x then (ph_table t ! p)\<lparr>f14_value := (f14_value (ph_table t ! p))[snd x :=
      (fst (f14_value (ph_table t ! p) ! snd x), val)]\<rparr> else ph_table t ! p)" if "p < 2 ^ k" for p
    using that n by (simp add: update_entry_def ph_at_nth)
  have n': "length (ph_table ?t) = 2 ^ k" using n by (simp add: update_entry_def)
  show u: "ph_used ?t = ph_used t" by (auto simp: ph_used_def n n' tab InUse_def split: if_splits)
  have entry: "ph_entry ?t y = (if y = x then (key, val) else ph_entry t y)" if y: "y \<in> ph_used t" for y
  proof -
    have "fst y < 2 ^ k" using y by (simp add: ph_used_def n)
    from tab [OF this] show ?thesis using x len x'(2)
      by (cases x; cases y) (auto simp: ph_entry_def nth_list_update ph_key_def)
  qed
  have key': "ph_key ?t y = ph_key t y" if "y \<in> ph_used t" for y using entry [OF that] x by (auto simp: ph_key_def)
  have inj: "inj_on (ph_key ?t) (ph_used ?t)" using ph_inv_inj [OF t] key' by (auto simp: u inj_on_def)
  have "passing crc ?t p = passing crc t p" for p using key' by (auto simp: passing_def u n n')
  moreover have "f14_tags (ph_table ?t ! fst y) = f14_tags (ph_table t ! fst y)" if "y \<in> ph_used t" for y
    using that by (auto simp: tab ph_used_def n)
  moreover have "f14_ok (ph_table ?t ! p)" if "p < 2 ^ k" for p
    using ph_inv_chunk [OF t that] tab [OF that] x(1)
    by (cases x) (auto simp: f14_ok_def InUse_def nth_list_update ph_used_def)
  moreover have "f14_overflow (ph_table ?t ! p) = f14_overflow (ph_table t ! p)"
    "f14_migrating (ph_table ?t ! p) = f14_migrating (ph_table t ! p)" if "p < 2 ^ k" for p
    using that by (simp_all add: tab)
  ultimately show "ph_inv crc k e ?t"
    unfolding ph_inv_def using ph_inv_sized [OF t] ph_inv_still [OF t] ph_inv_tag [OF t] inj ph_inv_overflow [OF t] ph_inv_card [OF t] key'
    by (auto simp: u ph_sized_def n') (auto simp: update_entry_def n)
  show "ph_map ?t = (ph_map t)(key \<mapsto> val)"
  proof
    fix key'
    have "ph_map ?t key' = Some v \<longleftrightarrow> ((ph_map t)(key \<mapsto> val)) key' = Some v" for v
    proof -
      have "(\<exists>y \<in> ph_used ?t. ph_entry ?t y = (key', v)) \<longleftrightarrow>
          (if key' = key then v = val else \<exists>y \<in> ph_used t. ph_entry t y = (key', v))"
      proof (cases "key' = key")
        case True
        have "y = x" if "y \<in> ph_used t" "ph_entry ?t y = (key, v)" for y
        proof -
          have "ph_key ?t y = key" unfolding ph_key_def that(2) by simp
          with key' [OF that(1)] x(2) have "ph_key t y = ph_key t x" by simp
          from inj_onD [OF ph_inv_inj [OF t] this that(1) x(1)] show ?thesis .
        qed
        then have "(\<exists>y \<in> ph_used t. ph_entry ?t y = (key, v)) \<longleftrightarrow> ph_entry ?t x = (key, v)" using x(1) by blast
        with entry [OF x(1)] True show ?thesis by (simp add: u) blast
      next
        case False
        have "ph_entry ?t y = (key', v) \<longleftrightarrow> ph_entry t y = (key', v)" if "y \<in> ph_used t" for y
          using entry [OF that] x(2) False by (auto simp: ph_key_def)
        with False show ?thesis by (auto simp: u)
      qed
      then show ?thesis by (auto simp: ph_map_Some [OF inj] ph_map_Some [OF ph_inv_inj [OF t]])
    qed
    then show "ph_map ?t key' = ((ph_map t)(key \<mapsto> val)) key'" by (metis not_None_eq)
  qed
qed


section \<open>Expiry\<close>

text \<open>\<open>t'\<close> is \<open>t\<close> without the keys \<open>W\<close>, all of which were in chunk \<open>pos\<close>.\<close>

definition ph_shrunk :: "u64 set \<Rightarrow> nat \<Rightarrow> pethash \<Rightarrow> pethash \<Rightarrow> bool" where
  "ph_shrunk W pos t t' \<longleftrightarrow> W \<subseteq> dom (ph_map t) \<and> ph_map t' = ph_map t |` (- W) \<and> ph_used t' \<subseteq> ph_used t \<and>
     (\<forall>x \<in> ph_used t. fst x \<noteq> pos \<longrightarrow> x \<in> ph_used t') \<and> (\<forall>x \<in> ph_used t'. ph_entry t' x = ph_entry t x)"

lemma ph_shrunk_refl: "ph_shrunk {} pos t t"
  by (simp add: ph_shrunk_def restrict_map_def)

lemma ph_shrunk_trans: "ph_shrunk W pos t t1 \<Longrightarrow> ph_shrunk W' pos t1 t2 \<Longrightarrow> ph_shrunk (W \<union> W') pos t t2"
  unfolding ph_shrunk_def by (auto simp: Int_commute)

lemma ph_shrunk_delete:
  assumes "x \<in> ph_used t" "ph_used t' = ph_used t - {x}" "ph_map t' = (ph_map t)(ph_key t x := None)"
    "\<And>y. y \<in> ph_used t' \<Longrightarrow> ph_entry t' y = ph_entry t y" "inj_on (ph_key t) (ph_used t)"
  shows "ph_shrunk {ph_key t x} (fst x) t t'"
proof -
  have "ph_map t (ph_key t x) \<noteq> None" using assms(1) by (subst ph_map_None [OF assms(5)]) auto
  then show ?thesis using assms by (auto simp: ph_shrunk_def restrict_map_def fun_eq_iff)
qed

definition expired :: "(u64 \<Rightarrow> u64 \<Rightarrow> bool) option \<Rightarrow> pethash \<Rightarrow> u64 set \<Rightarrow> bool" where
  "expired check t W \<longleftrightarrow> (\<forall>key \<in> W. \<exists>f v. check = Some f \<and> ph_map t key = Some v \<and> \<not> f key v)"

lemma expired_empty [simp]: "expired check t {}"
  by (simp add: expired_def)

lemma expired_Un: "expired check t W \<Longrightarrow> expired check t1 W' \<Longrightarrow> ph_map t1 \<subseteq>\<^sub>m ph_map t \<Longrightarrow> expired check t (W \<union> W')"
  unfolding expired_def map_le_def by (metis Un_iff domI)

lemma ph_shrunk_le: "ph_shrunk W pos t t' \<Longrightarrow> ph_map t' \<subseteq>\<^sub>m ph_map t"
  by (auto simp: ph_shrunk_def map_le_def restrict_map_def)

lemma ph_map_entry:
  assumes "ph_inv crc k e t" "x \<in> ph_used t" shows "ph_map t (fst (ph_entry t x)) = Some (snd (ph_entry t x))"
  using assms(2) by (subst ph_map_Some [OF ph_inv_inj [OF assms(1)]]) auto

lemma expire_slots_inv:
  assumes "pos < 2 ^ k"
  shows "ph_inv crc k e t \<Longrightarrow> set js \<subseteq> {..<kMaxSize} \<Longrightarrow>
    \<exists>t' W. expire_slots crc f pos js t = Inr t' \<and> ph_inv crc k e t' \<and> ph_shrunk W pos t t' \<and> expired (Some f) t W"
proof (induction js arbitrary: t)
  case Nil
  then show ?case using ph_shrunk_refl expired_empty by fastforce
next
  case (Cons j js)
  note t = Cons.prems(1)
  show ?case
  proof (cases "InUse j (ph_table t ! pos) \<and> \<not> f (fst (f14_value (ph_table t ! pos) ! j)) (snd (f14_value (ph_table t ! pos) ! j))")
    case True
    then have x: "(pos, j) \<in> ph_used t" using Cons.prems assms ph_inv_length [OF t] by (simp add: ph_used_def)
    obtain t1 where t1: "ph_Delete crc (ph_key t (pos, j)) t = Inr (t1, True)" "ph_inv crc k e t1"
      "ph_map t1 = (ph_map t)(ph_key t (pos, j) := None)" "ph_used t1 = ph_used t - {(pos, j)}"
      "\<And>y. y \<in> ph_used t1 \<Longrightarrow> ph_entry t1 y = ph_entry t y"
      using ph_Delete_present [OF t x refl] by metis
    have s: "ph_shrunk {ph_key t (pos, j)} pos t t1"
      using ph_shrunk_delete [OF x t1(4,3,5) ph_inv_inj [OF t]] by simp
    have w: "expired (Some f) t {ph_key t (pos, j)}"
      using True ph_map_entry [OF t x] by (simp add: expired_def ph_key_def ph_entry_def)
    from Cons.IH [OF t1(2)] Cons.prems obtain t2 W where t2: "expire_slots crc f pos js t1 = Inr t2" "ph_inv crc k e t2"
      "ph_shrunk W pos t1 t2" "expired (Some f) t1 W" by auto
    have "expire_slots crc f pos (j # js) t = Inr t2"
      using True t1(1) t2(1) by (simp add: Let_def ph_key_def ph_entry_def)
    with t2(2) ph_shrunk_trans [OF s t2(3)] expired_Un [OF w t2(4) ph_shrunk_le [OF s]] show ?thesis by blast
  next
    case False
    with Cons show ?thesis by (auto simp: Let_def)
  qed
qed

lemma expire_chunk_inv:
  assumes t: "ph_inv crc k e t" and pos: "pos < 2 ^ k"
  obtains t' W where "expire_chunk crc check pos t = Inr t'" "ph_inv crc k e t'" "ph_shrunk W pos t t'" "expired check t W"
proof (cases check)
  case None
  then have "expire_chunk crc check pos t = Inr t" by (simp add: expire_chunk_def)
  from that [OF this t ph_shrunk_refl expired_empty] show thesis .
next
  case (Some f)
  show thesis
  proof (cases "kMaxSize - 2 \<le> unat (f14_size (ph_table t ! pos))")
    case True
    have "set [0..<kMaxSize] \<subseteq> {..<kMaxSize}" by auto
    from expire_slots_inv [OF pos t this, of f] obtain t' W where
      "expire_slots crc f pos [0..<kMaxSize] t = Inr t'" "ph_inv crc k e t'" "ph_shrunk W pos t t'" "expired (Some f) t W" by blast
    with True Some that [of t' W] show thesis by (simp add: expire_chunk_def)
  next
    case False
    then have "expire_chunk crc check pos t = Inr t" by (simp add: expire_chunk_def Some)
    from that [OF this t ph_shrunk_refl expired_empty] show thesis .
  qed
qed


section \<open>Insert\<close>

lemma f14_Insert_ok:
  assumes c: "f14_ok c" and room: "unat (f14_size c) < kMaxSize"
  obtains j where "j < kMaxSize" "\<not> InUse j c"
    "f14_Insert key val s c = Inr (f14_Set j s (key, val) (c\<lparr>f14_size := f14_size c + 1\<rparr>), j)"
proof -
  from room f14_full_iff [OF c] obtain j where j: "j < kMaxSize" "\<not> InUse j c" by auto
  then have "j \<in> set (MatchTag 0 c)" by (simp add: MatchTag_def InUse_def)
  then obtain i js where js: "MatchTag 0 c = i # js" by (cases "MatchTag 0 c") auto
  then have "i \<in> set (MatchTag 0 c)" by simp
  then have "i < kMaxSize" "\<not> InUse i c" by (auto simp: MatchTag_def InUse_def)
  moreover have "f14_Insert key val s c = Inr (f14_Set i s (key, val) (c\<lparr>f14_size := f14_size c + 1\<rparr>), i)"
    using room js by (simp add: f14_Insert_def)
  ultimately show thesis by (rule that)
qed

text \<open>What \<open>Insert\<close> leaves when it returns.\<close>

definition ph_inserted ::
  "(u64 \<Rightarrow> u64) \<Rightarrow> nat \<Rightarrow> u64 \<Rightarrow> u64 \<Rightarrow> u64 set \<Rightarrow> pethash \<Rightarrow> pethash \<times> nat \<times> nat \<Rightarrow> bool" where
  "ph_inserted crc k key val W t r \<longleftrightarrow> ph_inv crc k (\<lambda>p. 0) (fst r) \<and> snd r \<in> ph_used (fst r) \<and>
     ph_entry (fst r) (snd r) = (key, val) \<and> ph_map (fst r) = (ph_map t |` (- W))(key \<mapsto> val)"

definition credit :: "(u64 \<Rightarrow> u64) \<Rightarrow> nat \<Rightarrow> u64 \<Rightarrow> nat \<Rightarrow> nat \<Rightarrow> nat" where
  "credit crc k key d p = (if p \<in> ph_path crc (2 ^ k) key ` {0..<d} then 1 else 0)"

lemma absent_shrunk: "\<forall>x \<in> ph_used t. ph_key t x \<noteq> key \<Longrightarrow> ph_shrunk W pos t t' \<Longrightarrow> \<forall>x \<in> ph_used t'. ph_key t' x \<noteq> key"
  by (auto simp: ph_shrunk_def ph_key_def)

lemma place_here:
  assumes t: "ph_inv crc k (credit crc k key d) t" and new: "\<forall>x \<in> ph_used t. ph_key t x \<noteq> key" and d: "d < 2 ^ k"
    and room: "unat (f14_size (ph_table t ! ph_path crc (2 ^ k) key d)) < kMaxSize"
  obtains r where "bind_result (f14_Insert key val (ph_Sign crc (ph_Hash key)) (ph_table t ! ph_path crc (2 ^ k) key d)) (\<lambda>r.
      Inr (t\<lparr>ph_table := (ph_table t)[ph_path crc (2 ^ k) key d := fst r], ph_size := ph_size t + 1\<rparr>,
        ph_path crc (2 ^ k) key d, snd r)) = Inr r" "ph_inserted crc k key val {} t r"
proof -
  let ?c = "ph_path crc (2 ^ k) key d" and ?s = "ph_Sign crc (ph_Hash key)"
  obtain j where j: "j < kMaxSize" "\<not> InUse j (ph_table t ! ?c)" "f14_Insert key val ?s (ph_table t ! ?c)
      = Inr (f14_Set j ?s (key, val) ((ph_table t ! ?c)\<lparr>f14_size := f14_size (ph_table t ! ?c) + 1\<rparr>), j)"
    using f14_Insert_ok [OF ph_inv_chunk [OF t ph_path_lt] room] by metis
  have "credit crc k key d = (\<lambda>p. 0 + (if before crc (2 ^ k) key ?c p then 1 else 0))"
    using d by (simp add: credit_def before_iff fun_eq_iff)
  with t have "ph_inv crc k (\<lambda>p. 0 + (if before crc (2 ^ k) key ?c p then 1 else 0)) t" by simp
  note a = slot_added [where val = val, OF this ph_path_lt j(1,2) new]
  have "ph_entry (ph_put_slot ?c j ?s key val t) (?c, j) = (key, val)" using a(4) [of "(?c, j)"] a(3) by simp
  with a have "ph_inserted crc k key val {} t (ph_put_slot ?c j ?s key val t, ?c, j)"
    by (simp add: ph_inserted_def restrict_map_def)
  with that [of "(ph_put_slot ?c j ?s key val t, ?c, j)"] j(3) show thesis by (simp add: ph_put_slot_def)
qed

lemma ph_inserted_shrunk:
  assumes "ph_shrunk W pos t t1" "ph_inserted crc k key val W' t1 r"
  shows "ph_inserted crc k key val (W \<union> W') t r"
  using assms by (auto simp: ph_inserted_def ph_shrunk_def Int_commute)

lemma insert_room:
  assumes t: "ph_inv crc k (credit crc k key d) t" and new: "\<forall>x \<in> ph_used t. ph_key t x \<noteq> key" and d: "d < 2 ^ k"
    and room: "unat (f14_size (ph_table t ! ph_path crc (2 ^ k) key d)) < kMaxSize"
  obtains r W where "insert_loop crc check force key val (ph_Sign crc (ph_Hash key)) (Suc f) i (ph_path crc (2 ^ k) key d) t = Inr r"
    "ph_inserted crc k key val W t r" "expired check t W"
proof -
  let ?c = "ph_path crc (2 ^ k) key d" and ?s = "ph_Sign crc (ph_Hash key)"
  obtain t1 W where t1: "expire_chunk crc check ?c t = Inr t1" "ph_inv crc k (credit crc k key d) t1"
    "ph_shrunk W ?c t t1" "expired check t W"
    using expire_chunk_inv [OF t ph_path_lt] by metis
  note new1 = absent_shrunk [OF new t1(3)]
  have "{j. j < kMaxSize \<and> InUse j (ph_table t1 ! ?c)} \<subseteq> {j. j < kMaxSize \<and> InUse j (ph_table t ! ?c)}"
  proof
    fix j assume "j \<in> {j. j < kMaxSize \<and> InUse j (ph_table t1 ! ?c)}"
    then have j: "j < kMaxSize" "(?c, j) \<in> ph_used t1" using ph_inv_length [OF t1(2)] by (auto simp: ph_used_def)
    then have "(?c, j) \<in> ph_used t" using t1(3) by (auto simp: ph_shrunk_def)
    with j(1) show "j \<in> {j. j < kMaxSize \<and> InUse j (ph_table t ! ?c)}" by (simp add: ph_used_def)
  qed
  then have "card {j. j < kMaxSize \<and> InUse j (ph_table t1 ! ?c)} \<le> card {j. j < kMaxSize \<and> InUse j (ph_table t ! ?c)}"
    by (intro card_mono) auto
  with room ph_inv_chunk [OF t, of ?c] ph_inv_chunk [OF t1(2), of ?c]
  have room1: "unat (f14_size (ph_table t1 ! ?c)) < kMaxSize" by (simp add: f14_ok_def)
  obtain r where r: "bind_result (f14_Insert key val ?s (ph_table t1 ! ?c)) (\<lambda>r.
      Inr (t1\<lparr>ph_table := (ph_table t1)[?c := fst r], ph_size := ph_size t1 + 1\<rparr>, ?c, snd r)) = Inr r"
    "ph_inserted crc k key val {} t1 r"
    by (rule place_here [OF t1(2) new1 d room1])
  have none: "f14_Find key ?s (ph_table t1 ! ?c) = None" using new1 find_here_None [OF t1(2) ph_path_lt] by blast
  have "insert_loop crc check force key val ?s (Suc f) i ?c t = Inr r"
    by (simp only: insert_loop.simps t1(1) bind_result_simps Let_def none option.case room1 if_True r(1))
  with that [of r W] ph_inserted_shrunk [OF t1(3) r(2)] t1(4) show thesis by simp
qed


lemma credit_step: "d < 2 ^ k \<Longrightarrow> (credit crc k key d)(ph_path crc (2 ^ k) key d := credit crc k key d (ph_path crc (2 ^ k) key d) + 1)
    = credit crc k key (Suc d)"
  using ph_path_inj [of crc k key d] by (fastforce simp: credit_def fun_eq_iff less_Suc_eq image_iff)

lemma ph_Full_shrunk:
  assumes t: "ph_inv crc k e t" and t1: "ph_inv crc k e1 t1" and s: "ph_shrunk W pos t t1" and f: "ph_Full t1"
  shows "ph_Full t"
proof -
  have "card (ph_used t1) \<le> card (ph_used t)" using s by (intro card_mono) (auto simp: ph_shrunk_def)
  with f show ?thesis by (simp add: ph_Full_iff [OF t] ph_Full_iff [OF t1])
qed

definition ph_fails :: "bool \<Rightarrow> nat \<Rightarrow> pethash \<Rightarrow> bool" where
  "ph_fails force k t \<longleftrightarrow> ph_Full t \<and> (\<not> force \<or> k = 0)"

lemma insert_loop_ok:
  "ph_inv crc k (credit crc k key d) t \<Longrightarrow> \<forall>x \<in> ph_used t. ph_key t x \<noteq> key \<Longrightarrow> f + d = 2 ^ k \<Longrightarrow>
   (\<And>b. b < d \<Longrightarrow> unat (f14_size (ph_table t ! ph_path crc (2 ^ k) key b)) = kMaxSize) \<Longrightarrow> 0 < d \<longrightarrow> \<not> ph_Full t \<Longrightarrow>
   (insert_loop crc check force key val (ph_Sign crc (ph_Hash key)) f i (ph_path crc (2 ^ k) key d) t = Inl Log_fatal \<and> ph_fails force k t) \<or>
   (\<exists>r W V. insert_loop crc check force key val (ph_Sign crc (ph_Hash key)) f i (ph_path crc (2 ^ k) key d) t = Inr r \<and>
     ph_inserted crc k key val (W \<union> V) t r \<and> expired check t W \<and> card V \<le> 1 \<and> finite V \<and> (V \<noteq> {} \<longrightarrow> ph_Full t \<and> force))"
proof (induction f arbitrary: d i t)
  case 0
  note t = "0.prems"(1)
  have "card (ph_used t) = 14 * 2 ^ k"
  proof (rule card_ph_used_full [OF t])
    fix p :: nat assume "p < 2 ^ k"
    from ph_path_reaches [OF this, of crc key] "0.prems"(3,4) show "unat (f14_size (ph_table t ! p)) = kMaxSize" by auto
  qed
  then have "ph_Full t" by (simp add: ph_Full_iff [OF t])
  with "0.prems"(3,5) show ?case by simp
next
  case (Suc f)
  note t = Suc.prems(1) and new = Suc.prems(2)
  let ?c = "ph_path crc (2 ^ k) key d" and ?s = "ph_Sign crc (ph_Hash key)"
  have d: "d < 2 ^ k" using Suc.prems(3) by simp
  obtain t1 W where t1: "expire_chunk crc check ?c t = Inr t1" "ph_inv crc k (credit crc k key d) t1"
    "ph_shrunk W ?c t t1" "expired check t W"
    using expire_chunk_inv [OF t ph_path_lt] by metis
  note new1 = absent_shrunk [OF new t1(3)]
  have none: "f14_Find key ?s (ph_table t1 ! ?c) = None" using new1 find_here_None [OF t1(2) ph_path_lt] by blast
  show ?case
  proof (cases "unat (f14_size (ph_table t1 ! ?c)) < kMaxSize")
    case True
    obtain r where r: "bind_result (f14_Insert key val ?s (ph_table t1 ! ?c)) (\<lambda>r.
        Inr (t1\<lparr>ph_table := (ph_table t1)[?c := fst r], ph_size := ph_size t1 + 1\<rparr>, ?c, snd r)) = Inr r"
      "ph_inserted crc k key val {} t1 r"
      by (rule place_here [OF t1(2) new1 d True])
    have e: "insert_loop crc check force key val ?s (Suc f) i ?c t = Inr r"
      by (simp only: insert_loop.simps t1(1) bind_result_simps Let_def none option.case True if_True r(1))
    have "ph_inserted crc k key val (W \<union> {}) t r" using ph_inserted_shrunk [OF t1(3) r(2)] by simp
    with e t1(4) show ?thesis by (intro disjI2 exI [of _ r] exI [of _ W] exI [of _ "{}"]) simp
  next
    case False
    with f14_size_le [OF ph_inv_chunk [OF t1(2) ph_path_lt [of crc k key d]]]
    have full: "unat (f14_size (ph_table t1 ! ?c)) = kMaxSize" by simp
    show ?thesis
    proof (cases "ph_Full t1")
      case Full: True
      then have Full': "ph_Full t" by (rule ph_Full_shrunk [OF t t1(2,3)])
      with Suc.prems(5) have d0: "d = 0" by simp
      show ?thesis
      proof (cases "force")
        case force: False
        have "insert_loop crc check force key val ?s (Suc f) i ?c t = Inl Log_fatal"
          by (simp only: insert_loop.simps t1(1) bind_result_simps Let_def none option.case False if_False Full if_True force not_False_eq_True)
        with Full' force show ?thesis by (simp add: ph_fails_def)
      next
        case force: True
        define j where "j = (unat ?s + i) mod kMaxSize"
        have j: "j < kMaxSize" by (simp add: j_def)
        have "(?c, j) \<in> ph_used t1"
          using full j ph_inv_length [OF t1(2)] ph_inv_chunk [OF t1(2), of ?c] by (simp add: ph_used_def f14_full_iff)
        note x = this
        obtain t2 where t2: "ph_Delete crc (ph_key t1 (?c, j)) t1 = Inr (t2, True)" "ph_inv crc k (credit crc k key d) t2"
          "ph_map t2 = (ph_map t1)(ph_key t1 (?c, j) := None)" "ph_used t2 = ph_used t1 - {(?c, j)}"
          "\<And>y. y \<in> ph_used t2 \<Longrightarrow> ph_entry t2 y = ph_entry t1 y"
          using ph_Delete_present [OF t1(2) x refl] by metis
        have s2: "ph_shrunk {ph_key t1 (?c, j)} ?c t1 t2"
          using ph_shrunk_delete [OF x t2(4,3,5) ph_inv_inj [OF t1(2)]] by simp
        have k: "ph_key t1 (?c, j) = fst (f14_value (ph_table t1 ! ?c) ! ((unat ?s + i) mod kMaxSize))"
          by (simp add: ph_key_def ph_entry_def j_def)
        have e: "insert_loop crc check force key val ?s (Suc f) i ?c t = insert_loop crc check force key val ?s f (Suc i) ?c t2"
          using t2(1) unfolding k
          by (simp only: insert_loop.simps t1(1) bind_result_simps Let_def none option.case False if_False Full if_True force not_True_eq_False fst_conv)
        show ?thesis
        proof (cases f)
          case 0
          with Suc.prems(3) d0 have "k = 0" by (cases k) auto
          with e 0 Full' show ?thesis by (simp add: ph_fails_def)
        next
          case (Suc f')
          have "(?c, j) \<notin> ph_used t2" by (simp add: t2(4))
          then have "\<not> InUse j (ph_table t2 ! ?c)" using j ph_inv_length [OF t2(2)] by (simp add: ph_used_def)
          with f14_full_iff [OF ph_inv_chunk [OF t2(2) ph_path_lt [of crc k key d]]]
            f14_size_le [OF ph_inv_chunk [OF t2(2) ph_path_lt [of crc k key d]]] j
          have room: "unat (f14_size (ph_table t2 ! ?c)) < kMaxSize" by (metis order_le_less)
          obtain r W' where r: "insert_loop crc check force key val ?s (Suc f') (Suc i) ?c t2 = Inr r"
            "ph_inserted crc k key val W' t2 r" "expired check t2 W'"
            by (rule insert_room [OF t2(2) absent_shrunk [OF new1 s2] d room])
          have le: "ph_map t1 \<subseteq>\<^sub>m ph_map t" "ph_map t2 \<subseteq>\<^sub>m ph_map t1" using ph_shrunk_le t1(3) s2 by auto
          then have "expired check t (W \<union> W')"
            using expired_Un [OF t1(4) r(3)] map_le_trans by blast
          moreover have "ph_inserted crc k key val ((W \<union> W') \<union> {ph_key t1 (?c, j)}) t r"
            using ph_inserted_shrunk [OF t1(3) ph_inserted_shrunk [OF s2 r(2)]] by (simp add: Un_ac)
          ultimately show ?thesis using e r(1) Suc Full' force
            by (intro disjI2 exI [of _ r] exI [of _ "W \<union> W'"] exI [of _ "{ph_key t1 (?c, j)}"]) simp
        qed
      qed
    next
      case Full: False
      let ?t = "ph_at ?c IncOverflow t1"
      have e: "insert_loop crc check force key val ?s (Suc f) i ?c t = insert_loop crc check force key val ?s f (Suc i)
          (ph_path crc (2 ^ k) key (Suc d)) ?t"
        using ph_next_path [OF ph_inv_sized [OF t1(2)], of crc key d]
        by (simp only: insert_loop.simps t1(1) bind_result_simps Let_def none option.case False if_False Full ph_step_def)
      note i = ph_inv_inc [OF t1(2) ph_path_lt [of crc k key d]]
      from i(1) have inv: "ph_inv crc k (credit crc k key (Suc d)) ?t" by (simp only: credit_step [OF d])
      have l: "ph_like t1 ?t" by (intro ph_like_at) simp
      note u = ph_like_used [OF l]
      have size: "f14_size (ph_table ?t ! p) = f14_size (ph_table t1 ! p)" if "p < 2 ^ k" for p
        using l that ph_inv_length [OF t1(2)] by (simp add: ph_like_def)
      have old: "unat (f14_size (ph_table t1 ! ph_path crc (2 ^ k) key b)) = kMaxSize" if b: "b < d" for b
      proof -
        let ?b = "ph_path crc (2 ^ k) key b"
        have ne: "?b \<noteq> ?c" using ph_path_inj [of crc k key b d] b d by auto
        have "InUse j (ph_table t1 ! ?b)" if j: "j < kMaxSize" for j
        proof -
          have "(?b, j) \<in> ph_used t" using Suc.prems(4) [OF b] j ph_inv_length [OF t] ph_inv_chunk [OF t, of ?b]
            by (simp add: ph_used_def f14_full_iff)
          then have "(?b, j) \<in> ph_used t1" using t1(3) ne by (simp add: ph_shrunk_def)
          then show ?thesis by (simp add: ph_used_def)
        qed
        then show ?thesis using f14_full_iff [OF ph_inv_chunk [OF t1(2) ph_path_lt [of crc k key b]]] by simp
      qed
      have "\<not> ph_Full ?t" using Full by (simp add: ph_Full_def)
      moreover have "\<forall>x \<in> ph_used ?t. ph_key ?t x \<noteq> key" using new1 u by simp
      moreover have "unat (f14_size (ph_table ?t ! ph_path crc (2 ^ k) key b)) = kMaxSize" if "b < Suc d" for b
        using that old full size by (auto simp: less_Suc_eq)
      moreover have "f + Suc d = 2 ^ k" using Suc.prems(3) by simp
      ultimately have IH: "(insert_loop crc check force key val ?s f (Suc i) (ph_path crc (2 ^ k) key (Suc d)) ?t = Inl Log_fatal \<and> ph_fails force k ?t) \<or>
          (\<exists>r W V. insert_loop crc check force key val ?s f (Suc i) (ph_path crc (2 ^ k) key (Suc d)) ?t = Inr r \<and>
             ph_inserted crc k key val (W \<union> V) ?t r \<and> expired check ?t W \<and> card V \<le> 1 \<and> finite V \<and> (V \<noteq> {} \<longrightarrow> ph_Full ?t \<and> force))"
        using Suc.IH [OF inv] by blast
      have "\<not> ph_Full ?t" using Full by (simp add: ph_Full_def)
      with IH obtain r W' where r: "insert_loop crc check force key val ?s (Suc f) i ?c t = Inr r"
        "ph_inserted crc k key val W' ?t r" "expired check ?t W'"
        unfolding e ph_fails_def by (metis Un_empty_right)
      from r(2,3) i(2) have r': "ph_inserted crc k key val W' t1 r" "expired check t1 W'"
        by (simp_all add: ph_inserted_def expired_def)
      have "expired check t (W \<union> W')" using expired_Un [OF t1(4) r'(2) ph_shrunk_le [OF t1(3)]] .
      with r(1) ph_inserted_shrunk [OF t1(3) r'(1)] show ?thesis
        by (intro disjI2 exI [of _ r] exI [of _ "W \<union> W'"] exI [of _ "{}"]) simp
    qed
  qed
qed


section \<open>An empty table\<close>

lemma next2_loop_pow:
  assumes n: "unat n \<le> 2 ^ 40"
  shows "i \<le> 40 \<Longrightarrow> 40 - i < f \<Longrightarrow> \<exists>k \<le> 40. i \<le> k \<and> next2_loop f (2 ^ i) n = Inr (2 ^ k) \<and> unat n \<le> 2 ^ k \<and> (k = i \<or> 2 ^ (k - 1) < unat n)"
proof (induction f arbitrary: i)
  case (Suc f)
  have i: "unat ((2 :: u64) ^ i) = 2 ^ i" using Suc.prems by (intro unat_power_2) simp
  show ?case
  proof (cases "(2 :: u64) ^ i < n")
    case False
    then show ?thesis using Suc.prems i by (intro exI [of _ i]) (simp add: word_less_nat_alt)
  next
    case True
    then have lt: "(2 :: nat) ^ i < unat n" by (simp add: word_less_nat_alt i)
    have ne: "i \<noteq> 40" using lt n by auto
    with Suc.prems have "Suc i \<le> 40" "40 - Suc i < f" by auto
    from Suc.IH [OF this] obtain k where k: "k \<le> 40" "Suc i \<le> k" "next2_loop f (2 ^ Suc i) n = Inr (2 ^ k)"
      "unat n \<le> 2 ^ k" "k = Suc i \<or> 2 ^ (k - 1) < unat n" by blast
    have "push_bit 1 ((2 :: u64) ^ i) = 2 ^ Suc i" by (simp add: push_bit_eq_mult mult.commute)
    then have "next2_loop (Suc f) (2 ^ i) n = Inr (2 ^ k)" using True k(3) by (simp only: next2_loop.simps if_True)
    moreover have "k = i \<or> 2 ^ (k - 1) < unat n" using k(5) lt by auto
    ultimately show ?thesis using k(1,2,4) by (intro exI [of _ k]) simp
  qed
qed simp

lemma Next2Power_ok:
  assumes "unat n \<le> 2 ^ 40"
  obtains k where "k \<le> 40" "Next2Power n = Inr (2 ^ k)" "unat n \<le> 2 ^ k" "k = 0 \<or> 2 ^ (k - 1) < unat n"
  using next2_loop_pow [OF assms, of 0 65] that by (auto simp: Next2Power_def)

lemma Next2Power_power: assumes "k \<le> 40" shows "Next2Power (2 ^ k) = Inr (2 ^ k)"
proof -
  have u: "unat ((2 :: u64) ^ k) = 2 ^ k" using assms by (intro unat_power_2) simp
  have "unat ((2 :: u64) ^ k) \<le> 2 ^ 40" unfolding u using assms by (intro power_increasing) auto
  from Next2Power_ok [OF this] obtain l where l: "l \<le> 40" "Next2Power (2 ^ k) = Inr (2 ^ l)" "unat ((2 :: u64) ^ k) \<le> 2 ^ l"
    "l = 0 \<or> 2 ^ (l - 1) < unat ((2 :: u64) ^ k)" .
  have "k \<le> l" using l(3) unfolding u by simp
  moreover have "l \<le> k" using l(4) unfolding u by auto
  ultimately show ?thesis using l(2) by simp
qed

lemma OverFall_exact: assumes "ph_sized k t" shows "OverFallChunkNum (ph_capacity t) = Inr (ph_chunk_num t)"
proof -
  have k: "k \<le> 40" using assms by (simp add: ph_sized_def)
  then have b: "(2 :: nat) ^ k \<le> 2 ^ 40" by (intro power_increasing) auto
  have "ph_capacity t + 14 - 1 = of_nat (2 ^ k * 14 + 13)" using assms by (simp add: ph_sized_def)
  moreover have "unat (of_nat (2 ^ k * 14 + 13) :: u64) = 2 ^ k * 14 + 13" using b by (intro unat_of_nat_small) simp
  ultimately have "unat (ph_capacity t + 14 - 1) = 2 ^ k * 14 + 13" by (simp only:)
  then have "unat ((ph_capacity t + 14 - 1) div 14) = (2 ^ k * 14 + 13) div 14" by (simp add: unat_div_distrib)
  also have "\<dots> = 2 ^ k" by simp
  finally have "unat ((ph_capacity t + 14 - 1) div 14) = unat ((2 :: u64) ^ k)" using unat_power_2 [of k] k by simp
  then have "(ph_capacity t + 14 - 1) div 14 = 2 ^ k" by (simp only: word_facts)
  with Next2Power_power [OF k] assms show ?thesis by (simp only: OverFallChunkNum_def) (simp add: ph_sized_def)
qed

definition ph_fresh :: "nat \<Rightarrow> pethash" where
  "ph_fresh k = \<lparr>ph_capacity = 2 ^ k * 14, ph_chunk_num = 2 ^ k, ph_size = 0, ph_table = replicate (2 ^ k) (f14_Initialize f14_zero)\<rparr>"

lemma ph_fresh_ok:
  assumes "k \<le> 40" shows "ph_inv crc k (\<lambda>p. 0) (ph_fresh k)" and "ph_map (ph_fresh k) = Map.empty"
proof -
  have c: "f14_ok (f14_Initialize f14_zero)"
    by (auto simp: f14_ok_def f14_Initialize_def f14_zero_def InUse_def)
  have u: "ph_used (ph_fresh k) = {}"
    by (auto simp: ph_used_def ph_fresh_def InUse_def f14_Initialize_def f14_zero_def)
  show i: "ph_inv crc k (\<lambda>p. 0) (ph_fresh k)"
    using assms c by (simp add: ph_inv_def u passing_def ph_sized_def) (simp add: ph_fresh_def f14_Initialize_def f14_zero_def)
  show "ph_map (ph_fresh k) = Map.empty"
    by (rule ext, subst ph_map_None [OF ph_inv_inj [OF i]]) (simp add: u)
qed

lemma ph_Initialize_fresh:
  assumes "unat (ph_effective scaled ignore capacity) + 13 \<le> 14 * 2 ^ 40"
  obtains k where "k \<le> 40" "ph_Initialize scaled capacity ignore = Inr (ph_fresh k)"
    "unat (ph_effective scaled ignore capacity) \<le> 14 * 2 ^ k"
proof -
  let ?c = "ph_effective scaled ignore capacity"
  have "unat (?c + 14 - 1) = unat ?c + 13"
    using assms by (simp add: unat_word_ariths)
  then have u: "unat ((?c + 14 - 1) div 14) = (unat ?c + 13) div 14" by (simp add: unat_div_distrib)
  then have "unat ((?c + 14 - 1) div 14) \<le> 2 ^ 40" using assms by simp
  from Next2Power_ok [OF this] obtain k where k: "k \<le> 40" "Next2Power ((?c + 14 - 1) div 14) = Inr (2 ^ k)"
    "unat ((?c + 14 - 1) div 14) \<le> 2 ^ k" by blast
  have "ph_Initialize scaled capacity ignore = Inr (ph_fresh k)"
    using k(1,2) unat_power_2 [of k] by (simp add: ph_Initialize_def OverFallChunkNum_def ph_fresh_def)
  moreover have "unat ?c \<le> 14 * 2 ^ k" using k(3) unfolding u by linarith
  ultimately show thesis using that k(1) by blast
qed


section \<open>The operations on a well-formed table\<close>

lemma ph_okI: "ph_inv crc k (\<lambda>p. 0) t \<Longrightarrow> ph_ok crc t"
  by (auto simp: ph_ok_def)

lemma ph_Get_map: assumes "ph_ok crc t" shows "ph_Get crc t key = Inr (ph_map t key)"
proof -
  from assms obtain k where t: "ph_inv crc k (\<lambda>p. 0) t" by (auto simp: ph_ok_def)
  show ?thesis
  proof (cases "\<exists>x \<in> ph_used t. ph_key t x = key")
    case True
    then obtain x where x: "x \<in> ph_used t" "ph_key t x = key" by auto
    then have "ph_entry t x = (key, snd (ph_entry t x))" by (auto simp: ph_key_def)
    then have "ph_map t key = Some (snd (ph_entry t x))"
      using x by (simp only: ph_map_Some [OF ph_inv_inj [OF t]]) blast
    then show ?thesis by (simp add: ph_Get_def GetInternal_present [OF t x])
  next
    case False
    then have "\<forall>x \<in> ph_used t. ph_key t x \<noteq> key" by simp
    then show ?thesis using ph_map_None [OF ph_inv_inj [OF t], of key] by (simp add: ph_Get_def GetInternal_absent [OF t])
  qed
qed

text \<open>
  What \<open>Set\<close> may do: end the process when the table is full and may not or cannot make room, or
  store the pair. \<open>W\<close> are the entries \<open>check_func\<close> gave up, \<open>V\<close> the one evicted from a full table.
\<close>

definition set_outcome ::
  "(u64 \<Rightarrow> u64) \<Rightarrow> (u64 \<Rightarrow> u64 \<Rightarrow> bool) option \<Rightarrow> bool \<Rightarrow> u64 \<Rightarrow> u64 \<Rightarrow> pethash \<Rightarrow> (pethash \<times> nat \<times> nat) result \<Rightarrow> bool" where
  "set_outcome crc check force key val t r \<longleftrightarrow>
     r = Inl Log_fatal \<and> ph_map t key = None \<and> ph_Full t \<and> (\<not> force \<or> ph_chunk_num t = 1) \<or>
     (\<exists>t' p W V. r = Inr (t', p) \<and> ph_ok crc t' \<and> ph_entry t' p = (key, val) \<and> ph_chunk_num t' = ph_chunk_num t \<and>
        ph_map t' = (ph_map t |` (- (W \<union> V)))(key \<mapsto> val) \<and> expired check t W \<and> card V \<le> 1 \<and> finite V \<and>
        (V \<noteq> {} \<longrightarrow> ph_Full t \<and> force \<and> ph_map t key = None))"

lemma two_pow_one: "k \<le> 40 \<Longrightarrow> (2 :: u64) ^ k = 1 \<longleftrightarrow> k = 0"
  using unat_power_2 [of k] by (auto simp: word_facts)

lemma chunk_num_kept: "ph_inv crc k e t \<Longrightarrow> ph_inv crc k e' t' \<Longrightarrow> ph_chunk_num t' = ph_chunk_num t"
  by (auto simp: ph_inv_def ph_sized_def)

lemma ph_Set_outcome:
  assumes "ph_ok crc t" shows "set_outcome crc check force key val t (ph_Set crc check force key val t)"
proof -
  from assms obtain k where t: "ph_inv crc k (\<lambda>p. 0) t" by (auto simp: ph_ok_def)
  have k: "k \<le> 40" "ph_chunk_num t = 2 ^ k" using ph_inv_sized [OF t] by (auto simp: ph_sized_def)
  show ?thesis
  proof (cases "\<exists>x \<in> ph_used t. ph_key t x = key")
    case True
    then obtain x where x: "x \<in> ph_used t" "ph_key t x = key" by auto
    note u = update_entry_inv [OF t x, of val]
    have e: "ph_Set crc check force key val t = Inr (update_entry x val t, x)"
      by (simp add: ph_Set_def GetInternal_present [OF t x])
    have "fst x < length (ph_table t)" "snd x < length (f14_value (ph_table t ! fst x))" 
      using x ph_inv_chunk [OF t, of "fst x"] ph_inv_length [OF t] by (auto simp: ph_used_def f14_ok_def)
    then have "ph_entry (update_entry x val t) x = (key, val)"
      using x by (simp add: update_entry_def ph_at_def ph_entry_def ph_key_def)
    then show ?thesis unfolding set_outcome_def e using ph_okI [OF u(1)] u(2) chunk_num_kept [OF t u(1)]
      by (intro disjI2 exI [of _ "update_entry x val t"] exI [of _ x] exI [of _ "{}"]) (simp add: restrict_map_def)
  next
    case False
    then have new: "\<forall>x \<in> ph_used t. ph_key t x \<noteq> key" by simp
    have e: "ph_Set crc check force key val t = ph_Insert crc check force key val t"
      by (simp add: ph_Set_def GetInternal_absent [OF t new])
    have none: "ph_map t key = None" using new ph_map_None [OF ph_inv_inj [OF t]] by simp
    have c: "credit crc k key 0 = (\<lambda>p. 0)" by (simp add: credit_def fun_eq_iff)
    have "(ph_Insert crc check force key val t = Inl Log_fatal \<and> ph_fails force k t) \<or>
      (\<exists>r W V. ph_Insert crc check force key val t = Inr r \<and> ph_inserted crc k key val (W \<union> V) t r \<and> expired check t W \<and>
        card V \<le> 1 \<and> finite V \<and> (V \<noteq> {} \<longrightarrow> ph_Full t \<and> force))"
      unfolding ph_Insert_def unat_chunk_num [OF ph_inv_sized [OF t]] ph_home_path [OF ph_inv_sized [OF t], of key crc]
      by (rule insert_loop_ok) (use t new c in simp_all)
    then show ?thesis
    proof (elim disjE exE conjE)
      assume "ph_Insert crc check force key val t = Inl Log_fatal" "ph_fails force k t"
      then show ?thesis unfolding set_outcome_def e using none two_pow_one [OF k(1)] by (auto simp: ph_fails_def k(2))
    next
      fix r W V assume r: "ph_Insert crc check force key val t = Inr r" "ph_inserted crc k key val (W \<union> V) t r"
        "expired check t W" "card V \<le> 1" "finite V" "V \<noteq> {} \<longrightarrow> ph_Full t \<and> force"
      then show ?thesis unfolding set_outcome_def e using none ph_okI [of crc k "fst r"] chunk_num_kept [OF t, of "\<lambda>p. 0" "fst r"]
        by (intro disjI2 exI [of _ "fst r"] exI [of _ "snd r"] exI [of _ W] exI [of _ V]) (simp add: ph_inserted_def)
    qed
  qed
qed

lemma ph_Delete_map:
  assumes "ph_ok crc t"
  obtains t' where "ph_Delete crc key t = Inr (t', True)" "ph_ok crc t'" "ph_map t' = (ph_map t)(key := None)"
    "ph_chunk_num t' = ph_chunk_num t"
proof -
  from assms obtain k where t: "ph_inv crc k (\<lambda>p. 0) t" by (auto simp: ph_ok_def)
  show thesis
  proof (cases "\<exists>x \<in> ph_used t. ph_key t x = key")
    case True
    then obtain c j where x: "(c, j) \<in> ph_used t" "ph_key t (c, j) = key" by auto
    from ph_Delete_present [OF t x] obtain t' where
      t': "ph_Delete crc key t = Inr (t', True)" "ph_inv crc k (\<lambda>p. 0) t'" "ph_map t' = (ph_map t)(key := None)" by metis
    from that [OF t'(1) ph_okI [OF t'(2)] t'(3) chunk_num_kept [OF t t'(2)]] show thesis .
  next
    case False
    then have new: "\<forall>x \<in> ph_used t. ph_key t x \<noteq> key" by simp
    then have "ph_map t key = None" using ph_map_None [OF ph_inv_inj [OF t]] by simp
    then have "ph_map t = (ph_map t)(key := None)" by (simp add: fun_upd_idem)
    with that [OF ph_Delete_absent [OF t new] assms] show thesis by simp
  qed
qed

end
