(* ===== verification/PetReload.thy ===== *)
theory PetReload
  imports PetInsert
begin

text \<open>
  \<open>Reload\<close> of \<open>PetHash\<close>, which rebuilds everything but the entries from the entries after a crash, and
  \<open>HotnessAwareMigration\<close>, which moves given keys to the first chunk of their probe sequence.
\<close>

section \<open>Reload\<close>

text \<open>
  The threads take consecutive ranges of chunks; what they do to different chunks commutes (the
  overflow counters only go up, by compare-and-swap), so the model takes the ranges in order.
\<close>

definition reload_order :: "nat \<Rightarrow> nat \<Rightarrow> nat list" where
  "reload_order threads n = concat (map (\<lambda>i. let b = n div threads + 1 in [i * b..<min (i * b + b) n]) [0..<threads])"

definition stored :: "f14chunk \<Rightarrow> nat list" where
  "stored c = filter (\<lambda>j. fst (f14_value c ! j) \<noteq> -1) [0..<kMaxSize]"

definition reload_chunk :: "(u64 \<Rightarrow> u64) \<Rightarrow> f14chunk \<Rightarrow> f14chunk" where
  "reload_chunk crc c = c\<lparr>f14_size := of_nat (length (stored c)), f14_overflow := 0,
     f14_tags := map (\<lambda>j. if j \<in> set (stored c) then ph_Sign crc (ph_Hash (fst (f14_value c ! j))) else f14_tags c ! j) [0..<kMaxSize]\<rparr>"

definition first_pass :: "(u64 \<Rightarrow> u64) \<Rightarrow> nat list \<Rightarrow> pethash \<Rightarrow> pethash" where
  "first_pass crc order t = fold (\<lambda>p. ph_at p (reload_chunk crc)) order t"

definition mark_slot :: "(u64 \<Rightarrow> u64) \<Rightarrow> nat \<times> nat \<Rightarrow> pethash \<times> (u64 \<times> u64) list \<Rightarrow> (pethash \<times> (u64 \<times> u64) list) result" where
  "mark_slot crc x s = (case s of (t, calls) \<Rightarrow>
     if InUse (snd x) (ph_table t ! fst x)
     then let e = ph_entry t x; h = ph_Hash (fst e) in
       bind_result (on_way IncOverflow (unat (ph_chunk_num t)) (fst x) (ProbeDelta (ph_Sign crc h)) (ph_home t h) t)
         (\<lambda>t. Inr (t, calls @ [e]))
     else Inr s)"

fun second_pass :: "(u64 \<Rightarrow> u64) \<Rightarrow> (nat \<times> nat) list \<Rightarrow> pethash \<times> (u64 \<times> u64) list \<Rightarrow> (pethash \<times> (u64 \<times> u64) list) result" where
  "second_pass crc [] s = Inr s"
| "second_pass crc (x # xs) s = bind_result (mark_slot crc x s) (second_pass crc xs)"

text \<open>The result carries the calls of \<open>mallocSetValid\<close>.\<close>

definition ph_Reload ::
  "(u64 \<Rightarrow> u64) \<Rightarrow> (u64 \<Rightarrow> u64) \<Rightarrow> nat \<Rightarrow> u64 \<Rightarrow> bool \<Rightarrow> pethash \<Rightarrow> (pethash \<times> (u64 \<times> u64) list) result" where
  "ph_Reload crc scaled threads capacity ignore t =
    (if threads = 0 then Inl Div_by_zero
     else bind_result (OverFallChunkNum (ph_effective scaled ignore capacity)) (\<lambda>n.
       let order = reload_order threads (unat n);
           t1 = first_pass crc order (t\<lparr>ph_chunk_num := n, ph_capacity := n * 14\<rparr>);
           t2 = t1\<lparr>ph_size := sum_list (map (\<lambda>p. of_nat (length (stored (ph_table t1 ! p)))) order)\<rparr>
       in second_pass crc (concat (map (\<lambda>p. map (Pair p) [0..<kMaxSize]) order)) (t2, [])))"

lemma reload_order_upt: assumes "0 < threads" shows "reload_order threads n = [0..<n]"
proof -
  define b where "b = n div threads + 1"
  have *: "concat (map (\<lambda>i. [i * b..<min (i * b + b) n]) [0..<m]) = [0..<min (m * b) n]" for m
  proof (induction m)
    case (Suc m)
    have "[0..<min (m * b) n] @ [m * b..<min (m * b + b) n] = [0..<min (m * b + b) n]"
    proof (cases "m * b \<le> n")
      case True
      then have "m * b \<le> min (m * b + b) n" by simp
      then obtain l where "min (m * b + b) n = m * b + l" by (metis le_Suc_ex)
      then show ?thesis using True upt_add_eq_append [of 0 "m * b" l] by (simp add: min_def)
    qed (auto simp: min_def)
    then show ?case using Suc by (simp add: add.commute)
  qed simp
  have "n < threads * b" using assms dividend_less_times_div [of threads n] by (simp add: b_def)
  with * [of threads] show ?thesis by (simp add: reload_order_def Let_def flip: b_def) (simp add: b_def)
qed

text \<open>
  What a crash leaves: the entries of a well-formed table, which are flushed as they are written. Tags,
  sizes, overflow counters and migration flags are not, so they are arbitrary; in particular a free slot, whose
  key is -1, may still have the tag of the key that was deleted from it.
\<close>

definition crash_image :: "pethash \<Rightarrow> pethash \<Rightarrow> bool" where
  "crash_image t t0 \<longleftrightarrow> length (ph_table t0) = length (ph_table t) \<and>
     (\<forall>p < length (ph_table t). f14_value (ph_table t0 ! p) = f14_value (ph_table t ! p) \<and>
        length (f14_tags (ph_table t0 ! p)) = kMaxSize)"

definition stale :: "pethash \<Rightarrow> pethash \<Rightarrow> (nat \<times> nat) set" where
  "stale t t0 = ph_used t0 - ph_used t"

definition quiet :: "pethash \<Rightarrow> bool" where
  "quiet t \<longleftrightarrow> (\<forall>c \<in> set (ph_table t). \<not> f14_migrating c)"

text \<open>The same table without the tags of slots that hold no key, and without migration flags.\<close>

definition scrub_chunk :: "f14chunk \<Rightarrow> f14chunk" where
  "scrub_chunk c = c\<lparr>f14_tags := map (\<lambda>j. if fst (f14_value c ! j) = -1 then 0 else f14_tags c ! j) [0..<kMaxSize], f14_migrating := False\<rparr>"

definition scrub :: "pethash \<Rightarrow> pethash" where
  "scrub t = t\<lparr>ph_table := map scrub_chunk (ph_table t)\<rparr>"

lemma scrub_fields [simp]:
  "ph_chunk_num (scrub t) = ph_chunk_num t" "ph_capacity (scrub t) = ph_capacity t" "ph_size (scrub t) = ph_size t"
  "length (ph_table (scrub t)) = length (ph_table t)" "f14_value (scrub_chunk c) = f14_value c"
  "f14_size (scrub_chunk c) = f14_size c" "f14_overflow (scrub_chunk c) = f14_overflow c" "\<not> f14_migrating (scrub_chunk c)"
  by (simp_all add: scrub_def scrub_chunk_def)

lemma scrub_nth: "p < length (ph_table t) \<Longrightarrow> ph_table (scrub t) ! p = scrub_chunk (ph_table t ! p)"
  by (simp add: scrub_def)

lemma scrub_InUse: "j < kMaxSize \<Longrightarrow> InUse j (scrub_chunk c) \<longleftrightarrow> InUse j c \<and> fst (f14_value c ! j) \<noteq> -1"
  by (simp add: InUse_def scrub_chunk_def)

lemma scrub_sized [simp]: "ph_sized k (scrub t) = ph_sized k t"
  by (simp add: ph_sized_def)

lemma scrub_on: "(\<And>c. scrub_chunk (f c) = f (scrub_chunk c)) \<Longrightarrow> scrub (ph_on S f t) = ph_on S f (scrub t)"
  by (auto simp: scrub_def ph_on_def intro!: nth_equalityI)

lemma scrub_IncOverflow: "scrub_chunk (IncOverflow c) = IncOverflow (scrub_chunk c)"
  by (simp add: scrub_chunk_def IncOverflow_def)

text \<open>Keys other than -1 are found in the one as in the other.\<close>

lemma scrub_Find:
  assumes "key \<noteq> -1" and "length (f14_tags c) = kMaxSize"
  shows "f14_Find key tag (scrub_chunk c) = f14_Find key tag c"
proof -
  have f: "List.find P (filter Q xs) = List.find (\<lambda>x. Q x \<and> P x) xs" for P Q and xs :: "nat list"
    by (induction xs) auto
  show ?thesis unfolding f14_Find_def MatchTag_def f
    using assms by (intro find_cong) (auto simp: scrub_chunk_def)
qed

lemma scrub_get_loop:
  assumes "key \<noteq> -1" and "\<forall>c \<in> set (ph_table t). length (f14_tags c) = kMaxSize" and n: "unat (ph_chunk_num t) = length (ph_table t)"
  shows "pos < length (ph_table t) \<Longrightarrow>
    fst (get_loop i t key sign pos m) = fst (get_loop i (scrub t) key sign pos m') \<and>
    (quiet t \<longrightarrow> snd (get_loop i t key sign pos m) = m)"
proof (induction i arbitrary: pos m m')
  case (Suc i)
  have c: "f14_Find key sign (ph_table (scrub t) ! pos) = f14_Find key sign (ph_table t ! pos)"
    "f14_overflow (ph_table (scrub t) ! pos) = f14_overflow (ph_table t ! pos)"
    using assms(1,2) Suc.prems by (simp_all add: scrub_nth scrub_Find)
  have nx: "ph_next (scrub t) d pos = ph_next t d pos" for d by (simp add: ph_next_def)
  have "ph_next t d pos < length (ph_table t)" for d
  proof -
    have "unat ((of_nat pos + d) AND (ph_chunk_num t - 1)) \<le> unat (ph_chunk_num t - 1)"
      by (simp add: word_and_le1 flip: word_le_nat_alt)
    moreover have "unat (ph_chunk_num t - 1) < unat (ph_chunk_num t)"
    proof -
      have "ph_chunk_num t \<noteq> 0" using n Suc.prems by auto
      then show ?thesis by (metis measure_unat unat_minus_one diff_less zero_less_one unat_gt_0)
    qed
    ultimately show ?thesis using n by (simp add: ph_next_def)
  qed
  note IH = Suc.IH [OF this]
  have q: "quiet t \<Longrightarrow> \<not> f14_migrating (ph_table t ! pos)" using Suc.prems by (simp add: quiet_def)
  show ?case
    using IH [of _ "m \<or> f14_migrating (ph_table t ! pos)" "m' \<or> f14_migrating (ph_table (scrub t) ! pos)"] q
    by (auto simp: Let_def c nx split: option.splits)
qed simp

lemma first_pass_fields [simp]:
  "ph_chunk_num (first_pass crc ps t) = ph_chunk_num t" "ph_capacity (first_pass crc ps t) = ph_capacity t"
  "length (ph_table (first_pass crc ps t)) = length (ph_table t)"
  by (induction ps arbitrary: t) (simp_all add: first_pass_def)

lemma first_pass_nth:
  "distinct ps \<Longrightarrow> q < length (ph_table t) \<Longrightarrow>
   ph_table (first_pass crc ps t) ! q = (if q \<in> set ps then reload_chunk crc (ph_table t ! q) else ph_table t ! q)"
proof (induction ps arbitrary: t)
  case (Cons p ps)
  have "first_pass crc (p # ps) t = first_pass crc ps (ph_at p (reload_chunk crc) t)" by (simp add: first_pass_def)
  with Cons.IH [of "ph_at p (reload_chunk crc) t"] Cons.prems show ?case by (auto simp: ph_at_nth)
qed (simp add: first_pass_def)

lemma stored_used:
  assumes c: "f14_ok c" and absent: "\<forall>j < kMaxSize. InUse j c \<longrightarrow> fst (f14_value c ! j) \<noteq> -1"
  shows "set (stored c) = {j. j < kMaxSize \<and> InUse j c}" and "length (stored c) = unat (f14_size c)"
proof -
  show s: "set (stored c) = {j. j < kMaxSize \<and> InUse j c}" using assms by (auto simp: stored_def f14_ok_def)
  have "length (stored c) = card (set (stored c))" by (rule distinct_card [symmetric]) (simp add: stored_def)
  then show "length (stored c) = unat (f14_size c)" using c unfolding s by (simp add: f14_ok_def)
qed

lemma stored_value: "f14_value c = f14_value c' \<Longrightarrow> stored c = stored c'"
  by (simp add: stored_def)


lemma ph_like_refl: "ph_like t t"
  by (simp add: ph_like_def)

lemma ph_like_trans: "ph_like t t1 \<Longrightarrow> ph_like t1 t2 \<Longrightarrow> ph_like t t2"
  by (simp add: ph_like_def)

lemma ph_like_sized: "ph_like t t' \<Longrightarrow> ph_sized k t' = ph_sized k t"
  by (simp add: ph_like_def ph_sized_def)

text \<open>After the first pass only the overflow counters are missing.\<close>

lemma reload_chunk_like:
  assumes t: "ph_inv crc k e t" and p: "p < 2 ^ k" and keys: "\<forall>x \<in> ph_used t. ph_key t x \<noteq> -1"
    and v: "f14_value c = f14_value (ph_table t ! p)" and c: "length (f14_tags c) = kMaxSize"
      "\<forall>j < kMaxSize. \<not> InUse j (ph_table t ! p) \<longrightarrow> \<not> InUse j c"
  shows "f14_tags (reload_chunk crc c) = f14_tags (ph_table t ! p)" and "f14_size (reload_chunk crc c) = f14_size (ph_table t ! p)"
    and "length (stored c) = unat (f14_size (ph_table t ! p))"
proof -
  note ok = ph_inv_chunk [OF t p]
  have used: "(p, j) \<in> ph_used t \<longleftrightarrow> j < kMaxSize \<and> InUse j (ph_table t ! p)" for j
    using p ph_inv_length [OF t] by (simp add: ph_used_def)
  have key: "ph_key t (p, j) = fst (f14_value (ph_table t ! p) ! j)" for j by (simp add: ph_key_def ph_entry_def)
  have "\<forall>j < kMaxSize. InUse j (ph_table t ! p) \<longrightarrow> fst (f14_value (ph_table t ! p) ! j) \<noteq> -1"
    using keys used key by metis
  note s = stored_used [OF ok this]
  have st: "stored c = stored (ph_table t ! p)" using v by (rule stored_value)
  show "f14_tags (reload_chunk crc c) = f14_tags (ph_table t ! p)"
  proof (rule nth_equalityI)
    show "length (f14_tags (reload_chunk crc c)) = length (f14_tags (ph_table t ! p))"
      using ok by (simp add: reload_chunk_def f14_ok_def)
    fix j assume "j < length (f14_tags (reload_chunk crc c))"
    then have j: "j < kMaxSize" by (simp add: reload_chunk_def)
    show "f14_tags (reload_chunk crc c) ! j = f14_tags (ph_table t ! p) ! j"
    proof (cases "InUse j (ph_table t ! p)")
      case True
      with ph_inv_tag [OF t, of "(p, j)"] used key v s(1) j st show ?thesis by (simp add: reload_chunk_def)
    next
      case False
      with c(2) j have "\<not> InUse j c" by simp
      with False s(1) st j show ?thesis by (simp add: reload_chunk_def InUse_def)
    qed
  qed
  show "f14_size (reload_chunk crc c) = f14_size (ph_table t ! p)" using s(2) by (simp add: reload_chunk_def st)
  show "length (stored c) = unat (f14_size (ph_table t ! p))" using s(2) by (simp add: st)
qed

definition marks :: "(u64 \<Rightarrow> u64) \<Rightarrow> nat \<Rightarrow> pethash \<Rightarrow> (nat \<times> nat) set \<Rightarrow> nat \<Rightarrow> (nat \<times> nat) set" where
  "marks crc k t S p = {x \<in> S. before crc (2 ^ k) (ph_key t x) (fst x) p}"

definition marked :: "(u64 \<Rightarrow> u64) \<Rightarrow> nat \<Rightarrow> pethash \<Rightarrow> (nat \<times> nat) set \<Rightarrow> pethash \<Rightarrow> bool" where
  "marked crc k t S t' \<longleftrightarrow> ph_like t t' \<and> (\<forall>p < 2 ^ k. f14_overflow (ph_table t' ! p) = 255 \<or>
     card (marks crc k t S p) \<le> unat (f14_overflow (ph_table t' ! p)))"

lemma mark_slot_marked:
  assumes t: "ph_inv crc k e t" and l: "ph_like t2 t'" and sz2: "ph_sized k t2" and m: "marked crc k t S (scrub t')"
    and S: "finite S" and x: "x \<notin> S" "fst x < 2 ^ k" "snd x < kMaxSize"
    and u: "ph_used t \<subseteq> ph_used t2" "\<And>y. y \<in> ph_used t \<Longrightarrow> ph_key t2 y = ph_key t y"
  obtains t'' where "mark_slot crc x (t', calls) = Inr (t'', calls @ (if x \<in> ph_used t2 then [ph_entry t2 x] else []))"
    "ph_like t2 t''" "marked crc k t (S \<union> ({x} \<inter> ph_used t)) (scrub t'')"
proof -
  note lu = ph_like_used [OF l]
  have n: "length (ph_table t') = 2 ^ k" using sz2 l by (simp add: ph_like_def ph_sized_def)
  have sz: "ph_sized k t'" using sz2 ph_like_sized [OF l] by simp
  have iu: "InUse (snd x) (ph_table t' ! fst x) \<longleftrightarrow> x \<in> ph_used t2"
    using x n unfolding lu(1) [symmetric] by (simp add: ph_used_def)
  show thesis
  proof (cases "x \<in> ph_used t2")
    case False
    then have "{x} \<inter> ph_used t = {}" using u(1) by blast
    with iu False m l that [of t'] show thesis by (simp add: mark_slot_def)
  next
    case True
    let ?key = "ph_key t2 x"
    from ph_path_reaches [OF x(2), of crc ?key] obtain D where D: "ph_path crc (2 ^ k) ?key D = fst x" "D < 2 ^ k" by auto
    let ?T = "ph_path crc (2 ^ k) ?key ` {0..<D}"
    let ?t = "ph_on ?T IncOverflow t'"
    have "on_way IncOverflow (2 ^ k) (fst x) (ph_step crc ?key) (ph_home t' (ph_Hash ?key)) t' = Inr ?t"
      using on_way_on [OF D sz, of 0 "2 ^ k" IncOverflow] D(2) by (simp add: ph_home_path [OF sz, of ?key crc])
    then have e: "mark_slot crc x (t', calls) = Inr (?t, calls @ [ph_entry t2 x])"
      using iu True lu(2) [OF True] by (simp add: mark_slot_def Let_def unat_chunk_num [OF sz] ph_step_def ph_key_def)
    have like: "ph_like c (ph_on ?T IncOverflow c)" for c by (intro ph_like_on) simp
    from l like have l': "ph_like t2 ?t" by (rule ph_like_trans)
    have sc: "scrub ?t = ph_on ?T IncOverflow (scrub t')" by (rule scrub_on) (rule scrub_IncOverflow)
    have lt: "ph_like t (scrub ?t)" unfolding sc using m like by (auto simp: marked_def intro: ph_like_trans)
    let ?S = "S \<union> ({x} \<inter> ph_used t)"
    have "f14_overflow (ph_table (scrub ?t) ! p) = 255 \<or> card (marks crc k t ?S p) \<le> unat (f14_overflow (ph_table (scrub ?t) ! p))"
      if p: "p < 2 ^ k" for p
    proof -
      have o: "f14_overflow (ph_table (scrub t') ! p) = 255 \<or> card (marks crc k t S p) \<le> unat (f14_overflow (ph_table (scrub t') ! p))"
        using m p by (simp add: marked_def)
      have f: "finite (marks crc k t S p)" "x \<notin> marks crc k t S p" using S x(1) by (auto simp: marks_def)
      show ?thesis
      proof (cases "p \<in> ?T")
        case True
        have "marks crc k t ?S p \<subseteq> insert x (marks crc k t S p)" by (auto simp: marks_def)
        then have "card (marks crc k t ?S p) \<le> card (insert x (marks crc k t S p))" using f(1) by (intro card_mono) simp
        then have "card (marks crc k t ?S p) \<le> card (marks crc k t S p) + 1" using f by simp
        with overflow_inc [OF o] True p n show ?thesis unfolding sc by (auto simp: ph_on_nth)
      next
        case False
        have "marks crc k t ?S p = marks crc k t S p"
          using before_iff [OF D] False u(2) [of x] by (auto simp: marks_def)
        with o False p n show ?thesis unfolding sc by (simp add: ph_on_nth)
      qed
    qed
    then have "marked crc k t ?S (scrub ?t)" using lt by (simp add: marked_def)
    with e True l' that [of ?t] show thesis by simp
  qed
qed

lemma second_pass_marked:
  assumes t: "ph_inv crc k e t" and sz2: "ph_sized k t2"
    and u: "ph_used t \<subseteq> ph_used t2" "\<And>y. y \<in> ph_used t \<Longrightarrow> ph_key t2 y = ph_key t y"
  shows "ph_like t2 t' \<Longrightarrow> marked crc k t S (scrub t') \<Longrightarrow> finite S \<Longrightarrow> distinct xs \<Longrightarrow> set xs \<inter> S = {} \<Longrightarrow>
    set xs \<subseteq> {..<2 ^ k} \<times> {..<kMaxSize} \<Longrightarrow>
    \<exists>t''. second_pass crc xs (t', calls) = Inr (t'', calls @ map (ph_entry t2) (filter (\<lambda>x. x \<in> ph_used t2) xs)) \<and>
      ph_like t2 t'' \<and> marked crc k t (S \<union> (set xs \<inter> ph_used t)) (scrub t'')"
proof (induction xs arbitrary: S t' calls)
  case (Cons x xs)
  have x: "x \<notin> S" "fst x < 2 ^ k" "snd x < kMaxSize" using Cons.prems by auto
  obtain t1 where t1: "mark_slot crc x (t', calls) = Inr (t1, calls @ (if x \<in> ph_used t2 then [ph_entry t2 x] else []))"
    "ph_like t2 t1" "marked crc k t (S \<union> ({x} \<inter> ph_used t)) (scrub t1)"
    by (rule mark_slot_marked [OF t Cons.prems(1) sz2 Cons.prems(2,3) x u])
  have "S \<union> ({x} \<inter> ph_used t) \<union> (set xs \<inter> ph_used t) = S \<union> (set (x # xs) \<inter> ph_used t)" by auto
  moreover have "set xs \<inter> (S \<union> ({x} \<inter> ph_used t)) = {}" using Cons.prems by auto
  ultimately show ?case
    using Cons.IH [OF t1(2,3), of "calls @ (if x \<in> ph_used t2 then [ph_entry t2 x] else [])"] Cons.prems t1(1) by (auto split: if_splits)
qed simp

lemma of_nat_sum_map: "of_nat (sum_list (map f xs)) = sum_list (map (\<lambda>x. of_nat (f x)) xs)"
  by (induction xs) simp_all

lemma scrub_reload: "scrub_chunk (reload_chunk crc c) = reload_chunk crc (scrub_chunk c)"
  by (auto simp: scrub_chunk_def reload_chunk_def stored_def)

text \<open>What the first pass leaves of a crash image: the table itself, but for stale tags, overflow counters and flags.\<close>

lemma first_pass_image:
  assumes t: "ph_inv crc k (\<lambda>p. 0) t" and absent: "\<forall>x \<in> ph_used t. ph_key t x \<noteq> -1" and image: "crash_image t t0"
    and t2: "t2 = (first_pass crc [0..<2 ^ k] (t0\<lparr>ph_chunk_num := ph_chunk_num t, ph_capacity := ph_chunk_num t * 14\<rparr>))\<lparr>ph_size := ph_size t\<rparr>"
  shows "ph_like t (scrub t2)" and "ph_used t2 = ph_used t \<union> stale t t0" and "quiet t2 = quiet t0" and "ph_sized k t2"
    and "\<forall>c \<in> set (ph_table t2). length (f14_tags c) = kMaxSize"
    and "\<And>x. fst x < 2 ^ k \<Longrightarrow> ph_entry t2 x = ph_entry t x"
    and "map (\<lambda>p. length (stored (ph_table t2 ! p))) [0..<2 ^ k] = map (\<lambda>p. unat (f14_size (ph_table t ! p))) [0..<2 ^ k]"
proof -
  have n: "length (ph_table t) = 2 ^ k" "length (ph_table t0) = 2 ^ k" "length (ph_table t2) = 2 ^ k"
    using ph_inv_length [OF t] image by (simp_all add: crash_image_def t2)
  have im: "f14_value (ph_table t0 ! p) = f14_value (ph_table t ! p)" "length (f14_tags (ph_table t0 ! p)) = kMaxSize"
    if "p < 2 ^ k" for p using image that n by (simp_all add: crash_image_def)
  have tab: "ph_table t2 ! p = reload_chunk crc (ph_table t0 ! p)" if "p < 2 ^ k" for p
    using that n by (simp add: t2 first_pass_nth)
  have free: "fst (f14_value (ph_table t ! p) ! j) = -1" if "p < 2 ^ k" "j < kMaxSize" "\<not> InUse j (ph_table t ! p)" for p j
    using ph_inv_chunk [OF t that(1)] that by (simp add: f14_ok_def)
  have cl: "f14_value (scrub_chunk (ph_table t0 ! p)) = f14_value (ph_table t ! p)"
    "length (f14_tags (scrub_chunk (ph_table t0 ! p))) = kMaxSize"
    "\<forall>j < kMaxSize. \<not> InUse j (ph_table t ! p) \<longrightarrow> \<not> InUse j (scrub_chunk (ph_table t0 ! p))" if "p < 2 ^ k" for p
    using im [OF that] free [OF that] by (simp_all add: scrub_InUse) (simp add: scrub_chunk_def)
  note c = reload_chunk_like [OF t _ absent cl]
  show sz: "ph_sized k t2" using ph_inv_sized [OF t] n by (simp add: ph_sized_def t2)
  show "ph_like t (scrub t2)"
    using ph_inv_sized [OF t] c(1,2) cl(1) ph_inv_still [OF t] n sz
    by (simp add: ph_like_def scrub_nth tab scrub_reload) (simp add: t2 ph_sized_def reload_chunk_def)
  show "\<forall>c \<in> set (ph_table t2). length (f14_tags c) = kMaxSize"
    using n(3) by (auto simp: in_set_conv_nth tab reload_chunk_def)
  show "ph_entry t2 x = ph_entry t x" if "fst x < 2 ^ k" for x
    using that im(1) by (simp add: ph_entry_def tab reload_chunk_def)
  have "f14_migrating (ph_table t2 ! p) = f14_migrating (ph_table t0 ! p)" if "p < 2 ^ k" for p
    using that by (simp add: tab reload_chunk_def)
  then show "quiet t2 = quiet t0" using n by (simp add: quiet_def all_set_conv_all_nth)
  show "map (\<lambda>p. length (stored (ph_table t2 ! p))) [0..<2 ^ k] = map (\<lambda>p. unat (f14_size (ph_table t ! p))) [0..<2 ^ k]"
  proof (rule map_cong [OF refl])
    fix p assume "p \<in> set [0..<2 ^ k]"
    then have p: "p < 2 ^ k" by simp
    have "stored (ph_table t2 ! p) = stored (scrub_chunk (ph_table t0 ! p))"
      by (rule stored_value) (simp add: tab [OF p] reload_chunk_def)
    then show "length (stored (ph_table t2 ! p)) = unat (f14_size (ph_table t ! p))" using c(3) [of p] p by simp
  qed
  have "InUse j (ph_table t2 ! p) \<longleftrightarrow> InUse j (ph_table t ! p) \<or> InUse j (ph_table t0 ! p)" if p: "p < 2 ^ k" and j: "j < kMaxSize" for p j
  proof (cases "InUse j (ph_table t ! p)")
    case True
    with p j n absent have "fst (f14_value (ph_table t ! p) ! j) \<noteq> -1"
      by (auto simp: ph_used_def ph_key_def ph_entry_def)
    with p j im(1) [OF p] True show ?thesis by (simp add: tab InUse_def reload_chunk_def stored_def)
  next
    case False
    with free [OF p j] p j im(1) [OF p] show ?thesis by (simp add: tab InUse_def reload_chunk_def stored_def)
  qed
  then show "ph_used t2 = ph_used t \<union> stale t t0" using n by (auto simp: stale_def ph_used_def)
qed

lemma reload_recovers:
  assumes ok: "ph_ok crc t" and absent: "ph_map t (-1) = None" and image: "crash_image t t0" and threads: "0 < threads"
    and capacity: "OverFallChunkNum (ph_effective scaled ignore capacity) = Inr (ph_chunk_num t)"
  shows "\<exists>t' calls. ph_Reload crc scaled threads capacity ignore t0 = Inr (t', calls) \<and>
    ph_ok crc (scrub t') \<and> ph_map (scrub t') = ph_map t \<and> ph_used (scrub t') = ph_used t \<and> ph_size t' = ph_size t \<and> ph_chunk_num t' = ph_chunk_num t \<and>
    ph_used t' = ph_used t \<union> stale t t0 \<and> quiet t' = quiet t0 \<and> (\<forall>c \<in> set (ph_table t'). length (f14_tags c) = kMaxSize) \<and>
    distinct (map fst (filter (\<lambda>e. fst e \<noteq> -1) calls)) \<and> map_of (filter (\<lambda>e. fst e \<noteq> -1) calls) = ph_map t \<and>
    length (filter (\<lambda>e. fst e = -1) calls) = card (stale t t0)"
proof -
  from ok obtain k where t: "ph_inv crc k (\<lambda>p. 0) t" by (auto simp: ph_ok_def)
  have keys: "\<forall>x \<in> ph_used t. ph_key t x \<noteq> -1" using absent ph_map_None [OF ph_inv_inj [OF t]] by simp
  have n: "length (ph_table t) = 2 ^ k" "length (ph_table t0) = 2 ^ k"
    using ph_inv_length [OF t] image by (simp_all add: crash_image_def)
  have cn: "unat (ph_chunk_num t) = 2 ^ k" by (rule unat_chunk_num [OF ph_inv_sized [OF t]])
  define t1 where "t1 = first_pass crc [0..<2 ^ k] (t0\<lparr>ph_chunk_num := ph_chunk_num t, ph_capacity := ph_chunk_num t * 14\<rparr>)"
  define t2 where "t2 = t1\<lparr>ph_size := ph_size t\<rparr>"
  note I = first_pass_image [OF t keys image t2_def [unfolded t1_def]]
  have "sum_list (map (\<lambda>p. length (stored (ph_table t1 ! p))) [0..<2 ^ k]) = card (ph_used t)"
    using I(7) by (simp add: t2_def card_ph_used [OF t] sum_list_sum_nth atLeast0LessThan)
  then have "sum_list (map (\<lambda>p. of_nat (length (stored (ph_table t1 ! p)))) [0..<2 ^ k]) = (of_nat (card (ph_used t)) :: u64)"
    by (simp only: of_nat_sum_map [symmetric])
  moreover have "(of_nat (card (ph_used t)) :: u64) = ph_size t"
    by (simp flip: ph_inv_card [OF t])
  ultimately have size: "sum_list (map (\<lambda>p. of_nat (length (stored (ph_table t1 ! p)))) [0..<2 ^ k]) = ph_size t" by simp
  let ?xs = "concat (map (\<lambda>p. map (Pair p) [0..<kMaxSize]) [0..<2 ^ k])"
  have xs: "distinct ?xs" "set ?xs = {..<2 ^ k} \<times> {..<kMaxSize}"
    by (auto intro!: distinct_concat simp: distinct_map inj_on_def) (metis kMaxSize_pos)
  have n2: "length (ph_table t2) = 2 ^ k" using I(4) by (simp add: ph_sized_def)
  have ux: "ph_used t2 \<subseteq> set ?xs" using n2 by (auto simp: ph_used_def xs(2))
  have u: "ph_used t \<subseteq> ph_used t2" "\<And>y. y \<in> ph_used t \<Longrightarrow> ph_key t2 y = ph_key t y"
    using I(2,6) n by (auto simp: ph_key_def ph_used_def)
  have "marked crc k t {} (scrub t2)" using I(1) by (simp add: marked_def marks_def)
  from second_pass_marked [OF t I(4) u ph_like_refl this, of ?xs "[]"] xs obtain t3 where
    t3: "second_pass crc ?xs (t2, []) = Inr (t3, map (ph_entry t2) (filter (\<lambda>x. x \<in> ph_used t2) ?xs))" "ph_like t2 t3"
    and m: "marked crc k t (set ?xs \<inter> ph_used t) (scrub t3)" by auto
  have "set ?xs \<inter> ph_used t = ph_used t" using ux u(1) by blast
  with m have "marked crc k t (ph_used t) (scrub t3)" by metis
  then have m': "ph_like t (scrub t3)" "\<And>p. p < 2 ^ k \<Longrightarrow> f14_overflow (ph_table (scrub t3) ! p) = 255 \<or>
      card (passing crc t p) + 0 \<le> unat (f14_overflow (ph_table (scrub t3) ! p))"
    using n by (simp_all add: marked_def marks_def passing_def)
  note inv = ph_like_inv [OF t m']
  define calls where "calls = map (ph_entry t2) (filter (\<lambda>x. x \<in> ph_used t2) ?xs)"
  have key: "fst (ph_entry t2 x) = -1 \<longleftrightarrow> x \<notin> ph_used t" if "x \<in> ph_used t2" for x
  proof -
    have x: "fst x < 2 ^ k" "snd x < kMaxSize" using that n2 by (auto simp: ph_used_def)
    have "fst (ph_entry t x) = -1" if "x \<notin> ph_used t"
      using ph_inv_chunk [OF t x(1)] that x n by (auto simp: f14_ok_def ph_used_def ph_entry_def)
    then show ?thesis using keys I(6) [OF x(1)] by (auto simp: ph_key_def)
  qed
  have live: "filter (\<lambda>e. fst e \<noteq> -1) calls = map (ph_entry t) (filter (\<lambda>x. x \<in> ph_used t) ?xs)"
    unfolding calls_def filter_map filter_filter
  proof (rule map_cong)
    show "filter (\<lambda>x. x \<in> ph_used t2 \<and> ((\<lambda>e. fst e \<noteq> -1) \<circ> ph_entry t2) x) ?xs = filter (\<lambda>x. x \<in> ph_used t) ?xs"
      using key u(1) by (intro filter_cong) auto
    show "ph_entry t2 x = ph_entry t x" if "x \<in> set (filter (\<lambda>x. x \<in> ph_used t) ?xs)" for x
      using I(6) that n by (auto simp: ph_used_def)
  qed
  have "filter (\<lambda>e. fst e = -1) calls = map (ph_entry t2) (filter (\<lambda>x. x \<in> stale t t0) ?xs)"
    unfolding calls_def filter_map filter_filter
    using key I(2) by (intro arg_cong [where f = "map (ph_entry t2)"] filter_cong) (auto simp: stale_def)
  moreover have "length (filter (\<lambda>x. x \<in> stale t t0) ?xs) = card (stale t t0)"
  proof -
    have "stale t t0 \<subseteq> set ?xs" using ux I(2) by blast
    then have "set (filter (\<lambda>x. x \<in> stale t t0) ?xs) = stale t t0" by (simp only: set_filter) blast
    then show ?thesis using distinct_card [OF distinct_filter [OF xs(1)]] by metis
  qed
  ultimately have ghosts: "length (filter (\<lambda>e. fst e = -1) calls) = card (stale t t0)" by simp
  have calls: "set (filter (\<lambda>e. fst e \<noteq> -1) calls) = ph_entry t ` ph_used t"
    unfolding live set_map set_filter using ux u(1) by blast
  have "inj_on (ph_key t) (set (filter (\<lambda>x. x \<in> ph_used t) ?xs))" using ph_inv_inj [OF t] by (rule inj_on_subset) auto
  then have "distinct (map (ph_key t) (filter (\<lambda>x. x \<in> ph_used t) ?xs))"
    unfolding distinct_map using distinct_filter [OF xs(1)] by blast
  moreover have "map fst (filter (\<lambda>e. fst e \<noteq> -1) calls) = map (ph_key t) (filter (\<lambda>x. x \<in> ph_used t) ?xs)"
    unfolding live map_map by (rule map_cong) (simp_all only: comp_apply ph_key_def)
  ultimately have d: "distinct (map fst (filter (\<lambda>e. fst e \<noteq> -1) calls))" by (simp only:)
  have "map_of (filter (\<lambda>e. fst e \<noteq> -1) calls) key = ph_map t key" for key
  proof -
    have "map_of (filter (\<lambda>e. fst e \<noteq> -1) calls) key = Some v \<longleftrightarrow> ph_map t key = Some v" for v
      by (simp only: map_of_eq_Some_iff [OF d] calls ph_map_Some [OF ph_inv_inj [OF t]] image_iff eq_commute [of "(key, v)"])
    then show ?thesis by (metis not_None_eq)
  qed
  then have mc: "map_of (filter (\<lambda>e. fst e \<noteq> -1) calls) = ph_map t" by auto
  have R: "ph_Reload crc scaled threads capacity ignore t0 = Inr (t3, calls)"
    using threads capacity size t3(1) by (simp add: ph_Reload_def Let_def reload_order_upt cn calls_def t2_def flip: t1_def)
  have like: "ph_used t3 = ph_used t \<union> stale t t0" "quiet t3 = quiet t0" "\<forall>c \<in> set (ph_table t3). length (f14_tags c) = kMaxSize"
    using ph_like_used(1) [OF t3(2)] I(2,3,5) t3(2) by (simp_all add: quiet_def ph_like_def all_set_conv_all_nth)
  have fields: "ph_size t3 = ph_size t" "ph_chunk_num t3 = ph_chunk_num t" using m'(1) by (simp_all add: ph_like_def)
  show ?thesis using R ph_okI [OF inv(1)] inv(2) ph_like_used(1) [OF m'(1)] fields like d mc ghosts by (intro exI [of _ t3] exI [of _ calls]) simp
qed

section \<open>Migration\<close>

definition NextChunk :: "pethash \<Rightarrow> u64 \<Rightarrow> nat \<Rightarrow> nat" where
  "NextChunk t step p = unat ((of_nat p + step + ph_chunk_num t) mod ph_chunk_num t)"

definition PrevChunk :: "pethash \<Rightarrow> u64 \<Rightarrow> nat \<Rightarrow> nat" where
  "PrevChunk t step p = unat ((of_nat p - step + ph_chunk_num t) mod ph_chunk_num t)"

text \<open>The chunks \<open>ChainTraverseReverse\<close> visits, from \<open>end\<close> back to \<open>start\<close>.\<close>

fun chain_reverse :: "nat \<Rightarrow> pethash \<Rightarrow> u64 \<Rightarrow> nat \<Rightarrow> nat \<Rightarrow> nat list result" where
  "chain_reverse 0 t step start p = Inl No_return"
| "chain_reverse (Suc f) t step start p =
    (if p = start then Inr [p]
     else bind_result (chain_reverse f t step start (PrevChunk t step p)) (\<lambda>ps. Inr (p # ps)))"

definition set_migrating :: "bool \<Rightarrow> nat list \<Rightarrow> pethash \<Rightarrow> pethash" where
  "set_migrating b ps t = fold (\<lambda>p. ph_at p (\<lambda>c. c\<lparr>f14_migrating := b\<rparr>)) ps t"

definition insert_at :: "nat \<Rightarrow> u64 \<Rightarrow> u64 \<Rightarrow> u8 \<Rightarrow> pethash \<Rightarrow> pethash result" where
  "insert_at pos key val sign t =
     bind_result (f14_Insert key val sign (ph_table t ! pos)) (\<lambda>r. Inr (ph_at pos (\<lambda>_. fst r) t))"

fun victim_loop :: "nat \<Rightarrow> nat \<Rightarrow> u64 \<Rightarrow> u64 \<Rightarrow> u8 \<Rightarrow> nat \<Rightarrow> pethash \<Rightarrow> pethash result" where
  "victim_loop 0 home key val sign pos t = Inl Check_failed"
| "victim_loop (Suc f) home key val sign pos t =
    (if unat (f14_size (ph_table t ! pos)) \<noteq> kMaxSize
     then bind_result (insert_at pos key val sign t) (\<lambda>t. if pos = home then Inl Check_failed else Inr t)
     else if ph_Full t then Inl Log_fatal
     else victim_loop f home key val sign (ph_next t (ProbeDelta sign) pos) (ph_at pos IncOverflow t))"

definition migrate_key :: "(u64 \<Rightarrow> u64) \<Rightarrow> u64 \<Rightarrow> pethash \<Rightarrow> pethash result" where
  "migrate_key crc key t =
    (let home = ph_home t (ph_Hash key); sign = ph_Sign crc (ph_Hash key); n = unat (ph_chunk_num t) in
     case f14_Find key sign (ph_table t ! home) of
       Some _ \<Rightarrow> Inr t
     | None \<Rightarrow> bind_result (GetInternal crc t key) (\<lambda>r. case r of
         None \<Rightarrow> Inl Check_failed
       | Some (cur, j) \<Rightarrow>
         let val = snd (ph_entry t (cur, j)) in
         bind_result (chain_reverse n t (ProbeDelta sign) home cur) (\<lambda>ps.
           let t = set_migrating True ps t in
           if unat (f14_size (ph_table t ! home)) \<noteq> kMaxSize then
             bind_result (insert_at home key val sign t) (\<lambda>t.
               Inr (set_migrating False ps (ph_at cur DecOverflow (ph_at cur (f14_Delete j) t))))
           else if \<not> InUse 0 (ph_table t ! home) then Inl Check_failed
           else
             let victim = f14_value (ph_table t ! home) ! 0; vsign = ph_Sign crc (ph_Hash (fst victim)) in
             bind_result (victim_loop n home (fst victim) (snd victim) vsign (ph_next t (ProbeDelta vsign) home) t) (\<lambda>t.
               let t = ph_at cur (f14_Delete j) (ph_at home (\<lambda>c. f14_Set 0 sign (key, val) (IncOverflow c)) t) in
               Inr (fold (\<lambda>p. ph_at p (\<lambda>c. let c = c\<lparr>f14_migrating := False\<rparr> in if p = cur then c else DecOverflow c)) ps t)))))"

fun HotnessAwareMigration :: "(u64 \<Rightarrow> u64) \<Rightarrow> u64 list \<Rightarrow> pethash \<Rightarrow> pethash result" where
  "HotnessAwareMigration crc [] t = Inr t"
| "HotnessAwareMigration crc (key # keys) t = bind_result (migrate_key crc key t) (HotnessAwareMigration crc keys)"

end
