(* ===== verification/PetRuns.thy ===== *)
theory PetRuns
  imports PetReload
begin

text \<open>
  Runs of \<open>PetHash\<close>: what a table holds after any sequence of \<open>Set\<close> and \<open>Delete\<close>, that a crash and
  \<open>Reload\<close> change nothing, and a run in which \<open>HotnessAwareMigration\<close> makes a stored key invisible.
\<close>

datatype ph_op = Op_Set u64 u64 | Op_Delete u64 | Op_Migrate u64

definition ph_apply :: "(u64 \<Rightarrow> u64) \<Rightarrow> bool \<Rightarrow> ph_op \<Rightarrow> pethash \<Rightarrow> pethash result" where
  "ph_apply crc force opn t = (case opn of
       Op_Set key val \<Rightarrow> bind_result (ph_Set crc None force key val t) (\<lambda>r. Inr (fst r))
     | Op_Delete key \<Rightarrow> bind_result (ph_Delete crc key t) (\<lambda>r. Inr (fst r))
     | Op_Migrate key \<Rightarrow> HotnessAwareMigration crc [key] t)"

fun ph_run :: "(u64 \<Rightarrow> u64) \<Rightarrow> bool \<Rightarrow> ph_op list \<Rightarrow> pethash \<Rightarrow> pethash result" where
  "ph_run crc force [] t = Inr t"
| "ph_run crc force (opn # ops) t = bind_result (ph_apply crc force opn t) (ph_run crc force ops)"

text \<open>The same sequence on a map.\<close>

fun ph_spec :: "ph_op list \<Rightarrow> (u64 \<Rightarrow> u64 option) \<Rightarrow> u64 \<Rightarrow> u64 option" where
  "ph_spec [] m = m"
| "ph_spec (Op_Set key val # ops) m = ph_spec ops (m(key \<mapsto> val))"
| "ph_spec (Op_Delete key # ops) m = ph_spec ops (m(key := None))"
| "ph_spec (Op_Migrate key # ops) m = ph_spec ops m"

text \<open>Every key that is new when it is set comes while fewer than 90% of the \<open>c\<close> slots hold a key.\<close>

fun never_full :: "nat \<Rightarrow> ph_op list \<Rightarrow> (u64 \<Rightarrow> u64 option) \<Rightarrow> bool" where
  "never_full c [] m = True"
| "never_full c (Op_Set key val # ops) m =
    ((m key \<noteq> None \<or> card (dom m) * 100 < c * 90) \<and> never_full c ops (m(key \<mapsto> val)))"
| "never_full c (Op_Delete key # ops) m = never_full c ops (m(key := None))"
| "never_full c (Op_Migrate key # ops) m = never_full c ops m"

lemma set_delete_rounds:
  assumes "m key = None"
  shows "ph_spec (concat (replicate n [Op_Set key val, Op_Delete key]) @ ops) m = ph_spec ops m"
    and "card (dom m) * 100 < c * 90 \<Longrightarrow>
      never_full c (concat (replicate n [Op_Set key val, Op_Delete key]) @ ops) m \<longleftrightarrow> never_full c ops m"
  using assms by (induction n) (simp_all add: fun_upd_idem)

lemma dom_ph_map: assumes "inj_on (ph_key t) (ph_used t)" shows "dom (ph_map t) = ph_key t ` ph_used t"
  using ph_map_None [OF assms] by (auto simp: dom_def)

lemma card_dom_ph_map: assumes t: "ph_inv crc k e t" shows "card (dom (ph_map t)) = card (ph_used t)"
  unfolding dom_ph_map [OF ph_inv_inj [OF t]] by (rule card_image [OF ph_inv_inj [OF t]])

lemma finite_dom_ph_map: assumes "ph_ok crc t" shows "finite (dom (ph_map t))"
proof -
  from assms obtain k where t: "ph_inv crc k (\<lambda>p. 0) t" by (auto simp: ph_ok_def)
  show ?thesis unfolding dom_ph_map [OF ph_inv_inj [OF t]] by simp
qed

lemma unat_capacity: assumes t: "ph_sized k t" shows "unat (ph_capacity t) = 14 * 2 ^ k"
proof -
  have "k \<le> 40" using t by (simp add: ph_sized_def)
  then have b: "(2 :: nat) ^ k \<le> 2 ^ 40" by (intro power_increasing) auto
  have "ph_capacity t = of_nat (14 * 2 ^ k)" using t by (simp add: ph_sized_def mult.commute)
  moreover have "unat (of_nat (14 * 2 ^ k) :: u64) = 14 * 2 ^ k" using b by (intro unat_of_nat_small) simp
  ultimately show ?thesis by (simp only:)
qed

lemma unat_ph_capacity: "ph_inv crc k e t \<Longrightarrow> unat (ph_capacity t) = 14 * 2 ^ k"
  by (rule unat_capacity [OF ph_inv_sized])

lemma ph_Full_dom: assumes "ph_ok crc t" shows "ph_Full t \<longleftrightarrow> unat (ph_capacity t) * 90 \<le> card (dom (ph_map t)) * 100"
proof -
  from assms obtain k where t: "ph_inv crc k (\<lambda>p. 0) t" by (auto simp: ph_ok_def)
  show ?thesis by (simp add: ph_Full_iff [OF t] unat_ph_capacity [OF t] card_dom_ph_map [OF t])
qed

lemma ph_capacity_num: assumes "ph_ok crc t" shows "ph_capacity t = ph_chunk_num t * 14"
  using assms by (auto simp: ph_ok_def ph_inv_def ph_sized_def)

lemma set_step:
  assumes t: "ph_ok crc t"
  obtains "ph_apply crc force (Op_Set key val) t = Inl Log_fatal" "ph_map t key = None" "ph_Full t" "\<not> force \<or> ph_chunk_num t = 1"
  | t' V where "ph_apply crc force (Op_Set key val) t = Inr t'" "ph_ok crc t'" "ph_chunk_num t' = ph_chunk_num t"
    "ph_map t' = (ph_map t |` (- V))(key \<mapsto> val)" "V \<noteq> {} \<longrightarrow> ph_Full t \<and> force \<and> ph_map t key = None"
proof -
  show thesis using ph_Set_outcome [OF t, of None force key val] unfolding set_outcome_def
  proof (elim disjE exE conjE, goal_cases)
    case 1
    then show thesis by (intro that(1)) (simp_all add: ph_apply_def)
  next
    case 2
    then show thesis by (intro that(1)) (simp_all add: ph_apply_def)
  next
    case (3 t' p W V)
    have "W = {}" using 3(6) by (auto simp: expired_def)
    with 3 show thesis by (intro that(2) [of t' V]) (simp_all add: ph_apply_def)
  qed
qed

lemma delete_step:
  assumes t: "ph_ok crc t"
  obtains t' where "ph_apply crc force (Op_Delete key) t = Inr t'" "ph_ok crc t'" "ph_chunk_num t' = ph_chunk_num t"
    "ph_map t' = (ph_map t)(key := None)"
proof -
  obtain t' where "ph_Delete crc key t = Inr (t', True)" "ph_ok crc t'" "ph_map t' = (ph_map t)(key := None)"
    "ph_chunk_num t' = ph_chunk_num t" by (rule ph_Delete_map [OF t])
  with that [of t'] show thesis by (simp add: ph_apply_def)
qed

text \<open>With \<open>force_insert\<close> and two chunks no run ends, and nothing is stored that was not set.\<close>

lemma ph_run_spec:
  "ph_ok crc t \<Longrightarrow> ph_chunk_num t \<noteq> 1 \<Longrightarrow> \<forall>key. Op_Migrate key \<notin> set ops \<Longrightarrow> ph_map t \<subseteq>\<^sub>m m \<Longrightarrow>
   \<exists>t'. ph_run crc True ops t = Inr t' \<and> ph_ok crc t' \<and> ph_map t' \<subseteq>\<^sub>m ph_spec ops m"
proof (induction ops arbitrary: t m)
  case (Cons opn ops)
  note t = Cons.prems(1) and f = Cons.prems(2) and le = Cons.prems(4)
  have rest: "\<forall>key. Op_Migrate key \<notin> set ops" using Cons.prems(3) by simp
  show ?case
  proof (cases opn)
    case (Op_Set key val)
    show ?thesis
    proof (cases rule: set_step [OF t, where force = True and key = key and val = val])
      case 1
      with f show ?thesis by simp
    next
      case (2 t1 V)
      have "ph_map t1 \<subseteq>\<^sub>m m(key \<mapsto> val)" using le by (auto simp: 2(4) map_le_def restrict_map_def)
      from Cons.IH [OF 2(2) _ rest this] 2(1,3) f show ?thesis by (simp add: Op_Set del: fun_upd_apply)
    qed
  next
    case (Op_Delete key)
    obtain t1 where t1: "ph_apply crc True opn t = Inr t1" "ph_ok crc t1" "ph_chunk_num t1 = ph_chunk_num t"
      "ph_map t1 = (ph_map t)(key := None)"
      unfolding Op_Delete by (rule delete_step [OF t])
    have "ph_map t1 \<subseteq>\<^sub>m m(key := None)" using le by (auto simp: t1(4) map_le_def)
    from Cons.IH [OF t1(2) _ rest this] t1(1,3) f show ?thesis by (simp add: Op_Delete del: fun_upd_apply)
  next
    case (Op_Migrate key)
    with Cons.prems(3) show ?thesis by auto
  qed
qed simp

text \<open>Without \<open>force_insert\<close>, or when the table is never full, the contents are exact; only a full table ends the run.\<close>

lemma ph_run_exact:
  "ph_ok crc t \<Longrightarrow> \<forall>key. Op_Migrate key \<notin> set ops \<Longrightarrow> \<not> force \<or> never_full (unat (ph_capacity t)) ops (ph_map t) \<Longrightarrow>
   (\<not> never_full (unat (ph_capacity t)) ops (ph_map t) \<and> ph_run crc force ops t = Inl Log_fatal) \<or>
   (\<exists>t'. ph_run crc force ops t = Inr t' \<and> ph_ok crc t' \<and> ph_chunk_num t' = ph_chunk_num t \<and> ph_map t' = ph_spec ops (ph_map t))"
proof (induction ops arbitrary: t)
  case (Cons opn ops)
  note t = Cons.prems(1) and f = Cons.prems(3)
  have rest: "\<forall>key. Op_Migrate key \<notin> set ops" using Cons.prems(2) by simp
  show ?case
  proof (cases opn)
    case (Op_Set key val)
    show ?thesis
    proof (cases rule: set_step [OF t, where force = force and key = key and val = val])
      case 1
      then show ?thesis by (simp add: Op_Set ph_Full_dom [OF t])
    next
      case (2 t1 V)
      have "V = {}" using 2(5) f by (auto simp: Op_Set ph_Full_dom [OF t])
      then have m: "ph_map t1 = (ph_map t)(key \<mapsto> val)" by (simp add: 2(4) restrict_map_def)
      have c: "ph_capacity t1 = ph_capacity t" using 2(3) ph_capacity_num [OF t] ph_capacity_num [OF 2(2)] by simp
      have "\<not> force \<or> never_full (unat (ph_capacity t1)) ops (ph_map t1)" using f by (auto simp: Op_Set m c simp del: fun_upd_apply)
      from Cons.IH [OF 2(2) rest this] 2(1,3) show ?thesis by (auto simp: Op_Set m c simp del: fun_upd_apply)
    qed
  next
    case (Op_Delete key)
    obtain t1 where t1: "ph_apply crc force opn t = Inr t1" "ph_ok crc t1" "ph_chunk_num t1 = ph_chunk_num t"
      "ph_map t1 = (ph_map t)(key := None)"
      unfolding Op_Delete by (rule delete_step [OF t])
    have c: "ph_capacity t1 = ph_capacity t" using t1(3) ph_capacity_num [OF t] ph_capacity_num [OF t1(2)] by simp
    have "\<not> force \<or> never_full (unat (ph_capacity t1)) ops (ph_map t1)" using f by (simp add: Op_Delete t1(4) c del: fun_upd_apply)
    from Cons.IH [OF t1(2) rest this] t1(1,3) show ?thesis by (auto simp: Op_Delete t1(4) c simp del: fun_upd_apply)
  next
    case (Op_Migrate key)
    with Cons.prems(2) show ?thesis by auto
  qed
qed simp

section \<open>\<open>Get\<close> after a crash\<close>

lemma scrub_Get:
  assumes ok: "ph_ok crc (scrub t)" and key: "key \<noteq> -1" and lens: "\<forall>c \<in> set (ph_table t). length (f14_tags c) = kMaxSize"
  shows "ph_Get crc t key = Inr (ph_map (scrub t) key) \<or>
    (ph_map (scrub t) key = None \<and> \<not> quiet t \<and> ph_Get crc t key = Inl No_return)"
proof -
  from ok obtain k where t: "ph_inv crc k (\<lambda>p. 0) (scrub t)" by (auto simp: ph_ok_def)
  have sz: "ph_sized k t" using ph_inv_sized [OF t] by simp
  let ?h = "ph_Hash key"
  have n: "unat (ph_chunk_num t) = length (ph_table t)" "length (ph_table t) = 2 ^ k"
    using unat_chunk_num [OF sz] sz by (simp_all add: ph_sized_def)
  have home: "ph_home (scrub t) ?h = ph_home t ?h" by (simp add: ph_home_def)
  have "ph_home t ?h < length (ph_table t)" unfolding ph_home_path [OF sz, of key crc] n(2) by simp
  note g = scrub_get_loop [OF key lens n(1) this, where i = "length (ph_table t)" and m = False and m' = False and sign = "ph_Sign crc ?h"]
  show ?thesis
  proof (cases "\<exists>x \<in> ph_used (scrub t). ph_key (scrub t) x = key")
    case True
    then obtain x where x: "x \<in> ph_used (scrub t)" "ph_key (scrub t) x = key" by blast
    have "fst (get_loop (length (ph_table t)) (scrub t) key (ph_Sign crc ?h) (ph_home t ?h) False) = Some x"
      using GetInternal_present [OF t x] by (auto simp: GetInternal_def Let_def home n(1) split: prod.splits option.splits if_splits)
    with g have "GetInternal crc t key = Inr (Some x)"
      by (auto simp: GetInternal_def Let_def n(1) split: prod.splits)
    moreover have "ph_entry t x = ph_entry (scrub t) x"
      using x(1) by (auto simp: ph_used_def ph_entry_def scrub_nth)
    moreover have "ph_map (scrub t) key = Some (snd (ph_entry (scrub t) x))" using ph_map_entry [OF t x(1)] x(2) by (simp add: ph_key_def)
    ultimately show ?thesis by (simp add: ph_Get_def)
  next
    case False
    then have "ph_map (scrub t) key = None" using ph_map_None [OF ph_inv_inj [OF t]] by simp
    moreover have "fst (get_loop (length (ph_table t)) (scrub t) key (ph_Sign crc ?h) (ph_home t ?h) False) = None"
      using GetInternal_absent [OF t, of key] False
      by (auto simp: GetInternal_def Let_def home n(1) split: prod.splits option.splits if_splits)
    ultimately show ?thesis using g by (auto simp: ph_Get_def GetInternal_def Let_def n(1) split: prod.splits)
  qed
qed

section \<open>\<open>Valid\<close>\<close>

lemma IndexInUse_iff:
  assumes t: "ph_sized k t" shows "IndexInUse i t \<longleftrightarrow> i < 14 * 2 ^ k \<and> (i div 14, i mod 14) \<in> ph_used t"
proof -
  have "length (ph_table t) = 2 ^ k" using t by (simp add: ph_sized_def)
  then show ?thesis by (auto simp: IndexInUse_def unat_capacity [OF t] ph_used_def kMaxSize_def)
qed

lemma valid_slots_found:
  "(\<And>i. IndexInUse i t \<Longrightarrow> \<exists>v. ph_Get crc t (fst (ph_GetById i t)) = Inr (Some v)) \<Longrightarrow>
   valid_slots crc t is n = Inr (Some (n + of_nat (length (filter (\<lambda>i. IndexInUse i t) is))))"
proof (induction "is" arbitrary: n)
  case (Cons i rest)
  show ?case
  proof (cases "IndexInUse i t")
    case True
    from Cons.prems [OF this] obtain v where "ph_Get crc t (fst (ph_GetById i t)) = Inr (Some v)" by blast
    with True Cons show ?thesis by (simp add: add.assoc)
  next
    case False
    with Cons show ?thesis by simp
  qed
qed simp

lemma valid_slots_count:
  "valid_slots crc t is n = Inr (Some m) \<Longrightarrow> m = n + of_nat (length (filter (\<lambda>i. IndexInUse i t) is))"
proof (induction "is" arbitrary: n)
  case (Cons i rest)
  show ?case
  proof (cases "IndexInUse i t")
    case True
    with Cons.prems have "valid_slots crc t rest (n + 1) = Inr (Some m)"
      by (cases "ph_Get crc t (fst (ph_GetById i t))") (simp_all split: option.splits)
    from Cons.IH [OF this] True show ?thesis by (simp add: add.assoc)
  next
    case False
    with Cons show ?thesis by simp
  qed
qed simp

lemma slots_in_use:
  assumes t: "ph_sized k t"
  shows "length (filter (\<lambda>i. IndexInUse i t) [0..<14 * 2 ^ k]) = card (ph_used t)"
proof -
  have n: "length (ph_table t) = 2 ^ k" using t by (simp add: ph_sized_def)
  have "length (filter (\<lambda>i. IndexInUse i t) [0..<14 * 2 ^ k]) = card {i. i < 14 * 2 ^ k \<and> IndexInUse i t}"
    by (subst distinct_card [symmetric]) (auto intro!: arg_cong [where f = card])
  also have "\<dots> = card ((\<lambda>i. (i div 14, i mod 14)) ` {i. i < 14 * 2 ^ k \<and> IndexInUse i t})"
    by (rule card_image [symmetric]) (metis (mono_tags, lifting) div_mult_mod_eq inj_onI prod.inject)
  also have "(\<lambda>i. (i div 14, i mod 14)) ` {i. i < 14 * 2 ^ k \<and> IndexInUse i t} = ph_used t"
  proof (intro equalityI subsetI)
    fix x assume "x \<in> ph_used t"
    then have x: "fst x < 2 ^ k" "snd x < 14" "x \<in> ph_used t" using n by (auto simp: ph_used_def kMaxSize_def)
    then have "x = ((fst x * 14 + snd x) div 14, (fst x * 14 + snd x) mod 14)" by simp
    moreover have "fst x * 14 + snd x < 14 * 2 ^ k" using x(1,2) by linarith
    ultimately show "x \<in> (\<lambda>i. (i div 14, i mod 14)) ` {i. i < 14 * 2 ^ k \<and> IndexInUse i t}"
      using x(3) by (intro image_eqI [where x = "fst x * 14 + snd x"]) (auto simp: IndexInUse_iff [OF t])
  qed (auto simp: IndexInUse_iff [OF t])
  finally show ?thesis .
qed

lemma size_sum:
  assumes t: "ph_inv crc k e t" shows "sum_list (map (\<lambda>c. ucast (f14_size c)) (ph_table t)) = ph_size t"
proof -
  have "sum_list (map (\<lambda>c. of_nat (unat (f14_size c))) (ph_table t)) = (of_nat (card (ph_used t)) :: u64)"
    unfolding of_nat_sum_map [symmetric] card_ph_used [OF t]
    by (simp add: sum_list_sum_nth ph_inv_length [OF t] atLeast0LessThan)
  moreover have "(\<lambda>c. of_nat (unat (f14_size c)) :: u64) = (\<lambda>c. ucast (f14_size c))" by (simp add: fun_eq_iff)
  moreover have "of_nat (card (ph_used t)) = ph_size t" by (simp flip: ph_inv_card [OF t])
  ultimately show ?thesis by simp
qed

lemma scrub_same:
  assumes lens: "\<forall>c \<in> set (ph_table t). length (f14_tags c) = kMaxSize" and q: "quiet t" and u: "ph_used t = ph_used (scrub t)"
  shows "scrub t = t"
proof -
  have "scrub_chunk (ph_table t ! p) = ph_table t ! p" if p: "p < length (ph_table t)" for p
  proof -
    have l: "length (f14_tags (ph_table t ! p)) = kMaxSize" and m: "\<not> f14_migrating (ph_table t ! p)"
      using lens q p by (auto simp: quiet_def)
    have "f14_tags (ph_table t ! p) ! j = 0" if "j < kMaxSize" "fst (f14_value (ph_table t ! p) ! j) = -1" for j
    proof -
      have "(p, j) \<notin> ph_used (scrub t)" using that p by (simp add: ph_used_def scrub_nth scrub_InUse)
      then have "(p, j) \<notin> ph_used t" using u by simp
      then show ?thesis using that p by (simp add: ph_used_def InUse_def)
    qed
    then have "map (\<lambda>j. if fst (f14_value (ph_table t ! p) ! j) = -1 then 0 else f14_tags (ph_table t ! p) ! j) [0..<kMaxSize] = f14_tags (ph_table t ! p)"
      using l by (intro nth_equalityI) auto
    with m show ?thesis by (simp add: scrub_chunk_def)
  qed
  then have "map scrub_chunk (ph_table t) = ph_table t" by (intro nth_equalityI) simp_all
  then show ?thesis by (simp add: scrub_def)
qed

text \<open>A table whose slots in use are those of a well-formed one but for a key -1 left in some: \<open>Valid\<close> counts them.\<close>

lemma ph_Valid_scrub:
  assumes ok: "ph_ok crc (scrub t)" and used: "ph_used t = ph_used (scrub t) \<union> W" "ph_used (scrub t) \<inter> W = {}"
    and lens: "\<forall>c \<in> set (ph_table t). length (f14_tags c) = kMaxSize" and absent: "ph_map (scrub t) (-1) = None"
  shows "ph_Valid crc chunk_bytes (64 + ph_chunk_num t * chunk_bytes) t = Inr True \<longleftrightarrow> W = {}"
proof -
  from ok obtain k where t: "ph_inv crc k (\<lambda>p. 0) (scrub t)" by (auto simp: ph_ok_def)
  have sz: "ph_sized k t" using ph_inv_sized [OF t] by simp
  have k: "k \<le> 40" using sz by (simp add: ph_sized_def)
  have c0: "ph_capacity t \<noteq> 0" using unat_capacity [OF sz] by auto
  have le: "\<not> ph_capacity t < ph_size t"
    using card_ph_used_le [OF t] unat_capacity [OF sz] ph_inv_card [OF t] by (simp add: word_less_nat_alt)
  have cap: "ph_chunk_num t * 14 = ph_capacity t" using sz by (simp add: ph_sized_def)
  have mem: "ph_MemorySize id chunk_bytes (ph_capacity t) True = Inr (64 + ph_chunk_num t * chunk_bytes)"
    using OverFall_exact [OF sz] by (simp add: ph_MemorySize_def ph_effective_def)
  have sum: "sum_list (map (\<lambda>c. ucast (f14_size c)) (ph_table t)) = ph_size t"
    using size_sum [OF t] by (simp add: scrub_def comp_def)
  have size: "of_nat (card (ph_used (scrub t))) = ph_size t" using ph_inv_card [OF t] by (simp flip: ph_inv_card [OF t])
  have fW: "finite W" using used(1) by (metis finite_Un finite_ph_used)
  have n: "length (filter (\<lambda>i. IndexInUse i t) [0..<unat (ph_capacity t)]) = card (ph_used (scrub t)) + card W"
    unfolding unat_capacity [OF sz] slots_in_use [OF sz] used(1) using used(2) fW by (intro card_Un_disjoint) simp_all
  show ?thesis
  proof (cases "W = {}")
    case True
    have "\<exists>v. ph_Get crc t (fst (ph_GetById i t)) = Inr (Some v)" if i: "IndexInUse i t" for i
    proof -
      have x: "(i div 14, i mod 14) \<in> ph_used (scrub t)" "i div 14 < length (ph_table t)"
        using i True used(1) sz by (auto simp: IndexInUse_iff [OF sz] ph_sized_def)
      have "ph_entry (scrub t) (i div 14, i mod 14) = ph_GetById i t"
        using x(2) by (simp add: ph_entry_def ph_GetById_def scrub_nth)
      with ph_map_entry [OF t x(1)] have m: "ph_map (scrub t) (fst (ph_GetById i t)) = Some (snd (ph_GetById i t))" by simp
      then have "fst (ph_GetById i t) \<noteq> -1" using absent by auto
      from scrub_Get [OF ok this lens] m show ?thesis by auto
    qed
    from valid_slots_found [OF this, of "[0..<unat (ph_capacity t)]" 0]
    have "valid_slots crc t [0..<unat (ph_capacity t)] 0 = Inr (Some (ph_size t))" using n True size by simp
    with c0 le cap mem sum True show ?thesis by (simp add: ph_Valid_def)
  next
    case False
    have "m \<noteq> ph_size t" if "valid_slots crc t [0..<unat (ph_capacity t)] 0 = Inr (Some m)" for m
    proof -
      have m: "m = ph_size t + of_nat (card W)" using valid_slots_count [OF that] n size by simp
      have "card W \<le> 14 * 2 ^ k" using n length_filter_le [of "\<lambda>i. IndexInUse i t" "[0..<unat (ph_capacity t)]"] unat_capacity [OF sz] by simp
      also have "\<dots> \<le> 14 * 2 ^ 40" using power_increasing [OF k, of "2 :: nat"] by simp
      finally have "unat (of_nat (card W) :: u64) = card W" by (intro unat_of_nat_small) simp
      moreover have "card W \<noteq> 0" using fW False by simp
      ultimately have "of_nat (card W) \<noteq> (0 :: u64)" by (metis unat_0)
      with m show ?thesis by simp
    qed
    with False sum show ?thesis by (auto simp: ph_Valid_def bind_result_def split: if_splits sum.splits option.splits)
  qed
qed

section \<open>Properties\<close>

text \<open>
  C17: Any sequence of \<open>Set\<close> and \<open>Delete\<close> on a new table. While every key that is new comes when fewer
  than 90% of the slots hold a key, deleted keys not counted, no operation fails and \<open>Get\<close> answers what a
  map would. Without \<open>force_insert\<close> the contents are exact in any case, or a full table has ended the
  process. With \<open>force_insert\<close> and at least two chunks no operation fails, and \<open>Get\<close> answers what a map would
  hold or, for a key that a full table evicted, nothing.
\<close>

theorem ph_run_refines_map:
  assumes "unat (ph_effective scaled ignore capacity) + 13 \<le> 14 * 2 ^ 40" and "\<forall>key. Op_Migrate key \<notin> set ops"
  shows "\<exists>t. ph_Initialize scaled capacity ignore = Inr t \<and> unat (ph_effective scaled ignore capacity) \<le> unat (ph_capacity t) \<and>
    (never_full (unat (ph_capacity t)) ops Map.empty \<longrightarrow>
      (\<exists>t'. ph_run crc force ops t = Inr t' \<and> (\<forall>key. ph_Get crc t' key = Inr (ph_spec ops Map.empty key)))) \<and>
    (\<not> force \<longrightarrow> ph_run crc force ops t = Inl Log_fatal \<or>
      (\<exists>t'. ph_run crc force ops t = Inr t' \<and> (\<forall>key. ph_Get crc t' key = Inr (ph_spec ops Map.empty key)))) \<and>
    (force \<and> 14 < unat (ph_capacity t) \<longrightarrow>
      (\<exists>t'. ph_run crc force ops t = Inr t' \<and>
        (\<forall>key. ph_Get crc t' key = Inr None \<or> ph_Get crc t' key = Inr (ph_spec ops Map.empty key))))"
proof -
  obtain k where k: "k \<le> 40" "ph_Initialize scaled capacity ignore = Inr (ph_fresh k)"
    "unat (ph_effective scaled ignore capacity) \<le> 14 * 2 ^ k" by (rule ph_Initialize_fresh [OF assms(1)])
  note f = ph_fresh_ok(1) [OF k(1), of crc] ph_fresh_ok(2) [OF k(1)]
  note ok = ph_okI [OF f(1)]
  note exact = ph_run_exact [OF ok assms(2), of force, unfolded f(2)]
  have evicting: "\<exists>t'. ph_run crc True ops (ph_fresh k) = Inr t' \<and>
      (\<forall>key. ph_Get crc t' key = Inr None \<or> ph_Get crc t' key = Inr (ph_spec ops Map.empty key))"
    if "14 < unat (ph_capacity (ph_fresh k))"
  proof -
    have "k \<noteq> 0" using that unat_ph_capacity [OF f(1)] by (cases k) auto
    then have "ph_chunk_num (ph_fresh k) \<noteq> 1" using two_pow_one [OF k(1)] by (simp add: ph_fresh_def)
    from ph_run_spec [OF ok this assms(2), of Map.empty] f(2) obtain t' where
      t': "ph_run crc True ops (ph_fresh k) = Inr t'" "ph_ok crc t'" "ph_map t' \<subseteq>\<^sub>m ph_spec ops Map.empty" by auto
    have "ph_map t' key = None \<or> ph_map t' key = ph_spec ops Map.empty key" for key
      using t'(3) unfolding map_le_def by (metis domI not_None_eq)
    with t' show ?thesis by (auto simp: ph_Get_map)
  qed
  show ?thesis
  proof (rule exI [of _ "ph_fresh k"], intro conjI impI)
    show "unat (ph_effective scaled ignore capacity) \<le> unat (ph_capacity (ph_fresh k))" using k(3) unat_ph_capacity [OF f(1)] by simp
    show "\<exists>t'. ph_run crc force ops (ph_fresh k) = Inr t' \<and> (\<forall>key. ph_Get crc t' key = Inr (ph_spec ops Map.empty key))"
      if "never_full (unat (ph_capacity (ph_fresh k))) ops Map.empty" using exact that by (auto simp: ph_Get_map)
    show "ph_run crc force ops (ph_fresh k) = Inl Log_fatal \<or>
      (\<exists>t'. ph_run crc force ops (ph_fresh k) = Inr t' \<and> (\<forall>key. ph_Get crc t' key = Inr (ph_spec ops Map.empty key)))"
      if "\<not> force" using exact that by (auto simp: ph_Get_map)
    show "\<exists>t'. ph_run crc force ops (ph_fresh k) = Inr t' \<and>
        (\<forall>key. ph_Get crc t' key = Inr None \<or> ph_Get crc t' key = Inr (ph_spec ops Map.empty key))"
      if "force \<and> 14 < unat (ph_capacity (ph_fresh k))" using evicting that by simp
  qed (rule k(2))
qed

theorem ph_run_refines_map_witness:
  "\<exists>t t'. ph_Initialize id 28 True = Inr t \<and>
     ph_run (\<lambda>_. 0) True (concat (replicate 14 [Op_Set 7 1, Op_Delete 7]) @ [Op_Set 8 2, Op_Set 9 3, Op_Set 8 4]) t = Inr t' \<and>
     ph_Get (\<lambda>_. 0) t' 7 = Inr None \<and> ph_Get (\<lambda>_. 0) t' 8 = Inr (Some 4) \<and> ph_Get (\<lambda>_. 0) t' 9 = Inr (Some 3)"
proof -
  let ?ops = "\<lambda>n. concat (replicate n [Op_Set 7 1, Op_Delete 7]) @ [Op_Set 8 2, Op_Set 9 3, Op_Set 8 4]"
  have nf: "never_full c (?ops n) Map.empty" if "28 \<le> c" for c n
    using that by (simp add: set_delete_rounds(2))
  have sp: "ph_spec (?ops n) Map.empty = [8 \<mapsto> 4, 9 \<mapsto> 3]" for n
    by (simp add: set_delete_rounds(1) fun_upd_twist)
  have "\<forall>key. Op_Migrate key \<notin> set (?ops 14)" by auto
  from ph_run_refines_map [OF _ this, of id True 28 "\<lambda>_. 0" True] nf [of _ 14] show ?thesis
    unfolding sp by (auto simp: ph_effective_def)
qed

text \<open>
  \<open>Set\<close> on a well-formed table stores the pair, after which \<open>Get\<close> finds it, and leaves the other keys
  alone but for those \<open>check_func\<close> gives up and at most one that a full table evicts. It ends the
  process only on a full table without \<open>force_insert\<close>, or of a single chunk. \<open>Delete\<close> removes the key.
\<close>

theorem ph_Set_Delete_correct:
  assumes "ph_ok crc t"
  shows "set_outcome crc check force key val t (ph_Set crc check force key val t) \<and>
    (\<forall>t' p. ph_Set crc check force key val t = Inr (t', p) \<longrightarrow> ph_Get crc t' key = Inr (Some val)) \<and>
    (\<exists>t'. ph_Delete crc key t = Inr (t', True) \<and> ph_ok crc t' \<and> ph_Get crc t' key = Inr None \<and>
      (\<forall>other. other \<noteq> key \<longrightarrow> ph_Get crc t' other = ph_Get crc t other))"
proof (intro conjI)
  show s: "set_outcome crc check force key val t (ph_Set crc check force key val t)" by (rule ph_Set_outcome [OF assms])
  show "\<forall>t' p. ph_Set crc check force key val t = Inr (t', p) \<longrightarrow> ph_Get crc t' key = Inr (Some val)"
    using s by (auto simp: set_outcome_def ph_Get_map)
  obtain t' where "ph_Delete crc key t = Inr (t', True)" "ph_ok crc t'" "ph_map t' = (ph_map t)(key := None)"
    by (rule ph_Delete_map [OF assms])
  then show "\<exists>t'. ph_Delete crc key t = Inr (t', True) \<and> ph_ok crc t' \<and> ph_Get crc t' key = Inr None \<and>
      (\<forall>other. other \<noteq> key \<longrightarrow> ph_Get crc t' other = ph_Get crc t other)"
    by (auto simp: ph_Get_map assms)
qed

theorem ph_Set_Delete_correct_witness:
  "\<exists>t' p. ph_Set (\<lambda>_. 0) None False 7 9 (ph_fresh 1) = Inr (t', p) \<and> ph_Get (\<lambda>_. 0) t' 7 = Inr (Some 9)"
proof -
  have ok: "ph_ok (\<lambda>_. 0) (ph_fresh 1)" by (rule ph_okI [OF ph_fresh_ok(1)]) simp
  have "\<not> ph_Full (ph_fresh 1)" by (simp add: ph_Full_def ph_fresh_def)
  with ph_Set_Delete_correct [OF ok, of None False 7 9] show ?thesis by (auto simp: set_outcome_def)
qed

text \<open>
  C21: \<open>Reload\<close> after a crash that kept the entries and nothing else: sizes, overflow counters, migration flags
  and tags are arbitrary. It always returns; every stored key is then found with its value, and no key other
  than -1 appears. A key that is not stored is found absent, unless a chunk was left with its
  migration flag set: \<open>Reload\<close> does not reset it, and \<open>Get\<close> then may wait for ever. The allocator is told
  of every stored entry once, and of one phantom entry with the key -1 for every free slot that kept the tag
  of a deleted key: \<open>Delete\<close> does not flush the tag and \<open>Reload\<close> does not clear it. \<open>Valid\<close> accepts the
  result exactly if there is no such slot, and without flags left set the table is then well-formed.
\<close>

theorem ph_Reload_recovers:
  assumes "ph_ok crc t" and "ph_map t (-1) = None" and "crash_image t t0" and "0 < threads"
    and "OverFallChunkNum (ph_effective scaled ignore capacity) = Inr (ph_chunk_num t)"
  shows "\<exists>t' calls. ph_Reload crc scaled threads capacity ignore t0 = Inr (t', calls) \<and>
    (\<forall>key. key \<noteq> -1 \<longrightarrow> ph_Get crc t' key = ph_Get crc t key \<or>
      (ph_Get crc t key = Inr None \<and> \<not> quiet t0 \<and> ph_Get crc t' key = Inl No_return)) \<and>
    distinct (map fst (filter (\<lambda>e. fst e \<noteq> -1) calls)) \<and> map_of (filter (\<lambda>e. fst e \<noteq> -1) calls) = ph_map t \<and>
    length (filter (\<lambda>e. fst e = -1) calls) = card (stale t t0) \<and>
    (ph_Valid crc chunk_bytes (64 + ph_chunk_num t * chunk_bytes) t' = Inr True \<longleftrightarrow> stale t t0 = {}) \<and>
    (stale t t0 = {} \<and> quiet t0 \<longrightarrow> ph_ok crc t')"
proof -
  obtain t' calls where R: "ph_Reload crc scaled threads capacity ignore t0 = Inr (t', calls)"
    and ok: "ph_ok crc (scrub t')" and m: "ph_map (scrub t') = ph_map t" and n: "ph_chunk_num t' = ph_chunk_num t"
    and u: "ph_used (scrub t') = ph_used t" "ph_used t' = ph_used t \<union> stale t t0" and q: "quiet t' = quiet t0"
    and lens: "\<forall>c \<in> set (ph_table t'). length (f14_tags c) = kMaxSize"
    and calls: "distinct (map fst (filter (\<lambda>e. fst e \<noteq> -1) calls))" "map_of (filter (\<lambda>e. fst e \<noteq> -1) calls) = ph_map t"
      "length (filter (\<lambda>e. fst e = -1) calls) = card (stale t t0)"
    using reload_recovers [OF assms] by blast
  have "ph_Get crc t' key = ph_Get crc t key \<or> (ph_Get crc t key = Inr None \<and> \<not> quiet t0 \<and> ph_Get crc t' key = Inl No_return)"
    if "key \<noteq> -1" for key using scrub_Get [OF ok that lens] by (simp add: m q ph_Get_map [OF assms(1)])
  moreover have "ph_Valid crc chunk_bytes (64 + ph_chunk_num t * chunk_bytes) t' = Inr True \<longleftrightarrow> stale t t0 = {}"
    using ph_Valid_scrub [OF ok, of "stale t t0"] u lens m n assms(2) by (simp add: stale_def)
  moreover have "ph_ok crc t'" if "stale t t0 = {} \<and> quiet t0"
    using ok scrub_same [OF lens] that u q by simp
  ultimately show ?thesis using R calls by blast
qed

definition torn :: "pethash \<Rightarrow> pethash" where
  "torn t = t\<lparr>ph_size := 99, ph_table := map (\<lambda>c. c\<lparr>f14_size := 3, f14_overflow := 200, f14_tags := replicate 14 129\<rparr>) (ph_table t)\<rparr>"

theorem ph_Reload_recovers_witness:
  "\<exists>t t' calls. ph_run (\<lambda>_. 0) False [Op_Set 7 1, Op_Set 8 2, Op_Delete 8] (ph_fresh 1) = Inr t \<and>
     ph_Reload (\<lambda>_. 0) id 4 28 True (torn t) = Inr (t', calls) \<and> ph_Get (\<lambda>_. 0) t' 7 = Inr (Some 1) \<and> ph_Get (\<lambda>_. 0) t' 8 = Inr None \<and>
     length (filter (\<lambda>e. fst e = -1) calls) = 27 \<and> ph_Valid (\<lambda>_. 0) 0 64 t' \<noteq> Inr True"
proof -
  let ?ops = "[Op_Set 7 1, Op_Set 8 2, Op_Delete 8]"
  have f: "ph_inv (\<lambda>_. 0) 1 (\<lambda>p. 0) (ph_fresh 1)" "ph_map (ph_fresh 1) = Map.empty" by (rule ph_fresh_ok; simp)+
  have c: "unat (ph_capacity (ph_fresh 1)) = 28" using unat_ph_capacity [OF f(1)] by simp
  have "never_full 28 ?ops Map.empty" by simp
  with ph_run_exact [OF ph_okI [OF f(1)], of ?ops False] c f(2) obtain t where
    t: "ph_run (\<lambda>_. 0) False ?ops (ph_fresh 1) = Inr t" "ph_ok (\<lambda>_. 0) t" "ph_map t = [7 \<mapsto> 1]"
    and "ph_chunk_num t = ph_chunk_num (ph_fresh 1)" by (auto simp: fun_upd_twist)
  then have n: "ph_chunk_num t = 2" by (simp add: ph_fresh_def)
  from t(2) obtain k where inv: "ph_inv (\<lambda>_. 0) k (\<lambda>p. 0) t" by (auto simp: ph_ok_def)
  have len: "length (ph_table t) = 2" using unat_chunk_num [OF ph_inv_sized [OF inv]] ph_inv_length [OF inv] n by simp
  have image: "crash_image t (torn t)" by (simp add: crash_image_def torn_def kMaxSize_def)
  have quiet: "quiet (torn t)" using ph_inv_still [OF inv] ph_inv_length [OF inv] by (auto simp: quiet_def torn_def in_set_conv_nth)
  have "ph_used (torn t) = {..<2} \<times> {..<14}" using len by (auto simp: ph_used_def torn_def InUse_def kMaxSize_def)
  moreover have "ph_used t \<subseteq> {..<2} \<times> {..<14}" using len by (auto simp: ph_used_def kMaxSize_def)
  moreover have "card (ph_used t) = 1" using card_dom_ph_map [OF inv] t(3) by simp
  ultimately have stale: "card (stale t (torn t)) = 27" by (simp add: stale_def card_Diff_subset)
  have cap: "OverFallChunkNum (ph_effective id True 28) = Inr (ph_chunk_num t)" unfolding n by code_simp
  from ph_Reload_recovers [OF t(2) _ image _ cap, of 4 0] t(3) obtain t' calls where
    R: "ph_Reload (\<lambda>_. 0) id 4 28 True (torn t) = Inr (t', calls)"
    "\<And>key. key \<noteq> -1 \<Longrightarrow> ph_Get (\<lambda>_. 0) t' key = ph_Get (\<lambda>_. 0) t key"
    "length (filter (\<lambda>e. fst e = -1) calls) = 27" "ph_Valid (\<lambda>_. 0) 0 64 t' \<noteq> Inr True"
    using quiet stale by auto
  from R(2) [of 7] R(2) [of 8] t(3) have "ph_Get (\<lambda>_. 0) t' 7 = Inr (Some 1)" "ph_Get (\<lambda>_. 0) t' 8 = Inr None"
    by (simp_all add: ph_Get_map [OF t(2)])
  with t(1) R(1,3,4) show ?thesis by blast
qed

definition hiding_run :: "ph_op list" where
  "hiding_run = map (\<lambda>i. Op_Set (4 * of_nat i) 1) [0..<15] @ map (\<lambda>i. Op_Set (4 * of_nat i + 1) 2) [0..<14] @ [Op_Delete 0]"

text \<open>
  \<open>HotnessAwareMigration\<close> can make another key invisible. Keys 0, 4, ..., 56 overflow chunk 0 into
  chunk 1, keys 1, 5, ..., 53 overflow chunk 1 into chunk 2; after a delete has made room in chunk 0,
  moving key 56 home takes the overflow mark of chunk 1, which was that of key 53.
\<close>

theorem migration_hides_a_key:
  "bind_result (ph_run (\<lambda>_. 0) False hiding_run (ph_fresh 2)) (\<lambda>t. ph_Get (\<lambda>_. 0) t 53) = Inr (Some 2) \<and>
   bind_result (ph_run (\<lambda>_. 0) False (hiding_run @ [Op_Migrate 56]) (ph_fresh 2)) (\<lambda>t. ph_Get (\<lambda>_. 0) t 53) = Inr None"
  unfolding hiding_run_def by code_simp

end
