(* ===== verification/FlatBlock.thy ===== *)
theory FlatBlock
  imports Prelude
begin

unbundle bit_operations_syntax

text \<open>
  The flat item blocks of the wire format (\<open>base/flatc.h\<close>): an item count, the end offset of
  every item, and the items' bytes one after the other; the compressor that builds them and the
  reader that looks into them. The reader trusts its buffer, which may come from another machine,
  so every read is checked here against the buffer's end: outside of it is \<open>Bad_access\<close>.
  A C++ \<open>int\<close> is a 32-bit word read with \<^const>\<open>sint\<close>, converted to \<open>size_t\<close> by \<^const>\<open>scast\<close>.
\<close>

section \<open>Integers in a byte buffer\<close>

definition le_bytes :: "nat \<Rightarrow> u64 \<Rightarrow> u8 list" where
  "le_bytes n w = map (\<lambda>i. ucast (drop_bit (8 * i) w)) [0..<n]"

definition read_bytes :: "u8 list \<Rightarrow> int \<Rightarrow> nat \<Rightarrow> u8 list result" where
  "read_bytes bs p n =
     (if 0 \<le> p \<and> p + int n \<le> int (length bs) then Inr (take n (drop (nat p) bs)) else Inl Bad_access)"

definition read_u64 :: "u8 list \<Rightarrow> int \<Rightarrow> u64 result" where
  "read_u64 bs p = bind_result (read_bytes bs p 8) (\<lambda>xs. Inr (le_word xs))"

definition read_u32 :: "u8 list \<Rightarrow> int \<Rightarrow> u32 result" where
  "read_u32 bs p = bind_result (read_bytes bs p 4) (\<lambda>xs. Inr (ucast (le_word xs)))"

definition int_bytes :: "u32 \<Rightarrow> u8 list" where "int_bytes w = le_bytes 4 (ucast w)"

section \<open>The reader\<close>

text \<open>\<open>FlatItemCompressReader\<close>; an item is the position in the buffer at which it starts.\<close>

definition fr_size :: "u8 list \<Rightarrow> u32 result" where "fr_size bs = read_u32 bs 0"

definition fr_offset :: "int \<Rightarrow> u8 list \<Rightarrow> u32 result" where
  "fr_offset i bs = (if 0 < i then read_u32 bs (4 + 4 * (i - 1)) else Inr 0)"

definition fr_item :: "int \<Rightarrow> u8 list \<Rightarrow> int result" where
  "fr_item i bs =
     bind_result (fr_size bs) (\<lambda>n. bind_result (fr_offset i bs) (\<lambda>off. Inr (4 + 4 * sint n + sint off)))"

definition fr_byte_size :: "u8 list \<Rightarrow> u32 result" where
  "fr_byte_size bs =
     bind_result (fr_size bs) (\<lambda>n. bind_result (fr_offset (sint n) bs)
       (\<lambda>off. Inr (ucast (4 + scast n * 4 + scast off :: u64))))"

definition fr_Valid :: "u32 \<Rightarrow> u8 list \<Rightarrow> bool result" where
  "fr_Valid expect_bytes bs =
     (if (scast expect_bytes :: u64) < 4 then Inr False
      else bind_result (fr_byte_size bs) (\<lambda>b. Inr (b = expect_bytes)))"

text \<open>\<open>FlatKVCompressReader\<close>: keys in front, then an item block for the values.\<close>

definition kr_key :: "int \<Rightarrow> u8 list \<Rightarrow> u64 result" where
  "kr_key i bs = read_u64 bs (4 + 8 * i)"

definition kr_values :: "u8 list \<Rightarrow> u8 list result" where
  "kr_values bs =
     bind_result (fr_size bs) (\<lambda>n.
       let p = 4 + 8 * sint n in
       if 0 \<le> p \<and> p \<le> int (length bs) then Inr (drop (nat p) bs) else Inl Bad_access)"

definition kr_value :: "int \<Rightarrow> u8 list \<Rightarrow> int result" where
  "kr_value i bs =
     bind_result (kr_values bs) (\<lambda>vs. bind_result (fr_item i vs)
       (\<lambda>p. Inr (int (length bs) - int (length vs) + p)))"

definition kr_byte_size :: "u8 list \<Rightarrow> u32 result" where
  "kr_byte_size bs =
     bind_result (fr_size bs) (\<lambda>n. bind_result (kr_values bs) (\<lambda>vs. bind_result (fr_byte_size vs)
       (\<lambda>b. Inr (ucast (4 + scast n * 8 + scast b :: u64)))))"

definition kr_Valid :: "u32 \<Rightarrow> u8 list \<Rightarrow> bool result" where
  "kr_Valid expect_bytes bs =
     (if (scast expect_bytes :: u64) < 4 then Inr False
      else bind_result (kr_byte_size bs) (\<lambda>b.
        if b \<noteq> expect_bytes then Inr False
        else bind_result (fr_size bs) (\<lambda>n. bind_result (kr_values bs) (\<lambda>vs.
          bind_result (fr_size vs) (\<lambda>m. Inr (n = m))))))"

section \<open>The compressor\<close>

text \<open>
  \<open>FlatItemCompressor\<close>. What \<open>FlatItemDetail::CompressAppend\<close> appends for an item is the item here.
\<close>

record compressor =
  fc_block_size :: u32
  fc_offsets :: "u32 list"
  fc_item_data :: "u8 list"

definition kDefaultBlockSize :: u32 where "kDefaultBlockSize = 16 * 2 ^ 20"

definition fc_Clear :: "compressor \<Rightarrow> compressor" where
  "fc_Clear c = c\<lparr>fc_offsets := (case fc_offsets c of [] \<Rightarrow> [0] | x # _ \<Rightarrow> [x]), fc_item_data := []\<rparr>"

definition fc_new :: "u32 \<Rightarrow> compressor" where
  "fc_new b = fc_Clear \<lparr>fc_block_size = b, fc_offsets = [], fc_item_data = []\<rparr>"

definition fc_byte_size :: "compressor \<Rightarrow> u32" where
  "fc_byte_size c = of_nat (length (fc_offsets c) * 4 + length (fc_item_data c))"

definition fc_append :: "u8 list \<Rightarrow> compressor \<Rightarrow> compressor" where
  "fc_append item c =
     (let d = fc_item_data c @ item in
      c\<lparr>fc_item_data := d, fc_offsets := fc_offsets c @ [of_nat (length d)]\<rparr>)"

definition fc_AppendToBlock :: "u8 list \<Rightarrow> compressor \<Rightarrow> u8 list \<times> compressor" where
  "fc_AppendToBlock block c =
     (if length (fc_offsets c) < 2 then (block, c)
      else let offs = (fc_offsets c)[0 := of_nat (length (fc_offsets c) - 1)] in
        (block @ concat (map int_bytes offs) @ fc_item_data c, fc_Clear (c\<lparr>fc_offsets := offs\<rparr>)))"

definition fc_ToBlock1 :: "u8 list \<Rightarrow> compressor \<Rightarrow> u8 list \<times> compressor" where
  "fc_ToBlock1 block c =
     (if length (fc_offsets c) < 2 then (block, c) else fc_AppendToBlock [] c)"

definition fc_ToBlock :: "u8 list list \<Rightarrow> compressor \<Rightarrow> nat \<times> u8 list list \<times> compressor" where
  "fc_ToBlock blocks c =
     (let pblock = first_index (\<lambda>b. b = []) blocks;
          n = (case pblock of None \<Rightarrow> length blocks | Some i \<Rightarrow> i) in
      if length (fc_offsets c) < 2 then (n, blocks, c)
      else let blocks' = (if pblock = None then blocks @ [[]] else blocks);
               (b, c') = fc_ToBlock1 (blocks' ! n) c in
        (n + 1, blocks'[n := b], c'))"

text \<open>\<open>AddItem\<close>, with the null pointer as \<^const>\<open>None\<close>.\<close>

definition fc_AddItem ::
  "u8 list \<Rightarrow> u8 list list option \<Rightarrow> compressor \<Rightarrow> nat \<times> u8 list list option \<times> compressor" where
  "fc_AddItem item blocks c =
     (let c1 = fc_append item c in
      case blocks of
        None \<Rightarrow> (0, None, c1)
      | Some bl \<Rightarrow>
          if sint (fc_byte_size c1) \<ge> sint (fc_block_size c1)
          then (let (n, bl', c2) = fc_ToBlock bl c1 in (n, Some bl', c2))
          else (0, Some bl, c1))"

definition fc_BatchAddItems :: "u8 list list \<Rightarrow> compressor \<Rightarrow> compressor" where
  "fc_BatchAddItems its c = fold fc_append its c"

text \<open>\<open>AppendToIOBuf\<close>: the same bytes, appended to an \<open>IOBuf\<close>.\<close>

definition fc_AppendToIOBuf :: "u8 list \<Rightarrow> compressor \<Rightarrow> u8 list \<times> compressor" where
  "fc_AppendToIOBuf buf c =
     (if length (fc_offsets c) < 2 then (buf, c)
      else let offs = (fc_offsets c)[0 := of_nat (length (fc_offsets c) - 1)] in
        (buf @ concat (map int_bytes offs) @ fc_item_data c, fc_Clear (c\<lparr>fc_offsets := offs\<rparr>)))"

text \<open>\<open>FlatKVCompressor\<close>; its value compressor has the default block size, which it never uses.\<close>

record kv_compressor =
  kc_block_size :: u32
  kc_keys :: "u64 list"
  kc_values :: compressor

definition kc_new :: "u32 \<Rightarrow> kv_compressor" where
  "kc_new b = \<lparr>kc_block_size = b, kc_keys = [], kc_values = fc_new kDefaultBlockSize\<rparr>"

definition kc_Clear :: "kv_compressor \<Rightarrow> kv_compressor" where
  "kc_Clear c = c\<lparr>kc_keys := []\<rparr>"

definition kc_byte_size :: "kv_compressor \<Rightarrow> u32" where
  "kc_byte_size c = ucast (4 + 8 * of_nat (length (kc_keys c)) + scast (fc_byte_size (kc_values c)) :: u64)"

definition kc_AppendToIOBuf :: "u8 list \<Rightarrow> kv_compressor \<Rightarrow> u8 list \<times> kv_compressor" where
  "kc_AppendToIOBuf buf c =
     (if length (kc_keys c) < 1 then (buf, c)
      else let b1 = buf @ int_bytes (of_nat (length (kc_keys c)));
               b2 = b1 @ concat (map (le_bytes 8) (kc_keys c));
               (b3, vc) = fc_AppendToIOBuf b2 (kc_values c) in
        (b3, kc_Clear (c\<lparr>kc_values := vc\<rparr>)))"

definition kc_ToBlock :: "u8 list list \<Rightarrow> kv_compressor \<Rightarrow> u8 list list \<times> kv_compressor" where
  "kc_ToBlock blocks c =
     (if length (kc_keys c) < 1 then (blocks, c)
      else let b1 = int_bytes (of_nat (length (kc_keys c)));
               b2 = b1 @ concat (map (le_bytes 8) (kc_keys c));
               (b3, vc) = fc_AppendToBlock b2 (kc_values c) in
        (blocks @ [b3], kc_Clear (c\<lparr>kc_values := vc\<rparr>)))"

definition kc_AddItem ::
  "u64 \<Rightarrow> u8 list \<Rightarrow> u8 list list \<Rightarrow> kv_compressor \<Rightarrow> u8 list list \<times> kv_compressor" where
  "kc_AddItem key item blocks c =
     (let c1 = c\<lparr>kc_keys := kc_keys c @ [key],
                 kc_values := snd (snd (fc_AddItem item None (kc_values c)))\<rparr> in
      if sint (kc_byte_size c1) \<ge> sint (kc_block_size c1) then kc_ToBlock blocks c1 else (blocks, c1))"

section \<open>Bytes and words\<close>

lemma length_le_bytes [simp]: "length (le_bytes n w) = n"
  by (simp add: le_bytes_def)

lemma length_int_bytes [simp]: "length (int_bytes w) = 4"
  by (simp add: int_bytes_def)

lemma le_word_le_bytes: "le_word (le_bytes n w) = take_bit (8 * n) w"
proof (rule bit_eqI)
  fix i
  assume "possible_bit TYPE(64 word) i"
  have "i div 8 < n \<longleftrightarrow> i < 8 * n" by (simp add: div_less_iff_less_mult mult.commute)
  moreover have "8 * (i div 8) + i mod 8 = i" by simp
  ultimately show "bit (le_word (le_bytes n w)) i \<longleftrightarrow> bit (take_bit (8 * n) w) i"
    by (auto simp: bit_le_word le_bytes_def bit_take_bit_iff bit_unsigned_iff bit_drop_bit_eq
        dest: bit_imp_le_length)
qed

lemma le_word_bytes8 [simp]: "le_word (le_bytes 8 w) = w"
  by (rule bit_eqI) (auto simp: le_word_le_bytes bit_take_bit_iff dest: bit_imp_le_length)

lemma le_word_int_bytes [simp]: "ucast (le_word (int_bytes w)) = w"
  by (rule bit_eqI)
    (auto simp: int_bytes_def le_word_le_bytes bit_unsigned_iff bit_take_bit_iff dest: bit_imp_le_length)

lemma take_drop_concat:
  "i < length xs \<Longrightarrow> take (length (xs ! i)) (drop (length (concat (take i xs))) (concat xs)) = xs ! i"
proof -
  assume i: "i < length xs"
  have "concat xs = concat (take i xs) @ xs ! i @ concat (drop (Suc i) xs)"
    using arg_cong [where f = concat, OF id_take_nth_drop [OF i]] by simp
  then show ?thesis by simp
qed

lemma length_concat_uniform: "\<forall>x \<in> set xs. length x = k \<Longrightarrow> length (concat xs) = k * length xs"
  by (induction xs) auto

lemma nth_concat_uniform:
  assumes "\<forall>x \<in> set xs. length x = k" and "i < length xs"
  shows "take k (drop (k * i) (concat xs)) = xs ! i"
proof -
  have "length (concat (take i xs)) = k * i"
    using length_concat_uniform [of "take i xs" k] assms by (auto dest: in_set_takeD)
  with take_drop_concat [OF assms(2)] assms show ?thesis by simp
qed

lemma read_bytes_at:
  "read_bytes (xs @ ys @ zs) (int (length xs)) (length ys) = Inr ys"
  by (simp add: read_bytes_def)

lemma read_bytes_split:
  assumes "bs = xs @ ys @ zs" and "p = int (length xs)" and "n = length ys"
  shows "read_bytes bs p n = Inr ys"
  using assms read_bytes_at by simp

lemma read_u32_split:
  assumes "bs = xs @ int_bytes w @ zs" and "p = int (length xs)"
  shows "read_u32 bs p = Inr w"
  using read_bytes_split [OF assms, of 4] by (simp add: read_u32_def)

lemma read_u64_split:
  assumes "bs = xs @ le_bytes 8 w @ zs" and "p = int (length xs)"
  shows "read_u64 bs p = Inr w"
  using read_bytes_split [OF assms, of 8] by (simp add: read_u64_def)

lemma concat_map_split:
  assumes "i < length ws"
  shows "concat (map f ws) = concat (map f (take i ws)) @ f (ws ! i) @ concat (map f (drop (Suc i) ws))"
  by (subst id_take_nth_drop [OF assms]) simp

lemma length_concat_int_bytes [simp]: "length (concat (map int_bytes ws)) = 4 * length ws"
  by (induction ws) simp_all

lemma length_concat_le_bytes [simp]: "length (concat (map (le_bytes n) ws)) = n * length ws"
  by (induction ws) simp_all

lemma sint_of_nat_small: "n < 2 ^ 31 \<Longrightarrow> sint (of_nat n :: u32) = int n"
  by (simp add: signed_of_nat signed_take_bit_int_eq_self)

lemma scast_of_nat_small: "n < 2 ^ 31 \<Longrightarrow> (scast (of_nat n :: u32) :: u64) = of_nat n"
  by (simp add: signed_of_nat signed_take_bit_int_eq_self)

section \<open>Blocks\<close>

text \<open>The end offsets of items that start at \<open>n\<close>, and the block that holds the items.\<close>

fun ends :: "nat \<Rightarrow> u8 list list \<Rightarrow> nat list" where
  "ends n [] = []"
| "ends n (it # its) = (n + length it) # ends (n + length it) its"

definition block :: "u8 list list \<Rightarrow> u8 list" where
  "block its = concat (map int_bytes (map of_nat (length its # ends 0 its))) @ concat its"

lemma length_ends [simp]: "length (ends n its) = length its"
  by (induction its arbitrary: n) simp_all

lemma nth_ends: "i < length its \<Longrightarrow> ends n its ! i = n + length (concat (take (Suc i) its))"
proof (induction its arbitrary: n i)
  case (Cons it its)
  then show ?case by (cases i) simp_all
qed simp

lemma ends_append: "ends n (xs @ ys) = ends n xs @ ends (n + length (concat xs)) ys"
  by (induction xs arbitrary: n) (simp_all add: add.assoc)

lemma length_block: "length (block its) = 4 + 4 * length its + length (concat its)"
  by (simp add: block_def del: map_map)

lemma block_header: "fr_size (block its) = Inr (of_nat (length its))"
  unfolding fr_size_def by (rule read_u32_split [of _ "[]"]) (simp_all add: block_def)

lemma block_offset:
  assumes "i \<le> length its"
  shows "fr_offset (int i) (block its) = Inr (of_nat (length (concat (take i its))))"
proof (cases i)
  case 0
  then show ?thesis by (simp add: fr_offset_def)
next
  case (Suc j)
  define ws where "ws = map (of_nat :: nat \<Rightarrow> u32) (ends 0 its)"
  have j: "j < length ws" "ws ! j = of_nat (length (concat (take i its)))"
    using assms Suc by (simp_all add: ws_def nth_ends)
  have "read_u32 (block its) (4 + 4 * int j) = Inr (ws ! j)"
  proof (rule read_u32_split)
    show "block its = (int_bytes (of_nat (length its)) @ concat (map int_bytes (take j ws))) @
        int_bytes (ws ! j) @ concat (map int_bytes (drop (Suc j) ws)) @ concat its"
      using concat_map_split [OF j(1), of int_bytes] by (simp add: block_def ws_def)
    show "4 + 4 * int j = int (length (int_bytes (of_nat (length its)) @ concat (map int_bytes (take j ws))))"
      using j(1) by simp
  qed
  then show ?thesis using Suc j(2) by (simp add: fr_offset_def)
qed

lemma length_concat_take_le: "length (concat (take i xs)) \<le> length (concat xs)"
  by (metis append_take_drop_id concat_append length_append le_add1)

lemma block_item:
  assumes i: "i \<le> length its" and small: "length (block its) < 2 ^ 31"
  shows "fr_item (int i) (block its) = Inr (4 + 4 * int (length its) + int (length (concat (take i its))))"
proof -
  have "length (concat (take i its)) < 2 ^ 31" "length its < 2 ^ 31"
    using small length_concat_take_le [of i its] by (simp_all add: length_block)
  then show ?thesis
    using block_offset [of i its] i by (simp add: fr_item_def block_header sint_of_nat_small)
qed

lemma block_item_bytes:
  assumes "i < length its"
  shows "read_bytes (block its) (4 + 4 * int (length its) + int (length (concat (take i its)))) (length (its ! i))
    = Inr (its ! i)"
proof (rule read_bytes_split)
  let ?h = "concat (map int_bytes (map of_nat (length its # ends 0 its)))"
  show "block its = (?h @ concat (take i its)) @ its ! i @ concat (drop (Suc i) its)"
    using arg_cong [where f = concat, OF id_take_nth_drop [OF assms]] by (simp add: block_def)
qed (simp_all del: map_map)

lemma block_Valid:
  assumes small: "length (block its) < 2 ^ 31"
  shows "fr_byte_size (block its) = Inr (of_nat (length (block its)))"
    and "fr_Valid (of_nat (length (block its))) (block its) = Inr True"
proof -
  have n: "length its < 2 ^ 31" "length (concat its) < 2 ^ 31" using small by (simp_all add: length_block)
  have "(4 + of_nat (length its) * 4 + of_nat (length (concat its)) :: u64) = of_nat (length (block its))"
    by (simp add: length_block)
  moreover have "ucast (of_nat (length (block its)) :: u64) = (of_nat (length (block its)) :: u32)"
    using small by (simp add: unsigned_of_nat take_bit_nat_eq_self)
  ultimately have "ucast (4 + of_nat (length its) * 4 + of_nat (length (concat its)) :: u64) = (of_nat (length (block its)) :: u32)"
    by simp
  then show b: "fr_byte_size (block its) = Inr (of_nat (length (block its)))"
    using block_offset [of "length its" its] n
    by (simp add: fr_byte_size_def block_header sint_of_nat_small scast_of_nat_small)
  have "\<not> (scast (of_nat (length (block its)) :: u32) :: u64) < 4"
    unfolding scast_of_nat_small [OF small] using small
    by (simp add: word_less_nat_alt unat_of_nat_small length_block del: of_nat_add of_nat_Suc)
  with b show "fr_Valid (of_nat (length (block its))) (block its) = Inr True"
    by (simp add: fr_Valid_def)
qed

text \<open>What a reader gets who takes every item up to the start of the next one.\<close>

fun results :: "'a result list \<Rightarrow> 'a list result" where
  "results [] = Inr []"
| "results (r # rs) = bind_result r (\<lambda>x. bind_result (results rs) (\<lambda>xs. Inr (x # xs)))"

lemma results_map_Inr: "(\<And>x. x \<in> set xs \<Longrightarrow> f x = Inr (g x)) \<Longrightarrow> results (map f xs) = Inr (map g xs)"
  by (induction xs) auto

definition item_bytes :: "int \<Rightarrow> u8 list \<Rightarrow> u8 list result" where
  "item_bytes i bs =
     bind_result (fr_item i bs) (\<lambda>p. bind_result (fr_item (i + 1) bs) (\<lambda>q. read_bytes bs p (nat (q - p))))"

definition block_items :: "u8 list \<Rightarrow> u8 list list result" where
  "block_items bs = bind_result (fr_size bs) (\<lambda>n. results (map (\<lambda>i. item_bytes (int i) bs) [0..<nat (sint n)]))"

lemma item_bytes_block:
  assumes i: "i < length its" and small: "length (block its) < 2 ^ 31"
  shows "item_bytes (int i) (block its) = Inr (its ! i)"
proof -
  let ?p = "\<lambda>i. 4 + 4 * int (length its) + int (length (concat (take i its)))"
  have "fr_item (int i) (block its) = Inr (?p i)" "fr_item (int i + 1) (block its) = Inr (?p (Suc i))"
    using block_item [of i its] block_item [of "Suc i" its] i small by (simp_all add: add.commute)
  moreover have "?p (Suc i) - ?p i = int (length (its ! i))" using i by (simp add: take_Suc_conv_app_nth)
  ultimately show ?thesis
    unfolding item_bytes_def by (simp only: bind_result_simps nat_int block_item_bytes [OF i])
qed

lemma block_items_block: "length (block its) < 2 ^ 31 \<Longrightarrow> block_items (block its) = Inr its"
proof -
  assume s: "length (block its) < 2 ^ 31"
  then have "length its < 2 ^ 31" by (simp add: length_block)
  moreover have "results (map (\<lambda>i. item_bytes (int i) (block its)) [0..<length its]) = Inr (map ((!) its) [0..<length its])"
    using item_bytes_block s by (intro results_map_Inr) simp
  ultimately show ?thesis by (simp add: block_items_def block_header sint_of_nat_small map_nth)
qed

text \<open>The compressor between blocks: it holds the items added since the last one.\<close>

definition fc_holds :: "compressor \<Rightarrow> u8 list list \<Rightarrow> bool" where
  "fc_holds c its \<longleftrightarrow> fc_offsets c \<noteq> [] \<and> tl (fc_offsets c) = map of_nat (ends 0 its) \<and> fc_item_data c = concat its"

lemma fc_holds_length: "fc_holds c its \<Longrightarrow> length (fc_offsets c) = Suc (length its)"
  by (cases "fc_offsets c") (auto simp: fc_holds_def)

lemma fc_Clear_holds: "fc_holds (fc_Clear c) []"
  by (simp add: fc_holds_def fc_Clear_def split: list.splits)

lemma fc_Clear_block_size [simp]: "fc_block_size (fc_Clear c) = fc_block_size c"
  by (simp add: fc_Clear_def)

lemma fc_new_holds: "fc_holds (fc_new b) []" "fc_block_size (fc_new b) = b"
  by (simp_all add: fc_new_def fc_Clear_holds)

lemma fc_append_holds:
  "fc_holds c its \<Longrightarrow> fc_holds (fc_append it c) (its @ [it])"
  by (cases "fc_offsets c") (auto simp: fc_holds_def fc_append_def Let_def ends_append)

lemma fc_append_block_size [simp]: "fc_block_size (fc_append it c) = fc_block_size c"
  by (simp add: fc_append_def Let_def)

lemma fc_AddItem_None: "fc_AddItem it None c = (0, None, fc_append it c)"
  by (simp add: fc_AddItem_def)

lemma fc_BatchAddItems_holds:
  "fc_holds c its \<Longrightarrow> fc_holds (fc_BatchAddItems new c) (its @ new)"
  unfolding fc_BatchAddItems_def
proof (induction new arbitrary: c its)
  case (Cons it new)
  from Cons.IH [OF fc_append_holds [OF Cons.prems, of it]] show ?case by simp
qed simp

lemma fc_byte_size_holds:
  "fc_holds c its \<Longrightarrow> fc_byte_size c = of_nat (length (block its))"
  using fc_holds_length [of c its] by (simp add: fc_byte_size_def fc_holds_def length_block algebra_simps)

lemma fc_AppendToBlock_holds:
  assumes "fc_holds c its" and "its \<noteq> []"
  shows "fc_AppendToBlock buf c = (buf @ block its, snd (fc_AppendToBlock buf c))"
    and "fc_holds (snd (fc_AppendToBlock buf c)) []"
    and "fc_block_size (snd (fc_AppendToBlock buf c)) = fc_block_size c"
proof -
  have l: "length (fc_offsets c) = Suc (length its)" by (rule fc_holds_length [OF assms(1)])
  then obtain x where x: "fc_offsets c = x # map of_nat (ends 0 its)"
    using assms(1) by (cases "fc_offsets c") (auto simp: fc_holds_def)
  show "fc_AppendToBlock buf c = (buf @ block its, snd (fc_AppendToBlock buf c))"
    "fc_holds (snd (fc_AppendToBlock buf c)) []"
    "fc_block_size (snd (fc_AppendToBlock buf c)) = fc_block_size c"
    using assms by (simp_all add: fc_AppendToBlock_def Let_def x block_def fc_holds_def fc_Clear_def)
qed

lemma fc_AppendToBlock_empty: "fc_holds c [] \<Longrightarrow> fc_AppendToBlock buf c = (buf, c)"
  using fc_holds_length [of c "[]"] by (simp add: fc_AppendToBlock_def)

text \<open>The two ways to write a block give the same bytes.\<close>

lemma fc_AppendToIOBuf_eq: "fc_AppendToIOBuf buf c = fc_AppendToBlock buf c"
  by (simp add: fc_AppendToIOBuf_def fc_AppendToBlock_def)

lemma first_index_None: "\<forall>x \<in> set xs. \<not> P x \<Longrightarrow> first_index P xs = None"
  by (induction xs) auto

lemma fc_ToBlock_holds:
  assumes c: "fc_holds c its" "its \<noteq> []" and full: "[] \<notin> set blocks"
  shows "\<exists>c'. fc_ToBlock blocks c = (Suc (length blocks), blocks @ [block its], c') \<and> fc_holds c' [] \<and>
    fc_block_size c' = fc_block_size c"
proof -
  have none: "first_index (\<lambda>b. b = []) blocks = None" using full by (intro first_index_None) auto
  have "\<not> length (fc_offsets c) < 2" using fc_holds_length [OF c(1)] c(2) by (cases its) auto
  with none fc_AppendToBlock_holds [OF c, of "[]"] show ?thesis
    by (auto simp: fc_ToBlock_def fc_ToBlock1_def split: prod.splits)
qed

end
