(* ===== verification/FlatStream.thy ===== *)
theory FlatStream
  imports FlatBlock
begin

text \<open>
  Whole streams through the compressors: items added one by one, with a block written out
  whenever the compressor has grown to its block size and a last one at the end, are read back
  from the blocks in their order, none lost; and the same for keyed blocks.
\<close>

definition stream_add :: "u8 list \<Rightarrow> u8 list list \<times> compressor \<Rightarrow> u8 list list \<times> compressor" where
  "stream_add it s =
     (case fc_AddItem it (Some (fst s)) (snd s) of (_, bl, c) \<Rightarrow> (case bl of None \<Rightarrow> fst s | Some b \<Rightarrow> b, c))"

definition compress_stream :: "u32 \<Rightarrow> u8 list list \<Rightarrow> u8 list list" where
  "compress_stream b its =
     (let (bl, c) = fold stream_add its ([], fc_new b) in fst (snd (fc_ToBlock bl c)))"

definition stream_ok :: "u32 \<Rightarrow> u8 list list \<Rightarrow> u8 list list \<times> compressor \<Rightarrow> bool" where
  "stream_ok b its s \<longleftrightarrow>
     (\<exists>groups pend. fst s = map block groups \<and> [] \<notin> set groups \<and>
        (\<forall>g \<in> set groups. length (block g) < 2 ^ 31) \<and> fc_holds (snd s) pend \<and>
        fc_block_size (snd s) = b \<and> its = concat groups @ pend \<and>
        (pend = [] \<or> int (length (block pend)) < sint b))"

lemma block_nonempty: "block its \<noteq> []"
  using length_block [of its] by (metis add_is_0 list.size(3) zero_neq_numeral)

lemma length_block_snoc: "length (block (its @ [it])) = length (block its) + 4 + length it"
  by (simp add: length_block)

lemma stream_add_ok:
  assumes s: "stream_ok b its s" and small: "int (length it) + 8 + max 0 (sint b) < 2 ^ 31"
  shows "stream_ok b (its @ [it]) (stream_add it s)"
proof -
  obtain groups pend where G: "fst s = map block groups" "[] \<notin> set groups"
    "\<forall>g \<in> set groups. length (block g) < 2 ^ 31" "fc_holds (snd s) pend" "fc_block_size (snd s) = b"
    "its = concat groups @ pend" "pend = [] \<or> int (length (block pend)) < sint b"
    using s by (auto simp: stream_ok_def)
  let ?c = "fc_append it (snd s)" and ?p = "pend @ [it]"
  have c: "fc_holds ?c ?p" "fc_block_size ?c = b"
    using fc_append_holds [OF G(4)] G(5) by simp_all
  have lt: "int (length (block ?p)) < 2 ^ 31"
  proof (cases "pend = []")
    case True
    have "length (block ?p) = 8 + length it" using True by (simp add: length_block)
    with small show ?thesis by linarith
  next
    case False
    with G(7) small show ?thesis unfolding length_block_snoc by linarith
  qed
  then have small': "length (block ?p) < 2 ^ 31" by simp
  have byte_size: "sint (fc_byte_size ?c) = int (length (block ?p))"
    unfolding fc_byte_size_holds [OF c(1)] by (rule sint_of_nat_small [OF small'])
  show ?thesis
  proof (cases "int (length (block ?p)) \<ge> sint b")
    case True
    have "[] \<notin> set (map block groups)" using block_nonempty by (metis ex_map_conv)
    from fc_ToBlock_holds [OF c(1) _ this] obtain c' where
      "fc_ToBlock (map block groups) ?c = (Suc (length (map block groups)), map block groups @ [block ?p], c')"
      "fc_holds c' []" "fc_block_size c' = b" using c(2) by auto
    moreover from this True have "stream_add it s = (map block groups @ [block ?p], c')"
      by (simp add: stream_add_def fc_AddItem_def G(1) byte_size c(2) del: fc_append_block_size)
    ultimately show ?thesis using G small' unfolding stream_ok_def
      by (intro exI [of _ "groups @ [?p]"] exI [of _ "[] :: u8 list list"]) auto
  next
    case False
    then have "stream_add it s = (fst s, ?c)"
      by (simp add: stream_add_def fc_AddItem_def G(1) byte_size c(2) del: fc_append_block_size)
    with False G c show ?thesis unfolding stream_ok_def
      by (intro exI [of _ groups] exI [of _ ?p]) auto
  qed
qed

lemma stream_fold_ok:
  assumes "stream_ok b done s" and "\<forall>it \<in> set its. int (length it) + 8 + max 0 (sint b) < 2 ^ 31"
  shows "stream_ok b (done @ its) (fold stream_add its s)"
  using assms
proof (induction its arbitrary: "done" s)
  case (Cons it its)
  from stream_add_ok [OF Cons.prems(1)] Cons.prems(2) have "stream_ok b (done @ [it]) (stream_add it s)" by simp
  from Cons.IH [OF this] Cons.prems(2) show ?case by simp
qed simp

lemma compress_stream_groups:
  assumes "\<forall>it \<in> set its. int (length it) + 8 + max 0 (sint b) < 2 ^ 31"
  shows "\<exists>groups. compress_stream b its = map block groups \<and> [] \<notin> set groups \<and> concat groups = its \<and>
    (\<forall>g \<in> set groups. length (block g) < 2 ^ 31)"
proof -
  have "stream_ok b [] ([], fc_new b)" using fc_new_holds [of b] by (simp add: stream_ok_def)
  from stream_fold_ok [OF this assms] obtain groups pend c where
    G: "fold stream_add its ([], fc_new b) = (map block groups, c)" "[] \<notin> set groups"
    "\<forall>g \<in> set groups. length (block g) < 2 ^ 31" "fc_holds c pend" "its = concat groups @ pend"
    "pend = [] \<or> int (length (block pend)) < sint b"
    unfolding stream_ok_def by (metis append_Nil prod.collapse)
  show ?thesis
  proof (cases "pend = []")
    case True
    then have "length (fc_offsets c) < 2" using fc_holds_length [OF G(4)] by simp
    then have "compress_stream b its = map block groups"
      by (simp add: compress_stream_def G(1) fc_ToBlock_def)
    with G True show ?thesis by auto
  next
    case False
    have "[] \<notin> set (map block groups)" using block_nonempty by (metis ex_map_conv)
    from fc_ToBlock_holds [OF G(4) False this] have "compress_stream b its = map block (groups @ [pend])"
      by (auto simp: compress_stream_def G(1))
    moreover have "sint b < 2 ^ 31" using sint_less [of b] by simp
    with G(6) False have "int (length (block pend)) < 2 ^ 31" by linarith
    then have "length (block pend) < 2 ^ 31" by simp
    ultimately show ?thesis using G False by (intro exI [of _ "groups @ [pend]"]) auto
  qed
qed

text \<open>
  C30: Splitting a stream of items into blocks loses nothing: for any block size, every block the
  compressor writes is valid to its reader, and the items read from the blocks, in order, are
  the items that were added.
\<close>

theorem compress_stream_roundtrip:
  assumes "\<forall>it \<in> set its. int (length it) + 8 + max 0 (sint b) < 2 ^ 31"
  shows "\<exists>groups. results (map block_items (compress_stream b its)) = Inr groups \<and> concat groups = its \<and>
    (\<forall>bl \<in> set (compress_stream b its). fr_Valid (of_nat (length bl)) bl = Inr True)"
proof -
  obtain groups where G: "compress_stream b its = map block groups" "concat groups = its"
    "\<forall>g \<in> set groups. length (block g) < 2 ^ 31"
    using compress_stream_groups [OF assms] by blast
  have "results (map (block_items \<circ> block) groups) = Inr (map (\<lambda>g. g) groups)"
    using G(3) by (intro results_map_Inr) (simp add: block_items_block)
  with G block_Valid(2) show ?thesis by auto
qed

theorem compress_stream_roundtrip_witness:
  "(\<exists>groups. results (map block_items (compress_stream 20 [[1, 2], [], [3, 4, 5, 6, 7, 8, 9]])) = Inr groups \<and>
     concat groups = [[1, 2], [], [3, 4, 5, 6, 7, 8, 9]]) \<and>
   length (compress_stream 20 [[1, 2], [], [3, 4, 5, 6, 7, 8, 9]]) = 1"
  using compress_stream_roundtrip [of "[[1, 2], [], [3, 4, 5, 6, 7, 8, 9]]" 20]
  by (auto simp: compress_stream_def stream_add_def fc_AddItem_def fc_append_def fc_new_def fc_Clear_def
      fc_byte_size_def fc_ToBlock_def fc_ToBlock1_def fc_AppendToBlock_def Let_def)

section \<open>Keyed blocks\<close>

definition kv_block :: "u64 list \<Rightarrow> u8 list list \<Rightarrow> u8 list" where
  "kv_block keys its = int_bytes (of_nat (length keys)) @ concat (map (le_bytes 8) keys) @ block its"

lemma length_kv_block: "length (kv_block keys its) = 4 + 8 * length keys + length (block its)"
  by (simp add: kv_block_def)

lemma kv_block_header: "fr_size (kv_block keys its) = Inr (of_nat (length keys))"
  unfolding fr_size_def by (rule read_u32_split [of _ "[]"]) (simp_all add: kv_block_def)

lemma kv_block_key:
  assumes "i < length keys"
  shows "kr_key (int i) (kv_block keys its) = Inr (keys ! i)"
  unfolding kr_key_def
proof (rule read_u64_split)
  show "kv_block keys its = (int_bytes (of_nat (length keys)) @ concat (map (le_bytes 8) (take i keys))) @
      le_bytes 8 (keys ! i) @ concat (map (le_bytes 8) (drop (Suc i) keys)) @ block its"
    using concat_map_split [OF assms, of "le_bytes 8"] by (simp add: kv_block_def)
qed (use assms in simp)

lemma kv_block_values:
  assumes "length (kv_block keys its) < 2 ^ 31"
  shows "kr_values (kv_block keys its) = Inr (block its)"
proof -
  have n: "sint (of_nat (length keys) :: u32) = int (length keys)"
    using assms by (intro sint_of_nat_small) (simp add: length_kv_block)
  have p: "nat (4 + 8 * int (length keys)) = 4 + 8 * length keys" by simp
  show ?thesis
    unfolding kr_values_def kv_block_header bind_result_simps Let_def n p
    by (simp add: kv_block_def)
qed

lemma kv_block_value:
  assumes i: "i < length its" and small: "length (kv_block keys its) < 2 ^ 31"
  shows "\<exists>p. kr_value (int i) (kv_block keys its) = Inr p \<and>
    read_bytes (kv_block keys its) p (length (its ! i)) = Inr (its ! i)"
proof -
  have bsmall: "length (block its) < 2 ^ 31" using small by (simp add: length_kv_block)
  define h where "h = int_bytes (of_nat (length keys)) @ concat (map (le_bytes 8) keys)"
  define q where "q = 4 + 4 * int (length its) + int (length (concat (take i its)))"
  have bs: "kv_block keys its = h @ block its" by (simp add: kv_block_def h_def)
  have item: "read_bytes (block its) q (length (its ! i)) = Inr (its ! i)"
    using block_item_bytes [OF i] by (simp add: q_def)
  then have "0 \<le> q" "read_bytes (kv_block keys its) (int (length h) + q) (length (its ! i)) = Inr (its ! i)"
    by (auto simp: bs read_bytes_def nat_add_distrib split: if_splits)
  moreover have "kr_value (int i) (kv_block keys its) = Inr (int (length h) + q)"
    using block_item [of i its] i bsmall by (simp add: kr_value_def kv_block_values [OF small, unfolded bs] q_def bs)
  ultimately show ?thesis by blast
qed

lemma kv_block_Valid:
  assumes small: "length (kv_block keys its) < 2 ^ 31"
  shows "kr_Valid (of_nat (length (kv_block keys its))) (kv_block keys its) = Inr (length keys = length its)"
proof -
  have n: "length keys < 2 ^ 31" "length its < 2 ^ 31" "length (block its) < 2 ^ 31"
    using small by (simp_all add: length_kv_block length_block)
  have "(4 + of_nat (length keys) * 8 + of_nat (length (block its)) :: u64) = of_nat (length (kv_block keys its))"
    by (simp add: length_kv_block)
  moreover have "ucast (of_nat (length (kv_block keys its)) :: u64) = (of_nat (length (kv_block keys its)) :: u32)"
    using small by (simp add: unsigned_of_nat take_bit_nat_eq_self)
  ultimately have "ucast (4 + of_nat (length keys) * 8 + of_nat (length (block its)) :: u64) =
      (of_nat (length (kv_block keys its)) :: u32)" by simp
  then have b: "kr_byte_size (kv_block keys its) = Inr (of_nat (length (kv_block keys its)))"
    using n by (simp add: kr_byte_size_def kv_block_header kv_block_values [OF small] block_Valid(1) scast_of_nat_small)
  have "\<not> (scast (of_nat (length (kv_block keys its)) :: u32) :: u64) < 4"
    unfolding scast_of_nat_small [OF small] using small
    by (simp add: word_less_nat_alt unat_of_nat_small length_kv_block del: of_nat_add of_nat_Suc)
  moreover have "(of_nat (length keys) = (of_nat (length its) :: u32)) \<longleftrightarrow> length keys = length its"
    using sint_of_nat_small [OF n(1)] sint_of_nat_small [OF n(2)] by (metis of_nat_eq_iff)
  ultimately show ?thesis
    by (simp add: kr_Valid_def b kv_block_header kv_block_values [OF small] block_header)
qed

definition kc_holds :: "kv_compressor \<Rightarrow> u64 list \<Rightarrow> u8 list list \<Rightarrow> bool" where
  "kc_holds c keys its \<longleftrightarrow> kc_keys c = keys \<and> fc_holds (kc_values c) its"

lemma kc_new_holds: "kc_holds (kc_new b) [] []"
  using fc_new_holds by (simp add: kc_holds_def kc_new_def)

lemma kc_byte_size_holds:
  assumes "kc_holds c keys its" and "length (kv_block keys its) < 2 ^ 31"
  shows "sint (kc_byte_size c) = int (length (kv_block keys its))"
proof -
  have "scast (fc_byte_size (kc_values c)) = (of_nat (length (block its)) :: u64)"
    using assms fc_byte_size_holds [of "kc_values c" its]
    by (simp add: kc_holds_def length_kv_block scast_of_nat_small)
  then have "kc_byte_size c = ucast (of_nat (length (kv_block keys its)) :: u64)"
    using assms(1) by (simp add: kc_byte_size_def kc_holds_def length_kv_block)
  also have "\<dots> = (of_nat (length (kv_block keys its)) :: u32)"
    using assms(2) by (simp add: unsigned_of_nat take_bit_nat_eq_self)
  finally show ?thesis using sint_of_nat_small [OF assms(2)] by simp
qed

lemma kc_ToBlock_holds:
  assumes "kc_holds c keys its" and "keys \<noteq> []" and "its \<noteq> []"
  shows "\<exists>c'. kc_ToBlock blocks c = (blocks @ [kv_block keys its], c') \<and> kc_holds c' [] []"
  using assms fc_AppendToBlock_holds [of "kc_values c" its]
  by (auto simp: kc_ToBlock_def kc_holds_def kc_Clear_def kv_block_def split: prod.splits)
    (metis append_assoc prod.inject)+

lemma kc_AddItem_holds:
  assumes c: "kc_holds c keys its" and small: "int (length (kv_block (keys @ [k]) (its @ [it]))) < sint (kc_block_size c)"
  shows "\<exists>c'. kc_AddItem k it blocks c = (blocks, c') \<and> kc_holds c' (keys @ [k]) (its @ [it]) \<and>
    kc_block_size c' = kc_block_size c"
proof -
  define c' where "c' = c\<lparr>kc_keys := kc_keys c @ [k], kc_values := fc_append it (kc_values c)\<rparr>"
  have h: "kc_holds c' (keys @ [k]) (its @ [it])"
    using c fc_append_holds [of "kc_values c" its it] by (simp add: kc_holds_def c'_def)
  have "sint (kc_block_size c) < 2 ^ 31" using sint_less [of "kc_block_size c"] by simp
  with small have "int (length (kv_block (keys @ [k]) (its @ [it]))) < 2 ^ 31" by linarith
  then have "length (kv_block (keys @ [k]) (its @ [it])) < 2 ^ 31" by simp
  from kc_byte_size_holds [OF h this] small have "\<not> sint (kc_byte_size c') \<ge> sint (kc_block_size c')"
    by (simp add: c'_def)
  then have "kc_AddItem k it blocks c = (blocks, c')"
    by (simp add: kc_AddItem_def fc_AddItem_None flip: c'_def)
  with h show ?thesis by (simp add: c'_def)
qed

definition kv_add_all :: "(u64 \<times> u8 list) list \<Rightarrow> u8 list list \<times> kv_compressor \<Rightarrow> u8 list list \<times> kv_compressor" where
  "kv_add_all kvs s = fold (\<lambda>(k, it) (bl, c). kc_AddItem k it bl c) kvs s"

lemma kv_block_mono:
  "length (kv_block (keys @ ks) (its @ is)) = length (kv_block keys its) + 8 * length ks + 4 * length is + length (concat is)"
  by (simp add: length_kv_block length_block)

lemma kv_add_all_holds:
  assumes "kc_holds c keys its" and "kc_block_size c = b"
    and "int (length (kv_block (keys @ map fst kvs) (its @ map snd kvs))) < sint b"
  shows "\<exists>c'. kv_add_all kvs (blocks, c) = (blocks, c') \<and> kc_holds c' (keys @ map fst kvs) (its @ map snd kvs)"
  using assms
proof (induction kvs arbitrary: c keys its)
  case Nil
  then show ?case by (simp add: kv_add_all_def)
next
  case (Cons kv kvs)
  obtain k it where kv: "kv = (k, it)" by force
  have big: "int (length (kv_block ((keys @ [k]) @ map fst kvs) ((its @ [it]) @ map snd kvs))) < sint b"
    using Cons.prems(3) by (simp add: kv)
  then have "int (length (kv_block (keys @ [k]) (its @ [it]))) < sint (kc_block_size c)"
    unfolding kv_block_mono [of "keys @ [k]"] Cons.prems(2) by linarith
  from kc_AddItem_holds [OF Cons.prems(1) this, of blocks] obtain c' where c':
    "kc_AddItem k it blocks c = (blocks, c')" "kc_holds c' (keys @ [k]) (its @ [it])" "kc_block_size c' = b"
    using Cons.prems(2) by blast
  from Cons.IH [OF c'(2,3) big] c'(1) show ?case by (simp add: kv_add_all_def kv)
qed

lemma kc_AddItem_block_size: "kc_block_size (snd (kc_AddItem k it bl c)) = kc_block_size c"
  by (simp add: kc_AddItem_def Let_def kc_ToBlock_def kc_Clear_def split: prod.splits)

lemma kv_add_all_block_size: "kc_block_size (snd (kv_add_all kvs s)) = kc_block_size (snd s)"
  unfolding kv_add_all_def
  by (induction kvs arbitrary: s) (auto simp: kc_AddItem_block_size split: prod.splits)

text \<open>
  Pairs added to a \<open>FlatKVCompressor\<close> that stay below its block size come back from the one
  block it then writes: the block is valid, and for every index its key is the key added there
  and its value position holds exactly that pair's bytes.
\<close>

theorem kv_block_roundtrip:
  assumes "kvs \<noteq> []" and "int (length (kv_block (map fst kvs) (map snd kvs))) < sint b"
  shows "\<exists>c c' bs. kv_add_all kvs ([], kc_new b) = ([], c) \<and> kc_ToBlock [] c = ([bs], c') \<and>
    kr_Valid (of_nat (length bs)) bs = Inr True \<and>
    (\<forall>i < length kvs. kr_key (int i) bs = Inr (fst (kvs ! i)) \<and>
       (\<exists>p. kr_value (int i) bs = Inr p \<and> read_bytes bs p (length (snd (kvs ! i))) = Inr (snd (kvs ! i))))"
proof -
  have "int (length (kv_block (map fst kvs) (map snd kvs))) < 2 ^ 31"
    using assms(2) sint_less [of b] by simp
  then have small: "length (kv_block (map fst kvs) (map snd kvs)) < 2 ^ 31" by simp
  obtain c where c: "kv_add_all kvs ([], kc_new b) = ([], c)" "kc_holds c (map fst kvs) (map snd kvs)"
    using kv_add_all_holds [OF kc_new_holds, of b b kvs "[]"] assms(2) by (auto simp: kc_new_def)
  obtain c' where "kc_ToBlock [] c = ([kv_block (map fst kvs) (map snd kvs)], c')"
    using kc_ToBlock_holds [OF c(2), of "[]"] assms(1) by auto
  moreover have "\<exists>p. kr_value (int i) (kv_block (map fst kvs) (map snd kvs)) = Inr p \<and>
      read_bytes (kv_block (map fst kvs) (map snd kvs)) p (length (snd (kvs ! i))) = Inr (snd (kvs ! i))"
    if "i < length kvs" for i
    using kv_block_value [of i "map snd kvs", OF _ small] that by simp
  moreover have "kr_key (int i) (kv_block (map fst kvs) (map snd kvs)) = Inr (fst (kvs ! i))"
    if "i < length kvs" for i
    using kv_block_key [of i "map fst kvs" "map snd kvs"] that by simp
  ultimately show ?thesis using c(1) kv_block_Valid [OF small] by auto
qed

theorem kv_block_roundtrip_witness:
  "\<exists>bs. kr_Valid (of_nat (length bs)) bs = Inr True \<and> kr_key 1 bs = Inr 9 \<and>
     (\<exists>p. kr_value 1 bs = Inr p \<and> read_bytes bs p 2 = Inr [1, 2])"
proof -
  let ?kvs = "[(7, [4]), (9, [1, 2])] :: (u64 \<times> u8 list) list"
  have "int (length (kv_block (map fst ?kvs) (map snd ?kvs))) < sint kDefaultBlockSize"
    by (simp add: length_kv_block length_block kDefaultBlockSize_def)
  from kv_block_roundtrip [OF _ this] obtain bs where bs: "kr_Valid (of_nat (length bs)) bs = Inr True"
    "\<forall>i < length ?kvs. kr_key (int i) bs = Inr (fst (?kvs ! i)) \<and>
       (\<exists>p. kr_value (int i) bs = Inr p \<and> read_bytes bs p (length (snd (?kvs ! i))) = Inr (snd (?kvs ! i)))"
    by auto
  from spec [OF bs(2), of 1] bs(1) show ?thesis by (auto simp: numeral_2_eq_2)
qed

text \<open>
  \<open>FlatKVCompressor::Clear\<close> forgets the keys but not the values: when pairs are added after it,
  the next block carries the values from before it too, and its reader does not find it valid.
\<close>

theorem kc_Clear_keeps_values:
  assumes "old \<noteq> []" and "new \<noteq> []"
    and "int (length (kv_block (map fst old @ map fst new) (map snd old @ map snd new))) < sint b"
  shows "\<exists>c c2 bs c3. kv_add_all old ([], kc_new b) = ([], c) \<and> kv_add_all new ([], kc_Clear c) = ([], c2) \<and>
    kc_ToBlock [] c2 = ([bs], c3) \<and> kr_Valid (of_nat (length bs)) bs = Inr False"
proof -
  have big: "int (length (kv_block (map fst old) (map snd old))) < sint b"
    using assms(3) unfolding kv_block_mono by linarith
  obtain c where c: "kv_add_all old ([], kc_new b) = ([], c)" "kc_holds c (map fst old) (map snd old)"
    using kv_add_all_holds [OF kc_new_holds, of b b old "[]"] big by (auto simp: kc_new_def)
  have "kc_block_size c = b" using kv_add_all_block_size [of old "([], kc_new b)"] c(1) by (simp add: kc_new_def)
  moreover have "kc_holds (kc_Clear c) [] (map snd old)" using c(2) by (simp add: kc_holds_def kc_Clear_def)
  moreover have small: "int (length (kv_block (map fst new) (map snd old @ map snd new))) < sint b"
    using assms(3) by (simp add: length_kv_block)
  ultimately obtain c2 where c2: "kv_add_all new ([], kc_Clear c) = ([], c2)"
    "kc_holds c2 (map fst new) (map snd old @ map snd new)"
    using kv_add_all_holds [of "kc_Clear c" "[]" "map snd old" b new "[]"] by (auto simp: kc_Clear_def)
  let ?bs = "kv_block (map fst new) (map snd old @ map snd new)"
  obtain c3 where "kc_ToBlock [] c2 = ([?bs], c3)"
    using kc_ToBlock_holds [OF c2(2), of "[]"] assms(1,2) by auto
  moreover have "int (length ?bs) < 2 ^ 31" using small sint_less [of b] by simp
  then have "length ?bs < 2 ^ 31" by simp
  from kv_block_Valid [OF this] have "kr_Valid (of_nat (length ?bs)) ?bs = Inr False" using assms(1) by simp
  ultimately show ?thesis using c(1) c2(1) by blast
qed

theorem kc_Clear_keeps_values_witness:
  "\<exists>c c2 bs c3. kv_add_all [(7, [4])] ([], kc_new kDefaultBlockSize) = ([], c) \<and>
    kv_add_all [(9, [1, 2])] ([], kc_Clear c) = ([], c2) \<and>
    kc_ToBlock [] c2 = ([bs], c3) \<and> kr_Valid (of_nat (length bs)) bs = Inr False"
  by (rule kc_Clear_keeps_values) (simp_all add: length_kv_block length_block kDefaultBlockSize_def)

section \<open>Payloads that no compressor wrote\<close>

text \<open>
  \<open>Valid\<close> is not a check that can be made on any payload: when the count in a payload's header
  says that its offset table ends beyond the payload, \<open>Valid\<close> itself reads outside of it.
\<close>

theorem Valid_reads_outside:
  assumes "fr_size bs = Inr n" and "0 < sint n" and "int (length bs) < 4 + 4 * sint n" and "length bs < 2 ^ 31"
  shows "fr_Valid (of_nat (length bs)) bs = Inl Bad_access"
proof -
  have "4 \<le> length bs" using assms(1)
    by (auto simp: fr_size_def read_u32_def read_bytes_def split: if_splits)
  then have "\<not> (scast (of_nat (length bs) :: u32) :: u64) < 4"
    unfolding scast_of_nat_small [OF assms(4)] using assms(4) by (simp add: word_less_nat_alt unat_of_nat_small)
  moreover have "fr_offset (sint n) bs = Inl Bad_access"
    using assms(2,3) by (simp add: fr_offset_def read_u32_def read_bytes_def)
  ultimately show ?thesis using assms(1) by (simp add: fr_Valid_def fr_byte_size_def)
qed

theorem Valid_reads_outside_witness: "fr_Valid 4 [1, 0, 0, 0] = Inl Bad_access"
  using Valid_reads_outside [of "[1, 0, 0, 0]" 1] by (simp add: fr_size_def read_u32_def read_bytes_def)

end
