(* ===== verification/Parameters.thy ===== *)
theory Parameters
  imports FlatBlock
begin

unbundle bit_operations_syntax

text \<open>
  Parameters on the wire (\<open>ps/base/parameters.h\<close>): an item is a 64-bit key, a 32-bit dimension and
  that many floats, packed. A float is its 32 bits. \<open>ParameterPack\<close> is an item still in parts:
  its \<open>emb_data\<close> pointer is the list of floats that can be read from it.
\<close>

section \<open>Items\<close>

record param_pack =
  pk_key :: u64
  pk_dim :: u32
  pk_emb_data :: "u32 list"

text \<open>
  \<open>Pack<ParameterCompressItem>::CompressAppend\<close>. A negative \<open>dim\<close> becomes a length that no string
  can have; a positive one beyond the floats that are there reads outside of them.
\<close>

definition pack_CompressAppend :: "param_pack \<Rightarrow> u8 list result" where
  "pack_CompressAppend p =
     (if sint (pk_dim p) < 0 then Inl (Throw ''basic_string::append'')
      else if length (pk_emb_data p) < nat (sint (pk_dim p)) then Inl Bad_access
      else Inr (le_bytes 8 (pk_key p) @ int_bytes (pk_dim p) @
             concat (map int_bytes (take (nat (sint (pk_dim p))) (pk_emb_data p)))))"

text \<open>\<open>GetSize\<close> and \<open>byte_size\<close> of \<open>ParameterCompressItem\<close>.\<close>

definition pi_GetSize :: "u32 \<Rightarrow> u32" where
  "pi_GetSize dim = ucast (12 + scast dim * 4 :: u64)"

definition pi_key :: "u8 list \<Rightarrow> int \<Rightarrow> u64 result" where "pi_key bs p = read_u64 bs p"

definition pi_dim :: "u8 list \<Rightarrow> int \<Rightarrow> u32 result" where "pi_dim bs p = read_u32 bs (p + 8)"

definition pi_byte_size :: "u8 list \<Rightarrow> int \<Rightarrow> u32 result" where
  "pi_byte_size bs p = bind_result (pi_dim bs p) (\<lambda>d. Inr (ucast (12 + scast d * 4 :: u64)))"

text \<open>The floats in a run of bytes, and \<open>n\<close> floats read through \<open>data()\<close>.\<close>

definition floats :: "u8 list \<Rightarrow> u32 list" where
  "floats xs = map (\<lambda>i. ucast (le_word (take 4 (drop (4 * i) xs)))) [0..<length xs div 4]"

definition pi_floats :: "u8 list \<Rightarrow> int \<Rightarrow> nat \<Rightarrow> u32 list result" where
  "pi_floats bs p n = bind_result (read_bytes bs (p + 12) (4 * n)) (\<lambda>xs. Inr (floats xs))"

text \<open>\<open>AddItem\<close> of packs, with no block to write: \<open>AddItem(pack, nullptr)\<close> for each.\<close>

fun add_packs :: "param_pack list \<Rightarrow> compressor \<Rightarrow> compressor result" where
  "add_packs [] c = Inr c"
| "add_packs (p # ps) c =
     bind_result (pack_CompressAppend p) (\<lambda>it. add_packs ps (snd (snd (fc_AddItem it None c))))"

section \<open>Rows\<close>

type_synonym row = "u64 \<times> u32 list"

definition float_bytes :: "u32 list \<Rightarrow> u8 list" where "float_bytes fs = concat (map int_bytes fs)"

definition row_bytes :: "row \<Rightarrow> u8 list" where
  "row_bytes r = le_bytes 8 (fst r) @ int_bytes (of_nat (length (snd r))) @ float_bytes (snd r)"

definition rows_block :: "row list \<Rightarrow> u8 list" where "rows_block rows = block (map row_bytes rows)"

definition row_ok :: "row \<Rightarrow> bool" where "row_ok r \<longleftrightarrow> length (snd r) < 2 ^ 31"

definition pack_of :: "row \<Rightarrow> param_pack" where
  "pack_of r = \<lparr>pk_key = fst r, pk_dim = of_nat (length (snd r)), pk_emb_data = snd r\<rparr>"

lemma length_float_bytes [simp]: "length (float_bytes fs) = 4 * length fs"
  by (simp add: float_bytes_def)

lemma length_row_bytes [simp]: "length (row_bytes r) = 12 + 4 * length (snd r)"
  by (simp add: row_bytes_def)

lemma floats_float_bytes [simp]: "floats (float_bytes fs) = fs"
proof (rule nth_equalityI)
  fix i
  assume "i < length (floats (float_bytes fs))"
  then have i: "i < length fs" by (simp add: floats_def)
  then have "take 4 (drop (4 * i) (float_bytes fs)) = int_bytes (fs ! i)"
    using nth_concat_uniform [of "map int_bytes fs" 4 i] by (simp add: float_bytes_def)
  with i show "floats (float_bytes fs) ! i = fs ! i" by (simp add: floats_def)
qed (simp add: floats_def)

lemma pack_of_append: "row_ok r \<Longrightarrow> pack_CompressAppend (pack_of r) = Inr (row_bytes r)"
  by (simp add: pack_CompressAppend_def pack_of_def row_ok_def sint_of_nat_small row_bytes_def float_bytes_def)

lemma add_packs_rows:
  assumes "fc_holds c its" and "\<forall>r \<in> set rows. row_ok r"
  shows "\<exists>c'. add_packs (map pack_of rows) c = Inr c' \<and> fc_holds c' (its @ map row_bytes rows)"
  using assms
proof (induction rows arbitrary: c its)
  case (Cons r rows)
  from Cons.IH [OF fc_append_holds [OF Cons.prems(1), of "row_bytes r"]] Cons.prems(2)
  show ?case by (simp add: pack_of_append fc_AddItem_None)
qed simp

lemma length_concat_row_bytes:
  "length (concat (map row_bytes rows)) = (\<Sum>r \<leftarrow> rows. 12 + 4 * length (snd r))"
  by (induction rows) simp_all

lemma length_rows_block: "length (rows_block rows) = 4 + (\<Sum>r \<leftarrow> rows. 16 + 4 * length (snd r))"
  by (induction rows) (simp_all add: rows_block_def length_block)

lemma rows_block_ok:
  assumes "length (rows_block rows) < 2 ^ 31" and "r \<in> set rows"
  shows "row_ok r"
proof -
  have "16 + 4 * length (snd r) \<le> (\<Sum>r \<leftarrow> rows. 16 + 4 * length (snd r))"
    using assms(2) by (intro member_le_sum_list) (auto simp: image_iff)
  with assms(1) show ?thesis by (simp add: row_ok_def length_rows_block)
qed

text \<open>Reading part of what one can read.\<close>

lemma read_bytes_within:
  assumes "read_bytes bs p n = Inr xs" and "q = p + int j" and "j + m \<le> n"
  shows "read_bytes bs q m = Inr (take m (drop j xs))"
  using assms by (auto simp: read_bytes_def nat_add_distrib drop_take min_def add.commute split: if_splits)

definition row_at :: "u8 list \<Rightarrow> int \<Rightarrow> row \<Rightarrow> bool" where
  "row_at bs p r \<longleftrightarrow> pi_key bs p = Inr (fst r) \<and> pi_dim bs p = Inr (of_nat (length (snd r))) \<and>
     pi_floats bs p (length (snd r)) = Inr (snd r) \<and>
     read_bytes bs (p + 12) (4 * length (snd r)) = Inr (float_bytes (snd r))"

lemma row_atI:
  assumes "read_bytes bs p (length (row_bytes r)) = Inr (row_bytes r)"
  shows "row_at bs p r"
proof -
  note w = read_bytes_within [OF assms]
  have "read_bytes bs p 8 = Inr (le_bytes 8 (fst r))"
    using w [of p 0 8] by (simp add: row_bytes_def)
  moreover have "read_bytes bs (p + 8) 4 = Inr (int_bytes (of_nat (length (snd r))))"
    using w [of "p + 8" 8 4] by (simp add: row_bytes_def)
  moreover have "read_bytes bs (p + 12) (4 * length (snd r)) = Inr (float_bytes (snd r))"
    using w [of "p + 12" 12 "4 * length (snd r)"] by (simp add: row_bytes_def)
  ultimately show ?thesis
    by (simp add: row_at_def pi_key_def pi_dim_def pi_floats_def read_u64_def read_u32_def)
qed

lemma rows_block_item:
  assumes i: "i < length rows" and small: "length (rows_block rows) < 2 ^ 31"
  shows "\<exists>p. fr_item (int i) (rows_block rows) = Inr p \<and> row_at (rows_block rows) p (rows ! i)"
proof -
  have i': "i < length (map row_bytes rows)" using i by simp
  note b = block_item [of i "map row_bytes rows", folded rows_block_def] block_item_bytes [OF i', folded rows_block_def]
  have n: "map row_bytes rows ! i = row_bytes (rows ! i)" using i by simp
  from b(2) [unfolded n] have
    "row_at (rows_block rows) (4 + 4 * int (length (map row_bytes rows)) + int (length (concat (take i (map row_bytes rows))))) (rows ! i)"
    by (rule row_atI)
  with b(1) i small show ?thesis by auto
qed

lemma rows_block_header: "fr_size (rows_block rows) = Inr (of_nat (length rows))"
  using block_header [of "map row_bytes rows"] by (simp add: rows_block_def)

lemma rows_block_count: "length (rows_block rows) < 2 ^ 31 \<Longrightarrow> length rows < 2 ^ 31"
  by (simp add: rows_block_def length_block)

lemma rows_block_Valid:
  "length (rows_block rows) < 2 ^ 31 \<Longrightarrow> fr_Valid (of_nat (length (rows_block rows))) (rows_block rows) = Inr True"
  using block_Valid(2) by (simp add: rows_block_def)

lemma rows_block_nonempty: "rows_block rows \<noteq> []"
  using length_block [of "map row_bytes rows"] by (metis rows_block_def add_is_0 list.size(3) zero_neq_numeral)

text \<open>What a compressor that was given the rows writes.\<close>

lemma rows_to_block:
  assumes "rows \<noteq> []" and "\<forall>r \<in> set rows. row_ok r"
  shows "\<exists>c. add_packs (map pack_of rows) (fc_new b) = Inr c \<and> fst (fc_AppendToIOBuf [] c) = rows_block rows"
proof -
  obtain c where c: "add_packs (map pack_of rows) (fc_new b) = Inr c" "fc_holds c (map row_bytes rows)"
    using add_packs_rows [OF fc_new_holds(1) assms(2), of b] by auto
  with fc_AppendToBlock_holds(1) [OF c(2), of "[]"] assms(1) show ?thesis
    by (auto simp: fc_AppendToIOBuf_eq rows_block_def dest: arg_cong [where f = fst])
qed

lemma no_rows_to_block: "fst (fc_AppendToIOBuf [] (fc_new b)) = []"
  using fc_AppendToBlock_empty [OF fc_new_holds(1)] by (simp add: fc_AppendToIOBuf_eq)

end
