(* ===== verification/FloatStore.thy ===== *)
theory FloatStore
  imports Parameters EngineRuns BlockHeap
begin

unbundle bit_operations_syntax

text \<open>
  The KV engine as the parameter server sees it (\<open>storage/kv_engine/base_kv.h\<close>): the virtual
  functions of \<open>BaseKV\<close>, and the process memory behind the \<open>ConstArray<float>\<close>s that \<open>BatchGet\<close>
  hands out, through which the server reads and, in an update, writes. \<open>float_store\<close> states what
  the server relies on, over a map from keys to rows of floats; both shared-memory engines keep it,
  over any allocator with the contract \<open>malloc_bytes\<close>.
\<close>

section \<open>The interface\<close>

record 's kv_vt =
  kv_Put :: "u64 \<Rightarrow> u8 list \<Rightarrow> 's \<Rightarrow> 's result"
  kv_Get :: "u64 \<Rightarrow> 's \<Rightarrow> u8 list result"
  kv_BatchGet :: "u64 list \<Rightarrow> 's \<Rightarrow> (int option \<times> nat) list"
  kv_clear :: "'s \<Rightarrow> 's"
  kv_load :: "'s \<Rightarrow> int \<Rightarrow> nat \<Rightarrow> u8 list"
  kv_poke :: "int \<Rightarrow> u8 list \<Rightarrow> 's \<Rightarrow> 's"

text \<open>The defaults of \<open>BaseKV\<close> for what an engine does not override: \<open>BatchPut\<close> ends the process, \<open>clear\<close> only warns.\<close>

definition BaseKV_BatchPut :: "(u64 \<times> u32 list) list \<Rightarrow> 's \<Rightarrow> 's result" where
  "BaseKV_BatchPut rows s = Inl Log_fatal"

definition BaseKV_clear :: "'s \<Rightarrow> 's" where "BaseKV_clear s = s"

definition ehe_kv :: "'m malloc_vt \<Rightarrow> ('m, ehash) engine kv_vt" where
  "ehe_kv V =
     \<lparr>kv_Put = (\<lambda>k bs e. case ehe_Put V k bs e of None \<Rightarrow> Inl No_return | Some r \<Rightarrow> r),
      kv_Get = (\<lambda>k e. Inr (ehe_Get V k e)), kv_BatchGet = ehe_BatchGet V, kv_clear = BaseKV_clear,
      kv_load = (\<lambda>e p n. vt_bytes V (en_malloc e) p n),
      kv_poke = (\<lambda>p bs e. e\<lparr>en_malloc := vt_put V p bs (en_malloc e)\<rparr>)\<rparr>"

text \<open>\<open>order\<close> lists the keys of the map in the order in which it iterates.\<close>

definition mape_kv :: "'m malloc_vt \<Rightarrow> (hash_map \<Rightarrow> u64 list) \<Rightarrow> 'm map_engine kv_vt" where
  "mape_kv V order =
     \<lparr>kv_Put = mape_Put V, kv_Get = mape_Get V, kv_BatchGet = mape_BatchGet V,
      kv_clear = (\<lambda>e. mape_clear V (order (en_index e)) e),
      kv_load = (\<lambda>e p n. vt_bytes V (en_malloc e) p n),
      kv_poke = (\<lambda>p bs e. e\<lparr>en_malloc := vt_put V p bs (en_malloc e)\<rparr>)\<rparr>"

section \<open>The contract\<close>

type_synonym rows_map = "u64 \<Rightarrow> u32 list option"

locale float_store =
  fixes V :: "'s kv_vt" and inv :: "'s \<Rightarrow> rows_map \<Rightarrow> bool" and key_ok :: "u64 \<Rightarrow> bool"
    and room :: "'s \<Rightarrow> u64 \<Rightarrow> nat \<Rightarrow> bool" and where_is :: "'s \<Rightarrow> u64 \<Rightarrow> int option"
  assumes Put: "inv s F \<Longrightarrow> key_ok k \<Longrightarrow> room s k (length fs) \<Longrightarrow>
      \<exists>s'. kv_Put V k (float_bytes fs) s = Inr s' \<and> inv s' (F(k \<mapsto> fs)) \<and>
        (\<forall>j. key_ok j \<and> j \<noteq> k \<longrightarrow> where_is s' j = where_is s j)"
    and BatchGet: "inv s F \<Longrightarrow> \<forall>k \<in> set ks. key_ok k \<Longrightarrow> kv_BatchGet V ks s =
      map (\<lambda>k. case F k of None \<Rightarrow> (None, 0) | Some fs \<Rightarrow> (where_is s k, length fs)) ks"
    and load: "inv s F \<Longrightarrow> F k = Some fs \<Longrightarrow> \<exists>p. where_is s k = Some p \<and>
        kv_load V s p (4 * length fs) = float_bytes fs \<and>
        (\<forall>j < length fs. kv_load V s (p + 4 * int j) 4 = int_bytes (fs ! j))"
    and poke: "inv s F \<Longrightarrow> F k = Some fs \<Longrightarrow> where_is s k = Some p \<Longrightarrow> j < length fs \<Longrightarrow>
      inv (kv_poke V (p + 4 * int j) (int_bytes x) s) (F(k \<mapsto> fs[j := x])) \<and>
      where_is (kv_poke V (p + 4 * int j) (int_bytes x) s) = where_is s"

section \<open>Floats in a placed value\<close>

lemma float_bytes_simps [simp]:
  "float_bytes [] = []" "float_bytes (x # fs) = int_bytes x @ float_bytes fs"
  "float_bytes (fs @ gs) = float_bytes fs @ float_bytes gs"
  by (simp_all add: float_bytes_def)

lemma drop_float_bytes: "drop (4 * n) (float_bytes fs) = float_bytes (drop n fs)"
  by (induction fs arbitrary: n) (auto simp: drop_Cons split: nat.splits)

lemma take_float_bytes: "take (4 * n) (float_bytes fs) = float_bytes (take n fs)"
  by (induction fs arbitrary: n) (auto simp: take_Cons split: nat.splits)

lemma write_part_float:
  assumes "j < length fs"
  shows "write_part (4 * j) (int_bytes x) (float_bytes fs) = float_bytes (fs[j := x])"
proof -
  have "4 * j + 4 = 4 * Suc j" by simp
  then show ?thesis
    using assms by (simp only: write_part_def length_int_bytes take_float_bytes drop_float_bytes)
      (simp add: upd_conv_take_nth_drop)
qed

lemma float_bytes_at: "j < length fs \<Longrightarrow> take 4 (drop (4 * j) (float_bytes fs)) = int_bytes (fs ! j)"
  using nth_concat_uniform [of "map int_bytes fs" 4 j] by (simp add: float_bytes_def)

lemma float_bytes_inj [simp]: "float_bytes fs = float_bytes gs \<longleftrightarrow> fs = gs"
  by (metis floats_float_bytes)

definition row_map :: "rows_map \<Rightarrow> u64 \<Rightarrow> u8 list option" where
  "row_map F k = map_option float_bytes (F k)"

lemma row_map_upd: "row_map (F(k \<mapsto> fs)) = (row_map F)(k \<mapsto> float_bytes fs)"
  by (auto simp: row_map_def)

lemma row_map_empty [simp]: "row_map Map.empty = Map.empty"
  by (auto simp: row_map_def)

lemma vt_bytes_part: "d + k \<le> n \<Longrightarrow> vt_bytes V m (p + int d) k = take k (drop d (vt_bytes V m p n))"
  by (simp add: drop_vt_bytes take_vt_bytes)

context malloc_bytes
begin

lemma placed_poke:
  assumes m: "minv m A" and P: "placed V m A loc M" and k: "loc k = Some p" "M k = Some bs"
    and len: "d + length xs \<le> length bs"
  shows "minv (vt_put V (p + int d) xs m) A \<and>
    placed V (vt_put V (p + int d) xs m) A loc (M(k \<mapsto> write_part d xs bs))"
proof -
  note D = placedD [OF P]
  from D(1) [OF k(1)] k(2) have a: "A p = Some (int (length bs))" "vt_bytes V m p (length bs) = bs" by auto
  let ?w = "write_part d xs bs" and ?m = "vt_put V (p + int d) xs m"
  have w: "length ?w = length bs" using len by simp
  have e: "?m = vt_put V p ?w m" using put_at [OF m a(1), of d xs] len a(2) by simp
  from put [OF m a(1), of ?w] w have m': "minv ?m A" "vt_bytes V ?m p (length ?w) = ?w"
    "\<forall>q n. q \<noteq> p \<and> A q = Some n \<longrightarrow> vt_bytes V ?m q (nat n) = vt_bytes V m q (nat n)" by (simp_all add: e)
  have "\<exists>cs. (M(k \<mapsto> ?w)) j = Some cs \<and> A q = Some (int (length cs)) \<and> vt_bytes V ?m q (length cs) = cs"
    if j: "loc j = Some q" for j q
  proof (cases "j = k")
    case True
    with j k a m'(2) w show ?thesis by auto
  next
    case False
    with j k D(3) have "q \<noteq> p" by blast
    with D(1) [OF j] m'(3) False show ?thesis by fastforce
  qed
  moreover have "loc j \<noteq> None" if "(M(k \<mapsto> ?w)) j \<noteq> None" for j
    using that k(1) D(2) [of j] by (auto split: if_splits)
  moreover note m'(1)
  ultimately show ?thesis unfolding placed_def using D(3,4) by blast
qed

lemma store_poke:
  assumes r: "store_rep V minv ifind iinv key_ok m i M" and k: "M k = Some bs" "map_option offset_of_word (ifind k i) = Some p"
    and len: "d + length xs \<le> length bs"
  shows "store_rep V minv ifind iinv key_ok (vt_put V (p + int d) xs m) i (M(k \<mapsto> write_part d xs bs))"
proof -
  from r obtain A loc where R: "iinv i" "\<And>k. M k \<noteq> None \<Longrightarrow> key_ok k" "minv m A" "placed V m A loc M"
    "\<And>k. key_ok k \<Longrightarrow> ifind k i = map_option word_of_offset (loc k)"
    unfolding store_rep_def by blast
  obtain q where q: "loc k = Some q" using placedD(2) [OF R(4), of k] k(1) by auto
  from placedD(1) [OF R(4) q] obtain n where n: "A q = Some n" by blast
  have "offset_of_word (word_of_offset q) = q" using eh_store.live_word(1) [OF R(3) n] .
  then have loc: "loc k = Some p" using k q R(2) [of k] R(5) [of k] by auto
  have keys: "key_ok j" if "(M(k \<mapsto> write_part d xs bs)) j \<noteq> None" for j
    using that R(2) k(1) by (auto split: if_splits)
  from placed_poke [OF R(3,4) loc k(1) len] R(1,5) keys show ?thesis
    unfolding store_rep_def by blast
qed

lemma store_find:
  assumes r: "store_rep V minv ifind iinv key_ok m i M" and k: "M k = Some bs"
  shows "\<exists>p. ifind k i = Some (word_of_offset p) \<and> offset_of_word (word_of_offset p) = p \<and>
    vt_GetMallocData V m p = Some p \<and> vt_GetMallocSize V m p = int (length bs) \<and>
    vt_bytes V m p (length bs) = bs \<and> word_of_offset p \<noteq> NONE"
proof -
  from r obtain A loc where R: "\<And>k. M k \<noteq> None \<Longrightarrow> key_ok k" "minv m A" "placed V m A loc M"
    "\<And>k. key_ok k \<Longrightarrow> ifind k i = map_option word_of_offset (loc k)"
    unfolding store_rep_def by blast
  obtain p where p: "loc k = Some p" using placedD(2) [OF R(3), of k] k by auto
  with placedD(1) [OF R(3) p] k have a: "A p = Some (int (length bs))" "vt_bytes V m p (length bs) = bs" by auto
  have "ifind k i = Some (word_of_offset p)" using R(1) [of k] R(4) [of k] k p by simp
  with eh_store.live_word [OF R(2) a(1)] a(2) show ?thesis by auto
qed

lemma store_absent:
  assumes r: "store_rep V minv ifind iinv key_ok m i M" and k: "key_ok k" "M k = None"
  shows "ifind k i = None"
proof -
  from r obtain A loc where R: "minv m A" "placed V m A loc M"
    "\<And>k. key_ok k \<Longrightarrow> ifind k i = map_option word_of_offset (loc k)"
    unfolding store_rep_def by blast
  have "loc k = None"
  proof (rule ccontr)
    assume "loc k \<noteq> None"
    then obtain p where "loc k = Some p" by blast
    from placedD(1) [OF R(2) this] k(2) show False by simp
  qed
  with R(3) [OF k(1)] show ?thesis by simp
qed

lemma New_word:
  assumes m: "minv m A" and b: "request_ok b" and N: "vt_New V b m = Inr (m', Some p)"
  shows "word_of_offset p \<noteq> NONE"
proof -
  from New [OF m b] N have "minv m' (A(p \<mapsto> b))" by auto
  from eh_store.live_word(2) [OF this, of p b] show ?thesis by simp
qed

lemma store_minv: "store_rep V minv ifind iinv key_ok m i M \<Longrightarrow> \<exists>A. minv m A"
  unfolding store_rep_def by blast

end

section \<open>\<open>KVEngineExtendibleHash\<close> as a store of floats\<close>

definition ehe_floats ::
  "'m malloc_vt \<Rightarrow> ('m \<Rightarrow> (int \<Rightarrow> int option) \<Rightarrow> bool) \<Rightarrow> ('m, ehash) engine \<Rightarrow> rows_map \<Rightarrow> bool" where
  "ehe_floats V minv e F \<longleftrightarrow> ehe_rep V minv e (row_map F)"

definition ehe_where :: "('m, ehash) engine \<Rightarrow> u64 \<Rightarrow> int option" where
  "ehe_where e k = map_option offset_of_word (eh_find k (en_index e))"

lemma ehe_where_malloc [simp]: "ehe_where (e\<lparr>en_malloc := m\<rparr>) = ehe_where e"
  by (simp add: ehe_where_def fun_eq_iff)

text \<open>A row of the engine's value size for which the table and the allocator have room.\<close>

definition ehe_room :: "'m malloc_vt \<Rightarrow> (int \<Rightarrow> bool) \<Rightarrow> ('m, ehash) engine \<Rightarrow> u64 \<Rightarrow> nat \<Rightarrow> bool" where
  "ehe_room V request_ok e k n \<longleftrightarrow>
     request_ok (int (4 * n)) \<and> 4 * n = en_value_size e \<and> eh_room (en_index e) k \<and>
     (\<forall>m. vt_New V (int (4 * n)) (en_malloc e) \<noteq> Inr (m, None))"

definition mape_floats ::
  "'m malloc_vt \<Rightarrow> ('m \<Rightarrow> (int \<Rightarrow> int option) \<Rightarrow> bool) \<Rightarrow> 'm map_engine \<Rightarrow> rows_map \<Rightarrow> bool" where
  "mape_floats V minv e F \<longleftrightarrow> mape_rep V minv e (row_map F)"

definition mape_where :: "'m map_engine \<Rightarrow> u64 \<Rightarrow> int option" where
  "mape_where e k = map_option offset_of_word (en_index e k)"

lemma mape_where_malloc [simp]: "mape_where (e\<lparr>en_malloc := m\<rparr>) = mape_where e"
  by (simp add: mape_where_def fun_eq_iff)

definition mape_room :: "'m malloc_vt \<Rightarrow> (int \<Rightarrow> bool) \<Rightarrow> 'm map_engine \<Rightarrow> u64 \<Rightarrow> nat \<Rightarrow> bool" where
  "mape_room V request_ok e k n \<longleftrightarrow>
     request_ok (int (4 * n)) \<and> (pre_known_value_size e \<longrightarrow> 4 * n = en_value_size e) \<and>
     (\<forall>m. vt_New V (int (4 * n)) (en_malloc e) \<noteq> Inr (m, None))"

context malloc_bytes
begin

lemma ehe_Put_floats:
  assumes e: "ehe_floats V minv e F" and k: "k \<noteq> INVALID" and room: "ehe_room V request_ok e k (length fs)"
  shows "\<exists>e'. ehe_Put V k (float_bytes fs) e = Some (Inr e') \<and> ehe_floats V minv e' (F(k \<mapsto> fs)) \<and>
    (\<forall>j. j \<noteq> INVALID \<and> j \<noteq> k \<longrightarrow> ehe_where e' j = ehe_where e j)"
proof -
  have b: "request_ok (int (length (float_bytes fs)))" and size: "length (float_bytes fs) = en_value_size e"
    and ir: "eh_room (en_index e) k" and full: "vt_New V (int (length (float_bytes fs))) (en_malloc e) \<noteq> Inr (m, None)" for m
    using room unfolding ehe_room_def length_float_bytes by blast+
  from e have rep: "ehe_rep V minv e (row_map F)" by (simp add: ehe_floats_def)
  from ehe_Put_ok [OF rep k b size ir] full obtain e' where
    e': "ehe_Put V k (float_bytes fs) e = Some (Inr e')" "ehe_rep V minv e' ((row_map F)(k \<mapsto> float_bytes fs))"
    by auto
  from rep obtain A where A: "minv (en_malloc e) A" and ie: "eh_ok (en_index e)"
    unfolding ehe_rep_def store_rep_def by blast
  from New [OF A b] full obtain m0 p where N: "vt_New V (int (length (float_bytes fs))) (en_malloc e) = Inr (m0, Some p)"
    by (metis not_Some_eq)
  have "vt_GetMallocOffset V m0 p = p"
    using New [OF A b] N addr [of m0 _ p] by fastforce
  with e'(1) N obtain i where i: "eh_Put eh_fuel k (word_of_offset p) (en_index e) = Some i" "en_index e' = i"
    by (auto simp: ehe_Put_def Let_def split: option.splits)
  from eh.istore [OF ie k ir New_word [OF A b N]] i have
    "\<forall>j. j \<noteq> INVALID \<and> j \<noteq> k \<longrightarrow> eh_find j (en_index e') = eh_find j (en_index e)" by auto
  with e' show ?thesis by (auto simp: ehe_floats_def row_map_upd ehe_where_def)
qed

lemma mape_Put_floats:
  assumes e: "mape_floats V minv e F" and room: "mape_room V request_ok e k (length fs)"
  shows "\<exists>e'. mape_Put V k (float_bytes fs) e = Inr e' \<and> mape_floats V minv e' (F(k \<mapsto> fs)) \<and>
    (\<forall>j. j \<noteq> k \<longrightarrow> mape_where e' j = mape_where e j)"
proof -
  have b: "request_ok (int (length (float_bytes fs)))"
    and size: "pre_known_value_size e \<longrightarrow> length (float_bytes fs) = en_value_size e"
    and full: "vt_New V (int (length (float_bytes fs))) (en_malloc e) \<noteq> Inr (m, None)" for m
    using room unfolding mape_room_def length_float_bytes by blast+
  from e have rep: "mape_rep V minv e (row_map F)" by (simp add: mape_floats_def)
  from mape_Put_ok [OF rep b size, where k = k] full obtain e' where
    e': "mape_Put V k (float_bytes fs) e = Inr e'" "mape_rep V minv e' ((row_map F)(k \<mapsto> float_bytes fs))"
    by auto
  moreover have "j \<noteq> k \<Longrightarrow> mape_where e' j = mape_where e j" for j
    using e'(1) by (auto simp: mape_Put_def Let_def mape_where_def split: option.splits sum.splits prod.splits)
  ultimately show ?thesis by (auto simp: mape_floats_def row_map_upd)
qed

lemma floats_bytes_at:
  assumes "vt_bytes V m p (length (float_bytes fs)) = float_bytes fs"
  shows "vt_bytes V m p (4 * length fs) = float_bytes fs"
    and "j < length fs \<Longrightarrow> vt_bytes V m (p + 4 * int j) 4 = int_bytes (fs ! j)"
  using assms vt_bytes_part [of "4 * j" 4 "length (float_bytes fs)" V m p] float_bytes_at [of j fs] by simp_all

lemma row_map_Some: "F k = Some fs \<Longrightarrow> row_map F k = Some (float_bytes fs)"
  by (simp add: row_map_def)

lemma row_map_None: "F k = None \<Longrightarrow> row_map F k = None"
  by (simp add: row_map_def)

lemma ehe_BatchGet_floats:
  assumes e: "ehe_floats V minv e F" and "\<forall>k \<in> set ks. k \<noteq> INVALID"
  shows "ehe_BatchGet V ks e =
    map (\<lambda>k. case F k of None \<Rightarrow> (None, 0) | Some fs \<Rightarrow> (ehe_where e k, length fs)) ks"
  unfolding ehe_BatchGet_def
proof (rule map_cong [OF refl])
  fix k
  assume "k \<in> set ks"
  with assms(2) have k: "k \<noteq> INVALID" by blast
  have rep: "store_rep V minv eh_find eh_ok (\<lambda>k. k \<noteq> INVALID) (en_malloc e) (en_index e) (row_map F)"
    and size: "\<And>bs. row_map F k = Some bs \<Longrightarrow> length bs = en_value_size e"
    using e by (auto simp: ehe_floats_def ehe_rep_def)
  show "(let read_value = eh_Get k (en_index e) in
        if read_value = NONE then (None, 0)
        else case vt_GetMallocData V (en_malloc e) (offset_of_word read_value) of
               None \<Rightarrow> (None, 0) | Some data \<Rightarrow> (Some data, en_value_size e div 4)) =
      (case F k of None \<Rightarrow> (None, 0) | Some fs \<Rightarrow> (ehe_where e k, length fs))"
  proof (cases "F k")
    case None
    from store_absent [OF rep k row_map_None [of F, OF None]] None show ?thesis
      by (auto simp: eh_find_def split: if_splits)
  next
    case (Some fs)
    from store_find [OF rep row_map_Some [of F, OF Some]] obtain p where
      p: "eh_find k (en_index e) = Some (word_of_offset p)" "offset_of_word (word_of_offset p) = p"
        "vt_GetMallocData V (en_malloc e) p = Some p" "word_of_offset p \<noteq> NONE" by auto
    then have g: "eh_Get k (en_index e) = word_of_offset p" by (auto simp: eh_find_def split: if_splits)
    have "en_value_size e div 4 = length fs" using size [OF row_map_Some [of F, OF Some]] by simp
    with p g Some show ?thesis by (simp add: ehe_where_def)
  qed
qed

lemma mape_BatchGet_floats:
  assumes e: "mape_floats V minv e F"
  shows "mape_BatchGet V ks e =
    map (\<lambda>k. case F k of None \<Rightarrow> (None, 0) | Some fs \<Rightarrow> (mape_where e k, length fs)) ks"
  unfolding mape_BatchGet_def
proof (rule map_cong [OF refl])
  fix k
  have rep: "store_rep V minv (\<lambda>k m. m k) (\<lambda>m. True) (\<lambda>k. True) (en_malloc e) (en_index e) (row_map F)"
    and size: "\<And>bs. pre_known_value_size e \<Longrightarrow> row_map F k = Some bs \<Longrightarrow> length bs = en_value_size e"
    using e by (auto simp: mape_floats_def mape_rep_def)
  show "(case en_index e k of None \<Rightarrow> (None, 0)
       | Some v \<Rightarrow> (vt_GetMallocData V (en_malloc e) (offset_of_word v), nat (mape_size V e v) div 4)) =
      (case F k of None \<Rightarrow> (None, 0) | Some fs \<Rightarrow> (mape_where e k, length fs))"
  proof (cases "F k")
    case None
    from store_absent [OF rep TrueI row_map_None [of F, OF None]] None show ?thesis by simp
  next
    case (Some fs)
    from store_find [OF rep row_map_Some [of F, OF Some]] obtain p where
      p: "en_index e k = Some (word_of_offset p)" "offset_of_word (word_of_offset p) = p"
        "vt_GetMallocData V (en_malloc e) p = Some p"
        "vt_GetMallocSize V (en_malloc e) p = int (length (float_bytes fs))" by auto
    have "nat (mape_size V e (word_of_offset p)) div 4 = length fs"
      using size [OF _ row_map_Some [of F, OF Some]] p by (auto simp: mape_size_def)
    with p Some show ?thesis by (simp add: mape_where_def)
  qed
qed

lemma ehe_poke_floats:
  assumes e: "ehe_floats V minv e F" and k: "F k = Some fs" "ehe_where e k = Some p" and j: "j < length fs"
  shows "ehe_floats V minv (e\<lparr>en_malloc := vt_put V (p + 4 * int j) (int_bytes x) (en_malloc e)\<rparr>) (F(k \<mapsto> fs[j := x]))"
proof -
  have rep: "store_rep V minv eh_find eh_ok (\<lambda>k. k \<noteq> INVALID) (en_malloc e) (en_index e) (row_map F)"
    and size: "\<And>k bs. row_map F k = Some bs \<Longrightarrow> length bs = en_value_size e"
    using e by (auto simp: ehe_floats_def ehe_rep_def)
  from store_poke [OF rep row_map_Some [of F, OF k(1)] k(2) [unfolded ehe_where_def], of "4 * j" "int_bytes x"] j
  have "store_rep V minv eh_find eh_ok (\<lambda>k. k \<noteq> INVALID) (vt_put V (p + 4 * int j) (int_bytes x) (en_malloc e))
      (en_index e) ((row_map F)(k \<mapsto> float_bytes (fs[j := x])))"
    by (simp add: write_part_float)
  moreover have "length bs = en_value_size e" if "((row_map F)(k \<mapsto> float_bytes (fs[j := x]))) i = Some bs" for i bs
    using that size [of i bs] size [OF row_map_Some [of F, OF k(1)]] by (auto split: if_splits)
  ultimately show ?thesis by (simp add: ehe_floats_def ehe_rep_def row_map_upd)
qed

lemma mape_poke_floats:
  assumes e: "mape_floats V minv e F" and k: "F k = Some fs" "mape_where e k = Some p" and j: "j < length fs"
  shows "mape_floats V minv (e\<lparr>en_malloc := vt_put V (p + 4 * int j) (int_bytes x) (en_malloc e)\<rparr>) (F(k \<mapsto> fs[j := x]))"
proof -
  have rep: "store_rep V minv (\<lambda>k m. m k) (\<lambda>m. True) (\<lambda>k. True) (en_malloc e) (en_index e) (row_map F)"
    and size: "\<And>k bs. pre_known_value_size e \<Longrightarrow> row_map F k = Some bs \<Longrightarrow> length bs = en_value_size e"
    using e by (auto simp: mape_floats_def mape_rep_def)
  from store_poke [where ifind = "\<lambda>k m. m k", OF rep row_map_Some [of F, OF k(1)] k(2) [unfolded mape_where_def], of "4 * j" "int_bytes x"] j
  have "store_rep V minv (\<lambda>k m. m k) (\<lambda>m. True) (\<lambda>k. True) (vt_put V (p + 4 * int j) (int_bytes x) (en_malloc e))
      (en_index e) ((row_map F)(k \<mapsto> float_bytes (fs[j := x])))"
    by (simp add: write_part_float)
  moreover have "length bs = en_value_size e"
    if "pre_known_value_size e" "((row_map F)(k \<mapsto> float_bytes (fs[j := x]))) i = Some bs" for i bs
    using that size [of i bs] size [OF _ row_map_Some [of F, OF k(1)]] by (auto split: if_splits)
  ultimately show ?thesis by (simp add: mape_floats_def mape_rep_def row_map_upd)
qed

lemma ehe_load_floats:
  assumes e: "ehe_floats V minv e F" and k: "F k = Some fs"
  shows "\<exists>p. ehe_where e k = Some p \<and> vt_bytes V (en_malloc e) p (4 * length fs) = float_bytes fs \<and>
    (\<forall>j < length fs. vt_bytes V (en_malloc e) (p + 4 * int j) 4 = int_bytes (fs ! j))"
proof -
  have rep: "store_rep V minv eh_find eh_ok (\<lambda>k. k \<noteq> INVALID) (en_malloc e) (en_index e) (row_map F)"
    using e by (simp add: ehe_floats_def ehe_rep_def)
  from store_find [OF rep row_map_Some [of F, OF k]] obtain p where
    "eh_find k (en_index e) = Some (word_of_offset p)" "offset_of_word (word_of_offset p) = p"
    "vt_bytes V (en_malloc e) p (length (float_bytes fs)) = float_bytes fs" by auto
  with floats_bytes_at [of "en_malloc e" p fs] show ?thesis by (auto simp: ehe_where_def)
qed

lemma mape_load_floats:
  assumes e: "mape_floats V minv e F" and k: "F k = Some fs"
  shows "\<exists>p. mape_where e k = Some p \<and> vt_bytes V (en_malloc e) p (4 * length fs) = float_bytes fs \<and>
    (\<forall>j < length fs. vt_bytes V (en_malloc e) (p + 4 * int j) 4 = int_bytes (fs ! j))"
proof -
  have rep: "store_rep V minv (\<lambda>k m. m k) (\<lambda>m. True) (\<lambda>k. True) (en_malloc e) (en_index e) (row_map F)"
    using e by (simp add: mape_floats_def mape_rep_def)
  from store_find [OF rep row_map_Some [of F, OF k]] obtain p where
    "en_index e k = Some (word_of_offset p)" "offset_of_word (word_of_offset p) = p"
    "vt_bytes V (en_malloc e) p (length (float_bytes fs)) = float_bytes fs" by auto
  with floats_bytes_at [of "en_malloc e" p fs] show ?thesis by (auto simp: mape_where_def)
qed

end

sublocale malloc_bytes < eh_rows: float_store "ehe_kv V" "ehe_floats V minv" "\<lambda>k. k \<noteq> INVALID"
    "ehe_room V request_ok" ehe_where
proof
  fix e F k fs
  assume e: "ehe_floats V minv e F" and k: "k \<noteq> INVALID" and room: "ehe_room V request_ok e k (length (fs :: u32 list))"
  from ehe_Put_floats [OF e k room] show "\<exists>e'. kv_Put (ehe_kv V) k (float_bytes fs) e = Inr e' \<and>
      ehe_floats V minv e' (F(k \<mapsto> fs)) \<and> (\<forall>j. j \<noteq> INVALID \<and> j \<noteq> k \<longrightarrow> ehe_where e' j = ehe_where e j)"
    by (auto simp: ehe_kv_def)
qed (use ehe_BatchGet_floats ehe_load_floats ehe_poke_floats in \<open>simp_all add: ehe_kv_def\<close>)

sublocale malloc_bytes < um_rows: float_store "mape_kv V order" "mape_floats V minv" "\<lambda>k. True"
    "mape_room V request_ok" mape_where for order
proof
  fix e F k fs
  assume e: "mape_floats V minv e F" and room: "mape_room V request_ok e k (length (fs :: u32 list))"
  from mape_Put_floats [OF e room] show "\<exists>e'. kv_Put (mape_kv V order) k (float_bytes fs) e = Inr e' \<and>
      mape_floats V minv e' (F(k \<mapsto> fs)) \<and> (\<forall>j. True \<and> j \<noteq> k \<longrightarrow> mape_where e' j = mape_where e j)"
    by (auto simp: mape_kv_def)
qed (use mape_BatchGet_floats mape_load_floats mape_poke_floats in \<open>simp_all add: mape_kv_def\<close>)

end
