(* ===== verification/CachePS.thy ===== *)
theory CachePS
  imports FloatStore
begin

unbundle bit_operations_syntax

text \<open>
  The parameter server over its KV engine: the sparse tensors and optimizers of \<open>optimizer/\<close>, and
  \<open>CachePS\<close> (\<open>ps/base/cache_ps_impl.h\<close>). Gradients arrive in an item block; an update works in
  place, through the pointers that \<open>BatchGet\<close> returned. The arithmetic on floats is a parameter:
  a record of the expressions the loops compute.
\<close>

section \<open>Sparse tensors\<close>

datatype tensor_type = PARAMETER | MOMENT_1 | MOMENT_2

record sparse_tensor =
  st_name :: string
  st_type :: tensor_type
  st_tag :: u8
  st_shape :: "u64 list"

definition concatKeyAndTag :: "u64 \<Rightarrow> u8 \<Rightarrow> u64" where
  "concatKeyAndTag key tag = push_bit 56 (ucast tag) OR (key AND drop_bit 8 (NOT 0))"

definition st_Get :: "'s kv_vt \<Rightarrow> sparse_tensor \<Rightarrow> u64 \<Rightarrow> 's \<Rightarrow> u8 list result" where
  "st_Get V t key s = kv_Get V (concatKeyAndTag key (st_tag t)) s"

definition st_Put :: "'s kv_vt \<Rightarrow> sparse_tensor \<Rightarrow> u64 \<Rightarrow> u8 list \<Rightarrow> 's \<Rightarrow> 's result" where
  "st_Put V t key bytes s = kv_Put V (concatKeyAndTag key (st_tag t)) bytes s"

definition st_BatchGet :: "'s kv_vt \<Rightarrow> sparse_tensor \<Rightarrow> u64 list \<Rightarrow> 's \<Rightarrow> (int option \<times> nat) list" where
  "st_BatchGet V t keys s = kv_BatchGet V (map (\<lambda>k. concatKeyAndTag k (st_tag t)) keys) s"

section \<open>Optimizers\<close>

text \<open>
  The expressions of the update loops: \<open>-lr * g\<close>, \<open>x - r * g\<close>, \<open>a + g * g\<close>,
  \<open>lr / (sqrt(a) + eps)\<close>, the mean square of \<open>dim\<close> gradients, and \<open>a + b\<close>.
\<close>

record float_ops =
  fo_neg_mul :: "u32 \<Rightarrow> u32 \<Rightarrow> u32"
  fo_sub_mul :: "u32 \<Rightarrow> u32 \<Rightarrow> u32 \<Rightarrow> u32"
  fo_add_sq :: "u32 \<Rightarrow> u32 \<Rightarrow> u32"
  fo_rate :: "u32 \<Rightarrow> u32 \<Rightarrow> u32 \<Rightarrow> u32"
  fo_mean_sq :: "int \<Rightarrow> u32 list \<Rightarrow> u32"
  fo_add :: "u32 \<Rightarrow> u32 \<Rightarrow> u32"

datatype update_rule = SGD u32 | AdaGrad u32 u32 | RowWiseAdaGrad u32 u32

record optimizer =
  op_rule :: update_rule
  op_tensor_map :: "string \<Rightarrow> sparse_tensor option"

definition tensor :: "string \<Rightarrow> tensor_type \<Rightarrow> u64 list \<Rightarrow> sparse_tensor" where
  "tensor name ty shape = \<lparr>st_name = name, st_type = ty, st_tag = 0, st_shape = shape\<rparr>"

fun acc_suffix :: "update_rule \<Rightarrow> string" where
  "acc_suffix (SGD lr) = []"
| "acc_suffix (AdaGrad lr eps) = ''_accumulated_grad''"
| "acc_suffix (RowWiseAdaGrad lr eps) = ''_rowwise_accumulated_grad''"

fun acc_missing :: "update_rule \<Rightarrow> string" where
  "acc_missing (RowWiseAdaGrad lr eps) = ''Row-wise accumulated gradient table not found: ''"
| "acc_missing _ = ''Accumulated gradient table not found: ''"

text \<open>\<open>Init\<close>, for one table.\<close>

definition op_Init1 :: "u64 \<Rightarrow> u64 \<Rightarrow> string \<Rightarrow> optimizer \<Rightarrow> optimizer" where
  "op_Init1 num_embeddings embedding_dim name opt =
     (let m = (op_tensor_map opt)(name \<mapsto> tensor name PARAMETER [num_embeddings, embedding_dim]);
          acc = name @ acc_suffix (op_rule opt) in
      case op_rule opt of
        SGD lr \<Rightarrow> opt\<lparr>op_tensor_map := m\<rparr>
      | AdaGrad lr eps \<Rightarrow> opt\<lparr>op_tensor_map := m(acc \<mapsto> tensor acc MOMENT_1 [num_embeddings, embedding_dim])\<rparr>
      | RowWiseAdaGrad lr eps \<Rightarrow> opt\<lparr>op_tensor_map := m(acc \<mapsto> tensor acc MOMENT_1 [num_embeddings, 1])\<rparr>)"

definition op_Init :: "string list \<Rightarrow> u64 \<Rightarrow> u64 \<Rightarrow> optimizer \<Rightarrow> optimizer" where
  "op_Init names num_embeddings embedding_dim opt = fold (op_Init1 num_embeddings embedding_dim) names opt"

definition load_float :: "'s kv_vt \<Rightarrow> 's \<Rightarrow> int \<Rightarrow> u32" where
  "load_float V s p = ucast (le_word (kv_load V s p 4))"

text \<open>\<open>data[j] = f(data[j], grad[j])\<close> for every gradient.\<close>

fun update_floats :: "'s kv_vt \<Rightarrow> (u32 \<Rightarrow> u32 \<Rightarrow> u32) \<Rightarrow> int \<Rightarrow> u32 list \<Rightarrow> 's \<Rightarrow> 's" where
  "update_floats V f p [] s = s"
| "update_floats V f p (g # gs) s =
     update_floats V f (p + 4) gs (kv_poke V p (int_bytes (f (load_float V s p) g)) s)"

text \<open>The loop of \<open>AdaGrad::Update\<close>, over the parameters at \<open>p\<close> and the accumulators at \<open>a\<close>.\<close>

fun adagrad_floats :: "'s kv_vt \<Rightarrow> float_ops \<Rightarrow> u32 \<Rightarrow> u32 \<Rightarrow> int \<Rightarrow> int \<Rightarrow> u32 list \<Rightarrow> 's \<Rightarrow> 's" where
  "adagrad_floats V fo lr eps p a [] s = s"
| "adagrad_floats V fo lr eps p a (g # gs) s =
     (let s1 = kv_poke V a (int_bytes (fo_add_sq fo (load_float V s a) g)) s;
          adaptive_lr = fo_rate fo lr (load_float V s1 a) eps;
          s2 = kv_poke V p (int_bytes (fo_sub_mul fo (load_float V s1 p) adaptive_lr g)) s1 in
      adagrad_floats V fo lr eps (p + 4) (a + 4) gs s2)"

definition rowwise_floats ::
  "'s kv_vt \<Rightarrow> float_ops \<Rightarrow> u32 \<Rightarrow> u32 \<Rightarrow> int \<Rightarrow> int \<Rightarrow> int \<Rightarrow> u32 list \<Rightarrow> 's \<Rightarrow> 's" where
  "rowwise_floats V fo lr eps p a dim gs s =
     (let s1 = kv_poke V a (int_bytes (fo_add fo (load_float V s a) (fo_mean_sq fo dim gs))) s;
          adaptive_lr = fo_rate fo lr (load_float V s1 a) eps in
      update_floats V (\<lambda>x g. fo_sub_mul fo x adaptive_lr g) p gs s1)"

text \<open>
  One item of an update, at \<open>p\<close> in the payload \<open>bs\<close>, with what \<open>BatchGet\<close> returned for its key
  (\<open>(\<dots>, n)\<close>: \<open>n\<close> floats). A missing row is created by \<open>SGD\<close> and skipped by the others.
\<close>

definition sgd_item ::
  "'s kv_vt \<Rightarrow> float_ops \<Rightarrow> u32 \<Rightarrow> sparse_tensor \<Rightarrow> u8 list \<Rightarrow> int \<Rightarrow> int option \<times> nat \<Rightarrow> 's \<Rightarrow> 's result" where
  "sgd_item V fo lr t bs p v s =
     bind_result (pi_dim bs p) (\<lambda>d.
       if snd v = 0 then
         if sint d < 0 then Inl (Throw ''vector'')
         else bind_result (pi_floats bs p (nat (sint d))) (\<lambda>gs. bind_result (pi_key bs p) (\<lambda>k.
                st_Put V t k (float_bytes (map (fo_neg_mul fo lr) gs)) s))
       else let dim = min (int (snd v)) (sint d) in
         bind_result (pi_floats bs p (nat dim)) (\<lambda>gs.
           case fst v of
             None \<Rightarrow> if dim \<le> 0 then Inr s else Inl Bad_access
           | Some data \<Rightarrow> Inr (update_floats V (\<lambda>x g. fo_sub_mul fo x lr g) data gs s)))"

definition acc_item ::
  "'s kv_vt \<Rightarrow> (int \<Rightarrow> int \<Rightarrow> int \<Rightarrow> u32 list \<Rightarrow> 's \<Rightarrow> 's) \<Rightarrow> u8 list \<Rightarrow> int \<Rightarrow> int option \<times> nat \<Rightarrow> int option \<times> nat \<Rightarrow> 's \<Rightarrow> 's result" where
  "acc_item V loop bs p v a s =
     (if snd v = 0 \<or> snd a = 0 then Inr s
      else bind_result (pi_dim bs p) (\<lambda>d.
        let dim = min (int (snd v)) (sint d) in
        bind_result (pi_floats bs p (nat dim)) (\<lambda>gs.
          case (fst v, fst a) of
            (Some param, Some acc) \<Rightarrow> Inr (loop param acc dim gs s)
          | _ \<Rightarrow> if dim \<le> 0 then Inr s else Inl Bad_access)))"

text \<open>The loop over the items; a failure comes with the state the items before it left.\<close>

fun item_loop :: "(int \<Rightarrow> 'v \<Rightarrow> 's \<Rightarrow> 's result) \<Rightarrow> u8 list \<Rightarrow> nat \<Rightarrow> 'v list \<Rightarrow> 's \<Rightarrow> 's \<times> failure option" where
  "item_loop f bs i [] s = (s, None)"
| "item_loop f bs i (v # vs) s =
     (case bind_result (fr_item (int i) bs) (\<lambda>p. f p v s) of
        Inl e \<Rightarrow> (s, Some e)
      | Inr s' \<Rightarrow> item_loop f bs (Suc i) vs s')"

text \<open>The keys of a block's items.\<close>

definition item_keys :: "u8 list \<Rightarrow> u64 list result" where
  "item_keys bs = bind_result (fr_size bs) (\<lambda>n.
     results (map (\<lambda>i. bind_result (fr_item (int i) bs) (pi_key bs)) [0..<nat (sint n)]))"

definition op_Update ::
  "'s kv_vt \<Rightarrow> float_ops \<Rightarrow> optimizer \<Rightarrow> string \<Rightarrow> u8 list \<Rightarrow> 's \<Rightarrow> 's \<times> failure option" where
  "op_Update V fo opt table bs s =
     (let acc_table = table @ acc_suffix (op_rule opt) in
      case (op_tensor_map opt table, op_tensor_map opt acc_table) of
        (None, _) \<Rightarrow> (s, Some (Throw (''Table not found: '' @ table)))
      | (Some t, None) \<Rightarrow> (s, Some (Throw (acc_missing (op_rule opt) @ acc_table)))
      | (Some t, Some ta) \<Rightarrow>
          (case item_keys bs of
             Inl e \<Rightarrow> (s, Some e)
           | Inr keys \<Rightarrow>
               let v = st_BatchGet V t keys s; a = st_BatchGet V ta keys s in
               case op_rule opt of
                 SGD lr \<Rightarrow> item_loop (sgd_item V fo lr t bs) bs 0 v s
               | AdaGrad lr eps \<Rightarrow>
                   item_loop (\<lambda>p (v, a). acc_item V (\<lambda>pp pa dim. adagrad_floats V fo lr eps pp pa) bs p v a) bs 0 (zip v a) s
               | RowWiseAdaGrad lr eps \<Rightarrow>
                   item_loop (\<lambda>p (v, a). acc_item V (rowwise_floats V fo lr eps) bs p v a) bs 0 (zip v a) s))"

section \<open>\<open>CachePS\<close>\<close>

record 's cache_ps =
  ps_kv :: 's
  ps_optimizer :: "optimizer option"

definition ps_PutSingleParameter_data ::
  "'s kv_vt \<Rightarrow> u64 \<Rightarrow> u8 list \<Rightarrow> u32 \<Rightarrow> 's cache_ps \<Rightarrow> 's cache_ps result" where
  "ps_PutSingleParameter_data V key data dim ps =
     (let n = unat (scast dim * 4 :: u64) in
      if length data < n then Inl Bad_access
      else bind_result (kv_Put V key (take n data) (ps_kv ps)) (\<lambda>s. Inr (ps\<lparr>ps_kv := s\<rparr>)))"

definition ps_PutSingleParameter :: "'s kv_vt \<Rightarrow> u8 list \<Rightarrow> int \<Rightarrow> 's cache_ps \<Rightarrow> 's cache_ps result" where
  "ps_PutSingleParameter V bs p ps =
     bind_result (pi_key bs p) (\<lambda>key. bind_result (pi_dim bs p) (\<lambda>dim.
       bind_result (read_bytes bs (p + 12) (unat (scast dim * 4 :: u64))) (\<lambda>value.
         bind_result (kv_Put V key value (ps_kv ps)) (\<lambda>s. Inr (ps\<lparr>ps_kv := s\<rparr>)))))"

text \<open>Both \<open>PutParameter\<close> overloads, on engines that do not override \<open>BatchPut\<close>.\<close>

definition ps_PutParameter :: "u8 list \<Rightarrow> 's cache_ps \<Rightarrow> 's cache_ps result" where
  "ps_PutParameter bs ps =
     bind_result (fr_size bs) (\<lambda>n.
       bind_result (results (map (\<lambda>i. bind_result (fr_item (int i) bs) (\<lambda>p. bind_result (pi_key bs p) (\<lambda>k.
           bind_result (pi_dim bs p) (\<lambda>d. bind_result (pi_floats bs p (nat (sint d))) (\<lambda>fs. Inr (k, fs))))))
         [0..<nat (sint n)]))
       (\<lambda>rows. bind_result (BaseKV_BatchPut rows (ps_kv ps)) (\<lambda>s. Inr (ps\<lparr>ps_kv := s\<rparr>))))"

text \<open>A pack over what \<open>BatchGet\<close> returned: the floats that can be read through its pointer.\<close>

definition pack_at :: "'s kv_vt \<Rightarrow> 's \<Rightarrow> u64 \<Rightarrow> int option \<times> nat \<Rightarrow> param_pack" where
  "pack_at V s key v =
     \<lparr>pk_key = key, pk_dim = of_nat (snd v),
      pk_emb_data = (case fst v of None \<Rightarrow> [] | Some p \<Rightarrow> floats (kv_load V s p (4 * snd v)))\<rparr>"

definition ps_GetParameter1 :: "'s kv_vt \<Rightarrow> u64 \<Rightarrow> 's cache_ps \<Rightarrow> param_pack \<times> bool" where
  "ps_GetParameter1 V key ps =
     (let value = hd (kv_BatchGet V [key] (ps_kv ps)) in
      if snd value = 0 then (\<lparr>pk_key = key, pk_dim = 0, pk_emb_data = []\<rparr>, False)
      else (pack_at V (ps_kv ps) key value, True))"

definition ps_GetParameter :: "'s kv_vt \<Rightarrow> u64 list \<Rightarrow> 's cache_ps \<Rightarrow> param_pack list" where
  "ps_GetParameter V keys ps = map2 (pack_at V (ps_kv ps)) keys (kv_BatchGet V keys (ps_kv ps))"

definition ps_Clear :: "'s kv_vt \<Rightarrow> 's cache_ps \<Rightarrow> 's cache_ps" where
  "ps_Clear V ps = ps\<lparr>ps_kv := kv_clear V (ps_kv ps)\<rparr>"

definition ps_LoadCkpt :: "u8 list list \<Rightarrow> u8 list list \<Rightarrow> 's cache_ps \<Rightarrow> 's cache_ps \<times> bool" where
  "ps_LoadCkpt model_config_path emb_file_path ps = (ps, True)"

definition ps_Initialize :: "u8 list list \<Rightarrow> u8 list list \<Rightarrow> 's cache_ps \<Rightarrow> 's cache_ps \<times> bool" where
  "ps_Initialize model_config_path emb_file_path ps =
     (let (ps', _) = ps_LoadCkpt model_config_path emb_file_path ps in (ps', True))"

text \<open>The bits of \<open>0.01f\<close>.\<close>

definition sgd_rate :: u32 where "sgd_rate = 0x3C23D70A"

definition ps_InitTable :: "string \<Rightarrow> u64 \<Rightarrow> u64 \<Rightarrow> 's cache_ps \<Rightarrow> 's cache_ps \<times> bool" where
  "ps_InitTable name num_embeddings embedding_dim ps =
     (let opt = (case ps_optimizer ps of
                   None \<Rightarrow> \<lparr>op_rule = SGD sgd_rate, op_tensor_map = Map.empty\<rparr> | Some opt \<Rightarrow> opt) in
      (ps\<lparr>ps_optimizer := Some (op_Init [name] num_embeddings embedding_dim opt)\<rparr>, True))"

definition ps_UpdateParameter ::
  "'s kv_vt \<Rightarrow> float_ops \<Rightarrow> string \<Rightarrow> u8 list \<Rightarrow> 's cache_ps \<Rightarrow> 's cache_ps \<times> bool result" where
  "ps_UpdateParameter V fo table bs ps =
     (case ps_optimizer ps of
        None \<Rightarrow> (ps, Inr False)
      | Some opt \<Rightarrow>
          (case op_Update V fo opt table bs (ps_kv ps) of
             (s, None) \<Rightarrow> (ps\<lparr>ps_kv := s\<rparr>, Inr True)
           | (s, Some e) \<Rightarrow> (ps\<lparr>ps_kv := s\<rparr>, Inl e)))"

section \<open>Rows in place\<close>

primrec step_row :: "(u32 \<Rightarrow> u32 \<Rightarrow> u32) \<Rightarrow> u32 list \<Rightarrow> u32 list \<Rightarrow> u32 list" where
  "step_row f [] gs = []"
| "step_row f (x # fs) gs = (case gs of [] \<Rightarrow> x # fs | g # gs' \<Rightarrow> f x g # step_row f fs gs')"

lemma length_step_row [simp]: "length (step_row f fs gs) = length fs"
  by (induction fs arbitrary: gs) (auto split: list.splits)

lemma step_row_Nil [simp]: "step_row f fs [] = fs"
  by (cases fs) simp_all

lemma take_Suc_update: "j < length fs \<Longrightarrow> take (Suc j) (fs[j := x]) = take j fs @ [x]"
  by (simp add: take_Suc_conv_app_nth)

lemma step_row_at:
  assumes "j < length fs"
  shows "take j fs @ step_row f (drop j fs) (g # gs) =
    take (Suc j) (fs[j := f (fs ! j) g]) @ step_row f (drop (Suc j) (fs[j := f (fs ! j) g])) gs"
  using assms by (simp add: take_Suc_update flip: Cons_nth_drop_Suc)

text \<open>The step of \<open>AdaGrad\<close> on a parameter that is its own accumulator.\<close>

definition shared_step :: "float_ops \<Rightarrow> u32 \<Rightarrow> u32 \<Rightarrow> u32 \<Rightarrow> u32 \<Rightarrow> u32" where
  "shared_step fo lr eps x g = (let a = fo_add_sq fo x g in fo_sub_mul fo a (fo_rate fo lr a eps) g)"

context float_store
begin

lemma load_float_at:
  assumes "inv s F" and "F k = Some fs" and "where_is s k = Some p" and "j < length fs"
  shows "load_float V s (p + 4 * int j) = fs ! j"
  using load [OF assms(1,2)] assms(3,4) by (auto simp: load_float_def)

lemma update_floats_ok:
  assumes "inv s F" and "F k = Some fs" and "where_is s k = Some p" and "j + length gs \<le> length fs"
  shows "inv (update_floats V f (p + 4 * int j) gs s) (F(k \<mapsto> take j fs @ step_row f (drop j fs) gs)) \<and>
    where_is (update_floats V f (p + 4 * int j) gs s) = where_is s"
  using assms
proof (induction gs arbitrary: s F fs j)
  case Nil
  then show ?case by (simp add: fun_upd_idem)
next
  case (Cons g gs)
  then have j: "j < length fs" by simp
  let ?x = "f (fs ! j) g" and ?fs = "fs[j := f (fs ! j) g]"
  from poke [OF Cons.prems(1-3) j, of ?x] have s': "inv (kv_poke V (p + 4 * int j) (int_bytes ?x) s) (F(k \<mapsto> ?fs))"
    "where_is (kv_poke V (p + 4 * int j) (int_bytes ?x) s) = where_is s" by auto
  have "(F(k \<mapsto> ?fs)) k = Some ?fs" "Suc j + length gs \<le> length ?fs" using Cons.prems(4) by simp_all
  from Cons.IH [OF s'(1) this(1) _ this(2)] s'(2) Cons.prems(3)
    load_float_at [OF Cons.prems(1-3) j] show ?case
    unfolding step_row_at [OF j] by (simp add: algebra_simps del: fun_upd_apply)
qed

lemma update_row:
  assumes "inv s F" and "F k = Some fs" and "where_is s k = Some p" and "length gs \<le> length fs"
  shows "inv (update_floats V f p gs s) (F(k \<mapsto> step_row f fs gs))"
    and "where_is (update_floats V f p gs s) = where_is s"
  using update_floats_ok [OF assms(1-3), of 0 gs f] assms(4) by simp_all

text \<open>With parameters and accumulators at one place, every step works on what the step itself wrote.\<close>

lemma adagrad_floats_ok:
  assumes "inv s F" and "F k = Some fs" and "where_is s k = Some p" and "j + length gs \<le> length fs"
  shows "inv (adagrad_floats V fo lr eps (p + 4 * int j) (p + 4 * int j) gs s)
      (F(k \<mapsto> take j fs @ step_row (shared_step fo lr eps) (drop j fs) gs)) \<and>
    where_is (adagrad_floats V fo lr eps (p + 4 * int j) (p + 4 * int j) gs s) = where_is s"
  using assms
proof (induction gs arbitrary: s F fs j)
  case Nil
  then show ?case by (simp add: fun_upd_idem)
next
  case (Cons g gs)
  then have j: "j < length fs" by simp
  define a where "a = fo_add_sq fo (fs ! j) g"
  define x where "x = shared_step fo lr eps (fs ! j) g"
  define s1 where "s1 = kv_poke V (p + 4 * int j) (int_bytes a) s"
  define s2 where "s2 = kv_poke V (p + 4 * int j) (int_bytes x) s1"
  have s1: "inv s1 (F(k \<mapsto> fs[j := a]))" "where_is s1 = where_is s"
    using poke [OF Cons.prems(1-3) j, of a] by (auto simp: s1_def)
  have l1: "load_float V s1 (p + 4 * int j) = a"
    using load_float_at [OF s1(1), of k "fs[j := a]" p j] s1(2) Cons.prems(3) j by simp
  have s2: "inv s2 (F(k \<mapsto> fs[j := x]))" "where_is s2 = where_is s"
    using poke [OF s1(1), of k "fs[j := a]" p j x] s1(2) Cons.prems(3) j by (auto simp: s2_def)
  have step: "adagrad_floats V fo lr eps (p + 4 * int j) (p + 4 * int j) (g # gs) s =
      adagrad_floats V fo lr eps (p + 4 * int j + 4) (p + 4 * int j + 4) gs s2"
    using load_float_at [OF Cons.prems(1-3) j] l1
    by (simp add: Let_def s2_def x_def shared_step_def flip: a_def s1_def)
  have "(F(k \<mapsto> fs[j := x])) k = Some (fs[j := x])" "Suc j + length gs \<le> length (fs[j := x])"
    using Cons.prems(4) by simp_all
  from Cons.IH [OF s2(1) this(1) _ this(2)] s2(2) Cons.prems(3) show ?case
    unfolding step step_row_at [OF j] by (simp add: algebra_simps flip: x_def del: fun_upd_apply)
qed

end

section \<open>Updates of many rows\<close>

lemma floats_take: "floats (take (4 * m) (float_bytes fs)) = take m fs"
  by (simp add: take_float_bytes)

lemma pi_floats_take:
  assumes "row_at bs p r" and "m \<le> length (snd r)"
  shows "pi_floats bs p m = Inr (take m (snd r))"
proof -
  have "read_bytes bs (p + 12) (4 * length (snd r)) = Inr (float_bytes (snd r))"
    using assms(1) by (simp add: row_at_def)
  from read_bytes_within [OF this, of "p + 12" 0 "4 * m"] assms(2) show ?thesis
    by (simp add: pi_floats_def floats_take)
qed

lemma step_row_take: "step_row f fs (take (length fs) gs) = step_row f fs gs"
  by (induction fs arbitrary: gs) (auto split: list.splits)

lemma row_at_dim:
  "row_at bs p r \<Longrightarrow> row_ok r \<Longrightarrow> \<exists>d. pi_dim bs p = Inr d \<and> sint d = int (length (snd r))"
  by (auto simp: row_at_def row_ok_def sint_of_nat_small)

lemma item_loop_rows:
  assumes items: "\<And>i. i < length rows \<Longrightarrow> \<exists>p. fr_item (int i) bs = Inr p \<and> row_at bs p (rows ! i)"
    and step: "\<And>i p s. i < length rows \<Longrightarrow> row_at bs p (rows ! i) \<Longrightarrow>
        item_loop f bs 0 (take i vs) s0 = (s, None) \<Longrightarrow> J i s \<Longrightarrow> \<exists>s'. f p (vs ! i) s = Inr s' \<and> J (Suc i) s'"
    and start: "J 0 s0" and len: "length vs = length rows"
  shows "\<exists>s. item_loop f bs 0 vs s0 = (s, None) \<and> J (length rows) s"
proof -
  have snoc: "item_loop f bs i (xs @ [v]) s = (case item_loop f bs i xs s of (s', Some e) \<Rightarrow> (s', Some e)
      | (s', None) \<Rightarrow> (case bind_result (fr_item (int (i + length xs)) bs) (\<lambda>p. f p v s') of
          Inl e \<Rightarrow> (s', Some e) | Inr s'' \<Rightarrow> (s'', None)))" for i xs v s
    by (induction xs arbitrary: i s) (auto split: sum.splits simp: ac_simps)
  have "\<exists>s. item_loop f bs 0 (take i vs) s0 = (s, None) \<and> J i s" if "i \<le> length rows" for i
    using that
  proof (induction i)
    case 0
    with start show ?case by simp
  next
    case (Suc i)
    then obtain s where s: "item_loop f bs 0 (take i vs) s0 = (s, None)" "J i s" by auto
    from Suc.prems items [of i] obtain p where p: "fr_item (int i) bs = Inr p" "row_at bs p (rows ! i)" by auto
    from step [OF _ p(2) s] Suc.prems obtain s' where "f p (vs ! i) s = Inr s'" "J (Suc i) s'" by auto
    with s p Suc.prems len show ?case by (simp add: take_Suc_conv_app_nth snoc)
  qed
  from this [of "length rows"] len show ?thesis by simp
qed

lemma item_keys_rows:
  assumes small: "length (rows_block rows) < 2 ^ 31"
  shows "item_keys (rows_block rows) = Inr (map fst rows)"
proof -
  have n: "nat (sint (of_nat (length rows) :: u32)) = length rows"
    using rows_block_count [OF small] by (simp add: sint_of_nat_small)
  have "bind_result (fr_item (int i) (rows_block rows)) (pi_key (rows_block rows)) = Inr (fst (rows ! i))"
    if "i \<in> set [0..<length rows]" for i
    using rows_block_item [OF _ small, of i] that by (auto simp: row_at_def)
  then have "results (map (\<lambda>i. bind_result (fr_item (int i) (rows_block rows)) (pi_key (rows_block rows))) [0..<length rows])
      = Inr (map (\<lambda>i. fst (rows ! i)) [0..<length rows])"
    by (rule results_map_Inr)
  moreover have "map (\<lambda>i. fst (rows ! i)) [0..<length rows] = map fst rows"
    by (rule nth_equalityI) simp_all
  ultimately show ?thesis by (simp add: item_keys_def rows_block_header n)
qed

text \<open>
  What an \<open>SGD\<close> update does to the rows: a row that was not there before the update becomes
  \<open>-lr * g\<close>; one that was takes a step for every gradient that names it.
\<close>

definition no_row :: "rows_map \<Rightarrow> u64 \<Rightarrow> bool" where "no_row F k \<longleftrightarrow> F k = None \<or> F k = Some []"

definition sgd_row :: "float_ops \<Rightarrow> u32 \<Rightarrow> u8 \<Rightarrow> rows_map \<Rightarrow> row \<Rightarrow> rows_map \<Rightarrow> rows_map" where
  "sgd_row fo lr tag F0 r F =
     (let k = concatKeyAndTag (fst r) tag in
      if no_row F0 k then F(k \<mapsto> map (fo_neg_mul fo lr) (snd r))
      else F(k \<mapsto> step_row (\<lambda>x g. fo_sub_mul fo x lr g) (the (F k)) (snd r)))"

definition acc_row :: "float_ops \<Rightarrow> u32 \<Rightarrow> u32 \<Rightarrow> row \<Rightarrow> rows_map \<Rightarrow> rows_map" where
  "acc_row fo lr eps r F =
     (let k = concatKeyAndTag (fst r) 0 in
      if no_row F k then F else F(k \<mapsto> step_row (shared_step fo lr eps) (the (F k)) (snd r)))"

definition sgd_rows :: "float_ops \<Rightarrow> u32 \<Rightarrow> u8 \<Rightarrow> rows_map \<Rightarrow> row list \<Rightarrow> rows_map" where
  "sgd_rows fo lr tag F rows = fold (sgd_row fo lr tag F) rows F"

definition acc_rows :: "float_ops \<Rightarrow> u32 \<Rightarrow> u32 \<Rightarrow> rows_map \<Rightarrow> row list \<Rightarrow> rows_map" where
  "acc_rows fo lr eps F rows = fold (acc_row fo lr eps) rows F"

lemma sgd_row_keep:
  "\<not> no_row F k \<Longrightarrow> G k = Some fs \<Longrightarrow>
    \<exists>fs'. sgd_row fo lr tag F r G k = Some fs' \<and> length fs' = length fs"
  by (auto simp: sgd_row_def Let_def)

lemma sgd_rows_keep:
  assumes k: "\<not> no_row F k"
  shows "\<exists>fs. sgd_rows fo lr tag F rows k = Some fs \<and> length fs = length (the (F k))"
  unfolding sgd_rows_def
proof (induction rows rule: rev_induct)
  case Nil
  with k show ?case by (auto simp: no_row_def)
next
  case (snoc r rows)
  then obtain fs where fs: "fold (sgd_row fo lr tag F) rows F k = Some fs" "length fs = length (the (F k))" by blast
  from sgd_row_keep [where G = "fold (sgd_row fo lr tag F) rows F" and k = k, OF k fs(1), of fo lr tag r] fs(2)
  show ?case by simp
qed

lemma acc_rows_keep:
  "no_row (acc_rows fo lr eps F rows) k = no_row F k"
  "\<not> no_row F k \<Longrightarrow> \<exists>fs. acc_rows fo lr eps F rows k = Some fs \<and> length fs = length (the (F k))"
proof -
  have one: "no_row (acc_row fo lr eps r G) k = no_row G k"
    "\<not> no_row G k \<Longrightarrow> \<exists>fs. acc_row fo lr eps r G k = Some fs \<and> length fs = length (the (G k))" for r G
    by (auto simp: acc_row_def no_row_def Let_def) (metis length_0_conv length_step_row)+
  have "no_row (fold (acc_row fo lr eps) rows G) k = no_row G k \<and>
    (\<not> no_row G k \<longrightarrow> (\<exists>fs. fold (acc_row fo lr eps) rows G k = Some fs \<and> length fs = length (the (G k))))" for G
  proof (induction rows arbitrary: G)
    case (Cons r rows)
    show ?case using Cons.IH [of "acc_row fo lr eps r G"] one [where r = r and G = G] by auto
  qed (auto simp: no_row_def)
  then show "no_row (acc_rows fo lr eps F rows) k = no_row F k"
    "\<not> no_row F k \<Longrightarrow> \<exists>fs. acc_rows fo lr eps F rows k = Some fs \<and> length fs = length (the (F k))"
    unfolding acc_rows_def by blast+
qed

context float_store
begin

text \<open>
  A run of rows through an optimizer: what \<open>BatchGet\<close> returned at the start stays right for the
  rows that were there, whatever rows are created on the way.
\<close>

definition slot :: "'s \<Rightarrow> rows_map \<Rightarrow> u64 \<Rightarrow> int option \<times> nat" where
  "slot s F k = (case F k of None \<Rightarrow> (None, 0) | Some fs \<Rightarrow> (where_is s k, length fs))"

lemma slot_no_row: "snd (slot s F k) = 0 \<longleftrightarrow> no_row F k"
  by (auto simp: slot_def no_row_def split: option.splits)

lemma st_BatchGet_slots:
  assumes "inv s F" and "\<forall>k \<in> set ks. key_ok (concatKeyAndTag k (st_tag t))"
  shows "st_BatchGet V t ks s = map (\<lambda>k. slot s F (concatKeyAndTag k (st_tag t))) ks"
  using BatchGet [OF assms(1), of "map (\<lambda>k. concatKeyAndTag k (st_tag t)) ks"] assms(2)
  by (simp add: st_BatchGet_def slot_def comp_def)

lemma sgd_item_ok:
  assumes inv: "inv s G" and r: "row_at bs p r" "row_ok r" and k: "k = concatKeyAndTag (fst r) (st_tag t)" "key_ok k"
    and keep: "\<not> no_row F k \<Longrightarrow> where_is s k = where_is s0 k \<and> (\<exists>fs. G k = Some fs \<and> length fs = length (the (F k)))"
    and room: "no_row F k \<Longrightarrow> room s k (length (snd r))" and s0: "inv s0 F"
  shows "\<exists>s'. sgd_item V fo lr t bs p (slot s0 F k) s = Inr s' \<and> inv s' (sgd_row fo lr (st_tag t) F r G) \<and>
    (\<forall>j. key_ok j \<and> \<not> no_row F j \<longrightarrow> where_is s' j = where_is s j)"
proof -
  obtain d where d: "pi_dim bs p = Inr d" "sint d = int (length (snd r))" using row_at_dim [OF r] by blast
  show ?thesis
  proof (cases "no_row F k")
    case True
    from Put [OF inv k(2), of "map (fo_neg_mul fo lr) (snd r)"] room [OF True] obtain s' where
      s': "kv_Put V k (float_bytes (map (fo_neg_mul fo lr) (snd r))) s = Inr s'"
        "inv s' (G(k \<mapsto> map (fo_neg_mul fo lr) (snd r)))" "\<forall>j. key_ok j \<and> j \<noteq> k \<longrightarrow> where_is s' j = where_is s j"
      by auto
    have "pi_floats bs p (nat (sint d)) = Inr (snd r)" "pi_key bs p = Inr (fst r)"
      using r(1) d(2) by (auto simp: row_at_def)
    with True s'(1) d have "sgd_item V fo lr t bs p (slot s0 F k) s = Inr s'"
      by (simp add: sgd_item_def slot_no_row st_Put_def k(1))
    with s' True show ?thesis by (auto simp: sgd_row_def Let_def k(1))
  next
    case False
    with keep obtain fs where w: "where_is s k = where_is s0 k" "G k = Some fs" "length fs = length (the (F k))" by auto
    from load [OF inv w(2)] obtain q where q: "where_is s k = Some q" by blast
    let ?f = "\<lambda>x g. fo_sub_mul fo x lr g" and ?gs = "take (length fs) (snd r)"
    have sl: "slot s0 F k = (Some q, length fs)"
      using False w q by (auto simp: slot_def no_row_def)
    have n: "nat (min (int (length fs)) (int (length (snd r)))) = min (length fs) (length (snd r))" by simp
    have "pi_floats bs p (min (length fs) (length (snd r))) = Inr ?gs"
      using pi_floats_take [OF r(1), of "min (length fs) (length (snd r))"] by (simp add: min_def)
    with d sl False have "sgd_item V fo lr t bs p (slot s0 F k) s = Inr (update_floats V ?f q ?gs s)"
      by (simp add: sgd_item_def Let_def n slot_no_row flip: slot_no_row [of s0])
    moreover have "length ?gs \<le> length fs" by simp
    note U = update_row [OF inv w(2) q this, of ?f]
    ultimately show ?thesis using False w(2) U
      by (simp add: sgd_row_def Let_def k(1) step_row_take)
  qed
qed

lemma sgd_Update_ok:
  assumes inv: "inv s F" and opt: "op_rule opt = SGD lr" "op_tensor_map opt table = Some t"
    and small: "length (rows_block rows) < 2 ^ 31"
    and keys: "\<forall>r \<in> set rows. key_ok (concatKeyAndTag (fst r) (st_tag t))"
    and room: "\<And>i s'. i < length rows \<Longrightarrow> no_row F (concatKeyAndTag (fst (rows ! i)) (st_tag t)) \<Longrightarrow>
        item_loop (sgd_item V fo lr t (rows_block rows)) (rows_block rows) 0
          (take i (st_BatchGet V t (map fst rows) s)) s = (s', None) \<Longrightarrow>
        room s' (concatKeyAndTag (fst (rows ! i)) (st_tag t)) (length (snd (rows ! i)))"
  shows "\<exists>s'. op_Update V fo opt table (rows_block rows) s = (s', None) \<and> inv s' (sgd_rows fo lr (st_tag t) F rows)"
proof -
  let ?bs = "rows_block rows" and ?k = "\<lambda>r. concatKeyAndTag (fst r) (st_tag t)"
  let ?vs = "map (\<lambda>r. slot s F (?k r)) rows"
  have vs: "st_BatchGet V t (map fst rows) s = ?vs"
    using st_BatchGet_slots [OF inv, of "map fst rows" t] keys by (simp add: comp_def)
  define J where "J i s' \<longleftrightarrow> inv s' (sgd_rows fo lr (st_tag t) F (take i rows)) \<and>
    (\<forall>j. key_ok j \<and> \<not> no_row F j \<longrightarrow> where_is s' j = where_is s j)" for i s'
  have "\<exists>s'. item_loop (sgd_item V fo lr t ?bs) ?bs 0 ?vs s = (s', None) \<and> J (length rows) s'"
  proof (rule item_loop_rows)
    show "\<exists>p. fr_item (int i) ?bs = Inr p \<and> row_at ?bs p (rows ! i)" if "i < length rows" for i
      using rows_block_item [OF that small] .
  next
    fix i p s1
    assume i: "i < length rows" and r: "row_at ?bs p (rows ! i)"
      and run: "item_loop (sgd_item V fo lr t ?bs) ?bs 0 (take i ?vs) s = (s1, None)" and J: "J i s1"
    have mem: "rows ! i \<in> set rows" using i by simp
    have "inv s1 (sgd_rows fo lr (st_tag t) F (take i rows))" using J by (simp add: J_def)
    moreover have "row_ok (rows ! i)" using rows_block_ok [OF small mem] .
    moreover have "key_ok (?k (rows ! i))" using keys mem by blast
    ultimately have "\<exists>s'. sgd_item V fo lr t ?bs p (slot s F (?k (rows ! i))) s1 = Inr s' \<and>
        inv s' (sgd_row fo lr (st_tag t) F (rows ! i) (sgd_rows fo lr (st_tag t) F (take i rows))) \<and>
        (\<forall>j. key_ok j \<and> \<not> no_row F j \<longrightarrow> where_is s' j = where_is s1 j)"
      using r J sgd_rows_keep [of F "?k (rows ! i)" fo lr "st_tag t" "take i rows"] room [OF i _ run [folded vs]] keys mem
      by (intro sgd_item_ok [OF _ r _ refl _ _ _ inv]) (auto simp: J_def)
    then obtain s' where s': "sgd_item V fo lr t ?bs p (slot s F (?k (rows ! i))) s1 = Inr s'"
      "inv s' (sgd_row fo lr (st_tag t) F (rows ! i) (sgd_rows fo lr (st_tag t) F (take i rows)))"
      "\<forall>j. key_ok j \<and> \<not> no_row F j \<longrightarrow> where_is s' j = where_is s1 j" by blast
    have "sgd_row fo lr (st_tag t) F (rows ! i) (sgd_rows fo lr (st_tag t) F (take i rows)) =
        sgd_rows fo lr (st_tag t) F (take (Suc i) rows)"
      using i by (simp add: sgd_rows_def take_Suc_conv_app_nth)
    with s' J i show "\<exists>s'. sgd_item V fo lr t ?bs p (?vs ! i) s1 = Inr s' \<and> J (Suc i) s'"
      by (auto simp: J_def)
  qed (use inv in \<open>simp_all add: J_def sgd_rows_def\<close>)
  then show ?thesis
    using opt vs item_keys_rows [OF small] by (auto simp: op_Update_def Let_def J_def)
qed

lemma acc_item_ok:
  assumes inv: "inv s G" and r: "row_at bs p r" "row_ok r" and k: "k = concatKeyAndTag (fst r) 0"
    and same: "no_row G k = no_row F k" "\<not> no_row F k \<Longrightarrow> \<exists>fs. G k = Some fs \<and> length fs = length (the (F k))"
    and keep: "where_is s k = where_is base k"
  shows "\<exists>s'. acc_item V (\<lambda>pp pa dim. adagrad_floats V fo lr eps pp pa) bs p (slot base F k) (slot base F k) s = Inr s' \<and>
    inv s' (acc_row fo lr eps r G) \<and> where_is s' = where_is s"
proof (cases "no_row F k")
  case True
  with same(1) inv show ?thesis by (simp add: acc_item_def slot_no_row acc_row_def flip: k)
next
  case False
  obtain d where d: "pi_dim bs p = Inr d" "sint d = int (length (snd r))" using row_at_dim [OF r] by blast
  from False same obtain fs where w: "G k = Some fs" "length fs = length (the (F k))" by auto
  from load [OF inv w(1)] obtain q where q: "where_is s k = Some q" by blast
  let ?gs = "take (length fs) (snd r)"
  have sl: "slot base F k = (Some q, length fs)"
    using False w q keep by (auto simp: slot_def no_row_def)
  have n: "nat (min (int (length fs)) (int (length (snd r)))) = min (length fs) (length (snd r))" by simp
  have "pi_floats bs p (min (length fs) (length (snd r))) = Inr ?gs"
    using pi_floats_take [OF r(1), of "min (length fs) (length (snd r))"] by (simp add: min_def)
  with d sl False have "acc_item V (\<lambda>pp pa dim. adagrad_floats V fo lr eps pp pa) bs p (slot base F k) (slot base F k) s =
      Inr (adagrad_floats V fo lr eps q q ?gs s)"
    by (simp add: acc_item_def Let_def n slot_no_row flip: slot_no_row [of base])
  moreover from adagrad_floats_ok [OF inv w(1) q, of 0 ?gs fo lr eps]
  have "inv (adagrad_floats V fo lr eps q q ?gs s) (G(k \<mapsto> step_row (shared_step fo lr eps) fs ?gs))"
    "where_is (adagrad_floats V fo lr eps q q ?gs s) = where_is s" by simp_all
  ultimately show ?thesis using False same(1) w(1)
    by (simp add: acc_row_def Let_def step_row_take flip: k)
qed

lemma AdaGrad_Update_ok:
  assumes inv: "inv s F" and opt: "op_rule opt = AdaGrad lr eps" "op_tensor_map opt table = Some t"
      "op_tensor_map opt (table @ ''_accumulated_grad'') = Some ta" "st_tag t = 0" "st_tag ta = 0"
    and small: "length (rows_block rows) < 2 ^ 31"
    and keys: "\<forall>r \<in> set rows. key_ok (concatKeyAndTag (fst r) 0)"
  shows "\<exists>s'. op_Update V fo opt table (rows_block rows) s = (s', None) \<and> inv s' (acc_rows fo lr eps F rows)"
proof -
  let ?bs = "rows_block rows" and ?k = "\<lambda>r. concatKeyAndTag (fst r) 0"
  let ?f = "\<lambda>p (v, a). acc_item V (\<lambda>pp pa dim. adagrad_floats V fo lr eps pp pa) ?bs p v a"
  let ?vs = "map (\<lambda>r. slot s F (?k r)) rows"
  have vs: "st_BatchGet V t (map fst rows) s = ?vs" "st_BatchGet V ta (map fst rows) s = ?vs"
    using st_BatchGet_slots [OF inv, of "map fst rows"] keys opt(4,5) by (simp_all add: comp_def)
  define J where "J i s' \<longleftrightarrow> inv s' (acc_rows fo lr eps F (take i rows)) \<and> where_is s' = where_is s" for i s'
  have "\<exists>s'. item_loop ?f ?bs 0 (zip ?vs ?vs) s = (s', None) \<and> J (length rows) s'"
  proof (rule item_loop_rows)
    show "\<exists>p. fr_item (int i) ?bs = Inr p \<and> row_at ?bs p (rows ! i)" if "i < length rows" for i
      using rows_block_item [OF that small] .
  next
    fix i p s1
    assume i: "i < length rows" and r: "row_at ?bs p (rows ! i)" and J: "J i s1"
    let ?G = "acc_rows fo lr eps F (take i rows)"
    have "row_ok (rows ! i)" using rows_block_ok [OF small nth_mem [OF i]] .
    from acc_item_ok [where G = ?G and F = F and base = s and s = s1 and fo = fo and lr = lr and eps = eps, OF _ r this refl acc_rows_keep] J
    obtain s' where s': "?f p (slot s F (?k (rows ! i)), slot s F (?k (rows ! i))) s1 = Inr s'"
      "inv s' (acc_row fo lr eps (rows ! i) ?G)" "where_is s' = where_is s1" by (auto simp: J_def)
    have "acc_row fo lr eps (rows ! i) ?G = acc_rows fo lr eps F (take (Suc i) rows)"
      using i by (simp add: acc_rows_def take_Suc_conv_app_nth)
    with s' J i show "\<exists>s'. ?f p (zip ?vs ?vs ! i) s1 = Inr s' \<and> J (Suc i) s'" by (auto simp: J_def)
  qed (use inv in \<open>simp_all add: J_def acc_rows_def\<close>)
  then show ?thesis
    using opt vs item_keys_rows [OF small] by (auto simp: op_Update_def Let_def J_def)
qed

section \<open>Rows in and out\<close>

lemma ps_GetParameter_ok:
  assumes "inv (ps_kv ps) F" and "\<forall>k \<in> set ks. key_ok k"
  shows "ps_GetParameter V ks ps = map (\<lambda>k. pack_of (k, case F k of None \<Rightarrow> [] | Some fs \<Rightarrow> fs)) ks"
proof -
  have "pack_at V (ps_kv ps) k (slot (ps_kv ps) F k) = pack_of (k, case F k of None \<Rightarrow> [] | Some fs \<Rightarrow> fs)" for k
  proof (cases "F k")
    case (Some fs)
    with load [OF assms(1) Some] show ?thesis by (auto simp: pack_at_def slot_def pack_of_def)
  qed (simp add: pack_at_def slot_def pack_of_def)
  moreover have "kv_BatchGet V ks (ps_kv ps) = map (slot (ps_kv ps) F) ks"
    using BatchGet [OF assms] by (simp add: slot_def)
  ultimately show ?thesis by (simp add: ps_GetParameter_def map2_map_map comp_def zip_map2 map_zip_map2 zip_same_conv_map)
qed

lemma ps_PutSingleParameter_ok:
  assumes "inv (ps_kv ps) F" and r: "row_at bs p r" "row_ok r" and k: "key_ok (fst r)"
    and room: "room (ps_kv ps) (fst r) (length (snd r))"
  shows "\<exists>ps'. ps_PutSingleParameter V bs p ps = Inr ps' \<and> inv (ps_kv ps') (F(fst r \<mapsto> snd r)) \<and>
    ps_optimizer ps' = ps_optimizer ps \<and> kv_Put V (fst r) (float_bytes (snd r)) (ps_kv ps) = Inr (ps_kv ps')"
proof -
  have n: "length (snd r) < 2 ^ 31" using r(2) by (simp add: row_ok_def)
  have "unat (scast (of_nat (length (snd r)) :: u32) * 4 :: u64) = 4 * length (snd r)"
  proof -
    have "(scast (of_nat (length (snd r)) :: u32) * 4 :: u64) = of_nat (4 * length (snd r))"
      by (simp add: scast_of_nat_small [OF n])
    moreover have "4 * length (snd r) < 2 ^ 64" using n by simp
    ultimately show ?thesis by (simp only: unat_of_nat_small)
  qed
  with r(1) Put [OF assms(1) k room] show ?thesis
    by (fastforce simp: ps_PutSingleParameter_def row_at_def)
qed

end

end
