(* ===== verification/PsServer.thy ===== *)
theory PsServer
  imports CachePS
begin

text \<open>
  The brpc service (\<open>ps/brpc/brpc_ps_server.cpp\<close>): one handler per remote procedure, each a function
  of the request's attachment and protobuf field to the new server state and the reply. \<open>Inl\<close> is a
  handler that ends the server process. A payload's size is an \<open>int\<close>: of its length modulo \<open>2 ^ 32\<close>.
\<close>

record 's ps_server =
  sv_ps :: "'s cache_ps"
  total_get_requests :: u64
  total_put_requests :: u64
  total_get_keys :: u64
  total_put_keys :: u64
  total_get_bytes :: u64
  total_put_bytes :: u64

definition srv_ResetMetrics :: "'s ps_server \<Rightarrow> 's ps_server" where
  "srv_ResetMetrics sv =
     sv\<lparr>total_get_requests := 0, total_put_requests := 0, total_get_keys := 0, total_put_keys := 0,
       total_get_bytes := 0, total_put_bytes := 0\<rparr>"

definition ExtractPayloadBytes :: "u8 list \<Rightarrow> u8 list \<Rightarrow> u8 list option" where
  "ExtractPayloadBytes attachment proto_bytes =
     (if attachment \<noteq> [] then Some attachment else if proto_bytes \<noteq> [] then Some proto_bytes else None)"

text \<open>\<open>ConstArray<uint64_t>::SetData\<close>: the size of the array over \<open>data_size\<close> bytes.\<close>

definition array_size :: "u32 \<Rightarrow> u32" where
  "array_size data_size =
     (if (scast data_size :: u64) mod 8 = 0 then ucast ((scast data_size :: u64) div 8) else 0)"

definition array_u64 :: "u8 list \<Rightarrow> nat \<Rightarrow> u64 list" where
  "array_u64 data n = map (\<lambda>i. le_word (take 8 (drop (8 * i) data))) [0..<n]"

definition srv_GetParameter ::
  "'s kv_vt \<Rightarrow> u8 list \<Rightarrow> u8 list \<Rightarrow> 's ps_server \<Rightarrow> ('s ps_server \<times> u8 list) result" where
  "srv_GetParameter V attachment proto_keys sv =
     (let payload = (case ExtractPayloadBytes attachment proto_keys of None \<Rightarrow> [] | Some b \<Rightarrow> b);
          keys_size = (of_nat (length payload) :: u32);
          n = array_size keys_size in
      if sint keys_size mod 8 \<noteq> 0 then Inr (sv, [])
      else if sint n < 0 then Inl (Throw ''vector::reserve'')
      else
        let keys = array_u64 payload (nat (sint n));
            packs = ps_GetParameter V keys (sv_ps sv);
            total_dim = fold (\<lambda>p d. d + pk_dim p) packs 0 in
        bind_result (add_packs packs (fc_new kDefaultBlockSize)) (\<lambda>c.
          Inr (sv\<lparr>total_get_requests := total_get_requests sv + 1,
                  total_get_keys := total_get_keys sv + scast n,
                  total_get_bytes := total_get_bytes sv + scast total_dim * 4\<rparr>,
               fst (fc_AppendToIOBuf [] c))))"

text \<open>The loop of \<open>PutParameter\<close> over the items, with the bytes counted so far.\<close>

fun srv_put_items ::
  "'s kv_vt \<Rightarrow> u8 list \<Rightarrow> nat \<Rightarrow> nat \<Rightarrow> u64 \<Rightarrow> 's cache_ps \<Rightarrow> ('s cache_ps \<times> u64) result" where
  "srv_put_items V bs i 0 total_bytes ps = Inr (ps, total_bytes)"
| "srv_put_items V bs i (Suc n) total_bytes ps =
     bind_result (fr_item (int i) bs) (\<lambda>p.
       bind_result (ps_PutSingleParameter V bs p ps) (\<lambda>ps'.
         bind_result (pi_dim bs p) (\<lambda>d. srv_put_items V bs (Suc i) n (total_bytes + scast d * 4) ps')))"

definition srv_PutParameter :: "'s kv_vt \<Rightarrow> u8 list \<Rightarrow> u8 list \<Rightarrow> 's ps_server \<Rightarrow> 's ps_server result" where
  "srv_PutParameter V attachment parameter_value sv =
     (case ExtractPayloadBytes attachment parameter_value of
        None \<Rightarrow> Inr sv
      | Some payload \<Rightarrow>
          bind_result (fr_Valid (of_nat (length payload)) payload) (\<lambda>valid.
            if \<not> valid then Inr sv
            else bind_result (fr_size payload) (\<lambda>n.
              bind_result (srv_put_items V payload 0 (nat (sint n)) 0 (sv_ps sv)) (\<lambda>(ps, total_bytes).
                Inr (sv\<lparr>sv_ps := ps, total_put_requests := total_put_requests sv + 1,
                       total_put_keys := total_put_keys sv + scast n,
                       total_put_bytes := total_put_bytes sv + total_bytes\<rparr>)))))"

text \<open>An exception inside the handler is caught and answered with \<open>success = false\<close>.\<close>

definition srv_UpdateParameter ::
  "'s kv_vt \<Rightarrow> float_ops \<Rightarrow> string \<Rightarrow> u8 list \<Rightarrow> u8 list \<Rightarrow> 's ps_server \<Rightarrow> ('s ps_server \<times> bool) result" where
  "srv_UpdateParameter V fo table attachment gradients sv =
     (case ExtractPayloadBytes attachment gradients of
        None \<Rightarrow> Inr (sv, False)
      | Some payload \<Rightarrow>
          bind_result (fr_Valid (of_nat (length payload)) payload) (\<lambda>valid.
            if \<not> valid then Inr (sv, False)
            else (case ps_UpdateParameter V fo table payload (sv_ps sv) of
                (ps, Inr success) \<Rightarrow> Inr (sv\<lparr>sv_ps := ps\<rparr>, success)
              | (ps, Inl (Throw m)) \<Rightarrow> Inr (sv\<lparr>sv_ps := ps\<rparr>, False)
              | (ps, Inl e) \<Rightarrow> Inl e)))"

text \<open>\<open>parse\<close> is the JSON library's: the two numbers of a configuration, or \<^const>\<open>None\<close> where it throws.\<close>

definition srv_InitEmbeddingTable ::
  "(string \<Rightarrow> (u64 \<times> u64) option) \<Rightarrow> string \<Rightarrow> string option \<Rightarrow> 's ps_server \<Rightarrow> 's ps_server \<times> bool" where
  "srv_InitEmbeddingTable parse table config_payload sv =
     (case config_payload of
        None \<Rightarrow> (sv, False)
      | Some payload \<Rightarrow>
          (case parse payload of
             None \<Rightarrow> (sv, False)
           | Some (num_embeddings, embedding_dim) \<Rightarrow>
               let (ps, init_success) = ps_InitTable table num_embeddings embedding_dim (sv_ps sv) in
               (sv\<lparr>sv_ps := ps\<rparr>, init_success)))"

datatype ps_command = CLEAR_PS | RELOAD_PS | LOAD_FAKE_DATA | DUMP_FAKE_DATA | OTHER_PS

text \<open>The \<open>int64_t\<close> of \<open>arg1(0)\<close>, copied whatever the checks before it found.\<close>

definition command_int :: "u8 list list \<Rightarrow> int result" where
  "command_int arg1 =
     (case arg1 of [] \<Rightarrow> Inl Bad_access
      | a # _ \<Rightarrow> bind_result (read_u64 a 0) (\<lambda>w. Inr (sint w)))"

definition srv_Command ::
  "'s kv_vt \<Rightarrow> ps_command \<Rightarrow> u8 list list \<Rightarrow> u8 list list \<Rightarrow> 's ps_server \<Rightarrow> ('s ps_server \<times> u8 list) result" where
  "srv_Command V command arg1 arg2 sv =
     (case command of
        CLEAR_PS \<Rightarrow> Inr (sv\<lparr>sv_ps := ps_Clear V (sv_ps sv)\<rparr>, [])
      | RELOAD_PS \<Rightarrow>
          if length arg1 = 0 \<or> length arg2 = 0 \<or> length arg1 \<noteq> 1 then Inl Check_failed
          else Inr (sv\<lparr>sv_ps := fst (ps_Initialize arg1 arg2 (sv_ps sv))\<rparr>, [])
      | LOAD_FAKE_DATA \<Rightarrow>
          bind_result (command_int arg1) (\<lambda>payload_bytes.
            if payload_bytes < 0 then Inl (Throw ''basic_string::_M_create'')
            else Inr (sv, replicate (nat payload_bytes) 0xab))
      | DUMP_FAKE_DATA \<Rightarrow> bind_result (command_int arg1) (\<lambda>n. Inr (sv, [0x6f, 0x6b]))
      | OTHER_PS \<Rightarrow> Inl Log_fatal)"

section \<open>Requests the client sends\<close>

lemma length_concat_le8 [simp]: "length (concat (map (le_bytes 8) ks)) = 8 * length ks"
  by simp

lemma array_size_of:
  assumes "n < 2 ^ 28"
  shows "array_size (of_nat (8 * n)) = of_nat n"
proof -
  have "8 * n < 2 ^ 31" using assms by simp
  then have e: "(scast (of_nat (8 * n) :: u32) :: u64) = of_nat (8 * n)" by (rule scast_of_nat_small)
  have u: "unat (of_nat (8 * n) :: u64) = 8 * n" using assms by (intro unat_of_nat_small) simp
  have "unat ((of_nat (8 * n) :: u64) mod 8) = 0" unfolding unat_mod using u by simp
  then have m: "(of_nat (8 * n) :: u64) mod 8 = 0" by (simp add: unat_eq_0)
  have "unat ((of_nat (8 * n) :: u64) div 8) = n" unfolding unat_div using u by simp
  then have d: "(of_nat (8 * n) :: u64) div 8 = of_nat n" using assms by (simp add: word_unat_eq_iff unat_of_nat_small)
  have "ucast (of_nat n :: u64) = (of_nat n :: u32)"
    using assms by (simp add: unsigned_of_nat take_bit_nat_eq_self)
  then show ?thesis unfolding array_size_def e m d by simp
qed

lemma array_of_keys: "array_u64 (concat (map (le_bytes 8) ks)) (length ks) = ks"
proof (rule nth_equalityI)
  fix i
  assume "i < length (array_u64 (concat (map (le_bytes 8) ks)) (length ks))"
  then have i: "i < length ks" by (simp add: array_u64_def)
  then have "take 8 (drop (8 * i) (concat (map (le_bytes 8) ks))) = le_bytes 8 (ks ! i)"
    using nth_concat_uniform [of "map (le_bytes 8) ks" 8 i] by simp
  with i show "array_u64 (concat (map (le_bytes 8) ks)) (length ks) ! i = ks ! i"
    by (simp add: array_u64_def)
qed (simp add: array_u64_def)

definition row_of :: "rows_map \<Rightarrow> u64 \<Rightarrow> u32 list" where
  "row_of F k = (case F k of None \<Rightarrow> [] | Some fs \<Rightarrow> fs)"

text \<open>Rows stored one after the other, and that the engine has room for each when its turn comes.\<close>

definition put_rows :: "row list \<Rightarrow> rows_map \<Rightarrow> rows_map" where
  "put_rows rows F = fold (\<lambda>r F. F(fst r \<mapsto> snd r)) rows F"

fun puts_fit :: "'s kv_vt \<Rightarrow> ('s \<Rightarrow> u64 \<Rightarrow> nat \<Rightarrow> bool) \<Rightarrow> row list \<Rightarrow> 's \<Rightarrow> bool" where
  "puts_fit V room [] s = True"
| "puts_fit V room (r # rows) s \<longleftrightarrow>
     room s (fst r) (length (snd r)) \<and>
     (\<forall>s'. kv_Put V (fst r) (float_bytes (snd r)) s = Inr s' \<longrightarrow> puts_fit V room rows s')"

lemma put_rows_simps [simp]:
  "put_rows [] F = F" "put_rows (r # rows) F = put_rows rows (F(fst r \<mapsto> snd r))"
  "put_rows (rows @ rows') F = put_rows rows' (put_rows rows F)"
  by (simp_all add: put_rows_def)

context float_store
begin

text \<open>A server whose engine holds the rows \<open>F\<close>.\<close>

definition serves :: "'s ps_server \<Rightarrow> rows_map \<Rightarrow> bool" where
  "serves sv F \<longleftrightarrow> inv (ps_kv (sv_ps sv)) F"

lemma srv_GetParameter_ok:
  assumes sv: "serves sv F" and ks: "\<forall>k \<in> set ks. key_ok k" "ks \<noteq> []" "length ks < 2 ^ 28"
    and small: "length (rows_block (map (\<lambda>k. (k, row_of F k)) ks)) < 2 ^ 31"
  shows "\<exists>sv'. srv_GetParameter V (concat (map (le_bytes 8) ks)) [] sv =
      Inr (sv', rows_block (map (\<lambda>k. (k, row_of F k)) ks)) \<and> sv_ps sv' = sv_ps sv"
proof -
  let ?rows = "map (\<lambda>k. (k, row_of F k)) ks" and ?bs = "concat (map (le_bytes 8) ks)"
  have ne: "?bs \<noteq> []" using ks(2) length_concat_le8 [of ks] by (metis length_0_conv mult_is_0 zero_neq_numeral)
  have n: "sint (of_nat (length ks) :: u32) = int (length ks)" "8 * length ks < 2 ^ 31"
    using ks(3) by (simp_all add: sint_of_nat_small)
  have s8: "sint (of_nat (length ?bs) :: u32) = int (8 * length ks)"
    using sint_of_nat_small [OF n(2)] by (simp only: length_concat_le8)
  have a: "array_size (of_nat (length ?bs)) = of_nat (length ks)"
    using array_size_of [OF ks(3)] by (simp only: length_concat_le8)
  have packs: "ps_GetParameter V ks (sv_ps sv) = map pack_of ?rows"
    using ps_GetParameter_ok [of "sv_ps sv" F ks] sv ks(1) by (simp add: serves_def row_of_def comp_def)
  obtain c where c: "add_packs (map pack_of ?rows) (fc_new kDefaultBlockSize) = Inr c"
    "fst (fc_AppendToIOBuf [] c) = rows_block ?rows"
    using rows_to_block [of ?rows kDefaultBlockSize] rows_block_ok [OF small] ks(2) by auto
  show ?thesis
    unfolding srv_GetParameter_def ExtractPayloadBytes_def
    using ne n(1) s8 a packs c array_of_keys [of ks] by (simp add: Let_def del: length_concat_le_bytes)
qed

lemma srv_put_items_ok:
  assumes small: "length (rows_block rows) < 2 ^ 31" and n: "i + n = length rows"
    and inv: "inv (ps_kv ps) F" and keys: "\<forall>r \<in> set rows. key_ok (fst r)"
    and fit: "puts_fit V room (drop i rows @ rest) (ps_kv ps)"
  shows "\<exists>ps' t'. srv_put_items V (rows_block rows) i n t ps = Inr (ps', t') \<and>
    inv (ps_kv ps') (put_rows (drop i rows) F) \<and> ps_optimizer ps' = ps_optimizer ps \<and>
    puts_fit V room rest (ps_kv ps')"
  using n inv fit
proof (induction n arbitrary: i t ps F)
  case 0
  then show ?case by simp
next
  case (Suc n)
  then have i: "i < length rows" by simp
  then have d: "drop i rows = rows ! i # drop (Suc i) rows" by (simp add: Cons_nth_drop_Suc)
  from rows_block_item [OF i small] obtain p where p: "fr_item (int i) (rows_block rows) = Inr p"
    "row_at (rows_block rows) p (rows ! i)" by blast
  have ok: "row_ok (rows ! i)" using rows_block_ok [OF small nth_mem [OF i]] .
  have k: "key_ok (fst (rows ! i))" using keys nth_mem [OF i] by blast
  have room: "room (ps_kv ps) (fst (rows ! i)) (length (snd (rows ! i)))" using Suc.prems(3) d by simp
  from ps_PutSingleParameter_ok [OF Suc.prems(2) p(2) ok k room] obtain ps1 where
    ps1: "ps_PutSingleParameter V (rows_block rows) p ps = Inr ps1"
      "inv (ps_kv ps1) (F(fst (rows ! i) \<mapsto> snd (rows ! i)))" "ps_optimizer ps1 = ps_optimizer ps"
      "kv_Put V (fst (rows ! i)) (float_bytes (snd (rows ! i))) (ps_kv ps) = Inr (ps_kv ps1)" by blast
  have "puts_fit V room (drop (Suc i) rows @ rest) (ps_kv ps1)" using Suc.prems(3) d ps1(4) by simp
  from Suc.IH [OF _ ps1(2) this] Suc.prems(1) obtain ps' t' where
    "srv_put_items V (rows_block rows) (Suc i) n
       (t + scast (of_nat (length (snd (rows ! i))) :: u32) * 4) ps1 = Inr (ps', t')"
    "inv (ps_kv ps') (put_rows (drop (Suc i) rows) (F(fst (rows ! i) \<mapsto> snd (rows ! i))))"
    "ps_optimizer ps' = ps_optimizer ps1" "puts_fit V room rest (ps_kv ps')" by fastforce
  with p ps1 d show ?case by (auto simp: row_at_def)
qed

lemma srv_PutParameter_ok:
  assumes small: "length (rows_block rows) < 2 ^ 31" and sv: "serves sv F"
    and keys: "\<forall>r \<in> set rows. key_ok (fst r)" and fit: "puts_fit V room (rows @ rest) (ps_kv (sv_ps sv))"
  shows "\<exists>sv'. srv_PutParameter V (rows_block rows) [] sv = Inr sv' \<and> serves sv' (put_rows rows F) \<and>
    ps_optimizer (sv_ps sv') = ps_optimizer (sv_ps sv) \<and> puts_fit V room rest (ps_kv (sv_ps sv'))"
proof -
  have n: "nat (sint (of_nat (length rows) :: u32)) = length rows"
    using rows_block_count [OF small] by (simp add: sint_of_nat_small)
  from srv_put_items_ok [OF small _ _ keys, of 0 "length rows" "sv_ps sv" F rest 0] sv fit obtain ps' t' where
    "srv_put_items V (rows_block rows) 0 (length rows) 0 (sv_ps sv) = Inr (ps', t')"
    "inv (ps_kv ps') (put_rows rows F)" "ps_optimizer ps' = ps_optimizer (sv_ps sv)" "puts_fit V room rest (ps_kv ps')"
    by (auto simp: serves_def)
  then show ?thesis
    using rows_block_Valid [OF small] n
    by (simp add: srv_PutParameter_def ExtractPayloadBytes_def rows_block_nonempty rows_block_header serves_def)
qed

end

text \<open>A payload that is not valid changes nothing, and the caller is not told.\<close>

lemma srv_PutParameter_invalid:
  "fr_Valid (of_nat (length payload)) payload = Inr False \<Longrightarrow> srv_PutParameter V payload [] sv = Inr sv"
  by (simp add: srv_PutParameter_def ExtractPayloadBytes_def)

end
