(* ===== verification/PsClient.thy ===== *)
theory PsClient
  imports PsServer
begin

text \<open>
  The brpc client (\<open>ps/brpc/brpc_ps_client.cpp\<close>) on a connection to one server. The RPC library is a
  parameter: the \<open>fate\<close> of a call is how often the handler ran for it (a call may be retried) and
  whether the client got an answer. \<open>net i\<close> is the fate of the \<open>i\<close>-th call of an operation. The
  requests a client sends without waiting are run in the order in which they were sent.
\<close>

section \<open>Calls\<close>

text \<open>\<open>Answered n\<close>: \<open>n\<close> runs without answer before the answered one; \<open>Failed n\<close>: \<open>n\<close> runs and \<open>cntl.Failed()\<close>.\<close>

datatype fate = Answered nat | Failed nat

fun run_times :: "('s \<Rightarrow> ('s \<times> 'r) result) \<Rightarrow> nat \<Rightarrow> 's \<Rightarrow> 's result" where
  "run_times h 0 s = Inr s"
| "run_times h (Suc n) s = bind_result (h s) (\<lambda>(s', _). run_times h n s')"

definition rpc :: "('s \<Rightarrow> ('s \<times> 'r) result) \<Rightarrow> fate \<Rightarrow> 's \<Rightarrow> ('s \<times> 'r option) result" where
  "rpc h f s =
     (case f of
        Failed n \<Rightarrow> bind_result (run_times h n s) (\<lambda>s'. Inr (s', None))
      | Answered n \<Rightarrow> bind_result (run_times h n s) (\<lambda>s'. bind_result (h s') (\<lambda>(s'', r). Inr (s'', Some r))))"

definition MAX_PARAMETER_BATCH_BRPC :: nat where "MAX_PARAMETER_BATCH_BRPC = 2000"

text \<open>A batch at a time, as the loops over \<open>start\<close> take them.\<close>

function batches :: "'a list \<Rightarrow> 'a list list" where
  "batches xs = (if xs = [] then []
     else take MAX_PARAMETER_BATCH_BRPC xs # batches (drop MAX_PARAMETER_BATCH_BRPC xs))"
  by pat_completeness auto
termination by (relation "measure length") (auto simp: MAX_PARAMETER_BATCH_BRPC_def)

declare batches.simps [simp del]

section \<open>Reading\<close>

fun send_gets ::
  "'s kv_vt \<Rightarrow> (nat \<Rightarrow> fate) \<Rightarrow> nat \<Rightarrow> u64 list list \<Rightarrow> 's ps_server \<Rightarrow> ('s ps_server \<times> u8 list option list) result" where
  "send_gets V net i [] sv = Inr (sv, [])"
| "send_gets V net i (ks # kss) sv =
     bind_result (rpc (srv_GetParameter V (concat (map (le_bytes 8) ks)) []) (net i) sv) (\<lambda>(sv', r).
       bind_result (send_gets V net (Suc i) kss sv') (\<lambda>(sv'', rs). Inr (sv'', r # rs)))"

text \<open>\<open>ExtractGetResponseReader\<close>: the attachment, or the protobuf field.\<close>

definition ExtractGetResponseReader :: "u8 list \<Rightarrow> u8 list \<Rightarrow> u8 list \<times> u32" where
  "ExtractGetResponseReader attachment parameter_value =
     (let payload = (if attachment \<noteq> [] then attachment else parameter_value) in
      (payload, of_nat (length payload)))"

text \<open>The checks every reader of an answer makes: \<^const>\<open>False\<close> is an error return.\<close>

definition response_ok :: "nat \<Rightarrow> u8 list \<Rightarrow> bool result" where
  "response_ok key_size attachment =
     (let (payload, payload_size) = ExtractGetResponseReader attachment [] in
      bind_result (fr_Valid payload_size payload) (\<lambda>valid.
        if \<not> valid then Inr False
        else bind_result (fr_size payload) (\<lambda>n. Inr (sint n = int key_size))))"

text \<open>An item as \<open>std::vector<float>\<close>.\<close>

definition item_row :: "u8 list \<Rightarrow> int \<Rightarrow> u32 list result" where
  "item_row bs i =
     bind_result (fr_item i bs) (\<lambda>p. bind_result (pi_dim bs p) (\<lambda>d.
       if d = 0 then Inr [] else if sint d < 0 then Inl (Throw ''vector'') else pi_floats bs p (nat (sint d))))"

text \<open>The loop over the answers that appends to \<open>values\<close>.\<close>

fun parse_rows :: "(nat \<times> u8 list) list \<Rightarrow> u32 list list \<Rightarrow> (u32 list list \<times> bool) result" where
  "parse_rows [] values = Inr (values, True)"
| "parse_rows ((key_size, payload) # rs) values =
     bind_result (response_ok key_size payload) (\<lambda>ok.
       if \<not> ok then Inr (values, False)
       else bind_result (results (map (\<lambda>i. item_row payload (int i)) [0..<key_size])) (\<lambda>rows.
         parse_rows rs (values @ rows)))"

text \<open>The bits of \<open>0.1f\<close>.\<close>

definition random_value :: u32 where "random_value = 0x3DCCCCCD"

text \<open>
  On the first failed call the code returns while the calls after it may still be in flight, and destroys their
  controllers and responses; the answer is that of the model, what those calls then write to is not modelled.
\<close>

definition cl_GetParameter_vec ::
  "'s kv_vt \<Rightarrow> bool \<Rightarrow> (nat \<Rightarrow> fate) \<Rightarrow> u64 list \<Rightarrow> 's ps_server \<Rightarrow> ('s ps_server \<times> u32 list list \<times> bool) result" where
  "cl_GetParameter_vec V random_init net keys sv =
     (if random_init then Inr (sv, map (\<lambda>k. replicate 128 random_value) keys, True)
      else bind_result (send_gets V net 0 (batches keys) sv) (\<lambda>(sv', rs).
        if None \<in> set rs then Inr (sv', [], False)
        else bind_result (parse_rows (zip (map length (batches keys)) (map the rs)) []) (\<lambda>(values, ok).
          Inr (sv', values, ok))))"

text \<open>
  The overload for a flat array: rows of the dimension of the first row that was found, each at its
  key's index. \<open>dim\<close> is \<open>old_dimension\<close>, with \<^const>\<open>None\<close> for its initial -1.
\<close>

definition copy_row :: "u32 list \<Rightarrow> nat \<Rightarrow> u32 list \<Rightarrow> u32 list result" where
  "copy_row row at values =
     (if at + length row \<le> length values then Inr (take at values @ row @ drop (at + length row) values)
      else Inl Bad_access)"

fun flat_items ::
  "u8 list \<Rightarrow> nat \<Rightarrow> nat \<Rightarrow> nat \<Rightarrow> u32 option \<Rightarrow> u32 list \<Rightarrow> (nat \<times> u32 option \<times> u32 list) result" where
  "flat_items bs i 0 acc dim values = Inr (acc, dim, values)"
| "flat_items bs i (Suc n) acc dim values =
     bind_result (fr_item (int i) bs) (\<lambda>p. bind_result (pi_dim bs p) (\<lambda>d.
       if d = 0 then flat_items bs (Suc i) n (Suc acc) dim values
       else let old = (case dim of None \<Rightarrow> d | Some o' \<Rightarrow> o') in
         if d \<noteq> old then Inl Check_failed
         else if sint d < 0 then flat_items bs (Suc i) n (Suc acc) (Some old) values
         else bind_result (pi_floats bs p (nat (sint d))) (\<lambda>row.
           bind_result (copy_row row (nat (sint d) * acc) values) (\<lambda>values'.
             flat_items bs (Suc i) n (Suc acc) (Some old) values'))))"

fun parse_flat ::
  "(nat \<times> u8 list) list \<Rightarrow> nat \<Rightarrow> u32 option \<Rightarrow> u32 list \<Rightarrow> (u32 list \<times> bool) result" where
  "parse_flat [] acc dim values = Inr (values, True)"
| "parse_flat ((key_size, payload) # rs) acc dim values =
     bind_result (response_ok key_size payload) (\<lambda>ok.
       if \<not> ok then Inr (values, False)
       else bind_result (flat_items payload 0 key_size acc dim values) (\<lambda>(acc', dim', values').
         parse_flat rs acc' dim' values'))"

definition cl_GetParameter_flat ::
  "'s kv_vt \<Rightarrow> bool \<Rightarrow> (nat \<Rightarrow> fate) \<Rightarrow> u64 list \<Rightarrow> u32 list \<Rightarrow> 's ps_server \<Rightarrow>
    ('s ps_server \<times> u32 list \<times> bool) result" where
  "cl_GetParameter_flat V random_init net keys values sv =
     (if random_init then Inl Check_failed
      else bind_result (send_gets V net 0 (batches keys) sv) (\<lambda>(sv', rs).
        if None \<in> set rs then Inr (sv', values, False)
        else bind_result (parse_flat (zip (map length (batches keys)) (map the rs)) 0 None values) (\<lambda>(values', ok).
          Inr (sv', values', ok))))"

definition cl_AsyncGetParameter ::
  "'s kv_vt \<Rightarrow> bool \<Rightarrow> (nat \<Rightarrow> fate) \<Rightarrow> u64 list \<Rightarrow> u32 list \<Rightarrow> 's ps_server \<Rightarrow>
    ('s ps_server \<times> u32 list \<times> bool) result" where
  "cl_AsyncGetParameter V random_init net keys values sv = cl_GetParameter_flat V random_init net keys values sv"

section \<open>Writing\<close>

definition pack_row :: "u64 \<Rightarrow> u32 list \<Rightarrow> param_pack" where
  "pack_row key embedding = \<lparr>pk_key = key, pk_dim = of_nat (length embedding), pk_emb_data = embedding\<rparr>"

function cl_put_batches ::
  "'s kv_vt \<Rightarrow> (nat \<Rightarrow> fate) \<Rightarrow> nat \<Rightarrow> u64 list \<Rightarrow> u32 list list \<Rightarrow> 's ps_server \<Rightarrow> ('s ps_server \<times> bool) result" where
  "cl_put_batches V net index keys values sv =
     (if keys = [] then Inr (sv, True)
      else let key_size = min (length keys) MAX_PARAMETER_BATCH_BRPC in
        if length values < key_size then Inl Bad_access
        else bind_result (add_packs (map2 pack_row (take key_size keys) values) (fc_new kDefaultBlockSize)) (\<lambda>c.
          bind_result (rpc (\<lambda>sv. bind_result (srv_PutParameter V (fst (fc_AppendToIOBuf [] c)) [] sv) (\<lambda>sv'. Inr (sv', ())))
              (net index) sv) (\<lambda>(sv', r).
            if r = None then Inr (sv', False)
            else cl_put_batches V net (Suc index) (drop key_size keys) (drop key_size values) sv')))"
  by pat_completeness auto
termination by (relation "measure (\<lambda>(V, net, index, keys, values, sv). length keys)")
  (auto simp: MAX_PARAMETER_BATCH_BRPC_def)

declare cl_put_batches.simps [simp del]

definition cl_PutParameter ::
  "'s kv_vt \<Rightarrow> (nat \<Rightarrow> fate) \<Rightarrow> u64 list \<Rightarrow> u32 list list \<Rightarrow> 's ps_server \<Rightarrow> ('s ps_server \<times> bool) result" where
  "cl_PutParameter V net keys values sv = cl_put_batches V net 0 keys values sv"

definition cl_PutParameter_array ::
  "'s kv_vt \<Rightarrow> (nat \<Rightarrow> fate) \<Rightarrow> u64 list \<Rightarrow> u32 list list \<Rightarrow> 's ps_server \<Rightarrow> ('s ps_server \<times> int) result" where
  "cl_PutParameter_array V net keys values sv =
     bind_result (cl_PutParameter V net keys values sv) (\<lambda>(sv', success). Inr (sv', if success then 1 else 0))"

section \<open>Updating\<close>

definition send_update ::
  "'s kv_vt \<Rightarrow> float_ops \<Rightarrow> fate \<Rightarrow> string \<Rightarrow> compressor \<Rightarrow> 's ps_server \<Rightarrow> ('s ps_server \<times> int) result" where
  "send_update V fo f table c sv =
     bind_result (rpc (srv_UpdateParameter V fo table (fst (fc_AppendToIOBuf [] c)) []) f sv) (\<lambda>(sv', r).
       Inr (sv', if r = Some True then 0 else -1))"

definition cl_UpdateParameter ::
  "'s kv_vt \<Rightarrow> float_ops \<Rightarrow> fate \<Rightarrow> string \<Rightarrow> u64 list \<Rightarrow> u32 list list option \<Rightarrow> 's ps_server \<Rightarrow>
    ('s ps_server \<times> int) result" where
  "cl_UpdateParameter V fo f table keys grads sv =
     (case grads of
        None \<Rightarrow> Inr (sv, -1)
      | Some gs \<Rightarrow>
          if length keys \<noteq> length gs then Inr (sv, -1)
          else bind_result (add_packs (map2 pack_row keys gs) (fc_new kDefaultBlockSize)) (\<lambda>c.
            if length keys = 0 then Inr (sv, 0) else send_update V fo f table c sv))"

text \<open>\<open>BuildUpdateBlocksFromFlat\<close>; \<open>embedding_dim\<close> is narrowed to the pack's \<open>int\<close>.\<close>

definition BuildUpdateBlocksFromFlat ::
  "u64 list \<Rightarrow> u32 list option \<Rightarrow> int \<Rightarrow> int \<Rightarrow> compressor \<Rightarrow> (compressor \<times> int) result" where
  "BuildUpdateBlocksFromFlat keys grads num_rows embedding_dim c =
     (case grads of
        None \<Rightarrow> Inr (c, -1)
      | Some gs \<Rightarrow>
          if num_rows < 0 \<or> embedding_dim \<le> 0 then Inr (c, -1)
          else if int (length keys) \<noteq> num_rows then Inr (c, -1)
          else bind_result (add_packs (map (\<lambda>i. \<lparr>pk_key = keys ! i, pk_dim = of_int embedding_dim,
                   pk_emb_data = drop (i * nat embedding_dim) gs\<rparr>) [0..<nat num_rows]) c) (\<lambda>c'. Inr (c', 0)))"

definition cl_UpdateParameterFlat ::
  "'s kv_vt \<Rightarrow> float_ops \<Rightarrow> fate \<Rightarrow> string \<Rightarrow> u64 list \<Rightarrow> u32 list option \<Rightarrow> int \<Rightarrow> int \<Rightarrow> 's ps_server \<Rightarrow>
    ('s ps_server \<times> int) result" where
  "cl_UpdateParameterFlat V fo f table keys grads num_rows embedding_dim sv =
     (if length keys = 0 then Inr (sv, 0)
      else bind_result (BuildUpdateBlocksFromFlat keys grads num_rows embedding_dim (fc_new kDefaultBlockSize))
        (\<lambda>(c, r). if r \<noteq> 0 then Inr (sv, -1) else send_update V fo f table c sv))"

text \<open>\<open>serialize\<close> and \<open>parse\<close>: the JSON library on an \<open>EmbeddingTableConfig\<close>.\<close>

definition cl_InitEmbeddingTable ::
  "(u64 \<times> u64 \<Rightarrow> string) \<Rightarrow> (string \<Rightarrow> (u64 \<times> u64) option) \<Rightarrow> fate \<Rightarrow> string \<Rightarrow> u64 \<times> u64 \<Rightarrow> 's ps_server \<Rightarrow>
    ('s ps_server \<times> int) result" where
  "cl_InitEmbeddingTable serialize parse f table config sv =
     bind_result (rpc (\<lambda>sv. Inr (srv_InitEmbeddingTable parse table (Some (serialize config)) sv)) f sv) (\<lambda>(sv', r).
       Inr (sv', if r = Some True then 0 else -1))"

section \<open>Commands\<close>

definition send_command ::
  "'s kv_vt \<Rightarrow> fate \<Rightarrow> ps_command \<Rightarrow> u8 list list \<Rightarrow> u8 list list \<Rightarrow> 's ps_server \<Rightarrow> ('s ps_server \<times> bool) result" where
  "send_command V f command arg1 arg2 sv =
     bind_result (rpc (srv_Command V command arg1 arg2) f sv) (\<lambda>(sv', r). Inr (sv', r \<noteq> None))"

definition cl_ClearPS :: "'s kv_vt \<Rightarrow> fate \<Rightarrow> 's ps_server \<Rightarrow> ('s ps_server \<times> bool) result" where
  "cl_ClearPS V f sv = send_command V f CLEAR_PS [] [] sv"

definition cl_LoadFakeData :: "'s kv_vt \<Rightarrow> fate \<Rightarrow> u64 \<Rightarrow> 's ps_server \<Rightarrow> ('s ps_server \<times> bool) result" where
  "cl_LoadFakeData V f data sv = send_command V f LOAD_FAKE_DATA [le_bytes 8 data] [] sv"

definition cl_DumpFakeData :: "'s kv_vt \<Rightarrow> fate \<Rightarrow> u64 \<Rightarrow> 's ps_server \<Rightarrow> ('s ps_server \<times> bool) result" where
  "cl_DumpFakeData V f n sv = send_command V f DUMP_FAKE_DATA [le_bytes 8 n] [] sv"

definition cl_LoadCkpt ::
  "'s kv_vt \<Rightarrow> fate \<Rightarrow> u8 list list \<Rightarrow> u8 list list \<Rightarrow> 's ps_server \<Rightarrow> ('s ps_server \<times> bool) result" where
  "cl_LoadCkpt V f model_config_path emb_file_path sv =
     send_command V f RELOAD_PS model_config_path emb_file_path sv"

definition cl_Command :: "'s kv_vt \<Rightarrow> fate \<Rightarrow> ps_command \<Rightarrow> 's ps_server \<Rightarrow> 's ps_server result" where
  "cl_Command V f command sv =
     (case command of
        CLEAR_PS \<Rightarrow> bind_result (cl_ClearPS V f sv) (\<lambda>(sv', _). Inr sv')
      | RELOAD_PS \<Rightarrow> Inr sv
      | LOAD_FAKE_DATA \<Rightarrow> bind_result (cl_LoadFakeData V f 1000 sv) (\<lambda>(sv', _). Inr sv')
      | DUMP_FAKE_DATA \<Rightarrow> bind_result (cl_DumpFakeData V f 4096 sv) (\<lambda>(sv', _). Inr sv')
      | OTHER_PS \<Rightarrow> Inr sv)"

end
