(* ===== verification/PsRuns.thy ===== *)
theory PsRuns
  imports PsClient
begin

text \<open>
  Clients and server together: what a client's calls do to the rows the server's engine holds, for
  any fate of the calls, and the same on the extendible-hash engine over \<open>PersistLoopShmMalloc\<close>.
\<close>

section \<open>Batches\<close>

lemma batches_simps: "batches [] = []"
  "xs \<noteq> [] \<Longrightarrow> batches xs = take MAX_PARAMETER_BATCH_BRPC xs # batches (drop MAX_PARAMETER_BATCH_BRPC xs)"
  by (subst batches.simps, simp)+

lemma concat_batches [simp]: "concat (batches xs) = xs"
  by (induction xs rule: batches.induct) (subst batches.simps, auto)

lemma batches_set: "b \<in> set (batches xs) \<Longrightarrow> b \<noteq> [] \<and> length b \<le> MAX_PARAMETER_BATCH_BRPC \<and> set b \<subseteq> set xs"
proof (induction xs rule: batches.induct)
  case (1 xs)
  show ?case
  proof (cases "xs = []")
    case True
    with "1.prems" show ?thesis by (simp add: batches_simps)
  next
    case False
    then consider "b = take MAX_PARAMETER_BATCH_BRPC xs" | "b \<in> set (batches (drop MAX_PARAMETER_BATCH_BRPC xs))"
      using "1.prems" by (auto simp: batches_simps(2))
    then show ?thesis
    proof cases
      case 1
      with False show ?thesis by (auto simp: MAX_PARAMETER_BATCH_BRPC_def dest: in_set_takeD)
    next
      case 2
      from "1.IH" [OF False this] show ?thesis using set_drop_subset [of MAX_PARAMETER_BATCH_BRPC xs] by blast
    qed
  qed
qed

lemma length_batches: "length (batches xs) = (length xs + MAX_PARAMETER_BATCH_BRPC - 1) div MAX_PARAMETER_BATCH_BRPC"
proof (induction xs rule: batches.induct)
  case (1 xs)
  show ?case
  proof (cases "xs = []")
    case False
    let ?m = MAX_PARAMETER_BATCH_BRPC
    have m: "0 < ?m" by (simp add: MAX_PARAMETER_BATCH_BRPC_def)
    have l: "length (batches xs) = Suc ((length xs - ?m + ?m - 1) div ?m)"
      using False 1 by (simp add: batches_simps)
    show ?thesis
    proof (cases "length xs \<le> ?m")
      case True
      from False m have "length xs + ?m - 1 = ?m + (length xs - 1)" "length xs - 1 < ?m" using True by (cases xs; simp)+
      then have "(length xs + ?m - 1) div ?m = 1" using m by (simp only: div_add_self1 div_less)
      then show ?thesis using l True m by simp
    next
      case longer: False
      then have "length xs + ?m - 1 = (length xs - ?m + ?m - 1) + ?m" using m by simp
      then show ?thesis using l m by (simp only: div_add_self2)
    qed
  qed (simp add: batches_simps MAX_PARAMETER_BATCH_BRPC_def)
qed

lemma length_batches_cong: "length xs = length ys \<Longrightarrow> length (batches xs) = length (batches ys)"
  by (simp add: length_batches)

section \<open>Reading\<close>

definition rows_of :: "rows_map \<Rightarrow> u64 list \<Rightarrow> row list" where "rows_of F ks = map (\<lambda>k. (k, row_of F k)) ks"

lemma batch_small:
  assumes "\<forall>r \<in> set rows. length (snd r) \<le> 2 ^ 18" and "length rows \<le> MAX_PARAMETER_BATCH_BRPC"
  shows "length (rows_block rows) < 2 ^ 31"
proof -
  have "(\<Sum>r \<leftarrow> rows. 16 + 4 * length (snd r)) \<le> length rows * (16 + 4 * 2 ^ 18)"
    using assms(1) by (induction rows) auto
  also have "\<dots> \<le> MAX_PARAMETER_BATCH_BRPC * (16 + 4 * 2 ^ 18)" using assms(2) by (intro mult_right_mono) auto
  finally show ?thesis by (simp add: length_rows_block MAX_PARAMETER_BATCH_BRPC_def)
qed

lemma rows_of_small:
  "\<forall>k \<in> set ks. length (row_of F k) \<le> 2 ^ 18 \<Longrightarrow> length ks \<le> MAX_PARAMETER_BATCH_BRPC \<Longrightarrow>
    length (rows_block (rows_of F ks)) < 2 ^ 31"
  by (rule batch_small) (auto simp: rows_of_def)

lemma item_row_rows:
  assumes i: "i < length rows" and small: "length (rows_block rows) < 2 ^ 31"
  shows "item_row (rows_block rows) (int i) = Inr (snd (rows ! i))"
proof -
  obtain p where p: "fr_item (int i) (rows_block rows) = Inr p" "row_at (rows_block rows) p (rows ! i)"
    using rows_block_item [OF i small] by blast
  have ok: "row_ok (rows ! i)" using rows_block_ok [OF small nth_mem [OF i]] .
  then have s: "sint (of_nat (length (snd (rows ! i))) :: u32) = int (length (snd (rows ! i)))"
    by (simp add: row_ok_def sint_of_nat_small)
  have z: "(of_nat (length (snd (rows ! i))) :: u32) = 0 \<longleftrightarrow> snd (rows ! i) = []"
  proof
    assume "(of_nat (length (snd (rows ! i))) :: u32) = 0"
    with s have "int (length (snd (rows ! i))) = sint (0 :: u32)" by simp
    then show "snd (rows ! i) = []" by simp
  qed simp
  show ?thesis using p s z by (auto simp: item_row_def row_at_def)
qed

lemma response_ok_rows:
  assumes "length (rows_block rows) < 2 ^ 31"
  shows "response_ok (length rows) (rows_block rows) = Inr True"
  using rows_block_Valid [OF assms] rows_block_count [OF assms]
  by (simp add: response_ok_def ExtractGetResponseReader_def Let_def rows_block_nonempty rows_block_header sint_of_nat_small)

lemma parse_rows_of:
  assumes "\<forall>ks \<in> set kss. length (rows_block (rows_of F ks)) < 2 ^ 31"
  shows "parse_rows (zip (map length kss) (map (\<lambda>ks. rows_block (rows_of F ks)) kss)) values =
    Inr (values @ map (row_of F) (concat kss), True)"
  using assms
proof (induction kss arbitrary: "values")
  case (Cons ks kss)
  have small: "length (rows_block (rows_of F ks)) < 2 ^ 31" using Cons.prems by simp
  have n: "length (rows_of F ks) = length ks" by (simp add: rows_of_def)
  have "results (map (\<lambda>i. item_row (rows_block (rows_of F ks)) (int i)) [0..<length ks]) =
      Inr (map (\<lambda>i. snd (rows_of F ks ! i)) [0..<length ks])"
    using item_row_rows [OF _ small] n by (intro results_map_Inr) simp
  moreover have "map (\<lambda>i. snd (rows_of F ks ! i)) [0..<length ks] = map (row_of F) ks"
    by (rule nth_equalityI) (simp_all add: rows_of_def)
  ultimately show ?case
    using response_ok_rows [OF small] n Cons by simp
qed simp

definition answer :: "rows_map \<Rightarrow> fate \<Rightarrow> u64 list \<Rightarrow> u8 list option" where
  "answer F f ks = (case f of Answered n \<Rightarrow> Some (rows_block (rows_of F ks)) | Failed n \<Rightarrow> None)"

context float_store
begin

definition readable :: "rows_map \<Rightarrow> u64 list \<Rightarrow> bool" where
  "readable F ks \<longleftrightarrow> ks \<noteq> [] \<and> length ks < 2 ^ 28 \<and> (\<forall>k \<in> set ks. key_ok k) \<and>
     length (rows_block (rows_of F ks)) < 2 ^ 31"

lemma get_once:
  assumes "serves sv F" and "readable F ks"
  shows "\<exists>sv'. srv_GetParameter V (concat (map (le_bytes 8) ks)) [] sv = Inr (sv', rows_block (rows_of F ks)) \<and>
    sv_ps sv' = sv_ps sv"
  using srv_GetParameter_ok [OF assms(1)] assms(2) unfolding readable_def rows_of_def by blast

lemma get_times:
  assumes "serves sv F" and "readable F ks"
  shows "\<exists>sv'. run_times (srv_GetParameter V (concat (map (le_bytes 8) ks)) []) n sv = Inr sv' \<and> sv_ps sv' = sv_ps sv"
  using assms(1)
proof (induction n arbitrary: sv)
  case (Suc n)
  from get_once [OF Suc.prems assms(2)] obtain sv1 where
    sv1: "srv_GetParameter V (concat (map (le_bytes 8) ks)) [] sv = Inr (sv1, rows_block (rows_of F ks))" "sv_ps sv1 = sv_ps sv"
    by blast
  with Suc.prems have "serves sv1 F" by (simp add: serves_def)
  from Suc.IH [OF this] sv1 show ?case by auto
qed simp

lemma get_rpc:
  assumes sv: "serves sv F" and ks: "readable F ks"
  shows "\<exists>sv'. rpc (srv_GetParameter V (concat (map (le_bytes 8) ks)) []) f sv = Inr (sv', answer F f ks) \<and> sv_ps sv' = sv_ps sv"
proof -
  obtain n where "f = Answered n \<or> f = Failed n" by (cases f) auto
  moreover obtain sv1 where sv1: "run_times (srv_GetParameter V (concat (map (le_bytes 8) ks)) []) n sv = Inr sv1" "sv_ps sv1 = sv_ps sv"
    using get_times [OF assms] by blast
  moreover have "serves sv1 F" using sv sv1(2) by (simp add: serves_def)
  from get_once [OF this ks] obtain sv2 where
    "srv_GetParameter V (concat (map (le_bytes 8) ks)) [] sv1 = Inr (sv2, rows_block (rows_of F ks))" "sv_ps sv2 = sv_ps sv1"
    by blast
  ultimately show ?thesis by (auto simp: rpc_def answer_def)
qed

lemma send_gets_ok:
  assumes "serves sv F" and "\<forall>ks \<in> set kss. readable F ks"
  shows "\<exists>sv'. send_gets V net i kss sv = Inr (sv', map2 (\<lambda>j ks. answer F (net j) ks) [i..<i + length kss] kss) \<and>
    sv_ps sv' = sv_ps sv"
  using assms
proof (induction kss arbitrary: i sv)
  case (Cons ks kss)
  from get_rpc [OF Cons.prems(1), of ks "net i"] Cons.prems(2) obtain sv1 where
    sv1: "rpc (srv_GetParameter V (concat (map (le_bytes 8) ks)) []) (net i) sv = Inr (sv1, answer F (net i) ks)" "sv_ps sv1 = sv_ps sv"
    by auto
  with Cons.prems(1) have "serves sv1 F" by (simp add: serves_def)
  from Cons.IH [OF this, of "Suc i"] Cons.prems(2) obtain sv2 where
    "send_gets V net (Suc i) kss sv1 = Inr (sv2, map2 (\<lambda>j ks. answer F (net j) ks) [Suc i..<Suc i + length kss] kss)"
    "sv_ps sv2 = sv_ps sv1" by auto
  moreover have "[i..<i + length (ks # kss)] = i # [Suc i..<Suc i + length kss]" using upt_conv_Cons [of i "i + length (ks # kss)"] by simp
  ultimately show ?case using sv1 by simp
qed simp

lemma batches_readable:
  assumes "\<forall>k \<in> set keys. key_ok k \<and> length (row_of F k) \<le> 2 ^ 18" and "ks \<in> set (batches keys)"
  shows "readable F ks"
  using batches_set [OF assms(2)] rows_of_small [of ks F] assms(1)
  by (auto simp: readable_def MAX_PARAMETER_BATCH_BRPC_def subset_iff)

lemma cl_GetParameter_ok:
  assumes sv: "serves sv F" and keys: "\<forall>k \<in> set keys. key_ok k \<and> length (row_of F k) \<le> 2 ^ 18"
  shows "\<exists>sv'. cl_GetParameter_vec V False net keys sv =
      Inr (sv', if \<forall>i < length (batches keys). \<exists>n. net i = Answered n then (map (row_of F) keys, True) else ([], False)) \<and>
    sv_ps sv' = sv_ps sv"
proof -
  let ?kss = "batches keys"
  have r: "\<forall>ks \<in> set ?kss. readable F ks" using batches_readable [OF keys] by blast
  from send_gets_ok [OF sv r, of net 0] obtain sv' where
    sv': "send_gets V net 0 ?kss sv = Inr (sv', map2 (\<lambda>j ks. answer F (net j) ks) [0..<length ?kss] ?kss)" "sv_ps sv' = sv_ps sv"
    by auto
  let ?rs = "map2 (\<lambda>j ks. answer F (net j) ks) [0..<length ?kss] ?kss"
  show ?thesis
  proof (cases "\<forall>i < length ?kss. \<exists>n. net i = Answered n")
    case True
    have rs: "?rs = map (\<lambda>ks. Some (rows_block (rows_of F ks))) ?kss"
    proof (rule nth_equalityI)
      fix i
      assume "i < length ?rs"
      with True obtain n where "net i = Answered n" "i < length ?kss" by auto
      then show "?rs ! i = map (\<lambda>ks. Some (rows_block (rows_of F ks))) ?kss ! i" by (simp add: answer_def)
    qed simp
    have "parse_rows (zip (map length ?kss) (map the ?rs)) [] = Inr (map (row_of F) keys, True)"
      using parse_rows_of [of ?kss F "[]"] r unfolding rs by (simp add: readable_def comp_def)
    moreover have "None \<notin> set ?rs" unfolding rs by auto
    ultimately show ?thesis using sv' True by (simp add: cl_GetParameter_vec_def)
  next
    case False
    then obtain i n where "i < length ?kss" "net i = Failed n" by (metis fate.exhaust)
    then have "?rs ! i = None" "i < length ?rs" by (simp_all add: answer_def)
    then have "None \<in> set ?rs" by (metis nth_mem)
    with sv' False show ?thesis by (auto simp: cl_GetParameter_vec_def)
  qed
qed

end

section \<open>Writing\<close>

fun runs :: "fate \<Rightarrow> nat" where
  "runs (Answered n) = Suc n"
| "runs (Failed n) = n"

text \<open>The rows in the order in which the server stores them, up to the first call that fails.\<close>

fun put_trace :: "(nat \<Rightarrow> fate) \<Rightarrow> nat \<Rightarrow> row list list \<Rightarrow> row list" where
  "put_trace net i [] = []"
| "put_trace net i (rs # rss) =
     concat (replicate (runs (net i)) rs) @ (case net i of Answered n \<Rightarrow> put_trace net (Suc i) rss | Failed n \<Rightarrow> [])"

lemma put_rows_map_add: "put_rows rows F = F ++ map_of (rev rows)"
  by (induction rows rule: rev_induct) (auto simp: fun_eq_iff map_add_def)

lemma put_rows_again: "put_rows rows (put_rows rows F) = put_rows rows F"
  by (auto simp: put_rows_map_add map_add_def fun_eq_iff split: option.splits)

lemma put_rows_repeat: "put_rows (concat (replicate (Suc n) rows)) F = put_rows rows F"
proof (induction n arbitrary: F)
  case (Suc n)
  have "put_rows (concat (replicate (Suc (Suc n)) rows)) F = put_rows (concat (replicate (Suc n) rows)) (put_rows rows F)"
    by simp
  then show ?case by (simp only: Suc.IH put_rows_again)
qed simp

lemma pack_row_of: "pack_row k fs = pack_of (k, fs)"
  by (simp add: pack_row_def pack_of_def)

lemma map_pack_row: "map2 pack_row ks fss = map pack_of (zip ks fss)"
  by (simp add: pack_row_of split_def comp_def)

context float_store
begin

lemma put_times:
  assumes small: "length (rows_block rows) < 2 ^ 31" and keys: "\<forall>r \<in> set rows. key_ok (fst r)"
    and "serves sv F" and "puts_fit V room (concat (replicate n rows) @ rest) (ps_kv (sv_ps sv))"
  shows "\<exists>sv'. run_times (\<lambda>sv. bind_result (srv_PutParameter V (rows_block rows) [] sv) (\<lambda>sv'. Inr (sv', ()))) n sv = Inr sv' \<and>
    serves sv' (put_rows (concat (replicate n rows)) F) \<and> ps_optimizer (sv_ps sv') = ps_optimizer (sv_ps sv) \<and>
    puts_fit V room rest (ps_kv (sv_ps sv'))"
  using assms(3,4)
proof (induction n arbitrary: sv F)
  case (Suc n)
  from Suc.prems(2) have "puts_fit V room (rows @ concat (replicate n rows) @ rest) (ps_kv (sv_ps sv))" by simp
  from srv_PutParameter_ok [OF small Suc.prems(1) keys this] obtain sv1 where
    sv1: "srv_PutParameter V (rows_block rows) [] sv = Inr sv1" "serves sv1 (put_rows rows F)"
      "ps_optimizer (sv_ps sv1) = ps_optimizer (sv_ps sv)"
      "puts_fit V room (concat (replicate n rows) @ rest) (ps_kv (sv_ps sv1))" by blast
  from Suc.IH [OF sv1(2,4)] sv1(1,3) show ?case by auto
qed simp

lemma put_rpc:
  assumes small: "length (rows_block rows) < 2 ^ 31" and keys: "\<forall>r \<in> set rows. key_ok (fst r)"
    and sv: "serves sv F" and fit: "puts_fit V room (concat (replicate (runs f) rows) @ rest) (ps_kv (sv_ps sv))"
  shows "\<exists>sv'. rpc (\<lambda>sv. bind_result (srv_PutParameter V (rows_block rows) [] sv) (\<lambda>sv'. Inr (sv', ()))) f sv =
      Inr (sv', case f of Answered n \<Rightarrow> Some () | Failed n \<Rightarrow> None) \<and>
    serves sv' (put_rows (concat (replicate (runs f) rows)) F) \<and> ps_optimizer (sv_ps sv') = ps_optimizer (sv_ps sv) \<and>
    puts_fit V room rest (ps_kv (sv_ps sv'))"
proof (cases f)
  case (Failed n)
  with put_times [OF small keys sv, of n rest] fit show ?thesis by (auto simp: rpc_def)
next
  case (Answered n)
  have e: "concat (replicate (Suc n) rows) = concat (replicate n rows) @ rows"
    by (induction n) simp_all
  with fit Answered have "puts_fit V room (concat (replicate n rows) @ (rows @ rest)) (ps_kv (sv_ps sv))"
    by (simp del: replicate.simps)
  from put_times [OF small keys sv this] obtain sv1 where
    sv1: "run_times (\<lambda>sv. bind_result (srv_PutParameter V (rows_block rows) [] sv) (\<lambda>sv'. Inr (sv', ()))) n sv = Inr sv1"
      "serves sv1 (put_rows (concat (replicate n rows)) F)" "ps_optimizer (sv_ps sv1) = ps_optimizer (sv_ps sv)"
      "puts_fit V room (rows @ rest) (ps_kv (sv_ps sv1))" by blast
  from srv_PutParameter_ok [OF small sv1(2) keys sv1(4)] obtain sv2 where
    "srv_PutParameter V (rows_block rows) [] sv1 = Inr sv2" "serves sv2 (put_rows rows (put_rows (concat (replicate n rows)) F))"
    "ps_optimizer (sv_ps sv2) = ps_optimizer (sv_ps sv1)" "puts_fit V room rest (ps_kv (sv_ps sv2))" by blast
  with sv1 Answered e show ?thesis by (auto simp: rpc_def simp del: replicate.simps)
qed

text \<open>
  What a put leaves: after an answer to every call, all rows; after a failed call, the batches up to
  it, the failed one among them or not.
\<close>

lemma cl_put_batches_ok:
  assumes "length keys = length values" and "\<forall>r \<in> set (zip keys values). key_ok (fst r) \<and> length (snd r) \<le> 2 ^ 18"
    and "serves sv F"
    and "puts_fit V room (put_trace net i (batches (zip keys values))) (ps_kv (sv_ps sv))"
  shows "\<exists>sv' ok n. cl_put_batches V net i keys values sv = Inr (sv', ok) \<and>
    serves sv' (put_rows (take (n * MAX_PARAMETER_BATCH_BRPC) (zip keys values)) F) \<and>
    ps_optimizer (sv_ps sv') = ps_optimizer (sv_ps sv) \<and>
    (ok \<longleftrightarrow> (\<forall>j < length (batches (zip keys values)). \<exists>m. net (i + j) = Answered m)) \<and>
    (ok \<longrightarrow> length keys \<le> n * MAX_PARAMETER_BATCH_BRPC)"
  using assms
proof (induction keys arbitrary: "values" i sv F rule: batches.induct)
  case (1 keys)
  show ?case
  proof (cases "keys = []")
    case True
    then have "cl_put_batches V net i keys values sv = Inr (sv, True)" by (simp add: cl_put_batches.simps)
    with True "1.prems" show ?thesis
      by (intro exI [of _ sv] exI [of _ True] exI [of _ 0]) (simp add: batches_simps)
  next
    case False
    let ?m = MAX_PARAMETER_BATCH_BRPC and ?rows = "zip keys values"
    define n where "n = min (length keys) ?m"
    have ne: "?rows \<noteq> []" "values \<noteq> []" using False "1.prems"(1) by auto
    have bs: "batches ?rows = take ?m ?rows # batches (zip (drop ?m keys) (drop ?m values))"
      using ne(1) by (simp add: batches_simps(2) drop_zip)
    have tn: "take n keys = take ?m keys" "drop n keys = drop ?m keys" "drop n values = drop ?m values"
      using "1.prems"(1) by (auto simp: n_def min_def)
    have zr: "zip (take ?m keys) values = take ?m ?rows" by (rule nth_equalityI) auto
    have small: "length (rows_block (take ?m ?rows)) < 2 ^ 31"
      using "1.prems"(2) by (intro batch_small) (auto dest: in_set_takeD)
    have keys: "\<forall>r \<in> set (take ?m ?rows). key_ok (fst r)" using "1.prems"(2) by (auto dest: in_set_takeD)
    obtain c where c: "add_packs (map pack_of (take ?m ?rows)) (fc_new kDefaultBlockSize) = Inr c"
      "fst (fc_AppendToIOBuf [] c) = rows_block (take ?m ?rows)"
      using rows_to_block [of "take ?m ?rows" kDefaultBlockSize] rows_block_ok [OF small] ne
      by (auto simp: MAX_PARAMETER_BATCH_BRPC_def)
    define rest where "rest = (case net i of Answered n \<Rightarrow> put_trace net (Suc i) (batches (zip (drop ?m keys) (drop ?m values)))
      | Failed n \<Rightarrow> [])"
    have "puts_fit V room (concat (replicate (runs (net i)) (take ?m ?rows)) @ rest) (ps_kv (sv_ps sv))"
      using "1.prems"(4) unfolding bs by (simp add: rest_def)
    from put_rpc [OF small keys "1.prems"(3) this] obtain sv1 where
      sv1: "rpc (\<lambda>sv. bind_result (srv_PutParameter V (rows_block (take ?m ?rows)) [] sv) (\<lambda>sv'. Inr (sv', ()))) (net i) sv =
          Inr (sv1, case net i of Answered n \<Rightarrow> Some () | Failed n \<Rightarrow> None)"
        "serves sv1 (put_rows (concat (replicate (runs (net i)) (take ?m ?rows))) F)"
        "ps_optimizer (sv_ps sv1) = ps_optimizer (sv_ps sv)" "puts_fit V room rest (ps_kv (sv_ps sv1))" by blast
    have "\<not> length values < n" using "1.prems"(1) by (simp add: n_def)
    then have step: "cl_put_batches V net i keys values sv =
        (case net i of Failed n \<Rightarrow> Inr (sv1, False)
         | Answered n \<Rightarrow> cl_put_batches V net (Suc i) (drop ?m keys) (drop ?m values) sv1)"
      using False c sv1(1) unfolding cl_put_batches.simps [of V net i keys] Let_def n_def [symmetric] tn map_pack_row zr
      by (simp split: fate.splits)
    show ?thesis
    proof (cases "net i")
      case (Failed r)
      have "\<exists>q. put_rows (concat (replicate r (take ?m ?rows))) F = put_rows (take (q * ?m) ?rows) F"
      proof (cases r)
        case 0
        then show ?thesis by (intro exI [of _ 0]) simp
      next
        case (Suc r')
        then show ?thesis using put_rows_repeat [of r' "take ?m ?rows" F] by (intro exI [of _ 1]) simp
      qed
      with sv1(2,3) Failed step bs show ?thesis by (fastforce intro: exI [of _ 0])
    next
      case (Answered r)
      have sv1': "serves sv1 (put_rows (take ?m ?rows) F)"
        using sv1(2) put_rows_repeat [of r "take ?m ?rows" F] Answered by simp
      have set: "set (zip (drop ?m keys) (drop ?m values)) \<subseteq> set ?rows"
        by (metis drop_zip set_drop_subset)
      have fit1: "puts_fit V room (put_trace net (Suc i) (batches (zip (drop ?m keys) (drop ?m values)))) (ps_kv (sv_ps sv1))"
        using sv1(4) Answered by (simp add: rest_def)
      have l: "length (drop ?m keys) = length (drop ?m values)" using "1.prems"(1) by simp
      have keys': "\<forall>r \<in> set (zip (drop ?m keys) (drop ?m values)). key_ok (fst r) \<and> length (snd r) \<le> 2 ^ 18"
        using "1.prems"(2) set by blast
      from "1.IH" [OF False l keys' sv1' fit1] obtain sv' ok q where
        IH: "cl_put_batches V net (Suc i) (drop ?m keys) (drop ?m values) sv1 = Inr (sv', ok)"
          "serves sv' (put_rows (take (q * ?m) (zip (drop ?m keys) (drop ?m values))) (put_rows (take ?m ?rows) F))"
          "ps_optimizer (sv_ps sv') = ps_optimizer (sv_ps sv1)"
          "ok \<longleftrightarrow> (\<forall>j < length (batches (zip (drop ?m keys) (drop ?m values))). \<exists>m. net (Suc i + j) = Answered m)"
          "ok \<longrightarrow> length (drop ?m keys) \<le> q * ?m"
        by blast
      have "take (q * ?m) (zip (drop ?m keys) (drop ?m values)) = take (q * ?m) (drop ?m ?rows)"
        by (simp add: drop_zip)
      then have "put_rows (take (q * ?m) (zip (drop ?m keys) (drop ?m values))) (put_rows (take ?m ?rows) F) =
          put_rows (take (Suc q * ?m) ?rows) F"
        by (simp add: take_add add.commute flip: put_rows_simps(3))
      moreover have "ok \<longleftrightarrow> (\<forall>j < length (batches ?rows). \<exists>m. net (i + j) = Answered m)"
        unfolding IH(4) bs using Answered by (auto simp: less_Suc_eq_0_disj)
      ultimately show ?thesis using step Answered IH sv1(3)
        by (intro exI [of _ sv'] exI [of _ ok] exI [of _ "Suc q"]) auto
    qed
  qed
qed

end

section \<open>Updating\<close>

lemma sgd_rows_no_row:
  assumes "\<not> no_row F k"
  shows "\<not> no_row (sgd_rows fo lr tag F rows) k"
proof -
  obtain fs where "sgd_rows fo lr tag F rows k = Some fs" "length fs = length (the (F k))"
    using sgd_rows_keep [OF assms] by blast
  with assms show ?thesis by (cases "F k") (auto simp: no_row_def)
qed

definition trainer :: "'s ps_server \<Rightarrow> string \<Rightarrow> u32 \<Rightarrow> sparse_tensor \<Rightarrow> bool" where
  "trainer sv table lr t \<longleftrightarrow>
     (\<exists>opt. ps_optimizer (sv_ps sv) = Some opt \<and> op_rule opt = SGD lr \<and> op_tensor_map opt table = Some t)"

context float_store
begin

definition present :: "rows_map \<Rightarrow> u8 \<Rightarrow> row list \<Rightarrow> bool" where
  "present F tag rows \<longleftrightarrow>
     (\<forall>r \<in> set rows. key_ok (concatKeyAndTag (fst r) tag) \<and> \<not> no_row F (concatKeyAndTag (fst r) tag))"

lemma present_sgd: "present F tag rows \<Longrightarrow> present (sgd_rows fo lr tag F rows') tag rows"
  unfolding present_def using sgd_rows_no_row by blast

lemma srv_UpdateParameter_ok:
  assumes sv: "serves sv F" "trainer sv table lr t" and p: "present F (st_tag t) rows"
    and small: "length (rows_block rows) < 2 ^ 31"
  shows "\<exists>sv'. srv_UpdateParameter V fo table (rows_block rows) [] sv = Inr (sv', True) \<and>
    serves sv' (sgd_rows fo lr (st_tag t) F rows) \<and> trainer sv' table lr t"
proof -
  from sv(2) obtain opt where opt: "ps_optimizer (sv_ps sv) = Some opt" "op_rule opt = SGD lr"
    "op_tensor_map opt table = Some t" by (auto simp: trainer_def)
  have "inv (ps_kv (sv_ps sv)) F" using sv(1) by (simp add: serves_def)
  from sgd_Update_ok [where fo = fo and rows = rows, OF this opt(2,3) small] p nth_mem
  obtain s' where "op_Update V fo opt table (rows_block rows) (ps_kv (sv_ps sv)) = (s', None)"
    "inv s' (sgd_rows fo lr (st_tag t) F rows)" by (fastforce simp: present_def)
  then show ?thesis
    using rows_block_Valid [OF small] opt
    by (auto simp: srv_UpdateParameter_def ExtractPayloadBytes_def rows_block_nonempty ps_UpdateParameter_def
        serves_def trainer_def)
qed

lemma update_times:
  assumes "serves sv F" and "trainer sv table lr t" and "present F (st_tag t) rows"
    and small: "length (rows_block rows) < 2 ^ 31"
  shows "\<exists>sv'. run_times (srv_UpdateParameter V fo table (rows_block rows) []) n sv = Inr sv' \<and>
    serves sv' (((\<lambda>G. sgd_rows fo lr (st_tag t) G rows) ^^ n) F) \<and> trainer sv' table lr t \<and>
    present (((\<lambda>G. sgd_rows fo lr (st_tag t) G rows) ^^ n) F) (st_tag t) rows"
  using assms(1-3)
proof (induction n arbitrary: sv F)
  case (Suc n)
  from srv_UpdateParameter_ok [OF Suc.prems small, of fo] obtain sv1 where
    sv1: "srv_UpdateParameter V fo table (rows_block rows) [] sv = Inr (sv1, True)"
      "serves sv1 (sgd_rows fo lr (st_tag t) F rows)" "trainer sv1 table lr t" by blast
  from Suc.IH [OF sv1(2,3) present_sgd [OF Suc.prems(3)]] sv1(1) show ?case
    unfolding funpow_Suc_right comp_def by auto
qed simp

lemma cl_UpdateParameter_ok:
  assumes sv: "serves sv F" "trainer sv table lr t" and rows: "length keys = length gs" "keys \<noteq> []"
    and p: "present F (st_tag t) (zip keys gs)" and small: "length (rows_block (zip keys gs)) < 2 ^ 31"
  shows "\<exists>sv'. cl_UpdateParameter V fo f table keys (Some gs) sv =
      Inr (sv', case f of Answered n \<Rightarrow> 0 | Failed n \<Rightarrow> -1) \<and>
    serves sv' (((\<lambda>G. sgd_rows fo lr (st_tag t) G (zip keys gs)) ^^ runs f) F)"
proof -
  have ne: "zip keys gs \<noteq> []" "gs \<noteq> []" using rows by auto
  obtain c where c: "add_packs (map pack_of (zip keys gs)) (fc_new kDefaultBlockSize) = Inr c"
    "fst (fc_AppendToIOBuf [] c) = rows_block (zip keys gs)"
    using rows_to_block [OF ne(1), of kDefaultBlockSize] rows_block_ok [OF small] by blast
  then have e: "cl_UpdateParameter V fo f table keys (Some gs) sv =
      bind_result (rpc (srv_UpdateParameter V fo table (rows_block (zip keys gs)) []) f sv) (\<lambda>(sv', r).
        Inr (sv', if r = Some True then 0 else -1))"
    using rows ne by (simp add: cl_UpdateParameter_def send_update_def map_pack_row)
  show ?thesis
  proof (cases f)
    case (Failed n)
    from update_times [OF sv p small, of fo n] show ?thesis unfolding e unfolding Failed by (auto simp: rpc_def)
  next
    case (Answered n)
    from update_times [OF sv p small, of fo n] obtain sv1 where
      sv1: "run_times (srv_UpdateParameter V fo table (rows_block (zip keys gs)) []) n sv = Inr sv1"
        "serves sv1 (((\<lambda>G. sgd_rows fo lr (st_tag t) G (zip keys gs)) ^^ n) F)" "trainer sv1 table lr t"
        "present (((\<lambda>G. sgd_rows fo lr (st_tag t) G (zip keys gs)) ^^ n) F) (st_tag t) (zip keys gs)" by blast
    from srv_UpdateParameter_ok [OF sv1(2-4) small, of fo] obtain sv2 where
      "srv_UpdateParameter V fo table (rows_block (zip keys gs)) [] sv1 = Inr (sv2, True)"
      "serves sv2 (sgd_rows fo lr (st_tag t) (((\<lambda>G. sgd_rows fo lr (st_tag t) G (zip keys gs)) ^^ n) F) (zip keys gs))"
      by blast
    with sv1 show ?thesis unfolding e unfolding Answered by (auto simp: rpc_def)
  qed
qed

end

section \<open>On the extendible-hash engine\<close>

abbreviation "eh_kv \<equiv> ehe_kv loop_vt"

definition eh_serves :: "nat \<Rightarrow> (loop_malloc, ehash) engine ps_server \<Rightarrow> rows_map \<Rightarrow> bool" where
  "eh_serves n sv F \<longleftrightarrow> ehe_floats loop_vt (class_inv n) (ps_kv (sv_ps sv)) F"

definition eh_fits :: "nat \<Rightarrow> row list \<Rightarrow> (loop_malloc, ehash) engine ps_server \<Rightarrow> bool" where
  "eh_fits n rows sv \<longleftrightarrow> puts_fit eh_kv (ehe_room loop_vt (class_request n)) rows (ps_kv (sv_ps sv))"

lemma eh_serves: "one_class_bytes.eh_rows.serves n sv F \<longleftrightarrow> eh_serves n sv F"
  by (simp add: one_class_bytes.eh_rows.serves_def eh_serves_def)

end
