(* ===== verification/PsFlat.thy ===== *)
theory PsFlat
  imports PsRuns
begin

text \<open>
  \<open>GetParameter\<close> into a caller's array: rows of one dimension side by side, a missing key's place left
  as it was.
\<close>

fun flat_rows :: "nat \<Rightarrow> u32 list list \<Rightarrow> u32 list \<Rightarrow> u32 list" where
  "flat_rows d [] values = []"
| "flat_rows d (r # rs) values = (if r = [] then take d values else r) @ flat_rows d rs (drop d values)"

definition uniform_rows :: "nat \<Rightarrow> u32 list list \<Rightarrow> bool" where
  "uniform_rows d rs \<longleftrightarrow> (\<forall>r \<in> set rs. r = [] \<or> length r = d)"

lemma length_flat_rows:
  "uniform_rows d rs \<Longrightarrow> d * length rs \<le> length values \<Longrightarrow> length (flat_rows d rs values) = d * length rs"
  by (induction rs arbitrary: "values") (auto simp: uniform_rows_def)

lemma flat_rows_append:
  "flat_rows d (rs @ rs') values = flat_rows d rs values @ flat_rows d rs' (drop (d * length rs) values)"
  by (induction rs arbitrary: "values") (simp_all add: add.commute)

lemma flat_items_ok:
  assumes small: "length (rows_block rows) < 2 ^ 31" and n: "i + n = length rows" and d: "d < 2 ^ 31"
    and u: "uniform_rows d (map snd (drop i rows))" and pre: "length pre = d * acc"
    and len: "d * n \<le> length values" and dim: "dim = None \<or> dim = Some (of_nat d)"
  shows "\<exists>dim'. flat_items (rows_block rows) i n acc dim (pre @ values) =
      Inr (acc + n, dim', pre @ flat_rows d (map snd (drop i rows)) values @ drop (d * n) values) \<and>
    (dim' = None \<or> dim' = Some (of_nat d))"
  using n u pre len dim
proof (induction n arbitrary: i acc dim pre "values")
  case 0
  then show ?case by simp
next
  case (Suc n)
  then have i: "i < length rows" by simp
  let ?r = "snd (rows ! i)" and ?bs = "rows_block rows"
  have dr: "drop i rows = rows ! i # drop (Suc i) rows" using i by (simp add: Cons_nth_drop_Suc)
  obtain p where p: "fr_item (int i) ?bs = Inr p" "row_at ?bs p (rows ! i)"
    using rows_block_item [OF i small] by blast
  have u': "uniform_rows d (map snd (drop (Suc i) rows))" "?r = [] \<or> length ?r = d"
    using Suc.prems(2) dr by (auto simp: uniform_rows_def)
  have ds: "sint (of_nat d :: u32) = int d" using sint_of_nat_small [OF d] .
  define row where "row = (if ?r = [] then take d values else ?r)"
  have rl: "length (pre @ row) = d * Suc acc" "d * n \<le> length (drop d values)"
    using Suc.prems(3,4) u'(2) by (auto simp: row_def)
  have step: "\<exists>dim'. flat_items ?bs i (Suc n) acc dim (pre @ values) =
      flat_items ?bs (Suc i) n (Suc acc) dim' ((pre @ row) @ drop d values) \<and> (dim' = None \<or> dim' = Some (of_nat d))"
  proof (cases "?r = []")
    case True
    then have "pi_dim ?bs p = Inr 0" using p(2) by (simp add: row_at_def)
    with True p(1) Suc.prems(5) show ?thesis by (auto simp: row_def)
  next
    case False
    with u'(2) have l: "length ?r = d" by simp
    with False ds have nz: "(of_nat d :: u32) \<noteq> 0" by (metis length_0_conv of_nat_0_eq_iff signed_0)
    have "pi_dim ?bs p = Inr (of_nat d)" "pi_floats ?bs p d = Inr ?r" using p(2) l by (auto simp: row_at_def)
    moreover have "copy_row ?r (d * acc) (pre @ values) = Inr ((pre @ row) @ drop d values)"
      using Suc.prems(3,4) l False by (simp add: copy_row_def row_def)
    moreover have "nat (int d) * acc = d * acc" by simp
    ultimately have "flat_items ?bs i (Suc n) acc dim (pre @ values) =
        flat_items ?bs (Suc i) n (Suc acc) (Some (of_nat d)) ((pre @ row) @ drop d values)"
      using p(1) nz ds Suc.prems(5) by (auto simp: Let_def)
    then show ?thesis by blast
  qed
  then obtain dim1 where dim1: "flat_items ?bs i (Suc n) acc dim (pre @ values) =
      flat_items ?bs (Suc i) n (Suc acc) dim1 ((pre @ row) @ drop d values)" "dim1 = None \<or> dim1 = Some (of_nat d)" by blast
  have "flat_rows d (map snd (drop i rows)) values = row @ flat_rows d (map snd (drop (Suc i) rows)) (drop d values)"
    unfolding dr by (simp add: row_def)
  with Suc.IH [OF _ u'(1) rl dim1(2)] dim1(1) Suc.prems(1) show ?case by (auto simp: add.commute)
qed

lemma parse_flat_ok:
  assumes "\<forall>ks \<in> set kss. length (rows_block (rows_of F ks)) < 2 ^ 31" and d: "d < 2 ^ 31"
    and "uniform_rows d (map (row_of F) (concat kss))" and "length pre = d * acc"
    and "d * length (concat kss) \<le> length values" and "dim = None \<or> dim = Some (of_nat d)"
  shows "parse_flat (zip (map length kss) (map (\<lambda>ks. rows_block (rows_of F ks)) kss)) acc dim (pre @ values) =
    Inr (pre @ flat_rows d (map (row_of F) (concat kss)) values @ drop (d * length (concat kss)) values, True)"
  using assms(1,3-6)
proof (induction kss arbitrary: pre acc dim "values")
  case (Cons ks kss)
  let ?rows = "rows_of F ks"
  have small: "length (rows_block ?rows) < 2 ^ 31" and n: "0 + length ks = length ?rows" and m: "map snd (drop 0 ?rows) = map (row_of F) ks"
    using Cons.prems(1) by (simp_all add: rows_of_def)
  have u: "uniform_rows d (map (row_of F) ks)" "uniform_rows d (map (row_of F) (concat kss))"
    and l: "d * length ks \<le> length values" "d * length (concat kss) \<le> length (drop (d * length ks) values)"
    using Cons.prems(2,4) by (auto simp: uniform_rows_def algebra_simps)
  from flat_items_ok [OF small n d _ Cons.prems(3) l(1) Cons.prems(5)] u(1) m obtain dim' where
    dim': "flat_items (rows_block ?rows) 0 (length ks) acc dim (pre @ values) =
        Inr (acc + length ks, dim', pre @ flat_rows d (map (row_of F) ks) values @ drop (d * length ks) values)"
      "dim' = None \<or> dim' = Some (of_nat d)" by auto
  let ?pre = "pre @ flat_rows d (map (row_of F) ks) values"
  have pre: "length ?pre = d * (acc + length ks)"
    using length_flat_rows [OF u(1)] l(1) Cons.prems(3) by (simp add: algebra_simps)
  from Cons.IH [OF _ u(2) pre l(2) dim'(2)] Cons.prems(1) dim'(1) response_ok_rows [OF small] n
  show ?case by (simp add: flat_rows_append add.commute algebra_simps)
qed simp

context float_store
begin

lemma cl_GetParameter_flat_ok:
  assumes sv: "serves sv F" and keys: "\<forall>k \<in> set keys. key_ok k \<and> length (row_of F k) \<le> 2 ^ 18"
    and d: "d < 2 ^ 31" "uniform_rows d (map (row_of F) keys)" "d * length keys \<le> length values"
    and net: "\<forall>i < length (batches keys). \<exists>n. net i = Answered n"
  shows "\<exists>sv'. cl_GetParameter_flat V False net keys values sv =
      Inr (sv', flat_rows d (map (row_of F) keys) values @ drop (d * length keys) values, True) \<and> sv_ps sv' = sv_ps sv"
proof -
  let ?kss = "batches keys"
  have r: "\<forall>ks \<in> set ?kss. readable F ks" using batches_readable [OF keys] by blast
  from send_gets_ok [OF sv r, of net 0] obtain sv' where
    sv': "send_gets V net 0 ?kss sv = Inr (sv', map2 (\<lambda>j ks. answer F (net j) ks) [0..<length ?kss] ?kss)" "sv_ps sv' = sv_ps sv"
    by auto
  have rs: "map2 (\<lambda>j ks. answer F (net j) ks) [0..<length ?kss] ?kss = map (\<lambda>ks. Some (rows_block (rows_of F ks))) ?kss"
    (is "?rs = _")
  proof (rule nth_equalityI)
    fix i
    assume "i < length ?rs"
    with net obtain n where "net i = Answered n" "i < length ?kss" by auto
    then show "?rs ! i = map (\<lambda>ks. Some (rows_block (rows_of F ks))) ?kss ! i" by (simp add: answer_def)
  qed simp
  have "None \<notin> set ?rs" unfolding rs by auto
  moreover have "parse_flat (zip (map length ?kss) (map the ?rs)) 0 None values =
      Inr (flat_rows d (map (row_of F) keys) values @ drop (d * length keys) values, True)"
    using parse_flat_ok [of ?kss F d "[]" 0 "values" None] r d unfolding rs by (simp add: readable_def comp_def)
  ultimately show ?thesis using sv' by (simp add: cl_GetParameter_flat_def)
qed

end

end
