(* ===== verification/PsProps.thy ===== *)
theory PsProps
  imports PsFlat
begin

unbundle bit_operations_syntax

text \<open>
  What the brpc client and server promise together, on the extendible-hash engine over
  \<open>PersistLoopShmMalloc\<close>, with witnesses on a server that has just been started.
\<close>

lemma cl_PutParameter_array_eq:
  "cl_PutParameter_array V net keys values sv =
     bind_result (cl_put_batches V net 0 keys values sv) (\<lambda>(sv', success). Inr (sv', if success then 1 else 0))"
  by (simp add: cl_PutParameter_array_def cl_PutParameter_def)

lemma eh_put_outcome:
  assumes "eh_serves n sv F" and "length keys = length values"
    and "\<forall>r \<in> set (zip keys values). fst r \<noteq> INVALID \<and> length (snd r) \<le> 2 ^ 18"
    and "eh_fits n (put_trace net 0 (batches (zip keys values))) sv"
  obtains sv' ok m where "cl_put_batches eh_kv net 0 keys values sv = Inr (sv', ok)"
    "eh_serves n sv' (put_rows (take (m * MAX_PARAMETER_BATCH_BRPC) (zip keys values)) F)"
    "ps_optimizer (sv_ps sv') = ps_optimizer (sv_ps sv)"
    "ok \<longleftrightarrow> (\<forall>j < length (batches (zip keys values)). \<exists>t. net j = Answered t)"
    "ok \<longrightarrow> eh_serves n sv' (put_rows (zip keys values) F)"
proof -
  from one_class_bytes.eh_rows.cl_put_batches_ok [OF assms(2,3) assms(1) [folded eh_serves] assms(4) [unfolded eh_fits_def]]
  obtain sv' ok m where P: "cl_put_batches eh_kv net 0 keys values sv = Inr (sv', ok)"
    "eh_serves n sv' (put_rows (take (m * MAX_PARAMETER_BATCH_BRPC) (zip keys values)) F)"
    "ps_optimizer (sv_ps sv') = ps_optimizer (sv_ps sv)"
    "ok \<longleftrightarrow> (\<forall>j < length (batches (zip keys values)). \<exists>t. net (0 + j) = Answered t)"
    "ok \<longrightarrow> length keys \<le> m * MAX_PARAMETER_BATCH_BRPC"
    unfolding eh_serves by blast
  have "ok \<longrightarrow> eh_serves n sv' (put_rows (zip keys values) F)" using P(2,5) by auto
  from that [OF P(1,2,3) _ this] P(4) show thesis by simp
qed

text \<open>
  C7: \<open>PutParameter\<close> returns 1 exactly when every call it made was answered, and then the server
  holds all the rows, however often calls were retried; when a call fails it returns 0 and the
  server holds whole batches from the front of the request, and nothing else has changed.
\<close>

theorem brpc_PutParameter_correct:
  assumes "eh_serves n sv F" and "length keys = length values"
    and "\<forall>r \<in> set (zip keys values). fst r \<noteq> INVALID \<and> length (snd r) \<le> 2 ^ 18"
    and "eh_fits n (put_trace net 0 (batches (zip keys values))) sv"
  shows "\<exists>sv' r m. cl_PutParameter_array eh_kv net keys values sv = Inr (sv', r) \<and>
    eh_serves n sv' (put_rows (take (m * MAX_PARAMETER_BATCH_BRPC) (zip keys values)) F) \<and>
    (if \<forall>i < length (batches (zip keys values)). \<exists>t. net i = Answered t
     then r = 1 \<and> eh_serves n sv' (put_rows (zip keys values) F) else r = 0)"
proof -
  obtain sv' ok m where P: "cl_put_batches eh_kv net 0 keys values sv = Inr (sv', ok)"
    "eh_serves n sv' (put_rows (take (m * MAX_PARAMETER_BATCH_BRPC) (zip keys values)) F)"
    "ok \<longleftrightarrow> (\<forall>j < length (batches (zip keys values)). \<exists>t. net j = Answered t)"
    "ok \<longrightarrow> eh_serves n sv' (put_rows (zip keys values) F)"
    using assms by (rule eh_put_outcome)
  show ?thesis
  proof (cases ok)
    case True
    with P have "cl_PutParameter_array eh_kv net keys values sv = Inr (sv', 1)" by (simp add: cl_PutParameter_array_eq)
    with True P show ?thesis by (intro exI [of _ sv'] exI [of _ 1] exI [of _ m]) simp
  next
    case False
    with P have "cl_PutParameter_array eh_kv net keys values sv = Inr (sv', 0)" by (simp add: cl_PutParameter_array_eq)
    with False P show ?thesis by (intro exI [of _ sv'] exI [of _ 0] exI [of _ m]) simp
  qed
qed

text \<open>
  C31: \<open>GetParameter\<close> gives every key's row, empty for a key that is not there, or nothing at all
  when one of its calls failed; the engine is as before.
\<close>

theorem brpc_GetParameter_correct:
  assumes "eh_serves n sv F" and "\<forall>k \<in> set keys. k \<noteq> INVALID \<and> length (row_of F k) \<le> 2 ^ 18"
  shows "\<exists>sv'. cl_GetParameter_vec eh_kv False net keys sv =
      Inr (sv', if \<forall>i < length (batches keys). \<exists>t. net i = Answered t then (map (row_of F) keys, True) else ([], False)) \<and>
    sv_ps sv' = sv_ps sv"
  using one_class_bytes.eh_rows.cl_GetParameter_ok [of n sv F keys net] assms unfolding eh_serves by blast

lemma row_of_put_rows:
  "distinct keys \<Longrightarrow> length keys = length values \<Longrightarrow> map (row_of (put_rows (zip keys values) F)) keys = values"
proof (rule nth_equalityI)
  fix i
  assume d: "distinct keys" "length keys = length values"
    and i: "i < length (map (row_of (put_rows (zip keys values) F)) keys)"
  have "distinct (map fst (rev (zip keys values)))" using d by (simp add: rev_map [symmetric])
  moreover have "(keys ! i, values ! i) \<in> set (rev (zip keys values))"
    using d i by (auto simp: in_set_zip)
  ultimately have "map_of (rev (zip keys values)) (keys ! i) = Some (values ! i)" by (simp only: map_of_is_SomeI)
  with i show "map (row_of (put_rows (zip keys values) F)) keys ! i = values ! i"
    by (simp add: put_rows_map_add row_of_def map_add_def)
qed simp

text \<open>
  C2: What a client puts, it gets: with distinct keys and every call answered, \<open>GetParameter\<close>
  after \<open>PutParameter\<close> returns exactly the values that were put, through the blocks of the wire
  format, the server and its engine.
\<close>

theorem brpc_put_then_get:
  assumes "eh_serves n sv F" and "length keys = length values" and "distinct keys"
    and "\<forall>r \<in> set (zip keys values). fst r \<noteq> INVALID \<and> length (snd r) \<le> 2 ^ 18"
    and "eh_fits n (put_trace net 0 (batches (zip keys values))) sv"
    and "\<forall>i. \<exists>t. net i = Answered t" and "\<forall>i. \<exists>t. net' i = Answered t"
  shows "\<exists>sv' sv''. cl_PutParameter_array eh_kv net keys values sv = Inr (sv', 1) \<and>
    cl_GetParameter_vec eh_kv False net' keys sv' = Inr (sv'', values, True)"
proof -
  obtain sv' ok where P: "cl_put_batches eh_kv net 0 keys values sv = Inr (sv', ok)"
    "ok \<longleftrightarrow> (\<forall>j < length (batches (zip keys values)). \<exists>t. net j = Answered t)"
    "ok \<longrightarrow> eh_serves n sv' (put_rows (zip keys values) F)"
    using assms(1,2,4,5) by (rule eh_put_outcome)
  with assms(6) have ok: ok and sv': "eh_serves n sv' (put_rows (zip keys values) F)" by blast+
  note rows = row_of_put_rows [OF assms(3,2), of F]
  have "k \<noteq> INVALID \<and> length (row_of (put_rows (zip keys values) F) k) \<le> 2 ^ 18" if k: "k \<in> set keys" for k
  proof -
    from k obtain i where i: "i < length keys" "k = keys ! i" by (auto simp: in_set_conv_nth)
    then have "(k, values ! i) \<in> set (zip keys values)" using assms(2) by (auto simp: in_set_zip)
    moreover have "row_of (put_rows (zip keys values) F) k = values ! i"
      using arg_cong [where f = "\<lambda>xs. xs ! i", OF rows] i by simp
    ultimately show ?thesis using assms(4) by fastforce
  qed
  with one_class_bytes.eh_rows.cl_GetParameter_ok [OF sv' [folded eh_serves], of keys net']
  obtain sv'' where "cl_GetParameter_vec eh_kv False net' keys sv' = Inr (sv'', values, True)"
    using rows assms(7) by auto
  moreover have "cl_PutParameter_array eh_kv net keys values sv = Inr (sv', 1)"
    using P(1) ok by (simp add: cl_PutParameter_array_eq)
  ultimately show ?thesis by blast
qed

text \<open>
  C8: An \<open>UpdateParameter\<close> of rows that exist returns 0 when it is answered and has then applied the
  gradients once for every time the call was run: a call the RPC layer retried is a step taken twice.
\<close>

theorem brpc_UpdateParameter_correct:
  assumes "eh_serves n sv F" and "trainer sv table lr t" and "length keys = length grads" and "keys \<noteq> []"
    and "\<forall>k \<in> set keys. concatKeyAndTag k (st_tag t) \<noteq> INVALID \<and> \<not> no_row F (concatKeyAndTag k (st_tag t))"
    and "length (rows_block (zip keys grads)) < 2 ^ 31"
  shows "\<exists>sv'. cl_UpdateParameter eh_kv fo f table keys (Some grads) sv =
      Inr (sv', case f of Answered m \<Rightarrow> 0 | Failed m \<Rightarrow> -1) \<and>
    eh_serves n sv' (((\<lambda>G. sgd_rows fo lr (st_tag t) G (zip keys grads)) ^^ runs f) F)"
proof -
  have "one_class_bytes.eh_rows.present F (st_tag t) (zip keys grads)"
    using assms(5) by (auto simp: one_class_bytes.eh_rows.present_def dest: set_zip_leftD)
  from one_class_bytes.eh_rows.cl_UpdateParameter_ok [OF assms(1) [folded eh_serves] assms(2-4) this assms(6), of fo f]
  show ?thesis unfolding eh_serves .
qed

text \<open>\<open>concatKeyAndTag\<close> under the tag of every tensor, 0.\<close>

lemma concat_tag_0: "concatKeyAndTag k 0 = take_bit 56 k"
proof -
  have "drop_bit 8 (NOT 0) = (mask 56 :: u64)"
    by (rule bit_word_eqI) (auto simp: bit_simps)
  then show ?thesis by (simp add: concatKeyAndTag_def take_bit_eq_mask)
qed

lemma tagged_key_ok: "concatKeyAndTag k 0 \<noteq> INVALID"
proof
  assume "concatKeyAndTag k 0 = INVALID"
  then have "bit (take_bit 56 k) 63 = bit INVALID 63" by (simp add: concat_tag_0)
  then show False by (simp add: bit_simps INVALID_def)
qed

lemma sgd_rows_other:
  assumes "\<forall>r \<in> set rows. concatKeyAndTag (fst r) tag \<noteq> k"
  shows "sgd_rows fo lr tag F rows k = F k"
proof -
  have "fold (sgd_row fo lr tag F0) rows F k = F k" for F0
    using assms by (induction rows arbitrary: F) (auto simp: sgd_row_def Let_def)
  then show ?thesis by (simp add: sgd_rows_def)
qed

text \<open>
  A key that uses its upper eight bits is not trained: \<open>PutParameter\<close> stores its row under
  the key itself, \<open>UpdateParameter\<close> steps the row of the key without those bits. An answered update whose keys all
  have rows under their lower 56 bits, for this key or for others, leaves its own row as it was.
\<close>

theorem brpc_update_misses_high_keys:
  assumes "eh_serves n sv F" and "trainer sv table lr t" and "st_tag t = 0" and "length keys = length grads"
    and "keys \<noteq> []" and "\<forall>k \<in> set keys. \<not> no_row F (take_bit 56 k)"
    and "length (rows_block (zip keys grads)) < 2 ^ 31" and "take_bit 56 k \<noteq> k"
  shows "\<exists>sv' F'. cl_UpdateParameter eh_kv fo (Answered m) table keys (Some grads) sv = Inr (sv', 0) \<and>
    eh_serves n sv' F' \<and> F' k = F k"
proof -
  have "one_class_bytes.eh_rows.present F (st_tag t) (zip keys grads)"
    using assms(3,6) tagged_key_ok
    by (auto simp: one_class_bytes.eh_rows.present_def concat_tag_0 dest: set_zip_leftD)
  from one_class_bytes.eh_rows.cl_UpdateParameter_ok [OF assms(1) [folded eh_serves] assms(2,4,5) this assms(7), of fo "Answered m"]
  obtain sv' where "cl_UpdateParameter eh_kv fo (Answered m) table keys (Some grads) sv = Inr (sv', 0)"
    "eh_serves n sv' (((\<lambda>G. sgd_rows fo lr 0 G (zip keys grads)) ^^ Suc m) F)"
    unfolding eh_serves by (auto simp: assms(3))
  moreover have "((\<lambda>G. sgd_rows fo lr 0 G (zip keys grads)) ^^ q) F k = F k" for q
  proof (induction q)
    case (Suc q)
    have "sgd_rows fo lr 0 G (zip keys grads) k = G k" for G
      using assms(8) by (intro sgd_rows_other) (auto simp: concat_tag_0)
    with Suc show ?case by simp
  qed simp
  ultimately show ?thesis by blast
qed

text \<open>
  \<open>AdaGrad\<close> as \<open>Init\<close> sets it up has no accumulators of its own: the parameter and the
  accumulator tensor share tag 0 and so every key's row. An update adds the squared gradient
  to the parameters themselves before it steps them (\<open>shared_step\<close>).
\<close>

theorem adagrad_shares_rows:
  assumes "ehe_floats loop_vt (class_inv n) e F" and "length (rows_block rows) < 2 ^ 31"
  shows "\<exists>e'. op_Update eh_kv fo (op_Init [table] num dim \<lparr>op_rule = AdaGrad lr eps, op_tensor_map = m\<rparr>) table
      (rows_block rows) e = (e', None) \<and>
    ehe_floats loop_vt (class_inv n) e' (acc_rows fo lr eps F rows)"
proof -
  let ?opt = "op_Init [table] num dim \<lparr>op_rule = AdaGrad lr eps, op_tensor_map = m\<rparr>"
  have "op_tensor_map ?opt table = Some (tensor table PARAMETER [num, dim])"
    "op_tensor_map ?opt (table @ ''_accumulated_grad'') = Some (tensor (table @ ''_accumulated_grad'') MOMENT_1 [num, dim])"
    by (simp_all add: op_Init_def op_Init1_def Let_def)
  moreover have "op_rule ?opt = AdaGrad lr eps" by (simp add: op_Init_def op_Init1_def Let_def)
  ultimately show ?thesis
    using one_class_bytes.eh_rows.AdaGrad_Update_ok [OF assms(1), of ?opt lr eps table _ _ rows fo] assms(2) tagged_key_ok
    by (simp add: tensor_def)
qed

text \<open>
  The caller's array after \<open>GetParameter\<close>: with all rows of one dimension, every key's row at the
  key's index and, where a key is missing, what was there before.
\<close>

theorem brpc_GetParameter_array_correct:
  assumes "eh_serves n sv F" and "\<forall>k \<in> set keys. k \<noteq> INVALID \<and> length (row_of F k) \<le> 2 ^ 18"
    and "d < 2 ^ 31" and "uniform_rows d (map (row_of F) keys)" and "d * length keys \<le> length values"
    and "\<forall>i < length (batches keys). \<exists>t. net i = Answered t"
  shows "\<exists>sv'. cl_GetParameter_flat eh_kv False net keys values sv =
      Inr (sv', flat_rows d (map (row_of F) keys) values @ drop (d * length keys) values, True) \<and> sv_ps sv' = sv_ps sv"
  using one_class_bytes.eh_rows.cl_GetParameter_flat_ok [of n sv F keys d "values" net] assms unfolding eh_serves by blast

text \<open>
  A put whose payload the server does not find valid stores nothing, and the call succeeds all
  the same: the handler logs and returns, and its reply has no field that could say so.
\<close>

theorem put_of_invalid_payload_succeeds:
  assumes "fr_Valid (of_nat (length payload)) payload = Inr False"
  shows "rpc (\<lambda>sv. bind_result (srv_PutParameter V payload [] sv) (\<lambda>sv'. Inr (sv', ()))) (Answered m) sv = Inr (sv, Some ())"
proof -
  have "run_times (\<lambda>sv. bind_result (srv_PutParameter V payload [] sv) (\<lambda>sv'. Inr (sv', ()))) m sv = Inr sv"
    using srv_PutParameter_invalid [OF assms, of V] by (induction m) simp_all
  with srv_PutParameter_invalid [OF assms, of V] show ?thesis by (simp add: rpc_def)
qed

section \<open>Witnesses\<close>

definition demo_server :: "(loop_malloc, ehash) engine ps_server" where
  "demo_server =
     \<lparr>sv_ps = \<lparr>ps_kv = demo_engine,
        ps_optimizer = Some \<lparr>op_rule = SGD sgd_rate, op_tensor_map = [''t'' \<mapsto> tensor ''t'' PARAMETER [10, 2]]\<rparr>\<rparr>,
      total_get_requests = 0, total_put_requests = 0, total_get_keys = 0, total_put_keys = 0,
      total_get_bytes = 0, total_put_bytes = 0\<rparr>"

definition demo_net :: "nat \<Rightarrow> fate" where "demo_net i = Answered 0"

lemma demo_serves: "eh_serves 1 demo_server Map.empty"
  using demo_engine_rep by (simp add: eh_serves_def demo_server_def ehe_floats_def)

lemma demo_trainer: "trainer demo_server ''t'' sgd_rate (tensor ''t'' PARAMETER [10, 2])"
  by (simp add: trainer_def demo_server_def)

lemma demo_batches: "batches [x] = [[x]]"
  by (simp add: batches_simps MAX_PARAMETER_BATCH_BRPC_def)

lemma demo_put_fits: "eh_fits 1 (put_trace demo_net 0 (batches (zip [5] [[1, 2]]))) demo_server"
  using demo_request demo_not_full
  by (simp add: eh_fits_def demo_batches demo_net_def demo_server_def ehe_room_def demo_engine_def)

lemma demo_key: "(5 :: u64) \<noteq> INVALID"
  by (simp add: INVALID_def)

theorem brpc_PutParameter_correct_witness:
  "\<exists>sv'. cl_PutParameter_array eh_kv demo_net [5] [[1, 2]] demo_server = Inr (sv', 1) \<and>
    eh_serves 1 sv' [5 \<mapsto> [1, 2]]"
  using brpc_PutParameter_correct [OF demo_serves _ _ demo_put_fits] demo_key by (auto simp: demo_net_def)

theorem brpc_GetParameter_correct_witness:
  "\<exists>sv'. cl_GetParameter_vec eh_kv False demo_net [5] demo_server = Inr (sv', [[]], True)"
  using brpc_GetParameter_correct [OF demo_serves, of "[5]" demo_net] demo_key by (auto simp: demo_net_def row_of_def)

theorem brpc_put_then_get_witness:
  "\<exists>sv' sv''. cl_PutParameter_array eh_kv demo_net [5] [[1, 2]] demo_server = Inr (sv', 1) \<and>
    cl_GetParameter_vec eh_kv False demo_net [5] sv' = Inr (sv'', [[1, 2]], True)"
  using brpc_put_then_get [OF demo_serves _ _ _ demo_put_fits, of demo_net] demo_key by (auto simp: demo_net_def)

lemma demo_put:
  obtains sv' where "cl_put_batches eh_kv demo_net 0 [5] [[1, 2]] demo_server = Inr (sv', True)"
    "eh_serves 1 sv' [5 \<mapsto> [1, 2]]" "trainer sv' ''t'' sgd_rate (tensor ''t'' PARAMETER [10, 2])"
proof -
  have "\<forall>r \<in> set (zip [5] [[1, 2]]). fst r \<noteq> INVALID \<and> length (snd r) \<le> 2 ^ 18" using demo_key by simp
  from demo_serves _ this demo_put_fits obtain sv' ok where
    "cl_put_batches eh_kv demo_net 0 [5] [[1, 2]] demo_server = Inr (sv', ok)"
    "ps_optimizer (sv_ps sv') = ps_optimizer (sv_ps demo_server)"
    "ok \<longleftrightarrow> (\<forall>j < length (batches (zip [5 :: u64] [[1 :: u32, 2]])). \<exists>t. demo_net j = Answered t)"
    "ok \<longrightarrow> eh_serves 1 sv' (put_rows (zip [5] [[1, 2]]) Map.empty)"
    by (rule eh_put_outcome) simp
  with that demo_trainer show thesis by (simp add: demo_net_def trainer_def)
qed

definition demo_ops :: float_ops where
  "demo_ops = \<lparr>fo_neg_mul = (\<lambda>lr g. - g), fo_sub_mul = (\<lambda>x r g. x - g), fo_add_sq = (\<lambda>a g. a + g * g),
     fo_rate = (\<lambda>lr a eps. lr), fo_mean_sq = (\<lambda>n gs. 0), fo_add = (+)\<rparr>"

lemma demo_tag: "concatKeyAndTag 5 0 = 5"
  by (simp add: concat_tag_0 take_bit_eq_mod)

theorem brpc_UpdateParameter_correct_witness:
  "\<exists>sv sv'. cl_put_batches eh_kv demo_net 0 [5] [[1, 2]] demo_server = Inr (sv, True) \<and>
    cl_UpdateParameter eh_kv demo_ops (Answered 1) ''t'' [5] (Some [[1, 1]]) sv = Inr (sv', 0) \<and>
    eh_serves 1 sv' [5 \<mapsto> [-1, 0]]"
proof (rule demo_put)
  fix sv
  assume sv: "cl_put_batches eh_kv demo_net 0 [5] [[1, 2]] demo_server = Inr (sv, True)"
    "eh_serves 1 sv [5 \<mapsto> [1, 2]]" "trainer sv ''t'' sgd_rate (tensor ''t'' PARAMETER [10, 2])"
  have steps: "((\<lambda>G. sgd_rows demo_ops sgd_rate 0 G (zip [5] [[1, 1]])) ^^ runs (Answered 1)) [5 \<mapsto> [1, 2]] = [5 \<mapsto> [-1, 0]]"
    by (simp add: sgd_rows_def sgd_row_def Let_def demo_tag no_row_def demo_ops_def)
  have small: "length (rows_block (zip [5 :: u64] [[1 :: u32, 1]])) < 2 ^ 31"
    by (simp add: length_rows_block)
  from brpc_UpdateParameter_correct [OF sv(2,3) _ _ _ small, of demo_ops "Answered 1"]
  obtain sv' where "cl_UpdateParameter eh_kv demo_ops (Answered 1) ''t'' [5] (Some [[1, 1]]) sv = Inr (sv', 0)"
    "eh_serves 1 sv' (((\<lambda>G. sgd_rows demo_ops sgd_rate 0 G (zip [5] [[1, 1]])) ^^ runs (Answered 1)) [5 \<mapsto> [1, 2]])"
    using demo_key by (auto simp: tensor_def demo_tag no_row_def simp del: runs.simps funpow.simps)
  with sv(1) show ?thesis unfolding steps by blast
qed

theorem brpc_update_misses_high_keys_witness:
  "\<exists>sv sv' F'. cl_put_batches eh_kv demo_net 0 [5] [[1, 2]] demo_server = Inr (sv, True) \<and>
    cl_UpdateParameter eh_kv demo_ops (Answered 0) ''t'' [2 ^ 60 + 5] (Some [[1, 1]]) sv = Inr (sv', 0) \<and>
    eh_serves 1 sv' F' \<and> F' (2 ^ 60 + 5) = None"
proof (rule demo_put)
  fix sv
  assume sv: "cl_put_batches eh_kv demo_net 0 [5] [[1, 2]] demo_server = Inr (sv, True)"
    "eh_serves 1 sv [5 \<mapsto> [1, 2]]" "trainer sv ''t'' sgd_rate (tensor ''t'' PARAMETER [10, 2])"
  have "take_bit 56 (2 ^ 60 + 5 :: u64) = 5" by (simp add: take_bit_eq_mod)
  with brpc_update_misses_high_keys [OF sv(2,3), of "[2 ^ 60 + 5]" "[[1, 1]]" "2 ^ 60 + 5" demo_ops 0] sv(1) show ?thesis
    by (fastforce simp: tensor_def no_row_def length_rows_block)
qed

theorem adagrad_shares_rows_witness:
  "\<exists>sv e'. cl_put_batches eh_kv demo_net 0 [5] [[1, 2]] demo_server = Inr (sv, True) \<and>
    op_Update eh_kv demo_ops (op_Init [''t''] 10 2 \<lparr>op_rule = AdaGrad sgd_rate 0, op_tensor_map = Map.empty\<rparr>) ''t''
      (rows_block [(5, [3, 1])]) (ps_kv (sv_ps sv)) = (e', None) \<and>
    ehe_floats loop_vt (class_inv 1) e' [5 \<mapsto> [7, 2]]"
proof (rule demo_put)
  fix sv
  assume sv: "cl_put_batches eh_kv demo_net 0 [5] [[1, 2]] demo_server = Inr (sv, True)" "eh_serves 1 sv [5 \<mapsto> [1, 2]]"
  have "acc_rows demo_ops sgd_rate 0 [5 \<mapsto> [1, 2]] [(5, [3, 1])] = [5 \<mapsto> [7, 2]]"
    by (simp add: acc_rows_def acc_row_def Let_def demo_tag no_row_def demo_ops_def shared_step_def)
  with adagrad_shares_rows [of 1 "ps_kv (sv_ps sv)" "[5 \<mapsto> [1, 2]]" "[(5, [3, 1])]" demo_ops "''t''" 10 2 sgd_rate 0 Map.empty] sv
  show ?thesis by (fastforce simp: eh_serves_def length_rows_block)
qed

theorem brpc_GetParameter_array_correct_witness:
  "\<exists>sv'. cl_GetParameter_flat eh_kv False demo_net [5] [8, 9, 10] demo_server = Inr (sv', [8, 9, 10], True)"
  using brpc_GetParameter_array_correct [OF demo_serves, of "[5]" 2 "[8, 9, 10]" demo_net] demo_key
  by (auto simp: demo_net_def row_of_def uniform_rows_def)

theorem put_of_invalid_payload_succeeds_witness:
  "rpc (\<lambda>sv. bind_result (srv_PutParameter eh_kv [0, 0, 0, 0, 7] [] sv) (\<lambda>sv'. Inr (sv', ()))) (Answered 0) demo_server =
    Inr (demo_server, Some ())"
proof (rule put_of_invalid_payload_succeeds)
  show "fr_Valid (of_nat (length [0, 0, 0, 0, 7 :: u8])) [0, 0, 0, 0, 7] = Inr False"
    by (simp add: fr_Valid_def fr_byte_size_def fr_size_def fr_offset_def read_u32_def read_bytes_def)
qed

end
