(* ===== verification/ShardClient.thy ===== *)
theory ShardClient
  imports PsClient
begin

text \<open>
  The client of a sharded deployment (\<open>ps/brpc/dist_brpc_ps_client.cpp\<close>): one brpc client per server, keys
  spread over the shards by a hash. The calls to the shards run at the same time, each on a server of
  its own, so taking them in the order of the shards is as good as any other order. \<open>h\<close> is
  \<open>CityHash64\<close> on a key's bytes, \<open>nets c\<close> the fates of the calls of client \<open>c\<close>.
\<close>

record dist_client =
  dc_num_shards :: nat
  dc_max_keys :: int
  dc_hash_method :: string
  dc_shard_client :: "int \<Rightarrow> nat option"
  dc_keys :: "u64 list list"
  dc_index :: "nat list list"

text \<open>The constructor on the fields of the configuration; \<open>shards\<close> are the servers' \<open>shard\<close> entries.\<close>

definition dist_new :: "int \<Rightarrow> int \<Rightarrow> string \<Rightarrow> int list \<Rightarrow> dist_client result" where
  "dist_new num_shards max_keys_per_request hash_method shards =
     (if num_shards < 0 then Inl (Throw ''vector::resize'')
      else Inr \<lparr>dc_num_shards = nat num_shards, dc_max_keys = max_keys_per_request, dc_hash_method = hash_method,
        dc_shard_client = fold (\<lambda>i m. m(shards ! i \<mapsto> i)) [0..<length shards] Map.empty,
        dc_keys = replicate (nat num_shards) [], dc_index = replicate (nat num_shards) []\<rparr>)"

section \<open>Partition\<close>

definition GetShardId :: "(u64 \<Rightarrow> u64) \<Rightarrow> dist_client \<Rightarrow> u64 \<Rightarrow> nat result" where
  "GetShardId h d key =
     (if dc_num_shards d = 0 then Inl Div_by_zero
      else let n = of_nat (dc_num_shards d) in
        if dc_hash_method d = ''city_hash'' then Inr (unat (h key mod n))
        else if dc_hash_method d = ''simple_mod'' then Inr (unat (key mod n))
        else Inr (unat (h key mod n)))"

text \<open>\<open>static_cast<size_t>(max_keys_per_request_)\<close>: a negative number is no limit.\<close>

definition key_limit :: "dist_client \<Rightarrow> nat" where "key_limit d = nat (dc_max_keys d mod 2 ^ 64)"

definition push_key :: "nat \<Rightarrow> u64 \<Rightarrow> nat \<Rightarrow> dist_client \<Rightarrow> dist_client" where
  "push_key shard_id key i d =
     (let b = dc_keys d ! shard_id @ [key]; m = dc_index d ! shard_id @ [i] in
      if length b > key_limit d
      then d\<lparr>dc_keys := (dc_keys d)[shard_id := take (key_limit d) b], dc_index := (dc_index d)[shard_id := take (key_limit d) m]\<rparr>
      else d\<lparr>dc_keys := (dc_keys d)[shard_id := b], dc_index := (dc_index d)[shard_id := m]\<rparr>)"

fun partition_from :: "(u64 \<Rightarrow> u64) \<Rightarrow> nat \<Rightarrow> u64 list \<Rightarrow> dist_client \<Rightarrow> dist_client result" where
  "partition_from h i [] d = Inr d"
| "partition_from h i (key # keys) d =
     bind_result (GetShardId h d key) (\<lambda>shard_id.
       if shard_id < length (dc_keys d) \<and> shard_id < length (dc_index d)
       then partition_from h (Suc i) keys (push_key shard_id key i d) else Inl Bad_access)"

definition PartitionKeys :: "(u64 \<Rightarrow> u64) \<Rightarrow> u64 list \<Rightarrow> dist_client \<Rightarrow> dist_client result" where
  "PartitionKeys h keys d =
     partition_from h 0 keys (d\<lparr>dc_keys := map (\<lambda>_. []) (dc_keys d), dc_index := map (\<lambda>_. []) (dc_index d)\<rparr>)"

section \<open>Calls\<close>

text \<open>
  The loop over the shards that have keys: the answers with their shards, and \<^const>\<open>False\<close> when a shard
  without a client ends it. The calls sent before that are waited for as the futures are destroyed.
\<close>

fun each_shard ::
  "(nat \<Rightarrow> nat \<Rightarrow> 's ps_server \<Rightarrow> ('s ps_server \<times> 'r) result) \<Rightarrow> dist_client \<Rightarrow> nat list \<Rightarrow> 's ps_server list \<Rightarrow>
    ('s ps_server list \<times> (nat \<times> 'r) list \<times> bool) result" where
  "each_shard call d [] svs = Inr (svs, [], True)"
| "each_shard call d (s # ss) svs =
     (if dc_keys d ! s = [] then each_shard call d ss svs
      else case dc_shard_client d (int s) of
        None \<Rightarrow> Inr (svs, [], False)
      | Some c \<Rightarrow>
          bind_result (call s c (svs ! c)) (\<lambda>(sv, r).
            bind_result (each_shard call d ss (svs[c := sv])) (\<lambda>(svs', rs, found). Inr (svs', (s, r) # rs, found))))"

text \<open>A call to every client, as the commands make them.\<close>

fun each_client ::
  "(nat \<Rightarrow> 's ps_server \<Rightarrow> ('s ps_server \<times> 'r) result) \<Rightarrow> nat list \<Rightarrow> 's ps_server list \<Rightarrow>
    ('s ps_server list \<times> 'r list) result" where
  "each_client call [] svs = Inr (svs, [])"
| "each_client call (c # cs) svs =
     bind_result (call c (svs ! c)) (\<lambda>(sv, r).
       bind_result (each_client call cs (svs[c := sv])) (\<lambda>(svs', rs). Inr (svs', r # rs)))"

section \<open>Reading\<close>

text \<open>
  The loops of the two merges over the index mapping of every shard; \<open>put i row\<close> is their body. A
  shard's parts are touched only where its mapping is not empty.
\<close>

fun merge_shard :: "(nat \<Rightarrow> 'r \<Rightarrow> 'v \<Rightarrow> 'v result) \<Rightarrow> (nat \<times> 'r) list \<Rightarrow> 'v \<Rightarrow> 'v result" where
  "merge_shard put [] v = Inr v"
| "merge_shard put ((i, row) # rs) v = bind_result (put i row v) (\<lambda>v'. merge_shard put rs v')"

fun merge_shards ::
  "(nat \<Rightarrow> 'r \<Rightarrow> 'v \<Rightarrow> 'v result) \<Rightarrow> dist_client \<Rightarrow> 'r list list \<Rightarrow> nat list \<Rightarrow> 'v \<Rightarrow> 'v result" where
  "merge_shards put d parts [] v = Inr v"
| "merge_shards put d parts (s # ss) v =
     (if s \<ge> length (dc_index d) then Inl Bad_access
      else if dc_index d ! s = [] then merge_shards put d parts ss v
      else if s \<ge> length parts then Inl Bad_access
      else bind_result (merge_shard put (zip (dc_index d ! s) (parts ! s)) v) (\<lambda>v'. merge_shards put d parts ss v'))"

definition set_row :: "nat \<Rightarrow> u32 list \<Rightarrow> u32 list list \<Rightarrow> u32 list list result" where
  "set_row i row values = (if i < length values then Inr (values[i := row]) else Inl Bad_access)"

definition MergeResults :: "dist_client \<Rightarrow> nat \<Rightarrow> u32 list list list \<Rightarrow> u32 list list result" where
  "MergeResults d n parts = merge_shards set_row d parts [0..<dc_num_shards d] (replicate n [])"

fun find_dim :: "u32 list list list \<Rightarrow> nat list \<Rightarrow> nat result" where
  "find_dim parts [] = Inr 0"
| "find_dim parts (s # ss) =
     (if s \<ge> length parts then Inl Bad_access
      else if parts ! s \<noteq> [] \<and> hd (parts ! s) \<noteq> [] then Inr (length (hd (parts ! s)))
      else find_dim parts ss)"

definition MergeResultsToArray :: "dist_client \<Rightarrow> u32 list list list \<Rightarrow> u32 list \<Rightarrow> u32 list result" where
  "MergeResultsToArray d parts values =
     bind_result (find_dim parts [0..<dc_num_shards d]) (\<lambda>emb_dim.
       if emb_dim = 0 then Inr values
       else merge_shards (\<lambda>i row. copy_row row (i * emb_dim)) d parts [0..<dc_num_shards d] values)"

definition results_of :: "dist_client \<Rightarrow> (nat \<times> u32 list list \<times> bool) list \<Rightarrow> u32 list list list" where
  "results_of d rs = map (\<lambda>s. case map_of rs s of None \<Rightarrow> [] | Some (rows, _) \<Rightarrow> rows) [0..<dc_num_shards d]"

definition dist_GetParameter_vec ::
  "'s kv_vt \<Rightarrow> (u64 \<Rightarrow> u64) \<Rightarrow> bool \<Rightarrow> (nat \<Rightarrow> nat \<Rightarrow> fate) \<Rightarrow> u64 list \<Rightarrow> u32 list list \<Rightarrow> dist_client \<Rightarrow>
    's ps_server list \<Rightarrow> (dist_client \<times> 's ps_server list \<times> u32 list list \<times> bool) result" where
  "dist_GetParameter_vec V h random_init nets keys values d svs =
     (if keys = [] then Inr (d, svs, [], True)
      else bind_result (PartitionKeys h keys d) (\<lambda>d'.
        bind_result (each_shard (\<lambda>s c. cl_GetParameter_vec V random_init (nets c) (dc_keys d' ! s)) d' [0..<dc_num_shards d'] svs)
          (\<lambda>(svs', rs, found).
            if \<not> found \<or> (\<exists>(s, rows, ok) \<in> set rs. \<not> ok) then Inr (d', svs', values, False)
            else bind_result (MergeResults d' (length keys) (results_of d' rs)) (\<lambda>values'. Inr (d', svs', values', True)))))"

text \<open>
  The overload for an array hands \<open>MergeResultsToArray\<close> a vector of one element, all rows in
  the order of the keys, where it expects one element per shard.
\<close>

definition dist_GetParameter ::
  "'s kv_vt \<Rightarrow> (u64 \<Rightarrow> u64) \<Rightarrow> bool \<Rightarrow> (nat \<Rightarrow> nat \<Rightarrow> fate) \<Rightarrow> u64 list \<Rightarrow> u32 list \<Rightarrow> dist_client \<Rightarrow>
    's ps_server list \<Rightarrow> (dist_client \<times> 's ps_server list \<times> u32 list \<times> int) result" where
  "dist_GetParameter V h random_init nets keys values d svs =
     bind_result (dist_GetParameter_vec V h random_init nets keys [] d svs) (\<lambda>(d', svs', result_vectors, success).
       if \<not> success then Inr (d', svs', values, -1)
       else bind_result (MergeResultsToArray d' [result_vectors] values) (\<lambda>values'. Inr (d', svs', values', 0)))"

definition dist_AsyncGetParameter ::
  "'s kv_vt \<Rightarrow> (u64 \<Rightarrow> u64) \<Rightarrow> bool \<Rightarrow> (nat \<Rightarrow> nat \<Rightarrow> fate) \<Rightarrow> u64 list \<Rightarrow> u32 list \<Rightarrow> dist_client \<Rightarrow>
    's ps_server list \<Rightarrow> (dist_client \<times> 's ps_server list \<times> u32 list \<times> int) result" where
  "dist_AsyncGetParameter V h random_init nets keys values d svs = dist_GetParameter V h random_init nets keys values d svs"

section \<open>Writing\<close>

text \<open>The rows of a shard, by the index mapping.\<close>

definition shard_rows :: "dist_client \<Rightarrow> 'r list \<Rightarrow> nat \<Rightarrow> 'r list" where
  "shard_rows d values s = map (\<lambda>i. values ! i) (dc_index d ! s)"

definition dist_PutParameter ::
  "'s kv_vt \<Rightarrow> (u64 \<Rightarrow> u64) \<Rightarrow> (nat \<Rightarrow> nat \<Rightarrow> fate) \<Rightarrow> u64 list \<Rightarrow> u32 list list \<Rightarrow> dist_client \<Rightarrow> 's ps_server list \<Rightarrow>
    (dist_client \<times> 's ps_server list \<times> int) result" where
  "dist_PutParameter V h nets keys values d svs =
     (if length keys \<noteq> length values then Inr (d, svs, -1)
      else bind_result (PartitionKeys h keys d) (\<lambda>d'.
        bind_result (each_shard (\<lambda>s c. cl_PutParameter_array V (nets c) (dc_keys d' ! s) (shard_rows d' values s)) d'
            [0..<dc_num_shards d'] svs) (\<lambda>(svs', rs, found).
          Inr (d', svs', if \<not> found \<or> (\<exists>(s, r) \<in> set rs. r \<noteq> 1) then -1 else 0))))"

definition dist_UpdateParameter ::
  "'s kv_vt \<Rightarrow> float_ops \<Rightarrow> (u64 \<Rightarrow> u64) \<Rightarrow> (nat \<Rightarrow> fate) \<Rightarrow> string \<Rightarrow> u64 list \<Rightarrow> u32 list list option \<Rightarrow> dist_client \<Rightarrow>
    's ps_server list \<Rightarrow> (dist_client \<times> 's ps_server list \<times> int) result" where
  "dist_UpdateParameter V fo h fates table keys grads d svs =
     (case grads of
        None \<Rightarrow> Inr (d, svs, -1)
      | Some gs \<Rightarrow>
          if length keys \<noteq> length gs then Inr (d, svs, -1)
          else if keys = [] then Inr (d, svs, 0)
          else bind_result (PartitionKeys h keys d) (\<lambda>d'.
            bind_result (each_shard (\<lambda>s c. cl_UpdateParameter V fo (fates c) table (dc_keys d' ! s) (Some (shard_rows d' gs s))) d'
                [0..<dc_num_shards d'] svs) (\<lambda>(svs', rs, found).
              Inr (d', svs', if \<not> found \<or> (\<exists>(s, r) \<in> set rs. r \<noteq> 0) then -1 else 0))))"

text \<open>The gradients as rows of \<open>embedding_dim\<close> floats, read from the flat array.\<close>

fun flat_grads :: "u32 list \<Rightarrow> nat \<Rightarrow> nat \<Rightarrow> nat \<Rightarrow> u32 list list result" where
  "flat_grads grads i 0 dim = Inr []"
| "flat_grads grads i (Suc n) dim =
     (if (i + 1) * dim \<le> length grads
      then bind_result (flat_grads grads (Suc i) n dim) (\<lambda>rows. Inr (take dim (drop (i * dim) grads) # rows))
      else Inl Bad_access)"

definition dist_UpdateParameterFlat ::
  "'s kv_vt \<Rightarrow> float_ops \<Rightarrow> (u64 \<Rightarrow> u64) \<Rightarrow> (nat \<Rightarrow> fate) \<Rightarrow> string \<Rightarrow> u64 list \<Rightarrow> u32 list option \<Rightarrow> int \<Rightarrow> int \<Rightarrow>
    dist_client \<Rightarrow> 's ps_server list \<Rightarrow> (dist_client \<times> 's ps_server list \<times> int) result" where
  "dist_UpdateParameterFlat V fo h fates table keys grads num_rows embedding_dim d svs =
     (case grads of
        None \<Rightarrow> Inr (d, svs, -1)
      | Some gs \<Rightarrow>
          if num_rows < 0 \<or> embedding_dim \<le> 0 then Inr (d, svs, -1)
          else if int (length keys) \<noteq> num_rows then Inr (d, svs, -1)
          else bind_result (flat_grads gs 0 (nat num_rows) (nat embedding_dim)) (\<lambda>rows.
            dist_UpdateParameter V fo h fates table keys (Some rows) d svs))"

section \<open>Commands to every server\<close>

definition dist_all ::
  "(nat \<Rightarrow> 's ps_server \<Rightarrow> ('s ps_server \<times> bool) result) \<Rightarrow> 's ps_server list \<Rightarrow> ('s ps_server list \<times> bool) result" where
  "dist_all call svs =
     bind_result (each_client call [0..<length svs] svs) (\<lambda>(svs', rs). Inr (svs', \<forall>ok \<in> set rs. ok))"

definition dist_Command ::
  "'s kv_vt \<Rightarrow> (nat \<Rightarrow> fate) \<Rightarrow> ps_command \<Rightarrow> 's ps_server list \<Rightarrow> 's ps_server list result" where
  "dist_Command V fates command svs =
     bind_result (each_client (\<lambda>c sv. bind_result (cl_Command V (fates c) command sv) (\<lambda>sv'. Inr (sv', ()))) [0..<length svs] svs)
       (\<lambda>(svs', _). Inr svs')"

definition dist_ClearPS :: "'s kv_vt \<Rightarrow> (nat \<Rightarrow> fate) \<Rightarrow> 's ps_server list \<Rightarrow> ('s ps_server list \<times> bool) result" where
  "dist_ClearPS V fates = dist_all (\<lambda>c. cl_ClearPS V (fates c))"

definition dist_LoadFakeData ::
  "'s kv_vt \<Rightarrow> (nat \<Rightarrow> fate) \<Rightarrow> u64 \<Rightarrow> 's ps_server list \<Rightarrow> ('s ps_server list \<times> bool) result" where
  "dist_LoadFakeData V fates n = dist_all (\<lambda>c. cl_LoadFakeData V (fates c) n)"

definition dist_DumpFakeData ::
  "'s kv_vt \<Rightarrow> (nat \<Rightarrow> fate) \<Rightarrow> u64 \<Rightarrow> 's ps_server list \<Rightarrow> ('s ps_server list \<times> bool) result" where
  "dist_DumpFakeData V fates n = dist_all (\<lambda>c. cl_DumpFakeData V (fates c) n)"

definition dist_LoadCkpt ::
  "'s kv_vt \<Rightarrow> (nat \<Rightarrow> fate) \<Rightarrow> u8 list list \<Rightarrow> u8 list list \<Rightarrow> 's ps_server list \<Rightarrow> ('s ps_server list \<times> bool) result" where
  "dist_LoadCkpt V fates model_config_path emb_file_path =
     dist_all (\<lambda>c. cl_LoadCkpt V (fates c) model_config_path emb_file_path)"

definition dist_InitEmbeddingTable ::
  "(u64 \<times> u64 \<Rightarrow> string) \<Rightarrow> (string \<Rightarrow> (u64 \<times> u64) option) \<Rightarrow> (nat \<Rightarrow> fate) \<Rightarrow> string \<Rightarrow> u64 \<times> u64 \<Rightarrow>
    's ps_server list \<Rightarrow> ('s ps_server list \<times> int) result" where
  "dist_InitEmbeddingTable serialize parse fates table config svs =
     bind_result (each_client (\<lambda>c. cl_InitEmbeddingTable serialize parse (fates c) table config) [0..<length svs] svs)
       (\<lambda>(svs', rs). Inr (svs', if \<exists>r \<in> set rs. r \<noteq> 0 then -1 else 0))"

text \<open>Prefetching is not supported over shards.\<close>

definition dist_PrefetchParameter :: "u64 list \<Rightarrow> u64" where "dist_PrefetchParameter keys = 0"

definition dist_IsPrefetchDone :: "u64 \<Rightarrow> bool" where "dist_IsPrefetchDone prefetch_id = True"

definition dist_GetPrefetchResult :: "u64 \<Rightarrow> bool" where "dist_GetPrefetchResult prefetch_id = False"

definition dist_GetPrefetchResultFlat :: "u64 \<Rightarrow> bool" where "dist_GetPrefetchResultFlat prefetch_id = False"

end
