(* ===== verification/ShardRuns.thy ===== *)
theory ShardRuns
  imports PsProps ShardClient
begin

text \<open>
  Sharded clients and their servers together: which keys go where, what the merges put back, and the
  servers of all shards as one map of rows.
\<close>

section \<open>Partition\<close>

definition shard_of :: "(u64 \<Rightarrow> u64) \<Rightarrow> dist_client \<Rightarrow> u64 \<Rightarrow> nat" where
  "shard_of h d key =
     unat ((if dc_hash_method d = ''simple_mod'' then key else h key) mod of_nat (dc_num_shards d))"

text \<open>A client as the constructor leaves it when the configuration has one server per shard.\<close>

definition client_of :: "dist_client \<Rightarrow> nat \<Rightarrow> nat" where "client_of d s = the (dc_shard_client d (int s))"

definition dist_ok :: "dist_client \<Rightarrow> nat \<Rightarrow> bool" where
  "dist_ok d servers \<longleftrightarrow> 0 < dc_num_shards d \<and> dc_num_shards d < 2 ^ 31 \<and>
     length (dc_keys d) = dc_num_shards d \<and> length (dc_index d) = dc_num_shards d \<and>
     (\<forall>s < dc_num_shards d. dc_shard_client d (int s) = Some (client_of d s) \<and> client_of d s < servers) \<and>
     inj_on (client_of d) {..<dc_num_shards d}"

lemma GetShardId_eq: "0 < dc_num_shards d \<Longrightarrow> GetShardId h d key = Inr (shard_of h d key)"
  by (simp add: GetShardId_def shard_of_def Let_def)

lemma shard_of_less:
  assumes "dist_ok d n"
  shows "shard_of h d key < dc_num_shards d"
proof -
  have "unat (of_nat (dc_num_shards d) :: u64) = dc_num_shards d"
    using assms by (intro unat_of_nat_small) (simp add: dist_ok_def)
  with assms show ?thesis by (simp add: shard_of_def unat_mod dist_ok_def)
qed

lemma take_snoc_limit: "take m (take m xs @ [x]) = take m (xs @ [x])"
  by (cases "m \<le> length xs") auto

lemma push_key_eq:
  assumes "length (dc_index d ! s) = length (dc_keys d ! s)"
  shows "push_key s key i d =
    d\<lparr>dc_keys := (dc_keys d)[s := take (key_limit d) (dc_keys d ! s @ [key])],
      dc_index := (dc_index d)[s := take (key_limit d) (dc_index d ! s @ [i])]\<rparr>"
  using assms by (simp add: push_key_def Let_def)

text \<open>The positions of a shard's keys among the first \<open>i\<close>, as many as the limit lets through.\<close>

definition shard_index :: "(u64 \<Rightarrow> u64) \<Rightarrow> dist_client \<Rightarrow> u64 list \<Rightarrow> nat \<Rightarrow> nat \<Rightarrow> nat list" where
  "shard_index h d keys i s = take (key_limit d) (filter (\<lambda>j. shard_of h d (keys ! j) = s) [0..<i])"

definition partitioned :: "(u64 \<Rightarrow> u64) \<Rightarrow> u64 list \<Rightarrow> nat \<Rightarrow> dist_client \<Rightarrow> dist_client" where
  "partitioned h keys i d =
     d\<lparr>dc_keys := map (\<lambda>s. map ((!) keys) (shard_index h d keys i s)) [0..<dc_num_shards d],
       dc_index := map (shard_index h d keys i) [0..<dc_num_shards d]\<rparr>"

lemma partitioned_fields [simp]:
  "dc_num_shards (partitioned h keys i d) = dc_num_shards d" "dc_max_keys (partitioned h keys i d) = dc_max_keys d"
  "dc_hash_method (partitioned h keys i d) = dc_hash_method d"
  "dc_shard_client (partitioned h keys i d) = dc_shard_client d"
  "key_limit (partitioned h keys i d) = key_limit d" "client_of (partitioned h keys i d) = client_of d"
  "shard_of h' (partitioned h keys i d) = shard_of h' d"
  by (simp_all add: partitioned_def key_limit_def client_of_def shard_of_def fun_eq_iff)

lemma dist_ok_partitioned: "dist_ok d n \<Longrightarrow> dist_ok (partitioned h keys i d) n"
  unfolding dist_ok_def partitioned_fields by (simp add: partitioned_def)

lemma push_key_partitioned:
  assumes "s = shard_of h d (keys ! i)" and "s < dc_num_shards d"
  shows "push_key s (keys ! i) i (partitioned h keys i d) = partitioned h keys (Suc i) d"
proof -
  let ?m = "key_limit d" and ?f = "\<lambda>s. filter (\<lambda>j. shard_of h d (keys ! j) = s) [0..<i]"
  have new: "shard_index h d keys (Suc i) t =
      (if t = s then take ?m (?f s @ [i]) else shard_index h d keys i t)" for t
    using assms(1) by (simp add: shard_index_def)
  have old: "dc_keys (partitioned h keys i d) ! s = map ((!) keys) (take ?m (?f s))"
    "dc_index (partitioned h keys i d) ! s = take ?m (?f s)"
    using assms(2) by (simp_all add: partitioned_def shard_index_def)
  have upd: "(map g [0..<dc_num_shards d])[s := x] = map (\<lambda>t. if t = s then x else g t) [0..<dc_num_shards d]"
    for g :: "nat \<Rightarrow> 'x" and x by (rule nth_equalityI) (auto simp: nth_list_update)
  have k: "take ?m (map ((!) keys) (take ?m (?f s)) @ [keys ! i]) = map ((!) keys) (take ?m (?f s @ [i]))"
    using take_snoc_limit [of ?m "map ((!) keys) (?f s)" "keys ! i"]
    by (simp add: take_map [symmetric] del: take_append)
  have "push_key s (keys ! i) i (partitioned h keys i d) =
      (partitioned h keys i d)\<lparr>dc_keys := (dc_keys (partitioned h keys i d))[s := map ((!) keys) (take ?m (?f s @ [i]))],
        dc_index := (dc_index (partitioned h keys i d))[s := take ?m (?f s @ [i])]\<rparr>"
    by (subst push_key_eq) (simp_all only: old k partitioned_fields take_snoc_limit length_map)
  also have "\<dots> = partitioned h keys (Suc i) d"
    by (simp add: partitioned_def upd new)
  finally show ?thesis .
qed

lemma partition_from_ok:
  assumes ok: "dist_ok d n"
  shows "drop i keys = rest \<Longrightarrow> i \<le> length keys \<Longrightarrow>
    partition_from h i rest (partitioned h keys i d) = Inr (partitioned h keys (length keys) d)"
proof (induction rest arbitrary: i)
  case (Cons key rest)
  then have i: "i < length keys" by (cases "i = length keys") auto
  then have "keys ! i # drop (Suc i) keys = key # rest" using Cons.prems(1) by (simp add: Cons_nth_drop_Suc)
  then have i: "i < length keys" "key = keys ! i" "drop (Suc i) keys = rest" using i by auto
  have s: "shard_of h d key < dc_num_shards d" using shard_of_less [OF ok] .
  have l: "length (dc_keys (partitioned h keys i d)) = dc_num_shards d"
    "length (dc_index (partitioned h keys i d)) = dc_num_shards d" by (simp_all add: partitioned_def)
  have "0 < dc_num_shards d" using ok by (simp add: dist_ok_def)
  then have "partition_from h i (key # rest) (partitioned h keys i d) =
      partition_from h (Suc i) rest (push_key (shard_of h d key) key i (partitioned h keys i d))"
    using s l by (simp add: GetShardId_eq)
  also have "\<dots> = partition_from h (Suc i) rest (partitioned h keys (Suc i) d)"
    using push_key_partitioned [of "shard_of h d key" h d keys i] s i(2) by simp
  also have "\<dots> = Inr (partitioned h keys (length keys) d)" using Cons.IH [OF i(3)] i(1) by simp
  finally show ?case .
qed simp

lemma PartitionKeys_ok:
  assumes "dist_ok d n"
  shows "PartitionKeys h keys d = Inr (partitioned h keys (length keys) d)"
proof -
  have "d\<lparr>dc_keys := map (\<lambda>_. []) (dc_keys d), dc_index := map (\<lambda>_. []) (dc_index d)\<rparr> = partitioned h keys 0 d"
    using assms by (simp add: partitioned_def shard_index_def [abs_def] dist_ok_def map_replicate_const)
  with partition_from_ok [OF assms, of 0 keys keys h] show ?thesis by (simp add: PartitionKeys_def)
qed

section \<open>What a shard is sent\<close>

lemma filter_upt_take:
  "j \<in> set (take l (filter P [0..<n])) \<longleftrightarrow> j < n \<and> P j \<and> length (filter P [0..<j]) < l"
proof (induction n)
  case (Suc n)
  let ?f = "filter P [0..<n]"
  show ?case
  proof (cases "P n \<and> length ?f < l")
    case True
    then have "take l (filter P [0..<Suc n]) = ?f @ [n]" "take l ?f = ?f" by auto
    moreover have "j < n \<Longrightarrow> length (filter P [0..<j]) \<le> length ?f"
      using upt_add_eq_append [of 0 j "n - j"] by simp
    ultimately show ?thesis using True by (auto simp: less_Suc_eq)
  next
    case False
    then have "take l (filter P [0..<Suc n]) = take l ?f" by auto
    with False Suc show ?thesis by (auto simp: less_Suc_eq)
  qed
qed simp

definition sent :: "(u64 \<Rightarrow> u64) \<Rightarrow> dist_client \<Rightarrow> u64 list \<Rightarrow> nat \<Rightarrow> bool" where
  "sent h d keys j \<longleftrightarrow>
     length (filter (\<lambda>k. shard_of h d k = shard_of h d (keys ! j)) (take j keys)) < key_limit d"

lemma sent_iff:
  assumes "j < length keys"
  shows "j \<in> set (shard_index h d keys (length keys) s) \<longleftrightarrow> shard_of h d (keys ! j) = s \<and> sent h d keys j"
proof -
  have "length (filter (\<lambda>i. shard_of h d (keys ! i) = s) [0..<j]) = length (filter (\<lambda>k. shard_of h d k = s) (take j keys))"
  proof -
    have "take j keys = map ((!) keys) [0..<j]" using assms by (intro nth_equalityI) auto
    then show ?thesis by (simp add: filter_map comp_def)
  qed
  with assms filter_upt_take [of j "key_limit d" "\<lambda>j. shard_of h d (keys ! j) = s" "length keys"] show ?thesis
    by (auto simp: shard_index_def sent_def)
qed

lemma shard_index_less: "j \<in> set (shard_index h d keys i s) \<Longrightarrow> j < i"
  by (auto simp: shard_index_def dest: in_set_takeD)

text \<open>The rows of a shard and, over all shards, what is sent.\<close>

definition rows_to :: "(u64 \<Rightarrow> u64) \<Rightarrow> dist_client \<Rightarrow> row list \<Rightarrow> nat \<Rightarrow> row list" where
  "rows_to h d rows s = take (key_limit d) (filter (\<lambda>r. shard_of h d (fst r) = s) rows)"

definition sent_rows :: "(u64 \<Rightarrow> u64) \<Rightarrow> dist_client \<Rightarrow> row list \<Rightarrow> row list" where
  "sent_rows h d rows = concat (map (rows_to h d rows) [0..<dc_num_shards d])"

lemma rows_to_index:
  assumes "length keys = length values" and "s < dc_num_shards d"
  shows "zip (dc_keys (partitioned h keys (length keys) d) ! s) (shard_rows (partitioned h keys (length keys) d) values s) =
    rows_to h d (zip keys values) s"
proof -
  let ?ix = "shard_index h d keys (length keys) s" and ?P = "\<lambda>j. shard_of h d (keys ! j) = s"
  have "zip (dc_keys (partitioned h keys (length keys) d) ! s) (shard_rows (partitioned h keys (length keys) d) values s) =
      map (\<lambda>j. (keys ! j, values ! j)) ?ix"
    using assms(2) by (simp add: partitioned_def shard_rows_def zip_map_map zip_same_conv_map)
  also have "\<dots> = take (key_limit d) (map (\<lambda>j. (keys ! j, values ! j)) (filter ?P [0..<length keys]))"
    by (simp add: shard_index_def take_map)
  also have "map (\<lambda>j. (keys ! j, values ! j)) (filter ?P [0..<length keys]) =
      filter (\<lambda>r. shard_of h d (fst r) = s) (map (\<lambda>j. (keys ! j, values ! j)) [0..<length keys])"
    by (simp add: filter_map comp_def)
  also have "map (\<lambda>j. (keys ! j, values ! j)) [0..<length keys] = zip keys values"
    using assms(1) by (intro nth_equalityI) auto
  finally show ?thesis by (simp add: rows_to_def)
qed

lemma rows_to_empty:
  assumes "length keys = length values" and "s < dc_num_shards d"
  shows "dc_keys (partitioned h keys (length keys) d) ! s = [] \<longleftrightarrow> rows_to h d (zip keys values) s = []"
proof -
  have "length (dc_keys (partitioned h keys (length keys) d) ! s) =
      length (shard_rows (partitioned h keys (length keys) d) values s)"
    using assms by (simp add: partitioned_def shard_rows_def)
  then have "length (rows_to h d (zip keys values) s) = length (dc_keys (partitioned h keys (length keys) d) ! s)"
    unfolding rows_to_index [OF assms, symmetric] by simp
  then show ?thesis by (metis length_0_conv)
qed

lemma put_rows_filter: "put_rows rows F k = put_rows (filter (\<lambda>r. fst r = k) rows) F k"
proof (induction rows arbitrary: F)
  case (Cons r rows)
  have cong: "put_rows rows' G k = put_rows rows' G' k" if "G k = G' k" for rows' and G G' :: rows_map
    using that by (simp add: put_rows_map_add map_add_def split: option.splits)
  show ?case
  proof (cases "fst r = k")
    case False
    then have "put_rows rows (F(fst r \<mapsto> snd r)) k = put_rows rows F k" by (intro cong) simp
    with Cons.IH [of F] False show ?thesis by simp
  next
    case True
    then show ?thesis using Cons.IH [of "F(k \<mapsto> snd r)"] by (simp del: fun_upd_apply)
  qed
qed simp

lemma put_rows_at: "F k = G k \<Longrightarrow> put_rows rows F k = put_rows rows G k"
  by (simp add: put_rows_map_add map_add_def split: option.splits)

lemma concat_single:
  "i < n \<Longrightarrow> (\<And>s. s < n \<Longrightarrow> s \<noteq> i \<Longrightarrow> f s = []) \<Longrightarrow> concat (map f [0..<n]) = f i"
proof (induction n)
  case (Suc n)
  show ?case
  proof (cases "i = n")
    case True
    have "concat (map f [0..<n]) = []" using Suc.prems(2) True by simp
    with True show ?thesis by simp
  qed (use Suc in \<open>auto simp: less_Suc_eq\<close>)
qed simp

lemma sent_rows_at:
  assumes "dist_ok d n"
  shows "put_rows (sent_rows h d rows) F k = put_rows (rows_to h d rows (shard_of h d k)) F k"
proof -
  have "filter (\<lambda>r. fst r = k) (rows_to h d rows s) = []" if "s \<noteq> shard_of h d k" for s
    using that by (auto simp: rows_to_def filter_empty_conv dest: in_set_takeD)
  then have "concat (map (\<lambda>s. filter (\<lambda>r. fst r = k) (rows_to h d rows s)) [0..<dc_num_shards d]) =
      filter (\<lambda>r. fst r = k) (rows_to h d rows (shard_of h d k))"
    using shard_of_less [OF assms] by (intro concat_single)
  then have "filter (\<lambda>r. fst r = k) (sent_rows h d rows) = filter (\<lambda>r. fst r = k) (rows_to h d rows (shard_of h d k))"
    by (simp add: sent_rows_def filter_concat comp_def)
  then show ?thesis using put_rows_filter [of _ F k] by metis
qed

text \<open>With no shard over the limit everything is sent.\<close>

lemma sent_rows_all:
  assumes "dist_ok d n" and "\<forall>s. length (filter (\<lambda>r. shard_of h d (fst r) = s) rows) \<le> key_limit d"
  shows "put_rows (sent_rows h d rows) F = put_rows rows F"
proof
  fix k
  have "filter (\<lambda>r. fst r = k) (rows_to h d rows (shard_of h d k)) = filter (\<lambda>r. fst r = k) rows"
    using assms(2) by (auto simp: rows_to_def intro: filter_cong)
  then show "put_rows (sent_rows h d rows) F k = put_rows rows F k"
    unfolding sent_rows_at [OF assms(1)] using put_rows_filter [of _ F k] by metis
qed

section \<open>Calls to the shards\<close>

definition asked :: "dist_client \<Rightarrow> nat list \<Rightarrow> nat list" where
  "asked d ss = filter (\<lambda>s. dc_keys d ! s \<noteq> []) ss"

lemma each_shard_ok:
  assumes "dist_ok d (length svs)" and "distinct ss" and "set ss \<subseteq> {..<dc_num_shards d}"
    and "\<forall>s \<in> set (asked d ss). \<exists>sv. call s (client_of d s) (svs ! client_of d s) = Inr (sv, r s) \<and> Q s sv"
  shows "\<exists>svs'. each_shard call d ss svs = Inr (svs', map (\<lambda>s. (s, r s)) (asked d ss), True) \<and>
    length svs' = length svs \<and> (\<forall>s \<in> set (asked d ss). Q s (svs' ! client_of d s)) \<and>
    (\<forall>c < length svs. c \<notin> client_of d ` set (asked d ss) \<longrightarrow> svs' ! c = svs ! c)"
  using assms
proof (induction ss arbitrary: svs)
  case (Cons s ss)
  show ?case
  proof (cases "dc_keys d ! s = []")
    case True
    with Cons.IH [of svs] Cons.prems show ?thesis by (simp add: asked_def)
  next
    case False
    let ?c = "client_of d s"
    have s: "s < dc_num_shards d" using Cons.prems(3) by simp
    then have c: "dc_shard_client d (int s) = Some ?c" "?c < length svs" using Cons.prems(1) by (auto simp: dist_ok_def)
    from False Cons.prems(4) obtain sv where sv: "call s ?c (svs ! ?c) = Inr (sv, r s)" "Q s sv" by (auto simp: asked_def)
    have other: "client_of d t \<noteq> ?c" if "t \<in> set (asked d ss)" for t
      using that Cons.prems(1-3) s by (auto simp: dist_ok_def asked_def inj_on_def)
    have "\<exists>sv'. call t (client_of d t) (svs[?c := sv] ! client_of d t) = Inr (sv', r t) \<and> Q t sv'"
      if "t \<in> set (asked d ss)" for t
      using other [OF that] that Cons.prems(4) by (auto simp: asked_def split: if_splits)
    with Cons.IH [of "svs[?c := sv]"] Cons.prems(1-3) obtain svs' where
      svs': "each_shard call d ss (svs[?c := sv]) = Inr (svs', map (\<lambda>s. (s, r s)) (asked d ss), True)"
        "length svs' = length svs" "\<forall>s \<in> set (asked d ss). Q s (svs' ! client_of d s)"
        "\<forall>c < length svs. c \<notin> client_of d ` set (asked d ss) \<longrightarrow> svs' ! c = svs[?c := sv] ! c"
      by auto
    have "svs' ! ?c = sv" using svs'(4) c(2) other by force
    moreover have "asked d (s # ss) = s # asked d ss" using False by (simp add: asked_def)
    ultimately show ?thesis using False c sv svs' by (intro exI [of _ svs']) auto
  qed
qed (simp add: asked_def)

lemma map_of_asked:
  "map_of (map (\<lambda>s. (s, r s)) (asked d ss)) s = (if s \<in> set ss \<and> dc_keys d ! s \<noteq> [] then Some (r s) else None)"
  by (induction ss) (auto simp: asked_def)

section \<open>Merging\<close>

lemma set_row_ok [simp]: "i < length v \<Longrightarrow> set_row i row v = Inr (v[i := row])"
  by (simp add: set_row_def)

lemma merge_shard_rows:
  "\<forall>j \<in> set ix. j < length v \<Longrightarrow>
    merge_shard set_row (zip ix (map g ix)) v = Inr (map (\<lambda>j. if j \<in> set ix then g j else v ! j) [0..<length v])"
proof (induction ix arbitrary: v)
  case Nil
  then show ?case by (simp add: map_nth)
next
  case (Cons i ix)
  then have "merge_shard set_row (zip (i # ix) (map g (i # ix))) v =
      Inr (map (\<lambda>j. if j \<in> set ix then g j else v[i := g i] ! j) [0..<length v])"
    using Cons.IH [of "v[i := g i]"] by simp
  also have "map (\<lambda>j. if j \<in> set ix then g j else v[i := g i] ! j) [0..<length v] =
      map (\<lambda>j. if j \<in> set (i # ix) then g j else v ! j) [0..<length v]"
    by (rule nth_equalityI) auto
  finally show ?case .
qed

lemma merge_shards_rows:
  assumes "\<forall>s \<in> set ss. s < length (dc_index d) \<and> (dc_index d ! s \<noteq> [] \<longrightarrow> s < length parts \<and> parts ! s = map g (dc_index d ! s))"
    and "\<forall>s \<in> set ss. \<forall>j \<in> set (dc_index d ! s). j < length v"
  shows "merge_shards set_row d parts ss v =
    Inr (map (\<lambda>j. if \<exists>s \<in> set ss. j \<in> set (dc_index d ! s) then g j else v ! j) [0..<length v])"
  using assms
proof (induction ss arbitrary: v)
  case Nil
  then show ?case by (simp add: map_nth)
next
  case (Cons s ss)
  let ?v = "map (\<lambda>j. if j \<in> set (dc_index d ! s) then g j else v ! j) [0..<length v]"
  have "merge_shards set_row d parts (s # ss) v = merge_shards set_row d parts ss ?v"
    using Cons.prems merge_shard_rows [of "dc_index d ! s" v g]
    by (cases "dc_index d ! s = []") (auto simp: map_nth)
  also have "\<dots> = Inr (map (\<lambda>j. if \<exists>s \<in> set ss. j \<in> set (dc_index d ! s) then g j else ?v ! j) [0..<length ?v])"
    using Cons.prems by (intro Cons.IH) auto
  also have "map (\<lambda>j. if \<exists>s \<in> set ss. j \<in> set (dc_index d ! s) then g j else ?v ! j) [0..<length ?v] =
      map (\<lambda>j. if \<exists>t \<in> set (s # ss). j \<in> set (dc_index d ! t) then g j else v ! j) [0..<length v]"
    by (rule nth_equalityI) auto
  finally show ?case .
qed

text \<open>What \<open>MergeResults\<close> makes of answers that hold the rows \<open>g\<close> of the keys that were sent.\<close>

lemma MergeResults_sent:
  assumes ok: "dist_ok d m" and d': "d' = partitioned h keys (length keys) d"
    and parts: "\<forall>s < dc_num_shards d. dc_keys d' ! s \<noteq> [] \<longrightarrow> s < length parts \<and> parts ! s = map g (dc_index d' ! s)"
  shows "MergeResults d' (length keys) parts = Inr (map (\<lambda>j. if sent h d keys j then g j else []) [0..<length keys])"
proof -
  let ?n = "dc_num_shards d"
  have ix: "dc_index d' ! s = shard_index h d keys (length keys) s" "length (dc_index d') = ?n"
    "dc_keys d' ! s = [] \<longleftrightarrow> dc_index d' ! s = []" if "s < ?n" for s
    using that by (simp_all add: d' partitioned_def)
  have l: "length (dc_index d') = ?n" by (simp add: d' partitioned_def)
  have "MergeResults d' (length keys) parts =
      Inr (map (\<lambda>j. if \<exists>s \<in> set [0..<?n]. j \<in> set (dc_index d' ! s) then g j else replicate (length keys) [] ! j)
        [0..<length (replicate (length keys) ([] :: u32 list))])"
    unfolding MergeResults_def d' partitioned_fields
    using parts ix l shard_index_less by (intro merge_shards_rows) (auto simp: d')
  also have "map (\<lambda>j. if \<exists>s \<in> set [0..<?n]. j \<in> set (dc_index d' ! s) then g j else replicate (length keys) [] ! j)
        [0..<length (replicate (length keys) ([] :: u32 list))] =
      map (\<lambda>j. if sent h d keys j then g j else []) [0..<length keys]"
  proof (rule nth_equalityI)
    fix j
    assume "j < length (map (\<lambda>j. if \<exists>s \<in> set [0..<?n]. j \<in> set (dc_index d' ! s) then g j else replicate (length keys) [] ! j)
        [0..<length (replicate (length keys) ([] :: u32 list))])"
    then have j: "j < length keys" by simp
    have "(\<exists>s \<in> set [0..<?n]. j \<in> set (dc_index d' ! s)) \<longleftrightarrow> sent h d keys j"
      using ix(1) sent_iff [OF j] shard_of_less [OF ok] by auto
    with j show "map (\<lambda>j. if \<exists>s \<in> set [0..<?n]. j \<in> set (dc_index d' ! s) then g j else replicate (length keys) [] ! j)
        [0..<length (replicate (length keys) ([] :: u32 list))] ! j =
      map (\<lambda>j. if sent h d keys j then g j else []) [0..<length keys] ! j" by simp
  qed simp
  finally show ?thesis .
qed

section \<open>The servers as one map\<close>

definition all_answered :: "(nat \<Rightarrow> fate) \<Rightarrow> nat \<Rightarrow> bool" where
  "all_answered net n \<longleftrightarrow> (\<forall>i < n. \<exists>t. net i = Answered t)"

definition shard_calls :: "(u64 \<Rightarrow> u64) \<Rightarrow> dist_client \<Rightarrow> u64 list \<Rightarrow> nat \<Rightarrow> nat" where
  "shard_calls h d keys s = length (batches (take (key_limit d) (filter (\<lambda>k. shard_of h d k = s) keys)))"

text \<open>Every call that a request for \<open>keys\<close> makes gets an answer.\<close>

definition shards_answer :: "(u64 \<Rightarrow> u64) \<Rightarrow> dist_client \<Rightarrow> (nat \<Rightarrow> nat \<Rightarrow> fate) \<Rightarrow> u64 list \<Rightarrow> bool" where
  "shards_answer h d nets keys \<longleftrightarrow>
     (\<forall>s < dc_num_shards d. all_answered (nets (client_of d s)) (shard_calls h d keys s))"

lemma partitioned_keys:
  assumes "s < dc_num_shards d"
  shows "dc_keys (partitioned h keys (length keys) d) ! s = take (key_limit d) (filter (\<lambda>k. shard_of h d k = s) keys)"
proof -
  have "map ((!) keys) (filter (\<lambda>j. shard_of h d (keys ! j) = s) [0..<length keys]) =
      filter (\<lambda>k. shard_of h d k = s) (map ((!) keys) [0..<length keys])" by (simp add: filter_map comp_def)
  then show ?thesis using assms by (simp add: partitioned_def shard_index_def take_map [symmetric] map_nth)
qed

context float_store
begin

text \<open>Every server has the rows of the keys that are sent to it.\<close>

definition shards_hold :: "(u64 \<Rightarrow> u64) \<Rightarrow> dist_client \<Rightarrow> 's ps_server list \<Rightarrow> rows_map \<Rightarrow> bool" where
  "shards_hold h d svs F \<longleftrightarrow>
     (\<forall>c < length svs. \<exists>G. serves (svs ! c) G \<and> (\<forall>k. client_of d (shard_of h d k) = c \<longrightarrow> G k = F k))"

lemma shards_hold_partitioned [simp]: "shards_hold h (partitioned h keys n d) = shards_hold h d"
  by (simp add: shards_hold_def fun_eq_iff)

lemma cl_PutParameter_array_ok:
  assumes "length keys = length values" and "\<forall>r \<in> set (zip keys values). key_ok (fst r) \<and> length (snd r) \<le> 2 ^ 18"
    and "serves sv F" and "puts_fit V room (put_trace net 0 (batches (zip keys values))) (ps_kv (sv_ps sv))"
  shows "\<exists>sv'. cl_PutParameter_array V net keys values sv =
      Inr (sv', if all_answered net (length (batches (zip keys values))) then 1 else 0) \<and>
    (all_answered net (length (batches (zip keys values))) \<longrightarrow> serves sv' (put_rows (zip keys values) F))"
proof -
  from cl_put_batches_ok [OF assms] obtain sv' ok n where
    P: "cl_put_batches V net 0 keys values sv = Inr (sv', ok)"
      "serves sv' (put_rows (take (n * MAX_PARAMETER_BATCH_BRPC) (zip keys values)) F)"
      "ok \<longleftrightarrow> (\<forall>j < length (batches (zip keys values)). \<exists>m. net (0 + j) = Answered m)"
      "ok \<longrightarrow> length keys \<le> n * MAX_PARAMETER_BATCH_BRPC" by blast
  then have "ok \<longleftrightarrow> all_answered net (length (batches (zip keys values)))" by (simp add: all_answered_def)
  moreover have "ok \<longrightarrow> serves sv' (put_rows (zip keys values) F)" using P(2,4) by auto
  ultimately show ?thesis using P(1) by (auto simp: cl_PutParameter_array_eq)
qed

definition shards_fit :: "(u64 \<Rightarrow> u64) \<Rightarrow> dist_client \<Rightarrow> (nat \<Rightarrow> nat \<Rightarrow> fate) \<Rightarrow> row list \<Rightarrow> 's ps_server list \<Rightarrow> bool" where
  "shards_fit h d nets rows svs \<longleftrightarrow>
     (\<forall>s < dc_num_shards d. puts_fit V room (put_trace (nets (client_of d s)) 0 (batches (rows_to h d rows s)))
       (ps_kv (sv_ps (svs ! client_of d s))))"

lemma dist_PutParameter_ok:
  assumes ok: "dist_ok d (length svs)" and hold: "shards_hold h d svs F" and len: "length keys = length values"
    and rows: "\<forall>r \<in> set (zip keys values). key_ok (fst r) \<and> length (snd r) \<le> 2 ^ 18"
    and fit: "shards_fit h d nets (zip keys values) svs"
  shows "\<exists>svs'. dist_PutParameter V h nets keys values d svs =
      Inr (partitioned h keys (length keys) d, svs', if shards_answer h d nets keys then 0 else -1) \<and>
    length svs' = length svs \<and>
    (shards_answer h d nets keys \<longrightarrow> shards_hold h d svs' (put_rows (sent_rows h d (zip keys values)) F))"
proof -
  let ?d = "partitioned h keys (length keys) d" and ?n = "dc_num_shards d" and ?rows = "rows_to h d (zip keys values)"
  let ?call = "\<lambda>s c. cl_PutParameter_array V (nets c) (dc_keys ?d ! s) (shard_rows ?d values s)"
  let ?ok = "\<lambda>s. all_answered (nets (client_of d s)) (shard_calls h d keys s)"
  let ?Q = "\<lambda>s sv. ?ok s \<longrightarrow>
    (\<exists>G. serves sv (put_rows (?rows s) G) \<and> (\<forall>k. client_of d (shard_of h d k) = client_of d s \<longrightarrow> G k = F k))"
  have okd: "dist_ok ?d (length svs)" using ok by (rule dist_ok_partitioned)
  have one: "\<exists>sv. ?call s (client_of d s) (svs ! client_of d s) = Inr (sv, if ?ok s then 1 else 0) \<and> ?Q s sv"
    if s: "s < ?n" for s
  proof -
    have c: "client_of d s < length svs" using ok s by (simp add: dist_ok_def)
    then obtain G where G: "serves (svs ! client_of d s) G"
      "\<forall>k. client_of d (shard_of h d k) = client_of d s \<longrightarrow> G k = F k" using hold by (auto simp: shards_hold_def)
    have z: "zip (dc_keys ?d ! s) (shard_rows ?d values s) = ?rows s" by (rule rows_to_index [OF len s])
    have l: "length (dc_keys ?d ! s) = length (shard_rows ?d values s)" using s by (simp add: partitioned_def shard_rows_def)
    have "set (?rows s) \<subseteq> set (zip keys values)" by (auto simp: rows_to_def dest: in_set_takeD)
    then have r: "\<forall>r \<in> set (?rows s). key_ok (fst r) \<and> length (snd r) \<le> 2 ^ 18" using rows by blast
    have "length (?rows s) = length (dc_keys ?d ! s)" unfolding z [symmetric] using l by simp
    then have n: "length (batches (?rows s)) = shard_calls h d keys s"
      unfolding shard_calls_def partitioned_keys [OF s, symmetric] by (rule length_batches_cong)
    have f: "puts_fit V room (put_trace (nets (client_of d s)) 0 (batches (?rows s))) (ps_kv (sv_ps (svs ! client_of d s)))"
      using fit s by (simp add: shards_fit_def)
    from cl_PutParameter_array_ok [OF l, unfolded z, OF r G(1) f] G(2) show ?thesis unfolding n by blast
  qed
  then have calls: "\<forall>s \<in> set (asked ?d [0..<?n]). \<exists>sv.
      ?call s (client_of ?d s) (svs ! client_of ?d s) = Inr (sv, if ?ok s then 1 else 0) \<and> ?Q s sv"
    by (auto simp: asked_def)
  from each_shard_ok [where call = ?call and r = "\<lambda>s. if ?ok s then 1 else 0" and Q = ?Q, OF okd _ _ calls] obtain svs' where
    svs': "each_shard ?call ?d [0..<?n] svs = Inr (svs', map (\<lambda>s. (s, if ?ok s then 1 else 0)) (asked ?d [0..<?n]), True)"
      "length svs' = length svs" "\<forall>s \<in> set (asked ?d [0..<?n]). ?Q s (svs' ! client_of d s)"
      "\<forall>c < length svs. c \<notin> client_of d ` set (asked ?d [0..<?n]) \<longrightarrow> svs' ! c = svs ! c"
    by (auto simp: lessThan_atLeast0)
  have empty: "?ok s" if "s < ?n" "dc_keys ?d ! s = []" for s
  proof -
    have "take (key_limit d) (filter (\<lambda>k. shard_of h d k = s) keys) = []" using that partitioned_keys by metis
    then show ?thesis by (simp only: shard_calls_def all_answered_def batches_simps) simp
  qed
  have all: "shards_answer h d nets keys \<longleftrightarrow> (\<forall>s \<in> set (asked ?d [0..<?n]). ?ok s)"
    unfolding shards_answer_def using empty by (auto simp: asked_def)
  have run: "dist_PutParameter V h nets keys values d svs = Inr (?d, svs', if shards_answer h d nets keys then 0 else -1)"
    using len svs'(1) unfolding dist_PutParameter_def PartitionKeys_ok [OF ok] all by (auto simp: image_iff)
  have "\<exists>G'. serves (svs' ! c) G' \<and>
      (\<forall>k. client_of d (shard_of h d k) = c \<longrightarrow> G' k = put_rows (sent_rows h d (zip keys values)) F k)"
    if ans: "shards_answer h d nets keys" and c: "c < length svs" for c
  proof (cases "c \<in> client_of d ` set (asked ?d [0..<?n])")
    case True
    then obtain s where s: "s \<in> set (asked ?d [0..<?n])" "c = client_of d s" by auto
    then have "s < ?n" by (simp add: asked_def)
    have "?ok s" using ans s(1) unfolding all by blast
    with svs'(3) s obtain G where G: "serves (svs' ! c) (put_rows (?rows s) G)"
      "\<forall>k. client_of d (shard_of h d k) = c \<longrightarrow> G k = F k" by auto
    have "shard_of h d k = s" if "client_of d (shard_of h d k) = c" for k
      using that ok shard_of_less [OF ok] \<open>s < ?n\<close> s(2) by (auto simp: dist_ok_def inj_on_def)
    then have "put_rows (?rows s) G k = put_rows (sent_rows h d (zip keys values)) F k"
      if "client_of d (shard_of h d k) = c" for k
      using that G(2) put_rows_at [of G k F] by (simp add: sent_rows_at [OF ok])
    with G(1) show ?thesis by blast
  next
    case False
    with svs'(4) c have same: "svs' ! c = svs ! c" by blast
    obtain G where G: "serves (svs ! c) G" "\<forall>k. client_of d (shard_of h d k) = c \<longrightarrow> G k = F k"
      using hold c by (auto simp: shards_hold_def)
    have "?rows (shard_of h d k) = []" if "client_of d (shard_of h d k) = c" for k
      using False that shard_of_less [OF ok] rows_to_empty [OF len shard_of_less [OF ok]] by (auto simp: asked_def)
    with G show ?thesis unfolding same by (auto simp: sent_rows_at [OF ok])
  qed
  then have "shards_answer h d nets keys \<longrightarrow> shards_hold h d svs' (put_rows (sent_rows h d (zip keys values)) F)"
    using svs'(2) by (simp add: shards_hold_def)
  with run svs'(2) show ?thesis by blast
qed

text \<open>Reading: the row of every key that was sent, empty for the others.\<close>

lemma dist_GetParameter_vec_ok:
  assumes ok: "dist_ok d (length svs)" and hold: "shards_hold h d svs F"
    and keys: "\<forall>k \<in> set keys. key_ok k \<and> length (row_of F k) \<le> 2 ^ 18"
  shows "\<exists>svs'. dist_GetParameter_vec V h False nets keys old d svs =
      Inr (if keys = [] then d else partitioned h keys (length keys) d, svs',
        if shards_answer h d nets keys
        then (map (\<lambda>j. if sent h d keys j then row_of F (keys ! j) else []) [0..<length keys], True) else (old, False)) \<and>
    length svs' = length svs \<and> shards_hold h d svs' F"
proof (cases "keys = []")
  case True
  then have "shards_answer h d nets keys" by (simp add: shards_answer_def all_answered_def shard_calls_def batches_simps)
  with True hold show ?thesis by (simp add: dist_GetParameter_vec_def)
next
  case False
  let ?d = "partitioned h keys (length keys) d" and ?n = "dc_num_shards d" and ?row = "\<lambda>j. row_of F (keys ! j)"
  let ?call = "\<lambda>s c. cl_GetParameter_vec V False (nets c) (dc_keys ?d ! s)"
  let ?ok = "\<lambda>s. all_answered (nets (client_of d s)) (shard_calls h d keys s)"
  let ?r = "\<lambda>s. if ?ok s then (map ?row (dc_index ?d ! s), True) else ([], False)"
  let ?Q = "\<lambda>s sv. sv_ps sv = sv_ps (svs ! client_of d s)"
  have okd: "dist_ok ?d (length svs)" using ok by (rule dist_ok_partitioned)
  have one: "\<exists>sv. ?call s (client_of d s) (svs ! client_of d s) = Inr (sv, ?r s) \<and> ?Q s sv" if s: "s < ?n" for s
  proof -
    let ?ks = "dc_keys ?d ! s"
    have c: "client_of d s < length svs" using ok s by (simp add: dist_ok_def)
    then obtain G where G: "serves (svs ! client_of d s) G"
      "\<forall>k. client_of d (shard_of h d k) = client_of d s \<longrightarrow> G k = F k" using hold by (auto simp: shards_hold_def)
    have ks: "k \<in> set keys \<and> shard_of h d k = s" if "k \<in> set ?ks" for k
      using that by (auto simp: partitioned_keys [OF s] dest: in_set_takeD)
    then have rows: "row_of G k = row_of F k" if "k \<in> set ?ks" for k
      using that G(2) by (simp add: row_of_def)
    have small: "\<forall>k \<in> set ?ks. key_ok k \<and> length (row_of G k) \<le> 2 ^ 18" using ks rows keys by simp
    have "map (row_of G) ?ks = map (row_of F) ?ks" using rows by simp
    also have "\<dots> = map ?row (dc_index ?d ! s)" using s by (simp add: partitioned_def)
    finally have m: "map (row_of G) ?ks = map ?row (dc_index ?d ! s)" .
    have "length (batches ?ks) = shard_calls h d keys s" by (simp only: shard_calls_def partitioned_keys [OF s])
    then show ?thesis
      using cl_GetParameter_ok [OF G(1) small, of "nets (client_of d s)"] unfolding all_answered_def m by simp
  qed
  then have calls: "\<forall>s \<in> set (asked ?d [0..<?n]). \<exists>sv.
      ?call s (client_of ?d s) (svs ! client_of ?d s) = Inr (sv, ?r s) \<and> ?Q s sv"
    by (auto simp: asked_def)
  from each_shard_ok [where call = ?call and r = ?r and Q = ?Q, OF okd _ _ calls] obtain svs' where
    svs': "each_shard ?call ?d [0..<?n] svs = Inr (svs', map (\<lambda>s. (s, ?r s)) (asked ?d [0..<?n]), True)"
      "length svs' = length svs" "\<forall>s \<in> set (asked ?d [0..<?n]). ?Q s (svs' ! client_of d s)"
      "\<forall>c < length svs. c \<notin> client_of d ` set (asked ?d [0..<?n]) \<longrightarrow> svs' ! c = svs ! c"
    by (auto simp: lessThan_atLeast0)
  have same: "sv_ps (svs' ! c) = sv_ps (svs ! c)" if "c < length svs" for c
    using that svs'(3,4) by (cases "c \<in> client_of d ` set (asked ?d [0..<?n])") auto
  have hold': "shards_hold h d svs' F"
    using hold same svs'(2) by (simp add: shards_hold_def serves_def)
  have empty: "?ok s" if "s < ?n" "dc_keys ?d ! s = []" for s
  proof -
    have "take (key_limit d) (filter (\<lambda>k. shard_of h d k = s) keys) = []" using that partitioned_keys by metis
    then show ?thesis by (simp only: shard_calls_def all_answered_def batches_simps) simp
  qed
  have all: "shards_answer h d nets keys \<longleftrightarrow> (\<forall>s \<in> set (asked ?d [0..<?n]). ?ok s)"
    unfolding shards_answer_def using empty by (auto simp: asked_def)
  show ?thesis
  proof (cases "shards_answer h d nets keys")
    case True
    then have r: "map (\<lambda>s. (s, ?r s)) (asked ?d [0..<?n]) = map (\<lambda>s. (s, map ?row (dc_index ?d ! s), True)) (asked ?d [0..<?n])"
      unfolding all by simp
    let ?parts = "results_of ?d (map (\<lambda>s. (s, map ?row (dc_index ?d ! s), True)) (asked ?d [0..<?n]))"
    have "MergeResults ?d (length keys) ?parts = Inr (map (\<lambda>j. if sent h d keys j then ?row j else []) [0..<length keys])"
      by (rule MergeResults_sent [OF ok refl]) (simp add: results_of_def map_of_asked)
    then have "dist_GetParameter_vec V h False nets keys old d svs =
        Inr (?d, svs', map (\<lambda>j. if sent h d keys j then ?row j else []) [0..<length keys], True)"
      using False svs'(1) unfolding r dist_GetParameter_vec_def PartitionKeys_ok [OF ok] by auto
    with True False hold' svs'(2) show ?thesis by simp
  next
    case fails: False
    then obtain s where "s \<in> set (asked ?d [0..<?n])" "\<not> ?ok s" unfolding all by blast
    then have "\<exists>(s, rows, ok) \<in> set (map (\<lambda>s. (s, ?r s)) (asked ?d [0..<?n])). \<not> ok" by force
    then have "dist_GetParameter_vec V h False nets keys old d svs = Inr (?d, svs', old, False)"
      using False svs'(1) unfolding dist_GetParameter_vec_def PartitionKeys_ok [OF ok] by simp
    with fails False hold' svs'(2) show ?thesis by simp
  qed
qed

end

end
