(* ===== verification/ShardProps.thy ===== *)
theory ShardProps
  imports ShardRuns
begin

text \<open>
  What the sharded client promises over servers on the extendible-hash engine, where it does not keep
  its promises, and witnesses on two servers that have just been started.
\<close>

section \<open>Limits\<close>

lemma sent_all:
  assumes "\<forall>s. length (filter (\<lambda>k. shard_of h d k = s) keys) \<le> key_limit d" and "j < length keys"
  shows "sent h d keys j"
proof -
  let ?P = "\<lambda>k. shard_of h d k = shard_of h d (keys ! j)"
  have "filter ?P keys = filter ?P (take j keys) @ filter ?P (keys ! j # drop (Suc j) keys)"
    using assms(2) by (metis filter_append id_take_nth_drop)
  then have "Suc (length (filter ?P (take j keys))) \<le> length (filter ?P keys)" by simp
  moreover have "length (filter ?P keys) \<le> key_limit d" using assms(1) by blast
  ultimately show ?thesis by (simp add: sent_def)
qed

lemma filter_zip_length:
  assumes "length keys = length values"
  shows "length (filter (\<lambda>r. P (fst r)) (zip keys values)) = length (filter P keys)"
proof -
  have "filter P (map fst (zip keys values)) = map fst (filter (\<lambda>r. P (fst r)) (zip keys values))"
    by (simp add: filter_map comp_def)
  with assms show ?thesis by (metis length_map map_fst_zip)
qed

lemma unsent_row:
  assumes "dist_ok d n" and "distinct keys" and "length keys = length values" and "j < length keys" and "\<not> sent h d keys j"
  shows "put_rows (sent_rows h d (zip keys values)) F (keys ! j) = F (keys ! j)"
proof -
  let ?s = "shard_of h d (keys ! j)" and ?d = "partitioned h keys (length keys) d"
  have s: "?s < dc_num_shards d" using shard_of_less [OF assms(1)] .
  have "keys ! j \<notin> set (dc_keys ?d ! ?s)"
  proof
    assume "keys ! j \<in> set (dc_keys ?d ! ?s)"
    then obtain i where i: "i \<in> set (shard_index h d keys (length keys) ?s)" "keys ! i = keys ! j"
      using s by (auto simp: partitioned_def)
    then have "i = j" using assms(2,4) shard_index_less by (metis nth_eq_iff_index_eq)
    with i(1) sent_iff [OF assms(4)] assms(5) show False by blast
  qed
  then have "filter (\<lambda>r. fst r = keys ! j) (rows_to h d (zip keys values) ?s) = []"
    unfolding rows_to_index [OF assms(3) s, symmetric] by (auto simp: filter_empty_conv dest: set_zip_leftD)
  then show ?thesis
    unfolding sent_rows_at [OF assms(1)] using put_rows_filter [of _ F "keys ! j"] by (metis put_rows_simps(1))
qed

section \<open>Clients of the extendible-hash engine\<close>

definition eh_shards ::
  "nat \<Rightarrow> (u64 \<Rightarrow> u64) \<Rightarrow> dist_client \<Rightarrow> (loop_malloc, ehash) engine ps_server list \<Rightarrow> rows_map \<Rightarrow> bool" where
  "eh_shards n h d svs F \<longleftrightarrow>
     (\<forall>c < length svs. \<exists>G. eh_serves n (svs ! c) G \<and> (\<forall>k. client_of d (shard_of h d k) = c \<longrightarrow> G k = F k))"

definition eh_shards_fit ::
  "nat \<Rightarrow> (u64 \<Rightarrow> u64) \<Rightarrow> dist_client \<Rightarrow> (nat \<Rightarrow> nat \<Rightarrow> fate) \<Rightarrow> row list \<Rightarrow> (loop_malloc, ehash) engine ps_server list \<Rightarrow> bool" where
  "eh_shards_fit n h d nets rows svs \<longleftrightarrow>
     (\<forall>s < dc_num_shards d. eh_fits n (put_trace (nets (client_of d s)) 0 (batches (rows_to h d rows s))) (svs ! client_of d s))"

lemma eh_shards: "one_class_bytes.eh_rows.shards_hold n h d svs F \<longleftrightarrow> eh_shards n h d svs F"
  by (simp add: one_class_bytes.eh_rows.shards_hold_def eh_shards_def eh_serves)

lemma eh_shards_fit: "one_class_bytes.eh_rows.shards_fit n h d nets rows svs \<longleftrightarrow> eh_shards_fit n h d nets rows svs"
  by (simp add: one_class_bytes.eh_rows.shards_fit_def eh_shards_fit_def eh_fits_def)

text \<open>
  C10: The servers of all shards together are one map of rows. \<open>PutParameter\<close> over the shards returns 0
  exactly when every call it made was answered, and then the map has been updated with the rows
  that were sent: for each shard the first of its rows, up to the limit of keys per request.
\<close>

theorem dist_PutParameter_correct:
  assumes "dist_ok d (length svs)" and "eh_shards n h d svs F" and "length keys = length values"
    and "\<forall>r \<in> set (zip keys values). fst r \<noteq> INVALID \<and> length (snd r) \<le> 2 ^ 18"
    and "eh_shards_fit n h d nets (zip keys values) svs"
  shows "\<exists>d' svs' r. dist_PutParameter eh_kv h nets keys values d svs = Inr (d', svs', r) \<and> dist_ok d' (length svs') \<and>
    (if shards_answer h d nets keys
     then r = 0 \<and> eh_shards n h d' svs' (put_rows (sent_rows h d (zip keys values)) F) else r = -1)"
proof -
  from one_class_bytes.eh_rows.dist_PutParameter_ok [OF assms(1) _ assms(3,4) assms(5) [folded eh_shards_fit]] assms(2)
  obtain svs' where P: "dist_PutParameter eh_kv h nets keys values d svs =
      Inr (partitioned h keys (length keys) d, svs', if shards_answer h d nets keys then 0 else -1)"
    "length svs' = length svs"
    "shards_answer h d nets keys \<longrightarrow> eh_shards n h d svs' (put_rows (sent_rows h d (zip keys values)) F)"
    unfolding eh_shards by blast
  have "eh_shards n h (partitioned h keys (length keys) d) = eh_shards n h d"
    by (simp add: eh_shards_def fun_eq_iff)
  then show ?thesis using P dist_ok_partitioned [OF assms(1)] by auto
qed

text \<open>
  C26: \<open>GetParameter\<close> over the shards: every key's row from the one map the servers are, put back in the
  order of the request, for the keys that were sent; an empty row, and success all the same, for
  a key that its shard's limit cut off; \<open>false\<close> and the caller's vector as it was when a call failed.
\<close>

theorem dist_GetParameter_correct:
  assumes "dist_ok d (length svs)" and "eh_shards n h d svs F"
    and "\<forall>k \<in> set keys. k \<noteq> INVALID \<and> length (row_of F k) \<le> 2 ^ 18"
  shows "\<exists>d' svs'. dist_GetParameter_vec eh_kv h False nets keys old d svs =
      Inr (d', svs', if shards_answer h d nets keys
        then (map (\<lambda>j. if sent h d keys j then row_of F (keys ! j) else []) [0..<length keys], True) else (old, False)) \<and>
    dist_ok d' (length svs') \<and> eh_shards n h d' svs' F"
proof -
  from one_class_bytes.eh_rows.dist_GetParameter_vec_ok [where nets = nets and old = old, OF assms(1) _ assms(3)] assms(2)
  obtain svs' where P: "dist_GetParameter_vec eh_kv h False nets keys old d svs =
      Inr (if keys = [] then d else partitioned h keys (length keys) d, svs',
        if shards_answer h d nets keys
        then (map (\<lambda>j. if sent h d keys j then row_of F (keys ! j) else []) [0..<length keys], True) else (old, False))"
    "length svs' = length svs" "eh_shards n h d svs' F"
    unfolding eh_shards by blast
  have "eh_shards n h (partitioned h keys (length keys) d) = eh_shards n h d"
    by (simp add: eh_shards_def fun_eq_iff)
  then show ?thesis using P dist_ok_partitioned [OF assms(1)] assms(1) by (cases "keys = []") auto
qed

text \<open>
  C9: What is put over the shards is got over the shards: with distinct keys, no shard given more keys
  than the limit and every call answered, \<open>GetParameter\<close> after \<open>PutParameter\<close> returns the values that
  were put, each at its key's place, wherever the hash has sent the keys.
\<close>

theorem dist_put_then_get:
  assumes "dist_ok d (length svs)" and "eh_shards n h d svs F" and "length keys = length values" and "distinct keys"
    and "\<forall>r \<in> set (zip keys values). fst r \<noteq> INVALID \<and> length (snd r) \<le> 2 ^ 18"
    and "eh_shards_fit n h d nets (zip keys values) svs"
    and "\<forall>s. length (filter (\<lambda>k. shard_of h d k = s) keys) \<le> key_limit d"
    and "shards_answer h d nets keys" and "\<forall>c i. \<exists>t. nets' c i = Answered t"
  shows "\<exists>d' svs' d'' svs''. dist_PutParameter eh_kv h nets keys values d svs = Inr (d', svs', 0) \<and>
    dist_GetParameter_vec eh_kv h False nets' keys old d' svs' = Inr (d'', svs'', values, True)"
proof -
  let ?d = "partitioned h keys (length keys) d" and ?F = "put_rows (zip keys values) F"
  from one_class_bytes.eh_rows.dist_PutParameter_ok [OF assms(1) _ assms(3,5) assms(6) [folded eh_shards_fit]] assms(2,8)
  obtain svs' where P: "dist_PutParameter eh_kv h nets keys values d svs = Inr (?d, svs', 0)" "length svs' = length svs"
    "eh_shards n h d svs' (put_rows (sent_rows h d (zip keys values)) F)"
    unfolding eh_shards by auto
  have "put_rows (sent_rows h d (zip keys values)) F = ?F"
    using assms(7) filter_zip_length [OF assms(3), of "\<lambda>k. shard_of h d k = s" for s] by (intro sent_rows_all [OF assms(1)]) simp
  with P(3) have hold: "eh_shards n h ?d svs' ?F" by (simp add: eh_shards_def)
  note rows = row_of_put_rows [OF assms(4,3), of F]
  have at: "row_of ?F (keys ! j) = values ! j" if "j < length keys" for j
    using arg_cong [where f = "\<lambda>xs. xs ! j", OF rows] that by simp
  have small: "\<forall>k \<in> set keys. k \<noteq> INVALID \<and> length (row_of ?F k) \<le> 2 ^ 18"
  proof
    fix k
    assume "k \<in> set keys"
    then obtain j where j: "j < length keys" "k = keys ! j" by (auto simp: in_set_conv_nth)
    then have "(k, values ! j) \<in> set (zip keys values)" using assms(3) by (auto simp: in_set_zip)
    with assms(5) at [OF j(1)] j(2) show "k \<noteq> INVALID \<and> length (row_of ?F k) \<le> 2 ^ 18" by fastforce
  qed
  have okd: "dist_ok ?d (length svs')" using dist_ok_partitioned [OF assms(1)] P(2) by simp
  have ans: "shards_answer h ?d nets' keys" using assms(9) by (simp add: shards_answer_def all_answered_def)
  have "map (\<lambda>j. if sent h ?d keys j then row_of ?F (keys ! j) else []) [0..<length keys] = values"
    using sent_all [OF assms(7)] at assms(3) by (intro nth_equalityI) (auto simp: sent_def)
  with dist_GetParameter_correct [OF okd hold small, of nets' old] ans P(1) show ?thesis by auto
qed

text \<open>
  The limit of keys per request loses rows without a word: a row beyond its shard's limit is not
  stored, \<open>PutParameter\<close> returns 0 for it all the same, and the map is what it was at its key.
\<close>

theorem dist_limit_loses_rows:
  assumes "dist_ok d (length svs)" and "eh_shards n h d svs F" and "length keys = length values" and "distinct keys"
    and "\<forall>r \<in> set (zip keys values). fst r \<noteq> INVALID \<and> length (snd r) \<le> 2 ^ 18"
    and "eh_shards_fit n h d nets (zip keys values) svs" and "shards_answer h d nets keys"
    and "j < length keys" and "\<not> sent h d keys j"
  shows "\<exists>d' svs' F'. dist_PutParameter eh_kv h nets keys values d svs = Inr (d', svs', 0) \<and>
    eh_shards n h d' svs' F' \<and> F' (keys ! j) = F (keys ! j)"
  using dist_PutParameter_correct [OF assms(1-3,5,6)] assms(7) unsent_row [OF assms(1,4,3,8,9), of F] by auto

text \<open>\<open>MergeResultsToArray\<close> on a vector of one element.\<close>

lemma copy_row_outside: "copy_row row i v = Inl e \<Longrightarrow> e = Bad_access"
  by (simp add: copy_row_def split: if_splits)

lemma merge_shard_outside:
  "merge_shard (\<lambda>i row. copy_row row (i * m)) rs v = Inl e \<Longrightarrow> e = Bad_access"
  by (induction rs arbitrary: v) (auto simp: bind_result_Inl_iff dest: copy_row_outside)

lemma merge_shards_outside:
  "s \<in> set ss \<Longrightarrow> dc_index d ! s \<noteq> [] \<Longrightarrow> length parts \<le> s \<Longrightarrow>
    merge_shards (\<lambda>i row. copy_row row (i * m)) d parts ss v = Inl Bad_access"
proof (induction ss arbitrary: v)
  case (Cons t ss)
  show ?case
  proof (cases "t < length (dc_index d) \<and> dc_index d ! t \<noteq> [] \<and> t < length parts")
    case True
    then have "s \<in> set ss" using Cons.prems by auto
    with Cons True merge_shard_outside show ?thesis
      by (cases "merge_shard (\<lambda>i row. copy_row row (i * m)) (zip (dc_index d ! t) (parts ! t)) v") auto
  qed (use Cons in auto)
qed simp

lemma MergeResultsToArray_outside:
  assumes "2 \<le> dc_num_shards d" and "s < dc_num_shards d" and "s \<noteq> 0" and "dc_index d ! s \<noteq> []"
  shows "MergeResultsToArray d [rows] values = Inl Bad_access"
proof -
  have "[0..<dc_num_shards d] = 0 # 1 # [2..<dc_num_shards d]"
    using assms(1) by (simp add: upt_conv_Cons numeral_2_eq_2)
  then have "find_dim [rows] [0..<dc_num_shards d] =
      (if rows \<noteq> [] \<and> hd rows \<noteq> [] then Inr (length (hd rows)) else Inl Bad_access)" by simp
  with assms merge_shards_outside [of s "[0..<dc_num_shards d]" d "[rows]"] show ?thesis
    by (simp add: MergeResultsToArray_def)
qed

text \<open>
  C37: \<open>GetParameter\<close> into an array, with more than one shard: as soon as one key that is sent belongs
  to a shard other than shard 0, the merge reads the rows of that shard outside a vector that has
  one element, after it may have copied rows to the places of other keys.
\<close>

theorem dist_array_reads_outside:
  assumes "dist_ok d (length svs)" and "eh_shards n h d svs F"
    and "\<forall>k \<in> set keys. k \<noteq> INVALID \<and> length (row_of F k) \<le> 2 ^ 18" and "shards_answer h d nets keys"
    and "j < length keys" and "shard_of h d (keys ! j) \<noteq> 0" and "sent h d keys j"
  shows "dist_GetParameter eh_kv h False nets keys values d svs = Inl Bad_access"
proof -
  let ?d = "partitioned h keys (length keys) d" and ?s = "shard_of h d (keys ! j)"
  from one_class_bytes.eh_rows.dist_GetParameter_vec_ok [where nets = nets and old = "[]", OF assms(1) assms(2) [folded eh_shards] assms(3)]
    assms(4,5)
  obtain svs' rows where P: "dist_GetParameter_vec eh_kv h False nets keys [] d svs = Inr (?d, svs', rows, True)"
    by (auto split: if_splits)
  have s: "?s < dc_num_shards ?d" using shard_of_less [OF assms(1)] by simp
  have "j \<in> set (shard_index h d keys (length keys) ?s)" using sent_iff [OF assms(5)] assms(7) by simp
  then have "dc_index ?d ! ?s \<noteq> []" using s by (auto simp: partitioned_def)
  with MergeResultsToArray_outside [OF _ s assms(6)] s assms(6) have "MergeResultsToArray ?d [rows] values = Inl Bad_access"
    by auto
  with P show ?thesis by (simp add: dist_GetParameter_def)
qed

section \<open>Witnesses\<close>

text \<open>The constructor on a configuration that has one server for each shard.\<close>

lemma shard_map_nth:
  assumes "distinct shards" and "i < length shards" and "n \<le> length shards"
  shows "fold (\<lambda>i m. m(shards ! i \<mapsto> i)) [0..<n] M (shards ! i) = (if i < n then Some i else M (shards ! i))"
  using assms by (induction n) (auto simp: nth_eq_iff_index_eq)

lemma dist_new_ok:
  assumes "0 < num_shards" and "num_shards < 2 ^ 31" and "distinct shards" and "{0..<num_shards} \<subseteq> set shards"
  obtains d where "dist_new num_shards max_keys hash_method shards = Inr d" "dist_ok d (length shards)"
proof -
  obtain d where d: "dist_new num_shards max_keys hash_method shards = Inr d" "dc_num_shards d = nat num_shards"
    "dc_shard_client d = fold (\<lambda>i m. m(shards ! i \<mapsto> i)) [0..<length shards] Map.empty"
    "length (dc_keys d) = nat num_shards" "length (dc_index d) = nat num_shards"
    using assms(1) by (simp add: dist_new_def)
  have c: "dc_shard_client d (int s) = Some (client_of d s) \<and> client_of d s < length shards \<and> shards ! client_of d s = int s"
    if "s < nat num_shards" for s
  proof -
    from that assms(4) have "int s \<in> set shards" by auto
    then obtain i where "i < length shards" "shards ! i = int s" by (auto simp: in_set_conv_nth)
    with shard_map_nth [OF assms(3) this(1) order_refl, of Map.empty] d(3) show ?thesis by (simp add: client_of_def)
  qed
  have "inj_on (client_of d) {..<nat num_shards}"
  proof (rule inj_onI)
    fix s t
    assume "s \<in> {..<nat num_shards}" "t \<in> {..<nat num_shards}" "client_of d s = client_of d t"
    with c [of s] c [of t] show "s = t" by (metis lessThan_iff of_nat_eq_iff)
  qed
  then have "dist_ok d (length shards)" using d c assms(1,2) by (auto simp: dist_ok_def)
  with d(1) that show thesis by blast
qed

definition demo_dist :: dist_client where
  "demo_dist =
     \<lparr>dc_num_shards = 2, dc_max_keys = 1, dc_hash_method = ''simple_mod'', dc_shard_client = [0 \<mapsto> 0, 1 \<mapsto> 1],
      dc_keys = [[], []], dc_index = [[], []]\<rparr>"

lemma demo_dist_new: "dist_new 2 1 ''simple_mod'' [0, 1] = Inr demo_dist"
  by (simp add: dist_new_def demo_dist_def numeral_2_eq_2)

lemma demo_dist_ok: "dist_ok demo_dist (length [demo_server, demo_server])"
proof -
  have "0 < (2 :: int)" "(2 :: int) < 2 ^ 31" "distinct [0, 1 :: int]" "{0..<2} \<subseteq> set [0, 1 :: int]" by auto
  then obtain d where "dist_new 2 1 ''simple_mod'' [0, 1] = Inr d" "dist_ok d (length [0, 1 :: int])"
    by (rule dist_new_ok)
  with demo_dist_new show ?thesis by simp
qed

lemma demo_shards: "eh_shards 1 h demo_dist [demo_server, demo_server] Map.empty"
  using demo_serves by (auto simp: eh_shards_def less_Suc_eq)

lemma demo_shard_of: "shard_of h demo_dist 5 = 1" "shard_of h demo_dist 7 = 1"
  by (simp_all add: shard_of_def demo_dist_def unat_mod)

lemma demo_limit: "key_limit demo_dist = 1" "client_of demo_dist 1 = 1" "client_of demo_dist 0 = 0" "client_of demo_dist (Suc 0) = 1"
  by (simp_all add: key_limit_def demo_dist_def client_of_def)

definition demo_nets :: "nat \<Rightarrow> nat \<Rightarrow> fate" where "demo_nets c = demo_net"

lemma demo_shards_answer: "shards_answer h demo_dist demo_nets keys"
  by (simp add: shards_answer_def all_answered_def demo_nets_def demo_net_def)

lemma demo_shards_fit: "eh_shards_fit 1 h demo_dist demo_nets ((5, [1, 2]) # rows) [demo_server, demo_server]"
  if "\<forall>r \<in> set rows. fst r = 7"
proof -
  have "rows_to h demo_dist ((5, [1, 2]) # rows) 1 = [(5, [1, 2])]" "rows_to h demo_dist ((5, [1, 2]) # rows) 0 = []"
    using that by (auto simp: rows_to_def demo_shard_of demo_limit filter_empty_conv)
  moreover have "dc_num_shards demo_dist = 2" by (simp add: demo_dist_def)
  ultimately show ?thesis
    using demo_put_fits by (auto simp: eh_shards_fit_def less_2_cases_iff demo_limit demo_nets_def eh_fits_def batches_simps(1))
qed

lemmas demo_shards_fits =
  demo_shards_fit [of "zip [] []", folded zip_Cons_Cons] demo_shards_fit [of "zip [7] [[3, 4]]", folded zip_Cons_Cons]

theorem dist_PutParameter_correct_witness:
  "\<exists>d' svs'. dist_PutParameter eh_kv id demo_nets [5] [[1, 2]] demo_dist [demo_server, demo_server] = Inr (d', svs', 0)"
  using dist_PutParameter_correct [OF demo_dist_ok demo_shards _ _ demo_shards_fits(1), where h = id]
    demo_key demo_shards_answer by auto

theorem dist_GetParameter_correct_witness:
  "\<exists>d' svs'. dist_GetParameter_vec eh_kv id False demo_nets [5, 7] [] demo_dist [demo_server, demo_server] =
    Inr (d', svs', [[], []], True)"
  using dist_GetParameter_correct [OF demo_dist_ok demo_shards, of "[5, 7]" id demo_nets "[]"] demo_key demo_shards_answer
  by (auto simp: INVALID_def row_of_def)

theorem dist_put_then_get_witness:
  "\<exists>d' svs' d'' svs''. dist_PutParameter eh_kv id demo_nets [5] [[1, 2]] demo_dist [demo_server, demo_server] = Inr (d', svs', 0) \<and>
    dist_GetParameter_vec eh_kv id False demo_nets [5] [] d' svs' = Inr (d'', svs'', [[1, 2]], True)"
  using dist_put_then_get [OF demo_dist_ok demo_shards _ _ _ demo_shards_fits(1), where h = id and nets' = demo_nets and old = "[]"]
    demo_key demo_shards_answer by (auto simp: demo_limit demo_nets_def demo_net_def)

theorem dist_limit_loses_rows_witness:
  "\<exists>d' svs' F'. dist_PutParameter eh_kv id demo_nets [5, 7] [[1, 2], [3, 4]] demo_dist [demo_server, demo_server] = Inr (d', svs', 0) \<and>
    eh_shards 1 id d' svs' F' \<and> F' 7 = None"
proof -
  have "\<not> sent id demo_dist [5, 7] 1" by (simp add: sent_def demo_shard_of demo_limit)
  with dist_limit_loses_rows [OF demo_dist_ok demo_shards _ _ _ demo_shards_fits(2),
      where h = id and j = 1] demo_key demo_shards_answer
  show ?thesis by (auto simp: INVALID_def)
qed

theorem dist_array_reads_outside_witness:
  "dist_GetParameter eh_kv id False demo_nets [5] [0, 0] demo_dist [demo_server, demo_server] = Inl Bad_access"
  using dist_array_reads_outside [OF demo_dist_ok demo_shards, of "[5]" id demo_nets 0] demo_key demo_shards_answer
  by (auto simp: demo_shard_of sent_def demo_limit row_of_def)

end
