(* ===== verification/Prefetch.thy ===== *)
theory Prefetch
  imports PsClient
begin

text \<open>
  Prefetching in the brpc client (\<open>PrefetchParameter\<close> and what belongs to it): the batches that were
  requested for under an id, their calls in flight, and the answers until they are taken. Calls end
  in any order, at any time, between whatever else the server does.
\<close>

text \<open>A call's controller and response; \<open>No_call\<close> is the null pointer before a call is made.\<close>

datatype pf_call = No_call | In_flight "u64 list" | Replied "u8 list" | Call_failed

record prefetch_batch =
  pb_key_sizes :: "nat list"
  pb_calls :: "pf_call list"
  pb_batch_size :: nat
  pb_completed_count :: nat

record prefetcher =
  pf_batches :: "u64 \<Rightarrow> prefetch_batch option"
  next_prefetch_id :: u64

definition prefetcher_new :: prefetcher where
  "prefetcher_new = \<lparr>pf_batches = Map.empty, next_prefetch_id = 1\<rparr>"

definition prefetch_batch_new :: "nat \<Rightarrow> prefetch_batch" where
  "prefetch_batch_new request_num =
     \<lparr>pb_key_sizes = replicate request_num 0, pb_calls = replicate request_num No_call,
      pb_batch_size = request_num, pb_completed_count = 0\<rparr>"

text \<open>The loop that sends a call for every 2000 keys.\<close>

fun pf_send :: "nat \<Rightarrow> u64 list list \<Rightarrow> prefetch_batch \<Rightarrow> prefetch_batch result" where
  "pf_send index [] pb = Inr pb"
| "pf_send index (ks # kss) pb =
     (if index < length (pb_key_sizes pb) \<and> index < length (pb_calls pb)
      then pf_send (Suc index) kss
        (pb\<lparr>pb_key_sizes := (pb_key_sizes pb)[index := length ks], pb_calls := (pb_calls pb)[index := In_flight ks]\<rparr>)
      else Inl Bad_access)"

definition PrefetchParameter :: "u64 list \<Rightarrow> prefetcher \<Rightarrow> (prefetcher \<times> u64) result" where
  "PrefetchParameter keys p =
     (let prefetch_id = next_prefetch_id p;
          request_num = (length keys + MAX_PARAMETER_BATCH_BRPC - 1) div MAX_PARAMETER_BATCH_BRPC;
          pb = (case pf_batches p prefetch_id of Some pb \<Rightarrow> pb | None \<Rightarrow> prefetch_batch_new request_num) in
      bind_result (pf_send 0 (batches keys) pb) (\<lambda>pb'.
        Inr (p\<lparr>pf_batches := (pf_batches p)(prefetch_id \<mapsto> pb'), next_prefetch_id := prefetch_id + 1\<rparr>, prefetch_id)))"

text \<open>The end of a call: the server's answer or a failure, and \<open>OnPrefetchDone\<close>.\<close>

definition OnPrefetchDone :: "prefetch_batch \<Rightarrow> prefetch_batch" where
  "OnPrefetchDone pb = pb\<lparr>pb_completed_count := pb_completed_count pb + 1\<rparr>"

definition pf_complete ::
  "'s kv_vt \<Rightarrow> u64 \<Rightarrow> nat \<Rightarrow> fate \<Rightarrow> prefetcher \<Rightarrow> 's ps_server \<Rightarrow> (prefetcher \<times> 's ps_server) result" where
  "pf_complete V prefetch_id i f p sv =
     (case pf_batches p prefetch_id of
        None \<Rightarrow> Inr (p, sv)
      | Some pb \<Rightarrow>
          if i \<ge> length (pb_calls pb) then Inr (p, sv)
          else case pb_calls pb ! i of
            In_flight ks \<Rightarrow>
              bind_result (rpc (srv_GetParameter V (concat (map (le_bytes 8) ks)) []) f sv) (\<lambda>(sv', r).
                let c = (case r of None \<Rightarrow> Call_failed | Some b \<Rightarrow> Replied b);
                    pb' = OnPrefetchDone (pb\<lparr>pb_calls := (pb_calls pb)[i := c]\<rparr>) in
                Inr (p\<lparr>pf_batches := (pf_batches p)(prefetch_id \<mapsto> pb')\<rparr>, sv'))
          | _ \<Rightarrow> Inr (p, sv))"

definition IsPrefetchDone :: "u64 \<Rightarrow> prefetcher \<Rightarrow> bool" where
  "IsPrefetchDone prefetch_id p =
     (case pf_batches p prefetch_id of None \<Rightarrow> False | Some pb \<Rightarrow> pb_completed_count pb = pb_batch_size pb)"

text \<open>\<open>WaitForPrefetch\<close> once \<open>Join\<close> has come back for every call.\<close>

definition WaitForPrefetch :: "u64 \<Rightarrow> prefetcher \<Rightarrow> prefetcher" where
  "WaitForPrefetch prefetch_id p =
     (case pf_batches p prefetch_id of
        None \<Rightarrow> p
      | Some pb \<Rightarrow> p\<lparr>pf_batches := (pf_batches p)(prefetch_id \<mapsto> pb\<lparr>pb_completed_count := pb_batch_size pb\<rparr>)\<rparr>)"

definition call_finished :: "pf_call \<Rightarrow> bool" where
  "call_finished c \<longleftrightarrow> (case c of In_flight ks \<Rightarrow> False | _ \<Rightarrow> True)"

text \<open>The payload of a response; one that has not come yet is empty.\<close>

definition response_payload :: "pf_call \<Rightarrow> u8 list" where
  "response_payload c = (case c of Replied b \<Rightarrow> b | _ \<Rightarrow> [])"

fun pf_rows :: "(pf_call \<times> nat) list \<Rightarrow> u32 list list \<Rightarrow> (u32 list list \<times> bool) result" where
  "pf_rows [] values = Inr (values, True)"
| "pf_rows ((c, key_size) # cs) values =
     (if c = No_call then Inl Bad_access
      else if c = Call_failed then Inr (values, False)
      else bind_result (response_ok key_size (response_payload c)) (\<lambda>ok.
        if \<not> ok then Inr (values, False)
        else bind_result (results (map (\<lambda>i. item_row (response_payload c) (int i)) [0..<key_size])) (\<lambda>rows.
          pf_rows cs (values @ rows))))"

definition pf_requests :: "prefetch_batch \<Rightarrow> (pf_call \<times> nat) list" where
  "pf_requests pb = take (pb_batch_size pb) (zip (pb_calls pb) (pb_key_sizes pb))"

definition pf_erase :: "u64 \<Rightarrow> prefetcher \<Rightarrow> prefetcher" where
  "pf_erase prefetch_id p = p\<lparr>pf_batches := (pf_batches p)(prefetch_id := None)\<rparr>"

definition GetPrefetchResult ::
  "u64 \<Rightarrow> u32 list list \<Rightarrow> prefetcher \<Rightarrow> (prefetcher \<times> u32 list list \<times> bool) result" where
  "GetPrefetchResult prefetch_id values p =
     (case pf_batches p prefetch_id of
        None \<Rightarrow> Inr (p, values, False)
      | Some pb \<Rightarrow>
          bind_result (pf_rows (pf_requests pb) []) (\<lambda>(values', ok).
            Inr (if ok then pf_erase prefetch_id p else p, values', ok)))"

text \<open>The flat form: rows cut or padded with zeros to \<open>embedding_dim\<close> floats.\<close>

fun pf_flat_items ::
  "u8 list \<Rightarrow> nat \<Rightarrow> nat \<Rightarrow> int \<Rightarrow> nat \<Rightarrow> u32 list \<Rightarrow> (nat \<times> u32 list) result" where
  "pf_flat_items bs i 0 dim row_offset values = Inr (row_offset, values)"
| "pf_flat_items bs i (Suc n) dim row_offset values =
     bind_result (fr_item (int i) bs) (\<lambda>p. bind_result (pi_dim bs p) (\<lambda>d.
       if d = 0 then pf_flat_items bs (Suc i) n dim (Suc row_offset) values
       else if sint d < 0 then Inl Bad_access
       else bind_result (pi_floats bs p (nat (min dim (sint d)))) (\<lambda>row.
         bind_result (copy_row row (row_offset * nat dim) values) (\<lambda>values'.
           pf_flat_items bs (Suc i) n dim (Suc row_offset) values'))))"

fun pf_flat :: "(pf_call \<times> nat) list \<Rightarrow> int \<Rightarrow> nat \<Rightarrow> u32 list \<Rightarrow> (u32 list \<times> bool) result" where
  "pf_flat [] dim row_offset values = Inr (values, True)"
| "pf_flat ((c, key_size) # cs) dim row_offset values =
     (if c = No_call then Inl Bad_access
      else if c = Call_failed then Inr (values, False)
      else bind_result (response_ok key_size (response_payload c)) (\<lambda>ok.
        if \<not> ok then Inr (values, False)
        else bind_result (pf_flat_items (response_payload c) 0 key_size dim row_offset values) (\<lambda>(row_offset', values').
          pf_flat cs dim row_offset' values')))"

definition GetPrefetchResultFlat ::
  "u64 \<Rightarrow> int \<Rightarrow> prefetcher \<Rightarrow> (prefetcher \<times> (nat \<times> u32 list) option \<times> bool) result" where
  "GetPrefetchResultFlat prefetch_id embedding_dim p =
     (case pf_batches p prefetch_id of
        None \<Rightarrow> Inr (p, None, False)
      | Some pb \<Rightarrow>
          let num_rows = sum_list (pb_key_sizes pb) in
          if embedding_dim < 0 \<and> num_rows \<noteq> 0 then Inl (Throw ''vector::assign'')
          else bind_result (pf_flat (pf_requests pb) embedding_dim 0 (replicate (num_rows * nat embedding_dim) 0)) (\<lambda>(values, ok).
            Inr (if ok then pf_erase prefetch_id p else p, Some (num_rows, values), ok)))"

section \<open>Runs\<close>

text \<open>
  One event of a client that prefetches and its server; \<open>requested\<close> remembers the keys last prefetched
  under each id. \<open>wanted\<close> are the keys the client prefetches, \<open>good\<close> the states other clients leave
  the server in. An id comes back after \<open>2 ^ 64\<close> prefetches; that its batch is still there is left out.
\<close>

inductive pf_step ::
  "'s kv_vt \<Rightarrow> (u64 list \<Rightarrow> bool) \<Rightarrow> ('s ps_server \<Rightarrow> bool) \<Rightarrow> prefetcher \<times> 's ps_server \<times> (u64 \<Rightarrow> u64 list) \<Rightarrow>
    prefetcher \<times> 's ps_server \<times> (u64 \<Rightarrow> u64 list) \<Rightarrow> bool"
  for V wanted good where
  Prefetch: "pf_batches p (next_prefetch_id p) = None \<Longrightarrow> wanted keys \<Longrightarrow> PrefetchParameter keys p = Inr (p', prefetch_id) \<Longrightarrow>
    pf_step V wanted good (p, sv, requested) (p', sv, requested(prefetch_id := keys))"
| Complete: "pf_complete V prefetch_id i f p sv = Inr (p', sv') \<Longrightarrow>
    pf_step V wanted good (p, sv, requested) (p', sv', requested)"
| Wait: "\<forall>pb. pf_batches p prefetch_id = Some pb \<longrightarrow> (\<forall>c \<in> set (pb_calls pb). call_finished c) \<Longrightarrow>
    pf_step V wanted good (p, sv, requested) (WaitForPrefetch prefetch_id p, sv, requested)"
| Take: "GetPrefetchResult prefetch_id old p = Inr (p', rows, ok) \<Longrightarrow> pf_step V wanted good (p, sv, requested) (p', sv, requested)"
| Take_flat: "GetPrefetchResultFlat prefetch_id dim p = Inr (p', rows, ok) \<Longrightarrow>
    pf_step V wanted good (p, sv, requested) (p', sv, requested)"
| Others: "good sv' \<Longrightarrow> pf_step V wanted good (p, sv, requested) (p, sv', requested)"

end
