(* ===== verification/PrefetchRuns.thy ===== *)
theory PrefetchRuns
  imports PsRuns Prefetch
begin

text \<open>
  Runs of a client that prefetches while the server answers and other clients write: what a batch
  holds at every moment, and what taking it gives.
\<close>

section \<open>One batch\<close>

definition finished_calls :: "pf_call list \<Rightarrow> nat" where
  "finished_calls cs = length (filter call_finished cs)"

text \<open>
  A batch for \<open>keys\<close>: a call for each 2000 of them, its answer the rows of one of the states \<open>S\<close> of the
  server, and the count of the calls that have ended.
\<close>

definition call_for :: "rows_map set \<Rightarrow> pf_call \<Rightarrow> u64 list \<Rightarrow> bool" where
  "call_for S c ks \<longleftrightarrow>
     (case c of
        No_call \<Rightarrow> False
      | In_flight ks' \<Rightarrow> ks' = ks
      | Replied b \<Rightarrow> \<exists>F \<in> S. b = rows_block (rows_of F ks)
      | Call_failed \<Rightarrow> True)"

definition batch_for :: "rows_map set \<Rightarrow> u64 list \<Rightarrow> prefetch_batch \<Rightarrow> bool" where
  "batch_for S keys pb \<longleftrightarrow>
     list_all2 (call_for S) (pb_calls pb) (batches keys) \<and> pb_key_sizes pb = map length (batches keys) \<and>
     pb_batch_size pb = length (batches keys) \<and> pb_completed_count pb = finished_calls (pb_calls pb)"

lemma finished_all: "finished_calls cs = length cs \<longleftrightarrow> (\<forall>c \<in> set cs. call_finished c)"
  unfolding finished_calls_def by (metis filter_True length_filter_less nat_neq_iff)

lemma finished_update:
  assumes "i < length cs" and "\<not> call_finished (cs ! i)" and "call_finished c"
  shows "finished_calls (cs[i := c]) = finished_calls cs + 1"
proof -
  have "cs = take i cs @ cs ! i # drop (Suc i) cs" using assms(1) by (simp add: id_take_nth_drop [symmetric])
  then have "finished_calls cs = finished_calls (take i cs) + finished_calls (drop (Suc i) cs)"
    using assms(2) by (metis (no_types, lifting) filter.simps(2) filter_append finished_calls_def length_append)
  moreover have "cs[i := c] = take i cs @ c # drop (Suc i) cs" using assms(1) by (simp add: upd_conv_take_nth_drop)
  ultimately show ?thesis using assms(3) by (simp add: finished_calls_def)
qed

lemma pf_send_ok:
  "length (pb_key_sizes pb) = length done_ks + length kss \<Longrightarrow> length (pb_calls pb) = length done_ks + length kss \<Longrightarrow>
    take (length done_ks) (pb_key_sizes pb) = map length done_ks \<Longrightarrow> take (length done_ks) (pb_calls pb) = map In_flight done_ks \<Longrightarrow>
    pf_send (length done_ks) kss pb =
      Inr (pb\<lparr>pb_key_sizes := map length (done_ks @ kss), pb_calls := map In_flight (done_ks @ kss)\<rparr>)"
proof (induction kss arbitrary: done_ks pb)
  case (Cons ks kss)
  let ?i = "length done_ks"
  let ?pb = "pb\<lparr>pb_key_sizes := (pb_key_sizes pb)[?i := length ks], pb_calls := (pb_calls pb)[?i := In_flight ks]\<rparr>"
  have "pf_send ?i (ks # kss) pb = pf_send (length (done_ks @ [ks])) kss ?pb" using Cons.prems by simp
  also have "\<dots> = Inr (?pb\<lparr>pb_key_sizes := map length ((done_ks @ [ks]) @ kss), pb_calls := map In_flight ((done_ks @ [ks]) @ kss)\<rparr>)"
    using Cons.prems by (intro Cons.IH) (simp_all add: take_Suc_conv_app_nth)
  finally show ?case by simp
qed simp

lemma PrefetchParameter_ok:
  assumes "pf_batches p (next_prefetch_id p) = None"
  shows "PrefetchParameter keys p = Inr (p\<lparr>pf_batches := (pf_batches p)(next_prefetch_id p \<mapsto>
      \<lparr>pb_key_sizes = map length (batches keys), pb_calls = map In_flight (batches keys),
       pb_batch_size = length (batches keys), pb_completed_count = 0\<rparr>), next_prefetch_id := next_prefetch_id p + 1\<rparr>,
    next_prefetch_id p)"
proof -
  let ?n = "(length keys + MAX_PARAMETER_BATCH_BRPC - 1) div MAX_PARAMETER_BATCH_BRPC"
  show ?thesis
    using pf_send_ok [of "prefetch_batch_new ?n" "[]" "batches keys"] assms
    by (simp add: PrefetchParameter_def prefetch_batch_new_def length_batches Let_def)
qed

lemma new_batch_for:
  "batch_for S keys \<lparr>pb_key_sizes = map length (batches keys), pb_calls = map In_flight (batches keys),
     pb_batch_size = length (batches keys), pb_completed_count = 0\<rparr>"
  by (auto simp: batch_for_def call_for_def finished_calls_def call_finished_def list_all2_conv_all_nth filter_empty_conv)

section \<open>Taking a batch\<close>

lemma response_ok_empty: "response_ok n [] = Inr False"
  by (simp add: response_ok_def ExtractGetResponseReader_def fr_Valid_def)

lemma replied_rows:
  assumes "length (rows_block (rows_of F ks)) < 2 ^ 31"
  shows "response_ok (length ks) (rows_block (rows_of F ks)) = Inr True"
    and "results (map (\<lambda>i. item_row (rows_block (rows_of F ks)) (int i)) [0..<length ks]) = Inr (map (row_of F) ks)"
proof -
  have n: "length (rows_of F ks) = length ks" by (simp add: rows_of_def)
  show "response_ok (length ks) (rows_block (rows_of F ks)) = Inr True"
    using response_ok_rows [OF assms] n by simp
  have "results (map (\<lambda>i. item_row (rows_block (rows_of F ks)) (int i)) [0..<length ks]) =
      Inr (map (\<lambda>i. snd (rows_of F ks ! i)) [0..<length ks])"
    using item_row_rows [OF _ assms] n by (intro results_map_Inr) simp
  moreover have "map (\<lambda>i. snd (rows_of F ks ! i)) [0..<length ks] = map (row_of F) ks"
    by (rule nth_equalityI) (simp_all add: rows_of_def)
  ultimately show "results (map (\<lambda>i. item_row (rows_block (rows_of F ks)) (int i)) [0..<length ks]) = Inr (map (row_of F) ks)"
    by simp
qed

definition snapshots :: "rows_map list \<Rightarrow> u64 list list \<Rightarrow> u32 list list" where
  "snapshots Fs kss = concat (map2 (\<lambda>F ks. map (row_of F) ks) Fs kss)"

definition all_replied :: "prefetch_batch \<Rightarrow> bool" where
  "all_replied pb \<longleftrightarrow> (\<forall>c \<in> set (pb_calls pb). \<exists>b. c = Replied b)"

lemma pf_rows_for:
  assumes "list_all2 (call_for S) cs kss" and "\<forall>ks \<in> set kss. \<forall>F \<in> S. length (rows_block (rows_of F ks)) < 2 ^ 31"
  shows "if \<forall>c \<in> set cs. \<exists>b. c = Replied b
    then \<exists>Fs. set Fs \<subseteq> S \<and> length Fs = length kss \<and> pf_rows (zip cs (map length kss)) v = Inr (v @ snapshots Fs kss, True)
    else \<exists>v'. pf_rows (zip cs (map length kss)) v = Inr (v', False)"
  using assms
proof (induction cs kss arbitrary: v rule: list_all2_induct)
  case (Cons c cs ks kss)
  show ?case
  proof (cases c)
    case (Replied b)
    then obtain F where F: "F \<in> S" "b = rows_block (rows_of F ks)" using Cons.hyps(1) by (auto simp: call_for_def)
    have small: "length (rows_block (rows_of F ks)) < 2 ^ 31" using Cons.prems F(1) by simp
    have step: "pf_rows (zip (c # cs) (map length (ks # kss))) v = pf_rows (zip cs (map length kss)) (v @ map (row_of F) ks)"
      using replied_rows [OF small] Replied F(2) by (simp add: response_payload_def)
    note IH = Cons.IH [of "v @ map (row_of F) ks"]
    show ?thesis
    proof (cases "\<forall>c \<in> set cs. \<exists>b. c = Replied b")
      case True
      with IH Cons.prems obtain Fs where "set Fs \<subseteq> S" "length Fs = length kss"
        "pf_rows (zip cs (map length kss)) (v @ map (row_of F) ks) = Inr ((v @ map (row_of F) ks) @ snapshots Fs kss, True)" by auto
      then have Fs: "set (F # Fs) \<subseteq> S \<and> length (F # Fs) = length (ks # kss) \<and>
          pf_rows (zip (c # cs) (map length (ks # kss))) v = Inr (v @ snapshots (F # Fs) (ks # kss), True)"
        using step F(1) by (simp add: snapshots_def)
      have all: "\<forall>x \<in> set (c # cs). \<exists>b. x = Replied b" using True Replied by simp
      show ?thesis unfolding if_P [OF all] by (rule exI [of _ "F # Fs"]) (rule Fs)
    next
      case False
      with IH Cons.prems step show ?thesis by auto
    qed
  qed (use Cons.hyps(1) in \<open>auto simp: call_for_def response_payload_def response_ok_empty\<close>)
qed (simp add: snapshots_def)

lemma GetPrefetchResult_for:
  assumes "pf_batches p i = Some pb" and "batch_for S keys pb"
    and "\<forall>ks \<in> set (batches keys). \<forall>F \<in> S. length (rows_block (rows_of F ks)) < 2 ^ 31"
  shows "if all_replied pb
    then \<exists>Fs. set Fs \<subseteq> S \<and> length Fs = length (batches keys) \<and>
      GetPrefetchResult i old p = Inr (pf_erase i p, snapshots Fs (batches keys), True)
    else \<exists>rows. GetPrefetchResult i old p = Inr (p, rows, False)"
proof -
  have "length (pb_calls pb) = length (batches keys)" using assms(2) by (auto simp: batch_for_def dest: list_all2_lengthD)
  then have "pf_requests pb = zip (pb_calls pb) (map length (batches keys))"
    using assms(2) by (simp add: pf_requests_def batch_for_def)
  then have run: "GetPrefetchResult i old p =
      bind_result (pf_rows (zip (pb_calls pb) (map length (batches keys))) []) (\<lambda>(rows, ok).
        Inr (if ok then pf_erase i p else p, rows, ok))" using assms(1) by (simp add: GetPrefetchResult_def)
  have "list_all2 (call_for S) (pb_calls pb) (batches keys)" using assms(2) by (simp add: batch_for_def)
  note rows = pf_rows_for [OF this assms(3), of "[]", folded all_replied_def]
  show ?thesis
  proof (cases "all_replied pb")
    case True
    with rows obtain Fs where "set Fs \<subseteq> S" "length Fs = length (batches keys)"
      "pf_rows (zip (pb_calls pb) (map length (batches keys))) [] = Inr (snapshots Fs (batches keys), True)" by auto
    with True run show ?thesis by auto
  next
    case False
    with rows obtain v where "pf_rows (zip (pb_calls pb) (map length (batches keys))) [] = Inr (v, False)" by auto
    with False run show ?thesis by simp
  qed
qed

lemma take_leaves: "GetPrefetchResult i old p = Inr (p', rows, ok) \<Longrightarrow> p' = p \<or> p' = pf_erase i p"
  by (auto simp: GetPrefetchResult_def bind_result_Inr_iff split: option.splits if_splits)

lemma take_flat_leaves: "GetPrefetchResultFlat i dim p = Inr (p', rows, ok) \<Longrightarrow> p' = p \<or> p' = pf_erase i p"
  by (auto simp: GetPrefetchResultFlat_def Let_def bind_result_Inr_iff split: option.splits if_splits)

section \<open>Runs\<close>

lemma batch_for_reply:
  assumes "batch_for S keys pb" and "i < length (pb_calls pb)" and "pb_calls pb ! i = In_flight ks"
    and "c = Call_failed \<or> (\<exists>F \<in> S. c = Replied (rows_block (rows_of F ks)))"
  shows "batch_for S keys (OnPrefetchDone (pb\<lparr>pb_calls := (pb_calls pb)[i := c]\<rparr>))"
proof -
  have "call_for S (In_flight ks) (batches keys ! i)" using assms(1-3) by (auto simp: batch_for_def list_all2_conv_all_nth)
  then have "call_for S c (batches keys ! i)" using assms(4) by (auto simp: call_for_def)
  then have "list_all2 (call_for S) ((pb_calls pb)[i := c]) (batches keys)"
    using assms(1,2) by (auto simp: batch_for_def list_all2_conv_all_nth nth_list_update)
  moreover have "finished_calls ((pb_calls pb)[i := c]) = finished_calls (pb_calls pb) + 1"
    using assms(2-4) by (intro finished_update) (auto simp: call_finished_def)
  ultimately show ?thesis using assms(1) by (simp add: batch_for_def OnPrefetchDone_def)
qed

lemma batch_for_wait:
  assumes "batch_for S keys pb" and "\<forall>c \<in> set (pb_calls pb). call_finished c"
  shows "batch_for S keys (pb\<lparr>pb_completed_count := pb_batch_size pb\<rparr>)"
  using assms finished_all [of "pb_calls pb"] by (auto simp: batch_for_def dest: list_all2_lengthD)

context float_store
begin

definition short_rows :: "rows_map set \<Rightarrow> u64 list \<Rightarrow> bool" where
  "short_rows S keys \<longleftrightarrow> (\<forall>F \<in> S. \<forall>k \<in> set keys. key_ok k \<and> length (row_of F k) \<le> 2 ^ 18)"

definition served_by :: "rows_map set \<Rightarrow> 's ps_server \<Rightarrow> bool" where "served_by S sv \<longleftrightarrow> (\<exists>F \<in> S. serves sv F)"

fun pf_inv :: "rows_map set \<Rightarrow> prefetcher \<times> 's ps_server \<times> (u64 \<Rightarrow> u64 list) \<Rightarrow> bool" where
  "pf_inv S (p, sv, requested) \<longleftrightarrow> served_by S sv \<and>
     (\<forall>i pb. pf_batches p i = Some pb \<longrightarrow> short_rows S (requested i) \<and> batch_for S (requested i) pb)"

lemma pf_complete_inv:
  assumes inv: "pf_inv S (p, sv, requested)" and run: "pf_complete V q i f p sv = Inr (p', sv')"
  shows "pf_inv S (p', sv', requested)"
proof (cases "\<exists>pb ks. pf_batches p q = Some pb \<and> i < length (pb_calls pb) \<and> pb_calls pb ! i = In_flight ks")
  case False
  then have "p' = p \<and> sv' = sv"
    using run by (auto simp: pf_complete_def split: option.splits if_splits pf_call.splits)
  with inv show ?thesis by simp
next
  case True
  then obtain pb ks where pb: "pf_batches p q = Some pb" "i < length (pb_calls pb)" "pb_calls pb ! i = In_flight ks" by blast
  have b: "short_rows S (requested q)" "batch_for S (requested q) pb" using inv pb(1) by auto
  have "call_for S (In_flight ks) (batches (requested q) ! i)" "i < length (batches (requested q))"
    using b(2) pb(2,3) by (auto simp: batch_for_def list_all2_conv_all_nth)
  then have ks: "ks \<in> set (batches (requested q))" by (simp add: call_for_def)
  obtain F where F: "F \<in> S" "serves sv F" using inv by (auto simp: served_by_def)
  have "readable F ks" using b(1) F(1) ks by (intro batches_readable [of "requested q"]) (auto simp: short_rows_def)
  from get_rpc [OF F(2) this, of f] obtain sv1 where
    sv1: "rpc (srv_GetParameter V (concat (map (le_bytes 8) ks)) []) f sv = Inr (sv1, answer F f ks)" "sv_ps sv1 = sv_ps sv"
    by blast
  define c where "c = (case answer F f ks of None \<Rightarrow> Call_failed | Some b \<Rightarrow> Replied b)"
  have p': "sv' = sv1" "p' = p\<lparr>pf_batches := (pf_batches p)(q \<mapsto> OnPrefetchDone (pb\<lparr>pb_calls := (pb_calls pb)[i := c]\<rparr>))\<rparr>"
    using run pb sv1(1) by (simp_all add: pf_complete_def Let_def c_def)
  have "c = Call_failed \<or> (\<exists>F \<in> S. c = Replied (rows_block (rows_of F ks)))"
    using F(1) by (auto simp: c_def answer_def split: fate.splits)
  from batch_for_reply [OF b(2) pb(2,3) this] b(1) inv F sv1(2) show ?thesis
    unfolding p' by (auto simp: served_by_def serves_def)
qed

lemma pf_step_inv:
  assumes "pf_step V (short_rows S) (served_by S) st st'" and "pf_inv S st"
  shows "pf_inv S st'"
  using assms
proof (induction rule: pf_step.induct)
  case (Prefetch p keys p' q sv requested)
  then show ?case using PrefetchParameter_ok [OF Prefetch.hyps(1), of keys] new_batch_for [of S keys] by auto
next
  case (Complete q i f p sv p' sv' requested)
  then show ?case using pf_complete_inv by blast
next
  case (Wait p q sv requested)
  then show ?case using batch_for_wait by (auto simp: WaitForPrefetch_def split: option.splits if_splits)
next
  case (Take q old p p' rows ok sv requested)
  with take_leaves [OF Take.hyps(1)] show ?case by (auto simp: pf_erase_def split: if_splits)
next
  case (Take_flat q dim p p' rows ok sv requested)
  with take_flat_leaves [OF Take_flat.hyps(1)] show ?case by (auto simp: pf_erase_def split: if_splits)
qed simp

lemma pf_reach_inv:
  assumes "(pf_step V (short_rows S) (served_by S))\<^sup>*\<^sup>* (prefetcher_new, sv, requested0) st" and "served_by S sv"
  shows "pf_inv S st"
  using assms(1)
proof (induction rule: rtranclp_induct)
  case base
  show ?case using assms(2) by (simp add: prefetcher_new_def)
next
  case (step st st')
  then show ?case using pf_step_inv by blast
qed

end

end
