(* ===== verification/PrefetchProps.thy ===== *)
theory PrefetchProps
  imports PsProps PrefetchRuns
begin

text \<open>
  What prefetching promises in every state a client can reach, on servers of the extendible-hash
  engine, and the batch that no one can get rid of.
\<close>

definition eh_short_rows :: "rows_map set \<Rightarrow> u64 list \<Rightarrow> bool" where
  "eh_short_rows S keys \<longleftrightarrow> (\<forall>F \<in> S. \<forall>k \<in> set keys. k \<noteq> INVALID \<and> length (row_of F k) \<le> 2 ^ 18)"

definition eh_served :: "nat \<Rightarrow> rows_map set \<Rightarrow> (loop_malloc, ehash) engine ps_server \<Rightarrow> bool" where
  "eh_served n S sv \<longleftrightarrow> (\<exists>F \<in> S. eh_serves n sv F)"

abbreviation eh_pf_step where
  "eh_pf_step n S \<equiv> pf_step eh_kv (eh_short_rows S) (eh_served n S)"

lemma eh_short_rows: "one_class_bytes.eh_rows.short_rows S = eh_short_rows S"
  by (simp add: one_class_bytes.eh_rows.short_rows_def eh_short_rows_def fun_eq_iff)

lemma eh_served: "one_class_bytes.eh_rows.served_by n S = eh_served n S"
  by (simp add: one_class_bytes.eh_rows.served_by_def eh_served_def eh_serves fun_eq_iff)

lemma eh_pf_reach:
  assumes "(eh_pf_step n S)\<^sup>*\<^sup>* (prefetcher_new, sv, requested0) (p, sv', requested)" and "eh_served n S sv"
    and "pf_batches p i = Some pb"
  shows "eh_short_rows S (requested i)" "batch_for S (requested i) pb"
proof -
  have "one_class_bytes.eh_rows.pf_inv n S (p, sv', requested)"
    using one_class_bytes.eh_rows.pf_reach_inv [unfolded eh_short_rows eh_served, OF assms(1,2)] .
  with assms(3) show "eh_short_rows S (requested i)" "batch_for S (requested i) pb"
    unfolding eh_short_rows [symmetric] by simp_all
qed

text \<open>
  C38: \<open>IsPrefetchDone\<close> in every state that prefetches, answers in any order, waits and takes can lead to:
  it holds exactly when the id's batch is there and each of its calls has been answered or has
  failed. The counter it compares never passes the number of calls.
\<close>

theorem IsPrefetchDone_correct:
  assumes "(eh_pf_step n S)\<^sup>*\<^sup>* (prefetcher_new, sv, requested0) (p, sv', requested)" and "eh_served n S sv"
  shows "IsPrefetchDone i p \<longleftrightarrow> (case pf_batches p i of None \<Rightarrow> False | Some pb \<Rightarrow> \<forall>c \<in> set (pb_calls pb). call_finished c)"
proof (cases "pf_batches p i")
  case (Some pb)
  have "batch_for S (requested i) pb" using eh_pf_reach [OF assms Some] by blast
  then have "pb_completed_count pb = finished_calls (pb_calls pb)" "pb_batch_size pb = length (pb_calls pb)"
    by (auto simp: batch_for_def dest: list_all2_lengthD)
  then show ?thesis using Some finished_all [of "pb_calls pb"] by (simp add: IsPrefetchDone_def)
qed (simp add: IsPrefetchDone_def)

text \<open>
  C25: Taking a prefetched batch. Once all its calls are answered, \<open>GetPrefetchResult\<close> returns a row for
  every key in order, and the batch is gone; each 2000 keys are rows of one state of the server, which need not be
  the state for the next 2000, nor the last. Until then, and when a call failed, it returns \<open>false\<close> and
  keeps the batch, so that it can be asked again.
\<close>

theorem GetPrefetchResult_correct:
  assumes "(eh_pf_step n S)\<^sup>*\<^sup>* (prefetcher_new, sv, requested0) (p, sv', requested)" and "eh_served n S sv"
    and "pf_batches p i = Some pb"
  shows "if all_replied pb
    then \<exists>Fs. set Fs \<subseteq> S \<and> length Fs = length (batches (requested i)) \<and>
      GetPrefetchResult i old p = Inr (pf_erase i p, snapshots Fs (batches (requested i)), True)
    else \<exists>rows. GetPrefetchResult i old p = Inr (p, rows, False)"
proof (rule GetPrefetchResult_for [OF assms(3) eh_pf_reach(2) [OF assms]])
  show "\<forall>ks \<in> set (batches (requested i)). \<forall>F \<in> S. length (rows_block (rows_of F ks)) < 2 ^ 31"
  proof (intro ballI)
    fix ks F
    assume *: "ks \<in> set (batches (requested i))" "F \<in> S"
    have "\<forall>k \<in> set ks. length (row_of F k) \<le> 2 ^ 18"
      using eh_pf_reach(1) [OF assms] * batches_set [OF *(1)] by (auto simp: eh_short_rows_def)
    with batches_set [OF *(1)] show "length (rows_block (rows_of F ks)) < 2 ^ 31" by (intro rows_of_small) auto
  qed
qed

text \<open>A failed call stays in its batch, and the batch with it.\<close>

definition has_failed :: "u64 \<Rightarrow> prefetcher \<Rightarrow> bool" where
  "has_failed i p \<longleftrightarrow> (\<exists>pb. pf_batches p i = Some pb \<and> Call_failed \<in> set (pb_calls pb) \<and>
     length (pb_calls pb) \<le> pb_batch_size pb \<and> length (pb_key_sizes pb) = length (pb_calls pb))"

lemma pf_rows_failed: "pf_rows cs v = Inr (v', True) \<Longrightarrow> Call_failed \<notin> fst ` set cs"
  by (induction cs v rule: pf_rows.induct) (auto simp: bind_result_Inr_iff split: if_splits)

lemma pf_flat_failed: "pf_flat cs dim j v = Inr (v', True) \<Longrightarrow> Call_failed \<notin> fst ` set cs"
  by (induction cs dim j v rule: pf_flat.induct) (auto simp: bind_result_Inr_iff split: if_splits)

lemma failed_request:
  assumes "pf_batches p i = Some pb" and "has_failed i p"
  shows "Call_failed \<in> fst ` set (pf_requests pb)"
proof -
  have "pf_requests pb = zip (pb_calls pb) (pb_key_sizes pb)" using assms by (auto simp: has_failed_def pf_requests_def)
  then have "map fst (pf_requests pb) = pb_calls pb" using assms by (auto simp: has_failed_def)
  then show ?thesis using assms by (auto simp: has_failed_def simp flip: set_map)
qed

lemma take_failed:
  assumes "has_failed i p" and "GetPrefetchResult i old p = Inr (p', rows, ok)"
  shows "p' = p \<and> \<not> ok"
  using assms failed_request [OF _ assms(1)] pf_rows_failed
  by (auto simp: GetPrefetchResult_def has_failed_def bind_result_Inr_iff split: option.splits if_splits)

lemma take_flat_failed:
  assumes "has_failed i p" and "GetPrefetchResultFlat i dim p = Inr (p', rows, ok)"
  shows "p' = p \<and> \<not> ok"
proof -
  obtain pb where pb: "pf_batches p i = Some pb" using assms(1) by (auto simp: has_failed_def)
  have "ok \<Longrightarrow> \<exists>v v'. pf_flat (pf_requests pb) dim 0 v = Inr (v', True)" and same: "\<not> ok \<Longrightarrow> p' = p"
    using assms(2) pb by (auto simp: GetPrefetchResultFlat_def Let_def bind_result_Inr_iff split: if_splits)
  then have "\<not> ok" using failed_request [OF pb assms(1)] pf_flat_failed by blast
  with same show ?thesis by blast
qed

lemma erase_other: "j \<noteq> i \<Longrightarrow> has_failed i (pf_erase j p) = has_failed i p"
  by (simp add: has_failed_def pf_erase_def)

lemma step_keeps_failed:
  assumes "pf_step V wanted good st st'" and "has_failed i (fst st)"
  shows "has_failed i (fst st')"
  using assms
proof (induction rule: pf_step.induct)
  case (Prefetch p keys p' q sv requested)
  then have "next_prefetch_id p \<noteq> i" by (auto simp: has_failed_def)
  with Prefetch show ?case using PrefetchParameter_ok [OF Prefetch.hyps(1), of keys] by (auto simp: has_failed_def)
next
  case (Complete q j f p sv p' sv' requested)
  then show ?case
    by (auto simp: pf_complete_def has_failed_def OnPrefetchDone_def Let_def bind_result_Inr_iff in_set_conv_nth nth_list_update
        split: option.splits if_splits pf_call.splits) (metis pf_call.distinct(9))+
next
  case (Wait p q sv requested)
  then show ?case by (auto simp: WaitForPrefetch_def has_failed_def split: option.splits if_splits)
next
  case (Take q old p p' rows ok sv requested)
  then show ?case using take_failed [of i p old p' rows ok] take_leaves [OF Take.hyps(1)] erase_other by (cases "q = i") auto
next
  case (Take_flat q dim p p' rows ok sv requested)
  then show ?case using take_flat_failed [of i p dim p' rows ok] take_flat_leaves [OF Take_flat.hyps(1)] erase_other
    by (cases "q = i") auto
qed simp

text \<open>
  A prefetch with a failed call is never released: whatever happens afterwards, its batch stays in
  the client's table with the answers of its other calls, and every attempt to take it returns
  \<open>false\<close>. No operation of the client removes it.
\<close>

theorem failed_prefetch_stays:
  assumes "(eh_pf_step n S)\<^sup>*\<^sup>* (prefetcher_new, sv, requested0) (p, sv', requested)" and "eh_served n S sv"
    and "pf_batches p i = Some pb" and "Call_failed \<in> set (pb_calls pb)"
    and "(eh_pf_step n S)\<^sup>*\<^sup>* (p, sv', requested) (p'', sv'', requested'')"
  shows "pf_batches p'' i \<noteq> None \<and> (\<exists>rows. GetPrefetchResult i old p'' = Inr (p'', rows, False))"
proof -
  have "has_failed i p"
    using assms(3,4) eh_pf_reach(2) [OF assms(1-3)] by (auto simp: has_failed_def batch_for_def dest: list_all2_lengthD)
  with assms(5) have "has_failed i (fst (p'', sv'', requested''))"
    by (induction rule: rtranclp_induct) (auto dest: step_keeps_failed)
  then obtain pb'' where pb'': "pf_batches p'' i = Some pb''" "Call_failed \<in> set (pb_calls pb'')" by (auto simp: has_failed_def)
  then have "\<not> all_replied pb''" by (auto simp: all_replied_def)
  with GetPrefetchResult_correct [OF rtranclp_trans [OF assms(1,5)] assms(2) pb''(1), of old] pb''(1) show ?thesis by simp
qed

section \<open>Witnesses\<close>

definition demo_prefetch :: prefetcher where
  "demo_prefetch =
     \<lparr>pf_batches = [1 \<mapsto> \<lparr>pb_key_sizes = [1], pb_calls = [In_flight [5]], pb_batch_size = 1, pb_completed_count = 0\<rparr>],
      next_prefetch_id = 2\<rparr>"

definition demo_replied :: "pf_call \<Rightarrow> prefetcher" where
  "demo_replied c =
     demo_prefetch\<lparr>pf_batches := [1 \<mapsto> \<lparr>pb_key_sizes = [1], pb_calls = [c], pb_batch_size = 1, pb_completed_count = 1\<rparr>]\<rparr>"

abbreviation "demo_requested \<equiv> (\<lambda>_. []) (1 := [5])"

lemma demo_served: "eh_served 1 {Map.empty} demo_server"
  using demo_serves by (simp add: eh_served_def)

lemma demo_prefetch_step:
  "eh_pf_step 1 {Map.empty} (prefetcher_new, demo_server, \<lambda>_. []) (demo_prefetch, demo_server, demo_requested)"
proof (rule pf_step.Prefetch)
  show "pf_batches prefetcher_new (next_prefetch_id prefetcher_new) = None" by (simp add: prefetcher_new_def)
  then show "PrefetchParameter [5] prefetcher_new = Inr (demo_prefetch, 1)"
    by (simp add: PrefetchParameter_ok demo_batches demo_prefetch_def prefetcher_new_def)
  show "eh_short_rows {Map.empty} [5]" using demo_key by (simp add: eh_short_rows_def row_of_def)
qed

lemma demo_complete:
  obtains sv where "pf_complete eh_kv 1 0 f demo_prefetch demo_server =
    Inr (demo_replied (case f of Answered n \<Rightarrow> Replied (rows_block (rows_of Map.empty [5])) | Failed n \<Rightarrow> Call_failed), sv)"
proof -
  have "one_class_bytes.eh_rows.readable Map.empty [5]"
    using demo_key by (simp add: one_class_bytes.eh_rows.readable_def rows_of_def row_of_def length_rows_block)
  from one_class_bytes.eh_rows.get_rpc [OF demo_serves [folded eh_serves] this, of f] obtain sv where
    "rpc (srv_GetParameter eh_kv (concat (map (le_bytes 8) [5])) []) f demo_server = Inr (sv, answer Map.empty f [5])" by blast
  then have "pf_complete eh_kv 1 0 f demo_prefetch demo_server =
      Inr (demo_replied (case f of Answered n \<Rightarrow> Replied (rows_block (rows_of Map.empty [5])) | Failed n \<Rightarrow> Call_failed), sv)"
    by (cases f) (simp_all add: pf_complete_def demo_prefetch_def demo_replied_def OnPrefetchDone_def answer_def)
  with that show thesis by blast
qed

lemma demo_reach:
  obtains sv where "(eh_pf_step 1 {Map.empty})\<^sup>*\<^sup>* (prefetcher_new, demo_server, \<lambda>_. [])
    (demo_replied (case f of Answered n \<Rightarrow> Replied (rows_block (rows_of Map.empty [5])) | Failed n \<Rightarrow> Call_failed), sv, demo_requested)"
  using demo_complete [of f] pf_step.Complete demo_prefetch_step
  by (metis (no_types, lifting) r_into_rtranclp rtranclp.rtrancl_into_rtrancl)

lemma demo_batch: "pf_batches (demo_replied c) 1 =
    Some \<lparr>pb_key_sizes = [1], pb_calls = [c], pb_batch_size = 1, pb_completed_count = 1\<rparr>"
  by (simp add: demo_replied_def)

theorem IsPrefetchDone_correct_witness: "\<not> IsPrefetchDone 1 demo_prefetch"
  using IsPrefetchDone_correct [OF r_into_rtranclp [where r = "eh_pf_step 1 {Map.empty}", OF demo_prefetch_step] demo_served, of 1]
  by (simp add: demo_prefetch_def call_finished_def)

theorem GetPrefetchResult_correct_witness:
  "GetPrefetchResult 1 [] (demo_replied (Replied (rows_block (rows_of Map.empty [5])))) =
    Inr (pf_erase 1 (demo_replied (Replied (rows_block (rows_of Map.empty [5])))), [[]], True)"
proof -
  let ?c = "Replied (rows_block (rows_of Map.empty [5]))"
  obtain sv where "(eh_pf_step 1 {Map.empty})\<^sup>*\<^sup>* (prefetcher_new, demo_server, \<lambda>_. []) (demo_replied ?c, sv, demo_requested)"
    using demo_reach [of "Answered 0"] by auto
  from GetPrefetchResult_correct [OF this demo_served demo_batch, of "[]"]
  obtain Fs where "set Fs \<subseteq> {Map.empty}" "length Fs = 1"
    "GetPrefetchResult 1 [] (demo_replied ?c) = Inr (pf_erase 1 (demo_replied ?c), snapshots Fs [[5]], True)"
    by (auto simp: all_replied_def demo_batches)
  moreover from this have "Fs = [Map.empty]" by (cases Fs) auto
  ultimately show ?thesis by (simp add: snapshots_def row_of_def)
qed

theorem failed_prefetch_stays_witness:
  "\<exists>rows. GetPrefetchResult 1 [] (demo_replied Call_failed) = Inr (demo_replied Call_failed, rows, False)"
proof -
  obtain sv where r: "(eh_pf_step 1 {Map.empty})\<^sup>*\<^sup>* (prefetcher_new, demo_server, \<lambda>_. []) (demo_replied Call_failed, sv, demo_requested)"
    using demo_reach [of "Failed 0"] by auto
  from failed_prefetch_stays [OF r demo_served demo_batch _ rtranclp.rtrancl_refl, of "[]"] show ?thesis by simp
qed

end
