(* ===== verification/Epoch.thy ===== *)
theory Epoch
  imports MallocApi
begin

text \<open>
  Epoch-based reclamation (\<open>memory/epoch_manager.h\<close>) and the recyclers of \<open>memory/malloc.h\<close>: memory
  that is taken out of an index is freed once no reader can still hold a pointer to it. The
  functions are the operations as one thread runs them; the step relation takes them apart at
  every access to shared memory, for any number of readers, removers and recyclers at once.
\<close>

section \<open>The table of protected epochs\<close>

type_synonym epoch = u64

text \<open>\<open>EpochListEntry\<close>, the entry of an earlier version, with every pending epoch of its thread.\<close>

definition list_EnqueProtect :: "epoch \<Rightarrow> epoch list \<Rightarrow> epoch list" where
  "list_EnqueProtect current_epoch l = l @ [current_epoch]"

definition list_DequeUnProtect :: "epoch list \<Rightarrow> epoch list result" where
  "list_DequeUnProtect l = (case l of [] \<Rightarrow> Inl Bad_access | e # es \<Rightarrow> Inr es)"

definition list_MinEpoch :: "epoch list \<Rightarrow> epoch" where
  "list_MinEpoch l = (case l of [] \<Rightarrow> 0 | e # es \<Rightarrow> fold min es e)"

text \<open>\<open>EpochEntry\<close>, the one in use, with the last epoch only.\<close>

record epoch_entry =
  ee_thread_id :: u64
  ee_epoch :: epoch

definition entry_EnqueProtect :: "epoch \<Rightarrow> epoch_entry \<Rightarrow> epoch_entry" where
  "entry_EnqueProtect current_epoch en = en\<lparr>ee_epoch := current_epoch\<rparr>"

definition entry_DequeUnProtect :: "epoch_entry \<Rightarrow> epoch_entry" where
  "entry_DequeUnProtect en = en\<lparr>ee_epoch := 0\<rparr>"

definition entry_MinEpoch :: "epoch_entry \<Rightarrow> epoch" where "entry_MinEpoch en = ee_epoch en"

definition epoch_table_new :: "nat \<Rightarrow> epoch_entry list" where
  "epoch_table_new max_thread_num = replicate max_thread_num \<lparr>ee_thread_id = 0, ee_epoch = 0\<rparr>"

text \<open>One turn of the loop of \<open>ComputeNewSafeToReclaimEpoch\<close>.\<close>

definition older :: "epoch_entry \<Rightarrow> epoch \<Rightarrow> epoch" where
  "older en oldest_call = (if entry_MinEpoch en \<noteq> 0 \<and> entry_MinEpoch en < oldest_call then entry_MinEpoch en else oldest_call)"

definition table_ComputeNewSafeToReclaimEpoch :: "epoch \<Rightarrow> epoch_entry list \<Rightarrow> epoch" where
  "table_ComputeNewSafeToReclaimEpoch current_epoch tbl = fold older tbl current_epoch - 1"

text \<open>
  A thread's first entry: the first free one from its hash on. When there is none the code tries for
  two seconds and ends the process; no entry is ever given back.
\<close>

definition ReserveEntry :: "nat \<Rightarrow> u64 \<Rightarrow> epoch_entry list \<Rightarrow> (epoch_entry list \<times> nat) result" where
  "ReserveEntry start_index thread_id tbl =
     (case filter (\<lambda>i. ee_thread_id (tbl ! i) = 0) (map (\<lambda>i. (start_index + i) mod length tbl) [0..<length tbl]) of
        [] \<Rightarrow> Inl Log_fatal
      | i # _ \<Rightarrow> Inr (tbl[i := (tbl ! i)\<lparr>ee_thread_id := thread_id\<rparr>], i))"

section \<open>The manager\<close>

text \<open>\<open>em_entry\<close> is the \<open>thread_local\<close> pointer of each thread.\<close>

record epoch_manager =
  em_current :: epoch
  em_safe :: epoch
  em_table :: "epoch_entry list"
  em_entry :: "u64 \<Rightarrow> nat option"

definition epoch_manager_new :: "nat \<Rightarrow> epoch_manager" where
  "epoch_manager_new max_thread_num =
     \<lparr>em_current = 1, em_safe = 0, em_table = epoch_table_new max_thread_num, em_entry = Map.empty\<rparr>"

definition GetEntryForThread :: "(u64 \<Rightarrow> u64) \<Rightarrow> u64 \<Rightarrow> epoch_manager \<Rightarrow> (epoch_manager \<times> nat) result" where
  "GetEntryForThread h thread_id em =
     (case em_entry em thread_id of
        Some i \<Rightarrow> Inr (em, i)
      | None \<Rightarrow>
          bind_result (ReserveEntry (unat (h thread_id mod of_nat (length (em_table em)))) thread_id (em_table em)) (\<lambda>(tbl, i).
            Inr (em\<lparr>em_table := tbl, em_entry := (em_entry em)(thread_id \<mapsto> i)\<rparr>, i)))"

definition Protect :: "(u64 \<Rightarrow> u64) \<Rightarrow> u64 \<Rightarrow> epoch_manager \<Rightarrow> epoch_manager result" where
  "Protect h thread_id em =
     bind_result (GetEntryForThread h thread_id em) (\<lambda>(em', i).
       Inr (em'\<lparr>em_table := (em_table em')[i := entry_EnqueProtect (em_current em) (em_table em' ! i)]\<rparr>))"

definition UnProtect :: "(u64 \<Rightarrow> u64) \<Rightarrow> u64 \<Rightarrow> epoch_manager \<Rightarrow> epoch_manager result" where
  "UnProtect h thread_id em =
     bind_result (GetEntryForThread h thread_id em) (\<lambda>(em', i).
       Inr (em'\<lparr>em_table := (em_table em')[i := entry_DequeUnProtect (em_table em' ! i)]\<rparr>))"

definition GetCurrentEpoch :: "epoch_manager \<Rightarrow> epoch" where "GetCurrentEpoch em = em_current em"

definition ComputeNewSafeToReclaimEpoch :: "epoch \<Rightarrow> epoch_manager \<Rightarrow> epoch_manager" where
  "ComputeNewSafeToReclaimEpoch currentEpoch em =
     em\<lparr>em_safe := table_ComputeNewSafeToReclaimEpoch currentEpoch (em_table em)\<rparr>"

text \<open>\<open>fetch_add\<close> gives the epoch before the addition.\<close>

definition BumpCurrentEpoch :: "epoch_manager \<Rightarrow> epoch_manager" where
  "BumpCurrentEpoch em =
     (let newEpoch = em_current em in ComputeNewSafeToReclaimEpoch newEpoch (em\<lparr>em_current := newEpoch + 1\<rparr>))"

definition IsSafeToReclaim :: "epoch \<Rightarrow> epoch_manager \<Rightarrow> bool" where "IsSafeToReclaim e em \<longleftrightarrow> e \<le> em_safe em"

section \<open>Recyclers\<close>

text \<open>The loop over the front of the queue; \<open>free\<close> returns whether it succeeded.\<close>

fun drain ::
  "(int \<Rightarrow> 'm \<Rightarrow> 'm \<times> bool) \<Rightarrow> ('t \<Rightarrow> bool) \<Rightarrow> ('t \<times> int) list \<Rightarrow> 'm \<Rightarrow> (('t \<times> int) list \<times> 'm) result" where
  "drain free ready [] m = Inr ([], m)"
| "drain free ready ((t, p) # q) m =
     (if ready t
      then (let (m', ok) = free p m in if ok then drain free ready q m' else Inl Check_failed)
      else Inr ((t, p) # q, m))"

abbreviation malloc_free :: "'m malloc_vt \<Rightarrow> int \<Rightarrow> 'm \<Rightarrow> 'm \<times> bool" where
  "malloc_free V p m \<equiv> vt_Free V (Some p) m"

definition direct_Recycle :: "'m malloc_vt \<Rightarrow> int option \<Rightarrow> 'm \<Rightarrow> 'm" where
  "direct_Recycle V ptr m = fst (vt_Free V ptr m)"

text \<open>\<open>DelayedRecycle\<close> and \<open>StdDelayedRecycle\<close>, which deletes instead; \<open>now\<close> and \<open>later\<close> are the two readings of the clock.\<close>

definition delayed_Recycle ::
  "(int \<Rightarrow> 'm \<Rightarrow> 'm \<times> bool) \<Rightarrow> int \<Rightarrow> int \<Rightarrow> int \<Rightarrow> int option \<Rightarrow> (int \<times> int) list \<Rightarrow> 'm \<Rightarrow> ((int \<times> int) list \<times> 'm) result" where
  "delayed_Recycle free delay_ts now later ptr q m =
     drain free (\<lambda>t. t < later - delay_ts) (case ptr of None \<Rightarrow> q | Some p \<Rightarrow> q @ [(now, p)]) m"

definition recycle_Clear :: "(int \<Rightarrow> 'm \<Rightarrow> 'm \<times> bool) \<Rightarrow> ('t \<times> int) list \<Rightarrow> 'm \<Rightarrow> (('t \<times> int) list \<times> 'm) result" where
  "recycle_Clear free q m = drain free (\<lambda>_. True) q m"

record epoch_recycler =
  er_queue :: "(epoch \<times> int) list"
  er_count :: int

definition epoch_Recycle ::
  "'m malloc_vt \<Rightarrow> int option \<Rightarrow> epoch_recycler \<Rightarrow> epoch_manager \<Rightarrow> 'm \<Rightarrow> (epoch_recycler \<times> epoch_manager \<times> 'm) result" where
  "epoch_Recycle V ptr rc em m =
     (let count = er_count rc + 1;
          removal_epoch = GetCurrentEpoch em;
          q = (case ptr of None \<Rightarrow> er_queue rc | Some p \<Rightarrow> er_queue rc @ [(removal_epoch, p)]);
          em' = (if count mod 1000 = 0 then BumpCurrentEpoch em else em) in
      bind_result (drain (malloc_free V) (\<lambda>e. IsSafeToReclaim e em') q m) (\<lambda>(q', m').
        Inr (rc\<lparr>er_queue := q', er_count := count\<rparr>, em', m')))"

section \<open>Interleavings\<close>

text \<open>
  A world of readers (numbered by their entries), items \<open>'x\<close> and recyclers: which epoch a reader has loaded and
  not yet stored, what it holds; the items in the index, taken out, queued, freed; and the scans of the
  table that are under way, with the next entry and the oldest epoch so far.
\<close>

record 'x world =
  w_current :: epoch
  w_safe :: epoch
  w_table :: "epoch_entry list"
  w_load :: "nat \<Rightarrow> epoch option"
  w_held :: "nat \<Rightarrow> 'x set"
  w_live :: "'x set"
  w_removed :: "'x set"
  w_queue :: "nat \<Rightarrow> (epoch \<times> 'x) list"
  w_scan :: "nat \<Rightarrow> (nat \<times> epoch) option"
  w_freed :: "'x set"

definition world_new :: "nat \<Rightarrow> 'x set \<Rightarrow> 'x world" where
  "world_new n X =
     \<lparr>w_current = 1, w_safe = 0, w_table = epoch_table_new n, w_load = (\<lambda>_. None), w_held = (\<lambda>_. {}), w_live = X,
      w_removed = {}, w_queue = (\<lambda>_. []), w_scan = (\<lambda>_. None), w_freed = {}\<rparr>"

abbreviation w_epoch :: "'x world \<Rightarrow> nat \<Rightarrow> epoch" where "w_epoch w t \<equiv> ee_epoch (w_table w ! t)"

text \<open>
  \<open>nested\<close> allows a reader to protect again before it has left. An item's removal from the
  index comes before its recycling, whose read of the current epoch and private push are one step.
  That the epoch counter comes round after \<open>2 ^ 64\<close> bumps is left out. Every access takes its place in one
  order; in the code the loads of \<open>Protect\<close> and \<open>IsSafeToReclaim\<close> are relaxed.
\<close>

inductive epoch_step :: "bool \<Rightarrow> 'x world \<Rightarrow> 'x world \<Rightarrow> bool" for nested where
  Protect_load: "t < length (w_table w) \<Longrightarrow> w_load w t = None \<Longrightarrow> nested \<or> w_epoch w t = 0 \<Longrightarrow>
    epoch_step nested w (w\<lparr>w_load := (w_load w)(t \<mapsto> w_current w)\<rparr>)"
| Protect_store: "w_load w t = Some e \<Longrightarrow>
    epoch_step nested w (w\<lparr>w_table := (w_table w)[t := entry_EnqueProtect e (w_table w ! t)], w_load := (w_load w)(t := None)\<rparr>)"
| Read: "t < length (w_table w) \<Longrightarrow> w_epoch w t \<noteq> 0 \<Longrightarrow> x \<in> w_live w \<Longrightarrow>
    epoch_step nested w (w\<lparr>w_held := (w_held w)(t := insert x (w_held w t))\<rparr>)"
| Leave: "t < length (w_table w) \<Longrightarrow> w_load w t = None \<Longrightarrow>
    epoch_step nested w (w\<lparr>w_table := (w_table w)[t := entry_DequeUnProtect (w_table w ! t)], w_held := (w_held w)(t := {})\<rparr>)"
| Remove: "x \<in> w_live w \<Longrightarrow>
    epoch_step nested w (w\<lparr>w_live := w_live w - {x}, w_removed := insert x (w_removed w)\<rparr>)"
| Recycle: "x \<in> w_removed w \<Longrightarrow>
    epoch_step nested w (w\<lparr>w_removed := w_removed w - {x}, w_queue := (w_queue w)(r := w_queue w r @ [(w_current w, x)])\<rparr>)"
| Bump: "w_scan w r = None \<Longrightarrow> w_current w + 1 \<noteq> 0 \<Longrightarrow>
    epoch_step nested w (w\<lparr>w_current := w_current w + 1, w_scan := (w_scan w)(r \<mapsto> (0, w_current w))\<rparr>)"
| Scan: "w_scan w r = Some (i, oldest_call) \<Longrightarrow> i < length (w_table w) \<Longrightarrow>
    epoch_step nested w (w\<lparr>w_scan := (w_scan w)(r \<mapsto> (Suc i, older (w_table w ! i) oldest_call))\<rparr>)"
| Publish: "w_scan w r = Some (length (w_table w), oldest_call) \<Longrightarrow>
    epoch_step nested w (w\<lparr>w_safe := oldest_call - 1, w_scan := (w_scan w)(r := None)\<rparr>)"
| Free: "w_queue w r = (e, x) # q \<Longrightarrow> e \<le> w_safe w \<Longrightarrow>
    epoch_step nested w (w\<lparr>w_queue := (w_queue w)(r := q), w_freed := insert x (w_freed w)\<rparr>)"

end
