(* ===== verification/EpochSafe.thy ===== *)
theory EpochSafe
  imports Epoch
begin

text \<open>
  Why reclamation is safe: an invariant of every interleaving in which readers protect at most once at
  a time, the run in which one does not, and the operations as runs of their steps.
\<close>

section \<open>The invariant\<close>

text \<open>An item that is held and queued: no reader holds it since later than its removal, and no scan will say so.\<close>

definition guarded :: "'x world \<Rightarrow> nat \<Rightarrow> epoch \<Rightarrow> bool" where
  "guarded w t e \<longleftrightarrow> w_epoch w t \<le> e \<and> w_safe w < e \<and> (\<forall>r i old. w_scan w r = Some (i, old) \<longrightarrow> old \<le> e \<or> i \<le> t)"

definition epochs_ok :: "'x world \<Rightarrow> bool" where
  "epochs_ok w \<longleftrightarrow> w_safe w < w_current w \<and>
     (\<forall>t < length (w_table w). w_epoch w t \<le> w_current w) \<and>
     (\<forall>t e. w_load w t = Some e \<longrightarrow> t < length (w_table w) \<and> w_epoch w t = 0 \<and> 0 < e \<and> e \<le> w_current w) \<and>
     (\<forall>r i old. w_scan w r = Some (i, old) \<longrightarrow> 0 < old \<and> old < w_current w \<and> i \<le> length (w_table w))"

definition items_ok :: "'x world \<Rightarrow> bool" where
  "items_ok w \<longleftrightarrow> w_live w \<inter> w_removed w = {} \<and> w_live w \<inter> w_freed w = {} \<and>
     (\<forall>r e x. (e, x) \<in> set (w_queue w r) \<longrightarrow> x \<notin> w_live w)"

definition readers_ok :: "'x world \<Rightarrow> bool" where
  "readers_ok w \<longleftrightarrow>
     (\<forall>t x. x \<in> w_held w t \<longrightarrow> t < length (w_table w) \<and> w_epoch w t \<noteq> 0 \<and> x \<notin> w_freed w \<and>
       (\<forall>r e. (e, x) \<in> set (w_queue w r) \<longrightarrow> guarded w t e))"

definition world_ok :: "'x world \<Rightarrow> bool" where "world_ok w \<longleftrightarrow> epochs_ok w \<and> items_ok w \<and> readers_ok w"

lemma older_le: "older en old \<le> old"
  by (auto simp: older_def)

lemma older_le_epoch: "ee_epoch en \<noteq> 0 \<Longrightarrow> older en old \<le> ee_epoch en"
  by (auto simp: older_def entry_MinEpoch_def)

lemma older_pos: "0 < old \<Longrightarrow> 0 < older en old"
  by (auto simp: older_def entry_MinEpoch_def word_neq_0_conv)

lemma less_succ: "(c :: epoch) + 1 \<noteq> 0 \<Longrightarrow> c < c + 1"
  by uint_arith

lemma pred_less: "0 < (old :: epoch) \<Longrightarrow> old - 1 < old"
  by uint_arith

lemma scan_new_ok:
  assumes "\<forall>r i old. w_scan w r = Some (i, old) \<longrightarrow> P i old" and "P i' old'"
  shows "\<forall>r i old. ((w_scan w)(q \<mapsto> (i', old'))) r = Some (i, old) \<longrightarrow> P i old"
  using assms by auto

lemma epoch_step_epochs:
  assumes "epoch_step False w w'" and "epochs_ok w"
  shows "epochs_ok w'"
  using assms
proof (induction rule: epoch_step.induct)
  case (Protect_load t w)
  then show ?case by (auto simp: epochs_ok_def word_neq_0_conv intro: le_less_trans [OF word_zero_le])
next
  case (Protect_store w t e)
  then show ?case by (auto simp: epochs_ok_def nth_list_update entry_EnqueProtect_def)
next
  case (Leave t w)
  then show ?case by (auto simp: epochs_ok_def nth_list_update entry_DequeUnProtect_def)
next
  case (Bump w r)
  note lt = less_succ [OF Bump.hyps(2)]
  have "0 < w_current w" using Bump.prems by (auto simp: epochs_ok_def intro: le_less_trans [OF word_zero_le])
  moreover have "e \<le> w_current w + 1" if "e \<le> w_current w" for e using that lt by order
  moreover have "e < w_current w + 1" if "e < w_current w" for e using that lt by order
  ultimately show ?case using Bump lt by (auto simp: epochs_ok_def)
next
  case (Scan w r i old)
  have "older (w_table w ! i) old < w_current w"
    using Scan older_le [of "w_table w ! i" old] by (auto simp: epochs_ok_def intro: le_less_trans)
  with Scan older_pos show ?case by (auto simp: epochs_ok_def)
next
  case (Publish w r old)
  then have "0 < old" "old < w_current w" by (auto simp: epochs_ok_def)
  then have "old - 1 < w_current w" using pred_less less_trans by blast
  with Publish show ?case by (auto simp: epochs_ok_def)
qed (auto simp: epochs_ok_def)

lemma epoch_step_items:
  assumes "epoch_step nested w w'" and "items_ok w"
  shows "items_ok w'"
  using assms
proof (induction rule: epoch_step.induct)
  case (Free w r e x q)
  have "(e, x) \<in> set (w_queue w r)" "set q \<subseteq> set (w_queue w r)" using Free.hyps(1) by auto
  moreover from this have "x \<notin> w_live w" using Free.prems unfolding items_ok_def by blast
  ultimately show ?case using Free.prems by (auto simp: items_ok_def)
next
  case (Recycle x w r)
  then show ?case by (auto simp: items_ok_def)
qed (auto simp: items_ok_def split: if_splits)

lemma guardedD: "guarded w t e \<Longrightarrow> w_scan w r = Some (i, old) \<Longrightarrow> old \<le> e \<or> i \<le> t"
  by (simp add: guarded_def)

lemma epoch_step_readers:
  assumes "epoch_step False w w'" and "epochs_ok w" and "items_ok w" and "readers_ok w"
  shows "readers_ok w'"
  using assms
proof (induction rule: epoch_step.induct)
  case (Protect_load t w)
  then show ?case by (simp add: readers_ok_def guarded_def)
next
  case (Protect_store w t e)
  have t: "t < length (w_table w)" "w_epoch w t = 0" using Protect_store by (simp_all add: epochs_ok_def)
  then have "w_held w t = {}" using Protect_store.prems(3) unfolding readers_ok_def by blast
  note t this
  with Protect_store.prems(3) show ?case by (fastforce simp: readers_ok_def guarded_def nth_list_update)
next
  case (Read t w x)
  have "x \<notin> w_freed w" "(e, x) \<notin> set (w_queue w r)" for r e
    using Read by (auto simp: items_ok_def)
  with Read show ?case by (auto simp: readers_ok_def guarded_def)
next
  case (Leave t w)
  then show ?case by (fastforce simp: readers_ok_def guarded_def nth_list_update split: if_splits)
next
  case (Remove x w)
  then show ?case by (simp add: readers_ok_def guarded_def)
next
  case (Recycle x w q)
  have new: "guarded w t (w_current w)" if "t < length (w_table w)" for t
    using Recycle.prems(1) that by (auto simp: guarded_def epochs_ok_def less_imp_le)
  have same: "guarded (w\<lparr>w_removed := R, w_queue := Q\<rparr>) t e = guarded w t e" for R Q t e by (simp add: guarded_def)
  from new Recycle.prems(3) show ?case by (auto simp: readers_ok_def same)
next
  case (Bump w r)
  then show ?case by (auto simp: readers_ok_def guarded_def)
next
  case (Scan w r i old)
  have "guarded (w\<lparr>w_scan := (w_scan w)(r \<mapsto> (Suc i, older (w_table w ! i) old))\<rparr>) t e"
    if g: "guarded w t e" and t: "w_epoch w t \<noteq> 0" for t e
  proof -
    have "older (w_table w ! i) old \<le> e \<or> Suc i \<le> t"
    proof (cases "i = t")
      case True
      then have "older (w_table w ! i) old \<le> w_epoch w t" using older_le_epoch t by simp
      with g show ?thesis by (auto simp: guarded_def)
    next
      case False
      with guardedD [OF g Scan.hyps(1)] older_le [of "w_table w ! i" old] show ?thesis by force
    qed
    with g show ?thesis by (auto simp: guarded_def)
  qed
  with Scan.prems(3) show ?case by (simp add: readers_ok_def)
next
  case (Publish w r old)
  have pos: "0 < old" using Publish by (auto simp: epochs_ok_def)
  have "guarded (w\<lparr>w_safe := old - 1, w_scan := (w_scan w)(r := None)\<rparr>) t e"
    if g: "guarded w t e" and t: "t < length (w_table w)" for t e
  proof -
    have "old \<le> e" using guardedD [OF g Publish.hyps] t by simp
    then have "old - 1 < e" using pred_less [OF pos] by order
    with g show ?thesis by (auto simp: guarded_def)
  qed
  with Publish.prems(3) show ?case by (simp add: readers_ok_def)
next
  case (Free w r e x q)
  have "x \<notin> w_held w t" for t
  proof
    assume "x \<in> w_held w t"
    moreover have "(e, x) \<in> set (w_queue w r)" using Free.hyps(1) by simp
    ultimately have "guarded w t e" using Free.prems(3) unfolding readers_ok_def by blast
    with Free.hyps(2) show False by (auto simp: guarded_def)
  qed
  moreover have "set q \<subseteq> set (w_queue w r)" using Free.hyps(1) by auto
  moreover have "guarded (w\<lparr>w_queue := Q, w_freed := Y\<rparr>) t e = guarded w t e" for Q Y t e by (simp add: guarded_def)
  ultimately show ?case using Free.prems(3) by (auto simp: readers_ok_def)
qed

lemma world_new_ok: "world_ok (world_new n X)"
  by (auto simp: world_ok_def epochs_ok_def items_ok_def readers_ok_def world_new_def epoch_table_new_def)

lemma epoch_reach_ok:
  assumes "(epoch_step False)\<^sup>*\<^sup>* (world_new n X) w"
  shows "world_ok w"
  using assms
proof (induction rule: rtranclp_induct)
  case (step w w')
  then show ?case using epoch_step_epochs epoch_step_items epoch_step_readers unfolding world_ok_def by blast
qed (rule world_new_ok)

section \<open>Operations as runs\<close>

lemma fold_older_steps:
  "w_scan w r = Some (i, old) \<Longrightarrow> i + length es = length (w_table w) \<Longrightarrow> drop i (w_table w) = es \<Longrightarrow>
    (epoch_step nested)\<^sup>*\<^sup>* w (w\<lparr>w_scan := (w_scan w)(r \<mapsto> (length (w_table w), fold older es old))\<rparr>)"
proof (induction es arbitrary: w i old)
  case Nil
  then have "w\<lparr>w_scan := (w_scan w)(r \<mapsto> (length (w_table w), fold older [] old))\<rparr> = w" by (simp add: fun_upd_idem)
  then show ?case by (simp only: rtranclp.rtrancl_refl)
next
  case (Cons en es)
  let ?w = "w\<lparr>w_scan := (w_scan w)(r \<mapsto> (Suc i, older (w_table w ! i) old))\<rparr>"
  have i: "i < length (w_table w)" using Cons.prems(2) by simp
  then have "w_table w ! i # drop (Suc i) (w_table w) = en # es" using Cons.prems(3) by (simp add: Cons_nth_drop_Suc)
  then have en: "w_table w ! i = en" "drop (Suc i) (w_table w) = es" by auto
  have "(epoch_step nested)\<^sup>*\<^sup>* ?w (?w\<lparr>w_scan := (w_scan ?w)(r \<mapsto> (length (w_table ?w), fold older es (older (w_table w ! i) old)))\<rparr>)"
    using Cons.prems(2) en(2) by (intro Cons.IH) simp_all
  moreover have "epoch_step nested w ?w" using Cons.prems(1) i by (rule epoch_step.Scan)
  ultimately show ?case using en(1) by (auto intro: converse_rtranclp_into_rtranclp simp del: fun_upd_apply)
qed

definition manages :: "epoch_manager \<Rightarrow> 'x world \<Rightarrow> bool" where
  "manages em w \<longleftrightarrow> em_current em = w_current w \<and> em_safe em = w_safe w \<and> em_table em = w_table w"

text \<open>\<open>BumpCurrentEpoch\<close>, run without interruption, is the addition, a scan of all entries and the store.\<close>

lemma BumpCurrentEpoch_steps:
  assumes "manages em w" and "w_scan w r = None" and "w_current w + 1 \<noteq> 0"
  obtains w' where "(epoch_step nested)\<^sup>*\<^sup>* w w'" "manages (BumpCurrentEpoch em) w'"
    "w_queue w' = w_queue w" "w_freed w' = w_freed w" "w_scan w' = w_scan w" "w_held w' = w_held w"
proof -
  let ?old = "fold older (w_table w) (w_current w)"
  let ?w1 = "w\<lparr>w_current := w_current w + 1, w_scan := (w_scan w)(r \<mapsto> (0, w_current w))\<rparr>"
  let ?w2 = "?w1\<lparr>w_scan := (w_scan ?w1)(r \<mapsto> (length (w_table ?w1), ?old))\<rparr>"
  let ?w3 = "?w2\<lparr>w_safe := ?old - 1, w_scan := (w_scan ?w2)(r := None)\<rparr>"
  have "epoch_step nested w ?w1" using assms(2,3) by (rule epoch_step.Bump)
  moreover have "(epoch_step nested)\<^sup>*\<^sup>* ?w1 ?w2"
    using fold_older_steps [of ?w1 r 0 "w_current w" "w_table w" nested] by simp
  moreover have "epoch_step nested ?w2 ?w3" by (rule epoch_step.Publish) simp
  ultimately have "(epoch_step nested)\<^sup>*\<^sup>* w ?w3"
    by (meson converse_rtranclp_into_rtranclp rtranclp.rtrancl_into_rtrancl)
  moreover have "manages (BumpCurrentEpoch em) ?w3"
    using assms(1) by (simp add: manages_def BumpCurrentEpoch_def ComputeNewSafeToReclaimEpoch_def
        table_ComputeNewSafeToReclaimEpoch_def Let_def)
  moreover have "w_scan ?w3 = w_scan w" using assms(2) by auto
  ultimately show thesis by (intro that [of ?w3]) simp_all
qed

lemma drain_prefix:
  assumes "drain free ready q m = Inr (q', m')"
  obtains fs where "q = fs @ q'" "\<forall>(e, p) \<in> set fs. ready e" "q' \<noteq> [] \<longrightarrow> \<not> ready (fst (hd q'))"
proof -
  have "\<exists>fs. q = fs @ q' \<and> (\<forall>(e, p) \<in> set fs. ready e) \<and> (q' \<noteq> [] \<longrightarrow> \<not> ready (fst (hd q')))"
    using assms
  proof (induction free ready q m rule: drain.induct)
    case (2 free ready e p q m)
    show ?case
    proof (cases "ready e")
      case True
      then obtain m1 where m1: "free p m = (m1, True)" "drain free ready q m1 = Inr (q', m')"
        using "2.prems" by (auto split: prod.splits if_splits)
      then have "\<exists>fs. q = fs @ q' \<and> (\<forall>(e, p) \<in> set fs. ready e) \<and> (q' \<noteq> [] \<longrightarrow> \<not> ready (fst (hd q')))"
        using "2.IH" [OF True] by auto
      then obtain fs where "q = fs @ q'" "\<forall>(e, p) \<in> set fs. ready e" "q' \<noteq> [] \<longrightarrow> \<not> ready (fst (hd q'))" by blast
      with True show ?thesis by (intro exI [of _ "(e, p) # fs"]) auto
    qed (use "2.prems" in auto)
  qed simp
  with that show thesis by blast
qed

lemma Free_steps:
  "w_queue w r = fs @ q \<Longrightarrow> \<forall>(e, x) \<in> set fs. e \<le> w_safe w \<Longrightarrow>
    (epoch_step nested)\<^sup>*\<^sup>* w (w\<lparr>w_queue := (w_queue w)(r := q), w_freed := w_freed w \<union> snd ` set fs\<rparr>)"
proof (induction fs arbitrary: w)
  case Nil
  then have "w\<lparr>w_queue := (w_queue w)(r := q)\<rparr> = w" by (simp add: fun_upd_idem)
  then show ?case by (simp del: fun_upd_apply)
next
  case (Cons f fs)
  obtain e x where f: "f = (e, x)" by fastforce
  let ?w = "w\<lparr>w_queue := (w_queue w)(r := fs @ q), w_freed := insert x (w_freed w)\<rparr>"
  have "epoch_step nested w ?w" using Cons.prems f by (intro epoch_step.Free) auto
  moreover have "(epoch_step nested)\<^sup>*\<^sup>* ?w (?w\<lparr>w_queue := (w_queue ?w)(r := q), w_freed := w_freed ?w \<union> snd ` set fs\<rparr>)"
    using Cons.prems by (intro Cons.IH) auto
  ultimately show ?case using f by (auto intro: converse_rtranclp_into_rtranclp simp del: fun_upd_apply)
qed

text \<open>A call of \<open>ShmEpochRecycle::Recycle\<close> is a run of these steps, and what it frees is what they free.\<close>

text \<open>The scan finds the least epoch in the table, entries of 0 left out.\<close>

lemma fold_older_Min: "fold older es c = Min (insert c {ee_epoch en |en. en \<in> set es \<and> ee_epoch en \<noteq> 0})"
proof (induction es arbitrary: c)
  case (Cons en es)
  let ?E = "{ee_epoch en' |en'. en' \<in> set es \<and> ee_epoch en' \<noteq> 0}"
  have f: "finite ?E" by (rule finite_subset [of _ "ee_epoch ` set es"]) auto
  have e: "{ee_epoch en' |en'. en' \<in> set (en # es) \<and> ee_epoch en' \<noteq> 0} = (if ee_epoch en = 0 then ?E else insert (ee_epoch en) ?E)"
    by auto
  have o: "older en c = (if ee_epoch en = 0 then c else min c (ee_epoch en))"
    by (auto simp: older_def entry_MinEpoch_def min_def)
  show ?case
  proof (cases "ee_epoch en = 0")
    case True
    then show ?thesis unfolding e using Cons [of c] by (simp add: o)
  next
    case False
    have "Min (insert c (insert (ee_epoch en) E)) = Min (insert (min c (ee_epoch en)) E)" if "finite E" for E
      using that by (cases "E = {}") (simp_all add: min.assoc)
    from this [OF f] show ?thesis unfolding e using Cons [of "min c (ee_epoch en)"] False by (simp add: o)
  qed
qed simp

lemma BumpCurrentEpoch_fields:
  "em_current (BumpCurrentEpoch em) = em_current em + 1"
  "em_safe (BumpCurrentEpoch em) = Min (insert (em_current em) {ee_epoch en |en. en \<in> set (em_table em) \<and> ee_epoch en \<noteq> 0}) - 1"
  "em_table (BumpCurrentEpoch em) = em_table em"
  by (simp_all add: BumpCurrentEpoch_def Let_def ComputeNewSafeToReclaimEpoch_def table_ComputeNewSafeToReclaimEpoch_def fold_older_Min)

lemma epoch_Recycle_steps:
  assumes run: "epoch_Recycle V (Some x) rc em m = Inr (rc', em', m')"
    and w: "manages em w" "w_queue w r = er_queue rc" "x \<in> w_removed w" "w_scan w r = None" "w_current w + 1 \<noteq> 0"
  obtains w' fs where "(epoch_step nested)\<^sup>*\<^sup>* w w'" "manages em' w'" "w_queue w' r = er_queue rc'"
    "w_freed w' = w_freed w \<union> snd ` set fs" "er_queue rc @ [(em_current em, x)] = fs @ er_queue rc'" "w_held w' = w_held w"
    "er_count rc' = er_count rc + 1" "em' = (if er_count rc' mod 1000 = 0 then BumpCurrentEpoch em else em)"
    "\<forall>(e, p) \<in> set fs. IsSafeToReclaim e em'" "er_queue rc' \<noteq> [] \<longrightarrow> \<not> IsSafeToReclaim (fst (hd (er_queue rc'))) em'"
proof -
  let ?em = "if (er_count rc + 1) mod 1000 = 0 then BumpCurrentEpoch em else em"
  let ?q = "er_queue rc @ [(em_current em, x)]"
  let ?w1 = "w\<lparr>w_removed := w_removed w - {x}, w_queue := (w_queue w)(r := w_queue w r @ [(w_current w, x)])\<rparr>"
  have w1: "epoch_step nested w ?w1" using w(3) by (rule epoch_step.Recycle)
  have q1: "w_queue ?w1 r = ?q" using w(1,2) by (simp add: manages_def)
  have em': "em' = ?em" and count: "er_count rc' = er_count rc + 1" and d: "drain (malloc_free V) (\<lambda>e. IsSafeToReclaim e ?em) ?q m = Inr (er_queue rc', m')"
    using run by (auto simp: epoch_Recycle_def Let_def GetCurrentEpoch_def bind_result_Inr_iff)
  obtain w2 where w2: "(epoch_step nested)\<^sup>*\<^sup>* ?w1 w2" "manages ?em w2" "w_queue w2 = w_queue ?w1" "w_freed w2 = w_freed ?w1"
    "w_held w2 = w_held ?w1"
  proof (cases "(er_count rc + 1) mod 1000 = 0")
    case True
    have m1: "manages em ?w1" "w_scan ?w1 r = None" "w_current ?w1 + 1 \<noteq> 0" using w by (simp_all add: manages_def)
    then obtain w' where "(epoch_step nested)\<^sup>*\<^sup>* ?w1 w'" "manages (BumpCurrentEpoch em) w'" "w_queue w' = w_queue ?w1"
      "w_freed w' = w_freed ?w1" "w_scan w' = w_scan ?w1" "w_held w' = w_held ?w1"
      by (rule BumpCurrentEpoch_steps)
    with True show ?thesis by (intro that [of w']) simp_all
  next
    case False
    then show ?thesis using w(1) by (intro that [of ?w1]) (auto simp: manages_def)
  qed
  from d obtain fs where fs: "?q = fs @ er_queue rc'" "\<forall>(e, p) \<in> set fs. IsSafeToReclaim e ?em"
    "er_queue rc' \<noteq> [] \<longrightarrow> \<not> IsSafeToReclaim (fst (hd (er_queue rc'))) ?em"
    by (rule drain_prefix)
  let ?w3 = "w2\<lparr>w_queue := (w_queue w2)(r := er_queue rc'), w_freed := w_freed w2 \<union> snd ` set fs\<rparr>"
  have "(epoch_step nested)\<^sup>*\<^sup>* w2 ?w3"
    using w2(2,3) q1 fs(1,2) by (intro Free_steps) (auto simp: IsSafeToReclaim_def manages_def)
  with w1 w2(1) have "(epoch_step nested)\<^sup>*\<^sup>* w ?w3" by (meson converse_rtranclp_into_rtranclp rtranclp_trans)
  moreover have "manages em' ?w3" using w2(2) unfolding em' by (simp add: manages_def)
  moreover note fs(2,3) [folded em']
  ultimately show thesis using w2 fs(1) em' count by (intro that [of ?w3 fs]) simp_all
qed

end
