(* ===== verification/EpochProps.thy ===== *)
theory EpochProps
  imports EpochSafe EngineRuns
begin

text \<open>
  What epoch-based reclamation promises its readers, with the allocator below it, where the promise ends,
  and witnesses.
\<close>

section \<open>Reclamation\<close>

lemma held_not_freed:
  assumes "(epoch_step False)\<^sup>*\<^sup>* (world_new n X) w" and "x \<in> w_held w t"
  shows "x \<notin> w_freed w"
  using epoch_reach_ok [OF assms(1)] assms(2) by (auto simp: world_ok_def readers_ok_def)

text \<open>
  C18: However readers, removers and recyclers interleave, step by step between any two accesses to the
  shared epoch counters and the table: an item that a reader holds, having protected itself before
  it read the item from the index, is not freed until that reader leaves. Readers protect themselves at most
  once at a time here, and memory is sequentially consistent.
\<close>

theorem epoch_reclamation_safe:
  assumes "(epoch_step False)\<^sup>*\<^sup>* (world_new n X) w" and "x \<in> w_held w t"
  shows "x \<notin> w_freed w"
  using assms by (rule held_not_freed)

context malloc_client
begin

lemma drain_frees:
  assumes "minv m A" and "distinct (map snd q)" and "\<forall>p \<in> snd ` set q. A p \<noteq> None"
  shows "\<exists>fs q' m'. drain (malloc_free V) ready q m = Inr (q', m') \<and> q = fs @ q' \<and> minv m' (A |` (- snd ` set fs)) \<and>
    (\<forall>p b. p \<notin> snd ` set fs \<and> A p = Some b \<longrightarrow> vt_bytes V m' p (nat b) = vt_bytes V m p (nat b))"
  using assms
proof (induction q arbitrary: m A)
  case Nil
  then show ?case by (intro exI [of _ "[]"]) simp
next
  case (Cons f q)
  obtain e p where f: "f = (e, p)" by fastforce
  show ?case
  proof (cases "ready e")
    case False
    with f Cons.prems show ?thesis by (intro exI [of _ "[]"] exI [of _ "f # q"] exI [of _ m]) simp
  next
    case True
    obtain b where "A p = Some b" using Cons.prems(3) f by auto
    from Free [OF Cons.prems(1) this] obtain m1 where m1: "vt_Free V (Some p) m = (m1, True)" "minv m1 (A(p := None))"
      "\<forall>q k. q \<noteq> p \<and> A q = Some k \<longrightarrow> vt_bytes V m1 q (nat k) = vt_bytes V m q (nat k)" by blast
    have "\<forall>p' \<in> snd ` set q. (A(p := None)) p' \<noteq> None" using Cons.prems(2,3) f by auto
    moreover have "distinct (map snd q)" using Cons.prems(2) by simp
    ultimately obtain fs q' m' where
      IH: "drain (malloc_free V) ready q m1 = Inr (q', m')" "q = fs @ q'" "minv m' ((A(p := None)) |` (- snd ` set fs))"
        "\<forall>p' b. p' \<notin> snd ` set fs \<and> (A(p := None)) p' = Some b \<longrightarrow> vt_bytes V m' p' (nat b) = vt_bytes V m1 p' (nat b)"
      using Cons.IH [OF m1(2)] by blast
    have "(A(p := None)) |` (- snd ` set fs) = A |` (- snd ` set (f # fs))"
      using f by (auto simp: restrict_map_def fun_eq_iff)
    moreover have "vt_bytes V m' p' (nat b) = vt_bytes V m p' (nat b)"
      if "p' \<notin> snd ` set (f # fs)" "A p' = Some b" for p' b
      using that IH(4) m1(3) f by (auto split: if_splits)
    ultimately show ?thesis using True f m1(1) IH(1,2,3) by (intro exI [of _ "f # fs"] exI [of _ q'] exI [of _ m']) auto
  qed
qed

end

text \<open>
  C19: A call of \<open>ShmEpochRecycle::Recycle\<close> in the middle of any such interleaving, on
  \<open>PersistLoopShmMalloc\<close>: it succeeds, and it is a run of those steps. Every thousandth call raises the
  current epoch by one and makes everything safe that is older than every epoch in the table; the
  others leave the epochs alone. The block comes last in the queue; the oldest entries, exactly as long as
  their epochs are safe, are returned to the allocator. None of them is held by a reader, and every block
  a reader still holds keeps its bytes.
\<close>

theorem epoch_Recycle_correct:
  assumes "(epoch_step False)\<^sup>*\<^sup>* (world_new k X) w" and "manages em w" and "w_queue w r = er_queue rc"
    and "x \<in> w_removed w" and "w_scan w r = None" and "w_current w + 1 \<noteq> 0"
    and "class_inv n m A" and "distinct (map snd (er_queue rc) @ [x])"
    and "\<forall>p \<in> insert x (snd ` set (er_queue rc)). A p \<noteq> None"
  shows "\<exists>rc' em' m' fs w'. epoch_Recycle loop_vt (Some x) rc em m = Inr (rc', em', m') \<and>
    (epoch_step False)\<^sup>*\<^sup>* w w' \<and> manages em' w' \<and> w_queue w' r = er_queue rc' \<and> w_freed w' = w_freed w \<union> snd ` set fs \<and>
    er_count rc' = er_count rc + 1 \<and>
    (if er_count rc' mod 1000 = 0
     then em_current em' = em_current em + 1 \<and>
       em_safe em' = Min (insert (em_current em) {ee_epoch en |en. en \<in> set (em_table em) \<and> ee_epoch en \<noteq> 0}) - 1
     else em' = em) \<and>
    er_queue rc @ [(em_current em, x)] = fs @ er_queue rc' \<and> (\<forall>(e, p) \<in> set fs. e \<le> em_safe em') \<and>
    (er_queue rc' \<noteq> [] \<longrightarrow> em_safe em' < fst (hd (er_queue rc'))) \<and>
    class_inv n m' (A |` (- snd ` set fs)) \<and>
    (\<forall>t. \<forall>p \<in> w_held w t. p \<notin> snd ` set fs \<and>
      (\<forall>b. A p = Some b \<longrightarrow> vt_bytes loop_vt m' p (nat b) = vt_bytes loop_vt m p (nat b)))"
proof -
  let ?q = "er_queue rc @ [(em_current em, x)]"
  let ?em = "if (er_count rc + 1) mod 1000 = 0 then BumpCurrentEpoch em else em"
  have "distinct (map snd ?q)" "\<forall>p \<in> snd ` set ?q. A p \<noteq> None" using assms(8,9) by auto
  from one_class.drain_frees [OF assms(7) this, of "\<lambda>e. IsSafeToReclaim e ?em"] obtain fs q' m' where
    D: "drain (malloc_free loop_vt) (\<lambda>e. IsSafeToReclaim e ?em) ?q m = Inr (q', m')" "?q = fs @ q'"
      "class_inv n m' (A |` (- snd ` set fs))"
      "\<forall>p b. p \<notin> snd ` set fs \<and> A p = Some b \<longrightarrow> vt_bytes loop_vt m' p (nat b) = vt_bytes loop_vt m p (nat b)"
    by blast
  then have run: "epoch_Recycle loop_vt (Some x) rc em m = Inr (rc\<lparr>er_queue := q', er_count := er_count rc + 1\<rparr>, ?em, m')"
    by (simp add: epoch_Recycle_def Let_def GetCurrentEpoch_def)
  let ?rc = "rc\<lparr>er_queue := q', er_count := er_count rc + 1\<rparr>"
  have rc: "er_queue ?rc = q'" "er_count ?rc = er_count rc + 1" by simp_all
  obtain w' fs' where "(epoch_step False)\<^sup>*\<^sup>* w w'" "manages ?em w'" "w_queue w' r = er_queue ?rc"
    "w_freed w' = w_freed w \<union> snd ` set fs'" "?q = fs' @ er_queue ?rc" "w_held w' = w_held w"
    "\<forall>(e, p) \<in> set fs'. IsSafeToReclaim e ?em" "er_queue ?rc \<noteq> [] \<longrightarrow> \<not> IsSafeToReclaim (fst (hd (er_queue ?rc))) ?em"
    by (rule epoch_Recycle_steps [OF run assms(2-6), where nested = False]) (rule that)
  note W = this [unfolded rc]
  have fs: "fs' = fs" using W(5) D(2) by simp
  have "(epoch_step False)\<^sup>*\<^sup>* (world_new k X) w'" using assms(1) W(1) by (rule rtranclp_trans)
  then have held: "p \<notin> snd ` set fs" if "p \<in> w_held w t" for t p
    using held_not_freed [of k X w' p t] that W(4,6) fs by simp
  have em: "if (er_count rc + 1) mod 1000 = 0
     then em_current ?em = em_current em + 1 \<and>
       em_safe ?em = Min (insert (em_current em) {ee_epoch en |en. en \<in> set (em_table em) \<and> ee_epoch en \<noteq> 0}) - 1
     else ?em = em"
    by (simp add: BumpCurrentEpoch_fields)
  have front: "\<forall>(e, p) \<in> set fs. e \<le> em_safe ?em" "q' \<noteq> [] \<longrightarrow> em_safe ?em < fst (hd q')"
    using W(7,8) unfolding fs IsSafeToReclaim_def by (simp_all only: not_le)
  have bytes: "\<forall>t. \<forall>p \<in> w_held w t. p \<notin> snd ` set fs \<and>
      (\<forall>b. A p = Some b \<longrightarrow> vt_bytes loop_vt m' p (nat b) = vt_bytes loop_vt m p (nat b))"
    using held D(4) by blast
  show ?thesis
    by (intro exI conjI, rule run, rule W(1), rule W(2), unfold rc, rule W(3), rule W(4) [unfolded fs], rule refl, rule em,
        rule D(2), rule front(1), rule front(2), rule D(3), rule bytes)
qed

section \<open>Nested protection\<close>

text \<open>A world of one reader and one recycler, numbered 0.\<close>

definition demo_world ::
  "epoch \<Rightarrow> epoch \<Rightarrow> epoch \<Rightarrow> epoch option \<Rightarrow> 'x set \<Rightarrow> 'x set \<Rightarrow> 'x set \<Rightarrow> (epoch \<times> 'x) list \<Rightarrow> (nat \<times> epoch) option \<Rightarrow>
    'x set \<Rightarrow> 'x world" where
  "demo_world c s e l H L R Q S F =
     \<lparr>w_current = c, w_safe = s, w_table = [\<lparr>ee_thread_id = 0, ee_epoch = e\<rparr>], w_load = (\<lambda>_. None) (0 := l),
      w_held = (\<lambda>_. {}) (0 := H), w_live = L, w_removed = R, w_queue = (\<lambda>_. []) (0 := Q), w_scan = (\<lambda>_. None) (0 := S),
      w_freed = F\<rparr>"

lemma demo_world_new: "world_new 1 {x} = demo_world 1 0 0 None {} {x} {} [] None {}"
  by (simp add: world_new_def demo_world_def epoch_table_new_def fun_upd_idem)

lemma step_eq: "epoch_step b w w'' \<Longrightarrow> w'' = w' \<Longrightarrow> epoch_step b w w'"
  by simp

lemma demo_read_remove:
  "(epoch_step b)\<^sup>*\<^sup>* (world_new 1 {x}) (demo_world 1 0 1 None {x} {} {x} [] None {})"
  unfolding demo_world_new
proof -
  have "(epoch_step b)\<^sup>*\<^sup>* (demo_world 1 0 0 None {} {x} {} [] None {}) (demo_world 1 0 0 (Some 1) {} {x} {} [] None {})"
    by (rule r_into_rtranclp, rule step_eq, rule epoch_step.Protect_load [where t = 0]) (simp_all add: demo_world_def )
  also have "(epoch_step b)\<^sup>*\<^sup>* (demo_world 1 0 0 (Some 1) {} {x} {} [] None {}) (demo_world 1 0 1 None {} {x} {} [] None {})"
    by (rule r_into_rtranclp, rule step_eq, rule epoch_step.Protect_store [where t = 0 and e = 1]) (simp_all add: demo_world_def entry_EnqueProtect_def)
  also (rtranclp_trans) have "(epoch_step b)\<^sup>*\<^sup>* (demo_world 1 0 1 None {} {x} {} [] None {}) (demo_world 1 0 1 None {x} {x} {} [] None {})"
    by (rule r_into_rtranclp, rule step_eq, rule epoch_step.Read [where t = 0]) (simp_all add: demo_world_def )
  also (rtranclp_trans) have "(epoch_step b)\<^sup>*\<^sup>* (demo_world 1 0 1 None {x} {x} {} [] None {}) (demo_world 1 0 1 None {x} {} {x} [] None {})"
    by (rule r_into_rtranclp, rule step_eq, rule epoch_step.Remove) (simp_all add: demo_world_def )
  finally (rtranclp_trans) show "(epoch_step b)\<^sup>*\<^sup>* (demo_world 1 0 0 None {} {x} {} [] None {}) (demo_world 1 0 1 None {x} {} {x} [] None {})" .
qed

text \<open>
  C39: A reader that protects itself a second time before it has left loses what it held: its entry has room for one
  epoch, the second overwrites the first, and an item it read under the first is freed while it is
  held.
\<close>

theorem nested_protection_unsafe:
  "\<exists>w. (epoch_step True)\<^sup>*\<^sup>* (world_new 1 {x}) w \<and> x \<in> w_held w 0 \<and> x \<in> w_freed w"
proof -
  have "(epoch_step True)\<^sup>*\<^sup>* (demo_world 1 0 1 None {x} {} {x} [] None {}) (demo_world 1 0 1 None {x} {} {} [(1, x)] None {})"
    by (rule r_into_rtranclp, rule step_eq, rule epoch_step.Recycle [where r = 0]) (simp_all add: demo_world_def )
  also have "(epoch_step True)\<^sup>*\<^sup>* (demo_world 1 0 1 None {x} {} {} [(1, x)] None {}) (demo_world 2 0 1 None {x} {} {} [(1, x)] (Some (0, 1)) {})"
    by (rule r_into_rtranclp, rule step_eq, rule epoch_step.Bump [where r = 0]) (simp_all add: demo_world_def )
  also (rtranclp_trans) have "(epoch_step True)\<^sup>*\<^sup>* (demo_world 2 0 1 None {x} {} {} [(1, x)] (Some (0, 1)) {}) (demo_world 2 0 1 None {x} {} {} [(1, x)] (Some (1, 1)) {})"
    by (rule r_into_rtranclp, rule step_eq, rule epoch_step.Scan [where r = 0 and i = 0 and oldest_call = 1]) (simp_all add: demo_world_def older_def entry_MinEpoch_def)
  also (rtranclp_trans) have "(epoch_step True)\<^sup>*\<^sup>* (demo_world 2 0 1 None {x} {} {} [(1, x)] (Some (1, 1)) {}) (demo_world 2 0 1 None {x} {} {} [(1, x)] None {})"
    by (rule r_into_rtranclp, rule step_eq, rule epoch_step.Publish [where r = 0 and oldest_call = 1]) (simp_all add: demo_world_def )
  also (rtranclp_trans) have "(epoch_step True)\<^sup>*\<^sup>* (demo_world 2 0 1 None {x} {} {} [(1, x)] None {}) (demo_world 2 0 1 (Some 2) {x} {} {} [(1, x)] None {})"
    by (rule r_into_rtranclp, rule step_eq, rule epoch_step.Protect_load [where t = 0]) (simp_all add: demo_world_def )
  also (rtranclp_trans) have "(epoch_step True)\<^sup>*\<^sup>* (demo_world 2 0 1 (Some 2) {x} {} {} [(1, x)] None {}) (demo_world 2 0 2 None {x} {} {} [(1, x)] None {})"
    by (rule r_into_rtranclp, rule step_eq, rule epoch_step.Protect_store [where t = 0 and e = 2]) (simp_all add: demo_world_def entry_EnqueProtect_def)
  also (rtranclp_trans) have "(epoch_step True)\<^sup>*\<^sup>* (demo_world 2 0 2 None {x} {} {} [(1, x)] None {}) (demo_world 3 0 2 None {x} {} {} [(1, x)] (Some (0, 2)) {})"
    by (rule r_into_rtranclp, rule step_eq, rule epoch_step.Bump [where r = 0]) (simp_all add: demo_world_def )
  also (rtranclp_trans) have "(epoch_step True)\<^sup>*\<^sup>* (demo_world 3 0 2 None {x} {} {} [(1, x)] (Some (0, 2)) {}) (demo_world 3 0 2 None {x} {} {} [(1, x)] (Some (1, 2)) {})"
    by (rule r_into_rtranclp, rule step_eq, rule epoch_step.Scan [where r = 0 and i = 0 and oldest_call = 2]) (simp_all add: demo_world_def older_def entry_MinEpoch_def)
  also (rtranclp_trans) have "(epoch_step True)\<^sup>*\<^sup>* (demo_world 3 0 2 None {x} {} {} [(1, x)] (Some (1, 2)) {}) (demo_world 3 1 2 None {x} {} {} [(1, x)] None {})"
    by (rule r_into_rtranclp, rule step_eq, rule epoch_step.Publish [where r = 0 and oldest_call = 2]) (simp_all add: demo_world_def )
  also (rtranclp_trans) have "(epoch_step True)\<^sup>*\<^sup>* (demo_world 3 1 2 None {x} {} {} [(1, x)] None {}) (demo_world 3 1 2 None {x} {} {} [] None {x})"
    by (rule r_into_rtranclp, rule step_eq, rule epoch_step.Free [where r = 0 and e = 1 and x = x and q = "[]"]) (simp_all add: demo_world_def )
  finally (rtranclp_trans) have "(epoch_step True)\<^sup>*\<^sup>* (world_new 1 {x}) (demo_world 3 1 2 None {x} {} {} [] None {x})"
    using demo_read_remove rtranclp_trans by fast
  then show ?thesis by (intro exI conjI) (assumption, simp_all add: demo_world_def)
qed

section \<open>Entries\<close>

lemma around:
  fixes j n s :: nat
  assumes "j < n"
  shows "\<exists>i < n. j = (s + i) mod n"
proof (intro exI conjI)
  let ?i = "(j + n - s mod n) mod n"
  show "?i < n" using assms by simp
  have "s mod n < n" using assms by simp
  then have "s mod n + (j + n - s mod n) = j + n" by linarith
  then have "(s mod n + (j + n - s mod n)) mod n = j" using assms by simp
  then show "j = (s + ?i) mod n" by (metis mod_add_left_eq mod_add_right_eq)
qed

definition entries_ok :: "epoch_manager \<Rightarrow> bool" where
  "entries_ok em \<longleftrightarrow> (\<forall>t i. em_entry em t = Some i \<longrightarrow> t \<noteq> 0 \<and> i < length (em_table em) \<and> ee_thread_id (em_table em ! i) = t)"

text \<open>
  C40: Every thread has an entry of its own: \<open>GetEntryForThread\<close> gives a thread the entry it has or one that no other
  thread has, and ends the process exactly when the thread is new and every entry has been taken by
  some thread before, whether or not that thread still runs.
\<close>

theorem GetEntryForThread_correct:
  assumes "entries_ok em" and "t \<noteq> 0" and "0 < length (em_table em)"
  shows "case GetEntryForThread h t em of
      Inl e \<Rightarrow> e = Log_fatal \<and> em_entry em t = None \<and> (\<forall>en \<in> set (em_table em). ee_thread_id en \<noteq> 0)
    | Inr (em', i) \<Rightarrow> entries_ok em' \<and> em_entry em' = (em_entry em)(t \<mapsto> i) \<and> (\<forall>t'. t' \<noteq> t \<longrightarrow> em_entry em t' \<noteq> Some i)"
proof (cases "em_entry em t")
  case (Some i)
  then show ?thesis using assms(1) by (auto simp: GetEntryForThread_def entries_ok_def fun_upd_idem)
next
  case None
  let ?T = "em_table em" and ?s = "unat (h t mod of_nat (length (em_table em)))"
  let ?free = "filter (\<lambda>i. ee_thread_id (?T ! i) = 0) (map (\<lambda>i. (?s + i) mod length ?T) [0..<length ?T])"
  have all: "\<exists>i < length ?T. j = (?s + i) mod length ?T" if "j < length ?T" for j
    using that by (rule around)
  show ?thesis
  proof (cases ?free)
    case Nil
    have "ee_thread_id en \<noteq> 0" if "en \<in> set ?T" for en
    proof -
      from that obtain j where j: "j < length ?T" "en = ?T ! j" by (auto simp: in_set_conv_nth)
      with all obtain i where "i < length ?T" "j = (?s + i) mod length ?T" by blast
      with Nil j(2) show ?thesis by (auto simp: filter_empty_conv)
    qed
    then show ?thesis using None Nil by (simp add: GetEntryForThread_def ReserveEntry_def)
  next
    case (Cons i is')
    then have "i \<in> set ?free" by simp
    then have i: "i < length ?T" "ee_thread_id (?T ! i) = 0" using assms(3) by auto
    then have other: "em_entry em t' \<noteq> Some i" for t' using assms(1) by (auto simp: entries_ok_def)
    have "entries_ok (em\<lparr>em_table := ?T[i := (?T ! i)\<lparr>ee_thread_id := t\<rparr>], em_entry := (em_entry em)(t \<mapsto> i)\<rparr>)"
      using assms(1,2) i other by (auto simp: entries_ok_def nth_list_update)
    then show ?thesis using None Cons other by (simp add: GetEntryForThread_def ReserveEntry_def)
  qed
qed

section \<open>Witnesses\<close>

theorem epoch_reclamation_safe_witness: "5 \<notin> w_freed (demo_world 1 0 1 None {5 :: int} {} {5} [] None {})"
  using epoch_reclamation_safe [OF demo_read_remove, of 5 5 0] by (simp add: demo_world_def)

lemma demo_blocks: obtains m where "class_inv 1 m [8 \<mapsto> 8, 24 \<mapsto> 8]"
proof -
  have c: "class_request 1 8" using demo_request by simp
  have "\<exists>m. vt_New loop_vt 8 demo_arena = Inr (demo1, Some 8)" "vt_New loop_vt 8 demo1 = Inr (demo2, Some 24)"
    using New_after_call [OF demo_answer1] New_after_call [OF demo_answer2]
    by (simp_all add: loop_vt_def demo1_def demo2_def del: after_call.simps answer.simps)
  moreover from this(1) one_class.New [OF demo_class_inv c] have m1: "class_inv 1 demo1 [8 \<mapsto> 8]" by auto
  ultimately have "class_inv 1 demo2 [8 \<mapsto> 8, 24 \<mapsto> 8]" using one_class.New [OF m1 c] by auto
  with that show thesis .
qed

text \<open>
  A world of two blocks: block 8 has been recycled in the first epoch, which is over; a reader that came in the
  second holds block 24, which has been taken out of the index.
\<close>

lemma demo_held_run:
  assumes "x \<noteq> y"
  shows "(epoch_step b)\<^sup>*\<^sup>* (world_new 1 {x, y}) (demo_world 2 0 2 None {y} ({x, y} - {x} - {y}) {y} [(1, x)] None {})"
proof -
  let ?X = "{x, y}"
  have "(epoch_step b)\<^sup>*\<^sup>* (world_new 1 ?X) (demo_world 1 0 0 None {} (?X - {x}) {x} [] None {})"
    by (rule r_into_rtranclp, rule step_eq, rule epoch_step.Remove [where x = x])
      (simp_all add: demo_world_def world_new_def epoch_table_new_def fun_upd_idem)
  also have "(epoch_step b)\<^sup>*\<^sup>* \<dots> (demo_world 1 0 0 None {} (?X - {x}) {} [(1, x)] None {})"
    by (rule r_into_rtranclp, rule step_eq, rule epoch_step.Recycle [where r = 0 and x = x]) (simp_all add: demo_world_def)
  also (rtranclp_trans) have "(epoch_step b)\<^sup>*\<^sup>* \<dots> (demo_world 2 0 0 None {} (?X - {x}) {} [(1, x)] (Some (0, 1)) {})"
    by (rule r_into_rtranclp, rule step_eq, rule epoch_step.Bump [where r = 0]) (simp_all add: demo_world_def)
  also (rtranclp_trans) have "(epoch_step b)\<^sup>*\<^sup>* \<dots> (demo_world 2 0 0 None {} (?X - {x}) {} [(1, x)] (Some (1, 1)) {})"
    by (rule r_into_rtranclp, rule step_eq, rule epoch_step.Scan [where r = 0 and i = 0 and oldest_call = 1])
      (simp_all add: demo_world_def older_def entry_MinEpoch_def)
  also (rtranclp_trans) have "(epoch_step b)\<^sup>*\<^sup>* \<dots> (demo_world 2 0 0 None {} (?X - {x}) {} [(1, x)] None {})"
    by (rule r_into_rtranclp, rule step_eq, rule epoch_step.Publish [where r = 0 and oldest_call = 1]) (simp_all add: demo_world_def)
  also (rtranclp_trans) have "(epoch_step b)\<^sup>*\<^sup>* \<dots> (demo_world 2 0 0 (Some 2) {} (?X - {x}) {} [(1, x)] None {})"
    by (rule r_into_rtranclp, rule step_eq, rule epoch_step.Protect_load [where t = 0]) (simp_all add: demo_world_def)
  also (rtranclp_trans) have "(epoch_step b)\<^sup>*\<^sup>* \<dots> (demo_world 2 0 2 None {} (?X - {x}) {} [(1, x)] None {})"
    by (rule r_into_rtranclp, rule step_eq, rule epoch_step.Protect_store [where t = 0 and e = 2])
      (simp_all add: demo_world_def entry_EnqueProtect_def)
  also (rtranclp_trans) have "(epoch_step b)\<^sup>*\<^sup>* \<dots> (demo_world 2 0 2 None {y} (?X - {x}) {} [(1, x)] None {})"
    by (rule r_into_rtranclp, rule step_eq, rule epoch_step.Read [where t = 0 and x = y]) (simp_all add: demo_world_def assms)
  also (rtranclp_trans) have "(epoch_step b)\<^sup>*\<^sup>* \<dots> (demo_world 2 0 2 None {y} (?X - {x} - {y}) {y} [(1, x)] None {})"
    by (rule r_into_rtranclp, rule step_eq, rule epoch_step.Remove [where x = y]) (simp_all add: demo_world_def assms)
  finally (rtranclp_trans) show ?thesis .
qed

definition demo_manager :: epoch_manager where
  "demo_manager =
     \<lparr>em_current = 2, em_safe = 0, em_table = [\<lparr>ee_thread_id = 0, ee_epoch = 2\<rparr>], em_entry = Map.empty\<rparr>"

text \<open>The thousandth call frees block 8 and keeps block 24.\<close>

theorem epoch_Recycle_correct_witness:
  "\<exists>m rc em m'. epoch_Recycle loop_vt (Some 24) \<lparr>er_queue = [(1, 8)], er_count = 999\<rparr> demo_manager m = Inr (rc, em, m') \<and>
    em_safe em = 1 \<and> er_queue rc = [(2, 24)] \<and> class_inv 1 m' [24 \<mapsto> 8]"
proof -
  obtain m where m: "class_inv 1 m [8 \<mapsto> 8, 24 \<mapsto> 8]" by (rule demo_blocks)
  let ?w = "demo_world 2 0 2 None {24 :: int} ({8, 24} - {8} - {24}) {24} [(1, 8)] None {}" and ?rc = "\<lparr>er_queue = [(1, 8)], er_count = 999\<rparr>"
  have w: "manages demo_manager ?w" "w_queue ?w 0 = er_queue ?rc" "24 \<in> w_removed ?w" "w_scan ?w 0 = None" "w_current ?w + 1 \<noteq> 0"
    by (simp_all add: manages_def demo_manager_def demo_world_def)
  have q: "distinct (map snd (er_queue ?rc) @ [24])" "\<forall>p \<in> insert 24 (snd ` set (er_queue ?rc)). [8 \<mapsto> 8, 24 \<mapsto> 8] p \<noteq> (None :: int option)"
    by simp_all
  have E: "{ee_epoch en |en. en \<in> set (em_table demo_manager) \<and> ee_epoch en \<noteq> 0} = {2}" by (auto simp: demo_manager_def)
  have c: "em_current demo_manager = 2" by (simp add: demo_manager_def)
  have "(epoch_step False)\<^sup>*\<^sup>* (world_new 1 {8, 24}) ?w" by (rule demo_held_run) simp
  from epoch_Recycle_correct [OF this w m q] obtain rc em m' fs where
    R: "epoch_Recycle loop_vt (Some 24) ?rc demo_manager m = Inr (rc, em, m')" "er_count rc = er_count ?rc + 1"
      "if er_count rc mod 1000 = 0
       then em_current em = em_current demo_manager + 1 \<and> em_safe em =
         Min (insert (em_current demo_manager) {ee_epoch en |en. en \<in> set (em_table demo_manager) \<and> ee_epoch en \<noteq> 0}) - 1
       else em = demo_manager"
      "er_queue ?rc @ [(em_current demo_manager, 24)] = fs @ er_queue rc" "\<forall>(e, p) \<in> set fs. e \<le> em_safe em"
      "er_queue rc \<noteq> [] \<longrightarrow> em_safe em < fst (hd (er_queue rc))" "class_inv 1 m' ([8 \<mapsto> 8, 24 \<mapsto> 8] |` (- snd ` set fs))"
    by (elim exE conjE) (rule that)
  have safe: "em_safe em = 1" using R(2,3) unfolding E c by simp
  have fs: "fs = [(1, 8)] \<and> er_queue rc = [(2, 24)]"
    using R(4-6) unfolding c safe by (auto simp: Cons_eq_append_conv word_le_nat_alt word_less_nat_alt dest: sym)
  then have "[8 \<mapsto> 8, 24 \<mapsto> 8] |` (- snd ` set fs) = [24 \<mapsto> (8 :: int)]" by (auto simp: restrict_map_def)
  with R(1,7) safe fs show ?thesis by metis
qed

theorem GetEntryForThread_correct_witness:
  "case GetEntryForThread id 7 (epoch_manager_new 1) of Inl e \<Rightarrow> False | Inr (em, i) \<Rightarrow> em_entry em = [7 \<mapsto> i]"
  using GetEntryForThread_correct [of "epoch_manager_new 1" 7 id]
  by (auto simp: entries_ok_def epoch_manager_new_def epoch_table_new_def split: sum.splits)

end
