(* ===== verification/Spec2Isabelle.thy ===== *)
theory Spec2Isabelle
  imports Prelude Pointers LoopMalloc LoopRuns ExtendibleHash EngineConfig MallocApi KVEngines EngineRuns
    LruQueue BlockHeap HybridStore HybridRuns HybridEvict
    Bitmap MemoryPool PoolSafety PoolRuns SimpleMalloc
    HeapQueue HashFunctions CCEHSegment CCEHSplit PageStore CCEH CCEHFlat CCEHPages CCEHSteps CCEHRuns CCEHMap PagedEngine
    PetHash PetTable PetInsert PetReload PetRuns
    FlatBlock FlatStream Parameters FloatStore CachePS PsServer PsClient PsRuns PsFlat PsProps
    ShardClient ShardRuns ShardProps Prefetch PrefetchRuns PrefetchProps
    Epoch EpochSafe EpochProps
begin

text \<open>
  RecStore is a parameter store for recommendation models: servers keep embedding vectors under
  64-bit keys, clients put, get and train them over the network. This development models the storage
  layer (\<open>storage\<close>, \<open>memory\<close>) and, above it, the parameter server with its brpc service and clients
  (\<open>ps\<close>, \<open>optimizer\<close>). All file names below are relative to \<open>src/\<close> of the repository's source directory.

  \<^bold>\<open>How the parts fit together.\<close> A server opens one KV engine, chosen from a JSON configuration
  (\<open>storage/kv_engine/engine_selector.h\<close>). An engine joins an index, which maps a key to a 64-bit
  word, with a place for the values, and that word says where the value is.
  \<^item> \<open>KVEngineExtendibleHash\<close> and \<open>KVEngineMap\<close>: values in shared memory from an allocator
    (\<open>memory/allocators\<close>), found through the DRAM extendible hash or a hash map.
  \<^item> \<open>KVEngineHybrid\<close>: short values in the word itself, longer ones in a DRAM arena, the least
    recently used ones evicted to a second arena on SSD (\<open>storage/hybrid/value.h\<close>).
  \<^item> \<open>KVEngineCCEH\<close>: values in consecutive pages of one page device
    (\<open>storage/io_backend/io_backend.h\<close>), found through CCEH (\<open>storage/ssd/CCEH.cpp\<close>), a hash index
    whose directory and segments are pages of a second device.

  Above the engine, \<open>CachePS\<close> (\<open>ps/base/cache_ps_impl.h\<close>) stores a row of floats under each key and lets an optimizer step
  rows in place; a brpc server (\<open>ps/brpc/brpc_ps_server.cpp\<close>) runs it for clients that send keys and rows in
  flat blocks (\<open>base/flatc.h\<close>), one client per server (\<open>ps/brpc/brpc_ps_client.cpp\<close>) or one over all shards
  (\<open>ps/brpc/dist_brpc_ps_client.cpp\<close>).

  \<^bold>\<open>Theories, in the order of import.\<close>
  \<^item> \<open>Prelude\<close>: word widths, results (a value, or the failure that ended the call: an aborted process, an exception, a bad access), the fact
    collections and the little lemmas on lists and words that the others share.
  \<^item> \<open>Pointers\<close>: the three encodings of a location (\<open>UnifiedPointer\<close>, \<open>PetKVData\<close>, the packed page
    value) with their round trips.
  \<^item> \<open>LoopMalloc\<close>, \<open>LoopRuns\<close>: \<open>PersistLoopShmMalloc\<close>, the loop-first-fit allocator with its bitmap,
    header words, fast lists and recovery. The invariant relates the bitmap, the size words and the set
    of live allocations. With one size class the allocator is safe; with several, the fast lists
    hand out live memory, which a concrete run shows.
  \<^item> \<open>Bitmap\<close>, \<open>MemoryPool\<close>, \<open>PoolSafety\<close>, \<open>PoolRuns\<close>: \<open>BitMap\<close> of \<open>base/bitmap.h\<close>, the chunks and lists of
    \<open>PersistMemoryPool\<close>, and runs of a client that only frees what it holds. \<open>SimpleMalloc\<close>: the bump
    allocator of the same header.
  \<^item> \<open>MallocApi\<close>, \<open>BlockHeap\<close>: the interface \<open>memory/malloc.h\<close> as a locale, interpreted on
    \<open>PersistLoopShmMalloc\<close>, and its reading as a heap of byte blocks, on which the engines rest.
  \<^item> \<open>Epoch\<close>, \<open>EpochSafe\<close>, \<open>EpochProps\<close>: epoch-based reclamation of \<open>memory/epoch_manager.h\<close> and the recyclers of
    \<open>memory/malloc.h\<close>, as functions and as a step relation of readers, removers and recyclers that interleave at
    every access to shared memory; its invariant, and the operations as runs of the steps.
  \<^item> \<open>ExtendibleHash\<close>: the DRAM index. Its invariant (depths, patterns, every directory entry at the
    block of its prefix) is kept by \<open>Insert\<close>, \<open>Split\<close>, \<open>Delete\<close>, and \<open>Put\<close>/\<open>Get\<close> behave as a map.
  \<^item> \<open>EngineConfig\<close>: \<open>ResolveEngine\<close> and the allocator names, on a model of the JSON values they read.
  \<^item> \<open>KVEngines\<close>, \<open>EngineRuns\<close>: the two shared-memory engines as refinements of a map from keys to bytes,
    over any index and allocator that meet the laws of the locales.
  \<^item> \<open>LruQueue\<close>, \<open>HybridStore\<close>, \<open>HybridRuns\<close>, \<open>HybridEvict\<close>: the recency queue as a list of distinct keys, the value manager with
    eviction and promotion and the engine above it. Eviction is split at its lock boundaries; while a writer
    waits, the evictor does any sequence of rounds, single evictions and single promotions (\<open>evictor_run\<close>). Its
    walk over the hot keys steps from an erased element when it goes on after an erasure, a \<open>Bad_access\<close>.
  \<^item> \<open>HeapQueue\<close>: \<open>CustomPriorityQueue\<close> of \<open>base/pq.h\<close>, a binary heap with an index map.
  \<^item> \<open>HashFunctions\<close>: jenkins, murmur2 and xxhash of \<open>storage/ssd/hash.h\<close> on bytes.
  \<^item> \<open>PageStore\<close>: the page device.
  \<^item> \<open>CCEHSegment\<close>, \<open>CCEHSplit\<close>: one segment page: probing windows, the cuckoo path search, \<open>Split\<close> and which
    pairs survive it. \<open>CCEH\<close>: the index on its device. \<open>CCEHFlat\<close>, \<open>CCEHPages\<close>: the same index without pages,
    and the correspondence. \<open>CCEHSteps\<close>, \<open>CCEHRuns\<close>, \<open>CCEHMap\<close>: one turn of \<open>Put\<close>, a whole \<open>Put\<close>, and runs from the
    constructor as updates of a map.
  \<^item> \<open>PagedEngine\<close>: \<open>KVEngineCCEH\<close> with its batch operations over two devices.
  \<^item> \<open>PetHash\<close>, \<open>PetTable\<close>, \<open>PetInsert\<close>, \<open>PetReload\<close>, \<open>PetRuns\<close>: the persistent hash table of \<open>storage/nvm/pet_kv\<close>, chunks of fourteen
    slots with signatures and overflow counters: the probing invariant, insertion, recovery from the entries
    alone (\<open>crash_image\<close>: tags, sizes, overflow counters and migration flags are arbitrary after a crash), and
    runs as updates of a map.
  \<^item> \<open>FlatBlock\<close>, \<open>FlatStream\<close>, \<open>Parameters\<close>: the flat blocks of the wire format, readers with every access checked
    against the end of the buffer, compressors, and the item that carries a key and its floats.
  \<^item> \<open>FloatStore\<close>, \<open>CachePS\<close>: \<open>BaseKV\<close>'s virtual functions as a record, the locale of engines that keep rows of
    floats, interpreted on both shared-memory engines; optimizers, sparse tensors and the parameter server on it.
  \<^item> \<open>PsServer\<close>, \<open>PsClient\<close>, \<open>PsRuns\<close>, \<open>PsFlat\<close>, \<open>PsProps\<close>: the service's handlers, the client's operations, and both together
    for any fate of the calls between them: what a put leaves, what a get returns, how often an update counts.
  \<^item> \<open>ShardClient\<close>, \<open>ShardRuns\<close>, \<open>ShardProps\<close>: the client over all shards; its servers together are one map of rows.
  \<^item> \<open>Prefetch\<close>, \<open>PrefetchRuns\<close>, \<open>PrefetchProps\<close>: batches asked for in advance as a step relation of calls that end in any
    order while other clients write, with its invariant over all reachable states.

  \<^bold>\<open>State and operations.\<close> A C++ class is a record with its fields; a method is a function that takes the record and
  returns it updated, with its result. Memory that the source addresses through pointers (the mapped
  arenas, the page files) is a function from addresses to words or bytes. Integers keep their width
  where the source can wrap them. \<open>CHECK\<close>, \<open>LOG(FATAL)\<close>, \<open>assert\<close> and
  exceptions are constructors of \<open>failure\<close> on the left of a sum; an access past an array, which C++ leaves
  undefined, is the failure \<open>Bad_access\<close>.

  \<^bold>\<open>Code outside the repository.\<close> \<open>std::_Hash_bytes\<close> is the argument \<open>h\<close> of the extendible hash and one of
  the two hash arguments of CCEH; theorems hold for every such function unless they name a
  hypothesis on it. The CRC of \<open>PetHash\<close> and CityHash are such arguments too. The brpc library is the \<open>fate\<close> of each call: how
  often the handler ran and whether the client saw an answer. The expressions of the optimizers over
  floats are the fields of \<open>float_ops\<close>, and JSON is parsed by an argument. \<open>std::filesystem\<close> and \<open>mmap\<close> appear only through the initial contents of memory.

  \<^bold>\<open>Fuel.\<close> Some loops have no structural measure. \<open>ExtendibleHash::Insert\<close> calls itself after a
  split: 32 turns are enough, as every turn that goes on raises a depth that stays at most 30
  (\<open>eh_Put_Get\<close>), and with a capacity that is not a power of two no fuel may be (\<open>eh_Insert_diverges\<close>). \<open>CCEH::Put\<close>
  repeats until the pair is in: 18 turns are enough, as every repetition raises the local depth of the segment of the
  key, which 510 directory pages of 512 entries keep below 18 (\<open>cceh_Put_Get_correct\<close>). The search of \<open>find_path\<close> has
  its own bound in the source. A turn of \<open>Put\<close> takes at most 300 pages, a whole one at most 5400; the hypotheses
  that speak of room ask for that many page ids below the device's limit.

  \<^bold>\<open>What the lemmas show.\<close> For every component: the invariant is established by the constructor and
  kept by each operation; each operation's result on every branch, errors included; the refinement of the abstract state
  (map, set of live blocks, recency list, multiset of priorities) the component stands for. Where the
  code does not do what it promises, a theorem with a concrete run says so.

  \<^bold>\<open>Not modelled.\<close> Threads, except where a component is split at its lock boundaries or atomic accesses as above; the coroutine
  variants of the SSD index and of \<open>CachePS\<close>, the io_uring and SPDK drivers and cache-line flushes, whose effect on a
  single thread is that of the synchronous calls; the gRPC and RDMA front ends and the
  Python and PyTorch bindings, which are calls into their frameworks; the PetKV store above \<open>PetHash\<close>; everything that runs on a GPU
  (\<open>storage/gpu_cache\<close>, \<open>gpu_memory\<close>, \<open>framework/frugal\<close>); the vendored \<open>base/robin_hood.h\<close>, \<open>gdrcopy\<close> and
  \<open>third_party\<close>; benchmarks, tests and examples.
\<close>

end
